(* ===== verification/Prelude.thy ===== *)
theory Prelude
  imports Main "HOL-Library.Word"
begin

unbundle bit_operations_syntax

text \<open>
  Shared vocabulary of the development.

  \<^item> The machine integers of \<^verbatim>\<open>include/mnos/cpu/common/types.hpp\<close>.
  \<^item> The C++ exceptions that the sources throw and catch, as the values of one datatype; the
    message strings are diagnostics and are left out, the exception class is kept because
    \<^verbatim>\<open>catch\<close> clauses select on it. \<open>Undefined_behaviour\<close> is no exception of the sources: a model returns
    it where the C++ code would access memory outside a buffer, and no handler catches it.
  \<^item> \<open>op\<close>: a method that reads and writes a state and may throw. The state comes back on the
    exceptional path too, because a C++ method that throws keeps the writes it has already
    made. The combinators \<open>bnd\<close>, \<open>throw\<close>, \<open>require\<close>, \<open>catch_exn\<close> and \<open>focus\<close> are the
    sequencing, \<^verbatim>\<open>throw\<close>, guard, \<^verbatim>\<open>try/catch\<close> and member access of the sources.
  \<^item> Generic facts on lists and words.
\<close>

section \<open>Machine integers\<close>

type_synonym byte = "8 word"
type_synonym dword = "32 word"
type_synonym qword = "64 word"
type_synonym address64 = "64 word"

section \<open>Exceptions\<close>

datatype memory_access_kind = READ | WRITE | EXECUTE

datatype page_fault_reason =
    NOT_PRESENT | WRITE_PROTECTION | USER_SUPERVISOR | EXECUTE_DISABLE | RESERVED_BIT

record page_fault =
  pf_linear_address :: address64
  pf_access_kind :: memory_access_kind
  pf_reason :: page_fault_reason
  pf_error_code :: qword

datatype exn =
    Out_of_range
  | Logic_error
  | Invalid_argument
  | Overflow_error
  | Length_error
  | Runtime_error
  | Bad_alloc
  | Undefined_behaviour
  | Page_fault page_fault

section \<open>Operations on a state that may throw\<close>

type_synonym ('s, 'a) op = "'s \<Rightarrow> (exn + 'a) \<times> 's"

definition ret :: "'a \<Rightarrow> ('s, 'a) op" where
  "ret x = (\<lambda>s. (Inr x, s))"

definition throw :: "exn \<Rightarrow> ('s, 'a) op" where
  "throw e = (\<lambda>s. (Inl e, s))"

definition bnd :: "('s, 'a) op \<Rightarrow> ('a \<Rightarrow> ('s, 'b) op) \<Rightarrow> ('s, 'b) op" where
  "bnd m f = (\<lambda>s. case m s of (Inl e, s') \<Rightarrow> (Inl e, s') | (Inr x, s') \<Rightarrow> f x s')"

definition sq :: "('s, 'a) op \<Rightarrow> ('s, 'b) op \<Rightarrow> ('s, 'b) op" where
  "sq m n = bnd m (\<lambda>_. n)"

definition gets :: "('s \<Rightarrow> 'a) \<Rightarrow> ('s, 'a) op" where
  "gets f = (\<lambda>s. (Inr (f s), s))"

definition modify :: "('s \<Rightarrow> 's) \<Rightarrow> ('s, unit) op" where
  "modify f = (\<lambda>s. (Inr (), f s))"

definition require :: "bool \<Rightarrow> exn \<Rightarrow> ('s, unit) op" where
  "require c e = (if c then ret () else throw e)"

definition lift_sum :: "exn + 'a \<Rightarrow> ('s, 'a) op" where
  "lift_sum r = (\<lambda>s. (r, s))"

definition catch_exn :: "('s, 'a) op \<Rightarrow> (exn \<Rightarrow> ('s, 'a) op) \<Rightarrow> ('s, 'a) op" where
  "catch_exn m h = (\<lambda>s. case m s of (Inl e, s') \<Rightarrow> h e s' | (Inr x, s') \<Rightarrow> (Inr x, s'))"

text \<open>
  \<open>focus get upd m\<close> runs an operation on one component of a bigger state, as a call on a member
  object does; \<open>upd\<close> is the record's field update.
\<close>

definition focus ::
  "('s \<Rightarrow> 't) \<Rightarrow> (('t \<Rightarrow> 't) \<Rightarrow> 's \<Rightarrow> 's) \<Rightarrow> ('t, 'a) op \<Rightarrow> ('s, 'a) op" where
  "focus get upd m = (\<lambda>s. case m (get s) of (r, t) \<Rightarrow> (r, upd (\<lambda>_. t) s))"

primrec for_each :: "('a \<Rightarrow> ('s, unit) op) \<Rightarrow> 'a list \<Rightarrow> ('s, unit) op" where
  "for_each f [] = ret ()"
| "for_each f (x # xs) = sq (f x) (for_each f xs)"

text \<open>The two sum types of an \<open>exn + 'a\<close> computation with no state.\<close>

definition sbind :: "exn + 'a \<Rightarrow> ('a \<Rightarrow> exn + 'b) \<Rightarrow> exn + 'b" where
  "sbind r f = (case r of Inl e \<Rightarrow> Inl e | Inr x \<Rightarrow> f x)"

named_theorems op_simps "execution of the operation combinators"

lemma ret_run [op_simps]: "ret x s = (Inr x, s)"
  by (simp add: ret_def)

lemma throw_run [op_simps]: "throw e s = (Inl e, s)"
  by (simp add: throw_def)

lemma gets_run [op_simps]: "gets f s = (Inr (f s), s)"
  by (simp add: gets_def)

lemma modify_run [op_simps]: "modify f s = (Inr (), f s)"
  by (simp add: modify_def)

lemma lift_sum_run [op_simps]: "lift_sum r s = (r, s)"
  by (simp add: lift_sum_def)

lemma require_run [op_simps]: "require c e s = ((if c then Inr () else Inl e), s)"
  by (simp add: require_def ret_def throw_def)

lemma bnd_run [op_simps]:
  "bnd m f s = (case m s of (Inl e, s') \<Rightarrow> (Inl e, s') | (Inr x, s') \<Rightarrow> f x s')"
  by (simp add: bnd_def)

lemma sq_run [op_simps]:
  "sq m n s = (case m s of (Inl e, s') \<Rightarrow> (Inl e, s') | (Inr x, s') \<Rightarrow> n s')"
  by (simp add: sq_def bnd_def)

lemma catch_exn_run [op_simps]:
  "catch_exn m h s = (case m s of (Inl e, s') \<Rightarrow> h e s' | (Inr x, s') \<Rightarrow> (Inr x, s'))"
  by (simp add: catch_exn_def)

lemma focus_run [op_simps]:
  "focus get upd m s = (case m (get s) of (r, t) \<Rightarrow> (r, upd (\<lambda>_. t) s))"
  by (simp add: focus_def)

text \<open>Inversion of a composed operation: how a sequence ended in \<open>Inr\<close> or in \<open>Inl\<close>.\<close>

lemma bnd_InrE:
  assumes "bnd m f s = (Inr y, t)"
  obtains x s' where "m s = (Inr x, s')" and "f x s' = (Inr y, t)"
  using assms by (auto simp: bnd_def split: prod.splits sum.splits)

lemma sq_InrE:
  assumes "sq m n s = (Inr y, t)"
  obtains x s' where "m s = (Inr x, s')" and "n s' = (Inr y, t)"
  using assms unfolding sq_def by (rule bnd_InrE)

lemma bnd_InlE:
  assumes "bnd m f s = (Inl e, t)"
  obtains "m s = (Inl e, t)"
    | x s' where "m s = (Inr x, s')" and "f x s' = (Inl e, t)"
  using assms by (auto simp: bnd_def split: prod.splits sum.splits)

lemma sq_InlE:
  assumes "sq m n s = (Inl e, t)"
  obtains "m s = (Inl e, t)"
    | x s' where "m s = (Inr x, s')" and "n s' = (Inl e, t)"
  using assms unfolding sq_def by (rule bnd_InlE)

lemma require_InrE:
  assumes "require c e s = (Inr y, t)"
  obtains "c" and "t = s"
  using assms by (auto simp: op_simps split: if_splits)

text \<open>
  An invariant of an operation is kept on the normal and on the exceptional path.
\<close>

definition keeps :: "('s \<Rightarrow> bool) \<Rightarrow> ('s, 'a) op \<Rightarrow> bool" where
  "keeps P m \<longleftrightarrow> (\<forall>s. P s \<longrightarrow> P (snd (m s)))"

lemma keepsI: "(\<And>s. P s \<Longrightarrow> P (snd (m s))) \<Longrightarrow> keeps P m"
  by (simp add: keeps_def)

lemma keepsD: "keeps P m \<Longrightarrow> P s \<Longrightarrow> m s = (r, t) \<Longrightarrow> P t"
  by (metis keeps_def snd_conv)

lemma keeps_ret [intro!, simp]: "keeps P (ret x)"
  by (simp add: keeps_def ret_def)

lemma keeps_throw [intro!, simp]: "keeps P (throw e)"
  by (simp add: keeps_def throw_def)

lemma keeps_gets [intro!, simp]: "keeps P (gets f)"
  by (simp add: keeps_def gets_def)

lemma keeps_require [intro!, simp]: "keeps P (require c e)"
  by (simp add: keeps_def require_run)

lemma keeps_lift_sum [intro!, simp]: "keeps P (lift_sum r)"
  by (simp add: keeps_def lift_sum_def)

lemma keeps_bnd [intro]: "keeps P m \<Longrightarrow> (\<And>x. keeps P (f x)) \<Longrightarrow> keeps P (bnd m f)"
  unfolding keeps_def bnd_def
  by (auto split: prod.splits sum.splits)

lemma keeps_sq [intro]: "keeps P m \<Longrightarrow> keeps P n \<Longrightarrow> keeps P (sq m n)"
  unfolding sq_def by (rule keeps_bnd)

lemma keeps_for_each [intro]: "(\<And>x. x \<in> set xs \<Longrightarrow> keeps P (f x)) \<Longrightarrow> keeps P (for_each f xs)"
  by (induction xs) auto

lemma keeps_if: "(c \<Longrightarrow> keeps P m) \<Longrightarrow> (\<not> c \<Longrightarrow> keeps P n) \<Longrightarrow> keeps P (if c then m else n)"
  by simp

lemmas keeps_intros = keeps_bnd keeps_sq keeps_if keeps_ret keeps_throw keeps_gets keeps_require
  keeps_lift_sum keeps_for_each

lemma for_each_append:
  "for_each f (xs @ ys) = sq (for_each f xs) (for_each f ys)"
  by (induction xs) (auto simp: fun_eq_iff op_simps split: prod.splits sum.splits)

section \<open>Lists\<close>

lemma filter_length_update:
  assumes "i < length xs"
  shows "length (filter P (xs[i := x])) + (if P (xs ! i) then 1 else 0)
       = length (filter P xs) + (if P x then 1 else 0)"
  using assms
proof (induction xs arbitrary: i)
  case Nil
  then show ?case by simp
next
  case (Cons y ys)
  show ?case
  proof (cases i)
    case 0
    then show ?thesis by simp
  next
    case (Suc j)
    with Cons.prems have "j < length ys" by simp
    from Cons.IH [OF this] Suc show ?thesis by auto
  qed
qed

lemma fold_invariant:
  assumes "P s" and "\<And>x s. x \<in> set xs \<Longrightarrow> P s \<Longrightarrow> P (f x s)"
  shows "P (fold f xs s)"
  using assms by (induction xs arbitrary: s) auto

section \<open>Words\<close>

lemma push_bit_one_exp: "push_bit n (1 :: 'a::len word) = 2 ^ n"
  by (simp add: push_bit_eq_mult)

lemma and_push_bit_one_eq_0 [simp]:
  "(w AND push_bit n 1 = 0) \<longleftrightarrow> \<not> bit w n" for w :: "'a::len word"
  by (simp add: push_bit_one_exp and_exp_eq_0_iff_not_bit)

lemma and_push_bit_one_neq_0:
  "(w AND push_bit n 1 \<noteq> 0) \<longleftrightarrow> bit w n" for w :: "'a::len word"
  by (simp add: push_bit_one_exp and_exp_eq_0_iff_not_bit)

lemma bit_push_bit_one:
  "bit (push_bit n (1 :: 'a::len word)) k \<longleftrightarrow> k = n \<and> n < LENGTH('a)"
  by (auto simp: bit_simps)

lemma and_eq_0_iff_bits:
  "w AND m = 0 \<longleftrightarrow> (\<forall>k. \<not> (bit w k \<and> bit m k))" for w m :: "'a::len word"
proof
  assume "w AND m = 0"
  then have "\<not> bit (w AND m) k" for k by simp
  then show "\<forall>k. \<not> (bit w k \<and> bit m k)" by (simp add: bit_and_iff)
next
  assume "\<forall>k. \<not> (bit w k \<and> bit m k)"
  then show "w AND m = 0" by (intro bit_eqI) (simp add: bit_and_iff)
qed

lemma bit_word_and_mask_0:
  "w AND mask n = 0 \<longleftrightarrow> (\<forall>k < n. \<not> bit w k)" for w :: "'a::len word"
  by (auto simp: bit_eq_iff bit_simps)
     (metis bit_imp_le_length not_le possible_bit_word)

lemma unat_mod_exp_eq_0:
  "unat w mod 2 ^ n = 0 \<longleftrightarrow> w AND mask n = 0" for w :: "'a::len word"
  by (metis take_bit_eq_mask take_bit_eq_mod unat_0 unat_eq_zero unsigned_take_bit_eq)

lemma and_not_mask_plus_and_mask:
  "(w AND NOT (mask n)) + (w AND mask n) = w" for w :: "'a::len word"
proof -
  have "(w AND NOT (mask n)) + (w AND mask n) = (w AND NOT (mask n)) OR (w AND mask n)"
    by (rule disjunctive_add) (auto simp: bit_simps)
  also have "\<dots> = w" by (rule bit_eqI) (auto simp: bit_simps dest: bit_imp_le_length)
  finally show ?thesis .
qed

lemma unat_less_64: "unat (v :: address64) < 2 ^ 64"
  by (rule less_le_trans [OF unsigned_less]) simp

lemma unat_add_of_nat:
  assumes "unat s + i < 2 ^ 64"
  shows "unat (s + of_nat i :: address64) = unat s + i"
proof -
  have "s + of_nat i = of_nat (unat s + i)" by simp
  then have "unat (s + of_nat i) = take_bit 64 (unat s + i)" by (simp add: unsigned_of_nat del: of_nat_add)
  then show ?thesis using assms by (simp add: take_bit_nat_eq_self)
qed

end
