(* ===== verification/PhysMem.thy ===== *)
theory PhysMem
  imports Prelude
begin

unbundle bit_operations_syntax

text \<open>
  Data sizes and physical memory: \<^verbatim>\<open>src/cpu/common/data_size.cpp\<close>,
  \<^verbatim>\<open>src/cpu/memory/physical_memory.cpp\<close> and the pass-through
  \<^verbatim>\<open>src/cpu/memory/memory_bus.cpp\<close>. A \<^verbatim>\<open>PhysicalMemory\<close> is its vector of bytes; reads and
  writes are little-endian loops over \<open>data_size_to_bytes\<close> bytes and throw
  \<^verbatim>\<open>std::out_of_range\<close> outside the vector. The interface the rest of the memory system relies on
  is the locale \<open>word_store\<close> at the end of the theory.
\<close>

section \<open>Data sizes\<close>

datatype data_size = BYTE | WORD | DWORD | QWORD | DATA_SIZE_COUNT

fun is_data_size_valid :: "data_size \<Rightarrow> bool" where
  "is_data_size_valid DATA_SIZE_COUNT = False"
| "is_data_size_valid _ = True"

fun data_size_to_bits :: "data_size \<Rightarrow> exn + nat" where
  "data_size_to_bits BYTE = Inr 8"
| "data_size_to_bits WORD = Inr 16"
| "data_size_to_bits DWORD = Inr 32"
| "data_size_to_bits QWORD = Inr 64"
| "data_size_to_bits DATA_SIZE_COUNT = Inl Out_of_range"

fun data_size_to_bytes :: "data_size \<Rightarrow> exn + nat" where
  "data_size_to_bytes BYTE = Inr 1"
| "data_size_to_bytes WORD = Inr 2"
| "data_size_to_bytes DWORD = Inr 4"
| "data_size_to_bytes QWORD = Inr 8"
| "data_size_to_bytes DATA_SIZE_COUNT = Inl Out_of_range"

section \<open>Physical memory\<close>

type_synonym phys_mem = "byte list"

definition PhysicalMemory :: "nat \<Rightarrow> phys_mem" where
  "PhysicalMemory size_bytes = replicate size_bytes 0"

definition mem_resize :: "nat \<Rightarrow> phys_mem \<Rightarrow> phys_mem" where
  "mem_resize size_bytes m = take size_bytes m @ replicate (size_bytes - length m) 0"

definition mem_clear :: "phys_mem \<Rightarrow> phys_mem" where
  "mem_clear m = []"

definition mem_fill :: "byte \<Rightarrow> phys_mem \<Rightarrow> phys_mem" where
  "mem_fill value m = replicate (length m) value"

definition contains_range :: "phys_mem \<Rightarrow> address64 \<Rightarrow> nat \<Rightarrow> bool" where
  "contains_range m address byte_count =
     (let start_index = unat address in
      if start_index > length m then False else byte_count \<le> length m - start_index)"

definition checked_start_index :: "phys_mem \<Rightarrow> address64 \<Rightarrow> nat \<Rightarrow> exn + nat" where
  "checked_start_index m address byte_count =
     (if \<not> contains_range m address byte_count then Inl Out_of_range else Inr (unat address))"

text \<open>The loop bodies, on a start index that is in range.\<close>

definition read_bytes_le :: "phys_mem \<Rightarrow> nat \<Rightarrow> nat \<Rightarrow> qword" where
  "read_bytes_le m start_index byte_count =
     fold (\<lambda>i value. value OR push_bit (i * 8) (ucast (m ! (start_index + i))))
       [0..<byte_count] 0"

definition byte_of :: "qword \<Rightarrow> nat \<Rightarrow> byte" where
  "byte_of value i = ucast (drop_bit (i * 8) value AND 0xFF)"

definition write_bytes_le :: "phys_mem \<Rightarrow> nat \<Rightarrow> nat \<Rightarrow> qword \<Rightarrow> phys_mem" where
  "write_bytes_le m start_index byte_count value =
     fold (\<lambda>i m. m[start_index + i := byte_of value i]) [0..<byte_count] m"

definition read_little_endian_value :: "address64 \<Rightarrow> nat \<Rightarrow> (phys_mem, qword) op" where
  "read_little_endian_value address byte_count =
     bnd (\<lambda>m. (checked_start_index m address byte_count, m)) (\<lambda>start_index.
       gets (\<lambda>m. read_bytes_le m start_index byte_count))"

definition write_little_endian_value :: "address64 \<Rightarrow> nat \<Rightarrow> qword \<Rightarrow> (phys_mem, unit) op" where
  "write_little_endian_value address byte_count value =
     bnd (\<lambda>m. (checked_start_index m address byte_count, m)) (\<lambda>start_index.
       modify (\<lambda>m. write_bytes_le m start_index byte_count value))"

definition mem_read :: "address64 \<Rightarrow> data_size \<Rightarrow> (phys_mem, qword) op" where
  "mem_read address sz =
     bnd (lift_sum (data_size_to_bytes sz)) (\<lambda>n. read_little_endian_value address n)"

definition mem_write :: "address64 \<Rightarrow> data_size \<Rightarrow> qword \<Rightarrow> (phys_mem, unit) op" where
  "mem_write address sz value =
     bnd (lift_sum (data_size_to_bytes sz)) (\<lambda>n. write_little_endian_value address n value)"

text \<open>The accessors of a fixed width.\<close>

definition read_byte :: "address64 \<Rightarrow> (phys_mem, byte) op" where
  "read_byte address = bnd (mem_read address BYTE) (\<lambda>v. ret (ucast v))"

definition read_word :: "address64 \<Rightarrow> (phys_mem, 16 word) op" where
  "read_word address = bnd (mem_read address WORD) (\<lambda>v. ret (ucast v))"

definition read_dword :: "address64 \<Rightarrow> (phys_mem, dword) op" where
  "read_dword address = bnd (mem_read address DWORD) (\<lambda>v. ret (ucast v))"

definition read_qword :: "address64 \<Rightarrow> (phys_mem, qword) op" where
  "read_qword address = mem_read address QWORD"

definition write_byte :: "address64 \<Rightarrow> byte \<Rightarrow> (phys_mem, unit) op" where
  "write_byte address value = mem_write address BYTE (ucast value)"

definition write_word :: "address64 \<Rightarrow> 16 word \<Rightarrow> (phys_mem, unit) op" where
  "write_word address value = mem_write address WORD (ucast value)"

definition write_dword :: "address64 \<Rightarrow> dword \<Rightarrow> (phys_mem, unit) op" where
  "write_dword address value = mem_write address DWORD (ucast value)"

definition write_qword :: "address64 \<Rightarrow> qword \<Rightarrow> (phys_mem, unit) op" where
  "write_qword address value = mem_write address QWORD value"

section \<open>Facts\<close>

lemma contains_range_iff: "contains_range m a n \<longleftrightarrow> unat a + n \<le> length m"
  by (auto simp: contains_range_def Let_def)

lemma bit_byte_of: "bit (byte_of v i) k \<longleftrightarrow> k < 8 \<and> bit v (i * 8 + k)"
proof -
  have mask: "(0xFF :: qword) = mask 8" by (simp add: mask_eq_exp_minus_1)
  show ?thesis unfolding byte_of_def mask by (auto simp: bit_simps)
qed

lemma length_write_bytes_le [simp]: "length (write_bytes_le m s n v) = length m"
  unfolding write_bytes_le_def by (rule fold_invariant [where P = "\<lambda>m'. length m' = length m"]) auto

lemma nth_write_bytes_le:
  "j < length m \<Longrightarrow>
     write_bytes_le m s n v ! j = (if s \<le> j \<and> j < s + n then byte_of v (j - s) else m ! j)"
proof (induction n)
  case 0
  then show ?case by (auto simp: write_bytes_le_def)
next
  case (Suc n)
  have step: "write_bytes_le m s (Suc n) v = (write_bytes_le m s n v)[s + n := byte_of v n]"
    by (simp add: write_bytes_le_def)
  from Suc show ?case by (cases "j = s + n") (auto simp: step nth_list_update)
qed

lemma nth_write_bytes_le_beyond:
  "length m \<le> j \<Longrightarrow> write_bytes_le m s n v ! j = m ! j"
proof (induction n)
  case 0
  then show ?case by (simp add: write_bytes_le_def)
next
  case (Suc n)
  have step: "write_bytes_le m s (Suc n) v = (write_bytes_le m s n v)[s + n := byte_of v n]"
    by (simp add: write_bytes_le_def)
  have "xs[i := x] ! j = xs ! j" if "length xs \<le> j" for xs i and x :: byte
    using that by (cases "i < length xs") (auto simp: list_update_beyond)
  then show ?case using Suc by (simp add: step)
qed

lemma bit_read_bytes_le:
  assumes "n \<le> 8"
  shows "bit (read_bytes_le m s n) k \<longleftrightarrow> k < n * 8 \<and> bit (m ! (s + k div 8)) (k mod 8)"
  using assms
proof (induction n)
  case 0
  then show ?case by (simp add: read_bytes_le_def)
next
  case (Suc n)
  have step: "read_bytes_le m s (Suc n) =
      read_bytes_le m s n OR push_bit (n * 8) (ucast (m ! (s + n)))"
    by (simp add: read_bytes_le_def)
  consider (low) "k < n * 8" | (mid) "n * 8 \<le> k" "k < n * 8 + 8" | (high) "n * 8 + 8 \<le> k"
    by linarith
  then show ?case
  proof cases
    case low
    then show ?thesis using Suc by (simp add: step bit_simps)
  next
    case mid
    then have kd: "k div 8 = n" by auto
    then have km: "k - n * 8 = k mod 8" by (simp add: modulo_nat_def mult.commute)
    have "k mod 8 < 64" by (rule less_le_trans [of _ 8]) simp_all
    then show ?thesis using Suc mid kd km by (simp add: step bit_simps)
  next
    case high
    then have "8 \<le> k - n * 8" by simp
    then have "\<not> bit (m ! (s + n)) (k - n * 8)"
      using bit_imp_le_length [of "m ! (s + n)" "k - n * 8"] by auto
    then show ?thesis using Suc high by (simp add: step bit_simps)
  qed
qed

lemma read_write_bytes_le_same:
  assumes "n \<le> 8" and "s + n \<le> length m"
  shows "read_bytes_le (write_bytes_le m s n v) s n = take_bit (n * 8) v"
proof (rule bit_eqI)
  fix k
  have idx: "s + k div 8 < length m" "k div 8 < n" if "k < n * 8"
    using that assms(2) by auto
  have mid: "bit (byte_of v (k div 8)) (k mod 8) = bit v k"
    by (simp add: bit_byte_of)
  show "bit (read_bytes_le (write_bytes_le m s n v) s n) k = bit (take_bit (n * 8) v) k"
    using idx mid by (auto simp: bit_read_bytes_le assms(1) bit_take_bit_iff nth_write_bytes_le)
qed

lemma read_write_bytes_le_disjoint:
  assumes "n' \<le> 8" and "s' + n' \<le> length m" and "s + n \<le> s' \<or> s' + n' \<le> s"
  shows "read_bytes_le (write_bytes_le m s n v) s' n' = read_bytes_le m s' n'"
proof (rule bit_eqI)
  fix k
  have "(write_bytes_le m s n v) ! (s' + k div 8) = m ! (s' + k div 8)" if "k < n' * 8"
    using that assms by (subst nth_write_bytes_le) auto
  then show "bit (read_bytes_le (write_bytes_le m s n v) s' n') k = bit (read_bytes_le m s' n') k"
    by (auto simp: bit_read_bytes_le assms(1))
qed

lemma read_bytes_le_replicate_0 [simp]:
  "s + n \<le> k \<Longrightarrow> n \<le> 8 \<Longrightarrow> read_bytes_le (replicate k 0) s n = 0"
  by (rule bit_eqI) (auto simp: bit_read_bytes_le)

subsection \<open>The operations, on every branch\<close>

lemma mem_read_run:
  "mem_read a sz m =
     ((case data_size_to_bytes sz of Inl e \<Rightarrow> Inl e
       | Inr n \<Rightarrow> if unat a + n \<le> length m then Inr (read_bytes_le m (unat a) n) else Inl Out_of_range), m)"
  by (cases sz)
     (simp_all add: mem_read_def read_little_endian_value_def checked_start_index_def
        contains_range_iff op_simps)

lemma mem_write_run:
  "mem_write a sz v m =
     (case data_size_to_bytes sz of Inl e \<Rightarrow> (Inl e, m)
      | Inr n \<Rightarrow> if unat a + n \<le> length m then (Inr (), write_bytes_le m (unat a) n v)
                else (Inl Out_of_range, m))"
  by (cases sz)
     (simp_all add: mem_write_def write_little_endian_value_def checked_start_index_def
        contains_range_iff op_simps)

lemma data_size_to_bytes_le8: "data_size_to_bytes sz = Inr n \<Longrightarrow> 0 < n \<and> n \<le> 8"
  by (cases sz) auto

text \<open>
  Aligned qword accesses, which is how the page-table code uses the bus.
\<close>

definition qword_ok :: "phys_mem \<Rightarrow> address64 \<Rightarrow> bool" where
  "qword_ok m a \<longleftrightarrow> unat a + 8 \<le> length m"

definition qword_at :: "phys_mem \<Rightarrow> address64 \<Rightarrow> qword" where
  "qword_at m a = read_bytes_le m (unat a) 8"

definition put_qword :: "phys_mem \<Rightarrow> address64 \<Rightarrow> qword \<Rightarrow> phys_mem" where
  "put_qword m a v = write_bytes_le m (unat a) 8 v"

definition aligned8 :: "address64 \<Rightarrow> bool" where
  "aligned8 a \<longleftrightarrow> unat a mod 8 = 0"

lemma mem_read_QWORD:
  "mem_read a QWORD m = ((if qword_ok m a then Inr (qword_at m a) else Inl Out_of_range), m)"
  by (simp add: mem_read_run qword_ok_def qword_at_def)

lemma mem_write_QWORD:
  "mem_write a QWORD v m =
     (if qword_ok m a then (Inr (), put_qword m a v) else (Inl Out_of_range, m))"
  by (simp add: mem_write_run qword_ok_def put_qword_def)

lemma length_put_qword [simp]: "length (put_qword m a v) = length m"
  by (simp add: put_qword_def)

lemma nth_put_qword:
  "x < unat a \<or> unat a + 8 \<le> x \<Longrightarrow> put_qword m a v ! x = m ! x"
  by (cases "x < length m")
     (auto simp: put_qword_def nth_write_bytes_le nth_write_bytes_le_beyond)

lemma qword_at_cong:
  assumes "\<And>i. i < 8 \<Longrightarrow> m' ! (unat a + i) = m ! (unat a + i)"
  shows "qword_at m' a = qword_at m a"
  unfolding qword_at_def read_bytes_le_def by (rule fold_cong) (simp_all add: assms)

lemma mem_write_length: "mem_write a sz v m = (r, m') \<Longrightarrow> length m' = length m"
  by (auto simp: mem_write_run split: sum.splits if_splits)

section \<open>The store interface\<close>

text \<open>
  What the page-table, paging-fault and copy-on-write code relies on: a store of aligned words,
  where a write is seen by a read of the same word and by no other read.
\<close>

locale word_store =
  fixes ok :: "'m \<Rightarrow> 'a \<Rightarrow> bool"
    and peek :: "'m \<Rightarrow> 'a \<Rightarrow> 'v"
    and poke :: "'m \<Rightarrow> 'a \<Rightarrow> 'v \<Rightarrow> 'm"
    and aligned :: "'a \<Rightarrow> bool"
  assumes peek_poke_same: "ok m a \<Longrightarrow> peek (poke m a v) a = v"
    and peek_poke_other:
      "aligned a \<Longrightarrow> aligned b \<Longrightarrow> a \<noteq> b \<Longrightarrow> ok m b \<Longrightarrow> peek (poke m a v) b = peek m b"
    and ok_poke: "ok (poke m a v) b \<longleftrightarrow> ok m b"
begin

lemma peek_poke:
  assumes "aligned a" and "aligned b" and "ok m b"
  shows "peek (poke m a v) b = (if a = b then v else peek m b)"
  using assms by (simp add: peek_poke_same peek_poke_other)

lemma ok_fold_poke: "ok (fold (\<lambda>a m. poke m a (f a)) as m) b \<longleftrightarrow> ok m b"
  by (induction as arbitrary: m) (simp_all add: ok_poke)

lemma peek_fold_poke:
  assumes "\<And>a. a \<in> set as \<Longrightarrow> aligned a" and "aligned b" and "ok m b"
  shows "peek (fold (\<lambda>a m. poke m a (f a)) as m) b = (if b \<in> set as then f b else peek m b)"
  using assms
proof (induction as arbitrary: m)
  case Nil
  then show ?case by simp
next
  case (Cons a as)
  then show ?case by (auto simp: ok_poke peek_poke)
qed

end

lemma aligned8_disjoint:
  assumes "aligned8 a" and "aligned8 b" and "a \<noteq> b"
  shows "unat a + 8 \<le> unat b \<or> unat b + 8 \<le> unat a"
proof -
  obtain x y where "unat a = 8 * x" and "unat b = 8 * y"
    using assms by (auto simp: aligned8_def mod_eq_0_iff_dvd elim!: dvdE)
  moreover have "x \<noteq> y" using assms(3) calculation by (metis unsigned_word_eqI)
  ultimately show ?thesis by arith
qed

interpretation qstore: word_store qword_ok qword_at put_qword aligned8
proof
  show "qword_at (put_qword m a v) a = v" if "qword_ok m a" for m a v
    using that read_write_bytes_le_same [of 8 "unat a" m v]
    by (simp add: qword_at_def put_qword_def qword_ok_def take_bit_word_eq_self)
  show "qword_at (put_qword m a v) b = qword_at m b"
    if "aligned8 a" "aligned8 b" "a \<noteq> b" "qword_ok m b" for a b m v
    using aligned8_disjoint [OF that(1-3)] that(4)
    by (auto simp: qword_at_def put_qword_def qword_ok_def intro!: read_write_bytes_le_disjoint)
  show "qword_ok (put_qword m a v) b = qword_ok m b" for m a v b
    by (simp add: qword_ok_def)
qed

section \<open>Properties\<close>

text \<open>
  C11: Memory is a little-endian store. A write of \<open>n\<close> bytes that is in range is read back by a
  read of the same size as the low \<open>8 n\<close> bits of the value, a read of bytes that the write does
  not touch is unchanged, and a write that runs past the end throws \<^verbatim>\<open>std::out_of_range\<close> and
  changes nothing.
\<close>

theorem mem_write_read:
  assumes "data_size_to_bytes sz = Inr n" and "mem_write a sz v m = (r, m')"
  shows "(unat a + n \<le> length m \<longrightarrow>
      r = Inr () \<and> fst (mem_read a sz m') = Inr (take_bit (n * 8) v)) \<and>
    (\<not> unat a + n \<le> length m \<longrightarrow> r = Inl Out_of_range \<and> m' = m) \<and>
    (\<forall>sz' n' b. data_size_to_bytes sz' = Inr n' \<longrightarrow>
      unat a + n \<le> unat b \<or> unat b + n' \<le> unat a \<longrightarrow>
      fst (mem_read b sz' m') = fst (mem_read b sz' m))"
proof -
  have n: "n \<le> 8" using data_size_to_bytes_le8 [OF assms(1)] by simp
  have 1: "unat a + n \<le> length m \<Longrightarrow> r = Inr () \<and> fst (mem_read a sz m') = Inr (take_bit (n * 8) v)"
    using assms read_write_bytes_le_same [OF n, of "unat a" m v]
    by (auto simp: mem_write_run mem_read_run)
  have 2: "\<not> unat a + n \<le> length m \<Longrightarrow> r = Inl Out_of_range \<and> m' = m"
    using assms by (simp add: mem_write_run)
  have 3: "fst (mem_read b sz' m') = fst (mem_read b sz' m)"
    if n': "data_size_to_bytes sz' = Inr n'" and disj: "unat a + n \<le> unat b \<or> unat b + n' \<le> unat a"
    for sz' n' b
  proof -
    have "n' \<le> 8" using data_size_to_bytes_le8 [OF n'] by simp
    then show ?thesis
      using assms n' disj read_write_bytes_le_disjoint [of n' "unat b" m "unat a" n v]
      by (auto simp: mem_write_run mem_read_run split: if_splits)
  qed
  from 1 2 3 show ?thesis by blast
qed

theorem mem_write_read_witness:
  "fst (mem_read 4 WORD (snd (mem_write 4 WORD 0xABCDEF (PhysicalMemory 8)))) = Inr 0xCDEF"
proof -
  obtain r m' where run: "mem_write 4 WORD 0xABCDEF (PhysicalMemory 8) = (r, m')" by fastforce
  show ?thesis
    using mem_write_read [OF data_size_to_bytes.simps(2) run] run
    by (simp add: PhysicalMemory_def take_bit_eq_mod)
qed

end
