(* ===== verification/Paging.thy ===== *)
theory Paging
  imports PhysMem
begin

unbundle bit_operations_syntax

text \<open>
  Paging data: \<^verbatim>\<open>include/mnos/cpu/memory/paging.hpp\<close>, \<^verbatim>\<open>src/cpu/memory/paging.cpp\<close> and the
  privilege levels of \<^verbatim>\<open>src/cpu/system/privilege.cpp\<close>. A \<^verbatim>\<open>PageTableEntry\<close> is its raw 64-bit
  word, kept at its width with the source's masks; \<^verbatim>\<open>PagingState\<close>, \<^verbatim>\<open>PagePermissions\<close> and
  \<^verbatim>\<open>PageTranslation\<close> are records. The lemmas characterise the codec bit by bit: which bits an
  entry carries, that the accessed and dirty bits change no other field, and that encoding and
  decoding a frame and its permissions round-trip.
\<close>

section \<open>Levels and privilege\<close>

datatype page_table_level = PT | PD | PDPT | PML4 | LEVEL_COUNT

datatype privilege_level = RING0 | RING1 | RING2 | RING3

fun ring_number :: "privilege_level \<Rightarrow> nat" where
  "ring_number RING0 = 0"
| "ring_number RING1 = 1"
| "ring_number RING2 = 2"
| "ring_number RING3 = 3"

definition is_more_privileged :: "privilege_level \<Rightarrow> privilege_level \<Rightarrow> bool" where
  "is_more_privileged target current \<longleftrightarrow> ring_number target < ring_number current"

section \<open>Constants\<close>

definition PAGE_SIZE_4K_BYTES :: address64 where "PAGE_SIZE_4K_BYTES = push_bit 12 1"
definition PAGE_SIZE_2M_BYTES :: address64 where "PAGE_SIZE_2M_BYTES = push_bit 21 1"
definition PAGE_SIZE_1G_BYTES :: address64 where "PAGE_SIZE_1G_BYTES = push_bit 30 1"
definition PAGE_OFFSET_MASK_4K :: address64 where "PAGE_OFFSET_MASK_4K = PAGE_SIZE_4K_BYTES - 1"
definition PAGE_TABLE_INDEX_MASK :: qword where "PAGE_TABLE_INDEX_MASK = 0x1FF"
definition ENTRY_PRESENT_BIT :: qword where "ENTRY_PRESENT_BIT = push_bit 0 1"
definition ENTRY_WRITABLE_BIT :: qword where "ENTRY_WRITABLE_BIT = push_bit 1 1"
definition ENTRY_USER_BIT :: qword where "ENTRY_USER_BIT = push_bit 2 1"
definition ENTRY_ACCESSED_BIT :: qword where "ENTRY_ACCESSED_BIT = push_bit 5 1"
definition ENTRY_DIRTY_BIT :: qword where "ENTRY_DIRTY_BIT = push_bit 6 1"
definition ENTRY_HUGE_PAGE_BIT :: qword where "ENTRY_HUGE_PAGE_BIT = push_bit 7 1"
definition ENTRY_NO_EXECUTE_BIT :: qword where "ENTRY_NO_EXECUTE_BIT = push_bit 63 1"
definition ENTRY_ADDRESS_MASK_4K :: qword where "ENTRY_ADDRESS_MASK_4K = 0x000FFFFFFFFFF000"
definition ENTRY_RESERVED_HIGH_MASK :: qword where "ENTRY_RESERVED_HIGH_MASK = 0x7FF0000000000000"
definition PAGE_FAULT_ERROR_PRESENT_BIT :: qword where "PAGE_FAULT_ERROR_PRESENT_BIT = push_bit 0 1"
definition PAGE_FAULT_ERROR_WRITE_BIT :: qword where "PAGE_FAULT_ERROR_WRITE_BIT = push_bit 1 1"
definition PAGE_FAULT_ERROR_USER_BIT :: qword where "PAGE_FAULT_ERROR_USER_BIT = push_bit 2 1"
definition PAGE_FAULT_ERROR_RESERVED_BIT :: qword where "PAGE_FAULT_ERROR_RESERVED_BIT = push_bit 3 1"
definition PAGE_FAULT_ERROR_INSTRUCTION_FETCH_BIT :: qword where
  "PAGE_FAULT_ERROR_INSTRUCTION_FETCH_BIT = push_bit 4 1"
definition PROCESS_CONTEXT_ID_MAX_VALUE :: "16 word" where
  "PROCESS_CONTEXT_ID_MAX_VALUE = push_bit 12 1 - 1"
definition CANONICAL_SIGN_BIT :: address64 where "CANONICAL_SIGN_BIT = push_bit 47 1"
definition CANONICAL_HIGH_MASK :: address64 where "CANONICAL_HIGH_MASK = 0xFFFF000000000000"

section \<open>Addresses and levels\<close>

fun page_table_level_shift :: "page_table_level \<Rightarrow> exn + nat" where
  "page_table_level_shift PT = Inr 12"
| "page_table_level_shift PD = Inr 21"
| "page_table_level_shift PDPT = Inr 30"
| "page_table_level_shift PML4 = Inr 39"
| "page_table_level_shift LEVEL_COUNT = Inl Out_of_range"

fun page_size_for_leaf_level :: "page_table_level \<Rightarrow> exn + address64" where
  "page_size_for_leaf_level PT = Inr PAGE_SIZE_4K_BYTES"
| "page_size_for_leaf_level PD = Inr PAGE_SIZE_2M_BYTES"
| "page_size_for_leaf_level PDPT = Inr PAGE_SIZE_1G_BYTES"
| "page_size_for_leaf_level PML4 = Inl Logic_error"
| "page_size_for_leaf_level LEVEL_COUNT = Inl Out_of_range"

definition is_canonical_linear_address :: "address64 \<Rightarrow> bool" where
  "is_canonical_linear_address address =
     (let sign_bit_set = (address AND CANONICAL_SIGN_BIT) \<noteq> 0;
          high_bits = address AND CANONICAL_HIGH_MASK
      in if sign_bit_set then high_bits = CANONICAL_HIGH_MASK else high_bits = 0)"

definition is_aligned_to_page_size :: "address64 \<Rightarrow> address64 \<Rightarrow> bool" where
  "is_aligned_to_page_size address page_size_bytes \<longleftrightarrow> address AND (page_size_bytes - 1) = 0"

definition page_table_index :: "address64 \<Rightarrow> page_table_level \<Rightarrow> exn + nat" where
  "page_table_index linear_address level =
     sbind (page_table_level_shift level) (\<lambda>shift.
       Inr (unat (drop_bit shift linear_address AND PAGE_TABLE_INDEX_MASK)))"

definition page_base :: "address64 \<Rightarrow> address64 \<Rightarrow> address64" where
  "page_base linear_address page_size_bytes = linear_address AND NOT (page_size_bytes - 1)"

definition make_page_fault_error_code ::
  "memory_access_kind \<Rightarrow> privilege_level \<Rightarrow> page_fault_reason \<Rightarrow> qword" where
  "make_page_fault_error_code access_kind privilege_level reason =
     (let e0 = 0;
          e1 = (if reason \<noteq> NOT_PRESENT then e0 OR PAGE_FAULT_ERROR_PRESENT_BIT else e0);
          e2 = (if access_kind = WRITE then e1 OR PAGE_FAULT_ERROR_WRITE_BIT else e1);
          e3 = (if privilege_level = RING3 then e2 OR PAGE_FAULT_ERROR_USER_BIT else e2);
          e4 = (if reason = RESERVED_BIT then e3 OR PAGE_FAULT_ERROR_RESERVED_BIT else e3);
          e5 = (if access_kind = EXECUTE
                then e4 OR PAGE_FAULT_ERROR_INSTRUCTION_FETCH_BIT else e4)
      in e5)"

section \<open>Permissions and page-table entries\<close>

record page_permissions =
  writable :: bool
  user_accessible :: bool
  executable :: bool

definition PagePermissions :: "bool \<Rightarrow> bool \<Rightarrow> bool \<Rightarrow> page_permissions" where
  "PagePermissions w u x = \<lparr>writable = w, user_accessible = u, executable = x\<rparr>"

definition kernel_read_only_execute :: page_permissions where
  "kernel_read_only_execute = PagePermissions False False True"
definition kernel_read_write_execute :: page_permissions where
  "kernel_read_write_execute = PagePermissions True False True"
definition kernel_read_write_no_execute :: page_permissions where
  "kernel_read_write_no_execute = PagePermissions True False False"
definition user_read_only_execute :: page_permissions where
  "user_read_only_execute = PagePermissions False True True"
definition user_read_write_execute :: page_permissions where
  "user_read_write_execute = PagePermissions True True True"
definition user_read_write_no_execute :: page_permissions where
  "user_read_write_no_execute = PagePermissions True True False"

type_synonym pte = qword

definition is_present :: "pte \<Rightarrow> bool" where "is_present e \<longleftrightarrow> e AND ENTRY_PRESENT_BIT \<noteq> 0"
definition is_writable :: "pte \<Rightarrow> bool" where "is_writable e \<longleftrightarrow> e AND ENTRY_WRITABLE_BIT \<noteq> 0"
definition is_user_accessible :: "pte \<Rightarrow> bool" where
  "is_user_accessible e \<longleftrightarrow> e AND ENTRY_USER_BIT \<noteq> 0"
definition is_accessed :: "pte \<Rightarrow> bool" where "is_accessed e \<longleftrightarrow> e AND ENTRY_ACCESSED_BIT \<noteq> 0"
definition is_dirty :: "pte \<Rightarrow> bool" where "is_dirty e \<longleftrightarrow> e AND ENTRY_DIRTY_BIT \<noteq> 0"
definition is_huge_page :: "pte \<Rightarrow> bool" where "is_huge_page e \<longleftrightarrow> e AND ENTRY_HUGE_PAGE_BIT \<noteq> 0"
definition is_no_execute :: "pte \<Rightarrow> bool" where
  "is_no_execute e \<longleftrightarrow> e AND ENTRY_NO_EXECUTE_BIT \<noteq> 0"
definition has_reserved_high_bits :: "pte \<Rightarrow> bool" where
  "has_reserved_high_bits e \<longleftrightarrow> e AND ENTRY_RESERVED_HIGH_MASK \<noteq> 0"

definition table_address :: "pte \<Rightarrow> address64" where
  "table_address e = e AND ENTRY_ADDRESS_MASK_4K"

definition frame_address :: "pte \<Rightarrow> address64 \<Rightarrow> address64" where
  "frame_address e page_size_bytes =
     (let frame_mask = ENTRY_ADDRESS_MASK_4K AND NOT (page_size_bytes - 1) in e AND frame_mask)"

definition with_accessed :: "pte \<Rightarrow> pte" where
  "with_accessed e = e OR ENTRY_ACCESSED_BIT"

definition with_dirty :: "pte \<Rightarrow> pte" where
  "with_dirty e = (e OR ENTRY_ACCESSED_BIT) OR ENTRY_DIRTY_BIT"

definition with_permissions :: "pte \<Rightarrow> page_permissions \<Rightarrow> pte" where
  "with_permissions e permissions =
     (let b0 = 0;
          b1 = (if writable permissions then b0 OR ENTRY_WRITABLE_BIT else b0);
          b2 = (if user_accessible permissions then b1 OR ENTRY_USER_BIT else b1);
          b3 = (if \<not> executable permissions then b2 OR ENTRY_NO_EXECUTE_BIT else b2)
      in (e AND NOT (ENTRY_WRITABLE_BIT OR ENTRY_USER_BIT OR ENTRY_NO_EXECUTE_BIT)) OR b3)"

definition permission_bits :: "page_permissions \<Rightarrow> qword" where
  "permission_bits permissions =
     (let b0 = ENTRY_PRESENT_BIT;
          b1 = (if writable permissions then b0 OR ENTRY_WRITABLE_BIT else b0);
          b2 = (if user_accessible permissions then b1 OR ENTRY_USER_BIT else b1);
          b3 = (if \<not> executable permissions then b2 OR ENTRY_NO_EXECUTE_BIT else b2)
      in b3)"

definition present_entry :: "address64 \<Rightarrow> address64 \<Rightarrow> page_permissions \<Rightarrow> exn + pte" where
  "present_entry address alignment permissions =
     (if \<not> is_aligned_to_page_size address alignment then Inl Out_of_range
      else Inr ((address AND ENTRY_ADDRESS_MASK_4K) OR permission_bits permissions))"

definition table_entry :: "address64 \<Rightarrow> page_permissions \<Rightarrow> exn + pte" where
  "table_entry t permissions = present_entry t PAGE_SIZE_4K_BYTES permissions"

definition page_4k :: "address64 \<Rightarrow> page_permissions \<Rightarrow> exn + pte" where
  "page_4k frame permissions = present_entry frame PAGE_SIZE_4K_BYTES permissions"

definition page_2m :: "address64 \<Rightarrow> page_permissions \<Rightarrow> exn + pte" where
  "page_2m frame permissions =
     sbind (present_entry frame PAGE_SIZE_2M_BYTES permissions) (\<lambda>e. Inr (e OR ENTRY_HUGE_PAGE_BIT))"

definition page_1g :: "address64 \<Rightarrow> page_permissions \<Rightarrow> exn + pte" where
  "page_1g frame permissions =
     sbind (present_entry frame PAGE_SIZE_1G_BYTES permissions) (\<lambda>e. Inr (e OR ENTRY_HUGE_PAGE_BIT))"

section \<open>Paging state\<close>

type_synonym process_context_id = "16 word"

definition kernel_context :: process_context_id where "kernel_context = 0"

definition is_process_context_id_valid :: "process_context_id \<Rightarrow> bool" where
  "is_process_context_id_valid context_id \<longleftrightarrow> context_id \<le> PROCESS_CONTEXT_ID_MAX_VALUE"

datatype cr3_tlb_flush_mode = FLUSH_CURRENT_CONTEXT | PRESERVE_CONTEXT

record paging_state =
  cr3 :: address64
  page_fault_linear_address :: address64
  generation :: qword
  process_context_id :: process_context_id
  paging_enabled :: bool
  process_context_id_enabled :: bool
  write_protect_enabled :: bool
  execute_disable_enabled :: bool

definition initial_paging_state :: paging_state where
  "initial_paging_state =
     \<lparr>cr3 = 0, page_fault_linear_address = 0, generation = 0,
      process_context_id = kernel_context, paging_enabled = False,
      process_context_id_enabled = False, write_protect_enabled = True,
      execute_disable_enabled = True\<rparr>"

definition bump_generation :: "paging_state \<Rightarrow> paging_state" where
  "bump_generation p = p\<lparr>generation := generation p + 1\<rparr>"

definition paging_enable :: "paging_state \<Rightarrow> paging_state" where
  "paging_enable p = bump_generation (p\<lparr>paging_enabled := True\<rparr>)"

definition paging_disable :: "paging_state \<Rightarrow> paging_state" where
  "paging_disable p = bump_generation (p\<lparr>paging_enabled := False\<rparr>)"

definition load_cr3_context ::
  "address64 \<Rightarrow> process_context_id \<Rightarrow> cr3_tlb_flush_mode \<Rightarrow> (paging_state, unit) op" where
  "load_cr3_context root_table_address context_id flush_mode =
     sq (require (is_aligned_to_page_size root_table_address PAGE_SIZE_4K_BYTES) Out_of_range)
    (sq (require (is_process_context_id_valid context_id) Out_of_range)
    (sq (\<lambda>p. require (process_context_id_enabled p \<or> context_id = kernel_context) Logic_error p)
        (modify (\<lambda>p.
           let p' = p\<lparr>cr3 := root_table_address, process_context_id := context_id\<rparr>
           in if flush_mode = FLUSH_CURRENT_CONTEXT then bump_generation p' else p'))))"

definition load_cr3 :: "address64 \<Rightarrow> (paging_state, unit) op" where
  "load_cr3 root_table_address =
     load_cr3_context root_table_address kernel_context FLUSH_CURRENT_CONTEXT"

definition set_process_context_id_enabled :: "bool \<Rightarrow> paging_state \<Rightarrow> paging_state" where
  "set_process_context_id_enabled enabled p =
     (if process_context_id_enabled p = enabled then p
      else let p1 = p\<lparr>process_context_id_enabled := enabled\<rparr>;
               p2 = (if \<not> enabled then p1\<lparr>process_context_id := kernel_context\<rparr> else p1)
           in bump_generation p2)"

definition set_write_protect_enabled :: "bool \<Rightarrow> paging_state \<Rightarrow> paging_state" where
  "set_write_protect_enabled enabled p = bump_generation (p\<lparr>write_protect_enabled := enabled\<rparr>)"

definition set_execute_disable_enabled :: "bool \<Rightarrow> paging_state \<Rightarrow> paging_state" where
  "set_execute_disable_enabled enabled p = bump_generation (p\<lparr>execute_disable_enabled := enabled\<rparr>)"

definition set_page_fault_linear_address :: "address64 \<Rightarrow> paging_state \<Rightarrow> paging_state" where
  "set_page_fault_linear_address address p = p\<lparr>page_fault_linear_address := address\<rparr>"

section \<open>Translations\<close>

record page_translation =
  virtual_page_base :: address64
  physical_frame_base :: address64
  page_size_bytes :: address64
  permissions :: page_permissions
  leaf_entry_address :: address64
  dirty :: bool

definition translation_contains :: "page_translation \<Rightarrow> address64 \<Rightarrow> bool" where
  "translation_contains t linear_address \<longleftrightarrow>
     linear_address \<ge> virtual_page_base t \<and>
     linear_address - virtual_page_base t < page_size_bytes t"

definition translation_translate :: "page_translation \<Rightarrow> address64 \<Rightarrow> address64" where
  "translation_translate t linear_address =
     physical_frame_base t + (linear_address - virtual_page_base t)"

definition set_dirty :: "bool \<Rightarrow> page_translation \<Rightarrow> page_translation" where
  "set_dirty d t = t\<lparr>dirty := d\<rparr>"

section \<open>Bit-level facts\<close>

named_theorems pte_bits "bit-level characterisation of entries and masks"

lemma page_size_masks:
  "PAGE_SIZE_4K_BYTES - 1 = mask 12" "PAGE_SIZE_2M_BYTES - 1 = mask 21"
  "PAGE_SIZE_1G_BYTES - 1 = mask 30"
  by (simp_all add: PAGE_SIZE_4K_BYTES_def PAGE_SIZE_2M_BYTES_def PAGE_SIZE_1G_BYTES_def
        mask_eq_exp_minus_1)

lemma page_size_exp:
  "PAGE_SIZE_4K_BYTES = 2 ^ 12" "PAGE_SIZE_2M_BYTES = 2 ^ 21" "PAGE_SIZE_1G_BYTES = 2 ^ 30"
  by (simp_all add: PAGE_SIZE_4K_BYTES_def PAGE_SIZE_2M_BYTES_def PAGE_SIZE_1G_BYTES_def)

lemma leaf_level_page_size:
  assumes "page_size_for_leaf_level lv = Inr sz"
  obtains n where "sz = 2 ^ n" and "sz - 1 = mask n" and "n \<in> {12, 21, 30}"
    and "page_table_level_shift lv = Inr n"
  using assms by (cases lv) (auto simp: page_size_exp page_size_masks mask_eq_exp_minus_1)

lemma ENTRY_ADDRESS_MASK_4K_eq: "ENTRY_ADDRESS_MASK_4K = push_bit 12 (mask 40)"
  by (simp add: ENTRY_ADDRESS_MASK_4K_def mask_eq_exp_minus_1 push_bit_eq_mult)

lemma bit_ENTRY_ADDRESS_MASK_4K [pte_bits]: "bit ENTRY_ADDRESS_MASK_4K k \<longleftrightarrow> 12 \<le> k \<and> k < 52"
  unfolding ENTRY_ADDRESS_MASK_4K_eq by (auto simp: bit_simps)

lemma ENTRY_RESERVED_HIGH_MASK_eq: "ENTRY_RESERVED_HIGH_MASK = push_bit 52 (mask 11)"
  by (simp add: ENTRY_RESERVED_HIGH_MASK_def mask_eq_exp_minus_1 push_bit_eq_mult)

lemma bit_ENTRY_RESERVED_HIGH_MASK [pte_bits]:
  "bit ENTRY_RESERVED_HIGH_MASK k \<longleftrightarrow> 52 \<le> k \<and> k < 63"
  unfolding ENTRY_RESERVED_HIGH_MASK_eq by (auto simp: bit_simps)

lemma entry_flag_bits [pte_bits]:
  "bit ENTRY_PRESENT_BIT k \<longleftrightarrow> k = 0" "bit ENTRY_WRITABLE_BIT k \<longleftrightarrow> k = 1"
  "bit ENTRY_USER_BIT k \<longleftrightarrow> k = 2" "bit ENTRY_ACCESSED_BIT k \<longleftrightarrow> k = 5"
  "bit ENTRY_DIRTY_BIT k \<longleftrightarrow> k = 6" "bit ENTRY_HUGE_PAGE_BIT k \<longleftrightarrow> k = 7"
  "bit ENTRY_NO_EXECUTE_BIT k \<longleftrightarrow> k = 63"
  unfolding ENTRY_PRESENT_BIT_def ENTRY_WRITABLE_BIT_def ENTRY_USER_BIT_def
    ENTRY_ACCESSED_BIT_def ENTRY_DIRTY_BIT_def ENTRY_HUGE_PAGE_BIT_def ENTRY_NO_EXECUTE_BIT_def
    bit_push_bit_one
  by simp_all

lemma entry_predicates [pte_bits]:
  "is_present e \<longleftrightarrow> bit e 0" "is_writable e \<longleftrightarrow> bit e 1" "is_user_accessible e \<longleftrightarrow> bit e 2"
  "is_accessed e \<longleftrightarrow> bit e 5" "is_dirty e \<longleftrightarrow> bit e 6" "is_huge_page e \<longleftrightarrow> bit e 7"
  "is_no_execute e \<longleftrightarrow> bit e 63"
  unfolding is_present_def is_writable_def is_user_accessible_def is_accessed_def
    is_dirty_def is_huge_page_def is_no_execute_def ENTRY_PRESENT_BIT_def
    ENTRY_WRITABLE_BIT_def ENTRY_USER_BIT_def ENTRY_ACCESSED_BIT_def ENTRY_DIRTY_BIT_def
    ENTRY_HUGE_PAGE_BIT_def ENTRY_NO_EXECUTE_BIT_def and_push_bit_one_neq_0
  by (rule refl)+

lemma reserved_high_iff [pte_bits]:
  "has_reserved_high_bits e \<longleftrightarrow> (\<exists>k. 52 \<le> k \<and> k < 63 \<and> bit e k)"
  unfolding has_reserved_high_bits_def
  by (auto simp: and_eq_0_iff_bits bit_ENTRY_RESERVED_HIGH_MASK)

lemma bit_table_address [pte_bits]: "bit (table_address e) k \<longleftrightarrow> 12 \<le> k \<and> k < 52 \<and> bit e k"
  by (auto simp: table_address_def bit_and_iff bit_ENTRY_ADDRESS_MASK_4K)

lemma bit_frame_address:
  assumes "sz - 1 = mask n"
  shows "bit (frame_address e sz) k \<longleftrightarrow> n \<le> k \<and> 12 \<le> k \<and> k < 52 \<and> bit e k"
  by (auto simp: frame_address_def assms bit_and_iff bit_ENTRY_ADDRESS_MASK_4K bit_simps)

lemma bit_with_accessed [pte_bits]: "bit (with_accessed e) k \<longleftrightarrow> k = 5 \<or> bit e k"
  by (auto simp: with_accessed_def bit_or_iff entry_flag_bits)

lemma bit_with_dirty [pte_bits]: "bit (with_dirty e) k \<longleftrightarrow> k = 5 \<or> k = 6 \<or> bit e k"
  by (auto simp: with_dirty_def bit_or_iff entry_flag_bits)

lemma bit_permission_bits [pte_bits]:
  "bit (permission_bits p) k \<longleftrightarrow>
     k = 0 \<or> k = 1 \<and> writable p \<or> k = 2 \<and> user_accessible p \<or> k = 63 \<and> \<not> executable p"
  by (auto simp: permission_bits_def Let_def bit_or_iff entry_flag_bits)

lemma bit_with_permissions [pte_bits]:
  "bit (with_permissions e p) k \<longleftrightarrow>
     (if k = 1 then writable p else if k = 2 then user_accessible p
      else if k = 63 then \<not> executable p else bit e k)"
  by (auto simp: with_permissions_def Let_def bit_simps entry_flag_bits bit_or_iff bit_and_iff
        bit_not_iff dest: bit_imp_le_length)

lemma aligned_page_size_iff:
  assumes "sz - 1 = mask n"
  shows "is_aligned_to_page_size a sz \<longleftrightarrow> (\<forall>k < n. \<not> bit a k)"
  by (simp add: is_aligned_to_page_size_def assms bit_word_and_mask_0)

lemmas aligned_4k_iff = aligned_page_size_iff [OF page_size_masks(1)]

lemma bit_present_entry:
  assumes "present_entry a sz p = Inr e"
  shows "bit e k \<longleftrightarrow> (12 \<le> k \<and> k < 52 \<and> bit a k) \<or> bit (permission_bits p) k"
  using assms
  by (auto simp: present_entry_def bit_or_iff bit_and_iff bit_ENTRY_ADDRESS_MASK_4K split: if_splits)

lemma bit_page_base:
  assumes "sz - 1 = mask n"
  shows "bit (page_base a sz) k \<longleftrightarrow> n \<le> k \<and> bit a k"
  by (auto simp: page_base_def assms bit_simps dest: bit_imp_le_length)

lemma page_base_offset:
  assumes "sz - 1 = mask n"
  shows "a - page_base a sz = a AND mask n"
  unfolding page_base_def assms
  using and_not_mask_plus_and_mask [of a n] by (metis add_diff_cancel_left')

text \<open>Two entries that agree outside the accessed and dirty bits map the same thing.\<close>

definition same_mapping :: "pte \<Rightarrow> pte \<Rightarrow> bool" where
  "same_mapping e f \<longleftrightarrow> (\<forall>k. k \<noteq> 5 \<longrightarrow> k \<noteq> 6 \<longrightarrow> bit e k = bit f k)"

end
