(* ===== verification/PageWalk.thy ===== *)
theory PageWalk
  imports Paging
begin

unbundle bit_operations_syntax

text \<open>
  The hardware page-table walker, \<^verbatim>\<open>src/cpu/memory/page_table_walker.cpp\<close>. The walk reads one
  entry per level from physical memory, sets accessed and dirty bits in place and throws page
  faults, so it is an operation on the memory. The abstract specification is \<open>page_walk\<close>, a pure
  function of the memory, followed by \<open>check_access\<close>; the refinement lemma
  \<open>walker_translate_refines\<close> says that the walker computes it, and \<open>walker_translate_ad\<close> that the
  memory changes in nothing but accessed and dirty bits.
\<close>

section \<open>The walker\<close>

definition initial_effective_permissions :: page_permissions where
  "initial_effective_permissions =
     \<lparr>writable = True, user_accessible = True, executable = True\<rparr>"

definition apply_entry :: "page_permissions \<Rightarrow> pte \<Rightarrow> page_permissions" where
  "apply_entry p entry =
     \<lparr>writable = (writable p \<and> is_writable entry),
      user_accessible = (user_accessible p \<and> is_user_accessible entry),
      executable = (executable p \<and> \<not> is_no_execute entry)\<rparr>"

definition make_page_fault ::
  "address64 \<Rightarrow> memory_access_kind \<Rightarrow> privilege_level \<Rightarrow> page_fault_reason \<Rightarrow> page_fault" where
  "make_page_fault linear_address access_kind privilege_level reason =
     \<lparr>pf_linear_address = linear_address, pf_access_kind = access_kind, pf_reason = reason,
      pf_error_code = make_page_fault_error_code access_kind privilege_level reason\<rparr>"

definition throw_page_fault ::
  "address64 \<Rightarrow> memory_access_kind \<Rightarrow> privilege_level \<Rightarrow> page_fault_reason \<Rightarrow> ('s, 'a) op" where
  "throw_page_fault linear_address access_kind privilege_level reason =
     throw (Page_fault (make_page_fault linear_address access_kind privilege_level reason))"

definition is_user_access :: "privilege_level \<Rightarrow> bool" where
  "is_user_access privilege_level \<longleftrightarrow> privilege_level = RING3"

definition is_write_allowed_for_read_only_page :: "paging_state \<Rightarrow> privilege_level \<Rightarrow> bool" where
  "is_write_allowed_for_read_only_page ps privilege_level \<longleftrightarrow>
     privilege_level \<noteq> RING3 \<and> \<not> write_protect_enabled ps"

definition enforce_permissions ::
  "paging_state \<Rightarrow> page_permissions \<Rightarrow> address64 \<Rightarrow> memory_access_kind \<Rightarrow> privilege_level \<Rightarrow>
   ('s, unit) op" where
  "enforce_permissions ps p la k pl =
     (if is_user_access pl \<and> \<not> user_accessible p then throw_page_fault la k pl USER_SUPERVISOR
      else if k = WRITE \<and> \<not> writable p \<and> \<not> is_write_allowed_for_read_only_page ps pl
           then throw_page_fault la k pl WRITE_PROTECTION
      else if k = EXECUTE \<and> \<not> executable p then throw_page_fault la k pl EXECUTE_DISABLE
      else ret ())"

definition is_large_leaf_entry :: "pte \<Rightarrow> page_table_level \<Rightarrow> bool" where
  "is_large_leaf_entry entry level \<longleftrightarrow> (level = PD \<or> level = PDPT) \<and> is_huge_page entry"

definition is_leaf_entry :: "pte \<Rightarrow> page_table_level \<Rightarrow> bool" where
  "is_leaf_entry entry level \<longleftrightarrow> level = PT \<or> is_large_leaf_entry entry level"

definition validate_reserved_bits ::
  "paging_state \<Rightarrow> pte \<Rightarrow> page_table_level \<Rightarrow> address64 \<Rightarrow> memory_access_kind \<Rightarrow> privilege_level \<Rightarrow>
   ('s, unit) op" where
  "validate_reserved_bits ps entry level la k pl =
     (let huge_bit_is_reserved = (level = PML4) in
      if has_reserved_high_bits entry \<or>
         (\<not> execute_disable_enabled ps \<and> is_no_execute entry) \<or>
         (huge_bit_is_reserved \<and> is_huge_page entry)
      then throw_page_fault la k pl RESERVED_BIT
      else if is_large_leaf_entry entry level
      then bnd (lift_sum (page_size_for_leaf_level level)) (\<lambda>page_size.
             if table_address entry AND (page_size - 1) \<noteq> 0
             then throw_page_fault la k pl RESERVED_BIT else ret ())
      else ret ())"

definition read_page_table_entry :: "address64 \<Rightarrow> (phys_mem, pte) op" where
  "read_page_table_entry entry_address = mem_read entry_address QWORD"

definition write_page_table_entry_if_changed ::
  "address64 \<Rightarrow> pte \<Rightarrow> pte \<Rightarrow> (phys_mem, unit) op" where
  "write_page_table_entry_if_changed entry_address original_entry updated_entry =
     (if updated_entry \<noteq> original_entry then mem_write entry_address QWORD updated_entry
      else ret ())"

definition mark_accessed_dirty ::
  "address64 \<Rightarrow> pte \<Rightarrow> bool \<Rightarrow> memory_access_kind \<Rightarrow> (phys_mem, pte) op" where
  "mark_accessed_dirty entry_address entry leaf k =
     (let updated = with_accessed entry;
          updated' = (if leaf \<and> k = WRITE then with_dirty updated else updated)
      in sq (write_page_table_entry_if_changed entry_address entry updated') (ret updated'))"

definition entry_address_for_index :: "address64 \<Rightarrow> nat \<Rightarrow> address64" where
  "entry_address_for_index table entry_index = table + of_nat entry_index * 8"

definition WALK_ORDER :: "page_table_level list" where
  "WALK_ORDER = [PML4, PDPT, PD, PT]"

fun walk_levels ::
  "paging_state \<Rightarrow> address64 \<Rightarrow> memory_access_kind \<Rightarrow> privilege_level \<Rightarrow> page_table_level list \<Rightarrow>
   address64 \<Rightarrow> page_permissions \<Rightarrow> (phys_mem, page_translation) op" where
  "walk_levels ps la k pl [] table p = throw_page_fault la k pl NOT_PRESENT"
| "walk_levels ps la k pl (level # levels) table p =
     bnd (lift_sum (page_table_index la level)) (\<lambda>entry_index.
       let entry_address = entry_address_for_index table entry_index in
       bnd (read_page_table_entry entry_address) (\<lambda>entry.
         if \<not> is_present entry then throw_page_fault la k pl NOT_PRESENT
         else sq (validate_reserved_bits ps entry level la k pl)
          (let p' = apply_entry p entry; leaf = is_leaf_entry entry level in
           if leaf
           then sq (enforce_permissions ps p' la k pl)
               (bnd (mark_accessed_dirty entry_address entry leaf k) (\<lambda>updated_entry.
                bnd (lift_sum (page_size_for_leaf_level level)) (\<lambda>page_size.
                ret \<lparr>virtual_page_base = page_base la page_size,
                     physical_frame_base = frame_address updated_entry page_size,
                     page_size_bytes = page_size,
                     permissions = p',
                     leaf_entry_address = entry_address,
                     dirty = is_dirty updated_entry\<rparr>)))
           else sq (mark_accessed_dirty entry_address entry leaf k)
                   (walk_levels ps la k pl levels (table_address entry) p'))))"

definition walker_translate ::
  "paging_state \<Rightarrow> address64 \<Rightarrow> memory_access_kind \<Rightarrow> privilege_level \<Rightarrow>
   (phys_mem, page_translation) op" where
  "walker_translate ps la k pl =
     sq (require (is_canonical_linear_address la) Out_of_range)
        (walk_levels ps la k pl WALK_ORDER (cr3 ps) initial_effective_permissions)"

section \<open>Abstract specification\<close>

datatype walk_outcome =
    Mapped page_translation
  | Faults page_fault_reason
  | Throws exn

text \<open>The mapping that the tables in memory describe; the dirty flag is not part of it.\<close>

definition reserved_violation :: "bool \<Rightarrow> pte \<Rightarrow> page_table_level \<Rightarrow> bool" where
  "reserved_violation nxe entry level \<longleftrightarrow>
     has_reserved_high_bits entry \<or> (\<not> nxe \<and> is_no_execute entry) \<or>
     (level = PML4 \<and> is_huge_page entry) \<or>
     (is_large_leaf_entry entry level \<and>
      (case page_size_for_leaf_level level of Inl _ \<Rightarrow> False
       | Inr page_size \<Rightarrow> table_address entry AND (page_size - 1) \<noteq> 0))"

fun page_walk ::
  "bool \<Rightarrow> address64 \<Rightarrow> page_table_level list \<Rightarrow> address64 \<Rightarrow> page_permissions \<Rightarrow> phys_mem \<Rightarrow>
   walk_outcome" where
  "page_walk nxe la [] table p m = Faults NOT_PRESENT"
| "page_walk nxe la (level # levels) table p m =
     (case page_table_index la level of Inl e \<Rightarrow> Throws e | Inr i \<Rightarrow>
       let a = entry_address_for_index table i in
       if \<not> qword_ok m a then Throws Out_of_range
       else let entry = qword_at m a in
       if \<not> is_present entry then Faults NOT_PRESENT
       else if reserved_violation nxe entry level then Faults RESERVED_BIT
       else if is_leaf_entry entry level
       then (case page_size_for_leaf_level level of Inl e \<Rightarrow> Throws e | Inr page_size \<Rightarrow>
               Mapped \<lparr>virtual_page_base = page_base la page_size,
                       physical_frame_base = frame_address entry page_size,
                       page_size_bytes = page_size,
                       permissions = apply_entry p entry,
                       leaf_entry_address = a,
                       dirty = False\<rparr>)
       else page_walk nxe la levels (table_address entry) (apply_entry p entry) m)"

definition access_denied ::
  "paging_state \<Rightarrow> page_permissions \<Rightarrow> memory_access_kind \<Rightarrow> privilege_level \<Rightarrow>
   page_fault_reason option" where
  "access_denied ps p k pl =
     (if pl = RING3 \<and> \<not> user_accessible p then Some USER_SUPERVISOR
      else if k = WRITE \<and> \<not> writable p \<and> (pl = RING3 \<or> write_protect_enabled ps)
           then Some WRITE_PROTECTION
      else if k = EXECUTE \<and> \<not> executable p then Some EXECUTE_DISABLE
      else None)"

definition check_access ::
  "paging_state \<Rightarrow> address64 \<Rightarrow> memory_access_kind \<Rightarrow> privilege_level \<Rightarrow> walk_outcome \<Rightarrow>
   exn + page_translation" where
  "check_access ps la k pl outcome =
     (case outcome of
        Throws e \<Rightarrow> Inl e
      | Faults r \<Rightarrow> Inl (Page_fault (make_page_fault la k pl r))
      | Mapped t \<Rightarrow>
          (case access_denied ps (permissions t) k pl of
             Some r \<Rightarrow> Inl (Page_fault (make_page_fault la k pl r))
           | None \<Rightarrow> Inr t))"

definition translation_spec ::
  "paging_state \<Rightarrow> address64 \<Rightarrow> phys_mem \<Rightarrow> walk_outcome" where
  "translation_spec ps la m =
     (if is_canonical_linear_address la
      then page_walk (execute_disable_enabled ps) la WALK_ORDER (cr3 ps)
             initial_effective_permissions m
      else Throws Out_of_range)"

text \<open>Results compared up to the dirty flag of the translation.\<close>

definition erase_dirty :: "exn + page_translation \<Rightarrow> exn + page_translation" where
  "erase_dirty r = map_sum id (\<lambda>t. t\<lparr>dirty := False\<rparr>) r"

text \<open>
  \<open>ad_le m m'\<close>: \<open>m'\<close> is \<open>m\<close> with at most some accessed and dirty bits set, which are bits 5 and 6
  of the first byte of an aligned qword.
\<close>

definition ad_le :: "phys_mem \<Rightarrow> phys_mem \<Rightarrow> bool" where
  "ad_le m m' \<longleftrightarrow> length m' = length m \<and>
     (\<forall>i < length m.
        if i mod 8 = 0
        then \<forall>k. (bit (m ! i) k \<longrightarrow> bit (m' ! i) k) \<and>
                 (k \<noteq> 5 \<and> k \<noteq> 6 \<longrightarrow> bit (m' ! i) k = bit (m ! i) k)
        else m' ! i = m ! i)"

section \<open>Entry addresses\<close>

definition aligned4k :: "address64 \<Rightarrow> bool" where
  "aligned4k a \<longleftrightarrow> unat a mod 4096 = 0"

lemma aligned4k_iff: "is_aligned_to_page_size a PAGE_SIZE_4K_BYTES \<longleftrightarrow> aligned4k a"
  using unat_mod_exp_eq_0 [of a 12]
  by (simp add: is_aligned_to_page_size_def page_size_masks aligned4k_def)

lemma aligned4k_table_address [simp]: "aligned4k (table_address e)"
  by (simp add: aligned4k_iff [symmetric] aligned_4k_iff bit_table_address)

lemma page_table_index_less: "page_table_index la lv = Inr i \<Longrightarrow> i < 512"
proof -
  have "unat (x AND PAGE_TABLE_INDEX_MASK) < 512" for x
  proof -
    have "x AND PAGE_TABLE_INDEX_MASK = take_bit 9 x"
      by (simp add: PAGE_TABLE_INDEX_MASK_def take_bit_eq_mask mask_eq_exp_minus_1)
    then have "unat (x AND PAGE_TABLE_INDEX_MASK) = take_bit 9 (unat x)"
      by (simp only: unsigned_take_bit_eq)
    also have "\<dots> = unat x mod 2 ^ 9" by (rule take_bit_eq_mod)
    also have "\<dots> < 2 ^ 9" by (rule mod_less_divisor) simp
    finally show ?thesis by simp
  qed
  then show "page_table_index la lv = Inr i \<Longrightarrow> i < 512"
    by (auto simp: page_table_index_def sbind_def split: sum.splits)
qed

lemma unat_entry_address:
  assumes "aligned4k t" and "i < 512"
  shows "unat (entry_address_for_index t i) = unat t + i * 8"
proof -
  obtain q where q: "unat t = 4096 * q"
    using assms(1) by (auto simp: aligned4k_def mod_eq_0_iff_dvd elim: dvdE)
  have "unat t < 2 ^ 64" by (rule less_le_trans [OF unsigned_less]) simp
  with q have "q < 2 ^ 52" by simp
  with q assms(2) have bound: "unat t + i * 8 < 2 ^ 64" by simp
  have "entry_address_for_index t i = of_nat (unat t + i * 8)"
    by (simp add: entry_address_for_index_def)
  then have "unat (entry_address_for_index t i) = take_bit 64 (unat t + i * 8)"
    by (simp add: unsigned_of_nat del: of_nat_add)
  also have "\<dots> = unat t + i * 8" using bound by (rule take_bit_nat_eq_self)
  finally show ?thesis .
qed

lemma aligned8_entry_address:
  assumes "aligned4k t" and "i < 512"
  shows "aligned8 (entry_address_for_index t i)"
proof -
  obtain q where "unat t = 4096 * q"
    using assms(1) by (auto simp: aligned4k_def mod_eq_0_iff_dvd elim: dvdE)
  then have "unat t + i * 8 = 8 * (512 * q + i)" by simp
  then show ?thesis using unat_entry_address [OF assms] by (simp only: aligned8_def) simp
qed

lemma entry_address_inj:
  assumes "aligned4k t" and "aligned4k t'" and "i < 512" and "j < 512"
    and "entry_address_for_index t i = entry_address_for_index t' j"
  shows "t = t' \<and> i = j"
proof -
  obtain q q' where q: "unat t = 4096 * q" and q': "unat t' = 4096 * q'"
    using assms(1,2) by (auto simp: aligned4k_def mod_eq_0_iff_dvd elim!: dvdE)
  have "unat t + i * 8 = unat t' + j * 8"
    using unat_entry_address [OF assms(1,3)] unat_entry_address [OF assms(2,4)] assms(5) by simp
  then have sum: "i + 512 * q = j + 512 * q'" unfolding q q' by simp
  have "q = (i + 512 * q) div 512" and "q' = (j + 512 * q') div 512" using assms(3,4) by simp_all
  with sum have "q = q'" by simp
  moreover from this sum have "i = j" by simp
  moreover have "t = t'" using q q' \<open>q = q'\<close> by (simp add: word_unat_eq_iff)
  ultimately show ?thesis by simp
qed

section \<open>Accessed and dirty bits\<close>

lemma ad_le_refl [simp]: "ad_le m m"
  by (simp add: ad_le_def)

lemma ad_le_trans [trans]: "ad_le m1 m2 \<Longrightarrow> ad_le m2 m3 \<Longrightarrow> ad_le m1 m3"
  unfolding ad_le_def by (auto split: if_splits)

lemma ad_le_length: "ad_le m m' \<Longrightarrow> length m' = length m"
  by (simp add: ad_le_def)

lemma ad_le_qword_ok: "ad_le m m' \<Longrightarrow> qword_ok m' a = qword_ok m a"
  by (simp add: ad_le_def qword_ok_def)

lemma bit_qword_at: "bit (qword_at m a) k \<longleftrightarrow> k < 64 \<and> bit (m ! (unat a + k div 8)) (k mod 8)"
  by (simp add: qword_at_def bit_read_bytes_le)

lemma aligned8_mod: "aligned8 a \<Longrightarrow> (unat a + j) mod 8 = j mod 8"
  by (auto simp: aligned8_def mod_eq_0_iff_dvd elim!: dvdE)

lemma ad_le_byte:
  assumes "ad_le m m'" and "i < length m"
  shows "bit (m ! i) j \<Longrightarrow> bit (m' ! i) j"
    and "i mod 8 = 0 \<longrightarrow> j \<noteq> 5 \<and> j \<noteq> 6 \<Longrightarrow> bit (m' ! i) j = bit (m ! i) j"
proof -
  from assms have cases: "if i mod 8 = 0
        then \<forall>k. (bit (m ! i) k \<longrightarrow> bit (m' ! i) k) \<and>
                 (k \<noteq> 5 \<and> k \<noteq> 6 \<longrightarrow> bit (m' ! i) k = bit (m ! i) k)
        else m' ! i = m ! i"
    unfolding ad_le_def by blast
  show "bit (m ! i) j \<Longrightarrow> bit (m' ! i) j" using cases by (simp split: if_splits)
  show "i mod 8 = 0 \<longrightarrow> j \<noteq> 5 \<and> j \<noteq> 6 \<Longrightarrow> bit (m' ! i) j = bit (m ! i) j"
    using cases by (simp split: if_splits)
qed

lemma ad_le_bit:
  fixes k :: nat
  assumes "ad_le m m'" and "aligned8 a" and "qword_ok m a" and "k < 64"
  shows "bit (m ! (unat a + k div 8)) (k mod 8) \<Longrightarrow> bit (m' ! (unat a + k div 8)) (k mod 8)"
    and "k \<noteq> 5 \<Longrightarrow> k \<noteq> 6 \<Longrightarrow>
           bit (m' ! (unat a + k div 8)) (k mod 8) = bit (m ! (unat a + k div 8)) (k mod 8)"
proof -
  define i where "i = unat a + k div 8"
  have kd: "k div 8 < 8" using assms(4) by simp
  then have i: "i < length m" using assms(3) by (simp add: qword_ok_def i_def)
  have im: "i mod 8 = k div 8"
    using aligned8_mod [OF assms(2), of "k div 8"] kd unfolding i_def by (simp only: mod_less)
  show "bit (m ! (unat a + k div 8)) (k mod 8) \<Longrightarrow> bit (m' ! (unat a + k div 8)) (k mod 8)"
    using ad_le_byte(1) [OF assms(1) i] unfolding i_def .
  have km: "k mod 8 \<noteq> 5 \<and> k mod 8 \<noteq> 6" if "k \<noteq> 5" "k \<noteq> 6" "k div 8 = 0"
    using that div_eq_0_iff [of k 8] by simp
  show "bit (m' ! (unat a + k div 8)) (k mod 8) = bit (m ! (unat a + k div 8)) (k mod 8)"
    if "k \<noteq> 5" "k \<noteq> 6"
    using ad_le_byte(2) [OF assms(1) i, of "k mod 8"] km that unfolding im unfolding i_def by blast
qed

lemma ad_le_qword_at:
  assumes "ad_le m m'" and "aligned8 a" and "qword_ok m a"
  shows "same_mapping (qword_at m' a) (qword_at m a)"
    and "bit (qword_at m a) k \<Longrightarrow> bit (qword_at m' a) k"
  using ad_le_bit [OF assms] by (auto simp: same_mapping_def bit_qword_at)

lemma ad_le_put_qword:
  assumes "aligned8 a" and "qword_ok m a"
    and same: "same_mapping e (qword_at m a)"
    and mono: "\<And>k. bit (qword_at m a) k \<Longrightarrow> bit e k"
  shows "ad_le m (put_qword m a e)"
  unfolding ad_le_def
proof (intro conjI allI impI)
  show "length (put_qword m a e) = length m" by simp
next
  fix i assume i: "i < length m"
  let ?m' = "put_qword m a e"
  show "if i mod 8 = 0
        then \<forall>k. (bit (m ! i) k \<longrightarrow> bit (?m' ! i) k) \<and>
                 (k \<noteq> 5 \<and> k \<noteq> 6 \<longrightarrow> bit (?m' ! i) k = bit (m ! i) k)
        else ?m' ! i = m ! i"
  proof (cases "unat a \<le> i \<and> i < unat a + 8")
    case False
    then show ?thesis using i by (auto simp: put_qword_def nth_write_bytes_le)
  next
    case True
    define j where "j = i - unat a"
    have j: "i = unat a + j" "j < 8" using True by (auto simp: j_def)
    have new: "bit (?m' ! i) k \<longleftrightarrow> k < 8 \<and> bit e (j * 8 + k)" for k
      using True i by (simp add: put_qword_def nth_write_bytes_le bit_byte_of j)
    have old: "bit (m ! i) k \<longleftrightarrow> k < 8 \<and> bit (qword_at m a) (j * 8 + k)" for k
    proof (cases "k < 8")
      case True
      then show ?thesis using j by (simp add: bit_qword_at)
    next
      case False
      then show ?thesis using bit_imp_le_length [of "m ! i" k] by auto
    qed
    have imod: "i mod 8 = 0 \<longleftrightarrow> j = 0"
      using aligned8_mod [OF assms(1), of j] j by simp
    show ?thesis
      using imod new old same mono
      by (auto simp: same_mapping_def intro!: bit_eqI)
  qed
qed


section \<open>Refinement of the specification\<close>

lemma same_mapping_fields:
  assumes "same_mapping e f"
  shows "is_present e = is_present f" "is_huge_page e = is_huge_page f"
    "is_no_execute e = is_no_execute f" "has_reserved_high_bits e = has_reserved_high_bits f"
    "table_address e = table_address f" "apply_entry p e = apply_entry p f"
    "is_large_leaf_entry e lv = is_large_leaf_entry f lv" "is_leaf_entry e lv = is_leaf_entry f lv"
    "reserved_violation nxe e lv = reserved_violation nxe f lv"
proof -
  have b: "bit e k = bit f k" if "k \<noteq> 5" "k \<noteq> 6" for k
    using assms that by (simp add: same_mapping_def)
  have b_high: "52 \<le> k \<Longrightarrow> bit e k = bit f k" for k by (rule b) auto
  show pres: "is_present e = is_present f" and huge: "is_huge_page e = is_huge_page f"
    and nx: "is_no_execute e = is_no_execute f" by (simp_all add: entry_predicates b)
  show res: "has_reserved_high_bits e = has_reserved_high_bits f"
    unfolding reserved_high_iff using b_high by blast
  show tab: "table_address e = table_address f"
    by (rule bit_eqI) (auto simp: bit_table_address b)
  show "apply_entry p e = apply_entry p f" by (simp add: apply_entry_def entry_predicates b)
  show large: "is_large_leaf_entry e lv = is_large_leaf_entry f lv"
    by (simp add: is_large_leaf_entry_def huge)
  show "is_leaf_entry e lv = is_leaf_entry f lv" by (simp add: is_leaf_entry_def large)
  show "reserved_violation nxe e lv = reserved_violation nxe f lv"
    unfolding reserved_violation_def res nx huge tab large by (rule refl)
qed

lemma same_mapping_frame_address:
  assumes "same_mapping e f" and "page_size_for_leaf_level lv = Inr sz"
  shows "frame_address e sz = frame_address f sz"
proof -
  obtain n where "sz - 1 = mask n" by (rule leaf_level_page_size [OF assms(2)])
  then show ?thesis using assms(1) by (intro bit_eqI) (auto simp: bit_frame_address same_mapping_def)
qed

lemma page_walk_ad_le:
  assumes "ad_le m m'" and "aligned4k table"
  shows "page_walk nxe la lvs table p m' = page_walk nxe la lvs table p m"
  using assms(2)
proof (induction lvs arbitrary: table p)
  case Nil
  then show ?case by simp
next
  case (Cons lv lvs)
  show ?case
  proof (cases "page_table_index la lv")
    case (Inl e)
    then show ?thesis by simp
  next
    case (Inr i)
    define a where "a = entry_address_for_index table i"
    have al: "aligned8 a"
      unfolding a_def by (rule aligned8_entry_address [OF Cons.prems page_table_index_less [OF Inr]])
    show ?thesis
    proof (cases "qword_ok m a")
      case False
      then show ?thesis using Inr ad_le_qword_ok [OF assms(1)] by (simp add: a_def [symmetric])
    next
      case True
      note same = ad_le_qword_at(1) [OF assms(1) al True]
      show ?thesis
        using Inr True ad_le_qword_ok [OF assms(1)] same_mapping_fields [OF same]
          same_mapping_frame_address [OF same] Cons.IH
        by (simp add: a_def [symmetric] Let_def split: sum.split)
    qed
  qed
qed

lemma validate_reserved_bits_run:
  "validate_reserved_bits ps e lv la k pl s =
     ((if reserved_violation (execute_disable_enabled ps) e lv
       then Inl (Page_fault (make_page_fault la k pl RESERVED_BIT)) else Inr ()), s)"
  by (cases lv)
     (simp_all add: validate_reserved_bits_def reserved_violation_def is_large_leaf_entry_def
        throw_page_fault_def op_simps Let_def)

lemma enforce_permissions_run:
  "enforce_permissions ps p la k pl s =
     ((case access_denied ps p k pl of
         Some r \<Rightarrow> Inl (Page_fault (make_page_fault la k pl r)) | None \<Rightarrow> Inr ()), s)"
  by (simp add: enforce_permissions_def access_denied_def is_user_access_def
      is_write_allowed_for_read_only_page_def throw_page_fault_def op_simps)

definition ad_entry :: "bool \<Rightarrow> memory_access_kind \<Rightarrow> pte \<Rightarrow> pte" where
  "ad_entry leaf k e = (if leaf \<and> k = WRITE then with_dirty (with_accessed e) else with_accessed e)"

lemma bit_ad_entry:
  "bit (ad_entry leaf k e) j \<longleftrightarrow> j = 5 \<or> j = 6 \<and> leaf \<and> k = WRITE \<or> bit e j"
  by (auto simp: ad_entry_def bit_with_accessed bit_with_dirty)

lemma same_mapping_ad_entry: "same_mapping (ad_entry leaf k e) e"
  by (simp add: same_mapping_def bit_ad_entry)

lemma mark_accessed_dirty_run:
  assumes "qword_ok m a"
  shows "mark_accessed_dirty a e leaf k m =
     (Inr (ad_entry leaf k e), if ad_entry leaf k e = e then m else put_qword m a (ad_entry leaf k e))"
  using assms
  by (simp add: mark_accessed_dirty_def write_page_table_entry_if_changed_def mem_write_QWORD
      op_simps ad_entry_def Let_def)

lemma mark_accessed_dirty_ad_le:
  assumes "qword_ok m a" and "aligned8 a" and "mark_accessed_dirty a (qword_at m a) leaf k m = (r, m')"
  shows "ad_le m m'"
proof -
  have "ad_le m (put_qword m a (ad_entry leaf k (qword_at m a)))"
    by (rule ad_le_put_qword [OF assms(2,1) same_mapping_ad_entry]) (simp add: bit_ad_entry)
  then show ?thesis using assms(3) by (auto simp: mark_accessed_dirty_run [OF assms(1)] split: if_splits)
qed

lemma is_leaf_page_size: "is_leaf_entry e lv \<Longrightarrow> \<exists>sz. page_size_for_leaf_level lv = Inr sz"
  by (cases lv) (auto simp: is_leaf_entry_def is_large_leaf_entry_def)

lemma walk_levels_refines:
  assumes "aligned4k table" and "walk_levels ps la k pl lvs table p m = (r, m')"
  shows "erase_dirty r =
           check_access ps la k pl (page_walk (execute_disable_enabled ps) la lvs table p m)
       \<and> ad_le m m'"
  using assms
proof (induction lvs arbitrary: table p m)
  case Nil
  then show ?case
    by (auto simp: throw_page_fault_def throw_run erase_dirty_def check_access_def)
next
  case (Cons lv lvs)
  show ?case
  proof (cases "page_table_index la lv")
    case (Inl e)
    then show ?thesis using Cons.prems by (auto simp: op_simps erase_dirty_def check_access_def)
  next
    case (Inr i)
    define a where "a = entry_address_for_index table i"
    define e where "e = qword_at m a"
    have al: "aligned8 a"
      unfolding a_def by (rule aligned8_entry_address [OF Cons.prems(1) page_table_index_less [OF Inr]])
    note run = Cons.prems(2) [unfolded walk_levels.simps Inr a_def [symmetric] Let_def]
    note run_simps = read_page_table_entry_def mem_read_QWORD op_simps throw_page_fault_def
      validate_reserved_bits_run enforce_permissions_run erase_dirty_def check_access_def
    consider (range) "\<not> qword_ok m a" | (absent) "qword_ok m a" "\<not> is_present e"
      | (reserved) "qword_ok m a" "is_present e" "reserved_violation (execute_disable_enabled ps) e lv"
      | (leaf) "qword_ok m a" "is_present e" "\<not> reserved_violation (execute_disable_enabled ps) e lv"
          "is_leaf_entry e lv"
      | (inner) "qword_ok m a" "is_present e" "\<not> reserved_violation (execute_disable_enabled ps) e lv"
          "\<not> is_leaf_entry e lv"
      by blast
    then show ?thesis
    proof cases
      case range
      then show ?thesis using run Inr by (auto simp: run_simps a_def [symmetric])
    next
      case absent
      then show ?thesis using run Inr by (auto simp: run_simps a_def [symmetric] e_def)
    next
      case reserved
      then show ?thesis using run Inr by (auto simp: run_simps a_def [symmetric] e_def)
    next
      case leaf
      then obtain sz where sz: "page_size_for_leaf_level lv = Inr sz"
        using is_leaf_page_size by blast
      obtain m1 where mark: "mark_accessed_dirty a e True k m = (Inr (ad_entry True k e), m1)"
        by (simp add: mark_accessed_dirty_run [OF leaf(1)])
      have ad: "ad_le m m1"
        by (rule mark_accessed_dirty_ad_le [OF leaf(1) al mark [unfolded e_def]])
      have frame: "frame_address (ad_entry True k e) sz = frame_address e sz"
        by (rule same_mapping_frame_address [OF same_mapping_ad_entry sz])
      show ?thesis
        using run Inr leaf sz mark ad frame
        by (auto simp: run_simps a_def [symmetric] e_def [symmetric] split: option.splits)
    next
      case inner
      obtain m1 where mark: "mark_accessed_dirty a e False k m = (Inr (ad_entry False k e), m1)"
        by (simp add: mark_accessed_dirty_run [OF inner(1)])
      have ad: "ad_le m m1"
        by (rule mark_accessed_dirty_ad_le [OF inner(1) al mark [unfolded e_def]])
      have "walk_levels ps la k pl lvs (table_address e) (apply_entry p e) m1 = (r, m')"
        using run inner mark by (simp add: run_simps a_def [symmetric] e_def [symmetric])
      from Cons.IH [OF aligned4k_table_address this] ad
      show ?thesis using Inr inner
        by (auto simp: page_walk_ad_le [OF ad] a_def [symmetric] e_def [symmetric]
            intro: ad_le_trans)
    qed
  qed
qed

text \<open>The contract of the walker, for the MMU.\<close>

lemma walker_translate_run:
  assumes "aligned4k (cr3 ps)" and "walker_translate ps la k pl m = (r, m')"
  shows "erase_dirty r = check_access ps la k pl (translation_spec ps la m) \<and> ad_le m m'"
proof (cases "is_canonical_linear_address la")
  case True
  then have "walk_levels ps la k pl WALK_ORDER (cr3 ps) initial_effective_permissions m = (r, m')"
    using assms(2) by (simp add: walker_translate_def op_simps)
  from walk_levels_refines [OF assms(1) this] True show ?thesis by (simp add: translation_spec_def)
next
  case False
  then show ?thesis using assms(2)
    by (auto simp: walker_translate_def translation_spec_def check_access_def erase_dirty_def op_simps)
qed

lemma translation_spec_ad_le:
  assumes "ad_le m m'" and "aligned4k (cr3 ps)"
  shows "translation_spec ps la m' = translation_spec ps la m"
  by (simp add: translation_spec_def page_walk_ad_le [OF assms])

text \<open>The dirty flag of the translation is the dirty bit of the leaf entry, and a write sets it.\<close>

lemma walk_levels_dirty:
  assumes "walk_levels ps la k pl lvs table p m = (Inr t, m')"
  shows "(dirty t \<longleftrightarrow> is_dirty (qword_at m' (leaf_entry_address t))) \<and> (k = WRITE \<longrightarrow> dirty t)"
  using assms
proof (induction lvs arbitrary: table p m)
  case Nil
  then show ?case by (simp add: throw_page_fault_def throw_run)
next
  case (Cons lv lvs)
  from Cons.prems obtain i where i: "page_table_index la lv = Inr i"
    by (cases "page_table_index la lv") (auto simp: op_simps)
  define a where "a = entry_address_for_index table i"
  define e where "e = qword_at m a"
  note run = Cons.prems [unfolded walk_levels.simps i a_def [symmetric] Let_def]
  note run_simps = read_page_table_entry_def mem_read_QWORD op_simps throw_page_fault_def
    validate_reserved_bits_run enforce_permissions_run
  have ok: "qword_ok m a" using run by (auto simp: run_simps a_def [symmetric] split: if_splits)
  have mark: "mark_accessed_dirty a e leaf k m =
      (Inr (ad_entry leaf k e), if ad_entry leaf k e = e then m else put_qword m a (ad_entry leaf k e))" for leaf
    by (rule mark_accessed_dirty_run [OF ok])
  have after: "qword_at (if ad_entry True k e = e then m else put_qword m a (ad_entry True k e)) a
      = ad_entry True k e"
    using qstore.peek_poke_same [OF ok] by (simp add: e_def)
  show ?case
  proof (cases "is_leaf_entry e lv")
    case True
    then obtain sz where sz: "page_size_for_leaf_level lv = Inr sz" using is_leaf_page_size by blast
    from run True have t: "leaf_entry_address t = a" "dirty t = is_dirty (ad_entry True k e)"
      "m' = (if ad_entry True k e = e then m else put_qword m a (ad_entry True k e))"
      by (auto simp: run_simps ok mark sz a_def [symmetric] e_def [symmetric] split: if_splits option.splits)
    then show ?thesis using after by (simp add: entry_predicates bit_ad_entry)
  next
    case False
    then obtain m1 where "walk_levels ps la k pl lvs (table_address e) (apply_entry p e) m1 = (Inr t, m')"
      using run by (auto simp: run_simps ok mark a_def [symmetric] e_def [symmetric] split: if_splits)
    then show ?thesis by (rule Cons.IH)
  qed
qed

lemma walker_translate_dirty:
  assumes "walker_translate ps la k pl m = (Inr t, m')"
  shows "dirty t \<longleftrightarrow> is_dirty (qword_at m' (leaf_entry_address t))" and "k = WRITE \<Longrightarrow> dirty t"
  using assms walk_levels_dirty [of ps la k pl WALK_ORDER "cr3 ps" initial_effective_permissions m t m']
  by (auto simp: walker_translate_def op_simps split: if_splits)

section \<open>Properties\<close>

text \<open>
  C4: The walker refines the mapping that the tables in memory describe. With a page-aligned CR3 it
  returns exactly the translation of \<open>translation_spec\<close> (up to its dirty flag) when the access
  check allows it, and throws exactly the page fault or range error of the specification
  otherwise; and on every path it changes physical memory in nothing but accessed and dirty bits,
  so no walk of any address changes.
\<close>

theorem walker_translate_refines:
  assumes "aligned4k (cr3 ps)" and "walker_translate ps la k pl m = (r, m')"
  shows "erase_dirty r = check_access ps la k pl (translation_spec ps la m) \<and> ad_le m m' \<and>
    (\<forall>la'. translation_spec ps la' m' = translation_spec ps la' m)"
  using walker_translate_run [OF assms] translation_spec_ad_le [OF _ assms(1)] by blast+

theorem walker_translate_refines_witness:
  "erase_dirty (fst (walker_translate initial_paging_state 0x1000 WRITE RING3 (PhysicalMemory 4096)))
     = Inl (Page_fault \<lparr>pf_linear_address = 0x1000, pf_access_kind = WRITE, pf_reason = NOT_PRESENT,
                        pf_error_code = 6\<rparr>)"
proof -
  have al: "aligned4k (cr3 initial_paging_state)" by (simp add: initial_paging_state_def aligned4k_def)
  have "translation_spec initial_paging_state 0x1000 (PhysicalMemory 4096) = Faults NOT_PRESENT"
    by (simp add: translation_spec_def is_canonical_linear_address_def CANONICAL_SIGN_BIT_def
        CANONICAL_HIGH_MASK_def WALK_ORDER_def page_table_index_def sbind_def PAGE_TABLE_INDEX_MASK_def
        entry_address_for_index_def initial_paging_state_def qword_ok_def PhysicalMemory_def
        qword_at_def entry_predicates)
  then show ?thesis
    using walker_translate_refines [OF al, of "0x1000" WRITE RING3 "PhysicalMemory 4096"]
    by (cases "walker_translate initial_paging_state 0x1000 WRITE RING3 (PhysicalMemory 4096)")
       (simp add: check_access_def make_page_fault_def make_page_fault_error_code_def
         PAGE_FAULT_ERROR_WRITE_BIT_def PAGE_FAULT_ERROR_USER_BIT_def)
qed

end
