(* ===== verification/PageBuild.thy ===== *)
theory PageBuild
  imports PageWalk
begin

unbundle bit_operations_syntax

text \<open>
  The page-table builder, \<^verbatim>\<open>src/cpu/memory/page_table_builder.cpp\<close>: it carves 4 KiB tables out
  of an arena, links them and writes leaf entries. The state is the builder object together with
  the memory behind its bus. The invariant \<open>builder_ok\<close> says that the tables form a tree: a ghost
  map sends every table to the list of indices that leads to it. From it follow the contracts of
  \<open>map_4k\<close>, \<open>map_2m\<close> and \<open>map_1g\<close>: the walk of every address of the page finds the frame and the
  permissions given, and the walk of every other address is what it was.
\<close>

section \<open>The builder\<close>

record page_table_builder =
  pb_memory :: phys_mem
  root_table_address :: address64
  next_free_table_address :: address64
  table_arena_end_address :: address64

definition PAGE_TABLE_ENTRY_COUNT :: nat where "PAGE_TABLE_ENTRY_COUNT = 512"

definition pb_bus :: "(phys_mem, 'a) op \<Rightarrow> (page_table_builder, 'a) op" where
  "pb_bus = focus pb_memory pb_memory_update"

definition require_aligned_address :: "address64 \<Rightarrow> address64 \<Rightarrow> ('s, unit) op" where
  "require_aligned_address address page_size =
     require (is_aligned_to_page_size address page_size) Out_of_range"

definition PageTableBuilder ::
  "phys_mem \<Rightarrow> address64 \<Rightarrow> address64 \<Rightarrow> address64 \<Rightarrow> exn + page_table_builder" where
  "PageTableBuilder memory root next_free arena_end =
     (let b = \<lparr>pb_memory = memory, root_table_address = root, next_free_table_address = next_free,
               table_arena_end_address = arena_end\<rparr>
      in if \<not> is_aligned_to_page_size root PAGE_SIZE_4K_BYTES then Inl Out_of_range
      else if \<not> is_aligned_to_page_size next_free PAGE_SIZE_4K_BYTES then Inl Out_of_range
      else if arena_end \<noteq> 0 \<and> \<not> is_aligned_to_page_size arena_end PAGE_SIZE_4K_BYTES
           then Inl Out_of_range
      else if arena_end \<noteq> 0 \<and> next_free > arena_end then Inl Out_of_range
      else Inr b)"

definition clear_table :: "address64 \<Rightarrow> (page_table_builder, unit) op" where
  "clear_table t =
     for_each (\<lambda>entry_index. pb_bus (mem_write (entry_address_for_index t entry_index) QWORD 0))
       [0..<PAGE_TABLE_ENTRY_COUNT]"

definition clear_root_table :: "(page_table_builder, unit) op" where
  "clear_root_table = (\<lambda>b. clear_table (root_table_address b) b)"

definition allocate_table :: "(page_table_builder, address64) op" where
  "allocate_table =
     bnd (gets id) (\<lambda>b.
       let next_free = next_free_table_address b; arena_end = table_arena_end_address b in
       sq (require (contains_range (pb_memory b) next_free (unat PAGE_SIZE_4K_BYTES)) Out_of_range)
      (sq (require (\<not> (arena_end \<noteq> 0 \<and> next_free > arena_end - PAGE_SIZE_4K_BYTES)) Out_of_range)
      (sq (modify (next_free_table_address_update (\<lambda>a. a + PAGE_SIZE_4K_BYTES)))
      (sq (clear_table next_free)
          (ret next_free)))))"

definition ensure_child_table ::
  "address64 \<Rightarrow> page_table_level \<Rightarrow> nat \<Rightarrow> (page_table_builder, address64) op" where
  "ensure_child_table t level entry_index =
     (let entry_address = entry_address_for_index t entry_index in
      bnd (pb_bus (mem_read entry_address QWORD)) (\<lambda>existing_entry.
        if is_present existing_entry
        then if is_large_leaf_entry existing_entry level then throw Logic_error
             else ret (table_address existing_entry)
        else bnd allocate_table (\<lambda>child_table_address.
             bnd (lift_sum (table_entry child_table_address user_read_write_execute)) (\<lambda>entry.
             sq (pb_bus (mem_write entry_address QWORD entry))
                (ret child_table_address)))))"

definition write_entry :: "address64 \<Rightarrow> nat \<Rightarrow> pte \<Rightarrow> (page_table_builder, unit) op" where
  "write_entry t entry_index entry =
     pb_bus (mem_write (entry_address_for_index t entry_index) QWORD entry)"

definition write_leaf_entry ::
  "address64 \<Rightarrow> page_table_level \<Rightarrow> nat \<Rightarrow> pte \<Rightarrow> (page_table_builder, unit) op" where
  "write_leaf_entry t level entry_index entry =
     (let entry_address = entry_address_for_index t entry_index in
      bnd (pb_bus (mem_read entry_address QWORD)) (\<lambda>existing_entry.
        if is_present existing_entry \<and> \<not> is_leaf_entry existing_entry level then throw Logic_error
        else write_entry t entry_index entry))"

definition map_4k ::
  "address64 \<Rightarrow> address64 \<Rightarrow> page_permissions \<Rightarrow> (page_table_builder, unit) op" where
  "map_4k la pa perms =
     sq (require_aligned_address la PAGE_SIZE_4K_BYTES)
    (sq (require_aligned_address pa PAGE_SIZE_4K_BYTES)
    (bnd (gets root_table_address) (\<lambda>root_table.
     bnd (lift_sum (page_table_index la PML4)) (\<lambda>pml4_index.
     bnd (ensure_child_table root_table PML4 pml4_index) (\<lambda>pdpt_table.
     bnd (lift_sum (page_table_index la PDPT)) (\<lambda>pdpt_index.
     bnd (ensure_child_table pdpt_table PDPT pdpt_index) (\<lambda>pd_table.
     bnd (lift_sum (page_table_index la PD)) (\<lambda>pd_index.
     bnd (ensure_child_table pd_table PD pd_index) (\<lambda>pt_table.
     bnd (lift_sum (page_table_index la PT)) (\<lambda>pt_index.
     bnd (lift_sum (page_4k pa perms)) (\<lambda>entry.
     write_leaf_entry pt_table PT pt_index entry)))))))))))"

definition map_2m ::
  "address64 \<Rightarrow> address64 \<Rightarrow> page_permissions \<Rightarrow> (page_table_builder, unit) op" where
  "map_2m la pa perms =
     sq (require_aligned_address la PAGE_SIZE_2M_BYTES)
    (sq (require_aligned_address pa PAGE_SIZE_2M_BYTES)
    (bnd (gets root_table_address) (\<lambda>root_table.
     bnd (lift_sum (page_table_index la PML4)) (\<lambda>pml4_index.
     bnd (ensure_child_table root_table PML4 pml4_index) (\<lambda>pdpt_table.
     bnd (lift_sum (page_table_index la PDPT)) (\<lambda>pdpt_index.
     bnd (ensure_child_table pdpt_table PDPT pdpt_index) (\<lambda>pd_table.
     bnd (lift_sum (page_table_index la PD)) (\<lambda>pd_index.
     bnd (lift_sum (page_2m pa perms)) (\<lambda>entry.
     write_leaf_entry pd_table PD pd_index entry)))))))))"

definition map_1g ::
  "address64 \<Rightarrow> address64 \<Rightarrow> page_permissions \<Rightarrow> (page_table_builder, unit) op" where
  "map_1g la pa perms =
     sq (require_aligned_address la PAGE_SIZE_1G_BYTES)
    (sq (require_aligned_address pa PAGE_SIZE_1G_BYTES)
    (bnd (gets root_table_address) (\<lambda>root_table.
     bnd (lift_sum (page_table_index la PML4)) (\<lambda>pml4_index.
     bnd (ensure_child_table root_table PML4 pml4_index) (\<lambda>pdpt_table.
     bnd (lift_sum (page_table_index la PDPT)) (\<lambda>pdpt_index.
     bnd (lift_sum (page_1g pa perms)) (\<lambda>entry.
     write_leaf_entry pdpt_table PDPT pdpt_index entry)))))))"

section \<open>Index paths\<close>

text \<open>Depth 0 is the PML4, depth 3 the page table; \<open>index_at la d\<close> is the index used at depth \<open>d\<close>.\<close>

definition index_at :: "address64 \<Rightarrow> nat \<Rightarrow> nat" where
  "index_at la d = unat (drop_bit (39 - 9 * d) la AND PAGE_TABLE_INDEX_MASK)"

definition index_path :: "address64 \<Rightarrow> nat \<Rightarrow> nat list" where
  "index_path la d = map (index_at la) [0..<d]"

lemma index_path_simps [simp]:
  "length (index_path la d) = d" "index_path la 0 = []"
  "index_path la (Suc d) = index_path la d @ [index_at la d]"
  by (simp_all add: index_path_def)

lemma less_4_cases: "d < 4 \<Longrightarrow> d = 0 \<or> d = 1 \<or> d = 2 \<or> d = (3::nat)"
  by arith

lemma page_table_index_at: "d < 4 \<Longrightarrow> page_table_index la (WALK_ORDER ! d) = Inr (index_at la d)"
  by (drule less_4_cases)
     (auto simp: page_table_index_def index_at_def WALK_ORDER_def sbind_def)

lemma index_at_less [simp]: "d < 4 \<Longrightarrow> index_at la d < 512"
  by (rule page_table_index_less [OF page_table_index_at])

lemma drop_WALK_ORDER: "d < 4 \<Longrightarrow> drop d WALK_ORDER = WALK_ORDER ! d # drop (Suc d) WALK_ORDER"
  by (drule less_4_cases) (auto simp: WALK_ORDER_def)

text \<open>Bits 12 to 47 of an address are its index path, and canonical addresses have no others.\<close>

lemma bit_INDEX_MASK: "bit PAGE_TABLE_INDEX_MASK k \<longleftrightarrow> k < 9"
proof -
  have m: "PAGE_TABLE_INDEX_MASK = mask 9"
    by (simp add: PAGE_TABLE_INDEX_MASK_def mask_eq_exp_minus_1)
  show ?thesis unfolding m by (auto simp: bit_simps)
qed

lemma bit_index_at:
  assumes "index_at la d = index_at lb d" and "39 - 9 * d \<le> k" and "k < 39 - 9 * d + 9"
  shows "bit la k = bit lb k"
proof -
  have "drop_bit (39 - 9 * d) la AND PAGE_TABLE_INDEX_MASK
      = drop_bit (39 - 9 * d) lb AND PAGE_TABLE_INDEX_MASK"
    using assms(1) by (simp add: index_at_def word_unat_eq_iff)
  then have "bit (drop_bit (39 - 9 * d) la AND PAGE_TABLE_INDEX_MASK) (k - (39 - 9 * d))
      = bit (drop_bit (39 - 9 * d) lb AND PAGE_TABLE_INDEX_MASK) (k - (39 - 9 * d))"
    by simp
  moreover have "bit PAGE_TABLE_INDEX_MASK (k - (39 - 9 * d))"
    using assms(2,3) by (simp add: bit_INDEX_MASK)
  ultimately show ?thesis using assms(2) by (simp add: bit_simps)
qed

lemma index_at_cong:
  assumes "\<And>k. 39 - 9 * d \<le> k \<Longrightarrow> k < 48 - 9 * d \<Longrightarrow> bit la k = bit lb k" and "d < 4"
  shows "index_at la d = index_at lb d"
proof -
  have "bit la (39 - 9 * d + n) = bit lb (39 - 9 * d + n)" if "n < 9" for n
    using that assms(2) by (intro assms(1)) auto
  then have "drop_bit (39 - 9 * d) la AND PAGE_TABLE_INDEX_MASK
      = drop_bit (39 - 9 * d) lb AND PAGE_TABLE_INDEX_MASK"
    by (intro bit_eqI) (auto simp: bit_and_iff bit_drop_bit_eq bit_INDEX_MASK)
  then show ?thesis by (simp add: index_at_def)
qed

lemma canonical_bits:
  "is_canonical_linear_address a \<longleftrightarrow> (\<forall>k. 48 \<le> k \<and> k < 64 \<longrightarrow> bit a k = bit a 47)"
proof -
  have hm: "CANONICAL_HIGH_MASK = push_bit 48 (mask 16)"
    by (simp add: CANONICAL_HIGH_MASK_def mask_eq_exp_minus_1 push_bit_eq_mult)
  have hb: "bit (a AND CANONICAL_HIGH_MASK) k \<longleftrightarrow> bit a k \<and> 48 \<le> k \<and> k < 64" for k
    unfolding hm by (auto simp: bit_simps)
  have hb1: "bit CANONICAL_HIGH_MASK k \<longleftrightarrow> 48 \<le> k \<and> k < 64" for k
    unfolding hm by (auto simp: bit_simps)
  have "a AND CANONICAL_HIGH_MASK = CANONICAL_HIGH_MASK \<longleftrightarrow> (\<forall>k. 48 \<le> k \<and> k < 64 \<longrightarrow> bit a k)"
    unfolding bit_eq_iff hb hb1 by auto
  moreover have "a AND CANONICAL_HIGH_MASK = 0 \<longleftrightarrow> (\<forall>k. 48 \<le> k \<and> k < 64 \<longrightarrow> \<not> bit a k)"
    unfolding bit_eq_iff hb by (auto simp: bit_imp_le_length)
  moreover have "a AND CANONICAL_SIGN_BIT \<noteq> 0 \<longleftrightarrow> bit a 47"
    unfolding CANONICAL_SIGN_BIT_def by (rule and_push_bit_one_neq_0)
  ultimately show ?thesis
    unfolding is_canonical_linear_address_def Let_def by auto
qed

lemma index_path_page_base:
  assumes "is_canonical_linear_address la" and "is_canonical_linear_address lb" and "0 < d" "d \<le> 4"
    and "sz - 1 = mask (48 - 9 * d)"
  shows "index_path la d = index_path lb d \<longleftrightarrow> page_base la sz = page_base lb sz"
proof
  assume path: "index_path la d = index_path lb d"
  have idx: "index_at la j = index_at lb j" if "j < d" for j
    using arg_cong [OF path, of "\<lambda>p. p ! j"] that by (simp add: index_path_def)
  have low: "bit la k = bit lb k" if "48 - 9 * d \<le> k" "k < 48" for k
  proof -
    define j where "j = (47 - k) div 9"
    have "9 * j \<le> 47 - k" "47 - k < 9 * j + 9" unfolding j_def by simp_all
    then have "j < d" "39 - 9 * j \<le> k" "k < 39 - 9 * j + 9" using that assms(4) by linarith+
    then show ?thesis using bit_index_at idx by blast
  qed
  have "bit la k = bit lb k" if "48 - 9 * d \<le> k" for k
  proof (cases "k < 48")
    case True
    then show ?thesis using low that by blast
  next
    case False
    have "bit la 47 = bit lb 47" using low assms(3) by auto
    then show ?thesis
      using False assms(1,2) unfolding canonical_bits by (cases "k < 64") (auto dest: bit_imp_le_length)
  qed
  then show "page_base la sz = page_base lb sz"
    by (intro bit_eqI) (auto simp: bit_page_base [OF assms(5)])
next
  assume base: "page_base la sz = page_base lb sz"
  then have "bit la k = bit lb k" if "48 - 9 * d \<le> k" for k
    using that bit_page_base [OF assms(5), of la k] bit_page_base [OF assms(5), of lb k] base by simp
  then have "index_at la j = index_at lb j" if "j < d" for j
    using that assms(4) by (intro index_at_cong) auto
  then show "index_path la d = index_path lb d" by (simp add: index_path_def)
qed

section \<open>The invariant\<close>

definition plain_table :: "pte \<Rightarrow> bool" where
  "plain_table e \<longleftrightarrow> is_writable e \<and> is_user_accessible e \<and> \<not> is_no_execute e \<and>
     \<not> is_huge_page e \<and> \<not> has_reserved_high_bits e"

type_synonym table_paths = "address64 \<rightharpoonup> nat list"

definition tables_inv :: "table_paths \<Rightarrow> page_table_builder \<Rightarrow> bool" where
  "tables_inv T b \<longleftrightarrow>
     aligned4k (next_free_table_address b) \<and> length (pb_memory b) \<le> 2 ^ 52 \<and>
     T (root_table_address b) = Some [] \<and>
     (\<forall>t q. T t = Some q \<longrightarrow> aligned4k t \<and> unat t + 4096 \<le> length (pb_memory b) \<and>
        unat t < unat (next_free_table_address b) \<and> length q < 4 \<and>
        unat (root_table_address b) \<le> unat t) \<and>
     (\<forall>t q i. T t = Some q \<longrightarrow> length q < 3 \<longrightarrow> i < 512 \<longrightarrow>
        (let e = qword_at (pb_memory b) (entry_address_for_index t i) in
         is_present e \<longrightarrow> \<not> is_large_leaf_entry e (WALK_ORDER ! length q) \<longrightarrow>
         T (table_address e) = Some (q @ [i]) \<and> plain_table e))"

text \<open>Conversely every table but the root is linked from the table one level up.\<close>

definition tables_up :: "table_paths \<Rightarrow> page_table_builder \<Rightarrow> bool" where
  "tables_up T b \<longleftrightarrow>
     (\<forall>t. T t = Some [] \<longrightarrow> t = root_table_address b) \<and>
     (\<forall>t q i. T t = Some (q @ [i]) \<longrightarrow> i < 512 \<and>
        (\<exists>t'. T t' = Some q \<and>
           (let e = qword_at (pb_memory b) (entry_address_for_index t' i) in
            is_present e \<and> \<not> is_large_leaf_entry e (WALK_ORDER ! length q) \<and> table_address e = t)))"

definition builder_ok :: "page_table_builder \<Rightarrow> bool" where
  "builder_ok b \<longleftrightarrow> (\<exists>T. tables_inv T b \<and> tables_up T b)"

definition walk_of :: "bool \<Rightarrow> address64 \<Rightarrow> page_table_builder \<Rightarrow> walk_outcome" where
  "walk_of nxe la b =
     page_walk nxe la WALK_ORDER (root_table_address b) initial_effective_permissions (pb_memory b)"

lemma tables_invD:
  assumes "tables_inv T b" and "T t = Some q"
  shows "aligned4k t" "unat t + 4096 \<le> length (pb_memory b)"
    "unat t < unat (next_free_table_address b)" "length q < 4" "unat (root_table_address b) \<le> unat t"
  using assms unfolding tables_inv_def by blast+

lemma tables_inv_child:
  assumes "tables_inv T b" and "T t = Some q" and "length q < 3" and "i < 512"
    and "e = qword_at (pb_memory b) (entry_address_for_index t i)" and "is_present e"
    and "\<not> is_large_leaf_entry e (WALK_ORDER ! length q)"
  shows "T (table_address e) = Some (q @ [i])" "plain_table e"
  using assms unfolding tables_inv_def Let_def by blast+

lemma entry_ok:
  assumes "aligned4k t" and "unat t + 4096 \<le> length m" and "i < 512"
  shows "qword_ok m (entry_address_for_index t i)"
  using assms by (simp add: qword_ok_def unat_entry_address)

lemma tables_entry_ok:
  assumes "tables_inv T b" and "T t = Some q" and "i < 512"
  shows "qword_ok (pb_memory b) (entry_address_for_index t i)"
  using entry_ok [OF tables_invD(1,2) [OF assms(1,2)] assms(3)] .

lemma page_walk_depth:
  assumes "d < 4"
  shows "page_walk nxe la (drop d WALK_ORDER) t p m =
    (let a = entry_address_for_index t (index_at la d); lv = WALK_ORDER ! d in
       if \<not> qword_ok m a then Throws Out_of_range
       else let entry = qword_at m a in
       if \<not> is_present entry then Faults NOT_PRESENT
       else if reserved_violation nxe entry lv then Faults RESERVED_BIT
       else if is_leaf_entry entry lv
       then (case page_size_for_leaf_level lv of Inl e \<Rightarrow> Throws e | Inr page_size \<Rightarrow>
               Mapped \<lparr>virtual_page_base = page_base la page_size,
                       physical_frame_base = frame_address entry page_size,
                       page_size_bytes = page_size,
                       permissions = apply_entry p entry,
                       leaf_entry_address = a,
                       dirty = False\<rparr>)
       else page_walk nxe la (drop (Suc d) WALK_ORDER) (table_address entry) (apply_entry p entry) m)"
  by (simp add: drop_WALK_ORDER [OF assms] page_table_index_at [OF assms] Let_def)

lemma WALK_ORDER_nth_3: "WALK_ORDER ! 3 = PT"
  by (simp add: WALK_ORDER_def)

text \<open>Walks are equal when the entries on the path are, or from where they become equal.\<close>

lemma page_walk_cong:
  assumes inv: "tables_inv T b" and len: "length m' = length (pb_memory b)"
    and path: "\<And>t d. d < 4 \<Longrightarrow> T t = Some (index_path la d) \<Longrightarrow>
        (let a = entry_address_for_index t (index_at la d) in
         qword_at m' a = qword_at (pb_memory b) a) \<or>
        (\<forall>p. page_walk nxe la (drop d WALK_ORDER) t p m'
           = page_walk nxe la (drop d WALK_ORDER) t p (pb_memory b))"
    and "d < 4" and "T t = Some (index_path la d)"
  shows "page_walk nxe la (drop d WALK_ORDER) t p m'
       = page_walk nxe la (drop d WALK_ORDER) t p (pb_memory b)"
  using assms(4,5)
proof (induction "3 - d" arbitrary: d t p)
  case 0
  then have d: "d = 3" by simp
  have "qword_ok (pb_memory b) a = qword_ok m' a" for a by (simp add: qword_ok_def len)
  moreover have "is_leaf_entry e PT" for e by (simp add: is_leaf_entry_def)
  ultimately have "page_walk nxe la (drop d WALK_ORDER) t p m'
       = page_walk nxe la (drop d WALK_ORDER) t p (pb_memory b)"
    if "let a = entry_address_for_index t (index_at la d) in
        qword_at m' a = qword_at (pb_memory b) a"
    using that by (simp add: page_walk_depth d WALK_ORDER_nth_3 Let_def)
  then show ?case using path [OF 0(2,3)] by blast
next
  case (Suc k)
  then have d: "d < 3" by simp
  let ?a = "entry_address_for_index t (index_at la d)"
  show ?case
  proof (cases "qword_at m' ?a = qword_at (pb_memory b) ?a")
    case False
    then show ?thesis using path [OF Suc.prems] by (auto simp: Let_def)
  next
    case True
    let ?e = "qword_at (pb_memory b) ?a"
    have ok: "qword_ok (pb_memory b) ?a = qword_ok m' ?a" by (simp add: qword_ok_def len)
    have "page_walk nxe la (drop (Suc d) WALK_ORDER) (table_address ?e) p' m'
        = page_walk nxe la (drop (Suc d) WALK_ORDER) (table_address ?e) p' (pb_memory b)"
      if "is_present ?e" "\<not> is_leaf_entry ?e (WALK_ORDER ! d)" for p'
    proof (rule Suc.hyps(1))
      show "k = 3 - Suc d" "Suc d < 4" using Suc.hyps(2) d by simp_all
      have "\<not> is_large_leaf_entry ?e (WALK_ORDER ! d)" using that(2) by (simp add: is_leaf_entry_def)
      then show "T (table_address ?e) = Some (index_path la (Suc d))"
        using tables_inv_child(1) [OF inv Suc.prems(2) _ _ refl] that(1) d by simp
    qed
    then show ?thesis using True ok by (simp add: page_walk_depth [OF Suc.prems(1)] Let_def)
  qed
qed

section \<open>Clearing and allocating tables\<close>

definition zero_table :: "phys_mem \<Rightarrow> address64 \<Rightarrow> phys_mem" where
  "zero_table m t = fold (\<lambda>a m. put_qword m a 0) (map (entry_address_for_index t) [0..<512]) m"

lemma length_zero_table [simp]: "length (zero_table m t) = length m"
  unfolding zero_table_def by (rule fold_invariant [where P = "\<lambda>m'. length m' = length m"]) auto

lemma clear_table_run:
  assumes "aligned4k t" and "unat t + 4096 \<le> length (pb_memory b)"
  shows "clear_table t b = (Inr (), b\<lparr>pb_memory := zero_table (pb_memory b) t\<rparr>)"
proof -
  have "for_each (\<lambda>i. pb_bus (mem_write (entry_address_for_index t i) QWORD 0)) is b =
      (Inr (), b\<lparr>pb_memory :=
         fold (\<lambda>a m. put_qword m a 0) (map (entry_address_for_index t) is) (pb_memory b)\<rparr>)"
    if "set is \<subseteq> {..<512}" "unat t + 4096 \<le> length (pb_memory b)" for "is" b
    using that
  proof (induction "is" arbitrary: b)
    case Nil
    then show ?case by (simp add: ret_run)
  next
    case (Cons i "is")
    then have "qword_ok (pb_memory b) (entry_address_for_index t i)"
      by (intro entry_ok [OF assms(1)]) auto
    with Cons show ?case
      by (simp add: sq_run pb_bus_def focus_run mem_write_QWORD)
  qed
  from this [of "[0..<512]" b] assms(2) show ?thesis
    by (simp add: clear_table_def PAGE_TABLE_ENTRY_COUNT_def zero_table_def atLeast0LessThan)
qed

lemma qword_at_zero_table:
  assumes "aligned4k t" and "aligned8 x" and "qword_ok m x"
  shows "qword_at (zero_table m t) x =
    (if \<exists>i < 512. x = entry_address_for_index t i then 0 else qword_at m x)"
proof -
  have "qword_at (zero_table m t) x =
      (if x \<in> set (map (entry_address_for_index t) [0..<512]) then 0 else qword_at m x)"
    unfolding zero_table_def
    by (rule qstore.peek_fold_poke) (auto intro: aligned8_entry_address assms)
  then show ?thesis by auto
qed

lemma allocate_table_run:
  assumes "aligned4k (next_free_table_address b)"
  shows "allocate_table b =
    (let nf = next_free_table_address b; e = table_arena_end_address b in
     if unat nf + 4096 \<le> length (pb_memory b) \<and> (e = 0 \<or> nf \<le> e - PAGE_SIZE_4K_BYTES)
     then (Inr nf, b\<lparr>next_free_table_address := nf + PAGE_SIZE_4K_BYTES,
                     pb_memory := zero_table (pb_memory b) nf\<rparr>)
     else (Inl Out_of_range, b))"
proof -
  have "unat PAGE_SIZE_4K_BYTES = 4096" by (simp add: PAGE_SIZE_4K_BYTES_def)
  then show ?thesis
    using assms by (auto simp: allocate_table_def op_simps contains_range_iff clear_table_run Let_def)
qed

lemma table_entry_bits:
  assumes "aligned4k c" and "unat c < 2 ^ 52"
  obtains e where "table_entry c user_read_write_execute = Inr e"
    and "table_address e = c" and "plain_table e" and "is_present e"
proof -
  obtain e where e: "table_entry c user_read_write_execute = Inr e"
    using assms(1) by (simp add: table_entry_def present_entry_def aligned4k_iff)
  note bits = bit_present_entry [OF e [unfolded table_entry_def], unfolded bit_permission_bits
      user_read_write_execute_def PagePermissions_def, simplified]
  have "take_bit 52 (unat c) = unat c" using assms(2) by (rule take_bit_nat_eq_self)
  then have "take_bit 52 c = c" by (metis unsigned_take_bit_eq unsigned_word_eqI)
  then have high: "bit c k \<Longrightarrow> k < 52" for k by (metis bit_take_bit_iff)
  have "bit c k \<Longrightarrow> 12 \<le> k" for k
    using assms(1) unfolding aligned4k_iff [symmetric] aligned_4k_iff by (meson not_le)
  then have "table_address e = c"
    using high by (intro bit_eqI) (auto simp: bit_table_address bits)
  moreover have "plain_table e"
    using high by (auto simp: plain_table_def entry_predicates reserved_high_iff bits)
  moreover have "is_present e" by (simp add: entry_predicates bits)
  ultimately show ?thesis using that e by blast
qed

text \<open>The memory after a new child table has been linked at \<open>a\<close>.\<close>

lemma qword_at_link:
  assumes "aligned4k nf" and "aligned8 a" and "aligned8 x" and "qword_ok m x"
  shows "qword_at (put_qword (zero_table m nf) a e) x =
    (if x = a then e else if \<exists>i < 512. x = entry_address_for_index nf i then 0 else qword_at m x)"
proof -
  have "qword_ok (zero_table m nf) x" using assms(4) by (simp add: qword_ok_def)
  then show ?thesis
    using qstore.peek_poke [OF assms(2,3), of "zero_table m nf" e]
      qword_at_zero_table [OF assms(1,3,4)] by simp
qed

lemma qword_at_link_entry:
  assumes nf: "aligned4k nf" and t: "aligned4k t" and i: "i < 512"
    and t': "aligned4k t'" "unat t' + 4096 \<le> length m" and j: "j < 512"
  shows "qword_at (put_qword (zero_table m nf) (entry_address_for_index t i) e)
           (entry_address_for_index t' j) =
      (if t' = t \<and> j = i then e else if t' = nf then 0
       else qword_at m (entry_address_for_index t' j))"
proof -
  have x1: "(\<exists>k<512. entry_address_for_index t' j = entry_address_for_index nf k) \<longleftrightarrow> t' = nf"
    using entry_address_inj [OF t'(1) nf j] j by blast
  have x2: "entry_address_for_index t' j = entry_address_for_index t i \<longleftrightarrow> t' = t \<and> j = i"
    using entry_address_inj [OF t'(1) t j i] by blast
  show ?thesis
    using qword_at_link [OF nf aligned8_entry_address [OF t i] aligned8_entry_address [OF t'(1) j]
        entry_ok [OF t' j], of e]
    unfolding x1 x2 .
qed

lemma not_present_0 [simp]: "\<not> is_present 0"
  by (simp add: entry_predicates)

lemma plain_table_leaf: "plain_table e \<Longrightarrow> lv \<noteq> PT \<Longrightarrow> \<not> is_leaf_entry e lv"
  by (simp add: plain_table_def is_leaf_entry_def is_large_leaf_entry_def)

lemma plain_table_reserved: "plain_table e \<Longrightarrow> \<not> reserved_violation nxe e lv"
  by (simp add: plain_table_def reserved_violation_def is_large_leaf_entry_def)

lemma plain_table_apply: "plain_table e \<Longrightarrow> apply_entry initial_effective_permissions e = initial_effective_permissions"
  by (simp add: plain_table_def apply_entry_def initial_effective_permissions_def)

section \<open>The child-table step\<close>

lemma aligned4k_add:
  assumes "aligned4k a" and "unat a + 4096 < 2 ^ 64"
  shows "aligned4k (a + PAGE_SIZE_4K_BYTES)" and "unat (a + PAGE_SIZE_4K_BYTES) = unat a + 4096"
proof -
  have p: "unat PAGE_SIZE_4K_BYTES = 4096" by (simp add: PAGE_SIZE_4K_BYTES_def)
  show u: "unat (a + PAGE_SIZE_4K_BYTES) = unat a + 4096"
    using assms(2) p unat_add_lem [of a PAGE_SIZE_4K_BYTES] by simp
  show "aligned4k (a + PAGE_SIZE_4K_BYTES)" using assms(1) by (simp add: aligned4k_def u)
qed

definition link_table :: "page_table_builder \<Rightarrow> address64 \<Rightarrow> pte \<Rightarrow> page_table_builder" where
  "link_table b a e = b\<lparr>next_free_table_address := next_free_table_address b + PAGE_SIZE_4K_BYTES,
     pb_memory := put_qword (zero_table (pb_memory b) (next_free_table_address b)) a e\<rparr>"

lemma ensure_child_table_run:
  assumes "tables_inv T b" and "T t = Some q" and "i < 512"
  shows "ensure_child_table t lv i b =
    (let a = entry_address_for_index t i; e = qword_at (pb_memory b) a; nf = next_free_table_address b;
         ae = table_arena_end_address b in
     if is_present e
     then if is_large_leaf_entry e lv then (Inl Logic_error, b) else (Inr (table_address e), b)
     else if unat nf + 4096 \<le> length (pb_memory b) \<and> (ae = 0 \<or> nf \<le> ae - PAGE_SIZE_4K_BYTES)
     then (case table_entry nf user_read_write_execute of Inl x \<Rightarrow> (Inl x, snd (allocate_table b))
           | Inr e' \<Rightarrow> (Inr nf, link_table b a e'))
     else (Inl Out_of_range, b))"
proof -
  have ok: "qword_ok (pb_memory b) (entry_address_for_index t i)"
    by (rule tables_entry_ok [OF assms])
  then have ok': "qword_ok (zero_table (pb_memory b) nf) (entry_address_for_index t i)" for nf
    by (simp add: qword_ok_def)
  have nf: "aligned4k (next_free_table_address b)" using assms(1) by (simp add: tables_inv_def)
  show ?thesis using ok ok'
    by (auto simp: ensure_child_table_def op_simps pb_bus_def mem_read_QWORD mem_write_QWORD
        allocate_table_run [OF nf] link_table_def Let_def split: sum.split)
qed

lemma tables_inv_link:
  assumes inv: "tables_inv T b" and t: "T t = Some q" and q: "length q < 3" and i: "i < 512"
    and absent: "\<not> is_present (qword_at (pb_memory b) (entry_address_for_index t i))"
    and room: "unat (next_free_table_address b) + 4096 \<le> length (pb_memory b)"
    and e: "table_address e = next_free_table_address b" "plain_table e" "is_present e"
  shows "tables_inv (T(next_free_table_address b \<mapsto> q @ [i]))
           (link_table b (entry_address_for_index t i) e)"
proof -
  define nf where "nf = next_free_table_address b"
  let ?a = "entry_address_for_index t i" and ?T = "T(nf \<mapsto> q @ [i])"
  let ?b = "link_table b ?a e"
  have nf: "aligned4k nf" and len: "length (pb_memory b) \<le> 2 ^ 52"
    and root: "T (root_table_address b) = Some []"
    using inv by (simp_all add: tables_inv_def nf_def)
  have nfs: "aligned4k (nf + PAGE_SIZE_4K_BYTES)" "unat (nf + PAGE_SIZE_4K_BYTES) = unat nf + 4096"
    using aligned4k_add [OF nf] room len unfolding nf_def by simp_all
  have fresh: "T nf = None"
    using tables_invD(3) [OF inv, of nf] unfolding nf_def by (cases "T (next_free_table_address b)") auto
  have fields: "root_table_address ?b = root_table_address b"
    "next_free_table_address ?b = nf + PAGE_SIZE_4K_BYTES"
    "length (pb_memory ?b) = length (pb_memory b)"
    by (simp_all add: link_table_def nf_def)
  have mem: "qword_at (pb_memory ?b) (entry_address_for_index t' j) =
      (if t' = t \<and> j = i then e else if t' = nf then 0
       else qword_at (pb_memory b) (entry_address_for_index t' j))"
    if t': "?T t' = Some q'" and j: "j < 512" for t' q' j
  proof -
    have al': "aligned4k t'" and len': "unat t' + 4096 \<le> length (pb_memory b)"
      using t' nf tables_invD(1,2) [OF inv] room
      by (auto simp: nf_def split: if_splits)
    then show ?thesis
      using qword_at_link_entry [OF nf tables_invD(1) [OF inv t] i al' len' j, of e]
      by (simp add: link_table_def nf_def [symmetric])
  qed
  have "?T (table_address e') = Some (q' @ [j]) \<and> plain_table e'"
    if "?T t' = Some q'" "length q' < 3" "j < 512" and
      e': "e' = qword_at (pb_memory ?b) (entry_address_for_index t' j)" "is_present e'"
      "\<not> is_large_leaf_entry e' (WALK_ORDER ! length q')" for t' q' j e'
  proof (cases "t' = t \<and> j = i")
    case True
    then have "q' = q" using that(1) t fresh by (auto split: if_splits)
    then show ?thesis using True e' e mem [OF that(1,3)] by (simp add: nf_def)
  next
    case False
    then have t': "t' \<noteq> nf" using mem [OF that(1,3)] e' by auto
    then have old: "e' = qword_at (pb_memory b) (entry_address_for_index t' j)" "T t' = Some q'"
      using mem [OF that(1,3)] e' False that(1) by auto
    have "T (table_address e') = Some (q' @ [j])" "plain_table e'"
      using tables_inv_child [OF inv old(2) that(2,3) old(1) e'(2,3)] .
    then show ?thesis using fresh by auto
  qed
  moreover have "aligned4k t' \<and> unat t' + 4096 \<le> length (pb_memory ?b) \<and>
      unat t' < unat (next_free_table_address ?b) \<and> length q' < 4 \<and>
      unat (root_table_address ?b) \<le> unat t'" if "?T t' = Some q'" for t' q'
    using that nf room q tables_invD [OF inv, of t' q'] nfs fields tables_invD(3) [OF inv root]
    by (auto simp: nf_def split: if_splits)
  moreover have "?T (root_table_address ?b) = Some []" using root fresh fields by auto
  ultimately show ?thesis using nfs len fields unfolding tables_inv_def Let_def nf_def by simp
qed

text \<open>Linking a fresh, empty table changes no walk: what was absent is still absent.\<close>

lemma walk_of_link:
  assumes inv: "tables_inv T b" and t: "T t = Some q" and q: "length q < 3" and i: "i < 512"
    and absent: "\<not> is_present (qword_at (pb_memory b) (entry_address_for_index t i))"
    and room: "unat (next_free_table_address b) + 4096 \<le> length (pb_memory b)"
    and e: "table_address e = next_free_table_address b" "plain_table e" "is_present e"
  shows "walk_of nxe la (link_table b (entry_address_for_index t i) e) = walk_of nxe la b"
proof -
  let ?a = "entry_address_for_index t i" and ?nf = "next_free_table_address b"
  define m' where "m' = put_qword (zero_table (pb_memory b) ?nf) ?a e"
  have nf: "aligned4k ?nf" using inv by (simp add: tables_inv_def)
  have len: "length m' = length (pb_memory b)" by (simp add: m'_def)
  have ok: "qword_ok m' x = qword_ok (pb_memory b) x" for x by (simp add: qword_ok_def len)
  have mem: "qword_at m' (entry_address_for_index t' j) =
      (if t' = t \<and> j = i then e else if t' = ?nf then 0
       else qword_at (pb_memory b) (entry_address_for_index t' j))"
    if "aligned4k t'" "unat t' + 4096 \<le> length (pb_memory b)" "j < 512" for t' j
    unfolding m'_def by (rule qword_at_link_entry [OF nf tables_invD(1) [OF inv t] i that])
  have "page_walk nxe la (drop 0 WALK_ORDER) (root_table_address b) p m'
      = page_walk nxe la (drop 0 WALK_ORDER) (root_table_address b) p (pb_memory b)" for p
  proof (rule page_walk_cong [OF inv len])
    show "0 < (4::nat)" by simp
    show "T (root_table_address b) = Some (index_path la 0)" using inv by (simp add: tables_inv_def)
    fix t' d assume d: "d < 4" and t': "T t' = Some (index_path la d)"
    note m1 = mem [OF tables_invD(1,2) [OF inv t'] index_at_less [OF d, of la]]
    have "t' \<noteq> ?nf" using tables_invD(3) [OF inv t'] by auto
    show "(let a = entry_address_for_index t' (index_at la d) in qword_at m' a = qword_at (pb_memory b) a) \<or>
        (\<forall>p. page_walk nxe la (drop d WALK_ORDER) t' p m'
           = page_walk nxe la (drop d WALK_ORDER) t' p (pb_memory b))"
    proof (cases "t' = t \<and> index_at la d = i")
      case False
      then show ?thesis using m1 \<open>t' \<noteq> ?nf\<close> by (auto simp: Let_def)
    next
      case True
      then have d3: "d < 3" "Suc d < 4" using t t' q by auto
      then have lv: "WALK_ORDER ! d \<noteq> PT" using less_4_cases [OF d] by (auto simp: WALK_ORDER_def)
      have "?nf \<noteq> t" using True \<open>t' \<noteq> ?nf\<close> by auto
      then have nf0: "qword_at m' (entry_address_for_index ?nf (index_at la (Suc d))) = 0"
        using mem [OF nf room index_at_less [OF d3(2), of la]] by simp
      have nfok: "qword_ok (pb_memory b) (entry_address_for_index ?nf (index_at la (Suc d)))"
        by (rule entry_ok [OF nf room index_at_less [OF d3(2)]])
      have "page_walk nxe la (drop d WALK_ORDER) t' p m' = Faults NOT_PRESENT" for p
        using True m1 e nf0 nfok ok entry_ok [OF tables_invD(1,2) [OF inv t] i]
          plain_table_leaf [OF e(2) lv] plain_table_reserved [OF e(2)]
        by (simp add: page_walk_depth [OF d] page_walk_depth [OF d3(2)] Let_def)
      moreover have "page_walk nxe la (drop d WALK_ORDER) t' p (pb_memory b) = Faults NOT_PRESENT" for p
        using True absent entry_ok [OF tables_invD(1,2) [OF inv t] i]
        by (simp add: page_walk_depth [OF d] Let_def)
      ultimately show ?thesis by simp
    qed
  qed
  then show ?thesis by (simp add: walk_of_def link_table_def m'_def)
qed

lemma tables_up_link:
  assumes inv: "tables_inv T b" and up: "tables_up T b"
    and t: "T t = Some q" and q: "length q < 3" and i: "i < 512"
    and absent: "\<not> is_present (qword_at (pb_memory b) (entry_address_for_index t i))"
    and e: "table_address e = next_free_table_address b" "plain_table e" "is_present e"
  shows "tables_up (T(next_free_table_address b \<mapsto> q @ [i]))
           (link_table b (entry_address_for_index t i) e)"
proof -
  let ?nf = "next_free_table_address b"
  let ?b = "link_table b (entry_address_for_index t i) e"
  have nf: "aligned4k ?nf" using inv by (simp add: tables_inv_def)
  have fresh: "T ?nf = None" using tables_invD(3) [OF inv, of ?nf] by (cases "T ?nf") auto
  have mem: "qword_at (pb_memory ?b) (entry_address_for_index t' j) =
      (if t' = t \<and> j = i then e else qword_at (pb_memory b) (entry_address_for_index t' j))"
    if "T t' = Some q'" "j < 512" for t' q' j
    using qword_at_link_entry [OF nf tables_invD(1) [OF inv t] i tables_invD(1,2) [OF inv that(1)] that(2), of e]
      fresh that(1) by (auto simp: link_table_def)
  have "t' = root_table_address ?b" if "(T(?nf \<mapsto> q @ [i])) t' = Some []" for t'
    using that up by (auto simp: tables_up_def link_table_def split: if_splits)
  moreover have "j < 512 \<and> (\<exists>t1. (T(?nf \<mapsto> q @ [i])) t1 = Some q' \<and>
      (let e' = qword_at (pb_memory ?b) (entry_address_for_index t1 j) in
       is_present e' \<and> \<not> is_large_leaf_entry e' (WALK_ORDER ! length q') \<and> table_address e' = t'))"
    if t': "(T(?nf \<mapsto> q @ [i])) t' = Some (q' @ [j])" for t' q' j
  proof (cases "t' = ?nf")
    case True
    then have "q' = q" "j = i" using t' by auto
    moreover have "t \<noteq> ?nf" using t fresh by auto
    ultimately show ?thesis using True i t e mem [OF t i]
      by (auto simp: plain_table_def is_large_leaf_entry_def Let_def intro!: exI [of _ t])
  next
    case False
    then have "T t' = Some (q' @ [j])" using t' by simp
    then obtain t1 where j: "j < 512" and t1: "T t1 = Some q'"
      and e1: "let e' = qword_at (pb_memory b) (entry_address_for_index t1 j) in
        is_present e' \<and> \<not> is_large_leaf_entry e' (WALK_ORDER ! length q') \<and> table_address e' = t'"
      using up unfolding tables_up_def by blast
    have "\<not> (t1 = t \<and> j = i)" using absent e1 by (auto simp: Let_def)
    moreover have "t1 \<noteq> ?nf" using t1 fresh by auto
    ultimately show ?thesis using j t1 e1 mem [OF t1 j] by (auto simp: Let_def intro!: exI [of _ t1])
  qed
  ultimately show ?thesis unfolding tables_up_def by blast
qed

text \<open>The builder only writes from the root table to the next free table address it ends with.\<close>

definition tables_frame :: "page_table_builder \<Rightarrow> page_table_builder \<Rightarrow> bool" where
  "tables_frame b b' \<longleftrightarrow> length (pb_memory b') = length (pb_memory b) \<and>
     unat (next_free_table_address b) \<le> unat (next_free_table_address b') \<and>
     root_table_address b' = root_table_address b \<and>
     (\<forall>x. x < unat (root_table_address b) \<or> unat (next_free_table_address b') \<le> x \<longrightarrow>
        pb_memory b' ! x = pb_memory b ! x)"

lemma tables_frame_refl [simp]: "tables_frame b b"
  by (simp add: tables_frame_def)

lemma tables_frame_trans [trans]: "tables_frame a b \<Longrightarrow> tables_frame b c \<Longrightarrow> tables_frame a c"
  by (auto simp: tables_frame_def)

definition same_walks :: "page_table_builder \<Rightarrow> page_table_builder \<Rightarrow> bool" where
  "same_walks b b' \<longleftrightarrow> (\<forall>nxe la. walk_of nxe la b' = walk_of nxe la b) \<and>
     root_table_address b' = root_table_address b \<and> tables_frame b b'"

lemma same_walks_refl [simp]: "same_walks b b"
  by (simp add: same_walks_def)

lemma same_walks_trans [trans]: "same_walks a b \<Longrightarrow> same_walks b c \<Longrightarrow> same_walks a c"
  by (auto simp: same_walks_def intro: tables_frame_trans)

lemma same_walks_frame [simp]: "same_walks b b' \<Longrightarrow> tables_frame b b'"
  by (simp add: same_walks_def)

lemma entry_in_table:
  assumes inv: "tables_inv T b" and t: "T t = Some q" and i: "i < 512"
  shows "unat (entry_address_for_index t i) + 8 \<le> unat (next_free_table_address b)"
    and "unat (root_table_address b) \<le> unat (entry_address_for_index t i)"
proof -
  have "unat t mod 4096 = 0" "unat (next_free_table_address b) mod 4096 = 0"
    "unat t < unat (next_free_table_address b)"
    using tables_invD [OF inv t] inv by (simp_all add: tables_inv_def aligned4k_def)
  then have "unat t + 4096 \<le> unat (next_free_table_address b)" by (auto elim!: dvdE simp: mod_eq_0_iff_dvd)
  then show "unat (entry_address_for_index t i) + 8 \<le> unat (next_free_table_address b)"
    using i unat_entry_address [OF tables_invD(1) [OF inv t] i] by simp
  show "unat (root_table_address b) \<le> unat (entry_address_for_index t i)"
    using unat_entry_address [OF tables_invD(1) [OF inv t] i] tables_invD(5) [OF inv t] by simp
qed

lemma tables_frame_put:
  assumes "tables_inv T b" and "T t = Some q" and "i < 512"
  shows "tables_frame b (b\<lparr>pb_memory := put_qword (pb_memory b) (entry_address_for_index t i) e\<rparr>)"
  using entry_in_table [OF assms] by (auto simp: tables_frame_def nth_put_qword)

lemma nth_zero_table:
  assumes "aligned4k t" and "x < unat t \<or> unat t + 4096 \<le> x"
  shows "zero_table m t ! x = m ! x"
proof -
  have "fold (\<lambda>a m. put_qword m a 0) as m ! x = m ! x"
    if "\<And>a. a \<in> set as \<Longrightarrow> x < unat a \<or> unat a + 8 \<le> x" for "as" and m :: phys_mem
    using that by (induction "as" arbitrary: m) (simp_all add: nth_put_qword)
  moreover have "x < unat a \<or> unat a + 8 \<le> x" if "a \<in> set (map (entry_address_for_index t) [0..<512])" for a
    using that assms by (auto simp: unat_entry_address)
  ultimately show ?thesis unfolding zero_table_def by blast
qed

lemma tables_frame_link:
  assumes "tables_inv T b" and "T t = Some q" and "i < 512"
    and "unat (next_free_table_address b) + 4096 \<le> length (pb_memory b)"
  shows "tables_frame b (link_table b (entry_address_for_index t i) e)"
proof -
  have nf: "aligned4k (next_free_table_address b)" "length (pb_memory b) \<le> 2 ^ 52"
    and "T (root_table_address b) = Some []"
    using assms(1) by (simp_all add: tables_inv_def)
  then have "unat (root_table_address b) < unat (next_free_table_address b)" using tables_invD(3) [OF assms(1)] by blast
  moreover have "unat (next_free_table_address b + PAGE_SIZE_4K_BYTES) = unat (next_free_table_address b) + 4096"
    by (rule aligned4k_add(2) [OF nf(1)]) (use assms(4) nf(2) in simp)
  ultimately show ?thesis
    using entry_in_table [OF assms(1-3)]
    by (auto simp: tables_frame_def link_table_def nth_put_qword nth_zero_table [OF nf(1)])
qed

lemma ensure_child_table_spec:
  assumes inv: "tables_inv T b" and up: "tables_up T b" and t: "T t = Some (index_path v d)"
    and d: "d < 3" and run: "ensure_child_table t (WALK_ORDER ! d) (index_at v d) b = (r, b')"
  obtains T' where "tables_inv T' b'" and "tables_up T' b'" and "same_walks b b'"
    and "\<And>c. r = Inr c \<Longrightarrow> T' c = Some (index_path v (Suc d))"
proof -
  let ?i = "index_at v d" and ?nf = "next_free_table_address b"
  let ?a = "entry_address_for_index t ?i"
  let ?e = "qword_at (pb_memory b) ?a"
  have i: "?i < 512" using d by simp
  have len: "length (index_path v d) < 3" using d by simp
  note run' = run [unfolded ensure_child_table_run [OF inv t i] Let_def]
  show ?thesis
  proof (cases "is_present ?e")
    case True
    have "T (table_address ?e) = Some (index_path v (Suc d))"
      if "\<not> is_large_leaf_entry ?e (WALK_ORDER ! d)"
      using tables_inv_child(1) [OF inv t len i refl True] that by simp
    then show ?thesis using that [of T] run' True inv up by (auto split: if_splits)
  next
    case absent: False
    show ?thesis
    proof (cases "unat ?nf + 4096 \<le> length (pb_memory b) \<and>
        (table_arena_end_address b = 0 \<or> ?nf \<le> table_arena_end_address b - PAGE_SIZE_4K_BYTES)")
      case False
      then show ?thesis using that [of T] run' absent inv up by (auto split: if_splits)
    next
      case True
      then have room: "unat ?nf + 4096 \<le> length (pb_memory b)" by blast
      have "aligned4k ?nf" "unat ?nf < 2 ^ 52" using inv room by (auto simp: tables_inv_def)
      then obtain e where e: "table_entry ?nf user_read_write_execute = Inr e"
        "table_address e = ?nf" "plain_table e" "is_present e" by (rule table_entry_bits)
      have r: "r = Inr ?nf" "b' = link_table b ?a e" using run' absent True e(1) by simp_all
      show ?thesis
      proof (rule that [of "T(?nf \<mapsto> index_path v d @ [?i])"])
        show "tables_inv (T(?nf \<mapsto> index_path v d @ [?i])) b'"
          unfolding r by (rule tables_inv_link [OF inv t len i absent room e(2-4)])
        show "tables_up (T(?nf \<mapsto> index_path v d @ [?i])) b'"
          unfolding r by (rule tables_up_link [OF inv up t len i absent e(2-4)])
        show "same_walks b b'"
          unfolding same_walks_def r
          using walk_of_link [OF inv t len i absent room e(2-4)] tables_frame_link [OF inv t i room]
          by (simp add: link_table_def)
      qed (auto simp: r)
    qed
  qed
qed

section \<open>Leaf entries\<close>

text \<open>The walk of an address whose index path leads to a table arrives at that table.\<close>

lemma walk_reaches:
  assumes inv: "tables_inv T b" and up: "tables_up T b" and "T t = Some (index_path la d)"
  shows "walk_of nxe la b =
    page_walk nxe la (drop d WALK_ORDER) t initial_effective_permissions (pb_memory b)"
  using assms(3)
proof (induction d arbitrary: t)
  case 0
  then show ?case using up by (auto simp: tables_up_def walk_of_def)
next
  case (Suc d)
  let ?i = "index_at la d"
  from Suc.prems up obtain t' where t': "T t' = Some (index_path la d)"
    and e: "let e = qword_at (pb_memory b) (entry_address_for_index t' ?i) in
      is_present e \<and> \<not> is_large_leaf_entry e (WALK_ORDER ! d) \<and> table_address e = t"
    unfolding tables_up_def by (metis index_path_simps(1,3))
  have d: "d < 3" "d < 4" using tables_invD(4) [OF inv Suc.prems] by simp_all
  have lv: "WALK_ORDER ! d \<noteq> PT" using d less_4_cases [OF d(2)] by (auto simp: WALK_ORDER_def)
  have plain: "plain_table (qword_at (pb_memory b) (entry_address_for_index t' ?i))"
    using tables_inv_child(2) [OF inv t' _ index_at_less [OF d(2)] refl] e d by (simp add: Let_def)
  show ?case
    unfolding Suc.IH [OF t'] page_walk_depth [OF d(2)]
    using e tables_entry_ok [OF inv t' index_at_less [OF d(2), of la]]
      plain_table_leaf [OF plain lv] plain_table_reserved [OF plain] plain_table_apply [OF plain]
    by (simp add: Let_def)
qed

lemma ensure_step:
  assumes inv: "tables_inv T b" and up: "tables_up T b" and t: "T t = Some (index_path v d)"
    and d: "d < 3" and lv: "lv = WALK_ORDER ! d"
    and run: "bnd (lift_sum (page_table_index v lv)) (\<lambda>i. bnd (ensure_child_table t lv i) f) b = (r, b')"
  obtains (fail) x where "r = Inl x" and "builder_ok b'" and "same_walks b b'"
    | (child) T' c b1 where "tables_inv T' b1" and "tables_up T' b1" and "same_walks b b1"
        and "T' c = Some (index_path v (Suc d))" and "f c b1 = (r, b')"
proof -
  obtain r1 b1 where ens: "ensure_child_table t lv (index_at v d) b = (r1, b1)" by fastforce
  then obtain T' where T': "tables_inv T' b1" "tables_up T' b1" "same_walks b b1"
    "\<And>c. r1 = Inr c \<Longrightarrow> T' c = Some (index_path v (Suc d))"
    using ensure_child_table_spec [OF inv up t d] lv by metis
  have run': "(case r1 of Inl x \<Rightarrow> (Inl x, b1) | Inr c \<Rightarrow> f c b1) = (r, b')"
    using run d lv ens page_table_index_at [of d v] by (simp add: op_simps split: sum.splits)
  show ?thesis
  proof (cases r1)
    case (Inl x)
    then show ?thesis using run' T' fail by (auto simp: builder_ok_def)
  next
    case (Inr c)
    then show ?thesis using run' T' child by auto
  qed
qed

definition leaf_outcome :: "bool \<Rightarrow> address64 \<Rightarrow> address64 \<Rightarrow> pte \<Rightarrow> page_table_level \<Rightarrow> walk_outcome" where
  "leaf_outcome nxe la a e lv =
     (if reserved_violation nxe e lv then Faults RESERVED_BIT
      else case page_size_for_leaf_level lv of Inl x \<Rightarrow> Throws x | Inr page_size \<Rightarrow>
        Mapped \<lparr>virtual_page_base = page_base la page_size,
                physical_frame_base = frame_address e page_size,
                page_size_bytes = page_size,
                permissions = apply_entry initial_effective_permissions e,
                leaf_entry_address = a,
                dirty = False\<rparr>)"

definition leaf_written ::
  "page_table_builder \<Rightarrow> page_table_builder \<Rightarrow> address64 \<Rightarrow> nat \<Rightarrow> pte \<Rightarrow> bool" where
  "leaf_written b b' v d e \<longleftrightarrow> builder_ok b' \<and> root_table_address b' = root_table_address b \<and>
     tables_frame b b' \<and>
     (\<exists>a. \<forall>nxe la. walk_of nxe la b' =
        (if index_path la (Suc d) = index_path v (Suc d) then leaf_outcome nxe la a e (WALK_ORDER ! d)
         else walk_of nxe la b))"

lemma leaf_written_same_walks:
  "same_walks b b1 \<Longrightarrow> leaf_written b1 b' v d e \<Longrightarrow> leaf_written b b' v d e"
  unfolding leaf_written_def same_walks_def
  using tables_frame_trans [of b b1 b'] by (elim conjE) (simp only: simp_thms)

lemma tables_leaf_put:
  assumes inv: "tables_inv T b" and up: "tables_up T b" and t: "T t = Some (index_path v d)"
    and d: "d < 4" and leaf: "is_leaf_entry e (WALK_ORDER ! d)"
    and old: "is_present (qword_at (pb_memory b) (entry_address_for_index t (index_at v d))) \<Longrightarrow>
      is_leaf_entry (qword_at (pb_memory b) (entry_address_for_index t (index_at v d))) (WALK_ORDER ! d)"
    and b': "b' = b\<lparr>pb_memory := put_qword (pb_memory b) (entry_address_for_index t (index_at v d)) e\<rparr>"
  shows "tables_inv T b'" and "tables_up T b'"
    and "\<And>t' q' j. T t' = Some q' \<Longrightarrow> j < 512 \<Longrightarrow>
      qword_at (pb_memory b') (entry_address_for_index t' j) =
      (if t' = t \<and> j = index_at v d then e
       else qword_at (pb_memory b) (entry_address_for_index t' j))"
proof -
  let ?i = "index_at v d"
  have i: "?i < 512" using d by simp
  have lv: "WALK_ORDER ! k \<noteq> PT" if "k < 3" for k
    using that less_4_cases [of k] by (auto simp: WALK_ORDER_def)
  have mem: "qword_at (pb_memory b') (entry_address_for_index t' j) =
      (if t' = t \<and> j = ?i then e else qword_at (pb_memory b) (entry_address_for_index t' j))"
    if t': "T t' = Some q'" and j: "j < 512" for t' q' j
    using qstore.peek_poke [OF aligned8_entry_address [OF tables_invD(1) [OF inv t] i]
        aligned8_entry_address [OF tables_invD(1) [OF inv t'] j] tables_entry_ok [OF inv t' j], of e]
      entry_address_inj [OF tables_invD(1) [OF inv t] tables_invD(1) [OF inv t'] i j]
    by (auto simp: b')
  then show "\<And>t' q' j. T t' = Some q' \<Longrightarrow> j < 512 \<Longrightarrow>
      qword_at (pb_memory b') (entry_address_for_index t' j) =
      (if t' = t \<and> j = ?i then e else qword_at (pb_memory b) (entry_address_for_index t' j))" .
  have "T (table_address e') = Some (q' @ [j]) \<and> plain_table e'"
    if "T t' = Some q'" "length q' < 3" "j < 512" and
      e': "e' = qword_at (pb_memory b') (entry_address_for_index t' j)" "is_present e'"
      "\<not> is_large_leaf_entry e' (WALK_ORDER ! length q')" for t' q' j e'
  proof -
    have "\<not> (t' = t \<and> j = ?i)"
      using that(1,2) t leaf lv e' mem [OF that(1,3)] by (auto simp: is_leaf_entry_def)
    then have "e' = qword_at (pb_memory b) (entry_address_for_index t' j)"
      using e'(1) mem [OF that(1,3)] by auto
    then show ?thesis using tables_inv_child [OF inv that(1-3) _ e'(2,3)] by blast
  qed
  then show "tables_inv T b'" using inv unfolding tables_inv_def Let_def b' by simp
  have "\<exists>t1. T t1 = Some q' \<and> (let e' = qword_at (pb_memory b') (entry_address_for_index t1 j) in
      is_present e' \<and> \<not> is_large_leaf_entry e' (WALK_ORDER ! length q') \<and> table_address e' = t')"
    if t': "T t' = Some (q' @ [j])" for t' q' j
  proof -
    obtain t1 where j: "j < 512" and t1: "T t1 = Some q'"
      and e1: "let e' = qword_at (pb_memory b) (entry_address_for_index t1 j) in
        is_present e' \<and> \<not> is_large_leaf_entry e' (WALK_ORDER ! length q') \<and> table_address e' = t'"
      using up t' unfolding tables_up_def by blast
    have "length q' < 3" using tables_invD(4) [OF inv t'] by simp
    then have "\<not> (t1 = t \<and> j = ?i)"
      using old e1 t t1 lv by (auto simp: Let_def is_leaf_entry_def)
    then show ?thesis using t1 e1 mem [OF t1 j] by (auto simp: Let_def intro!: exI [of _ t1])
  qed
  then show "tables_up T b'" using up unfolding tables_up_def by (auto simp: b')
qed

lemma index_path_Suc_eq:
  "index_path la (Suc d) = index_path v (Suc d) \<longleftrightarrow>
     index_path la d = index_path v d \<and> index_at la d = index_at v d"
  by simp

lemma write_leaf_entry_spec:
  assumes inv: "tables_inv T b" and up: "tables_up T b" and t: "T t = Some (index_path v d)"
    and d: "d < 4" and leaf: "is_leaf_entry e (WALK_ORDER ! d)" and pres: "is_present e"
    and run: "write_leaf_entry t (WALK_ORDER ! d) (index_at v d) e b = (r, b')"
  shows "case r of Inl x \<Rightarrow> x = Logic_error \<and> b' = b | Inr _ \<Rightarrow> leaf_written b b' v d e"
proof -
  let ?a = "entry_address_for_index t (index_at v d)"
  let ?old = "qword_at (pb_memory b) ?a"
  have ok: "qword_ok (pb_memory b) ?a" using tables_entry_ok [OF inv t] d by simp
  show ?thesis
  proof (cases "is_present ?old \<and> \<not> is_leaf_entry ?old (WALK_ORDER ! d)")
    case True
    then show ?thesis using run ok
      by (auto simp: write_leaf_entry_def op_simps pb_bus_def mem_read_QWORD Let_def)
  next
    case False
    then have b': "b' = b\<lparr>pb_memory := put_qword (pb_memory b) ?a e\<rparr>" and r: "r = Inr ()"
      using run ok by (auto simp: write_leaf_entry_def write_entry_def op_simps pb_bus_def
          mem_read_QWORD mem_write_QWORD Let_def)
    note put = tables_leaf_put [OF inv up t d leaf _ b']
    have put': "tables_inv T b'" "tables_up T b'" using put(1,2) False by blast+
    have mem: "qword_at (pb_memory b') (entry_address_for_index t' (index_at la k)) =
        (if t' = t \<and> index_at la k = index_at v d then e
         else qword_at (pb_memory b) (entry_address_for_index t' (index_at la k)))"
      if "T t' = Some q'" "k < 4" for t' q' la k
      using put(3) [of t' q' "index_at la k"] False that by (simp add: index_at_less)
    have "walk_of nxe la b' = leaf_outcome nxe la ?a e (WALK_ORDER ! d)"
      if same: "index_path la (Suc d) = index_path v (Suc d)" for nxe la
    proof -
      have t': "T t = Some (index_path la d)" and i: "index_at la d = index_at v d"
        using same t unfolding index_path_Suc_eq by auto
      show ?thesis
        unfolding walk_reaches [OF put' t'] page_walk_depth [OF d]
        using mem [OF t d, of la] tables_entry_ok [OF put'(1) t index_at_less [OF d, of la]] pres leaf i
        by (simp add: leaf_outcome_def Let_def)
    qed
    moreover have "walk_of nxe la b' = walk_of nxe la b"
      if other: "index_path la (Suc d) \<noteq> index_path v (Suc d)" for nxe la
    proof -
      have "page_walk nxe la (drop 0 WALK_ORDER) (root_table_address b) initial_effective_permissions (pb_memory b')
        = page_walk nxe la (drop 0 WALK_ORDER) (root_table_address b) initial_effective_permissions (pb_memory b)"
      proof (rule page_walk_cong [OF inv])
        fix t' k assume k: "k < 4" and t': "T t' = Some (index_path la k)"
        have "\<not> (t' = t \<and> index_at la k = index_at v d)"
        proof
          assume eq: "t' = t \<and> index_at la k = index_at v d"
          then have "index_path la k = index_path v d" using t t' by simp
          moreover from this have "k = d" using index_path_simps(1) by metis
          ultimately show False using other eq unfolding index_path_Suc_eq by simp
        qed
        then show "(let a = entry_address_for_index t' (index_at la k) in
            qword_at (pb_memory b') a = qword_at (pb_memory b) a) \<or>
          (\<forall>p. page_walk nxe la (drop k WALK_ORDER) t' p (pb_memory b')
            = page_walk nxe la (drop k WALK_ORDER) t' p (pb_memory b))"
          using mem [OF t' k, of la] by (auto simp: Let_def)
      qed (use inv in \<open>simp_all add: b' tables_inv_def\<close>)
      then show ?thesis by (simp add: walk_of_def b')
    qed
    ultimately have "leaf_written b b' v d e"
      using put' tables_frame_put [OF inv t index_at_less [OF d]]
      unfolding leaf_written_def builder_ok_def by (auto simp: b')
    then show ?thesis by (simp add: r)
  qed
qed

section \<open>Mapping a page\<close>

definition leaf_pte :: "nat \<Rightarrow> pte \<Rightarrow> pte" where
  "leaf_pte d e = (if d = 3 then e else e OR ENTRY_HUGE_PAGE_BIT)"

lemma leaf_depth_size:
  assumes "0 < d" and "d < 4"
  obtains sz where "page_size_for_leaf_level (WALK_ORDER ! d) = Inr sz"
    and "sz - 1 = mask (48 - 9 * Suc d)" and "WALK_ORDER ! d \<noteq> PML4"
    and "d \<noteq> 3 \<Longrightarrow> WALK_ORDER ! d = PD \<or> WALK_ORDER ! d = PDPT"
    and "d = 3 \<Longrightarrow> WALK_ORDER ! d = PT" and "12 \<le> 48 - 9 * Suc d"
proof -
  from less_4_cases [OF assms(2)] assms(1) consider "d = 1" | "d = 2" | "d = 3" by auto
  then show ?thesis using that by cases (auto simp: WALK_ORDER_def page_size_masks)
qed

lemma leaf_pte_fields:
  assumes d: "0 < d" "d < 4" and sz: "page_size_for_leaf_level (WALK_ORDER ! d) = Inr sz"
    and e: "present_entry pa sz perms = Inr e" and pa: "unat pa < 2 ^ 52"
  shows "is_present (leaf_pte d e)" and "is_leaf_entry (leaf_pte d e) (WALK_ORDER ! d)"
    and "frame_address (leaf_pte d e) sz = pa"
    and "apply_entry initial_effective_permissions (leaf_pte d e) = perms"
    and "reserved_violation nxe (leaf_pte d e) (WALK_ORDER ! d) \<longleftrightarrow> \<not> nxe \<and> \<not> executable perms"
proof -
  obtain n where n: "sz - 1 = mask n" "12 \<le> n"
    and lv: "WALK_ORDER ! d \<noteq> PML4" "d \<noteq> 3 \<Longrightarrow> WALK_ORDER ! d = PD \<or> WALK_ORDER ! d = PDPT"
      "d = 3 \<Longrightarrow> WALK_ORDER ! d = PT"
    using leaf_depth_size [OF d] sz by (metis Inr_inject)
  have "take_bit 52 (unat pa) = unat pa" using pa by (rule take_bit_nat_eq_self)
  then have "take_bit 52 pa = pa" by (metis unsigned_take_bit_eq unsigned_word_eqI)
  then have high: "bit pa k \<Longrightarrow> k < 52" for k by (metis bit_take_bit_iff)
  have "is_aligned_to_page_size pa sz" using e by (auto simp: present_entry_def split: if_splits)
  then have low: "bit pa k \<Longrightarrow> n \<le> k" for k
    unfolding aligned_page_size_iff [OF n(1)] by (meson not_le)
  have bits: "bit (leaf_pte d e) k \<longleftrightarrow>
      bit pa k \<or> bit (permission_bits perms) k \<or> d \<noteq> 3 \<and> k = 7" for k
    using high low n(2)
    by (auto simp: leaf_pte_def bit_or_iff bit_present_entry [OF e] entry_flag_bits
        dest: order_trans [OF n(2)])
  have pa_low: "\<not> bit pa k" if "k < 12" for k using low n(2) that by (meson not_le order_trans)
  have pb: "\<not> bit pa 0" "\<not> bit pa 1" "\<not> bit pa 2" "\<not> bit pa 7" "\<not> bit pa 63"
    using pa_low high [of 63] by auto
  have pb1: "\<not> bit pa (Suc 0)" using pb(2) by simp
  show "is_present (leaf_pte d e)" by (simp add: entry_predicates bits bit_permission_bits)
  have huge: "is_huge_page (leaf_pte d e) \<longleftrightarrow> d \<noteq> 3"
    using pb by (simp add: entry_predicates bits bit_permission_bits)
  show "is_leaf_entry (leaf_pte d e) (WALK_ORDER ! d)"
    using lv huge by (auto simp: is_leaf_entry_def is_large_leaf_entry_def)
  have nx: "is_no_execute (leaf_pte d e) \<longleftrightarrow> \<not> executable perms"
    using pb by (simp add: entry_predicates bits bit_permission_bits)
  show "frame_address (leaf_pte d e) sz = pa"
    using high low n
    by (intro bit_eqI) (auto simp: bit_frame_address [OF n(1)] bits bit_permission_bits
        dest: low order_trans [OF n(2)])
  show "apply_entry initial_effective_permissions (leaf_pte d e) = perms"
    using pb pb1 nx
    by (cases perms) (simp add: apply_entry_def initial_effective_permissions_def entry_predicates bits
        bit_permission_bits)
  have res: "\<not> has_reserved_high_bits (leaf_pte d e)"
    unfolding reserved_high_iff using high
    by (auto simp: bits bit_permission_bits dest: high)
  have "table_address (leaf_pte d e) AND (sz - 1) = 0"
    unfolding n(1) bit_word_and_mask_0 using low
    by (auto simp: bit_table_address bits bit_permission_bits dest: low)
  then show "reserved_violation nxe (leaf_pte d e) (WALK_ORDER ! d) \<longleftrightarrow> \<not> nxe \<and> \<not> executable perms"
    using res nx lv sz by (simp add: reserved_violation_def)
qed

text \<open>What a mapping of the page at \<open>v\<close>, of size \<open>sz\<close>, to the frame \<open>pa\<close> means.\<close>

definition page_mapped ::
  "page_table_builder \<Rightarrow> page_table_builder \<Rightarrow> address64 \<Rightarrow> address64 \<Rightarrow> address64 \<Rightarrow>
   page_permissions \<Rightarrow> bool" where
  "page_mapped b b' sz v pa perms \<longleftrightarrow>
     (\<exists>a. \<forall>nxe la. is_canonical_linear_address la \<longrightarrow>
        walk_of nxe la b' =
          (if page_base la sz = v
           then if nxe \<or> executable perms
                then Mapped \<lparr>virtual_page_base = v, physical_frame_base = pa, page_size_bytes = sz,
                             permissions = perms, leaf_entry_address = a, dirty = False\<rparr>
                else Faults RESERVED_BIT
           else walk_of nxe la b))"

lemma leaf_written_page_mapped:
  assumes d: "0 < d" "d < 4" and sz: "page_size_for_leaf_level (WALK_ORDER ! d) = Inr sz"
    and e: "present_entry pa sz perms = Inr e" and pa: "unat pa < 2 ^ 52"
    and v: "is_canonical_linear_address v" "is_aligned_to_page_size v sz"
    and w: "leaf_written b b' v d (leaf_pte d e)"
  shows "page_mapped b b' sz v pa perms"
proof -
  note f = leaf_pte_fields [OF d sz e pa]
  obtain n where n: "sz - 1 = mask n" "n = 48 - 9 * Suc d"
    using leaf_depth_size [OF d] sz by (metis Inr_inject)
  have vb: "page_base v sz = v"
    using v(2) unfolding aligned_page_size_iff [OF n(1)]
    by (intro bit_eqI) (auto simp: bit_page_base [OF n(1)], meson not_le)
  obtain a where a: "walk_of nxe la b' =
        (if index_path la (Suc d) = index_path v (Suc d)
         then leaf_outcome nxe la a (leaf_pte d e) (WALK_ORDER ! d) else walk_of nxe la b)" for nxe la
    using w unfolding leaf_written_def by blast
  have "walk_of nxe la b' =
          (if page_base la sz = v
           then if nxe \<or> executable perms
                then Mapped \<lparr>virtual_page_base = v, physical_frame_base = pa, page_size_bytes = sz,
                             permissions = perms, leaf_entry_address = a, dirty = False\<rparr>
                else Faults RESERVED_BIT
           else walk_of nxe la b)" if la: "is_canonical_linear_address la" for nxe la
    unfolding a using index_path_page_base [OF la v(1), of "Suc d" sz] d n f sz vb
    by (auto simp: leaf_outcome_def simp del: index_path_simps)
  then show ?thesis unfolding page_mapped_def by blast
qed

lemma require_aligned_run:
  "require_aligned_address a sz s =
     ((if is_aligned_to_page_size a sz then Inr () else Inl Out_of_range), s)"
  by (simp add: require_aligned_address_def require_run)

lemma WALK_ORDER_levels:
  "PML4 = WALK_ORDER ! 0" "PDPT = WALK_ORDER ! Suc 0" "PD = WALK_ORDER ! Suc (Suc 0)"
  "PT = WALK_ORDER ! Suc (Suc (Suc 0))"
  by (simp_all add: WALK_ORDER_def)

lemma depth_less: "(0::nat) < 3" "Suc 0 < 3" "Suc (Suc 0) < 3"
  by simp_all

text \<open>The last step of the three mapping operations.\<close>

lemma leaf_step:
  assumes inv: "tables_inv T b1" "tables_up T b1" and t: "T t = Some (index_path v d)"
    and d: "0 < d" "d < 4" and lv: "lv = WALK_ORDER ! d"
    and sz: "page_size_for_leaf_level lv = Inr sz"
    and al: "is_aligned_to_page_size pa sz" "is_aligned_to_page_size v sz"
    and pa: "unat pa < 2 ^ 52" and v: "is_canonical_linear_address v"
    and ent: "ent = sbind (present_entry pa sz perms) (\<lambda>e. Inr (leaf_pte d e))"
    and run: "bnd (lift_sum (page_table_index v lv)) (\<lambda>i. bnd (lift_sum ent) (write_leaf_entry t lv i)) b1
      = (r, b')"
    and same: "same_walks b b1"
  shows "builder_ok b' \<and> tables_frame b b' \<and>
    (case r of Inl _ \<Rightarrow> same_walks b b' | Inr _ \<Rightarrow> page_mapped b b' sz v pa perms)"
proof -
  obtain e where e: "present_entry pa sz perms = Inr e" using al(1) by (simp add: present_entry_def)
  have f: "is_present (leaf_pte d e)" "is_leaf_entry (leaf_pte d e) (WALK_ORDER ! d)"
    using leaf_pte_fields(1,2) [OF d _ e pa] sz lv by auto
  have "write_leaf_entry t (WALK_ORDER ! d) (index_at v d) (leaf_pte d e) b1 = (r, b')"
    using run page_table_index_at [OF d(2), of v] e by (simp add: ent lv op_simps sbind_def)
  from write_leaf_entry_spec [OF inv t d(2) f(2,1) this]
  consider x where "r = Inl x" "b' = b1" | "r = Inr ()" "leaf_written b1 b' v d (leaf_pte d e)"
    by (cases r) auto
  then show ?thesis
  proof cases
    case 1
    then show ?thesis using inv same by (auto simp: builder_ok_def)
  next
    case 2
    then have w: "leaf_written b b' v d (leaf_pte d e)" using leaf_written_same_walks [OF same] by blast
    then have "page_mapped b b' sz v pa perms"
      using leaf_written_page_mapped [OF d _ e pa v al(2)] sz lv by blast
    then show ?thesis using 2 w by (simp add: leaf_written_def)
  qed
qed

lemma map_4k_spec:
  assumes ok: "builder_ok b" and run: "map_4k v pa perms b = (r, b')"
    and pa: "unat pa < 2 ^ 52" and v: "is_canonical_linear_address v"
  shows "builder_ok b' \<and> tables_frame b b' \<and>
    (case r of Inl _ \<Rightarrow> same_walks b b' | Inr _ \<Rightarrow> page_mapped b b' PAGE_SIZE_4K_BYTES v pa perms)"
proof (cases "is_aligned_to_page_size v PAGE_SIZE_4K_BYTES \<and> is_aligned_to_page_size pa PAGE_SIZE_4K_BYTES")
  case False
  then show ?thesis using run ok
    by (auto simp: map_4k_def sq_run require_aligned_run split: if_splits)
next
  case True
  obtain T where T: "tables_inv T b" "tables_up T b" using ok by (auto simp: builder_ok_def)
  then have root: "T (root_table_address b) = Some (index_path v 0)" by (simp add: tables_inv_def)
  note run0 = run [unfolded map_4k_def, simplified sq_run require_aligned_run True
      bnd_run [of "gets _"] gets_run, simplified]
  show ?thesis
  proof (cases rule: ensure_step [OF T root depth_less(1) WALK_ORDER_levels(1) run0, case_names fail child])
    case fail
    then show ?thesis by simp
  next
    case (child T1 c1 b1)
    show ?thesis
    proof (cases rule: ensure_step [OF child(1,2,4) depth_less(2) WALK_ORDER_levels(2) child(5), case_names fail child])
      case fail
      then show ?thesis using same_walks_trans [OF child(3)] by simp
    next
      case child2: (child T2 c2 b2)
      show ?thesis
      proof (cases rule: ensure_step [OF child2(1,2,4) depth_less(3) WALK_ORDER_levels(3) child2(5), case_names fail child])
        case fail
        then show ?thesis using same_walks_trans [OF child(3)] same_walks_trans [OF child2(3)] by simp
      next
        case child3: (child T3 c3 b3)
        have "same_walks b b3"
          using same_walks_trans [OF same_walks_trans [OF child(3) child2(3)] child3(3)] .
        moreover have "page_4k pa perms = sbind (present_entry pa PAGE_SIZE_4K_BYTES perms)
            (\<lambda>e. Inr (leaf_pte (Suc (Suc (Suc 0))) e))"
          by (simp add: page_4k_def sbind_def leaf_pte_def numeral_3_eq_3 split: sum.split)
        ultimately show ?thesis
          using leaf_step [OF child3(1,2,4) _ _ WALK_ORDER_levels(4) page_size_for_leaf_level.simps(1)
              _ _ pa v _ child3(5)] True
          by simp
      qed
    qed
  qed
qed

lemma map_2m_spec:
  assumes ok: "builder_ok b" and run: "map_2m v pa perms b = (r, b')"
    and pa: "unat pa < 2 ^ 52" and v: "is_canonical_linear_address v"
  shows "builder_ok b' \<and> tables_frame b b' \<and>
    (case r of Inl _ \<Rightarrow> same_walks b b' | Inr _ \<Rightarrow> page_mapped b b' PAGE_SIZE_2M_BYTES v pa perms)"
proof (cases "is_aligned_to_page_size v PAGE_SIZE_2M_BYTES \<and> is_aligned_to_page_size pa PAGE_SIZE_2M_BYTES")
  case False
  then show ?thesis using run ok
    by (auto simp: map_2m_def sq_run require_aligned_run split: if_splits)
next
  case True
  obtain T where T: "tables_inv T b" "tables_up T b" using ok by (auto simp: builder_ok_def)
  then have root: "T (root_table_address b) = Some (index_path v 0)" by (simp add: tables_inv_def)
  note run0 = run [unfolded map_2m_def, simplified sq_run require_aligned_run True
      bnd_run [of "gets _"] gets_run, simplified]
  show ?thesis
  proof (cases rule: ensure_step [OF T root depth_less(1) WALK_ORDER_levels(1) run0, case_names fail child])
    case fail
    then show ?thesis by simp
  next
    case (child T1 c1 b1)
    show ?thesis
    proof (cases rule: ensure_step [OF child(1,2,4) depth_less(2) WALK_ORDER_levels(2) child(5), case_names fail child])
      case fail
      then show ?thesis using same_walks_trans [OF child(3)] by simp
    next
      case child2: (child T2 c2 b2)
      have "page_2m pa perms = sbind (present_entry pa PAGE_SIZE_2M_BYTES perms)
          (\<lambda>e. Inr (leaf_pte (Suc (Suc 0)) e))"
        by (simp add: page_2m_def sbind_def leaf_pte_def split: sum.split)
      then show ?thesis
        using leaf_step [OF child2(1,2,4) _ _ WALK_ORDER_levels(3) page_size_for_leaf_level.simps(2)
            _ _ pa v _ child2(5)] True same_walks_trans [OF child(3) child2(3)]
        by simp
    qed
  qed
qed

lemma map_1g_spec:
  assumes ok: "builder_ok b" and run: "map_1g v pa perms b = (r, b')"
    and pa: "unat pa < 2 ^ 52" and v: "is_canonical_linear_address v"
  shows "builder_ok b' \<and> tables_frame b b' \<and>
    (case r of Inl _ \<Rightarrow> same_walks b b' | Inr _ \<Rightarrow> page_mapped b b' PAGE_SIZE_1G_BYTES v pa perms)"
proof (cases "is_aligned_to_page_size v PAGE_SIZE_1G_BYTES \<and> is_aligned_to_page_size pa PAGE_SIZE_1G_BYTES")
  case False
  then show ?thesis using run ok
    by (auto simp: map_1g_def sq_run require_aligned_run split: if_splits)
next
  case True
  obtain T where T: "tables_inv T b" "tables_up T b" using ok by (auto simp: builder_ok_def)
  then have root: "T (root_table_address b) = Some (index_path v 0)" by (simp add: tables_inv_def)
  note run0 = run [unfolded map_1g_def, simplified sq_run require_aligned_run True
      bnd_run [of "gets _"] gets_run, simplified]
  show ?thesis
  proof (cases rule: ensure_step [OF T root depth_less(1) WALK_ORDER_levels(1) run0, case_names fail child])
    case fail
    then show ?thesis by simp
  next
    case (child T1 c1 b1)
    have "page_1g pa perms = sbind (present_entry pa PAGE_SIZE_1G_BYTES perms)
        (\<lambda>e. Inr (leaf_pte (Suc 0) e))"
      by (simp add: page_1g_def sbind_def leaf_pte_def split: sum.split)
    then show ?thesis
      using leaf_step [OF child(1,2,4) _ _ WALK_ORDER_levels(2) page_size_for_leaf_level.simps(3)
          _ _ pa v _ child(5)] True child(3)
      by simp
  qed
qed

lemma clear_root_table_spec:
  assumes "aligned4k (root_table_address b)" and "aligned4k (next_free_table_address b)"
    and "unat (root_table_address b) + 4096 \<le> length (pb_memory b)" and "length (pb_memory b) \<le> 2 ^ 52"
    and "root_table_address b < next_free_table_address b"
  shows "fst (clear_root_table b) = Inr ()" and "builder_ok (snd (clear_root_table b))"
    and "walk_of nxe la (snd (clear_root_table b)) = Faults NOT_PRESENT"
proof -
  let ?r = "root_table_address b"
  define b' where "b' = b\<lparr>pb_memory := zero_table (pb_memory b) ?r\<rparr>"
  have run: "clear_root_table b = (Inr (), b')"
    by (simp add: clear_root_table_def clear_table_run assms b'_def)
  have zero: "qword_at (pb_memory b') (entry_address_for_index ?r i) = 0" if "i < 512" for i
    using qword_at_zero_table [OF assms(1) aligned8_entry_address [OF assms(1) that]
        entry_ok [OF assms(1,3) that]] that by (auto simp: b'_def)
  have lt: "unat ?r < unat (next_free_table_address b)" using assms(5) by (simp add: word_less_nat_alt)
  have "tables_inv [?r \<mapsto> []] b'"
    using assms(1-4) lt zero by (simp add: tables_inv_def b'_def Let_def)
  moreover have "tables_up [?r \<mapsto> []] b'" by (auto simp: tables_up_def b'_def)
  ultimately have ok: "tables_inv [?r \<mapsto> []] b'" "tables_up [?r \<mapsto> []] b'" .
  then show "builder_ok (snd (clear_root_table b))" unfolding run builder_ok_def by auto
  show "fst (clear_root_table b) = Inr ()" by (simp add: run)
  have "walk_of nxe la b' = page_walk nxe la (drop 0 WALK_ORDER) ?r initial_effective_permissions (pb_memory b')"
    by (rule walk_reaches [OF ok]) simp
  also have "\<dots> = Faults NOT_PRESENT"
    using zero [OF index_at_less [of 0 la]] tables_entry_ok [OF ok(1), of ?r "[]" "index_at la 0"]
    by (subst page_walk_depth) (simp_all add: Let_def)
  finally show "walk_of nxe la (snd (clear_root_table b)) = Faults NOT_PRESENT" by (simp add: run)
qed

section \<open>Success of a mapping\<close>

definition table_room :: "nat \<Rightarrow> page_table_builder \<Rightarrow> bool" where
  "table_room n b \<longleftrightarrow> unat (next_free_table_address b) + 4096 * n \<le> length (pb_memory b) \<and>
     (table_arena_end_address b = 0 \<or>
      unat (next_free_table_address b) + 4096 * n \<le> unat (table_arena_end_address b))"

text \<open>The address is unmapped or mapped by a 4 KiB page, so no large page is in the way.\<close>

definition no_large_page :: "walk_outcome \<Rightarrow> bool" where
  "no_large_page w \<longleftrightarrow> w = Faults NOT_PRESENT \<or>
     (\<exists>t. w = Mapped t \<and> page_size_bytes t = PAGE_SIZE_4K_BYTES)"

lemma large_leaf_walk:
  assumes inv: "tables_inv T b" "tables_up T b" and t: "T t = Some (index_path v d)" and d: "d < 3"
    and e: "e = qword_at (pb_memory b) (entry_address_for_index t (index_at v d))"
    and "is_present e" and "is_large_leaf_entry e (WALK_ORDER ! d)"
  shows "\<not> no_large_page (walk_of nxe v b)"
proof -
  have d4: "d < 4" using d by simp
  have leaf: "is_leaf_entry e (WALK_ORDER ! d)" using assms(7) by (simp add: is_leaf_entry_def)
  have "WALK_ORDER ! d = PD \<or> WALK_ORDER ! d = PDPT" using assms(7) by (simp add: is_large_leaf_entry_def)
  then obtain sz where sz: "page_size_for_leaf_level (WALK_ORDER ! d) = Inr sz" "sz \<noteq> PAGE_SIZE_4K_BYTES"
    by (auto simp: PAGE_SIZE_4K_BYTES_def PAGE_SIZE_2M_BYTES_def PAGE_SIZE_1G_BYTES_def)
  show ?thesis
    unfolding walk_reaches [OF inv t] page_walk_depth [OF d4]
    using tables_entry_ok [OF inv(1) t index_at_less [OF d4, of v]] leaf sz assms(6) e
    by (auto simp: Let_def no_large_page_def)
qed

lemma le_minus_page_size:
  assumes "unat nf + 4096 \<le> unat ae"
  shows "nf \<le> ae - PAGE_SIZE_4K_BYTES"
proof -
  have p: "unat PAGE_SIZE_4K_BYTES = 4096" by (simp add: PAGE_SIZE_4K_BYTES_def)
  then have "PAGE_SIZE_4K_BYTES \<le> ae" using assms by (simp add: word_le_nat_alt)
  then have "unat (ae - PAGE_SIZE_4K_BYTES) = unat ae - 4096" by (simp add: unat_sub p)
  then show ?thesis using assms by (simp add: word_le_nat_alt)
qed

lemma ensure_child_table_succeeds:
  assumes inv: "tables_inv T b" and up: "tables_up T b" and t: "T t = Some (index_path v d)"
    and d: "d < 3" and lv: "lv = WALK_ORDER ! d" and room: "table_room (Suc n) b"
    and small: "no_large_page (walk_of nxe v b)"
  obtains c T' b' where
    "\<And>f. bnd (lift_sum (page_table_index v lv)) (\<lambda>i. bnd (ensure_child_table t lv i) f) b = f c b'"
    and "tables_inv T' b'" and "tables_up T' b'" and "T' c = Some (index_path v (Suc d))"
    and "table_room n b'" and "no_large_page (walk_of nxe v b')"
proof -
  let ?e = "qword_at (pb_memory b) (entry_address_for_index t (index_at v d))"
  have d4: "d < 4" and i: "index_at v d < 512" using d by simp_all
  have nf: "aligned4k (next_free_table_address b)" and len: "length (pb_memory b) \<le> 2 ^ 52"
    using inv by (simp_all add: tables_inv_def)
  have nl: "\<not> (is_present ?e \<and> is_large_leaf_entry ?e (WALK_ORDER ! d))"
    using large_leaf_walk [OF inv up t d refl] small by blast
  have nf4: "unat (next_free_table_address b) + 4096 \<le> length (pb_memory b)" and
    ae: "table_arena_end_address b = 0 \<or>
      next_free_table_address b \<le> table_arena_end_address b - PAGE_SIZE_4K_BYTES"
    using room le_minus_page_size [of "next_free_table_address b" "table_arena_end_address b"]
    by (auto simp: table_room_def)
  have "unat (next_free_table_address b) < 2 ^ 52" using nf4 len by simp
  then obtain e where e: "table_entry (next_free_table_address b) user_read_write_execute = Inr e"
    using table_entry_bits [OF nf] by blast
  have "unat (next_free_table_address b + PAGE_SIZE_4K_BYTES) = unat (next_free_table_address b) + 4096"
    by (rule aligned4k_add(2) [OF nf]) (use nf4 len in simp)
  then have room': "table_room n (link_table b a e)" "table_room n b" for a
    using room by (auto simp: table_room_def link_table_def)
  obtain c b' where run: "ensure_child_table t lv (index_at v d) b = (Inr c, b')" and r: "table_room n b'"
    using ensure_child_table_run [OF inv t i, of lv] nl nf4 ae e room' lv
    by (cases "is_present ?e") (simp_all add: Let_def)
  obtain T' where T': "tables_inv T' b'" "tables_up T' b'" "same_walks b b'"
    "T' c = Some (index_path v (Suc d))"
    using ensure_child_table_spec [OF inv up t d run [unfolded lv]] by blast
  show ?thesis
    by (rule that [OF _ T'(1,2,4) r])
       (use run lv page_table_index_at [OF d4, of v] T'(3) small in \<open>simp_all add: op_simps same_walks_def\<close>)
qed

lemma map_4k_success:
  assumes ok: "builder_ok b" and al: "is_aligned_to_page_size v PAGE_SIZE_4K_BYTES"
    "is_aligned_to_page_size pa PAGE_SIZE_4K_BYTES"
    and room: "table_room 3 b" and small: "no_large_page (walk_of nxe v b)"
  shows "fst (map_4k v pa perms b) = Inr ()"
proof -
  obtain T where T: "tables_inv T b" "tables_up T b" using ok by (auto simp: builder_ok_def)
  then have root: "T (root_table_address b) = Some (index_path v 0)" by (simp add: tables_inv_def)
  obtain e where e: "page_4k pa perms = Inr e" using al(2) by (simp add: page_4k_def present_entry_def)
  have r3: "table_room (Suc (Suc (Suc 0))) b" using room by (simp add: numeral_3_eq_3)
  obtain c1 T1 b1 where 1: "\<And>f :: _ \<Rightarrow> (_, unit) op. bnd (lift_sum (page_table_index v PML4))
        (\<lambda>i. bnd (ensure_child_table (root_table_address b) PML4 i) f) b = f c1 b1"
      "tables_inv T1 b1" "tables_up T1 b1" "T1 c1 = Some (index_path v (Suc 0))"
      "table_room (Suc (Suc 0)) b1" "no_large_page (walk_of nxe v b1)"
    using ensure_child_table_succeeds [OF T root depth_less(1) WALK_ORDER_levels(1) r3 small] by metis
  obtain c2 T2 b2 where 2: "\<And>f :: _ \<Rightarrow> (_, unit) op. bnd (lift_sum (page_table_index v PDPT))
        (\<lambda>i. bnd (ensure_child_table c1 PDPT i) f) b1 = f c2 b2"
      "tables_inv T2 b2" "tables_up T2 b2" "T2 c2 = Some (index_path v (Suc (Suc 0)))"
      "table_room (Suc 0) b2" "no_large_page (walk_of nxe v b2)"
    using ensure_child_table_succeeds [OF 1(2-4) depth_less(2) WALK_ORDER_levels(2) 1(5,6)] by metis
  obtain c3 T3 b3 where 3: "\<And>f :: _ \<Rightarrow> (_, unit) op. bnd (lift_sum (page_table_index v PD))
        (\<lambda>i. bnd (ensure_child_table c2 PD i) f) b2 = f c3 b3"
      "tables_inv T3 b3" "tables_up T3 b3" "T3 c3 = Some (index_path v (Suc (Suc (Suc 0))))"
    using ensure_child_table_succeeds [OF 2(2-4) depth_less(3) WALK_ORDER_levels(3) 2(5,6)] by metis
  have idx: "page_table_index v PT = Inr (index_at v 3)"
    using page_table_index_at [of 3 v] by (simp add: WALK_ORDER_def)
  have wok: "qword_ok (pb_memory b3) (entry_address_for_index c3 (index_at v 3))"
    using tables_entry_ok [OF 3(2,4)] by simp
  have "map_4k v pa perms b = write_leaf_entry c3 PT (index_at v 3) e b3"
    by (simp add: map_4k_def sq_run require_aligned_run al bnd_run [of "gets _"] gets_run 1(1) 2(1) 3(1))
       (simp add: op_simps idx e)
  then show ?thesis
    using wok by (simp add: write_leaf_entry_def write_entry_def op_simps pb_bus_def
        mem_read_QWORD mem_write_QWORD is_leaf_entry_def Let_def)
qed

section \<open>Properties\<close>

text \<open>A builder over 32 KiB of memory, with its root at 4 KiB and an arena from 8 KiB.\<close>

definition sample_builder :: page_table_builder where
  "sample_builder = \<lparr>pb_memory = PhysicalMemory 0x8000, root_table_address = 0x1000,
     next_free_table_address = 0x2000, table_arena_end_address = 0x8000\<rparr>"

definition sample_cleared :: page_table_builder where
  "sample_cleared = snd (clear_root_table sample_builder)"

lemma sample_cleared_facts:
  "builder_ok sample_cleared" "walk_of nxe la sample_cleared = Faults NOT_PRESENT"
  "table_room 3 sample_cleared" "fst (clear_root_table sample_builder) = Inr ()"
proof -
  have a: "aligned4k (root_table_address sample_builder)" "aligned4k (next_free_table_address sample_builder)"
    "unat (root_table_address sample_builder) + 4096 \<le> length (pb_memory sample_builder)"
    "length (pb_memory sample_builder) \<le> 2 ^ 52"
    "root_table_address sample_builder < next_free_table_address sample_builder"
    by (simp_all add: sample_builder_def aligned4k_def PhysicalMemory_def)
  show "builder_ok sample_cleared" "fst (clear_root_table sample_builder) = Inr ()"
    "walk_of nxe la sample_cleared = Faults NOT_PRESENT"
    using clear_root_table_spec [OF a] by (simp_all add: sample_cleared_def)
  have "table_room 3 sample_builder"
    by (simp add: table_room_def sample_builder_def PhysicalMemory_def)
  then show "table_room 3 sample_cleared"
    using a by (simp add: sample_cleared_def clear_root_table_def clear_table_run table_room_def)
qed

text \<open>
  C2: \<open>map_4k\<close> keeps the page tables a tree on every path. If it returns, every canonical address
  of the page walks to the given frame with the given permissions (an NX entry while NX is
  disabled is a reserved-bit fault), and the walk of every other canonical address is unchanged.
  If it throws (misaligned, arena exhausted, a large page in the way), no walk has changed.
\<close>

theorem map_4k_correct:
  assumes "builder_ok b" and "is_canonical_linear_address v" and "unat pa < 2 ^ 52"
    and "map_4k v pa perms b = (r, b')"
  shows "builder_ok b' \<and>
    (case r of Inl _ \<Rightarrow> \<forall>nxe la. walk_of nxe la b' = walk_of nxe la b
     | Inr _ \<Rightarrow> page_mapped b b' PAGE_SIZE_4K_BYTES v pa perms)"
  using map_4k_spec [OF assms(1,4,3,2)] by (cases r) (auto simp: same_walks_def)

lemma sample_canonical: "is_canonical_linear_address 0x40000000" "unat (0x6000 :: address64) < 2 ^ 52"
  "is_aligned_to_page_size 0x40000000 PAGE_SIZE_4K_BYTES" "is_aligned_to_page_size 0x6000 PAGE_SIZE_4K_BYTES"
  "unat (0x40000000 :: address64) < 2 ^ 52"
  by (simp_all add: is_canonical_linear_address_def CANONICAL_SIGN_BIT_def CANONICAL_HIGH_MASK_def
      is_aligned_to_page_size_def PAGE_SIZE_4K_BYTES_def)

lemma sample_map_4k: "fst (map_4k 0x40000000 0x6000 user_read_write_no_execute sample_cleared) = Inr ()"
  by (rule map_4k_success [OF sample_cleared_facts(1) sample_canonical(3,4) sample_cleared_facts(3)])
     (simp add: sample_cleared_facts no_large_page_def)

theorem map_4k_correct_witness:
  "\<exists>b'. map_4k 0x40000000 0x6000 user_read_write_no_execute sample_cleared = (Inr (), b') \<and> builder_ok b' \<and>
     page_mapped sample_cleared b' PAGE_SIZE_4K_BYTES 0x40000000 0x6000 user_read_write_no_execute"
proof -
  obtain b' where run: "map_4k 0x40000000 0x6000 user_read_write_no_execute sample_cleared = (Inr (), b')"
    using sample_map_4k by (metis prod.collapse)
  show ?thesis
    using map_4k_correct [OF sample_cleared_facts(1) sample_canonical(1,2) run] run by auto
qed

text \<open>
  The same for 2 MiB and 1 GiB pages: a large mapping serves every address of its page, leaves
  every other walk as it was, and throws without changing any walk when a table already hangs
  where the large entry would go.
\<close>

lemma map_large_correct:
  assumes "builder_ok b" and "is_canonical_linear_address v" and "unat pa < 2 ^ 52"
  shows "(map_2m v pa perms b = (r, b') \<longrightarrow> builder_ok b' \<and>
      (case r of Inl _ \<Rightarrow> \<forall>nxe la. walk_of nxe la b' = walk_of nxe la b
       | Inr _ \<Rightarrow> page_mapped b b' PAGE_SIZE_2M_BYTES v pa perms)) \<and>
    (map_1g v pa perms b = (r, b') \<longrightarrow> builder_ok b' \<and>
      (case r of Inl _ \<Rightarrow> \<forall>nxe la. walk_of nxe la b' = walk_of nxe la b
       | Inr _ \<Rightarrow> page_mapped b b' PAGE_SIZE_1G_BYTES v pa perms))"
proof -
  have 1: "map_2m v pa perms b = (r, b') \<Longrightarrow> builder_ok b' \<and>
      (case r of Inl _ \<Rightarrow> \<forall>nxe la. walk_of nxe la b' = walk_of nxe la b
       | Inr _ \<Rightarrow> page_mapped b b' PAGE_SIZE_2M_BYTES v pa perms)"
    using map_2m_spec [OF assms(1) _ assms(3,2), of perms r b'] by (cases r) (simp_all add: same_walks_def)
  have 2: "map_1g v pa perms b = (r, b') \<Longrightarrow> builder_ok b' \<and>
      (case r of Inl _ \<Rightarrow> \<forall>nxe la. walk_of nxe la b' = walk_of nxe la b
       | Inr _ \<Rightarrow> page_mapped b b' PAGE_SIZE_1G_BYTES v pa perms)"
    using map_1g_spec [OF assms(1) _ assms(3,2), of perms r b'] by (cases r) (simp_all add: same_walks_def)
  from 1 2 show ?thesis by blast
qed

lemma map_large_correct_witness:
  "\<exists>r b'. map_2m 0x40000000 0x40000000 kernel_read_write_execute sample_cleared = (r, b') \<and> builder_ok b' \<and>
      (case r of Inl _ \<Rightarrow> \<forall>nxe la. walk_of nxe la b' = walk_of nxe la sample_cleared
       | Inr _ \<Rightarrow> page_mapped sample_cleared b' PAGE_SIZE_2M_BYTES 0x40000000 0x40000000 kernel_read_write_execute)"
proof -
  obtain r b' where run: "map_2m 0x40000000 0x40000000 kernel_read_write_execute sample_cleared = (r, b')"
    by fastforce
  show ?thesis
    using map_large_correct [OF sample_cleared_facts(1) sample_canonical(1,5)] run by blast
qed

text \<open>
  \<open>map_4k\<close> does return: with aligned arguments, room for three tables in the memory and in the
  arena and no large page covering the address, the mapping succeeds.
\<close>

lemma map_4k_succeeds:
  assumes "builder_ok b" and "is_aligned_to_page_size v PAGE_SIZE_4K_BYTES"
    and "is_aligned_to_page_size pa PAGE_SIZE_4K_BYTES"
    and "table_room 3 b" and "no_large_page (walk_of nxe v b)"
  shows "fst (map_4k v pa perms b) = Inr ()"
  by (rule map_4k_success [OF assms])

lemma map_4k_succeeds_witness:
  "fst (map_4k 0x40000000 0x6000 kernel_read_write_execute sample_cleared) = Inr ()"
  by (rule map_4k_succeeds [OF sample_cleared_facts(1) sample_canonical(3,4) sample_cleared_facts(3), of True])
     (simp add: sample_cleared_facts no_large_page_def)

text \<open>
  Clearing the root table of a builder whose root lies in memory and below the arena establishes
  the invariant, and every address is then unmapped.
\<close>

lemma clear_root_table_empty:
  assumes "aligned4k (root_table_address b)" and "aligned4k (next_free_table_address b)"
    and "unat (root_table_address b) + 4096 \<le> length (pb_memory b)" and "length (pb_memory b) \<le> 2 ^ 52"
    and "root_table_address b < next_free_table_address b"
  shows "\<exists>b'. clear_root_table b = (Inr (), b') \<and> builder_ok b' \<and>
    (\<forall>nxe la. walk_of nxe la b' = Faults NOT_PRESENT)"
  using clear_root_table_spec [OF assms] by (metis prod.collapse)

lemma clear_root_table_empty_witness:
  "\<exists>b'. clear_root_table sample_builder = (Inr (), b') \<and> builder_ok b' \<and>
    (\<forall>nxe la. walk_of nxe la b' = Faults NOT_PRESENT)"
  by (rule clear_root_table_empty) (simp_all add: sample_builder_def aligned4k_def PhysicalMemory_def)

end
