(* ===== verification/CpuState.thy ===== *)
theory CpuState
  imports Paging
begin

unbundle bit_operations_syntax

text \<open>
  The architectural state of a core: \<^verbatim>\<open>src/cpu/register\<close>, \<^verbatim>\<open>src/cpu/flags\<close>,
  \<^verbatim>\<open>src/cpu/system/trap_frame.cpp\<close>, \<^verbatim>\<open>interrupt_vector\<close>, \<^verbatim>\<open>core_id\<close>, \<^verbatim>\<open>core_topology.cpp\<close> and
  \<^verbatim>\<open>src/cpu/execution/cpu_state.cpp\<close>. Registers are a total map from the sixteen register names;
  the flag register is its raw 64-bit word. The \<^verbatim>\<open>COUNT\<close> sentinels of these enumerations are not
  values of the model, so the accesses that only a sentinel makes throw are total here.
\<close>

section \<open>Registers\<close>

datatype register_id =
    RAX | RBX | RCX | RDX | RSI | RDI | RBP | RSP
  | R8 | R9 | R10 | R11 | R12 | R13 | R14 | R15

type_synonym register_bank = "register_id \<Rightarrow> qword"

definition initial_registers :: register_bank where
  "initial_registers = (\<lambda>_. 0)"

definition reg_read :: "register_id \<Rightarrow> register_bank \<Rightarrow> qword" where
  "reg_read r regs = regs r"

definition reg_write :: "register_id \<Rightarrow> qword \<Rightarrow> register_bank \<Rightarrow> register_bank" where
  "reg_write r value regs = regs(r := value)"

section \<open>Flags\<close>

datatype flag_id = CF | PF | ZF | SF | IF | OF

type_synonym rflags = qword

fun flag_id_to_bit_index :: "flag_id \<Rightarrow> nat" where
  "flag_id_to_bit_index CF = 0"
| "flag_id_to_bit_index PF = 2"
| "flag_id_to_bit_index ZF = 6"
| "flag_id_to_bit_index SF = 7"
| "flag_id_to_bit_index IF = 9"
| "flag_id_to_bit_index OF = 11"

definition make_flag_mask :: "flag_id \<Rightarrow> qword" where
  "make_flag_mask f = push_bit (flag_id_to_bit_index f) 1"

definition RFLAGS_STATUS_FLAG_MASK :: qword where
  "RFLAGS_STATUS_FLAG_MASK = push_bit 0 1 OR push_bit 2 1 OR push_bit 6 1 OR push_bit 7 1 OR push_bit 11 1"

definition make_qword_sign_mask :: qword where
  "make_qword_sign_mask = push_bit 63 1"

definition popcount_word :: "qword \<Rightarrow> nat" where
  "popcount_word v = length (filter (bit v) [0..<64])"

definition has_even_low_byte_parity :: "qword \<Rightarrow> bool" where
  "has_even_low_byte_parity value \<longleftrightarrow> popcount_word (value AND 0xFF) mod 2 = 0"

definition flag_read :: "flag_id \<Rightarrow> rflags \<Rightarrow> bool" where
  "flag_read f raw \<longleftrightarrow> raw AND make_flag_mask f \<noteq> 0"

definition flag_write :: "flag_id \<Rightarrow> bool \<Rightarrow> rflags \<Rightarrow> rflags" where
  "flag_write f value raw =
     (if value then raw OR make_flag_mask f else raw AND NOT (make_flag_mask f))"

definition clear_status_flags :: "rflags \<Rightarrow> rflags" where
  "clear_status_flags raw = raw AND NOT RFLAGS_STATUS_FLAG_MASK"

definition update_zero_sign_from_qword :: "qword \<Rightarrow> rflags \<Rightarrow> rflags" where
  "update_zero_sign_from_qword result raw =
     flag_write SF (result AND make_qword_sign_mask \<noteq> 0) (flag_write ZF (result = 0) raw)"

definition update_zero_sign_parity_from_qword :: "qword \<Rightarrow> rflags \<Rightarrow> rflags" where
  "update_zero_sign_parity_from_qword result raw =
     flag_write PF (has_even_low_byte_parity result) (update_zero_sign_from_qword result raw)"

section \<open>Traps\<close>

datatype trap_kind = EXCEPTION | INTERRUPT | SOFTWARE_INTERRUPT | SYSCALL

type_synonym interrupt_vector = "8 word"

definition vector_divide_error :: interrupt_vector where "vector_divide_error = 0"
definition vector_breakpoint :: interrupt_vector where "vector_breakpoint = 3"
definition vector_invalid_opcode :: interrupt_vector where "vector_invalid_opcode = 6"
definition vector_general_protection :: interrupt_vector where "vector_general_protection = 13"
definition vector_page_fault :: interrupt_vector where "vector_page_fault = 14"
definition vector_timer :: interrupt_vector where "vector_timer = 32"
definition vector_syscall_compat :: interrupt_vector where "vector_syscall_compat = 0x80"
definition vector_tlb_shootdown :: interrupt_vector where "vector_tlb_shootdown = 0xF0"
definition vector_reschedule :: interrupt_vector where "vector_reschedule = 0xF1"

record trap_frame =
  tf_kind :: trap_kind
  tf_vector :: interrupt_vector
  tf_interrupted_rip :: address64
  tf_return_rip :: address64
  tf_rflags :: qword
  tf_stack_pointer :: qword
  tf_privilege_level :: privilege_level
  tf_error_code :: "qword option"

definition has_error_code :: "trap_frame \<Rightarrow> bool" where
  "has_error_code f \<longleftrightarrow> tf_error_code f \<noteq> None"

definition error_code :: "trap_frame \<Rightarrow> exn + qword" where
  "error_code f = (case tf_error_code f of None \<Rightarrow> Inl Logic_error | Some c \<Rightarrow> Inr c)"

section \<open>Cores\<close>

type_synonym core_id = "32 word"

definition bootstrap_core :: core_id where "bootstrap_core = 0"

type_synonym core_topology = "32 word"

definition CoreTopology :: "32 word \<Rightarrow> exn + core_topology" where
  "CoreTopology core_count = (if core_count = 0 then Inl Invalid_argument else Inr core_count)"

definition topology_contains :: "core_topology \<Rightarrow> core_id \<Rightarrow> bool" where
  "topology_contains t c \<longleftrightarrow> c < t"

definition core_at :: "core_topology \<Rightarrow> 32 word \<Rightarrow> exn + core_id" where
  "core_at t index = (if index \<ge> t then Inl Out_of_range else Inr index)"

record cpu_state =
  registers :: register_bank
  flags :: rflags
  paging :: paging_state
  core :: core_id
  rip :: address64
  cpl :: privilege_level
  pending_trap :: "trap_frame option"
  halted :: bool

definition initial_cpu_state :: cpu_state where
  "initial_cpu_state =
     \<lparr>registers = initial_registers, flags = 0, paging = initial_paging_state, core = bootstrap_core,
      rip = 0, cpl = RING0, pending_trap = None, halted = False\<rparr>"

definition set_core_id :: "core_id \<Rightarrow> cpu_state \<Rightarrow> cpu_state" where
  "set_core_id c s = s\<lparr>core := c\<rparr>"

definition set_rip :: "address64 \<Rightarrow> cpu_state \<Rightarrow> cpu_state" where
  "set_rip v s = s\<lparr>rip := v\<rparr>"

definition advance_rip :: "cpu_state \<Rightarrow> cpu_state" where
  "advance_rip s = s\<lparr>rip := rip s + 1\<rparr>"

definition cpu_halt :: "cpu_state \<Rightarrow> cpu_state" where
  "cpu_halt s = s\<lparr>halted := True\<rparr>"

definition cpu_resume :: "cpu_state \<Rightarrow> cpu_state" where
  "cpu_resume s = s\<lparr>halted := False\<rparr>"

definition cpu_reset :: "cpu_state \<Rightarrow> cpu_state" where
  "cpu_reset s = s\<lparr>registers := initial_registers, flags := 0, paging := initial_paging_state,
     core := bootstrap_core, rip := 0, cpl := RING0, pending_trap := None, halted := False\<rparr>"

definition set_privilege_level :: "privilege_level \<Rightarrow> cpu_state \<Rightarrow> cpu_state" where
  "set_privilege_level level s = s\<lparr>cpl := level\<rparr>"

definition get_pending_trap :: "cpu_state \<Rightarrow> exn + trap_frame" where
  "get_pending_trap s = (case pending_trap s of None \<Rightarrow> Inl Logic_error | Some f \<Rightarrow> Inr f)"

definition set_pending_trap :: "trap_frame \<Rightarrow> cpu_state \<Rightarrow> cpu_state" where
  "set_pending_trap f s = s\<lparr>pending_trap := Some f\<rparr>"

definition clear_pending_trap :: "cpu_state \<Rightarrow> cpu_state" where
  "clear_pending_trap s = s\<lparr>pending_trap := None\<rparr>"

section \<open>Facts\<close>

lemma flag_read_bit: "flag_read f raw \<longleftrightarrow> bit raw (flag_id_to_bit_index f)"
  unfolding flag_read_def make_flag_mask_def by (rule and_push_bit_one_neq_0)

lemma flag_bit_less [simp]: "flag_id_to_bit_index f < 64"
  by (cases f) auto

lemma bit_flag_write:
  "bit (flag_write f v raw) k \<longleftrightarrow> (if k = flag_id_to_bit_index f then v else bit raw k)"
proof -
  have m: "bit (make_flag_mask f) k \<longleftrightarrow> k = flag_id_to_bit_index f" for k
    unfolding make_flag_mask_def bit_push_bit_one by simp
  show ?thesis by (auto simp: flag_write_def m bit_or_iff bit_and_iff bit_not_iff dest: bit_imp_le_length)
qed

lemma flag_id_to_bit_index_inj: "flag_id_to_bit_index f = flag_id_to_bit_index g \<longleftrightarrow> f = g"
  by (cases f; cases g) auto

lemma flag_read_write: "flag_read g (flag_write f v raw) = (if g = f then v else flag_read g raw)"
  by (simp add: flag_read_bit bit_flag_write flag_id_to_bit_index_inj)

lemma bit_status_mask: "bit RFLAGS_STATUS_FLAG_MASK k \<longleftrightarrow> k = 0 \<or> k = 2 \<or> k = 6 \<or> k = 7 \<or> k = 11"
  unfolding RFLAGS_STATUS_FLAG_MASK_def bit_or_iff bit_push_bit_one by auto

section \<open>Properties\<close>

text \<open>
  The flag register. Writing a flag changes the bit of that flag and no other bit of the
  register; \<open>clear_status_flags\<close> clears the five status flags and keeps every other bit, the
  interrupt flag included; and the update after an operation sets ZF, SF and PF from the result
  and touches nothing else.
\<close>

lemma rflags_correct:
  "(bit (flag_write f v raw) k \<longleftrightarrow> (if k = flag_id_to_bit_index f then v else bit raw k)) \<and>
   flag_read g (flag_write f v raw) = (if g = f then v else flag_read g raw) \<and>
   flag_read g (clear_status_flags raw) = (g = IF \<and> flag_read IF raw) \<and>
   flag_read g (update_zero_sign_parity_from_qword w raw) =
     (case g of ZF \<Rightarrow> w = 0 | SF \<Rightarrow> w \<ge> 2 ^ 63
      | PF \<Rightarrow> even (length (filter (bit w) [0..<8])) | _ \<Rightarrow> flag_read g raw)"
proof -
  have "flag_read g (clear_status_flags raw) = (g = IF \<and> flag_read IF raw)"
    by (cases g) (auto simp: flag_read_bit clear_status_flags_def bit_and_iff bit_not_iff bit_status_mask)
  moreover have sign: "w AND make_qword_sign_mask \<noteq> 0 \<longleftrightarrow> w \<ge> 2 ^ 63"
  proof -
    have "w AND make_qword_sign_mask \<noteq> 0 \<longleftrightarrow> bit w 63"
      unfolding make_qword_sign_mask_def by (rule and_push_bit_one_neq_0)
    also have "\<dots> \<longleftrightarrow> bit (unat w) 63" by (simp add: bit_unsigned_iff)
    also have "\<dots> \<longleftrightarrow> 2 ^ 63 \<le> unat w"
    proof -
      have "unat w < 2 ^ 64" by (rule less_le_trans [OF unsigned_less]) simp
      then have "unat w div 2 ^ 63 = (if 2 ^ 63 \<le> unat w then 1 else 0)" by (simp add: div_nat_eqI)
      then show ?thesis by (simp add: bit_iff_odd)
    qed
    also have "\<dots> \<longleftrightarrow> w \<ge> 2 ^ 63" by (simp add: word_le_nat_alt)
    finally show ?thesis .
  qed
  moreover have parity: "has_even_low_byte_parity w \<longleftrightarrow> even (length (filter (bit w) [0..<8]))"
  proof -
    have m: "(0xFF :: qword) = mask 8" by (simp add: mask_eq_exp_minus_1)
    have b: "bit (w AND 0xFF) k \<longleftrightarrow> k < 8 \<and> bit w k" for k
      unfolding m by (auto simp: bit_and_iff bit_mask_iff)
    have s: "[0..<64] = [0..<8] @ [8..<64]" using upt_add_eq_append [of 0 8 56] by simp
    have "filter (bit (w AND 0xFF)) [0..<8] = filter (bit w) [0..<8]"
      by (rule filter_cong) (auto simp: b)
    moreover have "filter (bit (w AND 0xFF)) [8..<64] = []" by (simp add: filter_empty_conv b del: upt_rec_numeral)
    ultimately have "filter (bit (w AND 0xFF)) [0..<64] = filter (bit w) [0..<8]"
      unfolding s filter_append by simp
    then show ?thesis unfolding has_even_low_byte_parity_def popcount_word_def by presburger
  qed
  ultimately show ?thesis
    using bit_flag_write flag_read_write
    by (cases g) (auto simp: update_zero_sign_parity_from_qword_def update_zero_sign_from_qword_def)
qed

end
