(* ===== verification/PageAlloc.thy ===== *)
theory PageAlloc
  imports Prelude
begin

unbundle bit_operations_syntax

text \<open>
  Page arithmetic, \<^verbatim>\<open>src/os/mm/page.cpp\<close>, and the physical page allocator,
  \<^verbatim>\<open>src/os/mm/physical_page_allocator.cpp\<close>: a vector with one flag per page, a first-fit search
  for a run of free pages and a count of the free pages. Page numbers and counts are natural numbers
  (the vector bounds them); addresses are 64-bit words, and the address of a run is the wrapping
  product of the source. The locale \<open>frame_source\<close> is what the users of the allocator rely on.
\<close>

section \<open>Page arithmetic\<close>

definition MM_PAGE_SIZE_BYTES :: address64 where "MM_PAGE_SIZE_BYTES = push_bit 12 1"
definition MM_PAGE_OFFSET_MASK :: address64 where "MM_PAGE_OFFSET_MASK = MM_PAGE_SIZE_BYTES - 1"
definition MM_PAGE_FRAME_MASK :: address64 where "MM_PAGE_FRAME_MASK = NOT MM_PAGE_OFFSET_MASK"

definition is_page_aligned :: "address64 \<Rightarrow> bool" where
  "is_page_aligned v \<longleftrightarrow> v AND MM_PAGE_OFFSET_MASK = 0"

definition would_overflow_page_rounding :: "address64 \<Rightarrow> bool" where
  "would_overflow_page_rounding v \<longleftrightarrow> v > - 1 - MM_PAGE_OFFSET_MASK"

definition align_down_value :: "address64 \<Rightarrow> address64" where
  "align_down_value v = v AND MM_PAGE_FRAME_MASK"

definition align_up_value :: "address64 \<Rightarrow> exn + address64" where
  "align_up_value v =
     (if is_page_aligned v then Inr v
      else if would_overflow_page_rounding v then Inl Overflow_error
      else Inr (align_down_value (v + MM_PAGE_OFFSET_MASK)))"

definition page_number :: "address64 \<Rightarrow> nat" where
  "page_number v = unat (drop_bit 12 v)"

definition offset_in_page :: "address64 \<Rightarrow> address64" where
  "offset_in_page v = v AND MM_PAGE_OFFSET_MASK"

definition page_count_for_bytes :: "address64 \<Rightarrow> exn + nat" where
  "page_count_for_bytes byte_count =
     (if byte_count = 0 then Inr 0
      else if would_overflow_page_rounding byte_count then Inl Overflow_error
      else Inr (page_number (byte_count + MM_PAGE_OFFSET_MASK)))"

section \<open>The allocator\<close>

record physical_page_allocator =
  total_page_count :: nat
  first_allocatable_page :: nat
  free_page_count :: nat
  allocated_pages :: "bool list"

definition PhysicalPageAllocator :: "nat \<Rightarrow> nat \<Rightarrow> exn + physical_page_allocator" where
  "PhysicalPageAllocator pages first =
     (let a = \<lparr>total_page_count = pages, first_allocatable_page = first,
               free_page_count = (if pages > first then pages - first else 0),
               allocated_pages = replicate pages True\<rparr>
      in if pages = 0 then Inl Invalid_argument
      else if first > pages then Inl Out_of_range
      else Inr (a\<lparr>allocated_pages :=
             fold (\<lambda>i al. al[i := False]) [first..<pages] (allocated_pages a)\<rparr>))"

definition allocated_page_count :: "physical_page_allocator \<Rightarrow> nat" where
  "allocated_page_count a = total_page_count a - free_page_count a"

definition allocator_empty :: "physical_page_allocator \<Rightarrow> bool" where
  "allocator_empty a \<longleftrightarrow> free_page_count a = 0"

definition allocator_contains :: "physical_page_allocator \<Rightarrow> address64 \<Rightarrow> bool" where
  "allocator_contains a address \<longleftrightarrow> is_page_aligned address \<and> page_number address < total_page_count a"

definition require_owned_page :: "address64 \<Rightarrow> (physical_page_allocator, unit) op" where
  "require_owned_page address =
     sq (require (is_page_aligned address) Invalid_argument)
        (\<lambda>a. require (page_number address < total_page_count a) Out_of_range a)"

definition page_index :: "address64 \<Rightarrow> (physical_page_allocator, nat) op" where
  "page_index address = sq (require_owned_page address) (ret (page_number address))"

definition require_allocatable_page :: "address64 \<Rightarrow> (physical_page_allocator, unit) op" where
  "require_allocatable_page address =
     sq (require_owned_page address)
    (bnd (page_index address) (\<lambda>i a. require (\<not> i < first_allocatable_page a) Logic_error a))"

definition require_page_count :: "nat \<Rightarrow> ('s, unit) op" where
  "require_page_count page_count = require (page_count \<noteq> 0) Invalid_argument"

definition is_page_index_allocated :: "physical_page_allocator \<Rightarrow> nat \<Rightarrow> bool" where
  "is_page_index_allocated a i = allocated_pages a ! i"

definition is_allocated :: "address64 \<Rightarrow> (physical_page_allocator, bool) op" where
  "is_allocated address =
     sq (require_owned_page address)
    (bnd (page_index address) (\<lambda>i. gets (\<lambda>a. is_page_index_allocated a i)))"

definition mark_allocated :: "nat \<Rightarrow> physical_page_allocator \<Rightarrow> physical_page_allocator" where
  "mark_allocated i a =
     (if \<not> is_page_index_allocated a i
      then a\<lparr>allocated_pages := (allocated_pages a)[i := True], free_page_count := free_page_count a - 1\<rparr>
      else a)"

definition mark_free :: "nat \<Rightarrow> physical_page_allocator \<Rightarrow> physical_page_allocator" where
  "mark_free i a =
     (if is_page_index_allocated a i
      then a\<lparr>allocated_pages := (allocated_pages a)[i := False], free_page_count := free_page_count a + 1\<rparr>
      else a)"

text \<open>The search loop: the start and the length of the current run of free pages.\<close>

fun find_run :: "bool list \<Rightarrow> nat \<Rightarrow> nat list \<Rightarrow> nat \<Rightarrow> nat \<Rightarrow> nat option" where
  "find_run al page_count [] start len = None"
| "find_run al page_count (i # is) start len =
     (if al ! i then find_run al page_count is start 0
      else let start' = (if len = 0 then i else start); len' = len + 1
           in if len' = page_count then Some start' else find_run al page_count is start' len')"

definition allocate_contiguous :: "nat \<Rightarrow> (physical_page_allocator, address64) op" where
  "allocate_contiguous page_count =
     sq (require_page_count page_count)
    (bnd (gets id) (\<lambda>a.
       if page_count > free_page_count a then throw Bad_alloc
       else case find_run (allocated_pages a) page_count
                   [first_allocatable_page a..<total_page_count a] 0 0 of
              None \<Rightarrow> throw Bad_alloc
            | Some start \<Rightarrow>
                sq (modify (fold mark_allocated [start..<start + page_count]))
                   (ret (of_nat start * MM_PAGE_SIZE_BYTES))))"

definition allocate_page :: "(physical_page_allocator, address64) op" where
  "allocate_page = allocate_contiguous 1"

definition reserve_range :: "address64 \<Rightarrow> nat \<Rightarrow> (physical_page_allocator, unit) op" where
  "reserve_range start_address page_count =
     sq (require_owned_page start_address)
    (sq (require_page_count page_count)
    (bnd (page_index start_address) (\<lambda>start_index.
     sq (\<lambda>a. require (\<not> page_count > total_page_count a - start_index) Out_of_range a)
        (modify (fold (\<lambda>i a. if \<not> is_page_index_allocated a i then mark_allocated i a else a)
           [start_index..<start_index + page_count])))))"

definition free_page :: "address64 \<Rightarrow> (physical_page_allocator, unit) op" where
  "free_page address =
     sq (require_allocatable_page address)
    (bnd (page_index address) (\<lambda>i.
     sq (\<lambda>a. require (is_page_index_allocated a i) Logic_error a)
        (modify (mark_free i))))"

section \<open>Page arithmetic facts\<close>

lemma page_masks: "MM_PAGE_OFFSET_MASK = mask 12" "MM_PAGE_FRAME_MASK = NOT (mask 12)"
proof -
  show "MM_PAGE_OFFSET_MASK = mask 12"
    unfolding MM_PAGE_OFFSET_MASK_def MM_PAGE_SIZE_BYTES_def by (simp add: mask_eq_exp_minus_1)
  then show "MM_PAGE_FRAME_MASK = NOT (mask 12)" by (simp only: MM_PAGE_FRAME_MASK_def)
qed

lemma is_page_aligned_iff: "is_page_aligned v \<longleftrightarrow> unat v mod 4096 = 0"
  using unat_mod_exp_eq_0 [of v 12] unfolding is_page_aligned_def page_masks by simp

lemma page_number_eq: "page_number v = unat v div 4096"
  by (simp add: page_number_def drop_bit_eq_div unat_div)

lemma unat_page_address: "i < 2 ^ 52 \<Longrightarrow> unat (of_nat i * MM_PAGE_SIZE_BYTES) = i * 4096"
proof -
  assume i: "i < 2 ^ 52"
  have "of_nat i * MM_PAGE_SIZE_BYTES = (of_nat (i * 4096) :: address64)"
    by (simp add: MM_PAGE_SIZE_BYTES_def)
  then have "unat (of_nat i * MM_PAGE_SIZE_BYTES) = take_bit 64 (i * 4096)"
    by (simp only: unsigned_of_nat) simp
  also have "\<dots> = i * 4096" using i by (intro take_bit_nat_eq_self) simp
  finally show ?thesis .
qed

lemma page_address_facts:
  assumes "i < 2 ^ 52"
  shows "is_page_aligned (of_nat i * MM_PAGE_SIZE_BYTES)" "page_number (of_nat i * MM_PAGE_SIZE_BYTES) = i"
  using unat_page_address [OF assms] by (simp_all add: is_page_aligned_iff page_number_eq)

lemma page_number_inj: "is_page_aligned a \<Longrightarrow> is_page_aligned b \<Longrightarrow> page_number a = page_number b \<Longrightarrow> a = b"
  by (metis is_page_aligned_iff page_number_eq mult_div_mod_eq unsigned_word_eqI)

section \<open>The search\<close>

definition free_run :: "bool list \<Rightarrow> nat \<Rightarrow> nat \<Rightarrow> bool" where
  "free_run al s n \<longleftrightarrow> s + n \<le> length al \<and> (\<forall>j. s \<le> j \<and> j < s + n \<longrightarrow> \<not> al ! j)"

text \<open>
  The loop invariant at page \<open>i\<close>: the last \<open>len\<close> pages are free and preceded by an allocated page or
  by the first allocatable page, and no run that is long enough ends before \<open>i\<close>.
\<close>

definition run_inv :: "bool list \<Rightarrow> nat \<Rightarrow> nat \<Rightarrow> nat \<Rightarrow> nat \<Rightarrow> nat \<Rightarrow> bool" where
  "run_inv al first n i start len \<longleftrightarrow>
     first + len \<le> i \<and> len < n \<and> (0 < len \<longrightarrow> start = i - len) \<and>
     (\<forall>j. i - len \<le> j \<and> j < i \<longrightarrow> \<not> al ! j) \<and> (i - len = first \<or> al ! (i - len - 1)) \<and>
     (\<forall>s. first \<le> s \<and> s + n \<le> i \<longrightarrow> \<not> free_run al s n)"

lemma find_run_spec:
  assumes "run_inv al first n i start len" and "i \<le> length al" and "first \<le> i"
  shows "case find_run al n [i..<length al] start len of
      None \<Rightarrow> \<forall>s \<ge> first. \<not> free_run al s n
    | Some st \<Rightarrow> first \<le> st \<and> free_run al st n \<and> (\<forall>s. first \<le> s \<and> free_run al s n \<longrightarrow> st \<le> s)"
  using assms
proof (induction "length al - i" arbitrary: i start len)
  case 0
  then have "i = length al" by simp
  then show ?case using 0 by (auto simp: run_inv_def free_run_def)
next
  case (Suc x)
  then have i: "i < length al" by simp
  then have upt: "[i..<length al] = i # [Suc i..<length al]" by (simp add: upt_conv_Cons)
  have x: "x = length al - Suc i" "Suc i \<le> length al" "first \<le> Suc i" using Suc i by auto
  note inv = Suc.prems(1) [unfolded run_inv_def]
  show ?case
  proof (cases "al ! i")
    case True
    have "\<not> free_run al s n" if "first \<le> s" "s + n \<le> Suc i" for s
      using that inv True by (cases "s + n \<le> i") (auto simp: free_run_def)
    then have "run_inv al first n (Suc i) start 0" using inv True by (auto simp: run_inv_def)
    from Suc.hyps(1) [OF x(1) this x(2,3)] show ?thesis using True by (simp add: upt)
  next
    case False
    define st where "st = (if len = 0 then i else start)"
    have st: "st = i - len" "st + len = i" "first \<le> st" using inv by (auto simp: st_def)
    have free: "\<not> al ! j" if "st \<le> j" "j < Suc i" for j
      using that inv False st by (cases "j = i") auto
    have late: "st \<le> s" if "first \<le> s" "free_run al s n" for s
    proof (rule ccontr)
      assume "\<not> st \<le> s"
      then have s: "s < st" "st \<noteq> first" using that by auto
      then have "al ! (st - 1)" using inv st by auto
      moreover have "\<not> s + n \<le> i" using inv that by blast
      moreover have "\<not> al ! (st - 1)"
        using that(2) [unfolded free_run_def, THEN conjunct2, rule_format, of "st - 1"] s st calculation(2)
        by linarith
      ultimately show False by blast
    qed
    show ?thesis
    proof (cases "Suc len = n")
      case True
      then have "free_run al st n" using free st i by (auto simp: free_run_def)
      then show ?thesis using True False late st by (simp add: upt st_def [symmetric])
    next
      case neq: False
      then have len: "Suc len < n" using inv by simp
      have "\<not> free_run al s n" if "first \<le> s" "s + n \<le> Suc i" for s
        using late [OF that(1)] that(2) st len by auto
      then have "run_inv al first n (Suc i) st (Suc len)"
        using inv free st len by (auto simp: run_inv_def)
      from Suc.hyps(1) [OF x(1) this x(2,3)] show ?thesis
        using neq False by (simp add: upt st_def [symmetric])
    qed
  qed
qed

section \<open>Invariant\<close>

definition allocator_inv :: "physical_page_allocator \<Rightarrow> bool" where
  "allocator_inv a \<longleftrightarrow> length (allocated_pages a) = total_page_count a \<and>
     free_page_count a = length (filter Not (allocated_pages a)) \<and>
     first_allocatable_page a \<le> total_page_count a \<and> total_page_count a \<le> 2 ^ 52 \<and>
     (\<forall>i < first_allocatable_page a. allocated_pages a ! i)"

definition used_pages :: "physical_page_allocator \<Rightarrow> nat set" where
  "used_pages a = {i. i < length (allocated_pages a) \<and> allocated_pages a ! i}"

lemma used_pages_iff: "allocator_inv a \<Longrightarrow> i \<in> used_pages a \<longleftrightarrow> i < total_page_count a \<and> allocated_pages a ! i"
  by (simp add: used_pages_def allocator_inv_def)

lemma mark_allocated_facts:
  assumes "allocator_inv a" and "i < total_page_count a"
  shows "allocator_inv (mark_allocated i a)" "used_pages (mark_allocated i a) = insert i (used_pages a)"
    "total_page_count (mark_allocated i a) = total_page_count a"
    "first_allocatable_page (mark_allocated i a) = first_allocatable_page a"
  using assms filter_length_update [of i "allocated_pages a" Not True]
  by (auto simp: mark_allocated_def is_page_index_allocated_def allocator_inv_def used_pages_def nth_list_update
      split: if_splits)

lemma mark_free_facts:
  assumes "allocator_inv a" and "i < total_page_count a" and "first_allocatable_page a \<le> i"
  shows "allocator_inv (mark_free i a)" "used_pages (mark_free i a) = used_pages a - {i}"
  using assms filter_length_update [of i "allocated_pages a" Not False]
  by (auto simp: mark_free_def is_page_index_allocated_def allocator_inv_def used_pages_def nth_list_update
      split: if_splits)

lemma fold_mark_allocated:
  assumes "allocator_inv a" and "set is \<subseteq> {..<total_page_count a}"
  shows "allocator_inv (fold mark_allocated is a) \<and>
    used_pages (fold mark_allocated is a) = set is \<union> used_pages a \<and>
    total_page_count (fold mark_allocated is a) = total_page_count a \<and>
    first_allocatable_page (fold mark_allocated is a) = first_allocatable_page a"
  using assms
proof (induction "is" arbitrary: a)
  case Nil
  then show ?case by simp
next
  case (Cons i "is")
  then have i: "i < total_page_count a" by simp
  note m = mark_allocated_facts [OF Cons.prems(1) i]
  from Cons.IH [of "mark_allocated i a"] m Cons.prems show ?case by auto
qed

lemma free_page_count_used:
  assumes "allocator_inv a"
  shows "free_page_count a + card (used_pages a) = total_page_count a"
proof -
  have c: "card (used_pages a) = length (filter id (allocated_pages a))"
    by (simp add: used_pages_def length_filter_conv_card)
  have "length (filter Not (allocated_pages a)) + length (filter id (allocated_pages a)) = length (allocated_pages a)"
    using sum_length_filter_compl [of id "allocated_pages a"] by (simp add: add.commute)
  then show ?thesis using assms c by (simp add: allocator_inv_def)
qed

lemma free_run_used:
  assumes "allocator_inv a"
  shows "free_run (allocated_pages a) s n \<longleftrightarrow>
    s + n \<le> total_page_count a \<and> {s..<s + n} \<inter> used_pages a = {}"
  using assms by (auto simp: free_run_def used_pages_def allocator_inv_def)

lemma free_run_count:
  assumes "allocator_inv a" and "free_run (allocated_pages a) s n"
  shows "n \<le> free_page_count a"
proof -
  have "{s..<s + n} \<inter> used_pages a = {}" "s + n \<le> total_page_count a"
    using assms by (simp_all add: free_run_used)
  moreover have "used_pages a \<subseteq> {..<total_page_count a}"
    using assms(1) by (auto simp: used_pages_def allocator_inv_def)
  ultimately have "{s..<s + n} \<union> used_pages a \<subseteq> {..<total_page_count a}" by auto
  from card_mono [OF _ this] have "card ({s..<s + n} \<union> used_pages a) \<le> total_page_count a" by simp
  moreover have "finite (used_pages a)" by (simp add: used_pages_def)
  ultimately have "n + card (used_pages a) \<le> total_page_count a"
    using \<open>{s..<s + n} \<inter> used_pages a = {}\<close> by (simp add: card_Un_disjoint)
  then show ?thesis using free_page_count_used [OF assms(1)] by simp
qed

text \<open>The allocation as a function of the state, on every branch.\<close>

lemma allocate_contiguous_run:
  assumes inv: "allocator_inv a" and n: "0 < n"
  shows "(\<exists>st. first_allocatable_page a \<le> st \<and> free_run (allocated_pages a) st n \<and>
       (\<forall>s. first_allocatable_page a \<le> s \<and> free_run (allocated_pages a) s n \<longrightarrow> st \<le> s) \<and>
       allocate_contiguous n a =
         (Inr (of_nat st * MM_PAGE_SIZE_BYTES), fold mark_allocated [st..<st + n] a)) \<or>
     (\<forall>s \<ge> first_allocatable_page a. \<not> free_run (allocated_pages a) s n) \<and>
       allocate_contiguous n a = (Inl Bad_alloc, a)"
proof -
  let ?f = "first_allocatable_page a" and ?al = "allocated_pages a"
  have len: "length ?al = total_page_count a" "?f \<le> length ?al" using inv by (simp_all add: allocator_inv_def)
  have "run_inv ?al ?f n ?f 0 0" using n by (auto simp: run_inv_def)
  note spec = find_run_spec [OF this len(2) order_refl]
  show ?thesis
  proof (cases "find_run ?al n [?f..<total_page_count a] 0 0")
    case None
    then show ?thesis using spec len n
      by (auto simp: allocate_contiguous_def require_page_count_def op_simps)
  next
    case (Some st)
    then have st: "?f \<le> st" "free_run ?al st n" "\<forall>s. ?f \<le> s \<and> free_run ?al s n \<longrightarrow> st \<le> s"
      using spec len by auto
    then show ?thesis using Some n free_run_count [OF inv st(2)]
      by (auto simp: allocate_contiguous_def require_page_count_def op_simps)
  qed
qed

lemma reserve_range_run:
  assumes "allocator_inv a"
  shows "reserve_range addr n a =
    (if \<not> is_page_aligned addr then (Inl Invalid_argument, a)
     else if \<not> page_number addr < total_page_count a then (Inl Out_of_range, a)
     else if n = 0 then (Inl Invalid_argument, a)
     else if \<not> page_number addr + n \<le> total_page_count a then (Inl Out_of_range, a)
     else (Inr (), fold mark_allocated [page_number addr..<page_number addr + n] a))"
proof -
  have "(\<lambda>i a. if \<not> is_page_index_allocated a i then mark_allocated i a else a) = mark_allocated"
    by (auto simp: mark_allocated_def fun_eq_iff)
  then show ?thesis
    by (auto simp: reserve_range_def require_owned_page_def require_page_count_def page_index_def op_simps)
qed

lemma free_page_run:
  "free_page addr a =
    (if \<not> is_page_aligned addr then (Inl Invalid_argument, a)
     else if \<not> page_number addr < total_page_count a then (Inl Out_of_range, a)
     else if page_number addr < first_allocatable_page a then (Inl Logic_error, a)
     else if \<not> allocated_pages a ! page_number addr then (Inl Logic_error, a)
     else (Inr (), mark_free (page_number addr) a))"
  by (auto simp: free_page_def require_allocatable_page_def require_owned_page_def page_index_def
      is_page_index_allocated_def op_simps)

lemma allocator_inv_allocate:
  assumes "allocator_inv a" and "allocate_contiguous n a = (r, a')"
  shows "allocator_inv a' \<and> total_page_count a' = total_page_count a \<and>
    first_allocatable_page a' = first_allocatable_page a"
proof (cases "n = 0")
  case True
  then show ?thesis using assms by (auto simp: allocate_contiguous_def require_page_count_def op_simps)
next
  case False
  then have n: "0 < n" by simp
  from allocate_contiguous_run [OF assms(1) n] assms(2) consider
      st where "free_run (allocated_pages a) st n" "a' = fold mark_allocated [st..<st + n] a"
    | "a' = a" by auto
  then show ?thesis
  proof cases
    case 1
    then have "set [st..<st + n] \<subseteq> {..<total_page_count a}"
      using assms(1) by (auto simp: free_run_used)
    from fold_mark_allocated [OF assms(1) this] 1 show ?thesis by simp
  next
    case 2
    then show ?thesis using assms(1) by simp
  qed
qed

lemma allocator_inv_reserve:
  assumes "allocator_inv a" and "reserve_range addr n a = (r, a')"
  shows "allocator_inv a'"
proof -
  have "allocator_inv (fold mark_allocated [page_number addr..<page_number addr + n] a)"
    if "page_number addr + n \<le> total_page_count a"
    by (rule conjunct1 [OF fold_mark_allocated [OF assms(1)]]) (use that in auto)
  then show ?thesis using assms by (auto simp: reserve_range_run split: if_splits)
qed

lemma allocator_inv_free:
  assumes "allocator_inv a" and "free_page addr a = (r, a')"
  shows "allocator_inv a'"
  using assms mark_free_facts(1) [OF assms(1), of "page_number addr"]
  by (auto simp: free_page_run split: if_splits)

lemma allocator_inv_new:
  assumes "PhysicalPageAllocator t f = Inr a" and "t \<le> 2 ^ 52"
  shows "allocator_inv a \<and> used_pages a = {..<f} \<and> free_page_count a = t - f \<and>
    total_page_count a = t \<and> first_allocatable_page a = f"
proof -
  have nth: "fold (\<lambda>i al. al[i := False]) is al ! k = (if k \<in> set is then False else al ! k) \<and>
      length (fold (\<lambda>i al. al[i := False]) is al) = length al"
    if "set is \<subseteq> {..<length al}" for "is" k and al :: "bool list"
    using that by (induction "is" arbitrary: al) auto
  have f: "0 < t" "f \<le> t" using assms by (auto simp: PhysicalPageAllocator_def Let_def split: if_splits)
  define al where "al = fold (\<lambda>i al. al[i := False]) [f..<t] (replicate t True)"
  have a: "a = \<lparr>total_page_count = t, first_allocatable_page = f, free_page_count = t - f, allocated_pages = al\<rparr>"
    using assms f by (auto simp: PhysicalPageAllocator_def al_def Let_def split: if_splits)
  have al: "length al = t" "k < t \<Longrightarrow> al ! k = (k < f)" for k
    using nth [of "[f..<t]" "replicate t True" k] f by (auto simp: al_def ivl_subset lessThan_atLeast0)
  have "{i. i < t \<and> \<not> al ! i} = {f..<t}" using al(2) by auto
  then have "length (filter Not al) = t - f" by (simp add: length_filter_conv_card al(1))
  then show ?thesis using al f assms(2) by (auto simp: a allocator_inv_def used_pages_def)
qed

section \<open>The allocator as a source of frames\<close>

locale frame_source =
  fixes ok :: "'s \<Rightarrow> bool"
    and used :: "'s \<Rightarrow> 'p set"
    and alloc :: "('s, 'a) op"
    and release :: "'a \<Rightarrow> ('s, unit) op"
    and pg :: "'a \<Rightarrow> 'p"
  assumes alloc_fresh: "ok s \<Longrightarrow> alloc s = (Inr a, s') \<Longrightarrow>
      ok s' \<and> pg a \<notin> used s \<and> used s' = insert (pg a) (used s)"
    and alloc_error: "ok s \<Longrightarrow> alloc s = (Inl e, s') \<Longrightarrow> s' = s"
    and release_used: "ok s \<Longrightarrow> release a s = (Inr u, s') \<Longrightarrow>
      ok s' \<and> pg a \<in> used s \<and> used s' = used s - {pg a}"
    and release_error: "ok s \<Longrightarrow> release a s = (Inl e, s') \<Longrightarrow> s' = s"
begin

primrec alloc_many :: "nat \<Rightarrow> ('s, 'a list) op" where
  "alloc_many 0 = ret []"
| "alloc_many (Suc n) = bnd alloc (\<lambda>a. bnd (alloc_many n) (\<lambda>as. ret (a # as)))"

lemma alloc_many_fresh:
  assumes "ok s" and "alloc_many n s = (Inr as, s')"
  shows "ok s' \<and> length as = n \<and> distinct (map pg as) \<and> set (map pg as) \<inter> used s = {} \<and>
    used s' = set (map pg as) \<union> used s"
  using assms
proof (induction n arbitrary: s "as")
  case 0
  then show ?case by (auto simp: ret_run)
next
  case (Suc n)
  from Suc.prems(2) obtain a s1 as1 where a: "alloc s = (Inr a, s1)"
    and rest: "alloc_many n s1 = (Inr as1, s')" and as1: "as = a # as1"
    by (auto simp: op_simps split: prod.splits sum.splits)
  note f = alloc_fresh [OF Suc.prems(1) a]
  from Suc.IH [OF _ rest] f show ?case by (auto simp: as1)
qed

lemma alloc_release:
  assumes "ok s" and "alloc s = (Inr a, s1)" and "release a s1 = (Inr u, s2)"
  shows "used s2 = used s"
  using alloc_fresh [OF assms(1,2)] release_used [OF _ assms(3)] by auto

end

interpretation frames: frame_source allocator_inv used_pages allocate_page free_page page_number
proof
  fix s a s'
  assume inv: "allocator_inv s" and run: "allocate_page s = (Inr a, s')"
  obtain st where st: "free_run (allocated_pages s) st 1" "a = of_nat st * MM_PAGE_SIZE_BYTES"
    "s' = mark_allocated st s"
    using allocate_contiguous_run [OF inv, of 1] run by (auto simp: allocate_page_def)
  have "st < total_page_count s" "st \<notin> used_pages s" using inv st(1) by (auto simp: free_run_used)
  moreover from this have "st < 2 ^ 52" using inv by (simp add: allocator_inv_def)
  ultimately show "allocator_inv s' \<and> page_number a \<notin> used_pages s \<and>
      used_pages s' = insert (page_number a) (used_pages s)"
    using mark_allocated_facts [OF inv, of st] st page_address_facts(2) by simp
next
  fix s e s'
  assume "allocator_inv s" and "allocate_page s = (Inl e, s')"
  then show "s' = s" using allocate_contiguous_run [of s 1] by (auto simp: allocate_page_def)
next
  fix s a u s'
  assume inv: "allocator_inv s" and run: "free_page a s = (Inr u, s')"
  then have "page_number a < total_page_count s" "first_allocatable_page s \<le> page_number a"
    "allocated_pages s ! page_number a" "s' = mark_free (page_number a) s"
    by (auto simp: free_page_run split: if_splits)
  then show "allocator_inv s' \<and> page_number a \<in> used_pages s \<and> used_pages s' = used_pages s - {page_number a}"
    using mark_free_facts [OF inv] used_pages_iff [OF inv] by simp
next
  fix s a e s'
  assume "allocator_inv s" and "free_page a s = (Inl e, s')"
  then show "s' = s" by (auto simp: free_page_run split: if_splits)
qed

section \<open>Properties\<close>

text \<open>
  C7: First fit. For a positive count the allocator returns the address of the lowest run of free
  allocatable pages that is long enough and marks exactly those pages; it throws
  \<^verbatim>\<open>std::bad_alloc\<close>, leaving its state alone, exactly if there is no such run, fragmentation
  included; and a count of zero is an invalid argument.
\<close>

theorem allocate_contiguous_first_fit:
  assumes "allocator_inv a"
  shows "(if n = 0 then allocate_contiguous n a = (Inl Invalid_argument, a)
    else if \<exists>s \<ge> first_allocatable_page a. free_run (allocated_pages a) s n
    then let st = (LEAST s. first_allocatable_page a \<le> s \<and> free_run (allocated_pages a) s n);
             a' = snd (allocate_contiguous n a)
         in fst (allocate_contiguous n a) = Inr (of_nat st * MM_PAGE_SIZE_BYTES) \<and> allocator_inv a' \<and>
            used_pages a' = {st..<st + n} \<union> used_pages a \<and> {st..<st + n} \<inter> used_pages a = {} \<and>
            free_page_count a' = free_page_count a - n
    else allocate_contiguous n a = (Inl Bad_alloc, a))"
proof (cases "0 < n \<and> (\<exists>s \<ge> first_allocatable_page a. free_run (allocated_pages a) s n)")
  case False
  then show ?thesis
    using allocate_contiguous_run [OF assms, of n]
    by (auto simp: allocate_contiguous_def require_page_count_def op_simps)
next
  case True
  then obtain st where st: "first_allocatable_page a \<le> st" "free_run (allocated_pages a) st n"
    "\<And>s. first_allocatable_page a \<le> s \<and> free_run (allocated_pages a) s n \<Longrightarrow> st \<le> s"
    and run: "allocate_contiguous n a = (Inr (of_nat st * MM_PAGE_SIZE_BYTES), fold mark_allocated [st..<st + n] a)"
    using allocate_contiguous_run [OF assms, of n] by auto
  have least: "(LEAST s. first_allocatable_page a \<le> s \<and> free_run (allocated_pages a) s n) = st"
    using st by (intro Least_equality) auto
  have "set [st..<st + n] \<subseteq> {..<total_page_count a}" using st(2) assms by (auto simp: free_run_used)
  note fm = fold_mark_allocated [OF assms this]
  have disj: "{st..<st + n} \<inter> used_pages a = {}" using st(2) assms by (simp add: free_run_used)
  then have "card ({st..<st + n} \<union> used_pages a) = n + card (used_pages a)"
    by (subst card_Un_disjoint) (auto simp: used_pages_def)
  then have "free_page_count (fold mark_allocated [st..<st + n] a) = free_page_count a - n"
    using free_page_count_used [OF assms] free_page_count_used [OF conjunct1 [OF fm]] fm by simp
  then show ?thesis using True least run fm disj by (auto simp: Let_def)
qed

definition sample_allocator :: physical_page_allocator where
  "sample_allocator = \<lparr>total_page_count = 4, first_allocatable_page = 1, free_page_count = 2,
     allocated_pages = [True, True, False, False]\<rparr>"

lemma sample_allocator_inv: "allocator_inv sample_allocator"
  by (auto simp: sample_allocator_def allocator_inv_def)

theorem allocate_contiguous_first_fit_witness:
  "fst (allocate_contiguous 2 sample_allocator) = Inr 0x2000"
proof -
  have run: "free_run (allocated_pages sample_allocator) 2 2"
    by (auto simp: free_run_def sample_allocator_def nth_Cons' numeral_2_eq_2)
  have "(LEAST s. first_allocatable_page sample_allocator \<le> s \<and> free_run (allocated_pages sample_allocator) s 2) = 2"
  proof (rule Least_equality)
    show "first_allocatable_page sample_allocator \<le> 2 \<and> free_run (allocated_pages sample_allocator) 2 2"
      using run by (simp add: sample_allocator_def)
    fix s assume "first_allocatable_page sample_allocator \<le> s \<and> free_run (allocated_pages sample_allocator) s 2"
    then show "2 \<le> s" by (cases "s = 1") (auto simp: free_run_def sample_allocator_def)
  qed
  moreover have "\<exists>s \<ge> first_allocatable_page sample_allocator. free_run (allocated_pages sample_allocator) s 2"
    using run by (intro exI [of _ 2]) (simp add: sample_allocator_def)
  ultimately show ?thesis
    using allocate_contiguous_first_fit [OF sample_allocator_inv, of 2]
    by (simp add: Let_def MM_PAGE_SIZE_BYTES_def)
qed

text \<open>
  \<open>free_page\<close> on every branch: a misaligned address, an address outside memory, a page below the
  allocatable region and a page that is not allocated are refused with the exception of the
  source and an unchanged state; any other page becomes free, and only that page.
\<close>

lemma free_page_branches:
  assumes "allocator_inv a"
  shows "(\<not> is_page_aligned p \<longrightarrow> free_page p a = (Inl Invalid_argument, a)) \<and>
    (is_page_aligned p \<and> total_page_count a \<le> page_number p \<longrightarrow> free_page p a = (Inl Out_of_range, a)) \<and>
    (is_page_aligned p \<and> page_number p < total_page_count a \<and>
       (page_number p < first_allocatable_page a \<or> page_number p \<notin> used_pages a) \<longrightarrow>
       free_page p a = (Inl Logic_error, a)) \<and>
    (is_page_aligned p \<and> page_number p \<in> used_pages a \<and> first_allocatable_page a \<le> page_number p \<longrightarrow>
       (\<exists>a'. free_page p a = (Inr (), a') \<and> allocator_inv a' \<and> used_pages a' = used_pages a - {page_number p} \<and>
          free_page_count a' = free_page_count a + 1))"
proof -
  have iff: "page_number p \<in> used_pages a \<longleftrightarrow>
      page_number p < total_page_count a \<and> allocated_pages a ! page_number p"
    by (rule used_pages_iff [OF assms])
  have 1: "\<not> is_page_aligned p \<Longrightarrow> free_page p a = (Inl Invalid_argument, a)"
    and 2: "is_page_aligned p \<Longrightarrow> total_page_count a \<le> page_number p \<Longrightarrow> free_page p a = (Inl Out_of_range, a)"
    and 3: "is_page_aligned p \<Longrightarrow> page_number p < total_page_count a \<Longrightarrow>
      page_number p < first_allocatable_page a \<or> page_number p \<notin> used_pages a \<Longrightarrow>
      free_page p a = (Inl Logic_error, a)"
    using iff by (auto simp: free_page_run)
  have 4: "\<exists>a'. free_page p a = (Inr (), a') \<and> allocator_inv a' \<and>
      used_pages a' = used_pages a - {page_number p} \<and> free_page_count a' = free_page_count a + 1"
    if "is_page_aligned p" "page_number p \<in> used_pages a" "first_allocatable_page a \<le> page_number p"
  proof -
    have "page_number p < total_page_count a" and al: "allocated_pages a ! page_number p" using that iff by auto
    note mf = mark_free_facts [OF assms this(1) that(3)]
    have "free_page_count (mark_free (page_number p) a) = free_page_count a + 1"
      using al by (simp add: mark_free_def is_page_index_allocated_def)
    moreover have "free_page p a = (Inr (), mark_free (page_number p) a)"
      using that iff al by (simp add: free_page_run)
    ultimately show ?thesis using mf by blast
  qed
  from 1 2 3 4 show ?thesis by blast
qed

lemma free_page_branches_witness:
  "\<exists>a'. free_page 0x1000 sample_allocator = (Inr (), a') \<and> free_page_count a' = 3"
  using free_page_branches [OF sample_allocator_inv, of "0x1000"]
  by (auto simp: is_page_aligned_iff page_number_eq used_pages_def sample_allocator_def)

text \<open>
  Every operation of the allocator keeps its accounting exact: the free count is the number of
  free pages and the pages below the first allocatable one stay allocated, after the constructor
  and after any allocation, reservation or release, whether it returns or throws.
\<close>

lemma allocator_invariant:
  assumes "allocator_inv a"
  shows "allocator_inv (snd (allocate_contiguous n a)) \<and> allocator_inv (snd (allocate_page a)) \<and>
    allocator_inv (snd (reserve_range p n a)) \<and> allocator_inv (snd (free_page p a)) \<and>
    (\<forall>t f a0. t \<le> 2 ^ 52 \<longrightarrow> PhysicalPageAllocator t f = Inr a0 \<longrightarrow>
       allocator_inv a0 \<and> used_pages a0 = {..<f})"
  using assms allocator_inv_allocate [OF assms] allocator_inv_reserve [OF assms] allocator_inv_free [OF assms]
    allocator_inv_new
  by (metis allocate_page_def prod.collapse)

lemma allocator_invariant_witness: "allocator_inv (snd (allocate_page sample_allocator))"
  using allocator_invariant [OF sample_allocator_inv, of 1 0] by blast

text \<open>
  Frames handed out by successive calls of \<open>allocate_page\<close> are pairwise different and were all
  free before, and a page freed right after its allocation restores the set of used pages.
\<close>

lemma allocate_page_distinct:
  assumes "allocator_inv a"
  shows "(\<forall>n as a'. frames.alloc_many n a = (Inr as, a') \<longrightarrow>
      distinct (map page_number as) \<and> set (map page_number as) \<inter> used_pages a = {}) \<and>
    (\<forall>p a1 a2. allocate_page a = (Inr p, a1) \<longrightarrow> free_page p a1 = (Inr (), a2) \<longrightarrow>
      used_pages a2 = used_pages a)"
  using frames.alloc_many_fresh [OF assms] frames.alloc_release [OF assms] by blast

lemma allocate_page_distinct_witness:
  "\<exists>as a'. frames.alloc_many 2 sample_allocator = (Inr as, a') \<and> distinct (map page_number as)"
proof -
  have "\<exists>a1. allocate_page sample_allocator = (Inr 0x2000, a1) \<and> (\<exists>a2. allocate_page a1 = (Inr 0x3000, a2))"
    by (simp add: op_simps allocate_page_def allocate_contiguous_def require_page_count_def
        sample_allocator_def mark_allocated_def is_page_index_allocated_def upt_conv_Cons MM_PAGE_SIZE_BYTES_def)
  then obtain a1 a2 where "allocate_page sample_allocator = (Inr 0x2000, a1)" "allocate_page a1 = (Inr 0x3000, a2)"
    by blast
  then obtain "as" a' where run: "frames.alloc_many 2 sample_allocator = (Inr as, a')"
    by (simp add: numeral_2_eq_2 bnd_run ret_run)
  then have "distinct (map page_number as)"
    using allocate_page_distinct [OF sample_allocator_inv] by blast
  with run show ?thesis by blast
qed

end
