(* ===== verification/AddrSpace.thy ===== *)
theory AddrSpace
  imports PageBuild CpuState PageAlloc
begin

unbundle bit_operations_syntax

text \<open>
  Address layout and address spaces: \<^verbatim>\<open>src/os/mm/address_layout.cpp\<close> and
  \<^verbatim>\<open>src/os/mm/address_space.cpp\<close>. An address space is the physical location of its tables; each
  mapping builds a \<open>page_table_builder\<close> on them, runs it and takes over the next free table
  address, but only if the builder returned. Operations run on the pair of the space and the
  physical memory.
\<close>

section \<open>Address layout\<close>

definition ADDRESS_LAYOUT_USER_LOW_BASE :: address64 where "ADDRESS_LAYOUT_USER_LOW_BASE = 0x1000"
definition ADDRESS_LAYOUT_USER_STACK_TOP :: address64 where "ADDRESS_LAYOUT_USER_STACK_TOP = 0x0000700000000000"
definition ADDRESS_LAYOUT_KERNEL_HIGH_BASE :: address64 where "ADDRESS_LAYOUT_KERNEL_HIGH_BASE = 0xFFFF800000000000"

text \<open>The last address of a range, if the range is not empty and does not wrap around.\<close>

definition range_end_is_valid :: "address64 \<Rightarrow> address64 \<Rightarrow> address64 option" where
  "range_end_is_valid start_address byte_count =
     (if byte_count = 0 then None
      else if start_address > - 1 - (byte_count - 1) then None
      else Some (start_address + byte_count - 1))"

definition is_user_address :: "address64 \<Rightarrow> bool" where
  "is_user_address a \<longleftrightarrow> a \<ge> ADDRESS_LAYOUT_USER_LOW_BASE \<and> a < ADDRESS_LAYOUT_USER_STACK_TOP \<and>
     is_canonical_linear_address a"

definition is_user_range :: "address64 \<Rightarrow> address64 \<Rightarrow> bool" where
  "is_user_range start_address byte_count =
     (case range_end_is_valid start_address byte_count of None \<Rightarrow> False
      | Some last_address \<Rightarrow> is_user_address start_address \<and> is_user_address last_address)"

definition is_kernel_address :: "address64 \<Rightarrow> bool" where
  "is_kernel_address a \<longleftrightarrow> a \<ge> ADDRESS_LAYOUT_KERNEL_HIGH_BASE \<and> is_canonical_linear_address a"

definition is_kernel_range :: "address64 \<Rightarrow> address64 \<Rightarrow> bool" where
  "is_kernel_range start_address byte_count =
     (case range_end_is_valid start_address byte_count of None \<Rightarrow> False
      | Some last_address \<Rightarrow> is_kernel_address start_address \<and> is_kernel_address last_address)"

definition user_stack_bottom :: "address64 \<Rightarrow> exn + address64" where
  "user_stack_bottom stack_size_bytes =
     (if stack_size_bytes = 0 then Inl Invalid_argument
      else if \<not> is_page_aligned stack_size_bytes \<or>
              stack_size_bytes > ADDRESS_LAYOUT_USER_STACK_TOP - ADDRESS_LAYOUT_USER_LOW_BASE
      then Inl Out_of_range
      else Inr (ADDRESS_LAYOUT_USER_STACK_TOP - stack_size_bytes))"

section \<open>The address space\<close>

record address_space =
  as_root :: address64
  as_initial_next_free :: address64
  as_next_free :: address64
  as_arena_end :: address64

type_synonym space_state = "address_space \<times> phys_mem"

definition has_available_table_pages :: "address_space \<Rightarrow> bool" where
  "has_available_table_pages a \<longleftrightarrow> as_next_free a < as_arena_end a"

definition require_page_aligned :: "address64 \<Rightarrow> ('s, unit) op" where
  "require_page_aligned a = require (is_page_aligned a) Invalid_argument"

definition require_page_multiple :: "address64 \<Rightarrow> ('s, unit) op" where
  "require_page_multiple byte_count =
     sq (require (byte_count \<noteq> 0) Invalid_argument) (require (is_page_aligned byte_count) Invalid_argument)"

definition range_exceeds_address_space :: "address64 \<Rightarrow> address64 \<Rightarrow> bool" where
  "range_exceeds_address_space start_address byte_count \<longleftrightarrow> start_address > - 1 - (byte_count - 1)"

text \<open>
  A local builder over the shared memory: its writes stay in the memory on every path, the builder
  itself is returned only if its operation returns.
\<close>

definition run_builder ::
  "(page_table_builder, 'a) op \<Rightarrow> (space_state, page_table_builder) op" where
  "run_builder f = (\<lambda>(a, m).
     case PageTableBuilder m (as_root a) (as_next_free a) (as_arena_end a) of
       Inl e \<Rightarrow> (Inl e, (a, m))
     | Inr b \<Rightarrow> (case f b of (Inl e, b') \<Rightarrow> (Inl e, (a, pb_memory b'))
                          | (Inr _, b') \<Rightarrow> (Inr b', (a, pb_memory b'))))"

definition as_clear_root_table :: "(space_state, unit) op" where
  "as_clear_root_table =
     sq (modify (\<lambda>(a, m). (a\<lparr>as_next_free := as_initial_next_free a\<rparr>, m)))
    (sq (run_builder clear_root_table) (ret ()))"

definition AddressSpace ::
  "address64 \<Rightarrow> address64 \<Rightarrow> address64 \<Rightarrow> phys_mem \<Rightarrow> (exn + unit) \<times> space_state" where
  "AddressSpace root next_free arena_end memory =
     sq (require_page_aligned root)
    (sq (require_page_aligned next_free)
    (sq (require_page_aligned arena_end)
    (sq (require (\<not> (root \<ge> arena_end \<or> next_free > arena_end \<or> next_free < root)) Out_of_range)
    (sq (\<lambda>(a, m). require (contains_range m root (unat MM_PAGE_SIZE_BYTES)) Out_of_range (a, m))
        as_clear_root_table))))
     (\<lparr>as_root = root, as_initial_next_free = next_free, as_next_free = next_free,
       as_arena_end = arena_end\<rparr>, memory)"

definition map_page :: "address64 \<Rightarrow> address64 \<Rightarrow> page_permissions \<Rightarrow> (space_state, unit) op" where
  "map_page virtual_address physical_address perms =
     sq (require_page_aligned virtual_address)
    (sq (require_page_aligned physical_address)
    (bnd (run_builder (map_4k virtual_address physical_address perms)) (\<lambda>builder.
     modify (\<lambda>(a, m). (a\<lparr>as_next_free := next_free_table_address builder\<rparr>, m)))))"

definition map_range ::
  "address64 \<Rightarrow> address64 \<Rightarrow> address64 \<Rightarrow> page_permissions \<Rightarrow> (space_state, unit) op" where
  "map_range virtual_address physical_address byte_count perms =
     sq (require_page_aligned virtual_address)
    (sq (require_page_aligned physical_address)
    (sq (require_page_multiple byte_count)
    (sq (require (\<not> range_exceeds_address_space virtual_address byte_count) Overflow_error)
    (sq (require (\<not> range_exceeds_address_space physical_address byte_count) Overflow_error)
    (bnd (lift_sum (page_count_for_bytes byte_count)) (\<lambda>page_count.
     for_each (\<lambda>page_index.
         let page_offset = of_nat page_index * MM_PAGE_SIZE_BYTES in
         map_page (virtual_address + page_offset) (physical_address + page_offset) perms)
       [0..<page_count]))))))"

definition identity_map_range ::
  "address64 \<Rightarrow> address64 \<Rightarrow> page_permissions \<Rightarrow> (space_state, unit) op" where
  "identity_map_range physical_address byte_count perms =
     map_range physical_address physical_address byte_count perms"

definition activate :: "address_space \<Rightarrow> (paging_state, unit) op" where
  "activate a = sq (load_cr3 (as_root a)) (modify paging_enable)"

definition activate_context ::
  "address_space \<Rightarrow> process_context_id \<Rightarrow> cr3_tlb_flush_mode \<Rightarrow> (paging_state, unit) op" where
  "activate_context a context_id flush_mode =
     sq (modify (\<lambda>p. if context_id \<noteq> kernel_context then set_process_context_id_enabled True p else p))
    (sq (load_cr3_context (as_root a) context_id flush_mode)
        (modify paging_enable))"

definition as_page_translation ::
  "address64 \<Rightarrow> memory_access_kind \<Rightarrow> privilege_level \<Rightarrow> (space_state, page_translation) op" where
  "as_page_translation virtual_address k pl = (\<lambda>(a, m).
     case load_cr3 (as_root a) initial_paging_state of
       (Inl e, _) \<Rightarrow> (Inl e, (a, m))
     | (Inr _, ps) \<Rightarrow>
         (case walker_translate (paging_enable ps) virtual_address k pl m of (r, m') \<Rightarrow> (r, (a, m'))))"

definition as_bus :: "(phys_mem, 'a) op \<Rightarrow> (space_state, 'a) op" where
  "as_bus f = (\<lambda>(a, m). case f m of (r, m') \<Rightarrow> (r, (a, m')))"

definition set_page_permissions :: "address64 \<Rightarrow> page_permissions \<Rightarrow> (space_state, unit) op" where
  "set_page_permissions virtual_address perms =
     sq (require_page_aligned virtual_address)
    (bnd (as_page_translation virtual_address READ RING0) (\<lambda>translation.
     sq (require (page_size_bytes translation = PAGE_SIZE_4K_BYTES) Logic_error)
    (bnd (as_bus (mem_read (leaf_entry_address translation) QWORD)) (\<lambda>entry.
     as_bus (mem_write (leaf_entry_address translation) QWORD (with_permissions entry perms))))))"

section \<open>Invariant\<close>

definition as_builder :: "space_state \<Rightarrow> page_table_builder" where
  "as_builder s = \<lparr>pb_memory = snd s, root_table_address = as_root (fst s),
     next_free_table_address = as_next_free (fst s), table_arena_end_address = as_arena_end (fst s)\<rparr>"

definition as_walk :: "bool \<Rightarrow> address64 \<Rightarrow> space_state \<Rightarrow> walk_outcome" where
  "as_walk nxe la s = walk_of nxe la (as_builder s)"

definition arena_ok :: "address64 \<Rightarrow> address64 \<Rightarrow> page_table_builder \<Rightarrow> bool" where
  "arena_ok r e b \<longleftrightarrow> root_table_address b = r \<and> table_arena_end_address b = e \<and>
     next_free_table_address b \<le> e"

definition as_ok :: "space_state \<Rightarrow> bool" where
  "as_ok s \<longleftrightarrow> builder_ok (as_builder s) \<and> aligned4k (as_arena_end (fst s)) \<and> as_arena_end (fst s) \<noteq> 0 \<and>
     as_next_free (fst s) \<le> as_arena_end (fst s)"

lemma is_page_aligned_4k: "is_page_aligned a \<longleftrightarrow> aligned4k a"
  by (simp add: is_page_aligned_iff aligned4k_def)

lemma builder_ok_aligned:
  assumes "builder_ok b"
  shows "aligned4k (root_table_address b)" "aligned4k (next_free_table_address b)"
    "length (pb_memory b) \<le> 2 ^ 52"
proof -
  obtain T where T: "tables_inv T b" using assms by (auto simp: builder_ok_def)
  then have root: "T (root_table_address b) = Some []" by (simp add: tables_inv_def)
  show "aligned4k (root_table_address b)" by (rule tables_invD(1) [OF T root])
  show "aligned4k (next_free_table_address b)" "length (pb_memory b) \<le> 2 ^ 52"
    using T by (simp_all add: tables_inv_def)
qed

lemma as_builder_new:
  assumes "as_ok (a, m)"
  shows "PageTableBuilder m (as_root a) (as_next_free a) (as_arena_end a) = Inr (as_builder (a, m))"
proof -
  have "aligned4k (as_root a)" "aligned4k (as_next_free a)" "aligned4k (as_arena_end a)"
    "\<not> as_next_free a > as_arena_end a"
    using assms builder_ok_aligned(1,2) [of "as_builder (a, m)"] by (simp_all add: as_ok_def as_builder_def not_less)
  then show ?thesis by (simp add: PageTableBuilder_def as_builder_def aligned4k_iff)
qed

lemma keeps_pb_bus:
  assumes "\<And>b m. P b \<Longrightarrow> P (b\<lparr>pb_memory := m\<rparr>)"
  shows "keeps P (pb_bus f)"
  using assms by (auto simp: keeps_def pb_bus_def focus_run split: prod.splits)

lemma arena_ok_mem: "arena_ok r e b \<Longrightarrow> arena_ok r e (b\<lparr>pb_memory := m\<rparr>)"
  by (simp add: arena_ok_def)

lemma keeps_arena_bus [intro]: "keeps (arena_ok r e) (pb_bus f)"
  by (rule keeps_pb_bus) (rule arena_ok_mem)

lemma keeps_arena_allocate:
  assumes "aligned4k e" and "e \<noteq> 0"
  shows "keeps (arena_ok r e) allocate_table"
proof (rule keepsI)
  fix b assume ok: "arena_ok r e b"
  have p: "unat PAGE_SIZE_4K_BYTES = 4096" by (simp add: PAGE_SIZE_4K_BYTES_def)
  obtain q where q: "unat e = 4096 * q" using assms(1) by (auto simp: aligned4k_def mod_eq_0_iff_dvd elim: dvdE)
  have "unat e \<noteq> 0" using assms(2) by (simp add: unat_eq_0)
  then have "PAGE_SIZE_4K_BYTES \<le> e" using q by (cases q) (simp_all add: word_le_nat_alt p)
  then have sub: "unat (e - PAGE_SIZE_4K_BYTES) = unat e - 4096" "4096 \<le> unat e"
    by (simp_all add: unat_sub p word_le_nat_alt)
  have step: "nf + PAGE_SIZE_4K_BYTES \<le> e" if "nf \<le> e - PAGE_SIZE_4K_BYTES" for nf
  proof -
    have "unat nf + 4096 \<le> unat e" using that sub by (simp add: word_le_nat_alt)
    moreover from this have "unat (nf + PAGE_SIZE_4K_BYTES) = unat nf + 4096"
      using unat_less_64 [of e] p by (intro trans [OF unat_add_lem [THEN iffD1]]) simp_all
    ultimately show ?thesis by (simp add: word_le_nat_alt)
  qed
  have clear: "keeps (arena_ok r e) (clear_table t)" for t
    unfolding clear_table_def by (intro keeps_intros keeps_arena_bus)
  let ?nf = "next_free_table_address b"
  have ae: "table_arena_end_address b = e" using ok by (simp add: arena_ok_def)
  show "arena_ok r e (snd (allocate_table b))"
  proof (cases "contains_range (pb_memory b) ?nf (unat PAGE_SIZE_4K_BYTES) \<and> \<not> ?nf > e - PAGE_SIZE_4K_BYTES")
    case False
    then show ?thesis using ok assms(2) by (auto simp: allocate_table_def op_simps Let_def ae)
  next
    case True
    define b1 where "b1 = next_free_table_address_update (\<lambda>a. a + PAGE_SIZE_4K_BYTES) b"
    have b1: "arena_ok r e b1" using ok step True by (simp add: b1_def arena_ok_def not_less)
    obtain rc b2 where rc: "clear_table ?nf b1 = (rc, b2)" by fastforce
    have "snd (allocate_table b) = b2"
      using True rc by (cases rc) (simp_all add: allocate_table_def op_simps Let_def ae b1_def [symmetric])
    then show ?thesis using keepsD [OF clear b1 rc] by simp
  qed
qed

lemma keeps_arena_map_4k:
  assumes "aligned4k e" and "e \<noteq> 0"
  shows "keeps (arena_ok r e) (map_4k v p perms)"
proof -
  have "keeps (arena_ok r e) (ensure_child_table t lv i)" for t lv i
    unfolding ensure_child_table_def Let_def
    by (intro keeps_intros keeps_arena_bus keeps_arena_allocate [OF assms])
  moreover have "keeps (arena_ok r e) (write_leaf_entry t lv i x)" for t lv i x
    unfolding write_leaf_entry_def write_entry_def Let_def
    by (intro keeps_intros keeps_arena_bus)
  ultimately show ?thesis
    unfolding map_4k_def require_aligned_address_def by (intro keeps_intros)
qed

lemma as_walk_update [simp]: "as_walk nxe la (a\<lparr>as_next_free := nf\<rparr>, m) = as_walk nxe la (a, m)"
  by (simp add: as_walk_def as_builder_def walk_of_def)

text \<open>The memory outside the table arena is not touched by operations on the tables.\<close>

definition space_frame :: "space_state \<Rightarrow> space_state \<Rightarrow> bool" where
  "space_frame s s' \<longleftrightarrow> length (snd s') = length (snd s) \<and> as_root (fst s') = as_root (fst s) \<and>
     as_arena_end (fst s') = as_arena_end (fst s) \<and>
     (\<forall>x. x < unat (as_root (fst s)) \<or> unat (as_arena_end (fst s)) \<le> x \<longrightarrow> snd s' ! x = snd s ! x)"

lemma space_frame_refl [simp]: "space_frame s s"
  by (simp add: space_frame_def)

lemma space_frame_trans [trans]: "space_frame s t \<Longrightarrow> space_frame t u \<Longrightarrow> space_frame s u"
  by (simp add: space_frame_def)

lemma tables_frame_space:
  assumes "tables_frame (as_builder (a, m)) b" and "arena_ok (as_root a) (as_arena_end a) b"
    and "as_root a' = as_root a" and "as_arena_end a' = as_arena_end a"
  shows "space_frame (a, m) (a', pb_memory b)"
proof -
  have "unat (next_free_table_address b) \<le> unat (as_arena_end a)"
    using assms(2) by (simp add: arena_ok_def word_le_nat_alt)
  then show ?thesis using assms by (auto simp: space_frame_def tables_frame_def as_builder_def)
qed

text \<open>What a successful \<open>map_page\<close> does; a failing one only promises that no walk has changed.\<close>

lemma map_page_spec:
  assumes ok: "as_ok (a, m)" and v: "is_canonical_linear_address v" and pa: "unat p < 2 ^ 52"
    and run: "map_page v p perms (a, m) = (r, (a', m'))"
  shows "space_frame (a, m) (a', m') \<and> (case r of
      Inl _ \<Rightarrow> a' = a \<and> (\<forall>nxe la. as_walk nxe la (a', m') = as_walk nxe la (a, m))
    | Inr _ \<Rightarrow> as_ok (a', m') \<and>
        page_mapped (as_builder (a, m)) (as_builder (a', m')) PAGE_SIZE_4K_BYTES v p perms)"
proof (cases "is_page_aligned v \<and> is_page_aligned p")
  case False
  then show ?thesis using run by (auto simp: map_page_def require_page_aligned_def op_simps split: if_splits)
next
  case True
  let ?b = "as_builder (a, m)"
  obtain r1 b1 where b1: "map_4k v p perms ?b = (r1, b1)" by fastforce
  have bok: "builder_ok ?b" and e: "aligned4k (as_arena_end a)" "as_arena_end a \<noteq> 0"
    and ar: "arena_ok (as_root a) (as_arena_end a) ?b"
    using ok by (simp_all add: as_ok_def arena_ok_def as_builder_def)
  note spec = map_4k_spec [OF bok b1 pa v]
  have ar1: "arena_ok (as_root a) (as_arena_end a) b1"
    by (rule keepsD [OF keeps_arena_map_4k [OF e] ar b1])
  note run' = run [unfolded map_page_def require_page_aligned_def run_builder_def]
  show ?thesis
  proof (cases r1)
    case (Inl x)
    then have res: "r = Inl x" "a' = a" "m' = pb_memory b1"
      using run' True by (simp_all add: op_simps as_builder_new [OF ok] b1)
    have "as_walk nxe la (a, pb_memory b1) = walk_of nxe la b1" for nxe la
      using ar1 by (simp add: as_walk_def walk_of_def as_builder_def arena_ok_def)
    moreover have "space_frame (a, m) (a', m')"
      unfolding res using spec ar1 by (intro tables_frame_space) simp_all
    ultimately show ?thesis using spec Inl res by (simp add: same_walks_def as_walk_def)
  next
    case (Inr u)
    then have res: "r = Inr ()" "a' = a\<lparr>as_next_free := next_free_table_address b1\<rparr>" "m' = pb_memory b1"
      using run' True by (simp_all add: op_simps as_builder_new [OF ok] b1)
    have same: "as_builder (a', m') = b1"
      using ar1 by (simp add: res as_builder_def arena_ok_def)
    have "as_arena_end a' = as_arena_end a" "as_next_free a' = next_free_table_address b1"
      by (simp_all add: res)
    then have "as_ok (a', m')" using spec ar1 e by (simp add: as_ok_def same arena_ok_def)
    moreover have "space_frame (a, m) (a', m')"
      unfolding res using spec ar1 by (intro tables_frame_space) simp_all
    ultimately show ?thesis using spec Inr res(1) by (simp add: same)
  qed
qed

section \<open>Ranges\<close>

definition page_outcome :: "bool \<Rightarrow> address64 \<Rightarrow> address64 \<Rightarrow> page_permissions \<Rightarrow> walk_outcome" where
  "page_outcome nxe v p perms =
     (if nxe \<or> executable perms
      then Mapped \<lparr>virtual_page_base = v, physical_frame_base = p, page_size_bytes = PAGE_SIZE_4K_BYTES,
                   permissions = perms, leaf_entry_address = 0, dirty = False\<rparr>
      else Faults RESERVED_BIT)"

text \<open>Outcomes compared without the location of the leaf entry.\<close>

fun leaf_free :: "walk_outcome \<Rightarrow> walk_outcome" where
  "leaf_free (Mapped t) = Mapped (t\<lparr>leaf_entry_address := 0\<rparr>)"
| "leaf_free w = w"

lemma page_mapped_outcome:
  assumes "page_mapped b b' PAGE_SIZE_4K_BYTES v p perms" and "is_canonical_linear_address la"
  shows "leaf_free (walk_of nxe la b') =
    (if page_base la PAGE_SIZE_4K_BYTES = v then page_outcome nxe v p perms else leaf_free (walk_of nxe la b))"
  using assms by (auto simp: page_mapped_def page_outcome_def)

lemma page_offset_inj:
  assumes "i < 2 ^ 52" and "j < 2 ^ 52"
    and "v + of_nat i * MM_PAGE_SIZE_BYTES = v + of_nat j * MM_PAGE_SIZE_BYTES"
  shows "i = j"
proof -
  have "of_nat i * MM_PAGE_SIZE_BYTES = of_nat j * MM_PAGE_SIZE_BYTES"
    using assms(3) by (rule add_left_imp_eq)
  then have "i * 4096 = j * 4096"
    using unat_page_address [OF assms(1)] unat_page_address [OF assms(2)] by (metis (no_types))
  then show ?thesis by simp
qed

lemma map_pages_loop:
  assumes "as_ok s" and "n \<le> 2 ^ 52"
    and "\<And>i. i < n \<Longrightarrow> is_canonical_linear_address (v + of_nat i * MM_PAGE_SIZE_BYTES) \<and>
      unat (p + of_nat i * MM_PAGE_SIZE_BYTES) < 2 ^ 52"
    and "for_each (\<lambda>i. let off = of_nat i * MM_PAGE_SIZE_BYTES in map_page (v + off) (p + off) perms) [0..<n] s
      = (Inr (), s')"
  shows "as_ok s' \<and> (\<forall>nxe la. is_canonical_linear_address la \<longrightarrow>
    (\<forall>i < n. page_base la PAGE_SIZE_4K_BYTES = v + of_nat i * MM_PAGE_SIZE_BYTES \<longrightarrow>
       leaf_free (as_walk nxe la s') =
         page_outcome nxe (v + of_nat i * MM_PAGE_SIZE_BYTES) (p + of_nat i * MM_PAGE_SIZE_BYTES) perms) \<and>
    ((\<forall>i < n. page_base la PAGE_SIZE_4K_BYTES \<noteq> v + of_nat i * MM_PAGE_SIZE_BYTES) \<longrightarrow>
       leaf_free (as_walk nxe la s') = leaf_free (as_walk nxe la s)))"
  using assms(2-4)
proof (induction n arbitrary: s')
  case 0
  then show ?case using assms(1) by (simp add: ret_run)
next
  case (Suc n)
  let ?f = "\<lambda>i. let off = of_nat i * MM_PAGE_SIZE_BYTES in map_page (v + off) (p + off) perms"
  let ?vn = "v + of_nat n * MM_PAGE_SIZE_BYTES" and ?pn = "p + of_nat n * MM_PAGE_SIZE_BYTES"
  obtain s1 where s1: "for_each ?f [0..<n] s = (Inr (), s1)" and last: "map_page ?vn ?pn perms s1 = (Inr (), s')"
  proof -
    have "sq (for_each ?f [0..<n]) (sq (?f n) (ret ())) s = (Inr (), s')"
      using Suc.prems(3) by (simp add: for_each_append)
    then obtain u s1 where a: "for_each ?f [0..<n] s = (Inr u, s1)" and b: "sq (?f n) (ret ()) s1 = (Inr (), s')"
      by (rule sq_InrE)
    from b obtain w s2 where "?f n s1 = (Inr w, s2)" "ret () s2 = (Inr (), s')" by (rule sq_InrE)
    then have mp: "map_page ?vn ?pn perms s1 = (Inr (), s')" by (simp only: ret_run Let_def) simp
    have "for_each ?f [0..<n] s = (Inr (), s1)" using a by (metis (full_types) unit.exhaust)
    from that [OF this mp] show ?thesis .
  qed
  have IH: "as_ok s1 \<and> (\<forall>nxe la. is_canonical_linear_address la \<longrightarrow>
    (\<forall>i < n. page_base la PAGE_SIZE_4K_BYTES = v + of_nat i * MM_PAGE_SIZE_BYTES \<longrightarrow>
       leaf_free (as_walk nxe la s1) =
         page_outcome nxe (v + of_nat i * MM_PAGE_SIZE_BYTES) (p + of_nat i * MM_PAGE_SIZE_BYTES) perms) \<and>
    ((\<forall>i < n. page_base la PAGE_SIZE_4K_BYTES \<noteq> v + of_nat i * MM_PAGE_SIZE_BYTES) \<longrightarrow>
       leaf_free (as_walk nxe la s1) = leaf_free (as_walk nxe la s)))"
    by (rule Suc.IH) (use Suc.prems(1,2) s1 in auto)
  obtain a1 m1 a' m' where ss: "s1 = (a1, m1)" "s' = (a', m')" by (cases s1, cases s')
  have ok1: "as_ok (a1, m1)" using IH ss by simp
  have sp: "as_ok (a', m')" "page_mapped (as_builder (a1, m1)) (as_builder (a', m')) PAGE_SIZE_4K_BYTES ?vn ?pn perms"
    using map_page_spec [OF ok1 _ _ last [unfolded ss]] Suc.prems(2) [of n] by simp_all
  have step: "leaf_free (as_walk nxe la s') = (if page_base la PAGE_SIZE_4K_BYTES = ?vn
      then page_outcome nxe ?vn ?pn perms else leaf_free (as_walk nxe la s1))"
    if "is_canonical_linear_address la" for nxe la
    using page_mapped_outcome [OF sp(2) that] by (simp add: as_walk_def ss)
  have dist: "v + of_nat i * MM_PAGE_SIZE_BYTES \<noteq> ?vn" if "i < n" for i
    using page_offset_inj [of i n v] that Suc.prems(1) by auto
  show ?case
  proof (intro conjI allI impI)
    show "as_ok s'" using sp(1) ss by simp
    fix nxe la assume la: "is_canonical_linear_address la"
    note IHla = conjunct2 [OF IH, rule_format, OF la]
    {
      fix i assume "i < Suc n" and i: "page_base la PAGE_SIZE_4K_BYTES = v + of_nat i * MM_PAGE_SIZE_BYTES"
      then consider "i = n" | "i < n" by linarith
      then show "leaf_free (as_walk nxe la s') =
          page_outcome nxe (v + of_nat i * MM_PAGE_SIZE_BYTES) (p + of_nat i * MM_PAGE_SIZE_BYTES) perms"
      proof cases
        case 1
        then show ?thesis using step [OF la] i by simp
      next
        case 2
        then show ?thesis using step [OF la] i dist [OF 2] conjunct1 [OF IHla] by simp
      qed
    }
    assume out: "\<forall>i < Suc n. page_base la PAGE_SIZE_4K_BYTES \<noteq> v + of_nat i * MM_PAGE_SIZE_BYTES"
    then have "page_base la PAGE_SIZE_4K_BYTES \<noteq> ?vn" by blast
    then have "leaf_free (as_walk nxe la s') = leaf_free (as_walk nxe la s1)"
      by (simp only: step [OF la] if_False)
    also have "\<dots> = leaf_free (as_walk nxe la s)"
      by (rule mp [OF conjunct2 [OF IHla]]) (use out less_SucI in blast)
    finally show "leaf_free (as_walk nxe la s') = leaf_free (as_walk nxe la s)" .
  qed
qed

section \<open>Changing permissions\<close>

lemma tables_inv_ad_le:
  assumes inv: "tables_inv T b" and up: "tables_up T b" and ad: "ad_le (pb_memory b) m'"
  shows "tables_inv T (b\<lparr>pb_memory := m'\<rparr>)" and "tables_up T (b\<lparr>pb_memory := m'\<rparr>)"
proof -
  have same: "same_mapping (qword_at m' (entry_address_for_index t i)) (qword_at (pb_memory b) (entry_address_for_index t i))"
    if "T t = Some q" "i < 512" for t q i
    by (rule ad_le_qword_at(1) [OF ad aligned8_entry_address [OF tables_invD(1) [OF inv that(1)] that(2)]
        tables_entry_ok [OF inv that]])
  have plain: "plain_table (qword_at m' (entry_address_for_index t i)) =
      plain_table (qword_at (pb_memory b) (entry_address_for_index t i))" if "T t = Some q" "i < 512" for t q i
    using same [OF that] same_mapping_fields [OF same [OF that]]
    by (auto simp: plain_table_def entry_predicates same_mapping_def)
  have len: "length m' = length (pb_memory b)" by (rule ad_le_length [OF ad])
  note f = same_mapping_fields [OF same]
  have down: "T (table_address e) = Some (q @ [i]) \<and> plain_table e"
    if "T t = Some q" "length q < 3" "i < 512" "e = qword_at m' (entry_address_for_index t i)"
      "is_present e" "\<not> is_large_leaf_entry e (WALK_ORDER ! length q)" for t q i e
    using tables_inv_child [OF inv that(1-3) refl] f [OF that(1,3)] plain [OF that(1,3)] that(4-6) by simp
  show "tables_inv T (b\<lparr>pb_memory := m'\<rparr>)"
    using inv down len unfolding tables_inv_def Let_def by simp
  have "i < 512 \<and> (\<exists>t'. T t' = Some q \<and> (let e = qword_at m' (entry_address_for_index t' i) in
      is_present e \<and> \<not> is_large_leaf_entry e (WALK_ORDER ! length q) \<and> table_address e = t))"
    if "T t = Some (q @ [i])" for t q i
  proof -
    obtain t' where i: "i < 512" and t': "T t' = Some q" and
      e: "let e = qword_at (pb_memory b) (entry_address_for_index t' i) in
      is_present e \<and> \<not> is_large_leaf_entry e (WALK_ORDER ! length q) \<and> table_address e = t"
      using up \<open>T t = Some (q @ [i])\<close> unfolding tables_up_def by blast
    then show ?thesis using f [OF t' i] by (auto simp: Let_def intro!: exI [of _ t'])
  qed
  then show "tables_up T (b\<lparr>pb_memory := m'\<rparr>)" using up unfolding tables_up_def by simp
qed

lemma walk_of_ad_le:
  assumes "builder_ok b" and "ad_le (pb_memory b) m'"
  shows "walk_of nxe la (b\<lparr>pb_memory := m'\<rparr>) = walk_of nxe la b"
  using page_walk_ad_le [OF assms(2) builder_ok_aligned(1) [OF assms(1)]] by (simp add: walk_of_def)

text \<open>A walk that ends in a 4 KiB page ends in a page table of the tree.\<close>

lemma walk_4k_leaf:
  assumes inv: "tables_inv T b"
    and "page_walk nxe la (drop d WALK_ORDER) t initial_effective_permissions (pb_memory b) = Mapped tr"
    and "T t = Some (index_path la d)" and "d < 4" and "page_size_bytes tr = PAGE_SIZE_4K_BYTES"
  shows "\<exists>t'. T t' = Some (index_path la 3) \<and>
    leaf_entry_address tr = entry_address_for_index t' (index_at la 3) \<and>
    (let e = qword_at (pb_memory b) (leaf_entry_address tr) in
     is_present e \<and> \<not> reserved_violation nxe e PT \<and>
     tr = \<lparr>virtual_page_base = page_base la PAGE_SIZE_4K_BYTES,
           physical_frame_base = frame_address e PAGE_SIZE_4K_BYTES, page_size_bytes = PAGE_SIZE_4K_BYTES,
           permissions = apply_entry initial_effective_permissions e,
           leaf_entry_address = leaf_entry_address tr, dirty = False\<rparr>)"
  using assms(2-4)
proof (induction "3 - d" arbitrary: d t)
  case 0
  then have d: "d = 3" by simp
  show ?case
    using 0(2,3) by (auto simp: page_walk_depth d WALK_ORDER_nth_3 is_leaf_entry_def Let_def split: if_splits)
next
  case (Suc x)
  then have d: "d < 3" by simp
  let ?e = "qword_at (pb_memory b) (entry_address_for_index t (index_at la d))"
  note run = Suc.prems(1) [unfolded page_walk_depth [OF Suc.prems(3)] Let_def]
  have pres: "is_present ?e" using run by (auto split: if_splits)
  have lv: "WALK_ORDER ! d \<noteq> PT" using d less_4_cases [OF Suc.prems(3)] by (auto simp: WALK_ORDER_def)
  have nl: "\<not> is_leaf_entry ?e (WALK_ORDER ! d)"
  proof
    assume leaf: "is_leaf_entry ?e (WALK_ORDER ! d)"
    then have "WALK_ORDER ! d = PD \<or> WALK_ORDER ! d = PDPT" using lv by (auto simp: is_leaf_entry_def is_large_leaf_entry_def)
    then show False using run leaf assms(5)
      by (auto simp: PAGE_SIZE_4K_BYTES_def PAGE_SIZE_2M_BYTES_def PAGE_SIZE_1G_BYTES_def split: if_splits)
  qed
  then have nll: "\<not> is_large_leaf_entry ?e (WALK_ORDER ! d)" by (simp add: is_leaf_entry_def)
  have child: "T (table_address ?e) = Some (index_path la (Suc d))" "plain_table ?e"
    using tables_inv_child [OF inv Suc.prems(2) _ index_at_less [OF Suc.prems(3)] refl pres] nll d by simp_all
  have "page_walk nxe la (drop (Suc d) WALK_ORDER) (table_address ?e) initial_effective_permissions (pb_memory b) = Mapped tr"
    using run nl plain_table_apply [OF child(2)] by (auto split: if_splits)
  then show ?case using Suc.hyps(1) [of "Suc d" "table_address ?e"] Suc.hyps(2) child(1) d by simp
qed

lemma with_permissions_fields:
  assumes "\<not> reserved_violation True e PT" and "is_present e"
  shows "is_present (with_permissions e perms)"
    "frame_address (with_permissions e perms) PAGE_SIZE_4K_BYTES = frame_address e PAGE_SIZE_4K_BYTES"
    "apply_entry initial_effective_permissions (with_permissions e perms) = perms"
    "reserved_violation nxe (with_permissions e perms) PT \<longleftrightarrow> \<not> nxe \<and> \<not> executable perms"
proof -
  have res: "\<not> has_reserved_high_bits e" using assms(1) by (simp add: reserved_violation_def)
  show "is_present (with_permissions e perms)" using assms(2) by (simp add: entry_predicates bit_with_permissions)
  show "frame_address (with_permissions e perms) PAGE_SIZE_4K_BYTES = frame_address e PAGE_SIZE_4K_BYTES"
    by (rule bit_eqI) (auto simp: bit_frame_address [OF page_size_masks(1)] bit_with_permissions)
  show "apply_entry initial_effective_permissions (with_permissions e perms) = perms"
    by (cases perms) (simp add: apply_entry_def initial_effective_permissions_def entry_predicates bit_with_permissions)
  have "\<not> has_reserved_high_bits (with_permissions e perms)"
    using res by (auto simp: reserved_high_iff bit_with_permissions)
  then show "reserved_violation nxe (with_permissions e perms) PT \<longleftrightarrow> \<not> nxe \<and> \<not> executable perms"
    by (simp add: reserved_violation_def is_large_leaf_entry_def entry_predicates bit_with_permissions)
qed

definition space_paging :: "address_space \<Rightarrow> paging_state" where
  "space_paging a = paging_enable (snd (load_cr3 (as_root a) initial_paging_state))"

lemma space_paging_facts:
  assumes "aligned4k (as_root a)"
  shows "load_cr3 (as_root a) initial_paging_state = (Inr (), snd (load_cr3 (as_root a) initial_paging_state))"
    and "cr3 (space_paging a) = as_root a" and "execute_disable_enabled (space_paging a)"
    and "paging_enabled (space_paging a)"
  using assms
  by (simp_all add: load_cr3_def load_cr3_context_def op_simps aligned4k_iff is_process_context_id_valid_def
      kernel_context_def space_paging_def paging_enable_def bump_generation_def initial_paging_state_def
      PROCESS_CONTEXT_ID_MAX_VALUE_def Let_def)

lemma translation_spec_walk:
  assumes "aligned4k (as_root a)" and "is_canonical_linear_address la"
  shows "translation_spec (space_paging a) la m = as_walk True la (a, m)"
  using assms space_paging_facts [OF assms(1)]
  by (simp add: translation_spec_def as_walk_def walk_of_def as_builder_def)

lemma access_denied_kernel_read [simp]: "access_denied ps p READ RING0 = None"
  by (simp add: access_denied_def)

lemma set_page_permissions_spec:
  assumes ok: "as_ok (a, m)" and v: "is_canonical_linear_address v" "is_page_aligned v"
    and run: "set_page_permissions v perms (a, m) = (r, (a', m'))"
  shows "a' = a \<and> as_ok (a', m') \<and>
    (case as_walk True v (a, m) of
       Mapped t \<Rightarrow>
         if page_size_bytes t = PAGE_SIZE_4K_BYTES
         then r = Inr () \<and> page_mapped (as_builder (a, m)) (as_builder (a', m')) PAGE_SIZE_4K_BYTES v
                (physical_frame_base t) perms \<and> (\<exists>m1. ad_le m m1 \<and> space_frame (a, m1) (a', m'))
         else r = Inl Logic_error \<and> ad_le m m'
     | Faults x \<Rightarrow> r = Inl (Page_fault (make_page_fault v READ RING0 x)) \<and> ad_le m m'
     | Throws x \<Rightarrow> r = Inl x \<and> ad_le m m')"
proof -
  let ?b = "as_builder (a, m)"
  have bok: "builder_ok ?b" using ok by (simp add: as_ok_def)
  then obtain T where inv: "tables_inv T ?b" and up: "tables_up T ?b" by (auto simp: builder_ok_def)
  have root: "aligned4k (as_root a)" using builder_ok_aligned(1) [OF bok] by (simp add: as_builder_def)
  note sp = space_paging_facts [OF root]
  obtain w m1 where walk: "walker_translate (space_paging a) v READ RING0 m = (w, m1)" by fastforce
  have al: "aligned4k (cr3 (space_paging a))" using sp root by simp
  note spec = walker_translate_run [OF al walk, unfolded translation_spec_walk [OF root v(1)]]
  have ad: "ad_le m m1" using spec by blast
  let ?b1 = "?b\<lparr>pb_memory := m1\<rparr>"
  have mem: "pb_memory ?b = m" by (simp add: as_builder_def)
  have adb: "ad_le (pb_memory ?b) m1" using ad mem by simp
  note inv1 = tables_inv_ad_le [OF inv up adb]
  have b1: "as_builder (a, m1) = ?b1" by (simp add: as_builder_def)
  have ok1: "as_ok (a, m1)" using ok inv1 by (auto simp: as_ok_def b1 builder_ok_def)
  have same1: "walk_of nxe la ?b1 = walk_of nxe la ?b" for nxe la by (rule walk_of_ad_le [OF bok adb])
  have tr_run: "as_page_translation v READ RING0 (a, m) = (w, (a, m1))"
  proof -
    obtain ps where ps: "load_cr3 (as_root a) initial_paging_state = (Inr (), ps)" using sp(1) by blast
    then have "space_paging a = paging_enable ps" by (simp add: space_paging_def)
    with ps walk show ?thesis by (simp add: as_page_translation_def)
  qed
  note run' = run [unfolded set_page_permissions_def require_page_aligned_def sq_run require_run bnd_run]
  show ?thesis
  proof (cases "as_walk True v (a, m)")
    case (Faults x)
    then have "w = Inl (Page_fault (make_page_fault v READ RING0 x))"
      using spec by (cases w) (auto simp: check_access_def erase_dirty_def)
    then show ?thesis using run' v(2) ok1 ad Faults by (simp add: tr_run)
  next
    case (Throws x)
    then have "w = Inl x" using spec by (cases w) (auto simp: check_access_def erase_dirty_def)
    then show ?thesis using run' v(2) ok1 ad Throws by (simp add: tr_run)
  next
    case (Mapped t)
    then obtain t1 where w: "w = Inr t1" "t = t1\<lparr>dirty := False\<rparr>"
      using spec by (cases w) (auto simp: check_access_def erase_dirty_def)
    show ?thesis
    proof (cases "page_size_bytes t = PAGE_SIZE_4K_BYTES")
      case False
      then show ?thesis using run' v(2) ok1 ad Mapped w by (simp add: op_simps tr_run)
    next
      case True
      have "walk_of True v ?b1 = Mapped t" using Mapped same1 by (simp add: as_walk_def)
      then have walk1: "page_walk True v (drop 0 WALK_ORDER) (root_table_address ?b1) initial_effective_permissions (pb_memory ?b1) = Mapped t"
        by (simp add: walk_of_def)
      have rootT: "T (root_table_address ?b1) = Some (index_path v 0)" using inv1(1) by (simp add: tables_inv_def)
      obtain pt where pt: "T pt = Some (index_path v 3)"
        and leaf: "leaf_entry_address t = entry_address_for_index pt (index_at v 3)"
        and e: "let e = qword_at (pb_memory ?b1) (leaf_entry_address t) in
          is_present e \<and> \<not> reserved_violation True e PT \<and>
          t = \<lparr>virtual_page_base = page_base v PAGE_SIZE_4K_BYTES,
           physical_frame_base = frame_address e PAGE_SIZE_4K_BYTES, page_size_bytes = PAGE_SIZE_4K_BYTES,
           permissions = apply_entry initial_effective_permissions e,
           leaf_entry_address = leaf_entry_address t, dirty = False\<rparr>"
        using walk_4k_leaf [OF inv1(1) walk1 rootT _ True] by auto
      define e1 where "e1 = qword_at m1 (leaf_entry_address t)"
      have e': "is_present e1" "\<not> reserved_violation True e1 PT"
        "physical_frame_base t = frame_address e1 PAGE_SIZE_4K_BYTES"
        using e by (auto simp: e1_def Let_def dest: arg_cong [where f = physical_frame_base])
      note f = with_permissions_fields [OF e'(2,1), where perms = perms]
      have okq: "qword_ok m1 (leaf_entry_address t)"
        using tables_entry_ok [OF inv1(1) pt, of "index_at v 3"] leaf by simp
      let ?e2 = "with_permissions e1 perms"
      have leaf1: "leaf_entry_address t1 = leaf_entry_address t" "page_size_bytes t1 = page_size_bytes t" using w(2) by simp_all
      have res: "r = Inr ()" "a' = a" "m' = put_qword m1 (leaf_entry_address t) ?e2"
        using run' v(2) w(1) True okq leaf1
        by (auto simp: op_simps tr_run as_bus_def mem_read_QWORD mem_write_QWORD e1_def)
      have wl: "write_leaf_entry pt (WALK_ORDER ! 3) (index_at v 3) ?e2 ?b1 =
          (Inr (), ?b1\<lparr>pb_memory := put_qword m1 (leaf_entry_address t) ?e2\<rparr>)"
        using okq by (simp add: write_leaf_entry_def write_entry_def op_simps pb_bus_def mem_read_QWORD
            mem_write_QWORD leaf WALK_ORDER_nth_3 is_leaf_entry_def Let_def)
      have lw: "leaf_written ?b1 (as_builder (a', m')) v 3 ?e2"
        using write_leaf_entry_spec [OF inv1 pt _ _ f(1) wl] res
        by (simp add: WALK_ORDER_nth_3 is_leaf_entry_def as_builder_def)
      have vb: "page_base v PAGE_SIZE_4K_BYTES = v"
        using v(2) unfolding is_page_aligned_4k aligned4k_iff [symmetric] aligned_4k_iff
        by (intro bit_eqI) (auto simp: bit_page_base [OF page_size_masks(1)], meson not_le)
      obtain ad where ad: "walk_of nxe la (as_builder (a', m')) =
          (if index_path la 4 = index_path v 4 then leaf_outcome nxe la ad ?e2 PT else walk_of nxe la ?b1)" for nxe la
        using lw unfolding leaf_written_def WALK_ORDER_nth_3 by auto
      have "page_mapped ?b (as_builder (a', m')) PAGE_SIZE_4K_BYTES v (physical_frame_base t) perms"
        unfolding page_mapped_def ad same1
        using index_path_page_base [OF _ v(1), of _ 4 PAGE_SIZE_4K_BYTES] page_size_masks(1) vb f e'(3)
        by (intro exI [of _ ad]) (auto simp: leaf_outcome_def)
      moreover have "as_ok (a', m')" using lw ok res(2) by (simp add: as_ok_def leaf_written_def)
      moreover have "space_frame (a, m1) (a', m')"
      proof -
        have "tables_frame (as_builder (a, m1)) (as_builder (a', m'))" using lw by (simp add: leaf_written_def b1)
        moreover have "arena_ok (as_root a) (as_arena_end a) (as_builder (a', m'))"
          using ok res(2) by (simp add: arena_ok_def as_builder_def as_ok_def)
        ultimately have "space_frame (a, m1) (a', pb_memory (as_builder (a', m')))"
          by (rule tables_frame_space) (simp_all add: res(2))
        then show ?thesis by (simp add: as_builder_def)
      qed
      ultimately show ?thesis using Mapped True res(1,2) adb mem by auto
    qed
  qed
qed

section \<open>Isolation\<close>

text \<open>Memory outside the tables is no part of the translation.\<close>

lemma tables_memory:
  assumes T: "tables_inv T b" and up: "tables_up T b" and len: "length m' = length (pb_memory b)"
    and q: "\<And>t q i. T t = Some q \<Longrightarrow> i < 512 \<Longrightarrow>
      qword_at m' (entry_address_for_index t i) = qword_at (pb_memory b) (entry_address_for_index t i)"
  shows "tables_inv T (b\<lparr>pb_memory := m'\<rparr>)" and "tables_up T (b\<lparr>pb_memory := m'\<rparr>)"
    and "walk_of nxe la (b\<lparr>pb_memory := m'\<rparr>) = walk_of nxe la b"
proof -
  have children: "let e = qword_at m' (entry_address_for_index t i) in
      is_present e \<longrightarrow> \<not> is_large_leaf_entry e (WALK_ORDER ! length q) \<longrightarrow>
      T (table_address e) = Some (q @ [i]) \<and> plain_table e"
    if "T t = Some q" "length q < 3" "i < 512" for t q i
    unfolding Let_def q [OF that(1,3)] using tables_inv_child [OF T that refl] by blast
  show "tables_inv T (b\<lparr>pb_memory := m'\<rparr>)"
    using T children unfolding tables_inv_def by (simp add: len)
  have "i < 512 \<and> (\<exists>t'. T t' = Some q \<and> (let e = qword_at m' (entry_address_for_index t' i) in
      is_present e \<and> \<not> is_large_leaf_entry e (WALK_ORDER ! length q) \<and> table_address e = t))"
    if path: "T t = Some (q @ [i])" for t q i
  proof -
    obtain t' where t': "i < 512" "T t' = Some q" "let e = qword_at (pb_memory b) (entry_address_for_index t' i) in
        is_present e \<and> \<not> is_large_leaf_entry e (WALK_ORDER ! length q) \<and> table_address e = t"
      using up path unfolding tables_up_def by blast
    then show ?thesis using q [OF t'(2,1)] by (auto simp: Let_def)
  qed
  then show "tables_up T (b\<lparr>pb_memory := m'\<rparr>)" using up unfolding tables_up_def by simp
  have root: "T (root_table_address b) = Some (index_path la 0)" using T by (simp add: tables_inv_def)
  have "page_walk nxe la (drop 0 WALK_ORDER) (root_table_address b) initial_effective_permissions m'
      = page_walk nxe la (drop 0 WALK_ORDER) (root_table_address b) initial_effective_permissions (pb_memory b)"
  proof (rule page_walk_cong [OF T len _ _ root])
    fix t d assume "d < (4 :: nat)" and "T t = Some (index_path la d)"
    then show "(let a = entry_address_for_index t (index_at la d) in qword_at m' a = qword_at (pb_memory b) a) \<or>
       (\<forall>p. page_walk nxe la (drop d WALK_ORDER) t p m' = page_walk nxe la (drop d WALK_ORDER) t p (pb_memory b))"
      using q [of t _ "index_at la d"] unfolding Let_def by simp
  qed simp
  then show "walk_of nxe la (b\<lparr>pb_memory := m'\<rparr>) = walk_of nxe la b" by (simp add: walk_of_def)
qed

lemma as_ok_memory:
  assumes ok: "as_ok (a, m)" and len: "length m' = length m"
    and low: "\<And>x. unat (as_root a) \<le> x \<Longrightarrow> x < unat (as_next_free a) \<Longrightarrow> m' ! x = m ! x"
  shows "as_ok (a, m')" and "as_walk nxe la (a, m') = as_walk nxe la (a, m)"
proof -
  let ?b = "as_builder (a, m)"
  obtain T where T: "tables_inv T ?b" and up: "tables_up T ?b" using ok by (auto simp: as_ok_def builder_ok_def)
  have b: "as_builder (a, m') = ?b\<lparr>pb_memory := m'\<rparr>" by (simp add: as_builder_def)
  have q: "qword_at m' (entry_address_for_index t i) = qword_at (pb_memory ?b) (entry_address_for_index t i)"
    if "T t = Some q" "i < 512" for t q i
  proof (rule qword_at_cong)
    fix j assume "j < (8 :: nat)"
    then have "unat (entry_address_for_index t i) + j < unat (as_next_free a)"
      "unat (as_root a) \<le> unat (entry_address_for_index t i) + j"
      using entry_in_table [OF T that] by (simp_all add: as_builder_def)
    then show "m' ! (unat (entry_address_for_index t i) + j) = pb_memory ?b ! (unat (entry_address_for_index t i) + j)"
      using low by (simp add: as_builder_def)
  qed
  have "length m' = length (pb_memory ?b)" by (simp add: len as_builder_def)
  note tm0 = tables_memory [OF T up this]
  have tm: "tables_inv T (?b\<lparr>pb_memory := m'\<rparr>)" "tables_up T (?b\<lparr>pb_memory := m'\<rparr>)"
    "walk_of nxe la (?b\<lparr>pb_memory := m'\<rparr>) = walk_of nxe la ?b"
    by (rule tm0, rule q, assumption+)+
  have "builder_ok (as_builder (a, m'))" unfolding builder_ok_def b using tm(1,2) by blast
  then show "as_ok (a, m')" using ok by (simp add: as_ok_def)
  show "as_walk nxe la (a, m') = as_walk nxe la (a, m)" unfolding as_walk_def b by (rule tm(3))
qed

definition arenas_disjoint :: "address_space \<Rightarrow> address_space \<Rightarrow> bool" where
  "arenas_disjoint a b \<longleftrightarrow> as_arena_end a \<le> as_root b \<or> as_arena_end b \<le> as_root a"

text \<open>Writes in the arena of one space, and accessed and dirty bits anywhere, leave another space alone.\<close>

lemma as_ok_ad_le:
  assumes ok: "as_ok (a, m)" and ad: "ad_le m m'"
  shows "as_ok (a, m')" and "as_walk nxe la (a, m') = as_walk nxe la (a, m)"
proof -
  let ?b = "as_builder (a, m)"
  obtain T where T: "tables_inv T ?b" "tables_up T ?b" and bok: "builder_ok ?b"
    using ok by (auto simp: as_ok_def builder_ok_def)
  have b: "as_builder (a, m') = ?b\<lparr>pb_memory := m'\<rparr>" "pb_memory ?b = m" by (simp_all add: as_builder_def)
  note inv1 = tables_inv_ad_le [OF T, unfolded b(2), OF ad]
  have "builder_ok (as_builder (a, m'))" unfolding builder_ok_def b using inv1 by blast
  then show "as_ok (a, m')" using ok by (simp add: as_ok_def)
  show "as_walk nxe la (a, m') = as_walk nxe la (a, m)"
    unfolding as_walk_def b(1) by (rule walk_of_ad_le [OF bok]) (simp add: b(2) ad)
qed

lemma as_ok_other:
  assumes ok: "as_ok (b, m)" and frame: "space_frame (a, m) (a', m')" and disj: "arenas_disjoint a b"
  shows "as_ok (b, m')" and "as_walk nxe la (b, m') = as_walk nxe la (b, m)"
proof -
  have nf: "unat (as_next_free b) \<le> unat (as_arena_end b)" using ok by (simp add: as_ok_def word_le_nat_alt)
  have len: "length m' = length m" using frame by (simp add: space_frame_def)
  have same: "m' ! x = m ! x" if "unat (as_root b) \<le> x" "x < unat (as_next_free b)" for x
    using frame disj that nf by (auto simp: space_frame_def arenas_disjoint_def word_le_nat_alt)
  show "as_ok (b, m')" by (rule as_ok_memory(1) [OF ok len same])
  show "as_walk nxe la (b, m') = as_walk nxe la (b, m)" by (rule as_ok_memory(2) [OF ok len same])
qed

lemma set_page_permissions_other:
  assumes "as_ok (a, m)" and "as_ok (b, m)" and "arenas_disjoint a b"
    and "is_canonical_linear_address v" and "is_page_aligned v"
    and "set_page_permissions v perms (a, m) = (r, (a', m'))"
  shows "as_ok (b, m')" and "as_walk nxe la (b, m') = as_walk nxe la (b, m)"
proof -
  obtain m1 where m1: "ad_le m m1" "space_frame (a, m1) (a', m')"
  proof -
    have "(\<exists>m1. ad_le m m1 \<and> space_frame (a, m1) (a', m')) \<or> a' = a \<and> ad_le m m'"
      using set_page_permissions_spec [OF assms(1,4,5,6)] by (auto split: walk_outcome.splits if_splits)
    then show ?thesis using that space_frame_refl by blast
  qed
  note ad = as_ok_ad_le [OF assms(2) m1(1)]
  note other = as_ok_other [OF ad(1) m1(2) assms(3)]
  show "as_ok (b, m')" "as_walk nxe la (b, m') = as_walk nxe la (b, m)" using other ad by auto
qed

section \<open>User ranges\<close>

lemma user_canonical:
  assumes "a < ADDRESS_LAYOUT_USER_STACK_TOP"
  shows "is_canonical_linear_address a"
proof -
  have "unat a < 2 ^ 47"
    using assms by (simp add: word_less_nat_alt ADDRESS_LAYOUT_USER_STACK_TOP_def)
  then have "take_bit 47 (unat a) = unat a" by (rule take_bit_nat_eq_self)
  then have "take_bit 47 a = a" by (metis unsigned_take_bit_eq unsigned_word_eqI)
  then have "\<not> bit a k" if "47 \<le> k" for k using that by (metis bit_take_bit_iff not_le)
  then show ?thesis by (auto simp: canonical_bits)
qed

lemma is_user_address_nat: "is_user_address a \<longleftrightarrow> 0x1000 \<le> unat a \<and> unat a < 0x700000000000"
  using user_canonical [of a]
  by (auto simp: is_user_address_def word_le_nat_alt word_less_nat_alt ADDRESS_LAYOUT_USER_LOW_BASE_def
      ADDRESS_LAYOUT_USER_STACK_TOP_def)

lemma range_end_nat:
  "range_end_is_valid s n = (if n = 0 \<or> 2 ^ 64 < unat s + unat n then None else Some (s + n - 1))"
proof (cases "n = 0")
  case False
  then have u: "unat (n - 1) = unat n - 1" "0 < unat n" by (simp_all add: unat_minus_one unat_gt_0)
  have "unat (- 1 - (n - 1) :: address64) = 2 ^ 64 - 1 - (unat n - 1)"
  proof -
    have "(n - 1 :: address64) \<le> - 1" by simp
    then have "unat (- 1 - (n - 1)) = unat (- 1 :: address64) - unat (n - 1)" by (rule unat_sub)
    then show ?thesis by (simp add: u unsigned_minus_1_eq_mask mask_eq_exp_minus_1)
  qed
  then have "s > - 1 - (n - 1) \<longleftrightarrow> 2 ^ 64 < unat s + unat n"
    using u unat_less_64 [of s] unat_less_64 [of n] by (simp add: word_less_nat_alt) linarith
  then show ?thesis using False by (simp add: range_end_is_valid_def)
qed (simp add: range_end_is_valid_def)

section \<open>New address spaces\<close>

lemma AddressSpace_spec:
  assumes "AddressSpace root nf ae m = (Inr (), (a, m'))" and "root < nf" and "length m \<le> 2 ^ 52"
  shows "as_ok (a, m') \<and> (\<forall>nxe la. as_walk nxe la (a, m') = Faults NOT_PRESENT) \<and>
    a = \<lparr>as_root = root, as_initial_next_free = nf, as_next_free = nf, as_arena_end = ae\<rparr> \<and> m' = zero_table m root"
proof -
  define a0 where "a0 = \<lparr>as_root = root, as_initial_next_free = nf, as_next_free = nf, as_arena_end = ae\<rparr>"
  have sz: "unat MM_PAGE_SIZE_BYTES = 4096" by (simp add: MM_PAGE_SIZE_BYTES_def)
  note run = assms(1) [unfolded AddressSpace_def a0_def [symmetric] require_page_aligned_def]
  have al: "aligned4k root" "aligned4k nf" "aligned4k ae" and ord: "root < ae" "nf \<le> ae"
    and fits: "unat root + 4096 \<le> length m"
    and rest: "as_clear_root_table (a0, m) = (Inr (), (a, m'))"
    using run by (auto simp: op_simps is_page_aligned_4k contains_range_iff sz not_le not_less split: if_splits)
  let ?b = "as_builder (a0, m)"
  have new: "PageTableBuilder m root nf ae = Inr ?b"
    using al ord by (simp add: PageTableBuilder_def as_builder_def a0_def aligned4k_iff not_less)
  have "aligned4k (root_table_address ?b)" "aligned4k (next_free_table_address ?b)"
    "unat (root_table_address ?b) + 4096 \<le> length (pb_memory ?b)" "length (pb_memory ?b) \<le> 2 ^ 52"
    "root_table_address ?b < next_free_table_address ?b"
    using al fits assms(2,3) by (simp_all add: as_builder_def a0_def)
  note cl = clear_root_table_spec [OF this]
  have crun: "clear_root_table ?b = (Inr (), ?b\<lparr>pb_memory := zero_table m root\<rparr>)"
    using al fits by (simp add: clear_root_table_def clear_table_run as_builder_def a0_def)
  have a: "a = a0" "m' = zero_table m root"
    using rest new crun
    by (auto simp: as_clear_root_table_def run_builder_def op_simps as_builder_def a0_def)
  have same: "as_builder (a, m') = snd (clear_root_table ?b)"
    unfolding crun a by (simp add: as_builder_def)
  have "as_ok (a, m')" using cl(2) al ord by (auto simp: as_ok_def same) (auto simp: a a0_def)
  moreover have "as_walk nxe la (a, m') = Faults NOT_PRESENT" for nxe la
    unfolding as_walk_def same by (rule cl(3))
  ultimately show ?thesis using a by (simp add: a0_def [symmetric])
qed

definition sample_space :: space_state where
  "sample_space = snd (AddressSpace 0x1000 0x2000 0x8000 (PhysicalMemory 0x8000))"

lemma AddressSpace_run:
  assumes "aligned4k root" "aligned4k nf" "aligned4k ae" "root < ae" "nf \<le> ae" "root \<le> nf"
    and "unat root + 4096 \<le> length m"
  shows "fst (AddressSpace root nf ae m) = Inr ()"
proof -
  have sz: "unat MM_PAGE_SIZE_BYTES = 4096" by (simp add: MM_PAGE_SIZE_BYTES_def)
  have "\<not> (root \<ge> ae \<or> nf > ae \<or> nf < root)" using assms by auto
  moreover have "contains_range m root (unat MM_PAGE_SIZE_BYTES)" using assms by (simp add: contains_range_iff sz)
  ultimately show ?thesis
    using assms by (simp add: AddressSpace_def require_page_aligned_def op_simps is_page_aligned_4k
        as_clear_root_table_def run_builder_def PageTableBuilder_def aligned4k_iff clear_root_table_def
        clear_table_run not_less)
qed

lemma sample_space_facts:
  "as_ok sample_space" "as_walk nxe la sample_space = Faults NOT_PRESENT"
  "as_root (fst sample_space) = 0x1000" "table_room 3 (as_builder sample_space)"
proof -
  have "fst (AddressSpace 0x1000 0x2000 0x8000 (PhysicalMemory 0x8000)) = Inr ()"
    by (rule AddressSpace_run) (simp_all add: aligned4k_def PhysicalMemory_def)
  then have run: "AddressSpace 0x1000 0x2000 0x8000 (PhysicalMemory 0x8000) = (Inr (), (fst sample_space, snd sample_space))"
    by (simp add: sample_space_def prod_eq_iff)
  note sp = AddressSpace_spec [OF run]
  show "as_ok sample_space" "as_walk nxe la sample_space = Faults NOT_PRESENT"
    "as_root (fst sample_space) = 0x1000" "table_room 3 (as_builder sample_space)"
    using sp by (simp_all add: PhysicalMemory_def table_room_def as_builder_def)
qed

lemma sample_map_page: "fst (map_page 0x40000000 0x6000 user_read_write_no_execute sample_space) = Inr ()"
proof -
  obtain a m where s: "sample_space = (a, m)" by fastforce
  have ok: "as_ok (a, m)" and room: "table_room 3 (as_builder (a, m))"
    using sample_space_facts s by simp_all
  have "fst (map_4k 0x40000000 0x6000 user_read_write_no_execute (as_builder (a, m))) = Inr ()"
    by (rule map_4k_success [OF _ sample_canonical(3,4) room, of True])
       (use ok sample_space_facts(2) [of True "0x40000000"] s in \<open>simp_all add: as_ok_def as_walk_def no_large_page_def\<close>)
  then obtain b' where "map_4k 0x40000000 0x6000 user_read_write_no_execute (as_builder (a, m)) = (Inr (), b')"
    by (metis prod.collapse)
  then show ?thesis
    by (simp add: s map_page_def require_page_aligned_def op_simps is_page_aligned_iff run_builder_def
        as_builder_new [OF ok])
qed

section \<open>Guards of \<open>map_range\<close>\<close>

lemma page_count_exact:
  assumes "is_page_aligned n"
  shows "page_count_for_bytes n = Inr (unat n div 4096)"
proof -
  obtain q where q: "unat n = 4096 * q" using assms by (auto simp: is_page_aligned_iff mod_eq_0_iff_dvd elim: dvdE)
  then have u: "unat n + 4095 < 2 ^ 64" using unat_less_64 [of n] by simp
  have "unat (- 1 - MM_PAGE_OFFSET_MASK :: address64) = 2 ^ 64 - 4096"
    by (simp add: MM_PAGE_OFFSET_MASK_def MM_PAGE_SIZE_BYTES_def)
  then have "n \<le> - 1 - MM_PAGE_OFFSET_MASK" using u unfolding word_le_nat_alt by linarith
  moreover have "unat (n + MM_PAGE_OFFSET_MASK) div 4096 = unat n div 4096"
  proof -
    have "unat (n + of_nat 4095) = unat n + 4095" by (rule unat_add_of_nat) (use u in simp)
    moreover have "MM_PAGE_OFFSET_MASK = of_nat 4095" by (simp add: page_masks(1) mask_eq_exp_minus_1)
    ultimately have "unat (n + MM_PAGE_OFFSET_MASK) = 4096 * q + 4095" using q by simp
    then show ?thesis using q by simp
  qed
  ultimately show ?thesis
    by (simp add: page_count_for_bytes_def would_overflow_page_rounding_def page_number_eq leD)
qed

lemma map_range_refused:
  assumes "\<not> (is_page_aligned v \<and> is_page_aligned p \<and> n \<noteq> 0 \<and> is_page_aligned n)"
  shows "map_range v p n perms s = (Inl Invalid_argument, s)"
  using assms unfolding map_range_def require_page_aligned_def require_page_multiple_def
  by (cases "is_page_aligned v"; cases "is_page_aligned p"; cases "n = 0"; simp add: op_simps)

lemma map_range_run:
  assumes "is_page_aligned v" "is_page_aligned p" "n \<noteq> 0" "is_page_aligned n"
  shows "map_range v p n perms s =
    (if range_exceeds_address_space v n \<or> range_exceeds_address_space p n then (Inl Overflow_error, s)
     else for_each (\<lambda>i. let off = of_nat i * MM_PAGE_SIZE_BYTES in map_page (v + off) (p + off) perms)
       [0..<unat n div 4096] s)"
  using assms unfolding map_range_def require_page_aligned_def require_page_multiple_def
    page_count_exact [OF assms(4)]
  by (simp add: op_simps)

section \<open>Properties\<close>



text \<open>
  \<open>set_page_permissions\<close> on a page-aligned canonical address. If the address is mapped by a 4 KiB
  page, the page keeps its frame and has exactly the new permissions, and no other translation
  changes; a large page is refused with a logic error and an unmapped page with the fault of a
  kernel read, changing nothing but accessed bits.
\<close>

lemma set_page_permissions_correct:
  assumes "as_ok (a, m)" and "is_canonical_linear_address v" and "is_page_aligned v"
    and "set_page_permissions v perms (a, m) = (r, (a', m'))"
  shows "a' = a \<and> as_ok (a', m') \<and>
    (case as_walk True v (a, m) of
       Mapped t \<Rightarrow>
         if page_size_bytes t = PAGE_SIZE_4K_BYTES
         then r = Inr () \<and> page_mapped (as_builder (a, m)) (as_builder (a', m')) PAGE_SIZE_4K_BYTES v
                (physical_frame_base t) perms
         else r = Inl Logic_error \<and> ad_le m m'
     | Faults x \<Rightarrow> r = Inl (Page_fault (make_page_fault v READ RING0 x)) \<and> ad_le m m'
     | Throws x \<Rightarrow> r = Inl x \<and> ad_le m m')"
  using set_page_permissions_spec [OF assms] by (auto split: walk_outcome.splits if_splits)

lemma set_page_permissions_correct_witness:
  "fst (set_page_permissions 0x40000000 kernel_read_only_execute sample_space) =
     Inl (Page_fault (make_page_fault 0x40000000 READ RING0 NOT_PRESENT))"
proof -
  obtain a m where s: "sample_space = (a, m)" by fastforce
  obtain r a' m' where run: "set_page_permissions 0x40000000 kernel_read_only_execute (a, m) = (r, (a', m'))"
    by (metis prod_cases3)
  have "is_page_aligned 0x40000000" by (simp add: is_page_aligned_iff)
  from set_page_permissions_correct [OF _ sample_canonical(1) this run] sample_space_facts(1,2) run
  show ?thesis by (simp add: s)
qed

text \<open>
  C10: \<open>map_page\<close> takes over the builder's next free table address only if the builder returned. If it
  runs out of table pages after linking a first table, the memory keeps the link but the address
  space still counts the linked table as free, so the next mapping would hand the same table out
  again: the invariant is lost.
\<close>

theorem map_page_failure_leaks_table:
  assumes ok: "as_ok (a, m)" and al: "is_page_aligned v" "is_page_aligned p"
    and absent: "\<not> is_present (qword_at m (entry_address_for_index (as_root a) (index_at v 0)))"
    and room: "unat (as_next_free a) + 4096 \<le> length m" "as_arena_end a = as_next_free a + PAGE_SIZE_4K_BYTES"
  shows "fst (map_page v p perms (a, m)) = Inl Out_of_range \<and> \<not> as_ok (snd (map_page v p perms (a, m)))"
proof -
  let ?b = "as_builder (a, m)" and ?i = "index_at v 0" and ?nf = "as_next_free a"
  have b: "root_table_address ?b = as_root a" "next_free_table_address ?b = ?nf" "pb_memory ?b = m"
    "table_arena_end_address ?b = as_arena_end a" by (simp_all add: as_builder_def)
  obtain T where T: "tables_inv T ?b" using ok by (auto simp: as_ok_def builder_ok_def)
  then have root: "T (as_root a) = Some []" by (simp add: tables_inv_def b)
  have nf: "aligned4k ?nf" and len: "length m \<le> 2 ^ 52"
    using builder_ok_aligned(2,3) [of ?b] ok by (simp_all add: as_ok_def b)
  have nz: "as_arena_end a \<noteq> 0" using ok by (simp add: as_ok_def)
  let ?a = "entry_address_for_index (as_root a) ?i"
  obtain e where e: "table_entry ?nf user_read_write_execute = Inr e" "table_address e = ?nf" "plain_table e" "is_present e"
    using table_entry_bits [OF nf] room(1) len by force
  define b1 where "b1 = link_table ?b ?a e"
  have first: "ensure_child_table (as_root a) PML4 ?i ?b = (Inr ?nf, b1)"
    using ensure_child_table_run [OF T root, of ?i PML4] absent room e(1)
    by (simp add: b Let_def b1_def)
  have T1: "tables_inv (T(?nf \<mapsto> [?i])) b1"
    using tables_inv_link [OF T root, of ?i e] absent room(1) e(2-) by (simp add: b b1_def)
  have mem: "qword_at (pb_memory b1) (entry_address_for_index t j) =
      (if t = as_root a \<and> j = ?i then e else if t = ?nf then 0
       else qword_at m (entry_address_for_index t j))"
    if "aligned4k t" "unat t + 4096 \<le> length m" "j < 512" for t j
    using qword_at_link_entry [OF nf tables_invD(1) [OF T root] _ that, of ?i e]
    by (simp add: b1_def link_table_def b)
  have root_nf: "as_root a \<noteq> ?nf" using tables_invD(3) [OF T root] by (auto simp: b)
  have b1: "next_free_table_address b1 = ?nf + PAGE_SIZE_4K_BYTES" "table_arena_end_address b1 = as_arena_end a"
    by (simp_all add: b1_def link_table_def b)
  have "\<not> ?nf + PAGE_SIZE_4K_BYTES \<le> ?nf"
    using aligned4k_add(2) [OF nf] room(1) len by (simp add: word_le_nat_alt)
  then have second: "ensure_child_table ?nf PDPT (index_at v 1) b1 = (Inl Out_of_range, b1)"
    using ensure_child_table_run [OF T1, of ?nf "[?i]" "index_at v 1" PDPT]
      mem [OF nf room(1), of "index_at v 1"] root_nf
    by (simp add: b1 room(2)) (simp add: nz [unfolded room(2)])
  have "page_table_index v PML4 = Inr ?i" "page_table_index v PDPT = Inr (index_at v 1)"
    using page_table_index_at [of 0 v] page_table_index_at [of 1 v] by (simp_all add: WALK_ORDER_def)
  then have m4k: "map_4k v p perms ?b = (Inl Out_of_range, b1)"
    using al first second
    by (simp add: map_4k_def require_aligned_address_def op_simps is_page_aligned_4k aligned4k_iff b)
  have run: "map_page v p perms (a, m) = (Inl Out_of_range, (a, pb_memory b1))"
    using al by (simp add: map_page_def require_page_aligned_def run_builder_def op_simps as_builder_new [OF ok] m4k)
  have "\<not> as_ok (a, pb_memory b1)"
  proof
    assume "as_ok (a, pb_memory b1)"
    then obtain T2 where T2: "tables_inv T2 (as_builder (a, pb_memory b1))" by (auto simp: as_ok_def builder_ok_def)
    then have root2: "T2 (as_root a) = Some []" by (simp add: tables_inv_def as_builder_def)
    have "T2 ?nf = Some [?i]"
      using tables_inv_child(1) [OF T2 root2, of ?i e] e(2-)
        mem [OF tables_invD(1) [OF T root], of ?i] tables_invD(2) [OF T root]
      by (simp add: as_builder_def plain_table_def is_large_leaf_entry_def)
    then show False using tables_invD(3) [OF T2, of ?nf] by (simp add: as_builder_def)
  qed
  then show ?thesis by (simp add: run)
qed

theorem map_page_failure_leaks_table_witness:
  "\<exists>s. as_ok s \<and> fst (map_page 0x40000000 0x6000 user_read_write_no_execute s) = Inl Out_of_range \<and>
     \<not> as_ok (snd (map_page 0x40000000 0x6000 user_read_write_no_execute s))"
proof -
  define s where "s = snd (AddressSpace 0x1000 0x2000 0x3000 (PhysicalMemory 0x8000))"
  have "fst (AddressSpace 0x1000 0x2000 0x3000 (PhysicalMemory 0x8000)) = Inr ()"
    by (rule AddressSpace_run) (simp_all add: aligned4k_def PhysicalMemory_def)
  then have new: "AddressSpace 0x1000 0x2000 0x3000 (PhysicalMemory 0x8000) = (Inr (), (fst s, snd s))"
    by (simp add: s_def prod_eq_iff)
  obtain a m where am: "s = (a, m)" by fastforce
  have len: "length (PhysicalMemory 0x8000) = 0x8000" by (simp add: PhysicalMemory_def)
  have sp: "as_ok (a, m)" "m = zero_table (PhysicalMemory 0x8000) 0x1000"
    "a = \<lparr>as_root = 0x1000, as_initial_next_free = 0x2000, as_next_free = 0x2000, as_arena_end = 0x3000\<rparr>"
    using AddressSpace_spec [OF new] len unfolding am by auto
  have al: "aligned4k 0x1000" by (simp add: aligned4k_def)
  have i: "index_at 0x40000000 0 < 512" by simp
  have "qword_at m (entry_address_for_index (as_root a) (index_at 0x40000000 0)) = 0"
    using qword_at_zero_table [OF al aligned8_entry_address [OF al i] entry_ok [OF al _ i], of "PhysicalMemory 0x8000"]
      exI [of "\<lambda>j. j < 512 \<and> entry_address_for_index 0x1000 (index_at 0x40000000 0) = entry_address_for_index 0x1000 j",
        OF conjI [OF i refl]]
    by (simp add: sp(2,3) len)
  then have "\<not> is_present (qword_at m (entry_address_for_index (as_root a) (index_at 0x40000000 0)))" by simp
  note leak = map_page_failure_leaks_table [OF sp(1) _ _ this, of "0x6000" user_read_write_no_execute]
  have "fst (map_page 0x40000000 0x6000 user_read_write_no_execute (a, m)) = Inl Out_of_range \<and>
     \<not> as_ok (snd (map_page 0x40000000 0x6000 user_read_write_no_execute (a, m)))"
    by (rule leak) (simp_all add: is_page_aligned_iff sp(2,3) len PAGE_SIZE_4K_BYTES_def)
  then show ?thesis using sp(1) by blast
qed

text \<open>
  C8: The user-range check used before the kernel touches user memory is exact: a non-empty range
  passes exactly if every byte address of the range, computed with 64-bit wrap-around, is a user
  address; in particular a range that wraps is refused.
\<close>

theorem is_user_range_exact:
  "is_user_range s n \<longleftrightarrow> n \<noteq> 0 \<and> (\<forall>i < unat n. is_user_address (s + of_nat i))"
proof (cases "n = 0")
  case True
  then show ?thesis by (simp add: is_user_range_def range_end_nat)
next
  case False
  then have n: "0 < unat n" by (simp add: unat_gt_0)
  have add: "unat s + i < 2 ^ 64 \<Longrightarrow> unat (s + of_nat i) = unat s + i" for i by (rule unat_add_of_nat)
  show ?thesis
  proof (cases "2 ^ 64 < unat s + unat n")
    case True
    define i where "i = 2 ^ 64 - 1 - unat s"
    have i: "i < unat n" "unat s + i = 2 ^ 64 - 1" using True unat_less_64 [of s] by (auto simp: i_def)
    then have "unat (s + of_nat i) = 2 ^ 64 - 1" using add [of i] by simp
    then have "\<not> is_user_address (s + of_nat i)" by (simp add: is_user_address_nat)
    then show ?thesis using i(1) True by (auto simp: is_user_range_def range_end_nat)
  next
    case fits: False
    have "s + n - 1 = s + of_nat (unat n - 1)" using n by (simp add: of_nat_diff)
    have last: "unat (s + n - 1) = unat s + (unat n - 1)"
      unfolding \<open>s + n - 1 = s + of_nat (unat n - 1)\<close> using fits n by (intro add) simp
    have each: "unat (s + of_nat i) = unat s + i" if "i < unat n" for i using add [of i] fits that by simp
    have "is_user_range s n \<longleftrightarrow> is_user_address s \<and> is_user_address (s + n - 1)"
      using False fits by (simp add: is_user_range_def range_end_nat)
    also have "\<dots> \<longleftrightarrow> (\<forall>i < unat n. is_user_address (s + of_nat i))"
    proof
      assume "is_user_address s \<and> is_user_address (s + n - 1)"
      then show "\<forall>i < unat n. is_user_address (s + of_nat i)"
        using last each by (auto simp: is_user_address_nat)
    next
      assume all: "\<forall>i < unat n. is_user_address (s + of_nat i)"
      have "is_user_address (s + of_nat 0)" "is_user_address (s + of_nat (unat n - 1))"
        using all [rule_format, of 0] all [rule_format, of "unat n - 1"] n by simp_all
      then show "is_user_address s \<and> is_user_address (s + n - 1)"
        using last each [of "unat n - 1"] n by (simp add: is_user_address_nat)
    qed
    finally show ?thesis using False by simp
  qed
qed

theorem is_user_range_exact_witness: "is_user_range 0x400000 0x2000 \<and> is_user_address (0x400000 + of_nat 0x1FFF)"
proof -
  have r: "is_user_range 0x400000 0x2000"
    by (simp add: is_user_range_def range_end_nat is_user_address_nat)
  moreover have "is_user_address (0x400000 + of_nat 0x1FFF)"
    using r is_user_range_exact [of "0x400000" "0x2000"] by (auto simp del: of_nat_numeral)
  ultimately show ?thesis by blast
qed

text \<open>
  C12: Isolation of address spaces. Mapping a page in one address space, successful or not, and
  changing the permissions of a page in it leave the tables and every translation of another
  address space with a disjoint table arena unchanged.
\<close>

theorem address_spaces_isolated:
  assumes "as_ok (a, m)" and "as_ok (b, m)" and "arenas_disjoint a b"
    and "is_canonical_linear_address v" and "is_page_aligned v" and "unat p < 2 ^ 52"
  shows "(\<forall>r a' m'. map_page v p perms (a, m) = (r, (a', m')) \<longrightarrow>
       as_ok (b, m') \<and> (\<forall>nxe la. as_walk nxe la (b, m') = as_walk nxe la (b, m))) \<and>
    (\<forall>r a' m'. set_page_permissions v perms (a, m) = (r, (a', m')) \<longrightarrow>
       as_ok (b, m') \<and> (\<forall>nxe la. as_walk nxe la (b, m') = as_walk nxe la (b, m)))"
proof (intro conjI allI impI)
  fix r a' m' assume run: "map_page v p perms (a, m) = (r, (a', m'))"
  have "space_frame (a, m) (a', m')" using map_page_spec [OF assms(1,4,6) run] by blast
  from as_ok_other [OF assms(2) this assms(3)]
  show "as_ok (b, m')" "as_walk nxe la (b, m') = as_walk nxe la (b, m)" for nxe la .
next
  fix r a' m' assume run: "set_page_permissions v perms (a, m) = (r, (a', m'))"
  note other = set_page_permissions_other [OF assms(1,2,3,4,5) run]
  show "as_ok (b, m')" "as_walk nxe la (b, m') = as_walk nxe la (b, m)" for nxe la by (rule other)+
qed

definition sample_parent :: address_space where
  "sample_parent = \<lparr>as_root = 0x1000, as_initial_next_free = 0x2000, as_next_free = 0x2000, as_arena_end = 0x5000\<rparr>"

definition sample_child :: address_space where
  "sample_child = \<lparr>as_root = 0x5000, as_initial_next_free = 0x6000, as_next_free = 0x6000, as_arena_end = 0x9000\<rparr>"

definition sample_pair_memory :: phys_mem where
  "sample_pair_memory = zero_table (zero_table (PhysicalMemory 0xA000) 0x1000) 0x5000"

lemma sample_pair_facts:
  "as_ok (sample_parent, sample_pair_memory)" "as_ok (sample_child, sample_pair_memory)"
  "arenas_disjoint sample_parent sample_child" "length sample_pair_memory = 0xA000"
  "as_walk nxe la (sample_parent, sample_pair_memory) = Faults NOT_PRESENT"
  "as_walk nxe la (sample_child, sample_pair_memory) = Faults NOT_PRESENT"
proof -
  let ?m1 = "zero_table (PhysicalMemory 0xA000) 0x1000"
  have len: "length (PhysicalMemory 0xA000) = 0xA000" "length ?m1 = 0xA000" by (simp_all add: PhysicalMemory_def)
  have "fst (AddressSpace 0x1000 0x2000 0x5000 (PhysicalMemory 0xA000)) = Inr ()"
    by (rule AddressSpace_run) (simp_all add: aligned4k_def len)
  then obtain a m where "AddressSpace 0x1000 0x2000 0x5000 (PhysicalMemory 0xA000) = (Inr (), (a, m))"
    by (metis prod.collapse)
  from AddressSpace_spec [OF this] len
  have p: "as_ok (sample_parent, ?m1)" "\<And>nxe la. as_walk nxe la (sample_parent, ?m1) = Faults NOT_PRESENT"
    by (auto simp: sample_parent_def)
  have "fst (AddressSpace 0x5000 0x6000 0x9000 ?m1) = Inr ()"
    by (rule AddressSpace_run) (simp_all add: aligned4k_def len)
  then obtain a m where "AddressSpace 0x5000 0x6000 0x9000 ?m1 = (Inr (), (a, m))"
    by (metis prod.collapse)
  from AddressSpace_spec [OF this] len
  show "as_ok (sample_child, sample_pair_memory)"
    "as_walk nxe la (sample_child, sample_pair_memory) = Faults NOT_PRESENT"
    by (auto simp: sample_child_def sample_pair_memory_def)
  have same: "sample_pair_memory ! x = ?m1 ! x" if "unat (as_root sample_parent) \<le> x" "x < unat (as_next_free sample_parent)" for x
    unfolding sample_pair_memory_def using that
    by (intro nth_zero_table) (simp_all add: aligned4k_def sample_parent_def)
  show l: "length sample_pair_memory = 0xA000" by (simp add: sample_pair_memory_def len)
  then have l': "length sample_pair_memory = length ?m1" by (simp only: len)
  show "as_ok (sample_parent, sample_pair_memory)" by (rule as_ok_memory(1) [OF p(1) l' same])
  show "as_walk nxe la (sample_parent, sample_pair_memory) = Faults NOT_PRESENT"
    by (rule trans [OF as_ok_memory(2) [OF p(1) l'] p(2)]) (rule same)
  show "arenas_disjoint sample_parent sample_child"
    by (simp add: arenas_disjoint_def sample_parent_def sample_child_def)
qed

theorem address_spaces_isolated_witness:
  "\<exists>r a' m'. map_page 0x40000000 0x9000 user_read_write_no_execute (sample_parent, sample_pair_memory) = (r, (a', m')) \<and>
     as_ok (sample_child, m') \<and> as_walk True 0x40000000 (sample_child, m') = Faults NOT_PRESENT"
proof -
  obtain r a' m' where run: "map_page 0x40000000 0x9000 user_read_write_no_execute (sample_parent, sample_pair_memory) = (r, (a', m'))"
    by (metis prod_cases3)
  have "is_page_aligned 0x40000000" "unat (0x9000 :: address64) < 2 ^ 52" by (simp_all add: is_page_aligned_iff)
  from address_spaces_isolated [OF sample_pair_facts(1-3) sample_canonical(1) this] run sample_pair_facts(6)
  show ?thesis by metis
qed

end
