(* ===== verification/PageFault.thy ===== *)
theory PageFault
  imports AddrSpace
begin

unbundle bit_operations_syntax

text \<open>
  The demand-paging fault handler, \<^verbatim>\<open>src/os/mm/page_fault_handler.cpp\<close>: a not-present fault is
  served with a zeroed frame mapped at the faulting page. The handler holds pointers to the
  allocator, the address space and the memory bus; the state is the record of the three and the
  CPU it is called with. The two \<^verbatim>\<open>try\<close> blocks are \<open>catch_exn\<close>, selecting on the exception class.
\<close>

section \<open>The handler\<close>

datatype page_fault_result = HANDLED | NOT_PAGE_FAULT | PROTECTION_FAULT | OUT_OF_MEMORY

record fault_state =
  fh_allocator :: physical_page_allocator
  fh_space :: address_space
  fh_memory :: phys_mem
  fh_cpu :: cpu_state

definition on_allocator :: "(physical_page_allocator, 'a) op \<Rightarrow> (fault_state, 'a) op" where
  "on_allocator f = focus fh_allocator fh_allocator_update f"

definition on_memory :: "(phys_mem, 'a) op \<Rightarrow> (fault_state, 'a) op" where
  "on_memory f = focus fh_memory fh_memory_update f"

definition on_space :: "(space_state, 'a) op \<Rightarrow> (fault_state, 'a) op" where
  "on_space f = (\<lambda>s. case f (fh_space s, fh_memory s) of
     (r, (a, m)) \<Rightarrow> (r, s\<lparr>fh_space := a, fh_memory := m\<rparr>))"

definition on_paging :: "(paging_state, 'a) op \<Rightarrow> (fault_state, 'a) op" where
  "on_paging f = focus fh_cpu fh_cpu_update (focus paging paging_update f)"

definition has_page_fault_error_bit :: "trap_frame \<Rightarrow> qword \<Rightarrow> bool" where
  "has_page_fault_error_bit tf b =
     (has_error_code tf \<and> (case error_code tf of Inl _ \<Rightarrow> False | Inr c \<Rightarrow> c AND b \<noteq> 0))"

definition is_not_present_fault :: "trap_frame \<Rightarrow> bool" where
  "is_not_present_fault tf \<longleftrightarrow> has_error_code tf \<and>
     \<not> has_page_fault_error_bit tf PAGE_FAULT_ERROR_PRESENT_BIT \<and>
     \<not> has_page_fault_error_bit tf PAGE_FAULT_ERROR_RESERVED_BIT"

definition permissions_for_fault :: "trap_frame \<Rightarrow> page_permissions" where
  "permissions_for_fault tf =
     (let user_fault = has_page_fault_error_bit tf PAGE_FAULT_ERROR_USER_BIT;
          instruction_fetch_fault = has_page_fault_error_bit tf PAGE_FAULT_ERROR_INSTRUCTION_FETCH_BIT
      in if user_fault \<and> instruction_fetch_fault then user_read_only_execute
         else if user_fault then user_read_write_no_execute
         else if instruction_fetch_fault then kernel_read_only_execute
         else kernel_read_write_no_execute)"

text \<open>The offsets \<^verbatim>\<open>0, 8, ..., 4088\<close> of the quadwords of a page.\<close>

definition page_qword_offsets :: "address64 list" where
  "page_qword_offsets = map (\<lambda>i. of_nat (i * 8)) [0..<512]"

definition zero_physical_page :: "address64 \<Rightarrow> (phys_mem, unit) op" where
  "zero_physical_page physical_address =
     for_each (\<lambda>offset. mem_write (physical_address + offset) QWORD 0) page_qword_offsets"

definition handle_page_fault :: "trap_frame \<Rightarrow> (fault_state, page_fault_result) op" where
  "handle_page_fault tf =
     (if tf_vector tf \<noteq> vector_page_fault then ret NOT_PAGE_FAULT
      else if \<not> is_not_present_fault tf then ret PROTECTION_FAULT
      else bnd (catch_exn (bnd (on_allocator allocate_page) (\<lambda>p. ret (Some p)))
                 (\<lambda>e. if e = Bad_alloc then ret None else throw e)) (\<lambda>page.
        case page of None \<Rightarrow> ret OUT_OF_MEMORY
        | Some physical_page \<Rightarrow>
          bnd (catch_exn
                (sq (on_memory (zero_physical_page physical_page))
                (bnd (gets (\<lambda>s. align_down_value (page_fault_linear_address (paging (fh_cpu s))))) (\<lambda>v.
                 sq (on_space (map_page v physical_page (permissions_for_fault tf)))
                    (ret True))))
                (\<lambda>e. if e = Bad_alloc \<or> e = Out_of_range
                     then sq (on_allocator (free_page physical_page)) (ret False)
                     else throw e)) (\<lambda>mapped.
          if \<not> mapped then ret OUT_OF_MEMORY
          else bnd (gets fh_space) (\<lambda>a.
               sq (on_paging (activate a))
              (sq (modify (fh_cpu_update clear_pending_trap))
                  (ret HANDLED))))))"

section \<open>Facts\<close>

lemma length_offsets [simp]: "length page_qword_offsets = 512"
  by (simp add: page_qword_offsets_def)

text \<open>Loops of quadword writes inside one page.\<close>

definition within :: "nat \<Rightarrow> nat \<Rightarrow> phys_mem \<Rightarrow> phys_mem \<Rightarrow> bool" where
  "within lo hi m m' \<longleftrightarrow> length m' = length m \<and> (\<forall>x. x < lo \<or> hi \<le> x \<longrightarrow> m' ! x = m ! x)"

lemma within_refl [simp]: "within lo hi m m"
  by (simp add: within_def)

lemma within_trans [trans]: "within lo hi m1 m2 \<Longrightarrow> within lo hi m2 m3 \<Longrightarrow> within lo hi m1 m3"
  by (simp add: within_def)

lemma for_each_within:
  assumes "\<And>off m r m'. off \<in> set offs \<Longrightarrow> f off m = (r, m') \<Longrightarrow>
      within lo hi m m' \<and> (r = Inr () \<or> r = Inl Out_of_range)"
    and "for_each f offs m = (r, m')"
  shows "within lo hi m m' \<and> (r = Inr () \<or> r = Inl Out_of_range)"
  using assms
proof (induction offs arbitrary: m)
  case Nil
  then show ?case by (auto simp: ret_run)
next
  case (Cons off offs)
  obtain r1 m1 where run1: "f off m = (r1, m1)" by fastforce
  have 1: "within lo hi m m1" "r1 = Inr () \<or> r1 = Inl Out_of_range" using Cons.prems(1) [OF _ run1] by auto
  show ?case
  proof (cases r1)
    case (Inl x)
    then show ?thesis using Cons.prems(2) 1 run1 by (auto simp: sq_run)
  next
    case (Inr u)
    then have "for_each f offs m1 = (r, m')" using Cons.prems(2) run1 by (simp add: sq_run)
    then have "within lo hi m1 m' \<and> (r = Inr () \<or> r = Inl Out_of_range)"
      by (rule Cons.IH [rotated]) (rule Cons.prems(1), auto)
    then show ?thesis using within_trans [OF 1(1)] by blast
  qed
qed

lemma offset_in_page_bounds:
  assumes "is_page_aligned p" and "off \<in> set page_qword_offsets"
  obtains i where "i < 512" and "p + off = entry_address_for_index p i" and "unat (p + off) = unat p + i * 8"
proof -
  from assms(2) obtain i where i: "i < 512" "off = of_nat (i * 8)" by (auto simp: page_qword_offsets_def)
  then have "p + off = entry_address_for_index p i" by (simp add: entry_address_for_index_def)
  then show ?thesis
    using that [OF i(1)] unat_entry_address [of p i] assms(1) i(1) by (simp add: is_page_aligned_4k)
qed

lemma zero_physical_page_within:
  assumes "is_page_aligned p" and "zero_physical_page p m = (r, m')"
  shows "within (unat p) (unat p + 4096) m m' \<and> (r = Inr () \<or> r = Inl Out_of_range)"
proof (rule for_each_within [OF _ assms(2) [unfolded zero_physical_page_def]])
  fix off m r m' assume "off \<in> set page_qword_offsets" and run: "mem_write (p + off) QWORD 0 m = (r, m')"
  then obtain i where i: "i < 512" "unat (p + off) = unat p + i * 8" using offset_in_page_bounds [OF assms(1)] by metis
  have "put_qword m (p + off) 0 ! x = m ! x" if "x < unat p \<or> unat p + 4096 \<le> x" for x
    using that i by (intro nth_put_qword) auto
  then show "within (unat p) (unat p + 4096) m m' \<and> (r = Inr () \<or> r = Inl Out_of_range)"
    using run by (auto simp: mem_write_QWORD within_def split: if_splits)
qed

lemma for_each_fits:
  assumes "\<And>off m r m'. f off m = (r, m') \<Longrightarrow> length m' = length m \<and> (\<forall>u. r = Inr u \<longrightarrow> fits off (length m))"
    and "for_each f offs m = (Inr u, m')" and "off \<in> set offs"
  shows "fits off (length m)"
  using assms(2,3)
proof (induction offs arbitrary: m)
  case (Cons x offs)
  from Cons.prems(1) obtain u1 m1 where 1: "f x m = (Inr u1, m1)" and 2: "for_each f offs m1 = (Inr u, m')"
    by (auto elim: sq_InrE)
  show ?case
  proof (cases "off = x")
    case False
    then show ?thesis using Cons.IH [OF 2] Cons.prems(2) assms(1) [OF 1] by simp
  qed (use assms(1) [OF 1] in simp)
qed simp

lemma last_offset: "of_nat (511 * 8) \<in> set page_qword_offsets"
  unfolding page_qword_offsets_def set_map by (rule imageI) simp

lemma zero_fits:
  assumes "is_page_aligned p" and "zero_physical_page p m = (Inr (), m')"
  shows "unat p + 4096 \<le> length m"
proof -
  have "unat (p + of_nat (511 * 8)) + 8 \<le> length m"
    by (rule for_each_fits [OF _ assms(2) [unfolded zero_physical_page_def] last_offset])
       (auto simp: mem_write_QWORD qword_ok_def split: if_splits)
  moreover have "unat (p + of_nat (511 * 8)) = unat p + 511 * 8"
    using unat_entry_address [of p 511] assms(1) by (simp add: is_page_aligned_4k entry_address_for_index_def)
  ultimately show ?thesis by simp
qed

lemma zero_physical_page_run:
  assumes "is_page_aligned p" and "unat p + 4096 \<le> length m"
  shows "zero_physical_page p m = (Inr (), zero_table m p)"
proof -
  have al: "aligned4k p" using assms(1) by (simp add: is_page_aligned_4k)
  have "for_each (\<lambda>off. mem_write (p + off) QWORD 0) (map (\<lambda>i. of_nat (i * 8)) is) m =
      (Inr (), fold (\<lambda>a m. put_qword m a 0) (map (entry_address_for_index p) is) m)"
    if "set is \<subseteq> {..<512}" "unat p + 4096 \<le> length m" for "is" m
    using that
  proof (induction "is" arbitrary: m)
    case (Cons i "is")
    then have "qword_ok m (entry_address_for_index p i)" by (intro entry_ok [OF al]) auto
    then have "mem_write (p + of_nat (i * 8)) QWORD 0 m = (Inr (), put_qword m (entry_address_for_index p i) 0)"
      by (simp add: mem_write_QWORD entry_address_for_index_def)
    with Cons show ?case by (simp add: sq_run)
  qed (simp add: ret_run)
  then show ?thesis using assms(2)
    by (simp add: zero_physical_page_def page_qword_offsets_def zero_table_def lessThan_atLeast0)
qed

lemma zero_table_zero:
  assumes "aligned4k p" and "unat p + 4096 \<le> length m" and "i < 4096"
  shows "zero_table m p ! (unat p + i) = 0"
proof -
  have q: "qword_at (zero_table m p) (entry_address_for_index p j) = 0" if "j < 512" for j
    using qword_at_zero_table [OF assms(1) aligned8_entry_address [OF assms(1) that] entry_ok [OF assms(1,2) that]] that
    by auto
  define j where "j = i div 8"
  have j: "j < 512" "i = j * 8 + i mod 8" "i mod 8 < 8" using assms(3) by (simp_all add: j_def less_mult_imp_div_less)
  let ?b = "zero_table m p ! (unat p + i)"
  have u: "unat (entry_address_for_index p j) = unat p + j * 8" by (rule unat_entry_address [OF assms(1) j(1)])
  have "\<not> bit ?b k" if "k < 8" for k
  proof -
    have "bit (qword_at (zero_table m p) (entry_address_for_index p j)) (i mod 8 * 8 + k) = bit ?b k"
    proof -
      have "(i mod 8 * 8 + k) div 8 = i mod 8" "(i mod 8 * 8 + k) mod 8 = k" "i mod 8 * 8 + k < 64"
        using that j(3) by simp_all
      then show ?thesis
        unfolding qword_at_def u using j(2) by (subst bit_read_bytes_le) (simp_all add: add.assoc)
    qed
    then show ?thesis unfolding q [OF j(1)] by simp
  qed
  then show ?thesis by (intro bit_word_eqI) auto
qed

text \<open>Frames that the allocator hands out.\<close>

lemma allocate_page_facts:
  assumes inv: "allocator_inv al" and run: "allocate_page al = (Inr p, al')"
  shows "allocator_inv al'" "page_number p \<notin> used_pages al" "used_pages al' = insert (page_number p) (used_pages al)"
    "is_page_aligned p" "first_allocatable_page al \<le> page_number p" "page_number p < total_page_count al"
    "unat p = page_number p * 4096" "first_allocatable_page al' = first_allocatable_page al"
    "total_page_count al' = total_page_count al"
proof -
  show "allocator_inv al'" "page_number p \<notin> used_pages al" "used_pages al' = insert (page_number p) (used_pages al)"
    using frames.alloc_fresh [OF inv run] by simp_all
  obtain st where st: "first_allocatable_page al \<le> st" "free_run (allocated_pages al) st 1"
    "p = of_nat st * MM_PAGE_SIZE_BYTES" "al' = mark_allocated st al"
    using allocate_contiguous_run [OF inv, of 1] run by (auto simp: allocate_page_def)
  have t: "st < total_page_count al" using inv st(2) by (auto simp: free_run_used)
  then have b: "st < 2 ^ 52" using inv by (simp add: allocator_inv_def)
  show "is_page_aligned p" "first_allocatable_page al \<le> page_number p" "page_number p < total_page_count al"
    "unat p = page_number p * 4096" "first_allocatable_page al' = first_allocatable_page al"
    "total_page_count al' = total_page_count al"
    using page_address_facts [OF b] unat_page_address [OF b] st t mark_allocated_facts(3,4) [OF inv t]
    by (simp_all add: page_number_eq)
qed

lemma allocate_page_error:
  assumes "allocator_inv al" and "allocate_page al = (Inl e, al')"
  shows "e = Bad_alloc" "al' = al"
  using allocate_contiguous_run [OF assms(1), of 1] assms(2) by (auto simp: allocate_page_def)

lemma free_page_allocated:
  assumes "allocator_inv al" and "allocate_page al = (Inr p, al1)"
  obtains al2 where "free_page p al1 = (Inr (), al2)" and "allocator_inv al2" and "used_pages al2 = used_pages al"
proof -
  note f = allocate_page_facts [OF assms]
  have "allocated_pages al1 ! page_number p"
    using used_pages_iff [OF f(1), of "page_number p"] f(3) by simp
  then have run: "free_page p al1 = (Inr (), mark_free (page_number p) al1)"
    using f by (simp add: free_page_run)
  then show ?thesis
    using that frames.release_used [OF f(1) run] frames.alloc_release [OF assms run] by blast
qed

lemma align_down_facts:
  "is_page_aligned (align_down_value v)" "align_down_value v = page_base v PAGE_SIZE_4K_BYTES"
  "is_canonical_linear_address v \<Longrightarrow> is_canonical_linear_address (align_down_value v)"
proof -
  have bits: "bit (align_down_value v) k \<longleftrightarrow> bit v k \<and> \<not> k < 12" for k
    unfolding align_down_value_def page_masks by (auto simp: bit_simps dest: bit_imp_le_length)
  show "is_page_aligned (align_down_value v)"
    unfolding is_page_aligned_def page_masks bit_word_and_mask_0 by (simp add: bits)
  show "align_down_value v = page_base v PAGE_SIZE_4K_BYTES"
    by (rule bit_eqI) (simp add: bits bit_page_base [OF page_size_masks(1)] not_less conj_commute)
  show "is_canonical_linear_address (align_down_value v)" if "is_canonical_linear_address v"
    using that by (auto simp: canonical_bits bits)
qed

lemma activate_run:
  assumes "aligned4k (as_root a)"
  shows "\<exists>p'. activate a p = (Inr (), p') \<and> cr3 p' = as_root a \<and> paging_enabled p' \<and>
    process_context_id p' = kernel_context \<and> page_fault_linear_address p' = page_fault_linear_address p"
  using assms
  by (simp add: activate_def load_cr3_def load_cr3_context_def op_simps aligned4k_iff is_process_context_id_valid_def
      kernel_context_def paging_enable_def bump_generation_def PROCESS_CONTEXT_ID_MAX_VALUE_def Let_def)

section \<open>Contract of the handler\<close>

text \<open>
  The state in which the handler runs: the tables are well formed, the accounting of the allocator
  is exact, and the pages it hands out lie above the table arena and below the 52-bit limit of
  physical addresses.
\<close>

definition fault_ok :: "fault_state \<Rightarrow> bool" where
  "fault_ok s \<longleftrightarrow> as_ok (fh_space s, fh_memory s) \<and> allocator_inv (fh_allocator s) \<and>
     unat (as_arena_end (fh_space s)) \<le> 4096 * first_allocatable_page (fh_allocator s) \<and>
     total_page_count (fh_allocator s) \<le> 2 ^ 40 \<and>
     is_canonical_linear_address (page_fault_linear_address (paging (fh_cpu s)))"

definition fault_page :: "fault_state \<Rightarrow> address64" where
  "fault_page s = align_down_value (page_fault_linear_address (paging (fh_cpu s)))"

definition fault_walk :: "bool \<Rightarrow> address64 \<Rightarrow> fault_state \<Rightarrow> walk_outcome" where
  "fault_walk nxe la s = as_walk nxe la (fh_space s, fh_memory s)"

definition fault_builder :: "fault_state \<Rightarrow> page_table_builder" where
  "fault_builder s = as_builder (fh_space s, fh_memory s)"

text \<open>The fault was served with the frame \<open>p\<close>.\<close>

definition page_served :: "fault_state \<Rightarrow> fault_state \<Rightarrow> page_permissions \<Rightarrow> address64 \<Rightarrow> bool" where
  "page_served s s' perms p \<longleftrightarrow>
     is_page_aligned p \<and> page_number p \<notin> used_pages (fh_allocator s) \<and>
     used_pages (fh_allocator s') = insert (page_number p) (used_pages (fh_allocator s)) \<and>
     page_mapped (fault_builder s) (fault_builder s') PAGE_SIZE_4K_BYTES (fault_page s) p perms \<and>
     (\<forall>i < 4096. fh_memory s' ! (unat p + i) = 0) \<and>
     (\<forall>x \<ge> unat (as_arena_end (fh_space s)). \<not> (unat p \<le> x \<and> x < unat p + 4096) \<longrightarrow>
        fh_memory s' ! x = fh_memory s ! x) \<and>
     cr3 (paging (fh_cpu s')) = as_root (fh_space s) \<and> paging_enabled (paging (fh_cpu s')) \<and>
     pending_trap (fh_cpu s') = None"

lemma page_mapped_walks:
  assumes "page_mapped b b' sz v p perms" and "\<And>nxe la. walk_of nxe la b = walk_of nxe la b0"
  shows "page_mapped b0 b' sz v p perms"
  using assms(1) unfolding page_mapped_def assms(2) .

text \<open>The body of the second \<^verbatim>\<open>try\<close> block.\<close>

lemma zero_and_map:
  assumes ok: "as_ok (a, m)" and p: "is_page_aligned p" "unat (as_arena_end a) \<le> unat p" "unat p + 4096 \<le> 2 ^ 52"
    and v: "is_canonical_linear_address v" "is_page_aligned v"
    and zero: "zero_physical_page p m = (rz, mz)" and map: "rz = Inr () \<Longrightarrow> map_page v p perms (a, mz) = (r, (a', m'))"
  shows "as_ok (a, mz)" and "as_walk nxe la (a, mz) = as_walk nxe la (a, m)"
    and "rz = Inl Out_of_range \<or> rz = Inr () \<and> mz = zero_table m p \<and> length m' = length m \<and>
      as_root a' = as_root a \<and> as_arena_end a' = as_arena_end a \<and>
      (\<forall>x \<ge> unat (as_arena_end a). m' ! x = zero_table m p ! x) \<and>
      (case r of Inl _ \<Rightarrow> a' = a \<and> (\<forall>nxe la. as_walk nxe la (a', m') = as_walk nxe la (a, m))
       | Inr _ \<Rightarrow> as_ok (a', m') \<and> unat p + 4096 \<le> length m \<and>
           page_mapped (as_builder (a, m)) (as_builder (a', m')) PAGE_SIZE_4K_BYTES v p perms)"
proof -
  note z = zero_physical_page_within [OF p(1) zero]
  have nf: "unat (as_next_free a) \<le> unat (as_arena_end a)" using ok by (simp add: as_ok_def word_le_nat_alt)
  have low: "mz ! x = m ! x" if "x < unat (as_next_free a)" for x
    using z nf p(2) that by (auto simp: within_def)
  have len: "length mz = length m" using z by (simp add: within_def)
  note mem = as_ok_memory [OF ok len low]
  show ok': "as_ok (a, mz)" and walk: "as_walk nxe la (a, mz) = as_walk nxe la (a, m)" for nxe la
    by (rule mem; assumption)+
  show "rz = Inl Out_of_range \<or> rz = Inr () \<and> mz = zero_table m p \<and> length m' = length m \<and>
      as_root a' = as_root a \<and> as_arena_end a' = as_arena_end a \<and>
      (\<forall>x \<ge> unat (as_arena_end a). m' ! x = zero_table m p ! x) \<and>
      (case r of Inl _ \<Rightarrow> a' = a \<and> (\<forall>nxe la. as_walk nxe la (a', m') = as_walk nxe la (a, m))
       | Inr _ \<Rightarrow> as_ok (a', m') \<and> unat p + 4096 \<le> length m \<and>
           page_mapped (as_builder (a, m)) (as_builder (a', m')) PAGE_SIZE_4K_BYTES v p perms)"
  proof (cases "rz = Inr ()")
    case True
    have fits: "unat p + 4096 \<le> length m" by (rule zero_fits [OF p(1) zero [unfolded True]])
    have mz: "mz = zero_table m p" using zero_physical_page_run [OF p(1) fits] zero by simp
    have "unat p < 2 ^ 52" using p(3) by simp
    note mp = map_page_spec [OF ok' v(1) this map [OF True]]
    have "page_mapped (as_builder (a, m)) (as_builder (a', m')) PAGE_SIZE_4K_BYTES v p perms"
      if "page_mapped (as_builder (a, mz)) (as_builder (a', m')) PAGE_SIZE_4K_BYTES v p perms"
      using that walk unfolding as_walk_def by (rule page_mapped_walks)
    then show ?thesis using mp True fits mz len walk by (auto simp: space_frame_def split: sum.splits)
  qed (use z in blast)
qed

lemma handle_allocated:
  assumes ok: "fault_ok s" and alloc: "allocate_page (fh_allocator s) = (Inr p, al1)"
    and pf: "tf_vector tf = vector_page_fault" "is_not_present_fault tf"
    and run: "handle_page_fault tf s = (r, s')"
  shows "case r of
      Inr HANDLED \<Rightarrow> as_ok (fh_space s', fh_memory s') \<and> allocator_inv (fh_allocator s') \<and>
        page_served s s' (permissions_for_fault tf) p
    | Inr OUT_OF_MEMORY \<Rightarrow> allocator_inv (fh_allocator s') \<and>
        used_pages (fh_allocator s') = used_pages (fh_allocator s) \<and> fh_cpu s' = fh_cpu s \<and>
        (\<forall>nxe la. fault_walk nxe la s' = fault_walk nxe la s)
    | Inr _ \<Rightarrow> False
    | Inl x \<Rightarrow> x \<noteq> Bad_alloc \<and> x \<noteq> Out_of_range \<and> fh_cpu s' = fh_cpu s \<and>
        (\<forall>nxe la. fault_walk nxe la s' = fault_walk nxe la s)"
proof -
  let ?a = "fh_space s" and ?m = "fh_memory s" and ?v = "fault_page s"
  have as: "as_ok (?a, ?m)" and inv: "allocator_inv (fh_allocator s)"
    and sep: "unat (as_arena_end ?a) \<le> 4096 * first_allocatable_page (fh_allocator s)"
    and lim: "total_page_count (fh_allocator s) \<le> 2 ^ 40"
    and can: "is_canonical_linear_address (page_fault_linear_address (paging (fh_cpu s)))"
    using ok by (simp_all add: fault_ok_def)
  note f = allocate_page_facts [OF inv alloc]
  have p: "is_page_aligned p" "unat (as_arena_end ?a) \<le> unat p" "unat p + 4096 \<le> 2 ^ 52"
    using f(4-7) sep lim by auto
  have v: "is_canonical_linear_address ?v" "is_page_aligned ?v"
    using align_down_facts [of "page_fault_linear_address (paging (fh_cpu s))"] can by (simp_all add: fault_page_def)
  obtain al2 where free: "free_page p al1 = (Inr (), al2)" "allocator_inv al2" "used_pages al2 = used_pages (fh_allocator s)"
    using free_page_allocated [OF inv alloc] by blast
  obtain rz mz where zero: "zero_physical_page p ?m = (rz, mz)" by fastforce
  obtain rm a' m' where map: "map_page ?v p (permissions_for_fault tf) (?a, mz) = (rm, (a', m'))" by (metis prod_cases3)
  note zm = zero_and_map [OF as p v zero map]
  note run' = run [unfolded handle_page_fault_def]
  show ?thesis
  proof (cases rz)
    case (Inl x)
    then have "x = Out_of_range" using zm(3) by simp
    then have res: "r = Inr OUT_OF_MEMORY" "fh_allocator s' = al2" "fh_memory s' = mz" "fh_space s' = ?a" "fh_cpu s' = fh_cpu s"
      using run' pf alloc zero Inl free(1) by (auto simp: op_simps on_allocator_def on_memory_def)
    show ?thesis using res free zm(2) by (simp add: fault_walk_def)
  next
    case (Inr u)
    have zm3: "mz = zero_table ?m p" "length m' = length ?m" "as_root a' = as_root ?a" "as_arena_end a' = as_arena_end ?a"
      "\<forall>x \<ge> unat (as_arena_end ?a). m' ! x = zero_table ?m p ! x"
      "case rm of Inl _ \<Rightarrow> a' = ?a \<and> (\<forall>nxe la. as_walk nxe la (a', m') = as_walk nxe la (?a, ?m))
       | Inr _ \<Rightarrow> as_ok (a', m') \<and> unat p + 4096 \<le> length ?m \<and>
           page_mapped (as_builder (?a, ?m)) (as_builder (a', m')) PAGE_SIZE_4K_BYTES ?v p (permissions_for_fault tf)"
      using zm(3) Inr by simp_all
    have map': "map_page (align_down_value (page_fault_linear_address (paging (fh_cpu s)))) p
        (permissions_for_fault tf) (?a, mz) = (rm, (a', m'))"
      using map by (simp add: fault_page_def)
    show ?thesis
    proof (cases rm)
      case (Inl x)
      then have walks: "fault_walk nxe la s = as_walk nxe la (a', m')" for nxe la
        using zm3(6) unfolding fault_walk_def Inl sum.case by metis
      show ?thesis
      proof (cases "x = Bad_alloc \<or> x = Out_of_range")
        case True
        then have res: "r = Inr OUT_OF_MEMORY" "fh_allocator s' = al2" "fh_space s' = a'" "fh_memory s' = m'" "fh_cpu s' = fh_cpu s"
          using run' pf alloc zero \<open>rz = Inr u\<close> map' Inl free(1)
          by (auto simp: op_simps on_allocator_def on_memory_def on_space_def)
        show ?thesis using res free by (simp add: walks) (simp add: fault_walk_def)
      next
        case False
        then have res: "r = Inl x" "fh_space s' = a'" "fh_memory s' = m'" "fh_cpu s' = fh_cpu s"
          using run' pf alloc zero \<open>rz = Inr u\<close> map' Inl
          by (auto simp: op_simps on_allocator_def on_memory_def on_space_def)
        show ?thesis using res False by (simp add: walks) (simp add: fault_walk_def)
      qed
    next
      case (Inr w)
      have aok: "as_ok (a', m')" and fits: "unat p + 4096 \<le> length ?m"
        and pm: "page_mapped (as_builder (?a, ?m)) (as_builder (a', m')) PAGE_SIZE_4K_BYTES ?v p (permissions_for_fault tf)"
        using zm3(6) Inr by simp_all
      have "aligned4k (as_root a')"
        using builder_ok_aligned(1) [of "as_builder (a', m')"] aok by (simp add: as_ok_def) (simp add: as_builder_def)
      then obtain ps where ps: "activate a' (paging (fh_cpu s)) = (Inr (), ps)" "cr3 ps = as_root a'" "paging_enabled ps"
        using activate_run by blast
      have res: "r = Inr HANDLED" "fh_allocator s' = al1" "fh_space s' = a'" "fh_memory s' = m'"
        "fh_cpu s' = clear_pending_trap ((fh_cpu s)\<lparr>paging := ps\<rparr>)"
        using run' pf alloc zero \<open>rz = Inr u\<close> map' Inr ps(1)
        by (auto simp: op_simps on_allocator_def on_memory_def on_space_def on_paging_def)
      have al: "aligned4k p" using p(1) by (simp add: is_page_aligned_4k)
      have "m' ! (unat p + i) = 0" if "i < 4096" for i
        using zm3(5) p(2) zero_table_zero [OF al fits that] by simp
      moreover have "m' ! x = ?m ! x" if "unat (as_arena_end ?a) \<le> x" "\<not> (unat p \<le> x \<and> x < unat p + 4096)" for x
        using zm3(1,5) that zero_physical_page_within [OF p(1) zero] by (auto simp: within_def)
      ultimately have "page_served s s' (permissions_for_fault tf) p"
        using res p(1) f(2,3) pm ps(2,3) zm3(3)
        by (simp add: page_served_def fault_builder_def clear_pending_trap_def)
      then show ?thesis using res aok f(1) by simp
    qed
  qed
qed

lemma map_page_succeeds:
  assumes ok: "as_ok (a, m)" and al: "is_page_aligned v" "is_page_aligned p"
    and room: "table_room 3 (as_builder (a, m))" and small: "no_large_page (as_walk nxe v (a, m))"
  obtains a' m' where "map_page v p perms (a, m) = (Inr (), (a', m'))"
proof -
  have "fst (map_4k v p perms (as_builder (a, m))) = Inr ()"
    by (rule map_4k_success [OF _ _ _ room, of _ _ nxe])
       (use ok al small in \<open>simp_all add: as_ok_def as_walk_def is_page_aligned_4k aligned4k_iff\<close>)
  then obtain b' where "map_4k v p perms (as_builder (a, m)) = (Inr (), b')" by (metis prod.collapse)
  then show ?thesis
    using al that by (simp add: map_page_def require_page_aligned_def op_simps run_builder_def as_builder_new [OF ok])
qed

lemma allocate_page_succeeds:
  assumes inv: "allocator_inv al" and free: "0 < free_page_count al"
  obtains p al' where "allocate_page al = (Inr p, al')"
proof -
  have "filter Not (allocated_pages al) \<noteq> []" using inv free by (auto simp: allocator_inv_def)
  then obtain i where i: "i < length (allocated_pages al)" "\<not> allocated_pages al ! i"
    by (auto simp: filter_empty_conv in_set_conv_nth)
  then have "first_allocatable_page al \<le> i" using inv by (auto simp: allocator_inv_def intro: leI)
  moreover have "free_run (allocated_pages al) i 1" using i by (auto simp: free_run_def less_Suc_eq_le dest: le_antisym)
  ultimately show ?thesis
    using that allocate_contiguous_run [OF inv, of 1] by (auto simp: allocate_page_def)
qed

lemma handle_succeeds:
  assumes ok: "fault_ok s" and pf: "tf_vector tf = vector_page_fault" "is_not_present_fault tf"
    and free: "0 < free_page_count (fh_allocator s)"
    and fits: "4096 * total_page_count (fh_allocator s) \<le> length (fh_memory s)"
    and room: "table_room 3 (fault_builder s)" and small: "no_large_page (fault_walk True (fault_page s) s)"
  shows "fst (handle_page_fault tf s) = Inr HANDLED"
proof -
  have as: "as_ok (fh_space s, fh_memory s)" and inv: "allocator_inv (fh_allocator s)"
    and sep: "unat (as_arena_end (fh_space s)) \<le> 4096 * first_allocatable_page (fh_allocator s)"
    and lim: "total_page_count (fh_allocator s) \<le> 2 ^ 40"
    using ok by (simp_all add: fault_ok_def)
  obtain p al1 where alloc: "allocate_page (fh_allocator s) = (Inr p, al1)"
    using allocate_page_succeeds [OF inv free] by blast
  note f = allocate_page_facts [OF inv alloc]
  have p: "unat (as_arena_end (fh_space s)) \<le> unat p" "unat p + 4096 \<le> length (fh_memory s)"
    using f(4-7) sep fits by auto
  have zero: "zero_physical_page p (fh_memory s) = (Inr (), zero_table (fh_memory s) p)"
    by (rule zero_physical_page_run [OF f(4) p(2)])
  note within = zero_physical_page_within [OF f(4) zero, unfolded within_def]
  have nf: "unat (as_next_free (fh_space s)) \<le> unat (as_arena_end (fh_space s))"
    using as by (simp add: as_ok_def word_le_nat_alt)
  have low: "zero_table (fh_memory s) p ! x = fh_memory s ! x" if "x < unat (as_next_free (fh_space s))" for x
    using within nf p(1) that by simp
  have ok1: "as_ok (fh_space s, zero_table (fh_memory s) p)"
    by (rule as_ok_memory(1) [OF as _ low]) simp_all
  have walk1: "as_walk True (fault_page s) (fh_space s, zero_table (fh_memory s) p) = fault_walk True (fault_page s) s"
    unfolding fault_walk_def by (rule as_ok_memory(2) [OF as _ low]) simp_all
  obtain a' m' where map: "map_page (fault_page s) p (permissions_for_fault tf) (fh_space s, zero_table (fh_memory s) p)
      = (Inr (), (a', m'))"
  proof (rule map_page_succeeds [OF ok1])
    show "is_page_aligned (fault_page s)" "is_page_aligned p" using f(4) by (simp_all add: fault_page_def align_down_facts(1))
    show "table_room 3 (as_builder (fh_space s, zero_table (fh_memory s) p))"
      using room by (simp add: table_room_def fault_builder_def as_builder_def)
    show "no_large_page (as_walk True (fault_page s) (fh_space s, zero_table (fh_memory s) p))"
      using small by (simp add: walk1)
  qed
  have root: "aligned4k (as_root (fh_space s))" and "unat p < 2 ^ 52"
    using builder_ok_aligned(1) [of "as_builder (fh_space s, fh_memory s)"] as f(6,7) lim
    by (auto simp: as_ok_def) (simp add: as_builder_def)
  have can: "is_canonical_linear_address (fault_page s)"
    using ok by (simp add: fault_ok_def fault_page_def align_down_facts(3))
  have "as_root a' = as_root (fh_space s)"
    using map_page_spec [OF ok1 can \<open>unat p < 2 ^ 52\<close> map] by (simp add: space_frame_def)
  then obtain ps where "activate a' (paging (fh_cpu s)) = (Inr (), ps)" using activate_run [of a'] root by auto
  then show ?thesis
    using pf alloc zero map [unfolded fault_page_def]
    by (simp add: handle_page_fault_def op_simps on_allocator_def on_memory_def on_space_def on_paging_def)
qed

definition sample_fault :: fault_state where
  "sample_fault = \<lparr>
     fh_allocator = \<lparr>total_page_count = 9, first_allocatable_page = 8, free_page_count = 1,
       allocated_pages = replicate 8 True @ [False]\<rparr>,
     fh_space = fst (snd (AddressSpace 0x1000 0x2000 0x8000 (PhysicalMemory 0x9000))),
     fh_memory = snd (snd (AddressSpace 0x1000 0x2000 0x8000 (PhysicalMemory 0x9000))),
     fh_cpu = initial_cpu_state\<lparr>paging := initial_paging_state\<lparr>page_fault_linear_address := 0x40000010\<rparr>\<rparr>\<rparr>"

definition sample_fault_frame :: trap_frame where
  "sample_fault_frame = \<lparr>tf_kind = EXCEPTION, tf_vector = vector_page_fault, tf_interrupted_rip = 0,
     tf_return_rip = 0, tf_rflags = 0, tf_stack_pointer = 0, tf_privilege_level = RING3,
     tf_error_code = Some 6\<rparr>"

lemma sample_fault_facts:
  "fault_ok sample_fault" "tf_vector sample_fault_frame = vector_page_fault" "is_not_present_fault sample_fault_frame"
  "0 < free_page_count (fh_allocator sample_fault)"
  "4096 * total_page_count (fh_allocator sample_fault) \<le> length (fh_memory sample_fault)"
  "table_room 3 (fault_builder sample_fault)" "no_large_page (fault_walk True (fault_page sample_fault) sample_fault)"
proof -
  have "fst (AddressSpace 0x1000 0x2000 0x8000 (PhysicalMemory 0x9000)) = Inr ()"
    by (rule AddressSpace_run) (simp_all add: aligned4k_def PhysicalMemory_def)
  then have run: "AddressSpace 0x1000 0x2000 0x8000 (PhysicalMemory 0x9000) =
      (Inr (), (fh_space sample_fault, fh_memory sample_fault))"
    by (simp add: sample_fault_def prod_eq_iff)
  have len: "length (PhysicalMemory 0x9000) = 0x9000" by (simp add: PhysicalMemory_def)
  have sp: "as_ok (fh_space sample_fault, fh_memory sample_fault)"
    "\<And>nxe la. as_walk nxe la (fh_space sample_fault, fh_memory sample_fault) = Faults NOT_PRESENT"
    "fh_space sample_fault = \<lparr>as_root = 0x1000, as_initial_next_free = 0x2000, as_next_free = 0x2000, as_arena_end = 0x8000\<rparr>"
    "length (fh_memory sample_fault) = 0x9000"
    using AddressSpace_spec [OF run] len by auto
  have al: "fh_allocator sample_fault = \<lparr>total_page_count = 9, first_allocatable_page = 8, free_page_count = 1,
       allocated_pages = replicate 8 True @ [False]\<rparr>" by (simp add: sample_fault_def)
  have inv: "allocator_inv (fh_allocator sample_fault)"
    unfolding al by (simp add: allocator_inv_def nth_append)
  have "page_fault_linear_address (paging (fh_cpu sample_fault)) = 0x40000010" by (simp add: sample_fault_def)
  then show "fault_ok sample_fault"
    using sp(1,3) inv by (simp add: fault_ok_def al is_canonical_linear_address_def CANONICAL_SIGN_BIT_def
        CANONICAL_HIGH_MASK_def)
  show "0 < free_page_count (fh_allocator sample_fault)"
    "4096 * total_page_count (fh_allocator sample_fault) \<le> length (fh_memory sample_fault)"
    using sp(4) by (simp_all add: al)
  show "table_room 3 (fault_builder sample_fault)"
    using sp(3,4) by (simp add: table_room_def fault_builder_def as_builder_def)
  show "no_large_page (fault_walk True (fault_page sample_fault) sample_fault)"
    using sp(2) by (simp add: fault_walk_def no_large_page_def)
  show "tf_vector sample_fault_frame = vector_page_fault" by (simp add: sample_fault_frame_def)
  show "is_not_present_fault sample_fault_frame"
    by (simp add: is_not_present_fault_def has_page_fault_error_bit_def has_error_code_def error_code_def
        sample_fault_frame_def PAGE_FAULT_ERROR_PRESENT_BIT_def PAGE_FAULT_ERROR_RESERVED_BIT_def)
qed

section \<open>Properties\<close>

text \<open>
  C3: The page-fault handler on every branch. Traps that are no page fault and faults on a present
  page are answered without changing anything. A not-present fault that is handled gets a frame
  that was free, full of zeros, mapped at the faulting page with the permissions of the access,
  while every other translation and all other memory above the tables is unchanged; the space is
  active and the trap is cleared. When memory or table pages run out, the frame is given back, no
  translation has changed and the trap stays pending. No allocation error escapes.
\<close>

theorem handle_page_fault_correct:
  assumes "fault_ok s" and "handle_page_fault tf s = (r, s')"
  shows "case r of
      Inr NOT_PAGE_FAULT \<Rightarrow> tf_vector tf \<noteq> vector_page_fault \<and> s' = s
    | Inr PROTECTION_FAULT \<Rightarrow> tf_vector tf = vector_page_fault \<and> \<not> is_not_present_fault tf \<and> s' = s
    | Inr HANDLED \<Rightarrow> tf_vector tf = vector_page_fault \<and> is_not_present_fault tf \<and>
        as_ok (fh_space s', fh_memory s') \<and> allocator_inv (fh_allocator s') \<and>
        (\<exists>p. page_served s s' (permissions_for_fault tf) p)
    | Inr OUT_OF_MEMORY \<Rightarrow> tf_vector tf = vector_page_fault \<and> is_not_present_fault tf \<and>
        allocator_inv (fh_allocator s') \<and> used_pages (fh_allocator s') = used_pages (fh_allocator s) \<and>
        fh_cpu s' = fh_cpu s \<and> (\<forall>nxe la. fault_walk nxe la s' = fault_walk nxe la s)
    | Inl x \<Rightarrow> x \<noteq> Bad_alloc \<and> x \<noteq> Out_of_range \<and> fh_cpu s' = fh_cpu s \<and>
        (\<forall>nxe la. fault_walk nxe la s' = fault_walk nxe la s)"
proof (cases "tf_vector tf = vector_page_fault \<and> is_not_present_fault tf")
  case False
  then show ?thesis using assms(2)
    by (cases "tf_vector tf = vector_page_fault") (auto simp: handle_page_fault_def op_simps)
next
  case True
  have inv: "allocator_inv (fh_allocator s)" using assms(1) by (simp add: fault_ok_def)
  show ?thesis
  proof (cases "allocate_page (fh_allocator s)")
    case (Pair ra al1)
    show ?thesis
    proof (cases ra)
      case (Inl e)
      then have "e = Bad_alloc" "al1 = fh_allocator s" using allocate_page_error [OF inv] Pair by auto
      then have "r = Inr OUT_OF_MEMORY" "s' = s"
        using assms(2) True Pair Inl by (auto simp: handle_page_fault_def op_simps on_allocator_def)
      then show ?thesis using True inv by simp
    next
      case (Inr p)
      from handle_allocated [OF assms(1) Pair [unfolded Inr] conjunct1 [OF True] conjunct2 [OF True] assms(2)]
      show ?thesis using True by (auto split: sum.splits page_fault_result.splits)
    qed
  qed
qed

theorem handle_page_fault_correct_witness:
  "\<exists>s'. handle_page_fault sample_fault_frame sample_fault = (Inr HANDLED, s') \<and>
     (\<exists>p. page_served sample_fault s' (permissions_for_fault sample_fault_frame) p)"
proof -
  obtain s' where run: "handle_page_fault sample_fault_frame sample_fault = (Inr HANDLED, s')"
    using handle_succeeds [OF sample_fault_facts] by (metis prod.collapse)
  from handle_page_fault_correct [OF sample_fault_facts(1) run] run show ?thesis by simp
qed

text \<open>
  A not-present fault is served whenever there is a free frame inside the memory, room for
  three tables and no large page over the faulting address: the handler returns \<open>HANDLED\<close>.
\<close>

lemma handle_page_fault_served:
  assumes "fault_ok s" and "tf_vector tf = vector_page_fault" and "is_not_present_fault tf"
    and "0 < free_page_count (fh_allocator s)"
    and "4096 * total_page_count (fh_allocator s) \<le> length (fh_memory s)"
    and "table_room 3 (fault_builder s)" and "no_large_page (fault_walk True (fault_page s) s)"
  shows "fst (handle_page_fault tf s) = Inr HANDLED"
  by (rule handle_succeeds [OF assms])

lemma handle_page_fault_served_witness: "fst (handle_page_fault sample_fault_frame sample_fault) = Inr HANDLED"
  by (rule handle_page_fault_served [OF sample_fault_facts])

end
