(* ===== verification/Tlb.thy ===== *)
theory Tlb
  imports PageWalk
begin

unbundle bit_operations_syntax

text \<open>
  The translation lookaside buffer, \<^verbatim>\<open>src/cpu/memory/tlb.cpp\<close>: 64 direct-mapped slots and a
  count of the valid ones. The locale \<open>translation_cache\<close> states what a user of such a cache relies
  on: a hit was inserted with the same tag, and what is invalidated is not found again. It is
  interpreted on the buffer.
\<close>

section \<open>The buffer\<close>

record tlb_entry =
  te_translation :: page_translation
  te_paging_generation :: qword
  te_context_id :: process_context_id
  te_valid :: bool

record tlb =
  tlb_entries :: "tlb_entry list"
  tlb_size :: nat

definition TRANSLATION_LOOKASIDE_BUFFER_ENTRY_COUNT :: nat where
  "TRANSLATION_LOOKASIDE_BUFFER_ENTRY_COUNT = 64"

definition empty_translation :: page_translation where
  "empty_translation = \<lparr>virtual_page_base = 0, physical_frame_base = 0,
     page_size_bytes = PAGE_SIZE_4K_BYTES, permissions = PagePermissions False False True,
     leaf_entry_address = 0, dirty = False\<rparr>"

definition empty_tlb_entry :: tlb_entry where
  "empty_tlb_entry = \<lparr>te_translation = empty_translation, te_paging_generation = 0,
     te_context_id = kernel_context, te_valid = False\<rparr>"

definition initial_tlb :: tlb where
  "initial_tlb = \<lparr>tlb_entries = replicate TRANSLATION_LOOKASIDE_BUFFER_ENTRY_COUNT empty_tlb_entry,
     tlb_size = 0\<rparr>"

definition slot_index :: "address64 \<Rightarrow> nat" where
  "slot_index linear_address =
     unat (drop_bit 12 linear_address) mod TRANSLATION_LOOKASIDE_BUFFER_ENTRY_COUNT"

definition tlb_empty :: "tlb \<Rightarrow> bool" where
  "tlb_empty t \<longleftrightarrow> tlb_size t = 0"

definition tlb_capacity :: "tlb \<Rightarrow> nat" where
  "tlb_capacity t = length (tlb_entries t)"

definition tlb_clear :: "tlb \<Rightarrow> tlb" where
  "tlb_clear t = t\<lparr>tlb_entries := map (te_valid_update (\<lambda>_. False)) (tlb_entries t), tlb_size := 0\<rparr>"

text \<open>
  The loop shared by the three invalidations: every valid entry that is selected is marked invalid
  and the count goes down by one.
\<close>

fun invalidate_loop :: "(tlb_entry \<Rightarrow> bool) \<Rightarrow> tlb_entry list \<Rightarrow> nat \<Rightarrow> tlb_entry list \<times> nat" where
  "invalidate_loop sel [] n = ([], n)"
| "invalidate_loop sel (e # es) n =
     (if te_valid e \<and> sel e
      then let (es', n') = invalidate_loop sel es (n - 1) in (e\<lparr>te_valid := False\<rparr> # es', n')
      else let (es', n') = invalidate_loop sel es n in (e # es', n'))"

definition invalidate_where :: "(tlb_entry \<Rightarrow> bool) \<Rightarrow> tlb \<Rightarrow> tlb" where
  "invalidate_where sel t =
     (let (es, n) = invalidate_loop sel (tlb_entries t) (tlb_size t)
      in t\<lparr>tlb_entries := es, tlb_size := n\<rparr>)"

definition tlb_invalidate_page :: "address64 \<Rightarrow> tlb \<Rightarrow> tlb" where
  "tlb_invalidate_page linear_address =
     invalidate_where (\<lambda>e. translation_contains (te_translation e) linear_address)"

definition tlb_invalidate_page_context :: "address64 \<Rightarrow> process_context_id \<Rightarrow> tlb \<Rightarrow> tlb" where
  "tlb_invalidate_page_context linear_address context_id =
     invalidate_where (\<lambda>e. te_context_id e = context_id \<and>
       translation_contains (te_translation e) linear_address)"

definition tlb_invalidate_context :: "process_context_id \<Rightarrow> tlb \<Rightarrow> tlb" where
  "tlb_invalidate_context context_id = invalidate_where (\<lambda>e. te_context_id e = context_id)"

definition tlb_lookup ::
  "tlb \<Rightarrow> address64 \<Rightarrow> qword \<Rightarrow> process_context_id \<Rightarrow> page_translation option" where
  "tlb_lookup t linear_address paging_generation context_id =
     (let entry = tlb_entries t ! slot_index linear_address in
      if \<not> te_valid entry \<or> te_paging_generation entry \<noteq> paging_generation \<or>
         te_context_id entry \<noteq> context_id \<or>
         \<not> translation_contains (te_translation entry) linear_address
      then None else Some (te_translation entry))"

definition tlb_insert :: "page_translation \<Rightarrow> qword \<Rightarrow> process_context_id \<Rightarrow> tlb \<Rightarrow> tlb" where
  "tlb_insert tr paging_generation context_id t =
     (let i = slot_index (virtual_page_base tr);
          n = (if \<not> te_valid (tlb_entries t ! i) then tlb_size t + 1 else tlb_size t)
      in t\<lparr>tlb_entries := (tlb_entries t)[i := \<lparr>te_translation = tr,
             te_paging_generation = paging_generation, te_context_id = context_id, te_valid = True\<rparr>],
           tlb_size := n\<rparr>)"

text \<open>\<^verbatim>\<open>lookup\<close> returns a pointer into the slot; \<open>tlb_modify\<close> is an assignment through it.\<close>

definition tlb_modify :: "address64 \<Rightarrow> (page_translation \<Rightarrow> page_translation) \<Rightarrow> tlb \<Rightarrow> tlb" where
  "tlb_modify linear_address f t =
     (let i = slot_index linear_address in
      t\<lparr>tlb_entries := (tlb_entries t)[i := te_translation_update f (tlb_entries t ! i)]\<rparr>)"

section \<open>Invariant\<close>

definition tlb_inv :: "tlb \<Rightarrow> bool" where
  "tlb_inv t \<longleftrightarrow> length (tlb_entries t) = 64 \<and> tlb_size t = length (filter te_valid (tlb_entries t))"

lemma slot_index_less [simp]: "slot_index a < 64"
  by (simp add: slot_index_def TRANSLATION_LOOKASIDE_BUFFER_ENTRY_COUNT_def)

lemma tlb_inv_slot [simp]: "tlb_inv t \<Longrightarrow> slot_index a < length (tlb_entries t)"
  by (simp add: tlb_inv_def)

lemma tlb_inv_size: "tlb_inv t \<Longrightarrow> tlb_size t \<le> length (tlb_entries t)"
  by (metis length_filter_le tlb_inv_def)

lemma tlb_inv_initial: "tlb_inv initial_tlb"
  by (simp add: tlb_inv_def initial_tlb_def TRANSLATION_LOOKASIDE_BUFFER_ENTRY_COUNT_def empty_tlb_entry_def)

lemma tlb_inv_clear: "tlb_inv t \<Longrightarrow> tlb_inv (tlb_clear t)"
  by (simp add: tlb_inv_def tlb_clear_def filter_empty_conv)

lemma invalidate_loop_run:
  assumes "length (filter te_valid es) \<le> n"
  shows "invalidate_loop sel es n =
    (map (\<lambda>e. if sel e then e\<lparr>te_valid := False\<rparr> else e) es,
     n - length (filter (\<lambda>e. te_valid e \<and> sel e) es))"
  using assms
proof (induction es arbitrary: n)
  case Nil
  then show ?case by simp
next
  case (Cons e es)
  have "\<not> te_valid e \<Longrightarrow> e\<lparr>te_valid := False\<rparr> = e" by (cases e) simp
  with Cons show ?case by (auto split: if_splits)
qed

lemma length_filter_split:
  "length (filter P xs) = length (filter (\<lambda>x. P x \<and> Q x) xs) + length (filter (\<lambda>x. P x \<and> \<not> Q x) xs)"
  by (induction xs) auto

lemma invalidate_where_entries:
  assumes "tlb_inv t"
  shows "tlb_entries (invalidate_where sel t) =
      map (\<lambda>e. if sel e then e\<lparr>te_valid := False\<rparr> else e) (tlb_entries t)"
    and "tlb_size (invalidate_where sel t) =
      length (filter (\<lambda>e. te_valid e \<and> \<not> sel e) (tlb_entries t))"
proof -
  have "length (filter te_valid (tlb_entries t)) \<le> tlb_size t" using assms by (simp add: tlb_inv_def)
  note run = invalidate_loop_run [OF this, of sel]
  show "tlb_entries (invalidate_where sel t) =
      map (\<lambda>e. if sel e then e\<lparr>te_valid := False\<rparr> else e) (tlb_entries t)"
    by (simp add: invalidate_where_def run)
  show "tlb_size (invalidate_where sel t) =
      length (filter (\<lambda>e. te_valid e \<and> \<not> sel e) (tlb_entries t))"
    unfolding invalidate_where_def run
    using assms length_filter_split [of te_valid "tlb_entries t" sel] by (simp add: tlb_inv_def)
qed

lemma tlb_inv_invalidate: "tlb_inv t \<Longrightarrow> tlb_inv (invalidate_where sel t)"
  unfolding tlb_inv_def invalidate_where_entries [unfolded tlb_inv_def]
  by (auto simp: filter_map comp_def intro!: arg_cong [where f = length] filter_cong)

lemma tlb_inv_insert: "tlb_inv t \<Longrightarrow> tlb_inv (tlb_insert tr g c t)"
  using filter_length_update [of "slot_index (virtual_page_base tr)" "tlb_entries t" te_valid
      "\<lparr>te_translation = tr, te_paging_generation = g, te_context_id = c, te_valid = True\<rparr>"]
  by (auto simp: tlb_inv_def tlb_insert_def Let_def split: if_splits)

lemma tlb_inv_modify: "tlb_inv t \<Longrightarrow> tlb_inv (tlb_modify a f t)"
  using filter_length_update [of "slot_index a" "tlb_entries t" te_valid
      "te_translation_update f (tlb_entries t ! slot_index a)"]
  by (auto simp: tlb_inv_def tlb_modify_def Let_def)

lemmas tlb_inv_intros = tlb_inv_initial tlb_inv_clear tlb_inv_invalidate tlb_inv_insert tlb_inv_modify

section \<open>What a hit means\<close>

text \<open>The cached associations: tag and translation of the valid entries.\<close>

definition tlb_cached :: "tlb \<Rightarrow> (qword \<times> process_context_id \<times> page_translation) set" where
  "tlb_cached t = {(te_paging_generation e, te_context_id e, te_translation e) | e.
     e \<in> set (tlb_entries t) \<and> te_valid e}"

lemma tlb_lookup_cached:
  "tlb_inv t \<Longrightarrow> tlb_lookup t a g c = Some tr \<Longrightarrow>
     (g, c, tr) \<in> tlb_cached t \<and> translation_contains tr a"
  by (auto simp: tlb_lookup_def tlb_cached_def Let_def split: if_splits intro!: nth_mem)

lemma tlb_cached_insert:
  "tlb_cached (tlb_insert tr g c t) \<subseteq> insert (g, c, tr) (tlb_cached t)"
  using set_update_subset_insert [of "tlb_entries t"]
  by (fastforce simp: tlb_cached_def tlb_insert_def Let_def)

lemma tlb_cached_invalidate:
  "tlb_inv t \<Longrightarrow> tlb_cached (invalidate_where sel t) =
     {(te_paging_generation e, te_context_id e, te_translation e) | e.
        e \<in> set (tlb_entries t) \<and> te_valid e \<and> \<not> sel e}"
  by (force simp: tlb_cached_def invalidate_where_entries split: if_splits)

lemma tlb_cached_initial: "tlb_cached initial_tlb = {}"
  by (auto simp: tlb_cached_def initial_tlb_def empty_tlb_entry_def)

lemma tlb_cached_clear: "tlb_cached (tlb_clear t) = {}"
  by (auto simp: tlb_cached_def tlb_clear_def)

lemma tlb_cached_modify:
  assumes "tlb_inv t" and "tlb_lookup t a g c = Some tr"
  shows "tlb_cached (tlb_modify a f t) \<subseteq> insert (g, c, f tr) (tlb_cached t)"
  using assms set_update_subset_insert [of "tlb_entries t" "slot_index a"]
  by (fastforce simp: tlb_cached_def tlb_modify_def tlb_lookup_def Let_def split: if_splits)

locale translation_cache =
  fixes ok :: "'c \<Rightarrow> bool"
    and find :: "'c \<Rightarrow> 'a \<Rightarrow> 'g \<Rightarrow> 'i \<Rightarrow> 't option"
    and cached :: "'c \<Rightarrow> ('g \<times> 'i \<times> 't) set"
    and put :: "'t \<Rightarrow> 'g \<Rightarrow> 'i \<Rightarrow> 'c \<Rightarrow> 'c"
    and covers :: "'t \<Rightarrow> 'a \<Rightarrow> bool"
  assumes find_cached: "ok c \<Longrightarrow> find c a g i = Some t \<Longrightarrow> (g, i, t) \<in> cached c \<and> covers t a"
    and put_cached: "cached (put t g i c) \<subseteq> insert (g, i, t) (cached c)"
    and put_ok: "ok c \<Longrightarrow> ok (put t g i c)"
begin

text \<open>A property of the cached associations is a property of every hit, and is kept by an insertion
  that has it.\<close>

definition coherent :: "('g \<Rightarrow> 'i \<Rightarrow> 't \<Rightarrow> bool) \<Rightarrow> 'c \<Rightarrow> bool" where
  "coherent P c \<longleftrightarrow> ok c \<and> (\<forall>g i t. (g, i, t) \<in> cached c \<longrightarrow> P g i t)"

lemma coherent_find: "coherent P c \<Longrightarrow> find c a g i = Some t \<Longrightarrow> P g i t \<and> covers t a"
  unfolding coherent_def using find_cached by blast

lemma coherent_put: "coherent P c \<Longrightarrow> P g i t \<Longrightarrow> coherent P (put t g i c)"
  unfolding coherent_def using put_ok put_cached by fastforce

lemma coherent_mono: "coherent P c \<Longrightarrow> (\<And>g i t. P g i t \<Longrightarrow> Q g i t) \<Longrightarrow> coherent Q c"
  unfolding coherent_def by blast

end

interpretation tlbc: translation_cache tlb_inv tlb_lookup tlb_cached tlb_insert translation_contains
  by unfold_locales (auto dest: tlb_lookup_cached subsetD [OF tlb_cached_insert] simp: tlb_inv_insert)

lemma tlb_lookup_insert:
  assumes "tlb_inv t" and "translation_contains tr (virtual_page_base tr)"
  shows "tlb_lookup (tlb_insert tr g c t) (virtual_page_base tr) g c = Some tr"
    using assms by (simp add: tlb_lookup_def tlb_insert_def Let_def)

section \<open>Properties\<close>

text \<open>
  The entry count of the TLB is the number of valid slots after every operation: clear, the
  three invalidations and insert; so it never exceeds the capacity.
\<close>

lemma tlb_size_exact:
  assumes "tlb_inv t"
  shows "tlb_inv (tlb_clear t) \<and> tlb_inv (tlb_invalidate_page a t) \<and>
    tlb_inv (tlb_invalidate_page_context a c t) \<and> tlb_inv (tlb_invalidate_context c t) \<and>
    tlb_inv (tlb_insert tr g c t) \<and> tlb_size t \<le> tlb_capacity t"
  using assms
  by (auto simp: tlb_invalidate_page_def tlb_invalidate_page_context_def tlb_invalidate_context_def
      tlb_capacity_def tlb_inv_size intro: tlb_inv_intros)

lemma tlb_size_exact_witness: "tlb_inv (tlb_insert empty_translation 0 0 initial_tlb)"
  using tlb_size_exact [OF tlb_inv_initial, of 0 0 empty_translation 0] by blast

text \<open>
  TLB contents. A translation just inserted is found at its page base under its own generation
  and context; after an invalidation of an address (or of a context) no lookup of that address (in
  that context) hits; and every hit carries the generation and context asked for.
\<close>

lemma tlb_lookup_correct:
  assumes "tlb_inv t"
  shows "(translation_contains tr (virtual_page_base tr) \<longrightarrow>
      tlb_lookup (tlb_insert tr g c t) (virtual_page_base tr) g c = Some tr) \<and>
    tlb_lookup (tlb_invalidate_page a t) a g c = None \<and>
    tlb_lookup (tlb_invalidate_page_context a c t) a g c = None \<and>
    tlb_lookup (tlb_invalidate_context c t) a g c = None \<and>
    tlb_lookup (tlb_clear t) a g c = None \<and>
    (c' \<noteq> c \<longrightarrow> tlb_lookup (tlb_invalidate_context c' t) a g c = tlb_lookup t a g c)"
proof -
  have none: "tlb_lookup t' a g c = None"
    if "tlb_inv t'" "\<And>tr. (g, c, tr) \<in> tlb_cached t' \<Longrightarrow> \<not> translation_contains tr a" for t'
    using tlb_lookup_cached [OF that(1), of a g c] that(2) by (cases "tlb_lookup t' a g c") auto
  have "tlb_lookup (tlb_insert tr g c t) (virtual_page_base tr) g c = Some tr"
    if "translation_contains tr (virtual_page_base tr)"
    using assms that by (rule tlb_lookup_insert)
  moreover have "tlb_lookup (tlb_invalidate_page a t) a g c = None"
    "tlb_lookup (tlb_invalidate_page_context a c t) a g c = None"
    "tlb_lookup (tlb_invalidate_context c t) a g c = None" "tlb_lookup (tlb_clear t) a g c = None"
    using assms
    by (auto intro!: none simp: tlb_invalidate_page_def tlb_invalidate_page_context_def
        tlb_invalidate_context_def tlb_cached_invalidate tlb_cached_clear tlb_inv_intros)
  moreover have "tlb_lookup (tlb_invalidate_context c' t) a g c = tlb_lookup t a g c" if "c' \<noteq> c"
    using that assms
    by (auto simp: tlb_lookup_def tlb_invalidate_context_def invalidate_where_entries Let_def)
  ultimately show ?thesis by blast
qed

lemma tlb_lookup_correct_witness:
  "tlb_lookup (tlb_insert empty_translation 7 3 initial_tlb) 0 7 3 = Some empty_translation"
  using tlb_lookup_correct [OF tlb_inv_initial, of empty_translation 7 3]
  by (simp add: empty_translation_def translation_contains_def PAGE_SIZE_4K_BYTES_def)

end
