(* ===== verification/Mmu.thy ===== *)
theory Mmu
  imports PageBuild Tlb
begin

unbundle bit_operations_syntax

text \<open>
  The memory management unit, \<^verbatim>\<open>src/cpu/memory/mmu.cpp\<close>. Its state is the TLB, the physical
  memory behind the bus it is given, and the attached performance model, of which only the calls it
  receives matter here: they are logged in order (the model is attached or absent as the pointer
  is). The paging state is read and never written. Coherence of the TLB with the tables
  (\<open>mmu_coherent\<close>) makes \<open>translate\<close> equal to the pure walk, whether it hits or misses.
\<close>

section \<open>The unit\<close>

datatype perf_event =
    Tlb_hit
  | Tlb_miss
  | Data_read address64 nat
  | Data_write address64 nat
  | Instruction_fetch address64 nat
  | Retired_instruction bool bool
  | Exception_flush

record mmu_state =
  mmu_tlb :: tlb
  mmu_perf :: "perf_event list option"
  mmu_mem :: phys_mem

definition mmu_bus :: "(phys_mem, 'a) op \<Rightarrow> (mmu_state, 'a) op" where
  "mmu_bus = focus mmu_mem mmu_mem_update"

definition attach_stage8_performance_model :: "perf_event list \<Rightarrow> mmu_state \<Rightarrow> mmu_state" where
  "attach_stage8_performance_model log s = s\<lparr>mmu_perf := Some log\<rparr>"

definition detach_stage8_performance_model :: "mmu_state \<Rightarrow> mmu_state" where
  "detach_stage8_performance_model s = s\<lparr>mmu_perf := None\<rparr>"

definition record_event :: "perf_event \<Rightarrow> (mmu_state, unit) op" where
  "record_event e = modify (mmu_perf_update (map_option (\<lambda>log. log @ [e])))"

definition record_tlb_hit :: "(mmu_state, unit) op" where
  "record_tlb_hit = record_event Tlb_hit"
definition record_tlb_miss :: "(mmu_state, unit) op" where
  "record_tlb_miss = record_event Tlb_miss"
definition record_data_read :: "address64 \<Rightarrow> nat \<Rightarrow> (mmu_state, unit) op" where
  "record_data_read physical_address byte_count = record_event (Data_read physical_address byte_count)"
definition record_data_write :: "address64 \<Rightarrow> nat \<Rightarrow> (mmu_state, unit) op" where
  "record_data_write physical_address byte_count = record_event (Data_write physical_address byte_count)"

definition is_access_within_4k_page :: "address64 \<Rightarrow> nat \<Rightarrow> bool" where
  "is_access_within_4k_page linear_address byte_count =
     (let offset = linear_address AND PAGE_OFFSET_MASK_4K
      in offset + of_nat byte_count \<le> PAGE_SIZE_4K_BYTES)"

definition flush_tlb :: "mmu_state \<Rightarrow> mmu_state" where
  "flush_tlb = mmu_tlb_update tlb_clear"

definition flush_tlb_context :: "process_context_id \<Rightarrow> mmu_state \<Rightarrow> mmu_state" where
  "flush_tlb_context context_id = mmu_tlb_update (tlb_invalidate_context context_id)"

definition mmu_invalidate_page :: "address64 \<Rightarrow> mmu_state \<Rightarrow> mmu_state" where
  "mmu_invalidate_page linear_address = mmu_tlb_update (tlb_invalidate_page linear_address)"

definition mmu_invalidate_page_context :: "address64 \<Rightarrow> process_context_id \<Rightarrow> mmu_state \<Rightarrow> mmu_state" where
  "mmu_invalidate_page_context linear_address context_id =
     mmu_tlb_update (tlb_invalidate_page_context linear_address context_id)"

definition ensure_cached_access_allowed ::
  "paging_state \<Rightarrow> page_translation \<Rightarrow> privilege_level \<Rightarrow> address64 \<Rightarrow> memory_access_kind \<Rightarrow>
   ('s, unit) op" where
  "ensure_cached_access_allowed ps tr pl la k =
     (let p = permissions tr in
      if is_user_access pl \<and> \<not> user_accessible p then throw_page_fault la k pl USER_SUPERVISOR
      else if k = WRITE \<and> \<not> writable p \<and> \<not> is_write_allowed_for_read_only_page ps pl
           then throw_page_fault la k pl WRITE_PROTECTION
      else if k = EXECUTE \<and> \<not> executable p then throw_page_fault la k pl EXECUTE_DISABLE
      else ret ())"

definition mark_cached_translation_dirty ::
  "address64 \<Rightarrow> page_translation \<Rightarrow> (mmu_state, unit) op" where
  "mark_cached_translation_dirty la tr =
     bnd (mmu_bus (mem_read (leaf_entry_address tr) QWORD)) (\<lambda>entry.
       let updated_entry = with_dirty entry in
       sq (if updated_entry \<noteq> entry
           then mmu_bus (mem_write (leaf_entry_address tr) QWORD updated_entry) else ret ())
          (modify (mmu_tlb_update (tlb_modify la (set_dirty True)))))"

definition translate_enabled ::
  "paging_state \<Rightarrow> privilege_level \<Rightarrow> address64 \<Rightarrow> memory_access_kind \<Rightarrow> (mmu_state, address64) op" where
  "translate_enabled ps pl la k =
     bnd (gets (\<lambda>s. tlb_lookup (mmu_tlb s) la (generation ps) (paging_state.process_context_id ps))) (\<lambda>hit.
     case hit of
       Some cached_translation \<Rightarrow>
         sq record_tlb_hit
        (sq (ensure_cached_access_allowed ps cached_translation pl la k)
        (sq (if k = WRITE \<and> \<not> dirty cached_translation
             then mark_cached_translation_dirty la cached_translation else ret ())
            (ret (translation_translate cached_translation la))))
     | None \<Rightarrow>
         sq record_tlb_miss
        (bnd (mmu_bus (walker_translate ps la k pl)) (\<lambda>translation.
         let physical_address = translation_translate translation la in
         sq (modify (mmu_tlb_update
               (tlb_insert translation (generation ps) (paging_state.process_context_id ps))))
            (ret physical_address))))"

definition mmu_translate ::
  "paging_state \<Rightarrow> privilege_level \<Rightarrow> address64 \<Rightarrow> memory_access_kind \<Rightarrow> (mmu_state, address64) op" where
  "mmu_translate ps pl la k =
     (if \<not> paging_enabled ps then ret la else translate_enabled ps pl la k)"

text \<open>The byte loops of the accesses that straddle two pages.\<close>

fun read_bytes_loop ::
  "paging_state \<Rightarrow> privilege_level \<Rightarrow> address64 \<Rightarrow> nat list \<Rightarrow> qword \<Rightarrow> (mmu_state, qword) op" where
  "read_bytes_loop ps pl la [] v = ret v"
| "read_bytes_loop ps pl la (i # is) v =
     bnd (translate_enabled ps pl (la + of_nat i) READ) (\<lambda>pa.
     sq (record_data_read pa 1)
    (bnd (mmu_bus (mem_read pa BYTE)) (\<lambda>b.
     read_bytes_loop ps pl la is (v OR push_bit (i * 8) b))))"

fun translate_bytes_loop ::
  "paging_state \<Rightarrow> privilege_level \<Rightarrow> address64 \<Rightarrow> nat list \<Rightarrow> (mmu_state, address64 list) op" where
  "translate_bytes_loop ps pl la [] = ret []"
| "translate_bytes_loop ps pl la (i # is) =
     bnd (translate_enabled ps pl (la + of_nat i) WRITE) (\<lambda>pa.
     bnd (translate_bytes_loop ps pl la is) (\<lambda>pas. ret (pa # pas)))"

fun write_bytes_loop :: "qword \<Rightarrow> nat \<Rightarrow> address64 list \<Rightarrow> (mmu_state, unit) op" where
  "write_bytes_loop value i [] = ret ()"
| "write_bytes_loop value i (pa # pas) =
     sq (record_data_write pa 1)
    (sq (mmu_bus (mem_write pa BYTE (drop_bit (i * 8) value AND 0xFF)))
        (write_bytes_loop value (Suc i) pas))"

definition mmu_read ::
  "paging_state \<Rightarrow> privilege_level \<Rightarrow> address64 \<Rightarrow> data_size \<Rightarrow> (mmu_state, qword) op" where
  "mmu_read ps pl la sz =
     bnd (lift_sum (data_size_to_bytes sz)) (\<lambda>byte_count.
       if \<not> paging_enabled ps \<or> is_access_within_4k_page la byte_count
       then bnd (mmu_translate ps pl la READ) (\<lambda>pa.
            sq (record_data_read pa byte_count)
               (mmu_bus (mem_read pa sz)))
       else read_bytes_loop ps pl la [0..<byte_count] 0)"

definition mmu_write ::
  "paging_state \<Rightarrow> privilege_level \<Rightarrow> address64 \<Rightarrow> data_size \<Rightarrow> qword \<Rightarrow> (mmu_state, unit) op" where
  "mmu_write ps pl la sz value =
     bnd (lift_sum (data_size_to_bytes sz)) (\<lambda>byte_count.
       if \<not> paging_enabled ps \<or> is_access_within_4k_page la byte_count
       then bnd (mmu_translate ps pl la WRITE) (\<lambda>pa.
            sq (record_data_write pa byte_count)
               (mmu_bus (mem_write pa sz value)))
       else bnd (translate_bytes_loop ps pl la [0..<byte_count]) (\<lambda>pas.
            write_bytes_loop value 0 pas))"

text \<open>One step of \<^verbatim>\<open>check_access_range\<close>: the bytes up to the end of the current page.\<close>

definition range_step :: "address64 \<Rightarrow> nat \<Rightarrow> nat" where
  "range_step linear_address byte_count =
     (let offset = linear_address AND PAGE_OFFSET_MASK_4K;
          bytes_until_next_page = unat (PAGE_SIZE_4K_BYTES - offset)
      in min byte_count bytes_until_next_page)"

lemma range_step_pos: "0 < n \<Longrightarrow> 0 < range_step la n"
proof -
  have "PAGE_OFFSET_MASK_4K = mask 12"
    using page_size_masks(1) by (simp only: PAGE_OFFSET_MASK_4K_def)
  then have "la AND PAGE_OFFSET_MASK_4K < PAGE_SIZE_4K_BYTES"
    using and_mask_less_size [of 12 la] by (simp add: page_size_exp word_size)
  then have "unat (PAGE_SIZE_4K_BYTES - (la AND PAGE_OFFSET_MASK_4K)) \<noteq> 0"
    by (simp add: unat_eq_0)
  then show "0 < n \<Longrightarrow> 0 < range_step la n" by (simp add: range_step_def Let_def)
qed

lemma range_step_le: "range_step la n \<le> n"
  by (simp add: range_step_def Let_def)

function check_range_loop ::
  "paging_state \<Rightarrow> privilege_level \<Rightarrow> address64 \<Rightarrow> nat \<Rightarrow> memory_access_kind \<Rightarrow> (mmu_state, unit) op" where
  "check_range_loop ps pl la n k =
     (if n = 0 then ret ()
      else sq (translate_enabled ps pl la k)
             (check_range_loop ps pl (la + of_nat (range_step la n)) (n - range_step la n) k))"
  by pat_completeness auto
termination
  by (relation "measure (\<lambda>(ps, pl, la, n, k). n)") (auto simp: range_step_pos)

declare check_range_loop.simps [simp del]

definition check_access_range ::
  "paging_state \<Rightarrow> privilege_level \<Rightarrow> address64 \<Rightarrow> nat \<Rightarrow> memory_access_kind \<Rightarrow> (mmu_state, unit) op" where
  "check_access_range ps pl la n k =
     (if \<not> paging_enabled ps \<or> n = 0 then ret () else check_range_loop ps pl la n k)"

section \<open>One translation serves a whole page\<close>

lemma add_offset_bits:
  fixes la' base :: address64
  assumes "la' - base < 2 ^ n" and "\<forall>k < n. \<not> bit base k" and "n < 64" and "n \<le> k"
  shows "bit la' k = bit base k"
proof -
  define off where "off = la' - base"
  have la': "la' = base + off" by (simp add: off_def)
  have off: "take_bit n off = off"
    using less_mask_eq [of off n] assms(1) by (simp add: take_bit_eq_mask off_def)
  have obit: "bit off k \<Longrightarrow> k < n" for k by (metis off bit_take_bit_iff)
  have "base + off = base OR off" by (rule disjunctive_add) (use assms(2) obit in blast)
  then show ?thesis using obit [of k] assms(4) by (auto simp: la' bit_or_iff)
qed

lemma translation_contains_iff:
  assumes "virtual_page_base tr = page_base la (page_size_bytes tr)" and "page_size_bytes tr = 2 ^ n" and "n < 64"
  shows "translation_contains tr la' \<longleftrightarrow> page_base la' (2 ^ n) = page_base la (2 ^ n)"
proof -
  have m: "(2 ^ n - 1 :: address64) = mask n" by (simp add: mask_eq_exp_minus_1)
  note pb = bit_page_base [OF m]
  show ?thesis
  proof
    assume "translation_contains tr la'"
    then have "la' - page_base la (2 ^ n) < 2 ^ n" using assms(1,2) by (simp add: translation_contains_def)
    then have "bit la' k = bit (page_base la (2 ^ n)) k" if "n \<le> k" for k
      using add_offset_bits that assms(3) by (simp add: pb)
    then show "page_base la' (2 ^ n) = page_base la (2 ^ n)"
      by (intro bit_eqI) (auto simp: pb)
  next
    assume eq: "page_base la' (2 ^ n) = page_base la (2 ^ n)"
    have "la' - page_base la' (2 ^ n) = la' AND mask n" by (rule page_base_offset [OF m])
    moreover have "la' AND mask n < 2 ^ n" using assms(3) by (intro and_mask_less_size) (simp add: word_size)
    moreover have "page_base la' (2 ^ n) \<le> la'" by (simp add: page_base_def word_and_le2)
    ultimately show "translation_contains tr la'" using assms(1,2) eq by (simp add: translation_contains_def)
  qed
qed

lemma page_base_eq_bits:
  assumes "page_base la' (2 ^ n) = page_base la (2 ^ n)" and "n \<le> k"
  shows "bit la' k = bit la k"
proof -
  have m: "(2 ^ n - 1 :: address64) = mask n" by (simp add: mask_eq_exp_minus_1)
  show ?thesis using arg_cong [OF assms(1), of "\<lambda>w. bit w k"] assms(2) by (simp add: bit_page_base [OF m])
qed

text \<open>The outcome of a walk for every address of the leaf's page.\<close>

lemma page_walk_mapped:
  assumes "page_walk nxe la (drop d WALK_ORDER) t p m = Mapped tr" and "d < 4" and "aligned4k t"
  shows "\<exists>n. page_size_bytes tr = 2 ^ n \<and> 12 \<le> n \<and> n \<le> 39 - 9 * d \<and> n \<le> 30 \<and>
    virtual_page_base tr = page_base la (page_size_bytes tr) \<and> \<not> dirty tr \<and>
    aligned8 (leaf_entry_address tr) \<and> qword_ok m (leaf_entry_address tr) \<and>
    (\<forall>la'. page_base la' (2 ^ n) = page_base la (2 ^ n) \<longrightarrow>
       page_walk nxe la' (drop d WALK_ORDER) t p m = Mapped tr)"
  using assms
proof (induction "4 - d" arbitrary: d t p)
  case 0
  then show ?case by simp
next
  case (Suc x)
  note d = Suc.prems(2)
  let ?a = "entry_address_for_index t (index_at la d)"
  let ?e = "qword_at m ?a" and ?lv = "WALK_ORDER ! d"
  note run = Suc.prems(1) [unfolded page_walk_depth [OF d] Let_def]
  have ok: "qword_ok m ?a" and pres: "is_present ?e" and nres: "\<not> reserved_violation nxe ?e ?lv"
    using run by (auto split: if_splits)
  have idx: "index_at la' d = index_at la d" if "page_base la' (2 ^ n) = page_base la (2 ^ n)" "n \<le> 39 - 9 * d" for la' n
    using page_base_eq_bits [OF that(1)] that(2) d by (intro index_at_cong) auto
  show ?case
  proof (cases "is_leaf_entry ?e ?lv")
    case True
    then obtain sz where sz: "page_size_for_leaf_level ?lv = Inr sz" using is_leaf_page_size by blast
    from less_4_cases [OF d] sz obtain n where n: "sz = 2 ^ n" "n = 39 - 9 * d" "12 \<le> n" "n \<le> 30"
      by (auto simp: WALK_ORDER_def page_size_exp)
    have tr: "tr = \<lparr>virtual_page_base = page_base la sz, physical_frame_base = frame_address ?e sz,
        page_size_bytes = sz, permissions = apply_entry p ?e, leaf_entry_address = ?a, dirty = False\<rparr>"
      using run ok pres nres True sz by simp
    have "page_walk nxe la' (drop d WALK_ORDER) t p m = Mapped tr"
      if same: "page_base la' (2 ^ n) = page_base la (2 ^ n)" for la'
      unfolding page_walk_depth [OF d] Let_def
      using idx [OF same] n ok pres nres True sz same tr by simp
    then show ?thesis using tr n ok aligned8_entry_address [OF Suc.prems(3) index_at_less [OF d]]
      by (intro exI [of _ n]) simp
  next
    case False
    then have next_run: "page_walk nxe la (drop (Suc d) WALK_ORDER) (table_address ?e) (apply_entry p ?e) m = Mapped tr"
      using run ok pres nres by simp
    have d3: "Suc d < 4"
    proof (rule ccontr)
      assume "\<not> Suc d < 4"
      then have "d = 3" using d by simp
      then show False using False by (simp add: is_leaf_entry_def WALK_ORDER_nth_3)
    qed
    have "x = 4 - Suc d" using Suc.hyps(2) by simp
    from Suc.hyps(1) [OF this next_run d3 aligned4k_table_address]
    obtain n where n: "page_size_bytes tr = 2 ^ n" "12 \<le> n" "n \<le> 39 - 9 * Suc d" "n \<le> 30"
      "virtual_page_base tr = page_base la (page_size_bytes tr)" "\<not> dirty tr"
      "aligned8 (leaf_entry_address tr)" "qword_ok m (leaf_entry_address tr)"
      and IH: "\<And>la'. page_base la' (2 ^ n) = page_base la (2 ^ n) \<Longrightarrow>
       page_walk nxe la' (drop (Suc d) WALK_ORDER) (table_address ?e) (apply_entry p ?e) m = Mapped tr"
      by auto
    have "page_walk nxe la' (drop d WALK_ORDER) t p m = Mapped tr"
      if same: "page_base la' (2 ^ n) = page_base la (2 ^ n)" for la'
      unfolding page_walk_depth [OF d] Let_def
      using idx [OF same] n(3) ok pres nres False IH [OF same] by simp
    then show ?thesis using n by (intro exI [of _ n]) simp
  qed
qed

lemma canonical_same_page:
  assumes "page_base la' (2 ^ n) = page_base la (2 ^ n)" and "n \<le> 30"
  shows "is_canonical_linear_address la' = is_canonical_linear_address la"
  unfolding canonical_bits using page_base_eq_bits [OF assms(1)] assms(2) by auto

lemma translation_spec_mapped:
  assumes "translation_spec ps la m = Mapped tr" and "aligned4k (cr3 ps)"
  obtains n where "page_size_bytes tr = 2 ^ n" and "12 \<le> n" and "n \<le> 30"
    and "virtual_page_base tr = page_base la (page_size_bytes tr)" and "\<not> dirty tr"
    and "aligned8 (leaf_entry_address tr)" and "qword_ok m (leaf_entry_address tr)"
    and "\<And>la'. translation_contains tr la' \<Longrightarrow> translation_spec ps la' m = Mapped tr"
    and "translation_contains tr la"
proof -
  have can: "is_canonical_linear_address la" and
    walk: "page_walk (execute_disable_enabled ps) la (drop 0 WALK_ORDER) (cr3 ps)
      initial_effective_permissions m = Mapped tr"
    using assms(1) by (auto simp: translation_spec_def split: if_splits)
  obtain n where n: "page_size_bytes tr = 2 ^ n" "12 \<le> n" "n \<le> 30"
    "virtual_page_base tr = page_base la (page_size_bytes tr)" "\<not> dirty tr"
    "aligned8 (leaf_entry_address tr)" "qword_ok m (leaf_entry_address tr)"
    and same: "\<And>la'. page_base la' (2 ^ n) = page_base la (2 ^ n) \<Longrightarrow>
       page_walk (execute_disable_enabled ps) la' WALK_ORDER (cr3 ps) initial_effective_permissions m = Mapped tr"
    using page_walk_mapped [OF walk _ assms(2)] by auto
  note iff = translation_contains_iff [OF n(4,1)]
  have "translation_spec ps la' m = Mapped tr" if "translation_contains tr la'" for la'
    using that iff n(3) same canonical_same_page [of la' n la] can by (simp add: translation_spec_def)
  moreover have "translation_contains tr la" using iff n(3) by simp
  ultimately show ?thesis using that n by blast
qed

section \<open>Coherence\<close>

text \<open>
  What a cached translation with the current tag promises: it is the tables' translation for every
  address of its page, and if it is flagged dirty so is its leaf entry.
\<close>

definition tlb_good ::
  "paging_state \<Rightarrow> phys_mem \<Rightarrow> qword \<Rightarrow> process_context_id \<Rightarrow> page_translation \<Rightarrow> bool" where
  "tlb_good ps m g c tr \<longleftrightarrow> (g = generation ps \<and> c = paging_state.process_context_id ps \<longrightarrow>
     (\<exists>la. translation_spec ps la m = Mapped (tr\<lparr>dirty := False\<rparr>)) \<and>
     (dirty tr \<longrightarrow> is_dirty (qword_at m (leaf_entry_address tr))))"

definition mmu_coherent :: "paging_state \<Rightarrow> mmu_state \<Rightarrow> bool" where
  "mmu_coherent ps s \<longleftrightarrow> aligned4k (cr3 ps) \<and> tlbc.coherent (tlb_good ps (mmu_mem s)) (mmu_tlb s)"

lemma translation_contains_dirty [simp]:
  "translation_contains (tr\<lparr>dirty := b\<rparr>) a = translation_contains tr a"
  "translation_translate (tr\<lparr>dirty := b\<rparr>) a = translation_translate tr a"
  by (simp_all add: translation_contains_def translation_translate_def)

lemma tlb_good_hit:
  assumes "tlb_good ps m (generation ps) (paging_state.process_context_id ps) tr"
    and "aligned4k (cr3 ps)" and "translation_contains tr la"
  shows "translation_spec ps la m = Mapped (tr\<lparr>dirty := False\<rparr>)"
    and "aligned8 (leaf_entry_address tr)" and "qword_ok m (leaf_entry_address tr)"
proof -
  obtain la0 where la0: "translation_spec ps la0 m = Mapped (tr\<lparr>dirty := False\<rparr>)"
    using assms(1) by (auto simp: tlb_good_def)
  show "translation_spec ps la m = Mapped (tr\<lparr>dirty := False\<rparr>)"
    "aligned8 (leaf_entry_address tr)" "qword_ok m (leaf_entry_address tr)"
    by (rule translation_spec_mapped [OF la0 assms(2)]; use assms(3) in simp)+
qed

lemma tlb_good_ad_le:
  assumes "ad_le m m'" and "aligned4k (cr3 ps)" and "tlb_good ps m g c tr"
  shows "tlb_good ps m' g c tr"
proof -
  have "is_dirty (qword_at m' (leaf_entry_address tr))"
    if d: "dirty tr" and tag: "g = generation ps" "c = paging_state.process_context_id ps"
  proof -
    obtain la0 where la0: "translation_spec ps la0 m = Mapped (tr\<lparr>dirty := False\<rparr>)"
      using assms(3) tag by (auto simp: tlb_good_def)
    then have leaf: "aligned8 (leaf_entry_address tr)" "qword_ok m (leaf_entry_address tr)"
      by (rule translation_spec_mapped [OF _ assms(2)]; simp)+
    have "is_dirty (qword_at m (leaf_entry_address tr))" using assms(3) d tag by (simp add: tlb_good_def)
    then show ?thesis
      using ad_le_qword_at(2) [OF assms(1) leaf] by (simp add: entry_predicates)
  qed
  then show ?thesis
    using assms(3) by (auto simp: tlb_good_def translation_spec_ad_le [OF assms(1,2)])
qed

lemma mmu_coherent_ad_le:
  assumes "mmu_coherent ps s" and "ad_le (mmu_mem s) m'"
  shows "mmu_coherent ps (s\<lparr>mmu_mem := m'\<rparr>)"
  using assms tlbc.coherent_mono tlb_good_ad_le [OF assms(2)] unfolding mmu_coherent_def by fastforce

lemma ensure_cached_access_allowed_run:
  "ensure_cached_access_allowed ps tr pl la k s =
     ((case access_denied ps (permissions tr) k pl of
         Some r \<Rightarrow> Inl (Page_fault (make_page_fault la k pl r)) | None \<Rightarrow> Inr ()), s)"
  by (simp add: ensure_cached_access_allowed_def access_denied_def is_user_access_def
      is_write_allowed_for_read_only_page_def throw_page_fault_def op_simps Let_def)

lemma mmu_coherent_perf [simp]: "mmu_coherent ps (mmu_perf_update f s) = mmu_coherent ps s"
  by (simp add: mmu_coherent_def)

lemma with_dirty_same_mapping: "same_mapping (with_dirty e) e"
  by (simp add: same_mapping_def bit_with_dirty)

lemma mark_cached_translation_dirty_run:
  assumes coh: "mmu_coherent ps s"
    and hit: "tlb_lookup (mmu_tlb s) la (generation ps) (paging_state.process_context_id ps) = Some tr"
  obtains m' where
    "mark_cached_translation_dirty la tr s =
       (Inr (), s\<lparr>mmu_mem := m', mmu_tlb := tlb_modify la (set_dirty True) (mmu_tlb s)\<rparr>)"
    and "ad_le (mmu_mem s) m'" and "is_dirty (qword_at m' (leaf_entry_address tr))"
    and "mmu_coherent ps (s\<lparr>mmu_mem := m', mmu_tlb := tlb_modify la (set_dirty True) (mmu_tlb s)\<rparr>)"
proof -
  let ?m = "mmu_mem s" and ?a = "leaf_entry_address tr"
  have al: "aligned4k (cr3 ps)" using coh by (simp add: mmu_coherent_def)
  have good: "tlb_good ps ?m (generation ps) (paging_state.process_context_id ps) tr"
    and cont: "translation_contains tr la"
    using tlbc.coherent_find [OF _ hit] coh unfolding mmu_coherent_def by blast+
  note leaf = tlb_good_hit [OF good al cont]
  define m' where "m' = (if with_dirty (qword_at ?m ?a) = qword_at ?m ?a then ?m
      else put_qword ?m ?a (with_dirty (qword_at ?m ?a)))"
  have "ad_le ?m (put_qword ?m ?a (with_dirty (qword_at ?m ?a)))"
    by (rule ad_le_put_qword [OF leaf(2,3) with_dirty_same_mapping]) (simp add: bit_with_dirty)
  then have ad: "ad_le ?m m'" by (simp add: m'_def)
  have entry: "qword_at m' ?a = with_dirty (qword_at ?m ?a)"
    using qstore.peek_poke_same [OF leaf(3)] by (simp add: m'_def)
  then have d: "is_dirty (qword_at m' ?a)" by (simp add: entry_predicates bit_with_dirty)
  have run: "mark_cached_translation_dirty la tr s =
      (Inr (), s\<lparr>mmu_mem := m', mmu_tlb := tlb_modify la (set_dirty True) (mmu_tlb s)\<rparr>)"
    using leaf(3) by (auto simp: mark_cached_translation_dirty_def op_simps mmu_bus_def mem_read_QWORD
        mem_write_QWORD m'_def Let_def)
  have good': "tlb_good ps m' (generation ps) (paging_state.process_context_id ps) (set_dirty True tr)"
    using tlb_good_ad_le [OF ad al good] d by (simp add: tlb_good_def set_dirty_def)
  have inv: "tlb_inv (mmu_tlb s)" using coh by (simp add: mmu_coherent_def tlbc.coherent_def)
  have "tlb_good ps m' g c t"
    if "(g, c, t) \<in> tlb_cached (tlb_modify la (set_dirty True) (mmu_tlb s))" for g c t
    using tlb_cached_modify [OF inv hit, of "set_dirty True"] that good' tlb_good_ad_le [OF ad al] coh
    unfolding mmu_coherent_def tlbc.coherent_def by blast
  then have "mmu_coherent ps (s\<lparr>mmu_mem := m', mmu_tlb := tlb_modify la (set_dirty True) (mmu_tlb s)\<rparr>)"
    using al tlb_inv_modify [OF inv] unfolding mmu_coherent_def tlbc.coherent_def by simp
  then show ?thesis using that run ad d by blast
qed

text \<open>The contract of \<open>translate_enabled\<close>, hit or miss.\<close>

definition spec_translate ::
  "paging_state \<Rightarrow> privilege_level \<Rightarrow> address64 \<Rightarrow> memory_access_kind \<Rightarrow> phys_mem \<Rightarrow> exn + address64" where
  "spec_translate ps pl la k m =
     map_sum id (\<lambda>t. translation_translate t la) (check_access ps la k pl (translation_spec ps la m))"

definition leaf_dirty :: "paging_state \<Rightarrow> address64 \<Rightarrow> phys_mem \<Rightarrow> bool" where
  "leaf_dirty ps la m \<longleftrightarrow> (\<exists>t. translation_spec ps la m = Mapped t \<and> is_dirty (qword_at m (leaf_entry_address t)))"

lemma leaf_dirtyI:
  assumes "translation_spec ps la m = Mapped t" and "ad_le m m'" and "aligned4k (cr3 ps)"
    and "is_dirty (qword_at m' (leaf_entry_address t))"
  shows "leaf_dirty ps la m'"
  using assms translation_spec_ad_le [OF assms(2,3)] by (auto simp: leaf_dirty_def)

lemma translate_enabled_run:
  assumes coh: "mmu_coherent ps s" and run: "translate_enabled ps pl la k s = (r, s')"
  shows "r = spec_translate ps pl la k (mmu_mem s) \<and> ad_le (mmu_mem s) (mmu_mem s') \<and>
    mmu_coherent ps s' \<and> (k = WRITE \<longrightarrow> (\<forall>pa. r = Inr pa \<longrightarrow> leaf_dirty ps la (mmu_mem s')))"
proof (cases "tlb_lookup (mmu_tlb s) la (generation ps) (paging_state.process_context_id ps)")
  case (Some tr)
  have al: "aligned4k (cr3 ps)" using coh by (simp add: mmu_coherent_def)
  have good: "tlb_good ps (mmu_mem s) (generation ps) (paging_state.process_context_id ps) tr"
    and cont: "translation_contains tr la"
    using tlbc.coherent_find [OF _ Some] coh unfolding mmu_coherent_def by blast+
  note leaf = tlb_good_hit [OF good al cont]
  define s1 where "s1 = mmu_perf_update (map_option (\<lambda>log. log @ [Tlb_hit])) s"
  have hit1: "tlb_lookup (mmu_tlb s1) la (generation ps) (paging_state.process_context_id ps) = Some tr"
    and mem1: "mmu_mem s1 = mmu_mem s" and coh1: "mmu_coherent ps s1"
    using Some coh by (simp_all add: s1_def)
  note run' = run [unfolded translate_enabled_def bnd_run gets_run Some]
  note simps = op_simps record_tlb_hit_def record_event_def ensure_cached_access_allowed_run s1_def [symmetric]
    spec_translate_def check_access_def leaf(1)
  show ?thesis
  proof (cases "access_denied ps (permissions tr) k pl")
    case (Some x)
    then show ?thesis using run' mem1 coh1 by (auto simp: simps)
  next
    case None
    show ?thesis
    proof (cases "k = WRITE \<and> \<not> dirty tr")
      case False
      have "leaf_dirty ps la (mmu_mem s)" if "k = WRITE"
        using good False that leaf_dirtyI [OF leaf(1) ad_le_refl al] by (simp add: tlb_good_def)
      then show ?thesis using run' None False mem1 coh1 by (auto simp: simps)
    next
      case True
      obtain m' where m': "mark_cached_translation_dirty la tr s1 =
          (Inr (), s1\<lparr>mmu_mem := m', mmu_tlb := tlb_modify la (set_dirty True) (mmu_tlb s1)\<rparr>)"
        "ad_le (mmu_mem s1) m'" "is_dirty (qword_at m' (leaf_entry_address tr))"
        "mmu_coherent ps (s1\<lparr>mmu_mem := m', mmu_tlb := tlb_modify la (set_dirty True) (mmu_tlb s1)\<rparr>)"
        by (rule mark_cached_translation_dirty_run [OF coh1 hit1])
      have "leaf_dirty ps la m'" using leaf_dirtyI [OF leaf(1) _ al] m'(2,3) mem1 by simp
      then show ?thesis using run' None True m' mem1 by (auto simp: simps)
    qed
  qed
next
  case None
  have al: "aligned4k (cr3 ps)" using coh by (simp add: mmu_coherent_def)
  define s1 where "s1 = mmu_perf_update (map_option (\<lambda>log. log @ [Tlb_miss])) s"
  have s1: "mmu_mem s1 = mmu_mem s" "mmu_coherent ps s1" using coh by (simp_all add: s1_def)
  obtain w m' where walk: "walker_translate ps la k pl (mmu_mem s) = (w, m')" by fastforce
  note spec = walker_translate_run [OF al walk]
  have coh': "mmu_coherent ps (s1\<lparr>mmu_mem := m'\<rparr>)" using mmu_coherent_ad_le s1 spec by simp
  note run' = run [unfolded translate_enabled_def bnd_run gets_run None]
  note simps = op_simps record_tlb_miss_def record_event_def s1_def [symmetric] mmu_bus_def s1 walk
  show ?thesis
  proof (cases w)
    case (Inl x)
    then have "check_access ps la k pl (translation_spec ps la (mmu_mem s)) = Inl x"
      using spec by (simp add: erase_dirty_def)
    then show ?thesis using run' Inl spec coh' by (auto simp: simps spec_translate_def)
  next
    case (Inr t)
    then have chk: "check_access ps la k pl (translation_spec ps la (mmu_mem s)) = Inr (t\<lparr>dirty := False\<rparr>)"
      using spec by (simp add: erase_dirty_def)
    then have map: "translation_spec ps la (mmu_mem s) = Mapped (t\<lparr>dirty := False\<rparr>)"
      by (auto simp: check_access_def split: walk_outcome.splits option.splits)
    then have map': "translation_spec ps la m' = Mapped (t\<lparr>dirty := False\<rparr>)"
      using translation_spec_ad_le [OF conjunct2 [OF spec] al] by simp
    have good: "tlb_good ps m' (generation ps) (paging_state.process_context_id ps) t"
      using map' walker_translate_dirty(1) walk Inr by (auto simp: tlb_good_def)
    have s': "s' = s1\<lparr>mmu_mem := m', mmu_tlb := tlb_insert t (generation ps)
        (paging_state.process_context_id ps) (mmu_tlb s1)\<rparr>" and r: "r = Inr (translation_translate t la)"
      using run' Inr by (auto simp: simps Let_def)
    have "mmu_coherent ps s'"
      using coh' tlbc.coherent_put [where P = "tlb_good ps m'", OF _ good]
      unfolding s' mmu_coherent_def by simp
    moreover have "leaf_dirty ps la m'" if "k = WRITE"
      using leaf_dirtyI [OF map' ad_le_refl al] walker_translate_dirty walk Inr that by simp
    ultimately show ?thesis using spec chk by (simp add: r s' spec_translate_def)
  qed
qed

section \<open>Ranges\<close>

lemma page_base_mono:
  assumes "page_base la' (2 ^ 12) = page_base la (2 ^ 12)" and "12 \<le> n"
  shows "page_base la' (2 ^ n) = page_base la (2 ^ n)"
proof -
  have m: "(2 ^ n - 1 :: address64) = mask n" by (simp add: mask_eq_exp_minus_1)
  show ?thesis
    using page_base_eq_bits [OF assms(1)] assms(2)
    by (intro bit_eqI) (auto simp: bit_page_base [OF m])
qed

lemma page_walk_same_4k:
  assumes "page_base la' (2 ^ 12) = page_base la (2 ^ 12)" and "d \<le> 4"
  shows "page_walk nxe la' (drop d WALK_ORDER) t p m = page_walk nxe la (drop d WALK_ORDER) t p m"
  using assms(2)
proof (induction "4 - d" arbitrary: d t p)
  case 0
  then show ?case by (simp add: WALK_ORDER_def)
next
  case (Suc x)
  then have d: "d < 4" by simp
  have "12 \<le> 39 - 9 * d" using d by simp
  then have idx: "index_at la' d = index_at la d"
    using page_base_eq_bits [OF assms(1)] d by (intro index_at_cong) auto
  have pb: "page_base la' sz = page_base la sz" if "page_size_for_leaf_level lv = Inr sz" for lv sz
    by (rule leaf_level_page_size [OF that]) (auto intro: page_base_mono [OF assms(1)])
  have "x = 4 - Suc d" "Suc d \<le> 4" using Suc.hyps(2) d by simp_all
  then show ?case
    unfolding page_walk_depth [OF d] idx Let_def using Suc.hyps(1) [of "Suc d"] pb
    by (simp split: sum.split)
qed

lemma translation_spec_same_4k:
  assumes "page_base la' (2 ^ 12) = page_base la (2 ^ 12)"
  shows "translation_spec ps la' m = translation_spec ps la m"
  using page_walk_same_4k [OF assms, of 0] canonical_same_page [OF assms]
  by (simp add: translation_spec_def)

definition access_ok ::
  "paging_state \<Rightarrow> privilege_level \<Rightarrow> memory_access_kind \<Rightarrow> address64 \<Rightarrow> phys_mem \<Rightarrow> bool" where
  "access_ok ps pl k la m \<longleftrightarrow> (\<exists>pa. spec_translate ps pl la k m = Inr pa)"

lemma access_ok_iff:
  "access_ok ps pl k la m \<longleftrightarrow>
     (\<exists>t. translation_spec ps la m = Mapped t \<and> access_denied ps (permissions t) k pl = None)"
  by (auto simp: access_ok_def spec_translate_def check_access_def split: walk_outcome.splits option.splits)

lemma range_step_same_page:
  assumes "i < range_step la n"
  shows "page_base (la + of_nat i) (2 ^ 12) = page_base la (2 ^ 12)"
proof -
  define off where "off = la AND mask 12"
  have om: "PAGE_OFFSET_MASK_4K = mask 12"
    using page_size_masks(1) by (simp only: PAGE_OFFSET_MASK_4K_def)
  have off: "unat off < 4096"
    using and_mask_less_size [of 12 la] by (simp add: off_def word_size word_less_nat_alt)
  have "unat (PAGE_SIZE_4K_BYTES - off) = 4096 - unat off"
    using off by (subst unat_sub) (auto simp: PAGE_SIZE_4K_BYTES_def word_le_nat_alt)
  then have i: "unat off + i < 4096"
    using assms off by (auto simp: range_step_def om off_def [symmetric] Let_def)
  have m: "(2 ^ 12 - 1 :: address64) = mask 12" by (simp add: mask_eq_exp_minus_1)
  have "(la + of_nat i) - page_base la (2 ^ 12) = off + of_nat i"
    using page_base_offset [OF m, of la] by (simp add: off_def)
  also have "\<dots> = of_nat (unat off + i)" by simp
  also have "\<dots> < 2 ^ 12" using i by (simp add: word_less_nat_alt unsigned_of_nat take_bit_nat_eq_self del: of_nat_add)
  finally have lt: "(la + of_nat i) - page_base la (2 ^ 12) < 2 ^ 12" .
  have "bit (la + of_nat i) k = bit (page_base la (2 ^ 12)) k" if "12 \<le> k" for k
    by (rule add_offset_bits [OF lt _ _ that]) (simp_all only: bit_page_base [OF m], simp_all)
  then show ?thesis by (intro bit_eqI) (auto simp only: bit_page_base [OF m])
qed

lemma check_range_loop_run:
  assumes "mmu_coherent ps s" and "check_range_loop ps pl la n k s = (r, s')"
  shows "(r = Inr () \<longleftrightarrow> (\<forall>i < n. access_ok ps pl k (la + of_nat i) (mmu_mem s))) \<and>
    ad_le (mmu_mem s) (mmu_mem s') \<and> mmu_coherent ps s'"
  using assms
proof (induction ps pl la n k arbitrary: s rule: check_range_loop.induct)
  case (1 ps pl la n k)
  show ?case
  proof (cases "n = 0")
    case True
    then show ?thesis using 1 by (auto simp: check_range_loop.simps ret_run)
  next
    case False
    obtain r1 s1 where t: "translate_enabled ps pl la k s = (r1, s1)" by fastforce
    note t1 = translate_enabled_run [OF "1.prems"(1) t]
    have al: "aligned4k (cr3 ps)" using "1.prems"(1) by (simp add: mmu_coherent_def)
    let ?st = "range_step la n"
    have same: "access_ok ps pl k (la + of_nat i) (mmu_mem s) = access_ok ps pl k la (mmu_mem s)" if "i < ?st" for i
      using translation_spec_same_4k [OF range_step_same_page [OF that]] by (simp add: access_ok_iff)
    have pos: "0 < ?st" "?st \<le> n" using False range_step_pos range_step_le by auto
    have split: "(\<forall>i < n. P (la + of_nat i)) \<longleftrightarrow>
        (\<forall>i < ?st. P (la + of_nat i)) \<and> (\<forall>i < n - ?st. P (la + of_nat ?st + of_nat i))" for P
    proof -
      have "P (la + of_nat i)" if "\<forall>i < n - ?st. P (la + of_nat ?st + of_nat i)" "?st \<le> i" "i < n" for i
        using that(1) [rule_format, of "i - ?st"] that(2,3) by (simp add: of_nat_diff)
      moreover have "P (la + of_nat ?st + of_nat i)" if "\<forall>i < n. P (la + of_nat i)" "i < n - ?st" for i
        using that(1) [rule_format, of "?st + i"] that(2) by (simp add: add.assoc)
      ultimately show ?thesis using pos by (meson le_less_linear less_le_trans)
    qed
    show ?thesis
    proof (cases r1)
      case (Inl e)
      then have "\<not> access_ok ps pl k la (mmu_mem s)" using t1 by (simp add: access_ok_def)
      then have "\<not> (\<forall>i < n. access_ok ps pl k (la + of_nat i) (mmu_mem s))" using same pos by (metis less_le_trans)
      then show ?thesis using 1(3) False t Inl t1
        by (auto simp: check_range_loop.simps [of ps pl la n k] sq_run)
    next
      case (Inr pa)
      have run': "check_range_loop ps pl (la + of_nat ?st) (n - ?st) k s1 = (r, s')"
        using 1(3) False t Inr by (simp add: check_range_loop.simps [of ps pl la n k] sq_run)
      have ok: "access_ok ps pl k la (mmu_mem s)" using t1 Inr unfolding access_ok_def by metis
      have keep: "access_ok ps pl k a (mmu_mem s1) = access_ok ps pl k a (mmu_mem s)" for a
        using translation_spec_ad_le [OF conjunct1 [OF conjunct2 [OF t1]] al] by (simp add: access_ok_iff)
      have "(\<forall>i < n. access_ok ps pl k (la + of_nat i) (mmu_mem s)) \<longleftrightarrow>
          (\<forall>i < n - ?st. access_ok ps pl k (la + of_nat ?st + of_nat i) (mmu_mem s1))"
        using split [of "\<lambda>a. access_ok ps pl k a (mmu_mem s)"] ok same keep by simp
      then show ?thesis
        using "1.IH" [OF False _ run'] t1 ad_le_trans [of "mmu_mem s" "mmu_mem s1" "mmu_mem s'"] by simp
    qed
  qed
qed

section \<open>Reads and writes\<close>

text \<open>The physical address of each byte of an access, by the tables.\<close>

definition byte_address ::
  "paging_state \<Rightarrow> privilege_level \<Rightarrow> memory_access_kind \<Rightarrow> address64 \<Rightarrow> phys_mem \<Rightarrow> exn + address64" where
  "byte_address ps pl k la m = (if paging_enabled ps then spec_translate ps pl la k m else Inr la)"

definition store_bytes :: "qword \<Rightarrow> nat \<Rightarrow> address64 list \<Rightarrow> phys_mem \<Rightarrow> phys_mem" where
  "store_bytes v i pas m = fold (\<lambda>(j, a) m. m[unat a := byte_of v j]) (zip [i..<i + length pas] pas) m"

lemma store_bytes_Cons:
  "store_bytes v i (a # pas) m = store_bytes v (Suc i) pas (m[unat a := byte_of v i])"
  by (simp add: store_bytes_def upt_conv_Cons [of i "Suc (i + length pas)"] del: upt_Suc)

lemma length_store_bytes [simp]: "length (store_bytes v i pas m) = length m"
  unfolding store_bytes_def by (rule fold_invariant [where P = "\<lambda>m'. length m' = length m"]) auto

lemma translate_bytes_loop_run:
  assumes "mmu_coherent ps s" and "translate_bytes_loop ps pl la is s = (r, s')"
  shows "ad_le (mmu_mem s) (mmu_mem s') \<and> mmu_coherent ps s' \<and>
    (\<forall>pas. r = Inr pas \<longrightarrow> length pas = length is \<and>
       (\<forall>j < length is. spec_translate ps pl (la + of_nat (is ! j)) WRITE (mmu_mem s) = Inr (pas ! j)))"
  using assms
proof (induction "is" arbitrary: s r s')
  case Nil
  then show ?case by (auto simp: ret_run)
next
  case (Cons i "is")
  obtain r1 s1 where t: "translate_enabled ps pl (la + of_nat i) WRITE s = (r1, s1)" by fastforce
  note t1 = translate_enabled_run [OF Cons.prems(1) t]
  then have ad1: "ad_le (mmu_mem s) (mmu_mem s1)" and coh1: "mmu_coherent ps s1" by blast+
  have al: "aligned4k (cr3 ps)" using Cons.prems(1) by (simp add: mmu_coherent_def)
  show ?case
  proof (cases r1)
    case (Inl e)
    then show ?thesis using Cons.prems(2) t t1 by (auto simp: bnd_run)
  next
    case (Inr pa)
    obtain r2 s2 where t2: "translate_bytes_loop ps pl la is s1 = (r2, s2)" by fastforce
    note IH = Cons.IH [OF coh1 t2]
    have same: "spec_translate ps pl a WRITE (mmu_mem s1) = spec_translate ps pl a WRITE (mmu_mem s)" for a
      by (simp add: spec_translate_def translation_spec_ad_le [OF ad1 al])
    have "s' = s2" "r = map_sum id (Cons pa) r2"
      using Cons.prems(2) t t2 Inr by (auto simp: bnd_run ret_run split: sum.splits)
    moreover have "ad_le (mmu_mem s) (mmu_mem s2)" using ad1 IH ad_le_trans by blast
    ultimately show ?thesis
      using IH t1 Inr same by (cases r2) (auto simp: less_Suc_eq_0_disj)
  qed
qed

lemma write_byte_run:
  "mem_write pa BYTE (drop_bit (i * 8) v AND 0xFF) m =
     (if unat pa < length m then (Inr (), m[unat pa := byte_of v i]) else (Inl Out_of_range, m))"
proof -
  have "byte_of (drop_bit (i * 8) v AND 0xFF) 0 = byte_of v i" by (simp add: byte_of_def and.assoc)
  then show ?thesis by (simp add: mem_write_run write_bytes_le_def Suc_le_eq)
qed

lemma write_bytes_loop_run:
  assumes "write_bytes_loop v i pas s = (r, s')"
  shows "(\<forall>f. r \<noteq> Inl (Page_fault f)) \<and> (r = Inr () \<longrightarrow>
    (\<forall>a \<in> set pas. unat a < length (mmu_mem s)) \<and> mmu_mem s' = store_bytes v i pas (mmu_mem s))"
  using assms
proof (induction pas arbitrary: i s)
  case Nil
  then show ?case by (auto simp: ret_run store_bytes_def)
next
  case (Cons a pas)
  define s1 where "s1 = mmu_perf_update (map_option (\<lambda>log. log @ [Data_write a 1])) s"
  have mem1: "mmu_mem s1 = mmu_mem s" by (simp add: s1_def)
  note run = Cons.prems [unfolded write_bytes_loop.simps sq_run record_data_write_def record_event_def modify_run
      s1_def [symmetric], simplified]
  show ?case
  proof (cases "unat a < length (mmu_mem s)")
    case False
    then show ?thesis using run mem1 by (auto simp: mmu_bus_def focus_run write_byte_run)
  next
    case True
    then have "write_bytes_loop v (Suc i) pas (s1\<lparr>mmu_mem := (mmu_mem s)[unat a := byte_of v i]\<rparr>) = (r, s')"
      using run mem1 by (simp add: mmu_bus_def focus_run write_byte_run)
    from Cons.IH [OF this] True show ?thesis by (auto simp: store_bytes_Cons)
  qed
qed

lemma write_bytes_le_store:
  assumes "unat pa + n \<le> length m" and "length m \<le> 2 ^ 52"
  shows "write_bytes_le m (unat pa) n v = store_bytes v 0 (map (\<lambda>i. pa + of_nat i) [0..<n]) m"
proof -
  have "unat (pa + of_nat i) = unat pa + i" if "i < n" for i
    by (rule unat_add_of_nat) (use that assms in simp)
  then have "fold (\<lambda>i m. m[unat pa + i := byte_of v i]) [0..<n] m =
      fold (\<lambda>i m. m[unat (pa + of_nat i) := byte_of v i]) [0..<n] m"
    by (intro fold_cong) auto
  then show ?thesis
    by (simp add: write_bytes_le_def store_bytes_def zip_map2 zip_same_conv_map fold_map comp_def)
qed

lemma within_page_step:
  assumes "is_access_within_4k_page la n" and "n \<le> 8" and "i < n"
  shows "page_base (la + of_nat i) (2 ^ 12) = page_base la (2 ^ 12)"
proof (rule range_step_same_page)
  define off where "off = la AND PAGE_OFFSET_MASK_4K"
  have om: "PAGE_OFFSET_MASK_4K = mask 12"
    using page_size_masks(1) by (simp only: PAGE_OFFSET_MASK_4K_def)
  have off: "unat off < 4096"
    using and_mask_less_size [of 12 la] by (simp add: off_def om word_size word_less_nat_alt)
  have sub: "unat (PAGE_SIZE_4K_BYTES - off) = 4096 - unat off"
    using off by (subst unat_sub) (auto simp: PAGE_SIZE_4K_BYTES_def word_le_nat_alt)
  have "unat (off + of_nat n) = unat off + n" by (rule unat_add_of_nat) (use off assms(2) in simp)
  moreover have "off + of_nat n \<le> PAGE_SIZE_4K_BYTES"
    using assms(1) by (simp add: is_access_within_4k_page_def off_def Let_def)
  ultimately have "unat off + n \<le> 4096" by (simp add: word_le_nat_alt PAGE_SIZE_4K_BYTES_def)
  then show "i < range_step la n" using assms(3) sub by (simp add: range_step_def off_def [symmetric] Let_def)
qed

text \<open>The bytes of an access inside one page are contiguous in physical memory.\<close>

lemma byte_address_within_page:
  assumes "byte_address ps pl k la m = Inr pa" and "\<not> paging_enabled ps \<or> is_access_within_4k_page la n"
    and "n \<le> 8" and "i < n"
  shows "byte_address ps pl k (la + of_nat i) m = Inr (pa + of_nat i)"
proof (cases "paging_enabled ps")
  case False
  then show ?thesis using assms(1) by (simp add: byte_address_def)
next
  case True
  have same: "translation_spec ps (la + of_nat i) m = translation_spec ps la m"
    by (rule translation_spec_same_4k [OF within_page_step]) (use True assms in auto)
  show ?thesis
    using assms(1) True
    by (auto simp: byte_address_def spec_translate_def check_access_def same translation_translate_def
        algebra_simps split: walk_outcome.splits option.splits)
qed

lemma mmu_translate_run:
  assumes "mmu_coherent ps s" and "mmu_translate ps pl la k s = (r, s')"
  shows "r = byte_address ps pl k la (mmu_mem s) \<and> ad_le (mmu_mem s) (mmu_mem s') \<and> mmu_coherent ps s'"
  using assms translate_enabled_run [OF assms(1), of pl la k r s']
  by (auto simp: mmu_translate_def byte_address_def ret_run split: if_splits)

lemma mmu_write_run:
  assumes coh: "mmu_coherent ps s" and n: "data_size_to_bytes sz = Inr n"
    and len: "length (mmu_mem s) \<le> 2 ^ 52" and run: "mmu_write ps pl la sz v s = (r, s')"
  shows "(\<forall>f. r = Inl (Page_fault f) \<longrightarrow> ad_le (mmu_mem s) (mmu_mem s')) \<and>
    (r = Inr () \<longrightarrow> (\<exists>m1 pas. ad_le (mmu_mem s) m1 \<and> length pas = n \<and>
       (\<forall>i < n. byte_address ps pl WRITE (la + of_nat i) (mmu_mem s) = Inr (pas ! i) \<and>
                unat (pas ! i) < length (mmu_mem s)) \<and>
       mmu_mem s' = store_bytes v 0 pas m1))"
proof (cases "\<not> paging_enabled ps \<or> is_access_within_4k_page la n")
  case True
  have n8: "n \<le> 8" using data_size_to_bytes_le8 [OF n] by simp
  obtain r1 s1 where t: "mmu_translate ps pl la WRITE s = (r1, s1)" by fastforce
  note t1 = mmu_translate_run [OF coh t]
  then have ad: "ad_le (mmu_mem s) (mmu_mem s1)" by blast
  have l1: "length (mmu_mem s1) = length (mmu_mem s)" using ad_le_length [OF ad] .
  show ?thesis
  proof (cases r1)
    case (Inl e)
    then show ?thesis using run True n t ad by (auto simp: mmu_write_def op_simps)
  next
    case (Inr pa)
    note byte = byte_address_within_page [OF _ True n8]
    show ?thesis
    proof (cases "unat pa + n \<le> length (mmu_mem s)")
      case False
      then show ?thesis using run True n t Inr l1
        by (auto simp: mmu_write_def op_simps record_data_write_def record_event_def mmu_bus_def mem_write_run)
    next
      case fits: True
      have ub: "unat (pa + of_nat i) = unat pa + i" if "i < n" for i
        by (rule unat_add_of_nat) (use that fits len in simp)
      have "r = Inr ()" "mmu_mem s' = write_bytes_le (mmu_mem s1) (unat pa) n v"
        using run True n t Inr l1 fits
        by (auto simp: mmu_write_def op_simps record_data_write_def record_event_def mmu_bus_def mem_write_run)
      moreover have "byte_address ps pl WRITE (la + of_nat i) (mmu_mem s) = Inr (pa + of_nat i)"
        if "i < n" for i using byte [of pl WRITE "mmu_mem s" pa i] t1 Inr that by simp
      ultimately show ?thesis
        using ad write_bytes_le_store [of pa n "mmu_mem s1" v] fits len l1 ub
        by (intro conjI impI exI [of _ "mmu_mem s1"] exI [of _ "map (\<lambda>i. pa + of_nat i) [0..<n]"]) auto
    qed
  qed
next
  case False
  obtain r1 s1 where t: "translate_bytes_loop ps pl la [0..<n] s = (r1, s1)" by fastforce
  note t1 = translate_bytes_loop_run [OF coh t]
  then have ad: "ad_le (mmu_mem s) (mmu_mem s1)" by blast
  have l1: "length (mmu_mem s1) = length (mmu_mem s)" using ad_le_length [OF ad] .
  show ?thesis
  proof (cases r1)
    case (Inl e)
    then show ?thesis using run False n t ad by (auto simp: mmu_write_def op_simps)
  next
    case (Inr pas)
    then have w: "write_bytes_loop v 0 pas s1 = (r, s')" using run False n t by (simp add: mmu_write_def op_simps)
    have pas: "length pas = n" "\<forall>i < n. spec_translate ps pl (la + of_nat i) WRITE (mmu_mem s) = Inr (pas ! i)"
      using t1 Inr by auto
    show ?thesis
      using write_bytes_loop_run [OF w] pas ad l1 False
      by (intro conjI impI exI [of _ "mmu_mem s1"] exI [of _ pas]) (auto simp: byte_address_def)
  qed
qed

lemma mmu_coherent_empty:
  "aligned4k (cr3 ps) \<Longrightarrow> tlb_inv (mmu_tlb s) \<Longrightarrow> mmu_coherent ps (flush_tlb s)"
  by (simp add: mmu_coherent_def tlbc.coherent_def flush_tlb_def tlb_cached_clear tlb_inv_clear)

section \<open>Properties\<close>

text \<open>
  C1: The TLB is transparent. While it is coherent with the tables, \<open>translate\<close> on an enabled paging
  unit returns the address, or throws the fault, that the walk of the tables and the access check
  give, whether the TLB hits or misses; memory changes only in accessed and dirty bits; the TLB
  stays coherent; and after a successful write access the leaf entry of the page is marked dirty.
\<close>

theorem mmu_translate_refines:
  assumes "mmu_coherent ps s" and "paging_enabled ps" and "mmu_translate ps pl la k s = (r, s')"
  shows "r = spec_translate ps pl la k (mmu_mem s) \<and> ad_le (mmu_mem s) (mmu_mem s') \<and>
    mmu_coherent ps s' \<and> (k = WRITE \<longrightarrow> (\<forall>pa. r = Inr pa \<longrightarrow> leaf_dirty ps la (mmu_mem s')))"
  using translate_enabled_run [OF assms(1)] assms(2,3) by (simp add: mmu_translate_def)

definition sample_paging :: paging_state where
  "sample_paging = paging_enable initial_paging_state"

definition sample_mmu :: mmu_state where
  "sample_mmu = \<lparr>mmu_tlb = initial_tlb, mmu_perf = Some [], mmu_mem = PhysicalMemory 8192\<rparr>"

lemma sample_mmu_coherent: "mmu_coherent sample_paging sample_mmu" "paging_enabled sample_paging"
  by (auto simp: mmu_coherent_def tlbc.coherent_def sample_mmu_def sample_paging_def paging_enable_def
      bump_generation_def initial_paging_state_def aligned4k_def tlb_inv_initial tlb_cached_initial)

lemma sample_unmapped:
  assumes "la \<in> {0x1FFC, 0x2000}"
  shows "translation_spec sample_paging la (PhysicalMemory 8192) = Faults NOT_PRESENT"
  using assms
  by (auto simp: translation_spec_def is_canonical_linear_address_def CANONICAL_SIGN_BIT_def
      CANONICAL_HIGH_MASK_def WALK_ORDER_def page_table_index_def sbind_def PAGE_TABLE_INDEX_MASK_def
      entry_address_for_index_def sample_paging_def paging_enable_def bump_generation_def
      initial_paging_state_def qword_ok_def PhysicalMemory_def qword_at_def entry_predicates)

theorem mmu_translate_refines_witness:
  "fst (mmu_translate sample_paging RING0 0x2000 READ sample_mmu) =
     Inl (Page_fault \<lparr>pf_linear_address = 0x2000, pf_access_kind = READ, pf_reason = NOT_PRESENT,
                      pf_error_code = 0\<rparr>)"
  using mmu_translate_refines [OF sample_mmu_coherent, of RING0 "0x2000" READ] sample_unmapped [of "0x2000"]
  by (cases "mmu_translate sample_paging RING0 0x2000 READ sample_mmu")
     (simp add: spec_translate_def check_access_def make_page_fault_def make_page_fault_error_code_def
       sample_mmu_def)

text \<open>
  C6: A store through the MMU is all or nothing with respect to page faults. If it throws a page
  fault, even one raised by the second page of an access that straddles two pages, memory has
  changed only in accessed and dirty bits. If it returns, every byte of the value has been written
  at the physical address that the tables give for its own linear address, and nothing else has
  changed but accessed and dirty bits.
\<close>

theorem mmu_write_correct:
  assumes "mmu_coherent ps s" and "data_size_to_bytes sz = Inr n"
    and "length (mmu_mem s) \<le> 2 ^ 52" and "mmu_write ps pl la sz v s = (r, s')"
  shows "(\<forall>f. r = Inl (Page_fault f) \<longrightarrow> ad_le (mmu_mem s) (mmu_mem s')) \<and>
    (r = Inr () \<longrightarrow> (\<exists>m1 pas. ad_le (mmu_mem s) m1 \<and> length pas = n \<and>
       (\<forall>i < n. byte_address ps pl WRITE (la + of_nat i) (mmu_mem s) = Inr (pas ! i) \<and>
                unat (pas ! i) < length (mmu_mem s)) \<and>
       mmu_mem s' = store_bytes v 0 pas m1))"
  by (rule mmu_write_run [OF assms])

definition flat_paging :: paging_state where
  "flat_paging = initial_paging_state"

lemma flat_coherent: "mmu_coherent flat_paging sample_mmu"
  by (auto simp: mmu_coherent_def tlbc.coherent_def sample_mmu_def flat_paging_def
      initial_paging_state_def aligned4k_def tlb_inv_initial tlb_cached_initial)

theorem mmu_write_correct_witness:
  "fst (mmu_write flat_paging RING0 0xFFE DWORD 0x11223344 sample_mmu) = Inr () \<and>
   (\<exists>m1 pas. ad_le (PhysicalMemory 8192) m1 \<and> length pas = 4 \<and>
      (\<forall>i < 4. byte_address flat_paging RING0 WRITE (0xFFE + of_nat i) (PhysicalMemory 8192) = Inr (pas ! i) \<and>
               unat (pas ! i) < 8192) \<and>
      mmu_mem (snd (mmu_write flat_paging RING0 0xFFE DWORD 0x11223344 sample_mmu)) =
        store_bytes 0x11223344 0 pas m1)"
proof -
  have len: "length (mmu_mem sample_mmu) = 8192" by (simp add: sample_mmu_def PhysicalMemory_def)
  then have len': "length (mmu_mem sample_mmu) \<le> 2 ^ 52" by simp
  obtain r s' where run: "mmu_write flat_paging RING0 0xFFE DWORD 0x11223344 sample_mmu = (r, s')" by fastforce
  have r: "r = Inr ()"
    using run len by (simp add: mmu_write_def op_simps flat_paging_def initial_paging_state_def
        mmu_translate_def record_data_write_def record_event_def mmu_bus_def mem_write_run)
  have mem: "mmu_mem sample_mmu = PhysicalMemory 8192" by (simp add: sample_mmu_def)
  show ?thesis
    using mmu_write_correct [OF flat_coherent data_size_to_bytes.simps(3) len' run] r run
    unfolding mem by (simp add: PhysicalMemory_def)
qed

text \<open>
  C9: \<open>check_access_range\<close> ends for every range and returns normally exactly if every single byte of
  the range may be accessed; its loop, which tests one address per page and steps to the next page
  with wrap-around at the end of the address space, misses no byte.
\<close>

theorem check_access_range_correct:
  assumes "mmu_coherent ps s" and "paging_enabled ps" and "check_access_range ps pl la n k s = (r, s')"
  shows "(r = Inr () \<longleftrightarrow> (\<forall>i < n. access_ok ps pl k (la + of_nat i) (mmu_mem s))) \<and>
    ad_le (mmu_mem s) (mmu_mem s') \<and> mmu_coherent ps s'"
proof (cases "n = 0")
  case True
  then show ?thesis using assms by (auto simp: check_access_range_def ret_run)
next
  case False
  then show ?thesis
    using check_range_loop_run [OF assms(1), of pl la n k r s'] assms(2,3) by (simp add: check_access_range_def)
qed

theorem check_access_range_correct_witness:
  "fst (check_access_range sample_paging RING3 0x1FFC 8 READ sample_mmu) \<noteq> Inr ()"
proof -
  obtain r s' where run: "check_access_range sample_paging RING3 0x1FFC 8 READ sample_mmu = (r, s')" by fastforce
  have mem: "mmu_mem sample_mmu = PhysicalMemory 8192" by (simp add: sample_mmu_def)
  have "\<not> access_ok sample_paging RING3 READ (0x1FFC + of_nat 4) (mmu_mem sample_mmu)"
    using sample_unmapped [of "0x2000"] by (simp add: access_ok_iff mem)
  then show ?thesis
    using check_access_range_correct [OF sample_mmu_coherent run] run
    by (metis (no_types, lifting) fst_conv numeral_less_iff semiring_norm(76,78))
qed

end
