(* ===== verification/Cow.thy ===== *)
theory Cow
  imports PageFault
begin

unbundle bit_operations_syntax

text \<open>
  Copy-on-write sharing, \<^verbatim>\<open>src/os/proc/copy_on_write.cpp\<close>. The manager keeps two vectors: the
  mappings that are shared read-only for now, and a reference count per frame. \<open>share_pages\<close>
  (fork) runs on the manager, the two address spaces and the shared memory; \<open>resolve_write_fault\<close>
  runs on the manager, the allocator, one address space, the memory and the CPU. Processes are
  their identifiers and their address spaces.
\<close>

section \<open>The manager\<close>

type_synonym process_id = "64 word"

record cow_mapping =
  cm_process :: process_id
  cm_page :: address64
  cm_frame :: address64
  cm_permissions :: page_permissions

record cow_frame_ref =
  cr_frame :: address64
  cr_count :: nat

record cow_manager =
  cow_mappings :: "cow_mapping list"
  cow_frame_refs :: "cow_frame_ref list"

datatype cow_fault_result = COPIED | RESTORED | NOT_COW | COW_OUT_OF_MEMORY | INVALID_FAULT

definition initial_cow :: cow_manager where
  "initial_cow = \<lparr>cow_mappings = [], cow_frame_refs = []\<rparr>"

fun find_mapping_loop :: "process_id \<Rightarrow> address64 \<Rightarrow> cow_mapping list \<Rightarrow> cow_mapping option" where
  "find_mapping_loop pid page [] = None"
| "find_mapping_loop pid page (x # xs) =
     (if cm_process x = pid \<and> cm_page x = page then Some x else find_mapping_loop pid page xs)"

definition find_mapping :: "process_id \<Rightarrow> address64 \<Rightarrow> cow_manager \<Rightarrow> cow_mapping option" where
  "find_mapping pid page c = find_mapping_loop pid page (cow_mappings c)"

fun find_frame_ref :: "address64 \<Rightarrow> cow_frame_ref list \<Rightarrow> cow_frame_ref option" where
  "find_frame_ref frame [] = None"
| "find_frame_ref frame (x # xs) = (if cr_frame x = frame then Some x else find_frame_ref frame xs)"

definition mapping_count :: "cow_manager \<Rightarrow> nat" where
  "mapping_count c = length (cow_mappings c)"

definition frame_ref_count :: "cow_manager \<Rightarrow> address64 \<Rightarrow> nat" where
  "frame_ref_count c frame =
     (case find_frame_ref frame (cow_frame_refs c) of None \<Rightarrow> 0 | Some r \<Rightarrow> cr_count r)"

definition cow_contains :: "process_id \<Rightarrow> address64 \<Rightarrow> cow_manager \<Rightarrow> bool" where
  "cow_contains pid page c \<longleftrightarrow> find_mapping pid page c \<noteq> None"

fun increment_ref :: "address64 \<Rightarrow> cow_frame_ref list \<Rightarrow> cow_frame_ref list" where
  "increment_ref frame [] = []"
| "increment_ref frame (x # xs) =
     (if cr_frame x = frame then x\<lparr>cr_count := cr_count x + 1\<rparr> # xs else x # increment_ref frame xs)"

definition add_frame_ref :: "address64 \<Rightarrow> cow_manager \<Rightarrow> cow_manager" where
  "add_frame_ref frame c =
     (case find_frame_ref frame (cow_frame_refs c) of
        None \<Rightarrow> c\<lparr>cow_frame_refs := cow_frame_refs c @ [\<lparr>cr_frame = frame, cr_count = 1\<rparr>]\<rparr>
      | Some _ \<Rightarrow> c\<lparr>cow_frame_refs := increment_ref frame (cow_frame_refs c)\<rparr>)"

fun release_loop :: "address64 \<Rightarrow> cow_frame_ref list \<Rightarrow> cow_frame_ref list" where
  "release_loop frame [] = []"
| "release_loop frame (x # xs) =
     (if cr_frame x = frame
      then let x' = x\<lparr>cr_count := cr_count x - 1\<rparr> in if cr_count x' = 0 then xs else x' # xs
      else x # release_loop frame xs)"

definition release_frame_ref :: "address64 \<Rightarrow> cow_manager \<Rightarrow> cow_manager" where
  "release_frame_ref frame c = c\<lparr>cow_frame_refs := release_loop frame (cow_frame_refs c)\<rparr>"

fun remove_loop :: "process_id \<Rightarrow> address64 \<Rightarrow> cow_mapping list \<Rightarrow> cow_mapping list" where
  "remove_loop pid page [] = []"
| "remove_loop pid page (x # xs) =
     (if cm_process x = pid \<and> cm_page x = page then xs else x # remove_loop pid page xs)"

definition remove_mapping :: "process_id \<Rightarrow> address64 \<Rightarrow> cow_manager \<Rightarrow> cow_manager" where
  "remove_mapping pid page c = c\<lparr>cow_mappings := remove_loop pid page (cow_mappings c)\<rparr>"

definition add_mapping ::
  "process_id \<Rightarrow> address64 \<Rightarrow> address64 \<Rightarrow> page_permissions \<Rightarrow> cow_manager \<Rightarrow> cow_manager" where
  "add_mapping pid page frame perms c = c\<lparr>cow_mappings := cow_mappings c @
     [\<lparr>cm_process = pid, cm_page = page, cm_frame = frame, cm_permissions = perms\<rparr>]\<rparr>"

definition read_only_permissions :: "page_permissions \<Rightarrow> page_permissions" where
  "read_only_permissions perms = PagePermissions False (user_accessible perms) (executable perms)"

definition is_write_protection_fault :: "trap_frame \<Rightarrow> bool" where
  "is_write_protection_fault tf \<longleftrightarrow> tf_vector tf = vector_page_fault \<and>
     has_page_fault_error_bit tf PAGE_FAULT_ERROR_PRESENT_BIT \<and>
     has_page_fault_error_bit tf PAGE_FAULT_ERROR_WRITE_BIT"

section \<open>Sharing the pages of a parent with a child\<close>

record share_state =
  sh_cow :: cow_manager
  sh_parent :: address_space
  sh_child :: address_space
  sh_memory :: phys_mem

definition on_parent :: "(space_state, 'a) op \<Rightarrow> (share_state, 'a) op" where
  "on_parent f = (\<lambda>s. case f (sh_parent s, sh_memory s) of
     (r, (a, m)) \<Rightarrow> (r, s\<lparr>sh_parent := a, sh_memory := m\<rparr>))"

definition on_child :: "(space_state, 'a) op \<Rightarrow> (share_state, 'a) op" where
  "on_child f = (\<lambda>s. case f (sh_child s, sh_memory s) of
     (r, (a, m)) \<Rightarrow> (r, s\<lparr>sh_child := a, sh_memory := m\<rparr>))"

definition on_cow :: "(cow_manager \<Rightarrow> cow_manager) \<Rightarrow> (share_state, unit) op" where
  "on_cow f = modify (sh_cow_update f)"

text \<open>The body of the loop, from the lookup of the parent's mapping on.\<close>

definition share_translated ::
  "process_id \<Rightarrow> process_id \<Rightarrow> address64 \<Rightarrow> page_translation \<Rightarrow> (share_state, nat) op" where
  "share_translated parent child requested_page translation = (\<lambda>s.
     let parent_mapping = find_mapping parent requested_page (sh_cow s);
         physical_frame = physical_frame_base translation;
         restored_permissions = (case parent_mapping of None \<Rightarrow> permissions translation
                                 | Some pm \<Rightarrow> cm_permissions pm);
         child_permissions = (if writable restored_permissions
                              then read_only_permissions restored_permissions else restored_permissions)
     in sq (if writable restored_permissions
            then require (\<not> cow_contains child requested_page (sh_cow s)) Logic_error else ret ())
       (sq (on_child (map_page requested_page physical_frame child_permissions))
       (if writable restored_permissions
        then sq (if parent_mapping = None
                 then sq (on_parent (set_page_permissions requested_page (read_only_permissions restored_permissions)))
                     (sq (on_cow (add_mapping parent requested_page physical_frame restored_permissions))
                         (on_cow (add_frame_ref physical_frame)))
                 else ret ())
            (sq (on_cow (add_mapping child requested_page physical_frame restored_permissions))
            (sq (on_cow (add_frame_ref physical_frame))
                (ret 1)))
        else ret 0)) s)"

definition share_page :: "process_id \<Rightarrow> process_id \<Rightarrow> address64 \<Rightarrow> (share_state, nat) op" where
  "share_page parent child requested_page =
     sq (require (is_page_aligned requested_page) Invalid_argument)
    (bnd (on_parent (as_page_translation requested_page READ RING0)) (\<lambda>translation.
     sq (require (page_size_bytes translation = PAGE_SIZE_4K_BYTES) Logic_error)
        (share_translated parent child requested_page translation)))"

fun share_pages_loop ::
  "process_id \<Rightarrow> process_id \<Rightarrow> address64 list \<Rightarrow> nat \<Rightarrow> (share_state, nat) op" where
  "share_pages_loop parent child [] n = ret n"
| "share_pages_loop parent child (v # vs) n =
     bnd (share_page parent child v) (\<lambda>k. share_pages_loop parent child vs (n + k))"

definition share_pages :: "process_id \<Rightarrow> process_id \<Rightarrow> address64 list \<Rightarrow> (share_state, nat) op" where
  "share_pages parent child virtual_pages = share_pages_loop parent child virtual_pages 0"

section \<open>Resolving a write fault\<close>

record cow_state = fault_state +
  fh_cow :: cow_manager

definition copy_physical_page :: "address64 \<Rightarrow> address64 \<Rightarrow> (phys_mem, unit) op" where
  "copy_physical_page source_frame target_frame =
     for_each (\<lambda>offset. bnd (mem_read (source_frame + offset) QWORD)
       (\<lambda>value. mem_write (target_frame + offset) QWORD value)) page_qword_offsets"

text \<open>The operations of the fault handler's components, on the state with the manager.\<close>

definition at_allocator :: "(physical_page_allocator, 'a) op \<Rightarrow> (cow_state, 'a) op" where
  "at_allocator f = focus fh_allocator fh_allocator_update f"

definition at_memory :: "(phys_mem, 'a) op \<Rightarrow> (cow_state, 'a) op" where
  "at_memory f = focus fh_memory fh_memory_update f"

definition at_space :: "(space_state, 'a) op \<Rightarrow> (cow_state, 'a) op" where
  "at_space f = (\<lambda>s. case f (fh_space s, fh_memory s) of
     (r, (a, m)) \<Rightarrow> (r, s\<lparr>fh_space := a, fh_memory := m\<rparr>))"

definition at_paging :: "(paging_state, 'a) op \<Rightarrow> (cow_state, 'a) op" where
  "at_paging f = focus fh_cpu fh_cpu_update (focus paging paging_update f)"

definition reactivate :: "(cow_state, unit) op" where
  "reactivate = (\<lambda>s. at_paging
     (activate_context (fh_space s) (paging_state.process_context_id (paging (fh_cpu s))) FLUSH_CURRENT_CONTEXT) s)"

definition finish_cow :: "process_id \<Rightarrow> address64 \<Rightarrow> address64 \<Rightarrow> (cow_state, unit) op" where
  "finish_cow pid virtual_page original_frame =
     sq (modify (fh_cow_update (release_frame_ref original_frame)))
    (sq (modify (fh_cow_update (remove_mapping pid virtual_page)))
        (modify (fh_cpu_update clear_pending_trap)))"

definition resolve_write_fault :: "process_id \<Rightarrow> (cow_state, cow_fault_result) op" where
  "resolve_write_fault pid = (\<lambda>s.
     case pending_trap (fh_cpu s) of None \<Rightarrow> (Inr INVALID_FAULT, s)
     | Some tf \<Rightarrow>
       if \<not> is_write_protection_fault tf then (Inr INVALID_FAULT, s)
       else
       (let virtual_page = align_down_value (page_fault_linear_address (paging (fh_cpu s))) in
        case find_mapping pid virtual_page (fh_cow s) of None \<Rightarrow> (Inr NOT_COW, s)
        | Some mapping \<Rightarrow>
          (let original_frame = cm_frame mapping; restored_permissions = cm_permissions mapping in
           if frame_ref_count (fh_cow s) original_frame \<le> 1
           then sq (at_space (set_page_permissions virtual_page restored_permissions))
               (sq reactivate
               (sq (finish_cow pid virtual_page original_frame)
                   (ret RESTORED))) s
           else bnd (catch_exn (bnd (at_allocator allocate_page) (\<lambda>p. ret (Some p)))
                       (\<lambda>e. if e = Bad_alloc then ret None else throw e)) (\<lambda>page.
             case page of None \<Rightarrow> ret COW_OUT_OF_MEMORY
             | Some copied_page \<Rightarrow>
               sq (catch_exn
                    (sq (at_memory (copy_physical_page original_frame copied_page))
                    (sq (at_space (map_page virtual_page copied_page restored_permissions))
                        reactivate))
                    (\<lambda>e. sq (at_allocator (free_page copied_page)) (throw e)))
              (sq (finish_cow pid virtual_page original_frame)
                  (ret COPIED))) s)))"

section \<open>Reference counts\<close>

text \<open>A table of counters that follows a list of holders.\<close>

locale ref_counts =
  fixes ok :: "'r \<Rightarrow> bool"
    and cnt :: "'r \<Rightarrow> 'f \<Rightarrow> nat"
    and inc :: "'f \<Rightarrow> 'r \<Rightarrow> 'r"
    and dec :: "'f \<Rightarrow> 'r \<Rightarrow> 'r"
  assumes ok_inc: "ok r \<Longrightarrow> ok (inc f r)"
    and cnt_inc: "ok r \<Longrightarrow> cnt (inc f r) g = (if g = f then Suc (cnt r g) else cnt r g)"
    and ok_dec: "ok r \<Longrightarrow> ok (dec f r)"
    and cnt_dec: "ok r \<Longrightarrow> cnt (dec f r) g = (if g = f then cnt r g - 1 else cnt r g)"
begin

definition follows :: "('h \<Rightarrow> 'f) \<Rightarrow> 'h list \<Rightarrow> 'r \<Rightarrow> bool" where
  "follows frame hs r \<longleftrightarrow> ok r \<and> (\<forall>f. cnt r f = length (filter (\<lambda>h. frame h = f) hs))"

lemma follows_add:
  assumes "follows frame hs r"
  shows "follows frame (hs @ [h]) (inc (frame h) r)"
  using assms by (auto simp: follows_def ok_inc cnt_inc)

lemma follows_remove:
  assumes "follows frame (hs1 @ h # hs2) r"
  shows "follows frame (hs1 @ hs2) (dec (frame h) r)"
  using assms by (auto simp: follows_def ok_dec cnt_dec)

end

definition refs_ok :: "cow_frame_ref list \<Rightarrow> bool" where
  "refs_ok rs \<longleftrightarrow> distinct (map cr_frame rs) \<and> (\<forall>r \<in> set rs. 0 < cr_count r)"

definition refs_count :: "cow_frame_ref list \<Rightarrow> address64 \<Rightarrow> nat" where
  "refs_count rs f = (case find_frame_ref f rs of None \<Rightarrow> 0 | Some r \<Rightarrow> cr_count r)"

definition refs_add :: "address64 \<Rightarrow> cow_frame_ref list \<Rightarrow> cow_frame_ref list" where
  "refs_add f rs = (case find_frame_ref f rs of None \<Rightarrow> rs @ [\<lparr>cr_frame = f, cr_count = 1\<rparr>]
     | Some _ \<Rightarrow> increment_ref f rs)"

lemma frame_ref_count_refs: "frame_ref_count c f = refs_count (cow_frame_refs c) f"
  by (simp add: frame_ref_count_def refs_count_def)

lemma add_frame_ref_refs: "add_frame_ref f c = c\<lparr>cow_frame_refs := refs_add f (cow_frame_refs c)\<rparr>"
  by (simp add: add_frame_ref_def refs_add_def split: option.split)

lemma find_frame_ref_None: "find_frame_ref f rs = None \<longleftrightarrow> f \<notin> cr_frame ` set rs"
  by (induction rs) auto

lemma find_frame_ref_append:
  "find_frame_ref f (xs @ ys) = (case find_frame_ref f xs of None \<Rightarrow> find_frame_ref f ys | Some r \<Rightarrow> Some r)"
  by (induction xs) auto

lemma map_increment [simp]: "map cr_frame (increment_ref f rs) = map cr_frame rs"
  by (induction rs) auto

lemma increment_pos: "\<forall>r \<in> set rs. 0 < cr_count r \<Longrightarrow> \<forall>r \<in> set (increment_ref f rs). 0 < cr_count r"
  by (induction rs) auto

lemma refs_count_increment:
  "find_frame_ref f rs \<noteq> None \<Longrightarrow>
     refs_count (increment_ref f rs) g = (if g = f then Suc (refs_count rs g) else refs_count rs g)"
  by (induction rs) (auto simp: refs_count_def)

lemma set_release: "cr_frame ` set (release_loop f rs) \<subseteq> cr_frame ` set rs"
  by (induction rs) (auto simp: Let_def)

lemma refs_ok_release: "refs_ok rs \<Longrightarrow> refs_ok (release_loop f rs)"
proof (induction rs)
  case (Cons r rs)
  then show ?case using set_release [of f rs] by (auto simp: refs_ok_def Let_def image_iff)
qed simp

lemma refs_count_release:
  "refs_ok rs \<Longrightarrow> refs_count (release_loop f rs) g = (if g = f then refs_count rs g - 1 else refs_count rs g)"
proof (induction rs)
  case Nil
  then show ?case by (simp add: refs_count_def)
next
  case (Cons r rs)
  have fresh: "find_frame_ref (cr_frame r) rs = None" "refs_ok rs"
    using Cons.prems by (auto simp: refs_ok_def find_frame_ref_None)
  show ?case using Cons.IH [OF fresh(2)] fresh(1) by (auto simp: refs_count_def Let_def)
qed

interpretation refs: ref_counts refs_ok refs_count refs_add release_loop
proof
  fix r f g assume ok: "refs_ok r"
  show "refs_ok (refs_add f r)"
    using ok increment_pos [of r f] find_frame_ref_None [of f r]
    by (auto simp: refs_ok_def refs_add_def image_iff split: option.split)
  show "refs_count (refs_add f r) g = (if g = f then Suc (refs_count r g) else refs_count r g)"
  proof (cases "find_frame_ref f r")
    case None
    then show ?thesis by (auto simp: refs_add_def refs_count_def find_frame_ref_append split: option.split)
  next
    case (Some x)
    then show ?thesis by (simp add: refs_add_def refs_count_increment)
  qed
  show "refs_ok (release_loop f r)" by (rule refs_ok_release [OF ok])
  show "refs_count (release_loop f r) g = (if g = f then refs_count r g - 1 else refs_count r g)"
    by (rule refs_count_release [OF ok])
qed

section \<open>Invariant of the manager\<close>

definition cow_key :: "cow_mapping \<Rightarrow> process_id \<times> address64" where
  "cow_key x = (cm_process x, cm_page x)"

text \<open>
  The counters are exact and positive, no page of a process is mapped twice, and shared frames are
  page aligned.
\<close>

definition cow_inv :: "cow_manager \<Rightarrow> bool" where
  "cow_inv c \<longleftrightarrow> refs.follows cm_frame (cow_mappings c) (cow_frame_refs c) \<and>
     distinct (map cow_key (cow_mappings c)) \<and> (\<forall>x \<in> set (cow_mappings c). is_page_aligned (cm_frame x))"

lemma cow_inv_initial [simp]: "cow_inv initial_cow"
  by (simp add: cow_inv_def initial_cow_def refs.follows_def refs_ok_def refs_count_def)

lemma cow_inv_count:
  "cow_inv c \<Longrightarrow> frame_ref_count c f = length (filter (\<lambda>x. cm_frame x = f) (cow_mappings c))"
  by (simp add: cow_inv_def refs.follows_def frame_ref_count_refs)

lemma find_mapping_loop_None: "find_mapping_loop pid page xs = None \<longleftrightarrow> (pid, page) \<notin> cow_key ` set xs"
  by (induction xs) (auto simp: cow_key_def)

lemma find_mapping_loop_SomeE:
  assumes "find_mapping_loop pid page xs = Some x"
  obtains xs1 xs2 where "xs = xs1 @ x # xs2" and "remove_loop pid page xs = xs1 @ xs2" and "cow_key x = (pid, page)"
  using assms
proof (induction xs arbitrary: thesis)
  case (Cons y ys)
  show ?case
  proof (cases "cm_process y = pid \<and> cm_page y = page")
    case True
    then show ?thesis using Cons.prems(2) by (intro Cons.prems(1) [of "[]" ys]) (auto simp: cow_key_def)
  next
    case False
    then have "find_mapping_loop pid page ys = Some x" using Cons.prems(2) by (auto split: if_splits)
    then obtain ys1 ys2 where "ys = ys1 @ x # ys2" "remove_loop pid page ys = ys1 @ ys2" "cow_key x = (pid, page)"
      using Cons.IH by blast
    then show ?thesis using False by (intro Cons.prems(1) [of "y # ys1" ys2]) auto
  qed
qed simp

lemma find_mapping_add:
  "find_mapping pid page (add_mapping pid' page' f perms c) =
     (case find_mapping pid page c of
        None \<Rightarrow> if pid' = pid \<and> page' = page
                then Some \<lparr>cm_process = pid, cm_page = page, cm_frame = f, cm_permissions = perms\<rparr> else None
      | Some x \<Rightarrow> Some x)"
proof -
  have "find_mapping_loop pid page (xs @ ys) =
      (case find_mapping_loop pid page xs of None \<Rightarrow> find_mapping_loop pid page ys | Some x \<Rightarrow> Some x)" for xs ys
    by (induction xs) auto
  then show ?thesis by (simp add: find_mapping_def add_mapping_def split: option.split)
qed

lemma find_mapping_add_ref [simp]: "find_mapping pid page (add_frame_ref f c) = find_mapping pid page c"
  by (simp add: find_mapping_def add_frame_ref_refs)

lemma cow_inv_add:
  assumes inv: "cow_inv c" and fresh: "\<not> cow_contains pid page c" and f: "is_page_aligned f"
  shows "cow_inv (add_frame_ref f (add_mapping pid page f perms c))"
proof -
  have "(pid, page) \<notin> cow_key ` set (cow_mappings c)"
    using fresh find_mapping_loop_None by (simp add: cow_contains_def find_mapping_def)
  then show ?thesis
    using inv f refs.follows_add [of cm_frame "cow_mappings c" "cow_frame_refs c"
        "\<lparr>cm_process = pid, cm_page = page, cm_frame = f, cm_permissions = perms\<rparr>"]
    by (auto simp: cow_inv_def add_frame_ref_refs add_mapping_def cow_key_def)
qed

lemma cow_inv_finish:
  assumes inv: "cow_inv c" and x: "find_mapping pid page c = Some x"
  shows "cow_inv (remove_mapping pid page (release_frame_ref (cm_frame x) c))"
    and "\<not> cow_contains pid page (remove_mapping pid page (release_frame_ref (cm_frame x) c))"
    and "frame_ref_count (remove_mapping pid page (release_frame_ref (cm_frame x) c)) f =
      (if f = cm_frame x then frame_ref_count c f - 1 else frame_ref_count c f)"
    and "(pid', page') \<noteq> (pid, page) \<Longrightarrow>
      find_mapping pid' page' (remove_mapping pid page (release_frame_ref (cm_frame x) c)) = find_mapping pid' page' c"
    and "is_page_aligned (cm_frame x)" and "0 < frame_ref_count c (cm_frame x)"
proof -
  obtain xs1 xs2 where xs: "cow_mappings c = xs1 @ x # xs2"
    "remove_loop pid page (cow_mappings c) = xs1 @ xs2" "cow_key x = (pid, page)"
    using x find_mapping_loop_SomeE unfolding find_mapping_def by metis
  let ?c = "remove_mapping pid page (release_frame_ref (cm_frame x) c)"
  have c: "cow_mappings ?c = xs1 @ xs2" "cow_frame_refs ?c = release_loop (cm_frame x) (cow_frame_refs c)"
    by (simp_all add: remove_mapping_def release_frame_ref_def xs(2))
  have dist: "distinct (map cow_key (xs1 @ x # xs2))" using inv xs(1) by (simp add: cow_inv_def)
  show "cow_inv ?c"
    unfolding cow_inv_def c
    using inv refs.follows_remove [of cm_frame xs1 x xs2] dist xs(1) by (auto simp: cow_inv_def)
  have "(pid, page) \<notin> cow_key ` set (xs1 @ xs2)" using dist xs(3) by auto
  then show "\<not> cow_contains pid page ?c"
    using find_mapping_loop_None [of pid page "xs1 @ xs2"] by (simp add: cow_contains_def find_mapping_def c)
  have "refs_ok (cow_frame_refs c)" using inv by (simp add: cow_inv_def refs.follows_def)
  then show "frame_ref_count ?c f = (if f = cm_frame x then frame_ref_count c f - 1 else frame_ref_count c f)"
    using refs.cnt_dec by (simp add: frame_ref_count_refs c)
  have skip: "find_mapping_loop pid' page' (ys1 @ x # ys2) = find_mapping_loop pid' page' (ys1 @ ys2)"
    if "(pid', page') \<noteq> (pid, page)" for ys1 ys2
    using that xs(3) by (induction ys1) (auto simp: cow_key_def)
  show "find_mapping pid' page' ?c = find_mapping pid' page' c" if "(pid', page') \<noteq> (pid, page)"
    unfolding find_mapping_def c xs(1) skip [OF that] ..
  show "is_page_aligned (cm_frame x)" using inv xs(1) by (simp add: cow_inv_def)
  show "0 < frame_ref_count c (cm_frame x)" using cow_inv_count [OF inv, of "cm_frame x"] xs(1) by simp
qed

section \<open>Sharing\<close>

lemma page_walk_frame_aligned: "page_walk nxe la lvs t p m = Mapped x \<Longrightarrow> aligned4k (physical_frame_base x)"
proof (induction lvs arbitrary: t p)
  case (Cons lv lvs)
  have "aligned4k (frame_address e sz)" for e sz
    unfolding aligned4k_iff [symmetric] aligned_4k_iff frame_address_def Let_def
    by (simp add: bit_and_iff bit_ENTRY_ADDRESS_MASK_4K)
  with Cons show ?case
    by (auto simp: Let_def split: sum.splits if_splits)
qed simp

lemma as_page_translation_frame:
  assumes "as_page_translation v READ RING0 s = (Inr t, s')"
  shows "is_page_aligned (physical_frame_base t)"
proof -
  obtain a m where s: "s = (a, m)" by (cases s)
  have root: "aligned4k (as_root a)"
    using assms by (auto simp: s as_page_translation_def load_cr3_def load_cr3_context_def op_simps aligned4k_iff
        split: if_splits)
  note sp = space_paging_facts [OF root]
  obtain m' where w: "walker_translate (space_paging a) v READ RING0 m = (Inr t, m')"
    using assms sp(1) by (auto simp: s as_page_translation_def space_paging_def split: prod.splits sum.splits)
  have "aligned4k (cr3 (space_paging a))" using sp root by simp
  from walker_translate_run [OF this w]
  have "erase_dirty (Inr t) = check_access (space_paging a) v READ RING0 (translation_spec (space_paging a) v m)" by simp
  then obtain x where x: "translation_spec (space_paging a) v m = Mapped x" "t\<lparr>dirty := False\<rparr> = x"
    by (auto simp: erase_dirty_def check_access_def split: walk_outcome.splits)
  then have "aligned4k (physical_frame_base x)"
    by (auto simp: translation_spec_def intro: page_walk_frame_aligned split: if_splits)
  then show ?thesis using x(2) by (auto simp: is_page_aligned_4k)
qed

lemma on_parent_cow: "on_parent f s = (r, s') \<Longrightarrow> sh_cow s' = sh_cow s"
  by (auto simp: on_parent_def split: prod.splits)

lemma on_child_cow: "on_child f s = (r, s') \<Longrightarrow> sh_cow s' = sh_cow s"
  by (auto simp: on_child_def split: prod.splits)

lemma on_parent_Inr:
  assumes "on_parent f s = (Inr x, s')"
  obtains s1 where "f (sh_parent s, sh_memory s) = (Inr x, s1)"
  using assms by (auto simp: on_parent_def split: prod.splits)

definition add_shared :: "process_id \<Rightarrow> address64 \<Rightarrow> address64 \<Rightarrow> page_permissions \<Rightarrow> cow_manager \<Rightarrow> cow_manager" where
  "add_shared pid v f perms c = add_frame_ref f (add_mapping pid v f perms c)"

text \<open>What one page does to the manager: nothing, unless the page was writable and now is shared.\<close>

definition page_shared ::
  "process_id \<Rightarrow> process_id \<Rightarrow> address64 \<Rightarrow> exn + nat \<Rightarrow> cow_manager \<Rightarrow> cow_manager \<Rightarrow> bool" where
  "page_shared parent child v r c c' \<longleftrightarrow>
     (case r of Inl _ \<Rightarrow> c' = c
      | Inr k \<Rightarrow> k = 0 \<and> c' = c \<or>
          k = 1 \<and> \<not> cow_contains child v c \<and>
          (\<exists>f perms. is_page_aligned f \<and> writable perms \<and>
             (\<forall>x. find_mapping parent v c = Some x \<longrightarrow> perms = cm_permissions x) \<and>
             c' = add_shared child v f perms
               (if find_mapping parent v c = None then add_shared parent v f perms c else c)))"

lemma share_translated_spec:
  assumes run: "share_translated parent child v t s = (r, s')" and f: "is_page_aligned (physical_frame_base t)"
  shows "page_shared parent child v r (sh_cow s) (sh_cow s')"
proof -
  define pm where "pm = find_mapping parent v (sh_cow s)"
  define perms where "perms = (case pm of None \<Rightarrow> permissions t | Some pm \<Rightarrow> cm_permissions pm)"
  define cp where "cp = (if writable perms then read_only_permissions perms else perms)"
  obtain rc s2 where mp: "on_child (map_page v (physical_frame_base t) cp) s = (rc, s2)" by fastforce
  note c2 = on_child_cow [OF mp]
  obtain rp s3 where sp: "on_parent (set_page_permissions v (read_only_permissions perms)) s2 = (rp, s3)" by fastforce
  note c3 = on_parent_cow [OF sp]
  have perms: "\<forall>x. pm = Some x \<longrightarrow> perms = cm_permissions x" by (simp add: perms_def)
  note run' = run [unfolded share_translated_def Let_def pm_def [symmetric] perms_def [symmetric] cp_def [symmetric]]
  show ?thesis
  proof (cases "writable perms \<and> \<not> cow_contains child v (sh_cow s)")
    case False
    then show ?thesis using run' mp c2 by (cases rc) (auto simp: op_simps page_shared_def split: if_splits)
  next
    case True
    let ?f = "physical_frame_base t"
    have "r = Inr 1 \<and> sh_cow s' = add_shared child v ?f perms (if pm = None then add_shared parent v ?f perms (sh_cow s) else sh_cow s)
        \<or> (\<exists>e. r = Inl e) \<and> sh_cow s' = sh_cow s"
    proof (cases pm)
      case None
      then show ?thesis using run' True mp sp c2 c3
        by (cases rc; cases rp) (auto simp: op_simps on_cow_def add_shared_def)
    next
      case (Some x)
      then show ?thesis using run' True mp c2
        by (cases rc) (auto simp: op_simps on_cow_def add_shared_def)
    qed
    then show ?thesis
    proof
      assume a: "r = Inr 1 \<and> sh_cow s' = add_shared child v ?f perms (if pm = None then add_shared parent v ?f perms (sh_cow s) else sh_cow s)"
      show ?thesis
        unfolding page_shared_def pm_def [symmetric] using a True f perms
        by (simp add: exI [of _ ?f] exI [of _ perms])
    qed (auto simp: page_shared_def)
  qed
qed

lemma share_page_spec:
  assumes "share_page parent child v s = (r, s')"
  shows "page_shared parent child v r (sh_cow s) (sh_cow s')"
proof (cases "is_page_aligned v")
  case False
  then show ?thesis using assms by (auto simp: share_page_def op_simps page_shared_def)
next
  case True
  obtain rt s1 where tr: "on_parent (as_page_translation v READ RING0) s = (rt, s1)" by fastforce
  note c1 = on_parent_cow [OF tr]
  show ?thesis
  proof (cases "\<exists>t. rt = Inr t \<and> page_size_bytes t = PAGE_SIZE_4K_BYTES")
    case False
    then show ?thesis using assms True c1 tr by (cases rt) (auto simp: share_page_def op_simps page_shared_def)
  next
    case small: True
    then obtain t where t: "rt = Inr t" "page_size_bytes t = PAGE_SIZE_4K_BYTES" by blast
    obtain sx where "as_page_translation v READ RING0 (sh_parent s, sh_memory s) = (Inr t, sx)"
      using on_parent_Inr [OF tr [unfolded t(1)]] by blast
    then have f: "is_page_aligned (physical_frame_base t)" by (rule as_page_translation_frame)
    have "share_translated parent child v t s1 = (r, s')"
      using assms True tr t by (simp add: share_page_def op_simps)
    from share_translated_spec [OF this f] c1 show ?thesis by simp
  qed
qed

lemma cow_contains_shared:
  "cow_contains pid w (add_shared p v f perms c) \<longleftrightarrow> pid = p \<and> w = v \<or> cow_contains pid w c"
  by (auto simp: cow_contains_def add_shared_def find_mapping_add split: option.splits if_splits)

lemma find_mapping_shared:
  "find_mapping pid w c = Some x \<Longrightarrow> find_mapping pid w (add_shared p v f perms c) = Some x"
  by (simp add: add_shared_def find_mapping_add)

lemma page_shared_inv:
  assumes "page_shared parent child v r c c'" and "cow_inv c" and "parent \<noteq> child"
  shows "cow_inv c'" and "find_mapping pid w c = Some x \<Longrightarrow> find_mapping pid w c' = Some x"
    and "pid \<noteq> parent \<Longrightarrow> pid \<noteq> child \<Longrightarrow> cow_contains pid w c' = cow_contains pid w c"
    and "r = Inr k \<Longrightarrow> {w. cow_contains child w c'} = (if k = 0 then {} else {v}) \<union> {w. cow_contains child w c}"
    and "r = Inr k \<Longrightarrow> k = (if cow_contains child v c' \<and> \<not> cow_contains child v c then 1 else 0)"
    and "r = Inl e \<Longrightarrow> c' = c"
    and "cow_contains child w c' \<Longrightarrow> \<not> cow_contains child w c \<Longrightarrow> cow_contains parent w c'"
proof -
  have shared: "cow_inv (add_shared child v f perms (if find_mapping parent v c = None then add_shared parent v f perms c else c))"
    if "is_page_aligned f" "\<not> cow_contains child v c" for f perms
  proof (cases "find_mapping parent v c = None")
    case True
    then have "cow_inv (add_shared parent v f perms c)"
      unfolding add_shared_def by (intro cow_inv_add assms(2) that(1)) (simp add: cow_contains_def)
    moreover have "\<not> cow_contains child v (add_shared parent v f perms c)"
      using that(2) assms(3) by (simp add: cow_contains_shared)
    ultimately show ?thesis using True that(1) cow_inv_add by (simp add: add_shared_def)
  next
    case False
    then show ?thesis using cow_inv_add [OF assms(2) that(2,1)] by (simp only: add_shared_def if_False)
  qed
  show "cow_inv c'" using assms(1,2) shared by (auto simp: page_shared_def split: sum.splits)
  show "find_mapping pid w c' = Some x" if "find_mapping pid w c = Some x"
    using assms(1) that by (auto simp: page_shared_def find_mapping_shared split: sum.splits)
  show "cow_contains pid w c' = cow_contains pid w c" if "pid \<noteq> parent" "pid \<noteq> child"
    using assms(1) that by (auto simp: page_shared_def cow_contains_shared split: sum.splits if_splits)
  show "{w. cow_contains child w c'} = (if k = 0 then {} else {v}) \<union> {w. cow_contains child w c}" if "r = Inr k"
    using assms(1,3) that by (auto simp: page_shared_def cow_contains_shared split: if_splits)
  show "k = (if cow_contains child v c' \<and> \<not> cow_contains child v c then 1 else 0)" if "r = Inr k"
    using assms(1,3) that by (auto simp: page_shared_def cow_contains_shared split: if_splits)
  show "c' = c" if "r = Inl e" using assms(1) that by (simp add: page_shared_def)
  show "cow_contains parent w c'" if "cow_contains child w c'" "\<not> cow_contains child w c"
  proof -
    have n: "find_mapping parent v c = None \<longleftrightarrow> \<not> cow_contains parent v c" by (simp add: cow_contains_def)
    show ?thesis
      by (cases "cow_contains parent v c")
         (use assms(1,3) that in \<open>auto simp: page_shared_def n cow_contains_shared split: sum.splits\<close>)
  qed
qed

text \<open>The pages of a child that became copy-on-write.\<close>

definition new_shared :: "process_id \<Rightarrow> cow_manager \<Rightarrow> cow_manager \<Rightarrow> address64 set" where
  "new_shared child c c' = {w. cow_contains child w c' \<and> \<not> cow_contains child w c}"

lemma share_pages_loop_spec:
  assumes "share_pages_loop parent child vs n s = (r, s')" and "cow_inv (sh_cow s)" and "parent \<noteq> child"
  shows "cow_inv (sh_cow s') \<and>
    (\<forall>pid w x. find_mapping pid w (sh_cow s) = Some x \<longrightarrow> find_mapping pid w (sh_cow s') = Some x) \<and>
    (\<forall>pid w. pid \<noteq> parent \<longrightarrow> pid \<noteq> child \<longrightarrow> cow_contains pid w (sh_cow s') = cow_contains pid w (sh_cow s)) \<and>
    (\<forall>w \<in> new_shared child (sh_cow s) (sh_cow s'). w \<in> set vs \<and> cow_contains parent w (sh_cow s')) \<and>
    (\<forall>k. r = Inr k \<longrightarrow> k = n + card (new_shared child (sh_cow s) (sh_cow s')))"
  using assms(1,2)
proof (induction vs arbitrary: n s)
  case Nil
  then show ?case by (auto simp: ret_run new_shared_def)
next
  case (Cons v vs)
  obtain r1 s1 where 1: "share_page parent child v s = (r1, s1)" by fastforce
  note sp = page_shared_inv [OF share_page_spec [OF 1] Cons.prems(2) assms(3)]
  show ?case
  proof (cases r1)
    case (Inl e)
    then have "s' = s1" "r = Inl e" using Cons.prems(1) 1 by (auto simp: bnd_run)
    then show ?thesis using sp(6) [OF Inl] Cons.prems(2) by (auto simp: new_shared_def)
  next
    case (Inr k)
    then have rest: "share_pages_loop parent child vs (n + k) s1 = (r, s')" using Cons.prems(1) 1 by (simp add: bnd_run)
    let ?c = "sh_cow s" and ?c1 = "sh_cow s1" and ?c' = "sh_cow s'"
    have IH: "cow_inv ?c'" "\<And>pid w x. find_mapping pid w ?c1 = Some x \<Longrightarrow> find_mapping pid w ?c' = Some x"
      "\<And>pid w. pid \<noteq> parent \<Longrightarrow> pid \<noteq> child \<Longrightarrow> cow_contains pid w ?c' = cow_contains pid w ?c1"
      "\<And>w. w \<in> new_shared child ?c1 ?c' \<Longrightarrow> w \<in> set vs \<and> cow_contains parent w ?c'"
      "\<And>k'. r = Inr k' \<Longrightarrow> k' = n + k + card (new_shared child ?c1 ?c')"
      using Cons.IH [OF rest sp(1)] by auto
    have mono: "cow_contains pid w ?c1 \<Longrightarrow> cow_contains pid w ?c'" for pid w
      using IH(2) by (auto simp: cow_contains_def)
    have N1: "new_shared child ?c ?c1 = (if k = 0 then {} else {v})"
      using sp(4,5) [OF Inr] by (auto simp: new_shared_def split: if_splits)
    have k: "k = card (new_shared child ?c ?c1)" using sp(5) [OF Inr] N1 by (auto split: if_splits)
    have mono1: "cow_contains child w ?c \<Longrightarrow> cow_contains child w ?c1" for w using sp(4) [OF Inr] by auto
    have split: "new_shared child ?c ?c' = new_shared child ?c ?c1 \<union> new_shared child ?c1 ?c'"
      "new_shared child ?c ?c1 \<inter> new_shared child ?c1 ?c' = {}"
      using mono mono1 by (auto simp: new_shared_def)
    have fin: "finite (new_shared child ?c1 ?c')" "finite (new_shared child ?c ?c1)"
      using finite_subset [of "new_shared child ?c1 ?c'" "set vs"] IH(4) N1 by (auto simp: subset_iff)
    have card: "card (new_shared child ?c ?c') = k + card (new_shared child ?c1 ?c')"
      unfolding split(1) k by (rule card_Un_disjoint [OF fin(2,1) split(2)])
    have new: "w \<in> set (v # vs) \<and> cow_contains parent w ?c'" if "w \<in> new_shared child ?c ?c'" for w
    proof (cases "w \<in> new_shared child ?c1 ?c'")
      case False
      then have w1: "w \<in> new_shared child ?c ?c1" using that split(1) by blast
      then have "cow_contains parent w ?c1" using sp(7) by (auto simp: new_shared_def)
      then show ?thesis using w1 N1 mono by (auto split: if_splits)
    qed (use IH(4) in auto)
    show ?thesis using IH(1,2,3,5) sp(2,3) card new by (auto simp: add.assoc)
  qed
qed

text \<open>The translations after sharing.\<close>

lemma page_walk_frame_bound: "page_walk nxe la lvs t p m = Mapped x \<Longrightarrow> unat (physical_frame_base x) < 2 ^ 52"
proof (induction lvs arbitrary: t p)
  case (Cons lv lvs)
  have "unat (frame_address e sz) < 2 ^ 52" for e sz
  proof -
    have "take_bit 52 (frame_address e sz) = frame_address e sz"
      by (rule bit_eqI) (auto simp: bit_take_bit_iff frame_address_def Let_def bit_and_iff bit_ENTRY_ADDRESS_MASK_4K)
    then show ?thesis by (metis take_bit_nat_less_exp unsigned_take_bit_eq)
  qed
  with Cons show ?case by (auto simp: Let_def split: sum.splits if_splits)
qed simp

lemma as_page_translation_spec:
  assumes ok: "as_ok (a, m)" and v: "is_canonical_linear_address v"
    and run: "as_page_translation v READ RING0 (a, m) = (r, (a', m'))"
  shows "a' = a" and "ad_le m m'" and "r = Inr t \<Longrightarrow> as_walk True v (a, m) = Mapped (t\<lparr>dirty := False\<rparr>)"
    and "r = Inr t \<Longrightarrow> unat (physical_frame_base t) < 2 ^ 52"
proof -
  have root: "aligned4k (as_root a)"
    using builder_ok_aligned(1) [of "as_builder (a, m)"] ok by (simp add: as_ok_def) (simp add: as_builder_def)
  note sp = space_paging_facts [OF root]
  have w: "walker_translate (space_paging a) v READ RING0 m = (r, m')" and a: "a' = a"
    using run sp(1) by (auto simp: as_page_translation_def space_paging_def split: prod.splits sum.splits)
  have "aligned4k (cr3 (space_paging a))" using sp root by simp
  from walker_translate_run [OF this w] translation_spec_walk [OF root v]
  have e: "erase_dirty r = check_access (space_paging a) v READ RING0 (as_walk True v (a, m))" and ad: "ad_le m m'" by simp_all
  show "a' = a" "ad_le m m'" using a ad by simp_all
  show walk: "as_walk True v (a, m) = Mapped (t\<lparr>dirty := False\<rparr>)" if "r = Inr t"
    using e that by (auto simp: erase_dirty_def check_access_def split: walk_outcome.splits)
  show "unat (physical_frame_base t) < 2 ^ 52" if "r = Inr t"
    using page_walk_frame_bound walk [OF that] by (fastforce simp: as_walk_def walk_of_def)
qed

definition parent_space :: "share_state \<Rightarrow> space_state" where
  "parent_space s = (sh_parent s, sh_memory s)"

definition child_space :: "share_state \<Rightarrow> space_state" where
  "child_space s = (sh_child s, sh_memory s)"

definition spaces_ok :: "share_state \<Rightarrow> bool" where
  "spaces_ok s \<longleftrightarrow> as_ok (parent_space s) \<and> as_ok (child_space s) \<and> arenas_disjoint (sh_parent s) (sh_child s)"

lemma arenas_disjoint_frame:
  assumes "arenas_disjoint a b" and "space_frame (a, m) (a', m')"
  shows "arenas_disjoint a' b" and "arenas_disjoint b a'"
  using assms by (auto simp: arenas_disjoint_def space_frame_def)

lemma arenas_disjoint_sym: "arenas_disjoint a b \<Longrightarrow> arenas_disjoint b a"
  by (auto simp: arenas_disjoint_def)

text \<open>Mapping in the child.\<close>

lemma share_child_map:
  assumes ok: "spaces_ok s" and v: "is_canonical_linear_address v" and f: "unat f < 2 ^ 52"
    and run: "on_child (map_page v f perms) s = (Inr (), s')"
  shows "spaces_ok s'" and "sh_parent s' = sh_parent s"
    and "as_walk nxe la (parent_space s') = as_walk nxe la (parent_space s)"
    and "page_mapped (as_builder (child_space s)) (as_builder (child_space s')) PAGE_SIZE_4K_BYTES v f perms"
proof -
  obtain a' m' where mp: "map_page v f perms (sh_child s, sh_memory s) = (Inr (), (a', m'))"
    and s': "s' = s\<lparr>sh_child := a', sh_memory := m'\<rparr>"
    using run by (auto simp: on_child_def split: prod.splits)
  have okc: "as_ok (sh_child s, sh_memory s)" and okp: "as_ok (sh_parent s, sh_memory s)"
    and disj: "arenas_disjoint (sh_parent s) (sh_child s)"
    using ok by (simp_all add: spaces_ok_def parent_space_def child_space_def)
  have spec: "space_frame (sh_child s, sh_memory s) (a', m')" "as_ok (a', m')"
    "page_mapped (as_builder (sh_child s, sh_memory s)) (as_builder (a', m')) PAGE_SIZE_4K_BYTES v f perms"
    using map_page_spec [OF okc v f mp] by simp_all
  note other = as_ok_other [OF okp spec(1) arenas_disjoint_sym [OF disj]]
  have disj': "arenas_disjoint (sh_parent s) a'" by (rule arenas_disjoint_frame(2) [OF arenas_disjoint_sym [OF disj] spec(1)])
  show "spaces_ok s'" using other(1) spec(2) disj' by (simp add: spaces_ok_def parent_space_def child_space_def s')
  show "sh_parent s' = sh_parent s" by (simp add: s')
  show "as_walk nxe la (parent_space s') = as_walk nxe la (parent_space s)" using other(2) by (simp add: parent_space_def s')
  show "page_mapped (as_builder (child_space s)) (as_builder (child_space s')) PAGE_SIZE_4K_BYTES v f perms"
    using spec(3) by (simp add: child_space_def s')
qed

lemma share_parent_permissions:
  assumes ok: "spaces_ok s" and v: "is_canonical_linear_address v" "is_page_aligned v"
    and walk: "as_walk True v (parent_space s) = Mapped t" "page_size_bytes t = PAGE_SIZE_4K_BYTES"
    and run: "on_parent (set_page_permissions v perms) s = (r, s')"
  shows "r = Inr ()" and "spaces_ok s'" and "as_walk nxe la (child_space s') = as_walk nxe la (child_space s)"
    and "page_mapped (as_builder (parent_space s)) (as_builder (parent_space s')) PAGE_SIZE_4K_BYTES v
      (physical_frame_base t) perms"
proof -
  obtain a' m' where sp: "set_page_permissions v perms (sh_parent s, sh_memory s) = (r, (a', m'))"
    and s': "s' = s\<lparr>sh_parent := a', sh_memory := m'\<rparr>"
    using run by (auto simp: on_parent_def split: prod.splits)
  have okc: "as_ok (sh_child s, sh_memory s)" and okp: "as_ok (sh_parent s, sh_memory s)"
    and disj: "arenas_disjoint (sh_parent s) (sh_child s)"
    using ok by (simp_all add: spaces_ok_def parent_space_def child_space_def)
  have spec: "a' = sh_parent s" "as_ok (a', m')" "r = Inr ()"
    "page_mapped (as_builder (sh_parent s, sh_memory s)) (as_builder (a', m')) PAGE_SIZE_4K_BYTES v (physical_frame_base t) perms"
    using set_page_permissions_spec [OF okp v sp] walk by (auto simp: parent_space_def)
  note other = set_page_permissions_other [OF okp okc disj v sp]
  show "r = Inr ()" by (rule spec(3))
  show "spaces_ok s'" using spec(1,2) other(1) disj by (simp add: spaces_ok_def parent_space_def child_space_def s')
  show "as_walk nxe la (child_space s') = as_walk nxe la (child_space s)" using other(2) by (simp add: child_space_def s')
  show "page_mapped (as_builder (parent_space s)) (as_builder (parent_space s')) PAGE_SIZE_4K_BYTES v
      (physical_frame_base t) perms" using spec(4) by (simp add: parent_space_def s')
qed

lemma share_parent_translation:
  assumes ok: "spaces_ok s" and v: "is_canonical_linear_address v"
    and run: "on_parent (as_page_translation v READ RING0) s = (Inr t, s')"
  shows "spaces_ok s'" and "sh_cow s' = sh_cow s" and "unat (physical_frame_base t) < 2 ^ 52"
    and "as_walk True v (parent_space s) = Mapped (t\<lparr>dirty := False\<rparr>)"
    and "as_walk nxe la (parent_space s') = as_walk nxe la (parent_space s)"
    and "as_walk nxe la (child_space s') = as_walk nxe la (child_space s)"
proof -
  obtain a' m' where tr: "as_page_translation v READ RING0 (sh_parent s, sh_memory s) = (Inr t, (a', m'))"
    and s': "s' = s\<lparr>sh_parent := a', sh_memory := m'\<rparr>"
    using run by (auto simp: on_parent_def split: prod.splits)
  have okc: "as_ok (sh_child s, sh_memory s)" and okp: "as_ok (sh_parent s, sh_memory s)"
    and disj: "arenas_disjoint (sh_parent s) (sh_child s)"
    using ok by (simp_all add: spaces_ok_def parent_space_def child_space_def)
  note spec = as_page_translation_spec [OF okp v tr]
  note p = as_ok_ad_le [OF okp spec(2)] and c = as_ok_ad_le [OF okc spec(2)]
  show "spaces_ok s'" using p(1) c(1) disj by (simp add: spaces_ok_def parent_space_def child_space_def s' spec(1))
  show "sh_cow s' = sh_cow s" by (simp add: s')
  show "unat (physical_frame_base t) < 2 ^ 52" using spec(4) by simp
  show "as_walk True v (parent_space s) = Mapped (t\<lparr>dirty := False\<rparr>)" using spec(3) by (simp add: parent_space_def)
  show "as_walk nxe la (parent_space s') = as_walk nxe la (parent_space s)" using p(2) by (simp add: parent_space_def s' spec(1))
  show "as_walk nxe la (child_space s') = as_walk nxe la (child_space s)" using c(2) by (simp add: child_space_def s')
qed

lemma as_page_translation_mapped:
  assumes ok: "as_ok (a, m)" and v: "is_canonical_linear_address v" and walk: "as_walk True v (a, m) = Mapped t"
  obtains t' m' where "as_page_translation v READ RING0 (a, m) = (Inr t', (a, m'))" and "t'\<lparr>dirty := False\<rparr> = t"
proof -
  have root: "aligned4k (as_root a)"
    using builder_ok_aligned(1) [of "as_builder (a, m)"] ok by (simp add: as_ok_def) (simp add: as_builder_def)
  note sp = space_paging_facts [OF root]
  obtain r m' where w: "walker_translate (space_paging a) v READ RING0 m = (r, m')" by fastforce
  have "aligned4k (cr3 (space_paging a))" using sp root by simp
  from walker_translate_run [OF this w] translation_spec_walk [OF root v] walk
  have "erase_dirty r = Inr t" by (simp add: check_access_def)
  then obtain t' where "r = Inr t'" "t'\<lparr>dirty := False\<rparr> = t" by (cases r) (auto simp: erase_dirty_def)
  moreover obtain ps where "load_cr3 (as_root a) initial_paging_state = (Inr (), ps)" "space_paging a = paging_enable ps"
    using sp(1) that by (simp add: space_paging_def)
  then have "as_page_translation v READ RING0 (a, m) = (r, (a, m'))" using w by (simp add: as_page_translation_def)
  ultimately show ?thesis using that by simp
qed

lemma share_page_shares:
  assumes ok: "spaces_ok s" and v: "is_canonical_linear_address v" "is_page_aligned v"
    and walk: "as_walk True v (parent_space s) = Mapped t" "page_size_bytes t = PAGE_SIZE_4K_BYTES" "writable (permissions t)"
    and cow: "find_mapping parent v (sh_cow s) = None" "\<not> cow_contains child v (sh_cow s)"
    and room: "table_room 3 (as_builder (child_space s))" "no_large_page (as_walk True v (child_space s))"
  obtains s' where "share_page parent child v s = (Inr 1, s')"
proof -
  have okp: "as_ok (sh_parent s, sh_memory s)" using ok by (simp add: spaces_ok_def parent_space_def)
  obtain t' m1 where tr0: "as_page_translation v READ RING0 (sh_parent s, sh_memory s) = (Inr t', (sh_parent s, m1))"
    and t': "t'\<lparr>dirty := False\<rparr> = t"
    using as_page_translation_mapped [OF okp v(1)] walk(1) by (metis parent_space_def)
  define s1 where "s1 = s\<lparr>sh_memory := m1\<rparr>"
  have tr: "on_parent (as_page_translation v READ RING0) s = (Inr t', s1)" by (simp add: on_parent_def tr0 s1_def)
  note p = share_parent_translation [OF ok v(1) tr]
  have f: "is_page_aligned (physical_frame_base t')" by (rule as_page_translation_frame [OF tr0])
  have tf: "page_size_bytes t' = PAGE_SIZE_4K_BYTES" "permissions t' = permissions t" using walk(2) t' by auto
  let ?cp = "read_only_permissions (permissions t)"
  have len: "length m1 = length (sh_memory s)"
    using as_page_translation_spec(2) [OF okp v(1) tr0] by (simp add: ad_le_def)
  obtain a' m' where mp0: "map_page v (physical_frame_base t') ?cp (sh_child s1, sh_memory s1) = (Inr (), (a', m'))"
  proof (rule map_page_succeeds [where v = v and p = "physical_frame_base t'" and perms = ?cp and nxe = True])
    show "as_ok (sh_child s1, sh_memory s1)" using p(1) by (simp add: spaces_ok_def child_space_def)
    show "table_room 3 (as_builder (sh_child s1, sh_memory s1))"
      using room(1) by (simp add: table_room_def child_space_def as_builder_def s1_def len)
    show "no_large_page (as_walk True v (sh_child s1, sh_memory s1))"
      using room(2) p(6) by (simp add: child_space_def)
  qed (use v(2) f in auto)
  then obtain s2 where mp: "on_child (map_page v (physical_frame_base t') ?cp) s1 = (Inr (), s2)" by (simp add: on_child_def)
  note c = share_child_map [OF p(1) v(1) p(3) mp]
  obtain rp s3 where sp: "on_parent (set_page_permissions v ?cp) s2 = (rp, s3)" by fastforce
  have mapped: "as_walk True v (parent_space s2) = Mapped t" using c(3) p(5) walk(1) by simp
  note q = share_parent_permissions [OF c(1) v mapped walk(2) sp]
  have "share_translated parent child v t' s1 = (Inr 1, snd (share_translated parent child v t' s1))"
    using mp sp q(1) cow walk(3) tf p(2)
    by (simp add: share_translated_def op_simps on_cow_def Let_def)
  then have "share_page parent child v s = (Inr 1, snd (share_translated parent child v t' s1))"
    using tr v(2) tf(1) by (simp add: share_page_def op_simps)
  then show ?thesis by (rule that)
qed

definition sample_mapped :: space_state where
  "sample_mapped = snd (map_page 0x40000000 0x9000 user_read_write_no_execute (sample_parent, sample_pair_memory))"

definition sample_share :: share_state where
  "sample_share = \<lparr>sh_cow = initial_cow, sh_parent = fst sample_mapped, sh_child = sample_child,
     sh_memory = snd sample_mapped\<rparr>"

lemma sample_share_facts:
  "spaces_ok sample_share" "\<exists>s'. share_page 1 2 0x40000000 sample_share = (Inr 1, s')"
proof -
  let ?v = "0x40000000 :: address64" and ?rw = user_read_write_no_execute
  have al: "is_page_aligned ?v" "is_page_aligned 0x9000" "unat (0x9000 :: address64) < 2 ^ 52"
    by (simp_all add: is_page_aligned_iff)
  have room: "table_room 3 (as_builder (sample_parent, sample_pair_memory))"
    "no_large_page (as_walk True ?v (sample_parent, sample_pair_memory))"
    using sample_pair_facts(4,5) by (simp_all add: table_room_def as_builder_def sample_parent_def no_large_page_def)
  obtain a' m' where mp: "map_page ?v 0x9000 ?rw (sample_parent, sample_pair_memory) = (Inr (), (a', m'))"
    using map_page_succeeds [OF sample_pair_facts(1) al(1,2) room] by blast
  have s: "sample_mapped = (a', m')" by (simp add: sample_mapped_def mp)
  have spec: "space_frame (sample_parent, sample_pair_memory) (a', m')" "as_ok (a', m')"
    "page_mapped (as_builder (sample_parent, sample_pair_memory)) (as_builder (a', m')) PAGE_SIZE_4K_BYTES ?v 0x9000 ?rw"
    using map_page_spec [OF sample_pair_facts(1) sample_canonical(1) al(3) mp] by simp_all
  note other = as_ok_other [OF sample_pair_facts(2) spec(1) sample_pair_facts(3)]
  have base: "page_base ?v PAGE_SIZE_4K_BYTES = ?v" by (simp add: page_base_def PAGE_SIZE_4K_BYTES_def)
  obtain ad where walk: "as_walk True ?v (a', m') = Mapped \<lparr>virtual_page_base = ?v, physical_frame_base = 0x9000,
      page_size_bytes = PAGE_SIZE_4K_BYTES, permissions = ?rw, leaf_entry_address = ad, dirty = False\<rparr>"
    using spec(3) sample_canonical(1) base unfolding page_mapped_def as_walk_def by auto
  show ok: "spaces_ok sample_share"
    using spec(2) other(1) arenas_disjoint_frame(1) [OF sample_pair_facts(3) spec(1)]
    by (simp add: spaces_ok_def parent_space_def child_space_def sample_share_def s)
  show "\<exists>s'. share_page 1 2 0x40000000 sample_share = (Inr 1, s')"
  proof (rule share_page_shares [where s = sample_share and v = ?v and parent = 1 and child = 2])
    show "spaces_ok sample_share" by (rule ok)
    show "as_walk True ?v (parent_space sample_share) = Mapped \<lparr>virtual_page_base = ?v, physical_frame_base = 0x9000,
      page_size_bytes = PAGE_SIZE_4K_BYTES, permissions = ?rw, leaf_entry_address = ad, dirty = False\<rparr>"
      using walk by (simp add: parent_space_def sample_share_def s)
    show "table_room 3 (as_builder (child_space sample_share))"
      using spec(1) sample_pair_facts(4)
      by (simp add: table_room_def child_space_def as_builder_def sample_share_def s space_frame_def sample_child_def)
    show "no_large_page (as_walk True ?v (child_space sample_share))"
      using other(2) sample_pair_facts(6) by (simp add: child_space_def sample_share_def s no_large_page_def)
  qed (use sample_canonical(1) al(1) in \<open>simp_all add: sample_share_def initial_cow_def find_mapping_def
        cow_contains_def user_read_write_no_execute_def PagePermissions_def\<close>)
qed

section \<open>Copying a page\<close>

lemma qword_at_bytes:
  assumes "qword_at m a = qword_at m' b" and "j < 8"
  shows "m ! (unat a + j) = m' ! (unat b + j)"
proof (rule bit_word_eqI)
  fix k assume "k < LENGTH(8)"
  then have k: "k < 8" by simp
  have "bit (qword_at m a) (j * 8 + k) = bit (qword_at m' b) (j * 8 + k)" using assms(1) by simp
  moreover have "(j * 8 + k) div 8 = j" "(j * 8 + k) mod 8 = k" "j * 8 + k < 64" using assms(2) k by simp_all
  ultimately show "bit (m ! (unat a + j)) k \<longleftrightarrow> bit (m' ! (unat b + j)) k"
    unfolding qword_at_def by (subst (asm) (1 2) bit_read_bytes_le) simp_all
qed

lemma copy_physical_page_within:
  assumes "is_page_aligned dst" and "copy_physical_page src dst m = (r, m')"
  shows "within (unat dst) (unat dst + 4096) m m' \<and> (r = Inr () \<or> r = Inl Out_of_range)"
proof (rule for_each_within [OF _ assms(2) [unfolded copy_physical_page_def]])
  fix off m r m'
  assume "off \<in> set page_qword_offsets"
    and run: "bnd (mem_read (src + off) QWORD) (\<lambda>value. mem_write (dst + off) QWORD value) m = (r, m')"
  then obtain i where i: "i < 512" "unat (dst + off) = unat dst + i * 8" using offset_in_page_bounds [OF assms(1)] by metis
  have "put_qword m (dst + off) v ! x = m ! x" if "x < unat dst \<or> unat dst + 4096 \<le> x" for x v
    using that i by (intro nth_put_qword) auto
  then show "within (unat dst) (unat dst + 4096) m m' \<and> (r = Inr () \<or> r = Inl Out_of_range)"
    using run by (auto simp: bnd_run mem_read_QWORD mem_write_QWORD within_def split: if_splits)
qed

lemma copy_fits:
  assumes "is_page_aligned src" and "is_page_aligned dst" and "copy_physical_page src dst m = (Inr (), m')"
  shows "unat src + 4096 \<le> length m" and "unat dst + 4096 \<le> length m"
proof -
  have "unat (src + of_nat (511 * 8)) + 8 \<le> length m \<and> unat (dst + of_nat (511 * 8)) + 8 \<le> length m"
    by (rule for_each_fits [OF _ assms(3) [unfolded copy_physical_page_def] last_offset,
          where fits = "\<lambda>off n. unat (src + off) + 8 \<le> n \<and> unat (dst + off) + 8 \<le> n"])
       (auto simp: bnd_run mem_read_QWORD mem_write_QWORD qword_ok_def split: if_splits)
  moreover have "unat (p + of_nat (511 * 8)) = unat p + 511 * 8" if "is_page_aligned p" for p
    using unat_entry_address [of p 511] that by (simp add: is_page_aligned_4k entry_address_for_index_def)
  ultimately show "unat src + 4096 \<le> length m" "unat dst + 4096 \<le> length m" using assms(1,2) by simp_all
qed

lemma copy_loop_run:
  assumes al: "aligned4k src" "aligned4k dst" and "src \<noteq> dst"
    and "unat src + 4096 \<le> length m" "unat dst + 4096 \<le> length m" and "set is \<subseteq> {..<512}"
  shows "for_each (\<lambda>off. bnd (mem_read (src + off) QWORD) (\<lambda>value. mem_write (dst + off) QWORD value))
      (map (\<lambda>i. of_nat (i * 8)) is) m =
    (Inr (), fold (\<lambda>i m'. put_qword m' (entry_address_for_index dst i) (qword_at m (entry_address_for_index src i))) is m)"
proof -
  have "for_each (\<lambda>off. bnd (mem_read (src + off) QWORD) (\<lambda>value. mem_write (dst + off) QWORD value))
      (map (\<lambda>i. of_nat (i * 8)) is) m1 =
    (Inr (), fold (\<lambda>i m'. put_qword m' (entry_address_for_index dst i) (qword_at m (entry_address_for_index src i))) is m1)"
    if "length m1 = length m" "\<And>i. i < 512 \<Longrightarrow> qword_at m1 (entry_address_for_index src i) = qword_at m (entry_address_for_index src i)"
      "set is \<subseteq> {..<512}" for m1 "is"
    using that
  proof (induction "is" arbitrary: m1)
    case (Cons i "is")
    then have i: "i < 512" by simp
    have ok: "qword_ok m1 (entry_address_for_index src i)" "qword_ok m1 (entry_address_for_index dst i)"
      using entry_ok [OF al(1) _ i] entry_ok [OF al(2) _ i] assms(4,5) Cons.prems(1) by simp_all
    have step: "bnd (mem_read (src + of_nat (i * 8)) QWORD) (\<lambda>value. mem_write (dst + of_nat (i * 8)) QWORD value) m1 =
        (Inr (), put_qword m1 (entry_address_for_index dst i) (qword_at m (entry_address_for_index src i)))"
      using ok Cons.prems(2) [OF i] by (simp add: bnd_run mem_read_QWORD mem_write_QWORD entry_address_for_index_def)
    have keep: "qword_at (put_qword m1 (entry_address_for_index dst i) v) (entry_address_for_index src j)
        = qword_at m (entry_address_for_index src j)" if "j < 512" for j v
    proof -
      have "entry_address_for_index dst i \<noteq> entry_address_for_index src j"
        using entry_address_inj [OF al(2,1) i that] assms(3) by blast
      moreover have "qword_ok m1 (entry_address_for_index src j)"
        using entry_ok [OF al(1) _ that, of m1] assms(4) Cons.prems(1) by simp
      ultimately show ?thesis
        using qstore.peek_poke_other [OF aligned8_entry_address [OF al(2) i] aligned8_entry_address [OF al(1) that]]
          Cons.prems(2) [OF that] by simp
    qed
    show ?case
      unfolding list.map for_each.simps sq_run step prod.case sum.case fold_simps
      using Cons.prems(3) by (intro Cons.IH) (simp_all add: Cons.prems(1) keep)
  qed (simp add: ret_run)
  from this [of m "is"] assms(6) show ?thesis by simp
qed

lemma qword_at_fold_put:
  assumes al: "aligned4k dst" and "unat dst + 4096 \<le> length m" and "set is \<subseteq> {..<512}" and j: "j < 512"
  shows "qword_at (fold (\<lambda>i m. put_qword m (entry_address_for_index dst i) (g i)) is m) (entry_address_for_index dst j)
    = (if j \<in> set is then g j else qword_at m (entry_address_for_index dst j))"
  using assms(2,3)
proof (induction "is" arbitrary: m)
  case (Cons i "is")
  then have i: "i < 512" by simp
  have "qword_at (put_qword m (entry_address_for_index dst i) (g i)) (entry_address_for_index dst j)
      = (if i = j then g i else qword_at m (entry_address_for_index dst j))"
    using qstore.peek_poke [OF aligned8_entry_address [OF al i] aligned8_entry_address [OF al j] entry_ok [OF al Cons.prems(1) j]]
      entry_address_inj [OF al al i j] by auto
  with Cons show ?case by auto
qed simp

lemma copy_qword_same:
  assumes "bnd (mem_read a QWORD) (\<lambda>value. mem_write a QWORD value) m = (r, m1)"
  shows "m1 = m"
proof -
  consider "m1 = m" | "qword_ok m a" "m1 = put_qword m a (qword_at m a)"
    using assms by (auto simp: bnd_run mem_read_QWORD mem_write_QWORD split: if_splits)
  then show ?thesis
  proof cases
    case 2
    have "m1 ! x = m ! x" for x
    proof (cases "x < unat a \<or> unat a + 8 \<le> x")
      case False
      then have "x - unat a < 8" "unat a + (x - unat a) = x" by auto
      then show ?thesis
        using qword_at_bytes [OF qstore.peek_poke_same [OF 2(1), of "qword_at m a"], of "x - unat a"] 2(2) by simp
    qed (simp add: 2(2) nth_put_qword)
    then show ?thesis by (intro nth_equalityI) (simp_all add: 2(2))
  qed
qed

lemma copy_physical_page_copies:
  assumes al: "is_page_aligned src" "is_page_aligned dst" and run: "copy_physical_page src dst m = (Inr (), m')"
    and i: "i < 4096"
  shows "m' ! (unat dst + i) = m ! (unat src + i)"
proof (cases "src = dst")
  case True
  have "for_each (\<lambda>off. bnd (mem_read (dst + off) QWORD) (\<lambda>value. mem_write (dst + off) QWORD value)) xs m = (Inr (), m') \<Longrightarrow> m' = m"
    for xs and m m' :: phys_mem
    by (induction xs arbitrary: m) (auto simp: ret_run elim!: sq_InrE dest!: copy_qword_same)
  from this [OF run [unfolded copy_physical_page_def True]] show ?thesis by (simp add: True)
next
  case False
  note fits = copy_fits [OF al run]
  have al4: "aligned4k src" "aligned4k dst" using al by (simp_all add: is_page_aligned_4k)
  have all: "set [0..<512] \<subseteq> {..<512 :: nat}" by (auto simp: atLeast0LessThan)
  note copied = copy_loop_run [OF al4 False fits all]
  define j where "j = i div 8"
  have j: "j < 512" "i = j * 8 + i mod 8" "i mod 8 < 8" using i by (simp_all add: j_def less_mult_imp_div_less)
  have "qword_at m' (entry_address_for_index dst j) = qword_at m (entry_address_for_index src j)"
    using run copied qword_at_fold_put [OF al4(2) fits(2) all j(1), of "\<lambda>i. qword_at m (entry_address_for_index src i)"] j(1)
    by (simp add: copy_physical_page_def page_qword_offsets_def)
  from qword_at_bytes [OF this j(3)] show ?thesis
    using unat_entry_address [OF al4(1) j(1)] unat_entry_address [OF al4(2) j(1)] j(2) by (simp add: add.assoc)
qed

section \<open>Resolving a fault\<close>

definition cow_fault_ok :: "cow_state \<Rightarrow> bool" where
  "cow_fault_ok s \<longleftrightarrow> as_ok (fh_space s, fh_memory s) \<and> allocator_inv (fh_allocator s) \<and> cow_inv (fh_cow s) \<and>
     unat (as_arena_end (fh_space s)) \<le> 4096 * first_allocatable_page (fh_allocator s) \<and>
     total_page_count (fh_allocator s) \<le> 2 ^ 40 \<and>
     is_canonical_linear_address (page_fault_linear_address (paging (fh_cpu s))) \<and>
     is_process_context_id_valid (paging_state.process_context_id (paging (fh_cpu s)))"

definition cow_fault_page :: "cow_state \<Rightarrow> address64" where
  "cow_fault_page s = align_down_value (page_fault_linear_address (paging (fh_cpu s)))"

definition cow_builder :: "cow_state \<Rightarrow> page_table_builder" where
  "cow_builder s = as_builder (fh_space s, fh_memory s)"

lemma activate_context_run:
  assumes "aligned4k (as_root a)" and "is_process_context_id_valid c"
  shows "\<exists>p'. activate_context a c FLUSH_CURRENT_CONTEXT p = (Inr (), p') \<and> cr3 p' = as_root a \<and>
    paging_enabled p' \<and> paging_state.process_context_id p' = c \<and>
    page_fault_linear_address p' = page_fault_linear_address p"
  using assms
  by (simp add: activate_context_def load_cr3_context_def op_simps aligned4k_iff paging_enable_def bump_generation_def
      set_process_context_id_enabled_def Let_def)

lemma reactivate_run:
  assumes "as_ok (fh_space s, fh_memory s)"
    and "is_process_context_id_valid (paging_state.process_context_id (paging (fh_cpu s)))"
  obtains ps where "reactivate s = (Inr (), s\<lparr>fh_cpu := (fh_cpu s)\<lparr>paging := ps\<rparr>\<rparr>)"
    and "cr3 ps = as_root (fh_space s)" and "paging_enabled ps"
proof -
  have "aligned4k (as_root (fh_space s))"
    using builder_ok_aligned(1) [of "as_builder (fh_space s, fh_memory s)"] assms(1)
    by (simp add: as_ok_def) (simp add: as_builder_def)
  from activate_context_run [OF this assms(2)]
  obtain ps where ps: "activate_context (fh_space s) (paging_state.process_context_id (paging (fh_cpu s))) FLUSH_CURRENT_CONTEXT
      (paging (fh_cpu s)) = (Inr (), ps)" "cr3 ps = as_root (fh_space s)" "paging_enabled ps" by blast
  then show ?thesis using that by (simp add: reactivate_def at_paging_def focus_run)
qed

text \<open>The fault was resolved by a private copy, or by giving the last user its permissions back.\<close>

definition page_copied :: "cow_state \<Rightarrow> cow_state \<Rightarrow> cow_mapping \<Rightarrow> address64 \<Rightarrow> bool" where
  "page_copied s s' x p \<longleftrightarrow>
     page_number p \<notin> used_pages (fh_allocator s) \<and> allocator_inv (fh_allocator s') \<and>
     used_pages (fh_allocator s') = insert (page_number p) (used_pages (fh_allocator s)) \<and>
     page_mapped (cow_builder s) (cow_builder s') PAGE_SIZE_4K_BYTES (cow_fault_page s) p (cm_permissions x) \<and>
     (\<forall>i < 4096. fh_memory s' ! (unat p + i) = fh_memory s ! (unat (cm_frame x) + i))"

definition cow_finished :: "process_id \<Rightarrow> cow_state \<Rightarrow> cow_state \<Rightarrow> cow_mapping \<Rightarrow> bool" where
  "cow_finished pid s s' x \<longleftrightarrow> as_ok (fh_space s', fh_memory s') \<and> cow_inv (fh_cow s') \<and>
     \<not> cow_contains pid (cow_fault_page s) (fh_cow s') \<and>
     (\<forall>f. frame_ref_count (fh_cow s') f =
        (if f = cm_frame x then frame_ref_count (fh_cow s) f - 1 else frame_ref_count (fh_cow s) f)) \<and>
     (\<forall>pid' w. (pid', w) \<noteq> (pid, cow_fault_page s) \<longrightarrow>
        find_mapping pid' w (fh_cow s') = find_mapping pid' w (fh_cow s)) \<and>
     cr3 (paging (fh_cpu s')) = as_root (fh_space s) \<and> pending_trap (fh_cpu s') = None"

lemma resolve_restored:
  assumes ok: "cow_fault_ok s" and tf: "pending_trap (fh_cpu s) = Some tf" "is_write_protection_fault tf"
    and x: "find_mapping pid (cow_fault_page s) (fh_cow s) = Some x"
    and last: "frame_ref_count (fh_cow s) (cm_frame x) \<le> 1"
    and run: "resolve_write_fault pid s = (r, s')"
  shows "case r of
      Inr k \<Rightarrow> k = RESTORED \<and> cow_finished pid s s' x \<and> fh_allocator s' = fh_allocator s \<and>
        (\<exists>t. as_walk True (cow_fault_page s) (fh_space s, fh_memory s) = Mapped t \<and>
           page_mapped (cow_builder s) (cow_builder s') PAGE_SIZE_4K_BYTES (cow_fault_page s)
             (physical_frame_base t) (cm_permissions x))
    | Inl _ \<Rightarrow> fh_allocator s' = fh_allocator s \<and> fh_cow s' = fh_cow s \<and> fh_cpu s' = fh_cpu s"
proof -
  let ?v = "cow_fault_page s"
  have as: "as_ok (fh_space s, fh_memory s)" and inv: "cow_inv (fh_cow s)"
    and ctx: "is_process_context_id_valid (paging_state.process_context_id (paging (fh_cpu s)))"
    and v: "is_canonical_linear_address ?v" "is_page_aligned ?v"
    using ok align_down_facts [of "page_fault_linear_address (paging (fh_cpu s))"]
    by (simp_all add: cow_fault_ok_def cow_fault_page_def)
  obtain rp a' m' where sp: "set_page_permissions ?v (cm_permissions x) (fh_space s, fh_memory s) = (rp, (a', m'))"
    by (metis prod_cases3)
  define s1 where "s1 = s\<lparr>fh_space := a', fh_memory := m'\<rparr>"
  have at: "at_space (set_page_permissions ?v (cm_permissions x)) s = (rp, s1)" by (simp add: at_space_def sp s1_def)
  note spec = set_page_permissions_spec [OF as v sp]
  note run' = run [unfolded resolve_write_fault_def tf(1) option.case cow_fault_page_def [symmetric] Let_def x]
  show ?thesis
  proof (cases rp)
    case (Inl e)
    then have "r = Inl e" "s' = s1" using run' tf(2) last at by (simp_all add: op_simps)
    then show ?thesis by (simp add: s1_def)
  next
    case (Inr u)
    have ok1: "as_ok (fh_space s1, fh_memory s1)" "as_root (fh_space s1) = as_root (fh_space s)"
      using spec by (auto simp: s1_def)
    have ctx1: "is_process_context_id_valid (paging_state.process_context_id (paging (fh_cpu s1)))" using ctx by (simp add: s1_def)
    obtain ps where ps: "reactivate s1 = (Inr (), s1\<lparr>fh_cpu := (fh_cpu s1)\<lparr>paging := ps\<rparr>\<rparr>)" "cr3 ps = as_root (fh_space s1)"
      by (rule reactivate_run [OF ok1(1) ctx1])
    let ?c = "remove_mapping pid ?v (release_frame_ref (cm_frame x) (fh_cow s))"
    have res: "r = Inr RESTORED" "fh_cow s' = ?c" "fh_space s' = a'" "fh_memory s' = m'" "fh_allocator s' = fh_allocator s"
      "cr3 (paging (fh_cpu s')) = as_root (fh_space s)" "pending_trap (fh_cpu s') = None"
      using run' tf(2) last at Inr ps ok1(2) by (auto simp: op_simps finish_cow_def s1_def clear_pending_trap_def)
    have "cow_finished pid s s' x"
      using cow_inv_finish [OF inv x] ok1(1) res by (simp add: cow_finished_def s1_def)
    moreover have "\<exists>t. as_walk True ?v (fh_space s, fh_memory s) = Mapped t \<and>
        page_mapped (cow_builder s) (cow_builder s') PAGE_SIZE_4K_BYTES ?v (physical_frame_base t) (cm_permissions x)"
      using spec Inr res(3,4) by (auto simp: cow_builder_def split: walk_outcome.splits if_splits)
    ultimately show ?thesis using res by simp
  qed
qed

lemma resolve_copied:
  assumes ok: "cow_fault_ok s" and tf: "pending_trap (fh_cpu s) = Some tf" "is_write_protection_fault tf"
    and x: "find_mapping pid (cow_fault_page s) (fh_cow s) = Some x"
    and shared: "\<not> frame_ref_count (fh_cow s) (cm_frame x) \<le> 1"
    and alloc: "allocate_page (fh_allocator s) = (Inr p, al1)"
    and run: "resolve_write_fault pid s = (r, s')"
  shows "case r of
      Inr k \<Rightarrow> k = COPIED \<and> cow_finished pid s s' x \<and> page_copied s s' x p
    | Inl _ \<Rightarrow> allocator_inv (fh_allocator s') \<and> used_pages (fh_allocator s') = used_pages (fh_allocator s) \<and>
        fh_cow s' = fh_cow s \<and> fh_cpu s' = fh_cpu s \<and>
        (\<forall>nxe la. as_walk nxe la (fh_space s', fh_memory s') = as_walk nxe la (fh_space s, fh_memory s))"
proof -
  let ?v = "cow_fault_page s" and ?a = "fh_space s" and ?m = "fh_memory s" and ?perms = "cm_permissions x"
  have as: "as_ok (?a, ?m)" and inv: "cow_inv (fh_cow s)" and ainv: "allocator_inv (fh_allocator s)"
    and sep: "unat (as_arena_end ?a) \<le> 4096 * first_allocatable_page (fh_allocator s)"
    and lim: "total_page_count (fh_allocator s) \<le> 2 ^ 40"
    and ctx: "is_process_context_id_valid (paging_state.process_context_id (paging (fh_cpu s)))"
    and v: "is_canonical_linear_address ?v" "is_page_aligned ?v"
    using ok align_down_facts [of "page_fault_linear_address (paging (fh_cpu s))"]
    by (simp_all add: cow_fault_ok_def cow_fault_page_def)
  note f = allocate_page_facts [OF ainv alloc] and fin = cow_inv_finish [OF inv x]
  have p: "unat (as_arena_end ?a) \<le> unat p" "unat p < 2 ^ 52" using f(4-7) sep lim by auto
  obtain al2 where free: "free_page p al1 = (Inr (), al2)" "allocator_inv al2" "used_pages al2 = used_pages (fh_allocator s)"
    using free_page_allocated [OF ainv alloc] by blast
  obtain rc mc where cp: "copy_physical_page (cm_frame x) p ?m = (rc, mc)" by fastforce
  note wi = copy_physical_page_within [OF f(4) cp]
  have nf: "unat (as_next_free ?a) \<le> unat (as_arena_end ?a)" using as by (simp add: as_ok_def word_le_nat_alt)
  have low: "mc ! y = ?m ! y" if "y < unat (as_next_free ?a)" for y
    using wi nf p(1) that by (auto simp: within_def)
  have lenc: "length mc = length ?m" using wi by (simp add: within_def)
  have okc: "as_ok (?a, mc)" by (rule as_ok_memory(1) [OF as lenc]) (rule low)
  have walkc: "as_walk nxe la (?a, mc) = as_walk nxe la (?a, ?m)" for nxe la by (rule as_ok_memory(2) [OF as lenc]) (rule low)
  obtain rm a' m' where mp: "map_page ?v p ?perms (?a, mc) = (rm, (a', m'))" by (metis prod_cases3)
  note spec = map_page_spec [OF okc v(1) p(2) mp]
  note run' = run [unfolded resolve_write_fault_def tf(1) option.case cow_fault_page_def [symmetric] Let_def x]
  show ?thesis
  proof (cases rc)
    case (Inl e)
    then have res: "r = Inl e" "fh_allocator s' = al2" "fh_cow s' = fh_cow s" "fh_cpu s' = fh_cpu s" "fh_space s' = ?a" "fh_memory s' = mc"
      using run' tf(2) shared alloc cp free(1) by (auto simp: op_simps at_allocator_def at_memory_def)
    then show ?thesis using free walkc by simp
  next
    case rc: (Inr u)
    show ?thesis
    proof (cases rm)
      case (Inl e)
      then have res: "r = Inl e" "fh_allocator s' = al2" "fh_cow s' = fh_cow s" "fh_cpu s' = fh_cpu s" "fh_space s' = a'" "fh_memory s' = m'"
        using run' tf(2) shared alloc cp rc mp free(1) by (auto simp: op_simps at_allocator_def at_memory_def at_space_def)
      have "as_walk nxe la (a', m') = as_walk nxe la (?a, ?m)" for nxe la
        using spec walkc unfolding Inl sum.case by metis
      then show ?thesis using res free by simp
    next
      case rm: (Inr w)
      have ok': "as_ok (a', m')" and fr: "space_frame (?a, mc) (a', m')"
        and pm: "page_mapped (as_builder (?a, mc)) (as_builder (a', m')) PAGE_SIZE_4K_BYTES ?v p ?perms"
        using spec rm by simp_all
      define s1 where "s1 = s\<lparr>fh_allocator := al1, fh_space := a', fh_memory := m'\<rparr>"
      have "as_ok (fh_space s1, fh_memory s1)"
        "is_process_context_id_valid (paging_state.process_context_id (paging (fh_cpu s1)))"
        using ok' ctx by (simp_all add: s1_def)
      then obtain ps where ps: "reactivate s1 = (Inr (), s1\<lparr>fh_cpu := (fh_cpu s1)\<lparr>paging := ps\<rparr>\<rparr>)"
        "cr3 ps = as_root (fh_space s1)" by (rule reactivate_run)
      have s1: "s\<lparr>fh_allocator := al1, fh_memory := m', fh_space := a'\<rparr> = s1" by (simp add: s1_def)
      let ?c = "remove_mapping pid ?v (release_frame_ref (cm_frame x) (fh_cow s))"
      have chain: "at_space (map_page ?v p ?perms) (s\<lparr>fh_allocator := al1, fh_memory := mc\<rparr>) = (Inr (), s1)"
        using mp rm by (simp add: at_space_def s1_def)
      have res: "r = Inr COPIED" "fh_cow s' = ?c" "fh_space s' = a'" "fh_memory s' = m'" "fh_allocator s' = al1"
        "cr3 (paging (fh_cpu s')) = as_root ?a" "pending_trap (fh_cpu s') = None"
        using run' tf(2) shared alloc cp rc chain ps fr
        by (auto simp: op_simps at_allocator_def at_memory_def finish_cow_def s1_def clear_pending_trap_def space_frame_def)
      have fin': "cow_finished pid s s' x" using fin ok' res by (simp add: cow_finished_def)
      have pm': "page_mapped (cow_builder s) (cow_builder s') PAGE_SIZE_4K_BYTES ?v p ?perms"
        unfolding cow_builder_def res using pm walkc unfolding as_walk_def by (rule page_mapped_walks)
      have "m' ! (unat p + i) = ?m ! (unat (cm_frame x) + i)" if "i < 4096" for i
        using copy_physical_page_copies [OF fin(5) f(4) _ that, of ?m mc] cp rc fr p(1) by (simp add: space_frame_def)
      then have "page_copied s s' x p" using f(1-3) pm' res by (simp add: page_copied_def)
      then show ?thesis using res(1) fin' by simp
    qed
  qed
qed

lemma resolve_copies:
  assumes ok: "cow_fault_ok s" and tf: "pending_trap (fh_cpu s) = Some tf" "is_write_protection_fault tf"
    and x: "find_mapping pid (cow_fault_page s) (fh_cow s) = Some x"
    and shared: "1 < frame_ref_count (fh_cow s) (cm_frame x)" and free: "0 < free_page_count (fh_allocator s)"
    and fits: "4096 * total_page_count (fh_allocator s) \<le> length (fh_memory s)"
      "unat (cm_frame x) + 4096 \<le> length (fh_memory s)" "unat (cm_frame x) < 4096 * first_allocatable_page (fh_allocator s)"
    and room: "table_room 3 (cow_builder s)"
    and small: "no_large_page (as_walk True (cow_fault_page s) (fh_space s, fh_memory s))"
  obtains s' where "resolve_write_fault pid s = (Inr COPIED, s')"
proof -
  let ?v = "cow_fault_page s" and ?a = "fh_space s" and ?m = "fh_memory s" and ?perms = "cm_permissions x"
  have as: "as_ok (?a, ?m)" and inv: "cow_inv (fh_cow s)" and ainv: "allocator_inv (fh_allocator s)"
    and sep: "unat (as_arena_end ?a) \<le> 4096 * first_allocatable_page (fh_allocator s)"
    and ctx: "is_process_context_id_valid (paging_state.process_context_id (paging (fh_cpu s)))"
    and v: "is_page_aligned ?v"
    using ok align_down_facts [of "page_fault_linear_address (paging (fh_cpu s))"]
    by (simp_all add: cow_fault_ok_def cow_fault_page_def)
  obtain p al1 where alloc: "allocate_page (fh_allocator s) = (Inr p, al1)" using allocate_page_succeeds [OF ainv free] by blast
  note f = allocate_page_facts [OF ainv alloc] and fin = cow_inv_finish [OF inv x]
  have p: "unat (as_arena_end ?a) \<le> unat p" "unat p + 4096 \<le> length ?m" "cm_frame x \<noteq> p"
    using f(4-7) sep fits by auto
  have al4: "aligned4k (cm_frame x)" "aligned4k p" using fin(5) f(4) by (simp_all add: is_page_aligned_4k)
  have all: "set [0..<512] \<subseteq> {..<512 :: nat}" by (auto simp: atLeast0LessThan)
  obtain mc where cp: "copy_physical_page (cm_frame x) p ?m = (Inr (), mc)"
    using copy_loop_run [OF al4 p(3) fits(2) p(2) all] by (simp add: copy_physical_page_def page_qword_offsets_def)
  note wi = copy_physical_page_within [OF f(4) cp]
  have nf: "unat (as_next_free ?a) \<le> unat (as_arena_end ?a)" using as by (simp add: as_ok_def word_le_nat_alt)
  have low: "mc ! y = ?m ! y" if "y < unat (as_next_free ?a)" for y
    using wi nf p(1) that by (auto simp: within_def)
  have lenc: "length mc = length ?m" using wi by (simp add: within_def)
  have okc: "as_ok (?a, mc)" by (rule as_ok_memory(1) [OF as lenc]) (rule low)
  have walkc: "as_walk True ?v (?a, mc) = as_walk True ?v (?a, ?m)" by (rule as_ok_memory(2) [OF as lenc]) (rule low)
  obtain a' m' where mp: "map_page ?v p ?perms (?a, mc) = (Inr (), (a', m'))"
  proof (rule map_page_succeeds [OF okc v f(4), of True])
    show "table_room 3 (as_builder (?a, mc))" using room by (simp add: table_room_def cow_builder_def as_builder_def lenc)
  qed (use small walkc in auto)
  have "unat p < 2 ^ 52" using f(6,7) ok by (auto simp: cow_fault_ok_def)
  moreover have "is_canonical_linear_address ?v"
    using ok align_down_facts(3) by (simp add: cow_fault_ok_def cow_fault_page_def)
  ultimately have ok': "as_ok (a', m')" using map_page_spec [OF okc _ _ mp] by simp
  define s1 where "s1 = s\<lparr>fh_allocator := al1, fh_space := a', fh_memory := m'\<rparr>"
  have "as_ok (fh_space s1, fh_memory s1)"
    "is_process_context_id_valid (paging_state.process_context_id (paging (fh_cpu s1)))"
    using ok' ctx by (simp_all add: s1_def)
  then obtain ps where ps: "reactivate s1 = (Inr (), s1\<lparr>fh_cpu := (fh_cpu s1)\<lparr>paging := ps\<rparr>\<rparr>)" by (rule reactivate_run)
  have chain: "at_space (map_page ?v p ?perms) (s\<lparr>fh_allocator := al1, fh_memory := mc\<rparr>) = (Inr (), s1)"
    using mp by (simp add: at_space_def s1_def)
  have "fst (resolve_write_fault pid s) = Inr COPIED"
    unfolding resolve_write_fault_def tf(1) option.case cow_fault_page_def [symmetric] Let_def x
    using tf(2) shared alloc cp chain ps by (simp add: op_simps at_allocator_def at_memory_def finish_cow_def)
  then show ?thesis using that by (metis prod.collapse)
qed

definition sample_cow :: cow_manager where
  "sample_cow = \<lparr>cow_mappings =
       [\<lparr>cm_process = 1, cm_page = 0x40000000, cm_frame = 0x7000, cm_permissions = user_read_write_no_execute\<rparr>,
        \<lparr>cm_process = 2, cm_page = 0x40000000, cm_frame = 0x7000, cm_permissions = user_read_write_no_execute\<rparr>],
     cow_frame_refs = [\<lparr>cr_frame = 0x7000, cr_count = 2\<rparr>]\<rparr>"

definition sample_cow_state :: cow_state where
  "sample_cow_state = \<lparr>fh_allocator = fh_allocator sample_fault, fh_space = fh_space sample_fault,
     fh_memory = fh_memory sample_fault,
     fh_cpu = (fh_cpu sample_fault)\<lparr>pending_trap := Some (sample_fault_frame\<lparr>tf_error_code := Some 7\<rparr>)\<rparr>,
     fh_cow = sample_cow\<rparr>"

lemma sample_cow_facts:
  "cow_fault_ok sample_cow_state" "\<exists>s'. resolve_write_fault 1 sample_cow_state = (Inr COPIED, s')"
proof -
  have inv: "cow_inv sample_cow"
    by (auto simp: cow_inv_def sample_cow_def refs.follows_def refs_ok_def refs_count_def cow_key_def is_page_aligned_iff)
  have ps: "paging (fh_cpu sample_cow_state) = initial_paging_state\<lparr>page_fault_linear_address := 0x40000010\<rparr>"
    by (simp add: sample_cow_state_def sample_fault_def)
  have ctx: "is_process_context_id_valid (paging_state.process_context_id (paging (fh_cpu sample_cow_state)))"
    unfolding ps by (simp add: is_process_context_id_valid_def initial_paging_state_def kernel_context_def PROCESS_CONTEXT_ID_MAX_VALUE_def)
  note sf = sample_fault_facts
  show ok: "cow_fault_ok sample_cow_state"
    using sf(1) inv ctx unfolding cow_fault_ok_def fault_ok_def
    by (simp add: sample_cow_state_def)
  have v: "cow_fault_page sample_cow_state = 0x40000000"
    unfolding cow_fault_page_def ps by (simp add: align_down_value_def page_masks mask_eq_exp_minus_1)
  have al: "fh_allocator sample_fault = \<lparr>total_page_count = 9, first_allocatable_page = 8, free_page_count = 1,
       allocated_pages = replicate 8 True @ [False]\<rparr>" by (simp add: sample_fault_def)
  have len: "0x9000 \<le> length (fh_memory sample_fault)" using sf(5) by (simp add: al)
  show "\<exists>s'. resolve_write_fault 1 sample_cow_state = (Inr COPIED, s')"
  proof (rule resolve_copies [OF ok, where pid = 1])
    show "pending_trap (fh_cpu sample_cow_state) = Some (sample_fault_frame\<lparr>tf_error_code := Some 7\<rparr>)"
      by (simp add: sample_cow_state_def)
    show "is_write_protection_fault (sample_fault_frame\<lparr>tf_error_code := Some 7\<rparr>)"
      by (simp add: is_write_protection_fault_def has_page_fault_error_bit_def has_error_code_def error_code_def
          sample_fault_frame_def PAGE_FAULT_ERROR_PRESENT_BIT_def PAGE_FAULT_ERROR_WRITE_BIT_def)
    show "find_mapping 1 (cow_fault_page sample_cow_state) (fh_cow sample_cow_state) =
        Some \<lparr>cm_process = 1, cm_page = 0x40000000, cm_frame = 0x7000, cm_permissions = user_read_write_no_execute\<rparr>"
      unfolding v by (simp add: find_mapping_def sample_cow_state_def sample_cow_def)
    show "table_room 3 (cow_builder sample_cow_state)"
      using sf(6) by (simp add: cow_builder_def fault_builder_def sample_cow_state_def)
    have "fault_page sample_fault = 0x40000000"
      using v by (simp add: fault_page_def cow_fault_page_def sample_cow_state_def)
    then show "no_large_page (as_walk True (cow_fault_page sample_cow_state) (fh_space sample_cow_state, fh_memory sample_cow_state))"
      using sf(7) v by (simp add: fault_walk_def sample_cow_state_def)
  qed (use len in \<open>auto simp: sample_cow_state_def al frame_ref_count_def sample_cow_def\<close>)
qed

section \<open>Properties\<close>





text \<open>
  C15: Resolving a write fault on a copy-on-write page, on every branch. Other traps and other pages
  are answered without a change. A page that no one else holds any more gets its permissions back.
  A page that is still shared is replaced by a private copy: a frame that was free, with the same
  contents, mapped with the restored permissions, every other translation unchanged. In both cases
  the mapping is dropped, exactly this reference is released and the trap is cleared. When memory
  runs out, and on an exception, the manager and the used frames are as before and the trap stays
  pending.
\<close>

theorem resolve_write_fault_correct:
  assumes "cow_fault_ok s" and "resolve_write_fault pid s = (r, s')"
  shows "case r of
      Inr INVALID_FAULT \<Rightarrow> s' = s \<and> \<not> (\<exists>tf. pending_trap (fh_cpu s) = Some tf \<and> is_write_protection_fault tf)
    | Inr NOT_COW \<Rightarrow> s' = s \<and> \<not> cow_contains pid (cow_fault_page s) (fh_cow s)
    | Inr COW_OUT_OF_MEMORY \<Rightarrow> s' = s \<and> cow_contains pid (cow_fault_page s) (fh_cow s)
    | Inr RESTORED \<Rightarrow> (\<exists>x t. find_mapping pid (cow_fault_page s) (fh_cow s) = Some x \<and>
        frame_ref_count (fh_cow s) (cm_frame x) = 1 \<and> cow_finished pid s s' x \<and> fh_allocator s' = fh_allocator s \<and>
        as_walk True (cow_fault_page s) (fh_space s, fh_memory s) = Mapped t \<and>
        page_mapped (cow_builder s) (cow_builder s') PAGE_SIZE_4K_BYTES (cow_fault_page s)
          (physical_frame_base t) (cm_permissions x))
    | Inr COPIED \<Rightarrow> (\<exists>x p. find_mapping pid (cow_fault_page s) (fh_cow s) = Some x \<and>
        1 < frame_ref_count (fh_cow s) (cm_frame x) \<and> cow_finished pid s s' x \<and> page_copied s s' x p)
    | Inl _ \<Rightarrow> used_pages (fh_allocator s') = used_pages (fh_allocator s) \<and> fh_cow s' = fh_cow s \<and>
        fh_cpu s' = fh_cpu s"
proof (cases "\<exists>tf. pending_trap (fh_cpu s) = Some tf \<and> is_write_protection_fault tf")
  case False
  then have "r = Inr INVALID_FAULT" "s' = s"
    using assms(2) by (auto simp: resolve_write_fault_def split: option.splits)
  then show ?thesis using False by simp
next
  case True
  then obtain tf where tf: "pending_trap (fh_cpu s) = Some tf" "is_write_protection_fault tf" by blast
  show ?thesis
  proof (cases "find_mapping pid (cow_fault_page s) (fh_cow s)")
    case None
    then have "r = Inr NOT_COW" "s' = s"
      using assms(2) tf by (auto simp: resolve_write_fault_def cow_fault_page_def)
    then show ?thesis using None by (simp add: cow_contains_def)
  next
    case (Some x)
    have inv: "allocator_inv (fh_allocator s)" "cow_inv (fh_cow s)" using assms(1) by (simp_all add: cow_fault_ok_def)
    show ?thesis
    proof (cases "frame_ref_count (fh_cow s) (cm_frame x) \<le> 1")
      case last: True
      moreover have "0 < frame_ref_count (fh_cow s) (cm_frame x)" by (rule cow_inv_finish(6) [OF inv(2) Some])
      ultimately have "frame_ref_count (fh_cow s) (cm_frame x) = 1" by simp
      then show ?thesis using resolve_restored [OF assms(1) tf Some last assms(2)] Some
        by (cases r) auto
    next
      case shared: False
      obtain ra al1 where alloc: "allocate_page (fh_allocator s) = (ra, al1)" by fastforce
      show ?thesis
      proof (cases ra)
        case (Inl e)
        then have "e = Bad_alloc" "al1 = fh_allocator s" using allocate_page_error [OF inv(1)] alloc by auto
        then have "r = Inr COW_OUT_OF_MEMORY" "s' = s"
          using assms(2) tf Some shared alloc Inl
          by (auto simp: resolve_write_fault_def cow_fault_page_def op_simps at_allocator_def Let_def)
        then show ?thesis using Some by (simp add: cow_contains_def)
      next
        case (Inr p)
        from resolve_copied [OF assms(1) tf Some shared alloc [unfolded Inr] assms(2)] shared Some
        show ?thesis by (cases r) auto
      qed
    qed
  qed
qed

theorem resolve_write_fault_correct_witness:
  "\<exists>s' x p. resolve_write_fault 1 sample_cow_state = (Inr COPIED, s') \<and> page_copied sample_cow_state s' x p"
proof -
  obtain s' where run: "resolve_write_fault 1 sample_cow_state = (Inr COPIED, s')" using sample_cow_facts(2) by blast
  from resolve_write_fault_correct [OF sample_cow_facts(1) run] run show ?thesis by auto
qed

end
