(* ===== verification/Sched.thy ===== *)
theory Sched
  imports CpuState PageAlloc
begin

text \<open>
  Threads and the single-core scheduling structures of \<^verbatim>\<open>src/os/sched\<close>: \<^verbatim>\<open>thread_context.cpp\<close>,
  \<^verbatim>\<open>round_robin_scheduler.cpp\<close>, \<^verbatim>\<open>sleep_queue.cpp\<close>, \<^verbatim>\<open>wait_queue.cpp\<close> and \<^verbatim>\<open>event.cpp\<close>. The queues
  hold pointers to thread contexts owned elsewhere, so the model has an explicit store from
  pointers to contexts, shared by all queues; two queues can hold the same thread, and a thread can
  change state while it is queued.
\<close>

section \<open>Thread contexts\<close>

datatype thread_state = READY | RUNNING | BLOCKED | DEAD

type_synonym thread_id = "64 word"
type_synonym scheduler_tick = "64 word"

record thread_context =
  th_id :: thread_id
  th_state :: thread_state
  th_cpu :: cpu_state
  th_stack_bottom :: address64
  th_stack_top :: address64
  th_stack_size :: qword
  th_last_trap :: "trap_frame option"

definition thread_id_is_valid :: "thread_id \<Rightarrow> bool" where
  "thread_id_is_valid i \<longleftrightarrow> i \<noteq> 0"

definition is_valid_stack_size :: "qword \<Rightarrow> bool" where
  "is_valid_stack_size n \<longleftrightarrow> n \<noteq> 0 \<and> is_page_aligned n"

definition checked_stack_top :: "address64 \<Rightarrow> qword \<Rightarrow> exn + address64" where
  "checked_stack_top stack_bottom stack_size_bytes =
     (if \<not> is_page_aligned stack_bottom then Inl Invalid_argument
      else if \<not> is_valid_stack_size stack_size_bytes then Inl Invalid_argument
      else if stack_bottom > - 1 - stack_size_bytes then Inl Overflow_error
      else Inr (stack_bottom + stack_size_bytes))"

definition initialize_cpu_stack_pointer :: "thread_context \<Rightarrow> thread_context" where
  "initialize_cpu_stack_pointer t =
     t\<lparr>th_cpu := (th_cpu t)\<lparr>registers := reg_write RSP (th_stack_top t) (registers (th_cpu t))\<rparr>\<rparr>"

definition ThreadContext :: "thread_id \<Rightarrow> address64 \<Rightarrow> qword \<Rightarrow> exn + thread_context" where
  "ThreadContext i kernel_stack_bottom kernel_stack_size_bytes =
     sbind (checked_stack_top kernel_stack_bottom kernel_stack_size_bytes) (\<lambda>top.
       if \<not> thread_id_is_valid i then Inl Invalid_argument
       else Inr (initialize_cpu_stack_pointer
         \<lparr>th_id = i, th_state = READY, th_cpu = initial_cpu_state, th_stack_bottom = kernel_stack_bottom,
          th_stack_top = top, th_stack_size = kernel_stack_size_bytes, th_last_trap = None\<rparr>))"

definition set_state :: "thread_state \<Rightarrow> thread_context \<Rightarrow> thread_context" where
  "set_state st t = t\<lparr>th_state := st\<rparr>"

definition is_runnable :: "thread_context \<Rightarrow> bool" where
  "is_runnable t \<longleftrightarrow> th_state t = READY"

definition is_alive :: "thread_context \<Rightarrow> bool" where
  "is_alive t \<longleftrightarrow> th_state t \<noteq> DEAD"

definition contains_kernel_stack_address :: "address64 \<Rightarrow> thread_context \<Rightarrow> bool" where
  "contains_kernel_stack_address a t \<longleftrightarrow> th_stack_bottom t \<le> a \<and> a < th_stack_top t"

definition last_trap_frame :: "thread_context \<Rightarrow> exn + trap_frame" where
  "last_trap_frame t = (case th_last_trap t of None \<Rightarrow> Inl Logic_error | Some f \<Rightarrow> Inr f)"

definition snapshot_pending_trap_frame :: "thread_context \<Rightarrow> bool \<times> thread_context" where
  "snapshot_pending_trap_frame t =
     (case pending_trap (th_cpu t) of None \<Rightarrow> (False, t) | Some f \<Rightarrow> (True, t\<lparr>th_last_trap := Some f\<rparr>))"

definition clear_last_trap_frame :: "thread_context \<Rightarrow> thread_context" where
  "clear_last_trap_frame t = t\<lparr>th_last_trap := None\<rparr>"

definition reset_cpu_state :: "thread_context \<Rightarrow> thread_context" where
  "reset_cpu_state t =
     initialize_cpu_stack_pointer (t\<lparr>th_cpu := cpu_reset (th_cpu t), th_last_trap := None\<rparr>)"

section \<open>The store of threads\<close>

type_synonym tptr = nat
type_synonym threads = "tptr \<Rightarrow> thread_context"

definition put_state :: "tptr \<Rightarrow> thread_state \<Rightarrow> threads \<Rightarrow> threads" where
  "put_state p st h = h(p := set_state st (h p))"

abbreviation alive :: "threads \<Rightarrow> tptr \<Rightarrow> bool" where
  "alive h p \<equiv> is_alive (h p)"

abbreviation runnable :: "threads \<Rightarrow> tptr \<Rightarrow> bool" where
  "runnable h p \<equiv> is_runnable (h p)"

section \<open>Round-robin scheduler\<close>

record rr_state =
  rr_threads :: threads
  rr_ready :: "tptr list"
  rr_current :: "tptr option"

definition rr_empty :: "rr_state \<Rightarrow> bool" where
  "rr_empty s \<longleftrightarrow> rr_current s = None \<and> rr_ready s = []"

definition current_thread :: "rr_state \<Rightarrow> exn + tptr" where
  "current_thread s = (case rr_current s of None \<Rightarrow> Inl Logic_error | Some p \<Rightarrow> Inr p)"

definition rr_contains :: "tptr \<Rightarrow> rr_state \<Rightarrow> bool" where
  "rr_contains p s \<longleftrightarrow> p \<in> set (rr_ready s)"

definition rr_enqueue_ready :: "tptr \<Rightarrow> rr_state \<Rightarrow> rr_state" where
  "rr_enqueue_ready p s = s\<lparr>rr_threads := put_state p READY (rr_threads s), rr_ready := rr_ready s @ [p]\<rparr>"

definition rr_enqueue :: "tptr \<Rightarrow> (rr_state, unit) op" where
  "rr_enqueue p = (\<lambda>s.
     sq (require (alive (rr_threads s) p) Logic_error)
    (sq (require (\<not> (rr_current s = Some p \<or> rr_contains p s)) Logic_error)
        (modify (rr_enqueue_ready p))) s)"

text \<open>The loop that drops queued threads until one is runnable.\<close>

fun take_runnable :: "threads \<Rightarrow> tptr list \<Rightarrow> tptr option \<times> tptr list" where
  "take_runnable h [] = (None, [])"
| "take_runnable h (p # ps) = (if runnable h p then (Some p, ps) else take_runnable h ps)"

definition rr_schedule_next :: "rr_state \<Rightarrow> tptr option \<times> rr_state" where
  "rr_schedule_next s =
     (let s1 = (case rr_current s of
                  Some p \<Rightarrow> if th_state (rr_threads s p) = RUNNING
                            then s\<lparr>rr_threads := put_state p READY (rr_threads s), rr_ready := rr_ready s @ [p]\<rparr>
                            else s
                | None \<Rightarrow> s);
          s2 = s1\<lparr>rr_current := None\<rparr>
      in case take_runnable (rr_threads s2) (rr_ready s2) of
           (None, q) \<Rightarrow> (None, s2\<lparr>rr_ready := q\<rparr>)
         | (Some p, q) \<Rightarrow> (Some p, s2\<lparr>rr_threads := put_state p RUNNING (rr_threads s2), rr_ready := q,
                                      rr_current := Some p\<rparr>))"

definition rr_yield_current :: "rr_state \<Rightarrow> tptr option \<times> rr_state" where
  "rr_yield_current s = rr_schedule_next s"

definition rr_block_current :: "rr_state \<Rightarrow> tptr option \<times> rr_state" where
  "rr_block_current s = (case rr_current s of None \<Rightarrow> (None, s)
     | Some p \<Rightarrow> rr_schedule_next (s\<lparr>rr_threads := put_state p BLOCKED (rr_threads s), rr_current := None\<rparr>))"

definition rr_exit_current :: "rr_state \<Rightarrow> tptr option \<times> rr_state" where
  "rr_exit_current s = (case rr_current s of None \<Rightarrow> (None, s)
     | Some p \<Rightarrow> rr_schedule_next (s\<lparr>rr_threads := put_state p DEAD (rr_threads s), rr_current := None\<rparr>))"

definition rr_wake :: "tptr \<Rightarrow> (rr_state, unit) op" where
  "rr_wake p = (\<lambda>s.
     sq (require (alive (rr_threads s) p) Logic_error)
    (sq (require (\<not> (rr_current s = Some p \<or> rr_contains p s)) Logic_error)
        (modify (rr_enqueue_ready p))) s)"

section \<open>Sleep queue\<close>

record sleep_entry =
  se_thread :: tptr
  se_wake_tick :: scheduler_tick

type_synonym sleep_queue = "sleep_entry list"

definition sleep_contains :: "tptr \<Rightarrow> sleep_queue \<Rightarrow> bool" where
  "sleep_contains p q \<longleftrightarrow> (\<exists>e \<in> set q. se_thread e = p)"

definition next_wake_tick :: "sleep_queue \<Rightarrow> scheduler_tick option" where
  "next_wake_tick q = (case q of [] \<Rightarrow> None | e # _ \<Rightarrow> Some (se_wake_tick e))"

fun sleep_insert :: "sleep_entry \<Rightarrow> sleep_queue \<Rightarrow> sleep_queue" where
  "sleep_insert e [] = [e]"
| "sleep_insert e (x # xs) =
     (if se_wake_tick x \<le> se_wake_tick e then x # sleep_insert e xs else e # x # xs)"

definition sleep_until :: "tptr \<Rightarrow> scheduler_tick \<Rightarrow> (threads \<times> sleep_queue, unit) op" where
  "sleep_until p wake_tick = (\<lambda>(h, q).
     sq (require (alive h p) Logic_error)
    (sq (require (\<not> sleep_contains p q) Logic_error)
        (modify (\<lambda>(h, q). (put_state p BLOCKED h, sleep_insert \<lparr>se_thread = p, se_wake_tick = wake_tick\<rparr> q))))
     (h, q))"

fun take_ready :: "threads \<Rightarrow> scheduler_tick \<Rightarrow> sleep_queue \<Rightarrow> tptr list \<times> sleep_queue" where
  "take_ready h current_tick [] = ([], [])"
| "take_ready h current_tick (e # es) =
     (if se_wake_tick e \<le> current_tick
      then let (ready, rest) = take_ready h current_tick es
           in (if alive h (se_thread e) then se_thread e # ready else ready, rest)
      else ([], e # es))"

section \<open>Wait queue and event\<close>

type_synonym wait_queue = "tptr list"

definition wq_wait :: "tptr \<Rightarrow> (threads \<times> wait_queue, unit) op" where
  "wq_wait p = (\<lambda>(h, q).
     sq (require (alive h p) Logic_error)
    (sq (require (p \<notin> set q) Logic_error)
        (modify (\<lambda>(h, q). (put_state p BLOCKED h, q @ [p])))) (h, q))"

fun wq_wake_one :: "threads \<Rightarrow> wait_queue \<Rightarrow> tptr option \<times> wait_queue" where
  "wq_wake_one h [] = (None, [])"
| "wq_wake_one h (p # ps) = (if alive h p then (Some p, ps) else wq_wake_one h ps)"

lemma wq_wake_one_length: "wq_wake_one h q = (Some p, q') \<Longrightarrow> length q' < length q"
  by (induction q) (auto split: if_splits)

function wq_wake_all :: "threads \<Rightarrow> wait_queue \<Rightarrow> tptr list \<times> wait_queue" where
  "wq_wake_all h q =
     (case wq_wake_one h q of (None, q') \<Rightarrow> ([], q')
      | (Some p, q') \<Rightarrow> let (ps, q'') = wq_wake_all h q' in (p # ps, q''))"
  by pat_completeness auto
termination
  by (relation "measure (\<lambda>(h, q). length q)") (auto dest: wq_wake_one_length [OF sym])

declare wq_wake_all.simps [simp del]

record event =
  ev_signaled :: bool
  ev_waiters :: wait_queue

definition event_wait :: "tptr \<Rightarrow> (threads \<times> event, bool) op" where
  "event_wait p = (\<lambda>(h, e).
     if ev_signaled e then (Inr False, (h, e))
     else case wq_wait p (h, ev_waiters e) of
            (Inl x, (h', q)) \<Rightarrow> (Inl x, (h', e\<lparr>ev_waiters := q\<rparr>))
          | (Inr _, (h', q)) \<Rightarrow> (Inr True, (h', e\<lparr>ev_waiters := q\<rparr>)))"

definition signal_one :: "threads \<Rightarrow> event \<Rightarrow> tptr option \<times> event" where
  "signal_one h e = (let (r, q) = wq_wake_one h (ev_waiters e) in (r, e\<lparr>ev_signaled := True, ev_waiters := q\<rparr>))"

definition signal_all :: "threads \<Rightarrow> event \<Rightarrow> tptr list \<times> event" where
  "signal_all h e = (let (r, q) = wq_wake_all h (ev_waiters e) in (r, e\<lparr>ev_signaled := True, ev_waiters := q\<rparr>))"

definition event_reset :: "event \<Rightarrow> event" where
  "event_reset e = e\<lparr>ev_signaled := False\<rparr>"

section \<open>Queues that are scanned for an eligible thread\<close>

text \<open>
  The scheduler's ready queue, the wait queue and the run queue of a core (from either end) are
  consumed by the same loop: drop entries until one is eligible. The contract of such a loop is
  stated on the order in which it meets the entries.
\<close>

locale scanned_queue =
  fixes eligible :: "'h \<Rightarrow> 'p \<Rightarrow> bool"
    and view :: "'q \<Rightarrow> 'p list"
    and take_one :: "'h \<Rightarrow> 'q \<Rightarrow> 'p option \<times> 'q"
  assumes take_None: "take_one h q = (None, q') \<Longrightarrow> filter (eligible h) (view q) = [] \<and> view q' = []"
    and take_Some: "take_one h q = (Some p, q') \<Longrightarrow>
      \<exists>skipped. view q = skipped @ p # view q' \<and> filter (eligible h) skipped = [] \<and> eligible h p"
begin

lemma take_filter:
  assumes "take_one h q = (Some p, q')"
  shows "filter (eligible h) (view q) = p # filter (eligible h) (view q')"
  using take_Some [OF assms] by auto

lemma take_eligible: "take_one h q = (Some p, q') \<Longrightarrow> eligible h p"
  using take_Some by blast

lemma take_member: "take_one h q = (Some p, q') \<Longrightarrow> p \<in> set (view q)"
  by (metis in_set_conv_decomp take_Some)

lemma take_subset: "take_one h q = (r, q') \<Longrightarrow> set (view q') \<subseteq> set (view q)"
  by (cases r) (auto dest: take_None take_Some)

lemma take_distinct:
  assumes "distinct (view q)" and "take_one h q = (r, q')"
  shows "distinct (view q')" and "r = Some p \<Longrightarrow> p \<notin> set (view q')"
  using assms by (cases r; auto dest!: take_None take_Some)+

lemma take_returns:
  assumes "p \<in> set (view q)" and "eligible h p"
  obtains p' q' where "take_one h q = (Some p', q')" and "eligible h p'"
proof (cases "take_one h q")
  case (Pair r q')
  have "filter (eligible h) (view q) \<noteq> []" using assms by (auto simp: filter_empty_conv)
  with Pair obtain p' where "r = Some p'" using take_None by (cases r) auto
  with Pair show ?thesis using take_eligible that by blast
qed

lemma take_all_eligible:
  assumes "\<forall>x \<in> set (view q). eligible h x" and "take_one h q = (r, q')"
  shows "view q = (case r of None \<Rightarrow> [] | Some p \<Rightarrow> p # view q')"
proof (cases r)
  case None
  with assms take_None show ?thesis by (force simp: filter_empty_conv)
next
  case (Some p)
  with assms obtain d where d: "view q = d @ p # view q'" "filter (eligible h) d = []"
    using take_Some by blast
  with assms have "d = []" by (cases d) auto
  with d Some show ?thesis by simp
qed

end

text \<open>The loop itself, over an arbitrary test, and the instances of it.\<close>

fun scan :: "('p \<Rightarrow> bool) \<Rightarrow> 'p list \<Rightarrow> 'p option \<times> 'p list" where
  "scan P [] = (None, [])"
| "scan P (x # xs) = (if P x then (Some x, xs) else scan P xs)"

lemma scan_None: "scan P q = (None, q') \<Longrightarrow> filter P q = [] \<and> q' = []"
  by (induction q) (auto split: if_splits)

lemma scan_Some: "scan P q = (Some p, q') \<Longrightarrow> \<exists>d. q = d @ p # q' \<and> filter P d = [] \<and> P p"
proof (induction q)
  case (Cons x q)
  show ?case
  proof (cases "P x")
    case True
    with Cons.prems show ?thesis by auto
  next
    case False
    with Cons obtain d where "q = d @ p # q'" "filter P d = []" "P p" by auto
    with False show ?thesis by (intro exI [of _ "x # d"]) auto
  qed
qed simp

lemma take_runnable_scan: "take_runnable h q = scan (runnable h) q"
  by (induction q) auto

lemma wq_wake_one_scan: "wq_wake_one h q = scan (alive h) q"
  by (induction q) auto

interpretation rq: scanned_queue runnable "\<lambda>q. q" take_runnable
  by unfold_locales (auto simp: take_runnable_scan dest: scan_None scan_Some)

interpretation wq: scanned_queue alive "\<lambda>q. q" wq_wake_one
  by unfold_locales (auto simp: wq_wake_one_scan dest: scan_None scan_Some)

lemma wq_wake_all_filter: "wq_wake_all h q = (filter (alive h) q, [])"
proof (induction h q rule: wq_wake_all.induct)
  case (1 h q)
  show ?case
  proof (cases "wq_wake_one h q")
    case (Pair r q')
    show ?thesis
    proof (cases r)
      case None
      with Pair show ?thesis using wq.take_None [of h q q'] by (simp add: wq_wake_all.simps)
    next
      case (Some p)
      with Pair have "wq_wake_all h q' = (filter (alive h) q', [])" by (intro "1.IH") auto
      with Pair Some show ?thesis
        using wq.take_filter [of h q p q'] by (simp add: wq_wake_all.simps [of h q])
    qed
  qed
qed

section \<open>Round-robin invariant and fairness\<close>

lemma put_state_state [simp]:
  "th_state (put_state p st h q) = (if q = p then st else th_state (h q))"
  by (simp add: put_state_def set_state_def)

text \<open>
  The invariant: no thread is queued twice, the current thread is not queued, queued threads are
  ready and the current thread runs. \<open>ring\<close> is the order in which the threads get the processor,
  the running one last.
\<close>

definition rr_ok :: "rr_state \<Rightarrow> bool" where
  "rr_ok s \<longleftrightarrow> distinct (rr_ready s) \<and> (\<forall>p \<in> set (rr_ready s). runnable (rr_threads s) p) \<and>
     (\<forall>p. rr_current s = Some p \<longrightarrow> p \<notin> set (rr_ready s) \<and> th_state (rr_threads s p) = RUNNING)"

definition ring :: "rr_state \<Rightarrow> tptr list" where
  "ring s = rr_ready s @ (case rr_current s of None \<Rightarrow> [] | Some p \<Rightarrow> [p])"

lemma rr_ok_ring_distinct: "rr_ok s \<Longrightarrow> distinct (ring s)"
  by (auto simp: rr_ok_def ring_def split: option.split)

text \<open>A choice of the next thread rotates the ring.\<close>

lemma rr_schedule_next_ring:
  assumes "rr_ok s" and "rr_schedule_next s = (r, s')"
  shows "rr_ok s'" and "ring s' = rotate1 (ring s)" and "r = rr_current s'"
    and "(r = None) = (ring s = [])"
proof -
  define h where "h = (case rr_current s of None \<Rightarrow> rr_threads s | Some p \<Rightarrow> put_state p READY (rr_threads s))"
  have queue: "\<forall>p \<in> set (ring s). runnable h p" and dist: "distinct (ring s)"
    using assms(1) by (auto simp: h_def ring_def rr_ok_def is_runnable_def split: option.splits)
  obtain c q where take: "take_runnable h (ring s) = (c, q)" by fastforce
  have s': "(r, s') = (case c of None \<Rightarrow> (None, s\<lparr>rr_threads := h, rr_ready := q, rr_current := None\<rparr>)
      | Some p \<Rightarrow> (Some p, s\<lparr>rr_threads := put_state p RUNNING h, rr_ready := q, rr_current := Some p\<rparr>))"
    using assms take
    by (auto simp: rr_schedule_next_def h_def ring_def rr_ok_def Let_def split: option.splits)
  have split: "ring s = (case c of None \<Rightarrow> [] | Some p \<Rightarrow> p # q)"
    using rq.take_all_eligible [OF queue take] .
  have "rr_ok s' \<and> ring s' = rotate1 (ring s) \<and> r = rr_current s' \<and> ((r = None) = (ring s = []))"
  proof (cases c)
    case None
    with rq.take_None take have "q = []" by blast
    with None s' split show ?thesis by (simp add: rr_ok_def ring_def)
  next
    case (Some p)
    with s' split queue dist show ?thesis
      by (auto simp: rr_ok_def ring_def is_runnable_def)
  qed
  then show "rr_ok s'" and "ring s' = rotate1 (ring s)" and "r = rr_current s'"
    and "(r = None) = (ring s = [])" by auto
qed

lemma rr_enqueue_ok:
  assumes "rr_ok s"
  shows "rr_ok (snd (rr_enqueue p s))" and "rr_wake p s = rr_enqueue p s"
  using assms
  by (auto simp: rr_enqueue_def rr_wake_def rr_enqueue_ready_def rr_contains_def op_simps rr_ok_def
      is_runnable_def)

lemma rr_remove_current_ok:
  assumes "rr_ok s" and "rr_current s = Some p"
  shows "rr_ok (s\<lparr>rr_threads := put_state p st (rr_threads s), rr_current := None\<rparr>)"
  using assms by (auto simp: rr_ok_def is_runnable_def)

lemma rr_leave_current:
  assumes "rr_ok s" and "f = rr_block_current \<and> st = BLOCKED \<or> f = rr_exit_current \<and> st = DEAD"
    and "rr_current s = Some p" and "f s = (r, s')"
  shows "rr_ok s'" and "ring s' = rotate1 (rr_ready s)" and "r = rr_current s'"
    and "th_state (rr_threads s' p) = st"
proof -
  let ?t = "s\<lparr>rr_threads := put_state p st (rr_threads s), rr_current := None\<rparr>"
  have ok: "rr_ok ?t" by (rule rr_remove_current_ok) fact+
  have step: "rr_schedule_next ?t = (r, s')"
    using assms(2-4) by (auto simp: rr_block_current_def rr_exit_current_def)
  note rr_schedule_next_ring [OF ok step]
  then show "rr_ok s'" and "ring s' = rotate1 (rr_ready s)" and "r = rr_current s'"
    by (simp_all add: ring_def)
  have "rr_current s' \<noteq> Some p"
  proof
    assume "rr_current s' = Some p"
    then have "p \<in> set (ring s')" by (simp add: ring_def)
    with \<open>ring s' = rotate1 (rr_ready s)\<close> assms(1,3) show False by (auto simp: rr_ok_def)
  qed
  with step show "th_state (rr_threads s' p) = st"
    by (auto simp: rr_schedule_next_def Let_def split: prod.splits option.splits)
qed

lemma rr_schedule_next_ok: "rr_ok s \<Longrightarrow> rr_ok (snd (rr_schedule_next s))"
  by (metis prod.collapse rr_schedule_next_ring(1))

text \<open>The calls a kernel makes on the scheduler, as a step relation.\<close>

inductive rr_step :: "rr_state \<Rightarrow> rr_state \<Rightarrow> bool" where
  enqueue: "rr_step s (snd (rr_enqueue p s))"
| wake: "rr_step s (snd (rr_wake p s))"
| schedule: "rr_step s (snd (rr_schedule_next s))"
| yield_turn: "rr_step s (snd (rr_yield_current s))"
| block: "rr_step s (snd (rr_block_current s))"
| exit_thread: "rr_step s (snd (rr_exit_current s))"

inductive rr_reachable :: "rr_state \<Rightarrow> bool" where
  init: "rr_reachable \<lparr>rr_threads = h, rr_ready = [], rr_current = None\<rparr>"
| step: "rr_reachable s \<Longrightarrow> rr_step s s' \<Longrightarrow> rr_reachable s'"

lemma rr_step_ok: "rr_step s s' \<Longrightarrow> rr_ok s \<Longrightarrow> rr_ok s'"
proof (induction rule: rr_step.induct)
  case (schedule s)
  then show ?case by (rule rr_schedule_next_ok)
next
  case (yield_turn s)
  then show ?case by (simp add: rr_schedule_next_ok rr_yield_current_def)
next
  case (block s)
  then show ?case
    by (cases "rr_current s") (auto simp: rr_block_current_def intro: rr_schedule_next_ok rr_remove_current_ok)
next
  case (exit_thread s)
  then show ?case
    by (cases "rr_current s") (auto simp: rr_exit_current_def intro: rr_schedule_next_ok rr_remove_current_ok)
qed (auto intro: rr_enqueue_ok simp: rr_enqueue_ok(2))

lemma rr_reachable_ok: "rr_reachable s \<Longrightarrow> rr_ok s"
proof (induction rule: rr_reachable.induct)
  case (init h)
  then show ?case by (simp add: rr_ok_def)
qed (rule rr_step_ok)

text \<open>The state after \<open>k\<close> turns.\<close>

definition after_yields :: "nat \<Rightarrow> rr_state \<Rightarrow> rr_state" where
  "after_yields k s = ((\<lambda>s. snd (rr_yield_current s)) ^^ k) s"

lemma after_yields_ring:
  assumes "rr_ok s"
  shows "rr_ok (after_yields k s) \<and> ring (after_yields k s) = rotate k (ring s)"
proof (induction k)
  case 0
  with assms show ?case by (simp add: after_yields_def)
next
  case (Suc k)
  let ?t = "after_yields k s"
  obtain r u where step: "rr_schedule_next ?t = (r, u)" by fastforce
  then have "after_yields (Suc k) s = u" by (simp add: after_yields_def rr_yield_current_def)
  with Suc rr_schedule_next_ring [OF _ step] show ?case by simp
qed

lemma after_yields_current:
  assumes "rr_ok s" and "rr_current s \<noteq> None"
  shows "rr_current (after_yields k s) = Some (last (rotate k (ring s)))"
proof (cases k)
  case 0
  with assms show ?thesis by (auto simp: after_yields_def ring_def)
next
  case (Suc j)
  let ?t = "after_yields j s"
  obtain r u where step: "rr_schedule_next ?t = (r, u)" by fastforce
  with Suc have u: "after_yields k s = u" by (simp add: after_yields_def rr_yield_current_def)
  have "ring s \<noteq> []" using assms by (auto simp: ring_def)
  with after_yields_ring [OF assms(1), of j] have ok: "rr_ok ?t" and "ring ?t \<noteq> []" by auto
  with rr_schedule_next_ring [OF ok step] have "rr_current u \<noteq> None" by metis
  then obtain p where p: "rr_current u = Some p" by blast
  then have "ring u = rr_ready u @ [p]" by (simp add: ring_def)
  then have "last (rotate k (ring s)) = p" using after_yields_ring [OF assms(1), of k] u by (metis last_snoc)
  with p u show ?thesis by simp
qed

lemma after_yields_add: "after_yields (i + k) s = after_yields k (after_yields i s)"
  by (simp add: after_yields_def funpow_add add.commute [of i k])

lemma last_rotate:
  assumes "k < length xs"
  shows "last (rotate k xs) = xs ! (if k = 0 then length xs - 1 else k - 1)"
proof (cases k)
  case 0
  with assms show ?thesis by (auto simp: last_conv_nth)
next
  case (Suc j)
  from assms have "xs \<noteq> []" by auto
  then have "last (rotate k xs) = rotate k xs ! (length xs - 1)" by (simp add: last_conv_nth)
  also have "\<dots> = xs ! ((k + (length xs - 1)) mod length xs)" using assms by (intro nth_rotate) auto
  also have "k + (length xs - 1) = j + length xs" using Suc assms by simp
  also have "(j + length xs) mod length xs = j" using Suc assms by simp
  finally show ?thesis using Suc by simp
qed

lemma rotate_last_once:
  assumes "distinct xs" and "t \<in> set xs"
  shows "\<exists>!k. k < length xs \<and> last (rotate k xs) = t"
proof -
  from assms obtain j where j: "j < length xs" "xs ! j = t" by (auto simp: in_set_conv_nth)
  let ?k = "if j = length xs - 1 then 0 else Suc j"
  show ?thesis
  proof (rule ex1I [of _ ?k])
    have "?k < length xs" using j by auto
    with last_rotate [OF this] j show "?k < length xs \<and> last (rotate ?k xs) = t" by (auto split: if_splits)
  next
    fix k assume k: "k < length xs \<and> last (rotate k xs) = t"
    then have "xs ! (if k = 0 then length xs - 1 else k - 1) = xs ! j" by (metis j(2) last_rotate)
    moreover have "(if k = 0 then length xs - 1 else k - 1) < length xs" using k by auto
    ultimately have "(if k = 0 then length xs - 1 else k - 1) = j"
      using j assms(1) nth_eq_iff_index_eq by blast
    with k show "k = ?k" by (auto split: if_splits)
  qed
qed

section \<open>Sleep queue lemmas\<close>

abbreviation sleep_sorted :: "sleep_queue \<Rightarrow> bool" where
  "sleep_sorted \<equiv> sorted_wrt (\<lambda>a b. se_wake_tick a \<le> se_wake_tick b)"

lemma set_sleep_insert [simp]: "set (sleep_insert e q) = insert e (set q)"
  by (induction q) auto

lemma sleep_insert_sorted: "sleep_sorted q \<Longrightarrow> sleep_sorted (sleep_insert e q)"
  by (induction q) (auto intro: order_trans less_imp_le simp: not_le)

text \<open>Insertion is stable: sleepers with the same tick keep their order of arrival.\<close>

lemma sleep_insert_stable:
  assumes "sleep_sorted q"
  shows "filter (\<lambda>x. se_wake_tick x = w) (sleep_insert e q)
       = filter (\<lambda>x. se_wake_tick x = w) q @ (if se_wake_tick e = w then [e] else [])"
  using assms
proof (induction q)
  case (Cons x q)
  show ?case
  proof (cases "se_wake_tick x \<le> se_wake_tick e")
    case True
    with Cons show ?thesis by auto
  next
    case False
    with Cons.prems have "filter (\<lambda>y. se_wake_tick y = se_wake_tick e) (x # q) = []"
      by (auto simp: filter_empty_conv)
    with False show ?thesis by auto
  qed
qed simp

lemma take_ready_sorted:
  assumes "sleep_sorted q"
  shows "take_ready h t q =
    (map se_thread (filter (\<lambda>e. se_wake_tick e \<le> t \<and> alive h (se_thread e)) q),
     filter (\<lambda>e. t < se_wake_tick e) q)"
  using assms
proof (induction q)
  case (Cons e q)
  show ?case
  proof (cases "se_wake_tick e \<le> t")
    case True
    with Cons show ?thesis by (auto simp: not_less)
  next
    case False
    with Cons.prems have "\<forall>x \<in> set (e # q). t < se_wake_tick x" by fastforce
    then have "filter (\<lambda>e. t < se_wake_tick e) (e # q) = e # q"
      and "filter (\<lambda>e. se_wake_tick e \<le> t \<and> alive h (se_thread e)) (e # q) = []"
      by (auto simp: filter_id_conv filter_empty_conv not_le)
    with False show ?thesis by (simp only: take_ready.simps if_False) simp
  qed
qed simp

section \<open>Wait queue and event lemmas\<close>

lemma wq_wait_run:
  "wq_wait p (h, q) =
     (if alive h p \<and> p \<notin> set q then (Inr (), (put_state p BLOCKED h, q @ [p])) else (Inl Logic_error, (h, q)))"
  by (simp add: wq_wait_def op_simps)

text \<open>Threads that wait on an event one after the other.\<close>

fun wait_each :: "tptr list \<Rightarrow> (threads \<times> event, unit) op" where
  "wait_each [] = ret ()"
| "wait_each (p # ps) = sq (event_wait p) (wait_each ps)"

lemma wait_each_queues:
  assumes "\<not> ev_signaled e" and "distinct ps" and "\<forall>p \<in> set ps. alive h p \<and> p \<notin> set (ev_waiters e)"
  shows "wait_each ps (h, e) =
    (Inr (), (\<lambda>q. if q \<in> set ps then set_state BLOCKED (h q) else h q, e\<lparr>ev_waiters := ev_waiters e @ ps\<rparr>))"
  using assms
proof (induction ps arbitrary: h e)
  case Nil
  then show ?case by (simp add: op_simps)
next
  case (Cons p ps)
  let ?h = "put_state p BLOCKED h" and ?e = "e\<lparr>ev_waiters := ev_waiters e @ [p]\<rparr>"
  have "event_wait p (h, e) = (Inr True, (?h, ?e))"
    using Cons.prems by (simp add: event_wait_def wq_wait_run)
  moreover have "wait_each ps (?h, ?e) =
    (Inr (), (\<lambda>q. if q \<in> set ps then set_state BLOCKED (?h q) else ?h q, ?e\<lparr>ev_waiters := ev_waiters ?e @ ps\<rparr>))"
    using Cons.prems by (intro Cons.IH) (auto simp: is_alive_def)
  ultimately show ?case using Cons.prems(2) by (auto simp: op_simps put_state_def fun_eq_iff)
qed

section \<open>Properties\<close>

lemma rr_scheduler_invariant_facts:
  assumes "rr_reachable s"
  shows "distinct (ring s)"
    and "\<forall>p \<in> set (rr_ready s). th_state (rr_threads s p) = READY"
    and "\<forall>p. rr_current s = Some p \<longrightarrow> th_state (rr_threads s p) = RUNNING"
    and "\<forall>p. rr_current s = Some p \<longrightarrow>
           (case rr_block_current s of (r, s') \<Rightarrow> th_state (rr_threads s' p) = BLOCKED \<and> set (ring s') = set (ring s) - {p})
         \<and> (case rr_exit_current s of (r, s') \<Rightarrow> th_state (rr_threads s' p) = DEAD \<and> set (ring s') = set (ring s) - {p})"
    and "(fst (rr_schedule_next s) = None) = rr_empty s"
proof -
  have ok: "rr_ok s" using assms by (rule rr_reachable_ok)
  show "distinct (ring s)" using ok by (rule rr_ok_ring_distinct)
  show "\<forall>p \<in> set (rr_ready s). th_state (rr_threads s p) = READY"
    and "\<forall>p. rr_current s = Some p \<longrightarrow> th_state (rr_threads s p) = RUNNING"
    using ok by (auto simp: rr_ok_def is_runnable_def)
  show "\<forall>p. rr_current s = Some p \<longrightarrow>
           (case rr_block_current s of (r, s') \<Rightarrow> th_state (rr_threads s' p) = BLOCKED \<and> set (ring s') = set (ring s) - {p})
         \<and> (case rr_exit_current s of (r, s') \<Rightarrow> th_state (rr_threads s' p) = DEAD \<and> set (ring s') = set (ring s) - {p})"
  proof (intro allI impI)
    fix p assume cur: "rr_current s = Some p"
    then have "set (rr_ready s) = set (ring s) - {p}" using ok by (auto simp: ring_def rr_ok_def)
    then show "(case rr_block_current s of (r, s') \<Rightarrow> th_state (rr_threads s' p) = BLOCKED \<and> set (ring s') = set (ring s) - {p})
         \<and> (case rr_exit_current s of (r, s') \<Rightarrow> th_state (rr_threads s' p) = DEAD \<and> set (ring s') = set (ring s) - {p})"
      using rr_leave_current(2,4) [OF ok _ cur, of rr_block_current BLOCKED]
        rr_leave_current(2,4) [OF ok _ cur, of rr_exit_current DEAD] by (auto split: prod.splits)
  qed
  obtain r s' where "rr_schedule_next s = (r, s')" by fastforce
  with rr_schedule_next_ring(4) [OF ok this] show "(fst (rr_schedule_next s) = None) = rr_empty s"
    by (auto simp: rr_empty_def ring_def split: option.splits)
qed

text \<open>
  C20: the invariant of the round-robin scheduler in every state the kernel's calls can reach. No
  thread is scheduled twice, every queued thread is ready, the current thread is running and not
  queued; a thread that blocks or exits is in that state afterwards and out of the ring; and a call
  of \<^verbatim>\<open>schedule_next\<close> returns a thread whenever there is one.
\<close>

theorem rr_scheduler_invariant:
  assumes "rr_reachable s"
  shows "(distinct (ring s)) \<and>
    (\<forall>p \<in> set (rr_ready s). th_state (rr_threads s p) = READY) \<and>
    (\<forall>p. rr_current s = Some p \<longrightarrow> th_state (rr_threads s p) = RUNNING) \<and>
    (\<forall>p. rr_current s = Some p \<longrightarrow>
           (case rr_block_current s of (r, s') \<Rightarrow> th_state (rr_threads s' p) = BLOCKED \<and> set (ring s') = set (ring s) - {p})
         \<and> (case rr_exit_current s of (r, s') \<Rightarrow> th_state (rr_threads s' p) = DEAD \<and> set (ring s') = set (ring s) - {p})) \<and>
    ((fst (rr_schedule_next s) = None) = rr_empty s)"
  by (rule conjI, rule rr_scheduler_invariant_facts(1) [OF assms],
      rule conjI, rule rr_scheduler_invariant_facts(2) [OF assms],
      rule conjI, rule rr_scheduler_invariant_facts(3) [OF assms],
      rule conjI, rule rr_scheduler_invariant_facts(4) [OF assms],
      rule rr_scheduler_invariant_facts(5) [OF assms])

definition sample_threads :: threads where
  "sample_threads = (\<lambda>p. \<lparr>th_id = word_of_nat p, th_state = READY, th_cpu = initial_cpu_state, th_stack_bottom = 0,
     th_stack_top = 0x1000, th_stack_size = 0x1000, th_last_trap = None\<rparr>)"

definition sample_rr :: rr_state where
  "sample_rr = snd (rr_schedule_next (snd (rr_enqueue 3 (snd (rr_enqueue 2 (snd (rr_enqueue 1
     \<lparr>rr_threads = sample_threads, rr_ready = [], rr_current = None\<rparr>)))))))"

lemma sample_rr_reachable: "rr_reachable sample_rr"
  unfolding sample_rr_def
  by (rule rr_reachable.step [OF rr_reachable.step [OF rr_reachable.step [OF rr_reachable.step
    [OF rr_reachable.init rr_step.enqueue] rr_step.enqueue] rr_step.enqueue] rr_step.schedule])

lemma sample_rr_ring: "rr_current sample_rr = Some 1" "rr_ready sample_rr = [2, 3]"
  by (simp_all add: sample_rr_def rr_enqueue_def op_simps sample_threads_def is_alive_def rr_contains_def
      rr_enqueue_ready_def rr_schedule_next_def is_runnable_def)

theorem rr_scheduler_invariant_witness:
  "rr_reachable sample_rr \<and> rr_ready sample_rr = [2, 3] \<and>
   th_state (rr_threads sample_rr 3) = READY \<and> th_state (rr_threads sample_rr 1) = RUNNING"
proof (intro conjI)
  have "3 \<in> set (rr_ready sample_rr)" by (simp only: sample_rr_ring) simp
  with rr_scheduler_invariant [OF sample_rr_reachable, THEN conjunct2, THEN conjunct1] show "th_state (rr_threads sample_rr 3) = READY" by blast
  from rr_scheduler_invariant [OF sample_rr_reachable, THEN conjunct2, THEN conjunct2, THEN conjunct1] sample_rr_ring(1)
  show "th_state (rr_threads sample_rr 1) = RUNNING" by blast
qed (fact sample_rr_reachable sample_rr_ring(2))+

lemma rr_fair_facts:
  assumes "rr_reachable s" and "rr_current s \<noteq> None" and "t \<in> set (ring s)"
  shows "\<exists>!k. k < length (ring s) \<and> rr_current (after_yields (i + k) s) = Some t"
    and "set (ring (after_yields i s)) = set (ring s)"
proof -
  have ok: "rr_ok s" using assms(1) by (rule rr_reachable_ok)
  let ?s = "after_yields i s"
  have ok': "rr_ok ?s" and ring: "ring ?s = rotate i (ring s)"
    using after_yields_ring [OF ok] by auto
  show "set (ring ?s) = set (ring s)" using ring by simp
  have cur: "rr_current ?s \<noteq> None" using after_yields_current [OF ok assms(2)] by simp
  have "\<exists>!k. k < length (ring ?s) \<and> last (rotate k (ring ?s)) = t"
    using assms(3) ring by (intro rotate_last_once rr_ok_ring_distinct [OF ok']) simp
  then show "\<exists>!k. k < length (ring s) \<and> rr_current (after_yields (i + k) s) = Some t"
    using after_yields_current [OF ok' cur] ring by (simp add: after_yields_add)
qed

text \<open>
  C21: round robin is fair. Let the running thread yield again and again in a reachable state with
  \<open>n\<close> threads. In every window of \<open>n\<close> consecutive turns, wherever it starts, each thread runs
  exactly once, and no thread is lost on the way.
\<close>

theorem rr_fair:
  assumes "rr_reachable s" and "rr_current s \<noteq> None" and "t \<in> set (ring s)"
  shows "(\<exists>!k. k < length (ring s) \<and> rr_current (after_yields (i + k) s) = Some t) \<and>
    (set (ring (after_yields i s)) = set (ring s))"
  by (rule conjI, rule rr_fair_facts(1) [OF assms],
      rule rr_fair_facts(2) [OF assms])

theorem rr_fair_witness:
  "\<exists>!k. k < 3 \<and> rr_current (after_yields (5 + k) sample_rr) = Some 2"
  using rr_fair [OF sample_rr_reachable, THEN conjunct1, of 2 5] sample_rr_ring by (simp add: ring_def numeral_3_eq_3)

lemma sleep_queue_correct_facts:
  assumes "sleep_sorted q"
  shows "sleep_until p w (h, q) =
      (if alive h p \<and> \<not> sleep_contains p q
       then (Inr (), (put_state p BLOCKED h, sleep_insert \<lparr>se_thread = p, se_wake_tick = w\<rparr> q))
       else (Inl Logic_error, (h, q)))"
    and "sleep_sorted (sleep_insert e q)"
    and "filter (\<lambda>x. se_wake_tick x = v) (sleep_insert e q)
       = filter (\<lambda>x. se_wake_tick x = v) q @ (if se_wake_tick e = v then [e] else [])"
    and "fst (take_ready h t q) = map se_thread (filter (\<lambda>e. se_wake_tick e \<le> t \<and> alive h (se_thread e)) q)"
    and "snd (take_ready h t q) = filter (\<lambda>e. t < se_wake_tick e) q"
    and "sleep_sorted (snd (take_ready h t q))"
    and "case next_wake_tick (snd (take_ready h t q)) of
           None \<Rightarrow> \<forall>e \<in> set q. se_wake_tick e \<le> t
         | Some v \<Rightarrow> t < v \<and> (\<forall>e \<in> set q. se_wake_tick e \<le> t \<or> v \<le> se_wake_tick e)"
proof -
  show "sleep_until p w (h, q) =
      (if alive h p \<and> \<not> sleep_contains p q
       then (Inr (), (put_state p BLOCKED h, sleep_insert \<lparr>se_thread = p, se_wake_tick = w\<rparr> q))
       else (Inl Logic_error, (h, q)))"
    by (simp add: sleep_until_def op_simps)
  show "sleep_sorted (sleep_insert e q)"
    and "filter (\<lambda>x. se_wake_tick x = v) (sleep_insert e q)
       = filter (\<lambda>x. se_wake_tick x = v) q @ (if se_wake_tick e = v then [e] else [])"
    using assms by (rule sleep_insert_sorted sleep_insert_stable)+
  show "fst (take_ready h t q) = map se_thread (filter (\<lambda>e. se_wake_tick e \<le> t \<and> alive h (se_thread e)) q)"
    and rest: "snd (take_ready h t q) = filter (\<lambda>e. t < se_wake_tick e) q"
    using take_ready_sorted [OF assms] by auto
  show sorted: "sleep_sorted (snd (take_ready h t q))" unfolding rest using assms by (rule sorted_wrt_filter)
  show "case next_wake_tick (snd (take_ready h t q)) of
           None \<Rightarrow> \<forall>e \<in> set q. se_wake_tick e \<le> t
         | Some v \<Rightarrow> t < v \<and> (\<forall>e \<in> set q. se_wake_tick e \<le> t \<or> v \<le> se_wake_tick e)"
  proof (cases "filter (\<lambda>e. t < se_wake_tick e) q")
    case Nil
    with rest show ?thesis by (auto simp: next_wake_tick_def filter_empty_conv not_less)
  next
    case (Cons x xs)
    then have members: "{e \<in> set q. t < se_wake_tick e} = set (x # xs)" by (metis set_filter)
    have "\<forall>e \<in> set (x # xs). se_wake_tick x \<le> se_wake_tick e" using sorted rest Cons by simp
    with members have "t < se_wake_tick x" "\<forall>e \<in> set q. se_wake_tick e \<le> t \<or> se_wake_tick x \<le> se_wake_tick e"
      by (auto simp: not_less)
    then show ?thesis using rest Cons by (simp add: next_wake_tick_def)
  qed
qed

text \<open>
  C22: the sleep queue. \<^verbatim>\<open>sleep_until\<close> blocks a live thread that is not asleep and refuses any other
  with no change; it keeps the queue sorted by wake tick, and first come first served among equal
  ticks. At tick \<open>t\<close>, \<^verbatim>\<open>take_ready\<close> returns exactly the threads that are due and still alive, in
  that order, removes every entry that is due and leaves the others, so that \<^verbatim>\<open>next_wake_tick\<close> is then
  in the future and is the smallest tick that is left.
\<close>

theorem sleep_queue_correct:
  assumes "sleep_sorted q"
  shows "(sleep_until p w (h, q) =
      (if alive h p \<and> \<not> sleep_contains p q
       then (Inr (), (put_state p BLOCKED h, sleep_insert \<lparr>se_thread = p, se_wake_tick = w\<rparr> q))
       else (Inl Logic_error, (h, q)))) \<and>
    (sleep_sorted (sleep_insert e q)) \<and>
    (filter (\<lambda>x. se_wake_tick x = v) (sleep_insert e q)
       = filter (\<lambda>x. se_wake_tick x = v) q @ (if se_wake_tick e = v then [e] else [])) \<and>
    (fst (take_ready h t q) = map se_thread (filter (\<lambda>e. se_wake_tick e \<le> t \<and> alive h (se_thread e)) q)) \<and>
    (snd (take_ready h t q) = filter (\<lambda>e. t < se_wake_tick e) q) \<and>
    (sleep_sorted (snd (take_ready h t q))) \<and>
    (case next_wake_tick (snd (take_ready h t q)) of
           None \<Rightarrow> \<forall>e \<in> set q. se_wake_tick e \<le> t
         | Some v \<Rightarrow> t < v \<and> (\<forall>e \<in> set q. se_wake_tick e \<le> t \<or> v \<le> se_wake_tick e))"
  by (rule conjI, rule sleep_queue_correct_facts(1) [OF assms],
      rule conjI, rule sleep_queue_correct_facts(2) [OF assms],
      rule conjI, rule sleep_queue_correct_facts(3) [OF assms],
      rule conjI, rule sleep_queue_correct_facts(4) [OF assms],
      rule conjI, rule sleep_queue_correct_facts(5) [OF assms],
      rule conjI, rule sleep_queue_correct_facts(6) [OF assms],
      rule sleep_queue_correct_facts(7) [OF assms])

definition sample_sleepers :: sleep_queue where
  "sample_sleepers = [\<lparr>se_thread = 4, se_wake_tick = 10\<rparr>, \<lparr>se_thread = 5, se_wake_tick = 20\<rparr>]"

theorem sleep_queue_correct_witness:
  "fst (take_ready sample_threads 15 sample_sleepers) = [4] \<and>
   sleep_sorted (sleep_insert \<lparr>se_thread = 6, se_wake_tick = 10\<rparr> sample_sleepers)"
proof -
  have sorted: "sleep_sorted sample_sleepers" by (simp add: sample_sleepers_def)
  from sleep_queue_correct [OF sorted, THEN conjunct2, THEN conjunct1] sleep_queue_correct [OF sorted, THEN conjunct2, THEN conjunct2, THEN conjunct2, THEN conjunct1, of sample_threads 15]
  show ?thesis by (simp add: sample_sleepers_def sample_threads_def is_alive_def)
qed

lemma event_correct_facts:
  assumes "\<not> ev_signaled e" and "ev_waiters e = []" and "distinct ps" and "\<forall>p \<in> set ps. alive h p"
    and "wait_each ps (h, e) = (r, (h1, e1))"
  shows "r = Inr ()" and "\<forall>p. th_state (h1 p) = (if p \<in> set ps then BLOCKED else th_state (h p))"
    and "signal_all h' e1 = (filter (alive h') ps, e1\<lparr>ev_signaled := True, ev_waiters := []\<rparr>)"
    and "case signal_one h' e1 of
           (None, e2) \<Rightarrow> filter (alive h') ps = [] \<and> ev_signaled e2
         | (Some p, e2) \<Rightarrow> filter (alive h') ps = p # filter (alive h') (ev_waiters e2) \<and> ev_signaled e2"
    and "event_wait p (h', snd (signal_all h' e1)) = (Inr False, (h', snd (signal_all h' e1)))"
    and "\<not> ev_signaled (event_reset (snd (signal_all h' e1)))"
proof -
  have run: "r = Inr ()" "e1 = e\<lparr>ev_waiters := ps\<rparr>"
    "h1 = (\<lambda>q. if q \<in> set ps then set_state BLOCKED (h q) else h q)"
    using wait_each_queues [of e ps h] assms by auto
  then show "r = Inr ()" and "\<forall>p. th_state (h1 p) = (if p \<in> set ps then BLOCKED else th_state (h p))"
    by (auto simp: set_state_def)
  show all: "signal_all h' e1 = (filter (alive h') ps, e1\<lparr>ev_signaled := True, ev_waiters := []\<rparr>)"
    using run(2) by (simp add: signal_all_def wq_wake_all_filter)
  show "case signal_one h' e1 of
           (None, e2) \<Rightarrow> filter (alive h') ps = [] \<and> ev_signaled e2
         | (Some p, e2) \<Rightarrow> filter (alive h') ps = p # filter (alive h') (ev_waiters e2) \<and> ev_signaled e2"
    using run(2) wq.take_None [of h' ps] wq.take_filter [of h' ps]
    by (auto simp: signal_one_def split: prod.splits option.splits)
  show "event_wait p (h', snd (signal_all h' e1)) = (Inr False, (h', snd (signal_all h' e1)))"
    and "\<not> ev_signaled (event_reset (snd (signal_all h' e1)))"
    unfolding all by (simp_all add: event_wait_def event_reset_def)
qed

text \<open>
  an event loses no waiter and wakes in order of arrival. Live threads that wait on a clear event
  are all blocked and queued; \<^verbatim>\<open>signal_all\<close> then hands back exactly those that are still alive in
  the store \<open>h'\<close> of that moment, in order of arrival, and leaves the event signalled with no waiters;
  \<^verbatim>\<open>signal_one\<close> hands back the first of them and keeps the others queued. A wait on a
  signalled event returns at once, until \<^verbatim>\<open>reset\<close>.
\<close>

lemma event_correct:
  assumes "\<not> ev_signaled e" and "ev_waiters e = []" and "distinct ps" and "\<forall>p \<in> set ps. alive h p"
    and "wait_each ps (h, e) = (r, (h1, e1))"
  shows "(r = Inr ()) \<and>
    (\<forall>p. th_state (h1 p) = (if p \<in> set ps then BLOCKED else th_state (h p))) \<and>
    (signal_all h' e1 = (filter (alive h') ps, e1\<lparr>ev_signaled := True, ev_waiters := []\<rparr>)) \<and>
    (case signal_one h' e1 of
           (None, e2) \<Rightarrow> filter (alive h') ps = [] \<and> ev_signaled e2
         | (Some p, e2) \<Rightarrow> filter (alive h') ps = p # filter (alive h') (ev_waiters e2) \<and> ev_signaled e2) \<and>
    (event_wait p (h', snd (signal_all h' e1)) = (Inr False, (h', snd (signal_all h' e1)))) \<and>
    (\<not> ev_signaled (event_reset (snd (signal_all h' e1))))"
  by (rule conjI, rule event_correct_facts(1) [OF assms],
      rule conjI, rule event_correct_facts(2) [OF assms],
      rule conjI, rule event_correct_facts(3) [OF assms],
      rule conjI, rule event_correct_facts(4) [OF assms],
      rule conjI, rule event_correct_facts(5) [OF assms],
      rule event_correct_facts(6) [OF assms])

lemma event_correct_witness:
  "\<exists>h1 e1. wait_each [4, 5] (sample_threads, \<lparr>ev_signaled = False, ev_waiters = []\<rparr>) = (Inr (), (h1, e1)) \<and>
     fst (signal_all h1 e1) = filter (alive h1) [4, 5]"
proof -
  let ?e = "\<lparr>ev_signaled = False, ev_waiters = []\<rparr>"
  obtain r h1 e1 where run: "wait_each [4, 5] (sample_threads, ?e) = (r, (h1, e1))" by (metis prod.exhaust)
  have hyps: "\<not> ev_signaled ?e" "ev_waiters ?e = []" "distinct [4::nat, 5]" "\<forall>p \<in> set [4, 5]. alive sample_threads p"
    by (simp_all add: sample_threads_def is_alive_def)
  from event_correct [OF hyps run, THEN conjunct1] event_correct [OF hyps run, THEN conjunct2, THEN conjunct2, THEN conjunct1] run show ?thesis by auto
qed

text \<open>
  Construction of a thread. It succeeds for a valid identifier and a page-aligned, non-empty,
  page-multiple kernel stack that does not wrap around the address space, and for nothing else. The
  thread is ready, its stack range is \<open>[bottom, bottom + size)\<close> as natural numbers, and its stack
  pointer is the top of the stack; a reset of its processor state keeps that.
\<close>

lemma ThreadContext_correct:
  shows "(\<exists>t. ThreadContext i b n = Inr t) \<longleftrightarrow>
      i \<noteq> 0 \<and> is_page_aligned b \<and> is_page_aligned n \<and> n \<noteq> 0 \<and> unat b + unat n < 2 ^ 64"
    and "ThreadContext i b n = Inr t \<Longrightarrow>
      th_state t = READY \<and> unat (th_stack_top t) = unat b + unat n \<and>
      (\<forall>a. contains_kernel_stack_address a t \<longleftrightarrow> unat b \<le> unat a \<and> unat a < unat b + unat n) \<and>
      reg_read RSP (registers (th_cpu t)) = th_stack_top t \<and>
      reg_read RSP (registers (th_cpu (reset_cpu_state t))) = th_stack_top t"
proof -
  have fits: "(b > - 1 - n) = (unat b + unat n \<ge> 2 ^ 64)" for b n :: "64 word"
  proof -
    have "unat (- 1 - n) = unat (- 1 :: 64 word) - unat n" by (rule unat_sub) (rule word_order.extremum)
    then have "unat (- 1 - n) = 2 ^ 64 - 1 - unat n" by (simp add: unsigned_minus_1_eq_mask mask_eq_exp_minus_1)
    moreover have "unat n < 2 ^ 64" by (rule order_less_le_trans [OF unsigned_less]) simp
    ultimately show ?thesis unfolding word_less_nat_alt by linarith
  qed
  have top: "unat (b + n) = unat b + unat n" if "unat b + unat n < 2 ^ 64" for b n :: "64 word"
    using that by (simp add: unat_word_ariths(1))
  show "(\<exists>t. ThreadContext i b n = Inr t) \<longleftrightarrow>
      i \<noteq> 0 \<and> is_page_aligned b \<and> is_page_aligned n \<and> n \<noteq> 0 \<and> unat b + unat n < 2 ^ 64"
    by (auto simp: ThreadContext_def checked_stack_top_def sbind_def is_valid_stack_size_def
        thread_id_is_valid_def fits)
  assume t: "ThreadContext i b n = Inr t"
  then have ok: "\<not> b > - 1 - n" and t': "t = initialize_cpu_stack_pointer
      \<lparr>th_id = i, th_state = READY, th_cpu = initial_cpu_state, th_stack_bottom = b, th_stack_top = b + n,
       th_stack_size = n, th_last_trap = None\<rparr>"
    by (auto simp: ThreadContext_def checked_stack_top_def sbind_def split: if_splits)
  from ok fits have sum: "unat (b + n) = unat b + unat n" by (intro top) simp
  show "th_state t = READY \<and> unat (th_stack_top t) = unat b + unat n \<and>
      (\<forall>a. contains_kernel_stack_address a t \<longleftrightarrow> unat b \<le> unat a \<and> unat a < unat b + unat n) \<and>
      reg_read RSP (registers (th_cpu t)) = th_stack_top t \<and>
      reg_read RSP (registers (th_cpu (reset_cpu_state t))) = th_stack_top t"
    using sum by (auto simp: t' initialize_cpu_stack_pointer_def contains_kernel_stack_address_def word_le_nat_alt
        word_less_nat_alt reset_cpu_state_def reg_read_def reg_write_def)
qed

lemma ThreadContext_correct_witness:
  "\<exists>t. ThreadContext 1 0x1000 0x2000 = Inr t \<and> unat (th_stack_top t) = 0x3000 \<and>
     reg_read RSP (registers (th_cpu (reset_cpu_state t))) = th_stack_top t"
proof -
  have "\<exists>t. ThreadContext 1 0x1000 0x2000 = Inr t"
    unfolding ThreadContext_correct(1) by (simp add: is_page_aligned_def MM_PAGE_OFFSET_MASK_def MM_PAGE_SIZE_BYTES_def)
  then obtain t where t: "ThreadContext 1 0x1000 0x2000 = Inr t" ..
  from ThreadContext_correct(2) [OF this] t show ?thesis by simp
qed

end
