(* ===== verification/Smp.thy ===== *)
theory Smp
  imports Sched
begin

text \<open>
  The multi-core scheduler of \<^verbatim>\<open>src/os/sched/smp_scheduler.cpp\<close>: one run queue per core, placement
  on the least loaded core, migration, stealing and rebalancing. The methods of a \<^verbatim>\<open>CoreRunQueue\<close>
  act on the store of threads and one queue; those of \<^verbatim>\<open>SmpScheduler\<close> pick the queue of a core.
\<close>

section \<open>The run queue of one core\<close>

record core_queue =
  cq_core :: core_id
  cq_ready :: "tptr list"
  cq_current :: "tptr option"
  cq_ticks :: scheduler_tick
  cq_preemptions :: qword

record thread_migration =
  mg_source :: core_id
  mg_target :: core_id
  mg_thread :: thread_id

type_synonym core_state = "threads \<times> core_queue"

definition CoreRunQueue :: "core_id \<Rightarrow> core_queue" where
  "CoreRunQueue c = \<lparr>cq_core = c, cq_ready = [], cq_current = None, cq_ticks = 0, cq_preemptions = 0\<rparr>"

definition cq_empty :: "core_queue \<Rightarrow> bool" where
  "cq_empty q \<longleftrightarrow> cq_current q = None \<and> cq_ready q = []"

definition contains_ready :: "tptr \<Rightarrow> core_queue \<Rightarrow> bool" where
  "contains_ready p q \<longleftrightarrow> p \<in> set (cq_ready q)"

definition cq_contains :: "tptr \<Rightarrow> core_queue \<Rightarrow> bool" where
  "cq_contains p q \<longleftrightarrow> cq_current q = Some p \<or> contains_ready p q"

definition has_work :: "core_queue \<Rightarrow> bool" where
  "has_work q \<longleftrightarrow> cq_current q \<noteq> None \<or> cq_ready q \<noteq> []"

definition ready_count :: "core_queue \<Rightarrow> nat" where
  "ready_count q = length (cq_ready q)"

definition load :: "core_queue \<Rightarrow> nat" where
  "load q = length (cq_ready q) + (if cq_current q \<noteq> None then 1 else 0)"

definition cq_current_thread :: "core_queue \<Rightarrow> exn + tptr" where
  "cq_current_thread q = (case cq_current q of None \<Rightarrow> Inl Logic_error | Some p \<Rightarrow> Inr p)"

definition bind_thread_to_core :: "tptr \<Rightarrow> core_state \<Rightarrow> core_state" where
  "bind_thread_to_core p = (\<lambda>(h, q). (h(p := (h p)\<lparr>th_cpu := set_core_id (cq_core q) (th_cpu (h p))\<rparr>), q))"

definition cq_enqueue_ready :: "tptr \<Rightarrow> core_state \<Rightarrow> core_state" where
  "cq_enqueue_ready p s =
     (case bind_thread_to_core p s of (h, q) \<Rightarrow> (put_state p READY h, q\<lparr>cq_ready := cq_ready q @ [p]\<rparr>))"

fun take_next_runnable :: "threads \<Rightarrow> tptr list \<Rightarrow> tptr option \<times> tptr list" where
  "take_next_runnable h [] = (None, [])"
| "take_next_runnable h (p # ps) = (if runnable h p then (Some p, ps) else take_next_runnable h ps)"

definition cq_schedule_next :: "core_state \<Rightarrow> tptr option \<times> core_state" where
  "cq_schedule_next = (\<lambda>(h, q).
     let (h1, q1) = (case cq_current q of
           Some p \<Rightarrow> if th_state (h p) = RUNNING
                     then (put_state p READY h, q\<lparr>cq_ready := cq_ready q @ [p]\<rparr>) else (h, q)
         | None \<Rightarrow> (h, q));
         q2 = q1\<lparr>cq_current := None\<rparr>
     in case take_next_runnable h1 (cq_ready q2) of
          (None, ready) \<Rightarrow> (None, (h1, q2\<lparr>cq_ready := ready\<rparr>))
        | (Some p, ready) \<Rightarrow>
            (case bind_thread_to_core p (h1, q2\<lparr>cq_ready := ready\<rparr>) of
               (h3, q3) \<Rightarrow> (Some p, (put_state p RUNNING h3, q3\<lparr>cq_current := Some p\<rparr>))))"

definition cq_block_current :: "core_state \<Rightarrow> tptr option \<times> core_state" where
  "cq_block_current = (\<lambda>(h, q). case cq_current q of None \<Rightarrow> (None, (h, q))
     | Some p \<Rightarrow> cq_schedule_next (put_state p BLOCKED h, q\<lparr>cq_current := None\<rparr>))"

definition cq_exit_current :: "core_state \<Rightarrow> tptr option \<times> core_state" where
  "cq_exit_current = (\<lambda>(h, q). case cq_current q of None \<Rightarrow> (None, (h, q))
     | Some p \<Rightarrow> cq_schedule_next (put_state p DEAD h, q\<lparr>cq_current := None\<rparr>))"

definition remove_ready :: "tptr \<Rightarrow> core_queue \<Rightarrow> core_queue" where
  "remove_ready p q = q\<lparr>cq_ready := remove1 p (cq_ready q)\<rparr>"

text \<open>The loop pops the back of the queue until it finds a runnable thread.\<close>

function take_migratable_back :: "threads \<Rightarrow> tptr list \<Rightarrow> tptr option \<times> tptr list" where
  "take_migratable_back h ps =
     (if ps = [] then (None, [])
      else if runnable h (last ps) then (Some (last ps), butlast ps)
      else take_migratable_back h (butlast ps))"
  by pat_completeness auto
termination
  by (relation "measure (\<lambda>(h, ps). length ps)") auto

declare take_migratable_back.simps [simp del]

definition cq_record_timer_tick :: "bool \<Rightarrow> core_queue \<Rightarrow> core_queue" where
  "cq_record_timer_tick preempted q =
     q\<lparr>cq_ticks := cq_ticks q + 1, cq_preemptions := (if preempted then cq_preemptions q + 1 else cq_preemptions q)\<rparr>"

section \<open>The scheduler\<close>

record smp =
  sm_threads :: threads
  sm_topology :: core_topology
  sm_queues :: "core_queue list"

definition SmpScheduler :: "core_topology \<Rightarrow> threads \<Rightarrow> smp" where
  "SmpScheduler topology h = \<lparr>sm_threads = h, sm_topology = topology,
     sm_queues = map (\<lambda>i. CoreRunQueue (word_of_nat i)) [0..<unat topology]\<rparr>"

definition smp_empty :: "smp \<Rightarrow> bool" where
  "smp_empty s \<longleftrightarrow> (\<forall>q \<in> set (sm_queues s). cq_empty q)"

definition smp_contains :: "tptr \<Rightarrow> smp \<Rightarrow> bool" where
  "smp_contains p s \<longleftrightarrow> (\<exists>q \<in> set (sm_queues s). cq_contains p q)"

definition total_ready_count :: "smp \<Rightarrow> nat" where
  "total_ready_count s = sum_list (map ready_count (sm_queues s))"

definition total_running_count :: "smp \<Rightarrow> nat" where
  "total_running_count s = length (filter (\<lambda>q. cq_current q \<noteq> None) (sm_queues s))"

definition current_core_of :: "tptr \<Rightarrow> smp \<Rightarrow> core_id option" where
  "current_core_of p s = map_option cq_core (find (cq_contains p) (sm_queues s))"

definition queue_index :: "core_id \<Rightarrow> smp \<Rightarrow> exn + nat" where
  "queue_index c s = (if topology_contains (sm_topology s) c then Inr (unat c) else Inl Out_of_range)"

text \<open>
  A call on the queue of a core: the exception of \<open>queue_index\<close>, or the call on the queue at that
  index, with the new queue stored back.
\<close>

definition at_index :: "nat \<Rightarrow> (core_state \<Rightarrow> 'a \<times> core_state) \<Rightarrow> smp \<Rightarrow> 'a \<times> smp" where
  "at_index i f s = (case f (sm_threads s, sm_queues s ! i) of
     (r, (h, q)) \<Rightarrow> (r, s\<lparr>sm_threads := h, sm_queues := (sm_queues s)[i := q]\<rparr>))"

definition queue_for_core :: "core_id \<Rightarrow> (core_state \<Rightarrow> 'a \<times> core_state) \<Rightarrow> (smp, 'a) op" where
  "queue_for_core c f = (\<lambda>s. case queue_index c s of Inl e \<Rightarrow> (Inl e, s)
     | Inr i \<Rightarrow> (case at_index i f s of (r, s') \<Rightarrow> (Inr r, s')))"

definition core_load :: "core_id \<Rightarrow> smp \<Rightarrow> exn + nat" where
  "core_load c s = sbind (queue_index c s) (\<lambda>i. Inr (load (sm_queues s ! i)))"

definition core_ready_count :: "core_id \<Rightarrow> smp \<Rightarrow> exn + nat" where
  "core_ready_count c s = sbind (queue_index c s) (\<lambda>i. Inr (ready_count (sm_queues s ! i)))"

definition smp_current :: "core_id \<Rightarrow> smp \<Rightarrow> exn + tptr" where
  "smp_current c s = sbind (queue_index c s) (\<lambda>i. cq_current_thread (sm_queues s ! i))"

fun least_loaded_loop :: "core_queue list \<Rightarrow> nat list \<Rightarrow> nat \<Rightarrow> nat" where
  "least_loaded_loop qs [] best = best"
| "least_loaded_loop qs (i # is) best =
     least_loaded_loop qs is (if load (qs ! i) < load (qs ! best) then i else best)"

definition least_loaded_queue :: "smp \<Rightarrow> nat" where
  "least_loaded_queue s = least_loaded_loop (sm_queues s) [1..<length (sm_queues s)] 0"

fun busiest_loop :: "core_queue list \<Rightarrow> nat list \<Rightarrow> nat \<Rightarrow> nat" where
  "busiest_loop qs [] best = best"
| "busiest_loop qs (i # is) best =
     busiest_loop qs is (if ready_count (qs ! i) > ready_count (qs ! best) then i else best)"

definition busiest_ready_queue :: "smp \<Rightarrow> nat" where
  "busiest_ready_queue s = busiest_loop (sm_queues s) [1..<length (sm_queues s)] 0"

fun find_ready_loop :: "tptr \<Rightarrow> core_queue list \<Rightarrow> nat \<Rightarrow> nat option" where
  "find_ready_loop p [] i = None"
| "find_ready_loop p (q # qs) i = (if contains_ready p q then Some i else find_ready_loop p qs (Suc i))"

definition queue_containing_ready :: "tptr \<Rightarrow> smp \<Rightarrow> nat option" where
  "queue_containing_ready p s = find_ready_loop p (sm_queues s) 0"

definition ensure_can_enqueue :: "tptr \<Rightarrow> smp \<Rightarrow> exn + unit" where
  "ensure_can_enqueue p s =
     (if \<not> alive (sm_threads s) p then Inl Logic_error
      else if th_state (sm_threads s p) = RUNNING then Inl Logic_error
      else if smp_contains p s then Inl Logic_error
      else Inr ())"

definition enqueue_call :: "tptr \<Rightarrow> core_state \<Rightarrow> unit \<times> core_state" where
  "enqueue_call p s = ((), cq_enqueue_ready p s)"

definition smp_enqueue :: "tptr \<Rightarrow> (smp, core_id) op" where
  "smp_enqueue p = (\<lambda>s. case ensure_can_enqueue p s of Inl e \<Rightarrow> (Inl e, s)
     | Inr _ \<Rightarrow> let i = least_loaded_queue s; (_, s') = at_index i (enqueue_call p) s
               in (Inr (cq_core (sm_queues s' ! i)), s'))"

definition smp_enqueue_on :: "tptr \<Rightarrow> core_id \<Rightarrow> (smp, unit) op" where
  "smp_enqueue_on p target_core = (\<lambda>s. case ensure_can_enqueue p s of Inl e \<Rightarrow> (Inl e, s)
     | Inr _ \<Rightarrow> queue_for_core target_core (enqueue_call p) s)"

definition smp_schedule_next :: "core_id \<Rightarrow> (smp, tptr option) op" where
  "smp_schedule_next c = queue_for_core c cq_schedule_next"

definition smp_yield_current :: "core_id \<Rightarrow> (smp, tptr option) op" where
  "smp_yield_current c = queue_for_core c cq_schedule_next"

definition smp_block_current :: "core_id \<Rightarrow> (smp, tptr option) op" where
  "smp_block_current c = queue_for_core c cq_block_current"

definition smp_exit_current :: "core_id \<Rightarrow> (smp, tptr option) op" where
  "smp_exit_current c = queue_for_core c cq_exit_current"

definition smp_wake :: "tptr \<Rightarrow> (smp, core_id) op" where
  "smp_wake p = (\<lambda>s. case ensure_can_enqueue p s of Inl e \<Rightarrow> (Inl e, s)
     | Inr _ \<Rightarrow> let i = least_loaded_queue s; (_, s') = at_index i (enqueue_call p) s
               in (Inr (cq_core (sm_queues s' ! i)), s'))"

definition smp_wake_on :: "tptr \<Rightarrow> core_id \<Rightarrow> (smp, unit) op" where
  "smp_wake_on p target_core = (\<lambda>s. case ensure_can_enqueue p s of Inl e \<Rightarrow> (Inl e, s)
     | Inr _ \<Rightarrow> queue_for_core target_core (enqueue_call p) s)"

definition take_back_call :: "core_state \<Rightarrow> tptr option \<times> core_state" where
  "take_back_call = (\<lambda>(h, q). case take_migratable_back h (cq_ready q) of
     (r, ready) \<Rightarrow> (r, (h, q\<lparr>cq_ready := ready\<rparr>)))"

definition remove_call :: "tptr \<Rightarrow> core_state \<Rightarrow> unit \<times> core_state" where
  "remove_call p = (\<lambda>(h, q). ((), (h, remove_ready p q)))"

definition migrate_ready :: "tptr \<Rightarrow> core_id \<Rightarrow> (smp, thread_migration) op" where
  "migrate_ready p target_core = (\<lambda>s.
     case queue_containing_ready p s of
       None \<Rightarrow> (Inl Logic_error, s)
     | Some source \<Rightarrow>
         if th_state (sm_threads s p) \<noteq> READY then (Inl Logic_error, s)
         else case queue_index target_core s of Inl e \<Rightarrow> (Inl e, s)
         | Inr target \<Rightarrow>
           let migration = \<lparr>mg_source = cq_core (sm_queues s ! source), mg_target = cq_core (sm_queues s ! target),
                            mg_thread = th_id (sm_threads s p)\<rparr>
           in if source = target then (Inr migration, s)
              else let (_, s1) = at_index source (remove_call p) s;
                       (_, s2) = at_index target (enqueue_call p) s1
                   in (Inr migration, s2))"

definition steal_one :: "core_id \<Rightarrow> core_id \<Rightarrow> (smp, thread_migration option) op" where
  "steal_one source_core target_core = (\<lambda>s.
     case queue_index source_core s of Inl e \<Rightarrow> (Inl e, s)
     | Inr source \<Rightarrow> case queue_index target_core s of Inl e \<Rightarrow> (Inl e, s)
     | Inr target \<Rightarrow>
       (case at_index source take_back_call s of
          (None, s1) \<Rightarrow> (Inr None, s1)
        | (Some p, s1) \<Rightarrow>
            let (_, s2) = at_index target (enqueue_call p) s1
            in (Inr (Some \<lparr>mg_source = cq_core (sm_queues s2 ! source), mg_target = cq_core (sm_queues s2 ! target),
                           mg_thread = th_id (sm_threads s2 p)\<rparr>), s2)))"

definition rebalance_once :: "(smp, thread_migration option) op" where
  "rebalance_once = (\<lambda>s.
     let source = sm_queues s ! busiest_ready_queue s; target = sm_queues s ! least_loaded_queue s
     in if cq_core source = cq_core target \<or> ready_count source \<le> load target + 1 then (Inr None, s)
        else steal_one (cq_core source) (cq_core target) s)"

definition smp_record_timer_tick :: "core_id \<Rightarrow> bool \<Rightarrow> (smp, unit) op" where
  "smp_record_timer_tick c preempted = queue_for_core c (\<lambda>(h, q). ((), (h, cq_record_timer_tick preempted q)))"

section \<open>One core\<close>

interpretation nr: scanned_queue runnable "\<lambda>q. q" take_next_runnable
proof -
  have "take_next_runnable h q = scan (runnable h) q" for h q by (induction q) auto
  then show "scanned_queue runnable (\<lambda>q. q) take_next_runnable"
    by unfold_locales (auto dest: scan_None scan_Some)
qed

lemma take_migratable_back_scan:
  "take_migratable_back h q = (case scan (runnable h) (rev q) of (r, q') \<Rightarrow> (r, rev q'))"
proof (induction h q rule: take_migratable_back.induct)
  case (1 h q)
  show ?case
  proof (cases q rule: rev_cases)
    case Nil
    then show ?thesis by (simp add: take_migratable_back.simps)
  next
    case (snoc q' x)
    with 1 show ?thesis by (simp add: take_migratable_back.simps [of h "q' @ [x]"])
  qed
qed

interpretation mb: scanned_queue runnable rev take_migratable_back
  by unfold_locales (auto simp: take_migratable_back_scan dest: scan_None scan_Some split: prod.splits)

definition members :: "core_queue \<Rightarrow> tptr list" where
  "members q = cq_ready q @ (case cq_current q of None \<Rightarrow> [] | Some p \<Rightarrow> [p])"

abbreviation bound_core :: "threads \<Rightarrow> tptr \<Rightarrow> core_id" where
  "bound_core h p \<equiv> core (th_cpu (h p))"

text \<open>
  A run queue is well formed if it holds no thread twice, its queued threads are ready, its current
  thread runs, and all are bound to the core.
\<close>

definition core_ok :: "threads \<Rightarrow> core_queue \<Rightarrow> bool" where
  "core_ok h q \<longleftrightarrow> distinct (members q) \<and>
     (\<forall>p \<in> set (cq_ready q). runnable h p) \<and>
     (\<forall>p. cq_current q = Some p \<longrightarrow> th_state (h p) = RUNNING) \<and>
     (\<forall>p \<in> set (members q). bound_core h p = cq_core q)"

text \<open>
  What a call on one queue may do: keep the queue well formed, admit no thread but those of \<open>new\<close>,
  and touch no thread but its own and those.
\<close>

definition local_step :: "tptr set \<Rightarrow> core_state \<Rightarrow> core_state \<Rightarrow> bool" where
  "local_step new = (\<lambda>(h, q) (h', q'). cq_core q' = cq_core q \<and> core_ok h' q' \<and>
     set (members q') \<subseteq> set (members q) \<union> new \<and> (\<forall>p. p \<notin> set (members q) \<union> new \<longrightarrow> h' p = h p))"

lemma core_ok_enqueue:
  assumes "core_ok h q" and "p \<notin> set (members q)"
  shows "local_step {p} (h, q) (cq_enqueue_ready p (h, q))"
  using assms
  by (auto simp: local_step_def cq_enqueue_ready_def bind_thread_to_core_def core_ok_def members_def
      is_runnable_def set_core_id_def put_state_def set_state_def split: option.splits)

lemma core_ok_subset:
  assumes "core_ok h q" and "cq_core q' = cq_core q" and "cq_current q' = cq_current q"
    and "set (cq_ready q') \<subseteq> set (cq_ready q)" and "distinct (cq_ready q')"
  shows "local_step {} (h, q) (h, q')"
  using assms by (auto simp: local_step_def core_ok_def members_def split: option.splits)

lemma core_ok_remove:
  assumes "core_ok h q"
  shows "local_step {} (h, q) (snd (remove_call p (h, q)))"
  using assms
  by (auto simp: remove_call_def remove_ready_def core_ok_def members_def distinct_remove1
      intro!: core_ok_subset dest: notin_set_remove1)

lemma core_ok_take_back:
  assumes "core_ok h q"
  shows "local_step {} (h, q) (snd (take_back_call (h, q)))"
proof (cases "take_migratable_back h (cq_ready q)")
  case (Pair r ready)
  have "distinct (rev (cq_ready q))" using assms by (simp add: core_ok_def members_def)
  with Pair assms show ?thesis
    using mb.take_subset [OF Pair] mb.take_distinct(1) [OF _ Pair]
    by (auto simp: take_back_call_def intro!: core_ok_subset)
qed

lemma core_ok_drop_current:
  assumes "core_ok h q" and "cq_current q = Some p"
  shows "core_ok (put_state p st h) (q\<lparr>cq_current := None\<rparr>)"
  using assms by (auto simp: core_ok_def members_def is_runnable_def put_state_def set_state_def)

text \<open>The choice of the next thread: the members of the queue are rotated, as on one core.\<close>

lemma core_schedule_next:
  assumes "core_ok h q" and "cq_schedule_next (h, q) = (r, (h', q'))"
  shows "local_step {} (h, q) (h', q')" and "members q' = rotate1 (members q)" and "r = cq_current q'"
proof -
  define h1 where "h1 = (case cq_current q of None \<Rightarrow> h | Some p \<Rightarrow> put_state p READY h)"
  have run: "\<forall>p \<in> set (members q). runnable h1 p"
    and bound: "\<forall>p \<in> set (members q). bound_core h1 p = cq_core q"
    and frame: "\<forall>p. p \<notin> set (members q) \<longrightarrow> h1 p = h p"
    using assms(1) by (auto simp: h1_def members_def core_ok_def is_runnable_def put_state_def set_state_def
        split: option.splits)
  have dist: "distinct (members q)" using assms(1) by (simp add: core_ok_def)
  obtain c ready where take: "take_next_runnable h1 (members q) = (c, ready)" by fastforce
  have res: "(r, (h', q')) = (case c of
      None \<Rightarrow> (None, (h1, q\<lparr>cq_ready := ready, cq_current := None\<rparr>))
    | Some p \<Rightarrow> (Some p, (put_state p RUNNING (h1(p := (h1 p)\<lparr>th_cpu := set_core_id (cq_core q) (th_cpu (h1 p))\<rparr>)),
                         q\<lparr>cq_ready := ready, cq_current := Some p\<rparr>)))"
    using assms take
    by (auto simp: cq_schedule_next_def h1_def members_def core_ok_def Let_def bind_thread_to_core_def
        split: option.splits)
  have split: "members q = (case c of None \<Rightarrow> [] | Some p \<Rightarrow> p # ready)"
    using nr.take_all_eligible [OF run take] .
  show "members q' = rotate1 (members q)" and "r = cq_current q'" and "local_step {} (h, q) (h', q')"
  proof (atomize (full), cases c)
    case None
    with nr.take_None take have "ready = []" by blast
    with None res split frame show "members q' = rotate1 (members q) \<and> r = cq_current q' \<and> local_step {} (h, q) (h', q')"
      by (simp add: local_step_def core_ok_def members_def)
  next
    case (Some p)
    with res have "q' = q\<lparr>cq_ready := ready, cq_current := Some p\<rparr>" "r = Some p"
      "h' = put_state p RUNNING (h1(p := (h1 p)\<lparr>th_cpu := set_core_id (cq_core q) (th_cpu (h1 p))\<rparr>))" by simp_all
    moreover from this have "members q' = ready @ [p]" by (simp add: members_def)
    moreover have "members q = p # ready" using Some split by simp
    ultimately show "members q' = rotate1 (members q) \<and> r = cq_current q' \<and> local_step {} (h, q) (h', q')"
      using run bound frame dist
      by (auto simp: local_step_def core_ok_def is_runnable_def put_state_def set_state_def set_core_id_def)
  qed
qed

lemma core_leave_current:
  assumes "core_ok h q" and "f = cq_block_current \<or> f = cq_exit_current"
  shows "local_step {} (h, q) (snd (f (h, q)))"
proof (cases "cq_current q")
  case None
  with assms show ?thesis by (auto simp: cq_block_current_def cq_exit_current_def local_step_def)
next
  case (Some p)
  let ?q = "q\<lparr>cq_current := None\<rparr>"
  from assms(2) Some obtain st where f: "f (h, q) = cq_schedule_next (put_state p st h, ?q)"
    by (auto simp: cq_block_current_def cq_exit_current_def)
  obtain r h' q' where run: "cq_schedule_next (put_state p st h, ?q) = (r, (h', q'))" by (metis prod.exhaust)
  have "local_step {} (put_state p st h, ?q) (h', q')"
    using core_schedule_next(1) [OF core_ok_drop_current [OF assms(1) Some] run] .
  with f run Some show ?thesis by (auto simp: local_step_def members_def put_state_def)
qed

section \<open>All cores\<close>

text \<open>The queues are those of the topology's cores, each is well formed, and no two share a thread.\<close>

definition smp_ok :: "smp \<Rightarrow> bool" where
  "smp_ok s \<longleftrightarrow> length (sm_queues s) = unat (sm_topology s) \<and> 0 < length (sm_queues s) \<and>
     (\<forall>i < length (sm_queues s). cq_core (sm_queues s ! i) = word_of_nat i \<and> core_ok (sm_threads s) (sm_queues s ! i) \<and>
        (\<forall>j < length (sm_queues s). j \<noteq> i \<longrightarrow> set (members (sm_queues s ! i)) \<inter> set (members (sm_queues s ! j)) = {}))"

lemma smp_okD:
  assumes "smp_ok s"
  shows "length (sm_queues s) = unat (sm_topology s)" and "0 < length (sm_queues s)"
    and "i < length (sm_queues s) \<Longrightarrow> cq_core (sm_queues s ! i) = word_of_nat i"
    and "i < length (sm_queues s) \<Longrightarrow> core_ok (sm_threads s) (sm_queues s ! i)"
    and "i < length (sm_queues s) \<Longrightarrow> j < length (sm_queues s) \<Longrightarrow> i \<noteq> j \<Longrightarrow>
           p \<in> set (members (sm_queues s ! i)) \<Longrightarrow> p \<notin> set (members (sm_queues s ! j))"
  using assms unfolding smp_ok_def by blast+

lemma core_index:
  assumes "smp_ok s" and "i < length (sm_queues s)"
  shows "unat (word_of_nat i :: core_id) = i" and "unat (cq_core (sm_queues s ! i)) = i"
proof -
  have "i < unat (sm_topology s)" using assms smp_okD(1) by metis
  also have "\<dots> < 2 ^ 32" by (rule order_less_le_trans [OF unsigned_less]) simp
  finally show i: "unat (word_of_nat i :: core_id) = i" by (simp add: unat_of_nat)
  then show "unat (cq_core (sm_queues s ! i)) = i" using smp_okD(3) [OF assms] by simp
qed

lemma core_ok_cong:
  assumes "core_ok h q" and "\<And>p. p \<in> set (members q) \<Longrightarrow> h' p = h p"
  shows "core_ok h' q"
  using assms by (auto simp: core_ok_def members_def split: option.splits)

lemma at_index_ok:
  assumes ok: "smp_ok s" and i: "i < length (sm_queues s)"
    and local: "local_step new (sm_threads s, sm_queues s ! i) (snd (f (sm_threads s, sm_queues s ! i)))"
    and new: "\<And>j p. j < length (sm_queues s) \<Longrightarrow> j \<noteq> i \<Longrightarrow> p \<in> new \<Longrightarrow> p \<notin> set (members (sm_queues s ! j))"
  shows "smp_ok (snd (at_index i f s))"
proof -
  obtain r h q where f: "f (sm_threads s, sm_queues s ! i) = (r, (h, q))" by (metis prod.exhaust)
  let ?qs = "sm_queues s" and ?qs' = "(sm_queues s)[i := q]"
  have l: "cq_core q = cq_core (?qs ! i)" "core_ok h q" "set (members q) \<subseteq> set (members (?qs ! i)) \<union> new"
    "\<And>p. p \<notin> set (members (?qs ! i)) \<union> new \<Longrightarrow> h p = sm_threads s p"
    using local f by (auto simp: local_step_def)
  have others: "p \<notin> set (members (?qs ! i)) \<union> new" if "j < length ?qs" "j \<noteq> i" "p \<in> set (members (?qs ! j))" for j p
    using that new [of j p] smp_okD(5) [OF ok, of j i p] i by blast
  have "core_ok h (?qs ! j)" if "j < length ?qs" "j \<noteq> i" for j
    using smp_okD(4) [OF ok that(1)] by (rule core_ok_cong) (use others [OF that] l(4) in blast)
  then have "core_ok h (?qs' ! j)" if "j < length ?qs" for j
    using that l(2) by (cases "j = i") auto
  moreover have "cq_core (?qs' ! j) = word_of_nat j" if "j < length ?qs" for j
    using that l(1) smp_okD(3) [OF ok] i by (cases "j = i") auto
  moreover have "set (members (?qs' ! j)) \<inter> set (members (?qs' ! k)) = {}"
    if jk: "j < length ?qs" "k < length ?qs" "k \<noteq> j" for j k
  proof -
    have sep: "set (members q) \<inter> set (members (?qs ! j)) = {}" if "j < length ?qs" "j \<noteq> i" for j
      using l(3) others [OF that] by blast
    have rest: "set (members (?qs ! j)) \<inter> set (members (?qs ! k)) = {}"
      using smp_okD(5) [OF ok jk(1,2)] jk(3) by blast
    consider "j = i" "k \<noteq> i" | "j \<noteq> i" "k = i" | "j \<noteq> i" "k \<noteq> i" using jk(3) by blast
    then show ?thesis
    proof cases
      case 1
      with sep [OF jk(2)] i show ?thesis by simp
    next
      case 2
      with sep [OF jk(1)] i show ?thesis by (simp add: Int_commute)
    next
      case 3
      with rest show ?thesis by simp
    qed
  qed
  ultimately show ?thesis
    using f smp_okD(1,2) [OF ok] by (simp add: at_index_def smp_ok_def)
qed

lemma at_index_simps:
  "sm_topology (snd (at_index i f s)) = sm_topology s"
  "length (sm_queues (snd (at_index i f s))) = length (sm_queues s)"
  by (auto simp: at_index_def split: prod.splits)

lemma queue_index_ok:
  assumes "smp_ok s" and "queue_index c s = Inr i"
  shows "i < length (sm_queues s)" and "i = unat c" and "cq_core (sm_queues s ! i) = c"
proof -
  show i: "i = unat c" and len: "i < length (sm_queues s)"
    using assms smp_okD(1) [OF assms(1)]
    by (auto simp: queue_index_def topology_contains_def word_less_nat_alt split: if_splits)
  show "cq_core (sm_queues s ! i) = c" using smp_okD(3) [OF assms(1) len] i by simp
qed

lemma queue_for_core_ok:
  assumes "smp_ok s"
    and "\<And>h q. core_ok h q \<Longrightarrow> local_step {} (h, q) (snd (f (h, q)))"
  shows "smp_ok (snd (queue_for_core c f s))"
proof (cases "queue_index c s")
  case (Inl e)
  with assms show ?thesis by (simp add: queue_for_core_def)
next
  case (Inr i)
  note i = queue_index_ok [OF assms(1) Inr]
  have "smp_ok (snd (at_index i f s))"
    by (rule at_index_ok [OF assms(1) i(1), where new = "{}"])
       (use assms(2) smp_okD(4) [OF assms(1) i(1)] in auto)
  with Inr show ?thesis by (auto simp: queue_for_core_def split: prod.splits)
qed

lemma not_contained:
  assumes "\<not> smp_contains p s" and "j < length (sm_queues s)"
  shows "p \<notin> set (members (sm_queues s ! j))"
  using assms nth_mem [OF assms(2)]
  by (auto simp: smp_contains_def cq_contains_def contains_ready_def members_def split: option.splits)

lemma enqueue_at_ok:
  assumes "smp_ok s" and "i < length (sm_queues s)" and "\<And>j. j < length (sm_queues s) \<Longrightarrow> p \<notin> set (members (sm_queues s ! j))"
  shows "smp_ok (snd (at_index i (enqueue_call p) s))"
  by (rule at_index_ok [where new = "{p}"])
     (use assms smp_okD(4) [OF assms(1,2)] in \<open>auto simp: enqueue_call_def intro!: core_ok_enqueue\<close>)

text \<open>The two selection loops: the first index with the least load, with the most queued threads.\<close>

lemma least_loaded_loop_spec:
  assumes "best < n" and "\<forall>i \<in> set is. i < n"
  shows "least_loaded_loop qs is best < n \<and> least_loaded_loop qs is best \<in> insert best (set is) \<and>
    (\<forall>i \<in> insert best (set is). load (qs ! least_loaded_loop qs is best) \<le> load (qs ! i))"
  using assms
proof (induction "is" arbitrary: best)
  case (Cons i "is")
  let ?b = "if load (qs ! i) < load (qs ! best) then i else best"
  have "?b < n" using Cons.prems by auto
  with Cons have IH: "least_loaded_loop qs is ?b < n \<and> least_loaded_loop qs is ?b \<in> insert ?b (set is) \<and>
    (\<forall>k \<in> insert ?b (set is). load (qs ! least_loaded_loop qs is ?b) \<le> load (qs ! k))" by simp
  then have "load (qs ! least_loaded_loop qs is ?b) \<le> load (qs ! ?b)" by blast
  then have "load (qs ! least_loaded_loop qs is ?b) \<le> load (qs ! i)" "load (qs ! least_loaded_loop qs is ?b) \<le> load (qs ! best)"
    by (auto split: if_splits)
  with IH show ?case by (auto split: if_splits)
qed simp

lemma busiest_loop_spec:
  assumes "best < n" and "\<forall>i \<in> set is. i < n"
  shows "busiest_loop qs is best < n \<and>
    (\<forall>i \<in> insert best (set is). ready_count (qs ! i) \<le> ready_count (qs ! busiest_loop qs is best))"
  using assms
proof (induction "is" arbitrary: best)
  case (Cons i "is")
  let ?b = "if ready_count (qs ! i) > ready_count (qs ! best) then i else best"
  have "?b < n" using Cons.prems by auto
  with Cons have IH: "busiest_loop qs is ?b < n \<and>
    (\<forall>k \<in> insert ?b (set is). ready_count (qs ! k) \<le> ready_count (qs ! busiest_loop qs is ?b))" by simp
  then have "ready_count (qs ! ?b) \<le> ready_count (qs ! busiest_loop qs is ?b)" by blast
  then have "ready_count (qs ! i) \<le> ready_count (qs ! busiest_loop qs is ?b)"
    "ready_count (qs ! best) \<le> ready_count (qs ! busiest_loop qs is ?b)"
    by (auto split: if_splits)
  with IH show ?case by auto
qed simp

lemma selection_spec:
  assumes "0 < length (sm_queues s)"
  shows "least_loaded_queue s < length (sm_queues s)" and "busiest_ready_queue s < length (sm_queues s)"
    and "i < length (sm_queues s) \<Longrightarrow> load (sm_queues s ! least_loaded_queue s) \<le> load (sm_queues s ! i)"
    and "i < length (sm_queues s) \<Longrightarrow> ready_count (sm_queues s ! i) \<le> ready_count (sm_queues s ! busiest_ready_queue s)"
proof -
  let ?is = "[1..<length (sm_queues s)]"
  have all: "\<forall>i \<in> set ?is. i < length (sm_queues s)" by simp
  have mem: "i \<in> insert 0 (set ?is)" if "i < length (sm_queues s)" for i using that by auto
  note least = least_loaded_loop_spec [OF assms all, of "sm_queues s", folded least_loaded_queue_def]
  note busiest = busiest_loop_spec [OF assms all, of "sm_queues s", folded busiest_ready_queue_def]
  show "least_loaded_queue s < length (sm_queues s)" "busiest_ready_queue s < length (sm_queues s)"
    using least busiest by blast+
  show "load (sm_queues s ! least_loaded_queue s) \<le> load (sm_queues s ! i)" if "i < length (sm_queues s)"
    using least mem [OF that] by blast
  show "ready_count (sm_queues s ! i) \<le> ready_count (sm_queues s ! busiest_ready_queue s)" if "i < length (sm_queues s)"
    using busiest mem [OF that] by blast
qed

lemma find_ready_loop_spec:
  "find_ready_loop p qs n = Some k \<Longrightarrow> \<exists>i < length qs. k = n + i \<and> contains_ready p (qs ! i)"
proof (induction qs arbitrary: n)
  case (Cons q qs)
  show ?case
  proof (cases "contains_ready p q")
    case True
    with Cons.prems show ?thesis by (intro exI [of _ 0]) auto
  next
    case False
    with Cons.prems have "find_ready_loop p qs (Suc n) = Some k" by simp
    from Cons.IH [OF this] obtain i where "i < length qs" "k = Suc n + i" "contains_ready p (qs ! i)" by blast
    then show ?thesis by (intro exI [of _ "Suc i"]) auto
  qed
qed simp

lemma smp_enqueue_ok:
  assumes "smp_ok s"
  shows "smp_ok (snd (smp_enqueue p s))" and "smp_ok (snd (smp_enqueue_on p c s))"
    and "smp_wake p s = smp_enqueue p s" and "smp_wake_on p c s = smp_enqueue_on p c s"
proof -
  have fresh: "p \<notin> set (members (sm_queues s ! j))" if "ensure_can_enqueue p s = Inr u" "j < length (sm_queues s)" for u j
    using that by (intro not_contained) (auto simp: ensure_can_enqueue_def split: if_splits)
  show "smp_ok (snd (smp_enqueue p s))"
  proof (cases "ensure_can_enqueue p s")
    case (Inr u)
    have "smp_ok (snd (at_index (least_loaded_queue s) (enqueue_call p) s))"
      by (rule enqueue_at_ok [OF assms selection_spec(1) [OF smp_okD(2) [OF assms]] fresh [OF Inr]])
    with Inr show ?thesis by (auto simp: smp_enqueue_def Let_def split: prod.splits)
  qed (use assms in \<open>simp add: smp_enqueue_def\<close>)
  show "smp_ok (snd (smp_enqueue_on p c s))"
  proof (cases "ensure_can_enqueue p s")
    case (Inr u)
    show ?thesis
    proof (cases "queue_index c s")
      case (Inr i)
      have "smp_ok (snd (at_index i (enqueue_call p) s))"
        by (rule enqueue_at_ok [OF assms queue_index_ok(1) [OF assms Inr] fresh [OF \<open>ensure_can_enqueue p s = Inr u\<close>]])
      with Inr \<open>ensure_can_enqueue p s = Inr u\<close> show ?thesis by (auto simp: smp_enqueue_on_def queue_for_core_def split: prod.splits)
    qed (use assms Inr in \<open>simp add: smp_enqueue_on_def queue_for_core_def\<close>)
  qed (use assms in \<open>simp add: smp_enqueue_on_def\<close>)
qed (simp_all add: smp_wake_def smp_enqueue_def smp_wake_on_def smp_enqueue_on_def)

lemma at_index_gone:
  assumes ok: "smp_ok s" and i: "i < length (sm_queues s)" and p: "p \<in> set (members (sm_queues s ! i))"
    and f: "f (sm_threads s, sm_queues s ! i) = (r, (h, q))" and gone: "p \<notin> set (members q)"
    and j: "j < length (sm_queues s)"
  shows "p \<notin> set (members (sm_queues (snd (at_index i f s)) ! j))"
  using f gone i j smp_okD(5) [OF ok i j _ p] by (cases "j = i") (auto simp: at_index_def)

lemma take_back_call_gone:
  assumes "core_ok h q" and "take_back_call (h, q) = (Some p, (h', q'))"
  shows "p \<in> set (cq_ready q)" and "p \<notin> set (members q')" and "cq_ready q = cq_ready q' @ [p]"
    and "cq_current q' = cq_current q" and "h' = h"
proof -
  have take: "take_migratable_back h (cq_ready q) = (Some p, cq_ready q')"
    and cur: "cq_current q' = cq_current q" and h: "h' = h"
    using assms(2) by (auto simp: take_back_call_def split: prod.splits)
  then show "p \<in> set (cq_ready q)" using mb.take_member by fastforce
  have "rev (cq_ready q) = p # rev (cq_ready q')"
    using mb.take_all_eligible [OF _ take] assms(1) by (simp add: core_ok_def)
  then show ready: "cq_ready q = cq_ready q' @ [p]" by (simp add: rev_swap)
  show "p \<notin> set (members q')"
    using assms(1) ready cur by (auto simp: core_ok_def members_def split: option.splits)
  show "cq_current q' = cq_current q" and "h' = h" by fact+
qed

lemma migrate_ready_ok:
  assumes ok: "smp_ok s"
  shows "smp_ok (snd (migrate_ready p c s))"
proof (cases "queue_containing_ready p s")
  case None
  with ok show ?thesis by (simp add: migrate_ready_def)
next
  case (Some i)
  then have i: "i < length (sm_queues s)" and ready: "p \<in> set (cq_ready (sm_queues s ! i))"
    by (auto simp: queue_containing_ready_def contains_ready_def dest: find_ready_loop_spec)
  show ?thesis
  proof (cases "th_state (sm_threads s p) = READY \<and> (\<exists>t. queue_index c s = Inr t \<and> t \<noteq> i)")
    case False
    with Some ok show ?thesis by (auto simp: migrate_ready_def Let_def split: sum.splits)
  next
    case True
    then obtain t where t: "queue_index c s = Inr t" "t \<noteq> i" by blast
    let ?s1 = "snd (at_index i (remove_call p) s)"
    have core: "core_ok (sm_threads s) (sm_queues s ! i)" using smp_okD(4) [OF ok i] .
    have ok1: "smp_ok ?s1"
      by (rule at_index_ok [OF ok i, where new = "{}"]) (simp_all add: core_ok_remove core)
    have "p \<notin> set (members (remove_ready p (sm_queues s ! i)))"
      using core ready by (auto simp: remove_ready_def members_def core_ok_def split: option.splits)
    then have gone: "p \<notin> set (members (sm_queues ?s1 ! j))" if "j < length (sm_queues ?s1)" for j
      using that ready
      by (intro at_index_gone [OF ok i _ _ _, where r = "()" and h = "sm_threads s" and q = "remove_ready p (sm_queues s ! i)"])
         (auto simp: members_def remove_call_def at_index_simps)
    have "smp_ok (snd (at_index t (enqueue_call p) ?s1))"
      using queue_index_ok(1) [OF ok t(1)] gone by (intro enqueue_at_ok [OF ok1]) (simp_all add: at_index_simps)
    with Some True t show ?thesis by (auto simp: migrate_ready_def Let_def split: prod.splits)
  qed
qed

lemma steal_one_ok:
  assumes ok: "smp_ok s"
  shows "smp_ok (snd (steal_one c d s))"
proof (cases "(\<exists>i. queue_index c s = Inr i) \<and> (\<exists>j. queue_index d s = Inr j)")
  case False
  with ok show ?thesis by (cases "queue_index c s"; cases "queue_index d s") (auto simp: steal_one_def)
next
  case True
  then obtain i j where ij: "queue_index c s = Inr i" "queue_index d s = Inr j" by blast
  note i = queue_index_ok(1) [OF ok ij(1)] and j = queue_index_ok(1) [OF ok ij(2)]
  obtain r s1 where take: "at_index i take_back_call s = (r, s1)" by fastforce
  have core: "core_ok (sm_threads s) (sm_queues s ! i)" using smp_okD(4) [OF ok i] .
  have "smp_ok (snd (at_index i take_back_call s))"
    by (rule at_index_ok [OF ok i, where new = "{}"]) (simp_all add: core_ok_take_back core)
  with take have ok1: "smp_ok s1" by simp
  show ?thesis
  proof (cases r)
    case None
    with ij take ok1 show ?thesis by (simp add: steal_one_def)
  next
    case (Some p)
    with take obtain h q where call: "take_back_call (sm_threads s, sm_queues s ! i) = (Some p, (h, q))"
      by (auto simp: at_index_def split: prod.splits)
    have "p \<notin> set (members (sm_queues s1 ! k))" if "k < length (sm_queues s1)" for k
      using at_index_gone [where f = take_back_call, OF ok i _ call take_back_call_gone(2) [OF core call], of k] that
        take_back_call_gone(1) [OF core call] take at_index_simps(2) [of i take_back_call s]
      by (simp add: members_def)
    then have "smp_ok (snd (at_index j (enqueue_call p) s1))"
      using j take at_index_simps(2) [of i take_back_call s] by (intro enqueue_at_ok [OF ok1]) simp_all
    with ij take Some show ?thesis by (auto simp: steal_one_def Let_def split: prod.splits)
  qed
qed

lemma rebalance_once_ok: "smp_ok s \<Longrightarrow> smp_ok (snd (rebalance_once s))"
  by (simp add: rebalance_once_def Let_def steal_one_ok)

lemma record_timer_tick_ok: "smp_ok s \<Longrightarrow> smp_ok (snd (smp_record_timer_tick c b s))"
  unfolding smp_record_timer_tick_def
  by (erule queue_for_core_ok) (auto simp: local_step_def core_ok_def members_def cq_record_timer_tick_def)

lemma schedule_next_local: "core_ok h q \<Longrightarrow> local_step {} (h, q) (snd (cq_schedule_next (h, q)))"
  by (metis core_schedule_next(1) prod.collapse)

section \<open>Reachable states\<close>

inductive smp_step :: "smp \<Rightarrow> smp \<Rightarrow> bool" where
  enqueue: "smp_step s (snd (smp_enqueue p s))"
| enqueue_on: "smp_step s (snd (smp_enqueue_on p c s))"
| wake: "smp_step s (snd (smp_wake p s))"
| wake_on: "smp_step s (snd (smp_wake_on p c s))"
| schedule: "smp_step s (snd (smp_schedule_next c s))"
| yield_turn: "smp_step s (snd (smp_yield_current c s))"
| block: "smp_step s (snd (smp_block_current c s))"
| exit_thread: "smp_step s (snd (smp_exit_current c s))"
| migrate: "smp_step s (snd (migrate_ready p c s))"
| steal: "smp_step s (snd (steal_one c d s))"
| rebalance: "smp_step s (snd (rebalance_once s))"
| tick: "smp_step s (snd (smp_record_timer_tick c b s))"

inductive smp_reachable :: "smp \<Rightarrow> bool" where
  init: "CoreTopology n = Inr t \<Longrightarrow> smp_reachable (SmpScheduler t h)"
| step: "smp_reachable s \<Longrightarrow> smp_step s s' \<Longrightarrow> smp_reachable s'"

lemma SmpScheduler_ok: "CoreTopology n = Inr t \<Longrightarrow> smp_ok (SmpScheduler t h)"
  by (auto simp: smp_ok_def SmpScheduler_def CoreRunQueue_def core_ok_def members_def CoreTopology_def
      unat_gt_0 split: if_splits)

lemma smp_step_ok: "smp_step s s' \<Longrightarrow> smp_ok s \<Longrightarrow> smp_ok s'"
  by (induction rule: smp_step.induct)
     (auto simp: smp_enqueue_ok(3,4) smp_schedule_next_def smp_yield_current_def smp_block_current_def smp_exit_current_def
       intro: smp_enqueue_ok(1,2) queue_for_core_ok schedule_next_local core_leave_current migrate_ready_ok
         steal_one_ok rebalance_once_ok record_timer_tick_ok)

lemma smp_reachable_ok: "smp_reachable s \<Longrightarrow> smp_ok s"
  by (induction rule: smp_reachable.induct) (auto intro: SmpScheduler_ok smp_step_ok)

section \<open>Rebalancing\<close>

lemma load_members: "load q = length (members q)"
  by (auto simp: load_def members_def split: option.split)

definition imbalance :: "smp \<Rightarrow> nat" where
  "imbalance s = sum_list (map (\<lambda>q. load q * load q) (sm_queues s))"

definition thread_count :: "smp \<Rightarrow> nat" where
  "thread_count s = sum_list (map load (sm_queues s))"

lemma sum_list_update2:
  fixes f :: "'a \<Rightarrow> nat"
  assumes "i < length xs" and "j < length xs" and "i \<noteq> j"
  shows "sum_list (map f (xs[i := x, j := y])) + f (xs ! i) + f (xs ! j)
       = sum_list (map f xs) + f x + f y"
proof -
  have one: "sum_list (map f (xs[i := x])) + f (xs ! i) = sum_list (map f xs) + f x"
    if "i < length xs" for xs i x
    using that by (induction xs arbitrary: i) (auto split: nat.split simp: nth_Cons')
  from one [of j "xs[i := x]" y] one [of i xs x] assms show ?thesis by simp
qed

text \<open>Stealing between two different cores moves the last queued thread and nothing else.\<close>

lemma steal_one_moves:
  assumes ok: "smp_ok s" and ij: "i < length (sm_queues s)" "j < length (sm_queues s)" "i \<noteq> j"
    and ready: "cq_ready (sm_queues s ! i) \<noteq> []"
  defines "p \<equiv> last (cq_ready (sm_queues s ! i))"
  shows "\<exists>s' q q'. steal_one (cq_core (sm_queues s ! i)) (cq_core (sm_queues s ! j)) s =
      (Inr (Some \<lparr>mg_source = word_of_nat i, mg_target = word_of_nat j, mg_thread = th_id (sm_threads s p)\<rparr>), s') \<and>
    sm_queues s' = (sm_queues s)[i := q, j := q'] \<and>
    cq_ready q = butlast (cq_ready (sm_queues s ! i)) \<and> cq_current q = cq_current (sm_queues s ! i) \<and>
    cq_ready q' = cq_ready (sm_queues s ! j) @ [p] \<and> cq_current q' = cq_current (sm_queues s ! j)"
proof -
  have core: "core_ok (sm_threads s) (sm_queues s ! i)" using smp_okD(4) [OF ok ij(1)] .
  have index: "queue_index (cq_core (sm_queues s ! k)) s = Inr k" if k: "k < length (sm_queues s)" for k
    using k core_index [OF ok k] smp_okD(1,3) [OF ok]
    by (simp add: queue_index_def topology_contains_def word_less_nat_alt)
  let ?q = "(sm_queues s ! i)\<lparr>cq_ready := butlast (cq_ready (sm_queues s ! i))\<rparr>"
  have "runnable (sm_threads s) p" using core ready by (simp add: core_ok_def p_def)
  then have take: "at_index i take_back_call s = (Some p, s\<lparr>sm_queues := (sm_queues s)[i := ?q]\<rparr>)"
    using ready by (simp add: at_index_def take_back_call_def take_migratable_back.simps p_def)
  have cores: "cq_core (sm_queues s ! i) = word_of_nat i" "cq_core (sm_queues s ! j) = word_of_nat j"
    using smp_okD(3) [OF ok] ij by auto
  let ?s1 = "s\<lparr>sm_queues := (sm_queues s)[i := ?q]\<rparr>"
  let ?q' = "(sm_queues s ! j)\<lparr>cq_ready := cq_ready (sm_queues s ! j) @ [p]\<rparr>"
  obtain s2 where s2: "at_index j (enqueue_call p) ?s1 = ((), s2)" by (metis prod.collapse unit.exhaust)
  then have qs: "sm_queues s2 = (sm_queues s)[i := ?q, j := ?q']" and id: "th_id (sm_threads s2 p) = th_id (sm_threads s p)"
    using ij by (auto simp: at_index_def enqueue_call_def cq_enqueue_ready_def bind_thread_to_core_def
        put_state_def set_state_def)
  have "steal_one (cq_core (sm_queues s ! i)) (cq_core (sm_queues s ! j)) s =
      (Inr (Some \<lparr>mg_source = word_of_nat i, mg_target = word_of_nat j, mg_thread = th_id (sm_threads s p)\<rparr>), s2)"
    unfolding steal_one_def index [OF ij(1)] index [OF ij(2)] using ij cores qs id by (simp add: take s2)
  with qs show ?thesis by (intro exI [of _ s2] exI [of _ ?q] exI [of _ ?q']) simp
qed

lemma rebalance_once_spec:
  assumes ok: "smp_ok s"
  shows "case rebalance_once s of
      (Inl e, s') \<Rightarrow> False
    | (Inr None, s') \<Rightarrow> s' = s \<and> (\<forall>i < length (sm_queues s). \<forall>j < length (sm_queues s).
        ready_count (sm_queues s ! i) \<le> load (sm_queues s ! j) + 1)
    | (Inr (Some m), s') \<Rightarrow> imbalance s' < imbalance s \<and> thread_count s' = thread_count s"
proof -
  let ?i = "busiest_ready_queue s" and ?j = "least_loaded_queue s"
  let ?qi = "sm_queues s ! ?i" and ?qj = "sm_queues s ! ?j"
  note sel = selection_spec [OF smp_okD(2) [OF ok]]
  have le: "ready_count q \<le> load q" for q by (simp add: ready_count_def load_def)
  show ?thesis
  proof (cases "cq_core ?qi = cq_core ?qj \<or> ready_count ?qi \<le> load ?qj + 1")
    case True
    have "ready_count ?qi \<le> load ?qj + 1"
    proof (cases "ready_count ?qi \<le> load ?qj + 1")
      case False
      with True have "?i = ?j" using core_index(2) [OF ok] sel(1,2) by metis
      with le [of ?qi] show ?thesis by simp
    qed
    then have "ready_count (sm_queues s ! i) \<le> load (sm_queues s ! j) + 1"
      if "i < length (sm_queues s)" "j < length (sm_queues s)" for i j
      using sel(3) [OF that(2)] sel(4) [OF that(1)] by linarith
    with True show ?thesis by (simp add: rebalance_once_def)
  next
    case False
    then have ne: "?i \<noteq> ?j" and big: "ready_count ?qi > load ?qj + 1" by auto
    then have ready: "cq_ready ?qi \<noteq> []" by (auto simp: ready_count_def)
    obtain s' q q' m where run: "steal_one (cq_core ?qi) (cq_core ?qj) s = (Inr (Some m), s')"
      and qs: "sm_queues s' = (sm_queues s)[?i := q, ?j := q']"
      and q: "cq_ready q = butlast (cq_ready ?qi)" "cq_current q = cq_current ?qi"
        "cq_ready q' = cq_ready ?qj @ [last (cq_ready ?qi)]" "cq_current q' = cq_current ?qj"
      using steal_one_moves [OF ok sel(2,1) ne ready] by blast
    have loads: "load ?qi = load q + 1" "load q' = load ?qj + 1"
      using q ready by (auto simp: load_def)
    have gap: "load ?qj + 1 \<le> load q" using big loads le [of ?qi] by linarith
    have "thread_count s' = thread_count s"
      using sum_list_update2 [OF sel(2,1) ne, of load q q'] loads by (simp add: thread_count_def qs)
    moreover have "imbalance s' < imbalance s"
      using sum_list_update2 [OF sel(2,1) ne, of "\<lambda>q. load q * load q" q q'] loads gap
      by (simp add: imbalance_def qs)
    ultimately show ?thesis using False run by (simp add: rebalance_once_def)
  qed
qed

text \<open>The state after \<open>k\<close> calls of \<^verbatim>\<open>rebalance_once\<close>.\<close>

definition rebalanced :: "nat \<Rightarrow> smp \<Rightarrow> smp" where
  "rebalanced k s = ((\<lambda>s. snd (rebalance_once s)) ^^ k) s"

lemma rebalanced_Suc: "rebalanced (Suc k) s = rebalanced k (snd (rebalance_once s))"
  by (simp add: rebalanced_def funpow_Suc_right del: funpow.simps)

lemma rebalancing_ends:
  "smp_ok s \<Longrightarrow> \<exists>k \<le> imbalance s. fst (rebalance_once (rebalanced k s)) = Inr None \<and> smp_ok (rebalanced k s) \<and>
     thread_count (rebalanced k s) = thread_count s"
proof (induction "imbalance s" arbitrary: s rule: less_induct)
  case less
  obtain r s' where run: "rebalance_once s = (r, s')" by fastforce
  note spec = rebalance_once_spec [OF less.prems, unfolded run]
  show ?case
  proof (cases "r = Inr None")
    case True
    with run less.prems show ?thesis by (intro exI [of _ 0]) (simp add: rebalanced_def)
  next
    case False
    with spec have dec: "imbalance s' < imbalance s" "thread_count s' = thread_count s"
      by (auto split: sum.splits option.splits)
    have "smp_ok s'" using rebalance_once_ok [OF less.prems] run by simp
    from less.hyps [OF dec(1) this] obtain k where "k \<le> imbalance s'"
      "fst (rebalance_once (rebalanced k s')) = Inr None" "smp_ok (rebalanced k s')"
      "thread_count (rebalanced k s') = thread_count s'" by blast
    with dec run show ?thesis by (intro exI [of _ "Suc k"]) (auto simp: rebalanced_Suc)
  qed
qed

lemma members_contains: "cq_contains p q \<longleftrightarrow> p \<in> set (members q)"
  by (auto simp: cq_contains_def contains_ready_def members_def split: option.splits)

lemma contains_once:
  assumes "smp_ok s" and "q \<in> set (sm_queues s)" "q' \<in> set (sm_queues s)" "cq_contains p q" "cq_contains p q'"
  shows "q = q'"
proof -
  from assms obtain i j where "i < length (sm_queues s)" "j < length (sm_queues s)" "q = sm_queues s ! i" "q' = sm_queues s ! j"
    by (metis in_set_conv_nth)
  with assms smp_okD(5) [OF assms(1), of i j p] show ?thesis unfolding members_contains by blast
qed

lemma current_core_one:
  assumes "smp_reachable s" and "q \<in> set (sm_queues s)" and "cq_contains p q"
  shows "current_core_of p s = Some (cq_core q)"
proof -
  from assms obtain q' where find: "find (cq_contains p) (sm_queues s) = Some q'"
    by (cases "find (cq_contains p) (sm_queues s)") (auto simp: find_None_iff)
  then have "q' \<in> set (sm_queues s)" "cq_contains p q'" by (auto simp: find_Some_iff)
  with contains_once [OF smp_reachable_ok [OF assms(1)] assms(2)] assms(3) have "q = q'" by blast
  with find show ?thesis by (simp add: current_core_of_def)
qed

section \<open>Properties\<close>

lemma smp_invariant_facts:
  assumes "smp_reachable s"
  shows "\<forall>i < length (sm_queues s). distinct (members (sm_queues s ! i)) \<and> cq_core (sm_queues s ! i) = word_of_nat i"
    and "\<forall>i < length (sm_queues s). \<forall>j < length (sm_queues s). \<forall>p.
           cq_contains p (sm_queues s ! i) \<and> cq_contains p (sm_queues s ! j) \<longrightarrow> i = j"
    and "\<forall>q \<in> set (sm_queues s). (\<forall>p \<in> set (cq_ready q). th_state (sm_threads s p) = READY \<and> bound_core (sm_threads s) p = cq_core q) \<and>
           (\<forall>p. cq_current q = Some p \<longrightarrow> th_state (sm_threads s p) = RUNNING \<and> bound_core (sm_threads s) p = cq_core q)"
    and "\<forall>q \<in> set (sm_queues s). \<forall>p. cq_contains p q \<longrightarrow> current_core_of p s = Some (cq_core q)"
proof -
  have ok: "smp_ok s" using assms by (rule smp_reachable_ok)
  show "\<forall>i < length (sm_queues s). distinct (members (sm_queues s ! i)) \<and> cq_core (sm_queues s ! i) = word_of_nat i"
    using smp_okD(3,4) [OF ok] by (simp add: core_ok_def)
  show one: "\<forall>i < length (sm_queues s). \<forall>j < length (sm_queues s). \<forall>p.
           cq_contains p (sm_queues s ! i) \<and> cq_contains p (sm_queues s ! j) \<longrightarrow> i = j"
    using smp_okD(5) [OF ok] unfolding members_contains by blast
  show states: "\<forall>q \<in> set (sm_queues s). (\<forall>p \<in> set (cq_ready q). th_state (sm_threads s p) = READY \<and> bound_core (sm_threads s) p = cq_core q) \<and>
           (\<forall>p. cq_current q = Some p \<longrightarrow> th_state (sm_threads s p) = RUNNING \<and> bound_core (sm_threads s) p = cq_core q)"
    using smp_okD(4) [OF ok] by (force simp: in_set_conv_nth core_ok_def members_def is_runnable_def)
  show "\<forall>q \<in> set (sm_queues s). \<forall>p. cq_contains p q \<longrightarrow> current_core_of p s = Some (cq_core q)"
    using current_core_one [OF assms] by blast
qed

text \<open>
  C23: the invariant of the multi-core scheduler, in every state its operations can reach, whatever
  they throw. A thread is on at most one core and at most once there, queued or running; queued
  threads are ready, current threads run, and every thread is bound to the core that holds it; in
  particular a thread never runs on two cores. \<^verbatim>\<open>current_core_of\<close> then names the one core that
  holds the thread.
\<close>

theorem smp_invariant:
  assumes "smp_reachable s"
  shows "(\<forall>i < length (sm_queues s). distinct (members (sm_queues s ! i)) \<and> cq_core (sm_queues s ! i) = word_of_nat i) \<and>
    (\<forall>i < length (sm_queues s). \<forall>j < length (sm_queues s). \<forall>p.
           cq_contains p (sm_queues s ! i) \<and> cq_contains p (sm_queues s ! j) \<longrightarrow> i = j) \<and>
    (\<forall>q \<in> set (sm_queues s). (\<forall>p \<in> set (cq_ready q). th_state (sm_threads s p) = READY \<and> bound_core (sm_threads s) p = cq_core q) \<and>
           (\<forall>p. cq_current q = Some p \<longrightarrow> th_state (sm_threads s p) = RUNNING \<and> bound_core (sm_threads s) p = cq_core q)) \<and>
    (\<forall>q \<in> set (sm_queues s). \<forall>p. cq_contains p q \<longrightarrow> current_core_of p s = Some (cq_core q))"
  by (rule conjI, rule smp_invariant_facts(1) [OF assms],
      rule conjI, rule smp_invariant_facts(2) [OF assms],
      rule conjI, rule smp_invariant_facts(3) [OF assms],
      rule smp_invariant_facts(4) [OF assms])

definition sample_smp :: smp where
  "sample_smp = snd (smp_enqueue_on 2 0 (snd (smp_enqueue_on 1 0 (SmpScheduler 2 sample_threads))))"

lemma sample_smp_reachable: "smp_reachable sample_smp"
  unfolding sample_smp_def
  by (rule smp_reachable.step [OF smp_reachable.step [OF smp_reachable.init [of 2] smp_step.enqueue_on] smp_step.enqueue_on])
     (simp add: CoreTopology_def)

lemma sample_smp_init:
  "SmpScheduler 2 h = \<lparr>sm_threads = h, sm_topology = 2, sm_queues = [CoreRunQueue 0, CoreRunQueue 1]\<rparr>"
proof -
  have "[0..<unat (2 :: core_topology)] = [0, 1]" by (simp add: upt_conv_Cons)
  then show ?thesis by (simp add: SmpScheduler_def)
qed

lemmas sample_smp_eval = sample_smp_def sample_smp_init smp_enqueue_on_def ensure_can_enqueue_def queue_for_core_def
  queue_index_def topology_contains_def at_index_def enqueue_call_def cq_enqueue_ready_def bind_thread_to_core_def
  CoreRunQueue_def smp_contains_def cq_contains_def contains_ready_def sample_threads_def is_alive_def
  put_state_def set_state_def

lemma sample_smp_queues:
  "length (sm_queues sample_smp) = 2" "cq_ready (sm_queues sample_smp ! 0) = [1, 2]"
  by (simp_all add: sample_smp_eval)

lemma sample_smp_enqueue: "fst (smp_enqueue 3 sample_smp) = Inr 1" "core_load 1 sample_smp = Inr 0"
  by (simp_all add: sample_smp_eval smp_enqueue_def least_loaded_queue_def load_def core_load_def sbind_def Let_def)

theorem smp_invariant_witness:
  "smp_reachable sample_smp \<and> current_core_of 2 sample_smp = Some (cq_core (sm_queues sample_smp ! 0)) \<and>
   cq_contains 2 (sm_queues sample_smp ! 0)"
proof -
  have mem: "sm_queues sample_smp ! 0 \<in> set (sm_queues sample_smp)" by (rule nth_mem) (simp add: sample_smp_queues(1))
  have c: "cq_contains 2 (sm_queues sample_smp ! 0)"
    by (simp add: cq_contains_def contains_ready_def sample_smp_queues(2))
  with smp_invariant [OF sample_smp_reachable, THEN conjunct2, THEN conjunct2, THEN conjunct2] mem sample_smp_reachable show ?thesis by blast
qed

lemma smp_balance_facts:
  assumes "smp_reachable s"
  shows "smp_enqueue p s = (Inr c, s') \<Longrightarrow> core_load c s = Inr n \<Longrightarrow>
           (\<forall>j < length (sm_queues s). n \<le> load (sm_queues s ! j)) \<and> current_core_of p s' = Some c"
    and "case rebalance_once s of (Inl e, t) \<Rightarrow> False
         | (Inr None, t) \<Rightarrow> t = s \<and> (\<forall>i < length (sm_queues s). \<forall>j < length (sm_queues s).
             ready_count (sm_queues s ! i) \<le> load (sm_queues s ! j) + 1)
         | (Inr (Some m), t) \<Rightarrow> imbalance t < imbalance s \<and> thread_count t = thread_count s"
    and "\<exists>k \<le> imbalance s. fst (rebalance_once (rebalanced k s)) = Inr None \<and>
           thread_count (rebalanced k s) = thread_count s"
proof -
  have ok: "smp_ok s" using assms by (rule smp_reachable_ok)
  show "case rebalance_once s of (Inl e, t) \<Rightarrow> False
         | (Inr None, t) \<Rightarrow> t = s \<and> (\<forall>i < length (sm_queues s). \<forall>j < length (sm_queues s).
             ready_count (sm_queues s ! i) \<le> load (sm_queues s ! j) + 1)
         | (Inr (Some m), t) \<Rightarrow> imbalance t < imbalance s \<and> thread_count t = thread_count s"
    using ok by (rule rebalance_once_spec)
  show "\<exists>k \<le> imbalance s. fst (rebalance_once (rebalanced k s)) = Inr None \<and>
           thread_count (rebalanced k s) = thread_count s"
    using rebalancing_ends [OF ok] by blast
  assume enq: "smp_enqueue p s = (Inr c, s')" and n: "core_load c s = Inr n"
  let ?i = "least_loaded_queue s"
  note sel = selection_spec [OF smp_okD(2) [OF ok]]
  from enq have fresh: "\<not> smp_contains p s"
    by (auto simp: smp_enqueue_def ensure_can_enqueue_def split: sum.splits if_splits)
  from enq have s': "s' = snd (at_index ?i (enqueue_call p) s)" and c: "c = cq_core (sm_queues s' ! ?i)"
    by (auto simp: smp_enqueue_def Let_def split: sum.splits prod.splits)
  have queue: "sm_queues s' = (sm_queues s)[?i := (sm_queues s ! ?i)\<lparr>cq_ready := cq_ready (sm_queues s ! ?i) @ [p]\<rparr>]"
    by (simp add: s' at_index_def enqueue_call_def cq_enqueue_ready_def bind_thread_to_core_def)
  then have core: "c = cq_core (sm_queues s ! ?i)" using c sel(1) by simp
  have "n = load (sm_queues s ! ?i)"
  proof (cases "queue_index c s")
    case (Inl e)
    with n show ?thesis by (simp add: core_load_def sbind_def)
  next
    case (Inr k)
    have "cq_core (sm_queues s ! k) = c" "k < length (sm_queues s)" "k = unat c" using queue_index_ok [OF ok Inr] by auto
    moreover have "?i = unat c" using core core_index(2) [OF ok sel(1)] by simp
    ultimately show ?thesis using n Inr by (simp add: core_load_def sbind_def)
  qed
  moreover have "current_core_of p s' = Some c"
  proof -
    have "smp_reachable s'" using assms smp_step.enqueue [of s p] enq by (metis smp_reachable.step snd_conv)
    moreover have "sm_queues s' ! ?i \<in> set (sm_queues s')" using sel(1) queue by (intro nth_mem) simp
    moreover have "cq_contains p (sm_queues s' ! ?i)"
      using queue sel(1) by (simp add: cq_contains_def contains_ready_def)
    ultimately show ?thesis using current_core_one c by blast
  qed
  ultimately show "(\<forall>j < length (sm_queues s). n \<le> load (sm_queues s ! j)) \<and> current_core_of p s' = Some c"
    using sel(3) by blast
qed

text \<open>
  C24: placement and balance. A thread that is enqueued (or woken) with no core named goes to a core
  with the least load. \<^verbatim>\<open>rebalance_once\<close> never throws: it either finds every core's ready queue at
  most one longer than any core's load and changes nothing, or moves one thread, which keeps the
  number of scheduled threads and strictly lowers the sum of the squares of the loads. Hence
  repeated calls come to an end, in a balanced state that has lost no thread.
\<close>

theorem smp_balance:
  assumes "smp_reachable s"
  shows "(smp_enqueue p s = (Inr c, s') \<longrightarrow> core_load c s = Inr n \<longrightarrow>
           (\<forall>j < length (sm_queues s). n \<le> load (sm_queues s ! j)) \<and> current_core_of p s' = Some c) \<and>
    (case rebalance_once s of (Inl e, t) \<Rightarrow> False
         | (Inr None, t) \<Rightarrow> t = s \<and> (\<forall>i < length (sm_queues s). \<forall>j < length (sm_queues s).
             ready_count (sm_queues s ! i) \<le> load (sm_queues s ! j) + 1)
         | (Inr (Some m), t) \<Rightarrow> imbalance t < imbalance s \<and> thread_count t = thread_count s) \<and>
    (\<exists>k \<le> imbalance s. fst (rebalance_once (rebalanced k s)) = Inr None \<and>
           thread_count (rebalanced k s) = thread_count s)"
  by (rule conjI, rule impI, rule impI, (rule smp_balance_facts(1) [OF assms]; assumption),
      rule conjI, rule smp_balance_facts(2) [OF assms],
      rule smp_balance_facts(3) [OF assms])

theorem smp_balance_witness:
  "(\<exists>k \<le> imbalance sample_smp. fst (rebalance_once (rebalanced k sample_smp)) = Inr None \<and>
     thread_count (rebalanced k sample_smp) = thread_count sample_smp) \<and>
   current_core_of 3 (snd (smp_enqueue 3 sample_smp)) = Some 1"
proof
  have "smp_enqueue 3 sample_smp = (Inr 1, snd (smp_enqueue 3 sample_smp))"
    by (metis prod.collapse sample_smp_enqueue(1))
  then show "current_core_of 3 (snd (smp_enqueue 3 sample_smp)) = Some 1"
    using smp_balance [OF sample_smp_reachable, THEN conjunct1, THEN mp, THEN mp, OF _ sample_smp_enqueue(2)] by blast
qed (rule smp_balance [OF sample_smp_reachable, THEN conjunct2, THEN conjunct2])

end
