(* ===== verification/Futex.thy ===== *)
theory Futex
  imports Sched AddrSpace
begin

text \<open>
  The futex table of \<^verbatim>\<open>src/os/proc/futex.cpp\<close>: a vector of buckets, each a key and a wait queue, in
  which an empty bucket is erased after a wake. The contract it implements is a map from keys to
  FIFO queues of threads.
\<close>

section \<open>Keys\<close>

record futex_key =
  fk_process :: qword
  fk_address :: address64

definition FUTEX_WORD_ALIGNMENT_BYTES :: address64 where
  "FUTEX_WORD_ALIGNMENT_BYTES = 4"

definition process_id_is_valid :: "qword \<Rightarrow> bool" where
  "process_id_is_valid i \<longleftrightarrow> i \<noteq> 0"

definition FutexKey :: "qword \<Rightarrow> address64 \<Rightarrow> exn + futex_key" where
  "FutexKey process_id address =
     (if \<not> process_id_is_valid process_id then Inl Invalid_argument
      else if \<not> is_user_address address then Inl Out_of_range
      else if address mod FUTEX_WORD_ALIGNMENT_BYTES \<noteq> 0 then Inl Invalid_argument
      else Inr \<lparr>fk_process = process_id, fk_address = address\<rparr>)"

section \<open>The table\<close>

record futex_bucket =
  fb_key :: futex_key
  fb_queue :: wait_queue

type_synonym futex_table = "futex_bucket list"

fun find_bucket :: "futex_key \<Rightarrow> futex_table \<Rightarrow> futex_bucket option" where
  "find_bucket k [] = None"
| "find_bucket k (b # bs) = (if fb_key b = k then Some b else find_bucket k bs)"

definition futex_count :: "futex_table \<Rightarrow> nat" where
  "futex_count t = length t"

definition waiter_count :: "futex_key \<Rightarrow> futex_table \<Rightarrow> nat" where
  "waiter_count k t = (case find_bucket k t of None \<Rightarrow> 0 | Some b \<Rightarrow> length (fb_queue b))"

definition futex_contains :: "futex_key \<Rightarrow> tptr \<Rightarrow> futex_table \<Rightarrow> bool" where
  "futex_contains k p t = (case find_bucket k t of None \<Rightarrow> False | Some b \<Rightarrow> p \<in> set (fb_queue b))"

definition bucket_for :: "futex_key \<Rightarrow> futex_table \<Rightarrow> futex_table" where
  "bucket_for k t = (case find_bucket k t of Some b \<Rightarrow> t | None \<Rightarrow> t @ [\<lparr>fb_key = k, fb_queue = []\<rparr>])"

text \<open>A write through the pointer to the first bucket with the key.\<close>

fun set_bucket_queue :: "futex_key \<Rightarrow> wait_queue \<Rightarrow> futex_table \<Rightarrow> futex_table" where
  "set_bucket_queue k q [] = []"
| "set_bucket_queue k q (b # bs) =
     (if fb_key b = k then b\<lparr>fb_queue := q\<rparr> # bs else b # set_bucket_queue k q bs)"

fun erase_empty_bucket :: "futex_key \<Rightarrow> futex_table \<Rightarrow> futex_table" where
  "erase_empty_bucket k [] = []"
| "erase_empty_bucket k (b # bs) =
     (if fb_key b = k \<and> fb_queue b = [] then bs else b # erase_empty_bucket k bs)"

definition futex_wait :: "futex_key \<Rightarrow> tptr \<Rightarrow> (threads \<times> futex_table, unit) op" where
  "futex_wait k p = (\<lambda>(h, t).
     let t1 = bucket_for k t in
     case find_bucket k t1 of
       None \<Rightarrow> (Inr (), (h, t1))
     | Some b \<Rightarrow> (case wq_wait p (h, fb_queue b) of
         (r, (h', q)) \<Rightarrow> (r, (h', set_bucket_queue k q t1))))"

definition futex_wake_one :: "futex_key \<Rightarrow> threads \<Rightarrow> futex_table \<Rightarrow> tptr option \<times> futex_table" where
  "futex_wake_one k h t = (case find_bucket k t of None \<Rightarrow> (None, t)
     | Some b \<Rightarrow> (case wq_wake_one h (fb_queue b) of
         (r, q) \<Rightarrow> (r, erase_empty_bucket k (set_bucket_queue k q t))))"

definition futex_wake_all :: "futex_key \<Rightarrow> threads \<Rightarrow> futex_table \<Rightarrow> tptr list \<times> futex_table" where
  "futex_wake_all k h t = (case find_bucket k t of None \<Rightarrow> ([], t)
     | Some b \<Rightarrow> (case wq_wake_all h (fb_queue b) of
         (r, q) \<Rightarrow> (r, erase_empty_bucket k (set_bucket_queue k q t))))"

section \<open>The abstract table\<close>

text \<open>A table stands for the map from keys to queues in which an absent bucket is an empty queue.\<close>

definition futex_abs :: "futex_table \<Rightarrow> futex_key \<Rightarrow> wait_queue" where
  "futex_abs t k = (case find_bucket k t of None \<Rightarrow> [] | Some b \<Rightarrow> fb_queue b)"

definition futex_inv :: "futex_table \<Rightarrow> bool" where
  "futex_inv t \<longleftrightarrow> distinct (map fb_key t) \<and> (\<forall>b \<in> set t. distinct (fb_queue b))"

lemma find_bucket_Some: "find_bucket k t = Some b \<Longrightarrow> b \<in> set t \<and> fb_key b = k"
  by (induction t) (auto split: if_splits)

lemma find_bucket_None: "find_bucket k t = None \<longleftrightarrow> k \<notin> fb_key ` set t"
  by (induction t) auto

lemma find_bucket_append: "find_bucket k (t @ u) = (case find_bucket k t of None \<Rightarrow> find_bucket k u | r \<Rightarrow> r)"
  by (induction t) auto

lemma bucket_for_spec:
  assumes "futex_inv t"
  shows "futex_inv (bucket_for k t)" and "futex_abs (bucket_for k t) = futex_abs t"
    and "\<exists>b. find_bucket k (bucket_for k t) = Some b \<and> fb_queue b = futex_abs t k"
proof -
  show "futex_inv (bucket_for k t)"
    using assms find_bucket_None [of k t] by (auto simp: bucket_for_def futex_inv_def split: option.splits)
  show "futex_abs (bucket_for k t) = futex_abs t"
    by (auto simp: bucket_for_def futex_abs_def fun_eq_iff find_bucket_append split: option.splits)
  show "\<exists>b. find_bucket k (bucket_for k t) = Some b \<and> fb_queue b = futex_abs t k"
    by (auto simp: bucket_for_def futex_abs_def find_bucket_append split: option.splits)
qed

lemma set_bucket_queue_keys [simp]: "map fb_key (set_bucket_queue k q t) = map fb_key t"
  by (induction t) auto

lemma set_bucket_queue_length [simp]: "length (set_bucket_queue k q t) = length t"
  by (induction t) auto

lemma find_set_bucket_queue:
  "find_bucket j (set_bucket_queue k q t) =
     (if j = k then map_option (\<lambda>b. b\<lparr>fb_queue := q\<rparr>) (find_bucket k t) else find_bucket j t)"
  by (induction t) auto

lemma set_bucket_queue_member: "b \<in> set (set_bucket_queue k q t) \<Longrightarrow> b \<in> set t \<or> fb_queue b = q"
  by (induction t) (auto split: if_splits)

lemma set_bucket_queue_spec:
  assumes "futex_inv t" and "find_bucket k t = Some b" and "distinct q"
  shows "futex_inv (set_bucket_queue k q t)" and "futex_abs (set_bucket_queue k q t) = (futex_abs t)(k := q)"
  using assms
  by (auto simp: futex_inv_def futex_abs_def find_set_bucket_queue fun_eq_iff dest: set_bucket_queue_member)

lemma erase_empty_bucket_set: "set (erase_empty_bucket k t) \<subseteq> set t"
  by (induction t) auto

lemma erase_empty_bucket_keys: "distinct (map fb_key t) \<Longrightarrow> distinct (map fb_key (erase_empty_bucket k t))"
  by (induction t) (use erase_empty_bucket_set in \<open>force split: if_splits\<close>)+

lemma find_erase_empty_bucket:
  "distinct (map fb_key t) \<Longrightarrow> find_bucket j (erase_empty_bucket k t) =
     (case find_bucket j t of None \<Rightarrow> None | Some b \<Rightarrow> if j = k \<and> fb_queue b = [] then None else Some b)"
proof (induction t)
  case (Cons b t)
  then have "fb_key b = j \<Longrightarrow> find_bucket j t = None" for j using find_bucket_None [of j t] by auto
  with Cons show ?case by (auto split: option.splits)
qed simp

lemma erase_empty_bucket_spec:
  assumes "futex_inv t"
  shows "futex_inv (erase_empty_bucket k t)" and "futex_abs (erase_empty_bucket k t) = futex_abs t"
    and "k \<in> fb_key ` set (erase_empty_bucket k t) \<longleftrightarrow> futex_abs t k \<noteq> []"
proof -
  show "futex_inv (erase_empty_bucket k t)"
    using assms erase_empty_bucket_set [of k t] by (auto simp: futex_inv_def erase_empty_bucket_keys)
  have d: "distinct (map fb_key t)" using assms by (simp add: futex_inv_def)
  show "futex_abs (erase_empty_bucket k t) = futex_abs t"
    by (auto simp: fun_eq_iff futex_abs_def find_erase_empty_bucket [OF d] split: option.splits)
  have "k \<in> fb_key ` set (erase_empty_bucket k t) \<longleftrightarrow> find_bucket k (erase_empty_bucket k t) \<noteq> None"
    by (simp add: find_bucket_None)
  then show "k \<in> fb_key ` set (erase_empty_bucket k t) \<longleftrightarrow> futex_abs t k \<noteq> []"
    by (auto simp: futex_abs_def find_erase_empty_bucket [OF d] split: option.splits)
qed

section \<open>Properties\<close>

lemma futex_refines_facts:
  assumes "futex_inv t"
  shows "case futex_wait k p (h, t) of (r, (h', t')) \<Rightarrow> futex_inv t' \<and>
      (if alive h p \<and> p \<notin> set (futex_abs t k)
       then r = Inr () \<and> h' = put_state p BLOCKED h \<and> futex_abs t' = (futex_abs t)(k := futex_abs t k @ [p])
       else r = Inl Logic_error \<and> h' = h \<and> futex_abs t' = futex_abs t \<and>
         futex_count t' = (if k \<in> fb_key ` set t then futex_count t else futex_count t + 1))"
    and "case futex_wake_one k h t of (r, t') \<Rightarrow> futex_inv t' \<and> (\<forall>j. j \<noteq> k \<longrightarrow> futex_abs t' j = futex_abs t j) \<and>
      wq_wake_one h (futex_abs t k) = (r, futex_abs t' k) \<and> (k \<in> fb_key ` set t' \<longleftrightarrow> futex_abs t' k \<noteq> [])"
    and "case futex_wake_all k h t of (r, t') \<Rightarrow> futex_inv t' \<and> futex_abs t' = (futex_abs t)(k := []) \<and>
      r = filter (alive h) (futex_abs t k) \<and> k \<notin> fb_key ` set t'"
    and "waiter_count k t = length (futex_abs t k)" and "futex_contains k p t \<longleftrightarrow> p \<in> set (futex_abs t k)"
proof -
  have dist: "distinct (futex_abs t k)" for k
    using assms by (auto simp: futex_inv_def futex_abs_def dest: find_bucket_Some split: option.splits)
  show "case futex_wait k p (h, t) of (r, (h', t')) \<Rightarrow> futex_inv t' \<and>
      (if alive h p \<and> p \<notin> set (futex_abs t k)
       then r = Inr () \<and> h' = put_state p BLOCKED h \<and> futex_abs t' = (futex_abs t)(k := futex_abs t k @ [p])
       else r = Inl Logic_error \<and> h' = h \<and> futex_abs t' = futex_abs t \<and>
         futex_count t' = (if k \<in> fb_key ` set t then futex_count t else futex_count t + 1))"
  proof -
    let ?t = "bucket_for k t"
    note bf = bucket_for_spec [OF assms, of k]
    obtain b where b: "find_bucket k ?t = Some b" "fb_queue b = futex_abs t k" using bf(3) by blast
    have upd: "futex_inv (set_bucket_queue k q ?t)" "futex_abs (set_bucket_queue k q ?t) = (futex_abs t)(k := q)"
      if "distinct q" for q
      using set_bucket_queue_spec [OF bf(1) b(1) that] bf(2) by auto
    have "futex_count (set_bucket_queue k q ?t) = (if k \<in> fb_key ` set t then futex_count t else futex_count t + 1)" for q
      using find_bucket_None [of k t]
      by (auto simp: futex_count_def bucket_for_def split: option.splits)
    then show ?thesis using dist [of k] upd [of "futex_abs t k"] upd [of "futex_abs t k @ [p]"] b
      by (auto simp: futex_wait_def wq_wait_run Let_def)
  qed
  show "case futex_wake_one k h t of (r, t') \<Rightarrow> futex_inv t' \<and> (\<forall>j. j \<noteq> k \<longrightarrow> futex_abs t' j = futex_abs t j) \<and>
      wq_wake_one h (futex_abs t k) = (r, futex_abs t' k) \<and> (k \<in> fb_key ` set t' \<longleftrightarrow> futex_abs t' k \<noteq> [])"
  proof (cases "find_bucket k t")
    case None
    then have "k \<notin> fb_key ` set t" by (simp add: find_bucket_None)
    with None assms show ?thesis by (simp add: futex_wake_one_def futex_abs_def)
  next
    case (Some b)
    obtain r q where wake: "wq_wake_one h (fb_queue b) = (r, q)" by fastforce
    have "distinct q" using wq.take_distinct(1) [OF _ wake] dist [of k] Some by (simp add: futex_abs_def)
    note upd = set_bucket_queue_spec [OF assms Some this]
    show ?thesis using erase_empty_bucket_spec [OF upd(1), of k] upd(2) wake Some
      by (simp add: futex_wake_one_def) (simp add: futex_abs_def)
  qed
  show "case futex_wake_all k h t of (r, t') \<Rightarrow> futex_inv t' \<and> futex_abs t' = (futex_abs t)(k := []) \<and>
      r = filter (alive h) (futex_abs t k) \<and> k \<notin> fb_key ` set t'"
  proof (cases "find_bucket k t")
    case None
    with assms show ?thesis by (auto simp: futex_wake_all_def futex_abs_def find_bucket_None [symmetric] fun_eq_iff)
  next
    case (Some b)
    note upd = set_bucket_queue_spec [OF assms Some distinct.simps(1) [THEN iffD2, OF TrueI]]
    show ?thesis using erase_empty_bucket_spec [OF upd(1), of k] upd(2) Some
      by (simp add: futex_wake_all_def wq_wake_all_filter) (simp add: futex_abs_def)
  qed
  show "waiter_count k t = length (futex_abs t k)" and "futex_contains k p t \<longleftrightarrow> p \<in> set (futex_abs t k)"
    by (auto simp: waiter_count_def futex_contains_def futex_abs_def split: option.splits)
qed

text \<open>
  C25: the futex table refines a map from keys to FIFO queues of threads. \<^verbatim>\<open>wait\<close> appends a live thread
  that does not wait on the key yet, and blocks it; otherwise it throws and every queue is as before
  (only an empty bucket for the key may be left behind, which \<^verbatim>\<open>futex_count\<close> then counts). \<^verbatim>\<open>wake_one\<close>
  removes the first live waiter and the dead ones in front of it, \<^verbatim>\<open>wake_all\<close> returns the live waiters
  in order and empties the queue; both leave the other keys alone, and afterwards the key
  has a bucket exactly if it has waiters. The invariant, no key and no waiter twice, is kept.
\<close>

theorem futex_refines:
  assumes "futex_inv t"
  shows "(case futex_wait k p (h, t) of (r, (h', t')) \<Rightarrow> futex_inv t' \<and>
      (if alive h p \<and> p \<notin> set (futex_abs t k)
       then r = Inr () \<and> h' = put_state p BLOCKED h \<and> futex_abs t' = (futex_abs t)(k := futex_abs t k @ [p])
       else r = Inl Logic_error \<and> h' = h \<and> futex_abs t' = futex_abs t \<and>
         futex_count t' = (if k \<in> fb_key ` set t then futex_count t else futex_count t + 1))) \<and>
    (case futex_wake_one k h t of (r, t') \<Rightarrow> futex_inv t' \<and> (\<forall>j. j \<noteq> k \<longrightarrow> futex_abs t' j = futex_abs t j) \<and>
      wq_wake_one h (futex_abs t k) = (r, futex_abs t' k) \<and> (k \<in> fb_key ` set t' \<longleftrightarrow> futex_abs t' k \<noteq> [])) \<and>
    (case futex_wake_all k h t of (r, t') \<Rightarrow> futex_inv t' \<and> futex_abs t' = (futex_abs t)(k := []) \<and>
      r = filter (alive h) (futex_abs t k) \<and> k \<notin> fb_key ` set t') \<and>
    (waiter_count k t = length (futex_abs t k)) \<and>
    (futex_contains k p t \<longleftrightarrow> p \<in> set (futex_abs t k))"
  by (rule conjI, rule futex_refines_facts(1) [OF assms],
      rule conjI, rule futex_refines_facts(2) [OF assms],
      rule conjI, rule futex_refines_facts(3) [OF assms],
      rule conjI, rule futex_refines_facts(4) [OF assms],
      rule futex_refines_facts(5) [OF assms])

definition sample_key :: futex_key where
  "sample_key = \<lparr>fk_process = 1, fk_address = 0x400000\<rparr>"

theorem futex_refines_witness:
  "case futex_wait sample_key 7 (sample_threads, []) of (r, (h', t')) \<Rightarrow>
     r = Inr () \<and> futex_inv t' \<and> futex_abs t' sample_key = [7]"
proof -
  have "futex_inv []" by (simp add: futex_inv_def)
  from futex_refines [OF this, where k = sample_key and p = 7 and h = sample_threads, THEN conjunct1] show ?thesis
    by (auto simp: futex_abs_def [of "[]"] sample_threads_def is_alive_def split: prod.splits)
qed

text \<open>
  Construction of a futex key succeeds exactly for a valid process identifier and a user address
  that is a multiple of four, and the exception tells an address outside user space from the other
  two mistakes.
\<close>

lemma FutexKey_correct:
  "FutexKey i a = (if i \<noteq> 0 \<and> is_user_address a \<and> 4 dvd unat a then Inr \<lparr>fk_process = i, fk_address = a\<rparr>
     else Inl (if i \<noteq> 0 \<and> \<not> is_user_address a then Out_of_range else Invalid_argument))"
proof -
  have "a mod FUTEX_WORD_ALIGNMENT_BYTES = 0 \<longleftrightarrow> 4 dvd unat a"
    by (simp add: FUTEX_WORD_ALIGNMENT_BYTES_def dvd_eq_mod_eq_0 unat_eq_zero [symmetric] unat_mod_distrib)
  then show ?thesis by (auto simp: FutexKey_def process_id_is_valid_def)
qed

end
