(* ===== verification/Instr.thy ===== *)
theory Instr
  imports CpuState PhysMem
begin

unbundle bit_operations_syntax

text \<open>
  The instruction set: \<^verbatim>\<open>src/cpu/instruction\<close> (condition codes, opcodes, operands, instructions),
  \<^verbatim>\<open>src/cpu/execution/program.cpp\<close> and \<^verbatim>\<open>src/cpu/decode/executable_image.cpp\<close>. Constructors carry the
  prefixes \<open>CC_\<close> and \<open>OP_\<close>; the \<^verbatim>\<open>COUNT\<close> sentinels are kept because an instruction without a condition
  holds one and the executor tests for both. A signed quadword is its 64-bit pattern.
\<close>

section \<open>Condition codes and opcodes\<close>

datatype condition_code =
    CC_O | CC_NO | CC_B | CC_AE | CC_E | CC_NE | CC_BE | CC_A
  | CC_S | CC_NS | CC_P | CC_NP | CC_L | CC_GE | CC_LE | CC_G | CC_COUNT

definition is_condition_code_valid :: "condition_code \<Rightarrow> bool" where
  "is_condition_code_valid c \<longleftrightarrow> c \<noteq> CC_COUNT"

datatype opcode =
    OP_MOV | OP_MOVSX | OP_MOVZX | OP_LEA | OP_ADD | OP_SUB | OP_CMP | OP_INC
  | OP_DEC | OP_AND | OP_OR | OP_XOR | OP_TEST | OP_CMPXCHG | OP_XADD | OP_MFENCE
  | OP_INVLPG | OP_PUSH | OP_POP | OP_CALL | OP_RET | OP_JMP | OP_JE | OP_JNE
  | OP_JCC | OP_SETCC | OP_CMOVCC | OP_INT | OP_SYSCALL | OP_SYSRET | OP_IRET | OP_HLT
  | OP_COUNT

section \<open>Operands\<close>

record memory_address =
  ma_base :: "register_id option"
  ma_index :: "register_id option"
  ma_scale :: byte
  ma_displacement :: qword
  ma_absolute :: "address64 option"

definition require_memory_scale :: "byte \<Rightarrow> exn + unit" where
  "require_memory_scale scale =
     (if scale \<noteq> 1 \<and> scale \<noteq> 2 \<and> scale \<noteq> 4 \<and> scale \<noteq> 8 then Inl Out_of_range else Inr ())"

definition base_displacement :: "register_id \<Rightarrow> qword \<Rightarrow> memory_address" where
  "base_displacement base displacement =
     \<lparr>ma_base = Some base, ma_index = None, ma_scale = 1, ma_displacement = displacement, ma_absolute = None\<rparr>"

definition base_index_displacement ::
  "register_id \<Rightarrow> register_id \<Rightarrow> byte \<Rightarrow> qword \<Rightarrow> exn + memory_address" where
  "base_index_displacement base index scale displacement =
     sbind (require_memory_scale scale) (\<lambda>_. Inr
     \<lparr>ma_base = Some base, ma_index = Some index, ma_scale = scale, ma_displacement = displacement, ma_absolute = None\<rparr>)"

definition index_displacement :: "register_id \<Rightarrow> byte \<Rightarrow> qword \<Rightarrow> exn + memory_address" where
  "index_displacement index scale displacement =
     sbind (require_memory_scale scale) (\<lambda>_. Inr
     \<lparr>ma_base = None, ma_index = Some index, ma_scale = scale, ma_displacement = displacement, ma_absolute = None\<rparr>)"

definition absolute_address :: "address64 \<Rightarrow> memory_address" where
  "absolute_address a =
     \<lparr>ma_base = None, ma_index = None, ma_scale = 1, ma_displacement = 0, ma_absolute = Some a\<rparr>"

datatype operand =
    Op_none
  | Op_reg register_id data_size
  | Op_imm qword
  | Op_mem memory_address data_size

definition operand_reg :: "register_id \<Rightarrow> data_size \<Rightarrow> exn + operand" where
  "operand_reg r sz = (if \<not> is_data_size_valid sz then Inl Out_of_range else Inr (Op_reg r sz))"

definition operand_mem :: "memory_address \<Rightarrow> data_size \<Rightarrow> exn + operand" where
  "operand_mem a sz = (if \<not> is_data_size_valid sz then Inl Out_of_range else Inr (Op_mem a sz))"

fun is_register :: "operand \<Rightarrow> bool" where
  "is_register (Op_reg _ _) = True" | "is_register _ = False"

fun is_immediate :: "operand \<Rightarrow> bool" where
  "is_immediate (Op_imm _) = True" | "is_immediate _ = False"

fun is_memory :: "operand \<Rightarrow> bool" where
  "is_memory (Op_mem _ _) = True" | "is_memory _ = False"

fun register_payload :: "operand \<Rightarrow> exn + (register_id \<times> data_size)" where
  "register_payload (Op_reg r sz) = Inr (r, sz)" | "register_payload _ = Inl Logic_error"

fun immediate_value :: "operand \<Rightarrow> exn + qword" where
  "immediate_value (Op_imm v) = Inr v" | "immediate_value _ = Inl Logic_error"

fun memory_payload :: "operand \<Rightarrow> exn + (memory_address \<times> data_size)" where
  "memory_payload (Op_mem a sz) = Inr (a, sz)" | "memory_payload _ = Inl Logic_error"

section \<open>Instructions\<close>

record instruction =
  in_opcode :: opcode
  in_condition :: condition_code
  in_first :: operand
  in_second :: operand
  in_locked :: bool

definition Instruction :: "opcode \<Rightarrow> operand \<Rightarrow> operand \<Rightarrow> bool \<Rightarrow> instruction" where
  "Instruction opcode first_operand second_operand locked =
     \<lparr>in_opcode = opcode, in_condition = CC_COUNT, in_first = first_operand, in_second = second_operand, in_locked = locked\<rparr>"

definition Instruction_cc :: "opcode \<Rightarrow> condition_code \<Rightarrow> operand \<Rightarrow> operand \<Rightarrow> bool \<Rightarrow> instruction" where
  "Instruction_cc opcode condition first_operand second_operand locked =
     \<lparr>in_opcode = opcode, in_condition = condition, in_first = first_operand, in_second = second_operand, in_locked = locked\<rparr>"

definition make_mov :: "operand \<Rightarrow> operand \<Rightarrow> instruction" where
  "make_mov a b = Instruction OP_MOV a b False"

definition make_movsx :: "operand \<Rightarrow> operand \<Rightarrow> instruction" where
  "make_movsx a b = Instruction OP_MOVSX a b False"

definition make_movzx :: "operand \<Rightarrow> operand \<Rightarrow> instruction" where
  "make_movzx a b = Instruction OP_MOVZX a b False"

definition make_lea :: "operand \<Rightarrow> operand \<Rightarrow> instruction" where
  "make_lea a b = Instruction OP_LEA a b False"

definition make_add :: "operand \<Rightarrow> operand \<Rightarrow> instruction" where
  "make_add a b = Instruction OP_ADD a b False"

definition make_sub :: "operand \<Rightarrow> operand \<Rightarrow> instruction" where
  "make_sub a b = Instruction OP_SUB a b False"

definition make_cmp :: "operand \<Rightarrow> operand \<Rightarrow> instruction" where
  "make_cmp a b = Instruction OP_CMP a b False"

definition make_inc :: "operand \<Rightarrow> instruction" where
  "make_inc a = Instruction OP_INC a Op_none False"

definition make_dec :: "operand \<Rightarrow> instruction" where
  "make_dec a = Instruction OP_DEC a Op_none False"

definition make_and :: "operand \<Rightarrow> operand \<Rightarrow> instruction" where
  "make_and a b = Instruction OP_AND a b False"

definition make_or :: "operand \<Rightarrow> operand \<Rightarrow> instruction" where
  "make_or a b = Instruction OP_OR a b False"

definition make_xor :: "operand \<Rightarrow> operand \<Rightarrow> instruction" where
  "make_xor a b = Instruction OP_XOR a b False"

definition make_test :: "operand \<Rightarrow> operand \<Rightarrow> instruction" where
  "make_test a b = Instruction OP_TEST a b False"

definition make_cmpxchg :: "operand \<Rightarrow> operand \<Rightarrow> bool \<Rightarrow> instruction" where
  "make_cmpxchg a b locked = Instruction OP_CMPXCHG a b locked"

definition make_xadd :: "operand \<Rightarrow> operand \<Rightarrow> bool \<Rightarrow> instruction" where
  "make_xadd a b locked = Instruction OP_XADD a b locked"

definition make_mfence :: instruction where
  "make_mfence = Instruction OP_MFENCE Op_none Op_none False"

definition make_invlpg :: "operand \<Rightarrow> instruction" where
  "make_invlpg a = Instruction OP_INVLPG a Op_none False"

definition make_push :: "operand \<Rightarrow> instruction" where
  "make_push a = Instruction OP_PUSH a Op_none False"

definition make_pop :: "operand \<Rightarrow> instruction" where
  "make_pop a = Instruction OP_POP a Op_none False"

definition make_call :: "operand \<Rightarrow> instruction" where
  "make_call a = Instruction OP_CALL a Op_none False"

definition make_ret :: instruction where
  "make_ret = Instruction OP_RET Op_none Op_none False"

definition make_jmp :: "operand \<Rightarrow> instruction" where
  "make_jmp a = Instruction OP_JMP a Op_none False"

definition make_je :: "operand \<Rightarrow> instruction" where
  "make_je a = Instruction_cc OP_JE CC_E a Op_none False"

definition make_jne :: "operand \<Rightarrow> instruction" where
  "make_jne a = Instruction_cc OP_JNE CC_NE a Op_none False"

definition make_jcc :: "condition_code \<Rightarrow> operand \<Rightarrow> exn + instruction" where
  "make_jcc c a = (if \<not> is_condition_code_valid c then Inl Out_of_range
     else Inr (Instruction_cc OP_JCC c a Op_none False))"

definition make_setcc :: "condition_code \<Rightarrow> operand \<Rightarrow> exn + instruction" where
  "make_setcc c a = (if \<not> is_condition_code_valid c then Inl Out_of_range
     else Inr (Instruction_cc OP_SETCC c a Op_none False))"

definition make_cmovcc :: "condition_code \<Rightarrow> operand \<Rightarrow> operand \<Rightarrow> exn + instruction" where
  "make_cmovcc c a b = (if \<not> is_condition_code_valid c then Inl Out_of_range
     else Inr (Instruction_cc OP_CMOVCC c a b False))"

definition make_int :: "interrupt_vector \<Rightarrow> instruction" where
  "make_int v = Instruction OP_INT (Op_imm (ucast v)) Op_none False"

definition make_syscall :: instruction where
  "make_syscall = Instruction OP_SYSCALL Op_none Op_none False"

definition make_sysret :: instruction where
  "make_sysret = Instruction OP_SYSRET Op_none Op_none False"

definition make_iret :: instruction where
  "make_iret = Instruction OP_IRET Op_none Op_none False"

definition make_hlt :: instruction where
  "make_hlt = Instruction OP_HLT Op_none Op_none False"

section \<open>Programs and images\<close>

type_synonym program = "instruction list"

definition program_contains_rip :: "program \<Rightarrow> address64 \<Rightarrow> bool" where
  "program_contains_rip p a \<longleftrightarrow> a < of_nat (length p)"

definition instruction_at :: "program \<Rightarrow> address64 \<Rightarrow> exn + instruction" where
  "instruction_at p a = (if \<not> program_contains_rip p a then Inl Out_of_range else Inr (p ! unat a))"

record executable_image =
  im_bytes :: "byte list"
  im_base :: address64

definition end_rip :: "executable_image \<Rightarrow> address64" where
  "end_rip im = im_base im + of_nat (length (im_bytes im))"

definition image_contains_rip :: "executable_image \<Rightarrow> address64 \<Rightarrow> bool" where
  "image_contains_rip im a \<longleftrightarrow> a \<ge> im_base im \<and> a - im_base im < of_nat (length (im_bytes im))"

definition offset_of :: "executable_image \<Rightarrow> address64 \<Rightarrow> exn + nat" where
  "offset_of im a = (if \<not> image_contains_rip im a then Inl Out_of_range else Inr (unat (a - im_base im)))"

definition byte_at :: "executable_image \<Rightarrow> address64 \<Rightarrow> exn + byte" where
  "byte_at im a = sbind (offset_of im a) (\<lambda>i. Inr (im_bytes im ! i))"

end
