(* ===== verification/Trap.thy ===== *)
theory Trap
  imports CpuState
begin

unbundle bit_operations_syntax

text \<open>
  Descriptor tables and trap delivery: \<^verbatim>\<open>src/cpu/system/descriptor_tables.cpp\<close> and
  \<^verbatim>\<open>trap_controller.cpp\<close>. The interrupt descriptor table has one gate per 8-bit vector, so it is a
  total map; the task state segment has a stack for the rings 0 to 2. A trap saves the interrupted
  context in the processor's pending frame; a return restores it.
\<close>

section \<open>Interrupt gates\<close>

datatype gate_type = INTERRUPT_GATE | TRAP_GATE

record interrupt_gate =
  ig_present :: bool
  ig_type :: gate_type
  ig_handler_rip :: address64
  ig_target :: privilege_level

definition absent_gate :: interrupt_gate where
  "absent_gate = \<lparr>ig_present = False, ig_type = INTERRUPT_GATE, ig_handler_rip = 0, ig_target = RING0\<rparr>"

definition make_interrupt_gate :: "address64 \<Rightarrow> privilege_level \<Rightarrow> interrupt_gate" where
  "make_interrupt_gate handler_rip target =
     \<lparr>ig_present = True, ig_type = INTERRUPT_GATE, ig_handler_rip = handler_rip, ig_target = target\<rparr>"

definition make_trap_gate :: "address64 \<Rightarrow> privilege_level \<Rightarrow> interrupt_gate" where
  "make_trap_gate handler_rip target =
     \<lparr>ig_present = True, ig_type = TRAP_GATE, ig_handler_rip = handler_rip, ig_target = target\<rparr>"

type_synonym idt = "interrupt_vector \<Rightarrow> interrupt_gate"

definition set_gate :: "interrupt_vector \<Rightarrow> interrupt_gate \<Rightarrow> idt \<Rightarrow> idt" where
  "set_gate v g t = t(v := g)"

definition clear_gate :: "interrupt_vector \<Rightarrow> idt \<Rightarrow> idt" where
  "clear_gate v t = t(v := absent_gate)"

definition has_gate :: "interrupt_vector \<Rightarrow> idt \<Rightarrow> bool" where
  "has_gate v t = ig_present (t v)"

definition gate_at :: "interrupt_vector \<Rightarrow> idt \<Rightarrow> exn + interrupt_gate" where
  "gate_at v t = (if \<not> ig_present (t v) then Inl Out_of_range else Inr (t v))"

section \<open>Segments\<close>

datatype segment_descriptor_kind = CODE | DATA | TSS

type_synonym segment_selector = "16 word"

definition GDT_DESCRIPTOR_COUNT :: nat where "GDT_DESCRIPTOR_COUNT = 16"

definition selector_from_index :: "16 word \<Rightarrow> privilege_level \<Rightarrow> exn + segment_selector" where
  "selector_from_index index rpl =
     (if unat index \<ge> GDT_DESCRIPTOR_COUNT then Inl Out_of_range
      else Inr (push_bit 3 index OR of_nat (ring_number rpl)))"

definition selector_index :: "segment_selector \<Rightarrow> nat" where
  "selector_index s = unat (drop_bit 3 s)"

definition selector_is_null :: "segment_selector \<Rightarrow> bool" where
  "selector_is_null s \<longleftrightarrow> selector_index s = 0"

record segment_descriptor =
  sd_present :: bool
  sd_kind :: segment_descriptor_kind
  sd_privilege :: privilege_level
  sd_base :: address64
  sd_limit :: dword

definition absent_segment :: segment_descriptor where
  "absent_segment = \<lparr>sd_present = False, sd_kind = DATA, sd_privilege = RING0, sd_base = 0, sd_limit = 0\<rparr>"

definition code_segment :: "privilege_level \<Rightarrow> segment_descriptor" where
  "code_segment dpl = \<lparr>sd_present = True, sd_kind = CODE, sd_privilege = dpl, sd_base = 0, sd_limit = 0\<rparr>"

definition data_segment :: "privilege_level \<Rightarrow> segment_descriptor" where
  "data_segment dpl = \<lparr>sd_present = True, sd_kind = DATA, sd_privilege = dpl, sd_base = 0, sd_limit = 0\<rparr>"

definition tss_segment :: "address64 \<Rightarrow> dword \<Rightarrow> segment_descriptor" where
  "tss_segment base limit = \<lparr>sd_present = True, sd_kind = TSS, sd_privilege = RING0, sd_base = base, sd_limit = limit\<rparr>"

type_synonym gdt = "segment_descriptor list"

definition initial_gdt :: gdt where
  "initial_gdt = replicate GDT_DESCRIPTOR_COUNT absent_segment"

definition set_descriptor :: "segment_selector \<Rightarrow> segment_descriptor \<Rightarrow> (gdt, unit) op" where
  "set_descriptor sel d = (\<lambda>t. if selector_index sel \<ge> GDT_DESCRIPTOR_COUNT then (Inl Out_of_range, t)
     else (Inr (), t[selector_index sel := d]))"

definition has_descriptor :: "segment_selector \<Rightarrow> gdt \<Rightarrow> bool" where
  "has_descriptor sel t \<longleftrightarrow> selector_index sel < length t \<and> sd_present (t ! selector_index sel)"

definition descriptor_at :: "segment_selector \<Rightarrow> gdt \<Rightarrow> exn + segment_descriptor" where
  "descriptor_at sel t =
     (if selector_index sel \<ge> GDT_DESCRIPTOR_COUNT then Inl Out_of_range
      else if \<not> sd_present (t ! selector_index sel) then Inl Out_of_range
      else Inr (t ! selector_index sel))"

section \<open>Task state segment\<close>

text \<open>The stack of each ring, \<open>None\<close> where the \<^verbatim>\<open>present\<close> flag of the ring is clear.\<close>

type_synonym tss = "privilege_level \<Rightarrow> qword option"

definition privilege_stack_index :: "privilege_level \<Rightarrow> exn + privilege_level" where
  "privilege_stack_index level = (if level = RING3 then Inl Out_of_range else Inr level)"

definition set_privilege_stack :: "privilege_level \<Rightarrow> qword \<Rightarrow> (tss, unit) op" where
  "set_privilege_stack level sp = (\<lambda>t. case privilege_stack_index level of
     Inl e \<Rightarrow> (Inl e, t) | Inr i \<Rightarrow> (Inr (), t(i := Some sp)))"

definition clear_privilege_stack :: "privilege_level \<Rightarrow> (tss, unit) op" where
  "clear_privilege_stack level = (\<lambda>t. case privilege_stack_index level of
     Inl e \<Rightarrow> (Inl e, t) | Inr i \<Rightarrow> (Inr (), t(i := None)))"

definition has_privilege_stack :: "privilege_level \<Rightarrow> tss \<Rightarrow> exn + bool" where
  "has_privilege_stack level t = sbind (privilege_stack_index level) (\<lambda>i. Inr (t i \<noteq> None))"

definition privilege_stack :: "privilege_level \<Rightarrow> tss \<Rightarrow> exn + qword" where
  "privilege_stack level t = sbind (privilege_stack_index level) (\<lambda>i.
     case t i of None \<Rightarrow> Inl Out_of_range | Some sp \<Rightarrow> Inr sp)"

section \<open>The trap controller\<close>

record syscall_descriptor =
  sc_enabled :: bool
  sc_entry_rip :: address64
  sc_rflags_mask :: qword

definition syscall_disabled :: syscall_descriptor where
  "syscall_disabled = \<lparr>sc_enabled = False, sc_entry_rip = 0, sc_rflags_mask = 0\<rparr>"

definition syscall_enabled :: "address64 \<Rightarrow> qword \<Rightarrow> syscall_descriptor" where
  "syscall_enabled entry_rip rflags_mask = \<lparr>sc_enabled = True, sc_entry_rip = entry_rip, sc_rflags_mask = rflags_mask\<rparr>"

record trap_controller =
  tc_gdt :: gdt
  tc_tss :: tss
  tc_idt :: idt
  tc_syscall :: syscall_descriptor

definition initial_trap_controller :: trap_controller where
  "initial_trap_controller =
     \<lparr>tc_gdt = initial_gdt, tc_tss = (\<lambda>_. None), tc_idt = (\<lambda>_. absent_gate), tc_syscall = syscall_disabled\<rparr>"

abbreviation put_reg :: "register_id \<Rightarrow> qword \<Rightarrow> cpu_state \<Rightarrow> cpu_state" where
  "put_reg r v s \<equiv> s\<lparr>registers := reg_write r v (registers s)\<rparr>"

definition switch_to_gate_privilege :: "trap_controller \<Rightarrow> interrupt_gate \<Rightarrow> (cpu_state, unit) op" where
  "switch_to_gate_privilege tc gate = (\<lambda>s.
     let target_level = ig_target gate in
     if cpl s = target_level then (Inr (), s)
     else bnd (if is_more_privileged target_level (cpl s)
               then bnd (lift_sum (has_privilege_stack target_level (tc_tss tc))) (\<lambda>present.
                    sq (require present Logic_error)
                   (bnd (lift_sum (privilege_stack target_level (tc_tss tc))) (\<lambda>sp.
                    modify (put_reg RSP sp))))
               else ret ())
          (\<lambda>_. modify (set_privilege_level target_level)) s)"

definition dispatch_gate_trap ::
  "trap_controller \<Rightarrow> trap_kind \<Rightarrow> interrupt_vector \<Rightarrow> address64 \<Rightarrow> qword option \<Rightarrow> (cpu_state, trap_frame) op" where
  "dispatch_gate_trap tc kind vector return_rip code = (\<lambda>s.
     case gate_at vector (tc_idt tc) of Inl e \<Rightarrow> (Inl e, s)
     | Inr gate \<Rightarrow>
       let frame = \<lparr>tf_kind = kind, tf_vector = vector, tf_interrupted_rip = rip s, tf_return_rip = return_rip,
                    tf_rflags = flags s, tf_stack_pointer = reg_read RSP (registers s),
                    tf_privilege_level = cpl s, tf_error_code = code\<rparr>
       in sq (switch_to_gate_privilege tc gate)
         (sq (modify (set_pending_trap frame))
         (sq (if ig_type gate = INTERRUPT_GATE then modify (flags_update (flag_write IF False)) else ret ())
         (sq (modify (set_rip (ig_handler_rip gate)))
             (ret frame)))) s)"

definition raise_exception ::
  "trap_controller \<Rightarrow> interrupt_vector \<Rightarrow> qword option \<Rightarrow> (cpu_state, trap_frame) op" where
  "raise_exception tc vector code = (\<lambda>s. dispatch_gate_trap tc EXCEPTION vector (rip s) code s)"

definition raise_interrupt :: "trap_controller \<Rightarrow> interrupt_vector \<Rightarrow> (cpu_state, trap_frame) op" where
  "raise_interrupt tc vector = (\<lambda>s. dispatch_gate_trap tc INTERRUPT vector (rip s) None s)"

definition raise_software_interrupt ::
  "trap_controller \<Rightarrow> interrupt_vector \<Rightarrow> address64 \<Rightarrow> (cpu_state, trap_frame) op" where
  "raise_software_interrupt tc vector return_rip = dispatch_gate_trap tc SOFTWARE_INTERRUPT vector return_rip None"

definition enter_syscall :: "trap_controller \<Rightarrow> address64 \<Rightarrow> (cpu_state, trap_frame) op" where
  "enter_syscall tc return_rip = (\<lambda>s.
     if \<not> sc_enabled (tc_syscall tc) then (Inl Logic_error, s)
     else
     let original_rflags = flags s; original_stack_pointer = reg_read RSP (registers s);
         frame = \<lparr>tf_kind = SYSCALL, tf_vector = vector_syscall_compat, tf_interrupted_rip = rip s,
                  tf_return_rip = return_rip, tf_rflags = original_rflags,
                  tf_stack_pointer = original_stack_pointer, tf_privilege_level = cpl s, tf_error_code = None\<rparr>
     in sq (modify (put_reg RCX return_rip))
       (sq (modify (put_reg R11 original_rflags))
       (sq (modify (set_pending_trap frame))
       (sq (bnd (lift_sum (has_privilege_stack RING0 (tc_tss tc))) (\<lambda>present.
            if present then bnd (lift_sum (privilege_stack RING0 (tc_tss tc))) (\<lambda>sp. modify (put_reg RSP sp))
            else ret ()))
       (sq (modify (set_privilege_level RING0))
       (sq (modify (\<lambda>s. s\<lparr>flags := original_rflags AND NOT (sc_rflags_mask (tc_syscall tc))\<rparr>))
       (sq (modify (set_rip (sc_entry_rip (tc_syscall tc))))
           (ret frame))))))) s)"

definition restore_from_frame :: "trap_frame \<Rightarrow> cpu_state \<Rightarrow> cpu_state" where
  "restore_from_frame frame s =
     (let s1 = set_rip (tf_return_rip frame) s;
          s2 = s1\<lparr>flags := tf_rflags frame\<rparr>;
          s3 = put_reg RSP (tf_stack_pointer frame) s2
      in set_privilege_level (tf_privilege_level frame) s3)"

definition restore_trap_frame :: "trap_frame \<Rightarrow> cpu_state \<Rightarrow> cpu_state" where
  "restore_trap_frame frame s = clear_pending_trap (restore_from_frame frame s)"

definition return_from_trap :: "(cpu_state, unit) op" where
  "return_from_trap = (\<lambda>s. case pending_trap s of None \<Rightarrow> (Inl Logic_error, s)
     | Some frame \<Rightarrow> (Inr (), restore_trap_frame frame s))"

definition return_from_syscall :: "(cpu_state, unit) op" where
  "return_from_syscall = (\<lambda>s. case pending_trap s of None \<Rightarrow> (Inl Logic_error, s)
     | Some frame \<Rightarrow>
       if tf_kind frame \<noteq> SYSCALL then (Inl Logic_error, s)
       else
       sq (require (is_canonical_linear_address (reg_read RCX (registers s))) Out_of_range)
      (sq (require (is_canonical_linear_address (tf_stack_pointer frame)) Out_of_range)
      (sq (modify (\<lambda>s. set_rip (reg_read RCX (registers s)) s))
      (sq (modify (\<lambda>s. s\<lparr>flags := reg_read R11 (registers s)\<rparr>))
      (sq (modify (put_reg RSP (tf_stack_pointer frame)))
      (sq (modify (set_privilege_level (tf_privilege_level frame)))
          (modify clear_pending_trap)))))) s)"

section \<open>Delivery\<close>

text \<open>When a gate accepts a trap: it is present, and a switch inwards finds a stack.\<close>

definition gate_ready :: "trap_controller \<Rightarrow> interrupt_vector \<Rightarrow> cpu_state \<Rightarrow> bool" where
  "gate_ready tc v s \<longleftrightarrow> has_gate v (tc_idt tc) \<and>
     (is_more_privileged (ig_target (tc_idt tc v)) (cpl s) \<longrightarrow> tc_tss tc (ig_target (tc_idt tc v)) \<noteq> None)"

definition delivered :: "trap_controller \<Rightarrow> interrupt_vector \<Rightarrow> trap_frame \<Rightarrow> cpu_state \<Rightarrow> cpu_state" where
  "delivered tc v frame s =
     (let g = tc_idt tc v in
      s\<lparr>registers := (if is_more_privileged (ig_target g) (cpl s)
                      then (registers s)(RSP := the (tc_tss tc (ig_target g))) else registers s),
        cpl := ig_target g, pending_trap := Some frame,
        flags := (if ig_type g = INTERRUPT_GATE then flag_write IF False (flags s) else flags s),
        rip := ig_handler_rip g\<rparr>)"

lemma not_more_privileged_RING3: "\<not> is_more_privileged RING3 l"
  by (cases l) (auto simp: is_more_privileged_def)

lemma is_more_privileged_irrefl [simp]: "\<not> is_more_privileged l l"
  by (simp add: is_more_privileged_def)

lemma switch_to_gate_privilege_run:
  "switch_to_gate_privilege tc gate s =
     (if is_more_privileged (ig_target gate) (cpl s) \<and> tc_tss tc (ig_target gate) = None then (Inl Logic_error, s)
      else (Inr (), s\<lparr>registers := (if is_more_privileged (ig_target gate) (cpl s)
                        then (registers s)(RSP := the (tc_tss tc (ig_target gate))) else registers s),
                      cpl := ig_target gate\<rparr>))"
proof (cases "cpl s = ig_target gate")
  case True
  then show ?thesis by (simp add: switch_to_gate_privilege_def)
next
  case False
  show ?thesis
  proof (cases "is_more_privileged (ig_target gate) (cpl s)")
    case True
    then have "ig_target gate \<noteq> RING3" using not_more_privileged_RING3 by metis
    with True False show ?thesis
      by (auto simp: switch_to_gate_privilege_def has_privilege_stack_def privilege_stack_def privilege_stack_index_def
          sbind_def op_simps set_privilege_level_def reg_write_def Let_def)
  next
    case outwards: False
    with False show ?thesis by (simp add: switch_to_gate_privilege_def op_simps set_privilege_level_def Let_def)
  qed
qed

lemma dispatch_gate_trap_run:
  fixes s :: cpu_state
  defines "frame kind v return_rip code \<equiv>
    \<lparr>tf_kind = kind, tf_vector = v, tf_interrupted_rip = rip s, tf_return_rip = return_rip,
     tf_rflags = flags s, tf_stack_pointer = registers s RSP, tf_privilege_level = cpl s, tf_error_code = code\<rparr>"
  shows "dispatch_gate_trap tc kind v return_rip code s =
    (if gate_ready tc v s then (Inr (frame kind v return_rip code), delivered tc v (frame kind v return_rip code) s)
     else (Inl (if has_gate v (tc_idt tc) then Logic_error else Out_of_range), s))"
  unfolding frame_def
  by (auto simp: dispatch_gate_trap_def gate_at_def has_gate_def gate_ready_def delivered_def Let_def op_simps
      switch_to_gate_privilege_run set_pending_trap_def set_rip_def reg_read_def split: if_splits)

lemma return_from_trap_run:
  "pending_trap s = Some f \<Longrightarrow> return_from_trap s =
     (Inr (), s\<lparr>rip := tf_return_rip f, flags := tf_rflags f, registers := (registers s)(RSP := tf_stack_pointer f),
              cpl := tf_privilege_level f, pending_trap := None\<rparr>)"
  by (simp add: return_from_trap_def restore_trap_frame_def restore_from_frame_def clear_pending_trap_def set_rip_def
      set_privilege_level_def reg_write_def Let_def)

lemma return_from_syscall_run:
  assumes "pending_trap s = Some f" and "tf_kind f = SYSCALL"
  shows "return_from_syscall s =
    (if is_canonical_linear_address (registers s RCX) \<and> is_canonical_linear_address (tf_stack_pointer f)
     then (Inr (), s\<lparr>rip := registers s RCX, flags := registers s R11, registers := (registers s)(RSP := tf_stack_pointer f),
              cpl := tf_privilege_level f, pending_trap := None\<rparr>)
     else (Inl Out_of_range, s))"
  using assms by (simp add: return_from_syscall_def op_simps clear_pending_trap_def set_rip_def
      set_privilege_level_def reg_write_def reg_read_def)

lemma enter_syscall_run:
  assumes "sc_enabled (tc_syscall tc)"
  defines "frame s return_rip \<equiv>
    \<lparr>tf_kind = SYSCALL, tf_vector = vector_syscall_compat, tf_interrupted_rip = rip s, tf_return_rip = return_rip,
     tf_rflags = flags s, tf_stack_pointer = registers s RSP, tf_privilege_level = cpl s, tf_error_code = None\<rparr>"
  shows "enter_syscall tc return_rip s =
    (Inr (frame s return_rip), s\<lparr>registers := (registers s)(RCX := return_rip, R11 := flags s,
        RSP := (case tc_tss tc RING0 of None \<Rightarrow> registers s RSP | Some sp \<Rightarrow> sp)),
      pending_trap := Some (frame s return_rip), cpl := RING0, flags := flags s AND NOT (sc_rflags_mask (tc_syscall tc)),
      rip := sc_entry_rip (tc_syscall tc)\<rparr>)"
proof (cases "tc_tss tc RING0")
  case None
  have "(registers s)(RCX := return_rip, R11 := flags s, RSP := registers s RSP)
      = (registers s)(RCX := return_rip, R11 := flags s)" by auto
  with None assms(1) show ?thesis
    by (simp add: enter_syscall_def frame_def op_simps has_privilege_stack_def privilege_stack_index_def sbind_def
        set_pending_trap_def set_privilege_level_def set_rip_def reg_read_def reg_write_def Let_def)
next
  case (Some sp)
  with assms(1) show ?thesis
    by (simp add: enter_syscall_def frame_def op_simps has_privilege_stack_def privilege_stack_def
        privilege_stack_index_def sbind_def set_pending_trap_def set_privilege_level_def set_rip_def reg_read_def
        reg_write_def Let_def)
qed

section \<open>Properties\<close>

lemma trap_roundtrip_facts:
  fixes s t :: cpu_state
  assumes "dispatch_gate_trap tc kind v return_rip code s = (r, s1)"
  shows "(\<exists>f. r = Inr f) \<longleftrightarrow> gate_ready tc v s"
    and "\<not> gate_ready tc v s \<Longrightarrow> s1 = s"
    and "gate_ready tc v s \<Longrightarrow> rip s1 = ig_handler_rip (tc_idt tc v) \<and> cpl s1 = ig_target (tc_idt tc v) \<and>
      (is_more_privileged (ig_target (tc_idt tc v)) (cpl s) \<longrightarrow>
         Some (reg_read RSP (registers s1)) = tc_tss tc (ig_target (tc_idt tc v))) \<and>
      (ig_type (tc_idt tc v) = INTERRUPT_GATE \<longrightarrow> \<not> flag_read IF (flags s1))"
    and "gate_ready tc v s \<Longrightarrow> pending_trap t = pending_trap s1 \<Longrightarrow>
      (case return_from_trap t of (r', t') \<Rightarrow> r' = Inr () \<and> rip t' = return_rip \<and> flags t' = flags s \<and> cpl t' = cpl s \<and>
        reg_read RSP (registers t') = reg_read RSP (registers s) \<and> pending_trap t' = None \<and>
        (\<forall>g. g \<noteq> RSP \<longrightarrow> reg_read g (registers t') = reg_read g (registers t)))"
    and "gate_ready tc v s \<Longrightarrow> return_from_trap s1 = (Inr (), s\<lparr>rip := return_rip, pending_trap := None\<rparr>)"
proof -
  note run = assms [unfolded dispatch_gate_trap_run]
  show "(\<exists>f. r = Inr f) \<longleftrightarrow> gate_ready tc v s" using run by (auto split: if_splits)
  show "\<not> gate_ready tc v s \<Longrightarrow> s1 = s" using run by simp
  assume ready: "gate_ready tc v s"
  then obtain f where f: "s1 = delivered tc v f s" "tf_return_rip f = return_rip" "tf_rflags f = flags s"
    "tf_stack_pointer f = registers s RSP" "tf_privilege_level f = cpl s"
    using run by (auto split: if_splits)
  show "rip s1 = ig_handler_rip (tc_idt tc v) \<and> cpl s1 = ig_target (tc_idt tc v) \<and>
      (is_more_privileged (ig_target (tc_idt tc v)) (cpl s) \<longrightarrow>
         Some (reg_read RSP (registers s1)) = tc_tss tc (ig_target (tc_idt tc v))) \<and>
      (ig_type (tc_idt tc v) = INTERRUPT_GATE \<longrightarrow> \<not> flag_read IF (flags s1))"
    using ready by (auto simp: f delivered_def Let_def gate_ready_def reg_read_def flag_read_write)
  have pend: "pending_trap s1 = Some f" by (simp add: f delivered_def Let_def)
  show "return_from_trap s1 = (Inr (), s\<lparr>rip := return_rip, pending_trap := None\<rparr>)"
    unfolding return_from_trap_run [OF pend] by (simp add: f delivered_def Let_def)
  assume "pending_trap t = pending_trap s1"
  with pend have "pending_trap t = Some f" by simp
  then show "case return_from_trap t of (r', t') \<Rightarrow> r' = Inr () \<and> rip t' = return_rip \<and> flags t' = flags s \<and> cpl t' = cpl s \<and>
        reg_read RSP (registers t') = reg_read RSP (registers s) \<and> pending_trap t' = None \<and>
        (\<forall>g. g \<noteq> RSP \<longrightarrow> reg_read g (registers t') = reg_read g (registers t))"
    using f by (simp add: return_from_trap_run reg_read_def)
qed

text \<open>
  C18: delivery of a trap through the descriptor tables, and the return from it. A trap is delivered
  exactly if its gate is present and, where the gate leads to an inner ring, that ring has a stack;
  otherwise the delivery throws and leaves the processor as it was. A delivered trap enters at the
  handler of the gate with the ring of the gate, on the stack of the task state segment when the ring
  changes inwards, with interrupts masked behind an interrupt gate. Whatever the handler does to the
  processor short of the pending frame, the return brings back the instruction pointer, flags, stack
  pointer and ring of the interrupted program; a handler that does nothing gives back the whole
  interrupted state.
\<close>

theorem trap_roundtrip:
  fixes s t :: cpu_state
  assumes "dispatch_gate_trap tc kind v return_rip code s = (r, s1)"
  shows "((\<exists>f. r = Inr f) \<longleftrightarrow> gate_ready tc v s) \<and>
    (\<not> gate_ready tc v s \<longrightarrow> s1 = s) \<and>
    (gate_ready tc v s \<longrightarrow> rip s1 = ig_handler_rip (tc_idt tc v) \<and> cpl s1 = ig_target (tc_idt tc v) \<and>
      (is_more_privileged (ig_target (tc_idt tc v)) (cpl s) \<longrightarrow>
         Some (reg_read RSP (registers s1)) = tc_tss tc (ig_target (tc_idt tc v))) \<and>
      (ig_type (tc_idt tc v) = INTERRUPT_GATE \<longrightarrow> \<not> flag_read IF (flags s1))) \<and>
    (gate_ready tc v s \<longrightarrow> pending_trap t = pending_trap s1 \<longrightarrow>
      (case return_from_trap t of (r', t') \<Rightarrow> r' = Inr () \<and> rip t' = return_rip \<and> flags t' = flags s \<and> cpl t' = cpl s \<and>
        reg_read RSP (registers t') = reg_read RSP (registers s) \<and> pending_trap t' = None \<and>
        (\<forall>g. g \<noteq> RSP \<longrightarrow> reg_read g (registers t') = reg_read g (registers t)))) \<and>
    (gate_ready tc v s \<longrightarrow> return_from_trap s1 = (Inr (), s\<lparr>rip := return_rip, pending_trap := None\<rparr>))"
  by (rule conjI, rule trap_roundtrip_facts(1) [OF assms],
      rule conjI, rule impI, (rule trap_roundtrip_facts(2) [OF assms]; assumption),
      rule conjI, rule impI, (rule trap_roundtrip_facts(3) [OF assms]; assumption),
      rule conjI, rule impI, rule impI, (rule trap_roundtrip_facts(4) [OF assms]; assumption),
      rule impI, (rule trap_roundtrip_facts(5) [OF assms]; assumption))

definition sample_controller :: trap_controller where
  "sample_controller = initial_trap_controller\<lparr>tc_tss := (\<lambda>_. None)(RING0 := Some 0x9000),
     tc_idt := set_gate vector_page_fault (make_interrupt_gate 0x100 RING0) (\<lambda>_. absent_gate),
     tc_syscall := syscall_enabled 0x200 (push_bit 9 1)\<rparr>"

definition sample_user :: cpu_state where
  "sample_user = initial_cpu_state\<lparr>cpl := RING3, rip := 0x40, flags := push_bit 9 1\<rparr>"

theorem trap_roundtrip_witness:
  "gate_ready sample_controller vector_page_fault sample_user \<and>
   return_from_trap (snd (raise_exception sample_controller vector_page_fault (Some 6) sample_user)) = (Inr (), sample_user)"
proof -
  have ready: "gate_ready sample_controller vector_page_fault sample_user"
    by (simp add: gate_ready_def has_gate_def sample_controller_def set_gate_def make_interrupt_gate_def)
  obtain r s1 where run: "dispatch_gate_trap sample_controller EXCEPTION vector_page_fault (rip sample_user) (Some 6) sample_user = (r, s1)"
    by fastforce
  have "sample_user\<lparr>rip := rip sample_user, pending_trap := None\<rparr> = sample_user"
    by (simp add: sample_user_def initial_cpu_state_def)
  with trap_roundtrip [OF run, THEN conjunct2, THEN conjunct2, THEN conjunct2, THEN conjunct2, THEN mp, OF ready] ready run show ?thesis by (simp add: raise_exception_def)
qed

lemma syscall_roundtrip_facts:
  fixes s t :: cpu_state
  assumes "enter_syscall tc return_rip s = (r, s1)"
  shows "(\<exists>f. r = Inr f) \<longleftrightarrow> sc_enabled (tc_syscall tc)" and "\<not> sc_enabled (tc_syscall tc) \<Longrightarrow> s1 = s"
    and "sc_enabled (tc_syscall tc) \<Longrightarrow> cpl s1 = RING0 \<and> rip s1 = sc_entry_rip (tc_syscall tc) \<and>
      flags s1 = flags s AND NOT (sc_rflags_mask (tc_syscall tc)) \<and>
      reg_read RCX (registers s1) = return_rip \<and> reg_read R11 (registers s1) = flags s"
    and "sc_enabled (tc_syscall tc) \<Longrightarrow> pending_trap t = pending_trap s1 \<Longrightarrow>
      reg_read RCX (registers t) = return_rip \<Longrightarrow> reg_read R11 (registers t) = flags s \<Longrightarrow>
      return_from_syscall t =
        (if is_canonical_linear_address return_rip \<and> is_canonical_linear_address (reg_read RSP (registers s))
         then (Inr (), t\<lparr>rip := return_rip, flags := flags s, cpl := cpl s, pending_trap := None,
                registers := reg_write RSP (reg_read RSP (registers s)) (registers t)\<rparr>)
         else (Inl Out_of_range, t))"
proof -
  show "(\<exists>f. r = Inr f) \<longleftrightarrow> sc_enabled (tc_syscall tc)" and "\<not> sc_enabled (tc_syscall tc) \<Longrightarrow> s1 = s"
    using assms enter_syscall_run [of tc return_rip s]
    by (cases "sc_enabled (tc_syscall tc)"; auto simp: enter_syscall_def)+
  assume en: "sc_enabled (tc_syscall tc)"
  note run = enter_syscall_run [OF en, of return_rip s, unfolded assms]
  show "cpl s1 = RING0 \<and> rip s1 = sc_entry_rip (tc_syscall tc) \<and>
      flags s1 = flags s AND NOT (sc_rflags_mask (tc_syscall tc)) \<and>
      reg_read RCX (registers s1) = return_rip \<and> reg_read R11 (registers s1) = flags s"
    using run by (simp add: reg_read_def)
  assume t: "pending_trap t = pending_trap s1" "reg_read RCX (registers t) = return_rip" "reg_read R11 (registers t) = flags s"
  obtain f where f: "pending_trap t = Some f" "tf_kind f = SYSCALL" "tf_stack_pointer f = registers s RSP"
    "tf_privilege_level f = cpl s"
    using run t(1) by auto
  show "return_from_syscall t =
        (if is_canonical_linear_address return_rip \<and> is_canonical_linear_address (reg_read RSP (registers s))
         then (Inr (), t\<lparr>rip := return_rip, flags := flags s, cpl := cpl s, pending_trap := None,
                registers := reg_write RSP (reg_read RSP (registers s)) (registers t)\<rparr>)
         else (Inl Out_of_range, t))"
    using return_from_syscall_run [OF f(1,2)] f(3,4) t(2,3) by (simp add: reg_read_def reg_write_def)
qed

text \<open>
  C19: system calls. \<^verbatim>\<open>SYSCALL\<close> throws with no change when the descriptor is disabled; otherwise it
  enters ring 0 at the configured entry point and nowhere else, masks the flags, and leaves the return
  address in RCX and the flags in R11. If the kernel gives RCX and R11 back (and the addresses are
  canonical), \<^verbatim>\<open>SYSRET\<close> resumes the caller in its own ring with its flags and stack. It refuses a frame
  that is not a system call's and a non-canonical return address, with no change.
\<close>

theorem syscall_roundtrip:
  fixes s t :: cpu_state
  assumes "enter_syscall tc return_rip s = (r, s1)"
  shows "((\<exists>f. r = Inr f) \<longleftrightarrow> sc_enabled (tc_syscall tc)) \<and>
    (\<not> sc_enabled (tc_syscall tc) \<longrightarrow> s1 = s) \<and>
    (sc_enabled (tc_syscall tc) \<longrightarrow> cpl s1 = RING0 \<and> rip s1 = sc_entry_rip (tc_syscall tc) \<and>
      flags s1 = flags s AND NOT (sc_rflags_mask (tc_syscall tc)) \<and>
      reg_read RCX (registers s1) = return_rip \<and> reg_read R11 (registers s1) = flags s) \<and>
    (sc_enabled (tc_syscall tc) \<longrightarrow> pending_trap t = pending_trap s1 \<longrightarrow>
      reg_read RCX (registers t) = return_rip \<longrightarrow> reg_read R11 (registers t) = flags s \<longrightarrow>
      return_from_syscall t =
        (if is_canonical_linear_address return_rip \<and> is_canonical_linear_address (reg_read RSP (registers s))
         then (Inr (), t\<lparr>rip := return_rip, flags := flags s, cpl := cpl s, pending_trap := None,
                registers := reg_write RSP (reg_read RSP (registers s)) (registers t)\<rparr>)
         else (Inl Out_of_range, t)))"
  by (rule conjI, rule syscall_roundtrip_facts(1) [OF assms],
      rule conjI, rule impI, (rule syscall_roundtrip_facts(2) [OF assms]; assumption),
      rule conjI, rule impI, (rule syscall_roundtrip_facts(3) [OF assms]; assumption),
      rule impI, rule impI, rule impI, rule impI, (rule syscall_roundtrip_facts(4) [OF assms]; assumption))

theorem syscall_roundtrip_witness:
  "sc_enabled (tc_syscall sample_controller) \<and>
   cpl (snd (enter_syscall sample_controller 0x42 sample_user)) = RING0 \<and>
   rip (snd (return_from_syscall (snd (enter_syscall sample_controller 0x42 sample_user)))) = 0x42"
proof -
  have en: "sc_enabled (tc_syscall sample_controller)" by (simp add: sample_controller_def syscall_enabled_def)
  obtain r s1 where run: "enter_syscall sample_controller 0x42 sample_user = (r, s1)" by fastforce
  have can: "is_canonical_linear_address 0x42" "is_canonical_linear_address (reg_read RSP (registers sample_user))"
    by (simp_all add: is_canonical_linear_address_def CANONICAL_SIGN_BIT_def CANONICAL_HIGH_MASK_def Let_def sample_user_def initial_cpu_state_def initial_registers_def reg_read_def)
  note facts = syscall_roundtrip [OF run, THEN conjunct2, THEN conjunct2, THEN conjunct1, THEN mp, OF en]
  then have "reg_read RCX (registers s1) = 0x42" "reg_read R11 (registers s1) = flags sample_user" by auto
  from syscall_roundtrip [OF run, THEN conjunct2, THEN conjunct2, THEN conjunct2, THEN mp, OF en, THEN mp, OF refl, THEN mp, OF this(1), THEN mp, OF this(2)] facts can en run show ?thesis by simp
qed

end
