(* ===== verification/Exec.thy ===== *)
theory Exec
  imports Instr Trap Mmu
begin

unbundle bit_operations_syntax

text \<open>
  The instruction executor, \<^verbatim>\<open>src/cpu/execution/executor.cpp\<close>, over the processor state, the MMU with
  the memory behind it and the attached trap controller. Every method is a state-passing operation that
  may throw; a page fault is an exception of the model as it is in the code, and the step function
  turns it into a trap. The memory bus is a pointer that may be null: the argument \<open>bus\<close> says whether it
  is there. The performance model is the list of the calls it gets, shared with the MMU.
\<close>

section \<open>State\<close>

record trace_entry =
  te_cycle_count :: qword
  te_rip_before :: address64
  te_rip_after :: address64
  te_opcode :: opcode
  te_halted_after :: bool
  te_trap_pending_after :: bool

record executor =
  ex_cpu :: cpu_state
  ex_mmu :: mmu_state
  ex_trap :: "trap_controller option"
  ex_cycles :: qword
  ex_trace :: "trace_entry list option"

datatype step_result = STEP_EXECUTED | STEP_HALTED

record execution_context =
  ctx_program :: "program option"
  ctx_image :: "executable_image option"
  ctx_next_rip :: address64

definition on_cpu :: "(cpu_state, 'a) op \<Rightarrow> (executor, 'a) op" where
  "on_cpu = focus ex_cpu ex_cpu_update"

definition on_mmu :: "(mmu_state, 'a) op \<Rightarrow> (executor, 'a) op" where
  "on_mmu = focus ex_mmu ex_mmu_update"

definition cpu_modify :: "(cpu_state \<Rightarrow> cpu_state) \<Rightarrow> (executor, unit) op" where
  "cpu_modify f = modify (ex_cpu_update f)"

definition with_cpu :: "(cpu_state \<Rightarrow> (executor, 'a) op) \<Rightarrow> (executor, 'a) op" where
  "with_cpu f = (\<lambda>s. f (ex_cpu s) s)"

section \<open>Arithmetic and flags\<close>

definition has_qword_sign_bit :: "qword \<Rightarrow> bool" where
  "has_qword_sign_bit v \<longleftrightarrow> v AND push_bit 63 1 \<noteq> 0"

fun mask_for_data_size :: "data_size \<Rightarrow> exn + qword" where
  "mask_for_data_size BYTE = Inr 0xFF"
| "mask_for_data_size WORD = Inr 0xFFFF"
| "mask_for_data_size DWORD = Inr 0xFFFFFFFF"
| "mask_for_data_size QWORD = Inr (NOT 0)"
| "mask_for_data_size DATA_SIZE_COUNT = Inl Logic_error"

definition sign_bit_index_for_data_size :: "data_size \<Rightarrow> exn + nat" where
  "sign_bit_index_for_data_size sz = sbind (data_size_to_bits sz) (\<lambda>n. Inr (n - 1))"

definition sign_extend_value :: "qword \<Rightarrow> data_size \<Rightarrow> exn + qword" where
  "sign_extend_value value src_size =
     sbind (mask_for_data_size src_size) (\<lambda>value_mask.
     sbind (sign_bit_index_for_data_size src_size) (\<lambda>i.
       let masked_value = value AND value_mask; sign_mask = push_bit i 1
       in if masked_value AND sign_mask = 0 then Inr masked_value
          else Inr (masked_value OR NOT value_mask)))"

definition update_add :: "qword \<Rightarrow> qword \<Rightarrow> qword \<Rightarrow> rflags \<Rightarrow> rflags" where
  "update_add left right result raw =
     flag_write OF (has_qword_sign_bit left = has_qword_sign_bit right \<and>
                    has_qword_sign_bit result \<noteq> has_qword_sign_bit left)
    (flag_write CF (result < left)
    (update_zero_sign_parity_from_qword result raw))"

definition update_sub :: "qword \<Rightarrow> qword \<Rightarrow> qword \<Rightarrow> rflags \<Rightarrow> rflags" where
  "update_sub left right result raw =
     flag_write OF (has_qword_sign_bit left \<noteq> has_qword_sign_bit right \<and>
                    has_qword_sign_bit result \<noteq> has_qword_sign_bit left)
    (flag_write CF (left < right)
    (update_zero_sign_parity_from_qword result raw))"

definition update_inc :: "qword \<Rightarrow> qword \<Rightarrow> rflags \<Rightarrow> rflags" where
  "update_inc left result raw =
     flag_write OF (\<not> has_qword_sign_bit left \<and> has_qword_sign_bit result)
    (update_zero_sign_parity_from_qword result raw)"

definition update_dec :: "qword \<Rightarrow> qword \<Rightarrow> rflags \<Rightarrow> rflags" where
  "update_dec left result raw =
     flag_write OF (has_qword_sign_bit left \<and> \<not> has_qword_sign_bit result)
    (update_zero_sign_parity_from_qword result raw)"

definition update_logical :: "qword \<Rightarrow> rflags \<Rightarrow> rflags" where
  "update_logical result raw =
     flag_write OF False (flag_write CF False (update_zero_sign_parity_from_qword result raw))"

section \<open>Operands\<close>

definition require_memory_bus :: "bool \<Rightarrow> (executor, unit) op" where
  "require_memory_bus bus = require bus Logic_error"

definition calculate_effective_address :: "memory_address \<Rightarrow> register_bank \<Rightarrow> address64" where
  "calculate_effective_address a regs =
     (case ma_absolute a of Some x \<Rightarrow> x
      | None \<Rightarrow>
        let e0 = 0;
            e1 = (case ma_base a of None \<Rightarrow> e0 | Some r \<Rightarrow> e0 + reg_read r regs);
            e2 = (case ma_index a of None \<Rightarrow> e1 | Some r \<Rightarrow> e1 + reg_read r regs * ucast (ma_scale a))
        in e2 + ma_displacement a)"

definition read_register_operand :: "operand \<Rightarrow> (executor, qword) op" where
  "read_register_operand operand = with_cpu (\<lambda>c. lift_sum
     (sbind (register_payload operand) (\<lambda>(r, sz).
      sbind (mask_for_data_size sz) (\<lambda>m. Inr (reg_read r (registers c) AND m)))))"

definition write_register_operand :: "operand \<Rightarrow> qword \<Rightarrow> (executor, unit) op" where
  "write_register_operand operand value =
     bnd (lift_sum (register_payload operand)) (\<lambda>(r, data_size).
     bnd (lift_sum (mask_for_data_size data_size)) (\<lambda>value_mask.
       if data_size = QWORD \<or> data_size = DWORD
       then cpu_modify (put_reg r (value AND value_mask))
       else with_cpu (\<lambda>c. let preserved_bits = reg_read r (registers c) AND NOT value_mask
            in cpu_modify (put_reg r (preserved_bits OR (value AND value_mask))))))"

definition read_memory_operand :: "bool \<Rightarrow> operand \<Rightarrow> (executor, qword) op" where
  "read_memory_operand bus operand = with_cpu (\<lambda>c.
     sq (require_memory_bus bus)
    (bnd (lift_sum (memory_payload operand)) (\<lambda>(a, sz).
     on_mmu (mmu_read (paging c) (cpl c) (calculate_effective_address a (registers c)) sz))))"

definition write_memory_operand :: "bool \<Rightarrow> operand \<Rightarrow> qword \<Rightarrow> (executor, unit) op" where
  "write_memory_operand bus operand value = with_cpu (\<lambda>c.
     sq (require_memory_bus bus)
    (bnd (lift_sum (memory_payload operand)) (\<lambda>(a, sz).
     on_mmu (mmu_write (paging c) (cpl c) (calculate_effective_address a (registers c)) sz value))))"

definition read_operand :: "bool \<Rightarrow> operand \<Rightarrow> (executor, qword) op" where
  "read_operand bus operand =
     (if is_register operand then read_register_operand operand
      else if is_immediate operand then lift_sum (immediate_value operand)
      else if is_memory operand then read_memory_operand bus operand
      else throw Logic_error)"

definition write_operand :: "bool \<Rightarrow> operand \<Rightarrow> qword \<Rightarrow> (executor, unit) op" where
  "write_operand bus operand value =
     (if is_register operand then write_register_operand operand value
      else if is_memory operand then write_memory_operand bus operand value
      else throw Logic_error)"

definition push_qword :: "bool \<Rightarrow> qword \<Rightarrow> (executor, unit) op" where
  "push_qword bus value = with_cpu (\<lambda>c.
     let stack_pointer = reg_read RSP (registers c) - 8 in
     sq (require_memory_bus bus)
    (sq (on_mmu (mmu_write (paging c) (cpl c) stack_pointer QWORD value))
        (cpu_modify (put_reg RSP stack_pointer))))"

definition pop_qword :: "bool \<Rightarrow> (executor, qword) op" where
  "pop_qword bus = with_cpu (\<lambda>c.
     let stack_pointer = reg_read RSP (registers c) in
     sq (require_memory_bus bus)
    (bnd (on_mmu (mmu_read (paging c) (cpl c) stack_pointer QWORD)) (\<lambda>value.
     sq (cpu_modify (put_reg RSP (stack_pointer + 8)))
        (ret value))))"

definition evaluate_condition :: "rflags \<Rightarrow> condition_code \<Rightarrow> exn + bool" where
  "evaluate_condition fl condition =
     (let carry = flag_read CF fl; parity = flag_read PF fl; zero = flag_read ZF fl;
          sign = flag_read SF fl; overflow = flag_read OF fl
      in case condition of
           CC_O \<Rightarrow> Inr overflow | CC_NO \<Rightarrow> Inr (\<not> overflow)
         | CC_B \<Rightarrow> Inr carry | CC_AE \<Rightarrow> Inr (\<not> carry)
         | CC_E \<Rightarrow> Inr zero | CC_NE \<Rightarrow> Inr (\<not> zero)
         | CC_BE \<Rightarrow> Inr (carry \<or> zero) | CC_A \<Rightarrow> Inr (\<not> carry \<and> \<not> zero)
         | CC_S \<Rightarrow> Inr sign | CC_NS \<Rightarrow> Inr (\<not> sign)
         | CC_P \<Rightarrow> Inr parity | CC_NP \<Rightarrow> Inr (\<not> parity)
         | CC_L \<Rightarrow> Inr (sign \<noteq> overflow) | CC_GE \<Rightarrow> Inr (sign = overflow)
         | CC_LE \<Rightarrow> Inr (zero \<or> sign \<noteq> overflow) | CC_G \<Rightarrow> Inr (\<not> zero \<and> sign = overflow)
         | CC_COUNT \<Rightarrow> Inl Logic_error)"

definition test_condition :: "condition_code \<Rightarrow> (executor, bool) op" where
  "test_condition condition = with_cpu (\<lambda>c. lift_sum (evaluate_condition (flags c) condition))"

definition require_at_most_one_memory_operand :: "instruction \<Rightarrow> (executor, unit) op" where
  "require_at_most_one_memory_operand i = require (\<not> (is_memory (in_first i) \<and> is_memory (in_second i))) Logic_error"

definition require_register_operand :: "operand \<Rightarrow> (executor, unit) op" where
  "require_register_operand operand = require (is_register operand) Logic_error"

definition require_memory_operand :: "operand \<Rightarrow> (executor, unit) op" where
  "require_memory_operand operand = require (is_memory operand) Logic_error"

definition require_locked_memory_destination :: "instruction \<Rightarrow> (executor, unit) op" where
  "require_locked_memory_destination i = require (\<not> (in_locked i \<and> \<not> is_memory (in_first i))) Logic_error"

definition require_trap_controller :: "(executor, trap_controller) op" where
  "require_trap_controller = (\<lambda>s. case ex_trap s of None \<Rightarrow> (Inl Logic_error, s) | Some tc \<Rightarrow> (Inr tc, s))"

definition set_next_rip :: "execution_context \<Rightarrow> (executor, unit) op" where
  "set_next_rip ctx = cpu_modify (set_rip (ctx_next_rip ctx))"

definition jump_to :: "execution_context \<Rightarrow> address64 \<Rightarrow> (executor, unit) op" where
  "jump_to ctx target =
     sq (require (\<forall>p. ctx_program ctx = Some p \<longrightarrow> program_contains_rip p target) Out_of_range)
    (sq (require (\<forall>im. ctx_image ctx = Some im \<longrightarrow> image_contains_rip im target) Out_of_range)
        (cpu_modify (set_rip target)))"

definition update_flags :: "(rflags \<Rightarrow> rflags) \<Rightarrow> (executor, unit) op" where
  "update_flags f = cpu_modify (flags_update f)"

section \<open>Instructions\<close>

definition execute_mov :: "bool \<Rightarrow> instruction \<Rightarrow> execution_context \<Rightarrow> (executor, unit) op" where
  "execute_mov bus i ctx =
     sq (require_at_most_one_memory_operand i)
    (bnd (read_operand bus (in_second i)) (\<lambda>v.
     sq (write_operand bus (in_first i) v)
        (set_next_rip ctx)))"

text \<open>
  The size of the source of a sign extension: that of the register, else of the memory operand, which
  an immediate does not have.
\<close>

definition movsx_source_size :: "operand \<Rightarrow> exn + data_size" where
  "movsx_source_size operand =
     (if is_register operand then sbind (register_payload operand) (\<lambda>(r, sz). Inr sz)
      else sbind (memory_payload operand) (\<lambda>(a, sz). Inr sz))"

definition execute_movsx :: "bool \<Rightarrow> instruction \<Rightarrow> execution_context \<Rightarrow> (executor, unit) op" where
  "execute_movsx bus i ctx =
     sq (require_register_operand (in_first i))
    (bnd (read_operand bus (in_second i)) (\<lambda>source.
     bnd (lift_sum (movsx_source_size (in_second i))) (\<lambda>src_size.
     bnd (lift_sum (sign_extend_value source src_size)) (\<lambda>v.
     sq (write_register_operand (in_first i) v)
        (set_next_rip ctx)))))"

definition execute_movzx :: "bool \<Rightarrow> instruction \<Rightarrow> execution_context \<Rightarrow> (executor, unit) op" where
  "execute_movzx bus i ctx =
     sq (require_register_operand (in_first i))
    (bnd (read_operand bus (in_second i)) (\<lambda>v.
     sq (write_register_operand (in_first i) v)
        (set_next_rip ctx)))"

definition execute_lea :: "instruction \<Rightarrow> execution_context \<Rightarrow> (executor, unit) op" where
  "execute_lea i ctx =
     sq (require_register_operand (in_first i))
    (sq (require_memory_operand (in_second i))
    (bnd (lift_sum (memory_payload (in_second i))) (\<lambda>(a, sz).
     with_cpu (\<lambda>c.
     sq (write_register_operand (in_first i) (calculate_effective_address a (registers c)))
        (set_next_rip ctx)))))"

definition execute_add :: "bool \<Rightarrow> instruction \<Rightarrow> execution_context \<Rightarrow> (executor, unit) op" where
  "execute_add bus i ctx =
     sq (require_at_most_one_memory_operand i)
    (bnd (read_operand bus (in_first i)) (\<lambda>left.
     bnd (read_operand bus (in_second i)) (\<lambda>right.
     let result = left + right in
     sq (write_operand bus (in_first i) result)
    (sq (update_flags (update_add left right result))
        (set_next_rip ctx)))))"

definition execute_sub :: "bool \<Rightarrow> instruction \<Rightarrow> execution_context \<Rightarrow> (executor, unit) op" where
  "execute_sub bus i ctx =
     sq (require_at_most_one_memory_operand i)
    (bnd (read_operand bus (in_first i)) (\<lambda>left.
     bnd (read_operand bus (in_second i)) (\<lambda>right.
     let result = left - right in
     sq (write_operand bus (in_first i) result)
    (sq (update_flags (update_sub left right result))
        (set_next_rip ctx)))))"

definition execute_cmp :: "bool \<Rightarrow> instruction \<Rightarrow> execution_context \<Rightarrow> (executor, unit) op" where
  "execute_cmp bus i ctx =
     sq (require_at_most_one_memory_operand i)
    (bnd (read_operand bus (in_first i)) (\<lambda>left.
     bnd (read_operand bus (in_second i)) (\<lambda>right.
     let result = left - right in
     sq (update_flags (update_sub left right result))
        (set_next_rip ctx))))"

definition execute_inc :: "bool \<Rightarrow> instruction \<Rightarrow> execution_context \<Rightarrow> (executor, unit) op" where
  "execute_inc bus i ctx =
     bnd (read_operand bus (in_first i)) (\<lambda>left.
     let result = left + 1 in
     sq (write_operand bus (in_first i) result)
    (sq (update_flags (update_inc left result))
        (set_next_rip ctx)))"

definition execute_dec :: "bool \<Rightarrow> instruction \<Rightarrow> execution_context \<Rightarrow> (executor, unit) op" where
  "execute_dec bus i ctx =
     bnd (read_operand bus (in_first i)) (\<lambda>left.
     let result = left - 1 in
     sq (write_operand bus (in_first i) result)
    (sq (update_flags (update_dec left result))
        (set_next_rip ctx)))"

definition execute_and :: "bool \<Rightarrow> instruction \<Rightarrow> execution_context \<Rightarrow> (executor, unit) op" where
  "execute_and bus i ctx =
     sq (require_at_most_one_memory_operand i)
    (bnd (read_operand bus (in_first i)) (\<lambda>left.
     bnd (read_operand bus (in_second i)) (\<lambda>right.
     let result = left AND right in
     sq (write_operand bus (in_first i) result)
    (sq (update_flags (update_logical result))
        (set_next_rip ctx)))))"

definition execute_or :: "bool \<Rightarrow> instruction \<Rightarrow> execution_context \<Rightarrow> (executor, unit) op" where
  "execute_or bus i ctx =
     sq (require_at_most_one_memory_operand i)
    (bnd (read_operand bus (in_first i)) (\<lambda>left.
     bnd (read_operand bus (in_second i)) (\<lambda>right.
     let result = left OR right in
     sq (write_operand bus (in_first i) result)
    (sq (update_flags (update_logical result))
        (set_next_rip ctx)))))"

definition execute_xor :: "bool \<Rightarrow> instruction \<Rightarrow> execution_context \<Rightarrow> (executor, unit) op" where
  "execute_xor bus i ctx =
     sq (require_at_most_one_memory_operand i)
    (bnd (read_operand bus (in_first i)) (\<lambda>left.
     bnd (read_operand bus (in_second i)) (\<lambda>right.
     let result = left XOR right in
     sq (write_operand bus (in_first i) result)
    (sq (update_flags (update_logical result))
        (set_next_rip ctx)))))"

definition execute_test :: "bool \<Rightarrow> instruction \<Rightarrow> execution_context \<Rightarrow> (executor, unit) op" where
  "execute_test bus i ctx =
     sq (require_at_most_one_memory_operand i)
    (bnd (read_operand bus (in_first i)) (\<lambda>left.
     bnd (read_operand bus (in_second i)) (\<lambda>right.
     let result = left AND right in
     sq (update_flags (update_logical result))
        (set_next_rip ctx))))"

definition execute_cmpxchg :: "bool \<Rightarrow> instruction \<Rightarrow> execution_context \<Rightarrow> (executor, unit) op" where
  "execute_cmpxchg bus i ctx =
     sq (require_at_most_one_memory_operand i)
    (sq (require_register_operand (in_second i))
    (sq (require_locked_memory_destination i)
    (with_cpu (\<lambda>c.
     let accumulator = reg_read RAX (registers c) in
     bnd (read_operand bus (in_first i)) (\<lambda>destination.
     let comparison = accumulator - destination in
     sq (update_flags (update_sub accumulator destination comparison))
    (sq (if accumulator = destination
         then bnd (read_register_operand (in_second i)) (\<lambda>v. write_operand bus (in_first i) v)
         else cpu_modify (put_reg RAX destination))
        (set_next_rip ctx)))))))"

definition execute_xadd :: "bool \<Rightarrow> instruction \<Rightarrow> execution_context \<Rightarrow> (executor, unit) op" where
  "execute_xadd bus i ctx =
     sq (require_at_most_one_memory_operand i)
    (sq (require_register_operand (in_second i))
    (sq (require_locked_memory_destination i)
    (bnd (read_operand bus (in_first i)) (\<lambda>destination.
     bnd (read_register_operand (in_second i)) (\<lambda>source.
     let result = destination + source in
     sq (write_register_operand (in_second i) destination)
    (sq (write_operand bus (in_first i) result)
    (sq (update_flags (update_add destination source result))
        (set_next_rip ctx))))))))"

definition execute_mfence :: "execution_context \<Rightarrow> (executor, unit) op" where
  "execute_mfence ctx = set_next_rip ctx"

definition execute_invlpg :: "instruction \<Rightarrow> execution_context \<Rightarrow> (executor, unit) op" where
  "execute_invlpg i ctx =
     sq (require_memory_operand (in_first i))
    (with_cpu (\<lambda>c.
     if cpl c \<noteq> RING0
     then bnd require_trap_controller (\<lambda>tc.
          sq (on_cpu (raise_exception tc vector_general_protection (Some 0)))
             (ret ()))
     else bnd (lift_sum (memory_payload (in_first i))) (\<lambda>(a, sz).
          sq (on_mmu (modify (mmu_invalidate_page_context (calculate_effective_address a (registers c))
                (paging_state.process_context_id (paging c)))))
             (set_next_rip ctx))))"

definition execute_push :: "bool \<Rightarrow> instruction \<Rightarrow> execution_context \<Rightarrow> (executor, unit) op" where
  "execute_push bus i ctx =
     bnd (read_operand bus (in_first i)) (\<lambda>v.
     sq (push_qword bus v)
        (set_next_rip ctx))"

definition execute_pop :: "bool \<Rightarrow> instruction \<Rightarrow> execution_context \<Rightarrow> (executor, unit) op" where
  "execute_pop bus i ctx =
     bnd (pop_qword bus) (\<lambda>v.
     sq (write_operand bus (in_first i) v)
        (set_next_rip ctx))"

definition execute_call :: "bool \<Rightarrow> instruction \<Rightarrow> execution_context \<Rightarrow> (executor, unit) op" where
  "execute_call bus i ctx =
     bnd (read_operand bus (in_first i)) (\<lambda>target.
     sq (push_qword bus (ctx_next_rip ctx))
        (jump_to ctx target))"

definition execute_ret :: "bool \<Rightarrow> execution_context \<Rightarrow> (executor, unit) op" where
  "execute_ret bus ctx = bnd (pop_qword bus) (jump_to ctx)"

definition execute_jmp :: "bool \<Rightarrow> instruction \<Rightarrow> execution_context \<Rightarrow> (executor, unit) op" where
  "execute_jmp bus i ctx = bnd (read_operand bus (in_first i)) (jump_to ctx)"

definition execute_je :: "bool \<Rightarrow> instruction \<Rightarrow> execution_context \<Rightarrow> (executor, unit) op" where
  "execute_je bus i ctx = with_cpu (\<lambda>c.
     if flag_read ZF (flags c) then bnd (read_operand bus (in_first i)) (jump_to ctx) else set_next_rip ctx)"

definition execute_jne :: "bool \<Rightarrow> instruction \<Rightarrow> execution_context \<Rightarrow> (executor, unit) op" where
  "execute_jne bus i ctx = with_cpu (\<lambda>c.
     if \<not> flag_read ZF (flags c) then bnd (read_operand bus (in_first i)) (jump_to ctx) else set_next_rip ctx)"

definition execute_jcc :: "bool \<Rightarrow> instruction \<Rightarrow> execution_context \<Rightarrow> (executor, unit) op" where
  "execute_jcc bus i ctx =
     bnd (test_condition (in_condition i)) (\<lambda>taken.
       if taken then bnd (read_operand bus (in_first i)) (jump_to ctx) else set_next_rip ctx)"

definition execute_setcc :: "bool \<Rightarrow> instruction \<Rightarrow> execution_context \<Rightarrow> (executor, unit) op" where
  "execute_setcc bus i ctx =
     bnd (test_condition (in_condition i)) (\<lambda>holds.
     sq (write_operand bus (in_first i) (if holds then 1 else 0))
        (set_next_rip ctx))"

definition execute_cmovcc :: "bool \<Rightarrow> instruction \<Rightarrow> execution_context \<Rightarrow> (executor, unit) op" where
  "execute_cmovcc bus i ctx =
     sq (require_register_operand (in_first i))
    (sq (require_at_most_one_memory_operand i)
    (bnd (test_condition (in_condition i)) (\<lambda>holds.
     sq (if holds then bnd (read_operand bus (in_second i)) (write_register_operand (in_first i)) else ret ())
        (set_next_rip ctx))))"

definition execute_int :: "instruction \<Rightarrow> execution_context \<Rightarrow> (executor, unit) op" where
  "execute_int i ctx =
     sq (require (is_immediate (in_first i)) Logic_error)
    (bnd (lift_sum (immediate_value (in_first i))) (\<lambda>vector_value.
     sq (require (\<not> (sint vector_value < 0 \<or> sint vector_value > 255)) Logic_error)
    (bnd require_trap_controller (\<lambda>tc.
     sq (on_cpu (raise_software_interrupt tc (ucast vector_value) (ctx_next_rip ctx)))
        (ret ())))))"

definition execute_syscall :: "execution_context \<Rightarrow> (executor, unit) op" where
  "execute_syscall ctx = bnd require_trap_controller (\<lambda>tc.
     sq (on_cpu (enter_syscall tc (ctx_next_rip ctx))) (ret ()))"

definition execute_sysret :: "(executor, unit) op" where
  "execute_sysret = bnd require_trap_controller (\<lambda>tc. on_cpu return_from_syscall)"

definition execute_iret :: "(executor, unit) op" where
  "execute_iret = bnd require_trap_controller (\<lambda>tc. on_cpu return_from_trap)"

definition execute_hlt :: "execution_context \<Rightarrow> (executor, unit) op" where
  "execute_hlt ctx = sq (set_next_rip ctx) (cpu_modify cpu_halt)"

definition execute_instruction :: "bool \<Rightarrow> instruction \<Rightarrow> execution_context \<Rightarrow> (executor, unit) op" where
  "execute_instruction bus i ctx = (case in_opcode i of
       OP_MOV \<Rightarrow> execute_mov bus i ctx
     | OP_MOVSX \<Rightarrow> execute_movsx bus i ctx
     | OP_MOVZX \<Rightarrow> execute_movzx bus i ctx
     | OP_LEA \<Rightarrow> execute_lea i ctx
     | OP_ADD \<Rightarrow> execute_add bus i ctx
     | OP_SUB \<Rightarrow> execute_sub bus i ctx
     | OP_CMP \<Rightarrow> execute_cmp bus i ctx
     | OP_INC \<Rightarrow> execute_inc bus i ctx
     | OP_DEC \<Rightarrow> execute_dec bus i ctx
     | OP_AND \<Rightarrow> execute_and bus i ctx
     | OP_OR \<Rightarrow> execute_or bus i ctx
     | OP_XOR \<Rightarrow> execute_xor bus i ctx
     | OP_TEST \<Rightarrow> execute_test bus i ctx
     | OP_CMPXCHG \<Rightarrow> execute_cmpxchg bus i ctx
     | OP_XADD \<Rightarrow> execute_xadd bus i ctx
     | OP_MFENCE \<Rightarrow> execute_mfence ctx
     | OP_INVLPG \<Rightarrow> execute_invlpg i ctx
     | OP_PUSH \<Rightarrow> execute_push bus i ctx
     | OP_POP \<Rightarrow> execute_pop bus i ctx
     | OP_CALL \<Rightarrow> execute_call bus i ctx
     | OP_RET \<Rightarrow> execute_ret bus ctx
     | OP_JMP \<Rightarrow> execute_jmp bus i ctx
     | OP_JE \<Rightarrow> execute_je bus i ctx
     | OP_JNE \<Rightarrow> execute_jne bus i ctx
     | OP_JCC \<Rightarrow> execute_jcc bus i ctx
     | OP_SETCC \<Rightarrow> execute_setcc bus i ctx
     | OP_CMOVCC \<Rightarrow> execute_cmovcc bus i ctx
     | OP_INT \<Rightarrow> execute_int i ctx
     | OP_SYSCALL \<Rightarrow> execute_syscall ctx
     | OP_SYSRET \<Rightarrow> execute_sysret
     | OP_IRET \<Rightarrow> execute_iret
     | OP_HLT \<Rightarrow> execute_hlt ctx
     | OP_COUNT \<Rightarrow> throw Logic_error)"

section \<open>Steps\<close>

definition check_instruction_fetch :: "bool \<Rightarrow> address64 \<Rightarrow> address64 \<Rightarrow> (executor, unit) op" where
  "check_instruction_fetch bus start_rip next_rip = with_cpu (\<lambda>c.
     if \<not> paging_enabled (paging c) then ret ()
     else sq (require bus Logic_error)
         (on_mmu (check_access_range (paging c) (cpl c) start_rip (unat (next_rip - start_rip)) EXECUTE)))"

definition record_stage8_instruction_fetch :: "address64 \<Rightarrow> address64 \<Rightarrow> (executor, unit) op" where
  "record_stage8_instruction_fetch start_rip next_rip =
     on_mmu (record_event (Instruction_fetch start_rip (unat (next_rip - start_rip))))"

definition is_control_flow_opcode :: "opcode \<Rightarrow> bool" where
  "is_control_flow_opcode o' \<longleftrightarrow>
     o' \<in> {OP_CALL, OP_RET, OP_JMP, OP_JE, OP_JNE, OP_JCC, OP_INT, OP_SYSCALL, OP_SYSRET, OP_IRET}"

definition record_stage8_retired_instruction :: "instruction \<Rightarrow> address64 \<Rightarrow> (executor, unit) op" where
  "record_stage8_retired_instruction i fallthrough_rip = with_cpu (\<lambda>c.
     let control_flow = is_control_flow_opcode (in_opcode i) in
     on_mmu (record_event (Retired_instruction control_flow (control_flow \<and> rip c \<noteq> fallthrough_rip))))"

definition record_stage8_exception_flush :: "(executor, unit) op" where
  "record_stage8_exception_flush = on_mmu (record_event Exception_flush)"

definition exec_handle_page_fault :: "page_fault \<Rightarrow> (executor, unit) op" where
  "exec_handle_page_fault fault = (\<lambda>s. case ex_trap s of
     None \<Rightarrow> (Inl (Page_fault fault), s)
   | Some tc \<Rightarrow>
     sq (cpu_modify (\<lambda>c. c\<lparr>paging := set_page_fault_linear_address (pf_linear_address fault) (paging c)\<rparr>))
    (sq (on_cpu (raise_exception tc vector_page_fault (Some (pf_error_code fault))))
        (ret ())) s)"

text \<open>The body of the \<^verbatim>\<open>try\<close> block of both step functions, and the block with its handler.\<close>

definition guarded_body ::
  "bool \<Rightarrow> instruction \<Rightarrow> execution_context \<Rightarrow> address64 \<Rightarrow> (executor, unit) op" where
  "guarded_body bus i ctx start_rip =
     sq (check_instruction_fetch bus start_rip (ctx_next_rip ctx))
    (sq (record_stage8_instruction_fetch start_rip (ctx_next_rip ctx))
    (sq (execute_instruction bus i ctx)
        (record_stage8_retired_instruction i (ctx_next_rip ctx))))"

definition execute_guarded ::
  "bool \<Rightarrow> instruction \<Rightarrow> execution_context \<Rightarrow> address64 \<Rightarrow> (executor, unit) op" where
  "execute_guarded bus i ctx start_rip =
     catch_exn (guarded_body bus i ctx start_rip)
      (\<lambda>e. case e of
         Page_fault fault \<Rightarrow> sq record_stage8_exception_flush (exec_handle_page_fault fault)
       | _ \<Rightarrow> throw e)"

definition finish_step :: "instruction \<Rightarrow> address64 \<Rightarrow> (executor, step_result) op" where
  "finish_step i rip_before =
     sq (modify (ex_cycles_update (\<lambda>n. n + 1)))
    (sq (\<lambda>s. modify (ex_trace_update (map_option (\<lambda>tr. tr @
          [\<lparr>te_cycle_count = ex_cycles s, te_rip_before = rip_before, te_rip_after = rip (ex_cpu s),
            te_opcode = in_opcode i, te_halted_after = halted (ex_cpu s),
            te_trap_pending_after = pending_trap (ex_cpu s) \<noteq> None\<rparr>]))) s)
        (gets (\<lambda>s. if halted (ex_cpu s) then STEP_HALTED else STEP_EXECUTED)))"

definition step_with_memory :: "program \<Rightarrow> bool \<Rightarrow> (executor, step_result) op" where
  "step_with_memory prog bus = with_cpu (\<lambda>c.
     if halted c then ret STEP_HALTED
     else bnd (lift_sum (instruction_at prog (rip c))) (\<lambda>i.
       let ctx = \<lparr>ctx_program = Some prog, ctx_image = None, ctx_next_rip = rip c + 1\<rparr> in
       sq (execute_guarded bus i ctx (rip c))
          (finish_step i (rip c))))"

text \<open>The loop of \<^verbatim>\<open>run_with_memory\<close>, by recursion on the steps that are left.\<close>

fun run_loop :: "program \<Rightarrow> bool \<Rightarrow> nat \<Rightarrow> nat \<Rightarrow> (executor, nat) op" where
  "run_loop prog bus 0 executed =
     with_cpu (\<lambda>c. if \<not> halted c then throw Runtime_error else ret executed)"
| "run_loop prog bus (Suc left) executed =
     with_cpu (\<lambda>c. if halted c then ret executed
       else sq (step_with_memory prog bus) (run_loop prog bus left (Suc executed)))"

definition run_with_memory :: "program \<Rightarrow> bool \<Rightarrow> nat \<Rightarrow> (executor, nat) op" where
  "run_with_memory prog bus max_steps = run_loop prog bus max_steps 0"

definition executor_reset :: "executor \<Rightarrow> executor" where
  "executor_reset s = s\<lparr>ex_cycles := 0, ex_mmu := mmu_perf_update (map_option (\<lambda>_. [])) (ex_mmu s)\<rparr>"

definition attach_trap_controller :: "trap_controller \<Rightarrow> executor \<Rightarrow> executor" where
  "attach_trap_controller tc s = s\<lparr>ex_trap := Some tc\<rparr>"

definition detach_trap_controller :: "executor \<Rightarrow> executor" where
  "detach_trap_controller s = s\<lparr>ex_trap := None\<rparr>"

section \<open>Signed and unsigned readings of the flags\<close>

lemma has_qword_sign_bit_uint: "has_qword_sign_bit w \<longleftrightarrow> 2 ^ 63 \<le> uint w"
proof -
  have "has_qword_sign_bit w \<longleftrightarrow> bit (uint w) 63"
    unfolding has_qword_sign_bit_def and_push_bit_one_neq_0 by (simp add: bit_uint_iff)
  also have "\<dots> \<longleftrightarrow> odd (uint w div 2 ^ 63)" by (simp add: bit_iff_odd)
  also have "\<dots> \<longleftrightarrow> 2 ^ 63 \<le> uint w"
  proof -
    have "0 \<le> uint w" "uint w < 2 ^ 64" using uint_lt2p [of w] by auto
    then have "uint w div 2 ^ 63 = (if 2 ^ 63 \<le> uint w then 1 else 0)"
      by (auto simp: div_pos_geq div_pos_pos_trivial zdiv_zminus1_eq_if intro!: int_div_pos_eq [where r = "uint w - 2 ^ 63"])
    then show ?thesis by simp
  qed
  finally show ?thesis .
qed

lemma sint_qword: "sint w = (if has_qword_sign_bit w then uint w - 2 ^ 64 else uint w)" for w :: qword
proof -
  have b: "0 \<le> uint w" "uint w < 2 ^ 64" using uint_lt2p [of w] by auto
  have "sint w = (uint w + 2 ^ 63) mod 2 ^ 64 - 2 ^ 63"
    by (simp add: sint_uint signed_take_bit_eq_take_bit_shift take_bit_eq_mod)
  moreover have "(uint w + 2 ^ 63) mod 2 ^ 64 = uint w + 2 ^ 63 - 2 ^ 64" if "2 ^ 63 \<le> uint w"
    using b that by (subst mod_pos_geq) (auto simp: mod_pos_pos_trivial)
  moreover have "(uint w + 2 ^ 63) mod 2 ^ 64 = uint w + 2 ^ 63" if "\<not> 2 ^ 63 \<le> uint w"
    using b that by (intro mod_pos_pos_trivial) auto
  ultimately show ?thesis by (auto simp: has_qword_sign_bit_uint)
qed

lemma uint_qword_bounds: "0 \<le> uint w" "uint w < 2 * 2 ^ 63" for w :: qword
  using uint_lt2p [of w] by auto

lemma sint_qword_uint: "sint w = (if 2 ^ 63 \<le> uint w then uint w - 2 * 2 ^ 63 else uint w)" for w :: qword
  by (simp add: sint_qword has_qword_sign_bit_uint)

text \<open>The integer facts behind the signed flags, with \<open>d\<close> the wrapped difference or sum of \<open>x\<close> and \<open>y\<close>.\<close>

lemma wrapped_difference:
  fixes x y d M :: int
  assumes "0 \<le> x" "x < 2 * M" "0 \<le> y" "y < 2 * M" and d: "d = (if y \<le> x then x - y else x - y + 2 * M)"
  defines "sx w \<equiv> if M \<le> w then w - 2 * M else w"
  shows "((M \<le> d) \<noteq> ((M \<le> x) \<noteq> (M \<le> y) \<and> (M \<le> d) \<noteq> (M \<le> x))) = (sx x < sx y)"
    and "((M \<le> x) \<noteq> (M \<le> y) \<and> (M \<le> d) \<noteq> (M \<le> x)) = (sx x - sx y \<noteq> sx d)"
  using assms by (cases "M \<le> x"; cases "M \<le> y"; cases "y \<le> x"; simp; linarith)+

lemma wrapped_sum:
  fixes x y d M :: int
  assumes "0 \<le> x" "x < 2 * M" "0 \<le> y" "y < 2 * M" and d: "d = (if x + y < 2 * M then x + y else x + y - 2 * M)"
  defines "sx w \<equiv> if M \<le> w then w - 2 * M else w"
  shows "((M \<le> x) = (M \<le> y) \<and> (M \<le> d) \<noteq> (M \<le> x)) = (sx x + sx y \<noteq> sx d)"
    and "(d < x) = (x + y \<noteq> d)"
  using assms by (cases "M \<le> x"; cases "M \<le> y"; cases "x + y < 2 * M"; simp; linarith)+

lemma sub_flags:
  fixes l r :: qword
  shows "(has_qword_sign_bit (l - r) \<noteq>
      (has_qword_sign_bit l \<noteq> has_qword_sign_bit r \<and> has_qword_sign_bit (l - r) \<noteq> has_qword_sign_bit l)) =
      (sint l < sint r)"
    and "(has_qword_sign_bit l \<noteq> has_qword_sign_bit r \<and> has_qword_sign_bit (l - r) \<noteq> has_qword_sign_bit l) =
      (sint l - sint r \<noteq> sint (l - r))"
proof -
  have "uint (l - r) = (if uint r \<le> uint l then uint l - uint r else uint l - uint r + 2 * 2 ^ 63)"
    by (simp add: uint_sub_if')
  note w = wrapped_difference [OF _ _ _ _ this]
  show "(has_qword_sign_bit (l - r) \<noteq>
      (has_qword_sign_bit l \<noteq> has_qword_sign_bit r \<and> has_qword_sign_bit (l - r) \<noteq> has_qword_sign_bit l)) =
      (sint l < sint r)"
    and "(has_qword_sign_bit l \<noteq> has_qword_sign_bit r \<and> has_qword_sign_bit (l - r) \<noteq> has_qword_sign_bit l) =
      (sint l - sint r \<noteq> sint (l - r))"
    unfolding sint_qword_uint has_qword_sign_bit_uint by (rule w; rule uint_qword_bounds)+
qed

lemma add_flags:
  fixes l r :: qword
  shows "(has_qword_sign_bit l = has_qword_sign_bit r \<and> has_qword_sign_bit (l + r) \<noteq> has_qword_sign_bit l) =
      (sint l + sint r \<noteq> sint (l + r))"
    and "(l + r < l) = (uint l + uint r \<noteq> uint (l + r))"
proof -
  have "uint (l + r) = (if uint l + uint r < 2 * 2 ^ 63 then uint l + uint r else uint l + uint r - 2 * 2 ^ 63)"
    by (simp add: uint_plus_if')
  note w = wrapped_sum [OF _ _ _ _ this]
  show "(has_qword_sign_bit l = has_qword_sign_bit r \<and> has_qword_sign_bit (l + r) \<noteq> has_qword_sign_bit l) =
      (sint l + sint r \<noteq> sint (l + r))"
    and "(l + r < l) = (uint l + uint r \<noteq> uint (l + r))"
    unfolding sint_qword_uint has_qword_sign_bit_uint word_less_def by (rule w; rule uint_qword_bounds)+
qed

lemma flag_read_update_sub:
  "flag_read CF (update_sub l r x raw) \<longleftrightarrow> l < r"
  "flag_read OF (update_sub l r x raw) \<longleftrightarrow>
     has_qword_sign_bit l \<noteq> has_qword_sign_bit r \<and> has_qword_sign_bit x \<noteq> has_qword_sign_bit l"
  "flag_read ZF (update_sub l r x raw) \<longleftrightarrow> x = 0"
  "flag_read SF (update_sub l r x raw) \<longleftrightarrow> has_qword_sign_bit x"
  "flag_read PF (update_sub l r x raw) \<longleftrightarrow> has_even_low_byte_parity x"
  by (simp_all add: update_sub_def flag_read_write update_zero_sign_parity_from_qword_def
      update_zero_sign_from_qword_def has_qword_sign_bit_def make_qword_sign_mask_def)

text \<open>What each condition means after a comparison of \<open>l\<close> with \<open>r\<close>.\<close>

fun condition_of_comparison :: "qword \<Rightarrow> qword \<Rightarrow> condition_code \<Rightarrow> bool" where
  "condition_of_comparison l r CC_O \<longleftrightarrow> sint l - sint r \<noteq> sint (l - r)"
| "condition_of_comparison l r CC_NO \<longleftrightarrow> sint l - sint r = sint (l - r)"
| "condition_of_comparison l r CC_B \<longleftrightarrow> l < r"
| "condition_of_comparison l r CC_AE \<longleftrightarrow> r \<le> l"
| "condition_of_comparison l r CC_E \<longleftrightarrow> l = r"
| "condition_of_comparison l r CC_NE \<longleftrightarrow> l \<noteq> r"
| "condition_of_comparison l r CC_BE \<longleftrightarrow> l \<le> r"
| "condition_of_comparison l r CC_A \<longleftrightarrow> r < l"
| "condition_of_comparison l r CC_S \<longleftrightarrow> sint (l - r) < 0"
| "condition_of_comparison l r CC_NS \<longleftrightarrow> 0 \<le> sint (l - r)"
| "condition_of_comparison l r CC_P \<longleftrightarrow> has_even_low_byte_parity (l - r)"
| "condition_of_comparison l r CC_NP \<longleftrightarrow> \<not> has_even_low_byte_parity (l - r)"
| "condition_of_comparison l r CC_L \<longleftrightarrow> sint l < sint r"
| "condition_of_comparison l r CC_GE \<longleftrightarrow> sint r \<le> sint l"
| "condition_of_comparison l r CC_LE \<longleftrightarrow> sint l \<le> sint r"
| "condition_of_comparison l r CC_G \<longleftrightarrow> sint r < sint l"
| "condition_of_comparison l r CC_COUNT \<longleftrightarrow> False"

lemma sign_bit_sint: "has_qword_sign_bit w \<longleftrightarrow> sint w < 0" for w :: qword
  using uint_qword_bounds [of w] by (auto simp: sint_qword)

lemma evaluate_condition_comparison:
  assumes "is_condition_code_valid cc"
  shows "evaluate_condition (update_sub l r (l - r) raw) cc = Inr (condition_of_comparison l r cc)"
proof -
  define fl where "fl = update_sub l r (l - r) raw"
  have eq: "sint l = sint r \<longleftrightarrow> l = r" by (rule word_eq_iff_signed [symmetric])
  have C: "flag_read CF fl = (l < r)" and Z: "flag_read ZF fl = (l = r)"
    and P: "flag_read PF fl = has_even_low_byte_parity (l - r)" and S: "flag_read SF fl = (sint (l - r) < 0)"
    and V: "flag_read OF fl = (sint l - sint r \<noteq> sint (l - r))"
    unfolding fl_def flag_read_update_sub sub_flags sign_bit_sint [symmetric] by simp_all
  have L: "(flag_read SF fl \<noteq> flag_read OF fl) = (sint l < sint r)"
    unfolding fl_def flag_read_update_sub by (rule sub_flags(1))
  show ?thesis
  proof (cases "cc \<in> {CC_L, CC_GE, CC_LE, CC_G}")
    case True
    have "(flag_read SF fl = flag_read OF fl) = (sint r \<le> sint l)" using L by auto
    moreover have "sint l \<le> sint r \<longleftrightarrow> l = r \<or> sint l < sint r" "sint r < sint l \<longleftrightarrow> l \<noteq> r \<and> sint r \<le> sint l"
      using eq by auto
    ultimately show ?thesis
      using True L Z by (auto simp: evaluate_condition_def Let_def fl_def [symmetric])
  next
    case False
    with assms show ?thesis
      by (cases cc) (auto simp: evaluate_condition_def Let_def fl_def [symmetric] is_condition_code_valid_def C Z P S V)
  qed
qed

section \<open>Register operands\<close>

fun size_bits :: "data_size \<Rightarrow> nat" where
  "size_bits BYTE = 8" | "size_bits WORD = 16" | "size_bits DWORD = 32" | "size_bits QWORD = 64"
| "size_bits DATA_SIZE_COUNT = 0"

lemma mask_for_data_size_run: "is_data_size_valid sz \<Longrightarrow> mask_for_data_size sz = Inr (mask (size_bits sz))"
  by (cases sz) (simp_all add: mask_eq_exp_minus_1)

lemma and_mask_64 [simp]: "w AND mask 64 = w" for w :: qword
  by (intro bit_eqI) (auto simp: bit_simps dest: bit_imp_le_length)

lemma sign_extend_value_run:
  assumes "is_data_size_valid sz"
  shows "sign_extend_value v sz = Inr (signed_take_bit (size_bits sz - 1) v)"
proof -
  let ?n = "size_bits sz"
  have n: "0 < ?n" "?n \<le> 64" using assms by (cases sz; simp)+
  have bits: "data_size_to_bits sz = Inr ?n" using assms by (cases sz) auto
  have "(v AND mask ?n) AND push_bit (?n - 1) 1 = 0 \<longleftrightarrow> \<not> bit v (?n - 1)"
    unfolding and_push_bit_one_eq_0 using n by (auto simp: bit_simps)
  moreover have "v AND mask ?n = signed_take_bit (?n - 1) v" if "\<not> bit v (?n - 1)"
    using that n by (intro bit_eqI) (auto simp: bit_simps min_def le_less Suc_lessI dest: less_SucE)
  moreover have "(v AND mask ?n) OR NOT (mask ?n) = signed_take_bit (?n - 1) v" if "bit v (?n - 1)"
    using that n by (intro bit_eqI) (auto simp: bit_simps min_def le_less Suc_lessI not_less)
  ultimately show ?thesis
    using assms by (simp add: sign_extend_value_def mask_for_data_size_run sign_bit_index_for_data_size_def bits sbind_def Let_def)
qed

text \<open>The value a register has after a write of \<open>v\<close> at width \<open>sz\<close> over the value \<open>old\<close>.\<close>

definition merge_register :: "data_size \<Rightarrow> qword \<Rightarrow> qword \<Rightarrow> qword" where
  "merge_register sz old v =
     (if sz = QWORD \<or> sz = DWORD then v AND mask (size_bits sz)
      else (old AND NOT (mask (size_bits sz))) OR (v AND mask (size_bits sz)))"

lemma write_register_operand_run:
  assumes "is_data_size_valid sz"
  shows "write_register_operand (Op_reg r sz) v s =
    (Inr (), s\<lparr>ex_cpu := put_reg r (merge_register sz (reg_read r (registers (ex_cpu s))) v) (ex_cpu s)\<rparr>)"
  using mask_for_data_size_run [OF assms]
  by (simp add: write_register_operand_def op_simps cpu_modify_def with_cpu_def merge_register_def Let_def)

lemma read_register_operand_run:
  assumes "is_data_size_valid sz"
  shows "read_register_operand (Op_reg r sz) s = (Inr (reg_read r (registers (ex_cpu s)) AND mask (size_bits sz)), s)"
  using mask_for_data_size_run [OF assms]
  by (simp add: read_register_operand_def with_cpu_def op_simps sbind_def)

lemma bit_merge_register:
  "k < 64 \<Longrightarrow> bit (merge_register sz old v) k \<longleftrightarrow>
     (if k < size_bits sz then bit v k else sz \<noteq> DWORD \<and> bit old k)"
  by (cases sz) (auto simp: merge_register_def bit_simps)

section \<open>Instructions that fault can be restarted\<close>

text \<open>
  A view \<open>v\<close> of the processor that an operation leaves alone (\<open>view_pure\<close>), leaves alone when it ends
  in a page fault (\<open>restartable\<close>), and an operation that never ends in one (\<open>no_fault\<close>).
\<close>

definition no_fault :: "(executor, 'a) op \<Rightarrow> bool" where
  "no_fault m \<longleftrightarrow> (\<forall>s f. fst (m s) \<noteq> Inl (Page_fault f))"

definition restartable :: "(cpu_state \<Rightarrow> 'v) \<Rightarrow> (executor, 'a) op \<Rightarrow> bool" where
  "restartable v m \<longleftrightarrow> (\<forall>s f s'. m s = (Inl (Page_fault f), s') \<longrightarrow> v (ex_cpu s') = v (ex_cpu s))"

definition view_pure :: "(cpu_state \<Rightarrow> 'v) \<Rightarrow> (executor, 'a) op \<Rightarrow> bool" where
  "view_pure v m \<longleftrightarrow> (\<forall>s. v (ex_cpu (snd (m s))) = v (ex_cpu s))"

named_theorems restart_intros "rules for operations that can be restarted"

lemma no_fault_basic [restart_intros]:
  "no_fault (ret x)" "no_fault (require c Logic_error)" "no_fault (require c Out_of_range)" "no_fault (throw Logic_error)"
  "no_fault (cpu_modify f)" "no_fault (update_flags g)" "no_fault (set_next_rip ctx)"
  by (simp_all add: no_fault_def op_simps cpu_modify_def update_flags_def set_next_rip_def)

lemma no_fault_bnd [restart_intros]: "no_fault m \<Longrightarrow> (\<And>x. no_fault (f x)) \<Longrightarrow> no_fault (bnd m f)"
  unfolding no_fault_def bnd_def by (auto split: prod.splits sum.splits) (metis fst_conv)+

lemma no_fault_sq [restart_intros]: "no_fault m \<Longrightarrow> no_fault n \<Longrightarrow> no_fault (sq m n)"
  unfolding sq_def by (rule no_fault_bnd)

lemma no_fault_with_cpu [restart_intros]: "(\<And>c. no_fault (f c)) \<Longrightarrow> no_fault (with_cpu f)"
  by (simp add: no_fault_def with_cpu_def)

lemma no_fault_restartable: "no_fault m \<Longrightarrow> restartable v m"
  unfolding no_fault_def restartable_def by (metis fst_conv)

lemma view_pure_restartable: "view_pure v m \<Longrightarrow> restartable v m"
  unfolding view_pure_def restartable_def by (metis snd_conv)

lemma restartable_bnd:
  "view_pure v m \<Longrightarrow> (\<And>x. restartable v (f x)) \<Longrightarrow> restartable v (bnd m f)"
  unfolding view_pure_def restartable_def bnd_def
  by (auto split: prod.splits sum.splits) (metis snd_conv)+

lemma restartable_bnd_no_fault:
  "restartable v m \<Longrightarrow> (\<And>x. no_fault (f x)) \<Longrightarrow> restartable v (bnd m f)"
  unfolding no_fault_def restartable_def bnd_def
  by (auto split: prod.splits sum.splits) (metis fst_conv)+

lemma restartable_sq:
  "view_pure v m \<Longrightarrow> restartable v n \<Longrightarrow> restartable v (sq m n)"
  unfolding sq_def by (rule restartable_bnd)

lemma restartable_sq_no_fault:
  "restartable v m \<Longrightarrow> no_fault n \<Longrightarrow> restartable v (sq m n)"
  unfolding sq_def by (rule restartable_bnd_no_fault)

lemma restartable_with_cpu: "(\<And>c. restartable v (f c)) \<Longrightarrow> restartable v (with_cpu f)"
  by (simp add: restartable_def with_cpu_def)

lemma view_pure_basic:
  "view_pure v (ret x)" "view_pure v (require c e)" "view_pure v (throw e)" "view_pure v (lift_sum r)"
  "view_pure v (on_mmu m)"
  by (simp_all add: view_pure_def op_simps on_mmu_def split: prod.split)

lemma view_pure_bnd: "view_pure v m \<Longrightarrow> (\<And>x. view_pure v (f x)) \<Longrightarrow> view_pure v (bnd m f)"
  unfolding view_pure_def bnd_def by (auto split: prod.splits sum.splits) (metis snd_conv)+

lemma view_pure_sq: "view_pure v m \<Longrightarrow> view_pure v n \<Longrightarrow> view_pure v (sq m n)"
  unfolding sq_def by (rule view_pure_bnd)

lemma view_pure_with_cpu: "(\<And>c. view_pure v (f c)) \<Longrightarrow> view_pure v (with_cpu f)"
  by (simp add: view_pure_def with_cpu_def)

lemma no_fault_lift_sum: "(\<And>f. r \<noteq> Inl (Page_fault f)) \<Longrightarrow> no_fault (lift_sum r)"
  by (simp add: no_fault_def op_simps)

lemma no_fault_payloads [restart_intros]:
  "no_fault (lift_sum (register_payload p))" "no_fault (lift_sum (memory_payload p))"
  "no_fault (lift_sum (immediate_value p))" "no_fault (lift_sum (mask_for_data_size sz))"
  "no_fault (lift_sum (evaluate_condition fl cc))" "no_fault (lift_sum (movsx_source_size p))"
proof -
  show "no_fault (lift_sum (register_payload p))" "no_fault (lift_sum (memory_payload p))"
    "no_fault (lift_sum (immediate_value p))" "no_fault (lift_sum (movsx_source_size p))"
    by (rule no_fault_lift_sum; cases p; simp add: movsx_source_size_def sbind_def)+
  show "no_fault (lift_sum (mask_for_data_size sz))" by (rule no_fault_lift_sum; cases sz; simp)
  show "no_fault (lift_sum (evaluate_condition fl cc))"
    by (rule no_fault_lift_sum; cases cc; simp add: evaluate_condition_def Let_def)
qed

lemma no_fault_sign_extend [restart_intros]: "no_fault (lift_sum (sign_extend_value w sz))"
  by (rule no_fault_lift_sum; cases sz; simp add: sign_extend_value_def sign_bit_index_for_data_size_def sbind_def Let_def)

lemma no_fault_read_register [restart_intros]: "no_fault (read_register_operand p)"
proof -
  have "sbind (register_payload p) (\<lambda>(r, sz). sbind (mask_for_data_size sz) (\<lambda>m. Inr (g r m))) \<noteq> Inl (Page_fault f)"
    for f and g :: "register_id \<Rightarrow> qword \<Rightarrow> qword"
    by (cases p; simp add: sbind_def) (rename_tac r sz; case_tac sz; simp)
  from this [of "\<lambda>r m. reg_read r (registers c) AND m" for c] show ?thesis
    unfolding read_register_operand_def by (intro no_fault_with_cpu no_fault_lift_sum)
qed

lemma no_fault_write_register [restart_intros]: "no_fault (write_register_operand p w)"
  unfolding write_register_operand_def Let_def
  by (intro restart_intros; clarsimp split: prod.split;
      intro restart_intros; simp add: restart_intros no_fault_with_cpu)

lemma no_fault_jump_to [restart_intros]: "no_fault (jump_to ctx a)"
  unfolding jump_to_def by (intro restart_intros)

lemma no_fault_test_condition [restart_intros]: "no_fault (test_condition cc)"
  unfolding test_condition_def by (intro restart_intros)

lemma no_fault_require_trap_controller [restart_intros]: "no_fault require_trap_controller"
  by (simp add: no_fault_def require_trap_controller_def split: option.split)

text \<open>The trap controller never faults on memory.\<close>

lemma no_fault_on_cpu: "(\<And>c f. fst (m c) \<noteq> Inl (Page_fault f)) \<Longrightarrow> no_fault (on_cpu m)"
  by (simp add: no_fault_def on_cpu_def op_simps split: prod.split) (metis fst_conv)

lemma no_fault_traps [restart_intros]:
  "no_fault (on_cpu (raise_exception tc w code))" "no_fault (on_cpu (raise_software_interrupt tc w a))"
  "no_fault (on_cpu (enter_syscall tc a))" "no_fault (on_cpu return_from_syscall)" "no_fault (on_cpu return_from_trap)"
proof -
  show "no_fault (on_cpu (raise_exception tc w code))" "no_fault (on_cpu (raise_software_interrupt tc w a))"
    by (rule no_fault_on_cpu; simp add: raise_exception_def raise_software_interrupt_def dispatch_gate_trap_run)+
  show "no_fault (on_cpu (enter_syscall tc a))"
  proof (rule no_fault_on_cpu)
    show "fst (enter_syscall tc a c) \<noteq> Inl (Page_fault f)" for c f
      by (cases "sc_enabled (tc_syscall tc)") (simp_all add: enter_syscall_run, simp add: enter_syscall_def)
  qed
  show "no_fault (on_cpu return_from_syscall)" "no_fault (on_cpu return_from_trap)"
    by (rule no_fault_on_cpu; simp add: return_from_syscall_def return_from_trap_def op_simps split: option.split)+
qed

lemma view_pure_reads:
  "view_pure v (read_register_operand p)" "view_pure v (read_operand bus p)" "view_pure v (test_condition cc)"
  "view_pure v (require_at_most_one_memory_operand i)" "view_pure v (require_register_operand p)"
  "view_pure v (require_memory_operand p)" "view_pure v (require_locked_memory_destination i)"
  "view_pure v require_trap_controller"
proof -
  show reg: "view_pure v (read_register_operand p)"
    unfolding read_register_operand_def by (intro view_pure_with_cpu view_pure_basic)
  have "view_pure v (read_memory_operand bus p)"
    unfolding read_memory_operand_def require_memory_bus_def
    by (intro view_pure_with_cpu view_pure_sq view_pure_bnd view_pure_basic) (clarsimp simp: view_pure_basic split: prod.split)
  with reg show "view_pure v (read_operand bus p)" by (simp add: read_operand_def view_pure_basic)
  show "view_pure v (test_condition cc)" unfolding test_condition_def by (intro view_pure_with_cpu view_pure_basic)
  show "view_pure v require_trap_controller"
    by (simp add: require_trap_controller_def view_pure_def split: option.split)
qed (simp_all only: require_at_most_one_memory_operand_def require_register_operand_def require_memory_operand_def
      require_locked_memory_destination_def view_pure_basic)

lemma restartable_write_operand: "restartable v (write_operand bus p w)"
proof -
  have "view_pure v (write_memory_operand bus p w)"
    unfolding write_memory_operand_def require_memory_bus_def
    by (intro view_pure_with_cpu view_pure_sq view_pure_bnd view_pure_basic) (clarsimp simp: view_pure_basic split: prod.split)
  then show ?thesis
    by (simp add: write_operand_def view_pure_restartable no_fault_restartable no_fault_write_register view_pure_basic)
qed

lemma no_fault_write_operand: "\<not> is_memory p \<Longrightarrow> no_fault (write_operand bus p w)"
  by (simp add: write_operand_def no_fault_write_register no_fault_basic)

lemma restartable_stack: "restartable v (push_qword bus w)" "restartable v (pop_qword bus)"
proof -
  show "restartable v (push_qword bus w)"
    unfolding push_qword_def require_memory_bus_def Let_def
    by (intro restartable_with_cpu restartable_sq view_pure_basic restartable_sq_no_fault view_pure_restartable no_fault_basic)
  show "restartable v (pop_qword bus)"
    unfolding pop_qword_def require_memory_bus_def Let_def
    by (intro restartable_with_cpu restartable_sq view_pure_basic restartable_bnd_no_fault view_pure_restartable
        no_fault_sq no_fault_basic)
qed

text \<open>
  The three instructions that write twice: they change a register or the flags before a store to memory
  that may still fault.
\<close>

definition fault_clean :: "instruction \<Rightarrow> bool" where
  "fault_clean i \<longleftrightarrow> \<not> (in_opcode i \<in> {OP_POP, OP_XADD, OP_CMPXCHG} \<and> is_memory (in_first i))"

lemmas restartable_rules = restartable_sq restartable_bnd restartable_with_cpu view_pure_reads
  restartable_sq_no_fault restartable_bnd_no_fault restartable_write_operand restartable_stack

lemma restartable_moves:
  "restartable v (execute_mov bus i ctx)" "restartable v (execute_movsx bus i ctx)"
  "restartable v (execute_movzx bus i ctx)" "restartable v (execute_lea i ctx)"
proof -
  show "restartable v (execute_mov bus i ctx)"
    unfolding execute_mov_def
    by (intro restartable_sq restartable_bnd view_pure_reads restartable_sq_no_fault restartable_write_operand restart_intros)
  show "restartable v (execute_movsx bus i ctx)" "restartable v (execute_movzx bus i ctx)"
    unfolding execute_movsx_def execute_movzx_def
    by (intro restartable_sq restartable_bnd view_pure_reads no_fault_restartable restart_intros)+
  show "restartable v (execute_lea i ctx)"
    unfolding execute_lea_def
    by (intro restartable_sq view_pure_reads no_fault_restartable restart_intros) (clarsimp split: prod.split; intro restart_intros)
qed

lemma restartable_alu:
  "restartable v (execute_add bus i ctx)" "restartable v (execute_sub bus i ctx)" "restartable v (execute_cmp bus i ctx)"
  "restartable v (execute_inc bus i ctx)" "restartable v (execute_dec bus i ctx)" "restartable v (execute_and bus i ctx)"
  "restartable v (execute_or bus i ctx)" "restartable v (execute_xor bus i ctx)" "restartable v (execute_test bus i ctx)"
proof -
  have write_then: "restartable v (sq (write_operand bus p w) (sq (update_flags g) (set_next_rip ctx)))" for p w g
    by (intro restartable_sq_no_fault restartable_write_operand restart_intros)
  have flags_then: "restartable v (sq (update_flags g) (set_next_rip ctx))" for g
    by (intro no_fault_restartable restart_intros)
  show "restartable v (execute_add bus i ctx)" "restartable v (execute_sub bus i ctx)" "restartable v (execute_cmp bus i ctx)"
    "restartable v (execute_inc bus i ctx)" "restartable v (execute_dec bus i ctx)" "restartable v (execute_and bus i ctx)"
    "restartable v (execute_or bus i ctx)" "restartable v (execute_xor bus i ctx)" "restartable v (execute_test bus i ctx)"
    unfolding execute_add_def execute_sub_def execute_cmp_def execute_inc_def execute_dec_def execute_and_def
      execute_or_def execute_xor_def execute_test_def Let_def
    by (intro restartable_sq restartable_bnd view_pure_reads write_then flags_then)+
qed

lemma restartable_stack_and_jumps:
  "restartable v (execute_push bus i ctx)" "\<not> is_memory (in_first i) \<Longrightarrow> restartable v (execute_pop bus i ctx)"
  "restartable v (execute_call bus i ctx)" "restartable v (execute_ret bus ctx)" "restartable v (execute_jmp bus i ctx)"
  "restartable v (execute_je bus i ctx)" "restartable v (execute_jne bus i ctx)" "restartable v (execute_jcc bus i ctx)"
  "restartable v (execute_setcc bus i ctx)" "restartable v (execute_cmovcc bus i ctx)"
proof -
  have jump: "restartable v (bnd (read_operand bus p) (jump_to ctx))" for p
    by (intro restartable_bnd view_pure_reads no_fault_restartable restart_intros)
  have fall: "restartable v (set_next_rip ctx)" by (intro no_fault_restartable restart_intros)
  show "restartable v (execute_push bus i ctx)" "restartable v (execute_call bus i ctx)"
    unfolding execute_push_def execute_call_def
    by (intro restartable_bnd view_pure_reads restartable_sq_no_fault restartable_stack restart_intros)+
  show "\<not> is_memory (in_first i) \<Longrightarrow> restartable v (execute_pop bus i ctx)"
    unfolding execute_pop_def
    by (intro restartable_bnd_no_fault restartable_stack no_fault_sq no_fault_write_operand restart_intros)
  show "restartable v (execute_ret bus ctx)"
    unfolding execute_ret_def by (intro restartable_bnd_no_fault restartable_stack restart_intros)
  show "restartable v (execute_jmp bus i ctx)" unfolding execute_jmp_def by (rule jump)
  show "restartable v (execute_je bus i ctx)" "restartable v (execute_jne bus i ctx)"
    unfolding execute_je_def execute_jne_def by (rule restartable_with_cpu; simp add: jump fall)+
  show "restartable v (execute_jcc bus i ctx)"
    unfolding execute_jcc_def by (intro restartable_bnd view_pure_reads) (simp add: jump fall)
  show "restartable v (execute_setcc bus i ctx)"
    unfolding execute_setcc_def
    by (intro restartable_bnd view_pure_reads restartable_sq_no_fault restartable_write_operand restart_intros)
  have "restartable v (if b then bnd (read_operand bus p) (write_register_operand q) else ret ())" for b p q
    by (simp add: no_fault_restartable no_fault_basic)
       (intro conjI impI restartable_bnd view_pure_reads no_fault_restartable restart_intros)
  then show "restartable v (execute_cmovcc bus i ctx)"
    unfolding execute_cmovcc_def
    by (intro restartable_sq restartable_bnd view_pure_reads restartable_sq_no_fault restart_intros)
qed

lemma restartable_system:
  "restartable v (execute_invlpg i ctx)" "restartable v (execute_int i ctx)" "restartable v (execute_syscall ctx)"
  "restartable v execute_sysret" "restartable v execute_iret" "restartable v (execute_hlt ctx)" "restartable v (execute_mfence ctx)"
proof -
  have mmu: "no_fault (on_mmu (modify g))" for g by (simp add: no_fault_def on_mmu_def op_simps)
  have "no_fault (execute_invlpg i ctx)"
    unfolding execute_invlpg_def require_memory_operand_def
    by (intro restart_intros; simp; intro conjI impI restart_intros; clarsimp; intro restart_intros mmu)
  then show "restartable v (execute_invlpg i ctx)" by (rule no_fault_restartable)
  show "restartable v (execute_int i ctx)" "restartable v (execute_syscall ctx)"
    "restartable v execute_sysret" "restartable v execute_iret" "restartable v (execute_hlt ctx)" "restartable v (execute_mfence ctx)"
    unfolding execute_int_def execute_syscall_def execute_sysret_def execute_iret_def execute_hlt_def execute_mfence_def
    by (intro no_fault_restartable restart_intros)+
qed

end
