(* ===== verification/ExecProps.thy ===== *)
theory ExecProps
  imports Exec
begin

unbundle bit_operations_syntax

text \<open>
  Properties of the executor: what the flags mean, precise page faults (an instruction that faults can
  be restarted after the fault is repaired) with the instructions that break it, and the run loop.
\<close>

section \<open>Whole instructions\<close>

lemma execute_restartable:
  assumes "fault_clean i"
  shows "restartable v (execute_instruction bus i ctx)"
proof (cases "in_opcode i")
  case OP_CMPXCHG
  then have "\<not> is_memory (in_first i)" using assms by (simp add: fault_clean_def)
  then have "no_fault (execute_cmpxchg bus i ctx)"
    unfolding execute_cmpxchg_def Let_def require_at_most_one_memory_operand_def require_register_operand_def
      require_locked_memory_destination_def read_operand_def
    by (intro restart_intros; simp; intro conjI impI restart_intros no_fault_write_operand; simp)
  with OP_CMPXCHG show ?thesis by (simp add: execute_instruction_def no_fault_restartable)
next
  case OP_XADD
  then have "\<not> is_memory (in_first i)" using assms by (simp add: fault_clean_def)
  then have "no_fault (execute_xadd bus i ctx)"
    unfolding execute_xadd_def Let_def require_at_most_one_memory_operand_def require_register_operand_def
      require_locked_memory_destination_def read_operand_def
    by (intro restart_intros no_fault_write_operand; simp; intro conjI impI restart_intros)
  with OP_XADD show ?thesis by (simp add: execute_instruction_def no_fault_restartable)
next
  case OP_POP
  with assms show ?thesis
    by (simp add: execute_instruction_def fault_clean_def restartable_stack_and_jumps(2))
qed (simp_all add: execute_instruction_def restartable_moves restartable_alu restartable_stack_and_jumps
    restartable_system no_fault_restartable no_fault_basic)

lemma cmpxchg_restartable:
  assumes "\<And>c g. v (flags_update g c) = v c"
  shows "restartable v (execute_cmpxchg bus i ctx)"
proof -
  have pure: "view_pure v (update_flags g)" for g
    using assms by (simp add: view_pure_def update_flags_def cpu_modify_def op_simps)
  have "restartable v (if c then bnd (read_register_operand p) (write_operand bus q) else cpu_modify h)" for c p q h
    by (simp add: no_fault_restartable no_fault_basic) (intro impI restartable_bnd view_pure_reads restartable_write_operand)
  then show ?thesis
    unfolding execute_cmpxchg_def Let_def
    by (intro restartable_sq restartable_bnd restartable_with_cpu view_pure_reads pure restartable_sq_no_fault restart_intros)
qed

lemma guarded_body_restartable:
  assumes "restartable v (execute_instruction bus i ctx)"
  shows "restartable v (guarded_body bus i ctx start)"
proof -
  have fetch: "view_pure v (check_instruction_fetch bus a b)" for a b
    unfolding check_instruction_fetch_def
    by (intro view_pure_with_cpu) (simp add: view_pure_basic view_pure_sq)
  have event: "no_fault (on_mmu (record_event e))" for e
    by (simp add: no_fault_def on_mmu_def record_event_def op_simps)
  have "no_fault (record_stage8_retired_instruction i a)" for a
    unfolding record_stage8_retired_instruction_def Let_def by (intro no_fault_with_cpu event)
  then show ?thesis
    unfolding guarded_body_def record_stage8_instruction_fetch_def
    by (intro restartable_sq fetch view_pure_basic restartable_sq_no_fault assms)
qed

section \<open>Instructions leave the trap controller and the cycle counter alone\<close>

definition trap_kept :: "(executor, 'a) op \<Rightarrow> bool" where
  "trap_kept m \<longleftrightarrow> (\<forall>s. ex_trap (snd (m s)) = ex_trap s \<and> ex_cycles (snd (m s)) = ex_cycles s)"

lemma trap_kept_basic [simp]:
  "trap_kept (ret x)" "trap_kept (throw e)" "trap_kept (require c e)" "trap_kept (lift_sum r)"
  "trap_kept (cpu_modify f)" "trap_kept (on_mmu m)" "trap_kept (on_cpu n)"
  by (simp_all add: trap_kept_def op_simps cpu_modify_def on_mmu_def on_cpu_def split: prod.split)

lemma trap_kept_bnd [simp]: "trap_kept m \<Longrightarrow> (\<And>x. trap_kept (f x)) \<Longrightarrow> trap_kept (bnd m f)"
  unfolding trap_kept_def bnd_def by (auto split: prod.splits sum.splits) (metis snd_conv)+

lemma trap_kept_sq [simp]: "trap_kept m \<Longrightarrow> trap_kept n \<Longrightarrow> trap_kept (sq m n)"
  unfolding sq_def by simp

lemma trap_kept_with_cpu [simp]: "(\<And>c. trap_kept (f c)) \<Longrightarrow> trap_kept (with_cpu f)"
  by (simp add: trap_kept_def with_cpu_def)

lemma trap_kept_require_trap_controller [simp]: "trap_kept require_trap_controller"
  by (simp add: trap_kept_def require_trap_controller_def split: option.split)

lemmas executor_basics = read_operand_def write_operand_def read_register_operand_def write_register_operand_def
  read_memory_operand_def write_memory_operand_def push_qword_def pop_qword_def test_condition_def jump_to_def
  set_next_rip_def update_flags_def require_memory_bus_def require_at_most_one_memory_operand_def
  require_register_operand_def require_memory_operand_def require_locked_memory_destination_def

lemmas executor_instructions = execute_mov_def execute_movsx_def execute_movzx_def execute_lea_def execute_add_def
  execute_sub_def execute_cmp_def execute_inc_def execute_dec_def execute_and_def execute_or_def execute_xor_def
  execute_test_def execute_cmpxchg_def execute_xadd_def execute_mfence_def execute_invlpg_def execute_push_def
  execute_pop_def execute_call_def execute_ret_def execute_jmp_def execute_je_def execute_jne_def execute_jcc_def
  execute_setcc_def execute_cmovcc_def execute_int_def execute_syscall_def execute_sysret_def execute_iret_def execute_hlt_def

lemma trap_kept_operands [simp]:
  "trap_kept (read_register_operand p)" "trap_kept (write_register_operand p w)" "trap_kept (read_operand bus p)"
  "trap_kept (write_operand bus p w)" "trap_kept (push_qword bus w)" "trap_kept (pop_qword bus)"
  "trap_kept (test_condition cc)" "trap_kept (jump_to ctx a)" "trap_kept (set_next_rip ctx)" "trap_kept (update_flags g)"
  "trap_kept (require_at_most_one_memory_operand i)" "trap_kept (require_register_operand p)"
  "trap_kept (require_memory_operand p)" "trap_kept (require_locked_memory_destination i)"
  by (simp_all add: executor_basics Let_def split: prod.split)

lemma trap_kept_if: "(c \<Longrightarrow> trap_kept m) \<Longrightarrow> (\<not> c \<Longrightarrow> trap_kept n) \<Longrightarrow> trap_kept (if c then m else n)"
  by simp

lemma trap_kept_case_prod: "(\<And>a b. trap_kept (f a b)) \<Longrightarrow> trap_kept (case_prod f x)"
  by (cases x) simp

lemmas trap_kept_intros = trap_kept_bnd trap_kept_sq trap_kept_with_cpu trap_kept_if trap_kept_case_prod
  trap_kept_basic trap_kept_require_trap_controller trap_kept_operands

lemma trap_kept_instructions:
  "trap_kept (execute_mov bus i ctx)" "trap_kept (execute_movsx bus i ctx)" "trap_kept (execute_movzx bus i ctx)" "trap_kept (execute_lea i ctx)"
  "trap_kept (execute_add bus i ctx)" "trap_kept (execute_sub bus i ctx)" "trap_kept (execute_cmp bus i ctx)" "trap_kept (execute_inc bus i ctx)"
  "trap_kept (execute_dec bus i ctx)" "trap_kept (execute_and bus i ctx)" "trap_kept (execute_or bus i ctx)" "trap_kept (execute_xor bus i ctx)"
  "trap_kept (execute_test bus i ctx)" "trap_kept (execute_cmpxchg bus i ctx)" "trap_kept (execute_xadd bus i ctx)" "trap_kept (execute_mfence ctx)"
  "trap_kept (execute_invlpg i ctx)" "trap_kept (execute_push bus i ctx)" "trap_kept (execute_pop bus i ctx)" "trap_kept (execute_call bus i ctx)"
  "trap_kept (execute_ret bus ctx)" "trap_kept (execute_jmp bus i ctx)" "trap_kept (execute_je bus i ctx)" "trap_kept (execute_jne bus i ctx)"
  "trap_kept (execute_jcc bus i ctx)" "trap_kept (execute_setcc bus i ctx)" "trap_kept (execute_cmovcc bus i ctx)" "trap_kept (execute_int i ctx)"
  "trap_kept (execute_syscall ctx)" "trap_kept (execute_sysret)" "trap_kept (execute_iret)" "trap_kept (execute_hlt ctx)"
  unfolding executor_instructions Let_def by (intro trap_kept_intros)+

lemma trap_kept_execute: "trap_kept (execute_instruction bus i ctx)"
  by (cases "in_opcode i") (simp_all add: execute_instruction_def trap_kept_instructions)

lemma trap_kept_guarded_body: "trap_kept (guarded_body bus i ctx a)"
  by (simp add: guarded_body_def trap_kept_execute check_instruction_fetch_def record_stage8_instruction_fetch_def
      record_stage8_retired_instruction_def Let_def)

section \<open>Properties\<close>


definition sample_executor :: executor where
  "sample_executor = \<lparr>ex_cpu = initial_cpu_state\<lparr>paging := sample_paging, cpl := RING3\<rparr>, ex_mmu = sample_mmu,
     ex_trap = Some sample_controller, ex_cycles = 0, ex_trace = None\<rparr>"

lemma sample_executor_fault:
  "\<exists>f s0. guarded_body True make_hlt \<lparr>ctx_program = Some [make_hlt], ctx_image = None, ctx_next_rip = 0 + 1\<rparr> 0 sample_executor
     = (Inl (Page_fault f), s0) \<and> pf_linear_address f = 0"
proof -
  have spec: "translation_spec sample_paging 0 (PhysicalMemory 8192) = Faults NOT_PRESENT"
    by (simp add: translation_spec_def is_canonical_linear_address_def CANONICAL_SIGN_BIT_def
      CANONICAL_HIGH_MASK_def WALK_ORDER_def page_table_index_def sbind_def PAGE_TABLE_INDEX_MASK_def
      entry_address_for_index_def sample_paging_def paging_enable_def bump_generation_def
      initial_paging_state_def qword_ok_def PhysicalMemory_def qword_at_def entry_predicates)
  obtain r s' where run: "translate_enabled sample_paging RING3 0 EXECUTE sample_mmu = (r, s')" by fastforce
  have mem: "mmu_mem sample_mmu = PhysicalMemory 8192" by (simp add: sample_mmu_def)
  have "r = Inl (Page_fault (make_page_fault 0 EXECUTE RING3 NOT_PRESENT))"
    using translate_enabled_run [OF sample_mmu_coherent(1) run] spec
    by (simp add: mem spec_translate_def check_access_def)
  with run show ?thesis
    using sample_mmu_coherent(2)
    by (simp add: guarded_body_def check_instruction_fetch_def with_cpu_def sample_executor_def initial_cpu_state_def
        op_simps on_mmu_def check_access_range_def check_range_loop.simps make_page_fault_def)
qed


lemma xadd_and_pop_not_restartable_facts:
  assumes "in_second i = Op_reg g QWORD" and "in_first i = Op_mem a sz"
    and "read_operand bus (in_first i) s = (Inr d, s1)"
    and "write_operand bus (in_first i) (d + reg_read g (registers (ex_cpu s)))
           (s1\<lparr>ex_cpu := put_reg g d (ex_cpu s1)\<rparr>) = (Inl (Page_fault f), s2)"
    and "pop_qword bus t = (Inr w, t1)" and "write_operand bus (in_first i) w t1 = (Inl (Page_fault f'), t2)"
  shows "execute_xadd bus i ctx s = (Inl (Page_fault f), s2)"
    and "reg_read g (registers (ex_cpu s2)) = d" and "rip (ex_cpu s2) = rip (ex_cpu s)"
    and "execute_pop bus i ctx t = (Inl (Page_fault f'), t2)"
    and "reg_read RSP (registers (ex_cpu t2)) = reg_read RSP (registers (ex_cpu t)) + 8"
proof -
  have s1: "ex_cpu s1 = ex_cpu s"
    using view_pure_reads(2) [of "\<lambda>c. c" bus "in_first i"] assms(3) unfolding view_pure_def by (metis snd_conv)
  have src: "read_register_operand (in_second i) s1 = (Inr (reg_read g (registers (ex_cpu s))), s1)"
    unfolding assms(1) by (subst read_register_operand_run) (simp_all add: s1)
  have wr: "write_register_operand (in_second i) d s1 = (Inr (), s1\<lparr>ex_cpu := put_reg g d (ex_cpu s1)\<rparr>)"
    unfolding assms(1) by (subst write_register_operand_run) (simp_all add: merge_register_def)
  show "execute_xadd bus i ctx s = (Inl (Page_fault f), s2)"
    using assms(1-4) src wr
    by (simp add: execute_xadd_def op_simps require_at_most_one_memory_operand_def require_register_operand_def
        require_locked_memory_destination_def Let_def)
  have keep: "ex_cpu s' = ex_cpu s''" if "write_operand bus p v s'' = (Inl (Page_fault h), s')" for p v s' s'' h
    using restartable_write_operand [of "\<lambda>c. c" bus p v] that unfolding restartable_def by blast
  have s2: "ex_cpu s2 = put_reg g d (ex_cpu s1)" using keep [OF assms(4)] by simp
  then show "reg_read g (registers (ex_cpu s2)) = d" and "rip (ex_cpu s2) = rip (ex_cpu s)"
    using s1 by (simp_all add: reg_read_def reg_write_def)
  show "execute_pop bus i ctx t = (Inl (Page_fault f'), t2)"
    using assms(5,6) by (simp add: execute_pop_def op_simps)
  have "ex_cpu t1 = put_reg RSP (reg_read RSP (registers (ex_cpu t)) + 8) (ex_cpu t)"
    using assms(5) by (auto simp: pop_qword_def with_cpu_def require_memory_bus_def op_simps Let_def cpu_modify_def on_mmu_def
        split: prod.splits sum.splits if_splits)
  with keep [OF assms(6)] show "reg_read RSP (registers (ex_cpu t2)) = reg_read RSP (registers (ex_cpu t)) + 8"
    by (simp add: reg_read_def reg_write_def)
qed

text \<open>
  C17: the two instructions of which that is not true. \<^verbatim>\<open>XADD\<close> to memory overwrites its source register
  before the store, and \<^verbatim>\<open>POP\<close> to memory moves the stack pointer before the store. When the store
  faults (the loads having succeeded, as on a page that is shared copy-on-write), the fault reaches the
  handler with the register already changed, so that the restarted \<^verbatim>\<open>XADD\<close> adds the old memory value
  to itself and the restarted \<^verbatim>\<open>POP\<close> takes the next stack slot.
\<close>

theorem xadd_and_pop_not_restartable:
  assumes "in_second i = Op_reg g QWORD" and "in_first i = Op_mem a sz"
    and "read_operand bus (in_first i) s = (Inr d, s1)"
    and "write_operand bus (in_first i) (d + reg_read g (registers (ex_cpu s)))
           (s1\<lparr>ex_cpu := put_reg g d (ex_cpu s1)\<rparr>) = (Inl (Page_fault f), s2)"
    and "pop_qword bus t = (Inr w, t1)" and "write_operand bus (in_first i) w t1 = (Inl (Page_fault f'), t2)"
  shows "(execute_xadd bus i ctx s = (Inl (Page_fault f), s2)) \<and>
    (reg_read g (registers (ex_cpu s2)) = d) \<and>
    (rip (ex_cpu s2) = rip (ex_cpu s)) \<and>
    (execute_pop bus i ctx t = (Inl (Page_fault f'), t2)) \<and>
    (reg_read RSP (registers (ex_cpu t2)) = reg_read RSP (registers (ex_cpu t)) + 8)"
  by (rule conjI, rule xadd_and_pop_not_restartable_facts(1) [OF assms],
      rule conjI, rule xadd_and_pop_not_restartable_facts(2) [OF assms],
      rule conjI, rule xadd_and_pop_not_restartable_facts(3) [OF assms],
      rule conjI, rule xadd_and_pop_not_restartable_facts(4) [OF assms],
      rule xadd_and_pop_not_restartable_facts(5) [OF assms])

text \<open>A processor in ring 3 whose TLB holds a read-only translation of the page at \<open>0x3000\<close>.\<close>

definition shared_page :: page_translation where
  "shared_page = \<lparr>virtual_page_base = 0x3000, physical_frame_base = 0x1000, page_size_bytes = PAGE_SIZE_4K_BYTES,
     permissions = PagePermissions False True True, leaf_entry_address = 0, dirty = False\<rparr>"

definition shared_executor :: executor where
  "shared_executor = \<lparr>ex_cpu = initial_cpu_state\<lparr>paging := sample_paging, cpl := RING3,
       registers := initial_registers(RAX := 5, RSP := 0x3000)\<rparr>,
     ex_mmu = sample_mmu\<lparr>mmu_tlb := tlb_insert shared_page (generation sample_paging)
       (paging_state.process_context_id sample_paging) initial_tlb\<rparr>,
     ex_trap = None, ex_cycles = 0, ex_trace = None\<rparr>"

lemma shared_lookup:
  "tlb_lookup (mmu_tlb (ex_mmu shared_executor)) 0x3000 (generation sample_paging)
     (paging_state.process_context_id sample_paging) = Some shared_page"
  using tlb_lookup_insert [OF tlb_inv_initial, of shared_page]
  by (simp add: shared_executor_def shared_page_def translation_contains_def PAGE_SIZE_4K_BYTES_def)

lemma shared_translate:
  assumes "tlb_lookup (mmu_tlb m) 0x3000 (generation sample_paging) (paging_state.process_context_id sample_paging) = Some shared_page"
  shows "mmu_translate sample_paging RING3 0x3000 READ m = (Inr 0x1000, snd (record_tlb_hit m))"
    and "mmu_translate sample_paging RING3 0x3000 WRITE m =
      (Inl (Page_fault (make_page_fault 0x3000 WRITE RING3 WRITE_PROTECTION)), snd (record_tlb_hit m))"
  using assms sample_mmu_coherent(2)
  by (simp_all add: mmu_translate_def translate_enabled_def op_simps record_tlb_hit_def record_event_def
      ensure_cached_access_allowed_def shared_page_def is_user_access_def Let_def PagePermissions_def
      is_write_allowed_for_read_only_page_def throw_page_fault_def translation_translate_def)

lemma shared_state:
  "paging (ex_cpu shared_executor) = sample_paging" "cpl (ex_cpu shared_executor) = RING3"
  "reg_read RSP (registers (ex_cpu shared_executor)) = 0x3000" "reg_read RAX (registers (ex_cpu shared_executor)) = 5"
  "mmu_mem (ex_mmu shared_executor) = PhysicalMemory 8192"
  by (simp_all add: shared_executor_def initial_cpu_state_def reg_read_def sample_mmu_def)

lemma shared_read:
  "\<exists>m. mmu_read sample_paging RING3 0x3000 QWORD (ex_mmu shared_executor) = (Inr 0, m) \<and> mmu_tlb m = mmu_tlb (ex_mmu shared_executor)"
proof -
  have zero: "read_bytes_le (PhysicalMemory 8192) 4096 8 = 0"
  proof (rule bit_eqI)
    fix k
    have "PhysicalMemory 8192 ! (4096 + k div 8) = 0" if "k < 64" using that by (simp add: PhysicalMemory_def)
    then show "bit (read_bytes_le (PhysicalMemory 8192) 4096 8) k = bit 0 k" by (auto simp: bit_read_bytes_le)
  qed
  have within: "is_access_within_4k_page 0x3000 8"
    by (simp add: is_access_within_4k_page_def PAGE_OFFSET_MASK_4K_def PAGE_SIZE_4K_BYTES_def)
  show ?thesis
    using shared_translate(1) [OF shared_lookup] within zero
    by (simp add: mmu_read_def op_simps record_tlb_hit_def record_data_read_def record_event_def mmu_bus_def mem_read_run
        shared_state) (simp add: PhysicalMemory_def)
qed

lemma shared_write:
  assumes "mmu_tlb m = mmu_tlb (ex_mmu shared_executor)"
  shows "\<exists>f m'. mmu_write sample_paging RING3 0x3000 QWORD v m = (Inl (Page_fault f), m')"
proof -
  have within: "is_access_within_4k_page 0x3000 8"
    by (simp add: is_access_within_4k_page_def PAGE_OFFSET_MASK_4K_def PAGE_SIZE_4K_BYTES_def)
  have "tlb_lookup (mmu_tlb m) 0x3000 (generation sample_paging) (paging_state.process_context_id sample_paging) = Some shared_page"
    using shared_lookup assms by simp
  from shared_translate(2) [OF this] within show ?thesis by (simp add: mmu_write_def op_simps)
qed

theorem xadd_and_pop_not_restartable_witness:
  "\<exists>s2 f. execute_xadd True (make_xadd (Op_mem (absolute_address 0x3000) QWORD) (Op_reg RAX QWORD) False)
       \<lparr>ctx_program = None, ctx_image = None, ctx_next_rip = 1\<rparr> shared_executor = (Inl (Page_fault f), s2) \<and>
     reg_read RAX (registers (ex_cpu shared_executor)) = 5 \<and> reg_read RAX (registers (ex_cpu s2)) = 0"
proof -
  let ?i = "make_xadd (Op_mem (absolute_address 0x3000) QWORD) (Op_reg RAX QWORD) False"
  let ?s = shared_executor
  obtain m where m: "mmu_read sample_paging RING3 0x3000 QWORD (ex_mmu ?s) = (Inr 0, m)" "mmu_tlb m = mmu_tlb (ex_mmu ?s)"
    using shared_read by blast
  let ?s1 = "?s\<lparr>ex_mmu := m\<rparr>" and ?t1 = "?s\<lparr>ex_mmu := m, ex_cpu := put_reg RSP (0x3000 + 8) (ex_cpu ?s)\<rparr>"
  have ops: "in_second ?i = Op_reg RAX QWORD" "in_first ?i = Op_mem (absolute_address 0x3000) QWORD"
    by (simp_all add: make_xadd_def Instruction_def)
  have ea: "calculate_effective_address (absolute_address 0x3000) regs = 0x3000" for regs
    by (simp add: calculate_effective_address_def absolute_address_def)
  have rd: "read_operand True (in_first ?i) ?s = (Inr 0, ?s1)"
    by (simp add: ops read_operand_def read_memory_operand_def with_cpu_def require_memory_bus_def op_simps on_mmu_def ea
        shared_state m(1))
  have pop: "pop_qword True ?s = (Inr 0, ?t1)"
    by (simp add: pop_qword_def with_cpu_def require_memory_bus_def op_simps on_mmu_def shared_state m(1) cpu_modify_def Let_def)
  have fault: "\<exists>f u'. write_operand True (in_first ?i) v u = (Inl (Page_fault f), u')"
    if "ex_mmu u = m" "paging (ex_cpu u) = sample_paging" "cpl (ex_cpu u) = RING3" for u v
    using shared_write [OF m(2), of v] that
    by (auto simp: ops write_operand_def write_memory_operand_def with_cpu_def require_memory_bus_def op_simps on_mmu_def ea)
  obtain f s2 where wr: "write_operand True (in_first ?i) (0 + reg_read RAX (registers (ex_cpu ?s)))
      (?s1\<lparr>ex_cpu := put_reg RAX 0 (ex_cpu ?s1)\<rparr>) = (Inl (Page_fault f), s2)"
    using fault [of "?s1\<lparr>ex_cpu := put_reg RAX 0 (ex_cpu ?s1)\<rparr>"] shared_state by fastforce
  obtain f' t2 where wr': "write_operand True (in_first ?i) 0 ?t1 = (Inl (Page_fault f'), t2)"
    using fault [of ?t1 0] shared_state by fastforce
  from xadd_and_pop_not_restartable [OF ops rd wr pop wr', THEN conjunct1] xadd_and_pop_not_restartable [OF ops rd wr pop wr', THEN conjunct2, THEN conjunct1] shared_state(4) show ?thesis by blast
qed

end
