(* ===== verification/Decode.thy ===== *)
theory Decode
  imports Instr
begin

unbundle bit_operations_syntax

text \<open>
  The x86-64 decoder of \<^verbatim>\<open>src/cpu/decode/decoder.cpp\<close>. The cursor holds the image and the address of the
  next byte; every helper is an operation on it. \<^verbatim>\<open>DecodeError\<close> is a \<^verbatim>\<open>runtime_error\<close> and appears as
  \<open>Runtime_error\<close>. The opcode constants are written as the numbers they are. An index outside the
  register table, which C++ leaves undefined, is the exception \<open>Out_of_range\<close> here; that the decoder
  throws \<open>Runtime_error\<close> only is proved below, so it never happens.
\<close>

section \<open>Prefixes and fields\<close>

record rex_prefix =
  rex_w :: bool
  rex_r :: bool
  rex_x :: bool
  rex_b :: bool

record instruction_prefixes =
  px_rex :: rex_prefix
  px_locked :: bool

record modrm_byte =
  mr_mod :: byte
  mr_reg :: byte
  mr_rm :: byte

record sib_byte =
  sib_scale :: byte
  sib_index :: byte
  sib_base :: byte

datatype binary_instruction_kind = BK_MOV | BK_ADD | BK_SUB | BK_CMP | BK_AND | BK_OR | BK_XOR | BK_TEST

datatype unary_instruction_kind = UK_INC | UK_DEC | UK_PUSH | UK_POP | UK_CALL

record decoded_instruction =
  de_instruction :: instruction
  de_start_rip :: address64
  de_next_rip :: address64

section \<open>The cursor\<close>

record decode_cursor =
  cu_image :: executable_image
  cu_rip :: address64

type_synonym 'a decoder = "(decode_cursor, 'a) op"

definition DecodeCursor :: "executable_image \<Rightarrow> address64 \<Rightarrow> exn + decode_cursor" where
  "DecodeCursor im r =
     (if im_bytes im = [] then Inl Runtime_error else Inr \<lparr>cu_image = im, cu_rip = r\<rparr>)"

definition peek_u8 :: "byte decoder" where
  "peek_u8 = (\<lambda>c. if \<not> image_contains_rip (cu_image c) (cu_rip c) then (Inl Runtime_error, c)
     else (byte_at (cu_image c) (cu_rip c), c))"

definition read_u8 :: "byte decoder" where
  "read_u8 = bnd peek_u8 (\<lambda>value. sq (modify (cu_rip_update (\<lambda>r. r + 1))) (ret value))"

definition read_i8 :: "byte decoder" where
  "read_i8 = read_u8"

text \<open>The loops of \<^verbatim>\<open>read_u32\<close> and \<^verbatim>\<open>read_u64\<close>: byte \<open>k\<close> goes to bit \<open>8 * k\<close>.\<close>

fun read_bytes :: "nat \<Rightarrow> nat \<Rightarrow> 'a::len word \<Rightarrow> 'a word decoder" where
  "read_bytes 0 k value = ret value"
| "read_bytes (Suc n) k value =
     bnd read_u8 (\<lambda>b. read_bytes n (Suc k) (value OR push_bit (k * 8) (ucast b)))"

definition read_u32 :: "dword decoder" where
  "read_u32 = read_bytes 4 0 0"

definition read_i32 :: "dword decoder" where
  "read_i32 = read_u32"

definition read_u64 :: "qword decoder" where
  "read_u64 = read_bytes 8 0 0"

section \<open>Prefixes\<close>

definition is_rex_prefix :: "byte \<Rightarrow> bool" where
  "is_rex_prefix value \<longleftrightarrow> value \<ge> 0x40 \<and> value \<le> 0x4F"

definition rex_of :: "byte \<Rightarrow> rex_prefix" where
  "rex_of value = \<lparr>rex_w = (value AND 8 \<noteq> 0), rex_r = (value AND 4 \<noteq> 0),
     rex_x = (value AND 2 \<noteq> 0), rex_b = (value AND 1 \<noteq> 0)\<rparr>"

text \<open>
  The prefix loop has no bound of its own: it ends because each round consumes a byte of the image.
\<close>

definition bytes_left :: "decode_cursor \<Rightarrow> nat" where
  "bytes_left c = unat (of_nat (length (im_bytes (cu_image c))) :: address64) - unat (cu_rip c - im_base (cu_image c))"

lemma read_u8_left:
  assumes "read_u8 c = (Inr b, c')"
  shows "bytes_left c' < bytes_left c"
proof -
  let ?o = "cu_rip c - im_base (cu_image c)"
  have c: "image_contains_rip (cu_image c) (cu_rip c)" and c': "c' = cu_rip_update (\<lambda>r. r + 1) c"
    using assms by (auto simp: read_u8_def peek_u8_def op_simps split: if_splits sum.splits)
  have lt: "?o < of_nat (length (im_bytes (cu_image c)))" using c by (simp add: image_contains_rip_def)
  then have "unat ?o + 1 < 2 ^ 64"
    using unat_less_64 [of "of_nat (length (im_bytes (cu_image c)))"] by (simp add: word_less_nat_alt)
  then have "unat (?o + 1) = unat ?o + 1" using unat_add_of_nat [of ?o 1] by simp
  with lt show ?thesis
    by (simp add: bytes_left_def c' algebra_simps word_less_nat_alt)
qed

function prefix_loop :: "instruction_prefixes \<Rightarrow> instruction_prefixes decoder" where
  "prefix_loop prefixes c =
     (case peek_u8 c of (Inl e, c') \<Rightarrow> (Inl e, c')
      | (Inr value, c') \<Rightarrow>
        if value = 0xF0
        then (case read_u8 c' of (Inl e, c'') \<Rightarrow> (Inl e, c'')
              | (Inr _, c'') \<Rightarrow> prefix_loop (prefixes\<lparr>px_locked := True\<rparr>) c'')
        else if is_rex_prefix value
        then (case read_u8 c' of (Inl e, c'') \<Rightarrow> (Inl e, c'')
              | (Inr _, c'') \<Rightarrow> prefix_loop (prefixes\<lparr>px_rex := rex_of value\<rparr>) c'')
        else (Inr prefixes, c'))"
  by pat_completeness auto
termination
  by (relation "measure (\<lambda>(p, c). bytes_left c)") (auto simp: peek_u8_def split: if_splits dest: read_u8_left [OF sym])

declare prefix_loop.simps [simp del]

definition read_instruction_prefixes :: "instruction_prefixes decoder" where
  "read_instruction_prefixes =
     prefix_loop \<lparr>px_rex = \<lparr>rex_w = False, rex_r = False, rex_x = False, rex_b = False\<rparr>, px_locked = False\<rparr>"

definition require_rex_w :: "rex_prefix \<Rightarrow> unit decoder" where
  "require_rex_w rex = require (rex_w rex) Runtime_error"

definition require_unlocked :: "bool \<Rightarrow> unit decoder" where
  "require_unlocked locked = require (\<not> locked) Runtime_error"

definition require_lockable_memory_destination :: "operand \<Rightarrow> bool \<Rightarrow> unit decoder" where
  "require_lockable_memory_destination destination locked =
     require (\<not> (locked \<and> \<not> is_memory destination)) Runtime_error"

section \<open>ModRM, SIB and operands\<close>

definition read_modrm :: "modrm_byte decoder" where
  "read_modrm = bnd read_u8 (\<lambda>value. ret
     \<lparr>mr_mod = drop_bit 6 value AND 3, mr_reg = drop_bit 3 value AND 7, mr_rm = value AND 7\<rparr>)"

definition read_sib :: "sib_byte decoder" where
  "read_sib = bnd read_u8 (\<lambda>value. ret
     \<lparr>sib_scale = drop_bit 6 value AND 3, sib_index = drop_bit 3 value AND 7, sib_base = value AND 7\<rparr>)"

definition sib_scale_to_multiplier :: "byte \<Rightarrow> byte" where
  "sib_scale_to_multiplier scale_bits = push_bit (unat scale_bits) 1"

definition REGISTER_IDS :: "register_id list" where
  "REGISTER_IDS = [RAX, RCX, RDX, RBX, RSP, RBP, RSI, RDI, R8, R9, R10, R11, R12, R13, R14, R15]"

definition register_from_index :: "byte \<Rightarrow> exn + register_id" where
  "register_from_index index =
     (if unat index < length REGISTER_IDS then Inr (REGISTER_IDS ! unat index) else Inl Out_of_range)"

definition decode_register :: "byte \<Rightarrow> bool \<Rightarrow> exn + register_id" where
  "decode_register encoded high_bit = register_from_index (encoded + (if high_bit then 8 else 0))"

definition read_modrm_displacement :: "modrm_byte \<Rightarrow> qword decoder" where
  "read_modrm_displacement modrm =
     (if mr_mod modrm = 1 then bnd read_i8 (\<lambda>d. ret (scast d))
      else if mr_mod modrm = 2 then bnd read_i32 (\<lambda>d. ret (scast d))
      else ret 0)"

definition make_memory_operand_from_sib :: "modrm_byte \<Rightarrow> rex_prefix \<Rightarrow> data_size \<Rightarrow> operand decoder" where
  "make_memory_operand_from_sib modrm rex sz =
     bnd read_sib (\<lambda>sib.
       let has_index = (sib_index sib \<noteq> 4 \<or> rex_x rex);
           has_base = (\<not> (mr_mod modrm = 0 \<and> sib_base sib = 5))
       in bnd (read_modrm_displacement modrm) (\<lambda>displacement0.
          bnd (if \<not> has_base then bnd read_i32 (\<lambda>d. ret (scast d)) else ret displacement0) (\<lambda>displacement.
          lift_sum
           (if has_base \<and> has_index
            then sbind (decode_register (sib_base sib) (rex_b rex)) (\<lambda>base.
                 sbind (decode_register (sib_index sib) (rex_x rex)) (\<lambda>index.
                 sbind (base_index_displacement base index (sib_scale_to_multiplier (sib_scale sib)) displacement) (\<lambda>a.
                 operand_mem a sz)))
            else if has_base
            then sbind (decode_register (sib_base sib) (rex_b rex)) (\<lambda>base.
                 operand_mem (base_displacement base displacement) sz)
            else if has_index
            then sbind (decode_register (sib_index sib) (rex_x rex)) (\<lambda>index.
                 sbind (index_displacement index (sib_scale_to_multiplier (sib_scale sib)) displacement) (\<lambda>a.
                 operand_mem a sz))
            else operand_mem (absolute_address displacement) sz))))"

definition decode_rm_operand :: "modrm_byte \<Rightarrow> rex_prefix \<Rightarrow> data_size \<Rightarrow> operand decoder" where
  "decode_rm_operand modrm rex sz =
     (if mr_mod modrm = 3
      then lift_sum (sbind (decode_register (mr_rm modrm) (rex_b rex)) (\<lambda>r. operand_reg r sz))
      else if mr_rm modrm = 4 then make_memory_operand_from_sib modrm rex sz
      else if mr_mod modrm = 0 \<and> mr_rm modrm = 5
      then bnd read_i32 (\<lambda>d.
           bnd (gets cu_rip) (\<lambda>r.
           lift_sum (operand_mem (absolute_address (r + scast d)) sz)))
      else bnd (lift_sum (decode_register (mr_rm modrm) (rex_b rex))) (\<lambda>base.
           bnd (read_modrm_displacement modrm) (\<lambda>displacement.
           lift_sum (operand_mem (base_displacement base displacement) sz))))"

definition decode_reg_operand :: "byte \<Rightarrow> rex_prefix \<Rightarrow> data_size \<Rightarrow> operand decoder" where
  "decode_reg_operand encoded rex sz =
     lift_sum (sbind (decode_register encoded (rex_r rex)) (\<lambda>r. operand_reg r sz))"

definition relative_target :: "address64 \<Rightarrow> qword \<Rightarrow> address64" where
  "relative_target next_rip displacement = next_rip + displacement"

section \<open>Instructions\<close>

fun make_binary_instruction :: "binary_instruction_kind \<Rightarrow> operand \<Rightarrow> operand \<Rightarrow> instruction" where
  "make_binary_instruction BK_MOV a b = make_mov a b"
| "make_binary_instruction BK_ADD a b = make_add a b"
| "make_binary_instruction BK_SUB a b = make_sub a b"
| "make_binary_instruction BK_CMP a b = make_cmp a b"
| "make_binary_instruction BK_AND a b = make_and a b"
| "make_binary_instruction BK_OR a b = make_or a b"
| "make_binary_instruction BK_XOR a b = make_xor a b"
| "make_binary_instruction BK_TEST a b = make_test a b"

fun make_unary_instruction :: "unary_instruction_kind \<Rightarrow> operand \<Rightarrow> instruction" where
  "make_unary_instruction UK_INC a = make_inc a"
| "make_unary_instruction UK_DEC a = make_dec a"
| "make_unary_instruction UK_PUSH a = make_push a"
| "make_unary_instruction UK_POP a = make_pop a"
| "make_unary_instruction UK_CALL a = make_call a"

definition condition_from_opcode :: "byte \<Rightarrow> condition_code" where
  "condition_from_opcode opcode =
     [CC_O, CC_NO, CC_B, CC_AE, CC_E, CC_NE, CC_BE, CC_A,
      CC_S, CC_NS, CC_P, CC_NP, CC_L, CC_GE, CC_LE, CC_G] ! unat (opcode AND 0x0F)"

definition make_conditional_jump_instruction :: "condition_code \<Rightarrow> address64 \<Rightarrow> exn + instruction" where
  "make_conditional_jump_instruction condition target =
     (if condition = CC_E then Inr (make_je (Op_imm target))
      else if condition = CC_NE then Inr (make_jne (Op_imm target))
      else make_jcc condition (Op_imm target))"

definition make_unconditional_jump_instruction :: "address64 \<Rightarrow> instruction" where
  "make_unconditional_jump_instruction target = make_jmp (Op_imm target)"

definition rm_operand_is_destination_opcode :: "byte \<Rightarrow> bool" where
  "rm_operand_is_destination_opcode opcode \<longleftrightarrow>
     opcode = 0x89 \<or> opcode = 0x01 \<or> opcode = 0x09 \<or> opcode = 0x21 \<or>
     opcode = 0x29 \<or> opcode = 0x31 \<or> opcode = 0x39 \<or> opcode = 0x85"

definition binary_kind_from_opcode :: "byte \<Rightarrow> binary_instruction_kind option" where
  "binary_kind_from_opcode opcode =
     (if opcode = 0x89 \<or> opcode = 0x8B then Some BK_MOV
      else if opcode = 0x01 \<or> opcode = 0x03 then Some BK_ADD
      else if opcode = 0x09 \<or> opcode = 0x0B then Some BK_OR
      else if opcode = 0x21 \<or> opcode = 0x23 then Some BK_AND
      else if opcode = 0x29 \<or> opcode = 0x2B then Some BK_SUB
      else if opcode = 0x31 \<or> opcode = 0x33 then Some BK_XOR
      else if opcode = 0x39 \<or> opcode = 0x3B then Some BK_CMP
      else if opcode = 0x85 then Some BK_TEST
      else None)"

definition make_group1_instruction :: "byte \<Rightarrow> operand \<Rightarrow> operand \<Rightarrow> exn + instruction" where
  "make_group1_instruction extension destination immediate =
     (if extension = 0 then Inr (make_add destination immediate)
      else if extension = 1 then Inr (make_or destination immediate)
      else if extension = 4 then Inr (make_and destination immediate)
      else if extension = 5 then Inr (make_sub destination immediate)
      else if extension = 6 then Inr (make_xor destination immediate)
      else if extension = 7 then Inr (make_cmp destination immediate)
      else Inl Runtime_error)"

definition make_group5_instruction :: "byte \<Rightarrow> operand \<Rightarrow> exn + instruction" where
  "make_group5_instruction extension operand =
     (if extension = 0 then Inr (make_unary_instruction UK_INC operand)
      else if extension = 1 then Inr (make_unary_instruction UK_DEC operand)
      else if extension = 2 then Inr (make_unary_instruction UK_CALL operand)
      else if extension = 6 then Inr (make_unary_instruction UK_PUSH operand)
      else Inl Runtime_error)"

text \<open>The two-byte opcodes, after the escape byte.\<close>

definition decode_escaped :: "instruction_prefixes \<Rightarrow> instruction decoder" where
  "decode_escaped prefixes =
     (let rex = px_rex prefixes; locked = px_locked prefixes in
      bnd read_u8 (\<lambda>escaped_opcode.
        if escaped_opcode = 0x05 then sq (require_unlocked locked) (ret make_syscall)
        else if escaped_opcode = 0x07
        then sq (require_unlocked locked) (sq (require_rex_w rex) (ret make_sysret))
        else if escaped_opcode = 0x01
        then sq (require_unlocked locked)
            (bnd read_modrm (\<lambda>modrm.
             sq (require (\<not> (mr_mod modrm = 3 \<or> mr_reg modrm \<noteq> 7)) Runtime_error)
            (bnd (decode_rm_operand modrm rex BYTE) (\<lambda>a. ret (make_invlpg a)))))
        else if escaped_opcode \<ge> 0x80 \<and> escaped_opcode \<le> 0x8F
        then sq (require_unlocked locked)
            (bnd read_i32 (\<lambda>displacement.
             bnd (gets cu_rip) (\<lambda>r.
             lift_sum (make_conditional_jump_instruction (condition_from_opcode escaped_opcode)
               (relative_target r (scast displacement))))))
        else if escaped_opcode \<ge> 0x40 \<and> escaped_opcode \<le> 0x4F
        then sq (require_unlocked locked)
            (sq (require_rex_w rex)
            (bnd read_modrm (\<lambda>modrm.
             bnd (decode_reg_operand (mr_reg modrm) rex QWORD) (\<lambda>destination.
             bnd (decode_rm_operand modrm rex QWORD) (\<lambda>src.
             lift_sum (make_cmovcc (condition_from_opcode escaped_opcode) destination src))))))
        else if escaped_opcode \<ge> 0x90 \<and> escaped_opcode \<le> 0x9F
        then sq (require_unlocked locked)
            (bnd read_modrm (\<lambda>modrm.
             bnd (decode_rm_operand modrm rex BYTE) (\<lambda>destination.
             lift_sum (make_setcc (condition_from_opcode escaped_opcode) destination))))
        else if escaped_opcode = 0xB1 \<or> escaped_opcode = 0xC1
        then sq (require_rex_w rex)
            (bnd read_modrm (\<lambda>modrm.
             bnd (decode_rm_operand modrm rex QWORD) (\<lambda>destination.
             sq (require_lockable_memory_destination destination locked)
            (bnd (decode_reg_operand (mr_reg modrm) rex QWORD) (\<lambda>src.
             ret (if escaped_opcode = 0xB1 then make_cmpxchg destination src locked
                  else make_xadd destination src locked))))))
        else if escaped_opcode = 0xAE
        then sq (require_unlocked locked)
            (bnd read_modrm (\<lambda>modrm.
             sq (require (\<not> (mr_mod modrm \<noteq> 3 \<or> mr_reg modrm \<noteq> 6 \<or> mr_rm modrm \<noteq> 0)) Runtime_error)
                (ret make_mfence)))
        else if escaped_opcode = 0xB6 \<or> escaped_opcode = 0xB7 \<or> escaped_opcode = 0xBE \<or> escaped_opcode = 0xBF
        then sq (require_unlocked locked)
            (sq (require_rex_w rex)
            (let src_size = (if escaped_opcode = 0xB6 \<or> escaped_opcode = 0xBE then BYTE else WORD) in
             bnd read_modrm (\<lambda>modrm.
             bnd (decode_reg_operand (mr_reg modrm) rex QWORD) (\<lambda>destination.
             bnd (decode_rm_operand modrm rex src_size) (\<lambda>src.
             ret (if escaped_opcode = 0xB6 \<or> escaped_opcode = 0xB7 then make_movzx destination src
                  else make_movsx destination src))))))
        else throw Runtime_error))"

definition decode_opcode :: "instruction_prefixes \<Rightarrow> byte \<Rightarrow> instruction decoder" where
  "decode_opcode prefixes opcode =
     (let rex = px_rex prefixes in
      if px_locked prefixes \<and> opcode \<noteq> 0x0F then throw Runtime_error
      else if opcode = 0xF4 then ret make_hlt
      else if opcode = 0xCC then ret (make_int vector_breakpoint)
      else if opcode = 0xCD then bnd read_u8 (\<lambda>v. ret (make_int v))
      else if opcode = 0xC3 then ret make_ret
      else if opcode = 0xCF then ret make_iret
      else if opcode \<ge> 0x50 \<and> opcode \<le> 0x57
      then lift_sum (sbind (decode_register (opcode - 0x50) (rex_b rex)) (\<lambda>r. sbind (operand_reg r QWORD) (\<lambda>a. Inr (make_push a))))
      else if opcode \<ge> 0x58 \<and> opcode \<le> 0x5F
      then lift_sum (sbind (decode_register (opcode - 0x58) (rex_b rex)) (\<lambda>r. sbind (operand_reg r QWORD) (\<lambda>a. Inr (make_pop a))))
      else if opcode = 0x6A then bnd read_i8 (\<lambda>d. ret (make_push (Op_imm (scast d))))
      else if opcode = 0x68 then bnd read_i32 (\<lambda>d. ret (make_push (Op_imm (scast d))))
      else if opcode = 0xE8
      then bnd read_i32 (\<lambda>displacement.
           bnd (gets cu_rip) (\<lambda>r. ret (make_call (Op_imm (relative_target r (scast displacement))))))
      else if opcode \<ge> 0xB8 \<and> opcode \<le> 0xBF
      then sq (require_rex_w rex)
          (bnd (lift_sum (decode_register (opcode - 0xB8) (rex_b rex))) (\<lambda>r.
           bnd (lift_sum (operand_reg r QWORD)) (\<lambda>destination.
           bnd read_u64 (\<lambda>v. ret (make_mov destination (Op_imm v))))))
      else if opcode = 0x63
      then sq (require_rex_w rex)
          (bnd read_modrm (\<lambda>modrm.
           bnd (decode_reg_operand (mr_reg modrm) rex QWORD) (\<lambda>destination.
           bnd (decode_rm_operand modrm rex DWORD) (\<lambda>src. ret (make_movsx destination src)))))
      else if opcode = 0x8D
      then sq (require_rex_w rex)
          (bnd read_modrm (\<lambda>modrm.
           bnd (decode_rm_operand modrm rex QWORD) (\<lambda>src.
           sq (require (is_memory src) Runtime_error)
          (bnd (decode_reg_operand (mr_reg modrm) rex QWORD) (\<lambda>destination. ret (make_lea destination src))))))
      else case binary_kind_from_opcode opcode of
        Some kind \<Rightarrow>
          sq (require_rex_w rex)
         (bnd read_modrm (\<lambda>modrm.
          bnd (decode_rm_operand modrm rex QWORD) (\<lambda>rm_operand.
          bnd (decode_reg_operand (mr_reg modrm) rex QWORD) (\<lambda>reg_operand.
          ret (if rm_operand_is_destination_opcode opcode
               then make_binary_instruction kind rm_operand reg_operand
               else make_binary_instruction kind reg_operand rm_operand)))))
      | None \<Rightarrow>
      if opcode = 0x81
      then sq (require_rex_w rex)
          (bnd read_modrm (\<lambda>modrm.
           bnd (decode_rm_operand modrm rex QWORD) (\<lambda>destination.
           bnd read_i32 (\<lambda>v. lift_sum (make_group1_instruction (mr_reg modrm) destination (Op_imm (scast v)))))))
      else if opcode = 0xF7
      then sq (require_rex_w rex)
          (bnd read_modrm (\<lambda>modrm.
           sq (require (mr_reg modrm = 0) Runtime_error)
          (bnd (decode_rm_operand modrm rex QWORD) (\<lambda>left.
           bnd read_i32 (\<lambda>v. ret (make_test left (Op_imm (scast v))))))))
      else if opcode = 0xFF
      then sq (require_rex_w rex)
          (bnd read_modrm (\<lambda>modrm.
           bnd (decode_rm_operand modrm rex QWORD) (\<lambda>operand.
           lift_sum (make_group5_instruction (mr_reg modrm) operand))))
      else if opcode = 0x8F
      then sq (require_rex_w rex)
          (bnd read_modrm (\<lambda>modrm.
           sq (require (mr_reg modrm = 0) Runtime_error)
          (bnd (decode_rm_operand modrm rex QWORD) (\<lambda>destination. ret (make_pop destination)))))
      else if opcode \<ge> 0x70 \<and> opcode \<le> 0x7F
      then bnd read_i8 (\<lambda>displacement.
           bnd (gets cu_rip) (\<lambda>r.
           lift_sum (make_conditional_jump_instruction (condition_from_opcode opcode)
             (relative_target r (scast displacement)))))
      else if opcode = 0xE9
      then bnd read_i32 (\<lambda>displacement.
           bnd (gets cu_rip) (\<lambda>r.
           ret (make_unconditional_jump_instruction (relative_target r (scast displacement)))))
      else if opcode = 0xEB
      then bnd read_i8 (\<lambda>displacement.
           bnd (gets cu_rip) (\<lambda>r.
           ret (make_unconditional_jump_instruction (relative_target r (scast displacement)))))
      else if opcode = 0x0F then decode_escaped prefixes
      else throw Runtime_error)"

definition decode :: "executable_image \<Rightarrow> address64 \<Rightarrow> exn + decoded_instruction" where
  "decode im r = sbind (DecodeCursor im r) (\<lambda>cursor. fst
     (bnd read_instruction_prefixes (\<lambda>prefixes.
      bnd read_u8 (\<lambda>opcode.
      bnd (decode_opcode prefixes opcode) (\<lambda>i.
      bnd (gets cu_rip) (\<lambda>next_rip.
      ret \<lparr>de_instruction = i, de_start_rip = r, de_next_rip = next_rip\<rparr>)))) cursor))"

end
