(* ===== verification/DecodeProps.thy ===== *)
theory DecodeProps
  imports Decode
begin

unbundle bit_operations_syntax

text \<open>
  Properties of the decoder: it consumes bytes of the image only, throws \<^verbatim>\<open>DecodeError\<close> only, and the
  instructions it returns have operands of the kinds and widths that the executor accepts.
\<close>

section \<open>The bytes ahead of the cursor\<close>

text \<open>An image that does not wrap around the address space.\<close>

definition image_ok :: "executable_image \<Rightarrow> bool" where
  "image_ok im \<longleftrightarrow> unat (im_base im) + length (im_bytes im) < 2 ^ 64"

definition rest_at :: "executable_image \<Rightarrow> address64 \<Rightarrow> byte list" where
  "rest_at im r = (if image_contains_rip im r then drop (unat (r - im_base im)) (im_bytes im) else [])"

definition rest :: "decode_cursor \<Rightarrow> byte list" where
  "rest c = rest_at (cu_image c) (cu_rip c)"

definition advance :: "nat \<Rightarrow> decode_cursor \<Rightarrow> decode_cursor" where
  "advance n c = cu_rip_update (\<lambda>r. r + of_nat n) c"

lemma advance_simps [simp]:
  "cu_image (advance n c) = cu_image c" "cu_rip (advance n c) = cu_rip c + of_nat n"
  "advance 0 c = c" "advance m (advance n c) = advance (n + m) c"
  by (simp_all add: advance_def algebra_simps)

lemma contains_iff:
  assumes "image_ok im"
  shows "image_contains_rip im r \<longleftrightarrow> unat (im_base im) \<le> unat r \<and> unat r - unat (im_base im) < length (im_bytes im)"
proof -
  have "unat (of_nat (length (im_bytes im)) :: address64) = length (im_bytes im)"
    using assms by (simp add: image_ok_def unsigned_of_nat take_bit_nat_eq_self)
  moreover have "im_base im \<le> r \<Longrightarrow> unat (r - im_base im) = unat r - unat (im_base im)"
    by (simp add: unat_sub)
  ultimately show ?thesis
    by (auto simp: image_contains_rip_def word_le_nat_alt word_less_nat_alt)
qed

lemma rest_at_nat:
  assumes "image_ok im"
  shows "rest_at im r = (if unat (im_base im) \<le> unat r then drop (unat r - unat (im_base im)) (im_bytes im) else [])"
  using contains_iff [OF assms, of r]
  by (auto simp: rest_at_def unat_sub word_le_nat_alt image_contains_rip_def)

lemma rest_advance:
  assumes "image_ok (cu_image c)" and "n \<le> length (rest c)"
  shows "rest (advance n c) = drop n (rest c)"
proof (cases "n = 0")
  case True
  then show ?thesis by simp
next
  case False
  let ?im = "cu_image c"
  have le: "unat (im_base ?im) \<le> unat (cu_rip c)" and len: "n + unat (cu_rip c) - unat (im_base ?im) \<le> length (im_bytes ?im)"
    using assms(2) False by (auto simp: rest_def rest_at_nat [OF assms(1)] split: if_splits)
  then have "unat (cu_rip c) + n < 2 ^ 64" using assms(1) by (simp add: image_ok_def)
  then have "unat (cu_rip c + of_nat n) = unat (cu_rip c) + n" by (rule unat_add_of_nat)
  then show ?thesis using le by (simp add: rest_def rest_at_nat [OF assms(1)] add.commute)
qed

lemma peek_u8_rest:
  assumes "image_ok (cu_image c)"
  shows "peek_u8 c = (case rest c of [] \<Rightarrow> (Inl Runtime_error, c) | b # bs \<Rightarrow> (Inr b, c))"
proof (cases "image_contains_rip (cu_image c) (cu_rip c)")
  case True
  let ?k = "unat (cu_rip c - im_base (cu_image c))"
  have "?k < length (im_bytes (cu_image c))"
    using True contains_iff [OF assms] by (simp add: unat_sub word_le_nat_alt image_contains_rip_def)
  then have "rest c = im_bytes (cu_image c) ! ?k # drop (Suc ?k) (im_bytes (cu_image c))"
    using True by (simp add: rest_def rest_at_def Cons_nth_drop_Suc)
  then show ?thesis using True by (simp add: peek_u8_def byte_at_def offset_of_def sbind_def)
next
  case False
  then show ?thesis by (simp add: peek_u8_def rest_def rest_at_def)
qed

lemma read_u8_rest:
  assumes "image_ok (cu_image c)"
  shows "read_u8 c = (case rest c of [] \<Rightarrow> (Inl Runtime_error, c) | b # bs \<Rightarrow> (Inr b, advance 1 c))"
  by (simp add: read_u8_def op_simps peek_u8_rest [OF assms] advance_def split: list.split)

section \<open>A calculus for decoder functions\<close>

text \<open>
  \<open>decodes m Q\<close>: on every image, \<open>m\<close> either returns a value with \<open>Q\<close> and has moved the cursor
  over bytes of the image, or throws \<^verbatim>\<open>DecodeError\<close>.
\<close>

definition decodes :: "'a decoder \<Rightarrow> ('a \<Rightarrow> bool) \<Rightarrow> bool" where
  "decodes m Q \<longleftrightarrow> (\<forall>c. image_ok (cu_image c) \<longrightarrow>
     (\<forall>e c'. m c = (Inl e, c') \<longrightarrow> e = Runtime_error) \<and>
     (\<forall>x c'. m c = (Inr x, c') \<longrightarrow> Q x \<and> (\<exists>n \<le> length (rest c). c' = advance n c)))"

lemma decodesI:
  assumes "\<And>c e c'. image_ok (cu_image c) \<Longrightarrow> m c = (Inl e, c') \<Longrightarrow> e = Runtime_error"
    and "\<And>c x c'. image_ok (cu_image c) \<Longrightarrow> m c = (Inr x, c') \<Longrightarrow> Q x \<and> (\<exists>n \<le> length (rest c). c' = advance n c)"
  shows "decodes m Q"
  unfolding decodes_def by (intro allI impI conjI) (use assms in \<open>blast+\<close>)

lemma decodesD:
  assumes "decodes m Q" and "image_ok (cu_image c)" and "m c = (Inr x, c')"
  obtains n where "n \<le> length (rest c)" "c' = advance n c" "Q x"
  using assms(1) [unfolded decodes_def, rule_format, OF assms(2), THEN conjunct2, rule_format, OF assms(3)] that by blast

lemma decodes_InlD:
  assumes "decodes m Q" and "image_ok (cu_image c)" and "m c = (Inl e, c')"
  shows "e = Runtime_error"
  by (rule assms(1) [unfolded decodes_def, rule_format, OF assms(2), THEN conjunct1, rule_format, OF assms(3)])

lemma decodes_bnd:
  assumes "decodes m P" and "\<And>x. P x \<Longrightarrow> decodes (f x) Q"
  shows "decodes (bnd m f) Q"
proof (rule decodesI)
  fix c e c' assume ok: "image_ok (cu_image c)" and run: "bnd m f c = (Inl e, c')"
  from run show "e = Runtime_error"
  proof (rule bnd_InlE)
    assume "m c = (Inl e, c')"
    then show ?thesis by (rule decodes_InlD [OF assms(1) ok])
  next
    fix x s' assume m: "m c = (Inr x, s')" and f: "f x s' = (Inl e, c')"
    from decodesD [OF assms(1) ok m] obtain n where "s' = advance n c" "P x" by blast
    then show ?thesis using decodes_InlD [OF assms(2) _ f] ok by simp
  qed
next
  fix c y c' assume ok: "image_ok (cu_image c)" and run: "bnd m f c = (Inr y, c')"
  from run obtain x s' where m: "m c = (Inr x, s')" and f: "f x s' = (Inr y, c')" by (rule bnd_InrE)
  from decodesD [OF assms(1) ok m] obtain n where n: "n \<le> length (rest c)" "s' = advance n c" "P x" .
  have ok': "image_ok (cu_image s')" using ok n(2) by simp
  from decodesD [OF assms(2) [OF n(3)] ok' f] obtain k where k: "k \<le> length (rest s')" "c' = advance k s'" "Q y" .
  have "rest s' = drop n (rest c)" using rest_advance [OF ok n(1)] n(2) by simp
  with n k show "Q y \<and> (\<exists>n \<le> length (rest c). c' = advance n c)"
    by (intro conjI exI [of _ "n + k"]) simp_all
qed

lemma decodes_sq: "decodes m P \<Longrightarrow> decodes n Q \<Longrightarrow> decodes (sq m n) Q"
  unfolding sq_def by (rule decodes_bnd)

lemma decodes_mono:
  assumes "decodes m P" and "\<And>x. P x \<Longrightarrow> Q x"
  shows "decodes m Q"
  using assms(1) decodes_InlD [OF assms(1)] by (intro decodesI) (auto elim!: decodesD intro: assms(2))

lemma decodes_pure:
  assumes "\<And>c. m c = (r c, c)" and "\<And>c e. r c = Inl e \<Longrightarrow> e = Runtime_error" and "\<And>c x. r c = Inr x \<Longrightarrow> Q x"
  shows "decodes m Q"
  using assms by (intro decodesI) (auto intro!: exI [of _ 0])

lemma decodes_ret: "Q x \<Longrightarrow> decodes (ret x) Q"
  by (rule decodes_pure [where r = "\<lambda>_. Inr x"]) (simp_all add: op_simps)

lemma decodes_gets: "(\<And>c. Q (g c)) \<Longrightarrow> decodes (gets g) Q"
  by (rule decodes_pure [where r = "\<lambda>c. Inr (g c)"]) (auto simp: op_simps)

lemma decodes_throw: "decodes (throw Runtime_error) Q"
  by (rule decodes_pure [where r = "\<lambda>_. Inl Runtime_error"]) (simp_all add: op_simps)

lemma decodes_require: "decodes (require b Runtime_error) (\<lambda>_. b)"
  by (rule decodes_pure [where r = "\<lambda>_. if b then Inr () else Inl Runtime_error"]) (auto simp: op_simps split: if_splits)

lemma decodes_lift_sum: "(\<And>e. r = Inl e \<Longrightarrow> e = Runtime_error) \<Longrightarrow> (\<And>x. r = Inr x \<Longrightarrow> Q x) \<Longrightarrow> decodes (lift_sum r) Q"
  by (rule decodes_pure [where r = "\<lambda>_. r"]) (simp_all add: op_simps)

lemma decodes_if: "(b \<Longrightarrow> decodes m Q) \<Longrightarrow> (\<not> b \<Longrightarrow> decodes n Q) \<Longrightarrow> decodes (if b then m else n) Q"
  by simp

lemma decodes_read_u8: "decodes read_u8 (\<lambda>_. True)"
  by (rule decodesI) (auto simp: read_u8_rest split: list.splits intro!: exI [of _ 1])

lemma decodes_read_bytes: "decodes (read_bytes n k v) (\<lambda>_. True)"
proof (induction n arbitrary: k v)
  case 0
  then show ?case by (simp add: decodes_ret)
next
  case (Suc n)
  then show ?case by (simp add: decodes_bnd [OF decodes_read_u8])
qed

lemma decodes_reads:
  "decodes read_i8 (\<lambda>_. True)" "decodes read_u32 (\<lambda>_. True)" "decodes read_i32 (\<lambda>_. True)" "decodes read_u64 (\<lambda>_. True)"
  by (simp_all add: read_i8_def read_i32_def read_u32_def read_u64_def decodes_read_u8 decodes_read_bytes)

lemma decodes_prefix_loop: "decodes (prefix_loop p) (\<lambda>_. True)"
proof -
  have "image_ok (cu_image c) \<Longrightarrow>
     (case prefix_loop p c of (Inl e, c') \<Rightarrow> e = Runtime_error
      | (Inr x, c') \<Rightarrow> \<exists>n \<le> length (rest c). c' = advance n c)" for c
  proof (induction p c rule: prefix_loop.induct)
    case (1 p c)
    show ?case
    proof (cases "rest c")
      case Nil
      then show ?thesis by (simp add: prefix_loop.simps [of p c] peek_u8_rest [OF 1(3)])
    next
      case (Cons b bs)
      have r1: "rest (advance 1 c) = bs" using rest_advance [OF 1(3), of 1] Cons by simp
      have step: "case prefix_loop p' (advance 1 c) of (Inl e, c') \<Rightarrow> e = Runtime_error
          | (Inr x, c') \<Rightarrow> \<exists>n \<le> length (rest c). c' = advance n c"
        if "case prefix_loop p' (advance 1 c) of (Inl e, c') \<Rightarrow> e = Runtime_error
          | (Inr x, c') \<Rightarrow> \<exists>n \<le> length (rest (advance 1 c)). c' = advance n (advance 1 c)" for p'
        using that r1 Cons by (auto split: prod.splits sum.splits)
      have pk: "peek_u8 c = (Inr b, c)" and rd: "read_u8 c = (Inr b, advance 1 c)"
        using peek_u8_rest [OF 1(3)] read_u8_rest [OF 1(3)] Cons by simp_all
      show ?thesis
        using 1(1) [of "Inr b" c b "Inr b" "advance 1 c" b] 1(2) [of "Inr b" c b "Inr b" "advance 1 c" b] pk rd 1(3)
          step [of "p\<lparr>px_locked := True\<rparr>"] step [of "p\<lparr>px_rex := rex_of b\<rparr>"]
        by (simp add: prefix_loop.simps [of p c]) (auto intro: exI [of _ 0])
    qed
  qed
  note main = this
  show ?thesis by (rule decodesI; drule main; simp)
qed

section \<open>Shapes of operands and instructions\<close>

fun is_rm :: "data_size \<Rightarrow> operand \<Rightarrow> bool" where
  "is_rm sz (Op_reg r s) \<longleftrightarrow> s = sz"
| "is_rm sz (Op_mem a s) \<longleftrightarrow> s = sz \<and> ma_scale a \<in> {1, 2, 4, 8}"
| "is_rm sz _ \<longleftrightarrow> False"

fun is_reg64 :: "operand \<Rightarrow> bool" where
  "is_reg64 (Op_reg r s) \<longleftrightarrow> s = QWORD"
| "is_reg64 _ \<longleftrightarrow> False"

text \<open>The operands that the decoder gives to each operation.\<close>

definition well_formed :: "instruction \<Rightarrow> bool" where
  "well_formed i \<longleftrightarrow> (let a = in_first i; b = in_second i in
     (in_locked i \<longrightarrow> is_memory a) \<and>
     (case in_opcode i of
        OP_MOV \<Rightarrow> is_rm QWORD a \<and> (is_reg64 b \<or> is_immediate b) \<or> is_reg64 a \<and> is_rm QWORD b
      | OP_ADD \<Rightarrow> is_rm QWORD a \<and> (is_reg64 b \<or> is_immediate b) \<or> is_reg64 a \<and> is_rm QWORD b
      | OP_SUB \<Rightarrow> is_rm QWORD a \<and> (is_reg64 b \<or> is_immediate b) \<or> is_reg64 a \<and> is_rm QWORD b
      | OP_CMP \<Rightarrow> is_rm QWORD a \<and> (is_reg64 b \<or> is_immediate b) \<or> is_reg64 a \<and> is_rm QWORD b
      | OP_AND \<Rightarrow> is_rm QWORD a \<and> (is_reg64 b \<or> is_immediate b) \<or> is_reg64 a \<and> is_rm QWORD b
      | OP_OR \<Rightarrow> is_rm QWORD a \<and> (is_reg64 b \<or> is_immediate b) \<or> is_reg64 a \<and> is_rm QWORD b
      | OP_XOR \<Rightarrow> is_rm QWORD a \<and> (is_reg64 b \<or> is_immediate b) \<or> is_reg64 a \<and> is_rm QWORD b
      | OP_TEST \<Rightarrow> is_rm QWORD a \<and> (is_reg64 b \<or> is_immediate b)
      | OP_MOVSX \<Rightarrow> is_reg64 a \<and> (is_rm BYTE b \<or> is_rm WORD b \<or> is_rm DWORD b)
      | OP_MOVZX \<Rightarrow> is_reg64 a \<and> (is_rm BYTE b \<or> is_rm WORD b)
      | OP_LEA \<Rightarrow> is_reg64 a \<and> is_memory b \<and> is_rm QWORD b
      | OP_INC \<Rightarrow> is_rm QWORD a
      | OP_DEC \<Rightarrow> is_rm QWORD a
      | OP_PUSH \<Rightarrow> is_rm QWORD a \<or> is_immediate a
      | OP_POP \<Rightarrow> is_rm QWORD a
      | OP_CALL \<Rightarrow> is_rm QWORD a \<or> is_immediate a
      | OP_CMPXCHG \<Rightarrow> is_rm QWORD a \<and> is_reg64 b
      | OP_XADD \<Rightarrow> is_rm QWORD a \<and> is_reg64 b
      | OP_INVLPG \<Rightarrow> is_memory a \<and> is_rm BYTE a
      | OP_JMP \<Rightarrow> is_immediate a
      | OP_JE \<Rightarrow> is_immediate a
      | OP_JNE \<Rightarrow> is_immediate a
      | OP_JCC \<Rightarrow> is_immediate a \<and> is_condition_code_valid (in_condition i)
      | OP_SETCC \<Rightarrow> is_rm BYTE a \<and> is_condition_code_valid (in_condition i)
      | OP_CMOVCC \<Rightarrow> is_reg64 a \<and> is_rm QWORD b \<and> is_condition_code_valid (in_condition i)
      | OP_INT \<Rightarrow> is_immediate a
      | OP_COUNT \<Rightarrow> False
      | _ \<Rightarrow> True))"

definition modrm_ok :: "modrm_byte \<Rightarrow> bool" where
  "modrm_ok m \<longleftrightarrow> mr_mod m < 4 \<and> mr_reg m < 8 \<and> mr_rm m < 8"

lemma and_mask_less:
  "v AND 7 < (8 :: byte)" "v AND 3 < (4 :: byte)"
proof -
  have "unat (v AND mask n) < 2 ^ n" for n
    by (simp add: take_bit_eq_mask [symmetric] unsigned_take_bit_eq)
  from this [of 3] this [of 2] show "v AND 7 < (8 :: byte)" "v AND 3 < (4 :: byte)"
    by (simp_all add: word_less_nat_alt mask_eq_exp_minus_1)
qed

lemma decode_register_ok: "encoded < 8 \<Longrightarrow> \<exists>r. decode_register encoded hb = Inr r"
proof -
  assume "encoded < 8"
  then have "unat encoded + 8 < 16" by (simp add: word_less_nat_alt)
  then have "unat (encoded + (if hb then 8 else 0)) < 16"
    by (auto simp: unat_word_ariths intro: le_less_trans [OF mod_less_eq_dividend])
  then show ?thesis by (simp add: decode_register_def register_from_index_def REGISTER_IDS_def)
qed

lemma scale_ok:
  assumes "s < 4"
  shows "sib_scale_to_multiplier s \<in> {1, 2, 4, 8}"
proof -
  have "unat s < 4" using assms by (simp add: word_less_nat_alt)
  then have "unat s = 0 \<or> unat s = 1 \<or> unat s = 2 \<or> unat s = 3" by linarith
  then show ?thesis by (auto simp: sib_scale_to_multiplier_def push_bit_one_exp)
qed

lemma decodes_read_modrm: "decodes read_modrm modrm_ok"
  unfolding read_modrm_def
  by (rule decodes_bnd [OF decodes_read_u8], rule decodes_ret) (simp add: modrm_ok_def and_mask_less)

lemma decodes_read_sib: "decodes read_sib (\<lambda>s. sib_scale s < 4 \<and> sib_index s < 8 \<and> sib_base s < 8)"
  unfolding read_sib_def
  by (rule decodes_bnd [OF decodes_read_u8], rule decodes_ret) (simp add: and_mask_less)

lemma decodes_displacement: "decodes (read_modrm_displacement m) (\<lambda>_. True)"
  unfolding read_modrm_displacement_def
  by (auto intro!: decodes_if decodes_bnd [OF decodes_reads(1)] decodes_bnd [OF decodes_reads(3)] decodes_ret)

lemma lift_sum_Inr: "lift_sum (Inr x) = ret x"
  by (simp add: lift_sum_def ret_def)

lemma sbind_InrD: "sbind r f = Inr y \<Longrightarrow> \<exists>x. r = Inr x \<and> f x = Inr y"
  by (auto simp: sbind_def split: sum.splits)

lemma decodes_reg_operand:
  assumes "encoded < 8"
  shows "decodes (decode_reg_operand encoded rex QWORD) is_reg64"
proof -
  obtain r where "decode_register encoded (rex_r rex) = Inr r" using decode_register_ok [OF assms] by blast
  then show ?thesis
    by (auto simp: decode_reg_operand_def sbind_def operand_reg_def intro!: decodes_lift_sum)
qed

lemma decodes_sib_operand:
  assumes "is_data_size_valid sz"
  shows "decodes (make_memory_operand_from_sib modrm rex sz) (\<lambda>a. is_memory a \<and> is_rm sz a)"
proof -
  have signed: "decodes (if b then bnd read_i32 (\<lambda>d. ret (scast d)) else ret v) (\<lambda>_. True)" for b and v :: qword
    by (auto intro!: decodes_if decodes_bnd [OF decodes_reads(3)] decodes_ret)
  show ?thesis
    unfolding make_memory_operand_from_sib_def Let_def
  proof (rule decodes_bnd [OF decodes_read_sib], rule decodes_bnd [OF decodes_displacement], rule decodes_bnd [OF signed])
    fix s and displacement :: qword
    assume s: "sib_scale s < 4 \<and> sib_index s < 8 \<and> sib_base s < 8"
    obtain rb where rb: "decode_register (sib_base s) (rex_b rex) = Inr rb"
      using s decode_register_ok [of "sib_base s" "rex_b rex"] by blast
    obtain ri where ri: "decode_register (sib_index s) (rex_x rex) = Inr ri"
      using s decode_register_ok [of "sib_index s" "rex_x rex"] by blast
    have scale: "sib_scale_to_multiplier (sib_scale s) \<in> {1, 2, 4, 8}" using s scale_ok by blast
    then have "require_memory_scale (sib_scale_to_multiplier (sib_scale s)) = Inr ()"
      by (auto simp: require_memory_scale_def)
    with rb ri scale assms show "decodes (lift_sum
        (if \<not> (mr_mod modrm = 0 \<and> sib_base s = 5) \<and> (sib_index s \<noteq> 4 \<or> rex_x rex)
         then sbind (decode_register (sib_base s) (rex_b rex)) (\<lambda>base.
              sbind (decode_register (sib_index s) (rex_x rex)) (\<lambda>index.
              sbind (base_index_displacement base index (sib_scale_to_multiplier (sib_scale s)) displacement) (\<lambda>a.
              operand_mem a sz)))
         else if \<not> (mr_mod modrm = 0 \<and> sib_base s = 5)
         then sbind (decode_register (sib_base s) (rex_b rex)) (\<lambda>base. operand_mem (base_displacement base displacement) sz)
         else if sib_index s \<noteq> 4 \<or> rex_x rex
         then sbind (decode_register (sib_index s) (rex_x rex)) (\<lambda>index.
              sbind (index_displacement index (sib_scale_to_multiplier (sib_scale s)) displacement) (\<lambda>a.
              operand_mem a sz))
         else operand_mem (absolute_address displacement) sz)) (\<lambda>a. is_memory a \<and> is_rm sz a)"
      by (intro decodes_lift_sum)
         (auto simp: sbind_def base_index_displacement_def index_displacement_def base_displacement_def
           absolute_address_def operand_mem_def split: if_splits)
  qed
qed

lemma decodes_rm_operand:
  assumes "modrm_ok modrm" and "is_data_size_valid sz"
  shows "decodes (decode_rm_operand modrm rex sz) (\<lambda>a. is_rm sz a \<and> (is_memory a \<longleftrightarrow> mr_mod modrm \<noteq> 3))"
proof -
  obtain r where r: "decode_register (mr_rm modrm) (rex_b rex) = Inr r"
    using assms(1) decode_register_ok [of "mr_rm modrm" "rex_b rex"] by (auto simp: modrm_ok_def)
  have mem: "operand_mem a sz = Inr (Op_mem a sz)" and reg: "operand_reg q sz = Inr (Op_reg q sz)" for a q
    using assms(2) by (simp_all add: operand_mem_def operand_reg_def)
  show ?thesis
    unfolding decode_rm_operand_def r mem
    by (auto simp: sbind_def reg lift_sum_Inr base_displacement_def absolute_address_def
        intro!: decodes_ret decodes_bnd [OF decodes_reads(3)] decodes_bnd [OF decodes_displacement] decodes_if
          decodes_mono [OF decodes_sib_operand [OF assms(2)]] decodes_bnd [OF decodes_gets]
          decodes_bnd [OF decodes_ret [where Q = "\<lambda>_. True"]])
qed

section \<open>Every decoded instruction is well formed\<close>

lemma bnd_modrm: "(\<And>m. modrm_ok m \<Longrightarrow> decodes (f m) Q) \<Longrightarrow> decodes (bnd read_modrm f) Q"
  by (rule decodes_bnd [OF decodes_read_modrm])

lemma bnd_rm:
  assumes "modrm_ok m" and "is_data_size_valid sz"
    and "\<And>a. is_rm sz a \<Longrightarrow> (is_memory a \<longleftrightarrow> mr_mod m \<noteq> 3) \<Longrightarrow> decodes (f a) Q"
  shows "decodes (bnd (decode_rm_operand m rex sz) f) Q"
  by (rule decodes_bnd [OF decodes_rm_operand [OF assms(1,2)]]) (auto intro: assms(3))

lemma bnd_reg:
  assumes "modrm_ok m" and "\<And>a. is_reg64 a \<Longrightarrow> decodes (f a) Q"
  shows "decodes (bnd (decode_reg_operand (mr_reg m) rex QWORD) f) Q"
  using assms by (intro decodes_bnd [OF decodes_reg_operand]) (simp_all add: modrm_ok_def)

lemma bnd_read:
  "(\<And>x. decodes (f x) Q) \<Longrightarrow> decodes (bnd read_u8 f) Q" "(\<And>x. decodes (f x) Q) \<Longrightarrow> decodes (bnd read_i8 f) Q"
  "(\<And>x. decodes (g x) Q) \<Longrightarrow> decodes (bnd read_i32 g) Q" "(\<And>x. decodes (h x) Q) \<Longrightarrow> decodes (bnd read_u64 h) Q"
  by (rule decodes_bnd [OF decodes_read_u8] decodes_bnd [OF decodes_reads(1)] decodes_bnd [OF decodes_reads(3)]
      decodes_bnd [OF decodes_reads(4)]; assumption)+

lemma bnd_gets: "(\<And>x. decodes (f x) Q) \<Longrightarrow> decodes (bnd (gets g) f) Q"
  by (rule decodes_bnd [OF decodes_gets [where Q = "\<lambda>_. True"]]) simp_all

lemma sq_require: "(b \<Longrightarrow> decodes n Q) \<Longrightarrow> decodes (sq (require b Runtime_error) n) Q"
  unfolding sq_def by (rule decodes_bnd [OF decodes_require])

lemmas decode_rules = bnd_modrm bnd_rm bnd_reg bnd_read bnd_gets sq_require decodes_if decodes_throw

lemmas decode_guards = require_rex_w_def require_unlocked_def require_lockable_memory_destination_def

lemmas instruction_makers = make_mov_def make_movsx_def make_movzx_def make_lea_def make_add_def make_sub_def make_cmp_def
  make_inc_def make_dec_def make_and_def make_or_def make_xor_def make_test_def make_cmpxchg_def make_xadd_def
  make_mfence_def make_invlpg_def make_push_def make_pop_def make_call_def make_ret_def make_jmp_def make_je_def
  make_jne_def make_int_def make_syscall_def make_sysret_def make_iret_def make_hlt_def Instruction_def Instruction_cc_def

lemma condition_from_opcode_valid: "is_condition_code_valid (condition_from_opcode b)"
proof -
  have "unat (b AND mask n) < 2 ^ n" for n by (simp add: take_bit_eq_mask [symmetric] unsigned_take_bit_eq)
  from this [of 4] have "condition_from_opcode b \<in> {CC_O, CC_NO, CC_B, CC_AE, CC_E, CC_NE, CC_BE, CC_A,
      CC_S, CC_NS, CC_P, CC_NP, CC_L, CC_GE, CC_LE, CC_G}"
    by (simp add: condition_from_opcode_def mask_eq_exp_minus_1 nth_Cons' del: insert_iff) auto
  then show ?thesis by (auto simp: is_condition_code_valid_def)
qed

lemma decodes_conditional_jump:
  "decodes (lift_sum (make_conditional_jump_instruction (condition_from_opcode b) a)) well_formed"
  using condition_from_opcode_valid [of b]
  by (intro decodes_lift_sum)
     (auto simp: make_conditional_jump_instruction_def make_jcc_def well_formed_def instruction_makers split: if_splits)

lemma decodes_escaped: "decodes (decode_escaped p) well_formed"
  unfolding decode_escaped_def Let_def decode_guards make_cmovcc_def make_setcc_def
  using condition_from_opcode_valid
  by (intro decode_rules decodes_conditional_jump)
     (simp_all add: decodes_ret lift_sum_Inr well_formed_def instruction_makers,
      auto simp: well_formed_def intro!: decodes_ret split: if_splits)

lemma is_rm_reg64: "is_reg64 a \<Longrightarrow> is_rm QWORD a \<and> \<not> is_memory a"
  by (cases a) auto

lemma binary_well_formed:
  assumes "is_rm QWORD a" and "is_reg64 b"
  shows "well_formed (make_binary_instruction k a b)" and "k \<noteq> BK_TEST \<Longrightarrow> well_formed (make_binary_instruction k b a)"
  using assms by (cases k; simp add: well_formed_def instruction_makers)+

lemma decodes_register_of_opcode:
  assumes "lo \<le> opcode" and "opcode \<le> lo + 7" and "lo \<le> 248"
  shows "\<exists>r. decode_register (opcode - lo) hb = Inr r"
proof (rule decode_register_ok)
  have "unat opcode \<le> unat (lo + 7)" "unat lo \<le> unat opcode" using assms by (simp_all add: word_le_nat_alt)
  moreover have "unat (lo + 7) \<le> unat lo + 7" by (simp add: unat_word_ariths)
  ultimately have "unat opcode - unat lo < 8" by linarith
  then show "opcode - lo < 8" using assms(1) by (simp add: word_less_nat_alt unat_sub)
qed

lemma bnd_known: "r = Inr x \<Longrightarrow> decodes (f x) Q \<Longrightarrow> decodes (bnd (lift_sum r) f) Q"
  by (rule decodes_bnd [OF decodes_lift_sum [where Q = "\<lambda>y. y = x"]]) auto

lemma decodes_case_option:
  "(\<And>x. v = Some x \<Longrightarrow> decodes (f x) Q) \<Longrightarrow> (v = None \<Longrightarrow> decodes n Q) \<Longrightarrow>
   decodes (case v of Some x \<Rightarrow> f x | None \<Rightarrow> n) Q"
  by (cases v) simp_all

lemma decodes_group:
  "is_rm QWORD a \<Longrightarrow> decodes (lift_sum (make_group1_instruction e a (Op_imm v))) well_formed"
  "is_rm QWORD a \<Longrightarrow> decodes (lift_sum (make_group5_instruction e a)) well_formed"
  by (rule decodes_lift_sum; auto simp: make_group1_instruction_def make_group5_instruction_def well_formed_def
      instruction_makers split: if_splits)+

lemma decodes_opcode: "decodes (decode_opcode p opcode) well_formed"
proof -
  have push: "decodes (lift_sum (sbind (decode_register (opcode - 0x50) hb) (\<lambda>r. sbind (operand_reg r QWORD) (\<lambda>a. Inr (make_push a))))) well_formed"
    if "opcode \<ge> 0x50 \<and> opcode \<le> 0x57" for hb
    using decodes_register_of_opcode [of "0x50" opcode hb] that
    by (auto simp: sbind_def operand_reg_def lift_sum_Inr well_formed_def instruction_makers intro!: decodes_ret)
  have pop: "decodes (lift_sum (sbind (decode_register (opcode - 0x58) hb) (\<lambda>r. sbind (operand_reg r QWORD) (\<lambda>a. Inr (make_pop a))))) well_formed"
    if "opcode \<ge> 0x58 \<and> opcode \<le> 0x5F" for hb
    using decodes_register_of_opcode [of "0x58" opcode hb] that
    by (auto simp: sbind_def operand_reg_def lift_sum_Inr well_formed_def instruction_makers intro!: decodes_ret)
  have mov: "decodes (bnd (lift_sum (decode_register (opcode - 0xB8) hb)) (\<lambda>r.
      bnd (lift_sum (operand_reg r QWORD)) (\<lambda>d. bnd read_u64 (\<lambda>v. ret (make_mov d (Op_imm v)))))) well_formed"
    if range: "opcode \<ge> 0xB8 \<and> opcode \<le> 0xBF" for hb
  proof -
    obtain r where r: "decode_register (opcode - 0xB8) hb = Inr r"
      using decodes_register_of_opcode [of "0xB8" opcode hb] range by auto
    have reg: "operand_reg r QWORD = Inr (Op_reg r QWORD)" by (simp add: operand_reg_def)
    have "well_formed (make_mov (Op_reg r QWORD) (Op_imm v))" for v
      by (simp add: well_formed_def instruction_makers)
    then show ?thesis by (intro bnd_known [OF r] bnd_known [OF reg] bnd_read decodes_ret)
  qed
  have "binary_kind_from_opcode opcode = Some BK_TEST \<Longrightarrow> rm_operand_is_destination_opcode opcode"
    by (auto simp: binary_kind_from_opcode_def rm_operand_is_destination_opcode_def split: if_splits)
  then have bin: "decodes (ret (if rm_operand_is_destination_opcode opcode then make_binary_instruction k a b
      else make_binary_instruction k b a)) well_formed"
    if "binary_kind_from_opcode opcode = Some k" "is_rm QWORD a" "is_reg64 b" for k a b
    using that by (intro decodes_ret) (auto intro: binary_well_formed)
  show ?thesis
    unfolding decode_opcode_def Let_def decode_guards make_unconditional_jump_instruction_def
    by (intro decode_rules decodes_case_option decodes_conditional_jump decodes_escaped decodes_group push pop mov bin decodes_ret;
        (assumption | simp add: well_formed_def instruction_makers Let_def))
qed

section \<open>The whole decoder\<close>

lemma decode_run:
  assumes "image_ok im"
  shows "case decode im r of Inl e \<Rightarrow> e = Runtime_error
    | Inr d \<Rightarrow> well_formed (de_instruction d) \<and> de_start_rip d = r \<and>
        (\<exists>n. 0 < n \<and> n \<le> length (rest_at im r) \<and> de_next_rip d = r + of_nat n)"
proof (cases "im_bytes im = []")
  case True
  then show ?thesis by (simp add: decode_def DecodeCursor_def sbind_def)
next
  case False
  let ?c = "\<lparr>cu_image = im, cu_rip = r\<rparr>"
  let ?tail = "\<lambda>prefixes. bnd read_u8 (\<lambda>opcode. bnd (decode_opcode prefixes opcode) (\<lambda>i. bnd (gets cu_rip) (\<lambda>next_rip.
      ret \<lparr>de_instruction = i, de_start_rip = r, de_next_rip = next_rip\<rparr>)))"
  have ok: "image_ok (cu_image ?c)" using assms by simp
  have prefixes: "decodes read_instruction_prefixes (\<lambda>_. True)"
    unfolding read_instruction_prefixes_def by (rule decodes_prefix_loop)
  have all: "decodes (bnd read_instruction_prefixes ?tail) (\<lambda>_. True)"
    by (intro decodes_bnd [OF prefixes] decodes_bnd [OF decodes_read_u8] decodes_bnd [OF decodes_opcode] bnd_gets decodes_ret TrueI)
  have dec: "decode im r = fst (bnd read_instruction_prefixes ?tail ?c)"
    using False by (simp add: decode_def DecodeCursor_def sbind_def)
  show ?thesis
  proof (cases "bnd read_instruction_prefixes ?tail ?c")
    case (Pair res c')
    show ?thesis
    proof (cases res)
      case (Inl e)
      then show ?thesis using decodes_InlD [OF all ok] Pair dec by simp
    next
      case (Inr d)
      from Pair Inr have "bnd read_instruction_prefixes ?tail ?c = (Inr d, c')" by simp
      then obtain p c1 where p: "read_instruction_prefixes ?c = (Inr p, c1)" and t: "?tail p c1 = (Inr d, c')"
        by (rule bnd_InrE)
      from t obtain v c2 where v: "read_u8 c1 = (Inr v, c2)"
        and t2: "bnd (decode_opcode p v) (\<lambda>i. bnd (gets cu_rip) (\<lambda>next_rip.
          ret \<lparr>de_instruction = i, de_start_rip = r, de_next_rip = next_rip\<rparr>)) c2 = (Inr d, c')"
        by (rule bnd_InrE)
      from t2 obtain i c3 where i: "decode_opcode p v c2 = (Inr i, c3)"
        and d: "bnd (gets cu_rip) (\<lambda>next_rip. ret \<lparr>de_instruction = i, de_start_rip = r, de_next_rip = next_rip\<rparr>) c3 = (Inr d, c')"
        by (rule bnd_InrE)
      from decodesD [OF prefixes ok p] obtain n1 where n1: "n1 \<le> length (rest ?c)" "c1 = advance n1 ?c" .
      have ok1: "image_ok (cu_image c1)" using ok n1(2) by simp
      have n2: "rest c1 \<noteq> []" "c2 = advance 1 c1" using v read_u8_rest [OF ok1] by (auto split: list.splits)
      have ok2: "image_ok (cu_image c2)" using ok1 n2(2) by simp
      from decodesD [OF decodes_opcode ok2 i] obtain n3 where n3: "n3 \<le> length (rest c2)" "c3 = advance n3 c2" and wf: "well_formed i" .
      have r1: "rest c1 = drop n1 (rest ?c)" using rest_advance [OF ok n1(1)] n1(2) by simp
      have r2: "rest c2 = drop 1 (rest c1)" using rest_advance [OF ok1, of 1] n2 by (simp add: Suc_le_eq)
      have c3: "cu_rip c3 = r + of_nat (n1 + 1 + n3)" using n1(2) n2(2) n3(2) by simp
      have n: "n1 + 1 + n3 \<le> length (rest ?c)"
        using n1(1) n2(1) n3(1) unfolding r2 r1 by (simp add: Suc_le_eq)
      have "d = \<lparr>de_instruction = i, de_start_rip = r, de_next_rip = cu_rip c3\<rparr>"
        using d by (auto simp: op_simps)
      then have "decode im r = Inr \<lparr>de_instruction = i, de_start_rip = r, de_next_rip = cu_rip c3\<rparr>"
        using dec Pair Inr by simp
      moreover have "\<exists>n. 0 < n \<and> n \<le> length (rest_at im r) \<and> cu_rip c3 = r + of_nat n"
        using n c3 by (intro exI [of _ "n1 + 1 + n3"]) (simp add: rest_def)
      ultimately show ?thesis using wf by simp
    qed
  qed
qed

lemma decode_well_formed:
  assumes "image_ok im" and "decode im r = Inr d"
  shows "well_formed (de_instruction d)"
  using decode_run [OF assms(1), of r] assms(2) by simp

section \<open>Properties\<close>

text \<open>
  C26: the decoder on any image that does not wrap around the address space and at any address.
  It throws nothing but \<^verbatim>\<open>DecodeError\<close> (so no register index is out of range, no scale is refused, no
  byte outside the image is read). When it returns, the next address lies a positive number of bytes
  further, all of them bytes of the image, and the instruction has operands of the kinds and widths that
  its operation takes: a locked instruction has a memory destination, at most one operand is in memory,
  arithmetic is on 64 bits, and conditions are valid.
\<close>

theorem decode_correct:
  assumes "image_ok im"
  shows "case decode im r of Inl e \<Rightarrow> e = Runtime_error
    | Inr d \<Rightarrow> well_formed (de_instruction d) \<and> de_start_rip d = r \<and>
        (\<exists>n. 0 < n \<and> n \<le> length (rest_at im r) \<and> de_next_rip d = r + of_nat n)"
  by (rule decode_run [OF assms])

text \<open>\<^verbatim>\<open>lock cmpxchg [rax], rcx\<close>, then a truncated \<^verbatim>\<open>mov\<close>.\<close>

definition sample_image :: executable_image where
  "sample_image = \<lparr>im_bytes = [0xF0, 0x48, 0x0F, 0xB1, 0x08, 0x48, 0xB8, 0x01], im_base = 0x1000\<rparr>"

lemma sample_image_decoded:
  "decode sample_image 0x1000 = Inr \<lparr>de_instruction = make_cmpxchg (Op_mem (base_displacement RAX 0) QWORD) (Op_reg RCX QWORD) True,
     de_start_rip = 0x1000, de_next_rip = 0x1005\<rparr>"
  "decode sample_image 0x1005 = Inl Runtime_error"
  by code_simp+

theorem decode_correct_witness:
  "well_formed (make_cmpxchg (Op_mem (base_displacement RAX 0) QWORD) (Op_reg RCX QWORD) True) \<and>
   (\<exists>n. 0 < n \<and> n \<le> length (rest_at sample_image 0x1000) \<and> (0x1005 :: address64) = 0x1000 + of_nat n)"
proof -
  have "image_ok sample_image" by (simp add: image_ok_def sample_image_def)
  from decode_correct [OF this, of "0x1000"] show ?thesis by (simp add: sample_image_decoded)
qed

end
