(* ===== verification/ImageRun.thy ===== *)
theory ImageRun
  imports ExecProps DecodeProps
begin

unbundle bit_operations_syntax

text \<open>
  Running machine code: \<^verbatim>\<open>step_image_with_memory\<close> and \<^verbatim>\<open>run_image_with_memory\<close> of \<^verbatim>\<open>executor.cpp\<close>, which
  decode and execute. Decoded instructions never fail for the kind of an operand, and a run stops
  exactly at the first halted state.
\<close>

section \<open>Steps on an image\<close>

definition step_image_with_memory :: "executable_image \<Rightarrow> bool \<Rightarrow> (executor, step_result) op" where
  "step_image_with_memory im bus = with_cpu (\<lambda>c.
     if halted c then ret STEP_HALTED
     else bnd (lift_sum (decode im (rip c))) (\<lambda>d.
       let ctx = \<lparr>ctx_program = None, ctx_image = Some im, ctx_next_rip = de_next_rip d\<rparr> in
       sq (execute_guarded bus (de_instruction d) ctx (de_start_rip d))
          (finish_step (de_instruction d) (de_start_rip d))))"

fun run_image_loop :: "executable_image \<Rightarrow> bool \<Rightarrow> nat \<Rightarrow> nat \<Rightarrow> (executor, nat) op" where
  "run_image_loop im bus 0 executed =
     with_cpu (\<lambda>c. if \<not> halted c then throw Runtime_error else ret executed)"
| "run_image_loop im bus (Suc left) executed =
     with_cpu (\<lambda>c. if halted c then ret executed
       else sq (step_image_with_memory im bus) (run_image_loop im bus left (Suc executed)))"

definition run_image_with_memory :: "executable_image \<Rightarrow> bool \<Rightarrow> nat \<Rightarrow> (executor, nat) op" where
  "run_image_with_memory im bus max_steps = run_image_loop im bus max_steps 0"

section \<open>Which exceptions an operation throws\<close>

definition throws_only :: "exn set \<Rightarrow> ('s, 'a) op \<Rightarrow> bool" where
  "throws_only E m \<longleftrightarrow> (\<forall>s e s'. m s = (Inl e, s') \<longrightarrow> e \<in> E)"

lemma throws_only_bnd: "throws_only E m \<Longrightarrow> (\<And>x. throws_only E (f x)) \<Longrightarrow> throws_only E (bnd m f)"
  unfolding throws_only_def by (blast elim: bnd_InlE)

lemma throws_only_sq: "throws_only E m \<Longrightarrow> throws_only E n \<Longrightarrow> throws_only E (sq m n)"
  unfolding sq_def by (rule throws_only_bnd)

lemma throws_only_if: "(b \<Longrightarrow> throws_only E m) \<Longrightarrow> (\<not> b \<Longrightarrow> throws_only E n) \<Longrightarrow> throws_only E (if b then m else n)"
  by simp

lemma throws_only_basic:
  "throws_only E (ret x)" "throws_only E (gets g)" "throws_only E (modify h)"
  "e \<in> E \<Longrightarrow> throws_only E (throw e)" "b \<or> e \<in> E \<Longrightarrow> throws_only E (require b e)"
  "(\<And>e. r = Inl e \<Longrightarrow> e \<in> E) \<Longrightarrow> throws_only E (lift_sum r)"
  by (auto simp: throws_only_def op_simps split: if_splits)

lemma throws_only_focus: "throws_only E m \<Longrightarrow> throws_only E (focus g u m)"
  by (auto simp: throws_only_def op_simps split: prod.splits)

lemma throws_only_case_prod: "(\<And>a b. throws_only E (f a b)) \<Longrightarrow> throws_only E (case_prod f x)"
  by (cases x) simp

lemma throws_only_case_option:
  "(\<And>x. throws_only E (f x)) \<Longrightarrow> throws_only E n \<Longrightarrow> throws_only E (case v of None \<Rightarrow> n | Some x \<Rightarrow> f x)"
  by (cases v) simp_all

lemmas throws_rules = throws_only_bnd throws_only_sq throws_only_if throws_only_focus throws_only_case_prod
  throws_only_case_option throws_only_basic(1-3)

text \<open>What a memory access may throw.\<close>

abbreviation access_errors :: "exn set" where
  "access_errors \<equiv> insert Out_of_range (range Page_fault)"

lemma memory_throws:
  assumes "is_data_size_valid sz"
  shows "throws_only access_errors (mem_read a sz)" "throws_only access_errors (mem_write a sz v)"
  using assms by (cases sz; auto simp: throws_only_def mem_read_run mem_write_run split: if_splits)+

lemma page_fault_throws: "throws_only access_errors (throw_page_fault la k pl why)"
  by (simp add: throw_page_fault_def throws_only_basic)

lemma level_throws:
  assumes "level \<in> set WALK_ORDER"
  shows "throws_only access_errors (lift_sum (page_table_index la level))"
    and "is_leaf_entry entry level \<Longrightarrow> throws_only access_errors (lift_sum (page_size_for_leaf_level level))"
  using assms
  by (auto simp: WALK_ORDER_def page_table_index_def sbind_def is_leaf_entry_def is_large_leaf_entry_def intro!: throws_only_basic)

lemma walk_levels_throws:
  assumes "set levels \<subseteq> set WALK_ORDER"
  shows "throws_only access_errors (walk_levels ps la k pl levels table p)"
  using assms
proof (induction levels arbitrary: table p)
  case Nil
  show ?case by (simp add: page_fault_throws)
next
  case (Cons level levels)
  have level: "level \<in> set WALK_ORDER" and rest: "set levels \<subseteq> set WALK_ORDER" using Cons.prems by auto
  have valid: "throws_only access_errors (validate_reserved_bits ps entry level la k pl :: (phys_mem, unit) op)" for entry
    unfolding validate_reserved_bits_def Let_def
    by (intro throws_rules page_fault_throws level_throws(2) [OF level, of entry]) (simp add: is_leaf_entry_def)
  have marks: "throws_only access_errors (mark_accessed_dirty a entry leaf k)" for a entry leaf
    unfolding mark_accessed_dirty_def write_page_table_entry_if_changed_def Let_def by (intro throws_rules memory_throws) simp
  have perms: "throws_only access_errors (enforce_permissions ps q la k pl :: (phys_mem, unit) op)" for q
    unfolding enforce_permissions_def by (intro throws_rules page_fault_throws)
  show ?case
    unfolding walk_levels.simps Let_def read_page_table_entry_def
    by (intro throws_rules page_fault_throws level_throws [OF level] memory_throws valid marks perms Cons.IH [OF rest]) simp_all
qed

lemma walker_throws: "throws_only access_errors (walker_translate ps la k pl)"
  unfolding walker_translate_def by (intro throws_rules walk_levels_throws throws_only_basic) simp_all

lemma record_throws: "throws_only E (record_event ev)"
  by (simp add: record_event_def throws_only_basic)

lemma translate_throws:
  "throws_only access_errors (translate_enabled ps pl la k)" "throws_only access_errors (mmu_translate ps pl la k)"
proof -
  have allowed: "throws_only access_errors (ensure_cached_access_allowed ps tr pl la k :: (mmu_state, unit) op)" for tr
    unfolding ensure_cached_access_allowed_def Let_def by (intro throws_rules page_fault_throws)
  have dirty: "throws_only access_errors (mark_cached_translation_dirty la tr)" for tr
    unfolding mark_cached_translation_dirty_def Let_def mmu_bus_def by (intro throws_rules memory_throws) simp_all
  show "throws_only access_errors (translate_enabled ps pl la k)"
    unfolding translate_enabled_def Let_def mmu_bus_def record_tlb_hit_def record_tlb_miss_def
    by (intro throws_rules record_throws allowed dirty walker_throws)
  then show "throws_only access_errors (mmu_translate ps pl la k)"
    unfolding mmu_translate_def by (intro throws_rules)
qed

lemma byte_loops_throw:
  "throws_only access_errors (read_bytes_loop ps pl la xs v)" "throws_only access_errors (translate_bytes_loop ps pl la xs)"
  "throws_only access_errors (write_bytes_loop v k pas)"
proof -
  note step = translate_throws memory_throws record_throws throws_rules
  show "throws_only access_errors (read_bytes_loop ps pl la xs v)"
    by (induction xs arbitrary: v) (simp_all add: step mmu_bus_def record_data_read_def)
  show "throws_only access_errors (translate_bytes_loop ps pl la xs)"
    by (induction xs) (simp_all add: step)
  show "throws_only access_errors (write_bytes_loop v k pas)"
    by (induction pas arbitrary: k) (simp_all add: step mmu_bus_def record_data_write_def)
qed

lemma access_throws:
  assumes "is_data_size_valid sz"
  shows "throws_only access_errors (mmu_read ps pl la sz)" "throws_only access_errors (mmu_write ps pl la sz v)"
proof -
  obtain n where n: "data_size_to_bytes sz = Inr n" using assms by (cases sz) auto
  show "throws_only access_errors (mmu_read ps pl la sz)"
    unfolding mmu_read_def n mmu_bus_def record_data_read_def
    by (intro throws_rules translate_throws memory_throws [OF assms] byte_loops_throw record_throws throws_only_basic) simp
  show "throws_only access_errors (mmu_write ps pl la sz v)"
    unfolding mmu_write_def n mmu_bus_def record_data_write_def
    by (intro throws_rules translate_throws memory_throws [OF assms] byte_loops_throw record_throws throws_only_basic) simp
qed

section \<open>Decoded instructions are executed or fault\<close>

text \<open>
  The operations below run on an executor with a memory bus. What an instruction may throw besides a
  failed access: a jump outside the image, which is \<^verbatim>\<open>out_of_range\<close> too.
\<close>

lemma throws_only_with_cpu: "(\<And>c. throws_only E (f c)) \<Longrightarrow> throws_only E (with_cpu f)"
  by (simp add: throws_only_def with_cpu_def)

lemma executor_throws_basic:
  "throws_only E (cpu_modify h)" "throws_only E (set_next_rip ctx)" "throws_only E (update_flags g)"
  "throws_only access_errors (jump_to ctx a)" "throws_only E (require_memory_bus True)"
  by (simp_all add: throws_only_def cpu_modify_def set_next_rip_def update_flags_def jump_to_def require_memory_bus_def op_simps
      split: if_splits)

lemma on_mmu_throws: "throws_only E m \<Longrightarrow> throws_only E (on_mmu m)"
  by (simp add: on_mmu_def throws_only_focus)

lemma rm_cases:
  assumes "is_rm sz a"
  obtains r where "a = Op_reg r sz" | m where "a = Op_mem m sz"
  using assms by (cases a) auto

lemma register_throws:
  assumes "is_data_size_valid sz"
  shows "throws_only E (read_register_operand (Op_reg r sz))" "throws_only E (write_register_operand (Op_reg r sz) v)"
  using assms by (simp_all add: throws_only_def read_register_operand_run write_register_operand_run)

lemma bnd_ret: "bnd (ret x) f = f x"
  by (simp add: fun_eq_iff op_simps)

lemma rm_throws:
  assumes "is_rm sz a" and "is_data_size_valid sz"
  shows "throws_only access_errors (read_operand True a)" "throws_only access_errors (write_operand True a v)"
proof -
  have "throws_only access_errors (read_operand True (Op_mem m sz))" "throws_only access_errors (write_operand True (Op_mem m sz) v)" for m
    by (simp_all add: read_operand_def write_operand_def read_memory_operand_def write_memory_operand_def lift_sum_Inr bnd_ret)
       (intro throws_only_with_cpu throws_rules executor_throws_basic on_mmu_throws access_throws assms(2))+
  moreover have "throws_only access_errors (read_operand True (Op_reg r sz))" "throws_only access_errors (write_operand True (Op_reg r sz) v)" for r
    by (simp_all add: read_operand_def write_operand_def register_throws [OF assms(2)])
  ultimately show "throws_only access_errors (read_operand True a)" "throws_only access_errors (write_operand True a v)"
    using assms(1) by (auto elim: rm_cases)
qed

lemma reg64_rm: "is_reg64 a \<Longrightarrow> \<exists>r. a = Op_reg r QWORD"
  by (cases a) auto

lemma source_throws:
  "is_rm sz a \<Longrightarrow> is_data_size_valid sz \<Longrightarrow> throws_only access_errors (read_operand True a)"
  "is_reg64 a \<Longrightarrow> throws_only access_errors (read_operand True a)"
  "is_immediate a \<Longrightarrow> throws_only access_errors (read_operand True a)"
proof -
  show "throws_only access_errors (read_operand True a)" if "is_rm sz a" "is_data_size_valid sz" using rm_throws [OF that] by simp
  show "throws_only access_errors (read_operand True a)" if "is_reg64 a"
    using reg64_rm [OF that] by (auto simp: read_operand_def register_throws)
  show "throws_only access_errors (read_operand True a)" if "is_immediate a"
    using that by (cases a) (simp_all add: read_operand_def lift_sum_Inr throws_rules)
qed

lemma stack_throws:
  "throws_only access_errors (push_qword True v)" "throws_only access_errors (pop_qword True)"
  unfolding push_qword_def pop_qword_def Let_def
  by (intro throws_only_with_cpu throws_rules executor_throws_basic on_mmu_throws access_throws; simp)+

lemma condition_throws: "is_condition_code_valid cc \<Longrightarrow> throws_only E (test_condition cc)"
  unfolding test_condition_def
  by (intro throws_only_with_cpu, cases cc) (auto simp: evaluate_condition_def Let_def is_condition_code_valid_def lift_sum_Inr throws_rules)

lemmas throws_instruction = throws_only_with_cpu throws_rules executor_throws_basic stack_throws

lemma alu_throws:
  assumes "is_rm QWORD (in_first i) \<and> (is_reg64 (in_second i) \<or> is_immediate (in_second i)) \<or> is_reg64 (in_first i) \<and> is_rm QWORD (in_second i)"
  shows "throws_only access_errors (execute_mov True i ctx)" "throws_only access_errors (execute_add True i ctx)"
    "throws_only access_errors (execute_sub True i ctx)" "throws_only access_errors (execute_cmp True i ctx)"
    "throws_only access_errors (execute_and True i ctx)" "throws_only access_errors (execute_or True i ctx)"
    "throws_only access_errors (execute_xor True i ctx)" "throws_only access_errors (execute_test True i ctx)"
proof -
  have src: "throws_only access_errors (read_operand True (in_first i))" "throws_only access_errors (read_operand True (in_second i))"
    using assms by (auto intro: source_throws rm_throws)
  have dst: "throws_only access_errors (write_operand True (in_first i) v)" for v
    using assms is_rm_reg64 [of "in_first i"] by (intro rm_throws [where sz = QWORD]) auto
  have one: "throws_only access_errors (require_at_most_one_memory_operand i)"
    using assms by (cases "in_first i"; cases "in_second i") (auto simp: require_at_most_one_memory_operand_def intro!: throws_only_basic)
  show "throws_only access_errors (execute_mov True i ctx)" "throws_only access_errors (execute_add True i ctx)"
    "throws_only access_errors (execute_sub True i ctx)" "throws_only access_errors (execute_cmp True i ctx)"
    "throws_only access_errors (execute_and True i ctx)" "throws_only access_errors (execute_or True i ctx)"
    "throws_only access_errors (execute_xor True i ctx)" "throws_only access_errors (execute_test True i ctx)"
    unfolding execute_mov_def execute_add_def execute_sub_def execute_cmp_def execute_and_def execute_or_def execute_xor_def
      execute_test_def Let_def
    by (intro throws_instruction src dst one)+
qed

lemma unary_throws:
  assumes "is_rm QWORD (in_first i)"
  shows "throws_only access_errors (execute_inc True i ctx)" "throws_only access_errors (execute_dec True i ctx)"
    "throws_only access_errors (execute_pop True i ctx)"
    "is_reg64 (in_second i) \<Longrightarrow> in_locked i \<longrightarrow> is_memory (in_first i) \<Longrightarrow> throws_only access_errors (execute_cmpxchg True i ctx)"
    "is_reg64 (in_second i) \<Longrightarrow> in_locked i \<longrightarrow> is_memory (in_first i) \<Longrightarrow> throws_only access_errors (execute_xadd True i ctx)"
proof -
  have rd: "throws_only access_errors (read_operand True (in_first i))"
    and wr: "throws_only access_errors (write_operand True (in_first i) v)" for v
    using rm_throws [OF assms] by simp_all
  show "throws_only access_errors (execute_inc True i ctx)" "throws_only access_errors (execute_dec True i ctx)"
    "throws_only access_errors (execute_pop True i ctx)"
    unfolding execute_inc_def execute_dec_def execute_pop_def Let_def by (intro throws_instruction rd wr)+
  assume reg: "is_reg64 (in_second i)" and lock: "in_locked i \<longrightarrow> is_memory (in_first i)"
  then obtain r where r: "in_second i = Op_reg r QWORD" using reg64_rm by blast
  have guards: "throws_only access_errors (require_at_most_one_memory_operand i)"
    "throws_only access_errors (require_register_operand (in_second i))" "throws_only access_errors (require_locked_memory_destination i)"
    using lock by (auto simp: require_at_most_one_memory_operand_def require_register_operand_def require_locked_memory_destination_def r
        intro!: throws_only_basic)
  have regs: "throws_only access_errors (read_register_operand (in_second i))"
    "throws_only access_errors (write_register_operand (in_second i) v)" for v
    by (simp_all add: r register_throws)
  show "throws_only access_errors (execute_cmpxchg True i ctx)" "throws_only access_errors (execute_xadd True i ctx)"
    unfolding execute_cmpxchg_def execute_xadd_def Let_def by (intro throws_instruction guards rd wr regs)+
qed

lemma transfer_throws:
  "is_rm QWORD (in_first i) \<or> is_immediate (in_first i) \<Longrightarrow> throws_only access_errors (execute_push True i ctx)"
  "is_rm QWORD (in_first i) \<or> is_immediate (in_first i) \<Longrightarrow> throws_only access_errors (execute_call True i ctx)"
  "throws_only access_errors (execute_ret True ctx)"
  "is_immediate (in_first i) \<Longrightarrow> throws_only access_errors (execute_jmp True i ctx)"
  "is_immediate (in_first i) \<Longrightarrow> throws_only access_errors (execute_je True i ctx)"
  "is_immediate (in_first i) \<Longrightarrow> throws_only access_errors (execute_jne True i ctx)"
  "is_immediate (in_first i) \<Longrightarrow> is_condition_code_valid (in_condition i) \<Longrightarrow> throws_only access_errors (execute_jcc True i ctx)"
  unfolding execute_push_def execute_call_def execute_ret_def execute_jmp_def execute_je_def execute_jne_def execute_jcc_def
  by (intro throws_instruction condition_throws; (auto intro: source_throws))+

lemma move_throws:
  "is_reg64 (in_first i) \<Longrightarrow> is_rm sz (in_second i) \<Longrightarrow> is_data_size_valid sz \<Longrightarrow> throws_only access_errors (execute_movsx True i ctx)"
  "is_reg64 (in_first i) \<Longrightarrow> is_rm sz (in_second i) \<Longrightarrow> is_data_size_valid sz \<Longrightarrow> throws_only access_errors (execute_movzx True i ctx)"
  "is_reg64 (in_first i) \<Longrightarrow> is_memory (in_second i) \<Longrightarrow> throws_only access_errors (execute_lea i ctx)"
  "is_rm BYTE (in_first i) \<Longrightarrow> is_condition_code_valid (in_condition i) \<Longrightarrow> throws_only access_errors (execute_setcc True i ctx)"
  "is_reg64 (in_first i) \<Longrightarrow> is_rm QWORD (in_second i) \<Longrightarrow> is_condition_code_valid (in_condition i) \<Longrightarrow>
     throws_only access_errors (execute_cmovcc True i ctx)"
proof -
  have reg: "throws_only access_errors (require_register_operand (in_first i))"
    "throws_only access_errors (write_register_operand (in_first i) v)"
    "throws_only access_errors (require_at_most_one_memory_operand i)" if "is_reg64 (in_first i)" for v
    using reg64_rm [OF that]
    by (auto simp: require_register_operand_def require_at_most_one_memory_operand_def register_throws intro!: throws_only_basic)
  show "throws_only access_errors (execute_movsx True i ctx)"
    if a: "is_reg64 (in_first i)" "is_rm sz (in_second i)" "is_data_size_valid sz"
  proof -
    have "movsx_source_size (in_second i) = Inr sz"
      using a(2) by (cases "in_second i") (auto simp: movsx_source_size_def sbind_def)
    then show ?thesis
      unfolding execute_movsx_def
      by (simp add: lift_sum_Inr bnd_ret sign_extend_value_run [OF a(3)])
         (intro throws_instruction reg [OF a(1)] source_throws(1) [OF a(2,3)])
  qed
  show "throws_only access_errors (execute_movzx True i ctx)"
    if a: "is_reg64 (in_first i)" "is_rm sz (in_second i)" "is_data_size_valid sz"
    unfolding execute_movzx_def by (intro throws_instruction reg [OF a(1)] source_throws(1) [OF a(2,3)])
  show "throws_only access_errors (execute_lea i ctx)" if a: "is_reg64 (in_first i)" "is_memory (in_second i)"
  proof -
    obtain m sz where m: "in_second i = Op_mem m sz" using a(2) by (cases "in_second i") auto
    show ?thesis
      unfolding execute_lea_def require_memory_operand_def m
      by (simp add: lift_sum_Inr bnd_ret) (intro throws_instruction reg [OF a(1)] throws_only_basic, simp)
  qed
  show "throws_only access_errors (execute_setcc True i ctx)"
    if a: "is_rm BYTE (in_first i)" "is_condition_code_valid (in_condition i)"
    unfolding execute_setcc_def by (intro throws_instruction condition_throws a(2) rm_throws(2) [OF a(1)]) simp
  show "throws_only access_errors (execute_cmovcc True i ctx)"
    if a: "is_reg64 (in_first i)" "is_rm QWORD (in_second i)" "is_condition_code_valid (in_condition i)"
    unfolding execute_cmovcc_def
    by (intro throws_instruction condition_throws a(3) reg [OF a(1)] source_throws(1) [OF a(2)]) simp
qed

definition needs_trap_controller :: "opcode \<Rightarrow> bool" where
  "needs_trap_controller code \<longleftrightarrow> code \<in> {OP_INT, OP_INVLPG, OP_SYSCALL, OP_SYSRET, OP_IRET}"

lemma well_formed_throws:
  assumes "well_formed i" and "\<not> needs_trap_controller (in_opcode i)"
  shows "throws_only access_errors (execute_instruction True i ctx)"
  using assms
  by (cases "in_opcode i")
     (auto simp: well_formed_def Let_def needs_trap_controller_def execute_instruction_def execute_mfence_def execute_hlt_def
       intro!: throws_instruction intro: alu_throws unary_throws transfer_throws move_throws)

section \<open>Bounded runs\<close>

text \<open>
  The two run loops have the same shape; the locale states it and derives what a run returns. \<open>steps\<close>
  repeats a step.
\<close>

fun steps :: "(executor, step_result) op \<Rightarrow> nat \<Rightarrow> (executor, unit) op" where
  "steps st 0 = ret ()"
| "steps st (Suc n) = sq st (steps st n)"

definition running_before :: "(executor, step_result) op \<Rightarrow> nat \<Rightarrow> executor \<Rightarrow> bool" where
  "running_before st k s \<longleftrightarrow> (\<forall>j < k. \<exists>u. steps st j s = (Inr (), u) \<and> \<not> halted (ex_cpu u))"

lemma running_before_Suc:
  assumes "st s = (Inr x, s1)" and "\<not> halted (ex_cpu s)" and "running_before st k s1"
  shows "running_before st (Suc k) s"
  unfolding running_before_def
proof (intro allI impI)
  fix j assume "j < Suc k"
  then show "\<exists>u. steps st j s = (Inr (), u) \<and> \<not> halted (ex_cpu u)"
    using assms by (cases j) (auto simp: running_before_def op_simps)
qed

definition run_result :: "(executor, step_result) op \<Rightarrow> nat \<Rightarrow> nat \<Rightarrow> executor \<Rightarrow> (exn + nat) \<times> executor \<Rightarrow> bool" where
  "run_result st n executed s r \<longleftrightarrow> (case r of
     (Inr m, t) \<Rightarrow> (\<exists>k \<le> n. m = executed + k \<and> steps st k s = (Inr (), t) \<and> halted (ex_cpu t) \<and> running_before st k s)
   | (Inl e, t) \<Rightarrow> e = Runtime_error \<and> steps st n s = (Inr (), t) \<and> running_before st (Suc n) s \<or>
       (\<exists>k < n. \<exists>u. steps st k s = (Inr (), u) \<and> running_before st (Suc k) s \<and> st u = (Inl e, t)))"

lemma run_result_Suc:
  assumes step: "st s = (Inr x, s1)" and live: "\<not> halted (ex_cpu s)" and IH: "run_result st n (Suc executed) s1 (r, t)"
  shows "run_result st (Suc n) executed s (r, t)"
proof -
  have step: "steps st (Suc k) s = steps st k s1" for k using step by (simp add: op_simps)
  have grow: "running_before st k s1 \<Longrightarrow> running_before st (Suc k) s" for k
    by (rule running_before_Suc [of st s x s1]) (use assms(1) live in simp_all)
  show ?thesis
  proof (cases r)
    case (Inl e)
    with IH consider "e = Runtime_error" "steps st n s1 = (Inr (), t)" "running_before st (Suc n) s1"
      | k u where "k < n" "steps st k s1 = (Inr (), u)" "running_before st (Suc k) s1" "st u = (Inl e, t)"
      by (auto simp: run_result_def)
    then show ?thesis
    proof cases
      case 1
      then show ?thesis using grow Inl by (simp add: run_result_def step del: steps.simps)
    next
      case (2 k u)
      then have "Suc k < Suc n \<and> steps st (Suc k) s = (Inr (), u) \<and> running_before st (Suc (Suc k)) s \<and> st u = (Inl e, t)"
        using grow by (simp add: step del: steps.simps)
      then show ?thesis using Inl by (auto simp: run_result_def simp del: steps.simps)
    qed
  next
    case (Inr m)
    with IH obtain k where "k \<le> n" "m = Suc executed + k" "steps st k s1 = (Inr (), t)" "halted (ex_cpu t)"
      "running_before st k s1" by (auto simp: run_result_def)
    then have "Suc k \<le> Suc n \<and> m = executed + Suc k \<and> steps st (Suc k) s = (Inr (), t) \<and> halted (ex_cpu t) \<and>
        running_before st (Suc k) s"
      using grow by (simp add: step del: steps.simps)
    then show ?thesis using Inr by (auto simp: run_result_def simp del: steps.simps)
  qed
qed

locale bounded_run =
  fixes st :: "(executor, step_result) op" and loop :: "nat \<Rightarrow> nat \<Rightarrow> (executor, nat) op"
  assumes loop_0: "loop 0 executed = with_cpu (\<lambda>c. if \<not> halted c then throw Runtime_error else ret executed)"
    and loop_Suc: "loop (Suc n) executed = with_cpu (\<lambda>c. if halted c then ret executed else sq st (loop n (Suc executed)))"
    and counts: "st s = (Inr r, t) \<Longrightarrow> \<not> halted (ex_cpu s) \<Longrightarrow> ex_cycles t = ex_cycles s + 1"
begin

lemma run_exact: "run_result st n executed s (loop n executed s)"
proof (induction n arbitrary: executed s)
  case 0
  then show ?case
    by (auto simp: run_result_def loop_0 with_cpu_def op_simps running_before_def)
next
  case (Suc n)
  show ?case
  proof (cases "halted (ex_cpu s)")
    case True
    then show ?thesis by (auto simp: run_result_def loop_Suc with_cpu_def op_simps running_before_def intro!: exI [of _ 0])
  next
    case live: False
    obtain r s1 where st: "st s = (r, s1)" by fastforce
    show ?thesis
    proof (cases r)
      case (Inl e)
      with live st show ?thesis
        by (auto simp: run_result_def loop_Suc with_cpu_def op_simps running_before_def intro!: exI [of _ 0])
    next
      case (Inr x)
      have "loop (Suc n) executed s = loop n (Suc executed) s1"
        using live st Inr by (simp add: loop_Suc with_cpu_def op_simps)
      then show ?thesis
        using run_result_Suc [of st s x s1 n executed "fst (loop n (Suc executed) s1)" "snd (loop n (Suc executed) s1)"]
          Suc.IH [of "Suc executed" s1] st Inr live by simp
    qed
  qed
qed

lemma steps_count:
  assumes "steps st k s = (Inr (), t)" and "running_before st k s"
  shows "ex_cycles t = ex_cycles s + of_nat k"
  using assms
proof (induction k arbitrary: s)
  case 0
  then show ?case by (simp add: op_simps)
next
  case (Suc k)
  then obtain x s1 where st: "st s = (Inr x, s1)" and t: "steps st k s1 = (Inr (), t)" by (auto elim: sq_InrE)
  have live: "\<not> halted (ex_cpu s)" using Suc.prems(2) unfolding running_before_def by (force simp: op_simps)
  have "running_before st k s1"
    unfolding running_before_def
  proof (intro allI impI)
    fix j assume "j < k"
    then have "Suc j < Suc k" by simp
    with Suc.prems(2) obtain u where "steps st (Suc j) s = (Inr (), u) \<and> \<not> halted (ex_cpu u)"
      unfolding running_before_def by blast
    then show "\<exists>u. steps st j s1 = (Inr (), u) \<and> \<not> halted (ex_cpu u)" using st by (auto simp: op_simps)
  qed
  with Suc.IH [OF t] counts [OF st live] show ?case by simp
qed

lemma run_cycles:
  assumes "loop n 0 s = (Inr k, t)"
  shows "ex_cycles t = ex_cycles s + of_nat k"
  using run_exact [of n 0 s] assms steps_count by (auto simp: run_result_def)

end

lemma trap_kept_handler: "trap_kept (exec_handle_page_fault f)"
  unfolding trap_kept_def
proof
  fix s
  have "trap_kept (sq (cpu_modify h) (sq (on_cpu m) (ret ())))" for h and m :: "(cpu_state, trap_frame) op" by simp
  then show "ex_trap (snd (exec_handle_page_fault f s)) = ex_trap s \<and> ex_cycles (snd (exec_handle_page_fault f s)) = ex_cycles s"
    unfolding trap_kept_def exec_handle_page_fault_def by (cases "ex_trap s") simp_all
qed

lemma trap_kept_catch: "trap_kept m \<Longrightarrow> (\<And>e. trap_kept (h e)) \<Longrightarrow> trap_kept (catch_exn m h)"
  unfolding trap_kept_def catch_exn_def by (auto split: prod.splits sum.splits) (metis snd_conv)+

lemma trap_kept_guarded: "trap_kept (execute_guarded bus i ctx a)"
  unfolding execute_guarded_def
  by (intro trap_kept_catch trap_kept_guarded_body)
     (simp add: record_stage8_exception_flush_def trap_kept_handler split: exn.split)

lemma finished_step_counts:
  assumes "sq (execute_guarded bus i ctx a) (finish_step i a) s = (Inr r, t)"
  shows "ex_cycles t = ex_cycles s + 1"
proof -
  from assms obtain s1 where g: "execute_guarded bus i ctx a s = (Inr (), s1)" and f: "finish_step i a s1 = (Inr r, t)"
    by (auto elim: sq_InrE)
  have "ex_cycles s1 = ex_cycles s" using trap_kept_guarded [of bus i ctx a] g unfolding trap_kept_def by (metis snd_conv)
  moreover have "ex_cycles t = ex_cycles s1 + 1" using f by (auto simp: finish_step_def op_simps)
  ultimately show ?thesis by simp
qed

lemma step_counts:
  "step_with_memory p bus s = (Inr r, t) \<Longrightarrow> \<not> halted (ex_cpu s) \<Longrightarrow> ex_cycles t = ex_cycles s + 1"
  "step_image_with_memory im bus s = (Inr r, t) \<Longrightarrow> \<not> halted (ex_cpu s) \<Longrightarrow> ex_cycles t = ex_cycles s + 1"
  by (auto simp: step_with_memory_def step_image_with_memory_def with_cpu_def Let_def elim!: bnd_InrE simp: lift_sum_run
      intro: finished_step_counts)

interpretation program_run: bounded_run "step_with_memory p bus" "run_loop p bus"
  by unfold_locales (simp_all add: step_counts)

interpretation image_run: bounded_run "step_image_with_memory im bus" "run_image_loop im bus"
  by unfold_locales (simp_all add: step_counts)

section \<open>Properties\<close>



text \<open>
  C28: a bounded run of a program or of an image. If it returns \<open>k\<close>, then \<open>k\<close> is at most the bound, \<open>k\<close> steps
  lead to a halted processor and no earlier state was halted; the cycle counter has grown by \<open>k\<close>. If it
  throws, then either all the steps of the bound were executed and the processor never halted
  (\<^verbatim>\<open>runtime_error\<close>), or one of the steps threw that exception. So it always ends.
\<close>

theorem run_correct:
  "run_result (step_with_memory p bus) n 0 s (run_with_memory p bus n s) \<and>
   run_result (step_image_with_memory im bus) n 0 s (run_image_with_memory im bus n s) \<and>
   (\<forall>k t. run_with_memory p bus n s = (Inr k, t) \<longrightarrow> ex_cycles t = ex_cycles s + of_nat k) \<and>
   (\<forall>k t. run_image_with_memory im bus n s = (Inr k, t) \<longrightarrow> ex_cycles t = ex_cycles s + of_nat k)"
  unfolding run_with_memory_def run_image_with_memory_def
  by (intro conjI allI impI program_run.run_exact image_run.run_exact) (erule program_run.run_cycles image_run.run_cycles)+

definition reset_executor :: executor where
  "reset_executor = sample_executor\<lparr>ex_cpu := initial_cpu_state\<rparr>"

lemma sample_run: "\<exists>t. run_with_memory [make_hlt] False 5 reset_executor = (Inr 1, t) \<and> halted (ex_cpu t)"
proof -
  have at: "instruction_at [make_hlt] 0 = Inr make_hlt" by (simp add: instruction_at_def program_contains_rip_def)
  have op: "in_opcode make_hlt = OP_HLT" by (simp add: make_hlt_def Instruction_def)
  have five: "(5 :: nat) = Suc (Suc 3)" by simp
  show ?thesis
    unfolding run_with_memory_def five run_loop.simps
    by (simp add: with_cpu_def step_with_memory_def reset_executor_def sample_executor_def initial_paging_state_def initial_cpu_state_def op_simps at execute_guarded_def
        guarded_body_def check_instruction_fetch_def record_stage8_instruction_fetch_def on_mmu_def record_event_def
        execute_instruction_def op execute_hlt_def set_next_rip_def cpu_modify_def cpu_halt_def set_rip_def
        record_stage8_retired_instruction_def finish_step_def Let_def split: option.split prod.split)
qed

theorem run_correct_witness:
  "\<exists>t. run_with_memory [make_hlt] False 5 reset_executor = (Inr 1, t) \<and> ex_cycles t = ex_cycles reset_executor + 1"
  using run_correct [of "[make_hlt]" False 5 reset_executor] sample_run by fastforce

text \<open>
  C29: comparison and conditional jump. After \<^verbatim>\<open>CMP\<close> of two registers, the conditional jump that the decoder
  makes for any of the sixteen conditions goes to its target exactly when the condition holds of the
  two values, read as signed or unsigned integers as the condition says, also when the subtraction
  overflows; and it changes nothing but the flags and the instruction pointer.
\<close>

theorem compare_and_branch:
  assumes "make_conditional_jump_instruction cc target = Inr j"
    and "ctx_program ctx2 = None" and "\<forall>im. ctx_image ctx2 = Some im \<longrightarrow> image_contains_rip im target"
  shows "sq (execute_instruction bus (make_cmp (Op_reg a QWORD) (Op_reg b QWORD)) ctx1) (execute_instruction bus j ctx2) s =
    (let x = reg_read a (registers (ex_cpu s)); y = reg_read b (registers (ex_cpu s)) in
     (Inr (), s\<lparr>ex_cpu := (ex_cpu s)\<lparr>flags := update_sub x y (x - y) (flags (ex_cpu s)),
        rip := if condition_of_comparison x y cc then target else ctx_next_rip ctx2\<rparr>\<rparr>))"
proof -
  let ?x = "reg_read a (registers (ex_cpu s))" and ?y = "reg_read b (registers (ex_cpu s))"
  let ?s = "s\<lparr>ex_cpu := (ex_cpu s)\<lparr>flags := update_sub ?x ?y (?x - ?y) (flags (ex_cpu s)), rip := ctx_next_rip ctx1\<rparr>\<rparr>"
  have cmp: "execute_instruction bus (make_cmp (Op_reg a QWORD) (Op_reg b QWORD)) ctx1 s = (Inr (), ?s)"
    by (simp add: execute_instruction_def execute_cmp_def make_cmp_def Instruction_def require_at_most_one_memory_operand_def
        read_operand_def read_register_operand_run op_simps Let_def update_flags_def set_next_rip_def cpu_modify_def set_rip_def)
  have valid: "is_condition_code_valid cc"
    using assms(1) by (auto simp: make_conditional_jump_instruction_def make_jcc_def is_condition_code_valid_def split: if_splits)
  note cond = evaluate_condition_comparison [OF valid, of ?x ?y "flags (ex_cpu s)"]
  have jump: "jump_to ctx2 target ?s = (Inr (), ?s\<lparr>ex_cpu := (ex_cpu ?s)\<lparr>rip := target\<rparr>\<rparr>)"
    using assms(2,3) by (simp add: jump_to_def op_simps cpu_modify_def set_rip_def)
  have "execute_instruction bus j ctx2 ?s = (Inr (), ?s\<lparr>ex_cpu := (ex_cpu ?s)\<lparr>rip :=
      if condition_of_comparison ?x ?y cc then target else ctx_next_rip ctx2\<rparr>\<rparr>)"
    using assms(1) cond jump
    by (auto simp: make_conditional_jump_instruction_def make_jcc_def make_je_def make_jne_def Instruction_cc_def
        execute_instruction_def execute_je_def execute_jne_def execute_jcc_def with_cpu_def test_condition_def op_simps
        read_operand_def set_next_rip_def cpu_modify_def set_rip_def evaluate_condition_def split: if_splits)
  with cmp show ?thesis by (simp add: sq_run Let_def)
qed

theorem compare_and_branch_witness:
  "rip (ex_cpu (snd (sq (execute_instruction False (make_cmp (Op_reg RAX QWORD) (Op_reg RBX QWORD))
        \<lparr>ctx_program = None, ctx_image = None, ctx_next_rip = 3\<rparr>)
      (execute_instruction False (Instruction_cc OP_JCC CC_L (Op_imm 0x40) Op_none False)
        \<lparr>ctx_program = None, ctx_image = None, ctx_next_rip = 5\<rparr>)
      (sample_executor\<lparr>ex_cpu := put_reg RAX (- 1) (ex_cpu sample_executor)\<rparr>)))) = 0x40"
  by (subst compare_and_branch [where cc = CC_L and target = "0x40"])
     (simp_all add: make_conditional_jump_instruction_def make_jcc_def is_condition_code_valid_def Let_def reg_read_def reg_write_def
       sample_executor_def initial_cpu_state_def initial_registers_def)

end
