(* ===== verification/BlockDev.thy ===== *)
theory BlockDev
  imports Prelude
begin

text \<open>
  The block device of \<^verbatim>\<open>os/block/block_device.cpp\<close>: the geometry with its checked capacity, and a memory
  backed device whose storage is one flat byte vector. Block transfers are described by \<open>dev_block\<close>, the
  bytes of one block; multi-block transfers are shown to be the single transfers in a row.

  A destination span of the sources is overwritten completely by a successful read, so a read takes the
  span's size and returns its bytes.
\<close>

section \<open>Byte vectors\<close>

text \<open>\<^verbatim>\<open>std::copy_n\<close> from, and onto, a range of a vector.\<close>

definition subspan :: "nat \<Rightarrow> nat \<Rightarrow> 'a list \<Rightarrow> 'a list" where
  "subspan off n xs = take n (drop off xs)"

definition overwrite :: "nat \<Rightarrow> 'a list \<Rightarrow> 'a list \<Rightarrow> 'a list" where
  "overwrite off src xs = take off xs @ src @ drop (off + length src) xs"

lemma length_subspan [simp]: "length (subspan off n xs) = min n (length xs - off)"
  by (simp add: subspan_def)

lemma length_overwrite [simp]:
  "off + length src \<le> length xs \<Longrightarrow> length (overwrite off src xs) = length xs"
  by (simp add: overwrite_def)

lemma nth_subspan: "i < n \<Longrightarrow> off + i < length xs \<Longrightarrow> subspan off n xs ! i = xs ! (off + i)"
  by (simp add: subspan_def)

lemma nth_overwrite:
  assumes "off + length src \<le> length xs" and "i < length xs"
  shows "overwrite off src xs ! i =
    (if off \<le> i \<and> i < off + length src then src ! (i - off) else xs ! i)"
  using assms by (auto simp: overwrite_def nth_append)

lemma subspan_overwrite_same:
  "off + length src \<le> length xs \<Longrightarrow> subspan off (length src) (overwrite off src xs) = src"
  by (simp add: subspan_def overwrite_def)

lemma subspan_overwrite_other:
  assumes "off + length src \<le> length xs" and "p + n \<le> off \<or> off + length src \<le> p"
    and "p + n \<le> length xs"
  shows "subspan p n (overwrite off src xs) = subspan p n xs"
  by (rule nth_equalityI) (use assms in \<open>auto simp: nth_subspan nth_overwrite\<close>)

lemma subspan_subspan: "i + n \<le> m \<Longrightarrow> subspan i n (subspan off m xs) = subspan (off + i) n xs"
  by (simp add: subspan_def drop_take min_absorb1 add.commute)

lemma subspan_all: "n = length xs \<Longrightarrow> subspan 0 n xs = xs"
  by (simp add: subspan_def)

lemma overwrite_all: "length src = length xs \<Longrightarrow> overwrite 0 src xs = src"
  by (simp add: overwrite_def)

lemma subspan_append: "subspan off (m + n) xs = subspan off m xs @ subspan (off + m) n xs"
  by (simp add: subspan_def take_add add.commute)

lemma overwrite_append:
  assumes "off + length xs + length ys \<le> length zs"
  shows "overwrite (off + length xs) ys (overwrite off xs zs) = overwrite off (xs @ ys) zs"
  by (rule nth_equalityI) (use assms in \<open>auto simp: nth_overwrite nth_append\<close>)

text \<open>Equally sized blocks of a flat vector do not overlap.\<close>

lemma block_disjoint:
  assumes "i \<noteq> (j :: nat)" shows "i * n + n \<le> j * n \<or> j * n + n \<le> i * n"
proof (cases "i < j")
  case True
  then have "Suc i * n \<le> j * n" by (intro mult_le_mono1) simp
  then show ?thesis by simp
next
  case False
  with assms have "Suc j * n \<le> i * n" by (intro mult_le_mono1) simp
  then show ?thesis by simp
qed

lemma block_inside: "i < k \<Longrightarrow> i * n + n \<le> k * (n :: nat)"
  using mult_le_mono1 [of "Suc i" k n] by simp

section \<open>Geometry\<close>

definition BLOCK_DEVICE_DEFAULT_BLOCK_SIZE_BYTES :: qword where
  "BLOCK_DEVICE_DEFAULT_BLOCK_SIZE_BYTES = 512"

definition BLOCK_DEVICE_DEFAULT_BLOCK_COUNT :: qword where
  "BLOCK_DEVICE_DEFAULT_BLOCK_COUNT = 1024"

record block_device_geometry =
  bg_block_size_bytes :: qword
  bg_block_count :: qword
  bg_capacity_bytes :: qword

definition default_geometry :: block_device_geometry where
  "default_geometry = \<lparr>bg_block_size_bytes = BLOCK_DEVICE_DEFAULT_BLOCK_SIZE_BYTES,
     bg_block_count = BLOCK_DEVICE_DEFAULT_BLOCK_COUNT,
     bg_capacity_bytes = BLOCK_DEVICE_DEFAULT_BLOCK_SIZE_BYTES * BLOCK_DEVICE_DEFAULT_BLOCK_COUNT\<rparr>"

definition checked_capacity_bytes :: "qword \<Rightarrow> qword \<Rightarrow> exn + qword" where
  "checked_capacity_bytes block_size block_count =
    (if block_size = 0 \<or> block_count = 0 then Inl Invalid_argument
     else if block_count > (- 1) div block_size then Inl Overflow_error
     else Inr (block_size * block_count))"

definition BlockDeviceGeometry :: "qword \<Rightarrow> qword \<Rightarrow> exn + block_device_geometry" where
  "BlockDeviceGeometry block_size block_count =
    sbind (checked_capacity_bytes block_size block_count) (\<lambda>capacity.
      Inr \<lparr>bg_block_size_bytes = block_size, bg_block_count = block_count,
        bg_capacity_bytes = capacity\<rparr>)"

section \<open>Memory backed device\<close>

record memory_block_device =
  bd_geometry :: block_device_geometry
  bd_storage :: "byte list"

abbreviation bd_block_size :: "memory_block_device \<Rightarrow> qword" where
  "bd_block_size d \<equiv> bg_block_size_bytes (bd_geometry d)"

abbreviation bd_block_count :: "memory_block_device \<Rightarrow> qword" where
  "bd_block_count d \<equiv> bg_block_count (bd_geometry d)"

definition storage_size_for_capacity :: "qword \<Rightarrow> exn + nat" where
  "storage_size_for_capacity capacity =
    (if capacity > - 1 then Inl Length_error else Inr (unat capacity))"

definition MemoryBlockDevice :: "block_device_geometry \<Rightarrow> exn + memory_block_device" where
  "MemoryBlockDevice g = sbind (storage_size_for_capacity (bg_capacity_bytes g)) (\<lambda>n.
     Inr \<lparr>bd_geometry = g, bd_storage = replicate n 0\<rparr>)"

definition bd_contains :: "qword \<Rightarrow> memory_block_device \<Rightarrow> bool" where
  "bd_contains a d \<longleftrightarrow> a < bd_block_count d"

definition byte_offset_for :: "qword \<Rightarrow> memory_block_device \<Rightarrow> nat" where
  "byte_offset_for a d = unat (a * bd_block_size d)"

definition span_block_count :: "nat \<Rightarrow> memory_block_device \<Rightarrow> exn + qword" where
  "span_block_count byte_count d =
    (if byte_count mod unat (bd_block_size d) \<noteq> 0 then Inl Invalid_argument
     else Inr (of_nat (byte_count div unat (bd_block_size d))))"

definition bd_validate_block_span :: "nat \<Rightarrow> memory_block_device \<Rightarrow> exn + unit" where
  "bd_validate_block_span byte_count d =
    (if byte_count \<noteq> unat (bd_block_size d) then Inl Invalid_argument else Inr ())"

definition validate_block_range :: "qword \<Rightarrow> qword \<Rightarrow> memory_block_device \<Rightarrow> exn + unit" where
  "validate_block_range first requested d =
    (if requested = 0 then (if first > bd_block_count d then Inl Out_of_range else Inr ())
     else if first \<ge> bd_block_count d then Inl Out_of_range
     else let remaining = bd_block_count d - first in
       if requested > remaining then Inl Out_of_range else Inr ())"

definition bd_read_block :: "qword \<Rightarrow> nat \<Rightarrow> (memory_block_device, byte list) op" where
  "bd_read_block a byte_count =
    bnd (gets (bd_validate_block_span byte_count)) (\<lambda>r. sq (lift_sum r)
    (bnd (gets (validate_block_range a 1)) (\<lambda>r. sq (lift_sum r)
    (gets (\<lambda>d. subspan (byte_offset_for a d) byte_count (bd_storage d))))))"

definition bd_write_block :: "qword \<Rightarrow> byte list \<Rightarrow> (memory_block_device, unit) op" where
  "bd_write_block a source =
    bnd (gets (bd_validate_block_span (length source))) (\<lambda>r. sq (lift_sum r)
    (bnd (gets (validate_block_range a 1)) (\<lambda>r. sq (lift_sum r)
    (modify (\<lambda>d. d\<lparr>bd_storage := overwrite (byte_offset_for a d) source (bd_storage d)\<rparr>)))))"

definition bd_read_blocks :: "qword \<Rightarrow> nat \<Rightarrow> (memory_block_device, byte list) op" where
  "bd_read_blocks first byte_count =
    bnd (gets (span_block_count byte_count)) (\<lambda>r. bnd (lift_sum r) (\<lambda>requested.
    bnd (gets (validate_block_range first requested)) (\<lambda>r. sq (lift_sum r)
    (if requested = 0 then ret []
     else gets (\<lambda>d. subspan (byte_offset_for first d) byte_count (bd_storage d))))))"

definition bd_write_blocks :: "qword \<Rightarrow> byte list \<Rightarrow> (memory_block_device, unit) op" where
  "bd_write_blocks first source =
    bnd (gets (span_block_count (length source))) (\<lambda>r. bnd (lift_sum r) (\<lambda>requested.
    bnd (gets (validate_block_range first requested)) (\<lambda>r. sq (lift_sum r)
    (if requested = 0 then ret ()
     else modify (\<lambda>d. d\<lparr>bd_storage := overwrite (byte_offset_for first d) source (bd_storage d)\<rparr>)))))"

definition bd_clear :: "byte \<Rightarrow> memory_block_device \<Rightarrow> memory_block_device" where
  "bd_clear fill_value d = d\<lparr>bd_storage := replicate (length (bd_storage d)) fill_value\<rparr>"

section \<open>Blocks\<close>

text \<open>A device built from a checked geometry, and the bytes of one of its blocks.\<close>

definition dev_ok :: "memory_block_device \<Rightarrow> bool" where
  "dev_ok d \<longleftrightarrow> 0 < bd_block_size d \<and> 0 < bd_block_count d
     \<and> unat (bd_block_size d) * unat (bd_block_count d) < 2 ^ 64
     \<and> length (bd_storage d) = unat (bd_block_count d) * unat (bd_block_size d)"

definition dev_block :: "qword \<Rightarrow> memory_block_device \<Rightarrow> byte list" where
  "dev_block a d = subspan (unat a * unat (bd_block_size d)) (unat (bd_block_size d)) (bd_storage d)"

lemma checked_capacity_Inr:
  assumes "checked_capacity_bytes n k = Inr c"
  shows "0 < n \<and> 0 < k \<and> unat n * unat k < 2 ^ 64 \<and> c = n * k"
proof -
  from assms have pos: "n \<noteq> 0" "k \<noteq> 0" and le: "k \<le> (- 1) div n" and c: "c = n * k"
    by (auto simp: checked_capacity_bytes_def split: if_splits)
  from le have "unat k \<le> unat (- 1 :: qword) div unat n"
    by (metis unat_div word_le_nat_alt)
  then have "unat n * unat k \<le> unat (- 1 :: qword)"
    by (metis div_times_less_eq_dividend le_trans mult.commute mult_le_mono1)
  also have "\<dots> < 2 ^ 64" by (rule unat_less_64)
  finally show ?thesis using pos c by (simp add: word_neq_0_conv)
qed

lemma unat_mult_exact: "unat n * unat k < 2 ^ 64 \<Longrightarrow> unat (n * k :: qword) = unat n * unat k"
  by (simp add: unat_word_ariths)

lemma dev_ok_new:
  assumes "BlockDeviceGeometry n k = Inr g" and "MemoryBlockDevice g = Inr d"
  shows "dev_ok d \<and> bd_geometry d = g \<and> bg_block_size_bytes g = n \<and> bg_block_count g = k
    \<and> bg_capacity_bytes g = n * k"
proof -
  from assms(1) obtain c where c: "checked_capacity_bytes n k = Inr c"
    and g: "g = \<lparr>bg_block_size_bytes = n, bg_block_count = k, bg_capacity_bytes = c\<rparr>"
    by (auto simp: BlockDeviceGeometry_def sbind_def split: sum.splits)
  from assms(2) have d: "d = \<lparr>bd_geometry = g, bd_storage = replicate (unat c) 0\<rparr>"
    by (simp add: MemoryBlockDevice_def storage_size_for_capacity_def sbind_def g split: if_splits)
  from checked_capacity_Inr [OF c] show ?thesis
    by (auto simp: d g dev_ok_def unat_mult_exact mult.commute)
qed

lemma default_geometry_checked:
  "BlockDeviceGeometry BLOCK_DEVICE_DEFAULT_BLOCK_SIZE_BYTES BLOCK_DEVICE_DEFAULT_BLOCK_COUNT
     = Inr default_geometry"
  by (simp add: BlockDeviceGeometry_def checked_capacity_bytes_def sbind_def default_geometry_def
      BLOCK_DEVICE_DEFAULT_BLOCK_SIZE_BYTES_def BLOCK_DEVICE_DEFAULT_BLOCK_COUNT_def)

lemma dev_ok_offset:
  assumes "dev_ok d" and "unat a < unat (bd_block_count d)"
  shows "byte_offset_for a d = unat a * unat (bd_block_size d)"
    and "unat a * unat (bd_block_size d) + unat (bd_block_size d) \<le> length (bd_storage d)"
proof -
  from assms show le: "unat a * unat (bd_block_size d) + unat (bd_block_size d) \<le> length (bd_storage d)"
    by (simp add: dev_ok_def block_inside)
  with assms have "unat a * unat (bd_block_size d) < 2 ^ 64"
    by (simp add: dev_ok_def mult.commute)
  then show "byte_offset_for a d = unat a * unat (bd_block_size d)"
    by (simp add: byte_offset_for_def unat_mult_exact)
qed

lemma length_dev_block:
  assumes "dev_ok d" and "bd_contains a d"
  shows "length (dev_block a d) = unat (bd_block_size d)"
  using dev_ok_offset(2) [OF assms(1), of a] assms(2)
  by (simp add: dev_block_def bd_contains_def word_less_nat_alt)

lemma validate_block_range_one:
  "validate_block_range a 1 d = (if bd_contains a d then Inr () else Inl Out_of_range)"
proof (cases "bd_contains a d")
  case True
  then have "1 \<le> bd_block_count d - a"
    by (simp add: bd_contains_def unat_sub word_less_nat_alt word_le_nat_alt)
  with True show ?thesis by (auto simp: validate_block_range_def bd_contains_def Let_def)
qed (auto simp: validate_block_range_def bd_contains_def)

lemma bd_read_block_run:
  assumes "dev_ok d"
  shows "bd_read_block a n d =
    (if n \<noteq> unat (bd_block_size d) then Inl Invalid_argument
     else if \<not> bd_contains a d then Inl Out_of_range else Inr (dev_block a d), d)"
  using dev_ok_offset(1) [OF assms, of a]
  by (auto simp: bd_read_block_def op_simps bd_validate_block_span_def validate_block_range_one
      dev_block_def bd_contains_def word_less_nat_alt)

definition put_dev_block :: "qword \<Rightarrow> byte list \<Rightarrow> memory_block_device \<Rightarrow> memory_block_device" where
  "put_dev_block a b d = d\<lparr>bd_storage := overwrite (unat a * unat (bd_block_size d)) b (bd_storage d)\<rparr>"

lemma bd_write_block_run:
  assumes "dev_ok d"
  shows "bd_write_block a b d =
    (if length b \<noteq> unat (bd_block_size d) then (Inl Invalid_argument, d)
     else if \<not> bd_contains a d then (Inl Out_of_range, d) else (Inr (), put_dev_block a b d))"
  using dev_ok_offset(1) [OF assms, of a]
  by (auto simp: bd_write_block_def op_simps bd_validate_block_span_def validate_block_range_one
      put_dev_block_def bd_contains_def word_less_nat_alt)

lemma put_dev_block_geometry [simp]: "bd_geometry (put_dev_block a b d) = bd_geometry d"
  by (simp add: put_dev_block_def)

lemma bd_contains_put [simp]: "bd_contains x (put_dev_block a b d) = bd_contains x d"
  by (simp add: bd_contains_def)

lemma dev_ok_put:
  assumes "dev_ok d" and "bd_contains a d" and "length b = unat (bd_block_size d)"
  shows "dev_ok (put_dev_block a b d)"
  using assms dev_ok_offset(2) [OF assms(1), of a]
  by (simp add: dev_ok_def put_dev_block_def bd_contains_def word_less_nat_alt)

lemma dev_block_put:
  assumes "dev_ok d" and "bd_contains a d" and "length b = unat (bd_block_size d)" and "bd_contains x d"
  shows "dev_block x (put_dev_block a b d) = (if x = a then b else dev_block x d)"
proof -
  note off = dev_ok_offset(2) [OF assms(1)]
  have a: "unat a * unat (bd_block_size d) + length b \<le> length (bd_storage d)"
    and x: "unat x * unat (bd_block_size d) + unat (bd_block_size d) \<le> length (bd_storage d)"
    using off [of a] off [of x] assms by (simp_all add: bd_contains_def word_less_nat_alt)
  show ?thesis
  proof (cases "x = a")
    case True
    with a assms(3) subspan_overwrite_same [OF a] show ?thesis by (simp add: dev_block_def put_dev_block_def)
  next
    case False
    then have "unat x \<noteq> unat a" by (simp add: word_unat_eq_iff)
    from block_disjoint [OF this, of "unat (bd_block_size d)"] a x assms(3) False
    show ?thesis by (simp add: dev_block_def put_dev_block_def subspan_overwrite_other)
  qed
qed

section \<open>Operations that only look\<close>

text \<open>
  \<open>views shown op f\<close>: in every state that shows \<open>m\<close>, the operation returns \<open>f m\<close> and leaves a state that still
  shows \<open>m\<close>. The rules follow the structure of the operation.
\<close>

definition views :: "('m \<Rightarrow> 's \<Rightarrow> bool) \<Rightarrow> ('s, 'a) op \<Rightarrow> ('m \<Rightarrow> exn + 'a) \<Rightarrow> bool" where
  "views shown op f \<longleftrightarrow> (\<forall>m s. shown m s \<longrightarrow> (\<exists>s'. op s = (f m, s') \<and> shown m s'))"

lemma viewsD:
  assumes "views shown op f" and "shown m s"
  obtains s' where "op s = (f m, s')" and "shown m s'"
  using assms unfolding views_def by blast

lemma views_basic:
  "views shown (ret x) (\<lambda>_. Inr x)" "views shown (throw e) (\<lambda>_. Inl e)" "views shown (lift_sum r) (\<lambda>_. r)"
  "views shown (require c e) (\<lambda>_. if c then Inr () else Inl e)"
  by (simp_all add: views_def op_simps)

lemma views_bnd:
  assumes "views shown op v" and "\<And>x. views shown (f x) (w x)"
  shows "views shown (bnd op f) (\<lambda>m. sbind (v m) (\<lambda>x. w x m))"
  unfolding views_def
proof (intro allI impI)
  fix m s assume "shown m s"
  then obtain s' where s': "op s = (v m, s')" "shown m s'" by (rule viewsD [OF assms(1)])
  show "\<exists>s'. bnd op f s = (sbind (v m) (\<lambda>x. w x m), s') \<and> shown m s'"
  proof (cases "v m")
    case (Inl e)
    with s' show ?thesis by (simp add: bnd_run sbind_def)
  next
    case (Inr x)
    from s'(2) obtain s'' where "f x s' = (w x m, s'')" "shown m s''" by (rule viewsD [OF assms(2)])
    with s' Inr show ?thesis by (simp add: bnd_run sbind_def)
  qed
qed

lemma views_if:
  "(c \<Longrightarrow> views shown op v) \<Longrightarrow> (\<not> c \<Longrightarrow> views shown op' w) \<Longrightarrow>
    views shown (if c then op else op') (\<lambda>m. if c then v m else w m)"
  by simp

lemma views_cong: "views shown op v \<Longrightarrow> (\<And>m s. shown m s \<Longrightarrow> v m = w m) \<Longrightarrow> views shown op w"
  unfolding views_def by metis

section \<open>The interface of a block store\<close>

text \<open>The blocks of a device by number, undefined outside the device.\<close>

definition dev_blocks :: "memory_block_device \<Rightarrow> qword \<rightharpoonup> byte list" where
  "dev_blocks d a = (if bd_contains a d then Some (dev_block a d) else None)"

text \<open>
  What a client of a block store relies on: the store shows it a finite map of equally sized blocks, a read
  returns a block of the map and changes nothing, a write replaces one block, and both refuse spans of the
  wrong size and addresses outside the store without effect. \<open>reads\<close> is an operation that only looks: it
  returns a function of the blocks.
\<close>

locale block_store =
  fixes store_ok :: "'s \<Rightarrow> bool" and geometry :: "'s \<Rightarrow> block_device_geometry"
    and blocks :: "'s \<Rightarrow> qword \<rightharpoonup> byte list"
    and read_block :: "qword \<Rightarrow> nat \<Rightarrow> ('s, byte list) op"
    and write_block :: "qword \<Rightarrow> byte list \<Rightarrow> ('s, unit) op"
  assumes blocks_dom: "store_ok s \<Longrightarrow> blocks s a = None \<longleftrightarrow> \<not> a < bg_block_count (geometry s)"
    and block_length: "store_ok s \<Longrightarrow> blocks s a = Some b \<Longrightarrow> length b = unat (bg_block_size_bytes (geometry s))"
    and read_law: "store_ok s \<Longrightarrow>
      \<exists>s'. read_block a n s = (if n \<noteq> unat (bg_block_size_bytes (geometry s)) then Inl Invalid_argument
          else case blocks s a of None \<Rightarrow> Inl Out_of_range | Some b \<Rightarrow> Inr b, s')
        \<and> store_ok s' \<and> geometry s' = geometry s \<and> blocks s' = blocks s"
    and write_law: "store_ok s \<Longrightarrow>
      \<exists>s'. write_block a b s = (if length b \<noteq> unat (bg_block_size_bytes (geometry s)) then Inl Invalid_argument
          else if blocks s a = None then Inl Out_of_range else Inr (), s')
        \<and> store_ok s' \<and> geometry s' = geometry s
        \<and> blocks s' = (if length b = unat (bg_block_size_bytes (geometry s)) \<and> blocks s a \<noteq> None
            then (blocks s)(a \<mapsto> b) else blocks s)"
begin

text \<open>\<open>shows_blocks g m s\<close>: the store \<open>s\<close> of geometry \<open>g\<close> holds the blocks \<open>m\<close>.\<close>

definition shows_blocks :: "block_device_geometry \<Rightarrow> (qword \<rightharpoonup> byte list) \<Rightarrow> 's \<Rightarrow> bool" where
  "shows_blocks g m s \<longleftrightarrow> store_ok s \<and> geometry s = g \<and> blocks s = m"

definition reads :: "block_device_geometry \<Rightarrow> ('s, 'a) op \<Rightarrow> ((qword \<rightharpoonup> byte list) \<Rightarrow> exn + 'a) \<Rightarrow> bool" where
  "reads g = views (shows_blocks g)"

lemma readsD:
  assumes "reads g op v" and "shows_blocks g m s"
  obtains s' where "op s = (v m, s')" and "shows_blocks g m s'"
  using assms unfolding reads_def by (blast elim: viewsD)

lemma reads_ret: "reads g (ret x) (\<lambda>_. Inr x)"
  unfolding reads_def by (rule views_basic)

lemma reads_throw: "reads g (throw e) (\<lambda>_. Inl e)"
  unfolding reads_def by (rule views_basic)

lemma reads_lift_sum: "reads g (lift_sum r) (\<lambda>_. r)"
  unfolding reads_def by (rule views_basic)

lemma reads_require: "reads g (require c e) (\<lambda>_. if c then Inr () else Inl e)"
  unfolding reads_def by (rule views_basic)

lemma reads_bnd:
  "reads g op v \<Longrightarrow> (\<And>x. reads g (f x) (w x)) \<Longrightarrow> reads g (bnd op f) (\<lambda>m. sbind (v m) (\<lambda>x. w x m))"
  unfolding reads_def by (rule views_bnd)

lemma reads_sq:
  "reads g op v \<Longrightarrow> reads g op' w \<Longrightarrow> reads g (sq op op') (\<lambda>m. sbind (v m) (\<lambda>_. w m))"
  unfolding sq_def by (rule reads_bnd)

lemma reads_if:
  "(c \<Longrightarrow> reads g op v) \<Longrightarrow> (\<not> c \<Longrightarrow> reads g op' w) \<Longrightarrow>
    reads g (if c then op else op') (\<lambda>m. if c then v m else w m)"
  by simp

lemma reads_block:
  "reads g (read_block a (unat (bg_block_size_bytes g)))
    (\<lambda>m. case m a of None \<Rightarrow> Inl Out_of_range | Some b \<Rightarrow> Inr b)"
  unfolding reads_def views_def
proof (intro allI impI)
  fix m s assume "shows_blocks g m s"
  then show "\<exists>s'. read_block a (unat (bg_block_size_bytes g)) s =
      (case m a of None \<Rightarrow> Inl Out_of_range | Some b \<Rightarrow> Inr b, s') \<and> shows_blocks g m s'"
    using read_law [of s a "unat (bg_block_size_bytes g)"] by (auto simp: shows_blocks_def)
qed

lemma reads_cong: "reads g op v \<Longrightarrow> (\<And>m s. shows_blocks g m s \<Longrightarrow> v m = w m) \<Longrightarrow> reads g op w"
  unfolding reads_def by (rule views_cong)

lemma write_block_shows:
  assumes "shows_blocks g m s" and "a < bg_block_count g" and "length b = unat (bg_block_size_bytes g)"
  obtains s' where "write_block a b s = (Inr (), s')" and "shows_blocks g (m(a \<mapsto> b)) s'"
  using write_law [of s a b] blocks_dom [of s a] assms by (auto simp: shows_blocks_def)

lemma block_shown:
  assumes "shows_blocks g m s" and "a < bg_block_count g"
  obtains b where "m a = Some b" and "length b = unat (bg_block_size_bytes g)"
  using assms blocks_dom [of s a] block_length [of s a] by (auto simp: shows_blocks_def)

text \<open>Read, change, write back.\<close>

lemma update_block:
  assumes s: "shows_blocks g m s" and a: "a < bg_block_count g" and b: "m a = Some b"
    and len: "length (f b) = length b"
  obtains s' where "bnd (read_block a (unat (bg_block_size_bytes g))) (\<lambda>b. write_block a (f b)) s = (Inr (), s')"
    and "shows_blocks g (m(a \<mapsto> f b)) s'"
proof -
  from s obtain s1 where r: "read_block a (unat (bg_block_size_bytes g)) s = (Inr b, s1)" "shows_blocks g m s1"
    using readsD [OF reads_block] b by (metis option.simps(5))
  from block_shown [OF s a] b len have "length (f b) = unat (bg_block_size_bytes g)" by auto
  from write_block_shows [OF r(2) a this] obtain s' where
    "write_block a (f b) s1 = (Inr (), s')" "shows_blocks g (m(a \<mapsto> f b)) s'" .
  with r show thesis by (intro that) (simp_all add: bnd_run)
qed

end

interpretation dev: block_store dev_ok bd_geometry dev_blocks bd_read_block bd_write_block
proof (unfold_locales, goal_cases)
  case (1 s a)
  then show ?case by (simp add: dev_blocks_def bd_contains_def)
next
  case (2 s a b)
  then show ?case by (auto simp: dev_blocks_def length_dev_block split: if_splits)
next
  case (3 s a n)
  then show ?case by (simp add: bd_read_block_run dev_blocks_def)
next
  case (4 s a b)
  then show ?case
    by (auto simp: bd_write_block_run dev_blocks_def dev_ok_put dev_block_put fun_eq_iff)
qed

section \<open>Multi-block transfers\<close>

text \<open>The reference: one block after the other through the single block operations.\<close>

primrec read_each :: "nat \<Rightarrow> qword \<Rightarrow> (memory_block_device, byte list) op" where
  "read_each 0 a = ret []"
| "read_each (Suc n) a =
    bnd (gets (\<lambda>d. unat (bd_block_size d))) (\<lambda>size.
    bnd (bd_read_block a size) (\<lambda>b.
    bnd (read_each n (a + 1)) (\<lambda>bs. ret (b @ bs))))"

primrec write_each :: "nat \<Rightarrow> qword \<Rightarrow> byte list \<Rightarrow> (memory_block_device, unit) op" where
  "write_each 0 a source = ret ()"
| "write_each (Suc n) a source =
    bnd (gets (\<lambda>d. unat (bd_block_size d))) (\<lambda>size.
    sq (bd_write_block a (take size source)) (write_each n (a + 1) (drop size source)))"

lemma unat_Suc_block:
  assumes "unat a + Suc n \<le> unat (k :: qword)" shows "unat (a + 1 :: qword) = Suc (unat a)"
  using unat_add_of_nat [of a 1] assms unat_less_64 [of k] by simp

lemma read_each_run:
  assumes "dev_ok d" and "unat a + n \<le> unat (bd_block_count d)"
  shows "read_each n a d =
    (Inr (subspan (unat a * unat (bd_block_size d)) (n * unat (bd_block_size d)) (bd_storage d)), d)"
  using assms(2)
proof (induction n arbitrary: a)
  case 0
  then show ?case by (simp add: op_simps subspan_def)
next
  case (Suc n)
  then have next_a: "unat (a + 1) = Suc (unat a)" by (simp add: unat_Suc_block)
  with Suc.prems have IH: "read_each n (a + 1) d =
    (Inr (subspan (Suc (unat a) * unat (bd_block_size d)) (n * unat (bd_block_size d)) (bd_storage d)), d)"
    using Suc.IH [of "a + 1"] by simp
  from Suc.prems have "bd_contains a d" by (simp add: bd_contains_def word_less_nat_alt)
  with IH show ?case
    by (simp add: op_simps bd_read_block_run [OF assms(1)] dev_block_def subspan_append add.commute)
qed

lemma write_each_run:
  assumes "dev_ok d" and "unat a + n \<le> unat (bd_block_count d)"
    and "length source = n * unat (bd_block_size d)"
  shows "write_each n a source d =
    (Inr (), d\<lparr>bd_storage := overwrite (unat a * unat (bd_block_size d)) source (bd_storage d)\<rparr>)"
  using assms
proof (induction n arbitrary: a source d)
  case 0
  then show ?case by (simp add: op_simps overwrite_def)
next
  case (Suc n)
  let ?n = "unat (bd_block_size d)"
  let ?d = "put_dev_block a (take ?n source) d"
  from Suc.prems have next_a: "unat (a + 1) = Suc (unat a)" by (simp add: unat_Suc_block)
  from Suc.prems have inside: "bd_contains a d" by (simp add: bd_contains_def word_less_nat_alt)
  from Suc.prems have len: "length (take ?n source) = ?n" by simp
  have "write_each n (a + 1) (drop ?n source) ?d =
    (Inr (), ?d\<lparr>bd_storage := overwrite (unat (a + 1) * ?n) (drop ?n source) (bd_storage ?d)\<rparr>)"
    using Suc.IH [of ?d "a + 1" "drop ?n source"] Suc.prems next_a
      dev_ok_put [OF Suc.prems(1) inside len] by simp
  moreover have "overwrite (unat (a + 1) * ?n) (drop ?n source) (bd_storage ?d)
      = overwrite (unat a * ?n) source (bd_storage d)"
  proof -
    have "unat a * ?n + length source \<le> length (bd_storage d)"
      using Suc.prems mult_le_mono1 [of "unat a + Suc n" "unat (bd_block_count d)" ?n]
      by (simp add: dev_ok_def algebra_simps)
    then show ?thesis
      using overwrite_append [of "unat a * ?n" "take ?n source" "drop ?n source" "bd_storage d"] len
      by (simp add: put_dev_block_def next_a add.commute [of _ ?n])
  qed
  ultimately show ?case
    using inside len
    by (simp add: op_simps bd_write_block_run [OF Suc.prems(1)] put_dev_block_def)
qed

lemma span_block_count_exact:
  assumes "dev_ok d" and "n \<le> unat (bd_block_count d)"
  shows "span_block_count (n * unat (bd_block_size d)) d = Inr (of_nat n)" "unat (of_nat n :: qword) = n"
proof -
  show "unat (of_nat n :: qword) = n"
    using assms(2) unat_less_64 [of "bd_block_count d"] by (simp add: unsigned_of_nat take_bit_nat_eq_self)
  show "span_block_count (n * unat (bd_block_size d)) d = Inr (of_nat n)"
    using assms(1) by (auto simp: span_block_count_def dev_ok_def unat_eq_zero)
qed

lemma span_block_count_0: "span_block_count 0 d = Inr 0"
  by (simp add: span_block_count_def)

lemma validate_block_range_exact:
  "validate_block_range first requested d =
    (if unat first + unat requested \<le> unat (bd_block_count d) then Inr () else Inl Out_of_range)"
proof (cases "first < bd_block_count d")
  case True
  then have "unat (bd_block_count d - first) = unat (bd_block_count d) - unat first"
    by (simp add: unat_sub)
  with True show ?thesis
    by (auto simp: validate_block_range_def Let_def word_le_nat_alt word_less_nat_alt unat_gt_0)
next
  case False
  then show ?thesis
    using unat_eq_zero [of requested]
    by (auto simp: validate_block_range_def word_le_nat_alt word_less_nat_alt not_less simp del: unat_eq_zero)
qed

text \<open>
  A transfer of \<open>n\<close> blocks that fits on the device is the same as \<open>n\<close> single block transfers in a row,
  result and device, for reads and for writes; a transfer that does not fit throws \<open>Out_of_range\<close> and
  leaves the device alone.
\<close>

lemma block_transfers_equivalent:
  assumes "dev_ok d" and "n \<le> unat (bd_block_count d)" and "length source = n * unat (bd_block_size d)"
  shows "if unat first + n \<le> unat (bd_block_count d)
    then bd_read_blocks first (n * unat (bd_block_size d)) d = read_each n first d
      \<and> bd_write_blocks first source d = write_each n first source d
      \<and> (\<exists>d'. write_each n first source d = (Inr (), d') \<and> dev_ok d' \<and> read_each n first d' = (Inr source, d'))
    else bd_read_blocks first (n * unat (bd_block_size d)) d = (Inl Out_of_range, d)
      \<and> bd_write_blocks first source d = (Inl Out_of_range, d)"
proof (cases "unat first + n \<le> unat (bd_block_count d)")
  case True
  let ?n = "unat (bd_block_size d)"
  let ?d' = "d\<lparr>bd_storage := overwrite (unat first * ?n) source (bd_storage d)\<rparr>"
  have fit: "unat first * ?n + length source \<le> length (bd_storage d)"
    using assms True mult_le_mono1 [OF True, of ?n] by (simp add: dev_ok_def algebra_simps)
  have ok: "dev_ok ?d'" using assms(1) fit by (simp add: dev_ok_def)
  have offset: "n \<noteq> 0 \<Longrightarrow> byte_offset_for first d = unat first * ?n"
    using dev_ok_offset(1) [OF assms(1), of first] True by simp
  have "bd_read_blocks first (n * ?n) d = read_each n first d"
    using assms True offset
    by (cases "n = 0") (simp_all add: bd_read_blocks_def op_simps span_block_count_exact span_block_count_0
        validate_block_range_exact read_each_run unat_eq_zero [symmetric] del: unat_eq_zero)
  moreover have "bd_write_blocks first source d = write_each n first source d"
    using assms True offset
    by (cases "n = 0") (simp_all add: bd_write_blocks_def op_simps span_block_count_exact span_block_count_0
        validate_block_range_exact write_each_run unat_eq_zero [symmetric] del: unat_eq_zero)
  moreover have "read_each n first ?d' = (Inr source, ?d')"
    using read_each_run [OF ok, of first n] True assms(3) subspan_overwrite_same [OF fit] by simp
  ultimately show ?thesis
    using True ok write_each_run [OF assms(1) True assms(3)] by auto
next
  case False
  then show ?thesis
    using assms
    by (simp add: bd_read_blocks_def bd_write_blocks_def op_simps span_block_count_exact
        validate_block_range_exact)
qed

definition sample_device :: memory_block_device where
  "sample_device = \<lparr>bd_geometry = \<lparr>bg_block_size_bytes = 2, bg_block_count = 3, bg_capacity_bytes = 6\<rparr>,
     bd_storage = [1, 2, 3, 4, 5, 6]\<rparr>"

lemma sample_device_facts: "dev_ok sample_device" "bd_block_size sample_device = 2"
  "bd_block_count sample_device = 3" "bd_storage sample_device = [1, 2, 3, 4, 5, 6]"
  by (simp_all add: sample_device_def dev_ok_def)

text \<open>Witness: two blocks of a three-block device.\<close>

lemma block_transfers_equivalent_witness:
  "bd_read_blocks 1 4 sample_device = read_each 2 1 sample_device
   \<and> bd_write_blocks 1 [7, 8, 9, 10] sample_device = write_each 2 1 [7, 8, 9, 10] sample_device
   \<and> bd_read_blocks 2 4 sample_device = (Inl Out_of_range, sample_device)"
  using block_transfers_equivalent [of sample_device 2 "[7, 8, 9, 10]" 1]
    block_transfers_equivalent [of sample_device 2 "[7, 8, 9, 10]" 2]
  by (simp add: sample_device_facts)

end
