(* ===== verification/BufCache.thy ===== *)
theory BufCache
  imports BlockDev
begin

text \<open>
  The write-back buffer cache of \<^verbatim>\<open>os/block/buffer_cache.cpp\<close>. The cache keeps whole blocks of the device in a
  fixed number of entries, finds them through an index by block number and replaces the least recently
  used one. The device the cache was built on is a field of the cache's record, because the cache is the
  only writer of it while it is in use.

  \<open>cache_view\<close> is the block a client sees; locale \<open>block_store\<close> is what the file system relies on, and the
  cache is shown to provide it.
\<close>

section \<open>State\<close>

definition BUFFER_CACHE_DEFAULT_CAPACITY_BLOCKS :: nat where
  "BUFFER_CACHE_DEFAULT_CAPACITY_BLOCKS = 64"

record cache_entry =
  ce_address :: qword
  ce_last_used_tick :: qword
  ce_valid :: bool
  ce_dirty :: bool

definition empty_entry :: cache_entry where
  "empty_entry = \<lparr>ce_address = 0, ce_last_used_tick = 0, ce_valid = False, ce_dirty = False\<rparr>"

record buffer_cache_stats =
  bs_hit_count :: qword
  bs_miss_count :: qword
  bs_device_read_count :: qword
  bs_write_count :: qword
  bs_device_writeback_count :: qword
  bs_dirty_eviction_count :: qword

definition initial_cache_stats :: buffer_cache_stats where
  "initial_cache_stats = \<lparr>bs_hit_count = 0, bs_miss_count = 0, bs_device_read_count = 0,
     bs_write_count = 0, bs_device_writeback_count = 0, bs_dirty_eviction_count = 0\<rparr>"

record buffer_cache =
  bc_device :: memory_block_device
  bc_entries :: "cache_entry list"
  bc_block_storage :: "byte list"
  bc_index_by_block :: "qword \<rightharpoonup> nat"
  bc_stats :: buffer_cache_stats
  bc_access_tick :: qword
  bc_valid_count :: nat

abbreviation bc_block_size :: "buffer_cache \<Rightarrow> nat" where
  "bc_block_size c \<equiv> unat (bd_block_size (bc_device c))"

abbreviation bc_geometry :: "buffer_cache \<Rightarrow> block_device_geometry" where
  "bc_geometry c \<equiv> bd_geometry (bc_device c)"

section \<open>Operations\<close>

definition record_hit :: "(buffer_cache, unit) op" where
  "record_hit = modify (bc_stats_update (bs_hit_count_update (\<lambda>n. n + 1)))"

definition record_miss :: "(buffer_cache, unit) op" where
  "record_miss = modify (bc_stats_update (bs_miss_count_update (\<lambda>n. n + 1)))"

definition record_device_read :: "(buffer_cache, unit) op" where
  "record_device_read = modify (bc_stats_update (bs_device_read_count_update (\<lambda>n. n + 1)))"

definition record_write :: "(buffer_cache, unit) op" where
  "record_write = modify (bc_stats_update (bs_write_count_update (\<lambda>n. n + 1)))"

definition record_device_writeback :: "(buffer_cache, unit) op" where
  "record_device_writeback = modify (bc_stats_update (bs_device_writeback_count_update (\<lambda>n. n + 1)))"

definition record_dirty_eviction :: "(buffer_cache, unit) op" where
  "record_dirty_eviction = modify (bc_stats_update (bs_dirty_eviction_count_update (\<lambda>n. n + 1)))"

definition checked_cache_storage_size :: "qword \<Rightarrow> qword \<Rightarrow> exn + nat" where
  "checked_cache_storage_size capacity_blocks block_size =
    (if capacity_blocks = 0 then Inl Invalid_argument
     else if block_size \<noteq> 0 \<and> capacity_blocks > (- 1) div block_size then Inl Overflow_error
     else Inr (unat (capacity_blocks * block_size)))"

definition BufferCache :: "memory_block_device \<Rightarrow> qword \<Rightarrow> exn + buffer_cache" where
  "BufferCache device capacity_blocks =
    sbind (checked_cache_storage_size capacity_blocks (bd_block_size device)) (\<lambda>n.
      Inr \<lparr>bc_device = device, bc_entries = replicate (unat capacity_blocks) empty_entry,
        bc_block_storage = replicate n 0, bc_index_by_block = Map.empty,
        bc_stats = initial_cache_stats, bc_access_tick = 0, bc_valid_count = 0\<rparr>)"

definition dirty_count :: "buffer_cache \<Rightarrow> nat" where
  "dirty_count c = length (filter (\<lambda>e. ce_valid e \<and> ce_dirty e) (bc_entries c))"

definition bc_contains :: "qword \<Rightarrow> buffer_cache \<Rightarrow> bool" where
  "bc_contains a c \<longleftrightarrow> bc_index_by_block c a \<noteq> None"

definition bc_dirty :: "qword \<Rightarrow> buffer_cache \<Rightarrow> bool" where
  "bc_dirty a c = (case bc_index_by_block c a of None \<Rightarrow> False | Some i \<Rightarrow> ce_dirty (bc_entries c ! i))"

definition block_span :: "nat \<Rightarrow> buffer_cache \<Rightarrow> byte list" where
  "block_span i c = subspan (i * bc_block_size c) (bc_block_size c) (bc_block_storage c)"

definition set_block_span :: "nat \<Rightarrow> byte list \<Rightarrow> buffer_cache \<Rightarrow> buffer_cache" where
  "set_block_span i b c = c\<lparr>bc_block_storage := overwrite (i * bc_block_size c) b (bc_block_storage c)\<rparr>"

definition set_entry :: "nat \<Rightarrow> (cache_entry \<Rightarrow> cache_entry) \<Rightarrow> buffer_cache \<Rightarrow> buffer_cache" where
  "set_entry i f c = c\<lparr>bc_entries := (bc_entries c)[i := f (bc_entries c ! i)]\<rparr>"

definition bc_validate_block_span :: "nat \<Rightarrow> buffer_cache \<Rightarrow> exn + unit" where
  "bc_validate_block_span byte_count c =
    (if byte_count \<noteq> bc_block_size c then Inl Invalid_argument else Inr ())"

definition validate_device_address :: "qword \<Rightarrow> buffer_cache \<Rightarrow> exn + unit" where
  "validate_device_address a c = (if \<not> bd_contains a (bc_device c) then Inl Out_of_range else Inr ())"

definition on_device :: "(memory_block_device, 'a) op \<Rightarrow> (buffer_cache, 'a) op" where
  "on_device = focus bc_device bc_device_update"

definition flush_entry :: "nat \<Rightarrow> (buffer_cache, unit) op" where
  "flush_entry i = bnd (gets (\<lambda>c. bc_entries c ! i)) (\<lambda>entry.
    if \<not> ce_valid entry \<or> \<not> ce_dirty entry then ret ()
    else bnd (gets (block_span i)) (\<lambda>source.
      sq (on_device (bd_write_block (ce_address entry) source))
      (sq (modify (set_entry i (ce_dirty_update (\<lambda>_. False))))
       record_device_writeback)))"

definition touch :: "nat \<Rightarrow> (buffer_cache, unit) op" where
  "touch i = sq (modify (bc_access_tick_update (\<lambda>t. t + 1)))
    (modify (\<lambda>c. set_entry i (ce_last_used_tick_update (\<lambda>_. bc_access_tick c)) c))"

primrec least_recently_used :: "cache_entry list \<Rightarrow> nat \<Rightarrow> nat list \<Rightarrow> nat" where
  "least_recently_used es victim [] = victim"
| "least_recently_used es victim (i # is) =
    least_recently_used es
      (if ce_last_used_tick (es ! i) < ce_last_used_tick (es ! victim) then i else victim) is"

definition victim_index :: "buffer_cache \<Rightarrow> nat" where
  "victim_index c = (let es = bc_entries c in
    case find (\<lambda>i. \<not> ce_valid (es ! i)) [0..<length es] of
      Some i \<Rightarrow> i
    | None \<Rightarrow> least_recently_used es 0 [1..<length es])"

definition evict_if_needed :: "nat \<Rightarrow> (buffer_cache, unit) op" where
  "evict_if_needed i = bnd (gets (\<lambda>c. bc_entries c ! i)) (\<lambda>entry.
    if \<not> ce_valid entry then ret ()
    else sq (if ce_dirty entry then sq record_dirty_eviction (flush_entry i) else ret ())
      (modify (bc_index_by_block_update (\<lambda>m. m(ce_address entry := None)))))"

definition allocate_entry :: "qword \<Rightarrow> (buffer_cache, nat) op" where
  "allocate_entry a = bnd (gets victim_index) (\<lambda>i.
    sq (evict_if_needed i)
    (bnd (gets (\<lambda>c. bc_entries c ! i)) (\<lambda>entry.
    sq (if \<not> ce_valid entry then modify (bc_valid_count_update (\<lambda>n. n + 1)) else ret ())
    (sq (modify (set_entry i (\<lambda>e. e\<lparr>ce_address := a, ce_valid := True, ce_dirty := False\<rparr>)))
    (sq (modify (bc_index_by_block_update (\<lambda>m. m(a \<mapsto> i))))
    (ret i))))))"

definition find_or_allocate_for_read :: "qword \<Rightarrow> (buffer_cache, nat) op" where
  "find_or_allocate_for_read a = bnd (gets (\<lambda>c. bc_index_by_block c a)) (\<lambda>found.
    case found of
      Some i \<Rightarrow> sq record_hit (sq (touch i) (ret i))
    | None \<Rightarrow>
        sq record_miss
        (bnd (allocate_entry a) (\<lambda>i.
        bnd (gets bc_block_size) (\<lambda>size.
        bnd (on_device (bd_read_block a size)) (\<lambda>b.
        sq (modify (set_block_span i b))
        (sq record_device_read
        (sq (touch i)
        (ret i))))))))"

definition find_or_allocate_for_write :: "qword \<Rightarrow> (buffer_cache, nat) op" where
  "find_or_allocate_for_write a = bnd (gets (\<lambda>c. bc_index_by_block c a)) (\<lambda>found.
    case found of
      Some i \<Rightarrow> sq record_hit (sq (touch i) (ret i))
    | None \<Rightarrow>
        sq record_miss
        (bnd (allocate_entry a) (\<lambda>i.
        sq (touch i)
        (ret i))))"

definition bc_read_block :: "qword \<Rightarrow> nat \<Rightarrow> (buffer_cache, byte list) op" where
  "bc_read_block a byte_count =
    bnd (gets (bc_validate_block_span byte_count)) (\<lambda>r. sq (lift_sum r)
    (bnd (gets (validate_device_address a)) (\<lambda>r. sq (lift_sum r)
    (bnd (find_or_allocate_for_read a) (\<lambda>i.
    gets (block_span i))))))"

definition bc_write_block :: "qword \<Rightarrow> byte list \<Rightarrow> (buffer_cache, unit) op" where
  "bc_write_block a source =
    bnd (gets (bc_validate_block_span (length source))) (\<lambda>r. sq (lift_sum r)
    (bnd (gets (validate_device_address a)) (\<lambda>r. sq (lift_sum r)
    (sq record_write
    (bnd (find_or_allocate_for_write a) (\<lambda>i.
    sq (modify (set_block_span i source))
    (modify (set_entry i (ce_dirty_update (\<lambda>_. True))))))))))"

definition flush_block :: "qword \<Rightarrow> (buffer_cache, unit) op" where
  "flush_block a =
    bnd (gets (validate_device_address a)) (\<lambda>r. sq (lift_sum r)
    (bnd (gets (\<lambda>c. bc_index_by_block c a)) (\<lambda>found.
    case found of None \<Rightarrow> ret () | Some i \<Rightarrow> flush_entry i)))"

definition flush_all :: "(buffer_cache, unit) op" where
  "flush_all = bnd (gets (\<lambda>c. length (bc_entries c))) (\<lambda>n. for_each flush_entry [0..<n])"

definition bc_clear :: "(buffer_cache, unit) op" where
  "bc_clear = sq flush_all (modify (\<lambda>c. c\<lparr>bc_entries := map (\<lambda>_. empty_entry) (bc_entries c),
     bc_index_by_block := Map.empty, bc_access_tick := 0, bc_valid_count := 0\<rparr>))"

section \<open>Invariant and view\<close>

text \<open>
  \<open>cache_inv P c\<close>: the index and the valid entries describe each other, the count of valid entries is exact,
  and every clean entry outside \<open>P\<close> agrees with the device. \<open>P\<close> holds the entry that has been allocated and
  not been filled yet.
\<close>

definition cache_inv :: "nat set \<Rightarrow> buffer_cache \<Rightarrow> bool" where
  "cache_inv P c \<longleftrightarrow> dev_ok (bc_device c) \<and> bc_entries c \<noteq> []
     \<and> length (bc_block_storage c) = length (bc_entries c) * bc_block_size c
     \<and> (\<forall>a i. bc_index_by_block c a = Some i \<longleftrightarrow>
          i < length (bc_entries c) \<and> ce_valid (bc_entries c ! i) \<and> ce_address (bc_entries c ! i) = a)
     \<and> (\<forall>i < length (bc_entries c). ce_valid (bc_entries c ! i) \<longrightarrow>
          bd_contains (ce_address (bc_entries c ! i)) (bc_device c)
          \<and> (i \<notin> P \<longrightarrow> \<not> ce_dirty (bc_entries c ! i) \<longrightarrow>
               block_span i c = dev_block (ce_address (bc_entries c ! i)) (bc_device c)))
     \<and> bc_valid_count c = length (filter ce_valid (bc_entries c))"

abbreviation cache_ok :: "buffer_cache \<Rightarrow> bool" where
  "cache_ok \<equiv> cache_inv {}"

definition cache_view :: "buffer_cache \<Rightarrow> qword \<Rightarrow> byte list" where
  "cache_view c a = (case bc_index_by_block c a of
     Some i \<Rightarrow> block_span i c | None \<Rightarrow> dev_block a (bc_device c))"

lemma cache_invD:
  assumes "cache_inv P c"
  shows "dev_ok (bc_device c)" and "bc_entries c \<noteq> []"
    and "length (bc_block_storage c) = length (bc_entries c) * bc_block_size c"
    and "bc_index_by_block c a = Some i \<longleftrightarrow>
          i < length (bc_entries c) \<and> ce_valid (bc_entries c ! i) \<and> ce_address (bc_entries c ! i) = a"
    and "i < length (bc_entries c) \<Longrightarrow> ce_valid (bc_entries c ! i) \<Longrightarrow>
          bd_contains (ce_address (bc_entries c ! i)) (bc_device c)"
    and "i < length (bc_entries c) \<Longrightarrow> ce_valid (bc_entries c ! i) \<Longrightarrow> i \<notin> P \<Longrightarrow>
          \<not> ce_dirty (bc_entries c ! i) \<Longrightarrow>
          block_span i c = dev_block (ce_address (bc_entries c ! i)) (bc_device c)"
    and "bc_valid_count c = length (filter ce_valid (bc_entries c))"
  using assms unfolding cache_inv_def by blast+

lemma cache_inv_weaken: "cache_inv P c \<Longrightarrow> P \<subseteq> Q \<Longrightarrow> cache_inv Q c"
  unfolding cache_inv_def by blast

text \<open>The counters and the clock do not matter.\<close>

lemma stats_irrelevant [simp]:
  "cache_inv P (bc_stats_update f c) = cache_inv P c" "cache_view (bc_stats_update f c) = cache_view c"
  "block_span i (bc_stats_update f c) = block_span i c" "victim_index (bc_stats_update f c) = victim_index c"
  by (simp_all add: cache_inv_def cache_view_def block_span_def victim_index_def fun_eq_iff cong: option.case_cong)

lemma tick_irrelevant [simp]:
  "cache_inv P (bc_access_tick_update f c) = cache_inv P c"
  "cache_view (bc_access_tick_update f c) = cache_view c"
  "block_span i (bc_access_tick_update f c) = block_span i c"
  by (simp_all add: cache_inv_def cache_view_def block_span_def fun_eq_iff cong: option.case_cong)

lemmas record_runs = record_hit_def record_miss_def record_device_read_def record_write_def
  record_device_writeback_def record_dirty_eviction_def

lemma set_entry_fields [simp]:
  "bc_device (set_entry i f c) = bc_device c" "bc_block_storage (set_entry i f c) = bc_block_storage c"
  "bc_index_by_block (set_entry i f c) = bc_index_by_block c"
  "bc_valid_count (set_entry i f c) = bc_valid_count c" "bc_stats (set_entry i f c) = bc_stats c"
  "bc_access_tick (set_entry i f c) = bc_access_tick c"
  "length (bc_entries (set_entry i f c)) = length (bc_entries c)"
  "bc_entries (set_entry i f c) = [] \<longleftrightarrow> bc_entries c = []"
  "block_span j (set_entry i f c) = block_span j c"
  "cache_view (set_entry i f c) = cache_view c"
  by (simp_all add: set_entry_def block_span_def cache_view_def fun_eq_iff cong: option.case_cong)

lemma nth_set_entry:
  "j < length (bc_entries c) \<Longrightarrow>
    bc_entries (set_entry i f c) ! j = (if j = i then f (bc_entries c ! i) else bc_entries c ! j)"
  by (simp add: set_entry_def)

lemma valid_count_set_entry:
  assumes "i < length (bc_entries c)"
  shows "length (filter ce_valid (bc_entries (set_entry i f c))) + (if ce_valid (bc_entries c ! i) then 1 else 0)
    = length (filter ce_valid (bc_entries c)) + (if ce_valid (f (bc_entries c ! i)) then 1 else 0)"
  unfolding set_entry_def using filter_length_update [OF assms] by simp

text \<open>Changing ticks, or marking an entry dirty, keeps the invariant; marking dirty settles a pending entry.\<close>

lemma cache_inv_set_entry:
  assumes inv: "cache_inv P c" and i: "i < length (bc_entries c)"
    and f: "ce_valid (f (bc_entries c ! i)) = ce_valid (bc_entries c ! i)"
      "ce_address (f (bc_entries c ! i)) = ce_address (bc_entries c ! i)"
    and clean: "i \<notin> Q \<Longrightarrow> \<not> ce_dirty (f (bc_entries c ! i)) \<Longrightarrow> i \<notin> P \<and> \<not> ce_dirty (bc_entries c ! i)"
    and others: "P - {i} \<subseteq> Q"
  shows "cache_inv Q (set_entry i f c)"
proof -
  note D = cache_invD [OF inv]
  have count: "bc_valid_count c = length (filter ce_valid (bc_entries (set_entry i f c)))"
    using valid_count_set_entry [OF i, of f] D(7) f(1) by (simp split: if_splits)
  have fields: "j < length (bc_entries c) \<Longrightarrow> ce_valid (bc_entries (set_entry i f c) ! j) = ce_valid (bc_entries c ! j)
      \<and> ce_address (bc_entries (set_entry i f c) ! j) = ce_address (bc_entries c ! j)" for j
    by (simp add: nth_set_entry f)
  have agree: "block_span j c = dev_block (ce_address (bc_entries c ! j)) (bc_device c)"
    if "j < length (bc_entries c)" "ce_valid (bc_entries c ! j)" "j \<notin> Q"
      "\<not> ce_dirty (bc_entries (set_entry i f c) ! j)" for j
    using D(6) [of j] that clean others by (cases "j = i") (auto simp: nth_set_entry)
  show ?thesis
    unfolding cache_inv_def using D(1-5) count fields agree by (simp cong: conj_cong)
qed

definition touched :: "nat \<Rightarrow> buffer_cache \<Rightarrow> buffer_cache" where
  "touched i c = set_entry i (ce_last_used_tick_update (\<lambda>_. bc_access_tick c + 1))
     (bc_access_tick_update (\<lambda>t. t + 1) c)"

lemma touch_run: "touch i c = (Inr (), touched i c)"
  by (simp add: touch_def op_simps touched_def)

lemma touched_fields [simp]:
  "bc_device (touched i c) = bc_device c" "length (bc_entries (touched i c)) = length (bc_entries c)"
  "bc_index_by_block (touched i c) = bc_index_by_block c" "block_span j (touched i c) = block_span j c"
  "cache_view (touched i c) = cache_view c"
  by (simp_all add: touched_def)

lemma cache_inv_touched:
  assumes "cache_inv P c" and "i < length (bc_entries c)"
  shows "cache_inv P (touched i c)"
  unfolding touched_def by (rule cache_inv_set_entry [where P = P]) (use assms in auto)

section \<open>Write-back\<close>

definition flushed :: "nat \<Rightarrow> buffer_cache \<Rightarrow> buffer_cache" where
  "flushed i c = (let e = bc_entries c ! i in
    if \<not> ce_valid e \<or> \<not> ce_dirty e then c
    else bc_stats_update (bs_device_writeback_count_update (\<lambda>n. n + 1))
      (set_entry i (ce_dirty_update (\<lambda>_. False))
        (c\<lparr>bc_device := put_dev_block (ce_address e) (block_span i c) (bc_device c)\<rparr>)))"

lemma length_block_span:
  assumes "cache_inv P c" and "i < length (bc_entries c)"
  shows "length (block_span i c) = bc_block_size c"
    and "i * bc_block_size c + bc_block_size c \<le> length (bc_block_storage c)"
proof -
  show "i * bc_block_size c + bc_block_size c \<le> length (bc_block_storage c)"
    using cache_invD(3) [OF assms(1)] block_inside [OF assms(2)] by simp
  then show "length (block_span i c) = bc_block_size c" by (simp add: block_span_def)
qed

lemma flush_entry_run:
  assumes "cache_inv P c" and "i < length (bc_entries c)"
  shows "flush_entry i c = (Inr (), flushed i c)"
  using cache_invD(1) [OF assms(1)] cache_invD(5) [OF assms] length_block_span [OF assms]
  by (simp add: flush_entry_def op_simps on_device_def bd_write_block_run flushed_def Let_def record_runs)

lemma flushed_fields [simp]:
  "bc_geometry (flushed i c) = bc_geometry c" "bc_index_by_block (flushed i c) = bc_index_by_block c"
  "length (bc_entries (flushed i c)) = length (bc_entries c)"
  "bc_valid_count (flushed i c) = bc_valid_count c"
  "bc_block_storage (flushed i c) = bc_block_storage c" "block_span j (flushed i c) = block_span j c"
  "bd_contains a (bc_device (flushed i c)) = bd_contains a (bc_device c)"
  by (simp_all add: flushed_def Let_def block_span_def bd_contains_def)

lemma nth_flushed:
  assumes "j < length (bc_entries c)"
  shows "bc_entries (flushed i c) ! j =
    (if j = i \<and> ce_valid (bc_entries c ! i) then ce_dirty_update (\<lambda>_. False) (bc_entries c ! i) else bc_entries c ! j)"
proof (cases "ce_valid (bc_entries c ! i) \<and> ce_dirty (bc_entries c ! i)")
  case True
  with assms show ?thesis by (auto simp: flushed_def Let_def set_entry_def)
next
  case False
  then have "ce_valid (bc_entries c ! i) \<Longrightarrow> ce_dirty_update (\<lambda>_. False) (bc_entries c ! i) = bc_entries c ! i"
    by (cases "bc_entries c ! i") simp
  with False show ?thesis by (auto simp: flushed_def Let_def)
qed

lemma valid_addresses_distinct:
  assumes "cache_inv P c" and "i < length (bc_entries c)" and "ce_valid (bc_entries c ! i)"
    and "j < length (bc_entries c)" and "ce_valid (bc_entries c ! j)"
    and "ce_address (bc_entries c ! i) = ce_address (bc_entries c ! j)"
  shows "i = j"
  using cache_invD(4) [OF assms(1)] assms(2-) by (metis option.inject)

lemma dev_block_flushed:
  assumes inv: "cache_inv P c" and i: "i < length (bc_entries c)" and a: "bd_contains a (bc_device c)"
  shows "dev_block a (bc_device (flushed i c)) =
    (if ce_valid (bc_entries c ! i) \<and> ce_dirty (bc_entries c ! i) \<and> ce_address (bc_entries c ! i) = a
     then block_span i c else dev_block a (bc_device c))"
proof (cases "ce_valid (bc_entries c ! i) \<and> ce_dirty (bc_entries c ! i)")
  case True
  with dev_block_put [OF cache_invD(1) [OF inv] cache_invD(5) [OF inv i] length_block_span(1) [OF inv i] a]
  show ?thesis by (simp add: flushed_def Let_def)
qed (auto simp: flushed_def Let_def)

lemma cache_inv_flushed:
  assumes inv: "cache_inv P c" and i: "i < length (bc_entries c)"
  shows "cache_inv P (flushed i c)"
proof -
  note D = cache_invD [OF inv]
  have dev: "dev_ok (bc_device (flushed i c))"
    using D(1) dev_ok_put [OF D(1) D(5) [OF i] length_block_span(1) [OF inv i]]
    by (auto simp: flushed_def Let_def)
  have fields: "ce_valid (bc_entries (flushed i c) ! j) = ce_valid (bc_entries c ! j)
      \<and> ce_address (bc_entries (flushed i c) ! j) = ce_address (bc_entries c ! j)"
    if "j < length (bc_entries c)" for j
    using that by (simp add: nth_flushed)
  have "map ce_valid (bc_entries (flushed i c)) = map ce_valid (bc_entries c)"
    by (rule nth_equalityI) (simp_all add: fields)
  then have "length (filter id (map ce_valid (bc_entries (flushed i c)))) = length (filter id (map ce_valid (bc_entries c)))"
    by (rule arg_cong)
  then have count: "length (filter ce_valid (bc_entries (flushed i c))) = length (filter ce_valid (bc_entries c))"
    by (simp add: filter_map comp_def id_def)
  have agree: "block_span j c = dev_block (ce_address (bc_entries c ! j)) (bc_device (flushed i c))"
    if j: "j < length (bc_entries c)" "ce_valid (bc_entries c ! j)" "j \<notin> P"
      and clean: "\<not> ce_dirty (bc_entries (flushed i c) ! j)" for j
  proof (cases "j = i")
    case True
    with j D(5,6) [of j] show ?thesis by (auto simp: dev_block_flushed [OF inv i])
  next
    case False
    with j i have "ce_valid (bc_entries c ! i) \<Longrightarrow> ce_address (bc_entries c ! i) \<noteq> ce_address (bc_entries c ! j)"
      using valid_addresses_distinct [OF inv] by blast
    with j clean False D(5,6) [of j] show ?thesis
      by (auto simp: dev_block_flushed [OF inv i] nth_flushed)
  qed
  have "bc_entries (flushed i c) \<noteq> []" using D(2) by (metis flushed_fields(3) length_0_conv)
  then show ?thesis
    unfolding cache_inv_def using dev fields count agree D(3-5,7) by (simp cong: conj_cong)
qed

lemma cache_view_flushed:
  assumes inv: "cache_inv P c" and i: "i < length (bc_entries c)" and a: "bd_contains a (bc_device c)"
  shows "cache_view (flushed i c) a = cache_view c a"
proof (cases "bc_index_by_block c a")
  case None
  then have "\<not> (ce_valid (bc_entries c ! i) \<and> ce_address (bc_entries c ! i) = a)"
    using cache_invD(4) [OF inv, of a i] i by auto
  with None show ?thesis by (auto simp: cache_view_def dev_block_flushed [OF inv i a])
qed (simp add: cache_view_def)

section \<open>Replacement\<close>

lemma least_recently_used_spec:
  assumes "victim < length es" and "set is \<subseteq> {..<length es}"
  shows "least_recently_used es victim is \<in> insert victim (set is)
    \<and> (\<forall>j \<in> insert victim (set is).
         ce_last_used_tick (es ! least_recently_used es victim is) \<le> ce_last_used_tick (es ! j))"
  using assms
proof (induction "is" arbitrary: victim)
  case Nil
  then show ?case by simp
next
  case (Cons i "is")
  let ?v = "if ce_last_used_tick (es ! i) < ce_last_used_tick (es ! victim) then i else victim"
  from Cons.prems have "?v < length es" "set is \<subseteq> {..<length es}" by auto
  from Cons.IH [OF this] show ?case by (auto split: if_splits intro: order_trans order_less_imp_le)
qed

lemma victim_index_spec:
  assumes "bc_entries c \<noteq> []"
  shows "victim_index c < length (bc_entries c)"
    and "ce_valid (bc_entries c ! victim_index c) \<Longrightarrow> j < length (bc_entries c) \<Longrightarrow>
      ce_valid (bc_entries c ! j)
      \<and> ce_last_used_tick (bc_entries c ! victim_index c) \<le> ce_last_used_tick (bc_entries c ! j)"
proof -
  let ?es = "bc_entries c"
  from assms have all: "insert 0 (set [1..<length ?es]) = {..<length ?es}" by auto
  then have lru: "least_recently_used ?es 0 [1..<length ?es] \<in> {..<length ?es}"
    "\<forall>j \<in> {..<length ?es}.
      ce_last_used_tick (?es ! least_recently_used ?es 0 [1..<length ?es]) \<le> ce_last_used_tick (?es ! j)"
    using least_recently_used_spec [of 0 ?es "[1..<length ?es]"] assms by auto
  show "victim_index c < length ?es"
    using lru(1) by (auto simp: victim_index_def Let_def find_Some_iff split: option.splits)
  show "ce_valid (?es ! j) \<and> ce_last_used_tick (?es ! victim_index c) \<le> ce_last_used_tick (?es ! j)"
    if "ce_valid (?es ! victim_index c)" and "j < length ?es"
    using that lru(2)
    by (auto simp: victim_index_def Let_def find_Some_iff find_None_iff split: option.splits)
qed

lemma evict_run:
  assumes "cache_inv P c" and "i < length (bc_entries c)"
  obtains f where "evict_if_needed i c = (Inr (),
    bc_index_by_block_update (\<lambda>m. if ce_valid (bc_entries c ! i) then m(ce_address (bc_entries c ! i) := None) else m)
      (flushed i (bc_stats_update f c)))"
proof (cases "ce_valid (bc_entries c ! i) \<and> ce_dirty (bc_entries c ! i)")
  case True
  let ?f = "bs_dirty_eviction_count_update (\<lambda>n. n + 1)"
  from assms have "flush_entry i (bc_stats_update ?f c) = (Inr (), flushed i (bc_stats_update ?f c))"
    by (intro flush_entry_run [where P = P]) simp_all
  with True show thesis by (intro that [of ?f]) (simp add: evict_if_needed_def op_simps record_runs)
next
  case False
  then have "flushed i (bc_stats_update id c) = c" by (auto simp: flushed_def Let_def)
  with False show thesis by (intro that [of id]) (auto simp: evict_if_needed_def op_simps)
qed

text \<open>Entry \<open>i\<close>, which is clean or unused, is given to block \<open>a\<close>, which is not cached.\<close>

definition reassigned :: "nat \<Rightarrow> qword \<Rightarrow> buffer_cache \<Rightarrow> buffer_cache" where
  "reassigned i a c = (let e = bc_entries c ! i in
    set_entry i (\<lambda>e. e\<lparr>ce_address := a, ce_valid := True, ce_dirty := False\<rparr>) c\<lparr>
      bc_index_by_block :=
        (if ce_valid e then (bc_index_by_block c)(ce_address e := None) else bc_index_by_block c)(a \<mapsto> i),
      bc_valid_count := bc_valid_count c + (if ce_valid e then 0 else 1)\<rparr>)"

lemma reassigned_fields [simp]:
  "bc_device (reassigned i a c) = bc_device c" "bc_block_storage (reassigned i a c) = bc_block_storage c"
  "length (bc_entries (reassigned i a c)) = length (bc_entries c)"
  "bc_entries (reassigned i a c) = [] \<longleftrightarrow> bc_entries c = []"
  "block_span j (reassigned i a c) = block_span j c"
  by (simp_all add: reassigned_def Let_def block_span_def)

lemma nth_reassigned:
  "j < length (bc_entries c) \<Longrightarrow> bc_entries (reassigned i a c) ! j =
    (if j = i then (bc_entries c ! i)\<lparr>ce_address := a, ce_valid := True, ce_dirty := False\<rparr>
     else bc_entries c ! j)"
  by (simp add: reassigned_def Let_def nth_set_entry)

lemma cache_inv_reassigned:
  assumes inv: "cache_inv P c" and i: "i < length (bc_entries c)"
    and miss: "bc_index_by_block c a = None" and a: "bd_contains a (bc_device c)"
  shows "cache_inv (insert i P) (reassigned i a c)"
proof -
  note D = cache_invD [OF inv]
  let ?e = "bc_entries c ! i"
  have addr_a: "ce_address (bc_entries c ! j) \<noteq> a"
    if "j < length (bc_entries c)" "ce_valid (bc_entries c ! j)" for j
    using D(4) [of a j] that miss by auto
  have old: "j = i" if "ce_valid ?e" "j < length (bc_entries c)" "ce_valid (bc_entries c ! j)"
    "ce_address (bc_entries c ! j) = ce_address ?e" for j
    using valid_addresses_distinct [OF inv, of j i] i that by simp
  have index: "bc_index_by_block (reassigned i a c) x = Some j \<longleftrightarrow> j < length (bc_entries c)
      \<and> ce_valid (bc_entries (reassigned i a c) ! j) \<and> ce_address (bc_entries (reassigned i a c) ! j) = x" for x j
    using D(4) [of x j] addr_a [of j] old [of j] i
    by (auto simp: reassigned_def Let_def nth_set_entry)
  have count: "bc_valid_count (reassigned i a c) = length (filter ce_valid (bc_entries (reassigned i a c)))"
    using valid_count_set_entry [OF i, of "\<lambda>e. e\<lparr>ce_address := a, ce_valid := True, ce_dirty := False\<rparr>"] D(7)
    by (simp add: reassigned_def Let_def split: if_splits)
  show ?thesis
    unfolding cache_inv_def using D(1-3) D(5,6) index count a by (simp add: nth_reassigned)
qed

lemma cache_view_reassigned:
  assumes inv: "cache_inv P c" and i: "i < length (bc_entries c)" and "i \<notin> P"
    and clean: "ce_valid (bc_entries c ! i) \<Longrightarrow> \<not> ce_dirty (bc_entries c ! i)" and x: "x \<noteq> a"
  shows "cache_view (reassigned i a c) x = cache_view c x"
proof (cases "ce_valid (bc_entries c ! i) \<and> ce_address (bc_entries c ! i) = x")
  case True
  then have "bc_index_by_block c x = Some i" using cache_invD(4) [OF inv] i by simp
  with True x cache_invD(6) [OF inv i _ \<open>i \<notin> P\<close>] clean show ?thesis
    by (simp add: cache_view_def reassigned_def Let_def)
next
  case False
  with x have "bc_index_by_block (reassigned i a c) x = bc_index_by_block c x"
    by (auto simp: reassigned_def Let_def)
  then show ?thesis by (simp add: cache_view_def cong: option.case_cong)
qed

text \<open>What is left of the cache when entry \<open>i\<close> has been given to block \<open>a\<close>.\<close>

definition allocated_to :: "nat \<Rightarrow> qword \<Rightarrow> buffer_cache \<Rightarrow> buffer_cache \<Rightarrow> bool" where
  "allocated_to i a c c' \<longleftrightarrow> i < length (bc_entries c') \<and> cache_inv {i} c' \<and> bc_geometry c' = bc_geometry c
     \<and> length (bc_entries c') = length (bc_entries c)
     \<and> bc_index_by_block c' = (if ce_valid (bc_entries c ! i)
          then (bc_index_by_block c)(ce_address (bc_entries c ! i) := None) else bc_index_by_block c)(a \<mapsto> i)
     \<and> dev_block a (bc_device c') = cache_view c a
     \<and> (\<forall>x. bd_contains x (bc_device c) \<longrightarrow> x \<noteq> a \<longrightarrow> cache_view c' x = cache_view c x)"

lemma allocate_entry_spec:
  assumes ok: "cache_ok c" and miss: "bc_index_by_block c a = None" and a: "bd_contains a (bc_device c)"
  obtains c' where "allocate_entry a c = (Inr (victim_index c), c')" and "allocated_to (victim_index c) a c c'"
proof -
  let ?i = "victim_index c"
  let ?e = "bc_entries c ! ?i"
  have i: "?i < length (bc_entries c)" by (rule victim_index_spec(1) [OF cache_invD(2) [OF ok]])
  obtain f where evict: "evict_if_needed ?i c = (Inr (),
      bc_index_by_block_update (\<lambda>m. if ce_valid ?e then m(ce_address ?e := None) else m)
        (flushed ?i (bc_stats_update f c)))"
    by (rule evict_run [OF ok i])
  define d where "d = flushed ?i (bc_stats_update f c)"
  have d: "cache_ok d" unfolding d_def by (rule cache_inv_flushed) (use ok i in simp_all)
  have view: "bd_contains x (bc_device c) \<Longrightarrow> cache_view d x = cache_view c x" for x
    using cache_view_flushed [of "{}" "bc_stats_update f c" ?i x] ok i by (simp add: d_def)
  have ed: "bc_entries d ! ?i = (if ce_valid ?e then ce_dirty_update (\<lambda>_. False) ?e else ?e)"
    and i': "?i < length (bc_entries d)" using i by (simp_all add: d_def nth_flushed)
  have miss': "bc_index_by_block d a = None" and a': "bd_contains a (bc_device d)"
    using miss a by (simp_all add: d_def)
  have clean: "ce_valid (bc_entries d ! ?i) \<Longrightarrow> \<not> ce_dirty (bc_entries d ! ?i)"
    using ed by (simp split: if_splits)
  have run: "allocate_entry a c = (Inr ?i, reassigned ?i a d)"
    using evict ed by (simp add: allocate_entry_def op_simps d_def [symmetric] reassigned_def Let_def set_entry_def)
  have "allocated_to ?i a c (reassigned ?i a d)"
    unfolding allocated_to_def
    using cache_inv_reassigned [OF d i' miss' a'] cache_view_reassigned [OF d i' _ clean, of _ a]
      view i' view [OF a] miss' ed
    by (simp add: reassigned_def Let_def cache_view_def) (simp add: d_def)
  with run show thesis by (rule that)
qed

section \<open>Reads and writes\<close>

text \<open>The disk a client sees: the blocks by number, undefined outside the device.\<close>

definition bc_blocks :: "buffer_cache \<Rightarrow> qword \<rightharpoonup> byte list" where
  "bc_blocks c a = (if bd_contains a (bc_device c) then Some (cache_view c a) else None)"

lemma set_block_span_fields [simp]:
  "bc_device (set_block_span i b c) = bc_device c" "bc_entries (set_block_span i b c) = bc_entries c"
  "bc_index_by_block (set_block_span i b c) = bc_index_by_block c"
  "bc_valid_count (set_block_span i b c) = bc_valid_count c"
  by (simp_all add: set_block_span_def)

lemma block_span_set:
  assumes inv: "cache_inv P c" and i: "i < length (bc_entries c)" and j: "j < length (bc_entries c)"
    and b: "length b = bc_block_size c"
  shows "block_span j (set_block_span i b c) = (if j = i then b else block_span j c)"
proof (cases "j = i")
  case True
  with b subspan_overwrite_same [of "i * bc_block_size c" b "bc_block_storage c"] length_block_span(2) [OF inv i]
  show ?thesis by (simp add: block_span_def set_block_span_def)
next
  case False
  with block_disjoint [OF False, of "bc_block_size c"] b length_block_span(2) [OF inv i] length_block_span(2) [OF inv j]
  show ?thesis by (simp add: block_span_def set_block_span_def subspan_overwrite_other)
qed

lemma cache_inv_set_block_span:
  assumes inv: "cache_inv P c" and i: "i < length (bc_entries c)" and b: "length b = bc_block_size c"
    and settle: "P \<subseteq> insert i Q" "i \<notin> Q \<Longrightarrow> ce_valid (bc_entries c ! i) \<Longrightarrow>
      \<not> ce_dirty (bc_entries c ! i) \<Longrightarrow> b = dev_block (ce_address (bc_entries c ! i)) (bc_device c)"
  shows "cache_inv Q (set_block_span i b c)"
proof -
  note D = cache_invD [OF inv]
  have len: "length (bc_block_storage (set_block_span i b c)) = length (bc_block_storage c)"
    using length_block_span(2) [OF inv i] b by (simp add: set_block_span_def)
  have "block_span j (set_block_span i b c) = dev_block (ce_address (bc_entries c ! j)) (bc_device c)"
    if "j < length (bc_entries c)" "ce_valid (bc_entries c ! j)" "j \<notin> Q" "\<not> ce_dirty (bc_entries c ! j)" for j
    using that D(6) [of j] settle by (auto simp: block_span_set [OF inv i _ b])
  then show ?thesis
    unfolding cache_inv_def using D(1-5,7) len by simp
qed

lemma cache_view_set_block_span:
  assumes inv: "cache_inv P c" and i: "bc_index_by_block c a = Some i" and b: "length b = bc_block_size c"
  shows "cache_view (set_block_span i b c) x = (if x = a then b else cache_view c x)"
proof -
  have i': "i < length (bc_entries c)" using cache_invD(4) [OF inv] i by simp
  show ?thesis
  proof (cases "bc_index_by_block c x")
    case None
    with i show ?thesis by (auto simp: cache_view_def)
  next
    case (Some j)
    have "j < length (bc_entries c)" "j = i \<longleftrightarrow> x = a"
      using cache_invD(4) [OF inv, of x j] cache_invD(4) [OF inv, of a i] Some i by (simp, metis option.inject)
    with Some show ?thesis by (simp add: cache_view_def block_span_set [OF inv i' _ b])
  qed
qed

text \<open>\<open>sees c m c'\<close>: the cache \<open>c'\<close> of the same geometry shows its client the blocks \<open>m\<close>.\<close>

definition sees :: "buffer_cache \<Rightarrow> (qword \<rightharpoonup> byte list) \<Rightarrow> buffer_cache \<Rightarrow> bool" where
  "sees c m c' \<longleftrightarrow> cache_ok c' \<and> bc_geometry c' = bc_geometry c \<and> bc_blocks c' = m"

lemma bc_blocks_cong:
  "bc_geometry c' = bc_geometry c \<Longrightarrow>
    (\<And>x. bd_contains x (bc_device c) \<Longrightarrow> cache_view c' x = cache_view c x) \<Longrightarrow> bc_blocks c' = bc_blocks c"
  by (auto simp: bc_blocks_def bd_contains_def fun_eq_iff)

lemma length_cache_view:
  assumes "cache_ok c" and "bd_contains a (bc_device c)"
  shows "length (cache_view c a) = bc_block_size c"
proof (cases "bc_index_by_block c a")
  case None
  with assms show ?thesis by (simp add: cache_view_def length_dev_block cache_invD(1))
next
  case (Some i)
  then have "i < length (bc_entries c)" using cache_invD(4) [OF assms(1)] by simp
  with Some assms(1) show ?thesis by (simp add: cache_view_def length_block_span(1))
qed

lemma sees_cong:
  assumes "cache_ok c'" and "bc_geometry c' = bc_geometry c"
    and "\<And>x. bd_contains x (bc_device c) \<Longrightarrow> cache_view c' x = cache_view c x"
  shows "sees c (bc_blocks c) c'"
  using assms bc_blocks_cong unfolding sees_def by blast

lemma sees_update:
  assumes "cache_ok c'" and "bc_geometry c' = bc_geometry c" and "bd_contains a (bc_device c)"
    and "\<And>x. bd_contains x (bc_device c) \<Longrightarrow> cache_view c' x = (if x = a then b else cache_view c x)"
  shows "sees c ((bc_blocks c)(a \<mapsto> b)) c'"
  using assms unfolding sees_def by (auto simp: bc_blocks_def bd_contains_def fun_eq_iff)

text \<open>A block that is cached already.\<close>

lemma cache_hit:
  assumes ok: "cache_ok c" and hit: "bc_index_by_block c a = Some i" and c': "c' = touched i (bc_stats_update f c)"
  shows "cache_ok c'" and "bc_index_by_block c' a = Some i" and "i < length (bc_entries c')"
    and "sees c (bc_blocks c) c'" and "block_span i c' = cache_view c a"
proof -
  have i: "i < length (bc_entries c)" using cache_invD(4) [OF ok] hit by simp
  then show "cache_ok c'" "bc_index_by_block c' a = Some i" "i < length (bc_entries c')"
    "block_span i c' = cache_view c a"
    using ok hit by (simp_all add: c' cache_inv_touched cache_view_def)
  then show "sees c (bc_blocks c) c'" by (intro sees_cong) (simp_all add: c')
qed

text \<open>A block that is not: the entry that is reused, filled with the block \<open>b\<close>.\<close>

lemma cache_miss:
  assumes ok: "cache_ok c" and miss: "bc_index_by_block c a = None" and a: "bd_contains a (bc_device c)"
  obtains d where "allocate_entry a (bc_stats_update f c) = (Inr (victim_index c), d)"
    and "allocated_to (victim_index c) a c d"
  using allocate_entry_spec [of "bc_stats_update f c" a] ok miss a
  by (auto simp: allocated_to_def cong: if_cong)

lemma allocated_toD:
  assumes "allocated_to i a c d" and "bd_contains a (bc_device c)"
  shows "i < length (bc_entries d)" and "cache_inv {i} d" and "bc_geometry d = bc_geometry c"
    and "bc_index_by_block d a = Some i" and "bd_contains a (bc_device d)" and "dev_ok (bc_device d)"
    and "dev_block a (bc_device d) = cache_view c a"
    and "bd_contains x (bc_device c) \<Longrightarrow> x \<noteq> a \<Longrightarrow> cache_view d x = cache_view c x"
    and "ce_valid (bc_entries d ! i)" and "ce_address (bc_entries d ! i) = a"
proof -
  from assms show D: "i < length (bc_entries d)" "cache_inv {i} d" "bc_geometry d = bc_geometry c"
    "bc_index_by_block d a = Some i" "bd_contains a (bc_device d)" "dev_block a (bc_device d) = cache_view c a"
    "bd_contains x (bc_device c) \<Longrightarrow> x \<noteq> a \<Longrightarrow> cache_view d x = cache_view c x"
    by (auto simp: allocated_to_def bd_contains_def)
  show "dev_ok (bc_device d)" by (rule cache_invD(1) [OF D(2)])
  show "ce_valid (bc_entries d ! i)" "ce_address (bc_entries d ! i) = a"
    using cache_invD(4) [OF D(2), of a i] D(4) by simp_all
qed

lemma find_or_allocate_for_read_spec:
  assumes ok: "cache_ok c" and a: "bd_contains a (bc_device c)"
  obtains i c' where "find_or_allocate_for_read a c = (Inr i, c')" and "sees c (bc_blocks c) c'"
    and "block_span i c' = cache_view c a"
proof (cases "bc_index_by_block c a")
  case (Some i)
  note hit = cache_hit [OF ok Some refl]
  with Some show thesis
    by (intro that [of i "touched i (bc_stats_update (bs_hit_count_update (\<lambda>n. n + 1)) c)"])
       (simp_all add: find_or_allocate_for_read_def op_simps record_runs touch_run)
next
  case None
  let ?i = "victim_index c"
  obtain d where run: "allocate_entry a (bc_stats_update (bs_miss_count_update (\<lambda>n. n + 1)) c) = (Inr ?i, d)"
    and d: "allocated_to ?i a c d" by (rule cache_miss [OF ok None a])
  note D = allocated_toD [OF d a]
  let ?b = "dev_block a (bc_device d)"
  let ?c' = "touched ?i (bc_stats_update (bs_device_read_count_update (\<lambda>n. n + 1)) (set_block_span ?i ?b d))"
  have len: "length ?b = bc_block_size d" by (rule length_dev_block [OF D(6,5)])
  have ok': "cache_ok ?c'"
    using cache_inv_set_block_span [OF D(2,1) len, of "{}"] D(1,10) by (simp add: cache_inv_touched)
  show thesis
  proof (rule that)
    show "find_or_allocate_for_read a c = (Inr ?i, ?c')"
      using None run D(5,6)
      by (simp add: find_or_allocate_for_read_def op_simps record_runs touch_run on_device_def bd_read_block_run)
    show "sees c (bc_blocks c) ?c'"
      by (rule sees_cong [OF ok']) (simp_all add: D cache_view_set_block_span [OF D(2,4) len, unfolded D(7)])
    show "block_span ?i ?c' = cache_view c a"
      using block_span_set [OF D(2,1,1) len] by (simp add: D(7))
  qed
qed

lemma bc_read_block_spec:
  assumes ok: "cache_ok c"
  shows "\<exists>c'. bc_read_block a n c = (if n \<noteq> bc_block_size c then Inl Invalid_argument
      else case bc_blocks c a of None \<Rightarrow> Inl Out_of_range | Some b \<Rightarrow> Inr b, c')
    \<and> sees c (bc_blocks c) c'"
proof (cases "n = bc_block_size c \<and> bd_contains a (bc_device c)")
  case True
  then obtain i c' where "find_or_allocate_for_read a c = (Inr i, c')" "sees c (bc_blocks c) c'"
    "block_span i c' = cache_view c a" using find_or_allocate_for_read_spec [OF ok, of a] by blast
  with True show ?thesis
    by (simp add: bc_read_block_def op_simps bc_validate_block_span_def validate_device_address_def bc_blocks_def)
next
  case False
  with ok show ?thesis
    by (auto simp: bc_read_block_def op_simps bc_validate_block_span_def validate_device_address_def bc_blocks_def
        sees_def)
qed

lemma find_or_allocate_for_write_spec:
  assumes ok: "cache_ok c" and a: "bd_contains a (bc_device c)"
  obtains i c' where "find_or_allocate_for_write a c = (Inr i, c')" and "cache_inv {i} c'"
    and "bc_geometry c' = bc_geometry c" and "bc_index_by_block c' a = Some i"
    and "\<And>x. bd_contains x (bc_device c) \<Longrightarrow> x \<noteq> a \<Longrightarrow> cache_view c' x = cache_view c x"
proof (cases "bc_index_by_block c a")
  case (Some i)
  let ?c' = "touched i (bc_stats_update (bs_hit_count_update (\<lambda>n. n + 1)) c)"
  note hit = cache_hit [OF ok Some refl]
  show thesis
    by (rule that [of i ?c'])
       (simp_all add: Some find_or_allocate_for_write_def op_simps record_runs touch_run
         cache_inv_weaken [OF hit(1)])
next
  case None
  let ?i = "victim_index c"
  obtain d where run: "allocate_entry a (bc_stats_update (bs_miss_count_update (\<lambda>n. n + 1)) c) = (Inr ?i, d)"
    and d: "allocated_to ?i a c d" by (rule cache_miss [OF ok None a])
  note D = allocated_toD [OF d a]
  show thesis
    by (rule that [of ?i "touched ?i d"])
       (simp_all add: None run D cache_inv_touched find_or_allocate_for_write_def op_simps record_runs touch_run)
qed

lemma bc_write_block_spec:
  assumes ok: "cache_ok c"
  shows "\<exists>c'. bc_write_block a b c = (if length b \<noteq> bc_block_size c then Inl Invalid_argument
      else if bc_blocks c a = None then Inl Out_of_range else Inr (), c')
    \<and> sees c (if length b = bc_block_size c \<and> bc_blocks c a \<noteq> None then (bc_blocks c)(a \<mapsto> b) else bc_blocks c) c'"
proof (cases "length b = bc_block_size c \<and> bd_contains a (bc_device c)")
  case True
  let ?c = "bc_stats_update (bs_write_count_update (\<lambda>n. n + 1)) c"
  from True ok obtain i d where run: "find_or_allocate_for_write a ?c = (Inr i, d)" and inv: "cache_inv {i} d"
    and geom: "bc_geometry d = bc_geometry c" and idx: "bc_index_by_block d a = Some i"
    and view: "\<And>x. bd_contains x (bc_device c) \<Longrightarrow> x \<noteq> a \<Longrightarrow> cache_view d x = cache_view c x"
    using find_or_allocate_for_write_spec [of ?c a] by auto
  let ?c' = "set_entry i (ce_dirty_update (\<lambda>_. True)) (set_block_span i b d)"
  have i: "i < length (bc_entries d)" using cache_invD(4) [OF inv] idx by simp
  have len: "length b = bc_block_size d" using True geom by simp
  have "cache_inv {i} (set_block_span i b d)" by (rule cache_inv_set_block_span [OF inv i len]) auto
  then have "cache_ok ?c'" by (rule cache_inv_set_entry) (use i in auto)
  then have "sees c ((bc_blocks c)(a \<mapsto> b)) ?c'"
    by (rule sees_update) (use True geom view in \<open>simp_all add: cache_view_set_block_span [OF inv idx len]\<close>)
  with True run show ?thesis
    by (simp add: bc_write_block_def op_simps bc_validate_block_span_def validate_device_address_def bc_blocks_def
        record_runs)
next
  case False
  with ok show ?thesis
    by (auto simp: bc_write_block_def op_simps bc_validate_block_span_def validate_device_address_def bc_blocks_def
        sees_def)
qed

section \<open>Flushing\<close>

lemma sees_flushed:
  assumes "cache_ok c" and "i < length (bc_entries c)"
  shows "sees c (bc_blocks c) (flushed i c)"
  by (rule sees_cong) (use assms in \<open>simp_all add: cache_inv_flushed cache_view_flushed\<close>)

lemma sees_trans: "sees c m d \<Longrightarrow> sees d m' e \<Longrightarrow> sees c m' e"
  by (simp add: sees_def)

lemma flush_block_spec:
  assumes ok: "cache_ok c"
  shows "\<exists>c'. flush_block a c = (if bc_blocks c a = None then Inl Out_of_range else Inr (), c')
    \<and> sees c (bc_blocks c) c' \<and> (\<forall>b. bc_blocks c a = Some b \<longrightarrow> dev_blocks (bc_device c') a = Some b)"
proof (cases "bd_contains a (bc_device c)")
  case inside: True
  show ?thesis
  proof (cases "bc_index_by_block c a")
    case None
    with inside ok show ?thesis
      by (auto simp: flush_block_def op_simps validate_device_address_def bc_blocks_def sees_def dev_blocks_def
          cache_view_def)
  next
    case (Some i)
    then have i: "i < length (bc_entries c)" "ce_valid (bc_entries c ! i)" "ce_address (bc_entries c ! i) = a"
      using cache_invD(4) [OF ok] by simp_all
    have "dev_block a (bc_device (flushed i c)) = cache_view c a"
      using cache_invD(6) [OF ok i(1,2)] i Some by (auto simp: dev_block_flushed [OF ok i(1) inside] cache_view_def)
    with inside Some show ?thesis
      using sees_flushed [OF ok i(1)] flush_entry_run [OF ok i(1)]
      by (simp add: flush_block_def op_simps validate_device_address_def bc_blocks_def dev_blocks_def)
  qed
next
  case False
  with ok show ?thesis
    by (auto simp: flush_block_def op_simps validate_device_address_def bc_blocks_def sees_def)
qed

text \<open>The entries that a partial flush has written back are clean.\<close>

lemma flush_entries_spec:
  assumes "cache_ok c" and "set is \<subseteq> {..<length (bc_entries c)}"
  shows "\<exists>c'. for_each flush_entry is c = (Inr (), c') \<and> sees c (bc_blocks c) c'
    \<and> bc_index_by_block c' = bc_index_by_block c \<and> length (bc_entries c') = length (bc_entries c)
    \<and> (\<forall>j < length (bc_entries c). ce_valid (bc_entries c' ! j) = ce_valid (bc_entries c ! j)
        \<and> (ce_dirty (bc_entries c' ! j) \<longrightarrow> ce_dirty (bc_entries c ! j))
        \<and> (j \<in> set is \<longrightarrow> ce_valid (bc_entries c ! j) \<longrightarrow> \<not> ce_dirty (bc_entries c' ! j)))"
  using assms
proof (induction "is" arbitrary: c)
  case Nil
  then show ?case by (simp add: op_simps sees_def)
next
  case (Cons i "is")
  then have i: "i < length (bc_entries c)" by simp
  note seen = sees_flushed [OF Cons.prems(1) i]
  then have ok: "cache_ok (flushed i c)" by (simp add: sees_def)
  obtain c' where c': "for_each flush_entry is (flushed i c) = (Inr (), c')"
    "sees (flushed i c) (bc_blocks (flushed i c)) c'"
    "bc_index_by_block c' = bc_index_by_block c" "length (bc_entries c') = length (bc_entries c)"
    "\<forall>j < length (bc_entries c). ce_valid (bc_entries c' ! j) = ce_valid (bc_entries (flushed i c) ! j)
      \<and> (ce_dirty (bc_entries c' ! j) \<longrightarrow> ce_dirty (bc_entries (flushed i c) ! j))
      \<and> (j \<in> set is \<longrightarrow> ce_valid (bc_entries (flushed i c) ! j) \<longrightarrow> \<not> ce_dirty (bc_entries c' ! j))"
    using Cons.IH [OF ok] Cons.prems(2) by auto
  have "sees c (bc_blocks c) c'"
    using sees_trans [OF seen c'(2)] seen by (simp add: sees_def)
  moreover have "ce_valid (bc_entries c' ! j) = ce_valid (bc_entries c ! j)
        \<and> (ce_dirty (bc_entries c' ! j) \<longrightarrow> ce_dirty (bc_entries c ! j))
        \<and> (j \<in> set (i # is) \<longrightarrow> ce_valid (bc_entries c ! j) \<longrightarrow> \<not> ce_dirty (bc_entries c' ! j))"
    if "j < length (bc_entries c)" for j
    using c'(5) that by (auto simp: nth_flushed split: if_splits)
  ultimately show ?case
    using flush_entry_run [OF Cons.prems(1) i] c'(1,3,4) by (simp add: op_simps)
qed

lemma flush_all_spec:
  assumes ok: "cache_ok c"
  obtains c' where "flush_all c = (Inr (), c')" and "sees c (bc_blocks c) c'"
    and "dev_blocks (bc_device c') = bc_blocks c" and "dirty_count c' = 0"
proof -
  obtain c' where c': "for_each flush_entry [0..<length (bc_entries c)] c = (Inr (), c')"
    "sees c (bc_blocks c) c'" "length (bc_entries c') = length (bc_entries c)"
    and clean: "\<forall>j < length (bc_entries c). ce_valid (bc_entries c' ! j) \<longrightarrow> \<not> ce_dirty (bc_entries c' ! j)"
    using flush_entries_spec [OF ok, of "[0..<length (bc_entries c)]"] by (auto simp: atLeast0LessThan)
  from c'(2) have inv: "cache_ok c'" by (simp add: sees_def)
  have "cache_view c' x = dev_block x (bc_device c')" for x
    using cache_invD(4,6) [OF inv] clean c'(3)
    by (auto simp: cache_view_def split: option.splits)
  then have "dev_blocks (bc_device c') = bc_blocks c'" by (simp add: dev_blocks_def bc_blocks_def fun_eq_iff)
  moreover have "dirty_count c' = 0"
    using clean c'(3) by (auto simp: dirty_count_def filter_empty_conv in_set_conv_nth)
  ultimately show thesis using c' by (intro that [of c']) (simp_all add: flush_all_def op_simps sees_def)
qed

lemma bc_clear_spec:
  assumes ok: "cache_ok c"
  obtains c' where "bc_clear c = (Inr (), c')" and "sees c (bc_blocks c) c'"
    and "dev_blocks (bc_device c') = bc_blocks c" and "bc_valid_count c' = 0" and "\<And>a. \<not> bc_contains a c'"
proof -
  from ok obtain d where d: "flush_all c = (Inr (), d)" "sees c (bc_blocks c) d"
    "dev_blocks (bc_device d) = bc_blocks c" by (rule flush_all_spec)
  let ?c' = "d\<lparr>bc_entries := map (\<lambda>_. empty_entry) (bc_entries d), bc_index_by_block := Map.empty,
    bc_access_tick := 0, bc_valid_count := 0\<rparr>"
  from d(2) have inv: "cache_ok d" and geom: "bc_geometry d = bc_geometry c" by (simp_all add: sees_def)
  have "cache_ok ?c'"
    using cache_invD(1-3) [OF inv] by (auto simp: cache_inv_def empty_entry_def filter_empty_conv)
  moreover have "bc_blocks ?c' = dev_blocks (bc_device d)"
    by (simp add: bc_blocks_def dev_blocks_def cache_view_def fun_eq_iff)
  ultimately show thesis
    using d geom by (intro that [of ?c']) (simp_all add: bc_clear_def op_simps sees_def bc_contains_def)
qed

lemma BufferCache_spec:
  assumes d: "dev_ok d" and c: "BufferCache d n = Inr c"
  shows "cache_ok c" and "bc_blocks c = dev_blocks d" and "bc_geometry c = bd_geometry d"
    and "length (bc_entries c) = unat n"
proof -
  from c obtain k where k: "checked_cache_storage_size n (bd_block_size d) = Inr k"
    and c': "c = \<lparr>bc_device = d, bc_entries = replicate (unat n) empty_entry,
        bc_block_storage = replicate k 0, bc_index_by_block = Map.empty,
        bc_stats = initial_cache_stats, bc_access_tick = 0, bc_valid_count = 0\<rparr>"
    by (auto simp: BufferCache_def sbind_def split: sum.splits)
  from d have pos: "bd_block_size d \<noteq> 0" by (auto simp: dev_ok_def)
  with k have n: "checked_capacity_bytes (bd_block_size d) n = Inr (bd_block_size d * n)" "k = unat (n * bd_block_size d)"
    by (auto simp: checked_cache_storage_size_def checked_capacity_bytes_def split: if_splits)
  from checked_capacity_Inr [OF n(1)] have "k = unat n * unat (bd_block_size d)" "0 < n"
    by (auto simp: n(2) unat_mult_exact mult.commute)
  with d show "cache_ok c" by (auto simp: c' cache_inv_def empty_entry_def unat_eq_zero)
  show "bc_blocks c = dev_blocks d" "bc_geometry c = bd_geometry d" "length (bc_entries c) = unat n"
    by (simp_all add: c' bc_blocks_def dev_blocks_def cache_view_def fun_eq_iff)
qed

interpretation bcs: block_store cache_ok bc_geometry bc_blocks bc_read_block bc_write_block
proof (unfold_locales, goal_cases)
  case (1 s a)
  then show ?case by (simp add: bc_blocks_def bd_contains_def)
next
  case (2 s a b)
  then show ?case by (auto simp: bc_blocks_def length_cache_view split: if_splits)
next
  case (3 s a n)
  then show ?case using bc_read_block_spec by (simp add: sees_def)
next
  case (4 s a b)
  then show ?case using bc_write_block_spec [of s a b] by (simp add: sees_def)
qed

section \<open>The cache is transparent\<close>

text \<open>
  A client's requests, served by the cache and served by the bare device, for which the flushing requests
  are no more than their address check. The exception of a request is a response like any other and does
  not end the sequence.
\<close>

datatype block_request =
    Read_request qword nat
  | Write_request qword "byte list"
  | Flush_request qword
  | Flush_all_request
  | Clear_request

fun serve_cached :: "block_request \<Rightarrow> (buffer_cache, byte list) op" where
  "serve_cached (Read_request a n) = bc_read_block a n"
| "serve_cached (Write_request a b) = sq (bc_write_block a b) (ret [])"
| "serve_cached (Flush_request a) = sq (flush_block a) (ret [])"
| "serve_cached Flush_all_request = sq flush_all (ret [])"
| "serve_cached Clear_request = sq bc_clear (ret [])"

fun serve_direct :: "block_request \<Rightarrow> (memory_block_device, byte list) op" where
  "serve_direct (Read_request a n) = bd_read_block a n"
| "serve_direct (Write_request a b) = sq (bd_write_block a b) (ret [])"
| "serve_direct (Flush_request a) = bnd (gets (bd_contains a)) (\<lambda>inside. sq (require inside Out_of_range) (ret []))"
| "serve_direct Flush_all_request = ret []"
| "serve_direct Clear_request = ret []"

primrec responses :: "(block_request \<Rightarrow> ('s, byte list) op) \<Rightarrow> block_request list \<Rightarrow> 's \<Rightarrow> (exn + byte list) list \<times> 's" where
  "responses serve [] s = ([], s)"
| "responses serve (r # rs) s =
    (case serve r s of (x, s') \<Rightarrow> case responses serve rs s' of (xs, s'') \<Rightarrow> (x # xs, s''))"

definition cache_mirrors :: "buffer_cache \<Rightarrow> memory_block_device \<Rightarrow> bool" where
  "cache_mirrors c d \<longleftrightarrow> cache_ok c \<and> dev_ok d \<and> bc_geometry c = bd_geometry d \<and> bc_blocks c = dev_blocks d"

lemma cache_mirrors_sees:
  "cache_mirrors c d \<Longrightarrow> sees c (bc_blocks c) c' \<Longrightarrow> cache_mirrors c' d"
  by (simp add: cache_mirrors_def sees_def)

lemma sq_ret: "op s = (r, s') \<Longrightarrow> sq op (ret x) s = (sbind r (\<lambda>_. Inr x), s')"
  by (simp add: op_simps sbind_def split: sum.split)

lemma serve_mirrors:
  assumes mirror: "cache_mirrors c d"
  shows "\<exists>x c' d'. serve_cached r c = (x, c') \<and> serve_direct r d = (x, d') \<and> cache_mirrors c' d'"
proof -
  from mirror have ok: "cache_ok c" and d: "dev_ok d" and geom: "bc_geometry c = bd_geometry d"
    and eq: "bc_blocks c = dev_blocks d" by (simp_all add: cache_mirrors_def)
  note keep = cache_mirrors_sees [OF mirror]
  show ?thesis
  proof (cases r)
    case (Read_request a n)
    with bc_read_block_spec [OF ok, of a n] dev.read_law [OF d, of a n] geom eq show ?thesis
      by (auto simp: cache_mirrors_def sees_def)
  next
    case (Write_request a b)
    with bc_write_block_spec [OF ok, of a b] dev.write_law [OF d, of a b] geom eq show ?thesis
      by (auto simp: cache_mirrors_def sees_def sq_ret)
  next
    case (Flush_request a)
    with flush_block_spec [OF ok, of a] keep d eq show ?thesis
      by (auto simp: sq_ret op_simps sbind_def dev_blocks_def)
  next
    case Flush_all_request
    from ok obtain c' where "flush_all c = (Inr (), c')" "sees c (bc_blocks c) c'" by (rule flush_all_spec)
    with Flush_all_request keep show ?thesis by (simp add: op_simps)
  next
    case Clear_request
    from ok obtain c' where "bc_clear c = (Inr (), c')" "sees c (bc_blocks c) c'" by (rule bc_clear_spec)
    with Clear_request keep show ?thesis by (simp add: op_simps)
  qed
qed

lemma responses_mirror:
  assumes "cache_mirrors c d"
  shows "\<exists>xs c' d'. responses serve_cached rs c = (xs, c') \<and> responses serve_direct rs d = (xs, d') \<and> cache_mirrors c' d'"
  using assms
proof (induction rs arbitrary: c d)
  case (Cons r rs)
  from serve_mirrors [OF Cons.prems, of r] obtain x c1 d1 where
    "serve_cached r c = (x, c1)" "serve_direct r d = (x, d1)" "cache_mirrors c1 d1" by blast
  with Cons.IH [of c1 d1] show ?case by force
qed simp

text \<open>
  C30: The buffer cache is transparent. Built on any device and with any capacity, it answers every sequence of
  reads, writes, flushes and clears, refused ones included, exactly as the bare device answers it; and
  writing the cache back at the end leaves on its device exactly the blocks that the bare device has then.
\<close>

theorem buffer_cache_transparent:
  assumes "dev_ok d" and "BufferCache d n = Inr c"
    and "responses serve_cached rs c = (xs, c')" and "responses serve_direct rs d = (ys, d')"
  shows "xs = ys \<and> (\<exists>c''. flush_all c' = (Inr (), c'') \<and> dirty_count c'' = 0
    \<and> dev_blocks (bc_device c'') = dev_blocks d')"
proof -
  have "cache_mirrors c d" using assms(1) BufferCache_spec [OF assms(1,2)] by (simp add: cache_mirrors_def)
  from responses_mirror [OF this, of rs] assms(3,4) have eq: "xs = ys" and mirror: "cache_mirrors c' d'" by auto
  from mirror obtain c'' where "flush_all c' = (Inr (), c'')" "dev_blocks (bc_device c'') = bc_blocks c'"
    "dirty_count c'' = 0" using flush_all_spec [of c'] by (auto simp: cache_mirrors_def)
  with eq mirror show ?thesis by (auto simp: cache_mirrors_def)
qed

definition sample_requests :: "block_request list" where
  "sample_requests = [Write_request 1 [7, 8], Read_request 0 2, Read_request 1 2, Flush_request 9, Read_request 2 3]"

text \<open>Witness: a one-entry cache, which has to write the first block back before it can answer the next request.\<close>

theorem buffer_cache_transparent_witness:
  "\<exists>c c' d'. BufferCache sample_device 1 = Inr c
    \<and> responses serve_cached sample_requests c
        = ([Inr [], Inr [1, 2], Inr [7, 8], Inl Out_of_range, Inl Invalid_argument], c')
    \<and> responses serve_direct sample_requests sample_device
        = ([Inr [], Inr [1, 2], Inr [7, 8], Inl Out_of_range, Inl Invalid_argument], d')"
proof -
  obtain c where c: "BufferCache sample_device 1 = Inr c"
    by (auto simp: BufferCache_def checked_cache_storage_size_def sbind_def sample_device_facts)
  obtain xs c' where xs: "responses serve_cached sample_requests c = (xs, c')" by fastforce
  have "\<exists>d'. responses serve_direct sample_requests sample_device =
      ([Inr [], Inr [1, 2], Inr [7, 8], Inl Out_of_range, Inl Invalid_argument], d')"
    by (simp add: sample_requests_def sample_device_def op_simps bd_read_block_def bd_write_block_def
        bd_validate_block_span_def validate_block_range_def byte_offset_for_def subspan_def overwrite_def
        bd_contains_def word_le_def)
  then obtain d' where ys: "responses serve_direct sample_requests sample_device =
      ([Inr [], Inr [1, 2], Inr [7, 8], Inl Out_of_range, Inl Invalid_argument], d')" ..
  from buffer_cache_transparent [OF sample_device_facts(1) c xs ys] xs ys c show ?thesis by auto
qed

section \<open>Least recently used\<close>

lemma read_miss_index:
  assumes ok: "cache_ok c" and miss: "bc_index_by_block c a = None" and a: "bd_contains a (bc_device c)"
    and run: "bc_read_block a (bc_block_size c) c = (r, c')"
  shows "bc_index_by_block c' = (let e = bc_entries c ! victim_index c in
    if ce_valid e then (bc_index_by_block c)(ce_address e := None) else bc_index_by_block c)(a \<mapsto> victim_index c)"
proof -
  let ?i = "victim_index c"
  obtain d where d: "allocate_entry a (bc_stats_update (bs_miss_count_update (\<lambda>n. n + 1)) c) = (Inr ?i, d)"
    and alloc: "allocated_to ?i a c d" by (rule cache_miss [OF ok miss a])
  note D = allocated_toD [OF alloc a]
  have "bc_index_by_block c' = bc_index_by_block d"
    using run miss a d D(5,6)
    by (auto simp: bc_read_block_def op_simps bc_validate_block_span_def validate_device_address_def
        find_or_allocate_for_read_def record_runs touch_run on_device_def bd_read_block_run)
  with alloc show ?thesis by (simp add: allocated_to_def Let_def)
qed

text \<open>
  Replacement. Reading a block that is not cached evicts nothing while an entry is free; when the cache is
  full it evicts exactly one block, and every other block was used no less recently than that one. The block
  just read is cached afterwards, and the count of valid entries is exact.
\<close>

lemma lru_replacement:
  assumes "cache_ok c" and "bd_contains a (bc_device c)" and "\<not> bc_contains a c"
    and "bc_read_block a (bc_block_size c) c = (r, c')"
  shows "bc_contains a c' \<and> bc_valid_count c' = length (filter ce_valid (bc_entries c'))
    \<and> (if bc_valid_count c < length (bc_entries c)
       then dom (bc_index_by_block c') = insert a (dom (bc_index_by_block c))
       else \<exists>v i. bc_index_by_block c v = Some i
         \<and> dom (bc_index_by_block c') = insert a (dom (bc_index_by_block c) - {v})
         \<and> (\<forall>x j. bc_index_by_block c x = Some j \<longrightarrow>
              ce_last_used_tick (bc_entries c ! i) \<le> ce_last_used_tick (bc_entries c ! j)))"
proof -
  let ?i = "victim_index c"
  let ?e = "bc_entries c ! ?i"
  from assms(3) have miss: "bc_index_by_block c a = None" by (simp add: bc_contains_def)
  note idx = read_miss_index [OF assms(1) miss assms(2,4)]
  note D = cache_invD [OF assms(1)]
  note V = victim_index_spec [OF D(2)]
  have inv: "cache_ok c'" using bc_read_block_spec [OF assms(1), of a "bc_block_size c"] assms(4) by (auto simp: sees_def)
  have full: "ce_valid ?e \<longleftrightarrow> \<not> bc_valid_count c < length (bc_entries c)"
  proof
    assume "ce_valid ?e"
    then have "filter ce_valid (bc_entries c) = bc_entries c"
      using V(2) by (auto simp: filter_id_conv in_set_conv_nth)
    then show "\<not> bc_valid_count c < length (bc_entries c)" by (simp add: D(7))
  next
    assume "\<not> bc_valid_count c < length (bc_entries c)"
    then show "ce_valid ?e" using V(1) D(7) length_filter_less [of ?e "bc_entries c" ce_valid] by auto
  qed
  have "ce_valid ?e \<Longrightarrow> bc_index_by_block c (ce_address ?e) = Some ?i" using D(4) V(1) by simp
  moreover have "ce_last_used_tick ?e \<le> ce_last_used_tick (bc_entries c ! j)"
    if "ce_valid ?e" "bc_index_by_block c x = Some j" for x j
    using V(2) [of j] D(4) [of x j] that by simp
  moreover have "dom (bc_index_by_block c') = insert a (if ce_valid ?e then dom (bc_index_by_block c) - {ce_address ?e}
      else dom (bc_index_by_block c))"
    by (auto simp: idx Let_def)
  ultimately show ?thesis
    using cache_invD(7) [OF inv] full by (auto simp: bc_contains_def idx)
qed

definition sample_cache :: buffer_cache where
  "sample_cache = \<lparr>bc_device = sample_device,
     bc_entries = [\<lparr>ce_address = 0, ce_last_used_tick = 2, ce_valid = True, ce_dirty = False\<rparr>,
                   \<lparr>ce_address = 2, ce_last_used_tick = 1, ce_valid = True, ce_dirty = True\<rparr>],
     bc_block_storage = [1, 2, 9, 9], bc_index_by_block = [0 \<mapsto> 0, 2 \<mapsto> 1],
     bc_stats = initial_cache_stats, bc_access_tick = 2, bc_valid_count = 2\<rparr>"

lemma sample_cache_ok: "cache_ok sample_cache"
  by (auto simp: cache_inv_def sample_cache_def sample_device_facts less_Suc_eq nth_Cons' bd_contains_def
      block_span_def dev_block_def subspan_def split: if_splits)

text \<open>Witness: the full two-entry cache gives up block 2, which was used before block 0.\<close>

lemma lru_replacement_witness:
  "\<exists>r c'. bc_read_block 1 2 sample_cache = (r, c') \<and> dom (bc_index_by_block c') = {0, 1}"
proof -
  obtain r c' where run: "bc_read_block 1 (bc_block_size sample_cache) sample_cache = (r, c')" by fastforce
  have miss: "\<not> bc_contains 1 sample_cache" "bd_contains 1 (bc_device sample_cache)"
    and full: "\<not> bc_valid_count sample_cache < length (bc_entries sample_cache)"
    and cached: "bc_index_by_block sample_cache = [0 \<mapsto> 0, 2 \<mapsto> 1]"
    by (simp_all add: bc_contains_def bd_contains_def sample_cache_def sample_device_facts)
  from lru_replacement [OF sample_cache_ok miss(2,1) run] full obtain v i where
    v: "bc_index_by_block sample_cache v = Some i"
    "dom (bc_index_by_block c') = insert 1 (dom (bc_index_by_block sample_cache) - {v})"
    "ce_last_used_tick (bc_entries sample_cache ! i) \<le> ce_last_used_tick (bc_entries sample_cache ! 1)"
    by (metis (no_types, lifting) cached fun_upd_same)
  then have "v = 2" by (auto simp: cached sample_cache_def word_le_def split: if_splits)
  with v(2) cached have "dom (bc_index_by_block c') = {0, 1}" by auto
  with run show ?thesis by (auto simp: sample_cache_def sample_device_facts)
qed

end
