(* ===== verification/SimpleFs.thy ===== *)
theory SimpleFs
  imports PhysMem BufCache
begin

text \<open>
  The on-disk file system of \<^verbatim>\<open>os/fs/simple_fs.cpp\<close>. Block 0 is the superblock, then come the inode table, the
  bitmap of the data blocks and the data blocks. A \<^verbatim>\<open>SimpleFileSystem\<close> object is a reference to the buffer cache
  and a copy of the layout that its constructor read, so an operation takes the layout \<open>fs\<close> and works on the
  cache. Names are strings; the bytes of a name are the codes of its characters.

  Loop counters that the sources keep in 64 bits are natural numbers where the loop bounds exclude a
  wrap-around; the sums that can wrap (the layout check, block numbers) are words.
\<close>

section \<open>Data\<close>

definition SIMPLE_FS_DEFAULT_INODE_COUNT :: dword where "SIMPLE_FS_DEFAULT_INODE_COUNT = 64"

definition SIMPLE_FS_ROOT_INODE_VALUE :: dword where "SIMPLE_FS_ROOT_INODE_VALUE = 1"

definition SIMPLE_FS_INVALID_INODE_VALUE :: dword where "SIMPLE_FS_INVALID_INODE_VALUE = 0"

definition SIMPLE_FS_MAX_NAME_LENGTH :: nat where "SIMPLE_FS_MAX_NAME_LENGTH = 56"

definition SIMPLE_FS_DIRECT_BLOCK_COUNT :: nat where "SIMPLE_FS_DIRECT_BLOCK_COUNT = 6"

definition SIMPLE_FS_MAGIC :: dword where "SIMPLE_FS_MAGIC = 0x53464E4D"

definition SIMPLE_FS_VERSION :: "16 word" where "SIMPLE_FS_VERSION = 1"

definition SIMPLE_FS_MIN_BLOCK_SIZE_BYTES :: qword where "SIMPLE_FS_MIN_BLOCK_SIZE_BYTES = 128"

definition SIMPLE_FS_INODE_RECORD_SIZE_BYTES :: nat where "SIMPLE_FS_INODE_RECORD_SIZE_BYTES = 64"

definition SIMPLE_FS_DIRECTORY_ENTRY_SIZE_BYTES :: nat where "SIMPLE_FS_DIRECTORY_ENTRY_SIZE_BYTES = 64"

definition SIMPLE_FS_DIRECTORY_ENTRY_NAME_OFFSET :: nat where "SIMPLE_FS_DIRECTORY_ENTRY_NAME_OFFSET = 8"

definition SIMPLE_FS_DISK_KIND_FILE :: byte where "SIMPLE_FS_DISK_KIND_FILE = 1"

definition SIMPLE_FS_DISK_KIND_DIRECTORY :: byte where "SIMPLE_FS_DISK_KIND_DIRECTORY = 2"

definition SIMPLE_FS_DISK_ALLOCATED :: byte where "SIMPLE_FS_DISK_ALLOCATED = 1"

definition SIMPLE_FS_DISK_FREE :: byte where "SIMPLE_FS_DISK_FREE = 0"

definition SIMPLE_FS_DEFAULT_LINK_COUNT :: "16 word" where "SIMPLE_FS_DEFAULT_LINK_COUNT = 1"

definition SIMPLE_FS_EMPTY_BLOCK :: qword where "SIMPLE_FS_EMPTY_BLOCK = 0"

definition SIMPLE_FS_BITS_PER_BYTE :: nat where "SIMPLE_FS_BITS_PER_BYTE = 8"

definition SIMPLE_FS_PATH_SEPARATOR :: char where "SIMPLE_FS_PATH_SEPARATOR = CHR ''/''"

lemmas fs_constants = SIMPLE_FS_ROOT_INODE_VALUE_def SIMPLE_FS_INVALID_INODE_VALUE_def
  SIMPLE_FS_MAX_NAME_LENGTH_def SIMPLE_FS_DIRECT_BLOCK_COUNT_def SIMPLE_FS_MAGIC_def SIMPLE_FS_VERSION_def
  SIMPLE_FS_MIN_BLOCK_SIZE_BYTES_def SIMPLE_FS_INODE_RECORD_SIZE_BYTES_def
  SIMPLE_FS_DIRECTORY_ENTRY_SIZE_BYTES_def SIMPLE_FS_DIRECTORY_ENTRY_NAME_OFFSET_def
  SIMPLE_FS_DISK_KIND_FILE_def SIMPLE_FS_DISK_KIND_DIRECTORY_def SIMPLE_FS_DISK_ALLOCATED_def
  SIMPLE_FS_DISK_FREE_def SIMPLE_FS_DEFAULT_LINK_COUNT_def SIMPLE_FS_EMPTY_BLOCK_def
  SIMPLE_FS_BITS_PER_BYTE_def SIMPLE_FS_PATH_SEPARATOR_def

text \<open>The offsets of the fields of a superblock, of an inode record and of a directory entry.\<close>

definition SUPERBLOCK_MAGIC_OFFSET :: nat where "SUPERBLOCK_MAGIC_OFFSET = 0"
definition SUPERBLOCK_VERSION_OFFSET :: nat where "SUPERBLOCK_VERSION_OFFSET = 4"
definition SUPERBLOCK_BLOCK_SIZE_OFFSET :: nat where "SUPERBLOCK_BLOCK_SIZE_OFFSET = 8"
definition SUPERBLOCK_BLOCK_COUNT_OFFSET :: nat where "SUPERBLOCK_BLOCK_COUNT_OFFSET = 16"
definition SUPERBLOCK_INODE_TABLE_START_OFFSET :: nat where "SUPERBLOCK_INODE_TABLE_START_OFFSET = 24"
definition SUPERBLOCK_INODE_TABLE_BLOCK_COUNT_OFFSET :: nat where "SUPERBLOCK_INODE_TABLE_BLOCK_COUNT_OFFSET = 32"
definition SUPERBLOCK_INODE_COUNT_OFFSET :: nat where "SUPERBLOCK_INODE_COUNT_OFFSET = 36"
definition SUPERBLOCK_DATA_BITMAP_START_OFFSET :: nat where "SUPERBLOCK_DATA_BITMAP_START_OFFSET = 40"
definition SUPERBLOCK_DATA_BITMAP_BLOCK_COUNT_OFFSET :: nat where "SUPERBLOCK_DATA_BITMAP_BLOCK_COUNT_OFFSET = 48"
definition SUPERBLOCK_DATA_START_OFFSET :: nat where "SUPERBLOCK_DATA_START_OFFSET = 56"
definition SUPERBLOCK_DATA_BLOCK_COUNT_OFFSET :: nat where "SUPERBLOCK_DATA_BLOCK_COUNT_OFFSET = 64"
definition SUPERBLOCK_ROOT_INODE_OFFSET :: nat where "SUPERBLOCK_ROOT_INODE_OFFSET = 72"
definition INODE_ALLOCATED_OFFSET :: nat where "INODE_ALLOCATED_OFFSET = 0"
definition INODE_KIND_OFFSET :: nat where "INODE_KIND_OFFSET = 1"
definition INODE_LINK_COUNT_OFFSET :: nat where "INODE_LINK_COUNT_OFFSET = 2"
definition INODE_SIZE_OFFSET :: nat where "INODE_SIZE_OFFSET = 8"
definition INODE_DIRECT_BLOCKS_OFFSET :: nat where "INODE_DIRECT_BLOCKS_OFFSET = 16"
definition INODE_DIRECT_BLOCK_STRIDE_BYTES :: nat where "INODE_DIRECT_BLOCK_STRIDE_BYTES = 8"
definition DIRENT_ACTIVE_OFFSET :: nat where "DIRENT_ACTIVE_OFFSET = 0"
definition DIRENT_KIND_OFFSET :: nat where "DIRENT_KIND_OFFSET = 1"
definition DIRENT_NAME_LENGTH_OFFSET :: nat where "DIRENT_NAME_LENGTH_OFFSET = 2"
definition DIRENT_INODE_OFFSET :: nat where "DIRENT_INODE_OFFSET = 4"

lemmas superblock_offsets = SUPERBLOCK_MAGIC_OFFSET_def SUPERBLOCK_VERSION_OFFSET_def
  SUPERBLOCK_BLOCK_SIZE_OFFSET_def SUPERBLOCK_BLOCK_COUNT_OFFSET_def SUPERBLOCK_INODE_TABLE_START_OFFSET_def
  SUPERBLOCK_INODE_TABLE_BLOCK_COUNT_OFFSET_def SUPERBLOCK_INODE_COUNT_OFFSET_def
  SUPERBLOCK_DATA_BITMAP_START_OFFSET_def SUPERBLOCK_DATA_BITMAP_BLOCK_COUNT_OFFSET_def
  SUPERBLOCK_DATA_START_OFFSET_def SUPERBLOCK_DATA_BLOCK_COUNT_OFFSET_def SUPERBLOCK_ROOT_INODE_OFFSET_def

lemmas inode_offsets = INODE_ALLOCATED_OFFSET_def INODE_KIND_OFFSET_def INODE_LINK_COUNT_OFFSET_def
  INODE_SIZE_OFFSET_def INODE_DIRECT_BLOCKS_OFFSET_def INODE_DIRECT_BLOCK_STRIDE_BYTES_def

lemmas dirent_offsets = DIRENT_ACTIVE_OFFSET_def DIRENT_KIND_OFFSET_def DIRENT_NAME_LENGTH_OFFSET_def
  DIRENT_INODE_OFFSET_def

datatype simple_fs_node_kind = FILE | DIRECTORY | NODE_KIND_COUNT

type_synonym inode_number = dword

definition is_valid_inode :: "inode_number \<Rightarrow> bool" where
  "is_valid_inode n \<longleftrightarrow> n \<noteq> SIMPLE_FS_INVALID_INODE_VALUE"

record simple_fs_layout =
  fs_block_size_bytes :: qword
  fs_block_count :: qword
  fs_inode_table_start :: qword
  fs_inode_table_block_count :: dword
  fs_inode_count :: dword
  fs_data_bitmap_start :: qword
  fs_data_bitmap_block_count :: dword
  fs_data_start :: qword
  fs_data_block_count :: qword
  fs_root_inode :: inode_number

record inode_metadata =
  im_number :: inode_number
  im_kind :: simple_fs_node_kind
  im_size_bytes :: qword

record directory_entry =
  de_name :: string
  de_inode :: inode_number
  de_kind :: simple_fs_node_kind

record inode_record =
  ir_number :: inode_number
  ir_kind :: simple_fs_node_kind
  ir_size_bytes :: qword
  ir_direct_blocks :: "qword list"
  ir_allocated :: bool

definition empty_inode_record :: inode_record where
  "empty_inode_record = \<lparr>ir_number = SIMPLE_FS_INVALID_INODE_VALUE, ir_kind = NODE_KIND_COUNT, ir_size_bytes = 0,
     ir_direct_blocks = replicate SIMPLE_FS_DIRECT_BLOCK_COUNT 0, ir_allocated = False\<rparr>"

definition SimpleFsFormatOptions :: "dword \<Rightarrow> exn + dword" where
  "SimpleFsFormatOptions inode_count =
    (if inode_count < SIMPLE_FS_ROOT_INODE_VALUE then Inl Invalid_argument else Inr inode_count)"

section \<open>Bytes\<close>

definition ceil_div_u64 :: "qword \<Rightarrow> qword \<Rightarrow> exn + qword" where
  "ceil_div_u64 value divisor =
    (if divisor = 0 then Inl Invalid_argument
     else if value = 0 then Inr 0
     else Inr ((value - 1) div divisor + 1))"

definition make_zero_block :: "qword \<Rightarrow> byte list" where
  "make_zero_block block_size = replicate (unat block_size) 0"

definition fs_write_u8 :: "nat \<Rightarrow> byte \<Rightarrow> byte list \<Rightarrow> byte list" where
  "fs_write_u8 offset value bytes = bytes[offset := value]"

definition fs_read_u8 :: "byte list \<Rightarrow> nat \<Rightarrow> byte" where
  "fs_read_u8 bytes offset = bytes ! offset"

definition write_u16_le :: "nat \<Rightarrow> 16 word \<Rightarrow> byte list \<Rightarrow> byte list" where
  "write_u16_le offset value bytes = write_bytes_le bytes offset 2 (ucast value)"

definition read_u16_le :: "byte list \<Rightarrow> nat \<Rightarrow> 16 word" where
  "read_u16_le bytes offset = ucast (read_bytes_le bytes offset 2)"

definition write_u32_le :: "nat \<Rightarrow> dword \<Rightarrow> byte list \<Rightarrow> byte list" where
  "write_u32_le offset value bytes = write_bytes_le bytes offset 4 (ucast value)"

definition read_u32_le :: "byte list \<Rightarrow> nat \<Rightarrow> dword" where
  "read_u32_le bytes offset = ucast (read_bytes_le bytes offset 4)"

definition write_u64_le :: "nat \<Rightarrow> qword \<Rightarrow> byte list \<Rightarrow> byte list" where
  "write_u64_le offset value bytes = write_bytes_le bytes offset 8 value"

definition read_u64_le :: "byte list \<Rightarrow> nat \<Rightarrow> qword" where
  "read_u64_le bytes offset = read_bytes_le bytes offset 8"

fun node_kind_to_disk :: "simple_fs_node_kind \<Rightarrow> exn + byte" where
  "node_kind_to_disk FILE = Inr SIMPLE_FS_DISK_KIND_FILE"
| "node_kind_to_disk DIRECTORY = Inr SIMPLE_FS_DISK_KIND_DIRECTORY"
| "node_kind_to_disk NODE_KIND_COUNT = Inl Invalid_argument"

definition node_kind_from_disk :: "byte \<Rightarrow> simple_fs_node_kind" where
  "node_kind_from_disk value =
    (if value = SIMPLE_FS_DISK_KIND_FILE then FILE
     else if value = SIMPLE_FS_DISK_KIND_DIRECTORY then DIRECTORY
     else NODE_KIND_COUNT)"

section \<open>Layout and superblock\<close>

definition checked_inode_table_block_count :: "dword \<Rightarrow> qword \<Rightarrow> exn + dword" where
  "checked_inode_table_block_count inode_count block_size =
    (let inode_table_bytes = ucast inode_count * of_nat SIMPLE_FS_INODE_RECORD_SIZE_BYTES in
     sbind (ceil_div_u64 inode_table_bytes block_size) (\<lambda>block_count.
       if block_count > 0xFFFFFFFF then Inl Length_error else Inr (ucast block_count)))"

definition checked_bitmap_block_count :: "qword \<Rightarrow> qword \<Rightarrow> exn + dword" where
  "checked_bitmap_block_count candidate_block_count block_size =
    (let bits_per_block = block_size * of_nat SIMPLE_FS_BITS_PER_BYTE in
     sbind (ceil_div_u64 candidate_block_count bits_per_block) (\<lambda>block_count.
       if block_count > 0xFFFFFFFF then Inl Length_error else Inr (ucast block_count)))"

definition make_layout :: "block_device_geometry \<Rightarrow> dword \<Rightarrow> exn + simple_fs_layout" where
  "make_layout geometry inode_count =
    (if bg_block_size_bytes geometry < SIMPLE_FS_MIN_BLOCK_SIZE_BYTES then Inl Invalid_argument
     else if bg_block_size_bytes geometry > 0xFFFFFFFF then Inl Invalid_argument
     else
       let block_size = bg_block_size_bytes geometry; block_count = bg_block_count geometry;
           inode_table_start = 1 in
       sbind (checked_inode_table_block_count inode_count block_size) (\<lambda>inode_table_block_count.
       let metadata_without_bitmap = inode_table_start + ucast inode_table_block_count in
       if block_count \<le> metadata_without_bitmap then Inl Length_error
       else
         let candidate_data_blocks = block_count - metadata_without_bitmap in
         sbind (checked_bitmap_block_count candidate_data_blocks block_size) (\<lambda>bitmap_block_count.
         let data_start = metadata_without_bitmap + ucast bitmap_block_count in
         if data_start \<ge> block_count then Inl Length_error
         else Inr \<lparr>fs_block_size_bytes = block_size, fs_block_count = block_count,
             fs_inode_table_start = inode_table_start,
             fs_inode_table_block_count = inode_table_block_count, fs_inode_count = inode_count,
             fs_data_bitmap_start = metadata_without_bitmap,
             fs_data_bitmap_block_count = bitmap_block_count, fs_data_start = data_start,
             fs_data_block_count = block_count - data_start,
             fs_root_inode = SIMPLE_FS_ROOT_INODE_VALUE\<rparr>)))"

definition validate_layout :: "simple_fs_layout \<Rightarrow> block_device_geometry \<Rightarrow> exn + unit" where
  "validate_layout layout geometry =
    (if fs_block_size_bytes layout \<noteq> bg_block_size_bytes geometry \<or> fs_block_count layout \<noteq> bg_block_count geometry
        \<or> fs_block_size_bytes layout < SIMPLE_FS_MIN_BLOCK_SIZE_BYTES
        \<or> fs_inode_count layout < SIMPLE_FS_ROOT_INODE_VALUE
        \<or> \<not> is_valid_inode (fs_root_inode layout) \<or> fs_root_inode layout > fs_inode_count layout
        \<or> fs_inode_table_start layout = 0 \<or> fs_inode_table_block_count layout = 0
        \<or> fs_data_bitmap_block_count layout = 0 \<or> fs_data_block_count layout = 0
     then Inl Runtime_error
     else
       let inode_table_end = fs_inode_table_start layout + ucast (fs_inode_table_block_count layout);
           bitmap_end = fs_data_bitmap_start layout + ucast (fs_data_bitmap_block_count layout);
           data_end = fs_data_start layout + fs_data_block_count layout;
           bitmap_capacity = ucast (fs_data_bitmap_block_count layout) * fs_block_size_bytes layout
             * of_nat SIMPLE_FS_BITS_PER_BYTE in
       if inode_table_end > fs_data_bitmap_start layout \<or> bitmap_end > fs_data_start layout
          \<or> data_end > fs_block_count layout
       then Inl Runtime_error
       else if bitmap_capacity < fs_data_block_count layout then Inl Runtime_error
       else Inr ())"

definition superblock_bytes :: "simple_fs_layout \<Rightarrow> byte list" where
  "superblock_bytes layout =
    (write_u32_le SUPERBLOCK_ROOT_INODE_OFFSET (fs_root_inode layout)
    (write_u64_le SUPERBLOCK_DATA_BLOCK_COUNT_OFFSET (fs_data_block_count layout)
    (write_u64_le SUPERBLOCK_DATA_START_OFFSET (fs_data_start layout)
    (write_u32_le SUPERBLOCK_DATA_BITMAP_BLOCK_COUNT_OFFSET (fs_data_bitmap_block_count layout)
    (write_u64_le SUPERBLOCK_DATA_BITMAP_START_OFFSET (fs_data_bitmap_start layout)
    (write_u32_le SUPERBLOCK_INODE_COUNT_OFFSET (fs_inode_count layout)
    (write_u32_le SUPERBLOCK_INODE_TABLE_BLOCK_COUNT_OFFSET (fs_inode_table_block_count layout)
    (write_u64_le SUPERBLOCK_INODE_TABLE_START_OFFSET (fs_inode_table_start layout)
    (write_u64_le SUPERBLOCK_BLOCK_COUNT_OFFSET (fs_block_count layout)
    (write_u32_le SUPERBLOCK_BLOCK_SIZE_OFFSET (ucast (fs_block_size_bytes layout))
    (write_u16_le SUPERBLOCK_VERSION_OFFSET SIMPLE_FS_VERSION
    (write_u32_le SUPERBLOCK_MAGIC_OFFSET SIMPLE_FS_MAGIC
    (make_zero_block (fs_block_size_bytes layout))))))))))))))"

definition write_superblock :: "simple_fs_layout \<Rightarrow> (buffer_cache, unit) op" where
  "write_superblock layout = bc_write_block 0 (superblock_bytes layout)"

definition parse_superblock :: "byte list \<Rightarrow> exn + simple_fs_layout" where
  "parse_superblock block =
    (if length block < SUPERBLOCK_MAGIC_OFFSET + 4 then Inl Undefined_behaviour
     else if read_u32_le block SUPERBLOCK_MAGIC_OFFSET \<noteq> SIMPLE_FS_MAGIC then Inl Runtime_error
     else if length block < SUPERBLOCK_VERSION_OFFSET + 2 then Inl Undefined_behaviour
     else if read_u16_le block SUPERBLOCK_VERSION_OFFSET \<noteq> SIMPLE_FS_VERSION then Inl Runtime_error
     else if length block < SUPERBLOCK_ROOT_INODE_OFFSET + 4 then Inl Undefined_behaviour
     else Inr \<lparr>fs_block_size_bytes = ucast (read_u32_le block SUPERBLOCK_BLOCK_SIZE_OFFSET),
       fs_block_count = read_u64_le block SUPERBLOCK_BLOCK_COUNT_OFFSET,
       fs_inode_table_start = read_u64_le block SUPERBLOCK_INODE_TABLE_START_OFFSET,
       fs_inode_table_block_count = read_u32_le block SUPERBLOCK_INODE_TABLE_BLOCK_COUNT_OFFSET,
       fs_inode_count = read_u32_le block SUPERBLOCK_INODE_COUNT_OFFSET,
       fs_data_bitmap_start = read_u64_le block SUPERBLOCK_DATA_BITMAP_START_OFFSET,
       fs_data_bitmap_block_count = read_u32_le block SUPERBLOCK_DATA_BITMAP_BLOCK_COUNT_OFFSET,
       fs_data_start = read_u64_le block SUPERBLOCK_DATA_START_OFFSET,
       fs_data_block_count = read_u64_le block SUPERBLOCK_DATA_BLOCK_COUNT_OFFSET,
       fs_root_inode = read_u32_le block SUPERBLOCK_ROOT_INODE_OFFSET\<rparr>)"

definition read_superblock :: "(buffer_cache, simple_fs_layout) op" where
  "read_superblock =
    bnd (gets bc_block_size) (\<lambda>size.
    bnd (bc_read_block 0 size) (\<lambda>block.
    bnd (lift_sum (parse_superblock block)) (\<lambda>layout.
    bnd (gets bc_geometry) (\<lambda>geometry.
    sq (lift_sum (validate_layout layout geometry))
    (ret layout)))))"

section \<open>Bitmap\<close>

definition bitmap_bits_per_block :: "qword \<Rightarrow> qword" where
  "bitmap_bits_per_block block_size = block_size * of_nat SIMPLE_FS_BITS_PER_BYTE"

definition test_bitmap_bit :: "byte list \<Rightarrow> nat \<Rightarrow> bool" where
  "test_bitmap_bit block bit_index \<longleftrightarrow>
    (let byte_index = bit_index div SIMPLE_FS_BITS_PER_BYTE; bit_offset = bit_index mod SIMPLE_FS_BITS_PER_BYTE;
         mask = push_bit bit_offset 1 in
     block ! byte_index AND mask \<noteq> 0)"

definition set_bitmap_bit :: "nat \<Rightarrow> byte list \<Rightarrow> byte list" where
  "set_bitmap_bit bit_index block =
    (let byte_index = bit_index div SIMPLE_FS_BITS_PER_BYTE; bit_offset = bit_index mod SIMPLE_FS_BITS_PER_BYTE;
         mask = push_bit bit_offset 1 in
     block[byte_index := block ! byte_index OR mask])"

section \<open>Directory entries\<close>

definition char_byte :: "char \<Rightarrow> byte" where
  "char_byte c = word_of_nat (of_char c)"

definition byte_char :: "byte \<Rightarrow> char" where
  "byte_char b = char_of (unat b)"

definition serialize_directory_entry :: "directory_entry \<Rightarrow> exn + byte list" where
  "serialize_directory_entry entry =
    (if de_name entry = [] \<or> length (de_name entry) > SIMPLE_FS_MAX_NAME_LENGTH then Inl Invalid_argument
     else sbind (node_kind_to_disk (de_kind entry)) (\<lambda>kind.
       let record0 = replicate SIMPLE_FS_DIRECTORY_ENTRY_SIZE_BYTES 0;
           record1 = fs_write_u8 DIRENT_ACTIVE_OFFSET SIMPLE_FS_DISK_ALLOCATED record0;
           record2 = fs_write_u8 DIRENT_KIND_OFFSET kind record1;
           record3 = write_u16_le DIRENT_NAME_LENGTH_OFFSET (of_nat (length (de_name entry))) record2;
           record4 = write_u32_le DIRENT_INODE_OFFSET (de_inode entry) record3 in
       Inr (overwrite SIMPLE_FS_DIRECTORY_ENTRY_NAME_OFFSET (map char_byte (de_name entry)) record4)))"

definition parse_directory_entry :: "byte list \<Rightarrow> exn + directory_entry option" where
  "parse_directory_entry record =
    (if fs_read_u8 record DIRENT_ACTIVE_OFFSET = SIMPLE_FS_DISK_FREE then Inr None
     else
       let name_length = unat (read_u16_le record DIRENT_NAME_LENGTH_OFFSET) in
       if name_length = 0 \<or> name_length > SIMPLE_FS_MAX_NAME_LENGTH then Inl Runtime_error
       else
         let name = map byte_char (subspan SIMPLE_FS_DIRECTORY_ENTRY_NAME_OFFSET name_length record);
             kind = node_kind_from_disk (fs_read_u8 record DIRENT_KIND_OFFSET) in
         if kind = NODE_KIND_COUNT then Inl Runtime_error
         else Inr (Some \<lparr>de_name = name, de_inode = read_u32_le record DIRENT_INODE_OFFSET, de_kind = kind\<rparr>))"

section \<open>Checks\<close>

definition validate_inode_number :: "simple_fs_layout \<Rightarrow> inode_number \<Rightarrow> exn + unit" where
  "validate_inode_number fs inode =
    (if \<not> is_valid_inode inode \<or> inode > fs_inode_count fs then Inl Out_of_range else Inr ())"

definition validate_directory_name :: "string \<Rightarrow> exn + unit" where
  "validate_directory_name name =
    (if name = [] \<or> length name > SIMPLE_FS_MAX_NAME_LENGTH \<or> SIMPLE_FS_PATH_SEPARATOR \<in> set name
        \<or> name = ''.'' \<or> name = ''..''
     then Inl Invalid_argument else Inr ())"

definition validate_directory_inode :: "inode_record \<Rightarrow> exn + unit" where
  "validate_directory_inode inode =
    (if \<not> ir_allocated inode then Inl Out_of_range
     else if ir_kind inode \<noteq> DIRECTORY then Inl Invalid_argument
     else Inr ())"

definition validate_file_inode :: "inode_record \<Rightarrow> exn + unit" where
  "validate_file_inode inode =
    (if \<not> ir_allocated inode then Inl Out_of_range
     else if ir_kind inode \<noteq> FILE then Inl Invalid_argument
     else Inr ())"

definition max_file_size_bytes :: "simple_fs_layout \<Rightarrow> qword" where
  "max_file_size_bytes fs = of_nat SIMPLE_FS_DIRECT_BLOCK_COUNT * fs_block_size_bytes fs"

section \<open>Inodes\<close>

text \<open>The block of the inode table and the offset in it of an inode's record.\<close>

definition inode_block :: "simple_fs_layout \<Rightarrow> inode_number \<Rightarrow> qword" where
  "inode_block fs inode =
    (let inode_index = ucast (inode - SIMPLE_FS_ROOT_INODE_VALUE) :: qword;
         byte_offset = inode_index * of_nat SIMPLE_FS_INODE_RECORD_SIZE_BYTES in
     fs_inode_table_start fs + byte_offset div fs_block_size_bytes fs)"

definition inode_offset :: "simple_fs_layout \<Rightarrow> inode_number \<Rightarrow> nat" where
  "inode_offset fs inode =
    (let inode_index = ucast (inode - SIMPLE_FS_ROOT_INODE_VALUE) :: qword;
         byte_offset = inode_index * of_nat SIMPLE_FS_INODE_RECORD_SIZE_BYTES in
     unat (byte_offset mod fs_block_size_bytes fs))"

text \<open>A span over the record in the block; past the end of the block it is undefined.\<close>

definition record_span :: "nat \<Rightarrow> byte list \<Rightarrow> exn + byte list" where
  "record_span offset block =
    (if offset + SIMPLE_FS_INODE_RECORD_SIZE_BYTES \<le> length block
     then Inr (subspan offset SIMPLE_FS_INODE_RECORD_SIZE_BYTES block)
     else Inl Undefined_behaviour)"

primrec parse_direct_blocks :: "simple_fs_layout \<Rightarrow> byte list \<Rightarrow> nat list \<Rightarrow> exn + qword list" where
  "parse_direct_blocks fs record [] = Inr []"
| "parse_direct_blocks fs record (i # is) =
    (let address = read_u64_le record (INODE_DIRECT_BLOCKS_OFFSET + i * INODE_DIRECT_BLOCK_STRIDE_BYTES) in
     if address \<noteq> SIMPLE_FS_EMPTY_BLOCK
        \<and> (address < fs_data_start fs \<or> address \<ge> fs_data_start fs + fs_data_block_count fs)
     then Inl Runtime_error
     else sbind (parse_direct_blocks fs record is) (\<lambda>addresses. Inr (address # addresses)))"

definition parse_inode :: "simple_fs_layout \<Rightarrow> inode_number \<Rightarrow> byte list \<Rightarrow> exn + inode_record" where
  "parse_inode fs inode record =
    (if fs_read_u8 record INODE_ALLOCATED_OFFSET \<noteq> SIMPLE_FS_DISK_ALLOCATED
     then Inr (empty_inode_record\<lparr>ir_number := inode\<rparr>)
     else
       let kind = node_kind_from_disk (fs_read_u8 record INODE_KIND_OFFSET);
           size = read_u64_le record INODE_SIZE_OFFSET in
       if kind = NODE_KIND_COUNT then Inl Runtime_error
       else if size > max_file_size_bytes fs then Inl Runtime_error
       else sbind (parse_direct_blocks fs record [0..<SIMPLE_FS_DIRECT_BLOCK_COUNT]) (\<lambda>direct_blocks.
         Inr \<lparr>ir_number = inode, ir_kind = kind, ir_size_bytes = size, ir_direct_blocks = direct_blocks,
           ir_allocated = True\<rparr>))"

definition read_inode :: "simple_fs_layout \<Rightarrow> inode_number \<Rightarrow> (buffer_cache, inode_record) op" where
  "read_inode fs inode =
    sq (lift_sum (validate_inode_number fs inode))
    (bnd (bc_read_block (inode_block fs inode) (unat (fs_block_size_bytes fs))) (\<lambda>block.
    bnd (lift_sum (record_span (inode_offset fs inode) block)) (\<lambda>record.
    lift_sum (parse_inode fs inode record))))"

definition serialize_inode :: "inode_record \<Rightarrow> exn + byte list" where
  "serialize_inode inode =
    (let record0 = replicate SIMPLE_FS_INODE_RECORD_SIZE_BYTES 0;
         record1 = fs_write_u8 INODE_ALLOCATED_OFFSET
           (if ir_allocated inode then SIMPLE_FS_DISK_ALLOCATED else SIMPLE_FS_DISK_FREE) record0 in
     if \<not> ir_allocated inode then Inr record1
     else sbind (node_kind_to_disk (ir_kind inode)) (\<lambda>kind.
       let record2 = fs_write_u8 INODE_KIND_OFFSET kind record1;
           record3 = write_u16_le INODE_LINK_COUNT_OFFSET SIMPLE_FS_DEFAULT_LINK_COUNT record2;
           record4 = write_u64_le INODE_SIZE_OFFSET (ir_size_bytes inode) record3 in
       Inr (fold (\<lambda>i. write_u64_le (INODE_DIRECT_BLOCKS_OFFSET + i * INODE_DIRECT_BLOCK_STRIDE_BYTES)
                   (ir_direct_blocks inode ! i)) [0..<SIMPLE_FS_DIRECT_BLOCK_COUNT] record4)))"

definition write_inode :: "simple_fs_layout \<Rightarrow> inode_record \<Rightarrow> (buffer_cache, unit) op" where
  "write_inode fs inode =
    sq (lift_sum (validate_inode_number fs (ir_number inode)))
    (bnd (bc_read_block (inode_block fs (ir_number inode)) (unat (fs_block_size_bytes fs))) (\<lambda>block.
    sq (lift_sum (record_span (inode_offset fs (ir_number inode)) block))
    (bnd (lift_sum (serialize_inode inode)) (\<lambda>record.
    bc_write_block (inode_block fs (ir_number inode))
      (overwrite (inode_offset fs (ir_number inode)) record block)))))"

text \<open>
  The loop over the inode numbers. Its counter has 32 bits: when \<^verbatim>\<open>inode_count\<close> is the largest value the
  counter wraps to 0, where \<^verbatim>\<open>read_inode\<close> throws.
\<close>

primrec allocate_inode_loop ::
  "simple_fs_layout \<Rightarrow> simple_fs_node_kind \<Rightarrow> inode_number list \<Rightarrow> (buffer_cache, inode_number) op" where
  "allocate_inode_loop fs kind [] = throw Length_error"
| "allocate_inode_loop fs kind (n # ns) =
    bnd (read_inode fs n) (\<lambda>record.
    if \<not> ir_allocated record
    then sq (write_inode fs (record\<lparr>ir_allocated := True, ir_kind := kind, ir_size_bytes := 0,
               ir_direct_blocks := replicate SIMPLE_FS_DIRECT_BLOCK_COUNT SIMPLE_FS_EMPTY_BLOCK\<rparr>))
         (ret (ir_number record))
    else allocate_inode_loop fs kind ns)"

definition inode_numbers :: "simple_fs_layout \<Rightarrow> inode_number list" where
  "inode_numbers fs = map of_nat [1..<unat (fs_inode_count fs) + 1] @ (if fs_inode_count fs = - 1 then [0] else [])"

definition allocate_inode :: "simple_fs_layout \<Rightarrow> simple_fs_node_kind \<Rightarrow> (buffer_cache, inode_number) op" where
  "allocate_inode fs kind = allocate_inode_loop fs kind (inode_numbers fs)"

section \<open>Data blocks\<close>

definition bits_to_scan :: "simple_fs_layout \<Rightarrow> qword \<Rightarrow> nat" where
  "bits_to_scan fs data_base =
    unat (min (bitmap_bits_per_block (fs_block_size_bytes fs)) (fs_data_block_count fs - data_base))"

primrec allocate_data_block_loop :: "simple_fs_layout \<Rightarrow> nat list \<Rightarrow> (buffer_cache, qword) op" where
  "allocate_data_block_loop fs [] = throw Length_error"
| "allocate_data_block_loop fs (i # is) =
    (let bitmap_block = fs_data_bitmap_start fs + of_nat i;
         data_base = of_nat i * bitmap_bits_per_block (fs_block_size_bytes fs) in
     bnd (bc_read_block bitmap_block (unat (fs_block_size_bytes fs))) (\<lambda>bitmap.
     if data_base \<ge> fs_data_block_count fs then throw Length_error
     else case find (\<lambda>bit_index. \<not> test_bitmap_bit bitmap bit_index) [0..<bits_to_scan fs data_base] of
       Some bit_index \<Rightarrow>
         let data_block = fs_data_start fs + data_base + of_nat bit_index in
         sq (bc_write_block bitmap_block (set_bitmap_bit bit_index bitmap))
         (sq (bc_write_block data_block (make_zero_block (fs_block_size_bytes fs)))
         (ret data_block))
     | None \<Rightarrow> allocate_data_block_loop fs is))"

definition allocate_data_block :: "simple_fs_layout \<Rightarrow> (buffer_cache, qword) op" where
  "allocate_data_block fs = allocate_data_block_loop fs [0..<unat (fs_data_bitmap_block_count fs)]"

primrec free_data_block_loop :: "simple_fs_layout \<Rightarrow> nat \<Rightarrow> nat list \<Rightarrow> (buffer_cache, nat) op" where
  "free_data_block_loop fs free_count [] = ret free_count"
| "free_data_block_loop fs free_count (i # is) =
    (let data_base = of_nat i * bitmap_bits_per_block (fs_block_size_bytes fs) in
     bnd (bc_read_block (fs_data_bitmap_start fs + of_nat i) (unat (fs_block_size_bytes fs))) (\<lambda>bitmap.
     if data_base \<ge> fs_data_block_count fs then ret free_count
     else free_data_block_loop fs
       (free_count + length (filter (\<lambda>bit_index. \<not> test_bitmap_bit bitmap bit_index) [0..<bits_to_scan fs data_base]))
       is))"

definition free_data_block_count :: "simple_fs_layout \<Rightarrow> (buffer_cache, nat) op" where
  "free_data_block_count fs = free_data_block_loop fs 0 [0..<unat (fs_data_bitmap_block_count fs)]"

definition additional_blocks_needed :: "simple_fs_layout \<Rightarrow> inode_record \<Rightarrow> qword \<Rightarrow> exn + nat" where
  "additional_blocks_needed fs inode end_size =
    (if end_size > max_file_size_bytes fs then Inl Length_error
     else sbind (ceil_div_u64 end_size (fs_block_size_bytes fs)) (\<lambda>needed.
       let current_blocks = length (filter (\<lambda>a. a \<noteq> SIMPLE_FS_EMPTY_BLOCK) (ir_direct_blocks inode)) in
       Inr (unat needed - current_blocks)))"

section \<open>File contents\<close>

text \<open>
  The loops over the blocks of a transfer. \<open>offset\<close> and \<open>remaining\<close> are the source's loop variables; a block
  size of 0, which no mounted file system has, would make the source divide by zero.
\<close>

function read_inode_loop :: "simple_fs_layout \<Rightarrow> inode_record \<Rightarrow> nat \<Rightarrow> nat \<Rightarrow> (buffer_cache, byte list) op" where
  "read_inode_loop fs inode offset remaining =
    (if remaining = 0 then ret []
     else if fs_block_size_bytes fs = 0 then throw Undefined_behaviour
     else
       let block_size = unat (fs_block_size_bytes fs);
           logical_block_index = offset div block_size;
           offset_in_block = offset mod block_size;
           chunk_size = min remaining (block_size - offset_in_block);
           data_block = ir_direct_blocks inode ! logical_block_index in
       bnd (if data_block = SIMPLE_FS_EMPTY_BLOCK then ret (replicate chunk_size 0)
            else bnd (bc_read_block data_block block_size) (\<lambda>block_bytes.
              ret (subspan offset_in_block chunk_size block_bytes))) (\<lambda>chunk.
       bnd (read_inode_loop fs inode (offset + chunk_size) (remaining - chunk_size)) (\<lambda>rest.
       ret (chunk @ rest))))"
  by pat_completeness auto

lemma chunk_pos: "0 < remaining \<Longrightarrow> 0 < n \<Longrightarrow> 0 < min remaining (n - offset mod n)" for n :: nat
  by (simp add: mod_less_divisor)

termination read_inode_loop
  by (relation "measure (\<lambda>(fs, inode, offset, remaining). remaining)") (auto simp: unat_gt_0)

definition read_inode_bytes :: "simple_fs_layout \<Rightarrow> inode_record \<Rightarrow> qword \<Rightarrow> nat \<Rightarrow> (buffer_cache, byte list) op" where
  "read_inode_bytes fs inode offset byte_count =
    (if offset \<ge> ir_size_bytes inode \<or> byte_count = 0 then ret []
     else read_inode_loop fs inode (unat offset) (min byte_count (unat (ir_size_bytes inode - offset))))"

function write_inode_loop ::
  "simple_fs_layout \<Rightarrow> inode_record \<Rightarrow> nat \<Rightarrow> byte list \<Rightarrow> (buffer_cache, inode_record) op" where
  "write_inode_loop fs inode offset source =
    (if source = [] then ret inode
     else if fs_block_size_bytes fs = 0 then throw Undefined_behaviour
     else
       let block_size = unat (fs_block_size_bytes fs);
           logical_block_index = offset div block_size;
           offset_in_block = offset mod block_size;
           chunk_size = min (length source) (block_size - offset_in_block);
           data_block = ir_direct_blocks inode ! logical_block_index in
       bnd (if data_block = SIMPLE_FS_EMPTY_BLOCK
            then bnd (allocate_data_block fs) (\<lambda>new_block.
              ret (new_block, inode\<lparr>ir_direct_blocks := (ir_direct_blocks inode)[logical_block_index := new_block]\<rparr>,
                replicate block_size 0))
            else bnd (bc_read_block data_block block_size) (\<lambda>block_bytes.
              ret (data_block, inode, block_bytes))) (\<lambda>(data_block, inode, block_bytes).
       sq (bc_write_block data_block (overwrite offset_in_block (take chunk_size source) block_bytes))
       (write_inode_loop fs inode (offset + chunk_size) (drop chunk_size source))))"
  by pat_completeness auto

termination write_inode_loop
  by (relation "measure (\<lambda>(fs, inode, offset, source). length source)") (auto simp: unat_gt_0)

declare read_inode_loop.simps [simp del] write_inode_loop.simps [simp del]

definition write_inode_bytes ::
  "simple_fs_layout \<Rightarrow> inode_record \<Rightarrow> qword \<Rightarrow> byte list \<Rightarrow> (buffer_cache, inode_record \<times> nat) op" where
  "write_inode_bytes fs inode offset source =
    (if offset > ir_size_bytes inode then throw Invalid_argument
     else if source = [] then ret (inode, 0)
     else if of_nat (length source) > - 1 - offset then throw Length_error
     else
       let end_offset = offset + of_nat (length source) in
       bnd (lift_sum (additional_blocks_needed fs inode end_offset)) (\<lambda>new_blocks.
       bnd (free_data_block_count fs) (\<lambda>free_blocks.
       if new_blocks > free_blocks then throw Length_error
       else bnd (write_inode_loop fs inode (unat offset) source) (\<lambda>inode.
         ret (inode\<lparr>ir_size_bytes := max (ir_size_bytes inode) end_offset\<rparr>, length source)))))"

section \<open>Operations of the file system\<close>

definition fs_metadata :: "simple_fs_layout \<Rightarrow> inode_number \<Rightarrow> (buffer_cache, inode_metadata) op" where
  "fs_metadata fs inode = bnd (read_inode fs inode) (\<lambda>record.
    if \<not> ir_allocated record then throw Out_of_range
    else ret \<lparr>im_number = ir_number record, im_kind = ir_kind record, im_size_bytes = ir_size_bytes record\<rparr>)"

fun parse_directory :: "byte list \<Rightarrow> nat list \<Rightarrow> exn + directory_entry list" where
  "parse_directory bytes [] = Inr []"
| "parse_directory bytes (i # is) =
    sbind (parse_directory_entry
        (subspan (i * SIMPLE_FS_DIRECTORY_ENTRY_SIZE_BYTES) SIMPLE_FS_DIRECTORY_ENTRY_SIZE_BYTES bytes)) (\<lambda>entry.
    sbind (parse_directory bytes is) (\<lambda>entries.
    Inr (case entry of None \<Rightarrow> entries | Some e \<Rightarrow> e # entries)))"

definition fs_read_directory :: "simple_fs_layout \<Rightarrow> inode_number \<Rightarrow> (buffer_cache, directory_entry list) op" where
  "fs_read_directory fs directory =
    bnd (read_inode fs directory) (\<lambda>record.
    sq (lift_sum (validate_directory_inode record))
    (if unat (ir_size_bytes record) mod SIMPLE_FS_DIRECTORY_ENTRY_SIZE_BYTES \<noteq> 0 then throw Runtime_error
     else bnd (read_inode_bytes fs record 0 (unat (ir_size_bytes record))) (\<lambda>bytes.
       lift_sum (parse_directory bytes
         [0..<unat (ir_size_bytes record) div SIMPLE_FS_DIRECTORY_ENTRY_SIZE_BYTES]))))"

definition fs_lookup :: "simple_fs_layout \<Rightarrow> inode_number \<Rightarrow> string \<Rightarrow> (buffer_cache, directory_entry option) op" where
  "fs_lookup fs directory name =
    sq (lift_sum (validate_directory_name name))
    (bnd (fs_read_directory fs directory) (\<lambda>entries.
    ret (find (\<lambda>entry. de_name entry = name) entries)))"

definition append_directory_entry ::
  "simple_fs_layout \<Rightarrow> inode_record \<Rightarrow> directory_entry \<Rightarrow> (buffer_cache, unit) op" where
  "append_directory_entry fs directory entry =
    sq (lift_sum (validate_directory_inode directory))
    (bnd (lift_sum (serialize_directory_entry entry)) (\<lambda>record.
    bnd (write_inode_bytes fs directory (ir_size_bytes directory) record) (\<lambda>(directory, _).
    write_inode fs directory)))"

text \<open>\<^verbatim>\<open>create_file\<close> and \<^verbatim>\<open>create_directory\<close> have the same body up to the kind.\<close>

definition create_node ::
  "simple_fs_node_kind \<Rightarrow> simple_fs_layout \<Rightarrow> inode_number \<Rightarrow> string \<Rightarrow> (buffer_cache, inode_number) op" where
  "create_node kind fs parent_directory name =
    sq (lift_sum (validate_directory_name name))
    (bnd (fs_lookup fs parent_directory name) (\<lambda>found.
    if found \<noteq> None then throw Invalid_argument
    else
      bnd (read_inode fs parent_directory) (\<lambda>parent.
      sq (lift_sum (validate_directory_inode parent))
      (bnd (lift_sum (additional_blocks_needed fs parent
          (ir_size_bytes parent + of_nat SIMPLE_FS_DIRECTORY_ENTRY_SIZE_BYTES))) (\<lambda>new_blocks.
      bnd (free_data_block_count fs) (\<lambda>free_blocks.
      if new_blocks > free_blocks then throw Length_error
      else
        bnd (allocate_inode fs kind) (\<lambda>inode.
        sq (append_directory_entry fs parent \<lparr>de_name = name, de_inode = inode, de_kind = kind\<rparr>)
        (ret inode))))))))"

definition create_file :: "simple_fs_layout \<Rightarrow> inode_number \<Rightarrow> string \<Rightarrow> (buffer_cache, inode_number) op" where
  "create_file = create_node FILE"

definition create_directory :: "simple_fs_layout \<Rightarrow> inode_number \<Rightarrow> string \<Rightarrow> (buffer_cache, inode_number) op" where
  "create_directory = create_node DIRECTORY"

definition read_file :: "simple_fs_layout \<Rightarrow> inode_number \<Rightarrow> qword \<Rightarrow> nat \<Rightarrow> (buffer_cache, byte list) op" where
  "read_file fs file offset byte_count =
    bnd (read_inode fs file) (\<lambda>record.
    sq (lift_sum (validate_file_inode record))
    (read_inode_bytes fs record offset byte_count))"

definition write_file :: "simple_fs_layout \<Rightarrow> inode_number \<Rightarrow> qword \<Rightarrow> byte list \<Rightarrow> (buffer_cache, nat) op" where
  "write_file fs file offset source =
    bnd (read_inode fs file) (\<lambda>record.
    sq (lift_sum (validate_file_inode record))
    (bnd (write_inode_bytes fs record offset source) (\<lambda>(record, byte_count).
    sq (write_inode fs record)
    (ret byte_count))))"

definition fs_flush :: "(buffer_cache, unit) op" where
  "fs_flush = flush_all"

section \<open>Format and mount\<close>

definition root_inode_block :: "simple_fs_layout \<Rightarrow> exn + byte list" where
  "root_inode_block layout = sbind (node_kind_to_disk DIRECTORY) (\<lambda>kind.
     let block0 = make_zero_block (fs_block_size_bytes layout);
         block1 = fs_write_u8 INODE_ALLOCATED_OFFSET SIMPLE_FS_DISK_ALLOCATED block0;
         block2 = fs_write_u8 INODE_KIND_OFFSET kind block1;
         block3 = write_u16_le INODE_LINK_COUNT_OFFSET SIMPLE_FS_DEFAULT_LINK_COUNT block2 in
     Inr (write_u64_le INODE_SIZE_OFFSET 0 block3))"

definition fs_format :: "dword \<Rightarrow> (buffer_cache, unit) op" where
  "fs_format inode_count =
    bnd (gets bc_geometry) (\<lambda>geometry.
    bnd (lift_sum (make_layout geometry inode_count)) (\<lambda>layout.
    sq (for_each (\<lambda>i. bc_write_block (of_nat i) (make_zero_block (fs_block_size_bytes layout)))
          [0..<unat (fs_block_count layout)])
    (sq (write_superblock layout)
    (bnd (lift_sum (root_inode_block layout)) (\<lambda>inode_block.
    sq (bc_write_block (fs_inode_table_start layout) inode_block)
    flush_all)))))"

definition SimpleFileSystem :: "(buffer_cache, simple_fs_layout) op" where
  "SimpleFileSystem =
    bnd read_superblock (\<lambda>layout.
    bnd (read_inode layout (fs_root_inode layout)) (\<lambda>root.
    if \<not> ir_allocated root \<or> ir_kind root \<noteq> DIRECTORY then throw Runtime_error
    else ret layout))"

end
