(* ===== verification/FsCodec.thy ===== *)
theory FsCodec
  imports SimpleFs
begin

text \<open>
  The on-disk formats of the file system: what is written as a superblock, an inode record or a directory entry
  is parsed back, and the layout that \<^verbatim>\<open>format\<close> computes passes the check that mounting makes.
\<close>

section \<open>Fields of a record\<close>

named_theorems le_simps "fields written to and read from a byte vector"

lemma length_le_writes [le_simps]:
  "length (write_u16_le i v bs) = length bs" "length (write_u32_le i w bs) = length bs"
  "length (write_u64_le i x bs) = length bs" "length (fs_write_u8 i b bs) = length bs"
  by (simp_all add: write_u16_le_def write_u32_le_def write_u64_le_def fs_write_u8_def)

lemma ucast_take_bit: "LENGTH('b) \<le> n \<Longrightarrow> (ucast (take_bit n (ucast v :: 'c::len word)) :: 'b::len word) = ucast (ucast v :: 'c word)"
  for v :: "'a::len word"
  by (rule bit_eqI) (auto simp: bit_simps)

lemma ucast_back: "ucast (ucast v :: qword) = v" if "LENGTH('a) \<le> 64" for v :: "'a::len word"
  by (rule bit_eqI) (use that in \<open>auto simp: bit_simps\<close>)

lemma read_write_same [le_simps]:
  "i + 2 \<le> length bs \<Longrightarrow> read_u16_le (write_u16_le i v bs) i = v"
  "i + 4 \<le> length bs \<Longrightarrow> read_u32_le (write_u32_le i w bs) i = w"
  "i + 8 \<le> length bs \<Longrightarrow> read_u64_le (write_u64_le i x bs) i = x"
  "i < length bs \<Longrightarrow> fs_read_u8 (fs_write_u8 i b bs) i = b"
  by (simp_all add: read_u16_le_def write_u16_le_def read_u32_le_def write_u32_le_def read_u64_le_def
      write_u64_le_def fs_read_u8_def fs_write_u8_def read_write_bytes_le_same ucast_take_bit ucast_back
      take_bit_word_eq_self)

text \<open>A field is not affected by a write to another one.\<close>

lemma read_u64_other [le_simps]:
  assumes "j + 8 \<le> length bs"
  shows "i + 2 \<le> j \<or> j + 8 \<le> i \<Longrightarrow> read_u64_le (write_u16_le i v bs) j = read_u64_le bs j"
    and "i + 4 \<le> j \<or> j + 8 \<le> i \<Longrightarrow> read_u64_le (write_u32_le i w bs) j = read_u64_le bs j"
    and "i + 8 \<le> j \<or> j + 8 \<le> i \<Longrightarrow> read_u64_le (write_u64_le i x bs) j = read_u64_le bs j"
  using assms
  by (auto simp: read_u64_le_def write_u16_le_def write_u32_le_def write_u64_le_def read_write_bytes_le_disjoint)

lemma read_u32_other [le_simps]:
  assumes "j + 4 \<le> length bs"
  shows "i + 2 \<le> j \<or> j + 4 \<le> i \<Longrightarrow> read_u32_le (write_u16_le i v bs) j = read_u32_le bs j"
    and "i + 4 \<le> j \<or> j + 4 \<le> i \<Longrightarrow> read_u32_le (write_u32_le i w bs) j = read_u32_le bs j"
    and "i + 8 \<le> j \<or> j + 4 \<le> i \<Longrightarrow> read_u32_le (write_u64_le i x bs) j = read_u32_le bs j"
  using assms
  by (auto simp: read_u32_le_def write_u16_le_def write_u32_le_def write_u64_le_def read_write_bytes_le_disjoint)

lemma read_u16_other [le_simps]:
  assumes "j + 2 \<le> length bs"
  shows "i + 2 \<le> j \<or> j + 2 \<le> i \<Longrightarrow> read_u16_le (write_u16_le i v bs) j = read_u16_le bs j"
    and "i + 4 \<le> j \<or> j + 2 \<le> i \<Longrightarrow> read_u16_le (write_u32_le i w bs) j = read_u16_le bs j"
    and "i + 8 \<le> j \<or> j + 2 \<le> i \<Longrightarrow> read_u16_le (write_u64_le i x bs) j = read_u16_le bs j"
  using assms
  by (auto simp: read_u16_le_def write_u16_le_def write_u32_le_def write_u64_le_def read_write_bytes_le_disjoint)

lemma read_u8_other [le_simps]:
  assumes "j < length bs"
  shows "i \<noteq> j \<Longrightarrow> fs_read_u8 (fs_write_u8 i b bs) j = fs_read_u8 bs j"
    and "i + 2 \<le> j \<or> j < i \<Longrightarrow> fs_read_u8 (write_u16_le i v bs) j = fs_read_u8 bs j"
    and "i + 4 \<le> j \<or> j < i \<Longrightarrow> fs_read_u8 (write_u32_le i w bs) j = fs_read_u8 bs j"
    and "i + 8 \<le> j \<or> j < i \<Longrightarrow> fs_read_u8 (write_u64_le i x bs) j = fs_read_u8 bs j"
  using assms
  by (auto simp: fs_read_u8_def fs_write_u8_def write_u16_le_def write_u32_le_def write_u64_le_def nth_write_bytes_le)

text \<open>Reads depend on the bytes of their field only.\<close>

lemma read_bytes_le_cong:
  assumes "n \<le> 8" and "\<And>k. k < n \<Longrightarrow> xs ! (i + k) = ys ! (j + k)"
  shows "read_bytes_le xs i n = read_bytes_le ys j n"
  by (rule bit_eqI) (use assms in \<open>auto simp: bit_read_bytes_le\<close>)

lemma read_le_overwrite [le_simps]:
  assumes "off + length src \<le> length bs"
  shows "j + 8 \<le> off \<Longrightarrow> read_u64_le (overwrite off src bs) j = read_u64_le bs j"
    and "j + 4 \<le> off \<Longrightarrow> read_u32_le (overwrite off src bs) j = read_u32_le bs j"
    and "j + 2 \<le> off \<Longrightarrow> read_u16_le (overwrite off src bs) j = read_u16_le bs j"
    and "j < off \<Longrightarrow> fs_read_u8 (overwrite off src bs) j = fs_read_u8 bs j"
  using assms
  by (auto simp: read_u64_le_def read_u32_le_def read_u16_le_def fs_read_u8_def nth_overwrite
      intro!: arg_cong [of _ _ ucast] read_bytes_le_cong)

section \<open>Superblock\<close>

lemma length_superblock_bytes [simp]: "length (superblock_bytes L) = unat (fs_block_size_bytes L)"
  by (simp add: superblock_bytes_def le_simps make_zero_block_def)

lemma ucast_u32: "w \<le> 0xFFFFFFFF \<Longrightarrow> ucast (ucast w :: dword) = w" for w :: qword
proof -
  assume "w \<le> 0xFFFFFFFF"
  then have "unat w < 2 ^ 32" by (simp add: word_le_nat_alt)
  then show ?thesis by (simp add: word_unat_eq_iff unsigned_ucast_eq unsigned_take_bit_eq take_bit_nat_eq_self)
qed

lemma parse_superblock_bytes:
  assumes "76 \<le> fs_block_size_bytes L" and "fs_block_size_bytes L \<le> 0xFFFFFFFF"
  shows "parse_superblock (superblock_bytes L) = Inr L"
proof -
  have len: "76 \<le> length (make_zero_block (fs_block_size_bytes L))"
    using assms(1) by (simp add: make_zero_block_def word_le_nat_alt)
  then show ?thesis
    unfolding parse_superblock_def superblock_bytes_def
    by (simp add: superblock_offsets le_simps ucast_u32 [OF assms(2)])
qed

section \<open>Inode records\<close>

lemma node_kind_roundtrip: "node_kind_to_disk k = Inr v \<Longrightarrow> node_kind_from_disk v = k \<and> k \<noteq> NODE_KIND_COUNT"
  by (cases k) (auto simp: node_kind_from_disk_def fs_constants)

definition data_block_ok :: "simple_fs_layout \<Rightarrow> qword \<Rightarrow> bool" where
  "data_block_ok fs a \<longleftrightarrow> a = 0 \<or> fs_data_start fs \<le> a \<and> a < fs_data_start fs + fs_data_block_count fs"

text \<open>The records that the operations write: a free one has the default fields, as a parsed one has.\<close>

definition inode_record_ok :: "simple_fs_layout \<Rightarrow> inode_record \<Rightarrow> bool" where
  "inode_record_ok fs r \<longleftrightarrow> (if ir_allocated r
     then ir_kind r \<noteq> NODE_KIND_COUNT \<and> ir_size_bytes r \<le> max_file_size_bytes fs
       \<and> length (ir_direct_blocks r) = SIMPLE_FS_DIRECT_BLOCK_COUNT
       \<and> (\<forall>a \<in> set (ir_direct_blocks r). data_block_ok fs a)
     else r = empty_inode_record\<lparr>ir_number := ir_number r\<rparr>)"

lemma serialize_inode_run:
  "serialize_inode r = Inr b \<Longrightarrow> length b = SIMPLE_FS_INODE_RECORD_SIZE_BYTES"
  by (auto simp: serialize_inode_def sbind_def Let_def le_simps fs_constants upt_rec split: if_splits sum.splits)

lemma inode_record_ok_serializes:
  assumes "inode_record_ok fs r" obtains b where "serialize_inode r = Inr b"
  using assms
  by (cases "ir_kind r") (auto simp: serialize_inode_def sbind_def Let_def inode_record_ok_def split: if_splits)

text \<open>The loop that writes the direct blocks.\<close>

definition write_direct_blocks :: "nat \<Rightarrow> (nat \<Rightarrow> qword) \<Rightarrow> byte list \<Rightarrow> byte list" where
  "write_direct_blocks n f b =
    fold (\<lambda>i. write_u64_le (INODE_DIRECT_BLOCKS_OFFSET + i * INODE_DIRECT_BLOCK_STRIDE_BYTES) (f i)) [0..<n] b"

lemma write_direct_blocks_Suc:
  "write_direct_blocks (Suc n) f b = write_u64_le (16 + n * 8) (f n) (write_direct_blocks n f b)"
  by (simp add: write_direct_blocks_def inode_offsets)

lemma write_direct_blocks_0: "write_direct_blocks 0 f b = b"
  by (simp add: write_direct_blocks_def)

lemma write_direct_blocks_fields [le_simps]:
  assumes "16 + n * 8 \<le> length b"
  shows "length (write_direct_blocks n f b) = length b"
    and "j < 16 \<Longrightarrow> fs_read_u8 (write_direct_blocks n f b) j = fs_read_u8 b j"
    and "j \<le> 8 \<Longrightarrow> read_u64_le (write_direct_blocks n f b) j = read_u64_le b j"
    and "j < n \<Longrightarrow> read_u64_le (write_direct_blocks n f b) (16 + j * 8) = f j"
  using assms
  by (induction n) (auto simp: write_direct_blocks_Suc write_direct_blocks_0 le_simps less_Suc_eq)

lemma parse_direct_blocks_run:
  assumes "\<forall>i \<in> set is. data_block_ok fs (read_u64_le b (16 + i * 8))"
  shows "parse_direct_blocks fs b is = Inr (map (\<lambda>i. read_u64_le b (16 + i * 8)) is)"
  using assms
  by (induction "is") (auto simp: Let_def sbind_def data_block_ok_def fs_constants inode_offsets not_le not_less)

lemma parse_serialize_inode:
  assumes ok: "inode_record_ok fs r" and b: "serialize_inode r = Inr b"
  shows "parse_inode fs (ir_number r) b = Inr r"
proof (cases "ir_allocated r")
  case True
  with b obtain v where v: "node_kind_to_disk (ir_kind r) = Inr v"
    by (auto simp: serialize_inode_def sbind_def Let_def split: sum.splits)
  define b0 where "b0 = write_u64_le 8 (ir_size_bytes r) (write_u16_le 2 SIMPLE_FS_DEFAULT_LINK_COUNT
      (fs_write_u8 1 v (fs_write_u8 0 SIMPLE_FS_DISK_ALLOCATED (replicate 64 0))))"
  have b': "b = write_direct_blocks 6 (\<lambda>i. ir_direct_blocks r ! i) b0"
    using b True v by (simp add: serialize_inode_def sbind_def Let_def inode_offsets b0_def write_direct_blocks_def fs_constants)
  have len0: "length b0 = 64" by (simp add: b0_def le_simps)
  have fields: "fs_read_u8 b 0 = SIMPLE_FS_DISK_ALLOCATED" "fs_read_u8 b 1 = v" "read_u64_le b 8 = ir_size_bytes r"
    unfolding b' using len0 by (simp_all add: le_simps) (simp_all add: b0_def le_simps)
  from True ok have len: "length (ir_direct_blocks r) = 6"
    and blocks: "\<forall>a \<in> set (ir_direct_blocks r). data_block_ok fs a" and size: "\<not> max_file_size_bytes fs < ir_size_bytes r"
    by (auto simp: inode_record_ok_def fs_constants)
  have direct: "read_u64_le b (16 + i * 8) = ir_direct_blocks r ! i" if "i < 6" for i
    unfolding b' using len0 that by (simp add: le_simps)
  have "parse_direct_blocks fs b [0..<6] = Inr (map (\<lambda>i. read_u64_le b (16 + i * 8)) [0..<6])"
    by (rule parse_direct_blocks_run) (use direct blocks len in \<open>auto simp del: upt_Suc\<close>)
  also have "map (\<lambda>i. read_u64_le b (16 + i * 8)) [0..<6] = ir_direct_blocks r"
    by (rule nth_equalityI) (simp_all add: len direct)
  finally show ?thesis
    using True fields node_kind_roundtrip [OF v] size
    by (simp add: parse_inode_def inode_offsets sbind_def SIMPLE_FS_DIRECT_BLOCK_COUNT_def)
next
  case False
  with ok have "r = empty_inode_record\<lparr>ir_number := ir_number r\<rparr>" by (simp add: inode_record_ok_def)
  with b False show ?thesis
    by (auto simp: serialize_inode_def parse_inode_def Let_def fs_constants inode_offsets le_simps)
qed

lemma parse_direct_blocks_ok:
  "parse_direct_blocks fs b is = Inr as \<Longrightarrow> length as = length is \<and> (\<forall>a \<in> set as. data_block_ok fs a)"
  by (induction "is" arbitrary: as)
     (auto simp: Let_def sbind_def data_block_ok_def fs_constants split: if_splits sum.splits)

lemma parse_inode_ok:
  assumes "parse_inode fs n b = Inr r" shows "inode_record_ok fs r \<and> ir_number r = n"
proof (cases "fs_read_u8 b INODE_ALLOCATED_OFFSET = SIMPLE_FS_DISK_ALLOCATED")
  case True
  with assms obtain as where as: "parse_direct_blocks fs b [0..<SIMPLE_FS_DIRECT_BLOCK_COUNT] = Inr as"
    and r: "r = \<lparr>ir_number = n, ir_kind = node_kind_from_disk (fs_read_u8 b INODE_KIND_OFFSET),
      ir_size_bytes = read_u64_le b INODE_SIZE_OFFSET, ir_direct_blocks = as, ir_allocated = True\<rparr>"
    "node_kind_from_disk (fs_read_u8 b INODE_KIND_OFFSET) \<noteq> NODE_KIND_COUNT"
    "read_u64_le b INODE_SIZE_OFFSET \<le> max_file_size_bytes fs"
    by (auto simp: parse_inode_def Let_def sbind_def split: if_splits sum.splits)
  then show ?thesis using parse_direct_blocks_ok [OF as] by (simp add: inode_record_ok_def)
next
  case False
  with assms show ?thesis by (auto simp: parse_inode_def inode_record_ok_def empty_inode_record_def)
qed

section \<open>Directory entries\<close>

lemma byte_char_char_byte [simp]: "byte_char (char_byte c) = c"
  by (simp add: byte_char_def char_byte_def unsigned_of_nat take_bit_eq_mod)

lemma parse_serialize_directory_entry:
  assumes "serialize_directory_entry e = Inr b"
  shows "length b = SIMPLE_FS_DIRECTORY_ENTRY_SIZE_BYTES \<and> parse_directory_entry b = Inr (Some e)"
proof -
  let ?n = "length (de_name e)"
  from assms have n: "de_name e \<noteq> []" "?n \<le> 56"
    by (auto simp: serialize_directory_entry_def fs_constants split: if_splits)
  from assms n obtain v where v: "node_kind_to_disk (de_kind e) = Inr v"
    by (auto simp: serialize_directory_entry_def fs_constants sbind_def split: sum.splits)
  define b0 where "b0 = write_u32_le 4 (de_inode e) (write_u16_le 2 (of_nat ?n)
      (fs_write_u8 1 v (fs_write_u8 0 1 (replicate 64 0))))"
  have b': "b = overwrite 8 (map char_byte (de_name e)) b0"
    using assms n v by (simp add: serialize_directory_entry_def sbind_def Let_def dirent_offsets b0_def fs_constants)
  have len0: "length b0 = 64" by (simp add: b0_def le_simps)
  then have fit: "8 + length (map char_byte (de_name e)) \<le> length b0" using n by simp
  have fields: "fs_read_u8 b 0 = 1" "fs_read_u8 b 1 = v" "read_u16_le b 2 = of_nat ?n" "read_u32_le b 4 = de_inode e"
    unfolding b' using fit by (simp_all add: le_simps) (simp_all add: b0_def le_simps)
  have "unat (of_nat ?n :: 16 word) = ?n" using n by (simp add: unsigned_of_nat take_bit_nat_eq_self)
  moreover have "map byte_char (subspan 8 ?n b) = de_name e"
    using subspan_overwrite_same [OF fit] by (simp add: b' comp_def)
  moreover have "length b = 64" unfolding b' using fit len0 by simp
  ultimately show ?thesis
    using fields n node_kind_roundtrip [OF v]
    by (simp add: parse_directory_entry_def dirent_offsets fs_constants Let_def)
qed

section \<open>Round trips\<close>

text \<open>
  C32: The three on-disk formats round-trip: the superblock of a layout (for block sizes that hold its fields and fit
  its 32-bit field), the record of every inode that the file system keeps, and every directory entry that is
  accepted for writing.
\<close>

theorem on_disk_roundtrip:
  assumes "76 \<le> fs_block_size_bytes layout" and "fs_block_size_bytes layout \<le> 0xFFFFFFFF"
    and "inode_record_ok fs r" and "serialize_directory_entry e = Inr d"
  shows "parse_superblock (superblock_bytes layout) = Inr layout
    \<and> (\<exists>b. serialize_inode r = Inr b \<and> length b = SIMPLE_FS_INODE_RECORD_SIZE_BYTES \<and> parse_inode fs (ir_number r) b = Inr r)
    \<and> length d = SIMPLE_FS_DIRECTORY_ENTRY_SIZE_BYTES \<and> parse_directory_entry d = Inr (Some e)"
proof -
  obtain b where b: "serialize_inode r = Inr b" by (rule inode_record_ok_serializes [OF assms(3)])
  with parse_serialize_inode [OF assms(3) b] serialize_inode_run [OF b] show ?thesis
    using parse_superblock_bytes [OF assms(1,2)] parse_serialize_directory_entry [OF assms(4)] by auto
qed

definition sample_layout_128 :: simple_fs_layout where
  "sample_layout_128 = \<lparr>fs_block_size_bytes = 128, fs_block_count = 8, fs_inode_table_start = 1,
     fs_inode_table_block_count = 1, fs_inode_count = 2, fs_data_bitmap_start = 2, fs_data_bitmap_block_count = 1,
     fs_data_start = 3, fs_data_block_count = 5, fs_root_inode = 1\<rparr>"

definition sample_file_record :: inode_record where
  "sample_file_record = \<lparr>ir_number = 2, ir_kind = FILE, ir_size_bytes = 200, ir_direct_blocks = [3, 7, 0, 0, 0, 0],
     ir_allocated = True\<rparr>"

text \<open>Witness: a superblock of eight blocks, a file of 200 bytes and the entry \<open>a.txt\<close>.\<close>

theorem on_disk_roundtrip_witness:
  "\<exists>b d. parse_superblock (superblock_bytes sample_layout_128) = Inr sample_layout_128
    \<and> serialize_inode sample_file_record = Inr b \<and> parse_inode sample_layout_128 2 b = Inr sample_file_record
    \<and> serialize_directory_entry \<lparr>de_name = ''a.txt'', de_inode = 2, de_kind = FILE\<rparr> = Inr d
    \<and> parse_directory_entry d = Inr (Some \<lparr>de_name = ''a.txt'', de_inode = 2, de_kind = FILE\<rparr>)"
proof -
  obtain d where d: "serialize_directory_entry \<lparr>de_name = ''a.txt'', de_inode = 2, de_kind = FILE\<rparr> = Inr d"
    by (simp add: serialize_directory_entry_def fs_constants sbind_def Let_def)
  have "inode_record_ok sample_layout_128 sample_file_record"
    by (simp add: inode_record_ok_def sample_file_record_def sample_layout_128_def data_block_ok_def
        max_file_size_bytes_def fs_constants)
  from on_disk_roundtrip [OF _ _ this d, of sample_layout_128] d show ?thesis
    by (auto simp: sample_layout_128_def sample_file_record_def)
qed

end
