(* ===== verification/FsLayout.thy ===== *)
theory FsLayout
  imports FsCodec
begin

text \<open>
  The layout of a file system: the regions that \<^verbatim>\<open>format\<close> computes are disjoint, inside the device and large
  enough, formatting gives a file system that mounts with this layout and an empty root directory, and the
  two checks that mounting leaves out.
\<close>

section \<open>Well-formed layouts\<close>

definition layout_regions :: "simple_fs_layout \<Rightarrow> block_device_geometry \<Rightarrow> bool" where
  "layout_regions fs g \<longleftrightarrow>
     fs_block_size_bytes fs = bg_block_size_bytes g \<and> fs_block_count fs = bg_block_count g
     \<and> 128 \<le> unat (fs_block_size_bytes fs) \<and> unat (fs_block_size_bytes fs) < 2 ^ 32
     \<and> 0 < unat (fs_inode_table_start fs)
     \<and> unat (fs_inode_table_start fs) + unat (fs_inode_table_block_count fs) \<le> unat (fs_data_bitmap_start fs)
     \<and> unat (fs_data_bitmap_start fs) + unat (fs_data_bitmap_block_count fs) \<le> unat (fs_data_start fs)
     \<and> unat (fs_data_start fs) + unat (fs_data_block_count fs) \<le> unat (fs_block_count fs)
     \<and> 64 * unat (fs_inode_count fs) \<le> unat (fs_inode_table_block_count fs) * unat (fs_block_size_bytes fs)
     \<and> 0 < unat (fs_data_block_count fs)
     \<and> unat (fs_data_block_count fs) \<le> unat (fs_data_bitmap_block_count fs) * (unat (fs_block_size_bytes fs) * 8)
     \<and> unat (fs_data_bitmap_block_count fs) * (unat (fs_block_size_bytes fs) * 8) < 2 ^ 64
     \<and> 1 \<le> unat (fs_root_inode fs) \<and> unat (fs_root_inode fs) \<le> unat (fs_inode_count fs)"

definition layout_ok :: "simple_fs_layout \<Rightarrow> block_device_geometry \<Rightarrow> bool" where
  "layout_ok fs g \<longleftrightarrow> layout_regions fs g \<and> 64 dvd unat (fs_block_size_bytes fs)"

lemma ceil_div_exact:
  assumes "ceil_div_u64 v d = Inr q"
  shows "unat v \<le> unat q * unat d \<and> unat q * unat d < unat v + unat d \<and> 0 < unat d"
proof (cases "v = 0")
  case True
  with assms show ?thesis by (auto simp: ceil_div_u64_def unat_gt_0 split: if_splits)
next
  case False
  with assms have d: "d \<noteq> 0" and q: "q = (v - 1) div d + 1" by (auto simp: ceil_div_u64_def split: if_splits)
  have v: "unat (v - 1) = unat v - 1" "0 < unat v" using False by (auto simp: unat_minus_one unat_gt_0)
  have "(unat v - 1) div unat d + 1 < 2 ^ 64"
    using v(2) unat_less_64 [of v] div_le_dividend [of "unat v - 1" "unat d"] by linarith
  then have uq: "unat q = (unat v - 1) div unat d + 1"
    using unat_add_of_nat [of "(v - 1) div d" 1] by (simp add: q unat_div v(1))
  have pos: "0 < unat d" using d by (simp add: unat_gt_0)
  define p where "p = unat d * ((unat v - 1) div unat d)"
  have "unat v - 1 = p + (unat v - 1) mod unat d" by (simp add: p_def)
  moreover have "(unat v - 1) mod unat d < unat d" using pos by simp
  moreover have "unat q * unat d = p + unat d" by (simp add: uq p_def algebra_simps)
  ultimately show ?thesis using v(2) pos by linarith
qed

lemma checked_block_count:
  assumes "sbind (ceil_div_u64 v d) (\<lambda>q. if q > 0xFFFFFFFF then Inl Length_error else Inr (ucast q :: dword)) = Inr r"
  shows "unat v \<le> unat r * unat d \<and> unat r * unat d < unat v + unat d"
proof -
  from assms obtain q where q: "ceil_div_u64 v d = Inr q" and r: "r = ucast q" "q \<le> 0xFFFFFFFF"
    by (auto simp: sbind_def not_less split: sum.splits if_splits)
  have "unat r = unat q"
    using r(2) by (simp add: r(1) unsigned_ucast_eq unsigned_take_bit_eq take_bit_nat_eq_self word_le_nat_alt)
  with ceil_div_exact [OF q] show ?thesis by simp
qed

lemma unat_less_32: "unat (w :: dword) < 2 ^ 32"
  by (rule less_le_trans [OF unsigned_less]) simp

lemma unat_ucast_dword [simp]: "unat (ucast (w :: dword) :: qword) = unat w"
  using unat_less_32 [of w] by (simp add: unsigned_ucast_eq take_bit_nat_eq_self)

lemma unat_plus_exact: "unat a + unat b < 2 ^ 64 \<Longrightarrow> unat (a + b :: qword) = unat a + unat b"
  using unat_add_of_nat [of a "unat b"] by simp

lemma make_layout_regions:
  assumes mk: "make_layout g n = Inr fs" and n: "1 \<le> n"
    and cap: "unat (bg_block_size_bytes g) * unat (bg_block_count g) < 2 ^ 64"
  shows "layout_regions fs g \<and> fs_inode_count fs = n \<and> fs_inode_table_start fs = 1 \<and> fs_root_inode fs = 1"
proof -
  let ?bs = "bg_block_size_bytes g" and ?bc = "bg_block_count g"
  from mk obtain t b where bs: "128 \<le> ?bs" "?bs \<le> 0xFFFFFFFF"
    and t: "checked_inode_table_block_count n ?bs = Inr t" and tle: "1 + ucast t < ?bc"
    and b: "checked_bitmap_block_count (?bc - (1 + ucast t)) ?bs = Inr b" and ble: "1 + ucast t + ucast b < ?bc"
    and fs: "fs = \<lparr>fs_block_size_bytes = ?bs, fs_block_count = ?bc, fs_inode_table_start = 1,
             fs_inode_table_block_count = t, fs_inode_count = n, fs_data_bitmap_start = 1 + ucast t,
             fs_data_bitmap_block_count = b, fs_data_start = 1 + ucast t + ucast b,
             fs_data_block_count = ?bc - (1 + ucast t + ucast b), fs_root_inode = 1\<rparr>"
    by (auto simp: make_layout_def Let_def sbind_def fs_constants not_less not_le
        split: if_splits sum.splits)
  have bsn: "128 \<le> unat ?bs" "unat ?bs < 2 ^ 32" using bs by (simp_all add: word_le_nat_alt)
  have ut: "unat (1 + ucast t :: qword) = 1 + unat t"
    using unat_less_32 [of t] by (simp add: unat_word_ariths)
  have utb: "unat (1 + ucast t + ucast b :: qword) = 1 + unat t + unat b"
    using unat_less_32 [of t] unat_less_32 [of b] by (subst unat_word_ariths) (simp add: ut)
  have n64: "unat (ucast n * 64 :: qword) = unat n * 64"
    using unat_less_32 [of n] by (simp add: unat_word_ariths)
  have "unat (ucast n * 64 :: qword) \<le> unat t * unat ?bs"
    using t checked_block_count [of "ucast n * 64" ?bs t]
    by (simp add: checked_inode_table_block_count_def fs_constants)
  with n64 have table: "64 * unat n \<le> unat t * unat ?bs" by simp
  have bits: "unat (?bs * 8) = unat ?bs * 8" using bsn by (simp add: unat_word_ariths)
  have cand: "unat (?bc - (1 + ucast t)) = unat ?bc - (1 + unat t)"
    using tle by (simp add: unat_sub word_less_nat_alt word_le_nat_alt ut)
  have bitmap: "unat ?bc - (1 + unat t) \<le> unat b * (unat ?bs * 8)"
    "unat b * (unat ?bs * 8) < unat ?bc - (1 + unat t) + unat ?bs * 8"
    using b checked_block_count [of "?bc - (1 + ucast t)" "?bs * 8" b]
    by (simp_all add: checked_bitmap_block_count_def fs_constants bits cand)
  have "128 * unat ?bc < 2 ^ 64" using cap bsn mult_le_mono1 [OF bsn(1), of "unat ?bc"] by linarith
  with bsn have "unat ?bc - (1 + unat t) + unat ?bs * 8 < 2 ^ 64" by simp
  with bitmap(2) have room: "unat b * (unat ?bs * 8) < 2 ^ 64" by (rule less_trans)
  have less: "1 + unat t + unat b < unat ?bc" using ble by (simp add: word_less_nat_alt utb)
  have data: "unat (?bc - (1 + ucast t + ucast b)) = unat ?bc - (1 + unat t + unat b)"
    using ble by (simp add: unat_sub word_less_nat_alt word_le_nat_alt utb)
  have "1 \<le> unat n" using n by (simp add: word_le_nat_alt)
  then show ?thesis
    using bsn table bitmap room less by (simp add: layout_regions_def fs ut utb data)
qed

lemma layout_regionsD:
  assumes "layout_regions fs g"
  shows "fs_block_size_bytes fs = bg_block_size_bytes g" and "fs_block_count fs = bg_block_count g"
    and "128 \<le> unat (fs_block_size_bytes fs)" and "unat (fs_block_size_bytes fs) < 2 ^ 32"
    and "0 < unat (fs_inode_table_start fs)"
    and "unat (fs_inode_table_start fs) + unat (fs_inode_table_block_count fs) \<le> unat (fs_data_bitmap_start fs)"
    and "unat (fs_data_bitmap_start fs) + unat (fs_data_bitmap_block_count fs) \<le> unat (fs_data_start fs)"
    and "unat (fs_data_start fs) + unat (fs_data_block_count fs) \<le> unat (bg_block_count g)"
    and "64 * unat (fs_inode_count fs) \<le> unat (fs_inode_table_block_count fs) * unat (fs_block_size_bytes fs)"
    and "0 < unat (fs_data_block_count fs)"
    and "unat (fs_data_block_count fs) \<le> unat (fs_data_bitmap_block_count fs) * (unat (fs_block_size_bytes fs) * 8)"
    and "unat (fs_data_bitmap_block_count fs) * (unat (fs_block_size_bytes fs) * 8) < 2 ^ 64"
    and "1 \<le> unat (fs_root_inode fs)" and "unat (fs_root_inode fs) \<le> unat (fs_inode_count fs)"
  using assms unfolding layout_regions_def by auto

lemma layout_okD:
  assumes "layout_ok fs g"
  shows "fs_block_size_bytes fs = bg_block_size_bytes g" and "fs_block_count fs = bg_block_count g"
    and "128 \<le> unat (fs_block_size_bytes fs)" and "unat (fs_block_size_bytes fs) < 2 ^ 32"
    and "64 dvd unat (fs_block_size_bytes fs)"
    and "0 < unat (fs_inode_table_start fs)"
    and "unat (fs_inode_table_start fs) + unat (fs_inode_table_block_count fs) \<le> unat (fs_data_bitmap_start fs)"
    and "unat (fs_data_bitmap_start fs) + unat (fs_data_bitmap_block_count fs) \<le> unat (fs_data_start fs)"
    and "unat (fs_data_start fs) + unat (fs_data_block_count fs) \<le> unat (bg_block_count g)"
    and "64 * unat (fs_inode_count fs) \<le> unat (fs_inode_table_block_count fs) * unat (fs_block_size_bytes fs)"
    and "0 < unat (fs_data_block_count fs)"
    and "unat (fs_data_block_count fs) \<le> unat (fs_data_bitmap_block_count fs) * (unat (fs_block_size_bytes fs) * 8)"
    and "unat (fs_data_bitmap_block_count fs) * (unat (fs_block_size_bytes fs) * 8) < 2 ^ 64"
    and "1 \<le> unat (fs_root_inode fs)" and "unat (fs_root_inode fs) \<le> unat (fs_inode_count fs)"
  using assms unfolding layout_ok_def layout_regions_def by auto

lemma layout_sums:
  assumes "layout_regions fs g"
  shows "unat (fs_inode_table_start fs + ucast (fs_inode_table_block_count fs))
      = unat (fs_inode_table_start fs) + unat (fs_inode_table_block_count fs)"
    and "unat (fs_data_bitmap_start fs + ucast (fs_data_bitmap_block_count fs))
      = unat (fs_data_bitmap_start fs) + unat (fs_data_bitmap_block_count fs)"
    and "unat (fs_data_start fs + fs_data_block_count fs)
      = unat (fs_data_start fs) + unat (fs_data_block_count fs)"
    and "unat (fs_block_size_bytes fs * 8) = unat (fs_block_size_bytes fs) * 8"
proof -
  note L = layout_regionsD [OF assms]
  note bound = unat_less_64 [of "fs_data_bitmap_start fs"] unat_less_64 [of "fs_data_start fs"]
    unat_less_64 [of "bg_block_count g"]
  show "unat (fs_inode_table_start fs + ucast (fs_inode_table_block_count fs))
      = unat (fs_inode_table_start fs) + unat (fs_inode_table_block_count fs)"
    using L(6) bound by (subst unat_plus_exact) simp_all
  show "unat (fs_data_bitmap_start fs + ucast (fs_data_bitmap_block_count fs))
      = unat (fs_data_bitmap_start fs) + unat (fs_data_bitmap_block_count fs)"
    using L(7) bound by (subst unat_plus_exact) simp_all
  show "unat (fs_data_start fs + fs_data_block_count fs)
      = unat (fs_data_start fs) + unat (fs_data_block_count fs)"
    using L(8) bound by (subst unat_plus_exact) simp_all
  show "unat (fs_block_size_bytes fs * 8) = unat (fs_block_size_bytes fs) * 8"
    using L(4) by (simp add: unat_word_ariths)
qed

lemma layout_valid:
  assumes "layout_regions fs g" shows "validate_layout fs g = Inr ()"
proof -
  note L = layout_regionsD [OF assms]
  have "unat (fs_inode_table_block_count fs) \<noteq> 0" "unat (fs_data_bitmap_block_count fs) \<noteq> 0"
    using L by (auto intro: ccontr)
  then have nonzero: "fs_inode_table_block_count fs \<noteq> 0" "fs_data_bitmap_block_count fs \<noteq> 0"
    "fs_inode_table_start fs \<noteq> 0" "fs_data_block_count fs \<noteq> 0" "fs_root_inode fs \<noteq> 0"
    "fs_inode_count fs \<noteq> 0" using L by auto
  have "unat (ucast (fs_data_bitmap_block_count fs) * fs_block_size_bytes fs * 8)
      = unat (fs_data_bitmap_block_count fs) * (unat (fs_block_size_bytes fs) * 8)"
    using L(12) unat_mult_exact [of "ucast (fs_data_bitmap_block_count fs)" "fs_block_size_bytes fs * 8"]
      layout_sums(4) [OF assms] by (simp add: mult.assoc)
  then have capacity: "fs_data_block_count fs \<le> ucast (fs_data_bitmap_block_count fs) * fs_block_size_bytes fs * 8"
    using L(11) by (simp add: word_le_nat_alt)
  show ?thesis
    using L nonzero capacity layout_sums [OF assms]
    by (simp add: validate_layout_def Let_def fs_constants is_valid_inode_def not_less word_le_nat_alt)
qed

section \<open>Inode records in the table\<close>

lemma parse_zero_record:
  "64 \<le> length b \<Longrightarrow> (\<And>i. i < 64 \<Longrightarrow> b ! i = 0) \<Longrightarrow> parse_inode fs n b = Inr (empty_inode_record\<lparr>ir_number := n\<rparr>)"
  by (simp add: parse_inode_def fs_read_u8_def inode_offsets fs_constants)

text \<open>Where the record of an inode lies.\<close>

lemma unat_dword_minus_1: "1 \<le> unat n \<Longrightarrow> unat (n - 1 :: dword) = unat n - 1"
  by (metis One_nat_def not_one_le_zero unat_eq_zero unat_minus_one)

lemma inode_byte_offset:
  assumes "1 \<le> unat n"
  shows "unat (ucast (n - SIMPLE_FS_ROOT_INODE_VALUE) * of_nat SIMPLE_FS_INODE_RECORD_SIZE_BYTES :: qword) = (unat n - 1) * 64"
  using unat_less_32 [of n]
  by (simp add: fs_constants unat_word_ariths unat_dword_minus_1 [OF assms])

definition inode_slot :: "simple_fs_layout \<Rightarrow> inode_number \<Rightarrow> nat \<times> nat" where
  "inode_slot fs n = ((unat n - 1) * 64 div unat (fs_block_size_bytes fs), (unat n - 1) * 64 mod unat (fs_block_size_bytes fs))"

lemma inode_location:
  assumes L: "layout_regions fs g" and n: "1 \<le> unat n" "unat n \<le> unat (fs_inode_count fs)"
  shows "unat (inode_block fs n) = unat (fs_inode_table_start fs) + fst (inode_slot fs n)"
    and "inode_offset fs n = snd (inode_slot fs n)"
    and "fst (inode_slot fs n) < unat (fs_inode_table_block_count fs)"
proof -
  note D = layout_regionsD [OF L]
  let ?bs = "unat (fs_block_size_bytes fs)"
  have off: "unat (ucast (n - SIMPLE_FS_ROOT_INODE_VALUE) * of_nat SIMPLE_FS_INODE_RECORD_SIZE_BYTES :: qword) = (unat n - 1) * 64"
    by (rule inode_byte_offset [OF n(1)])
  have "(unat n - 1) * 64 < unat (fs_inode_table_block_count fs) * ?bs" using D(9) n by linarith
  then show less: "fst (inode_slot fs n) < unat (fs_inode_table_block_count fs)"
    by (simp add: inode_slot_def less_mult_imp_div_less)
  show "inode_offset fs n = snd (inode_slot fs n)"
    using off by (simp add: inode_offset_def inode_slot_def Let_def unat_mod)
  have "unat (fs_inode_table_start fs) + fst (inode_slot fs n) < 2 ^ 64"
    using less D(6) unat_less_64 [of "fs_data_bitmap_start fs"] by linarith
  then show "unat (inode_block fs n) = unat (fs_inode_table_start fs) + fst (inode_slot fs n)"
    using off by (simp add: inode_block_def Let_def unat_plus_exact unat_div inode_slot_def)
qed

lemma inode_record_fits:
  assumes L: "layout_ok fs g"
  shows "snd (inode_slot fs n) + 64 \<le> unat (fs_block_size_bytes fs)"
proof -
  let ?bs = "unat (fs_block_size_bytes fs)"
  note D = layout_okD [OF L]
  obtain k where k: "?bs = 64 * k" using D(5) by (auto simp: dvd_def)
  with D(3) have "0 < k" by (cases k) auto
  then have "(unat n - 1) mod k + 1 \<le> k" by (simp add: Suc_leI)
  then have "((unat n - 1) mod k + 1) * 64 \<le> k * 64" by (rule mult_le_mono1)
  then show "snd (inode_slot fs n) + 64 \<le> ?bs"
    by (simp add: inode_slot_def k mult.commute [of _ 64] flip: mult_mod_right)
qed

text \<open>Two inodes have disjoint records.\<close>

lemma inode_slots_disjoint:
  assumes L: "layout_ok fs g" and "1 \<le> unat n" "1 \<le> unat k" "n \<noteq> k"
    and eq: "fst (inode_slot fs n) = fst (inode_slot fs k)"
  shows "snd (inode_slot fs n) + 64 \<le> snd (inode_slot fs k) \<or> snd (inode_slot fs k) + 64 \<le> snd (inode_slot fs n)"
proof -
  have "unat n \<noteq> unat k" using assms(4) by (simp add: word_unat_eq_iff)
  then have "(unat n - 1) * 64 + 64 \<le> (unat k - 1) * 64 \<or> (unat k - 1) * 64 + 64 \<le> (unat n - 1) * 64"
    using assms(2,3) by linarith
  moreover have "(unat n - 1) * 64 = fst (inode_slot fs n) * unat (fs_block_size_bytes fs) + snd (inode_slot fs n)"
    "(unat k - 1) * 64 = fst (inode_slot fs k) * unat (fs_block_size_bytes fs) + snd (inode_slot fs k)"
    by (simp_all add: inode_slot_def)
  ultimately show ?thesis using eq by simp
qed

lemma layout_ok_regions: "layout_ok fs g \<Longrightarrow> layout_regions fs g"
  by (simp add: layout_ok_def)

text \<open>A block size that is not a multiple of the record size: one record straddles two blocks.\<close>

lemma straddling_slot:
  assumes bs: "128 \<le> unat (fs_block_size_bytes fs)" "\<not> 64 dvd unat (fs_block_size_bytes fs)"
    and n: "unat n = unat (fs_block_size_bytes fs) div 64 + 1"
  shows "inode_slot fs n = (0, unat (fs_block_size_bytes fs) div 64 * 64)"
    and "unat (fs_block_size_bytes fs) < snd (inode_slot fs n) + 64"
proof -
  let ?bs = "unat (fs_block_size_bytes fs)"
  have split: "?bs = ?bs div 64 * 64 + ?bs mod 64" by simp
  have "0 < ?bs mod 64" using bs(2) by (simp add: dvd_eq_mod_eq_0)
  with split have less: "?bs div 64 * 64 < ?bs" by linarith
  then show slot: "inode_slot fs n = (0, ?bs div 64 * 64)" by (simp add: inode_slot_def n)
  have "?bs mod 64 < 64" by simp
  with split show "?bs < snd (inode_slot fs n) + 64" unfolding slot by simp
qed

end
