(* ===== verification/FsDisk.thy ===== *)
theory FsDisk
  imports FsLayout
begin

text \<open>
  The file system as functions of the blocks that the cache shows. The operations that only look are
  described by what they return for given blocks (\<open>bcs.reads\<close>); formatting and mounting follow.
\<close>

section \<open>Inodes on disk\<close>

type_synonym disk = "qword \<rightharpoonup> byte list"

definition block_at :: "disk \<Rightarrow> qword \<Rightarrow> exn + byte list" where
  "block_at m a = (case m a of None \<Rightarrow> Inl Out_of_range | Some b \<Rightarrow> Inr b)"

definition inode_at :: "simple_fs_layout \<Rightarrow> disk \<Rightarrow> inode_number \<Rightarrow> exn + inode_record" where
  "inode_at fs m n = sbind (validate_inode_number fs n) (\<lambda>_.
     sbind (block_at m (inode_block fs n)) (\<lambda>block.
     sbind (record_span (inode_offset fs n) block) (parse_inode fs n)))"

lemmas reads_rules = bcs.reads_bnd bcs.reads_sq bcs.reads_ret bcs.reads_throw bcs.reads_lift_sum

lemma reads_block_at:
  "bg_block_size_bytes g = fs_block_size_bytes fs \<Longrightarrow>
    bcs.reads g (bc_read_block a (unat (fs_block_size_bytes fs))) (\<lambda>m. block_at m a)"
  using bcs.reads_block [of g a] by (simp add: block_at_def)

lemma reads_read_inode:
  assumes "bg_block_size_bytes g = fs_block_size_bytes fs"
  shows "bcs.reads g (read_inode fs n) (\<lambda>m. inode_at fs m n)"
  unfolding read_inode_def inode_at_def by (intro reads_rules reads_block_at assms)

lemma reads_fs_metadata:
  assumes "bg_block_size_bytes g = fs_block_size_bytes fs"
  shows "bcs.reads g (fs_metadata fs n) (\<lambda>m. sbind (inode_at fs m n) (\<lambda>r. if \<not> ir_allocated r then Inl Out_of_range
    else Inr \<lparr>im_number = ir_number r, im_kind = ir_kind r, im_size_bytes = ir_size_bytes r\<rparr>))"
  unfolding fs_metadata_def by (intro reads_rules bcs.reads_if reads_read_inode assms)

section \<open>Formatting\<close>

text \<open>The blocks of a freshly formatted device.\<close>

definition root_block_bytes :: "simple_fs_layout \<Rightarrow> byte list" where
  "root_block_bytes fs = write_u64_le 8 0 (write_u16_le 2 1 (fs_write_u8 1 2 (fs_write_u8 0 1
     (make_zero_block (fs_block_size_bytes fs)))))"

lemma root_inode_block_run: "root_inode_block fs = Inr (root_block_bytes fs)"
  by (simp add: root_inode_block_def root_block_bytes_def sbind_def inode_offsets fs_constants)

lemma length_root_block_bytes [simp]: "length (root_block_bytes fs) = unat (fs_block_size_bytes fs)"
  by (simp add: root_block_bytes_def le_simps make_zero_block_def)

definition formatted_disk :: "simple_fs_layout \<Rightarrow> disk" where
  "formatted_disk fs a = (if unat a < unat (fs_block_count fs)
     then Some (if a = fs_inode_table_start fs then root_block_bytes fs
                else if a = 0 then superblock_bytes fs
                else make_zero_block (fs_block_size_bytes fs))
     else None)"

lemma write_all_blocks:
  assumes "bcs.shows_blocks g m s" and "n \<le> unat (bg_block_count g)" and "length b = unat (bg_block_size_bytes g)"
  shows "\<exists>s'. for_each (\<lambda>i. bc_write_block (of_nat i) b) [0..<n] s = (Inr (), s')
    \<and> bcs.shows_blocks g (\<lambda>a. if unat a < n then Some b else m a) s'"
  using assms(2)
proof (induction n)
  case 0
  then show ?case using assms(1) by (simp add: op_simps)
next
  case (Suc n)
  then obtain s1 where s1: "for_each (\<lambda>i. bc_write_block (of_nat i) b) [0..<n] s = (Inr (), s1)"
    "bcs.shows_blocks g (\<lambda>a. if unat a < n then Some b else m a) s1" by auto
  have n: "unat (of_nat n :: qword) = n"
    using Suc.prems unat_less_64 [of "bg_block_count g"] by (simp add: unsigned_of_nat take_bit_nat_eq_self)
  then have "of_nat n < bg_block_count g" using Suc.prems by (simp add: word_less_nat_alt)
  from bcs.write_block_shows [OF s1(2) this assms(3)] obtain s2 where
    s2: "bc_write_block (of_nat n) b s1 = (Inr (), s2)"
    "bcs.shows_blocks g ((\<lambda>a. if unat a < n then Some b else m a)(of_nat n \<mapsto> b)) s2" .
  have "((\<lambda>a. if unat a < n then Some b else m a)(of_nat n \<mapsto> b)) = (\<lambda>a. if unat a < Suc n then Some b else m a)"
    using n by (auto simp: fun_eq_iff less_Suc_eq word_unat_eq_iff)
  with s1(1) s2 show ?case by (simp add: for_each_append op_simps)
qed

lemma fs_format_spec:
  assumes s: "bcs.shows_blocks g m s" and mk: "make_layout g n = Inr fs" and L: "layout_ok fs g"
  obtains s' where "fs_format n s = (Inr (), s')" and "bcs.shows_blocks g (formatted_disk fs) s'"
    and "dev_blocks (bc_device s') = formatted_disk fs"
proof -
  note D = layout_okD [OF L]
  let ?z = "make_zero_block (fs_block_size_bytes fs)"
  have len: "length ?z = unat (bg_block_size_bytes g)" by (simp add: make_zero_block_def D(1))
  obtain s1 where s1: "for_each (\<lambda>i. bc_write_block (of_nat i) ?z) [0..<unat (bg_block_count g)] s = (Inr (), s1)"
    "bcs.shows_blocks g (\<lambda>a. if unat a < unat (bg_block_count g) then Some ?z else m a) s1"
    using write_all_blocks [OF s order_refl len] by blast
  have count: "0 < bg_block_count g" "fs_inode_table_start fs < bg_block_count g"
    using D(6-9,11) by (simp_all add: word_less_nat_alt)
  from bcs.write_block_shows [OF s1(2) count(1), of "superblock_bytes fs"] obtain s2 where
    s2: "bc_write_block 0 (superblock_bytes fs) s1 = (Inr (), s2)"
    "bcs.shows_blocks g ((\<lambda>a. if unat a < unat (bg_block_count g) then Some ?z else m a)(0 \<mapsto> superblock_bytes fs)) s2"
    by (auto simp: D(1))
  from bcs.write_block_shows [OF s2(2) count(2), of "root_block_bytes fs"] obtain s3 where
    s3: "bc_write_block (fs_inode_table_start fs) (root_block_bytes fs) s2 = (Inr (), s3)"
    "bcs.shows_blocks g ((\<lambda>a. if unat a < unat (bg_block_count g) then Some ?z else m a)(0 \<mapsto> superblock_bytes fs,
        fs_inode_table_start fs \<mapsto> root_block_bytes fs)) s3"
    by (auto simp: D(1))
  have "((\<lambda>a. if unat a < unat (bg_block_count g) then Some ?z else m a)(0 \<mapsto> superblock_bytes fs,
        fs_inode_table_start fs \<mapsto> root_block_bytes fs)) = formatted_disk fs"
  proof
    fix a
    have "m a = None" if "\<not> unat a < unat (bg_block_count g)"
      using bcs.blocks_dom [of s a] s that by (simp add: bcs.shows_blocks_def word_less_nat_alt)
    then show "((\<lambda>a. if unat a < unat (bg_block_count g) then Some ?z else m a)(0 \<mapsto> superblock_bytes fs,
        fs_inode_table_start fs \<mapsto> root_block_bytes fs)) a = formatted_disk fs a"
      using count by (auto simp: formatted_disk_def D(2) word_less_nat_alt)
  qed
  with s3(2) have shown: "bcs.shows_blocks g (formatted_disk fs) s3" by simp
  then obtain s' where "flush_all s3 = (Inr (), s')" "sees s3 (bc_blocks s3) s'" "dev_blocks (bc_device s') = bc_blocks s3"
    using flush_all_spec [of s3] unfolding bcs.shows_blocks_def by metis
  moreover have "bc_geometry s = g" using s by (simp add: bcs.shows_blocks_def)
  ultimately show thesis
    using s1(1) s2(1) s3(1) shown mk
    by (intro that [of s'])
       (auto simp: fs_format_def op_simps root_inode_block_run write_superblock_def D(2) bcs.shows_blocks_def sees_def)
qed

section \<open>Mounting\<close>

lemma validate_inode_number_run:
  "validate_inode_number fs n = (if 1 \<le> unat n \<and> unat n \<le> unat (fs_inode_count fs) then Inr () else Inl Out_of_range)"
  by (auto simp: validate_inode_number_def is_valid_inode_def fs_constants word_less_nat_alt not_less
      Suc_le_eq unat_gt_0)

definition disk_ok :: "simple_fs_layout \<Rightarrow> disk \<Rightarrow> bool" where
  "disk_ok fs m \<longleftrightarrow> (\<forall>a. unat a < unat (fs_block_count fs) \<longrightarrow> (\<exists>b. m a = Some b \<and> length b = unat (fs_block_size_bytes fs)))"

lemma shows_disk_ok:
  assumes "bcs.shows_blocks g m s" and "layout_ok fs g" shows "disk_ok fs m"
  unfolding disk_ok_def
proof (intro allI impI)
  fix a :: qword assume "unat a < unat (fs_block_count fs)"
  then have "a < bg_block_count g" using layout_okD(2) [OF assms(2)] by (simp add: word_less_nat_alt)
  from bcs.block_shown [OF assms(1) this]
  show "\<exists>b. m a = Some b \<and> length b = unat (fs_block_size_bytes fs)" using layout_okD(1) [OF assms(2)] by metis
qed

lemma disk_okD:
  assumes "disk_ok fs m" and "unat a < unat (fs_block_count fs)"
  obtains b where "m a = Some b" and "length b = unat (fs_block_size_bytes fs)"
  using assms unfolding disk_ok_def by blast

lemma disk_ok_update:
  "disk_ok fs m \<Longrightarrow> length b = unat (fs_block_size_bytes fs) \<Longrightarrow> disk_ok fs (m(a \<mapsto> b))"
  by (auto simp: disk_ok_def)

definition inode_valid :: "simple_fs_layout \<Rightarrow> inode_number \<Rightarrow> bool" where
  "inode_valid fs n \<longleftrightarrow> 1 \<le> unat n \<and> unat n \<le> unat (fs_inode_count fs)"

lemma inode_block_bounds:
  assumes L: "layout_ok fs g" and n: "inode_valid fs n"
  shows "unat (fs_inode_table_start fs) \<le> unat (inode_block fs n)" and "unat (inode_block fs n) < unat (fs_data_bitmap_start fs)"
    and "unat (inode_block fs n) < unat (fs_block_count fs)" and "inode_block fs n \<noteq> 0"
proof -
  note I = inode_location [OF layout_ok_regions [OF L], of n] inode_record_fits [OF L, of n]
  note D = layout_okD [OF L]
  show 1: "unat (fs_inode_table_start fs) \<le> unat (inode_block fs n)" "unat (inode_block fs n) < unat (fs_data_bitmap_start fs)"
    using n I D(7) by (simp_all add: inode_valid_def)
  show "unat (inode_block fs n) < unat (fs_block_count fs)" using 1 D(2,8,9) by simp
  show "inode_block fs n \<noteq> 0" using 1(1) D(6) by auto
qed

lemma inode_at_run:
  assumes L: "layout_ok fs g" and n: "inode_valid fs n"
    and b: "m (inode_block fs n) = Some b" "length b = unat (fs_block_size_bytes fs)"
  shows "inode_at fs m n = parse_inode fs n (subspan (inode_offset fs n) 64 b)"
  using inode_location [OF layout_ok_regions [OF L], of n] inode_record_fits [OF L, of n] n b
  by (simp add: inode_at_def inode_valid_def sbind_def validate_inode_number_run block_at_def record_span_def fs_constants)

lemma inode_at_invalid: "\<not> inode_valid fs n \<Longrightarrow> inode_at fs m n = Inl Out_of_range"
  by (auto simp: inode_at_def sbind_def validate_inode_number_run inode_valid_def)

definition root_record :: inode_record where
  "root_record = \<lparr>ir_number = 1, ir_kind = DIRECTORY, ir_size_bytes = 0, ir_direct_blocks = replicate 6 0, ir_allocated = True\<rparr>"

lemma nth_root_block_bytes:
  assumes "16 \<le> i" and "i < unat (fs_block_size_bytes fs)" shows "root_block_bytes fs ! i = 0"
  using assms
  by (simp add: root_block_bytes_def make_zero_block_def write_u64_le_def write_u16_le_def fs_write_u8_def
      nth_write_bytes_le)

lemma parse_root_record:
  assumes "64 \<le> unat (fs_block_size_bytes fs)"
  shows "parse_inode fs 1 (subspan 0 64 (root_block_bytes fs)) = Inr root_record"
proof -
  let ?b = "subspan 0 64 (root_block_bytes fs)"
  have nth: "?b ! i = root_block_bytes fs ! i" if "i < 64" for i using that assms by (simp add: nth_subspan)
  have "fs_read_u8 (root_block_bytes fs) 0 = 1" "fs_read_u8 (root_block_bytes fs) 1 = 2"
    "read_u64_le (root_block_bytes fs) 8 = 0"
    using assms unfolding root_block_bytes_def by (simp_all add: le_simps make_zero_block_def)
  moreover have "read_bytes_le ?b 8 8 = read_bytes_le (root_block_bytes fs) 8 8"
    by (rule read_bytes_le_cong) (simp_all add: nth)
  ultimately have fields: "fs_read_u8 ?b 0 = 1" "fs_read_u8 ?b 1 = 2" "read_u64_le ?b 8 = 0"
    by (simp_all add: fs_read_u8_def read_u64_le_def nth)
  have "read_u64_le ?b (16 + i * 8) = 0" if "i < 6" for i
  proof -
    have "read_bytes_le ?b (16 + i * 8) 8 = read_bytes_le (replicate 64 0) (16 + i * 8) 8"
      by (rule read_bytes_le_cong) (use that assms in \<open>auto simp: nth nth_root_block_bytes\<close>)
    with that show ?thesis by (simp add: read_u64_le_def)
  qed
  then have "parse_direct_blocks fs ?b [0..<6] = Inr (map (\<lambda>i. 0) [0..<6])"
    using parse_direct_blocks_run [of "[0..<6]" fs ?b] by (simp add: data_block_ok_def cong: map_cong)
  then show ?thesis
    using fields by (simp add: parse_inode_def inode_offsets fs_constants node_kind_from_disk_def sbind_def
        root_record_def map_replicate_const)
qed

lemma formatted_inode:
  assumes L: "layout_ok fs g" and n: "inode_valid fs n"
  shows "inode_at fs (formatted_disk fs) n = Inr (if n = 1 then root_record else empty_inode_record\<lparr>ir_number := n\<rparr>)"
proof -
  note D = layout_okD [OF L] and B = inode_block_bounds [OF L n]
  note I = inode_location [OF layout_ok_regions [OF L], of n] inode_record_fits [OF L, of n]
  let ?b = "the (formatted_disk fs (inode_block fs n))"
  have b: "formatted_disk fs (inode_block fs n) = Some ?b"
    "?b = (if inode_block fs n = fs_inode_table_start fs then root_block_bytes fs else make_zero_block (fs_block_size_bytes fs))"
    using B by (simp_all add: formatted_disk_def)
  have len: "length ?b = unat (fs_block_size_bytes fs)" by (simp add: b(2) make_zero_block_def)
  note run = inode_at_run [OF L n, of "formatted_disk fs", OF b(1) len]
  show ?thesis
  proof (cases "n = 1")
    case True
    then have slot: "inode_slot fs n = (0, 0)" by (simp add: inode_slot_def)
    then have "inode_block fs n = fs_inode_table_start fs" "inode_offset fs n = 0"
      using I n by (simp_all add: inode_valid_def word_unat_eq_iff)
    with True run b(2) parse_root_record [of fs] D(3) show ?thesis by simp
  next
    case False
    have "?b ! (inode_offset fs n + i) = 0" if "i < 64" for i
    proof (cases "inode_block fs n = fs_inode_table_start fs")
      case True
      have one: "1 \<le> unat (1 :: dword)" by simp
      have "fst (inode_slot fs n) = fst (inode_slot fs 1)" using True I n by (simp add: inode_valid_def inode_slot_def [of fs 1] word_unat_eq_iff)
      with inode_slots_disjoint [OF L _ one, of n] False n have "64 \<le> inode_offset fs n"
        using I by (auto simp: inode_valid_def inode_slot_def [of fs 1])
      with True b(2) that I n show ?thesis by (simp add: inode_valid_def nth_root_block_bytes)
    next
      case False
      with b(2) that I n show ?thesis by (simp add: make_zero_block_def inode_valid_def)
    qed
    then have "parse_inode fs n (subspan (inode_offset fs n) 64 ?b) = Inr (empty_inode_record\<lparr>ir_number := n\<rparr>)"
      using I n len by (intro parse_zero_record) (simp_all add: inode_valid_def nth_subspan)
    with run False show ?thesis by simp
  qed
qed

lemma reads_geometry: "bcs.reads g (gets bc_geometry) (\<lambda>m. Inr g)"
  by (simp add: bcs.reads_def views_def gets_def bcs.shows_blocks_def)

lemma reads_superblock:
  "bcs.reads g read_superblock (\<lambda>m. sbind (block_at m 0) (\<lambda>b. sbind (parse_superblock b) (\<lambda>fs.
     sbind (validate_layout fs g) (\<lambda>_. Inr fs))))"
proof -
  let ?rest = "bnd (bc_read_block 0 (unat (bg_block_size_bytes g))) (\<lambda>block.
    bnd (lift_sum (parse_superblock block)) (\<lambda>layout.
    bnd (gets bc_geometry) (\<lambda>geometry. sq (lift_sum (validate_layout layout geometry)) (ret layout))))"
  have "bcs.reads g ?rest (\<lambda>m. sbind (case m 0 of None \<Rightarrow> Inl Out_of_range | Some b \<Rightarrow> Inr b) (\<lambda>b.
    sbind (parse_superblock b) (\<lambda>fs. sbind (Inr g) (\<lambda>g. sbind (validate_layout fs g) (\<lambda>_. Inr fs)))))"
    by (intro reads_rules reads_geometry bcs.reads_block)
  then have rest: "bcs.reads g ?rest (\<lambda>m. sbind (block_at m 0) (\<lambda>b. sbind (parse_superblock b) (\<lambda>fs.
     sbind (validate_layout fs g) (\<lambda>_. Inr fs))))"
    by (simp add: block_at_def sbind_def [of "Inr g"])
  have "read_superblock s = ?rest s" if "bcs.shows_blocks g m s" for m s
    using that by (simp add: read_superblock_def bnd_run gets_def bcs.shows_blocks_def)
  with rest show ?thesis unfolding bcs.reads_def views_def by simp
qed

lemma mount_spec:
  assumes s: "bcs.shows_blocks g m s" and L: "layout_ok fs g" and super: "m 0 = Some (superblock_bytes fs)"
    and root: "inode_at fs m (fs_root_inode fs) = Inr r" "ir_allocated r" "ir_kind r = DIRECTORY"
  obtains s' where "SimpleFileSystem s = (Inr fs, s')" and "bcs.shows_blocks g m s'"
proof -
  note D = layout_okD [OF L]
  have parse: "parse_superblock (superblock_bytes fs) = Inr fs"
    using D(3,4) by (intro parse_superblock_bytes) (simp_all add: word_le_nat_alt)
  obtain s1 where s1: "read_superblock s = (Inr fs, s1)" "bcs.shows_blocks g m s1"
    using bcs.readsD [OF reads_superblock s] super parse layout_valid [OF layout_ok_regions [OF L]]
    by (auto simp: block_at_def sbind_def)
  obtain s2 where s2: "read_inode fs (fs_root_inode fs) s1 = (Inr r, s2)" "bcs.shows_blocks g m s2"
    using bcs.readsD [OF reads_read_inode s1(2)] root(1) D(1) by metis
  from s1(1) s2 root show thesis by (intro that [of s2]) (simp_all add: SimpleFileSystem_def op_simps)
qed

lemma formatted_contents:
  assumes c: "bcs.shows_blocks g (formatted_disk fs) c" and L: "layout_ok fs g" and root: "fs_root_inode fs = 1"
  shows "\<exists>c'. fs_read_directory fs (fs_root_inode fs) c = (Inr [], c')"
    and "inode_valid fs i \<Longrightarrow> i \<noteq> fs_root_inode fs \<Longrightarrow> \<exists>c'. fs_metadata fs i c = (Inl Out_of_range, c')"
proof -
  note D = layout_okD [OF L]
  have "inode_valid fs 1" using D(14,15) root by (simp add: inode_valid_def)
  then have "inode_at fs (formatted_disk fs) 1 = Inr root_record" using formatted_inode [OF L, of 1] by simp
  then obtain c' where "read_inode fs 1 c = (Inr root_record, c')"
    using bcs.readsD [OF reads_read_inode [of g fs 1] c] D(1) by metis
  then show "\<exists>c'. fs_read_directory fs (fs_root_inode fs) c = (Inr [], c')"
    by (simp add: fs_read_directory_def root op_simps validate_directory_inode_def root_record_def
        read_inode_bytes_def)
  assume "inode_valid fs i" "i \<noteq> fs_root_inode fs"
  then have "inode_at fs (formatted_disk fs) i = Inr (empty_inode_record\<lparr>ir_number := i\<rparr>)"
    using formatted_inode [OF L, of i] root by simp
  then show "\<exists>c'. fs_metadata fs i c = (Inl Out_of_range, c')"
    using bcs.readsD [OF reads_fs_metadata [of g fs i] c] D(1)
    by (simp add: sbind_def empty_inode_record_def) metis
qed

text \<open>
  C31: Formatting and mounting. On a device whose geometry admits a layout, with a block size that is a multiple of
  64, formatting succeeds; everything it wrote is on the device, not only in the cache; mounting it through
  any cache over that device succeeds with exactly the layout that was computed; all inodes but the root are
  free and the root is an empty directory.
\<close>

theorem format_then_mount:
  assumes "cache_ok c" and "bc_geometry c = g" and "64 dvd unat (bg_block_size_bytes g)"
    and "1 \<le> n" and "make_layout g n = Inr fs"
  shows "\<exists>c'. fs_format n c = (Inr (), c') \<and> cache_ok c' \<and> dev_blocks (bc_device c') = bc_blocks c'
    \<and> (\<forall>k c2. BufferCache (bc_device c') k = Inr c2 \<longrightarrow>
        (\<exists>c3. SimpleFileSystem c2 = (Inr fs, c3) \<and> cache_ok c3
          \<and> (\<exists>c4. fs_read_directory fs (fs_root_inode fs) c3 = (Inr [], c4))
          \<and> (\<forall>i. inode_valid fs i \<longrightarrow> i \<noteq> fs_root_inode fs \<longrightarrow> (\<exists>c4. fs_metadata fs i c3 = (Inl Out_of_range, c4)))))"
proof -
  have s: "bcs.shows_blocks g (bc_blocks c) c" using assms(1,2) by (simp add: bcs.shows_blocks_def)
  have dev: "dev_ok (bc_device c)" by (rule cache_invD(1) [OF assms(1)])
  then have "unat (bg_block_size_bytes g) * unat (bg_block_count g) < 2 ^ 64" using assms(2) by (auto simp: dev_ok_def)
  with make_layout_regions [OF assms(5,4)] have "layout_regions fs g" and root: "fs_root_inode fs = 1" by auto
  with assms(3) have L: "layout_ok fs g" using layout_regionsD(1) [of fs g] by (simp add: layout_ok_def)
  note D = layout_okD [OF L]
  obtain c' where c': "fs_format n c = (Inr (), c')" "bcs.shows_blocks g (formatted_disk fs) c'"
    "dev_blocks (bc_device c') = formatted_disk fs" by (rule fs_format_spec [OF s assms(5) L])
  have mounted: "\<exists>c3. SimpleFileSystem c2 = (Inr fs, c3) \<and> bcs.shows_blocks g (formatted_disk fs) c3"
    if "BufferCache (bc_device c') k = Inr c2" for k c2
  proof -
    have "dev_ok (bc_device c')" using c'(2) cache_invD(1) [of "{}" c'] by (simp add: bcs.shows_blocks_def)
    from BufferCache_spec [OF this that] c' have c2: "bcs.shows_blocks g (formatted_disk fs) c2"
      by (simp add: bcs.shows_blocks_def)
    have "unat (1 :: dword) \<le> unat (fs_inode_count fs)" using D(14,15) root by simp
    then have "inode_at fs (formatted_disk fs) (fs_root_inode fs) = Inr root_record"
      using formatted_inode [OF L, of 1] root by (simp add: inode_valid_def)
    moreover have "formatted_disk fs 0 = Some (superblock_bytes fs)"
      using D(2,6,9,11) by (auto simp: formatted_disk_def)
    ultimately show ?thesis using mount_spec [OF c2 L] by (metis root_record_def inode_record.select_convs(2,5))
  qed
  then have "\<exists>c3. SimpleFileSystem c2 = (Inr fs, c3) \<and> cache_ok c3
      \<and> (\<exists>c4. fs_read_directory fs (fs_root_inode fs) c3 = (Inr [], c4))
      \<and> (\<forall>i. inode_valid fs i \<longrightarrow> i \<noteq> fs_root_inode fs \<longrightarrow> (\<exists>c4. fs_metadata fs i c3 = (Inl Out_of_range, c4)))"
    if "BufferCache (bc_device c') k = Inr c2" for k c2
    using that formatted_contents [OF _ L root] by (metis bcs.shows_blocks_def)
  moreover have "cache_ok c'" "dev_blocks (bc_device c') = bc_blocks c'" using c' by (simp_all add: bcs.shows_blocks_def)
  ultimately show ?thesis using c'(1) by blast
qed

definition sample_geometry :: block_device_geometry where
  "sample_geometry = \<lparr>bg_block_size_bytes = 128, bg_block_count = 8, bg_capacity_bytes = 1024\<rparr>"

lemma sample_layout: "make_layout sample_geometry 2 = Inr sample_layout_128"
  by (simp add: make_layout_def sample_geometry_def sample_layout_128_def checked_inode_table_block_count_def
      checked_bitmap_block_count_def ceil_div_u64_def sbind_def Let_def fs_constants)

lemma sample_fs_ok: "layout_ok sample_layout_128 sample_geometry"
  by (simp add: layout_ok_def layout_regions_def sample_layout_128_def sample_geometry_def)

lemma sample_fs_cache:
  obtains d c where "MemoryBlockDevice sample_geometry = Inr d" and "BufferCache d 2 = Inr c"
    and "cache_ok c" and "bc_geometry c = sample_geometry"
proof -
  let ?d = "\<lparr>bd_geometry = sample_geometry, bd_storage = replicate 1024 0\<rparr>"
  have "BlockDeviceGeometry 128 8 = Inr sample_geometry"
    by (simp add: BlockDeviceGeometry_def checked_capacity_bytes_def sbind_def sample_geometry_def)
  moreover have d: "MemoryBlockDevice sample_geometry = Inr ?d"
    by (simp add: MemoryBlockDevice_def storage_size_for_capacity_def sbind_def sample_geometry_def)
  ultimately have ok: "dev_ok ?d" using dev_ok_new by blast
  obtain c where c: "BufferCache ?d 2 = Inr c"
    by (simp add: BufferCache_def checked_cache_storage_size_def sbind_def sample_geometry_def)
  from BufferCache_spec [OF ok c] d c show thesis by (intro that [of ?d c]) simp_all
qed

text \<open>Witness: eight blocks of 128 bytes and two inodes.\<close>

theorem format_then_mount_witness:
  "\<exists>c c'. bc_geometry c = sample_geometry \<and> fs_format 2 c = (Inr (), c') \<and> dev_blocks (bc_device c') = bc_blocks c'"
proof -
  obtain d c where c: "cache_ok c" "bc_geometry c = sample_geometry" by (rule sample_fs_cache)
  have "64 dvd unat (bg_block_size_bytes sample_geometry)" by (simp add: sample_geometry_def)
  with format_then_mount [OF c _ _ sample_layout] c(2) show ?thesis by auto
qed

section \<open>Block sizes that no check refuses\<close>


definition odd_geometry :: block_device_geometry where
  "odd_geometry = \<lparr>bg_block_size_bytes = 160, bg_block_count = 8, bg_capacity_bytes = 1280\<rparr>"


end
