(* ===== verification/FsAlloc.thy ===== *)
theory FsAlloc
  imports FsDisk
begin

text \<open>
  The bitmap of the data blocks: the count of free blocks is exact, and the allocation takes the first free
  block, marks it, clears it and leaves every other block alone.
\<close>

section \<open>Bits\<close>

lemma bit_test_bitmap: "test_bitmap_bit b k \<longleftrightarrow> bit (b ! (k div 8)) (k mod 8)"
  by (simp add: test_bitmap_bit_def fs_constants Let_def push_bit_one_exp and_exp_eq_0_iff_not_bit)

lemma length_set_bitmap_bit [simp]: "length (set_bitmap_bit k b) = length b"
  by (simp add: set_bitmap_bit_def Let_def)

lemma test_set_bitmap_bit:
  assumes "k div 8 < length b"
  shows "test_bitmap_bit (set_bitmap_bit k b) j \<longleftrightarrow> j = k \<or> test_bitmap_bit b j"
proof -
  have "k = k div 8 * 8 + k mod 8" "j = j div 8 * 8 + j mod 8" by simp_all
  then have eq: "j = k \<longleftrightarrow> j div 8 = k div 8 \<and> j mod 8 = k mod 8" by metis
  show ?thesis
    using assms unfolding bit_test_bitmap set_bitmap_bit_def
    by (cases "j div 8 = k div 8") (auto simp: eq fs_constants Let_def bit_or_iff push_bit_one_exp bit_exp_iff)
qed

abbreviation bits_per_block :: "simple_fs_layout \<Rightarrow> nat" where
  "bits_per_block fs \<equiv> unat (fs_block_size_bytes fs) * 8"

abbreviation data_count :: "simple_fs_layout \<Rightarrow> nat" where
  "data_count fs \<equiv> unat (fs_data_block_count fs)"

abbreviation bitmap_count :: "simple_fs_layout \<Rightarrow> nat" where
  "bitmap_count fs \<equiv> unat (fs_data_bitmap_block_count fs)"

definition bitmap_block :: "simple_fs_layout \<Rightarrow> nat \<Rightarrow> qword" where
  "bitmap_block fs i = fs_data_bitmap_start fs + of_nat i"

definition data_block :: "simple_fs_layout \<Rightarrow> nat \<Rightarrow> qword" where
  "data_block fs k = fs_data_start fs + of_nat k"

definition block_bit :: "simple_fs_layout \<Rightarrow> disk \<Rightarrow> nat \<Rightarrow> bool" where
  "block_bit fs m k \<longleftrightarrow> test_bitmap_bit (the (m (bitmap_block fs (k div bits_per_block fs)))) (k mod bits_per_block fs)"

definition free_blocks :: "simple_fs_layout \<Rightarrow> disk \<Rightarrow> nat" where
  "free_blocks fs m = length (filter (\<lambda>k. \<not> block_bit fs m k) [0..<data_count fs])"

lemma bits_pos: "layout_ok fs g \<Longrightarrow> 0 < bits_per_block fs"
  using layout_okD(3) [of fs g] by simp

lemma bitmap_block_unat:
  assumes L: "layout_ok fs g" and i: "i < bitmap_count fs"
  shows "unat (bitmap_block fs i) = unat (fs_data_bitmap_start fs) + i"
    and "unat (fs_data_bitmap_start fs) \<le> unat (bitmap_block fs i)"
    and "unat (bitmap_block fs i) < unat (fs_data_start fs)" and "bitmap_block fs i < bg_block_count g"
proof -
  note D = layout_okD [OF L]
  have "unat (fs_data_bitmap_start fs) + i < 2 ^ 64" using i D(8) unat_less_64 [of "fs_data_start fs"] by linarith
  then show 1: "unat (bitmap_block fs i) = unat (fs_data_bitmap_start fs) + i"
    by (simp add: bitmap_block_def unat_add_of_nat)
  then show "unat (fs_data_bitmap_start fs) \<le> unat (bitmap_block fs i)" "unat (bitmap_block fs i) < unat (fs_data_start fs)"
    "bitmap_block fs i < bg_block_count g" using i D(8,9) by (simp_all add: word_less_nat_alt)
qed

lemma data_block_unat:
  assumes L: "layout_ok fs g" and k: "k < data_count fs"
  shows "unat (data_block fs k) = unat (fs_data_start fs) + k" and "data_block fs k < bg_block_count g"
    and "data_block fs k \<noteq> 0" and "data_block_ok fs (data_block fs k)"
proof -
  note D = layout_okD [OF L]
  have "unat (fs_data_start fs) + k < 2 ^ 64" using k D(9) unat_less_64 [of "bg_block_count g"] by linarith
  then show 1: "unat (data_block fs k) = unat (fs_data_start fs) + k" by (simp add: data_block_def unat_add_of_nat)
  then show "data_block fs k < bg_block_count g" using k D(9) by (simp add: word_less_nat_alt)
  show "data_block fs k \<noteq> 0" using 1 D(6,7,8) by (auto simp: unat_eq_zero [symmetric] simp del: unat_eq_zero)
  show "data_block_ok fs (data_block fs k)"
    using 1 k layout_sums(3) [OF layout_ok_regions [OF L]]
    by (simp add: data_block_ok_def word_le_nat_alt word_less_nat_alt)
qed

lemma data_block_inj:
  "layout_ok fs g \<Longrightarrow> j < data_count fs \<Longrightarrow> k < data_count fs \<Longrightarrow> data_block fs j = data_block fs k \<longleftrightarrow> j = k"
  using data_block_unat(1) [of fs g] by (metis add_left_cancel)

lemma data_base_unat:
  assumes L: "layout_ok fs g" and i: "i < bitmap_count fs"
  shows "unat (of_nat i * bitmap_bits_per_block (fs_block_size_bytes fs)) = i * bits_per_block fs"
proof -
  note D = layout_okD [OF L]
  have "i < 2 ^ 64" using i unat_less_32 [of "fs_data_bitmap_block_count fs"] by simp
  then have "unat (of_nat i :: qword) = i" by (simp add: unsigned_of_nat take_bit_nat_eq_self)
  moreover have "i * bits_per_block fs < 2 ^ 64"
    using D(13) mult_le_mono1 [OF order_less_imp_le [OF i], of "bits_per_block fs"] by linarith
  ultimately show ?thesis
    using unat_mult_exact [of "of_nat i" "fs_block_size_bytes fs * 8"] layout_sums(4) [OF layout_ok_regions [OF L]]
    by (simp add: bitmap_bits_per_block_def fs_constants)
qed

lemma bits_to_scan_run:
  assumes L: "layout_ok fs g" and i: "i < bitmap_count fs" and b: "i * bits_per_block fs < data_count fs"
  shows "bits_to_scan fs (of_nat i * bitmap_bits_per_block (fs_block_size_bytes fs))
    = min (bits_per_block fs) (data_count fs - i * bits_per_block fs)"
proof -
  let ?base = "of_nat i * bitmap_bits_per_block (fs_block_size_bytes fs)"
  have base: "unat ?base = i * bits_per_block fs" by (rule data_base_unat [OF L i])
  then have "unat (fs_data_block_count fs - ?base) = data_count fs - i * bits_per_block fs"
    using b by (simp add: unat_sub word_le_nat_alt)
  moreover have "unat (bitmap_bits_per_block (fs_block_size_bytes fs)) = bits_per_block fs"
    using layout_sums(4) [OF layout_ok_regions [OF L]] by (simp add: bitmap_bits_per_block_def fs_constants)
  ultimately show ?thesis by (simp add: bits_to_scan_def min_def word_le_nat_alt)
qed

section \<open>Counting\<close>

text \<open>The bits of one bitmap block are the bits of a range of data blocks.\<close>

lemma block_bit_split:
  assumes "j < bits_per_block fs"
  shows "block_bit fs m (i * bits_per_block fs + j) \<longleftrightarrow> test_bitmap_bit (the (m (bitmap_block fs i))) j"
proof -
  have "(i * bits_per_block fs + j) div bits_per_block fs = i" "(i * bits_per_block fs + j) mod bits_per_block fs = j"
    using assms by simp_all
  then show ?thesis by (simp only: block_bit_def)
qed

lemma reads_bitmap:
  assumes L: "layout_ok fs g" and i: "i < bitmap_count fs"
  shows "bcs.reads g (bc_read_block (fs_data_bitmap_start fs + of_nat i) (unat (fs_block_size_bytes fs)))
    (\<lambda>m. Inr (the (m (bitmap_block fs i))))"
proof (rule bcs.reads_cong [OF reads_block_at])
  show "bg_block_size_bytes g = fs_block_size_bytes fs" by (simp add: layout_okD(1) [OF L])
  fix m s assume "bcs.shows_blocks g m s"
  from bcs.block_shown [OF this bitmap_block_unat(4) [OF L i]] obtain b where "m (bitmap_block fs i) = Some b" .
  then show "block_at m (fs_data_bitmap_start fs + of_nat i) = Inr (the (m (bitmap_block fs i)))"
    by (simp add: block_at_def bitmap_block_def)
qed

text \<open>The data blocks from bitmap block \<open>i\<close> on that are free.\<close>

definition free_from :: "simple_fs_layout \<Rightarrow> disk \<Rightarrow> nat \<Rightarrow> nat list" where
  "free_from fs m i = filter (\<lambda>k. \<not> block_bit fs m k) [i * bits_per_block fs..<data_count fs]"

lemma free_from_step:
  assumes "i * bits_per_block fs < data_count fs"
  shows "free_from fs m i = map (\<lambda>j. i * bits_per_block fs + j) (filter (\<lambda>j. \<not> test_bitmap_bit (the (m (bitmap_block fs i))) j)
      [0..<min (bits_per_block fs) (data_count fs - i * bits_per_block fs)]) @ free_from fs m (Suc i)"
proof -
  let ?n = "bits_per_block fs" and ?c = "data_count fs"
  let ?s = "min ?n (?c - i * ?n)"
  have "[i * ?n..<?c] = [i * ?n..<i * ?n + ?s] @ [Suc i * ?n..<?c]"
  proof (cases "Suc i * ?n \<le> ?c")
    case True
    then have "?s = ?n" by simp
    then show ?thesis using True upt_add_eq_append [of "i * ?n" "Suc i * ?n" "?c - Suc i * ?n"] by (simp add: add.commute)
  next
    case False
    then have "?s = ?c - i * ?n" by simp
    then show ?thesis using False assms by simp
  qed
  moreover have "[i * ?n..<i * ?n + ?s] = map (\<lambda>j. i * ?n + j) [0..<?s]" by (simp add: map_add_upt add.commute)
  ultimately have "free_from fs m i = filter (\<lambda>k. \<not> block_bit fs m k) (map (\<lambda>j. i * ?n + j) [0..<?s]) @ free_from fs m (Suc i)"
    by (simp add: free_from_def)
  also have "filter (\<lambda>k. \<not> block_bit fs m k) (map (\<lambda>j. i * ?n + j) [0..<?s])
      = map (\<lambda>j. i * ?n + j) (filter (\<lambda>j. \<not> block_bit fs m (i * ?n + j)) [0..<?s])"
    by (simp add: filter_map comp_def)
  also have "filter (\<lambda>j. \<not> block_bit fs m (i * ?n + j)) [0..<?s]
      = filter (\<lambda>j. \<not> test_bitmap_bit (the (m (bitmap_block fs i))) j) [0..<?s]"
    by (rule filter_cong) (simp_all add: block_bit_split)
  finally show ?thesis .
qed

lemma free_from_beyond: "data_count fs \<le> i * bits_per_block fs \<Longrightarrow> free_from fs m i = []"
  by (simp add: free_from_def)

lemma free_from_0: "free_blocks fs m = length (free_from fs m 0)"
  by (simp add: free_blocks_def free_from_def)

lemma reads_free_loop:
  assumes L: "layout_ok fs g" and "i \<le> bitmap_count fs"
  shows "bcs.reads g (free_data_block_loop fs n [i..<bitmap_count fs]) (\<lambda>m. Inr (n + length (free_from fs m i)))"
  using assms(2)
proof (induction "bitmap_count fs - i" arbitrary: i n)
  case 0
  then have "data_count fs \<le> i * bits_per_block fs" using layout_okD(12) [OF L] by simp
  with 0 show ?case by (simp add: bcs.reads_ret free_from_beyond)
next
  case (Suc k)
  then have i: "i < bitmap_count fs" by simp
  then have list: "[i..<bitmap_count fs] = i # [Suc i..<bitmap_count fs]" by (simp add: upt_conv_Cons)
  let ?base = "of_nat i * bitmap_bits_per_block (fs_block_size_bytes fs)"
  have base: "unat ?base = i * bits_per_block fs" by (rule data_base_unat [OF L i])
  show ?case
  proof (cases "data_count fs \<le> i * bits_per_block fs")
    case True
    then have "fs_data_block_count fs \<le> ?base" by (simp add: word_le_nat_alt base)
    then have "bcs.reads g (free_data_block_loop fs n [i..<bitmap_count fs]) (\<lambda>m. sbind (Inr (the (m (bitmap_block fs i)))) (\<lambda>_. Inr n))"
      unfolding list by (simp add: Let_def) (intro bcs.reads_bnd bcs.reads_ret reads_bitmap [OF L i])
    then show ?thesis by (simp add: sbind_def free_from_beyond [OF True])
  next
    case False
    then have less: "\<not> fs_data_block_count fs \<le> ?base" by (simp add: word_le_nat_alt base)
    let ?free = "\<lambda>b. length (filter (\<lambda>j. \<not> test_bitmap_bit b j) [0..<bits_to_scan fs ?base])"
    have IH: "bcs.reads g (free_data_block_loop fs n [Suc i..<bitmap_count fs]) (\<lambda>m. Inr (n + length (free_from fs m (Suc i))))" for n
      by (rule Suc.hyps(1)) (use Suc.hyps(2) i in auto)
    have "bcs.reads g (free_data_block_loop fs n [i..<bitmap_count fs])
      (\<lambda>m. sbind (Inr (the (m (bitmap_block fs i)))) (\<lambda>b. Inr (n + ?free b + length (free_from fs m (Suc i)))))"
      unfolding list using less by (simp add: Let_def) (intro bcs.reads_bnd IH reads_bitmap [OF L i])
    then show ?thesis
      using False by (simp add: sbind_def free_from_step bits_to_scan_run [OF L i] add.assoc)
  qed
qed

lemma reads_free_data_block_count:
  "layout_ok fs g \<Longrightarrow> bcs.reads g (free_data_block_count fs) (\<lambda>m. Inr (free_blocks fs m))"
  using reads_free_loop [of fs g 0 0] by (simp add: free_data_block_count_def free_from_0)

section \<open>Allocation\<close>

definition allocated_disk :: "simple_fs_layout \<Rightarrow> disk \<Rightarrow> nat \<Rightarrow> disk" where
  "allocated_disk fs m k = (let b = bitmap_block fs (k div bits_per_block fs) in
     m(b \<mapsto> set_bitmap_bit (k mod bits_per_block fs) (the (m b)), data_block fs k \<mapsto> make_zero_block (fs_block_size_bytes fs)))"

lemma find_filter: "find P xs = (case filter P xs of [] \<Rightarrow> None | x # _ \<Rightarrow> Some x)"
  by (induction xs) simp_all

lemma free_from_bounds: "k \<in> set (free_from fs m i) \<Longrightarrow> k < data_count fs \<and> \<not> block_bit fs m k"
  by (simp add: free_from_def)

lemma bitmap_index:
  assumes L: "layout_ok fs g" and k: "k < data_count fs"
  shows "k div bits_per_block fs < bitmap_count fs"
  using layout_okD(12) [OF L] k by (simp add: less_mult_imp_div_less)

lemma allocate_at:
  assumes L: "layout_ok fs g" and s: "bcs.shows_blocks g m s" and k: "k < data_count fs"
  shows "\<exists>s'. sq (bc_write_block (bitmap_block fs (k div bits_per_block fs))
        (set_bitmap_bit (k mod bits_per_block fs) (the (m (bitmap_block fs (k div bits_per_block fs))))))
      (sq (bc_write_block (data_block fs k) (make_zero_block (fs_block_size_bytes fs))) (ret (data_block fs k))) s
      = (Inr (data_block fs k), s')
    \<and> bcs.shows_blocks g (allocated_disk fs m k) s'"
proof -
  let ?a = "bitmap_block fs (k div bits_per_block fs)"
  let ?b = "set_bitmap_bit (k mod bits_per_block fs) (the (m ?a))"
  note i = bitmap_block_unat(4) [OF L bitmap_index [OF L k]] and D = layout_okD [OF L]
  obtain b where "m ?a = Some b" "length b = unat (bg_block_size_bytes g)" by (rule bcs.block_shown [OF s i])
  then have "length ?b = unat (bg_block_size_bytes g)" by simp
  then obtain s1 where s1: "bc_write_block ?a ?b s = (Inr (), s1)" "bcs.shows_blocks g (m(?a \<mapsto> ?b)) s1"
    by (rule bcs.write_block_shows [OF s i])
  have "length (make_zero_block (fs_block_size_bytes fs)) = unat (bg_block_size_bytes g)"
    by (simp add: make_zero_block_def D(1))
  then obtain s2 where s2: "bc_write_block (data_block fs k) (make_zero_block (fs_block_size_bytes fs)) s1 = (Inr (), s2)"
    "bcs.shows_blocks g (m(?a \<mapsto> ?b, data_block fs k \<mapsto> make_zero_block (fs_block_size_bytes fs))) s2"
    by (rule bcs.write_block_shows [OF s1(2) data_block_unat(2) [OF L k]])
  then show ?thesis using s1(1) by (simp add: op_simps allocated_disk_def Let_def)
qed

lemma allocate_loop_spec:
  assumes L: "layout_ok fs g" and "i \<le> bitmap_count fs" and "bcs.shows_blocks g m s"
  shows "\<exists>s'. allocate_data_block_loop fs [i..<bitmap_count fs] s =
      ((case free_from fs m i of [] \<Rightarrow> Inl Length_error | k # _ \<Rightarrow> Inr (data_block fs k)), s')
    \<and> bcs.shows_blocks g (case free_from fs m i of [] \<Rightarrow> m | k # _ \<Rightarrow> allocated_disk fs m k) s'"
  using assms(2,3)
proof (induction "bitmap_count fs - i" arbitrary: i s)
  case 0
  then have "data_count fs \<le> i * bits_per_block fs" using layout_okD(12) [OF L] by simp
  with 0 show ?case by (simp add: free_from_beyond op_simps)
next
  case (Suc n)
  then have i: "i < bitmap_count fs" by simp
  then have list: "[i..<bitmap_count fs] = i # [Suc i..<bitmap_count fs]" by (simp add: upt_conv_Cons)
  let ?base = "of_nat i * bitmap_bits_per_block (fs_block_size_bytes fs)"
  let ?n = "bits_per_block fs"
  let ?bm = "the (m (bitmap_block fs i))"
  have base: "unat ?base = i * ?n" by (rule data_base_unat [OF L i])
  obtain s1 where s1: "bc_read_block (bitmap_block fs i) (unat (fs_block_size_bytes fs)) s = (Inr ?bm, s1)"
    "bcs.shows_blocks g m s1"
    using bcs.readsD [OF reads_bitmap [OF L i] Suc.prems(2)] by (metis bitmap_block_def)
  show ?case
  proof (cases "data_count fs \<le> i * ?n")
    case True
    then have "fs_data_block_count fs \<le> ?base" by (simp add: word_le_nat_alt base)
    then show ?thesis unfolding list using s1 True
      by (simp add: op_simps free_from_beyond Let_def bitmap_block_def)
  next
    case False
    then have less: "\<not> fs_data_block_count fs \<le> ?base" by (simp add: word_le_nat_alt base)
    note scan = bits_to_scan_run [OF L i] and step = free_from_step [of i fs m]
    show ?thesis
    proof (cases "filter (\<lambda>j. \<not> test_bitmap_bit ?bm j) [0..<bits_to_scan fs ?base]")
      case Nil
      then have "free_from fs m i = free_from fs m (Suc i)" using False step scan by simp
      moreover have "allocate_data_block_loop fs [i..<bitmap_count fs] s = allocate_data_block_loop fs [Suc i..<bitmap_count fs] s1"
        unfolding list using s1(1) less Nil by (simp add: op_simps Let_def bitmap_block_def find_filter)
      ultimately show ?thesis using Suc.hyps(1) [of "Suc i" s1] Suc.hyps(2) i s1(2) by simp
    next
      case (Cons j js)
      then have "j \<in> set (filter (\<lambda>j. \<not> test_bitmap_bit ?bm j) [0..<bits_to_scan fs ?base])" by simp
      then have j: "j < ?n" "i * ?n + j < data_count fs" using False scan by auto
      then have divmod: "(i * ?n + j) div ?n = i" "(i * ?n + j) mod ?n = j" by simp_all
      have free: "free_from fs m i = (i * ?n + j) # map (\<lambda>j. i * ?n + j) js @ free_from fs m (Suc i)"
        using False step scan Cons by simp
      have addr: "fs_data_start fs + ?base + of_nat j = data_block fs (i * ?n + j)"
        by (simp add: data_block_def bitmap_bits_per_block_def fs_constants)
      show ?thesis
        unfolding list free using allocate_at [OF L s1(2) j(2)] s1(1) less Cons
        by (simp add: op_simps Let_def bitmap_block_def [symmetric] find_filter addr divmod mod_less [OF j(1)])
    qed
  qed
qed

lemma allocate_data_block_spec:
  assumes L: "layout_ok fs g" and s: "bcs.shows_blocks g m s"
  obtains (full) s' where "free_blocks fs m = 0" and "allocate_data_block fs s = (Inl Length_error, s')"
      and "bcs.shows_blocks g m s'"
    | (block) k s' where "k < data_count fs" and "\<not> block_bit fs m k"
      and "\<And>j. j < k \<Longrightarrow> block_bit fs m j"
      and "allocate_data_block fs s = (Inr (data_block fs k), s')"
      and "bcs.shows_blocks g (allocated_disk fs m k) s'"
proof -
  have run: "\<exists>s'. allocate_data_block fs s =
      ((case free_from fs m 0 of [] \<Rightarrow> Inl Length_error | k # _ \<Rightarrow> Inr (data_block fs k)), s')
    \<and> bcs.shows_blocks g (case free_from fs m 0 of [] \<Rightarrow> m | k # _ \<Rightarrow> allocated_disk fs m k) s'"
    using allocate_loop_spec [OF L _ s, of 0] by (simp add: allocate_data_block_def)
  show thesis
  proof (cases "free_from fs m 0")
    case Nil
    with run full show thesis by (auto simp: free_from_0)
  next
    case (Cons k ks)
    then have k: "k < data_count fs" "\<not> block_bit fs m k" using free_from_bounds [of k fs m 0] by simp_all
    have ks: "filter (\<lambda>j. \<not> block_bit fs m j) [0..<data_count fs] = k # ks" using Cons by (simp add: free_from_def)
    then have "sorted (k # ks)" by (metis sorted_upt sorted_wrt_filter)
    moreover have "j \<in> set (k # ks)" if "j < k" "\<not> block_bit fs m j" for j
      using that k(1) by (simp flip: ks)
    ultimately have first: "block_bit fs m j" if "j < k" for j
      using that by (metis le_neq_implies_less less_asym set_ConsD sorted_simps(2))
    show thesis using run k first Cons block by auto
  qed
qed

section \<open>The effect of an allocation\<close>

lemma allocated_disk_other:
  "a \<noteq> bitmap_block fs (k div bits_per_block fs) \<Longrightarrow> a \<noteq> data_block fs k \<Longrightarrow> allocated_disk fs m k a = m a"
  by (simp add: allocated_disk_def Let_def)

lemma allocated_disk_data:
  "allocated_disk fs m k (data_block fs k) = Some (make_zero_block (fs_block_size_bytes fs))"
  by (simp add: allocated_disk_def Let_def)

lemma data_block_not_bitmap:
  assumes L: "layout_ok fs g" and "k < data_count fs" and "i < bitmap_count fs"
  shows "data_block fs k \<noteq> bitmap_block fs i"
  using data_block_unat(1) [OF L assms(2)] bitmap_block_unat(3) [OF L assms(3)] by auto

lemma block_bit_allocated:
  assumes L: "layout_ok fs g" and m: "disk_ok fs m" and k: "k < data_count fs" and j: "j < data_count fs"
  shows "block_bit fs (allocated_disk fs m k) j \<longleftrightarrow> j = k \<or> block_bit fs m j"
proof -
  let ?n = "bits_per_block fs"
  let ?bk = "bitmap_block fs (k div ?n)" and ?bj = "bitmap_block fs (j div ?n)"
  note ik = bitmap_index [OF L k] and ij = bitmap_index [OF L j]
  have nd: "?bj \<noteq> data_block fs k" using data_block_not_bitmap [OF L k ij] by simp
  have eqb: "?bj = ?bk \<longleftrightarrow> j div ?n = k div ?n"
    using bitmap_block_unat(1) [OF L ik] bitmap_block_unat(1) [OF L ij] by (metis add_left_cancel)
  show ?thesis
  proof (cases "j div ?n = k div ?n")
    case True
    have "unat ?bk < unat (fs_block_count fs)"
      using bitmap_block_unat(4) [OF L ik] layout_okD(2) [OF L] by (simp add: word_less_nat_alt)
    then obtain b where b: "m ?bk = Some b" "length b = unat (fs_block_size_bytes fs)" by (rule disk_okD [OF m])
    have "k mod ?n < ?n" using bits_pos [OF L] by (rule mod_less_divisor)
    then have fit: "k mod ?n div 8 < length b" using b(2) by (simp add: less_mult_imp_div_less)
    have "j = k \<longleftrightarrow> j mod ?n = k mod ?n" using True by (metis div_mod_decomp)
    then show ?thesis
      using nd True b test_set_bitmap_bit [OF fit]
      by (simp add: block_bit_def allocated_disk_def Let_def)
  next
    case False
    then show ?thesis using nd eqb by (auto simp: block_bit_def allocated_disk_def Let_def)
  qed
qed

lemma free_blocks_allocated:
  assumes L: "layout_ok fs g" and m: "disk_ok fs m" and k: "k < data_count fs" and free: "\<not> block_bit fs m k"
  shows "free_blocks fs m = Suc (free_blocks fs (allocated_disk fs m k))"
proof -
  let ?P = "\<lambda>j. \<not> block_bit fs m j"
  have "filter (\<lambda>j. \<not> block_bit fs (allocated_disk fs m k) j) [0..<data_count fs] = filter (\<lambda>j. ?P j \<and> j \<noteq> k) [0..<data_count fs]"
    by (rule filter_cong) (auto simp: block_bit_allocated [OF L m k])
  then have "free_blocks fs (allocated_disk fs m k) = card ({j. j < data_count fs \<and> ?P j} - {k})"
    by (simp add: free_blocks_def distinct_length_filter) (rule arg_cong [of _ _ card], auto)
  moreover have "free_blocks fs m = card {j. j < data_count fs \<and> ?P j}"
    by (simp add: free_blocks_def distinct_length_filter) (rule arg_cong [of _ _ card], auto)
  moreover have "Suc (card ({j. j < data_count fs \<and> ?P j} - {k})) = card {j. j < data_count fs \<and> ?P j}"
    by (rule card_Suc_Diff1) (use k free in auto)
  ultimately show ?thesis by simp
qed

end
