(* ===== verification/FsFile.thy ===== *)
theory FsFile
  imports FsAlloc
begin

text \<open>
  The contents of files. \<open>file_byte\<close> is the byte at a position of a file, as the direct blocks and the disk
  give it; a read returns these bytes, and a write changes exactly the bytes it is given, whatever blocks it has
  to allocate on the way.
\<close>

section \<open>Reading\<close>

definition file_byte :: "simple_fs_layout \<Rightarrow> disk \<Rightarrow> inode_record \<Rightarrow> nat \<Rightarrow> byte" where
  "file_byte fs m r i = (let a = ir_direct_blocks r ! (i div unat (fs_block_size_bytes fs)) in
     if a = 0 then 0 else the (m a) ! (i mod unat (fs_block_size_bytes fs)))"

definition file_bytes :: "simple_fs_layout \<Rightarrow> disk \<Rightarrow> inode_record \<Rightarrow> byte list" where
  "file_bytes fs m r = map (file_byte fs m r) [0..<unat (ir_size_bytes r)]"

lemma div_mod_shift:
  assumes "off mod n + i < (n :: nat)"
  shows "(off + i) div n = off div n" and "(off + i) mod n = off mod n + i"
proof -
  have "off + i = off div n * n + (off mod n + i)" by simp
  then show "(off + i) div n = off div n" "(off + i) mod n = off mod n + i"
    using assms by (metis div_mult_self3 add.right_neutral div_less not_less_zero mod_mult_self3 mod_less)+
qed

lemma data_block_ok_bound:
  assumes "layout_ok fs g" and "data_block_ok fs a" and "a \<noteq> 0" shows "a < bg_block_count g"
  using assms layout_sums(3) [OF layout_ok_regions [OF assms(1)]] layout_okD(9) [OF assms(1)]
  by (simp add: data_block_ok_def word_less_nat_alt word_le_nat_alt)

text \<open>A file whose record can be used: every direct block is empty or a data block.\<close>

definition direct_ok :: "simple_fs_layout \<Rightarrow> inode_record \<Rightarrow> bool" where
  "direct_ok fs r \<longleftrightarrow> length (ir_direct_blocks r) = 6 \<and> (\<forall>a \<in> set (ir_direct_blocks r). data_block_ok fs a)"

lemma inode_record_direct_ok: "inode_record_ok fs r \<Longrightarrow> direct_ok fs r"
  by (cases "ir_allocated r")
     (auto simp: inode_record_ok_def direct_ok_def fs_constants empty_inode_record_def data_block_ok_def
       dest!: arg_cong [of r _ ir_direct_blocks])

lemma direct_okD:
  assumes "direct_ok fs r" and "i < 6" shows "data_block_ok fs (ir_direct_blocks r ! i)"
  using assms by (simp add: direct_ok_def)

lemma block_size_pos: "layout_ok fs g \<Longrightarrow> 0 < unat (fs_block_size_bytes fs)"
  using layout_okD(3) [of fs g] by simp

lemma shown_data_block:
  assumes "layout_ok fs g" and "direct_ok fs r" and "i < 6" and "ir_direct_blocks r ! i \<noteq> 0" and "bcs.shows_blocks g m s"
  obtains b where "m (ir_direct_blocks r ! i) = Some b" and "length b = unat (fs_block_size_bytes fs)"
  using bcs.block_shown [OF assms(5) data_block_ok_bound [OF assms(1) direct_okD [OF assms(2,3)] assms(4)]]
    layout_okD(1) [OF assms(1)] by metis

lemma chunk_bytes:
  assumes "off mod bs + n \<le> bs" and bs: "bs = unat (fs_block_size_bytes fs)"
    and b: "m (ir_direct_blocks r ! (off div bs)) = Some b" "length b = bs" "ir_direct_blocks r ! (off div bs) \<noteq> 0"
  shows "subspan (off mod bs) n b = map (file_byte fs m r) [off..<off + n]"
proof (rule nth_equalityI)
  show "length (subspan (off mod bs) n b) = length (map (file_byte fs m r) [off..<off + n])"
    using assms by simp
  fix i assume "i < length (subspan (off mod bs) n b)"
  then have i: "i < n" "off mod bs + i < bs" using assms by auto
  then show "subspan (off mod bs) n b ! i = map (file_byte fs m r) [off..<off + n] ! i"
    using b div_mod_shift [OF i(2)] by (simp add: nth_subspan file_byte_def Let_def flip: bs)
qed

lemma empty_chunk_bytes:
  assumes "off mod bs + n \<le> bs" and bs: "bs = unat (fs_block_size_bytes fs)" and "ir_direct_blocks r ! (off div bs) = 0"
  shows "replicate n 0 = map (file_byte fs m r) [off..<off + n]"
proof (rule nth_equalityI)
  fix i assume "i < length (replicate n (0 :: byte))"
  then have i: "i < n" "off mod bs + i < bs" using assms by auto
  then show "replicate n 0 ! i = map (file_byte fs m r) [off..<off + n] ! i"
    using assms(3) div_mod_shift [OF i(2)] by (simp add: file_byte_def Let_def flip: bs)
qed simp

text \<open>The part of a transfer that falls into one block.\<close>

lemma chunk_bounds:
  assumes "0 < n" and "0 < (bs :: nat)"
  shows "0 < min n (bs - off mod bs)" and "min n (bs - off mod bs) \<le> n" and "off mod bs + min n (bs - off mod bs) \<le> bs"
proof -
  have "off mod bs < bs" using assms(2) by simp
  with assms(1) show "0 < min n (bs - off mod bs)" "min n (bs - off mod bs) \<le> n"
    "off mod bs + min n (bs - off mod bs) \<le> bs" by linarith+
qed

lemma reads_read_inode_loop:
  assumes L: "layout_ok fs g" and r: "direct_ok fs r" and "off + n \<le> 6 * unat (fs_block_size_bytes fs)"
  shows "bcs.reads g (read_inode_loop fs r off n) (\<lambda>m. Inr (map (file_byte fs m r) [off..<off + n]))"
  using assms(3)
proof (induction n arbitrary: off rule: less_induct)
  case (less n)
  let ?bs = "unat (fs_block_size_bytes fs)"
  let ?a = "ir_direct_blocks r ! (off div ?bs)"
  let ?chunk = "min n (?bs - off mod ?bs)"
  have pos: "0 < ?bs" "fs_block_size_bytes fs \<noteq> 0" using block_size_pos [OF L] by auto
  show ?case
  proof (cases "n = 0")
    case True
    then show ?thesis by (simp add: read_inode_loop.simps bcs.reads_ret)
  next
    case False
    then have chunk: "0 < ?chunk" "?chunk \<le> n" "off mod ?bs + ?chunk \<le> ?bs"
      using chunk_bounds [of n ?bs off] pos(1) by simp_all
    have idx: "off div ?bs < 6" using less.prems False pos(1) by (simp add: div_less_iff_less_mult mult.commute)
    have IH: "bcs.reads g (read_inode_loop fs r (off + ?chunk) (n - ?chunk))
        (\<lambda>m. Inr (map (file_byte fs m r) [off + ?chunk..<off + n]))"
      using less.IH [of "n - ?chunk" "off + ?chunk"] chunk less.prems False by simp
    have first: "bcs.reads g (if ?a = SIMPLE_FS_EMPTY_BLOCK then ret (replicate ?chunk 0)
        else bnd (bc_read_block ?a ?bs) (\<lambda>b. ret (subspan (off mod ?bs) ?chunk b)))
        (\<lambda>m. Inr (map (file_byte fs m r) [off..<off + ?chunk]))"
    proof (cases "?a = 0")
      case True
      then show ?thesis
        using bcs.reads_ret [of g "replicate ?chunk 0"] empty_chunk_bytes [OF chunk(3) refl]
        by (simp add: fs_constants)
    next
      case nonempty: False
      show ?thesis
      proof (rule bcs.reads_cong)
        show "bcs.reads g (if ?a = SIMPLE_FS_EMPTY_BLOCK then ret (replicate ?chunk 0)
          else bnd (bc_read_block ?a ?bs) (\<lambda>b. ret (subspan (off mod ?bs) ?chunk b)))
          (\<lambda>m. sbind (block_at m ?a) (\<lambda>b. Inr (subspan (off mod ?bs) ?chunk b)))"
          using nonempty by (simp add: fs_constants) (intro reads_rules reads_block_at layout_okD(1) [OF L, symmetric])
        fix m s assume "bcs.shows_blocks g m s"
        then obtain b where "m ?a = Some b" "length b = ?bs" by (rule shown_data_block [OF L r idx nonempty])
        then show "sbind (block_at m ?a) (\<lambda>b. Inr (subspan (off mod ?bs) ?chunk b)) = Inr (map (file_byte fs m r) [off..<off + ?chunk])"
          using chunk_bytes [OF chunk(3) refl, of m r b] nonempty by (simp add: block_at_def sbind_def)
      qed
    qed
    have step: "read_inode_loop fs r off n =
        bnd (if ?a = SIMPLE_FS_EMPTY_BLOCK then ret (replicate ?chunk 0)
          else bnd (bc_read_block ?a ?bs) (\<lambda>b. ret (subspan (off mod ?bs) ?chunk b))) (\<lambda>chunk.
        bnd (read_inode_loop fs r (off + ?chunk) (n - ?chunk)) (\<lambda>rest. ret (chunk @ rest)))"
      using False pos(2) by (subst read_inode_loop.simps) (simp add: Let_def)
    have "bcs.reads g (read_inode_loop fs r off n) (\<lambda>m. sbind (Inr (map (file_byte fs m r) [off..<off + ?chunk])) (\<lambda>xs.
        sbind (Inr (map (file_byte fs m r) [off + ?chunk..<off + n])) (\<lambda>ys. Inr (xs @ ys))))"
      unfolding step by (intro reads_rules first IH)
    moreover have "[off..<off + ?chunk] @ [off + ?chunk..<off + n] = [off..<off + n]"
      using upt_add_eq_append [of off "off + ?chunk" "n - ?chunk"] chunk by simp
    ultimately show ?thesis by (simp add: sbind_def flip: map_append)
  qed
qed

lemma max_file_size_unat: "layout_ok fs g \<Longrightarrow> unat (max_file_size_bytes fs) = 6 * unat (fs_block_size_bytes fs)"
  using layout_okD(4) [of fs g] by (simp add: max_file_size_bytes_def fs_constants unat_word_ariths)

lemma record_size_bound:
  assumes "layout_ok fs g" and "inode_record_ok fs r"
  shows "unat (ir_size_bytes r) \<le> 6 * unat (fs_block_size_bytes fs)"
proof (cases "ir_allocated r")
  case True
  with assms max_file_size_unat [OF assms(1)] show ?thesis by (simp add: inode_record_ok_def word_le_nat_alt)
next
  case False
  with assms(2) have "ir_size_bytes r = 0"
    by (auto simp: inode_record_ok_def empty_inode_record_def dest!: arg_cong [of r _ ir_size_bytes])
  then show ?thesis by simp
qed

lemma reads_read_inode_bytes:
  assumes L: "layout_ok fs g" and r: "inode_record_ok fs r"
  shows "bcs.reads g (read_inode_bytes fs r off n) (\<lambda>m. Inr (subspan (unat off) n (file_bytes fs m r)))"
proof (cases "ir_size_bytes r \<le> off \<or> n = 0")
  case True
  then have "subspan (unat off) n (file_bytes fs m r) = []" for m
    by (auto simp: subspan_def file_bytes_def word_le_nat_alt)
  with True show ?thesis by (simp add: read_inode_bytes_def bcs.reads_ret)
next
  case False
  let ?n = "min n (unat (ir_size_bytes r - off))"
  have size: "unat (ir_size_bytes r - off) = unat (ir_size_bytes r) - unat off" "unat off < unat (ir_size_bytes r)"
    using False by (auto simp: unat_sub word_le_nat_alt)
  then have "unat off + ?n \<le> 6 * unat (fs_block_size_bytes fs)" using record_size_bound [OF L r] by linarith
  note loop = reads_read_inode_loop [OF L inode_record_direct_ok [OF r] this]
  have "map (file_byte fs m r) [unat off..<unat off + ?n] = subspan (unat off) n (file_bytes fs m r)" for m
    by (rule nth_equalityI) (use size in \<open>auto simp: nth_subspan file_bytes_def\<close>)
  with loop False show ?thesis by (simp add: read_inode_bytes_def)
qed

lemma inode_at_ok:
  assumes "inode_at fs m n = Inr r" shows "inode_record_ok fs r" and "ir_number r = n" and "inode_valid fs n"
proof -
  from assms obtain b where "validate_inode_number fs n = Inr ()" "parse_inode fs n b = Inr r"
    by (auto simp: inode_at_def sbind_def split: sum.splits)
  then show "inode_record_ok fs r" "ir_number r = n" "inode_valid fs n"
    using parse_inode_ok by (auto simp: validate_inode_number_run inode_valid_def split: if_splits)
qed

lemma reads_read_file:
  assumes L: "layout_ok fs g"
  shows "bcs.reads g (read_file fs n off k) (\<lambda>m. sbind (inode_at fs m n) (\<lambda>r. sbind (validate_file_inode r) (\<lambda>_.
    Inr (subspan (unat off) k (file_bytes fs m r)))))"
  unfolding bcs.reads_def views_def
proof (intro allI impI)
  fix m s assume s: "bcs.shows_blocks g m s"
  obtain s1 where s1: "read_inode fs n s = (inode_at fs m n, s1)" "bcs.shows_blocks g m s1"
    by (rule bcs.readsD [OF reads_read_inode [OF layout_okD(1) [OF L, symmetric]] s])
  show "\<exists>s'. read_file fs n off k s = (sbind (inode_at fs m n) (\<lambda>r. sbind (validate_file_inode r) (\<lambda>_.
      Inr (subspan (unat off) k (file_bytes fs m r)))), s') \<and> bcs.shows_blocks g m s'"
  proof (cases "inode_at fs m n")
    case (Inl e)
    with s1 show ?thesis by (simp add: read_file_def bnd_run sbind_def)
  next
    case (Inr r)
    obtain s2 where "sq (lift_sum (validate_file_inode r)) (read_inode_bytes fs r off k) s1 =
        (sbind (validate_file_inode r) (\<lambda>_. Inr (subspan (unat off) k (file_bytes fs m r))), s2)" "bcs.shows_blocks g m s2"
      by (rule bcs.readsD [OF bcs.reads_sq [OF bcs.reads_lift_sum reads_read_inode_bytes [OF L inode_at_ok(1) [OF Inr]]] s1(2)])
    with s1(1) Inr show ?thesis by (simp add: read_file_def bnd_run sbind_def [of "Inr r"])
  qed
qed

section \<open>Blocks in use\<close>

definition block_used :: "simple_fs_layout \<Rightarrow> disk \<Rightarrow> qword \<Rightarrow> bool" where
  "block_used fs m a \<longleftrightarrow> (\<exists>k < data_count fs. a = data_block fs k \<and> block_bit fs m k)"

lemma data_block_ok_index:
  assumes L: "layout_ok fs g" and a: "data_block_ok fs a" "a \<noteq> 0"
  obtains k where "k < data_count fs" and "a = data_block fs k"
proof -
  have "unat (fs_data_start fs) \<le> unat a" "unat a < unat (fs_data_start fs) + data_count fs"
    using a layout_sums(3) [OF layout_ok_regions [OF L]] by (simp_all add: data_block_ok_def word_le_nat_alt word_less_nat_alt)
  then show thesis
    by (intro that [of "unat a - unat (fs_data_start fs)"])
       (auto simp: data_block_def of_nat_diff)
qed

lemma block_used_data:
  "layout_ok fs g \<Longrightarrow> k < data_count fs \<Longrightarrow> block_used fs m (data_block fs k) \<longleftrightarrow> block_bit fs m k"
  by (auto simp: block_used_def data_block_inj)

lemma block_usedD:
  assumes "layout_ok fs g" and "block_used fs m a"
  shows "a \<noteq> 0" and "data_block_ok fs a" and "unat (fs_data_start fs) \<le> unat a"
  using assms data_block_unat [of fs g] by (auto simp: block_used_def)

lemma block_bit_data_write:
  assumes L: "layout_ok fs g" and a: "data_block_ok fs a" "a \<noteq> 0" and j: "j < data_count fs"
  shows "block_bit fs (m(a \<mapsto> b)) j = block_bit fs m j"
proof -
  obtain k where k: "k < data_count fs" "a = data_block fs k" by (rule data_block_ok_index [OF L a])
  then have "bitmap_block fs (j div bits_per_block fs) \<noteq> a"
    using data_block_not_bitmap [OF L k(1) bitmap_index [OF L j]] by simp
  then show ?thesis by (simp add: block_bit_def)
qed

lemma data_write_used:
  assumes L: "layout_ok fs g" and a: "data_block_ok fs a" "a \<noteq> 0"
  shows "block_used fs (m(a \<mapsto> b)) x = block_used fs m x" and "free_blocks fs (m(a \<mapsto> b)) = free_blocks fs m"
  using block_bit_data_write [OF L a] by (auto simp: block_used_def free_blocks_def intro!: arg_cong [of _ _ length] filter_cong)

text \<open>The direct blocks of a file are in use and pairwise different.\<close>

definition owned :: "simple_fs_layout \<Rightarrow> disk \<Rightarrow> inode_record \<Rightarrow> bool" where
  "owned fs m r \<longleftrightarrow> (\<forall>i < 6. ir_direct_blocks r ! i \<noteq> 0 \<longrightarrow> block_used fs m (ir_direct_blocks r ! i))
     \<and> (\<forall>i < 6. \<forall>j < 6. i \<noteq> j \<longrightarrow> ir_direct_blocks r ! i \<noteq> 0 \<longrightarrow> ir_direct_blocks r ! i \<noteq> ir_direct_blocks r ! j)"

section \<open>Growing and changing a file\<close>

text \<open>
  What writing to a file may do to the rest of the disk: it may give the file blocks that were free, and it may
  change the blocks of the file; the superblock, the inode table and the blocks in use by others stay.
\<close>

definition file_grows :: "simple_fs_layout \<Rightarrow> disk \<Rightarrow> inode_record \<Rightarrow> disk \<Rightarrow> inode_record \<Rightarrow> bool" where
  "file_grows fs m r m' r' \<longleftrightarrow>
     r' = r\<lparr>ir_direct_blocks := ir_direct_blocks r'\<rparr> \<and> direct_ok fs r' \<and> owned fs m' r'
     \<and> (\<forall>i < 6. ir_direct_blocks r ! i \<noteq> 0 \<longrightarrow> ir_direct_blocks r' ! i = ir_direct_blocks r ! i)
     \<and> (\<forall>i < 6. ir_direct_blocks r ! i = 0 \<longrightarrow> \<not> block_used fs m (ir_direct_blocks r' ! i))
     \<and> (\<forall>a. unat a < unat (fs_data_bitmap_start fs) \<longrightarrow> m' a = m a)
     \<and> (\<forall>a. block_used fs m a \<longrightarrow> a \<notin> set (ir_direct_blocks r) \<longrightarrow> m' a = m a)
     \<and> (\<forall>a. block_used fs m' a \<longleftrightarrow> block_used fs m a \<or> a \<in> set (ir_direct_blocks r') \<and> a \<noteq> 0)"

lemma file_growsD:
  assumes "file_grows fs m r m' r'"
  shows "r' = r\<lparr>ir_direct_blocks := ir_direct_blocks r'\<rparr>" and "direct_ok fs r'" and "owned fs m' r'"
    and "i < 6 \<Longrightarrow> ir_direct_blocks r ! i \<noteq> 0 \<Longrightarrow> ir_direct_blocks r' ! i = ir_direct_blocks r ! i"
    and "i < 6 \<Longrightarrow> ir_direct_blocks r ! i = 0 \<Longrightarrow> \<not> block_used fs m (ir_direct_blocks r' ! i)"
    and "unat a < unat (fs_data_bitmap_start fs) \<Longrightarrow> m' a = m a"
    and "block_used fs m a \<Longrightarrow> a \<notin> set (ir_direct_blocks r) \<Longrightarrow> m' a = m a"
    and "block_used fs m' a \<longleftrightarrow> block_used fs m a \<or> a \<in> set (ir_direct_blocks r') \<and> a \<noteq> 0"
  using assms unfolding file_grows_def by blast+

lemma owned_used: "owned fs m r \<Longrightarrow> direct_ok fs r \<Longrightarrow> a \<in> set (ir_direct_blocks r) \<Longrightarrow> a \<noteq> 0 \<Longrightarrow> block_used fs m a"
  by (auto simp: owned_def direct_ok_def in_set_conv_nth)

lemma block_used_nonzero: "layout_ok fs g \<Longrightarrow> \<not> block_used fs m 0"
  using block_usedD(1) by blast

lemma file_grows_refl:
  "layout_ok fs g \<Longrightarrow> direct_ok fs r \<Longrightarrow> owned fs m r \<Longrightarrow> file_grows fs m r m r"
  using owned_used [of fs m r] block_used_nonzero [of fs g m] by (auto simp: file_grows_def)

lemma file_grows_trans:
  assumes L: "layout_ok fs g" and 1: "file_grows fs m r m1 r1" and 2: "file_grows fs m1 r1 m2 r2" and r: "direct_ok fs r"
  shows "file_grows fs m r m2 r2"
proof -
  note A = file_growsD [OF 1] and B = file_growsD [OF 2]
  have len: "length (ir_direct_blocks r) = 6" "length (ir_direct_blocks r1) = 6" "length (ir_direct_blocks r2) = 6"
    using r A(2) B(2) by (simp_all add: direct_ok_def)
  have fresh: "\<not> block_used fs m (ir_direct_blocks r2 ! i)" if i: "i < 6" "ir_direct_blocks r ! i = 0" for i
  proof (cases "ir_direct_blocks r1 ! i = 0")
    case True
    then show ?thesis using B(5) [OF i(1)] A(8) by blast
  next
    case False
    then show ?thesis using B(4) [OF i(1)] A(5) [OF i] by simp
  qed
  have other: "m2 a = m a" if a: "block_used fs m a" "a \<notin> set (ir_direct_blocks r)" for a
  proof -
    have "a \<notin> set (ir_direct_blocks r1)"
    proof
      assume "a \<in> set (ir_direct_blocks r1)"
      then obtain i where i: "i < 6" "a = ir_direct_blocks r1 ! i" using len by (auto simp: in_set_conv_nth)
      then show False using a A(4,5) [OF i(1)] len by (metis nth_mem)
    qed
    then show ?thesis using B(7) [of a] A(7) [OF a] A(8) [of a] a by simp
  qed
  have grow: "a \<in> set (ir_direct_blocks r2)" if "a \<in> set (ir_direct_blocks r1)" "a \<noteq> 0" for a
    using that len B(4) by (metis in_set_conv_nth)
  have "ir_direct_blocks r2 ! i = ir_direct_blocks r ! i" if "i < 6" "ir_direct_blocks r ! i \<noteq> 0" for i
    using A(4) [OF that] B(4) [OF that(1)] that by simp
  moreover have "r2 = r\<lparr>ir_direct_blocks := ir_direct_blocks r2\<rparr>" using A(1) B(1) by (metis inode_record.update_convs(4) inode_record.surjective)
  ultimately show ?thesis
    unfolding file_grows_def using B(2,3) fresh other A(6,8) B(6,8) grow by auto
qed

text \<open>A free block is given to an empty place of the file: the contents do not change.\<close>

lemma grow_by_allocation:
  assumes L: "layout_ok fs g" and m: "disk_ok fs m" and r: "direct_ok fs r" "owned fs m r"
    and k: "k < data_count fs" "\<not> block_bit fs m k" and i: "i < 6" "ir_direct_blocks r ! i = 0"
    and r': "r' = r\<lparr>ir_direct_blocks := (ir_direct_blocks r)[i := data_block fs k]\<rparr>"
  shows "file_grows fs m r (allocated_disk fs m k) r'"
    and "j < 6 * unat (fs_block_size_bytes fs) \<Longrightarrow> file_byte fs (allocated_disk fs m k) r' j = file_byte fs m r j"
proof -
  let ?m = "allocated_disk fs m k" and ?a = "data_block fs k" and ?bs = "unat (fs_block_size_bytes fs)"
  note K = data_block_unat [OF L k(1)] and D = layout_okD [OF L]
  have len: "length (ir_direct_blocks r) = 6" using r(1) by (simp add: direct_ok_def)
  have used: "block_used fs ?m a \<longleftrightarrow> block_used fs m a \<or> a = ?a" for a
    using block_bit_allocated [OF L m k(1)] k(1) by (auto simp: block_used_def)
  have fresh: "\<not> block_used fs m ?a" using k block_used_data [OF L k(1)] by simp
  have notin: "?a \<notin> set (ir_direct_blocks r)" using owned_used [OF r(2,1)] fresh K(3) by blast
  have same: "?m a = m a" if "block_used fs m a" for a
  proof -
    obtain j where j: "j < data_count fs" "a = data_block fs j" using \<open>block_used fs m a\<close> by (auto simp: block_used_def)
    then show ?thesis
      using fresh that data_block_not_bitmap [OF L j(1) bitmap_index [OF L k(1)]] by (intro allocated_disk_other) auto
  qed
  have low: "?m a = m a" if "unat a < unat (fs_data_bitmap_start fs)" for a
    using that K(1) D(8) bitmap_block_unat(2) [OF L bitmap_index [OF L k(1)]] by (intro allocated_disk_other) auto
  have nth: "ir_direct_blocks r' ! j = (if j = i then ?a else ir_direct_blocks r ! j)" if "j < 6" for j
    using that i(1) len by (simp add: r')
  have set: "set (ir_direct_blocks r') \<subseteq> insert ?a (set (ir_direct_blocks r))" "?a \<in> set (ir_direct_blocks r')"
    using i(1) len by (auto simp: r' set_update_subset_insert set_update_memI)
  have ok: "direct_ok fs r'"
    using r(1) set(1) K(4) len by (auto simp: direct_ok_def r' dest!: subsetD)
  have "owned fs ?m r'"
    unfolding owned_def using r(2) notin len i used
    by (auto simp: nth owned_def in_set_conv_nth)
  then show "file_grows fs m r ?m r'"
    unfolding file_grows_def
    using ok i nth fresh low same used set r' owned_used [OF r(2,1)] block_used_nonzero [OF L, of m] K(3)
    by (auto simp: owned_def)
  show "file_byte fs ?m r' j = file_byte fs m r j" if "j < 6 * ?bs"
  proof -
    have idx: "j div ?bs < 6" using that block_size_pos [OF L] by (simp add: div_less_iff_less_mult mult.commute)
    show ?thesis
    proof (cases "j div ?bs = i")
      case True
      have "j mod ?bs < ?bs" using block_size_pos [OF L] by simp
      then show ?thesis using True i K(3) nth [OF idx]
        by (simp add: file_byte_def Let_def allocated_disk_data make_zero_block_def)
    next
      case False
      have "ir_direct_blocks r ! (j div ?bs) \<noteq> 0 \<Longrightarrow> ?m (ir_direct_blocks r ! (j div ?bs)) = m (ir_direct_blocks r ! (j div ?bs))"
        using same r(2) idx by (simp add: owned_def)
      with False show ?thesis using nth [OF idx] by (simp add: file_byte_def Let_def)
    qed
  qed
qed

text \<open>A block of the file is replaced: its bytes change, and no others.\<close>

lemma change_block:
  assumes L: "layout_ok fs g" and r: "direct_ok fs r" "owned fs m r" and i: "i < 6" "ir_direct_blocks r ! i \<noteq> 0"
  shows "file_grows fs m r (m(ir_direct_blocks r ! i \<mapsto> b)) r"
    and "j < 6 * unat (fs_block_size_bytes fs) \<Longrightarrow> file_byte fs (m(ir_direct_blocks r ! i \<mapsto> b)) r j =
      (if j div unat (fs_block_size_bytes fs) = i then b ! (j mod unat (fs_block_size_bytes fs)) else file_byte fs m r j)"
proof -
  let ?a = "ir_direct_blocks r ! i" and ?bs = "unat (fs_block_size_bytes fs)"
  have ok: "data_block_ok fs ?a" by (rule direct_okD [OF r(1) i(1)])
  note used = data_write_used(1) [OF L ok i(2)]
  have len: "length (ir_direct_blocks r) = 6" using r(1) by (simp add: direct_ok_def)
  have "unat (fs_data_start fs) \<le> unat ?a" using ok i(2) by (simp add: data_block_ok_def word_le_nat_alt)
  then have low: "(m(?a \<mapsto> b)) a = m a" if "unat a < unat (fs_data_bitmap_start fs)" for a
    using that layout_okD(8) [OF L] by auto
  have "?a \<in> set (ir_direct_blocks r)" using i(1) len by simp
  then show "file_grows fs m r (m(?a \<mapsto> b)) r"
    unfolding file_grows_def using r low used owned_used [OF r(2,1)] block_used_nonzero [OF L, of m]
    by (auto simp: owned_def used)
  show "file_byte fs (m(?a \<mapsto> b)) r j = (if j div ?bs = i then b ! (j mod ?bs) else file_byte fs m r j)"
    if "j < 6 * ?bs"
  proof -
    have idx: "j div ?bs < 6" using that block_size_pos [OF L] by (simp add: div_less_iff_less_mult mult.commute)
    then have "j div ?bs \<noteq> i \<Longrightarrow> ir_direct_blocks r ! (j div ?bs) \<noteq> ?a"
      using r(2) i by (metis owned_def)
    with i(2) show ?thesis by (auto simp: file_byte_def Let_def)
  qed
qed

section \<open>Writing\<close>

text \<open>The logical blocks that a transfer of \<open>n\<close> bytes at \<open>off\<close> touches.\<close>

definition touched_block :: "nat \<Rightarrow> nat \<Rightarrow> nat \<Rightarrow> nat \<Rightarrow> bool" where
  "touched_block bs off n i \<longleftrightarrow> 0 < n \<and> off div bs \<le> i \<and> i * bs < off + n"

lemma touched_block_step:
  assumes n: "0 < n" and bs: "0 < bs" and c: "c = min n (bs - off mod bs)"
  shows "touched_block bs off n i \<longleftrightarrow> i = off div bs \<or> touched_block bs (off + c) (n - c) i"
proof -
  define q where "q = off div bs"
  have off: "q * bs + off mod bs = off" "off mod bs < bs" using bs by (simp_all add: q_def)
  then have q: "q * bs < off + n" using n by linarith
  show ?thesis
  proof (cases "n \<le> bs - off mod bs")
    case True
    then have "off + n \<le> q * bs + bs" using off by linarith
    then have "i * bs < Suc q * bs" if "i * bs < off + n" using that by simp
    then have "i \<le> q" if "i * bs < off + n" using that bs by (simp only: mult_less_cancel2) simp
    with q True n c show ?thesis by (auto simp: touched_block_def simp flip: q_def)
  next
    case False
    with c have c': "c = bs - off mod bs" "c < n" by auto
    then have "off + c = q * bs + bs" using off by linarith
    then have "(off + c) div bs = Suc q" using bs by simp
    moreover have "off + c + (n - c) = off + n" using c' by simp
    ultimately have "touched_block bs (off + c) (n - c) i \<longleftrightarrow> Suc q \<le> i \<and> i * bs < off + n"
      using c' by (simp add: touched_block_def)
    moreover have "touched_block bs off n i \<longleftrightarrow> q \<le> i \<and> i * bs < off + n" using n by (simp add: touched_block_def q_def)
    ultimately show ?thesis using q by (auto simp: Suc_le_eq simp flip: q_def)
  qed
qed

definition missing_blocks :: "simple_fs_layout \<Rightarrow> inode_record \<Rightarrow> nat \<Rightarrow> nat \<Rightarrow> nat set" where
  "missing_blocks fs r off n =
    {i. i < 6 \<and> touched_block (unat (fs_block_size_bytes fs)) off n i \<and> ir_direct_blocks r ! i = 0}"

text \<open>One block: allocated if the file has none there, then rewritten with the chunk.\<close>

lemma write_chunk:
  assumes L: "layout_ok fs g" and s: "bcs.shows_blocks g m s" and r: "direct_ok fs r" "owned fs m r"
    and i: "i < 6" and chunk: "o' + length chunk \<le> unat (fs_block_size_bytes fs)"
    and free: "ir_direct_blocks r ! i = 0 \<Longrightarrow> 0 < free_blocks fs m"
  obtains m' r' s' where
    "bnd (if ir_direct_blocks r ! i = SIMPLE_FS_EMPTY_BLOCK
          then bnd (allocate_data_block fs) (\<lambda>new_block.
            ret (new_block, r\<lparr>ir_direct_blocks := (ir_direct_blocks r)[i := new_block]\<rparr>, replicate (unat (fs_block_size_bytes fs)) 0))
          else bnd (bc_read_block (ir_direct_blocks r ! i) (unat (fs_block_size_bytes fs))) (\<lambda>block_bytes.
            ret (ir_direct_blocks r ! i, r, block_bytes))) (\<lambda>(a, r, b).
      sq (bc_write_block a (overwrite o' chunk b)) (f r)) s = f r' s'"
    and "bcs.shows_blocks g m' s'" and "file_grows fs m r m' r'"
    and "\<And>j. j < 6 * unat (fs_block_size_bytes fs) \<Longrightarrow> file_byte fs m' r' j =
      (if j div unat (fs_block_size_bytes fs) = i \<and> o' \<le> j mod unat (fs_block_size_bytes fs)
          \<and> j mod unat (fs_block_size_bytes fs) < o' + length chunk
       then chunk ! (j mod unat (fs_block_size_bytes fs) - o') else file_byte fs m r j)"
    and "\<And>j. j < 6 \<Longrightarrow> ir_direct_blocks r' ! j \<noteq> 0 \<longleftrightarrow> j = i \<or> ir_direct_blocks r ! j \<noteq> 0"
    and "free_blocks fs m' = free_blocks fs m - (if ir_direct_blocks r ! i = 0 then 1 else 0)"
proof -
  let ?bs = "unat (fs_block_size_bytes fs)"
  note D = layout_okD [OF L]
  have m: "disk_ok fs m" by (rule shows_disk_ok [OF s L])
  have len: "length (ir_direct_blocks r) = 6" using r(1) by (simp add: direct_ok_def)
  have bs: "?bs = unat (bg_block_size_bytes g)" using D(1) by simp
  obtain m1 r1 s1 b where first: "(if ir_direct_blocks r ! i = SIMPLE_FS_EMPTY_BLOCK
          then bnd (allocate_data_block fs) (\<lambda>new_block.
            ret (new_block, r\<lparr>ir_direct_blocks := (ir_direct_blocks r)[i := new_block]\<rparr>, replicate ?bs 0))
          else bnd (bc_read_block (ir_direct_blocks r ! i) ?bs) (\<lambda>block_bytes.
            ret (ir_direct_blocks r ! i, r, block_bytes))) s = (Inr (ir_direct_blocks r1 ! i, r1, b), s1)"
    and s1: "bcs.shows_blocks g m1 s1" and grow: "file_grows fs m r m1 r1" and a: "ir_direct_blocks r1 ! i \<noteq> 0"
    and b: "m1 (ir_direct_blocks r1 ! i) = Some b" "length b = ?bs"
    and bytes: "\<And>j. j < 6 * ?bs \<Longrightarrow> file_byte fs m1 r1 j = file_byte fs m r j"
    and nz: "\<And>j. j < 6 \<Longrightarrow> ir_direct_blocks r1 ! j \<noteq> 0 \<longleftrightarrow> j = i \<or> ir_direct_blocks r ! j \<noteq> 0"
    and count: "free_blocks fs m1 = free_blocks fs m - (if ir_direct_blocks r ! i = 0 then 1 else 0)"
  proof (cases "ir_direct_blocks r ! i = 0")
    case empty: True
    from free [OF empty] obtain k s1 where k: "k < data_count fs" "\<not> block_bit fs m k"
      and run: "allocate_data_block fs s = (Inr (data_block fs k), s1)" "bcs.shows_blocks g (allocated_disk fs m k) s1"
      by (cases rule: allocate_data_block_spec [OF L s]) auto
    let ?r = "r\<lparr>ir_direct_blocks := (ir_direct_blocks r)[i := data_block fs k]\<rparr>"
    note G = grow_by_allocation [OF L m r k i empty refl]
    show thesis
      by (rule that [of ?r "make_zero_block (fs_block_size_bytes fs)" s1 "allocated_disk fs m k"])
         (use run empty i len data_block_unat(3) [OF L k(1)] G free_blocks_allocated [OF L m k]
           in \<open>auto simp: op_simps fs_constants allocated_disk_data make_zero_block_def nth_list_update\<close>)
  next
    case nonempty: False
    obtain b where b: "m (ir_direct_blocks r ! i) = Some b" "length b = ?bs" by (rule shown_data_block [OF L r(1) i nonempty s])
    have "block_at m (ir_direct_blocks r ! i) = Inr b" using b by (simp add: block_at_def)
    then obtain s1 where "bc_read_block (ir_direct_blocks r ! i) ?bs s = (Inr b, s1)" "bcs.shows_blocks g m s1"
      using bcs.readsD [OF reads_block_at [OF D(1) [symmetric]] s] by metis
    with nonempty b show thesis
      by (intro that [of r b s1 m]) (auto simp: op_simps fs_constants file_grows_refl [OF L r])
  qed
  note G = file_growsD [OF grow]
  let ?a = "ir_direct_blocks r1 ! i" and ?b = "overwrite o' chunk b"
  have "?a < bg_block_count g" by (rule data_block_ok_bound [OF L direct_okD [OF G(2) i] a])
  moreover have lenb: "length ?b = unat (bg_block_size_bytes g)" using b(2) chunk bs by simp
  ultimately obtain s2 where s2: "bc_write_block ?a ?b s1 = (Inr (), s2)" "bcs.shows_blocks g (m1(?a \<mapsto> ?b)) s2"
    by (rule bcs.write_block_shows [OF s1])
  note C = change_block [OF L G(2,3) i a, where b = ?b]
  show thesis
  proof (rule that)
    show "bcs.shows_blocks g (m1(?a \<mapsto> ?b)) s2" by (rule s2(2))
    show "file_grows fs m r (m1(?a \<mapsto> ?b)) r1" by (rule file_grows_trans [OF L grow C(1) r(1)])
    show "file_byte fs (m1(?a \<mapsto> ?b)) r1 j = (if j div ?bs = i \<and> o' \<le> j mod ?bs \<and> j mod ?bs < o' + length chunk
       then chunk ! (j mod ?bs - o') else file_byte fs m r j)" if "j < 6 * ?bs" for j
    proof -
      have "j mod ?bs < ?bs" using block_size_pos [OF L] by simp
      then show ?thesis
        using C(2) [OF that] bytes [OF that] b chunk a
        by (auto simp: nth_overwrite file_byte_def Let_def)
    qed
    show "free_blocks fs (m1(?a \<mapsto> ?b)) = free_blocks fs m - (if ir_direct_blocks r ! i = 0 then 1 else 0)"
      using data_write_used(2) [OF L direct_okD [OF G(2) i] a] count by simp
  qed (use first s2(1) nz in \<open>simp_all add: op_simps\<close>)
qed

definition written :: "simple_fs_layout \<Rightarrow> disk \<Rightarrow> inode_record \<Rightarrow> nat \<Rightarrow> byte list \<Rightarrow> disk \<Rightarrow> inode_record \<Rightarrow> bool" where
  "written fs m r off src m' r' \<longleftrightarrow> file_grows fs m r m' r'
     \<and> (\<forall>j < 6 * unat (fs_block_size_bytes fs). file_byte fs m' r' j =
          (if off \<le> j \<and> j < off + length src then src ! (j - off) else file_byte fs m r j))
     \<and> (\<forall>i < 6. ir_direct_blocks r' ! i \<noteq> 0 \<longleftrightarrow>
          ir_direct_blocks r ! i \<noteq> 0 \<or> touched_block (unat (fs_block_size_bytes fs)) off (length src) i)"

lemma write_inode_loop_step:
  assumes "src \<noteq> []" and "fs_block_size_bytes fs \<noteq> 0"
  defines "bs \<equiv> unat (fs_block_size_bytes fs)"
  shows "write_inode_loop fs r off src =
    bnd (if ir_direct_blocks r ! (off div bs) = SIMPLE_FS_EMPTY_BLOCK
          then bnd (allocate_data_block fs) (\<lambda>new_block.
            ret (new_block, r\<lparr>ir_direct_blocks := (ir_direct_blocks r)[off div bs := new_block]\<rparr>, replicate bs 0))
          else bnd (bc_read_block (ir_direct_blocks r ! (off div bs)) bs) (\<lambda>block_bytes.
            ret (ir_direct_blocks r ! (off div bs), r, block_bytes))) (\<lambda>(a, r, b).
      sq (bc_write_block a (overwrite (off mod bs) (take (min (length src) (bs - off mod bs)) src) b))
        (write_inode_loop fs r (off + min (length src) (bs - off mod bs)) (drop (min (length src) (bs - off mod bs)) src)))"
  using assms(1,2) unfolding bs_def by (subst write_inode_loop.simps) (simp add: Let_def)

lemma chunk_position:
  assumes "0 < (bs :: nat)" and "off mod bs + c \<le> bs"
  shows "j div bs = off div bs \<and> off mod bs \<le> j mod bs \<and> j mod bs < off mod bs + c \<longleftrightarrow> off \<le> j \<and> j < off + c"
    and "j div bs = off div bs \<Longrightarrow> off mod bs \<le> j mod bs \<Longrightarrow> j mod bs - off mod bs = j - off"
proof -
  have eq: "off div bs * bs + off mod bs = off" "j div bs * bs + j mod bs = j" by simp_all
  show "j mod bs - off mod bs = j - off" if "j div bs = off div bs" "off mod bs \<le> j mod bs"
    using eq that by (metis add_diff_cancel_left)
  have "j div bs = off div bs \<and> off mod bs \<le> j mod bs" if "off \<le> j" "j < off + c"
  proof -
    have "off mod bs + (j - off) < bs" using that assms(2) by linarith
    from div_mod_shift [OF this] that show ?thesis by simp
  qed
  then show "j div bs = off div bs \<and> off mod bs \<le> j mod bs \<and> j mod bs < off mod bs + c \<longleftrightarrow> off \<le> j \<and> j < off + c"
    using eq by (metis add_less_cancel_left add_le_cancel_left group_cancel.add1)
qed

text \<open>The first chunk followed by the rest.\<close>

lemma written_compose:
  assumes L: "layout_ok fs g" and src: "src \<noteq> []" and r: "direct_ok fs r" and bs: "bs = unat (fs_block_size_bytes fs)"
    and c: "c = min (length src) (bs - off mod bs)" and grow: "file_grows fs m r m1 r1"
    and bytes: "\<And>j. j < 6 * bs \<Longrightarrow> file_byte fs m1 r1 j =
      (if j div bs = off div bs \<and> off mod bs \<le> j mod bs \<and> j mod bs < off mod bs + c
       then take c src ! (j mod bs - off mod bs) else file_byte fs m r j)"
    and nz: "\<And>j. j < 6 \<Longrightarrow> ir_direct_blocks r1 ! j \<noteq> 0 \<longleftrightarrow> j = off div bs \<or> ir_direct_blocks r ! j \<noteq> 0"
    and w: "written fs m1 r1 (off + c) (drop c src) m2 r2"
  shows "written fs m r off src m2 r2"
proof -
  have pos: "0 < bs" using block_size_pos [OF L] bs by simp
  have len: "0 < length src" using src by simp
  note cb = chunk_bounds [OF len pos, of off, folded c] and step = touched_block_step [OF len pos c]
  have "file_grows fs m r m2 r2" using file_grows_trans [OF L grow _ r] w by (simp add: written_def)
  moreover have "file_byte fs m2 r2 j = (if off \<le> j \<and> j < off + length src then src ! (j - off) else file_byte fs m r j)"
    if "j < 6 * bs" for j
    using w bytes [OF that] that chunk_position [OF pos cb(3), of j] cb by (auto simp: written_def simp flip: bs)
  moreover have "ir_direct_blocks r2 ! j \<noteq> 0 \<longleftrightarrow> ir_direct_blocks r ! j \<noteq> 0 \<or> touched_block bs off (length src) j"
    if "j < 6" for j
    using w nz [OF that] that step [of j] by (auto simp: written_def simp flip: bs)
  ultimately show ?thesis by (simp add: written_def flip: bs)
qed

lemma write_inode_loop_spec:
  assumes L: "layout_ok fs g" and "bcs.shows_blocks g m s" and "direct_ok fs r" "owned fs m r"
    and "off + length src \<le> 6 * unat (fs_block_size_bytes fs)"
    and "card (missing_blocks fs r off (length src)) \<le> free_blocks fs m"
  shows "\<exists>m' r' s'. write_inode_loop fs r off src s = (Inr r', s') \<and> bcs.shows_blocks g m' s' \<and> written fs m r off src m' r'"
  using assms(2-)
proof (induction "length src" arbitrary: off src r m s rule: less_induct)
  case less
  let ?bs = "unat (fs_block_size_bytes fs)"
  have pos: "0 < ?bs" "fs_block_size_bytes fs \<noteq> 0" using block_size_pos [OF L] by auto
  show ?case
  proof (cases "src = []")
    case True
    have "written fs m r off src m r"
      using True file_grows_refl [OF L less.prems(2,3)] by (auto simp: written_def touched_block_def)
    with True less.prems(1) show ?thesis by (subst write_inode_loop.simps) (auto simp: ret_run)
  next
    case False
    let ?i = "off div ?bs" and ?c = "min (length src) (?bs - off mod ?bs)"
    have len: "0 < length src" using False by simp
    note c = chunk_bounds [OF len pos(1), of off] and step = touched_block_step [OF len pos(1) refl, of off]
    have "off < 6 * ?bs" using less.prems(4) len by linarith
    then have i: "?i < 6" using pos(1) by (simp add: div_less_iff_less_mult mult.commute)
    have fin: "finite (missing_blocks fs r off (length src))" by (simp add: missing_blocks_def)
    have inm: "?i \<in> missing_blocks fs r off (length src)" if "ir_direct_blocks r ! ?i = 0"
      using that i step by (simp add: missing_blocks_def)
    then have free: "0 < free_blocks fs m" if "ir_direct_blocks r ! ?i = 0"
      using that fin less.prems(5) card_gt_0_iff by fastforce
    have fit: "off mod ?bs + length (take ?c src) \<le> ?bs" using c by simp
    obtain m1 r1 s1 where run: "write_inode_loop fs r off src s = write_inode_loop fs r1 (off + ?c) (drop ?c src) s1"
      and s1: "bcs.shows_blocks g m1 s1" and grow: "file_grows fs m r m1 r1"
      and bytes: "\<And>j. j < 6 * ?bs \<Longrightarrow> file_byte fs m1 r1 j =
        (if j div ?bs = ?i \<and> off mod ?bs \<le> j mod ?bs \<and> j mod ?bs < off mod ?bs + length (take ?c src)
         then take ?c src ! (j mod ?bs - off mod ?bs) else file_byte fs m r j)"
      and nz: "\<And>j. j < 6 \<Longrightarrow> ir_direct_blocks r1 ! j \<noteq> 0 \<longleftrightarrow> j = ?i \<or> ir_direct_blocks r ! j \<noteq> 0"
      and count: "free_blocks fs m1 = free_blocks fs m - (if ir_direct_blocks r ! ?i = 0 then 1 else 0)"
    proof (rule write_chunk [OF L less.prems(1-3) i fit free,
          where f = "\<lambda>r. write_inode_loop fs r (off + ?c) (drop ?c src)"], goal_cases)
      case (2 m1 r1 s1)
      show ?case
        by (rule 2(1) [OF trans [OF arg_cong [of _ _ "\<lambda>f. f s", OF write_inode_loop_step [OF False pos(2)]] 2(2)] 2(3-7)])
    qed simp
    note G = file_growsD [OF grow]
    have "missing_blocks fs r1 (off + ?c) (length (drop ?c src)) = missing_blocks fs r off (length src) - {?i}"
      using step nz by (auto simp: missing_blocks_def)
    then have need: "card (missing_blocks fs r1 (off + ?c) (length (drop ?c src))) \<le> free_blocks fs m1"
      using less.prems(5) inm fin by (cases "ir_direct_blocks r ! ?i = 0") (auto simp: count missing_blocks_def)
    have smaller: "length (drop ?c src) < length src" and room: "off + ?c + length (drop ?c src) \<le> 6 * ?bs"
      using c(1,2) less.prems(4) by simp_all
    from less.hyps [OF smaller s1 G(2,3) room need] obtain m2 r2 s2 where w: "write_inode_loop fs r1 (off + ?c) (drop ?c src) s1 = (Inr r2, s2)"
      "bcs.shows_blocks g m2 s2" "written fs m1 r1 (off + ?c) (drop ?c src) m2 r2"
      by blast
    have "written fs m r off src m2 r2"
      by (rule written_compose [OF L False less.prems(2) refl refl grow _ nz w(3)]) (use bytes in simp_all)
    with run w(1,2) show ?thesis by auto
  qed
qed

end
