(* ===== verification/FsWrite.thy ===== *)
theory FsWrite
  imports FsFile
begin

text \<open>
  Writing to files. The invariant \<open>fs_inv\<close> ties the inode table to the bitmap: every inode parses, its blocks
  are those of its size, no two inodes share a block and every block in use belongs to an inode. Under it the
  file operations refine operations on the map \<open>file_view\<close> from inode numbers to kinds and contents.
\<close>

section \<open>Storing an inode\<close>

definition inode_stored :: "simple_fs_layout \<Rightarrow> disk \<Rightarrow> inode_record \<Rightarrow> disk \<Rightarrow> bool" where
  "inode_stored fs m r m' \<longleftrightarrow> inode_at fs m' (ir_number r) = Inr r
     \<and> (\<forall>k. k \<noteq> ir_number r \<longrightarrow> inode_at fs m' k = inode_at fs m k)
     \<and> (\<forall>a. a \<noteq> inode_block fs (ir_number r) \<longrightarrow> m' a = m a)"

lemma inode_at_cong:
  "m' (inode_block fs n) = m (inode_block fs n) \<Longrightarrow> inode_at fs m' n = inode_at fs m n"
  by (simp add: inode_at_def block_at_def)

lemma inode_stored_overwrite:
  assumes L: "layout_ok fs g" and r: "inode_record_ok fs r" and n: "inode_valid fs (ir_number r)"
    and b: "m (inode_block fs (ir_number r)) = Some b" "length b = unat (fs_block_size_bytes fs)"
    and rec: "serialize_inode r = Inr rec"
  shows "inode_stored fs m r (m(inode_block fs (ir_number r) \<mapsto> overwrite (inode_offset fs (ir_number r)) rec b))"
proof -
  let ?n = "ir_number r"
  let ?b = "overwrite (inode_offset fs ?n) rec b"
  let ?m = "m(inode_block fs ?n \<mapsto> ?b)"
  have loc: "unat (inode_block fs k) = unat (fs_inode_table_start fs) + fst (inode_slot fs k)"
    "inode_offset fs k = snd (inode_slot fs k)" "snd (inode_slot fs k) + 64 \<le> unat (fs_block_size_bytes fs)"
    "1 \<le> unat k" if "inode_valid fs k" for k
    using inode_location [OF layout_ok_regions [OF L], of k] inode_record_fits [OF L, of k] that
    by (simp_all add: inode_valid_def)
  have len: "length rec = 64" using serialize_inode_run [OF rec] by (simp add: fs_constants)
  then have fit: "inode_offset fs ?n + length rec \<le> length b" using loc(2,3) [OF n] b(2) by simp
  have lenb: "length ?b = unat (fs_block_size_bytes fs)" using b(2) fit by simp
  have "inode_at fs ?m ?n = parse_inode fs ?n (subspan (inode_offset fs ?n) 64 ?b)"
    by (rule inode_at_run [OF L n]) (use lenb in simp_all)
  then have same: "inode_at fs ?m ?n = Inr r"
    using subspan_overwrite_same [OF fit] parse_serialize_inode [OF r rec] len by simp
  have "inode_at fs ?m k = inode_at fs m k" if k: "k \<noteq> ?n" for k
  proof (cases "inode_valid fs k \<and> inode_block fs k = inode_block fs ?n")
    case True
    then have v: "inode_valid fs k" and eq: "inode_block fs k = inode_block fs ?n" by simp_all
    have "fst (inode_slot fs k) = fst (inode_slot fs ?n)" using loc(1) [OF v] loc(1) [OF n] eq by simp
    from inode_slots_disjoint [OF L loc(4) [OF v] loc(4) [OF n] k this]
    have "subspan (inode_offset fs k) 64 ?b = subspan (inode_offset fs k) 64 b"
      using loc(2,3) [OF v] loc(2) [OF n] fit b(2) len by (intro subspan_overwrite_other) auto
    then show ?thesis
      using inode_at_run [OF L v, of ?m] inode_at_run [OF L v, of m] eq b lenb by simp
  next
    case False
    then show ?thesis
      by (cases "inode_valid fs k") (auto simp: inode_at_invalid intro!: inode_at_cong)
  qed
  with same show ?thesis by (simp add: inode_stored_def)
qed

lemma write_inode_spec:
  assumes L: "layout_ok fs g" and s: "bcs.shows_blocks g m s" and r: "inode_record_ok fs r" and n: "inode_valid fs (ir_number r)"
  obtains m' s' where "write_inode fs r s = (Inr (), s')" and "bcs.shows_blocks g m' s'" and "inode_stored fs m r m'"
proof -
  let ?a = "inode_block fs (ir_number r)" and ?off = "inode_offset fs (ir_number r)"
  have a: "?a < bg_block_count g"
    using inode_block_bounds(3) [OF L n] layout_okD(2) [OF L] by (simp add: word_less_nat_alt)
  obtain rec where rec: "serialize_inode r = Inr rec" by (rule inode_record_ok_serializes [OF r])
  obtain b where b: "m ?a = Some b" "length b = unat (bg_block_size_bytes g)" by (rule bcs.block_shown [OF s a])
  have fit: "?off + 64 \<le> length b"
    using inode_location(2) [OF layout_ok_regions [OF L], of "ir_number r"] inode_record_fits [OF L] n b(2) layout_okD(1) [OF L]
    by (simp add: inode_valid_def)
  then have len: "length (overwrite ?off rec b) = length b"
    using serialize_inode_run [OF rec] by (simp add: fs_constants)
  obtain s' where run: "bnd (bc_read_block ?a (unat (bg_block_size_bytes g))) (\<lambda>b. bc_write_block ?a (overwrite ?off rec b)) s = (Inr (), s')"
    and s': "bcs.shows_blocks g (m(?a \<mapsto> overwrite ?off rec b)) s'"
    by (rule bcs.update_block [OF s a b(1), where f = "overwrite ?off rec"]) (rule len)
  obtain s1 where s1: "bc_read_block ?a (unat (bg_block_size_bytes g)) s = (Inr b, s1)"
    using bcs.readsD [OF bcs.reads_block s, of ?a] b(1) by (metis option.simps(5))
  have "write_inode fs r s = (Inr (), s')"
    using run s1 n rec fit layout_okD(1) [OF L]
    by (simp add: write_inode_def op_simps validate_inode_number_run inode_valid_def record_span_def fs_constants)
  then show thesis
    by (rule that [OF _ s' inode_stored_overwrite [where m = m, OF L r n b(1) _ rec]]) (use b(2) layout_okD(1) [OF L] in simp)
qed

section \<open>Space\<close>

definition blocks_for :: "nat \<Rightarrow> nat \<Rightarrow> nat" where
  "blocks_for bs n = (n + bs - 1) div bs"

lemma less_blocks_for:
  assumes "0 < bs" shows "i < blocks_for bs n \<longleftrightarrow> i * bs < n"
proof -
  have "i < blocks_for bs n \<longleftrightarrow> Suc i * bs \<le> n + bs - 1"
    using assms by (simp add: blocks_for_def less_eq_div_iff_mult_less_eq flip: Suc_le_eq)
  also have "\<dots> \<longleftrightarrow> i * bs < n" using assms by auto
  finally show ?thesis .
qed

lemma card_blocks_for:
  assumes "0 < bs" and "n \<le> 6 * bs"
  shows "{i. i < 6 \<and> i * bs < n} = {..<blocks_for bs n}" and "blocks_for bs n \<le> 6"
proof -
  note less = less_blocks_for [OF assms(1), of _ n]
  have "\<not> 6 < blocks_for bs n" unfolding less using assms(2) by simp
  then show le: "blocks_for bs n \<le> 6" by simp
  have "i < 6" if "i * bs < n" for i using that le unfolding less [symmetric] by simp
  then show "{i. i < 6 \<and> i * bs < n} = {..<blocks_for bs n}" by (auto simp: less)
qed

lemma blocks_for_mono: "m \<le> n \<Longrightarrow> blocks_for bs m \<le> blocks_for bs n"
  by (simp add: blocks_for_def div_le_mono)

text \<open>A file of \<open>n\<close> bytes has exactly the blocks that its size needs.\<close>

definition dense :: "simple_fs_layout \<Rightarrow> inode_record \<Rightarrow> bool" where
  "dense fs r \<longleftrightarrow> (\<forall>i < 6. ir_direct_blocks r ! i \<noteq> 0 \<longleftrightarrow> i * unat (fs_block_size_bytes fs) < unat (ir_size_bytes r))"

lemma dense_blocks:
  assumes L: "layout_ok fs g" and r: "direct_ok fs r" "dense fs r" and size: "unat (ir_size_bytes r) \<le> 6 * unat (fs_block_size_bytes fs)"
  shows "length (filter (\<lambda>a. a \<noteq> 0) (ir_direct_blocks r)) = blocks_for (unat (fs_block_size_bytes fs)) (unat (ir_size_bytes r))"
proof -
  let ?bs = "unat (fs_block_size_bytes fs)"
  have len: "length (ir_direct_blocks r) = 6" using r(1) by (simp add: direct_ok_def)
  have "length (filter (\<lambda>a. a \<noteq> 0) (ir_direct_blocks r)) = card {i. i < 6 \<and> ir_direct_blocks r ! i \<noteq> 0}"
    by (simp add: length_filter_conv_card len)
  also have "{i. i < 6 \<and> ir_direct_blocks r ! i \<noteq> 0} = {i. i < 6 \<and> i * ?bs < unat (ir_size_bytes r)}"
    using r(2) by (auto simp: dense_def)
  finally show ?thesis using card_blocks_for [OF block_size_pos [OF L] size] by simp
qed

lemma ceil_div_run:
  assumes "0 < unat d" and "unat v + unat d \<le> 2 ^ 64"
  shows "\<exists>q. ceil_div_u64 v d = Inr q \<and> unat q = blocks_for (unat d) (unat v)"
proof (cases "v = 0")
  case True
  with assms(1) show ?thesis by (auto simp: ceil_div_u64_def blocks_for_def)
next
  case False
  then have v: "unat (v - 1) = unat v - 1" "0 < unat v"
    by (simp_all add: unat_minus_one unat_gt_0)
  have "(unat v - 1) div unat d + 1 \<le> unat v" using v(2) by (metis Suc_diff_1 Suc_eq_plus1 Suc_le_mono div_le_dividend)
  then have "(unat v - 1) div unat d + 1 < 2 ^ 64" using unat_less_64 [of v] by linarith
  then have "unat ((v - 1) div d + 1) = (unat v - 1) div unat d + 1"
    using v(1) by (subst unat_plus_exact) (simp_all add: unat_div)
  also have "\<dots> = blocks_for (unat d) (unat v)"
    using v(2) assms(1) div_add_self2 [of "unat d" "unat v - 1"] by (simp add: blocks_for_def)
  finally show ?thesis using False assms(1) by (auto simp: ceil_div_u64_def)
qed

lemma additional_blocks_needed_run:
  assumes L: "layout_ok fs g" and r: "direct_ok fs r" "dense fs r" and size: "unat (ir_size_bytes r) \<le> 6 * unat (fs_block_size_bytes fs)"
  shows "additional_blocks_needed fs r e = (if 6 * unat (fs_block_size_bytes fs) < unat e then Inl Length_error
    else Inr (blocks_for (unat (fs_block_size_bytes fs)) (unat e) - blocks_for (unat (fs_block_size_bytes fs)) (unat (ir_size_bytes r))))"
proof -
  let ?bs = "unat (fs_block_size_bytes fs)"
  have "unat e \<le> 6 * ?bs \<Longrightarrow> unat e + ?bs \<le> 2 ^ 64" using layout_okD(4) [OF L] by simp
  note ceil = ceil_div_run [OF block_size_pos [OF L], OF this]
  have max: "max_file_size_bytes fs < e \<longleftrightarrow> 6 * ?bs < unat e"
    by (simp add: word_less_nat_alt max_file_size_unat [OF L])
  show ?thesis
  proof (cases "6 * ?bs < unat e")
    case True
    then show ?thesis by (simp add: additional_blocks_needed_def max)
  next
    case False
    then obtain q where "ceil_div_u64 e (fs_block_size_bytes fs) = Inr q" "unat q = blocks_for ?bs (unat e)"
      using ceil by auto
    with False show ?thesis
      using dense_blocks [OF L r size] by (simp add: additional_blocks_needed_def max sbind_def Let_def fs_constants)
  qed
qed

lemma card_missing_blocks:
  assumes L: "layout_ok fs g" and r: "dense fs r" and off: "off \<le> unat (ir_size_bytes r)" "n \<noteq> 0"
    and e: "off + n \<le> 6 * unat (fs_block_size_bytes fs)" and size: "unat (ir_size_bytes r) \<le> 6 * unat (fs_block_size_bytes fs)"
  shows "card (missing_blocks fs r off n) = blocks_for (unat (fs_block_size_bytes fs)) (off + n)
    - blocks_for (unat (fs_block_size_bytes fs)) (unat (ir_size_bytes r))"
proof -
  let ?bs = "unat (fs_block_size_bytes fs)"
  note pos = block_size_pos [OF L]
  have "off div ?bs \<le> i" if "unat (ir_size_bytes r) \<le> i * ?bs" for i
    using that off(1) pos by (metis div_le_mono div_mult_self_is_m order_trans)
  then have "missing_blocks fs r off n = {i. i < 6 \<and> i * ?bs < off + n} - {i. i < 6 \<and> i * ?bs < unat (ir_size_bytes r)}"
    using r off(2) by (auto simp: missing_blocks_def touched_block_def dense_def not_less)
  also have "\<dots> = {..<blocks_for ?bs (off + n)} - {..<blocks_for ?bs (unat (ir_size_bytes r))}"
    using card_blocks_for [OF pos e] card_blocks_for [OF pos size] by simp
  also have "\<dots> = {blocks_for ?bs (unat (ir_size_bytes r))..<blocks_for ?bs (off + n)}" by auto
  finally show ?thesis by simp
qed

section \<open>Bytes into an inode\<close>

text \<open>What stops a write of \<open>n\<close> bytes at \<open>off\<close> to a file of \<open>len\<close> bytes, when \<open>free\<close> data blocks are free.\<close>

definition write_error :: "simple_fs_layout \<Rightarrow> nat \<Rightarrow> nat \<Rightarrow> nat \<Rightarrow> nat \<Rightarrow> exn option" where
  "write_error fs free len off n = (let bs = unat (fs_block_size_bytes fs) in
     if len < off then Some Invalid_argument
     else if n = 0 then None
     else if 6 * bs < off + n \<or> free < blocks_for bs (off + n) - blocks_for bs len then Some Length_error
     else None)"

lemma room_above:
  assumes "n < 2 ^ 64" shows "of_nat n > - 1 - (off :: qword) \<longleftrightarrow> 2 ^ 64 \<le> unat off + n"
proof -
  have "unat (- 1 - off) = 2 ^ 64 - 1 - unat off"
    using unat_less_64 [of off] by (subst unat_sub) (auto simp: word_le_nat_alt unsigned_minus_1_eq_mask mask_eq_exp_minus_1)
  moreover have "unat (of_nat n :: qword) = n" using assms by (simp add: unsigned_of_nat take_bit_nat_eq_self)
  ultimately show ?thesis using unat_less_64 [of off] by (auto simp: word_less_nat_alt)
qed

lemma write_inode_bytes_spec:
  assumes L: "layout_ok fs g" and s: "bcs.shows_blocks g m s" and r: "inode_record_ok fs r" "owned fs m r" "dense fs r"
    and len: "length src < 2 ^ 64"
  obtains (refused) e s' where "write_error fs (free_blocks fs m) (unat (ir_size_bytes r)) (unat off) (length src) = Some e"
      and "write_inode_bytes fs r off src s = (Inl e, s')" and "bcs.shows_blocks g m s'"
    | (success) m' r' s' where "write_error fs (free_blocks fs m) (unat (ir_size_bytes r)) (unat off) (length src) = None"
      and "write_inode_bytes fs r off src s = (Inr (r'\<lparr>ir_size_bytes := max (ir_size_bytes r) (off + of_nat (length src))\<rparr>, length src), s')"
      and "bcs.shows_blocks g m' s'" and "written fs m r (unat off) src m' r'"
      and "unat (off + of_nat (length src)) = unat off + length src"
      and "unat off + length src \<le> 6 * unat (fs_block_size_bytes fs)" and "unat off \<le> unat (ir_size_bytes r)"
proof -
  let ?bs = "unat (fs_block_size_bytes fs)" and ?e = "off + of_nat (length src) :: qword"
  note direct = inode_record_direct_ok [OF r(1)] and size = record_size_bound [OF L r(1)]
  consider (beyond) "ir_size_bytes r < off" | (empty) "\<not> ir_size_bytes r < off" "src = []"
    | (wrap) "\<not> ir_size_bytes r < off" "src \<noteq> []" "of_nat (length src) > - 1 - off"
    | (fits) "\<not> ir_size_bytes r < off" "src \<noteq> []" "\<not> of_nat (length src) > - 1 - off" by blast
  then show thesis
  proof cases
    case beyond
    then show thesis
      using s by (intro refused [of Invalid_argument s])
        (simp_all add: write_error_def write_inode_bytes_def throw_run word_less_nat_alt)
  next
    case empty
    have "written fs m r (unat off) src m r"
      unfolding empty(2) using file_grows_refl [OF L direct r(2)] by (auto simp: written_def touched_block_def)
    moreover have mx: "max (ir_size_bytes r) off = ir_size_bytes r"
      using empty by (simp add: max_absorb1)
    ultimately show thesis using empty s size
      by (intro success [where m' = m and r' = r and s' = s])
         (auto simp: write_error_def write_inode_bytes_def ret_run word_less_nat_alt mx)
  next
    case wrap
    have "6 * ?bs < unat off + length src" using wrap(3) room_above [OF len, of off] layout_okD(4) [OF L] by simp
    with wrap s show thesis
      by (intro refused [of Length_error s])
         (auto simp: write_error_def write_inode_bytes_def throw_run word_less_nat_alt)
  next
    case fits
    have e: "unat ?e = unat off + length src"
      using fits(3) unfolding room_above [OF len] by (intro unat_add_of_nat) simp
    obtain s1 where s1: "free_data_block_count fs s = (Inr (free_blocks fs m), s1)" "bcs.shows_blocks g m s1"
      by (rule bcs.readsD [OF reads_free_data_block_count [OF L] s])
    have off: "unat off \<le> unat (ir_size_bytes r)" using fits(1) by (simp add: word_less_nat_alt)
    note need = additional_blocks_needed_run [OF L direct r(3) size, of ?e, unfolded e]
    let ?need = "blocks_for ?bs (unat off + length src) - blocks_for ?bs (unat (ir_size_bytes r))"
    show thesis
    proof (cases "6 * ?bs < unat off + length src \<or> free_blocks fs m < ?need")
      case True
      with fits off need s s1 show thesis
        by (cases "6 * ?bs < unat off + length src")
           (auto intro!: refused simp: write_error_def write_inode_bytes_def op_simps Let_def word_less_nat_alt)
    next
      case False
      then have room: "unat off + length src \<le> 6 * ?bs" by simp
      have "card (missing_blocks fs r (unat off) (length src)) \<le> free_blocks fs m"
        using False fits(2) by (subst card_missing_blocks [OF L r(3) off _ room size]) simp_all
      from write_inode_loop_spec [OF L s1(2) direct r(2) room this] obtain m' r' s' where
        w: "write_inode_loop fs r (unat off) src s1 = (Inr r', s')" "bcs.shows_blocks g m' s'" "written fs m r (unat off) src m' r'"
        by blast
      have "ir_size_bytes r' = ir_size_bytes r"
        using w(3) file_growsD(1) [of fs m r m' r'] unfolding written_def by (metis inode_record.select_convs(3) inode_record.surjective inode_record.update_convs(4))
      then have run: "write_inode_bytes fs r off src s = (Inr (r'\<lparr>ir_size_bytes := max (ir_size_bytes r) ?e\<rparr>, length src), s')"
        using w(1) s1(1) fits need False room
        by (simp add: write_inode_bytes_def op_simps Let_def not_less)
      show thesis
        by (rule success [OF _ run w(2,3) e room off]) (use fits False off in \<open>auto simp: write_error_def Let_def\<close>)
    qed
  qed
qed

section \<open>The invariant\<close>

definition blocks_of :: "inode_record \<Rightarrow> qword set" where
  "blocks_of r = set (ir_direct_blocks r) - {0}"

definition fs_inv :: "simple_fs_layout \<Rightarrow> disk \<Rightarrow> bool" where
  "fs_inv fs m \<longleftrightarrow>
     (\<forall>n. inode_valid fs n \<longrightarrow> (\<exists>r. inode_at fs m n = Inr r \<and> owned fs m r \<and> dense fs r))
     \<and> (\<forall>n k r q. inode_at fs m n = Inr r \<longrightarrow> inode_at fs m k = Inr q \<longrightarrow> n \<noteq> k \<longrightarrow> blocks_of r \<inter> blocks_of q = {})
     \<and> (\<forall>a. block_used fs m a \<longrightarrow> (\<exists>n r. inode_at fs m n = Inr r \<and> a \<in> blocks_of r))"

lemma fs_invD:
  assumes "fs_inv fs m" and "inode_at fs m n = Inr r"
  shows "owned fs m r" and "dense fs r" and "inode_at fs m k = Inr q \<Longrightarrow> n \<noteq> k \<Longrightarrow> blocks_of r \<inter> blocks_of q = {}"
    and "a \<in> blocks_of r \<Longrightarrow> block_used fs m a"
proof -
  obtain r' where "inode_at fs m n = Inr r'" "owned fs m r'" "dense fs r'"
    using assms inode_at_ok(3) [OF assms(2)] unfolding fs_inv_def by blast
  with assms(2) show o: "owned fs m r" "dense fs r" by simp_all
  show "inode_at fs m k = Inr q \<Longrightarrow> n \<noteq> k \<Longrightarrow> blocks_of r \<inter> blocks_of q = {}"
    using assms unfolding fs_inv_def by blast
  show "a \<in> blocks_of r \<Longrightarrow> block_used fs m a"
    using owned_used [OF o(1) inode_record_direct_ok [OF inode_at_ok(1) [OF assms(2)]]] by (simp add: blocks_of_def)
qed

lemma fs_inv_inode:
  assumes "fs_inv fs m" and "inode_valid fs n" obtains r where "inode_at fs m n = Inr r"
  using assms unfolding fs_inv_def by blast

lemma inode_at_cases:
  assumes "fs_inv fs m"
  obtains (invalid) "inode_at fs m n = Inl Out_of_range" and "\<not> inode_valid fs n" | (inode) r where "inode_at fs m n = Inr r" and "inode_valid fs n"
  using assms inode_at_invalid fs_inv_inode by metis

text \<open>Storing an inode touches neither the bitmap nor the data blocks.\<close>

lemma inode_stored_data:
  assumes L: "layout_ok fs g" and st: "inode_stored fs m r m'" and n: "inode_valid fs (ir_number r)"
  shows "block_used fs m' a = block_used fs m a" and "owned fs m' q = owned fs m q"
    and "direct_ok fs q \<Longrightarrow> j < 6 * unat (fs_block_size_bytes fs) \<Longrightarrow> file_byte fs m' q j = file_byte fs m q j"
    and "free_blocks fs m' = free_blocks fs m"
proof -
  have other: "m' a = m a" if "unat (fs_data_bitmap_start fs) \<le> unat a" for a
    using st that inode_block_bounds(2) [OF L n] unfolding inode_stored_def by (metis not_less)
  have bits: "block_bit fs m' k = block_bit fs m k" if "k < data_count fs" for k
    using other [OF bitmap_block_unat(2) [OF L bitmap_index [OF L that]]] by (simp add: block_bit_def)
  then show used: "block_used fs m' a = block_used fs m a" for a by (auto simp: block_used_def)
  then show "owned fs m' q = owned fs m q" by (simp add: owned_def)
  show "free_blocks fs m' = free_blocks fs m"
    using bits by (auto simp: free_blocks_def intro!: arg_cong [of _ _ length] filter_cong)
  show "file_byte fs m' q j = file_byte fs m q j" if q: "direct_ok fs q" "j < 6 * unat (fs_block_size_bytes fs)"
  proof -
    let ?a = "ir_direct_blocks q ! (j div unat (fs_block_size_bytes fs))"
    have "j div unat (fs_block_size_bytes fs) < 6"
      using q(2) block_size_pos [OF L] by (simp add: div_less_iff_less_mult mult.commute)
    from direct_okD [OF q(1) this] have "unat (fs_data_start fs) \<le> unat ?a" if "?a \<noteq> 0"
      using that by (simp add: data_block_ok_def word_le_nat_alt)
    then have "?a \<noteq> 0 \<Longrightarrow> m' ?a = m ?a" using other layout_okD(8) [OF L] by simp
    then show ?thesis by (simp add: file_byte_def Let_def)
  qed
qed

text \<open>An inode changes in place: it may get blocks that were free, and nothing else in the table changes.\<close>

lemma fs_inv_step:
  assumes L: "layout_ok fs g" and inv: "fs_inv fs m" and r: "inode_at fs m n = Inr r"
    and table: "\<And>k. k \<noteq> n \<Longrightarrow> inode_at fs m' k = inode_at fs m k" "inode_at fs m' n = Inr r'"
    and own: "owned fs m' r'" "dense fs r'" and grow: "blocks_of r \<subseteq> blocks_of r'"
    and fresh: "\<And>a. a \<in> blocks_of r' \<Longrightarrow> a \<in> blocks_of r \<or> \<not> block_used fs m a"
    and used: "\<And>a. block_used fs m' a \<longleftrightarrow> block_used fs m a \<or> a \<in> blocks_of r'"
  shows "fs_inv fs m'"
  unfolding fs_inv_def
proof (intro conjI allI impI)
  fix k assume "inode_valid fs k"
  then obtain q where q: "inode_at fs m k = Inr q" by (rule fs_inv_inode [OF inv])
  note D = fs_invD [OF inv q]
  show "\<exists>q. inode_at fs m' k = Inr q \<and> owned fs m' q \<and> dense fs q"
    using table own q D(1,2) used by (cases "k = n") (auto simp: owned_def)
next
  have disj: "blocks_of r' \<inter> blocks_of q = {}" if "inode_at fs m k = Inr q" "k \<noteq> n" for k q
    using fresh fs_invD(3) [OF inv r that(1)] fs_invD(4) [OF inv that(1)] that(2) by fastforce
  fix j k p q assume jk: "inode_at fs m' j = Inr p" "inode_at fs m' k = Inr q" "j \<noteq> k"
  consider "j = n" | "k = n" | "j \<noteq> n" "k \<noteq> n" by blast
  then show "blocks_of p \<inter> blocks_of q = {}"
    using jk table disj fs_invD(3) [OF inv, of j p k q] by cases (auto simp: Int_commute)
next
  fix a assume "block_used fs m' a"
  then consider "a \<in> blocks_of r'" | "block_used fs m a" using used by blast
  then show "\<exists>n r. inode_at fs m' n = Inr r \<and> a \<in> blocks_of r"
  proof cases
    case 2
    then obtain k q where "inode_at fs m k = Inr q" "a \<in> blocks_of q" using inv unfolding fs_inv_def by blast
    moreover have "inode_at fs m' k = Inr q" if "k \<noteq> n" using table(1) [OF that] calculation(1) by simp
    ultimately show ?thesis using table(2) grow r by (cases "k = n") auto
  qed (use table(2) in blast)
qed

section \<open>Files\<close>

definition file_view :: "simple_fs_layout \<Rightarrow> disk \<Rightarrow> inode_number \<rightharpoonup> simple_fs_node_kind \<times> byte list" where
  "file_view fs m n = (case inode_at fs m n of Inl _ \<Rightarrow> None
     | Inr r \<Rightarrow> if ir_allocated r then Some (ir_kind r, file_bytes fs m r) else None)"

lemma file_byte_size [simp]: "file_byte fs m (r\<lparr>ir_size_bytes := z\<rparr>) = file_byte fs m r"
  by (simp add: file_byte_def fun_eq_iff)

lemma length_file_bytes [simp]: "length (file_bytes fs m r) = unat (ir_size_bytes r)"
  by (simp add: file_bytes_def)

lemma file_bytes_written:
  assumes w: "written fs m r off src m' r'" and off: "off \<le> unat (ir_size_bytes r)" and e: "unat e = off + length src"
    and room: "off + length src \<le> 6 * unat (fs_block_size_bytes fs)" "unat (ir_size_bytes r) \<le> 6 * unat (fs_block_size_bytes fs)"
  shows "file_bytes fs m' (r'\<lparr>ir_size_bytes := max (ir_size_bytes r) e\<rparr>) = overwrite off src (file_bytes fs m r)"
proof (rule nth_equalityI)
  have max: "unat (max (ir_size_bytes r) e) = max (unat (ir_size_bytes r)) (off + length src)"
    using e by (simp add: max_def word_le_nat_alt)
  show "length (file_bytes fs m' (r'\<lparr>ir_size_bytes := max (ir_size_bytes r) e\<rparr>)) = length (overwrite off src (file_bytes fs m r))"
    using off by (simp add: max overwrite_def)
  fix j assume "j < length (file_bytes fs m' (r'\<lparr>ir_size_bytes := max (ir_size_bytes r) e\<rparr>))"
  then have j: "j < max (unat (ir_size_bytes r)) (off + length src)" by (simp add: max)
  then have "file_byte fs m' r' j = (if off \<le> j \<and> j < off + length src then src ! (j - off) else file_byte fs m r j)"
    using w room by (simp add: written_def)
  then show "file_bytes fs m' (r'\<lparr>ir_size_bytes := max (ir_size_bytes r) e\<rparr>) ! j = overwrite off src (file_bytes fs m r) ! j"
    using j off by (auto simp: file_bytes_def max overwrite_def nth_append)
qed

text \<open>Bytes written and the inode stored: the invariant holds again and only this file has changed.\<close>

lemma written_stored:
  assumes L: "layout_ok fs g" and inv: "fs_inv fs m" and r: "inode_at fs m n = Inr r" "ir_allocated r"
    and w: "written fs m r off src m1 r1" and off: "off \<le> unat (ir_size_bytes r)" and e: "unat e = off + length src"
    and room: "off + length src \<le> 6 * unat (fs_block_size_bytes fs)" and r2: "r2 = r1\<lparr>ir_size_bytes := max (ir_size_bytes r) e\<rparr>"
    and st: "inode_stored fs m1 r2 m2"
  shows "fs_inv fs m2" and "file_view fs m2 = (file_view fs m)(n \<mapsto> (ir_kind r, overwrite off src (file_bytes fs m r)))"
proof -
  let ?bs = "unat (fs_block_size_bytes fs)"
  note R = inode_at_ok [OF r(1)] and inv_r = fs_invD [OF inv r(1)]
  have grow: "file_grows fs m r m1 r1" and nz: "\<And>i. i < 6 \<Longrightarrow> ir_direct_blocks r1 ! i \<noteq> 0 \<longleftrightarrow>
      ir_direct_blocks r ! i \<noteq> 0 \<or> touched_block ?bs off (length src) i"
    using w by (simp_all add: written_def)
  note G = file_growsD [OF grow] and size = record_size_bound [OF L R(1)]
  have r1: "ir_number r1 = n" "ir_kind r1 = ir_kind r" "ir_allocated r1" "ir_size_bytes r1 = ir_size_bytes r"
    using G(1) R(2) r(2) by (metis inode_record.select_convs inode_record.surjective inode_record.update_convs(4))+
  have n2: "ir_number r2 = n" "ir_direct_blocks r2 = ir_direct_blocks r1" using r1 r2 by simp_all
  have table1: "inode_at fs m1 k = inode_at fs m k" for k
    using G(6) [OF inode_block_bounds(2) [OF L]] inode_at_invalid [of fs k] by (metis inode_at_cong)
  have table: "inode_at fs m2 n = Inr r2" "k \<noteq> n \<Longrightarrow> inode_at fs m2 k = inode_at fs m k" for k
    using st n2 table1 by (simp_all add: inode_stored_def)
  note D = inode_stored_data [OF L st, unfolded n2, OF R(3)]
  have len: "length (ir_direct_blocks r) = 6" "length (ir_direct_blocks r1) = 6"
    using inode_record_direct_ok [OF R(1)] G(2) by (simp_all add: direct_ok_def)
  show "fs_inv fs m2"
  proof (rule fs_inv_step [OF L inv r(1) table(2) table(1)])
    show "owned fs m2 r2" using G(3) D(1) n2 by (simp add: owned_def)
    have max: "unat (max (ir_size_bytes r) e) = max (unat (ir_size_bytes r)) (off + length src)"
      using e by (simp add: max_def word_le_nat_alt)
    show "dense fs r2"
      unfolding dense_def
    proof (intro allI impI)
      fix i :: nat assume i: "i < 6"
      have "off div ?bs \<le> i" if "unat (ir_size_bytes r) \<le> i * ?bs"
        using that off block_size_pos [OF L] by (metis div_le_mono div_mult_self_is_m order_trans)
      then show "ir_direct_blocks r2 ! i \<noteq> 0 \<longleftrightarrow> i * ?bs < unat (ir_size_bytes r2)"
        using nz [OF i] inv_r(2) i off by (auto simp: n2 dense_def r2 max touched_block_def not_less)
    qed
    show "blocks_of r \<subseteq> blocks_of r2"
      using G(4) len unfolding blocks_of_def n2 by (auto simp: in_set_conv_nth) metis
    show "a \<in> blocks_of r \<or> \<not> block_used fs m a" if a: "a \<in> blocks_of r2" for a
    proof -
      obtain i where i: "i < 6" "a = ir_direct_blocks r1 ! i" "a \<noteq> 0" using a len unfolding blocks_of_def n2 by (auto simp: in_set_conv_nth)
      then show ?thesis using G(4,5) [OF i(1)] len by (cases "ir_direct_blocks r ! i = 0") (auto simp: blocks_of_def)
    qed
    show "block_used fs m2 a \<longleftrightarrow> block_used fs m a \<or> a \<in> blocks_of r2" for a
      using G(8) D(1) by (simp add: blocks_of_def n2)
  qed
  have other: "file_bytes fs m2 q = file_bytes fs m q" if q: "inode_at fs m k = Inr q" "k \<noteq> n" for k q
  proof -
    note Q = inode_at_ok [OF q(1)]
    have "file_byte fs m2 q j = file_byte fs m q j" if j: "j < unat (ir_size_bytes q)" for j
    proof -
      let ?a = "ir_direct_blocks q ! (j div ?bs)"
      have j6: "j < 6 * ?bs" using j record_size_bound [OF L Q(1)] by simp
      then have "j div ?bs < 6" using block_size_pos [OF L] by (simp add: div_less_iff_less_mult mult.commute)
      then have "?a \<in> blocks_of q" if "?a \<noteq> 0"
        using that inode_record_direct_ok [OF Q(1)] by (simp add: blocks_of_def direct_ok_def)
      then have "m1 ?a = m ?a" if "?a \<noteq> 0"
        using that G(7) [of ?a] fs_invD(3,4) [OF inv q(1)] r(1) q(2) by (auto simp: blocks_of_def)
      then have "file_byte fs m1 q j = file_byte fs m q j" by (simp add: file_byte_def Let_def)
      then show ?thesis using D(3) [OF inode_record_direct_ok [OF Q(1)] j6] by simp
    qed
    then show ?thesis by (simp add: file_bytes_def)
  qed
  have "file_bytes fs m2 r2 = file_bytes fs m1 r2"
  proof -
    have "direct_ok fs r2" using G(2) n2 by (simp add: direct_ok_def)
    moreover have "unat (ir_size_bytes r2) \<le> 6 * ?bs" using size room e by (simp add: r2 max_def)
    ultimately show ?thesis using D(3) [of r2] by (simp add: file_bytes_def)
  qed
  then have "file_bytes fs m2 r2 = overwrite off src (file_bytes fs m r)"
    using file_bytes_written [OF w off e room size] by (simp add: r2)
  then show "file_view fs m2 = (file_view fs m)(n \<mapsto> (ir_kind r, overwrite off src (file_bytes fs m r)))"
    using table r1 r2 other by (auto simp: file_view_def fun_eq_iff split: sum.splits)
qed

text \<open>The bytes are written and the inode is stored with its new size.\<close>

lemma write_and_store:
  assumes L: "layout_ok fs g" and s: "bcs.shows_blocks g m s" and inv: "fs_inv fs m"
    and r: "inode_at fs m n = Inr r" "ir_allocated r" and len: "length src < 2 ^ 64"
  obtains (refused) e s' where "write_error fs (free_blocks fs m) (unat (ir_size_bytes r)) (unat off) (length src) = Some e"
      and "write_inode_bytes fs r off src s = (Inl e, s')" and "bcs.shows_blocks g m s'"
    | (success) r' s1 m' s' where "write_error fs (free_blocks fs m) (unat (ir_size_bytes r)) (unat off) (length src) = None"
      and "write_inode_bytes fs r off src s = (Inr (r', length src), s1)" and "write_inode fs r' s1 = (Inr (), s')"
      and "bcs.shows_blocks g m' s'" and "fs_inv fs m'"
      and "file_view fs m' = (file_view fs m)(n \<mapsto> (ir_kind r, overwrite (unat off) src (file_bytes fs m r)))"
proof -
  note R = inode_at_ok [OF r(1)] and I = fs_invD(1,2) [OF inv r(1)]
  have kind: "ir_kind r \<noteq> NODE_KIND_COUNT" using R(1) r(2) by (simp add: inode_record_ok_def)
  show thesis
  proof (cases rule: write_inode_bytes_spec [OF L s R(1) I len, where off = off])
    case (1 e s2)
    then show thesis by (rule refused)
  next
    case (2 m1 r1 s2)
    let ?r = "r1\<lparr>ir_size_bytes := max (ir_size_bytes r) (off + of_nat (length src))\<rparr>"
    have grows: "file_grows fs m r m1 r1" using 2(4) by (simp add: written_def)
    have r1: "ir_number r1 = n" "ir_kind r1 = ir_kind r" "ir_allocated r1"
      using file_growsD(1) [OF grows] R(2) r(2)
      by (metis inode_record.select_convs inode_record.surjective inode_record.update_convs(4))+
    have max: "unat (max (ir_size_bytes r) (off + of_nat (length src))) \<le> 6 * unat (fs_block_size_bytes fs)"
      using 2(5,6) record_size_bound [OF L R(1)] by (simp add: max_def)
    have rec: "inode_record_ok fs ?r"
      using r1 kind file_growsD(2) [OF grows] max max_file_size_unat [OF L]
      by (auto simp: inode_record_ok_def direct_ok_def word_le_nat_alt fs_constants)
    have num: "inode_valid fs (ir_number ?r)" using r1 R(3) by simp
    obtain m2 s3 where st: "write_inode fs ?r s2 = (Inr (), s3)" "bcs.shows_blocks g m2 s3" "inode_stored fs m1 ?r m2"
      by (rule write_inode_spec [OF L 2(3) rec num])
    show thesis
      by (rule success [OF 2(1,2) st(1,2) written_stored [OF L inv r 2(4,7,5,6) refl st(3)]])
  qed
qed

section \<open>The operations on files\<close>

text \<open>What an operation on a node of kind \<open>k\<close> answers when the node is missing or of another kind.\<close>

definition node_error :: "simple_fs_node_kind \<Rightarrow> (simple_fs_node_kind \<times> byte list) option \<Rightarrow> exn option" where
  "node_error k v = (case v of None \<Rightarrow> Some Out_of_range | Some (k', _) \<Rightarrow> if k' = k then None else Some Invalid_argument)"

lemma validate_node_run:
  "inode_at fs m n = Inr r \<Longrightarrow> validate_file_inode r = (case node_error FILE (file_view fs m n) of None \<Rightarrow> Inr () | Some e \<Rightarrow> Inl e)"
  "inode_at fs m n = Inr r \<Longrightarrow> validate_directory_inode r = (case node_error DIRECTORY (file_view fs m n) of None \<Rightarrow> Inr () | Some e \<Rightarrow> Inl e)"
  by (simp_all add: validate_file_inode_def validate_directory_inode_def node_error_def file_view_def)

lemma file_view_record:
  assumes "inode_at fs m n = Inr r"
  shows "file_view fs m n = (if ir_allocated r then Some (ir_kind r, file_bytes fs m r) else None)"
  using assms by (simp add: file_view_def)

lemma node_error_None: "node_error k v = None \<longleftrightarrow> (\<exists>b. v = Some (k, b))"
  by (auto simp: node_error_def split: option.splits prod.splits if_splits)

lemma read_file_view:
  assumes L: "layout_ok fs g" and s: "bcs.shows_blocks g m s" and inv: "fs_inv fs m"
  obtains s' where "read_file fs n off k s = (case node_error FILE (file_view fs m n) of Some e \<Rightarrow> Inl e
      | None \<Rightarrow> Inr (subspan (unat off) k (snd (the (file_view fs m n)))), s')" and "bcs.shows_blocks g m s'"
proof -
  let ?v = "sbind (inode_at fs m n) (\<lambda>r. sbind (validate_file_inode r) (\<lambda>_. Inr (subspan (unat off) k (file_bytes fs m r))))"
  have "?v = (case node_error FILE (file_view fs m n) of Some e \<Rightarrow> Inl e
      | None \<Rightarrow> Inr (subspan (unat off) k (snd (the (file_view fs m n)))))"
  proof (cases rule: inode_at_cases [OF inv, of n])
    case 1
    then show ?thesis by (simp add: sbind_def node_error_def file_view_def)
  next
    case inode: (2 r)
    then show ?thesis
      by (auto simp: sbind_def validate_node_run [OF inode(1)] file_view_record [OF inode(1)] node_error_def split: option.splits)
  qed
  moreover obtain s' where "read_file fs n off k s = (?v, s')" "bcs.shows_blocks g m s'"
    by (rule bcs.readsD [OF reads_read_file [OF L] s])
  ultimately show thesis by (intro that [of s']) simp_all
qed

lemma write_file_view:
  assumes L: "layout_ok fs g" and s: "bcs.shows_blocks g m s" and inv: "fs_inv fs m" and len: "length src < 2 ^ 64"
  obtains (missing) e s' where "node_error FILE (file_view fs m n) = Some e"
      and "write_file fs n off src s = (Inl e, s')" and "bcs.shows_blocks g m s'"
    | (refused) e s' bytes where "file_view fs m n = Some (FILE, bytes)"
      and "write_error fs (free_blocks fs m) (length bytes) (unat off) (length src) = Some e"
      and "write_file fs n off src s = (Inl e, s')" and "bcs.shows_blocks g m s'"
    | (success) m' s' bytes where "file_view fs m n = Some (FILE, bytes)"
      and "write_error fs (free_blocks fs m) (length bytes) (unat off) (length src) = None"
      and "write_file fs n off src s = (Inr (length src), s')" and "bcs.shows_blocks g m' s'" and "fs_inv fs m'"
      and "file_view fs m' = (file_view fs m)(n \<mapsto> (FILE, overwrite (unat off) src bytes))"
proof -
  obtain s1 where s1: "read_inode fs n s = (inode_at fs m n, s1)" "bcs.shows_blocks g m s1"
    by (rule bcs.readsD [OF reads_read_inode [OF layout_okD(1) [OF L, symmetric]] s])
  show thesis
  proof (cases rule: inode_at_cases [OF inv, of n])
    case 1
    with s1 show thesis
      by (intro missing [of Out_of_range s1]) (simp_all add: node_error_def file_view_def write_file_def op_simps)
  next
    case inode: (2 r)
    note V = file_view_record [OF inode(1)]
    show thesis
    proof (cases "node_error FILE (file_view fs m n)")
      case (Some e)
      with s1 inode show thesis
        by (intro missing [of e s1]) (simp_all add: write_file_def op_simps validate_node_run [OF inode(1)])
    next
      case None
      then have v: "file_view fs m n = Some (FILE, file_bytes fs m r)" and alloc: "ir_allocated r" "ir_kind r = FILE"
        using V by (auto simp: node_error_None split: if_splits)
      have ok: "validate_file_inode r = Inr ()" using None by (simp add: validate_node_run [OF inode(1)])
      show thesis
      proof (cases rule: write_and_store [OF L s1(2) inv inode(1) alloc(1) len, where off = off])
        case (1 e s2)
        with v s1 inode ok show thesis
          by (intro refused [of "file_bytes fs m r" e s2]) (simp_all add: write_file_def op_simps)
      next
        case (2 r1 s2 m' s')
        with v s1 inode ok alloc show thesis
          by (intro success [of "file_bytes fs m r" s' m']) (simp_all add: write_file_def op_simps)
      qed
    qed
  qed
qed

end
