(* ===== verification/FsDir.thy ===== *)
theory FsDir
  imports FsWrite
begin

text \<open>
  Directories: a directory is a file of 64-byte entries. On the map \<open>file_view\<close> the operations look names up
  and append entries; creating a node either adds it completely or changes nothing.
\<close>

section \<open>Entries\<close>

definition dir_entries :: "byte list \<Rightarrow> exn + directory_entry list" where
  "dir_entries bytes = parse_directory bytes [0..<length bytes div 64]"

lemma parse_directory_append:
  "parse_directory bytes (is @ js) = sbind (parse_directory bytes is) (\<lambda>es. sbind (parse_directory bytes js) (\<lambda>fs. Inr (es @ fs)))"
  by (induction "is") (auto simp: sbind_def split: sum.splits option.splits)

lemma parse_directory_cong:
  "(\<And>i. i \<in> set is \<Longrightarrow> subspan (i * 64) 64 b = subspan (i * 64) 64 b') \<Longrightarrow> parse_directory b is = parse_directory b' is"
  by (induction "is") (simp_all add: fs_constants)

lemma dir_entries_append:
  assumes "64 dvd length bytes" and "length rec = 64" and "dir_entries bytes = Inr es" and "parse_directory_entry rec = Inr (Some e)"
  shows "dir_entries (bytes @ rec) = Inr (es @ [e])"
proof -
  let ?n = "length bytes div 64"
  have n: "?n * 64 = length bytes" using assms(1) by simp
  have "parse_directory (bytes @ rec) [0..<?n] = parse_directory bytes [0..<?n]"
  proof (rule parse_directory_cong)
    fix i assume "i \<in> set [0..<?n]"
    then have "Suc i * 64 \<le> ?n * 64" by (intro mult_le_mono1) simp
    then have "i * 64 + 64 \<le> length bytes" using n by simp
    then show "subspan (i * 64) 64 (bytes @ rec) = subspan (i * 64) 64 bytes"
      by (simp add: subspan_def)
  qed
  moreover have "subspan (?n * 64) 64 (bytes @ rec) = rec" using n assms(2) by (simp add: subspan_def)
  moreover have "length (bytes @ rec) div 64 = Suc ?n" using assms(2) by simp
  ultimately show ?thesis
    using assms(3,4) unfolding dir_entries_def by (simp add: parse_directory_append sbind_def fs_constants)
qed

lemma dir_entries_empty [simp]: "dir_entries [] = Inr []"
  by (simp add: dir_entries_def)

text \<open>The map of files is a consistent collection of directories: entries parse, names are unique in their
  directory, and an entry names a node of the recorded kind.\<close>

definition dirs_ok :: "(inode_number \<rightharpoonup> simple_fs_node_kind \<times> byte list) \<Rightarrow> bool" where
  "dirs_ok v \<longleftrightarrow> (\<forall>n bytes. v n = Some (DIRECTORY, bytes) \<longrightarrow> 64 dvd length bytes
     \<and> (\<exists>es. dir_entries bytes = Inr es \<and> distinct (map de_name es) \<and> (\<forall>e \<in> set es. \<exists>b. v (de_inode e) = Some (de_kind e, b))))"

lemma dirs_okD:
  assumes "dirs_ok v" and "v n = Some (DIRECTORY, bytes)"
  obtains es where "64 dvd length bytes" and "dir_entries bytes = Inr es" and "distinct (map de_name es)"
    and "\<forall>e \<in> set es. \<exists>b. v (de_inode e) = Some (de_kind e, b)"
  using assms unfolding dirs_ok_def by blast

lemma dirs_ok_file_write:
  assumes "dirs_ok v" and "v n = Some (FILE, b)" shows "dirs_ok (v(n \<mapsto> (FILE, b')))"
  unfolding dirs_ok_def
proof (intro allI impI)
  fix k bytes assume "(v(n \<mapsto> (FILE, b'))) k = Some (DIRECTORY, bytes)"
  then have "v k = Some (DIRECTORY, bytes)" by (auto split: if_splits)
  with assms(1) obtain es where "64 dvd length bytes" "dir_entries bytes = Inr es" "distinct (map de_name es)"
    and live: "\<forall>e \<in> set es. \<exists>b. v (de_inode e) = Some (de_kind e, b)" by (rule dirs_okD)
  moreover have "\<exists>b. (v(n \<mapsto> (FILE, b'))) (de_inode e) = Some (de_kind e, b)" if "e \<in> set es" for e
    using live that assms(2) by fastforce
  ultimately show "64 dvd length bytes \<and> (\<exists>es. dir_entries bytes = Inr es \<and> distinct (map de_name es)
      \<and> (\<forall>e \<in> set es. \<exists>b. (v(n \<mapsto> (FILE, b'))) (de_inode e) = Some (de_kind e, b)))"
    by blast
qed

lemma dirs_ok_create:
  assumes ok: "dirs_ok v" and p: "v p = Some (DIRECTORY, bytes)" and es: "dir_entries bytes = Inr es"
    and new: "v n = None" "k \<noteq> NODE_KIND_COUNT" and name: "name \<notin> de_name ` set es"
    and rec: "length rec = 64" "parse_directory_entry rec = Inr (Some \<lparr>de_name = name, de_inode = n, de_kind = k\<rparr>)"
  shows "dirs_ok (v(n \<mapsto> (k, []), p \<mapsto> (DIRECTORY, bytes @ rec)))"
  unfolding dirs_ok_def
proof (intro allI impI)
  let ?v = "v(n \<mapsto> (k, []), p \<mapsto> (DIRECTORY, bytes @ rec))"
  have live: "\<exists>b. ?v i = Some (k', b)" if "v i = Some (k', b)" for i k' b
    using that p new(1) by auto
  fix j b assume "?v j = Some (DIRECTORY, b)"
  then consider "j = p" "b = bytes @ rec" | "j = n" "b = []" "j \<noteq> p" | "j \<noteq> p" "v j = Some (DIRECTORY, b)"
    by (auto split: if_splits)
  then show "64 dvd length b \<and> (\<exists>es. dir_entries b = Inr es \<and> distinct (map de_name es)
      \<and> (\<forall>e \<in> set es. \<exists>b. ?v (de_inode e) = Some (de_kind e, b)))"
  proof cases
    case 1
    obtain es' where D: "64 dvd length bytes" "dir_entries bytes = Inr es'" "distinct (map de_name es')"
      "\<forall>e \<in> set es'. \<exists>b. v (de_inode e) = Some (de_kind e, b)" by (rule dirs_okD [OF ok p])
    let ?e = "\<lparr>de_name = name, de_inode = n, de_kind = k\<rparr>"
    have "n \<noteq> p" using p new by auto
    then have "\<forall>e \<in> set (es @ [?e]). \<exists>b. ?v (de_inode e) = Some (de_kind e, b)"
      using D(2,4) es live by (auto simp del: fun_upd_apply) (simp add: fun_upd_def)
    moreover have "distinct (map de_name (es @ [?e]))" using D(2,3) es name by simp
    moreover have "64 dvd length b" using D(1) rec(1) 1 by simp
    ultimately show ?thesis using dir_entries_append [OF D(1) rec(1) es rec(2)] 1(2) by blast
  next
    case 3
    obtain es' where "64 dvd length b" "dir_entries b = Inr es'" "distinct (map de_name es')"
      "\<forall>e \<in> set es'. \<exists>b. v (de_inode e) = Some (de_kind e, b)" by (rule dirs_okD [OF ok 3(2)])
    then show ?thesis using live by blast
  qed simp
qed

section \<open>Looking names up\<close>

definition list_directory :: "(inode_number \<rightharpoonup> simple_fs_node_kind \<times> byte list) \<Rightarrow> inode_number \<Rightarrow> exn + directory_entry list" where
  "list_directory v n = (case node_error DIRECTORY (v n) of Some e \<Rightarrow> Inl e
     | None \<Rightarrow> if length (snd (the (v n))) mod 64 \<noteq> 0 then Inl Runtime_error else dir_entries (snd (the (v n))))"

lemma fs_read_directory_view:
  assumes L: "layout_ok fs g" and s: "bcs.shows_blocks g m s" and inv: "fs_inv fs m"
  obtains s' where "fs_read_directory fs n s = (list_directory (file_view fs m) n, s')" and "bcs.shows_blocks g m s'"
proof -
  obtain s1 where s1: "read_inode fs n s = (inode_at fs m n, s1)" "bcs.shows_blocks g m s1"
    by (rule bcs.readsD [OF reads_read_inode [OF layout_okD(1) [OF L, symmetric]] s])
  show thesis
  proof (cases rule: inode_at_cases [OF inv, of n])
    case 1
    with s1 show thesis
      by (intro that [of s1]) (simp_all add: fs_read_directory_def op_simps list_directory_def node_error_def file_view_def)
  next
    case inode: (2 r)
    note V = file_view_record [OF inode(1)] and valid = validate_node_run(2) [OF inode(1)]
    obtain s2 where s2: "read_inode_bytes fs r 0 (unat (ir_size_bytes r)) s1 = (Inr (file_bytes fs m r), s2)" "bcs.shows_blocks g m s2"
      using bcs.readsD [OF reads_read_inode_bytes [OF L inode_at_ok(1) [OF inode(1)]] s1(2), of 0 "unat (ir_size_bytes r)"]
        subspan_all [of _ "file_bytes fs m r"] by auto
    show thesis
    proof (cases "node_error DIRECTORY (file_view fs m n)")
      case (Some e)
      with s1 inode show thesis
        by (intro that [of s1]) (simp_all add: fs_read_directory_def op_simps valid list_directory_def)
    next
      case None
      then have "file_view fs m n = Some (DIRECTORY, file_bytes fs m r)"
        using V by (auto simp: node_error_None split: if_splits)
      with None s1 s2 inode show thesis
        by (cases "unat (ir_size_bytes r) mod 64 = 0")
           (auto intro!: that simp: fs_read_directory_def op_simps valid list_directory_def fs_constants dir_entries_def)
    qed
  qed
qed

definition find_entry :: "(inode_number \<rightharpoonup> simple_fs_node_kind \<times> byte list) \<Rightarrow> inode_number \<Rightarrow> string \<Rightarrow> exn + directory_entry option" where
  "find_entry v n name = sbind (validate_directory_name name) (\<lambda>_.
     sbind (list_directory v n) (\<lambda>es. Inr (find (\<lambda>e. de_name e = name) es)))"

lemma fs_lookup_view:
  assumes L: "layout_ok fs g" and s: "bcs.shows_blocks g m s" and inv: "fs_inv fs m"
  obtains s' where "fs_lookup fs n name s = (find_entry (file_view fs m) n name, s')" and "bcs.shows_blocks g m s'"
proof (cases "validate_directory_name name")
  case (Inl e)
  with s show thesis by (intro that [of s]) (simp_all add: fs_lookup_def op_simps find_entry_def sbind_def)
next
  case (Inr u)
  obtain s1 where s1: "fs_read_directory fs n s = (list_directory (file_view fs m) n, s1)" "bcs.shows_blocks g m s1"
    by (rule fs_read_directory_view [OF L s inv])
  with Inr show thesis
    by (cases "list_directory (file_view fs m) n")
       (auto intro!: that [of s1] simp: fs_lookup_def op_simps find_entry_def sbind_def)
qed

section \<open>Allocating an inode\<close>

lemma inode_loop_skip:
  assumes L: "layout_ok fs g" and inv: "fs_inv fs m"
    and "\<forall>k \<in> set ns. inode_valid fs k \<and> file_view fs m k \<noteq> None" and "bcs.shows_blocks g m s"
  shows "\<exists>s'. allocate_inode_loop fs kind (ns @ rest) s = allocate_inode_loop fs kind rest s' \<and> bcs.shows_blocks g m s'"
  using assms(3,4)
proof (induction ns arbitrary: s)
  case (Cons k ns)
  obtain r where r: "inode_at fs m k = Inr r" using Cons.prems(1) fs_inv_inode [OF inv] by (metis list.set_intros(1))
  then have "ir_allocated r" using Cons.prems(1) by (auto simp: file_view_record [OF r] split: if_splits)
  moreover obtain s1 where "read_inode fs k s = (Inr r, s1)" "bcs.shows_blocks g m s1"
    using bcs.readsD [OF reads_read_inode [OF layout_okD(1) [OF L, symmetric]] Cons.prems(2), of k] r by metis
  ultimately show ?case using Cons.IH [of s1] Cons.prems(1) by (simp add: op_simps)
qed auto

lemma inode_numbers_split:
  assumes "1 \<le> j" and "j \<le> unat (fs_inode_count fs)"
  shows "inode_numbers fs = map of_nat [1..<j] @ of_nat j # map of_nat [Suc j..<unat (fs_inode_count fs) + 1]
    @ (if fs_inode_count fs = - 1 then [0] else [])"
proof -
  have "[1..<unat (fs_inode_count fs) + 1] = [1..<j] @ j # [Suc j..<unat (fs_inode_count fs) + 1]"
    using assms upt_add_eq_append [of 1 j "unat (fs_inode_count fs) + 1 - j"] by (simp add: upt_conv_Cons)
  then show ?thesis by (simp add: inode_numbers_def)
qed

lemma inode_valid_of_nat:
  assumes "1 \<le> j" and "j \<le> unat (fs_inode_count fs)"
  shows "unat (of_nat j :: inode_number) = j" and "inode_valid fs (of_nat j)"
proof -
  have "j < 2 ^ 32" using assms(2) unat_less_32 [of "fs_inode_count fs"] by simp
  then show 1: "unat (of_nat j :: inode_number) = j" by (simp add: unsigned_of_nat take_bit_nat_eq_self)
  with assms show "inode_valid fs (of_nat j)" by (simp add: inode_valid_def)
qed

text \<open>A free inode is taken: an empty node appears and nothing else changes.\<close>

lemma take_inode:
  assumes L: "layout_ok fs g" and s: "bcs.shows_blocks g m s" and inv: "fs_inv fs m"
    and n: "inode_valid fs n" "file_view fs m n = None" and kind: "kind \<noteq> NODE_KIND_COUNT"
  obtains m' s' where "allocate_inode_loop fs kind (n # ns) s = (Inr n, s')" and "bcs.shows_blocks g m' s'" and "fs_inv fs m'"
    and "file_view fs m' = (file_view fs m)(n \<mapsto> (kind, []))" and "free_blocks fs m' = free_blocks fs m"
    and "\<And>k. k \<noteq> n \<Longrightarrow> inode_at fs m' k = inode_at fs m k"
proof -
  obtain r where r: "inode_at fs m n = Inr r" by (rule fs_inv_inode [OF inv n(1)])
  note R = inode_at_ok [OF r]
  have free: "\<not> ir_allocated r" using n(2) r by (auto simp: file_view_def)
  then have empty: "r = empty_inode_record\<lparr>ir_number := n\<rparr>" using R by (simp add: inode_record_ok_def)
  let ?r = "r\<lparr>ir_allocated := True, ir_kind := kind, ir_size_bytes := 0,
    ir_direct_blocks := replicate SIMPLE_FS_DIRECT_BLOCK_COUNT SIMPLE_FS_EMPTY_BLOCK\<rparr>"
  obtain s1 where s1: "read_inode fs n s = (Inr r, s1)" "bcs.shows_blocks g m s1"
    using bcs.readsD [OF reads_read_inode [OF layout_okD(1) [OF L, symmetric]] s, of n] r by metis
  have rec: "inode_record_ok fs ?r" using kind by (simp add: inode_record_ok_def fs_constants data_block_ok_def)
  have num: "inode_valid fs (ir_number ?r)" using R(2) n(1) by simp
  obtain m' s' where st: "write_inode fs ?r s1 = (Inr (), s')" "bcs.shows_blocks g m' s'" "inode_stored fs m ?r m'"
    by (rule write_inode_spec [OF L s1(2) rec num])
  have table: "k \<noteq> n \<Longrightarrow> inode_at fs m' k = inode_at fs m k" "inode_at fs m' n = Inr ?r" for k
    using st(3) R(2) by (simp_all add: inode_stored_def)
  note D = inode_stored_data [OF L st(3) num]
  have none: "blocks_of r = {}" "blocks_of ?r = {}" by (simp_all add: blocks_of_def empty empty_inode_record_def fs_constants)
  have inv': "fs_inv fs m'"
    by (rule fs_inv_step [OF L inv r table]) (use none D(1) in \<open>simp_all add: owned_def dense_def fs_constants\<close>)
  have "file_bytes fs m' q = file_bytes fs m q" if "inode_at fs m k = Inr q" for k q
  proof -
    note Q = inode_at_ok(1) [OF that]
    have "file_byte fs m' q j = file_byte fs m q j" if "j < unat (ir_size_bytes q)" for j
      using that record_size_bound [OF L Q] by (intro D(3) inode_record_direct_ok [OF Q]) simp
    then show ?thesis by (simp add: file_bytes_def)
  qed
  then have "file_view fs m' = (file_view fs m)(n \<mapsto> (kind, []))"
    using table by (auto simp: fun_eq_iff file_view_def file_bytes_def split: sum.splits)
  then show thesis
    by (intro that [of s' m'] inv' st(2) D(4) table(1)) (use s1(1) st(1) free R(2) in \<open>simp_all add: op_simps\<close>)
qed

lemma allocate_inode_view:
  assumes L: "layout_ok fs g" and s: "bcs.shows_blocks g m s" and inv: "fs_inv fs m" and kind: "kind \<noteq> NODE_KIND_COUNT"
  obtains (full) s' where "\<forall>n. inode_valid fs n \<longrightarrow> file_view fs m n \<noteq> None"
      and "allocate_inode fs kind s = (Inl (if fs_inode_count fs = - 1 then Out_of_range else Length_error), s')"
      and "bcs.shows_blocks g m s'"
    | (found) n m' s' where "inode_valid fs n" and "file_view fs m n = None"
      and "\<forall>k < n. inode_valid fs k \<longrightarrow> file_view fs m k \<noteq> None"
      and "allocate_inode fs kind s = (Inr n, s')" and "bcs.shows_blocks g m' s'" and "fs_inv fs m'"
      and "file_view fs m' = (file_view fs m)(n \<mapsto> (kind, []))" and "free_blocks fs m' = free_blocks fs m"
      and "\<forall>k. k \<noteq> n \<longrightarrow> inode_at fs m' k = inode_at fs m k"
proof -
  let ?c = "unat (fs_inode_count fs)"
  let ?P = "\<lambda>j. 1 \<le> j \<and> j \<le> ?c \<and> file_view fs m (of_nat j) = None"
  have nat: "1 \<le> unat k" "unat k \<le> ?c" "of_nat (unat k) = k" if "inode_valid fs k" for k
    using that by (simp_all add: inode_valid_def)
  show thesis
  proof (cases "\<exists>j. ?P j")
    case True
    define j where "j = (LEAST j. ?P j)"
    have j: "?P j" unfolding j_def using True by (rule LeastI_ex)
    have least: "\<not> ?P i" if "i < j" for i using that unfolding j_def by (rule not_less_Least)
    note J = inode_valid_of_nat [of j fs]
    have "\<forall>k \<in> set (map of_nat [1..<j]). inode_valid fs k \<and> file_view fs m k \<noteq> None"
      using inode_valid_of_nat(2) [of _ fs] j least by auto
    note skip = inode_loop_skip [OF L inv this s] and split = inode_numbers_split [of j fs]
    obtain s1 where
      s1: "allocate_inode fs kind s = allocate_inode_loop fs kind (of_nat j # map of_nat [Suc j..<?c + 1]
        @ (if fs_inode_count fs = - 1 then [0] else [])) s1" "bcs.shows_blocks g m s1"
      using skip [of kind] j unfolding allocate_inode_def split [OF conjunct1 [OF j] conjunct1 [OF conjunct2 [OF j]]] by blast
    have v: "inode_valid fs (of_nat j)" "file_view fs m (of_nat j) = None" using J j by simp_all
    have first: "\<forall>k < of_nat j. inode_valid fs k \<longrightarrow> file_view fs m k \<noteq> None"
      using least nat J(1) j by (metis word_less_nat_alt)
    show thesis
    proof (rule take_inode [OF L s1(2) inv v kind,
        where ns = "map of_nat [Suc j..<?c + 1] @ (if fs_inode_count fs = - 1 then [0] else [])"], goal_cases)
      case (1 m' s')
      show thesis by (rule found [OF v first trans [OF s1(1) 1(1)] 1(2-5)]) (use 1(6) in blast)
    qed
  next
    case False
    then have all: "file_view fs m k \<noteq> None" if "inode_valid fs k" for k using nat [OF that] by metis
    have "\<forall>k \<in> set (map of_nat [1..<?c + 1]). inode_valid fs k \<and> file_view fs m k \<noteq> None"
      using inode_valid_of_nat(2) [of _ fs] all by auto
    from inode_loop_skip [OF L inv this s] obtain s1 where
      s1: "allocate_inode fs kind s = allocate_inode_loop fs kind (if fs_inode_count fs = - 1 then [0] else []) s1" "bcs.shows_blocks g m s1"
      unfolding allocate_inode_def inode_numbers_def by auto
    have "inode_at fs m 0 = Inl Out_of_range" by (rule inode_at_invalid) (simp add: inode_valid_def)
    then obtain s2 where s2: "read_inode fs 0 s1 = (Inl Out_of_range, s2)" "bcs.shows_blocks g m s2"
      using bcs.readsD [OF reads_read_inode [OF layout_okD(1) [OF L, symmetric]] s1(2), of 0] by metis
    show thesis
      by (rule full [of "if fs_inode_count fs = - 1 then s2 else s1"]) (use all s1 s2 in \<open>auto simp: op_simps\<close>)
  qed
qed

section \<open>Creating a node\<close>

lemma append_directory_entry_view:
  assumes L: "layout_ok fs g" and s: "bcs.shows_blocks g m s" and inv: "fs_inv fs m"
    and p: "inode_at fs m p = Inr r" "ir_allocated r" "ir_kind r = DIRECTORY" and rec: "serialize_directory_entry e = Inr rec"
    and room: "write_error fs (free_blocks fs m) (unat (ir_size_bytes r)) (unat (ir_size_bytes r)) 64 = None"
  obtains m' s' where "append_directory_entry fs r e s = (Inr (), s')" and "bcs.shows_blocks g m' s'" and "fs_inv fs m'"
    and "file_view fs m' = (file_view fs m)(p \<mapsto> (DIRECTORY, file_bytes fs m r @ rec))"
proof -
  have len: "length rec = 64" using parse_serialize_directory_entry [OF rec] by (simp add: fs_constants)
  then have len64: "length rec < 2 ^ 64" by simp
  have ok: "validate_directory_inode r = Inr ()" using p by (simp add: validate_directory_inode_def)
  show thesis
  proof (cases rule: write_and_store [OF L s inv p(1,2) len64, where off = "ir_size_bytes r"])
    case (1 e s2)
    then show thesis using room len by simp
  next
    case (2 r1 s2 m' s')
    moreover have "overwrite (unat (ir_size_bytes r)) rec (file_bytes fs m r) = file_bytes fs m r @ rec"
      by (simp add: overwrite_def)
    ultimately show thesis using p(3) ok rec
      by (intro that [of s' m']) (simp_all add: append_directory_entry_def op_simps)
  qed
qed

text \<open>What stops the creation of a node: a bad name or parent, a name in use, no room for the entry, no free inode.\<close>

definition create_error ::
  "simple_fs_layout \<Rightarrow> nat \<Rightarrow> (inode_number \<rightharpoonup> simple_fs_node_kind \<times> byte list) \<Rightarrow> inode_number \<Rightarrow> string \<Rightarrow> exn option" where
  "create_error fs free v p name = (case find_entry v p name of Inl e \<Rightarrow> Some e | Inr (Some _) \<Rightarrow> Some Invalid_argument
     | Inr None \<Rightarrow> let len = length (snd (the (v p))) in
         (case write_error fs free len len 64 of Some e \<Rightarrow> Some e
          | None \<Rightarrow> if \<forall>n. inode_valid fs n \<longrightarrow> v n \<noteq> None
              then Some (if fs_inode_count fs = - 1 then Out_of_range else Length_error) else None))"

lemma find_entry_None:
  assumes "find_entry v p name = Inr None"
  obtains bytes es where "v p = Some (DIRECTORY, bytes)" and "dir_entries bytes = Inr es" and "name \<notin> de_name ` set es"
    and "validate_directory_name name = Inr ()" and "64 dvd length bytes"
proof -
  from assms obtain es where es: "validate_directory_name name = Inr ()" "list_directory v p = Inr es"
    "find (\<lambda>e. de_name e = name) es = None"
    by (auto simp: find_entry_def sbind_def split: sum.splits)
  from es(2) obtain bytes where "v p = Some (DIRECTORY, bytes)" "dir_entries bytes = Inr es" "64 dvd length bytes"
    by (auto simp: list_directory_def node_error_def mod_eq_0_iff_dvd split: option.splits if_splits prod.splits)
  with es show thesis by (intro that) (auto simp: find_None_iff)
qed

lemma valid_name_serializes:
  assumes "validate_directory_name (de_name e) = Inr ()" and "de_kind e \<noteq> NODE_KIND_COUNT"
  obtains rec where "serialize_directory_entry e = Inr rec"
  using assms by (cases "de_kind e")
    (auto simp: validate_directory_name_def serialize_directory_entry_def sbind_def Let_def split: if_splits)

lemma append_end_unat:
  assumes L: "layout_ok fs g" and "unat z \<le> 6 * unat (fs_block_size_bytes fs)"
  shows "unat (z + 64 :: qword) = unat z + 64"
  using unat_add_of_nat [of z 64] assms layout_okD(4) [OF L] by simp

lemma create_node_view:
  assumes L: "layout_ok fs g" and s: "bcs.shows_blocks g m s" and inv: "fs_inv fs m" and kind: "kind \<noteq> NODE_KIND_COUNT"
  obtains (refused) e s' where "create_error fs (free_blocks fs m) (file_view fs m) p name = Some e"
      and "create_node kind fs p name s = (Inl e, s')" and "bcs.shows_blocks g m s'"
    | (success) n rec bytes es m' s' where "create_error fs (free_blocks fs m) (file_view fs m) p name = None"
      and "file_view fs m p = Some (DIRECTORY, bytes)" and "dir_entries bytes = Inr es" and "name \<notin> de_name ` set es"
      and "inode_valid fs n" and "file_view fs m n = None" and "\<forall>k < n. inode_valid fs k \<longrightarrow> file_view fs m k \<noteq> None"
      and "length rec = 64" and "parse_directory_entry rec = Inr (Some \<lparr>de_name = name, de_inode = n, de_kind = kind\<rparr>)"
      and "create_node kind fs p name s = (Inr n, s')" and "bcs.shows_blocks g m' s'" and "fs_inv fs m'"
      and "file_view fs m' = (file_view fs m)(n \<mapsto> (kind, []), p \<mapsto> (DIRECTORY, bytes @ rec))"
proof -
  let ?v = "file_view fs m"
  obtain s1 where s1: "fs_lookup fs p name s = (find_entry ?v p name, s1)" "bcs.shows_blocks g m s1"
    by (rule fs_lookup_view [OF L s inv])
  show thesis
  proof (cases "find_entry ?v p name = Inr None")
    case False
    show thesis
    proof (cases "validate_directory_name name")
      case (Inl e)
      with s show thesis
        by (intro refused [of e s]) (simp_all add: create_error_def find_entry_def sbind_def create_node_def op_simps)
    next
      case (Inr u)
      with False s1 show thesis
        by (cases "find_entry ?v p name")
           (auto intro!: refused simp: create_error_def create_node_def op_simps split: option.splits)
    qed
  next
    case True
    obtain bytes es where dir: "?v p = Some (DIRECTORY, bytes)" "dir_entries bytes = Inr es" "name \<notin> de_name ` set es"
      "validate_directory_name name = Inr ()" "64 dvd length bytes" by (rule find_entry_None [OF True])
    obtain r where r: "inode_at fs m p = Inr r" using dir(1) by (auto simp: file_view_def split: sum.splits)
    then have alloc: "ir_allocated r" "ir_kind r = DIRECTORY" "bytes = file_bytes fs m r"
      using dir(1) by (auto simp: file_view_record split: if_splits)
    note R = inode_at_ok [OF r] and I = fs_invD(1,2) [OF inv r] and size = record_size_bound [OF L inode_at_ok(1) [OF r]]
    let ?z = "unat (ir_size_bytes r)" and ?bs = "unat (fs_block_size_bytes fs)"
    obtain s2 where s2: "read_inode fs p s1 = (Inr r, s2)" "bcs.shows_blocks g m s2"
      using bcs.readsD [OF reads_read_inode [OF layout_okD(1) [OF L, symmetric]] s1(2), of p] r by metis
    obtain s3 where s3: "free_data_block_count fs s2 = (Inr (free_blocks fs m), s3)" "bcs.shows_blocks g m s3"
      by (rule bcs.readsD [OF reads_free_data_block_count [OF L] s2(2)])
    have ok: "validate_directory_inode r = Inr ()" using alloc by (simp add: validate_directory_inode_def)
    note need = additional_blocks_needed_run [OF L inode_record_direct_ok [OF R(1)] I(2) size,
        of "ir_size_bytes r + 64", unfolded append_end_unat [OF L size]]
    have start: "create_node kind fs p name s = (case write_error fs (free_blocks fs m) ?z ?z 64 of
        Some e \<Rightarrow> (Inl e, if 6 * ?bs < ?z + 64 then s2 else s3)
      | None \<Rightarrow> bnd (allocate_inode fs kind) (\<lambda>n. sq (append_directory_entry fs r \<lparr>de_name = name, de_inode = n, de_kind = kind\<rparr>) (ret n)) s3)"
      using s1(1) True dir(4) s2(1) s3(1) ok need
      by (auto simp: create_node_def op_simps write_error_def Let_def fs_constants)
    have err: "create_error fs (free_blocks fs m) ?v p name = (case write_error fs (free_blocks fs m) ?z ?z 64 of Some e \<Rightarrow> Some e
        | None \<Rightarrow> if \<forall>n. inode_valid fs n \<longrightarrow> ?v n \<noteq> None
            then Some (if fs_inode_count fs = - 1 then Out_of_range else Length_error) else None)"
      using True dir(1) alloc(3) by (simp add: create_error_def Let_def)
    show thesis
    proof (cases "write_error fs (free_blocks fs m) ?z ?z 64")
      case (Some e)
      with start err s2(2) s3(2) show thesis
        by (intro refused [of e "if 6 * ?bs < ?z + 64 then s2 else s3"]) simp_all
    next
      case room: None
      show thesis
      proof (cases rule: allocate_inode_view [OF L s3(2) inv kind])
        case (1 s4)
        with start err room show thesis by (intro refused [OF _ _ 1(3)]) (auto simp: op_simps)
      next
        case (2 n m1 s4)
        let ?e = "\<lparr>de_name = name, de_inode = n, de_kind = kind\<rparr>"
        obtain rec where rec: "serialize_directory_entry ?e = Inr rec"
          using valid_name_serializes [of ?e] dir(4) kind by auto
        have np: "p \<noteq> n" using dir(1) 2(2) by auto
        then have r1: "inode_at fs m1 p = Inr r" using 2(9) r by simp
        have same: "file_bytes fs m1 r = bytes"
          using fun_cong [OF 2(7), of p] np dir(1) r1 alloc(1) by (simp add: file_view_record)
        have room1: "write_error fs (free_blocks fs m1) ?z ?z 64 = None" using room 2(8) by simp
        obtain m2 s5 where fin: "append_directory_entry fs r ?e s4 = (Inr (), s5)" "bcs.shows_blocks g m2 s5" "fs_inv fs m2"
          "file_view fs m2 = (file_view fs m1)(p \<mapsto> (DIRECTORY, file_bytes fs m1 r @ rec))"
          by (rule append_directory_entry_view [OF L 2(5,6) r1 alloc(1,2) rec room1])
        have len: "length rec = 64" "parse_directory_entry rec = Inr (Some ?e)"
          using parse_serialize_directory_entry [OF rec] by (simp_all add: fs_constants)
        have none: "create_error fs (free_blocks fs m) ?v p name = None" using err room 2(1,2) by auto
        show thesis
          by (rule success [OF none dir(1-3) 2(1-3) len _ fin(2,3)])
             (use start room 2(4,7) fin(1,4) same in \<open>simp_all add: op_simps\<close>)
      qed
    qed
  qed
qed

end
