(* ===== verification/FsSpec.thy ===== *)
theory FsSpec
  imports FsDir
begin

text \<open>
  The contract of a mounted file system: the cache shows a map \<open>v\<close> from inode numbers to kinds and contents, and
  each operation is described on that map. The virtual file system relies on this contract only.
\<close>

section \<open>The interface\<close>

type_synonym file_map = "inode_number \<rightharpoonup> simple_fs_node_kind \<times> byte list"

definition node_metadata :: "file_map \<Rightarrow> inode_number \<Rightarrow> exn + inode_metadata" where
  "node_metadata v n = (case v n of None \<Rightarrow> Inl Out_of_range
     | Some (k, b) \<Rightarrow> Inr \<lparr>im_number = n, im_kind = k, im_size_bytes = of_nat (length b)\<rparr>)"

definition file_content :: "file_map \<Rightarrow> inode_number \<Rightarrow> exn + byte list" where
  "file_content v n = (case node_error FILE (v n) of Some e \<Rightarrow> Inl e | None \<Rightarrow> Inr (snd (the (v n))))"

text \<open>A node is added to a directory.\<close>

definition node_added :: "file_map \<Rightarrow> simple_fs_node_kind \<Rightarrow> inode_number \<Rightarrow> string \<Rightarrow> inode_number \<Rightarrow> file_map \<Rightarrow> bool" where
  "node_added v k p name n v' \<longleftrightarrow> v n = None \<and> k \<noteq> NODE_KIND_COUNT \<and> find_entry v p name = Inr None
     \<and> (\<exists>bytes rec. v p = Some (DIRECTORY, bytes) \<and> length rec = 64
          \<and> parse_directory_entry rec = Inr (Some \<lparr>de_name = name, de_inode = n, de_kind = k\<rparr>)
          \<and> v' = v(n \<mapsto> (k, []), p \<mapsto> (DIRECTORY, bytes @ rec)))"

lemma find_append: "find P (xs @ ys) = (case find P xs of None \<Rightarrow> find P ys | Some x \<Rightarrow> Some x)"
  by (induction xs) simp_all

lemma node_added_find:
  assumes add: "node_added v k p name n v'"
  shows "find_entry v' p name = Inr (Some \<lparr>de_name = name, de_inode = n, de_kind = k\<rparr>)"
    and "find_entry v q c = Inr (Some e) \<Longrightarrow> find_entry v' q c = Inr (Some e)"
    and "v j = Some (k', b) \<Longrightarrow> \<exists>b'. v' j = Some (k', b')" and "v' n = Some (k, [])"
proof -
  from add obtain bytes rec where p: "v p = Some (DIRECTORY, bytes)" and rec: "length rec = 64"
    "parse_directory_entry rec = Inr (Some \<lparr>de_name = name, de_inode = n, de_kind = k\<rparr>)"
    and v': "v' = v(n \<mapsto> (k, []), p \<mapsto> (DIRECTORY, bytes @ rec))" and n: "v n = None"
    and find: "find_entry v p name = Inr None" by (auto simp: node_added_def)
  obtain bytes' es where "v p = Some (DIRECTORY, bytes')" "dir_entries bytes' = Inr es" "name \<notin> de_name ` set es"
    and name: "validate_directory_name name = Inr ()" and "64 dvd length bytes'" by (rule find_entry_None [OF find])
  with p have es: "dir_entries bytes = Inr es" "name \<notin> de_name ` set es" "64 dvd length bytes" by simp_all
  have "list_directory v p = Inr es" using p es by (simp add: list_directory_def node_error_def)
  moreover have list': "list_directory v' p = Inr (es @ [\<lparr>de_name = name, de_inode = n, de_kind = k\<rparr>])"
    using dir_entries_append [OF es(3) rec(1) es(1) rec(2)] es(3) rec(1)
    by (simp add: v' list_directory_def node_error_def)
  ultimately have same: "find_entry v p c = Inr (Some e) \<Longrightarrow> find_entry v' p c = Inr (Some e)" for c e
    by (auto simp: find_entry_def sbind_def find_append split: sum.splits option.splits)
  have "find (\<lambda>e. de_name e = name) es = None" using es(2) by (auto simp: find_None_iff)
  with list' name show "find_entry v' p name = Inr (Some \<lparr>de_name = name, de_inode = n, de_kind = k\<rparr>)"
    by (simp add: find_entry_def sbind_def find_append)
  show "find_entry v' q c = Inr (Some e)" if q: "find_entry v q c = Inr (Some e)"
  proof (cases "q = p")
    case True
    with q same show ?thesis by simp
  next
    case False
    have "v q \<noteq> None"
    proof
      assume "v q = None"
      with q show False by (auto simp: find_entry_def list_directory_def node_error_def sbind_def split: sum.splits)
    qed
    with n False have eq: "v' q = v q" by (auto simp: v')
    have "find_entry v' q c = find_entry v q c" by (simp only: find_entry_def list_directory_def eq)
    with q show ?thesis by simp
  qed
  show "\<exists>b'. v' j = Some (k', b')" if "v j = Some (k', b)" using that n p by (auto simp: v')
  show "v' n = Some (k, [])" using n p by (auto simp: v')
qed

locale file_service =
  fixes shown :: "file_map \<Rightarrow> 's \<Rightarrow> bool" and root :: inode_number
    and metadata :: "inode_number \<Rightarrow> ('s, inode_metadata) op"
    and lookup :: "inode_number \<Rightarrow> string \<Rightarrow> ('s, directory_entry option) op"
    and read_directory :: "inode_number \<Rightarrow> ('s, directory_entry list) op"
    and create :: "simple_fs_node_kind \<Rightarrow> inode_number \<Rightarrow> string \<Rightarrow> ('s, inode_number) op"
    and read_bytes :: "inode_number \<Rightarrow> qword \<Rightarrow> nat \<Rightarrow> ('s, byte list) op"
    and write_bytes :: "inode_number \<Rightarrow> qword \<Rightarrow> byte list \<Rightarrow> ('s, nat) op"
  assumes shown_dirs: "shown v s \<Longrightarrow> dirs_ok v"
    and shown_root: "shown v s \<Longrightarrow> \<exists>b. v root = Some (DIRECTORY, b)"
    and shown_size: "shown v s \<Longrightarrow> v n = Some (k, b) \<Longrightarrow> n \<noteq> 0 \<and> length b < 2 ^ 64"
    and metadata_law: "views shown (metadata n) (\<lambda>v. node_metadata v n)"
    and lookup_law: "views shown (lookup n name) (\<lambda>v. find_entry v n name)"
    and read_directory_law: "views shown (read_directory n) (\<lambda>v. list_directory v n)"
    and read_law: "views shown (read_bytes n off count) (\<lambda>v. sbind (file_content v n) (\<lambda>b. Inr (subspan (unat off) count b)))"
    and write_law: "shown v s \<Longrightarrow> length src < 2 ^ 64 \<Longrightarrow>
      \<exists>r s'. write_bytes n off src s = (r, s') \<and> (case r of Inl _ \<Rightarrow> shown v s'
        | Inr w \<Rightarrow> w = length src \<and> (\<exists>b. v n = Some (FILE, b) \<and> unat off \<le> length b
            \<and> shown (v(n \<mapsto> (FILE, overwrite (unat off) src b))) s'))"
    and create_law: "shown v s \<Longrightarrow> k \<noteq> NODE_KIND_COUNT \<Longrightarrow>
      \<exists>r s'. create k p name s = (r, s') \<and> (case r of Inl _ \<Rightarrow> shown v s'
        | Inr n \<Rightarrow> \<exists>v'. node_added v k p name n v' \<and> shown v' s')"
begin

text \<open>What was written is read back.\<close>

lemma read_after_write:
  assumes "shown v s" and "length src < 2 ^ 64" and "write_bytes n off src s = (Inr k, s1)"
  obtains s2 where "read_bytes n off (length src) s1 = (Inr src, s2)" and "k = length src"
proof -
  from write_law [OF assms(1,2), of n off] assms(3) obtain b where b: "k = length src" "unat off \<le> length b"
    "shown (v(n \<mapsto> (FILE, overwrite (unat off) src b))) s1" by auto
  have "subspan (unat off) (length src) (overwrite (unat off) src b) = src"
    using b(2) by (simp add: subspan_def overwrite_def)
  then obtain s2 where "read_bytes n off (length src) s1 = (Inr src, s2)"
    using read_law [of n off "length src"] b(3)
    by (fastforce simp: views_def file_content_def node_error_def sbind_def)
  then show thesis using b(1) by (rule that)
qed

end

section \<open>A mounted file system\<close>

definition fs_shows :: "simple_fs_layout \<Rightarrow> file_map \<Rightarrow> buffer_cache \<Rightarrow> bool" where
  "fs_shows fs v c \<longleftrightarrow> cache_ok c \<and> layout_ok fs (bc_geometry c) \<and> fs_inv fs (bc_blocks c)
     \<and> v = file_view fs (bc_blocks c) \<and> dirs_ok v \<and> (\<exists>b. v (fs_root_inode fs) = Some (DIRECTORY, b))"

definition fs_free :: "simple_fs_layout \<Rightarrow> buffer_cache \<Rightarrow> nat" where
  "fs_free fs c = free_blocks fs (bc_blocks c)"

lemma fs_showsD:
  assumes "fs_shows fs v c"
  shows "layout_ok fs (bc_geometry c)" and "bcs.shows_blocks (bc_geometry c) (bc_blocks c) c" and "fs_inv fs (bc_blocks c)"
    and "v = file_view fs (bc_blocks c)" and "dirs_ok v" and "\<exists>b. v (fs_root_inode fs) = Some (DIRECTORY, b)"
  using assms by (auto simp: fs_shows_def bcs.shows_blocks_def)

lemma fs_showsI:
  assumes "bcs.shows_blocks g m c" and "layout_ok fs g" and "fs_inv fs m" and "dirs_ok (file_view fs m)"
    and "file_view fs m (fs_root_inode fs) = Some (DIRECTORY, b)"
  shows "fs_shows fs (file_view fs m) c"
  using assms by (auto simp: fs_shows_def bcs.shows_blocks_def)

lemma views_fs:
  assumes "\<And>g m s. layout_ok fs g \<Longrightarrow> bcs.shows_blocks g m s \<Longrightarrow> fs_inv fs m \<Longrightarrow>
    \<exists>s'. op s = (f (file_view fs m), s') \<and> bcs.shows_blocks g m s'"
  shows "views (fs_shows fs) op f"
  unfolding views_def
proof (intro allI impI)
  fix v s assume s: "fs_shows fs v s"
  note D = fs_showsD [OF s]
  obtain s' where s': "op s = (f v, s')" "bcs.shows_blocks (bc_geometry s) (bc_blocks s) s'"
    using assms [OF D(1-3)] D(4) by blast
  have "fs_shows fs v s'" using fs_showsI [OF s'(2) D(1,3)] D(4-6) by blast
  with s'(1) show "\<exists>s'. op s = (f v, s') \<and> fs_shows fs v s'" by blast
qed

lemma file_view_bounds:
  assumes "layout_ok fs g" and "file_view fs m n = Some (k, b)" shows "n \<noteq> 0" and "length b < 2 ^ 64"
proof -
  obtain r where r: "inode_at fs m n = Inr r" "b = file_bytes fs m r"
    using assms(2) by (auto simp: file_view_def split: sum.splits if_splits)
  note R = inode_at_ok [OF r(1)]
  show "n \<noteq> 0" using R(3) by (auto simp: inode_valid_def)
  show "length b < 2 ^ 64" using unat_less_64 [of "ir_size_bytes r"] by (simp add: r(2))
qed

lemma fs_metadata_views: "views (fs_shows fs) (fs_metadata fs n) (\<lambda>v. node_metadata v n)"
proof (rule views_fs)
  fix g m s assume L: "layout_ok fs g" and s: "bcs.shows_blocks g m s" and inv: "fs_inv fs m"
  have "sbind (inode_at fs m n) (\<lambda>r. if \<not> ir_allocated r then Inl Out_of_range
    else Inr \<lparr>im_number = ir_number r, im_kind = ir_kind r, im_size_bytes = ir_size_bytes r\<rparr>) = node_metadata (file_view fs m) n"
  proof (cases rule: inode_at_cases [OF inv, of n])
    case 1
    then show ?thesis by (simp add: sbind_def node_metadata_def file_view_def)
  next
    case (2 r)
    then show ?thesis using inode_at_ok(2) [of fs m n r] by (simp add: sbind_def node_metadata_def file_view_def)
  qed
  then show "\<exists>s'. fs_metadata fs n s = (node_metadata (file_view fs m) n, s') \<and> bcs.shows_blocks g m s'"
    using bcs.readsD [OF reads_fs_metadata [OF layout_okD(1) [OF L, symmetric]] s, of n] by metis
qed

lemma fs_lookup_views: "views (fs_shows fs) (fs_lookup fs n name) (\<lambda>v. find_entry v n name)"
  by (rule views_fs) (metis fs_lookup_view)

lemma fs_read_directory_views: "views (fs_shows fs) (fs_read_directory fs n) (\<lambda>v. list_directory v n)"
  by (rule views_fs) (metis fs_read_directory_view)

lemma read_file_views:
  "views (fs_shows fs) (read_file fs n off k) (\<lambda>v. sbind (file_content v n) (\<lambda>b. Inr (subspan (unat off) k b)))"
proof (rule views_fs)
  fix g m s assume "layout_ok fs g" and "bcs.shows_blocks g m s" and "fs_inv fs m"
  then obtain s' where "read_file fs n off k s = (case node_error FILE (file_view fs m n) of Some e \<Rightarrow> Inl e
      | None \<Rightarrow> Inr (subspan (unat off) k (snd (the (file_view fs m n)))), s')" "bcs.shows_blocks g m s'"
    by (rule read_file_view)
  then show "\<exists>s'. read_file fs n off k s = (sbind (file_content (file_view fs m) n) (\<lambda>b. Inr (subspan (unat off) k b)), s')
      \<and> bcs.shows_blocks g m s'"
    by (cases "node_error FILE (file_view fs m n)") (auto simp: file_content_def sbind_def)
qed

definition write_outcome :: "simple_fs_layout \<Rightarrow> nat \<Rightarrow> file_map \<Rightarrow> inode_number \<Rightarrow> qword \<Rightarrow> byte list \<Rightarrow> exn + byte list" where
  "write_outcome fs free v n off src = sbind (file_content v n) (\<lambda>b.
     case write_error fs free (length b) (unat off) (length src) of Some e \<Rightarrow> Inl e
     | None \<Rightarrow> Inr (overwrite (unat off) src b))"

lemma write_file_spec:
  assumes sh: "fs_shows fs v c" and len: "length src < 2 ^ 64"
  shows "\<exists>c'. write_file fs n off src c = (sbind (write_outcome fs (fs_free fs c) v n off src) (\<lambda>_. Inr (length src)), c')
    \<and> fs_shows fs (case write_outcome fs (fs_free fs c) v n off src of Inl _ \<Rightarrow> v | Inr b \<Rightarrow> v(n \<mapsto> (FILE, b))) c'"
proof -
  note D = fs_showsD [OF sh]
  let ?m = "bc_blocks c"
  have keep: "fs_shows fs v c'" if "bcs.shows_blocks (bc_geometry c) ?m c'" for c'
    using fs_showsI [OF that D(1,3)] D(4-6) by blast
  show ?thesis
  proof (cases rule: write_file_view [OF D(1-3) len, where n = n and off = off])
    case (1 e c')
    then show ?thesis
      using D(4) keep [OF 1(3)] by (simp add: write_outcome_def file_content_def sbind_def)
  next
    case (2 e c' b)
    then show ?thesis
      using D(4) keep [OF 2(4)] by (simp add: write_outcome_def file_content_def sbind_def node_error_def fs_free_def)
  next
    case (3 m' c' b)
    have v: "v n = Some (FILE, b)" using 3(1) D(4) by simp
    obtain b0 where r: "v (fs_root_inode fs) = Some (DIRECTORY, b0)" using D(6) by blast
    have "dirs_ok (v(n \<mapsto> (FILE, overwrite (unat off) src b)))" by (rule dirs_ok_file_write [OF D(5) v])
    moreover have "(v(n \<mapsto> (FILE, overwrite (unat off) src b))) (fs_root_inode fs) = Some (DIRECTORY, b0)" using r v by auto
    ultimately have "fs_shows fs (v(n \<mapsto> (FILE, overwrite (unat off) src b))) c'"
      using fs_showsI [OF 3(4) D(1) 3(5), of b0] 3(6) D(4) by simp
    then show ?thesis
      using 3(2,3) v by (simp add: write_outcome_def file_content_def sbind_def node_error_def fs_free_def)
  qed
qed

lemma write_error_None: "write_error fs free len off n = None \<Longrightarrow> off \<le> len"
  by (auto simp: write_error_def Let_def split: if_splits)

lemma create_node_spec:
  assumes sh: "fs_shows fs v c" and kind: "kind \<noteq> NODE_KIND_COUNT"
  obtains (refused) e c' where "create_error fs (fs_free fs c) v p name = Some e"
      and "create_node kind fs p name c = (Inl e, c')" and "fs_shows fs v c'"
    | (success) n v' c' where "create_error fs (fs_free fs c) v p name = None" and "inode_valid fs n"
      and "\<forall>k < n. inode_valid fs k \<longrightarrow> v k \<noteq> None" and "create_node kind fs p name c = (Inr n, c')"
      and "node_added v kind p name n v'" and "fs_shows fs v' c'"
proof -
  note D = fs_showsD [OF sh]
  show thesis
  proof (cases rule: create_node_view [OF D(1-3) kind, where p = p and name = name])
    case (1 e c')
    have "fs_shows fs v c'" using fs_showsI [OF 1(3) D(1,3)] D(4-6) by blast
    with 1 D(4) show thesis by (intro refused) (simp_all add: fs_free_def)
  next
    case (2 n rec bytes es m' c')
    let ?v = "v(n \<mapsto> (kind, []), p \<mapsto> (DIRECTORY, bytes @ rec))"
    have p: "v p = Some (DIRECTORY, bytes)" and n: "v n = None" using 2(2,6) D(4) by simp_all
    have none: "create_error fs (fs_free fs c) v p name = None" using 2(1) D(4) by (simp add: fs_free_def)
    then have find: "find_entry v p name = Inr None"
      by (auto simp: create_error_def split: sum.splits option.splits)
    obtain b0 where r: "v (fs_root_inode fs) = Some (DIRECTORY, b0)" using D(6) by blast
    have "dirs_ok ?v" by (rule dirs_ok_create [OF D(5) p 2(3) n kind 2(4) 2(8,9)])
    moreover have "\<exists>b. ?v (fs_root_inode fs) = Some (DIRECTORY, b)" using r n by auto
    ultimately have shows': "fs_shows fs ?v c'"
      using fs_showsI [OF 2(11) D(1) 2(12)] 2(13) D(4) by auto
    have first: "\<forall>k < n. inode_valid fs k \<longrightarrow> v k \<noteq> None" using 2(7) D(4) by simp
    show thesis
      by (rule success [OF none 2(5) first 2(10) _ shows']) (use find p n kind 2(8,9) in \<open>auto simp: node_added_def\<close>)
  qed
qed

interpretation sfs: file_service "fs_shows fs" "fs_root_inode fs" "fs_metadata fs" "fs_lookup fs" "fs_read_directory fs"
  "\<lambda>k. create_node k fs" "read_file fs" "write_file fs" for fs
proof
  show "\<exists>r s'. write_file fs n off src s = (r, s') \<and> (case r of Inl _ \<Rightarrow> fs_shows fs v s'
        | Inr w \<Rightarrow> w = length src \<and> (\<exists>b. v n = Some (FILE, b) \<and> unat off \<le> length b
            \<and> fs_shows fs (v(n \<mapsto> (FILE, overwrite (unat off) src b))) s'))"
    if "fs_shows fs v s" "length src < 2 ^ 64" for v s n off src
    using write_file_spec [OF that, of n off] write_error_None
    by (auto simp: write_outcome_def file_content_def sbind_def node_error_def split: option.splits if_splits)
  show "\<exists>r s'. create_node k fs p name s = (r, s') \<and> (case r of Inl _ \<Rightarrow> fs_shows fs v s'
        | Inr n \<Rightarrow> \<exists>v'. node_added v k p name n v' \<and> fs_shows fs v' s')"
    if "fs_shows fs v s" "k \<noteq> NODE_KIND_COUNT" for v s k p name
    by (cases rule: create_node_spec [OF that, where p = p and name = name]) auto
  show "n \<noteq> 0 \<and> length b < 2 ^ 64" if "fs_shows fs v s" "v n = Some (k, b)" for v s n k b
    using file_view_bounds fs_showsD(1,4) [OF that(1)] that(2) by metis
qed (fact fs_showsD(5) fs_showsD(6) fs_metadata_views fs_lookup_views fs_read_directory_views read_file_views)+

section \<open>Writing and creating\<close>

section \<open>Space\<close>

lemma card_blocks_of:
  assumes L: "layout_ok fs g" and inv: "fs_inv fs m" and r: "inode_at fs m n = Inr r"
  shows "card (blocks_of r) = blocks_for (unat (fs_block_size_bytes fs)) (unat (ir_size_bytes r))"
proof -
  let ?bs = "unat (fs_block_size_bytes fs)"
  note R = inode_at_ok(1) [OF r] and I = fs_invD [OF inv r]
  note size = record_size_bound [OF L R]
  have len: "length (ir_direct_blocks r) = 6" using inode_record_direct_ok [OF R] by (simp add: direct_ok_def)
  have idx: "{i. i < 6 \<and> i * ?bs < unat (ir_size_bytes r)} = {..<blocks_for ?bs (unat (ir_size_bytes r))}"
    by (rule card_blocks_for(1) [OF block_size_pos [OF L] size])
  have "blocks_of r = (\<lambda>i. ir_direct_blocks r ! i) ` {i. i < 6 \<and> i * ?bs < unat (ir_size_bytes r)}"
  proof (intro set_eqI iffI)
    fix a assume "a \<in> blocks_of r"
    then obtain i where "i < 6" "a = ir_direct_blocks r ! i" "a \<noteq> 0" using len by (auto simp: blocks_of_def in_set_conv_nth)
    then show "a \<in> (\<lambda>i. ir_direct_blocks r ! i) ` {i. i < 6 \<and> i * ?bs < unat (ir_size_bytes r)}"
      using I(2) by (auto simp: dense_def)
  qed (use I(2) len in \<open>auto simp: blocks_of_def dense_def\<close>)
  moreover have "inj_on (\<lambda>i. ir_direct_blocks r ! i) {i. i < 6 \<and> i * ?bs < unat (ir_size_bytes r)}"
    using I(1,2) unfolding inj_on_def owned_def dense_def by blast
  ultimately show ?thesis by (simp add: card_image idx)
qed

lemma card_used:
  assumes L: "layout_ok fs g" shows "free_blocks fs m + card {a. block_used fs m a} = data_count fs"
proof -
  have "inj_on (data_block fs) {k. k < data_count fs \<and> block_bit fs m k}"
    using data_block_inj [OF L] by (auto simp: inj_on_def)
  moreover have "{a. block_used fs m a} = data_block fs ` {k. k < data_count fs \<and> block_bit fs m k}"
    by (auto simp: block_used_def)
  ultimately have "card {a. block_used fs m a} = card {k. k < data_count fs \<and> block_bit fs m k}" by (simp add: card_image)
  also have "\<dots> = length (filter (\<lambda>k. block_bit fs m k) [0..<data_count fs])"
    by (simp add: distinct_length_filter) (rule arg_cong [of _ _ card], auto)
  finally show ?thesis
    using sum_length_filter_compl [of "\<lambda>k. block_bit fs m k" "[0..<data_count fs]"] by (simp add: free_blocks_def)
qed

definition used_blocks :: "simple_fs_layout \<Rightarrow> file_map \<Rightarrow> nat" where
  "used_blocks fs v = (\<Sum>n \<in> dom v. blocks_for (unat (fs_block_size_bytes fs)) (length (snd (the (v n)))))"

lemma used_by_inodes:
  assumes inv: "fs_inv fs m"
  shows "{a. block_used fs m a} = (\<Union>n \<in> {n. inode_valid fs n}. blocks_of (projr (inode_at fs m n)))"
proof (intro set_eqI iffI)
  fix a assume "a \<in> {a. block_used fs m a}"
  then obtain n r where r: "inode_at fs m n = Inr r" "a \<in> blocks_of r" using inv unfolding fs_inv_def by blast
  have "inode_valid fs n" by (rule inode_at_ok(3) [OF r(1)])
  with r show "a \<in> (\<Union>n \<in> {n. inode_valid fs n}. blocks_of (projr (inode_at fs m n)))" by (intro UN_I [of n]) simp_all
next
  fix a assume "a \<in> (\<Union>n \<in> {n. inode_valid fs n}. blocks_of (projr (inode_at fs m n)))"
  then obtain n where n: "inode_valid fs n" "a \<in> blocks_of (projr (inode_at fs m n))" by blast
  obtain r where r: "inode_at fs m n = Inr r" by (rule fs_inv_inode [OF inv n(1)])
  show "a \<in> {a. block_used fs m a}" using fs_invD(4) [OF inv r] n(2) r by simp
qed

lemma used_blocks_of_view:
  assumes L: "layout_ok fs g" and inv: "fs_inv fs m"
  shows "used_blocks fs (file_view fs m) = (\<Sum>n | inode_valid fs n. card (blocks_of (projr (inode_at fs m n))))"
  unfolding used_blocks_def
proof (rule sum.mono_neutral_cong_left)
  show "dom (file_view fs m) \<subseteq> {n. inode_valid fs n}" by (auto simp: file_view_def split: sum.splits dest: inode_at_ok(3))
  fix n
  assume n: "n \<in> dom (file_view fs m)"
  then obtain r where r: "inode_at fs m n = Inr r" "ir_allocated r" by (auto simp: file_view_def split: sum.splits if_splits)
  then show "blocks_for (unat (fs_block_size_bytes fs)) (length (snd (the (file_view fs m n)))) = card (blocks_of (projr (inode_at fs m n)))"
    using card_blocks_of [OF L inv r(1)] by (simp add: file_view_record)
next
  show "\<forall>n \<in> {n. inode_valid fs n} - dom (file_view fs m). card (blocks_of (projr (inode_at fs m n))) = 0"
  proof
    fix n assume n: "n \<in> {n. inode_valid fs n} - dom (file_view fs m)"
    then obtain r where r: "inode_at fs m n = Inr r" using fs_inv_inode [OF inv] by blast
    then have "\<not> ir_allocated r" using n by (auto simp: file_view_record)
    then have "r = empty_inode_record\<lparr>ir_number := n\<rparr>" using inode_at_ok(1,2) [OF r] by (simp add: inode_record_ok_def)
    then show "card (blocks_of (projr (inode_at fs m n))) = 0"
      using r by (simp add: empty_inode_record_def blocks_of_def fs_constants)
  qed
qed simp

lemma space_of_view:
  assumes L: "layout_ok fs g" and inv: "fs_inv fs m"
  shows "free_blocks fs m + used_blocks fs (file_view fs m) = data_count fs"
proof -
  have "card (\<Union>n \<in> {n. inode_valid fs n}. blocks_of (projr (inode_at fs m n))) = used_blocks fs (file_view fs m)"
    unfolding used_blocks_of_view [OF L inv]
  proof (rule card_UN_disjoint)
    show "\<forall>i \<in> {n. inode_valid fs n}. \<forall>j \<in> {n. inode_valid fs n}. i \<noteq> j \<longrightarrow>
        blocks_of (projr (inode_at fs m i)) \<inter> blocks_of (projr (inode_at fs m j)) = {}"
    proof (intro ballI impI)
      fix i j assume "i \<in> {n. inode_valid fs n}" "j \<in> {n. inode_valid fs n}" and ij: "i \<noteq> j"
      then have i: "inode_valid fs i" and j: "inode_valid fs j" by simp_all
      obtain r where r: "inode_at fs m i = Inr r" by (rule fs_inv_inode [OF inv i])
      obtain q where q: "inode_at fs m j = Inr q" by (rule fs_inv_inode [OF inv j])
      show "blocks_of (projr (inode_at fs m i)) \<inter> blocks_of (projr (inode_at fs m j)) = {}"
        using fs_invD(3) [OF inv r q ij] r q by simp
    qed
  qed (simp_all add: blocks_of_def)
  then show ?thesis using card_used [OF L, of m] unfolding used_by_inodes [OF inv] by (simp only:)
qed

text \<open>A freshly formatted device shows an empty root directory.\<close>

lemma formatted_block_bit:
  assumes L: "layout_ok fs g" and k: "k < data_count fs" shows "\<not> block_bit fs (formatted_disk fs) k"
proof -
  let ?a = "bitmap_block fs (k div bits_per_block fs)"
  note B = bitmap_block_unat [OF L bitmap_index [OF L k]] and D = layout_okD [OF L]
  have "unat ?a < unat (fs_block_count fs)" using B(3) D(2,9) by simp
  moreover have "unat (fs_inode_table_start fs) < unat (fs_data_bitmap_start fs)"
    using inode_block_bounds(1,2) [OF L, of "fs_root_inode fs"] D(14,15) by (simp add: inode_valid_def)
  then have "?a \<noteq> fs_inode_table_start fs" "?a \<noteq> 0" using B(2) by auto
  ultimately have a: "the (formatted_disk fs ?a) = make_zero_block (fs_block_size_bytes fs)" by (simp add: formatted_disk_def)
  have "k mod bits_per_block fs < bits_per_block fs" using bits_pos [OF L] by (rule mod_less_divisor)
  then have "k mod bits_per_block fs div 8 < unat (fs_block_size_bytes fs)" by (simp add: less_mult_imp_div_less)
  then show ?thesis by (simp add: block_bit_def a bit_test_bitmap make_zero_block_def)
qed

lemma formatted_fs_inv:
  assumes L: "layout_ok fs g" shows "fs_inv fs (formatted_disk fs)"
    and "file_view fs (formatted_disk fs) = [1 \<mapsto> (DIRECTORY, [])]" and "free_blocks fs (formatted_disk fs) = data_count fs"
proof -
  have rec: "inode_at fs (formatted_disk fs) n = Inr (if n = 1 then root_record else empty_inode_record\<lparr>ir_number := n\<rparr>)"
    if "inode_valid fs n" for n by (rule formatted_inode [OF L that])
  have empty: "ir_direct_blocks r = replicate 6 0 \<and> ir_size_bytes r = 0" if "inode_at fs (formatted_disk fs) n = Inr r" for n r
    using rec [OF inode_at_ok(3) [OF that]] that by (auto simp: root_record_def empty_inode_record_def fs_constants)
  have unused: "\<not> block_used fs (formatted_disk fs) a" for a
    using formatted_block_bit [OF L] by (auto simp: block_used_def)
  show "fs_inv fs (formatted_disk fs)"
    unfolding fs_inv_def
  proof (intro conjI allI impI)
    fix n assume "inode_valid fs n"
    then obtain r where r: "inode_at fs (formatted_disk fs) n = Inr r" using rec by blast
    from empty [OF this] have "owned fs (formatted_disk fs) r" "dense fs r" by (simp_all add: owned_def dense_def)
    with r show "\<exists>r. inode_at fs (formatted_disk fs) n = Inr r \<and> owned fs (formatted_disk fs) r \<and> dense fs r" by blast
  next
    fix n k r q assume "inode_at fs (formatted_disk fs) n = Inr r" "inode_at fs (formatted_disk fs) k = Inr q"
    then show "blocks_of r \<inter> blocks_of q = {}" using empty [of n r] by (simp add: blocks_of_def)
  qed (use unused in blast)
  have one: "inode_valid fs 1" using layout_okD(14,15) [OF L] by (simp add: inode_valid_def)
  show "file_view fs (formatted_disk fs) = [1 \<mapsto> (DIRECTORY, [])]"
  proof
    fix n show "file_view fs (formatted_disk fs) n = [1 \<mapsto> (DIRECTORY, [])] n"
      using rec [of n] inode_at_invalid [of fs n] one
      by (cases "inode_valid fs n") (auto simp: file_view_def file_bytes_def root_record_def empty_inode_record_def)
  qed
  have "filter (\<lambda>k. \<not> block_bit fs (formatted_disk fs) k) [0..<data_count fs] = [0..<data_count fs]"
    using formatted_block_bit [OF L] by (simp add: filter_id_conv)
  then show "free_blocks fs (formatted_disk fs) = data_count fs" by (simp add: free_blocks_def)
qed

lemma fs_format_shows:
  assumes "cache_ok c" and "make_layout (bc_geometry c) n = Inr fs" and L: "layout_ok fs (bc_geometry c)"
  obtains c' where "fs_format n c = (Inr (), c')" and "fs_shows fs [1 \<mapsto> (DIRECTORY, [])] c'" and "fs_free fs c' = data_count fs"
proof -
  have s: "bcs.shows_blocks (bc_geometry c) (bc_blocks c) c" using assms(1) by (simp add: bcs.shows_blocks_def)
  obtain c' where c': "fs_format n c = (Inr (), c')" "bcs.shows_blocks (bc_geometry c) (formatted_disk fs) c'"
    by (rule fs_format_spec [OF s assms(2) L])
  note F = formatted_fs_inv [OF L]
  have "fs_root_inode fs = 1" using assms(2) by (auto simp: make_layout_def sbind_def Let_def fs_constants split: if_splits sum.splits)
  moreover have "dirs_ok [1 \<mapsto> (DIRECTORY, [])]" by (auto simp: dirs_ok_def split: if_splits)
  ultimately have "fs_shows fs [1 \<mapsto> (DIRECTORY, [])] c'"
    using fs_showsI [OF c'(2) L F(1), of "[]"] F(2) by simp
  moreover have "fs_free fs c' = data_count fs" using c'(2) F(3) by (simp add: fs_free_def bcs.shows_blocks_def)
  ultimately show thesis using c'(1) by (intro that)
qed

lemma sample_mounted:
  obtains c where "fs_shows sample_layout_128 [1 \<mapsto> (DIRECTORY, [])] c" and "fs_free sample_layout_128 c = 5"
proof -
  obtain d c where c: "cache_ok c" "bc_geometry c = sample_geometry" by (rule sample_fs_cache)
  obtain c' where "fs_shows sample_layout_128 [1 \<mapsto> (DIRECTORY, [])] c'" "fs_free sample_layout_128 c' = data_count sample_layout_128"
    using fs_format_shows [OF c(1)] sample_layout sample_fs_ok c(2) by metis
  then show thesis by (intro that) (simp_all add: sample_layout_128_def)
qed

text \<open>
  C34: In a mounted file system \<^verbatim>\<open>write_file\<close> throws exactly when the node is missing or not a file, the offset is
  beyond the end, the file would become larger than its direct blocks can hold, or too few data blocks are free,
  and then no file has changed. Otherwise exactly the bytes from the offset on are replaced (the file grows as
  needed), every other file and directory is as before, and reading at the offset returns what was written.
\<close>

theorem write_file_correct:
  assumes "fs_shows fs v c" and "length src < 2 ^ 64"
  shows "\<exists>c'. write_file fs n off src c = (sbind (write_outcome fs (fs_free fs c) v n off src) (\<lambda>_. Inr (length src)), c')
    \<and> (case write_outcome fs (fs_free fs c) v n off src of Inl _ \<Rightarrow> fs_shows fs v c'
       | Inr b \<Rightarrow> fs_shows fs (v(n \<mapsto> (FILE, b))) c' \<and> (\<exists>c''. read_file fs n off (length src) c' = (Inr src, c'')))"
proof -
  obtain c' where c': "write_file fs n off src c = (sbind (write_outcome fs (fs_free fs c) v n off src) (\<lambda>_. Inr (length src)), c')"
    "fs_shows fs (case write_outcome fs (fs_free fs c) v n off src of Inl _ \<Rightarrow> v | Inr b \<Rightarrow> v(n \<mapsto> (FILE, b))) c'"
    using write_file_spec [OF assms] by blast
  then have "\<exists>c''. read_file fs n off (length src) c' = (Inr src, c'')"
    if "write_outcome fs (fs_free fs c) v n off src = Inr b" for b
    using sfs.read_after_write [OF assms, of n off "length src" c'] that by (auto simp: sbind_def)
  with c' show ?thesis by (cases "write_outcome fs (fs_free fs c) v n off src") auto
qed

lemma sample_valid: "inode_valid sample_layout_128 k \<longleftrightarrow> k = 1 \<or> k = 2"
  by (auto simp: inode_valid_def sample_layout_128_def word_unat_eq_iff)

lemma sample_create_ok: "create_error sample_layout_128 5 [1 \<mapsto> (DIRECTORY, [])] 1 ''a'' = None"
  using sample_valid [of 2]
  by (auto simp: create_error_def find_entry_def validate_directory_name_def fs_constants list_directory_def node_error_def
      sbind_def Let_def write_error_def blocks_for_def sample_layout_128_def intro!: exI [of _ 2])

lemma fs_free_view: "fs_shows fs v c \<Longrightarrow> fs_free fs c + used_blocks fs v = data_count fs"
  using space_of_view [OF fs_showsD(1,3)] fs_showsD(4) by (metis fs_free_def)

lemma sample_file:
  obtains rec c where "fs_shows sample_layout_128 [2 \<mapsto> (FILE, []), 1 \<mapsto> (DIRECTORY, rec)] c" and "fs_free sample_layout_128 c = 4"
proof -
  obtain c where c: "fs_shows sample_layout_128 [1 \<mapsto> (DIRECTORY, [])] c" "fs_free sample_layout_128 c = 5" by (rule sample_mounted)
  have kind: "FILE \<noteq> NODE_KIND_COUNT" by simp
  obtain n v' c' where n: "inode_valid sample_layout_128 n" "node_added [1 \<mapsto> (DIRECTORY, [])] FILE 1 ''a'' n v'"
    and c': "fs_shows sample_layout_128 v' c'"
    by (cases rule: create_node_spec [OF c(1) kind, where p = 1 and name = "''a''"]) (use sample_create_ok c(2) in auto)
  from n obtain rec where rec: "length rec = 64" and v': "v' = [2 \<mapsto> (FILE, []), 1 \<mapsto> (DIRECTORY, rec)]"
    by (auto simp: node_added_def sample_valid split: if_splits)
  have "used_blocks sample_layout_128 v' = 1" using rec by (simp add: used_blocks_def v' sample_layout_128_def blocks_for_def)
  then have "fs_free sample_layout_128 c' = 4" using fs_free_view [OF c'] by (simp add: sample_layout_128_def)
  with c' v' show thesis by (intro that) simp_all
qed

text \<open>Witness: three bytes are appended to an empty file.\<close>

theorem write_file_correct_witness:
  "\<exists>rec c c' c''. fs_shows sample_layout_128 [2 \<mapsto> (FILE, []), 1 \<mapsto> (DIRECTORY, rec)] c
    \<and> write_file sample_layout_128 2 0 [1, 2, 3] c = (Inr 3, c') \<and> read_file sample_layout_128 2 0 3 c' = (Inr [1, 2, 3], c'')"
proof -
  obtain rec c where c: "fs_shows sample_layout_128 [2 \<mapsto> (FILE, []), 1 \<mapsto> (DIRECTORY, rec)] c" "fs_free sample_layout_128 c = 4"
    by (rule sample_file)
  have "write_outcome sample_layout_128 4 [2 \<mapsto> (FILE, []), 1 \<mapsto> (DIRECTORY, rec)] 2 0 [1, 2, 3] = Inr [1, 2, 3]"
    by (simp add: write_outcome_def file_content_def node_error_def sbind_def write_error_def Let_def sample_layout_128_def
        blocks_for_def overwrite_def)
  with write_file_correct [OF c(1), of "[1, 2, 3]" 2 0] c show ?thesis by (auto simp: sbind_def numeral_3_eq_3)
qed

text \<open>
  C35: No data block leaks and none is counted twice: in every reachable state of a mounted file system the free
  blocks of the bitmap and the blocks that the sizes of the files and directories need add up to the data area,
  and this is the number of free blocks that \<^verbatim>\<open>free_data_block_count\<close> returns.
\<close>

theorem space_accounted:
  assumes "fs_shows fs v c"
  shows "\<exists>c'. free_data_block_count fs c = (Inr (data_count fs - used_blocks fs v), c') \<and> used_blocks fs v \<le> data_count fs
    \<and> fs_shows fs v c'"
proof -
  note D = fs_showsD [OF assms]
  obtain c' where c': "free_data_block_count fs c = (Inr (free_blocks fs (bc_blocks c)), c')"
    "bcs.shows_blocks (bc_geometry c) (bc_blocks c) c'"
    by (rule bcs.readsD [OF reads_free_data_block_count [OF D(1)] D(2)])
  moreover have "fs_shows fs v c'" using fs_showsI [OF c'(2) D(1,3)] D(4-6) by blast
  moreover have "free_blocks fs (bc_blocks c) = data_count fs - used_blocks fs v" "used_blocks fs v \<le> data_count fs"
    using fs_free_view [OF assms] by (simp_all add: fs_free_def)
  ultimately show ?thesis by auto
qed

text \<open>Witness: a directory with one entry and an empty file use one block of five.\<close>

theorem space_accounted_witness:
  "\<exists>rec c c'. fs_shows sample_layout_128 [2 \<mapsto> (FILE, []), 1 \<mapsto> (DIRECTORY, rec)] c
    \<and> free_data_block_count sample_layout_128 c = (Inr 4, c')"
proof -
  obtain rec c where c: "fs_shows sample_layout_128 [2 \<mapsto> (FILE, []), 1 \<mapsto> (DIRECTORY, rec)] c" "fs_free sample_layout_128 c = 4"
    by (rule sample_file)
  have "data_count sample_layout_128 - used_blocks sample_layout_128 [2 \<mapsto> (FILE, []), 1 \<mapsto> (DIRECTORY, rec)] = 4"
    using fs_free_view [OF c(1)] c(2) by simp
  with space_accounted [OF c(1)] c(1) show ?thesis by auto
qed

text \<open>
  C36: Creating a file or a directory is atomic. It throws exactly when the name is malformed or in use, the parent
  is missing or not a directory, the directory cannot grow, or no inode is free, and then no file has changed.
  Otherwise the lowest free inode becomes an empty node of the given kind, a lookup of the name in the parent
  returns it, every entry that could be found before is still found, and no other node has changed.
\<close>

theorem create_node_correct:
  assumes "fs_shows fs v c" and "kind \<noteq> NODE_KIND_COUNT"
  shows "\<exists>r c'. create_node kind fs p name c = (r, c') \<and> (case r of
      Inl e \<Rightarrow> create_error fs (fs_free fs c) v p name = Some e \<and> fs_shows fs v c'
    | Inr n \<Rightarrow> create_error fs (fs_free fs c) v p name = None \<and> inode_valid fs n \<and> v n = None
        \<and> (\<forall>k < n. inode_valid fs k \<longrightarrow> v k \<noteq> None)
        \<and> (\<exists>v'. fs_shows fs v' c' \<and> v' n = Some (kind, []) \<and> (\<forall>q. q \<noteq> p \<longrightarrow> q \<noteq> n \<longrightarrow> v' q = v q)
             \<and> find_entry v' p name = Inr (Some \<lparr>de_name = name, de_inode = n, de_kind = kind\<rparr>)
             \<and> (\<forall>q c e. find_entry v q c = Inr (Some e) \<longrightarrow> find_entry v' q c = Inr (Some e))))"
proof (cases rule: create_node_spec [OF assms, where p = p and name = name])
  case (2 n v' c')
  note F = node_added_find [OF 2(5)]
  have "\<forall>q. q \<noteq> p \<longrightarrow> q \<noteq> n \<longrightarrow> v' q = v q" "v n = None" using 2(5) by (auto simp: node_added_def)
  with 2 F(1,2,4) show ?thesis by auto
qed auto

text \<open>Witness: the first file of a fresh file system gets inode 2 and can be written and read.\<close>

theorem create_node_correct_witness:
  "\<exists>c c' v'. fs_shows sample_layout_128 [1 \<mapsto> (DIRECTORY, [])] c \<and> create_node FILE sample_layout_128 1 ''a'' c = (Inr 2, c')
    \<and> fs_shows sample_layout_128 v' c' \<and> find_entry v' 1 ''a'' = Inr (Some \<lparr>de_name = ''a'', de_inode = 2, de_kind = FILE\<rparr>)"
proof -
  obtain c where c: "fs_shows sample_layout_128 [1 \<mapsto> (DIRECTORY, [])] c" "fs_free sample_layout_128 c = 5" by (rule sample_mounted)
  have kind: "FILE \<noteq> NODE_KIND_COUNT" by simp
  obtain r c' where rc: "create_node FILE sample_layout_128 1 ''a'' c = (r, c')" by fastforce
  from create_node_correct [OF c(1) kind, of 1 "''a''"] rc c(2) sample_create_ok obtain n v' where n: "r = Inr n"
    "inode_valid sample_layout_128 n" "([1 \<mapsto> (DIRECTORY, [])] :: file_map) n = None" "fs_shows sample_layout_128 v' c'"
    "find_entry v' 1 ''a'' = Inr (Some \<lparr>de_name = ''a'', de_inode = n, de_kind = FILE\<rparr>)"
    by (cases r) auto
  then have "n = 2" using sample_valid [of n] by (auto split: if_splits)
  with n c(1) rc show ?thesis by blast
qed

end
