(* ===== verification/Vfs.thy ===== *)
theory Vfs
  imports FsSpec
begin

text \<open>
  The virtual file system of \<^verbatim>\<open>os/fs/vfs.cpp\<close>: absolute paths over one mounted simple file system, and open files with a
  mode and an offset. A \<^verbatim>\<open>Vfs\<close> object is a reference to the file system, so its operations take the layout \<open>fs\<close> and
  work on the cache; an open file is a value that the operations return updated (an operation that throws leaves it
  as it was).
\<close>

section \<open>Data\<close>

definition VFS_PATH_SEPARATOR :: char where "VFS_PATH_SEPARATOR = CHR ''/''"

datatype vfs_open_mode = READ_ONLY | WRITE_ONLY | READ_WRITE | OPEN_MODE_COUNT

record vfs_node =
  vn_inode :: inode_number
  vn_kind :: simple_fs_node_kind
  vn_size_bytes :: qword

definition vn_is_file :: "vfs_node \<Rightarrow> bool" where
  "vn_is_file node \<longleftrightarrow> vn_kind node = FILE"

definition vn_is_directory :: "vfs_node \<Rightarrow> bool" where
  "vn_is_directory node \<longleftrightarrow> vn_kind node = DIRECTORY"

text \<open>The pointer to the file system is an optional layout: \<open>None\<close> is the null pointer.\<close>

record vfs_file =
  vf_file_system :: "simple_fs_layout option"
  vf_inode :: inode_number
  vf_mode :: vfs_open_mode
  vf_offset :: qword

definition closed_vfs_file :: vfs_file where
  "closed_vfs_file = \<lparr>vf_file_system = None, vf_inode = SIMPLE_FS_INVALID_INODE_VALUE, vf_mode = OPEN_MODE_COUNT, vf_offset = 0\<rparr>"

definition VfsFile :: "simple_fs_layout \<Rightarrow> inode_number \<Rightarrow> vfs_open_mode \<Rightarrow> vfs_file" where
  "VfsFile fs inode mode = \<lparr>vf_file_system = Some fs, vf_inode = inode, vf_mode = mode, vf_offset = 0\<rparr>"

section \<open>Paths\<close>

definition is_valid_path_segment :: "string \<Rightarrow> bool" where
  "is_valid_path_segment segment \<longleftrightarrow> segment \<noteq> [] \<and> length segment \<le> SIMPLE_FS_MAX_NAME_LENGTH
     \<and> segment \<noteq> ''.'' \<and> segment \<noteq> ''..''"

definition find_char :: "string \<Rightarrow> char \<Rightarrow> nat \<Rightarrow> nat option" where
  "find_char s c pos = find (\<lambda>i. s ! i = c) [pos..<length s]"

lemma find_char_bounds: "find_char s c pos = Some i \<Longrightarrow> pos \<le> i \<and> i < length s"
  by (auto simp: find_char_def find_Some_iff)

function split_path_loop :: "string \<Rightarrow> nat \<Rightarrow> string list \<Rightarrow> exn + string list" where
  "split_path_loop path segment_start components =
    (if segment_start \<le> length path
     then
       let separator = find_char path VFS_PATH_SEPARATOR segment_start;
           segment_end = (case separator of None \<Rightarrow> length path | Some i \<Rightarrow> i);
           segment = take (segment_end - segment_start) (drop segment_start path) in
       if segment_end > segment_start \<and> \<not> is_valid_path_segment segment then Inl Invalid_argument
       else
         let components = (if segment_end > segment_start then components @ [segment] else components) in
         (case separator of None \<Rightarrow> Inr components | Some i \<Rightarrow> split_path_loop path (i + 1) components)
     else Inr components)"
  by pat_completeness auto

termination split_path_loop
  by (relation "measure (\<lambda>(path, segment_start, components). Suc (length path) - segment_start)")
     (auto dest!: find_char_bounds [OF sym])

declare split_path_loop.simps [simp del]

definition split_absolute_path :: "string \<Rightarrow> exn + string list" where
  "split_absolute_path path =
    (if path = [] \<or> hd path \<noteq> VFS_PATH_SEPARATOR then Inl Invalid_argument
     else split_path_loop path 1 [])"

section \<open>Operations on paths\<close>

definition node_from_inode :: "simple_fs_layout \<Rightarrow> inode_number \<Rightarrow> (buffer_cache, vfs_node) op" where
  "node_from_inode fs inode = bnd (fs_metadata fs inode) (\<lambda>metadata.
     ret \<lparr>vn_inode = im_number metadata, vn_kind = im_kind metadata, vn_size_bytes = im_size_bytes metadata\<rparr>)"

definition vfs_root :: "simple_fs_layout \<Rightarrow> (buffer_cache, vfs_node) op" where
  "vfs_root fs = node_from_inode fs (fs_root_inode fs)"

primrec lookup_loop :: "simple_fs_layout \<Rightarrow> inode_number \<Rightarrow> string list \<Rightarrow> (buffer_cache, inode_number option) op" where
  "lookup_loop fs current [] = ret (Some current)"
| "lookup_loop fs current (component # rest) =
    bnd (fs_lookup fs current component) (\<lambda>entry. case entry of
      None \<Rightarrow> ret None
    | Some e \<Rightarrow> if rest \<noteq> [] \<and> de_kind e \<noteq> DIRECTORY then ret None
        else lookup_loop fs (de_inode e) rest)"

definition vfs_lookup :: "simple_fs_layout \<Rightarrow> string \<Rightarrow> (buffer_cache, vfs_node option) op" where
  "vfs_lookup fs path =
    bnd (lift_sum (split_absolute_path path)) (\<lambda>components.
    if components = [] then bnd (node_from_inode fs (fs_root_inode fs)) (\<lambda>node. ret (Some node))
    else bnd (lookup_loop fs (fs_root_inode fs) components) (\<lambda>found. case found of
        None \<Rightarrow> ret None
      | Some current \<Rightarrow> bnd (node_from_inode fs current) (\<lambda>node. ret (Some node))))"

primrec resolve_loop :: "simple_fs_layout \<Rightarrow> inode_number \<Rightarrow> string list \<Rightarrow> (buffer_cache, inode_number) op" where
  "resolve_loop fs parent [] = ret parent"
| "resolve_loop fs parent (component # rest) =
    bnd (fs_lookup fs parent component) (\<lambda>entry. case entry of
      None \<Rightarrow> throw Out_of_range
    | Some e \<Rightarrow> if de_kind e \<noteq> DIRECTORY then throw Invalid_argument
        else resolve_loop fs (de_inode e) rest)"

definition resolve_parent :: "simple_fs_layout \<Rightarrow> string \<Rightarrow> (buffer_cache, inode_number \<times> string) op" where
  "resolve_parent fs path =
    bnd (lift_sum (split_absolute_path path)) (\<lambda>components.
    if components = [] then throw Invalid_argument
    else bnd (resolve_loop fs (fs_root_inode fs) (butlast components)) (\<lambda>parent.
      ret (parent, last components)))"

definition vfs_create :: "simple_fs_node_kind \<Rightarrow> simple_fs_layout \<Rightarrow> string \<Rightarrow> (buffer_cache, vfs_node) op" where
  "vfs_create kind fs path =
    bnd (resolve_parent fs path) (\<lambda>(parent, leaf).
    bnd (create_node kind fs parent leaf) (\<lambda>inode.
    node_from_inode fs inode))"

definition vfs_create_file :: "simple_fs_layout \<Rightarrow> string \<Rightarrow> (buffer_cache, vfs_node) op" where
  "vfs_create_file = vfs_create FILE"

definition vfs_create_directory :: "simple_fs_layout \<Rightarrow> string \<Rightarrow> (buffer_cache, vfs_node) op" where
  "vfs_create_directory = vfs_create DIRECTORY"

definition vfs_open_file :: "simple_fs_layout \<Rightarrow> string \<Rightarrow> vfs_open_mode \<Rightarrow> (buffer_cache, vfs_file) op" where
  "vfs_open_file fs path mode =
    (if mode = OPEN_MODE_COUNT then throw Invalid_argument
     else bnd (vfs_lookup fs path) (\<lambda>node. case node of
         None \<Rightarrow> throw Out_of_range
       | Some n \<Rightarrow> if \<not> vn_is_file n then throw Invalid_argument
           else ret (VfsFile fs (vn_inode n) mode)))"

definition vfs_read_directory :: "simple_fs_layout \<Rightarrow> string \<Rightarrow> (buffer_cache, directory_entry list) op" where
  "vfs_read_directory fs path =
    bnd (vfs_lookup fs path) (\<lambda>node. case node of
        None \<Rightarrow> throw Out_of_range
      | Some n \<Rightarrow> if \<not> vn_is_directory n then throw Invalid_argument
          else fs_read_directory fs (vn_inode n))"

section \<open>Open files\<close>

definition vf_readable :: "vfs_file \<Rightarrow> bool" where
  "vf_readable f \<longleftrightarrow> vf_mode f = READ_ONLY \<or> vf_mode f = READ_WRITE"

definition vf_writable :: "vfs_file \<Rightarrow> bool" where
  "vf_writable f \<longleftrightarrow> vf_mode f = WRITE_ONLY \<or> vf_mode f = READ_WRITE"

definition vf_is_open :: "vfs_file \<Rightarrow> bool" where
  "vf_is_open f \<longleftrightarrow> vf_file_system f \<noteq> None \<and> is_valid_inode (vf_inode f) \<and> vf_mode f \<noteq> OPEN_MODE_COUNT"

definition vf_size_bytes :: "vfs_file \<Rightarrow> (buffer_cache, qword) op" where
  "vf_size_bytes f =
    (if \<not> vf_is_open f then throw Logic_error
     else bnd (fs_metadata (the (vf_file_system f)) (vf_inode f)) (\<lambda>metadata. ret (im_size_bytes metadata)))"

definition vf_seek :: "qword \<Rightarrow> vfs_file \<Rightarrow> (buffer_cache, vfs_file) op" where
  "vf_seek offset f =
    (if \<not> vf_is_open f then throw Logic_error
     else bnd (vf_size_bytes f) (\<lambda>size.
       if offset > size then throw Invalid_argument
       else ret (f\<lparr>vf_offset := offset\<rparr>)))"

definition vf_read :: "nat \<Rightarrow> vfs_file \<Rightarrow> (buffer_cache, byte list \<times> vfs_file) op" where
  "vf_read count f =
    (if \<not> vf_is_open f then throw Logic_error
     else if \<not> vf_readable f then throw Invalid_argument
     else bnd (read_file (the (vf_file_system f)) (vf_inode f) (vf_offset f) count) (\<lambda>bytes.
       ret (bytes, f\<lparr>vf_offset := vf_offset f + of_nat (length bytes)\<rparr>)))"

definition vf_write :: "byte list \<Rightarrow> vfs_file \<Rightarrow> (buffer_cache, nat \<times> vfs_file) op" where
  "vf_write src f =
    (if \<not> vf_is_open f then throw Logic_error
     else if \<not> vf_writable f then throw Invalid_argument
     else bnd (write_file (the (vf_file_system f)) (vf_inode f) (vf_offset f) src) (\<lambda>byte_count.
       ret (byte_count, f\<lparr>vf_offset := vf_offset f + of_nat byte_count\<rparr>)))"

section \<open>Splitting paths\<close>

text \<open>The reference: cut the text after the leading separator at every separator.\<close>

function path_segments :: "string \<Rightarrow> string list" where
  "path_segments s = (let segment = takeWhile (\<lambda>c. c \<noteq> CHR ''/'') s in
     case dropWhile (\<lambda>c. c \<noteq> CHR ''/'') s of [] \<Rightarrow> [segment] | _ # rest \<Rightarrow> segment # path_segments rest)"
  by pat_completeness auto

termination path_segments
proof (relation "measure length", goal_cases)
  case (2 s segment c rest)
  then have "length (c # rest) \<le> length s" by (metis length_dropWhile_le)
  then show ?case by simp
qed simp

declare path_segments.simps [simp del]

definition path_names :: "string \<Rightarrow> string list" where
  "path_names s = filter (\<lambda>x. x \<noteq> []) (path_segments s)"

lemma find_upt_nth:
  "find (\<lambda>i. s ! i = c) [pos..<length s] =
    (if c \<in> set (drop pos s) then Some (pos + length (takeWhile (\<lambda>x. x \<noteq> c) (drop pos s))) else None)"
proof (induction "length s - pos" arbitrary: pos)
  case 0
  then show ?case by simp
next
  case (Suc n)
  then have pos: "pos < length s" by simp
  then have "drop pos s = s ! pos # drop (Suc pos) s" by (simp add: Cons_nth_drop_Suc)
  moreover have "[pos..<length s] = pos # [Suc pos..<length s]" using pos by (simp add: upt_conv_Cons)
  ultimately show ?case using Suc.hyps(1) [of "Suc pos"] Suc.hyps(2) by auto
qed

lemma split_path_loop_run:
  assumes "start \<le> length path"
  shows "split_path_loop path start components =
    (if \<forall>x \<in> set (path_names (drop start path)). is_valid_path_segment x
     then Inr (components @ path_names (drop start path)) else Inl Invalid_argument)"
  using assms
proof (induction "length path - start" arbitrary: start components rule: less_induct)
  case less
  let ?s = "drop start path"
  let ?seg = "takeWhile (\<lambda>c. c \<noteq> CHR ''/'') ?s"
  show ?case
  proof (cases "CHR ''/'' \<in> set ?s")
    case False
    then have whole: "takeWhile (\<lambda>c. c \<noteq> CHR ''/'') ?s = ?s" "dropWhile (\<lambda>c. c \<noteq> CHR ''/'') ?s = []"
      by (auto simp: takeWhile_eq_all_conv)
    have "path_names ?s = (if ?s = [] then [] else [?s])"
      by (subst path_names_def, subst path_segments.simps) (simp add: Let_def whole)
    with False less.prems show ?thesis
      by (subst split_path_loop.simps) (auto simp: find_char_def find_upt_nth VFS_PATH_SEPARATOR_def Let_def)
  next
    case True
    let ?i = "start + length ?seg"
    obtain c rest where rest: "dropWhile (\<lambda>c. c \<noteq> CHR ''/'') ?s = c # rest"
      using True by (cases "dropWhile (\<lambda>c. c \<noteq> CHR ''/'') ?s") (auto simp: dropWhile_eq_Nil_conv)
    have split: "?s = ?seg @ c # rest" using takeWhile_dropWhile_id [of "\<lambda>c. c \<noteq> CHR ''/''" ?s] rest by simp
    have len: "length ?s = length ?seg + Suc (length rest)" using arg_cong [OF split, of length] by simp
    have i: "?i < length path" using len less.prems by simp
    have drop: "drop (?i + 1) path = rest"
    proof -
      have "drop (?i + 1) path = drop (Suc (length ?seg)) ?s" by (simp add: add.commute)
      also have "\<dots> = rest" by (subst (2) split) simp
      finally show ?thesis .
    qed
    have seg: "take (?i - start) ?s = ?seg" by (simp add: takeWhile_eq_take [symmetric])
    have names: "path_names ?s = (if ?seg = [] then [] else [?seg]) @ path_names rest"
      by (subst path_names_def, subst path_segments.simps) (simp add: Let_def rest path_names_def)
    have IH: "split_path_loop path (?i + 1) cs = (if \<forall>x \<in> set (path_names rest). is_valid_path_segment x
        then Inr (cs @ path_names rest) else Inl Invalid_argument)" for cs
      using less.hyps [of "?i + 1" cs] i drop by simp
    have find: "find_char path VFS_PATH_SEPARATOR start = Some ?i"
      using True by (simp add: find_char_def find_upt_nth VFS_PATH_SEPARATOR_def)
    show ?thesis
      by (subst split_path_loop.simps) (use less.prems find seg IH names in \<open>auto simp: Let_def\<close>)
  qed
qed

text \<open>
  \<^verbatim>\<open>split_absolute_path\<close> computes the names between the separators: it throws exactly when the path does not start
  with a separator or a name is \<^verbatim>\<open>.\<close>, \<^verbatim>\<open>..\<close> or longer than 56 characters, and otherwise returns the non-empty names in
  order, whatever the number of adjacent or trailing separators.
\<close>

lemma split_absolute_path_correct:
  "split_absolute_path path = (if path \<noteq> [] \<and> hd path = CHR ''/'' \<and> list_all is_valid_path_segment (path_names (tl path))
     then Inr (path_names (tl path)) else Inl Invalid_argument)"
  by (cases path) (auto simp: split_absolute_path_def VFS_PATH_SEPARATOR_def split_path_loop_run list_all_iff)

section \<open>Resolving paths\<close>

primrec resolve :: "file_map \<Rightarrow> inode_number \<Rightarrow> string list \<Rightarrow> exn + inode_number option" where
  "resolve v current [] = Inr (Some current)"
| "resolve v current (c # cs) = sbind (find_entry v current c) (\<lambda>found. case found of None \<Rightarrow> Inr None
     | Some e \<Rightarrow> if cs \<noteq> [] \<and> de_kind e \<noteq> DIRECTORY then Inr None else resolve v (de_inode e) cs)"

primrec resolve_dir :: "file_map \<Rightarrow> inode_number \<Rightarrow> string list \<Rightarrow> exn + inode_number" where
  "resolve_dir v parent [] = Inr parent"
| "resolve_dir v parent (c # cs) = sbind (find_entry v parent c) (\<lambda>found. case found of None \<Rightarrow> Inl Out_of_range
     | Some e \<Rightarrow> if de_kind e \<noteq> DIRECTORY then Inl Invalid_argument else resolve_dir v (de_inode e) cs)"

lemma views_option:
  assumes "views shown op v" and "\<And>x. views shown (f x) (w x)"
  shows "views shown (case y of None \<Rightarrow> op | Some x \<Rightarrow> f x) (\<lambda>m. case y of None \<Rightarrow> v m | Some x \<Rightarrow> w x m)"
  using assms by (cases y) simp_all

lemma fs_viewsD:
  assumes "views (fs_shows fs) op f" and "fs_shows fs v c"
  obtains c' where "op c = (f v, c')" and "fs_shows fs v c'"
  using assms unfolding views_def by blast

lemmas views_rules = views_bnd views_option views_basic views_if

lemma lookup_loop_views: "views (fs_shows fs) (lookup_loop fs current cs) (\<lambda>v. resolve v current cs)"
  by (induction cs arbitrary: current) (auto intro!: views_rules sfs.lookup_law)

lemma resolve_loop_views: "views (fs_shows fs) (resolve_loop fs parent cs) (\<lambda>v. resolve_dir v parent cs)"
  by (induction cs arbitrary: parent) (auto intro!: views_rules sfs.lookup_law)

definition node_of :: "file_map \<Rightarrow> inode_number \<Rightarrow> exn + vfs_node" where
  "node_of v n = (case v n of None \<Rightarrow> Inl Out_of_range
     | Some (k, b) \<Rightarrow> Inr \<lparr>vn_inode = n, vn_kind = k, vn_size_bytes = of_nat (length b)\<rparr>)"

lemma node_from_inode_views: "views (fs_shows fs) (node_from_inode fs n) (\<lambda>v. node_of v n)"
proof -
  have "views (fs_shows fs) (node_from_inode fs n) (\<lambda>v. sbind (node_metadata v n) (\<lambda>metadata.
     Inr \<lparr>vn_inode = im_number metadata, vn_kind = im_kind metadata, vn_size_bytes = im_size_bytes metadata\<rparr>))"
    unfolding node_from_inode_def by (intro views_rules sfs.metadata_law)
  then show ?thesis
    by (rule views_cong) (auto simp: node_metadata_def node_of_def sbind_def split: option.splits)
qed

definition lookup_path :: "inode_number \<Rightarrow> file_map \<Rightarrow> string \<Rightarrow> exn + vfs_node option" where
  "lookup_path root v path = sbind (split_absolute_path path) (\<lambda>cs. sbind (resolve v root cs) (\<lambda>found.
     case found of None \<Rightarrow> Inr None | Some n \<Rightarrow> sbind (node_of v n) (\<lambda>node. Inr (Some node))))"

lemma vfs_lookup_views: "views (fs_shows fs) (vfs_lookup fs path) (\<lambda>v. lookup_path (fs_root_inode fs) v path)"
proof -
  have "views (fs_shows fs) (vfs_lookup fs path) (\<lambda>v. sbind (split_absolute_path path) (\<lambda>cs.
      if cs = [] then sbind (node_of v (fs_root_inode fs)) (\<lambda>node. Inr (Some node))
      else sbind (resolve v (fs_root_inode fs) cs) (\<lambda>found. case found of None \<Rightarrow> Inr None
        | Some n \<Rightarrow> sbind (node_of v n) (\<lambda>node. Inr (Some node)))))"
    unfolding vfs_lookup_def by (intro views_rules node_from_inode_views lookup_loop_views)
  then show ?thesis
    by (rule views_cong) (auto simp: lookup_path_def sbind_def split: sum.splits option.splits)
qed

lemma resolve_parent_views:
  "views (fs_shows fs) (resolve_parent fs path) (\<lambda>v. sbind (split_absolute_path path) (\<lambda>cs.
    if cs = [] then Inl Invalid_argument else sbind (resolve_dir v (fs_root_inode fs) (butlast cs)) (\<lambda>parent. Inr (parent, last cs))))"
  unfolding resolve_parent_def by (intro views_rules resolve_loop_views)

lemma resolve_dir_snoc:
  assumes "resolve_dir v p cs = Inr q"
  shows "resolve v p (cs @ [name]) = sbind (find_entry v q name) (\<lambda>found. Inr (map_option de_inode found))"
  using assms
  by (induction cs arbitrary: p)
     (auto simp: sbind_def split: sum.splits option.splits if_splits)

lemma resolve_mono:
  assumes "\<And>q c e. find_entry v q c = Inr (Some e) \<Longrightarrow> find_entry v' q c = Inr (Some e)"
  shows "resolve_dir v p cs = Inr q \<Longrightarrow> resolve_dir v' p cs = Inr q"
    and "resolve v p cs = Inr (Some n) \<Longrightarrow> resolve v' p cs = Inr (Some n)"
  by (induction cs arbitrary: p) (auto simp: sbind_def assms split: sum.splits option.splits if_splits)

text \<open>
  C37: Creating a node by its path is atomic, and the path then names it. When \<^verbatim>\<open>create_file\<close> or \<^verbatim>\<open>create_directory\<close>
  throws, no file has changed. When it returns a node, the path named nothing before, the node is empty and of the
  requested kind, looking the path up returns this node, and every path that named a node before still names a
  node with the same inode and kind.
\<close>

theorem vfs_create_then_lookup:
  assumes "fs_shows fs v c" and "kind \<noteq> NODE_KIND_COUNT" and "vfs_create kind fs path c = (r, c')"
  shows "case r of Inl _ \<Rightarrow> fs_shows fs v c'
    | Inr node \<Rightarrow> vn_kind node = kind \<and> vn_size_bytes node = 0
        \<and> lookup_path (fs_root_inode fs) v path = Inr None \<and> (\<exists>c''. vfs_lookup fs path c' = (Inr (Some node), c''))
        \<and> (\<exists>v'. fs_shows fs v' c' \<and> (\<forall>other nd. lookup_path (fs_root_inode fs) v other = Inr (Some nd) \<longrightarrow>
              (\<exists>nd'. lookup_path (fs_root_inode fs) v' other = Inr (Some nd') \<and> vn_inode nd' = vn_inode nd \<and> vn_kind nd' = vn_kind nd)))"
proof -
  let ?root = "fs_root_inode fs"
  let ?parent = "sbind (split_absolute_path path) (\<lambda>cs. if cs = [] then Inl Invalid_argument
      else sbind (resolve_dir v ?root (butlast cs)) (\<lambda>parent. Inr (parent, last cs)))"
  obtain c1 where c1: "resolve_parent fs path c = (?parent, c1)" "fs_shows fs v c1"
    by (rule fs_viewsD [OF resolve_parent_views assms(1)])
  show ?thesis
  proof (cases ?parent)
    case (Inl e)
    with assms(3) c1 have "r = Inl e" "c' = c1" by (simp_all add: vfs_create_def op_simps)
    with c1(2) show ?thesis by simp
  next
    case (Inr pl)
    then obtain cs p where cs: "split_absolute_path path = Inr cs" "cs \<noteq> []" and p: "resolve_dir v ?root (butlast cs) = Inr p"
      and pl: "pl = (p, last cs)" by (auto simp: sbind_def split: sum.splits if_splits)
    have run: "vfs_create kind fs path c = bnd (create_node kind fs p (last cs)) (node_from_inode fs) c1"
      using c1(1) Inr pl by (simp add: vfs_create_def op_simps)
    from sfs.create_law [OF c1(2) assms(2), of p "last cs"] obtain rn c2 where
      c2: "create_node kind fs p (last cs) c1 = (rn, c2)" "case rn of Inl _ \<Rightarrow> fs_shows fs v c2
        | Inr n \<Rightarrow> \<exists>v'. node_added v kind p (last cs) n v' \<and> fs_shows fs v' c2" by blast
    show ?thesis
    proof (cases rn)
      case (Inl e)
      with run c2 assms(3) show ?thesis by (simp add: op_simps)
    next
      case (Inr n)
      with c2 obtain v' where v': "node_added v kind p (last cs) n v'" "fs_shows fs v' c2" by auto
      note F = node_added_find [OF v'(1)]
      let ?node = "\<lparr>vn_inode = n, vn_kind = kind, vn_size_bytes = 0\<rparr>"
      have node: "node_of v' n = Inr ?node" using F(4) by (simp add: node_of_def)
      obtain c3 where c3: "node_from_inode fs n c2 = (node_of v' n, c3)" "fs_shows fs v' c3"
        by (rule fs_viewsD [OF node_from_inode_views v'(2)])
      then have rc: "r = Inr ?node" "c' = c3" using run c2(1) Inr assms(3) node by (simp_all add: op_simps)
      have snoc: "cs = butlast cs @ [last cs]" using cs(2) by simp
      have "find_entry v p (last cs) = Inr None" using v'(1) by (simp add: node_added_def)
      then have none: "lookup_path ?root v path = Inr None"
        using resolve_dir_snoc [OF p, of "last cs"] cs snoc by (simp add: lookup_path_def sbind_def)
      have "resolve_dir v' ?root (butlast cs) = Inr p" by (rule resolve_mono(1) [OF F(2) p])
      from resolve_dir_snoc [OF this, of "last cs"] have "lookup_path ?root v' path = Inr (Some ?node)"
        using F(1) cs snoc node by (simp add: lookup_path_def sbind_def)
      moreover obtain c4 where "vfs_lookup fs path c3 = (lookup_path ?root v' path, c4)"
        by (rule fs_viewsD [OF vfs_lookup_views c3(2)])
      ultimately have found: "\<exists>c''. vfs_lookup fs path c3 = (Inr (Some ?node), c'')" by simp
      have "\<exists>nd'. lookup_path ?root v' other = Inr (Some nd') \<and> vn_inode nd' = vn_inode nd \<and> vn_kind nd' = vn_kind nd"
        if "lookup_path ?root v other = Inr (Some nd)" for other nd
      proof -
        from that obtain ds j k b where ds: "split_absolute_path other = Inr ds" "resolve v ?root ds = Inr (Some j)"
          and j: "v j = Some (k, b)" "nd = \<lparr>vn_inode = j, vn_kind = k, vn_size_bytes = of_nat (length b)\<rparr>"
          by (auto simp: lookup_path_def node_of_def sbind_def split: sum.splits option.splits)
        obtain b' where "v' j = Some (k, b')" using F(3) [OF j(1)] by blast
        with resolve_mono(2) [OF F(2) ds(2)] ds(1) j(2) show ?thesis
          by (simp add: lookup_path_def node_of_def sbind_def)
      qed
      with rc none found c3(2) show ?thesis by auto
    qed
  qed
qed

lemma sample_split: "split_absolute_path ''/a'' = Inr [''a'']"
proof -
  have "path_names ''a'' = [''a'']" by (simp add: path_names_def path_segments.simps [of "''a''"])
  then show ?thesis
    by (simp add: split_absolute_path_def VFS_PATH_SEPARATOR_def split_path_loop_run is_valid_path_segment_def fs_constants)
qed

text \<open>Witness: the first file of a fresh file system.\<close>

theorem vfs_create_then_lookup_witness:
  "\<exists>c c' node c''. fs_shows sample_layout_128 [1 \<mapsto> (DIRECTORY, [])] c \<and> vfs_create FILE sample_layout_128 ''/a'' c = (Inr node, c')
    \<and> vfs_lookup sample_layout_128 ''/a'' c' = (Inr (Some node), c'')"
proof -
  let ?fs = sample_layout_128 and ?v = "[1 \<mapsto> (DIRECTORY, [])] :: file_map"
  obtain c where c: "fs_shows ?fs ?v c" "fs_free ?fs c = 5" by (rule sample_mounted)
  have kind: "FILE \<noteq> NODE_KIND_COUNT" by simp
  have root: "fs_root_inode ?fs = 1" by (simp add: sample_layout_128_def)
  have parent: "resolve_parent ?fs ''/a'' c = (Inr (1, ''a''), c)"
    by (simp add: resolve_parent_def op_simps sample_split root)
  obtain n v' c1 where n: "create_node FILE ?fs 1 ''a'' c = (Inr n, c1)" "node_added ?v FILE 1 ''a'' n v'" "fs_shows ?fs v' c1"
    by (cases rule: create_node_spec [OF c(1) kind, where p = 1 and name = "''a''"]) (use sample_create_ok c(2) in auto)
  obtain c2 where "node_from_inode ?fs n c1 = (node_of v' n, c2)" by (rule fs_viewsD [OF node_from_inode_views n(3)])
  then have run: "vfs_create FILE ?fs ''/a'' c = (Inr \<lparr>vn_inode = n, vn_kind = FILE, vn_size_bytes = 0\<rparr>, c2)"
    using parent n(1) node_added_find(4) [OF n(2)] by (simp add: vfs_create_def op_simps node_of_def)
  from vfs_create_then_lookup [OF c(1) kind run] c(1) run show ?thesis by auto
qed

section \<open>Using open files\<close>

text \<open>
  C38: A successful write through an open file advances the offset by the bytes written; seeking back to where the
  write started is then possible, and if the file is readable, reading as many bytes returns what was written and
  leaves the offset where the write left it. A write that throws changes neither the files nor, as the object is
  not assigned, the offset.
\<close>

theorem vfs_file_write_then_read:
  assumes "fs_shows fs v c" and "vf_file_system f = Some fs" and "length src < 2 ^ 64" and "vf_write src f c = (r, c')"
  shows "case r of Inl _ \<Rightarrow> fs_shows fs v c'
    | Inr (k, f') \<Rightarrow> k = length src \<and> vf_offset f' = vf_offset f + of_nat k
        \<and> (\<exists>g c1. vf_seek (vf_offset f) f' c' = (Inr g, c1) \<and> vf_offset g = vf_offset f
            \<and> (vf_readable f \<longrightarrow> (\<exists>h c2. vf_read (length src) g c1 = (Inr (src, h), c2) \<and> vf_offset h = vf_offset f')))"
proof (cases "vf_is_open f \<and> vf_writable f")
  case False
  with assms(1,4) show ?thesis by (auto simp: vf_write_def op_simps split: if_splits)
next
  case True
  let ?n = "vf_inode f" and ?off = "vf_offset f"
  from sfs.write_law [OF assms(1,3), of ?n ?off] obtain w c1 where w: "write_file fs ?n ?off src c = (w, c1)"
    "case w of Inl _ \<Rightarrow> fs_shows fs v c1 | Inr k \<Rightarrow> k = length src \<and> (\<exists>b. v ?n = Some (FILE, b) \<and> unat ?off \<le> length b
       \<and> fs_shows fs (v(?n \<mapsto> (FILE, overwrite (unat ?off) src b))) c1)" by blast
  show ?thesis
  proof (cases w)
    case (Inl e)
    with w assms(2,4) True show ?thesis by (auto simp: vf_write_def op_simps)
  next
    case (Inr k)
    let ?f = "f\<lparr>vf_offset := ?off + of_nat k\<rparr>"
    from w Inr obtain b where k: "k = length src" and b: "unat ?off \<le> length b"
      "fs_shows fs (v(?n \<mapsto> (FILE, overwrite (unat ?off) src b))) c1" by auto
    let ?b = "overwrite (unat ?off) src b" and ?v = "v(?n \<mapsto> (FILE, overwrite (unat ?off) src b))"
    have rc: "r = Inr (k, ?f)" "c' = c1" using w(1) Inr assms(2,4) True by (simp_all add: vf_write_def op_simps)
    have "length ?b < 2 ^ 64" using sfs.shown_size [OF b(2), of ?n FILE ?b] by simp
    then have "unat (of_nat (length ?b) :: qword) = length ?b"
      by (simp add: unsigned_of_nat take_bit_nat_eq_self del: length_overwrite)
    moreover have "unat ?off \<le> length ?b" using b(1) by (simp add: overwrite_def)
    ultimately have size: "?off \<le> of_nat (length ?b)" by (simp add: word_le_nat_alt del: of_nat_add)
    obtain c2 where c2: "fs_metadata fs ?n c1 = (node_metadata ?v ?n, c2)" "fs_shows fs ?v c2"
      by (rule fs_viewsD [OF sfs.metadata_law b(2)])
    obtain c3 where c3: "read_file fs ?n ?off (length src) c2 = (sbind (file_content ?v ?n) (\<lambda>b. Inr (subspan (unat ?off) (length src) b)), c3)"
      by (rule fs_viewsD [OF sfs.read_law c2(2)])
    have "subspan (unat ?off) (length src) ?b = src" using b(1) by (simp add: subspan_def overwrite_def)
    then have read: "read_file fs ?n ?off (length src) c2 = (Inr src, c3)"
      using c3 by (simp add: file_content_def node_error_def sbind_def)
    have "vf_seek ?off ?f c1 = (Inr f, c2)"
      using c2(1) True assms(2) size
      by (simp add: vf_seek_def vf_size_bytes_def vf_is_open_def op_simps node_metadata_def not_less)
    moreover have "vf_read (length src) f c2 = (Inr (src, ?f), c3)" if "vf_readable f"
      using read that True assms(2) k by (simp add: vf_read_def op_simps)
    ultimately show ?thesis using rc k by auto
  qed
qed

text \<open>Witness: three bytes through an open file of the sample file system.\<close>

theorem vfs_file_write_then_read_witness:
  "\<exists>rec c c' f f' g h c1 c2. fs_shows sample_layout_128 [2 \<mapsto> (FILE, []), 1 \<mapsto> (DIRECTORY, rec)] c
    \<and> f = VfsFile sample_layout_128 2 READ_WRITE \<and> vf_write [1, 2, 3] f c = (Inr (3, f'), c')
    \<and> vf_seek 0 f' c' = (Inr g, c1) \<and> vf_read (length [1, 2, 3 :: byte]) g c1 = (Inr ([1, 2, 3], h), c2)"
proof -
  let ?fs = sample_layout_128
  let ?f = "VfsFile ?fs 2 READ_WRITE"
  obtain rec c where c: "fs_shows ?fs [2 \<mapsto> (FILE, []), 1 \<mapsto> (DIRECTORY, rec)] c" "fs_free ?fs c = 4"
    by (rule sample_file)
  have "write_outcome ?fs 4 [2 \<mapsto> (FILE, []), 1 \<mapsto> (DIRECTORY, rec)] 2 0 [1, 2, 3] = Inr [1, 2, 3]"
    by (simp add: write_outcome_def file_content_def node_error_def sbind_def write_error_def Let_def sample_layout_128_def
        blocks_for_def overwrite_def)
  with write_file_spec [OF c(1), of "[1, 2, 3]" 2 0] c(2) obtain c' where "write_file ?fs 2 0 [1, 2, 3] c = (Inr 3, c')"
    by (auto simp: sbind_def numeral_3_eq_3)
  then have run: "vf_write [1, 2, 3] ?f c = (Inr (3, ?f\<lparr>vf_offset := 3\<rparr>), c')"
    by (simp add: vf_write_def VfsFile_def vf_is_open_def vf_writable_def is_valid_inode_def fs_constants op_simps)
  have "vf_file_system ?f = Some ?fs" by (simp add: VfsFile_def)
  moreover have "vf_readable ?f" "vf_offset ?f = 0" by (simp_all add: VfsFile_def vf_readable_def)
  ultimately have "\<exists>g c1. vf_seek 0 (?f\<lparr>vf_offset := 3\<rparr>) c' = (Inr g, c1)
      \<and> (\<exists>h c2. vf_read (length [1, 2, 3 :: byte]) g c1 = (Inr ([1, 2, 3], h), c2))"
    using vfs_file_write_then_read [OF c(1) _ _ run] by auto
  with c(1) run show ?thesis by blast
qed

end
