(* ===== verification/FileDesc.thy ===== *)
theory FileDesc
  imports Vfs
begin

text \<open>
  File descriptors of \<^verbatim>\<open>os/io/file_descriptor.cpp\<close>. The entries of a table hold shared pointers to open file
  descriptions, and copying a table (as fork does) copies the pointers. The descriptions therefore live in a store
  of their own, a list that only grows; a pointer is an index of it, and a description that no table refers to any
  more is just unreachable.
\<close>

section \<open>Data\<close>

definition FILE_DESCRIPTOR_INVALID_VALUE :: int where "FILE_DESCRIPTOR_INVALID_VALUE = -1"
definition FILE_DESCRIPTOR_STDIN_VALUE :: int where "FILE_DESCRIPTOR_STDIN_VALUE = 0"
definition FILE_DESCRIPTOR_STDOUT_VALUE :: int where "FILE_DESCRIPTOR_STDOUT_VALUE = 1"
definition FILE_DESCRIPTOR_STDERR_VALUE :: int where "FILE_DESCRIPTOR_STDERR_VALUE = 2"

lemmas descriptor_values = FILE_DESCRIPTOR_INVALID_VALUE_def FILE_DESCRIPTOR_STDIN_VALUE_def
  FILE_DESCRIPTOR_STDOUT_VALUE_def FILE_DESCRIPTOR_STDERR_VALUE_def

text \<open>The largest \<^verbatim>\<open>std::int32_t\<close>.\<close>

definition DESCRIPTOR_LIMIT :: nat where "DESCRIPTOR_LIMIT = 2147483647"

datatype file_device_kind = TTY | VFS_FILE | DEVICE_KIND_COUNT

datatype file_access_mode = FILE_READ_ONLY | FILE_WRITE_ONLY | FILE_READ_WRITE | ACCESS_MODE_COUNT

datatype io_result = Io_ready nat | Io_blocked | Bad_descriptor | Bad_address | Io_invalid_argument | No_space

type_synonym file_descriptor = int

definition is_standard_stream :: "file_descriptor \<Rightarrow> bool" where
  "is_standard_stream d \<longleftrightarrow> FILE_DESCRIPTOR_STDIN_VALUE \<le> d \<and> d \<le> FILE_DESCRIPTOR_STDERR_VALUE"

record open_file_description =
  of_device_kind :: file_device_kind
  of_access_mode :: file_access_mode
  of_vfs_file :: "vfs_file option"

type_synonym descriptions = "open_file_description list"

record descriptor_entry =
  fe_descriptor :: file_descriptor
  fe_description :: "nat option"

type_synonym descriptor_table = "descriptor_entry list"

section \<open>Open file descriptions\<close>

definition access_mode_from_vfs_mode :: "vfs_open_mode \<Rightarrow> file_access_mode" where
  "access_mode_from_vfs_mode mode = (case mode of READ_ONLY \<Rightarrow> FILE_READ_ONLY | WRITE_ONLY \<Rightarrow> FILE_WRITE_ONLY
     | READ_WRITE \<Rightarrow> FILE_READ_WRITE | OPEN_MODE_COUNT \<Rightarrow> ACCESS_MODE_COUNT)"

definition tty_description :: "file_access_mode \<Rightarrow> open_file_description" where
  "tty_description access_mode = \<lparr>of_device_kind = TTY, of_access_mode = access_mode, of_vfs_file = None\<rparr>"

definition vfs_file_description :: "vfs_file \<Rightarrow> open_file_description" where
  "vfs_file_description file = \<lparr>of_device_kind = VFS_FILE, of_access_mode = access_mode_from_vfs_mode (vf_mode file),
     of_vfs_file = Some file\<rparr>"

definition of_readable :: "open_file_description \<Rightarrow> bool" where
  "of_readable d \<longleftrightarrow> of_access_mode d = FILE_READ_ONLY \<or> of_access_mode d = FILE_READ_WRITE"

definition of_writable :: "open_file_description \<Rightarrow> bool" where
  "of_writable d \<longleftrightarrow> of_access_mode d = FILE_WRITE_ONLY \<or> of_access_mode d = FILE_READ_WRITE"

definition description_vfs_file :: "open_file_description \<Rightarrow> exn + vfs_file" where
  "description_vfs_file d = (case of_vfs_file d of None \<Rightarrow> Inl Logic_error | Some f \<Rightarrow> Inr f)"

section \<open>Entries\<close>

definition entry_device_kind :: "descriptions \<Rightarrow> descriptor_entry \<Rightarrow> file_device_kind" where
  "entry_device_kind ds e = (case fe_description e of None \<Rightarrow> DEVICE_KIND_COUNT | Some i \<Rightarrow> of_device_kind (ds ! i))"

definition entry_access_mode :: "descriptions \<Rightarrow> descriptor_entry \<Rightarrow> file_access_mode" where
  "entry_access_mode ds e = (case fe_description e of None \<Rightarrow> ACCESS_MODE_COUNT | Some i \<Rightarrow> of_access_mode (ds ! i))"

definition entry_readable :: "descriptions \<Rightarrow> descriptor_entry \<Rightarrow> bool" where
  "entry_readable ds e \<longleftrightarrow> (case fe_description e of None \<Rightarrow> False | Some i \<Rightarrow> of_readable (ds ! i))"

definition entry_writable :: "descriptions \<Rightarrow> descriptor_entry \<Rightarrow> bool" where
  "entry_writable ds e \<longleftrightarrow> (case fe_description e of None \<Rightarrow> False | Some i \<Rightarrow> of_writable (ds ! i))"

definition entry_description :: "descriptor_entry \<Rightarrow> exn + nat" where
  "entry_description e = (case fe_description e of None \<Rightarrow> Inl Logic_error | Some i \<Rightarrow> Inr i)"

definition make_shared_description :: "open_file_description \<Rightarrow> (descriptions \<times> descriptor_table, nat) op" where
  "make_shared_description d = (\<lambda>(ds, t). (Inr (length ds), (ds @ [d], t)))"

definition emplace_tty ::
  "file_descriptor \<Rightarrow> file_device_kind \<Rightarrow> file_access_mode \<Rightarrow> (descriptions \<times> descriptor_table, unit) op" where
  "emplace_tty descriptor device_kind access_mode =
    (if device_kind \<noteq> TTY then throw Invalid_argument
     else bnd (make_shared_description (tty_description access_mode)) (\<lambda>i.
       modify (\<lambda>(ds, t). (ds, t @ [\<lparr>fe_descriptor = descriptor, fe_description = Some i\<rparr>]))))"

section \<open>Tables\<close>

definition FileDescriptorTable :: "descriptions \<Rightarrow> (exn + unit) \<times> descriptions \<times> descriptor_table" where
  "FileDescriptorTable ds =
    sq (emplace_tty FILE_DESCRIPTOR_STDIN_VALUE TTY FILE_READ_ONLY)
   (sq (emplace_tty FILE_DESCRIPTOR_STDOUT_VALUE TTY FILE_WRITE_ONLY)
       (emplace_tty FILE_DESCRIPTOR_STDERR_VALUE TTY FILE_WRITE_ONLY)) (ds, [])"

primrec find_descriptor :: "file_descriptor \<Rightarrow> descriptor_table \<Rightarrow> descriptor_entry option" where
  "find_descriptor d [] = None"
| "find_descriptor d (e # es) = (if fe_descriptor e = d then Some e else find_descriptor d es)"

definition table_contains :: "file_descriptor \<Rightarrow> descriptor_table \<Rightarrow> bool" where
  "table_contains d t \<longleftrightarrow> find_descriptor d t \<noteq> None"

definition table_readable :: "descriptions \<Rightarrow> file_descriptor \<Rightarrow> descriptor_table \<Rightarrow> bool" where
  "table_readable ds d t \<longleftrightarrow> (case find_descriptor d t of None \<Rightarrow> False | Some e \<Rightarrow> entry_readable ds e)"

definition table_writable :: "descriptions \<Rightarrow> file_descriptor \<Rightarrow> descriptor_table \<Rightarrow> bool" where
  "table_writable ds d t \<longleftrightarrow> (case find_descriptor d t of None \<Rightarrow> False | Some e \<Rightarrow> entry_writable ds e)"

function next_descriptor_loop :: "descriptor_table \<Rightarrow> nat \<Rightarrow> exn + file_descriptor" where
  "next_descriptor_loop t v =
    (if v < DESCRIPTOR_LIMIT
     then if \<not> table_contains (int v) t then Inr (int v) else next_descriptor_loop t (v + 1)
     else Inl Length_error)"
  by pat_completeness auto

termination next_descriptor_loop
  by (relation "measure (\<lambda>(t, v). DESCRIPTOR_LIMIT - v)") auto

declare next_descriptor_loop.simps [simp del]

definition next_available_descriptor :: "descriptor_table \<Rightarrow> exn + file_descriptor" where
  "next_available_descriptor t = next_descriptor_loop t (nat FILE_DESCRIPTOR_STDIN_VALUE)"

definition table_open_vfs_file :: "vfs_file \<Rightarrow> (descriptions \<times> descriptor_table, file_descriptor) op" where
  "table_open_vfs_file file =
    bnd (\<lambda>(ds, t). (next_available_descriptor t, (ds, t))) (\<lambda>descriptor.
    bnd (make_shared_description (vfs_file_description file)) (\<lambda>i.
    sq (modify (\<lambda>(ds, t). (ds, t @ [\<lparr>fe_descriptor = descriptor, fe_description = Some i\<rparr>])))
    (ret descriptor)))"

primrec table_close :: "file_descriptor \<Rightarrow> descriptor_table \<Rightarrow> bool \<times> descriptor_table" where
  "table_close d [] = (False, [])"
| "table_close d (e # es) = (if fe_descriptor e = d then (True, es)
     else case table_close d es of (closed, es) \<Rightarrow> (closed, e # es))"

definition file_descriptor_from_raw :: "qword \<Rightarrow> file_descriptor" where
  "file_descriptor_from_raw raw_value =
    (if unat raw_value > DESCRIPTOR_LIMIT then FILE_DESCRIPTOR_INVALID_VALUE else int (unat raw_value))"

section \<open>What tables do\<close>

text \<open>
  A table is a map from descriptors to shared descriptions. A table is well formed when no descriptor occurs twice, all
  are non-negative and every entry points into the store.
\<close>

definition table_ok :: "descriptions \<Rightarrow> descriptor_table \<Rightarrow> bool" where
  "table_ok ds t \<longleftrightarrow> distinct (map fe_descriptor t)
     \<and> (\<forall>e \<in> set t. 0 \<le> fe_descriptor e \<and> (\<exists>i < length ds. fe_description e = Some i))"

definition table_map :: "descriptor_table \<Rightarrow> file_descriptor \<rightharpoonup> nat" where
  "table_map t d = (case find_descriptor d t of None \<Rightarrow> None | Some e \<Rightarrow> fe_description e)"

lemma find_descriptor_Some: "find_descriptor d t = Some e \<Longrightarrow> e \<in> set t \<and> fe_descriptor e = d"
  by (induction t) (auto split: if_splits)

lemma find_descriptor_None: "find_descriptor d t = None \<longleftrightarrow> d \<notin> fe_descriptor ` set t"
  by (induction t) auto

lemma find_descriptor_append:
  "find_descriptor d (t @ [e]) = (case find_descriptor d t of None \<Rightarrow> if fe_descriptor e = d then Some e else None | Some x \<Rightarrow> Some x)"
  by (induction t) auto

lemma table_contains_iff: "table_contains d t \<longleftrightarrow> d \<in> fe_descriptor ` set t"
  using find_descriptor_None [of d t] by (auto simp: table_contains_def)

lemma table_ok_map:
  assumes "table_ok ds t"
  shows "table_contains d t \<longleftrightarrow> table_map t d \<noteq> None" and "table_map t d = Some i \<Longrightarrow> i < length ds"
  using assms find_descriptor_Some [of d t]
  by (force simp: table_contains_def table_map_def table_ok_def split: option.splits)+

lemma next_descriptor_loop_spec:
  assumes "\<forall>u < v. table_contains (int u) t"
  shows "case next_descriptor_loop t v of
      Inl e \<Rightarrow> e = Length_error \<and> (\<forall>u < DESCRIPTOR_LIMIT. table_contains (int u) t)
    | Inr d \<Rightarrow> 0 \<le> d \<and> d < int DESCRIPTOR_LIMIT \<and> \<not> table_contains d t \<and> (\<forall>u. 0 \<le> u \<longrightarrow> u < d \<longrightarrow> table_contains u t)"
  using assms
proof (induction t v rule: next_descriptor_loop.induct)
  case (1 t v)
  show ?case
  proof (cases "v < DESCRIPTOR_LIMIT \<and> table_contains (int v) t")
    case True
    with 1 have "\<forall>u < v + 1. table_contains (int u) t" by (auto simp: less_Suc_eq)
    with 1(1) True have "case next_descriptor_loop t (v + 1) of
      Inl e \<Rightarrow> e = Length_error \<and> (\<forall>u < DESCRIPTOR_LIMIT. table_contains (int u) t)
    | Inr d \<Rightarrow> 0 \<le> d \<and> d < int DESCRIPTOR_LIMIT \<and> \<not> table_contains d t \<and> (\<forall>u. 0 \<le> u \<longrightarrow> u < d \<longrightarrow> table_contains u t)"
      by blast
    moreover have "next_descriptor_loop t v = next_descriptor_loop t (v + 1)"
      using True by (simp add: next_descriptor_loop.simps [of t v])
    ultimately show ?thesis by simp
  next
    case False
    have low: "table_contains u t" if "0 \<le> u" "u < int v" for u
    proof -
      have "nat u < v" using that by linarith
      with 1(2) have "table_contains (int (nat u)) t" by blast
      with that show ?thesis by simp
    qed
    show ?thesis
    proof (cases "v < DESCRIPTOR_LIMIT")
      case True
      with False have "next_descriptor_loop t v = Inr (int v)" by (simp add: next_descriptor_loop.simps [of t v])
      with True False low show ?thesis by simp
    next
      case False
      then have "next_descriptor_loop t v = Inl Length_error" by (simp add: next_descriptor_loop.simps [of t v])
      with False 1(2) show ?thesis by auto
    qed
  qed
qed

text \<open>A table with fewer entries than descriptors has a free one.\<close>

lemma next_available_descriptor_spec:
  "case next_available_descriptor t of
      Inl e \<Rightarrow> e = Length_error \<and> DESCRIPTOR_LIMIT \<le> length t
    | Inr d \<Rightarrow> 0 \<le> d \<and> d < int DESCRIPTOR_LIMIT \<and> \<not> table_contains d t \<and> (\<forall>u. 0 \<le> u \<longrightarrow> u < d \<longrightarrow> table_contains u t)"
proof -
  have "DESCRIPTOR_LIMIT \<le> length t" if "\<forall>u < DESCRIPTOR_LIMIT. table_contains (int u) t"
  proof -
    have "int ` {..<DESCRIPTOR_LIMIT} \<subseteq> fe_descriptor ` set t" using that by (auto simp: table_contains_iff)
    then have "card (int ` {..<DESCRIPTOR_LIMIT}) \<le> card (fe_descriptor ` set t)" by (intro card_mono) auto
    also have "\<dots> \<le> length t" using card_image_le [of "set t" fe_descriptor] card_length [of t] by simp
    finally show ?thesis by (simp add: card_image)
  qed
  with next_descriptor_loop_spec [of 0 t] show ?thesis
    by (auto simp: next_available_descriptor_def descriptor_values split: sum.splits)
qed

lemma table_close_spec:
  assumes "table_ok ds t" and "table_close d t = (b, t')"
  shows "table_ok ds t'" and "b = table_contains d t" and "table_map t' = (table_map t)(d := None)"
proof -
  have *: "b = table_contains d t \<and> t' = filter (\<lambda>e. fe_descriptor e \<noteq> d) t"
    if "distinct (map fe_descriptor t)" "table_close d t = (b, t')" for t t' b
    using that
  proof (induction t arbitrary: t' b)
    case (Cons e es)
    then show ?case
      by (cases "table_close d es") (auto simp: table_contains_def intro!: filter_True [symmetric], metis image_eqI)
  qed (simp add: table_contains_def)
  from * [OF _ assms(2)] assms(1) have t': "b = table_contains d t" "t' = filter (\<lambda>e. fe_descriptor e \<noteq> d) t"
    by (auto simp: table_ok_def)
  then show "b = table_contains d t" by simp
  show "table_ok ds t'" using assms(1) t' by (auto simp: table_ok_def distinct_map_filter)
  have "find_descriptor d' (filter (\<lambda>e. fe_descriptor e \<noteq> d) t) = (if d' = d then None else find_descriptor d' t)" for d'
    by (induction t) auto
  then show "table_map t' = (table_map t)(d := None)" unfolding t'(2) by (auto simp: table_map_def fun_eq_iff)
qed

lemma table_open_spec:
  assumes "table_ok ds t" and "length t < DESCRIPTOR_LIMIT"
  obtains d t' where "table_open_vfs_file f (ds, t) = (Inr d, (ds @ [vfs_file_description f], t'))"
    and "table_ok (ds @ [vfs_file_description f]) t'" and "table_map t' = (table_map t)(d \<mapsto> length ds)"
    and "table_map t d = None" and "0 \<le> d" and "\<forall>u. 0 \<le> u \<longrightarrow> u < d \<longrightarrow> table_map t u \<noteq> None"
proof -
  from next_available_descriptor_spec [of t] assms(2) obtain d where d: "next_available_descriptor t = Inr d"
    "0 \<le> d" "\<not> table_contains d t" "\<forall>u. 0 \<le> u \<longrightarrow> u < d \<longrightarrow> table_contains u t"
    by (auto split: sum.splits)
  let ?e = "\<lparr>fe_descriptor = d, fe_description = Some (length ds)\<rparr>"
  show thesis
  proof (rule that)
    show "table_open_vfs_file f (ds, t) = (Inr d, (ds @ [vfs_file_description f], t @ [?e]))"
      using d(1) by (simp add: table_open_vfs_file_def op_simps make_shared_description_def)
    show "table_ok (ds @ [vfs_file_description f]) (t @ [?e])"
      using assms(1) d(2,3) by (fastforce simp: table_ok_def table_contains_iff)
    show "table_map (t @ [?e]) = (table_map t)(d \<mapsto> length ds)"
      using d(3) by (auto simp: table_map_def find_descriptor_append table_contains_def fun_eq_iff split: option.splits)
    show "table_map t d = None" "0 \<le> d" "\<forall>u. 0 \<le> u \<longrightarrow> u < d \<longrightarrow> table_map t u \<noteq> None"
      using d table_ok_map(1) [OF assms(1)] by auto
  qed
qed

lemma new_table_ok:
  "FileDescriptorTable ds = (Inr (), r) \<Longrightarrow> table_ok (fst r) (snd r)"
  by (auto simp: FileDescriptorTable_def emplace_tty_def make_shared_description_def op_simps table_ok_def descriptor_values)

end
