(* ===== verification/Terminal.thy ===== *)
theory Terminal
  imports BlockDev
begin

text \<open>
  The terminal device of \<^verbatim>\<open>os/dev/terminal.cpp\<close>: a text display of fixed geometry with a cursor and scrolling, a
  bounded keyboard queue, and the stream of everything written. Sizes are \<^verbatim>\<open>std::size_t\<close>; they are natural numbers
  here, with the overflow check of the constructor written out.
\<close>

section \<open>Data\<close>

definition TERMINAL_DEFAULT_COLUMN_COUNT :: nat where "TERMINAL_DEFAULT_COLUMN_COUNT = 80"
definition TERMINAL_DEFAULT_ROW_COUNT :: nat where "TERMINAL_DEFAULT_ROW_COUNT = 25"
definition TERMINAL_BLANK_CHARACTER :: char where "TERMINAL_BLANK_CHARACTER = CHR '' ''"
definition TERMINAL_DEFAULT_ATTRIBUTE :: byte where "TERMINAL_DEFAULT_ATTRIBUTE = 0x07"
definition TERMINAL_BACKSPACE_CHARACTER :: char where "TERMINAL_BACKSPACE_CHARACTER = CHR 0x08"
definition TERMINAL_DELETE_CHARACTER :: char where "TERMINAL_DELETE_CHARACTER = CHR 0x7F"
definition TERMINAL_NEWLINE_CHARACTER :: char where "TERMINAL_NEWLINE_CHARACTER = CHR 0x0A"
definition TERMINAL_CARRIAGE_RETURN_CHARACTER :: char where "TERMINAL_CARRIAGE_RETURN_CHARACTER = CHR 0x0D"
definition TERMINAL_CLEAR_SCREEN_CHARACTER :: char where "TERMINAL_CLEAR_SCREEN_CHARACTER = CHR 0x0C"

lemmas terminal_constants = TERMINAL_BLANK_CHARACTER_def TERMINAL_DEFAULT_ATTRIBUTE_def TERMINAL_BACKSPACE_CHARACTER_def
  TERMINAL_DELETE_CHARACTER_def TERMINAL_NEWLINE_CHARACTER_def TERMINAL_CARRIAGE_RETURN_CHARACTER_def
  TERMINAL_CLEAR_SCREEN_CHARACTER_def

record text_cell =
  tc_character :: char
  tc_attribute :: byte

definition blank_cell :: text_cell where
  "blank_cell = \<lparr>tc_character = TERMINAL_BLANK_CHARACTER, tc_attribute = TERMINAL_DEFAULT_ATTRIBUTE\<rparr>"

record text_display =
  td_columns :: nat
  td_rows :: nat
  td_cursor_column :: nat
  td_cursor_row :: nat
  td_scroll_count :: qword
  td_cells :: "text_cell list"

definition checked_text_display_cell_count :: "nat \<Rightarrow> nat \<Rightarrow> exn + nat" where
  "checked_text_display_cell_count column_count row_count =
    (if column_count = 0 \<or> row_count = 0 then Inl Invalid_argument
     else if column_count > (2 ^ 64 - 1) div row_count then Inl Overflow_error
     else Inr (column_count * row_count))"

definition TextDisplayBuffer :: "nat \<Rightarrow> nat \<Rightarrow> exn + text_display" where
  "TextDisplayBuffer column_count row_count =
    sbind (checked_text_display_cell_count column_count row_count) (\<lambda>cell_count.
    Inr \<lparr>td_columns = column_count, td_rows = row_count, td_cursor_column = 0, td_cursor_row = 0,
      td_scroll_count = 0, td_cells = replicate cell_count blank_cell\<rparr>)"

definition td_empty :: "text_display \<Rightarrow> bool" where
  "td_empty d \<longleftrightarrow> list_all (\<lambda>c. tc_character c = TERMINAL_BLANK_CHARACTER) (td_cells d)"

section \<open>The display\<close>

definition cell_index :: "nat \<Rightarrow> nat \<Rightarrow> (text_display, nat) op" where
  "cell_index column row = (\<lambda>d.
    (if column \<ge> td_columns d \<or> row \<ge> td_rows d then Inl Out_of_range
     else Inr (row * td_columns d + column), d))"

definition cell_at :: "nat \<Rightarrow> nat \<Rightarrow> (text_display, text_cell) op" where
  "cell_at column row = bnd (cell_index column row) (\<lambda>i. gets (\<lambda>d. td_cells d ! i))"

definition set_cell :: "nat \<Rightarrow> nat \<Rightarrow> text_cell \<Rightarrow> (text_display, unit) op" where
  "set_cell column row c = bnd (cell_index column row) (\<lambda>i. modify (\<lambda>d. d\<lparr>td_cells := (td_cells d)[i := c]\<rparr>))"

primrec line_loop :: "nat \<Rightarrow> nat list \<Rightarrow> (text_display, string) op" where
  "line_loop row [] = ret []"
| "line_loop row (column # columns) =
    bnd (cell_at column row) (\<lambda>c. bnd (line_loop row columns) (\<lambda>text. ret (tc_character c # text)))"

definition td_line :: "nat \<Rightarrow> (text_display, string) op" where
  "td_line row = (\<lambda>d. if row \<ge> td_rows d then (Inl Out_of_range, d) else line_loop row [0..<td_columns d] d)"

primrec lines_loop :: "nat list \<Rightarrow> (text_display, string list) op" where
  "lines_loop [] = ret []"
| "lines_loop (row # rows) = bnd (td_line row) (\<lambda>text. bnd (lines_loop rows) (\<lambda>rest. ret (text # rest)))"

definition td_lines :: "(text_display, string list) op" where
  "td_lines = bnd (gets td_rows) (\<lambda>n. lines_loop [0..<n])"

primrec render_loop :: "nat list \<Rightarrow> string \<Rightarrow> (text_display, string) op" where
  "render_loop [] text = ret text"
| "render_loop (row # rows) text =
    bnd (td_line row) (\<lambda>line.
    render_loop rows ((if row > 0 then text @ [TERMINAL_NEWLINE_CHARACTER] else text) @ line))"

definition render_text :: "(text_display, string) op" where
  "render_text = bnd (gets td_rows) (\<lambda>n. render_loop [0..<n] [])"

definition td_clear :: "text_display \<Rightarrow> text_display" where
  "td_clear d = d\<lparr>td_cells := map (\<lambda>_. blank_cell) (td_cells d), td_cursor_column := 0, td_cursor_row := 0\<rparr>"

definition clear_row :: "nat \<Rightarrow> (text_display, unit) op" where
  "clear_row row = bnd (gets td_columns) (\<lambda>n. for_each (\<lambda>column. set_cell column row blank_cell) [0..<n])"

definition copy_cell_up :: "nat \<Rightarrow> nat \<Rightarrow> (text_display, unit) op" where
  "copy_cell_up row column =
    bnd (cell_index column row) (\<lambda>i. bnd (cell_index column (row - 1)) (\<lambda>j.
    modify (\<lambda>d. d\<lparr>td_cells := (td_cells d)[j := td_cells d ! i]\<rparr>)))"

definition scroll_up :: "(text_display, unit) op" where
  "scroll_up =
    bnd (gets td_rows) (\<lambda>rows. bnd (gets td_columns) (\<lambda>columns.
    if rows \<le> 1
    then sq (clear_row 0)
      (modify (\<lambda>d. d\<lparr>td_cursor_row := 0, td_cursor_column := 0, td_scroll_count := td_scroll_count d + 1\<rparr>))
    else
      sq (for_each (\<lambda>row. for_each (copy_cell_up row) [0..<columns]) [1..<rows])
     (sq (clear_row (rows - 1))
      (modify (\<lambda>d. d\<lparr>td_cursor_row := rows - 1, td_cursor_column := 0, td_scroll_count := td_scroll_count d + 1\<rparr>)))))"

definition td_newline :: "(text_display, unit) op" where
  "td_newline =
    sq (modify (\<lambda>d. d\<lparr>td_cursor_column := 0, td_cursor_row := td_cursor_row d + 1\<rparr>))
    (\<lambda>d. if td_cursor_row d \<ge> td_rows d then scroll_up d else ret () d)"

definition carriage_return :: "(text_display, unit) op" where
  "carriage_return = modify (\<lambda>d. d\<lparr>td_cursor_column := 0\<rparr>)"

definition advance_cursor_after_put :: "(text_display, unit) op" where
  "advance_cursor_after_put =
    sq (modify (\<lambda>d. d\<lparr>td_cursor_column := td_cursor_column d + 1\<rparr>))
    (\<lambda>d. if td_cursor_column d \<ge> td_columns d then td_newline d else ret () d)"

definition put_printable :: "char \<Rightarrow> (text_display, unit) op" where
  "put_printable character =
    sq (\<lambda>d. set_cell (td_cursor_column d) (td_cursor_row d)
          \<lparr>tc_character = character, tc_attribute = TERMINAL_DEFAULT_ATTRIBUTE\<rparr> d)
    advance_cursor_after_put"

definition erase_previous_cell :: "(text_display, unit) op" where
  "erase_previous_cell = (\<lambda>d.
    if td_cursor_column d = 0 \<and> td_cursor_row d = 0 then ret () d
    else
      sq (modify (\<lambda>d. if td_cursor_column d = 0
              then d\<lparr>td_cursor_row := td_cursor_row d - 1, td_cursor_column := td_columns d - 1\<rparr>
              else d\<lparr>td_cursor_column := td_cursor_column d - 1\<rparr>))
      (\<lambda>d. set_cell (td_cursor_column d) (td_cursor_row d) blank_cell d) d)"

definition write_char :: "char \<Rightarrow> (text_display, unit) op" where
  "write_char character =
    (if character = TERMINAL_NEWLINE_CHARACTER then td_newline
     else if character = TERMINAL_CARRIAGE_RETURN_CHARACTER then carriage_return
     else if character = TERMINAL_BACKSPACE_CHARACTER \<or> character = TERMINAL_DELETE_CHARACTER then erase_previous_cell
     else put_printable character)"

definition write_string :: "string \<Rightarrow> (text_display, unit) op" where
  "write_string text = for_each write_char text"

definition set_cursor :: "nat \<Rightarrow> nat \<Rightarrow> (text_display, unit) op" where
  "set_cursor column row = (\<lambda>d.
    if column \<ge> td_columns d \<or> row \<ge> td_rows d then (Inl Out_of_range, d)
    else (Inr (), d\<lparr>td_cursor_column := column, td_cursor_row := row\<rparr>))"

section \<open>The keyboard queue\<close>

definition TERMINAL_UNBOUNDED_KEYBOARD_CAPACITY :: nat where "TERMINAL_UNBOUNDED_KEYBOARD_CAPACITY = 0"

definition is_enter :: "char \<Rightarrow> bool" where
  "is_enter c \<longleftrightarrow> c = TERMINAL_NEWLINE_CHARACTER \<or> c = TERMINAL_CARRIAGE_RETURN_CHARACTER"

definition is_backspace :: "char \<Rightarrow> bool" where
  "is_backspace c \<longleftrightarrow> c = TERMINAL_BACKSPACE_CHARACTER \<or> c = TERMINAL_DELETE_CHARACTER"

definition is_printable_ascii :: "char \<Rightarrow> bool" where
  "is_printable_ascii c \<longleftrightarrow> (32 :: nat) \<le> of_char c \<and> of_char c \<le> (126 :: nat)"

record keyboard_queue =
  kq_capacity :: nat
  kq_events :: "char list"

definition kq_has_capacity :: "keyboard_queue \<Rightarrow> bool" where
  "kq_has_capacity q \<longleftrightarrow> kq_capacity q = TERMINAL_UNBOUNDED_KEYBOARD_CAPACITY \<or> length (kq_events q) < kq_capacity q"

text \<open>\<^verbatim>\<open>set_capacity\<close> drops the oldest events until the rest fit.\<close>

fun kq_trim :: "nat \<Rightarrow> char list \<Rightarrow> char list" where
  "kq_trim capacity [] = []"
| "kq_trim capacity (e # events) =
    (if capacity \<noteq> TERMINAL_UNBOUNDED_KEYBOARD_CAPACITY \<and> length (e # events) > capacity
     then kq_trim capacity events else e # events)"

definition kq_set_capacity :: "nat \<Rightarrow> keyboard_queue \<Rightarrow> keyboard_queue" where
  "kq_set_capacity capacity q = \<lparr>kq_capacity = capacity, kq_events = kq_trim capacity (kq_events q)\<rparr>"

definition kq_push :: "char \<Rightarrow> keyboard_queue \<Rightarrow> bool \<times> keyboard_queue" where
  "kq_push event q =
    (if \<not> kq_has_capacity q then (False, q) else (True, q\<lparr>kq_events := kq_events q @ [event]\<rparr>))"

definition kq_pop :: "keyboard_queue \<Rightarrow> char option \<times> keyboard_queue" where
  "kq_pop q = (case kq_events q of [] \<Rightarrow> (None, q) | e # events \<Rightarrow> (Some e, q\<lparr>kq_events := events\<rparr>))"

function kq_drain :: "keyboard_queue \<Rightarrow> char list \<times> keyboard_queue" where
  "kq_drain q = (case kq_pop q of (None, q) \<Rightarrow> ([], q)
     | (Some e, q) \<Rightarrow> (case kq_drain q of (es, q) \<Rightarrow> (e # es, q)))"
  by pat_completeness auto

termination kq_drain
  by (relation "measure (\<lambda>q. length (kq_events q))") (auto simp: kq_pop_def split: list.splits)

declare kq_drain.simps [simp del]

definition kq_clear :: "keyboard_queue \<Rightarrow> keyboard_queue" where
  "kq_clear q = q\<lparr>kq_events := []\<rparr>"

section \<open>The device\<close>

record terminal_device =
  tm_display :: text_display
  tm_keyboard :: keyboard_queue
  tm_output :: string

definition TerminalDevice :: "nat \<Rightarrow> nat \<Rightarrow> exn + terminal_device" where
  "TerminalDevice column_count row_count = sbind (TextDisplayBuffer column_count row_count) (\<lambda>display.
    Inr \<lparr>tm_display = display, tm_keyboard = \<lparr>kq_capacity = 0, kq_events = []\<rparr>, tm_output = []\<rparr>)"

definition output_stream_since :: "nat \<Rightarrow> terminal_device \<Rightarrow> exn + string" where
  "output_stream_since offset t = (if offset > length (tm_output t) then Inl Out_of_range else Inr (drop offset (tm_output t)))"

definition write_output :: "string \<Rightarrow> (terminal_device, unit) op" where
  "write_output text =
    sq (focus tm_display tm_display_update (write_string text))
    (modify (\<lambda>t. t\<lparr>tm_output := tm_output t @ text\<rparr>))"

definition clear_display :: "terminal_device \<Rightarrow> terminal_device" where
  "clear_display t = t\<lparr>tm_display := td_clear (tm_display t),
     tm_output := tm_output t @ [TERMINAL_CLEAR_SCREEN_CHARACTER]\<rparr>"

definition discard_output_stream_before :: "nat \<Rightarrow> (terminal_device, unit) op" where
  "discard_output_stream_before offset = (\<lambda>t.
    if offset > length (tm_output t) then (Inl Out_of_range, t)
    else (Inr (), t\<lparr>tm_output := drop offset (tm_output t)\<rparr>))"

primrec submit_keys :: "string \<Rightarrow> keyboard_queue \<Rightarrow> nat \<times> keyboard_queue" where
  "submit_keys [] q = (0, q)"
| "submit_keys (c # cs) q = (case kq_push c q of (False, q) \<Rightarrow> (0, q)
    | (True, q) \<Rightarrow> (case submit_keys cs q of (n, q) \<Rightarrow> (n + 1, q)))"

definition terminal_submit_input :: "string \<Rightarrow> terminal_device \<Rightarrow> nat \<times> terminal_device" where
  "terminal_submit_input text t = (case submit_keys text (tm_keyboard t) of (n, q) \<Rightarrow> (n, t\<lparr>tm_keyboard := q\<rparr>))"

definition drain_input :: "terminal_device \<Rightarrow> char list \<times> terminal_device" where
  "drain_input t = (case kq_drain (tm_keyboard t) of (es, q) \<Rightarrow> (es, t\<lparr>tm_keyboard := q\<rparr>))"

end
