(* ===== verification/TerminalProps.thy ===== *)
theory TerminalProps
  imports Terminal
begin

text \<open>
  The display keeps its cursor inside the grid and never throws; what is written in plain text appears wrapped at
  the last column, and the screen shows the last rows of it.
\<close>

section \<open>Cells\<close>

definition grid_ok :: "text_display \<Rightarrow> bool" where
  "grid_ok d \<longleftrightarrow> 0 < td_columns d \<and> 0 < td_rows d \<and> length (td_cells d) = td_columns d * td_rows d"

definition display_ok :: "text_display \<Rightarrow> bool" where
  "display_ok d \<longleftrightarrow> grid_ok d \<and> td_cursor_column d < td_columns d \<and> td_cursor_row d < td_rows d"

lemma cell_bound:
  assumes "column < columns" and "row < rows" shows "row * columns + column < columns * (rows :: nat)"
proof -
  have "row * columns + column < Suc row * columns" using assms(1) by simp
  also have "\<dots> \<le> rows * columns" using assms(2) by (intro mult_le_mono1) simp
  finally show ?thesis by (simp add: mult.commute)
qed

lemma set_cell_run:
  "column < td_columns d \<Longrightarrow> row < td_rows d \<Longrightarrow>
    set_cell column row c d = (Inr (), d\<lparr>td_cells := (td_cells d)[row * td_columns d + column := c]\<rparr>)"
  by (simp add: set_cell_def cell_index_def op_simps)

lemma list_update_overwrite: "i < length xs \<Longrightarrow> xs[i := x] = overwrite i [x] xs"
  by (simp add: overwrite_def upd_conv_take_nth_drop)

lemma overwrite_nil [simp]: "overwrite i [] xs = xs"
  by (simp add: overwrite_def)

lemma clear_row_run:
  assumes ok: "grid_ok d" and row: "row < td_rows d"
  shows "clear_row row d = (Inr (), d\<lparr>td_cells := overwrite (row * td_columns d) (replicate (td_columns d) blank_cell) (td_cells d)\<rparr>)"
proof -
  let ?n = "td_columns d" and ?o = "row * td_columns d"
  have "for_each (\<lambda>column. set_cell column row blank_cell) [0..<k] d
      = (Inr (), d\<lparr>td_cells := overwrite ?o (replicate k blank_cell) (td_cells d)\<rparr>)" if "k \<le> ?n" for k
    using that
  proof (induction k)
    case (Suc k)
    let ?d = "d\<lparr>td_cells := overwrite ?o (replicate k blank_cell) (td_cells d)\<rparr>"
    have b: "?o + k < length (td_cells d)" using cell_bound [OF _ row, of k ?n] Suc.prems ok by (simp add: grid_ok_def)
    then have "(td_cells ?d)[?o + k := blank_cell] = overwrite ?o (replicate (Suc k) blank_cell) (td_cells d)"
      using overwrite_append [of ?o "replicate k blank_cell" "[blank_cell]" "td_cells d"]
      by (simp add: list_update_overwrite flip: replicate_append_same)
    with Suc row show ?case by (simp add: for_each_append op_simps set_cell_run)
  qed (simp add: op_simps)
  then show ?thesis by (simp add: clear_row_def op_simps)
qed

lemma copy_cell_up_run:
  "column < td_columns d \<Longrightarrow> 0 < row \<Longrightarrow> row < td_rows d \<Longrightarrow> copy_cell_up row column d =
    (Inr (), d\<lparr>td_cells := (td_cells d)[(row - 1) * td_columns d + column := td_cells d ! (row * td_columns d + column)]\<rparr>)"
  by (simp add: copy_cell_up_def cell_index_def op_simps)

lemma copy_row_up:
  assumes ok: "grid_ok d" and row: "0 < row" "row < td_rows d" and "k \<le> td_columns d"
  shows "for_each (copy_cell_up row) [0..<k] d =
    (Inr (), d\<lparr>td_cells := overwrite ((row - 1) * td_columns d) (take k (drop (row * td_columns d) (td_cells d))) (td_cells d)\<rparr>)"
  using assms(4)
proof (induction k)
  case (Suc k)
  let ?n = "td_columns d" and ?cs = "td_cells d"
  let ?p = "(row - 1) * ?n" and ?q = "row * ?n"
  let ?t = "take k (drop ?q ?cs)"
  let ?d = "d\<lparr>td_cells := overwrite ?p ?t ?cs\<rparr>"
  have q: "?q + k < length ?cs" using cell_bound [OF _ row(2), of k ?n] Suc.prems ok by (simp add: grid_ok_def)
  then have len: "length ?t = k" by simp
  have pq: "?q = ?p + ?n" using row(1) by (cases row) simp_all
  have same: "td_cells ?d ! (?q + k) = ?cs ! (?q + k)" using q pq len Suc.prems by (simp add: nth_overwrite)
  have snoc: "take (Suc k) (drop ?q ?cs) = ?t @ [?cs ! (?q + k)]" using q by (simp add: take_Suc_conv_app_nth)
  have "(td_cells ?d)[?p + k := ?cs ! (?q + k)] = overwrite ?p (?t @ [?cs ! (?q + k)]) ?cs"
    using overwrite_append [of ?p ?t "[?cs ! (?q + k)]" ?cs] q pq len by (simp add: list_update_overwrite)
  with Suc row same snoc show ?case by (simp add: for_each_append op_simps copy_cell_up_run)
qed (simp add: op_simps)

lemma copy_rows_up:
  assumes ok: "grid_ok d" and "1 \<le> k" "k \<le> td_rows d"
  shows "for_each (\<lambda>row. for_each (copy_cell_up row) [0..<td_columns d]) [1..<k] d =
    (Inr (), d\<lparr>td_cells := overwrite 0 (take ((k - 1) * td_columns d) (drop (td_columns d) (td_cells d))) (td_cells d)\<rparr>)"
  using assms(2,3)
proof (induction k rule: nat_induct_at_least)
  case (Suc k)
  let ?n = "td_columns d" and ?cs = "td_cells d"
  let ?t = "take ((k - 1) * ?n) (drop ?n ?cs)"
  let ?d = "d\<lparr>td_cells := overwrite 0 ?t ?cs\<rparr>"
  have k: "1 \<le> k" "k < td_rows d" using Suc by simp_all
  have len: "length ?cs = ?n * td_rows d" using ok by (simp add: grid_ok_def)
  have kn: "k * ?n + ?n \<le> length ?cs" using mult_le_mono1 [of "Suc k" "td_rows d" ?n] k len by (simp add: mult.commute)
  have k1: "(k - 1) * ?n + ?n = k * ?n" using k(1) by (cases k) simp_all
  have lt: "length ?t = (k - 1) * ?n" using kn k1 by simp
  have "length (overwrite 0 ?t ?cs) = length ?cs" by (rule length_overwrite) (use lt kn k1 in linarith)
  then have ok': "grid_ok ?d" using ok by (simp add: grid_ok_def)
  have drop: "take ?n (drop (k * ?n) (overwrite 0 ?t ?cs)) = take ?n (drop (k * ?n) ?cs)"
    using lt k1 by (simp add: overwrite_def)
  have "take ((k - 1) * ?n + ?n) (drop ?n ?cs) = ?t @ take ?n (drop ((k - 1) * ?n + ?n) ?cs)"
    by (simp add: take_add)
  then have "take (k * ?n) (drop ?n ?cs) = ?t @ take ?n (drop (k * ?n) ?cs)" unfolding k1 .
  then have step: "overwrite ((k - 1) * ?n) (take ?n (drop (k * ?n) ?cs)) (overwrite 0 ?t ?cs) = overwrite 0 (take (k * ?n) (drop ?n ?cs)) ?cs"
    using overwrite_append [of 0 ?t "take ?n (drop (k * ?n) ?cs)" ?cs] lt kn k1 by simp
  have row: "for_each (copy_cell_up k) [0..<?n] ?d = (Inr (), d\<lparr>td_cells := overwrite 0 (take (k * ?n) (drop ?n ?cs)) ?cs\<rparr>)"
    using copy_row_up [OF ok', of k ?n] k drop step by simp
  have "[1..<Suc k] = [1..<k] @ [k]" using k(1) by simp
  with Suc.IH k row show ?case by (simp add: for_each_append op_simps)
qed (simp add: op_simps)

lemma scroll_up_run:
  assumes ok: "grid_ok d"
  shows "scroll_up d = (Inr (), d\<lparr>td_cells := drop (td_columns d) (td_cells d) @ replicate (td_columns d) blank_cell,
    td_cursor_row := td_rows d - 1, td_cursor_column := 0, td_scroll_count := td_scroll_count d + 1\<rparr>)"
proof -
  let ?n = "td_columns d" and ?r = "td_rows d" and ?cs = "td_cells d"
  have len: "length ?cs = ?n * ?r" and r: "0 < ?r" using ok by (simp_all add: grid_ok_def)
  show ?thesis
  proof (cases "?r \<le> 1")
    case True
    then have "?r = 1" using r by simp
    with clear_row_run [OF ok, of 0] len show ?thesis by (simp add: scroll_up_def op_simps overwrite_def)
  next
    case False
    let ?t = "take ((?r - 1) * ?n) (drop ?n ?cs)"
    let ?d = "d\<lparr>td_cells := overwrite 0 ?t ?cs\<rparr>"
    have rn: "(?r - 1) * ?n + ?n = ?n * ?r" using r by (cases ?r) (simp_all add: mult.commute)
    have t: "?t = drop ?n ?cs" "length ?t = (?r - 1) * ?n" using len rn by simp_all
    have ok': "grid_ok ?d" using ok t len rn by (simp add: grid_ok_def)
    have "overwrite ((?r - 1) * ?n) (replicate ?n blank_cell) (overwrite 0 ?t ?cs) = drop ?n ?cs @ replicate ?n blank_cell"
      using t len rn by (simp add: overwrite_def)
    with False copy_rows_up [OF ok, of ?r] clear_row_run [OF ok', of "?r - 1"] r
    show ?thesis by (simp add: scroll_up_def op_simps)
  qed
qed

lemma newline_run:
  assumes "grid_ok d" and "td_cursor_row d < td_rows d"
  shows "td_newline d = (Inr (), if Suc (td_cursor_row d) < td_rows d
    then d\<lparr>td_cursor_column := 0, td_cursor_row := Suc (td_cursor_row d)\<rparr>
    else d\<lparr>td_cells := drop (td_columns d) (td_cells d) @ replicate (td_columns d) blank_cell,
      td_cursor_row := td_rows d - 1, td_cursor_column := 0, td_scroll_count := td_scroll_count d + 1\<rparr>)"
proof -
  have "grid_ok (d\<lparr>td_cursor_column := 0, td_cursor_row := Suc (td_cursor_row d)\<rparr>)" using assms(1) by (simp add: grid_ok_def)
  from scroll_up_run [OF this] show ?thesis using assms(2) by (simp add: td_newline_def op_simps)
qed

lemma newline_ok:
  assumes "grid_ok d" and "td_cursor_row d < td_rows d" shows "\<exists>d'. td_newline d = (Inr (), d') \<and> display_ok d'
    \<and> td_columns d' = td_columns d \<and> td_rows d' = td_rows d"
proof -
  have "td_columns d \<le> td_columns d * td_rows d" using assms(1) by (simp add: grid_ok_def)
  then show ?thesis using assms by (auto simp: newline_run display_ok_def grid_ok_def)
qed

lemma write_char_ok:
  assumes ok: "display_ok d"
  shows "\<exists>d'. write_char c d = (Inr (), d') \<and> display_ok d' \<and> td_columns d' = td_columns d \<and> td_rows d' = td_rows d"
proof -
  have g: "grid_ok d" and cur: "td_cursor_column d < td_columns d" "td_cursor_row d < td_rows d" using ok by (simp_all add: display_ok_def)
  have grid: "grid_ok (d\<lparr>td_cells := (td_cells d)[i := x], td_cursor_column := j\<rparr>)" for i x j using g by (simp add: grid_ok_def)
  have "\<exists>d'. put_printable c d = (Inr (), d') \<and> display_ok d' \<and> td_columns d' = td_columns d \<and> td_rows d' = td_rows d"
  proof (cases "Suc (td_cursor_column d) < td_columns d")
    case True
    then show ?thesis using cur grid by (simp add: put_printable_def advance_cursor_after_put_def op_simps set_cell_run display_ok_def)
  next
    case False
    let ?d = "d\<lparr>td_cells := (td_cells d)[td_cursor_row d * td_columns d + td_cursor_column d :=
      \<lparr>tc_character = c, tc_attribute = TERMINAL_DEFAULT_ATTRIBUTE\<rparr>], td_cursor_column := Suc (td_cursor_column d)\<rparr>"
    have "put_printable c d = td_newline ?d"
      using False cur by (simp add: put_printable_def advance_cursor_after_put_def op_simps set_cell_run)
    then show ?thesis using newline_ok [of ?d] grid cur by simp
  qed
  moreover have "\<exists>d'. erase_previous_cell d = (Inr (), d') \<and> display_ok d' \<and> td_columns d' = td_columns d \<and> td_rows d' = td_rows d"
    using cur g by (auto simp: erase_previous_cell_def op_simps set_cell_run display_ok_def grid_ok_def)
  moreover have "\<exists>d'. carriage_return d = (Inr (), d') \<and> display_ok d' \<and> td_columns d' = td_columns d \<and> td_rows d' = td_rows d"
    using ok by (auto simp: carriage_return_def op_simps display_ok_def grid_ok_def)
  ultimately show ?thesis using newline_ok [OF g cur(2)] by (simp add: write_char_def)
qed

lemma write_string_ok:
  assumes "display_ok d"
  shows "\<exists>d'. write_string cs d = (Inr (), d') \<and> display_ok d' \<and> td_columns d' = td_columns d \<and> td_rows d' = td_rows d"
  using assms
proof (induction cs arbitrary: d)
  case (Cons c cs)
  obtain d1 where d1: "write_char c d = (Inr (), d1)" "display_ok d1" "td_columns d1 = td_columns d" "td_rows d1 = td_rows d"
    using write_char_ok [OF Cons.prems] by blast
  from Cons.IH [OF d1(2)] d1 show ?case by (auto simp: write_string_def op_simps)
qed (simp add: write_string_def op_simps)



section \<open>What the screen shows\<close>

text \<open>
  The reference: the text as lines, broken at newlines and after a full row; the last line is the one the cursor is
  in. The screen shows the last rows of these lines, each padded with blanks.
\<close>

definition add_char :: "nat \<Rightarrow> string list \<Rightarrow> char \<Rightarrow> string list" where
  "add_char columns L c = (if c = CHR 0x0A then L @ [[]]
     else let l = last L @ [c] in butlast L @ (if length l < columns then [l] else [l, []]))"

definition wrapped :: "nat \<Rightarrow> string \<Rightarrow> string list" where
  "wrapped columns cs = foldl (add_char columns) [[]] cs"

definition pad_line :: "nat \<Rightarrow> string \<Rightarrow> string" where
  "pad_line columns l = l @ replicate (columns - length l) (CHR '' '')"

definition screen_lines :: "nat \<Rightarrow> string list \<Rightarrow> string list" where
  "screen_lines rows L = drop (length L - rows) L @ replicate (rows - length L) []"

definition screen :: "nat \<Rightarrow> nat \<Rightarrow> string list \<Rightarrow> string" where
  "screen columns rows L = concat (map (pad_line columns) (screen_lines rows L))"

definition plain_cell :: "char \<Rightarrow> text_cell" where
  "plain_cell c = \<lparr>tc_character = c, tc_attribute = TERMINAL_DEFAULT_ATTRIBUTE\<rparr>"

definition shows_lines :: "string list \<Rightarrow> text_display \<Rightarrow> bool" where
  "shows_lines L d \<longleftrightarrow> grid_ok d \<and> L \<noteq> [] \<and> list_all (\<lambda>l. length l \<le> td_columns d) L
     \<and> td_cursor_row d = min (length L) (td_rows d) - 1
     \<and> td_cells d = map plain_cell (screen (td_columns d) (td_rows d) L)"

definition displays :: "string list \<Rightarrow> text_display \<Rightarrow> bool" where
  "displays L d \<longleftrightarrow> shows_lines L d \<and> length (last L) < td_columns d \<and> td_cursor_column d = length (last L)"

lemma blank_plain: "blank_cell = plain_cell (CHR '' '')"
  by (simp add: blank_cell_def plain_cell_def terminal_constants)

lemma length_screen_lines [simp]: "length (screen_lines rows L) = rows"
  by (simp add: screen_lines_def)

lemma length_pad_line: "length l \<le> columns \<Longrightarrow> length (pad_line columns l) = columns"
  by (simp add: pad_line_def)

lemma screen_newline:
  assumes "0 < rows" and "list_all (\<lambda>l. length l \<le> columns) L"
  shows "screen columns rows (L @ [[]]) =
    (if length L < rows then screen columns rows L else drop columns (screen columns rows L) @ replicate columns (CHR '' ''))"
proof (cases "length L < rows")
  case True
  then have "replicate (rows - length L) [] = [] # replicate (rows - Suc (length L)) ([] :: string)"
    by (metis Suc_diff_Suc replicate_Suc)
  with True show ?thesis by (simp add: screen_def screen_lines_def)
next
  case False
  let ?k = "length L - rows"
  have "?k < length L" using False assms(1) by simp
  then have dk: "drop ?k L = L ! ?k # drop (Suc ?k) L" by (simp add: Cons_nth_drop_Suc)
  have "length (L ! ?k) \<le> columns" using assms(2) \<open>?k < length L\<close> by (simp add: list_all_length)
  then have "drop columns (screen columns rows L) = concat (map (pad_line columns) (drop (Suc ?k) L))"
    using False dk by (simp add: screen_def screen_lines_def length_pad_line)
  moreover have "screen columns rows (L @ [[]]) = concat (map (pad_line columns) (drop (Suc ?k) L)) @ replicate columns (CHR '' '')"
    using False assms(1) by (simp add: screen_def screen_lines_def Suc_diff_le pad_line_def)
  ultimately show ?thesis using False by simp
qed

lemma concat_update:
  assumes "list_all (\<lambda>l. length (f l) = n) ls" and "k < length ls" and "j < n" and "length (f l') = n"
    and "f l' = (f (ls ! k))[j := c]"
  shows "concat (map f (ls[k := l'])) = (concat (map f ls))[k * n + j := c]"
  using assms(1,2,5)
proof (induction ls arbitrary: k)
  case (Cons x xs)
  show ?case
  proof (cases k)
    case 0
    with Cons.prems assms(3) show ?thesis by (simp add: list_update_append1)
  next
    case (Suc i)
    with Cons show ?thesis by (simp add: list_update_append)
  qed
qed simp

lemma screen_put:
  assumes "0 < rows" and "L \<noteq> []" and L: "list_all (\<lambda>l. length l \<le> columns) L" and len: "length (last L) < columns"
  shows "screen columns rows (butlast L @ [last L @ [c]]) =
    (screen columns rows L)[(min (length L) rows - 1) * columns + length (last L) := c]"
proof -
  let ?k = "min (length L) rows - 1" and ?ls = "screen_lines rows L"
  have k: "?k < rows" using assms(1) by auto
  have nth: "?ls ! ?k = last L"
    using assms(1,2) by (cases "length L < rows") (auto simp: screen_lines_def nth_append last_conv_nth)
  have "butlast L @ [last L @ [c]] = L[length L - 1 := last L @ [c]]"
    using assms(2) by (metis append_butlast_last_id list_update_length length_butlast)
  then have upd: "screen_lines rows (butlast L @ [last L @ [c]]) = ?ls[?k := last L @ [c]]"
    using assms(1,2) by (cases "length L < rows") (auto simp: screen_lines_def list_update_append drop_update_swap)
  have "\<forall>l \<in> set ?ls. length l \<le> columns"
    using L by (auto simp: screen_lines_def list_all_iff dest: in_set_dropD)
  then have all: "list_all (\<lambda>l. length (pad_line columns l) = columns) ?ls" by (auto simp: list_all_iff length_pad_line)
  have "replicate (columns - length (last L)) (CHR '' '') = CHR '' '' # replicate (columns - Suc (length (last L))) (CHR '' '')"
    using len by (metis Suc_diff_Suc replicate_Suc)
  then have pad: "pad_line columns (last L @ [c]) = (pad_line columns (last L))[length (last L) := c]"
    by (simp add: pad_line_def list_update_append)
  show ?thesis
    unfolding screen_def upd by (rule concat_update [OF all]) (use k len pad nth in \<open>simp_all add: length_pad_line\<close>)
qed

lemma newline_displays:
  assumes "shows_lines L d"
  shows "\<exists>d'. td_newline d = (Inr (), d') \<and> displays (L @ [[]]) d' \<and> td_columns d' = td_columns d \<and> td_rows d' = td_rows d"
proof -
  have g: "grid_ok d" and L: "L \<noteq> []" "list_all (\<lambda>l. length l \<le> td_columns d) L"
    and cur: "td_cursor_row d = min (length L) (td_rows d) - 1"
    and cells: "td_cells d = map plain_cell (screen (td_columns d) (td_rows d) L)" using assms by (simp_all add: shows_lines_def)
  have pos: "0 < td_rows d" "0 < td_columns d" using g by (simp_all add: grid_ok_def)
  have row: "td_cursor_row d < td_rows d" using cur pos by auto
  have len: "length (td_cells d) = td_columns d * td_rows d" using g by (simp add: grid_ok_def)
  have le: "td_columns d \<le> td_columns d * td_rows d" using pos by simp
  have less: "Suc (td_cursor_row d) < td_rows d \<longleftrightarrow> length L < td_rows d" using cur pos L(1) by (cases L) auto
  note run = newline_run [OF g row, unfolded less] and nl = screen_newline [OF pos(1) L(2)]
  show ?thesis
  proof (cases "length L < td_rows d")
    case True
    with run nl g pos L cur cells show ?thesis by (auto simp: displays_def shows_lines_def grid_ok_def min_def)
  next
    case False
    with run nl g pos L cur cells len le show ?thesis
      by (auto simp: displays_def shows_lines_def grid_ok_def min_def drop_map blank_plain)
  qed
qed

definition plain_char :: "char \<Rightarrow> bool" where
  "plain_char c \<longleftrightarrow> c \<noteq> TERMINAL_CARRIAGE_RETURN_CHARACTER \<and> c \<noteq> TERMINAL_BACKSPACE_CHARACTER \<and> c \<noteq> TERMINAL_DELETE_CHARACTER"

lemma write_char_displays:
  assumes d: "displays L d" and c: "plain_char c"
  shows "\<exists>d'. write_char c d = (Inr (), d') \<and> displays (add_char (td_columns d) L c) d' \<and> td_columns d' = td_columns d \<and> td_rows d' = td_rows d"
proof (cases "c = CHR 0x0A")
  case True
  with newline_displays [of L d] d show ?thesis
    by (simp add: write_char_def terminal_constants add_char_def displays_def)
next
  case False
  have g: "grid_ok d" and L: "L \<noteq> []" "list_all (\<lambda>l. length l \<le> td_columns d) L" "length (last L) < td_columns d"
    and cur: "td_cursor_column d = length (last L)" "td_cursor_row d = min (length L) (td_rows d) - 1"
    and cells: "td_cells d = map plain_cell (screen (td_columns d) (td_rows d) L)" using d by (simp_all add: displays_def shows_lines_def)
  have pos: "0 < td_rows d" using g by (simp add: grid_ok_def)
  have row: "td_cursor_row d < td_rows d" using cur pos by auto
  let ?L = "butlast L @ [last L @ [c]]"
  let ?d = "d\<lparr>td_cells := (td_cells d)[td_cursor_row d * td_columns d + td_cursor_column d := plain_cell c]\<rparr>"
  have put: "write_char c d = advance_cursor_after_put ?d"
    using c False cur L(3) row by (simp add: write_char_def plain_char_def put_printable_def op_simps set_cell_run plain_cell_def terminal_constants)
  have lenL: "length ?L = length L" using L(1) by simp
  have allL: "list_all (\<lambda>l. length l \<le> td_columns d) ?L"
    using L by (auto simp: list_all_iff dest: in_set_butlastD)
  have cells': "td_cells ?d = map plain_cell (screen (td_columns d) (td_rows d) ?L)"
    using screen_put [OF pos L, of c] cells cur by (simp add: map_update)
  have shows': "shows_lines ?L (?d\<lparr>td_cursor_column := i\<rparr>)" for i
    unfolding shows_lines_def
  proof (intro conjI)
    show "grid_ok (?d\<lparr>td_cursor_column := i\<rparr>)" using g by (simp add: grid_ok_def)
    show "td_cells (?d\<lparr>td_cursor_column := i\<rparr>) = map plain_cell (screen (td_columns (?d\<lparr>td_cursor_column := i\<rparr>)) (td_rows (?d\<lparr>td_cursor_column := i\<rparr>)) ?L)"
      using cells' by simp
    show "list_all (\<lambda>l. length l \<le> td_columns (?d\<lparr>td_cursor_column := i\<rparr>)) ?L" using allL by simp
  qed (use cur lenL in simp_all)
  show ?thesis
  proof (cases "Suc (length (last L)) < td_columns d")
    case True
    then have "advance_cursor_after_put ?d = (Inr (), ?d\<lparr>td_cursor_column := Suc (length (last L))\<rparr>)"
      using cur by (simp add: advance_cursor_after_put_def op_simps)
    moreover have "displays ?L (?d\<lparr>td_cursor_column := Suc (length (last L))\<rparr>)"
      unfolding displays_def using shows' True by simp
    ultimately show ?thesis using put True False by (simp add: add_char_def)
  next
    case full: False
    have "advance_cursor_after_put ?d = td_newline (?d\<lparr>td_cursor_column := Suc (length (last L))\<rparr>)"
      using full cur by (simp add: advance_cursor_after_put_def op_simps)
    with newline_displays [OF shows', of "Suc (length (last L))"] put full False show ?thesis by (simp add: add_char_def)
  qed
qed

lemma write_string_displays:
  assumes "displays L d" and "list_all plain_char cs"
  shows "\<exists>d'. write_string cs d = (Inr (), d') \<and> displays (foldl (add_char (td_columns d)) L cs) d'
    \<and> td_columns d' = td_columns d \<and> td_rows d' = td_rows d"
  using assms
proof (induction cs arbitrary: L d)
  case (Cons c cs)
  then obtain d1 where d1: "write_char c d = (Inr (), d1)" "displays (add_char (td_columns d) L c) d1"
    "td_columns d1 = td_columns d" "td_rows d1 = td_rows d" using write_char_displays [of L d c] by auto
  from Cons.IH [OF d1(2)] Cons.prems(2) d1 show ?case by (auto simp: write_string_def op_simps)
qed (simp add: write_string_def op_simps)

text \<open>Reading the rows back.\<close>

lemma line_loop_run:
  assumes "row < td_rows d" and "\<forall>i \<in> set is. i < td_columns d"
  shows "line_loop row is d = (Inr (map (\<lambda>i. tc_character (td_cells d ! (row * td_columns d + i))) is), d)"
  using assms(2) by (induction "is") (use assms(1) in \<open>simp_all add: cell_at_def cell_index_def op_simps\<close>)

lemma td_line_run:
  "row < td_rows d \<Longrightarrow> td_line row d = (Inr (map (\<lambda>i. tc_character (td_cells d ! (row * td_columns d + i))) [0..<td_columns d]), d)"
  by (simp add: td_line_def line_loop_run)

lemma lines_loop_run:
  "\<forall>i \<in> set is. i < td_rows d \<Longrightarrow> lines_loop is d =
    (Inr (map (\<lambda>row. map (\<lambda>i. tc_character (td_cells d ! (row * td_columns d + i))) [0..<td_columns d]) is), d)"
  by (induction "is") (simp_all add: td_line_run op_simps)

lemma concat_nth:
  assumes "list_all (\<lambda>l. length l = n) ls" and "k < length ls" and "j < n"
  shows "concat ls ! (k * n + j) = ls ! k ! j"
  using assms(1,2)
proof (induction ls arbitrary: k)
  case (Cons x xs)
  then show ?case using assms(3) by (cases k) (auto simp: nth_append)
qed simp

lemma shows_lines_lines:
  assumes "shows_lines L d"
  shows "td_lines d = (Inr (map (pad_line (td_columns d)) (screen_lines (td_rows d) L)), d)"
proof -
  let ?n = "td_columns d" and ?ls = "map (pad_line (td_columns d)) (screen_lines (td_rows d) L)"
  have cells: "td_cells d = map plain_cell (concat ?ls)" and L: "list_all (\<lambda>l. length l \<le> ?n) L" and g: "grid_ok d"
    using assms by (simp_all add: shows_lines_def screen_def)
  have "\<forall>l \<in> set (screen_lines (td_rows d) L). length l \<le> ?n"
    using L by (auto simp: screen_lines_def list_all_iff dest: in_set_dropD)
  then have all: "list_all (\<lambda>l. length l = ?n) ?ls" by (auto simp: list_all_iff length_pad_line)
  have lenc: "length (concat ?ls) = ?n * td_rows d" using g cells by (metis grid_ok_def length_map)
  have "map (\<lambda>i. tc_character (td_cells d ! (row * ?n + i))) [0..<?n] = ?ls ! row" if row: "row < td_rows d" for row
  proof (rule nth_equalityI)
    have len: "length (?ls ! row) = ?n" using all row by (simp add: list_all_length)
    then show "length (map (\<lambda>i. tc_character (td_cells d ! (row * ?n + i))) [0..<?n]) = length (?ls ! row)" by simp
    fix i assume "i < length (map (\<lambda>i. tc_character (td_cells d ! (row * ?n + i))) [0..<?n])"
    then have i: "i < ?n" by simp
    have "row * ?n + i < length (concat ?ls)" using cell_bound [OF i row] lenc by simp
    then have "tc_character (td_cells d ! (row * ?n + i)) = concat ?ls ! (row * ?n + i)"
      unfolding cells by (simp only: nth_map) (simp add: plain_cell_def)
    then show "map (\<lambda>i. tc_character (td_cells d ! (row * ?n + i))) [0..<?n] ! i = ?ls ! row ! i"
      using concat_nth [OF all _ i, of row] row i by simp
  qed
  then have "map (\<lambda>row. map (\<lambda>i. tc_character (td_cells d ! (row * ?n + i))) [0..<?n]) [0..<td_rows d] = map (\<lambda>row. ?ls ! row) [0..<td_rows d]"
    by (intro map_cong) simp_all
  also have "\<dots> = ?ls" by (rule nth_equalityI) simp_all
  finally show ?thesis by (simp add: td_lines_def op_simps lines_loop_run)
qed

lemma new_display_displays:
  assumes "TextDisplayBuffer columns rows = Inr d" shows "displays [[]] d" and "td_columns d = columns" and "td_rows d = rows"
proof -
  have "concat (replicate rows (replicate columns (CHR '' ''))) = replicate (columns * rows) (CHR '' '')"
    by (induction rows) (simp_all add: replicate_add)
  moreover have pos: "0 < columns" "0 < rows" and d: "d = \<lparr>td_columns = columns, td_rows = rows, td_cursor_column = 0, td_cursor_row = 0,
      td_scroll_count = 0, td_cells = replicate (columns * rows) blank_cell\<rparr>"
    using assms by (auto simp: TextDisplayBuffer_def checked_text_display_cell_count_def sbind_def split: if_splits)
  moreover have "drop (Suc 0 - rows) [[]] @ replicate (rows - Suc 0) [] = replicate rows ([] :: string)"
    using pos(2) by (cases rows) simp_all
  ultimately show "displays [[]] d" "td_columns d = columns" "td_rows d = rows"
    by (simp_all add: displays_def shows_lines_def grid_ok_def screen_def screen_lines_def pad_line_def blank_plain)
qed

text \<open>
  C40: The screen shows the tail of what was written. When text without carriage returns, backspaces and deletes is
  written to a new display, the display's lines are the last rows of the text, broken at newlines and after the
  last column, and padded with blanks, whatever the number of scrolls that takes.
\<close>

theorem screen_shows_tail:
  assumes "TextDisplayBuffer columns rows = Inr d" and "list_all plain_char cs"
  shows "\<exists>d'. write_string cs d = (Inr (), d') \<and> td_lines d' = (Inr (map (pad_line columns) (screen_lines rows (wrapped columns cs))), d')
    \<and> td_cursor_column d' = length (last (wrapped columns cs)) \<and> td_cursor_row d' = min (length (wrapped columns cs)) rows - 1"
proof -
  note new = new_display_displays [OF assms(1)]
  obtain d' where d': "write_string cs d = (Inr (), d')" "displays (wrapped columns cs) d'" "td_columns d' = columns" "td_rows d' = rows"
    using write_string_displays [OF new(1) assms(2)] new(2,3) by (auto simp: wrapped_def)
  then have "shows_lines (wrapped columns cs) d'" by (simp add: displays_def)
  from shows_lines_lines [OF this] d' show ?thesis by (auto simp: displays_def shows_lines_def)
qed

text \<open>Witness: three rows of four columns scroll once.\<close>

theorem screen_shows_tail_witness:
  "\<exists>d d'. TextDisplayBuffer 4 3 = Inr d \<and> write_string ''hello world'' d = (Inr (), d')
    \<and> td_lines d' = (Inr [''hell'', ''o wo'', ''rld ''], d')"
proof -
  obtain d where d: "TextDisplayBuffer 4 3 = Inr d"
    by (simp add: TextDisplayBuffer_def checked_text_display_cell_count_def sbind_def)
  have plain: "list_all plain_char ''hello world''" by (simp add: plain_char_def terminal_constants)
  have "map (pad_line 4) (screen_lines 3 (wrapped 4 ''hello world'')) = [''hell'', ''o wo'', ''rld '']"
    by (simp add: wrapped_def add_char_def Let_def screen_lines_def pad_line_def)
  with screen_shows_tail [OF d plain] d show ?thesis by auto
qed

end
