(* ===== verification/Console.thy ===== *)
theory Console
  imports TerminalProps Sched
begin

text \<open>
  The console of \<^verbatim>\<open>os/tty/console.cpp\<close>: it echoes the keys of the terminal, edits the current line, hands completed lines
  to readers and wakes as many waiting readers as lines were completed. The state pairs the store of threads with the
  console, because a read that finds no input blocks its thread.
\<close>

section \<open>State and operations\<close>

definition CONSOLE_BACKSPACE_ECHO :: string where "CONSOLE_BACKSPACE_ECHO = [CHR 0x08]"
definition CONSOLE_NEWLINE_ECHO :: string where "CONSOLE_NEWLINE_ECHO = [CHR 0x0A]"

datatype console_read_result = Ready_bytes string | Blocked_read

record console =
  cn_terminal :: terminal_device
  cn_line :: string
  cn_ready :: string
  cn_waiters :: wait_queue

definition Console :: "terminal_device \<Rightarrow> console" where
  "Console t = \<lparr>cn_terminal = t, cn_line = [], cn_ready = [], cn_waiters = []\<rparr>"

definition on_terminal :: "(terminal_device, 'a) op \<Rightarrow> (console, 'a) op" where
  "on_terminal f = focus cn_terminal cn_terminal_update f"

definition console_clear :: "console \<Rightarrow> console" where
  "console_clear c = c\<lparr>cn_terminal := (clear_display (cn_terminal c))
       \<lparr>tm_keyboard := kq_clear (tm_keyboard (cn_terminal c))\<rparr>, cn_line := [], cn_ready := []\<rparr>"

definition console_write :: "string \<Rightarrow> (console, unit) op" where
  "console_write text = on_terminal (write_output text)"

definition handle_printable :: "char \<Rightarrow> (console, unit) op" where
  "handle_printable event =
    sq (modify (\<lambda>c. c\<lparr>cn_line := cn_line c @ [event]\<rparr>))
    (bnd (gets cn_line) (\<lambda>line. on_terminal (write_output [last line])))"

definition handle_enter :: "(console, bool) op" where
  "handle_enter =
    sq (modify (\<lambda>c. c\<lparr>cn_ready := cn_ready c @ cn_line c @ [TERMINAL_NEWLINE_CHARACTER], cn_line := []\<rparr>))
   (sq (on_terminal (write_output CONSOLE_NEWLINE_ECHO))
    (ret True))"

definition handle_backspace :: "(console, unit) op" where
  "handle_backspace =
    bnd (gets cn_line) (\<lambda>line.
    if line = [] then ret ()
    else sq (modify (\<lambda>c. c\<lparr>cn_line := butlast (cn_line c)\<rparr>))
      (on_terminal (write_output CONSOLE_BACKSPACE_ECHO)))"

definition handle_key_event :: "char \<Rightarrow> (console, bool) op" where
  "handle_key_event event =
    (if is_enter event then handle_enter
     else if is_backspace event then sq handle_backspace (ret False)
     else if is_printable_ascii event then sq (handle_printable event) (ret False)
     else ret False)"

primrec handle_key_events :: "char list \<Rightarrow> (console, nat) op" where
  "handle_key_events [] = ret 0"
| "handle_key_events (e # es) =
    bnd (handle_key_event e) (\<lambda>completed.
    bnd (handle_key_events es) (\<lambda>n. ret (if completed then n + 1 else n)))"

definition copy_ready_input :: "nat \<Rightarrow> console \<Rightarrow> string \<times> console" where
  "copy_ready_input destination_size c =
    (let byte_count = min destination_size (length (cn_ready c)) in
     (take byte_count (cn_ready c), c\<lparr>cn_ready := drop byte_count (cn_ready c)\<rparr>))"

definition console_read :: "nat \<Rightarrow> tptr \<Rightarrow> (threads \<times> console, console_read_result) op" where
  "console_read destination_size thread = (\<lambda>(h, c).
    if cn_ready c \<noteq> [] \<or> destination_size = 0
    then (case copy_ready_input destination_size c of (bytes, c) \<Rightarrow> (Inr (Ready_bytes bytes), (h, c)))
    else if thread \<in> set (cn_waiters c) then (Inr Blocked_read, (h, c))
    else (case wq_wait thread (h, cn_waiters c) of
        (Inl e, (h, q)) \<Rightarrow> (Inl e, (h, c\<lparr>cn_waiters := q\<rparr>))
      | (Inr _, (h, q)) \<Rightarrow> (Inr Blocked_read, (h, c\<lparr>cn_waiters := q\<rparr>))))"

primrec wake_ready_readers :: "nat \<Rightarrow> threads \<Rightarrow> console \<Rightarrow> tptr list \<times> console" where
  "wake_ready_readers 0 h c = ([], c)"
| "wake_ready_readers (Suc n) h c =
    (if cn_ready c = [] then ([], c)
     else case wq_wake_one h (cn_waiters c) of
        (None, q) \<Rightarrow> ([], c\<lparr>cn_waiters := q\<rparr>)
      | (Some reader, q) \<Rightarrow> (case wake_ready_readers n h (c\<lparr>cn_waiters := q\<rparr>) of (readers, c) \<Rightarrow> (reader # readers, c)))"

definition console_submit_input :: "string \<Rightarrow> (threads \<times> console, tptr list) op" where
  "console_submit_input text = (\<lambda>(h, c).
    case terminal_submit_input text (cn_terminal c) of (_, t) \<Rightarrow>
    case drain_input t of (events, t) \<Rightarrow>
    case handle_key_events events (c\<lparr>cn_terminal := t\<rparr>) of
      (Inl e, c) \<Rightarrow> (Inl e, (h, c))
    | (Inr completed_line_count, c) \<Rightarrow>
        (case wake_ready_readers completed_line_count h c of (readers, c) \<Rightarrow> (Inr readers, (h, c))))"

section \<open>The keyboard hands over what was typed\<close>

lemma submit_keys_unbounded:
  "kq_capacity q = 0 \<Longrightarrow> submit_keys cs q = (length cs, q\<lparr>kq_events := kq_events q @ cs\<rparr>)"
  by (induction cs arbitrary: q)
    (auto simp: kq_push_def kq_has_capacity_def TERMINAL_UNBOUNDED_KEYBOARD_CAPACITY_def)

lemma kq_drain_run: "kq_drain q = (kq_events q, q\<lparr>kq_events := []\<rparr>)"
proof (induction q rule: kq_drain.induct)
  case (1 q)
  then show ?case by (auto simp: kq_drain.simps [of q] kq_pop_def split: list.splits)
qed

definition console_ok :: "console \<Rightarrow> bool" where
  "console_ok c \<longleftrightarrow> display_ok (tm_display (cn_terminal c)) \<and> kq_capacity (tm_keyboard (cn_terminal c)) = 0
    \<and> kq_events (tm_keyboard (cn_terminal c)) = []"

section \<open>Line editing\<close>

text \<open>The reference: keys edit the line, and an enter completes it.\<close>

definition edit_key :: "string \<Rightarrow> char \<Rightarrow> string" where
  "edit_key l k = (if is_backspace k then butlast l else if is_printable_ascii k then l @ [k] else l)"

primrec typed :: "string \<Rightarrow> string \<Rightarrow> string list \<times> string" where
  "typed l [] = ([], l)"
| "typed l (k # ks) = (if is_enter k then (l # fst (typed [] ks), snd (typed [] ks)) else typed (edit_key l k) ks)"

definition ready_text :: "string list \<Rightarrow> string" where
  "ready_text ls = concat (map (\<lambda>l. l @ [TERMINAL_NEWLINE_CHARACTER]) ls)"

text \<open>The console except for the display and the output, which echo the keys.\<close>

definition same_keyboard :: "console \<Rightarrow> console \<Rightarrow> bool" where
  "same_keyboard c c' \<longleftrightarrow> tm_keyboard (cn_terminal c') = tm_keyboard (cn_terminal c) \<and> cn_waiters c' = cn_waiters c"

lemma write_output_ok:
  assumes "display_ok (tm_display t)"
  obtains t' where "write_output text t = (Inr (), t')" and "display_ok (tm_display t')"
    and "tm_keyboard t' = tm_keyboard t" and "tm_output t' = tm_output t @ text"
proof -
  obtain d where "write_string text (tm_display t) = (Inr (), d)" "display_ok d"
    using write_string_ok [OF assms] by blast
  then show thesis
    by (intro that [of "t\<lparr>tm_display := d, tm_output := tm_output t @ text\<rparr>"]) (simp_all add: write_output_def op_simps)
qed

lemma on_terminal_write:
  assumes "display_ok (tm_display (cn_terminal c))"
  obtains t where "on_terminal (write_output text) c = (Inr (), c\<lparr>cn_terminal := t\<rparr>)" and "display_ok (tm_display t)"
    and "tm_keyboard t = tm_keyboard (cn_terminal c)" and "tm_output t = tm_output (cn_terminal c) @ text"
proof -
  obtain t where t: "write_output text (cn_terminal c) = (Inr (), t)" "display_ok (tm_display t)"
    "tm_keyboard t = tm_keyboard (cn_terminal c)" "tm_output t = tm_output (cn_terminal c) @ text"
    by (rule write_output_ok [OF assms])
  from that [of t] t show thesis by (simp add: on_terminal_def op_simps)
qed

lemma handle_key_event_run:
  assumes "display_ok (tm_display (cn_terminal c))"
  obtains c' where "handle_key_event k c = (Inr (is_enter k), c')" and "display_ok (tm_display (cn_terminal c'))"
    and "same_keyboard c c'"
    and "cn_line c' = (if is_enter k then [] else edit_key (cn_line c) k)"
    and "cn_ready c' = cn_ready c @ (if is_enter k then cn_line c @ [TERMINAL_NEWLINE_CHARACTER] else [])"
proof (cases "is_enter k")
  case True
  let ?c = "c\<lparr>cn_ready := cn_ready c @ cn_line c @ [TERMINAL_NEWLINE_CHARACTER], cn_line := []\<rparr>"
  obtain t where t: "on_terminal (write_output CONSOLE_NEWLINE_ECHO) ?c = (Inr (), ?c\<lparr>cn_terminal := t\<rparr>)"
    "display_ok (tm_display t)" "tm_keyboard t = tm_keyboard (cn_terminal ?c)"
    by (rule on_terminal_write [of ?c CONSOLE_NEWLINE_ECHO]) (use assms in auto)
  with True that show ?thesis
    by (simp add: handle_key_event_def handle_enter_def op_simps same_keyboard_def)
next
  case enter: False
  show ?thesis
  proof (cases "is_backspace k")
    case True
    show ?thesis
    proof (cases "cn_line c = []")
      case False
      let ?c = "c\<lparr>cn_line := butlast (cn_line c)\<rparr>"
      obtain t where "on_terminal (write_output CONSOLE_BACKSPACE_ECHO) ?c = (Inr (), ?c\<lparr>cn_terminal := t\<rparr>)"
        "display_ok (tm_display t)" "tm_keyboard t = tm_keyboard (cn_terminal ?c)"
        by (rule on_terminal_write [of ?c CONSOLE_BACKSPACE_ECHO]) (use assms in auto)
      with True False enter that show ?thesis
        by (simp add: handle_key_event_def handle_backspace_def op_simps same_keyboard_def edit_key_def)
    qed (use True enter assms that in
        \<open>simp add: handle_key_event_def handle_backspace_def op_simps same_keyboard_def edit_key_def\<close>)
  next
    case noback: False
    show ?thesis
    proof (cases "is_printable_ascii k")
      case True
      let ?c = "c\<lparr>cn_line := cn_line c @ [k]\<rparr>"
      obtain t where "on_terminal (write_output [k]) ?c = (Inr (), ?c\<lparr>cn_terminal := t\<rparr>)"
        "display_ok (tm_display t)" "tm_keyboard t = tm_keyboard (cn_terminal ?c)"
        by (rule on_terminal_write [of ?c "[k]"]) (use assms in auto)
      with True noback enter that show ?thesis
        by (simp add: handle_key_event_def handle_printable_def op_simps same_keyboard_def edit_key_def)
    qed (use noback enter assms that in \<open>simp add: handle_key_event_def op_simps same_keyboard_def edit_key_def\<close>)
  qed
qed

lemma handle_key_events_run:
  assumes "display_ok (tm_display (cn_terminal c))"
  obtains c' where "handle_key_events ks c = (Inr (length (fst (typed (cn_line c) ks))), c')"
    and "display_ok (tm_display (cn_terminal c'))" and "same_keyboard c c'"
    and "cn_line c' = snd (typed (cn_line c) ks)" and "cn_ready c' = cn_ready c @ ready_text (fst (typed (cn_line c) ks))"
  using assms
proof (induction ks arbitrary: c thesis)
  case Nil
  then show ?case by (simp add: op_simps same_keyboard_def ready_text_def)
next
  case (Cons k ks)
  obtain c1 where c1: "handle_key_event k c = (Inr (is_enter k), c1)" "display_ok (tm_display (cn_terminal c1))"
    "same_keyboard c c1" "cn_line c1 = (if is_enter k then [] else edit_key (cn_line c) k)"
    "cn_ready c1 = cn_ready c @ (if is_enter k then cn_line c @ [TERMINAL_NEWLINE_CHARACTER] else [])"
    by (rule handle_key_event_run [OF Cons.prems(2)])
  obtain c2 where c2: "handle_key_events ks c1 = (Inr (length (fst (typed (cn_line c1) ks))), c2)"
    "display_ok (tm_display (cn_terminal c2))" "same_keyboard c1 c2" "cn_line c2 = snd (typed (cn_line c1) ks)"
    "cn_ready c2 = cn_ready c1 @ ready_text (fst (typed (cn_line c1) ks))"
    by (rule Cons.IH [OF _ c1(2)])
  show ?case
    by (rule Cons.prems(1) [of c2]) (use c1 c2 in \<open>auto simp: op_simps same_keyboard_def ready_text_def\<close>)
qed

lemma wake_ready_readers_run:
  assumes "cn_ready c \<noteq> []"
  obtains q where "wake_ready_readers n h c = (take n (filter (alive h) (cn_waiters c)), c\<lparr>cn_waiters := q\<rparr>)"
    and "filter (alive h) q = drop n (filter (alive h) (cn_waiters c))"
  using assms
proof (induction n arbitrary: c thesis)
  case 0
  then show ?case by (metis (mono_tags, lifting) console.surjective console.update_convs(4) drop_0 take_0 wake_ready_readers.simps(1))
next
  case (Suc n)
  show ?case
  proof (cases "wq_wake_one h (cn_waiters c)")
    case (Pair r q)
    show ?thesis
    proof (cases r)
      case None
      with Pair wq.take_None [of h "cn_waiters c" q] Suc.prems show ?thesis by auto
    next
      case (Some p)
      obtain q' where q': "wake_ready_readers n h (c\<lparr>cn_waiters := q\<rparr>) = (take n (filter (alive h) q), c\<lparr>cn_waiters := q'\<rparr>)"
        "filter (alive h) q' = drop n (filter (alive h) q)"
        by (rule Suc.IH [of "c\<lparr>cn_waiters := q\<rparr>"]) (use Suc.prems in auto)
      with Pair Some wq.take_filter [of h "cn_waiters c" p q] Suc.prems show ?thesis by auto
    qed
  qed
qed

lemma console_submit_run:
  assumes "console_ok c"
  obtains c' where "console_submit_input keys (h, c) =
      (Inr (take (length (fst (typed (cn_line c) keys))) (filter (alive h) (cn_waiters c))), (h, c'))"
    and "console_ok c'" and "cn_line c' = snd (typed (cn_line c) keys)"
    and "cn_ready c' = cn_ready c @ ready_text (fst (typed (cn_line c) keys))"
    and "filter (alive h) (cn_waiters c') = drop (length (fst (typed (cn_line c) keys))) (filter (alive h) (cn_waiters c))"
proof -
  let ?ls = "fst (typed (cn_line c) keys)"
  let ?t = "(cn_terminal c)\<lparr>tm_keyboard := (tm_keyboard (cn_terminal c))\<lparr>kq_events := []\<rparr>\<rparr>"
  let ?c = "c\<lparr>cn_terminal := ?t\<rparr>"
  note ok = assms [unfolded console_ok_def]
  obtain c1 where c1: "handle_key_events keys ?c = (Inr (length ?ls), c1)" "display_ok (tm_display (cn_terminal c1))"
    "same_keyboard ?c c1" "cn_line c1 = snd (typed (cn_line c) keys)" "cn_ready c1 = cn_ready c @ ready_text ?ls"
    by (rule handle_key_events_run [of ?c keys]) (use ok in auto)
  have submit: "console_submit_input keys (h, c) =
      (case wake_ready_readers (length ?ls) h c1 of (readers, c) \<Rightarrow> (Inr readers, (h, c)))"
    using c1(1) ok by (simp add: console_submit_input_def terminal_submit_input_def submit_keys_unbounded drain_input_def
        kq_drain_run)
  show thesis
  proof (cases "?ls = []")
    case True
    with submit c1 ok show thesis by (intro that [of c1]) (auto simp: console_ok_def same_keyboard_def)
  next
    case False
    then have "cn_ready c1 \<noteq> []" using c1(5) by (cases ?ls) (auto simp: ready_text_def)
    then obtain q where q: "wake_ready_readers (length ?ls) h c1 =
        (take (length ?ls) (filter (alive h) (cn_waiters c1)), c1\<lparr>cn_waiters := q\<rparr>)"
      "filter (alive h) q = drop (length ?ls) (filter (alive h) (cn_waiters c1))"
      by (rule wake_ready_readers_run)
    show thesis
      by (rule that [of "c1\<lparr>cn_waiters := q\<rparr>"])
        (use submit q c1 ok in \<open>auto simp: console_ok_def same_keyboard_def\<close>)
  qed
qed

section \<open>Sequences of operations\<close>

datatype console_event = Typed string | Read nat tptr | Written string

definition console_event_step :: "console_event \<Rightarrow> (threads \<times> console, string) op" where
  "console_event_step ev = (case ev of
      Typed keys \<Rightarrow> bnd (console_submit_input keys) (\<lambda>_. ret [])
    | Read n p \<Rightarrow> bnd (console_read n p) (\<lambda>r. ret (case r of Ready_bytes b \<Rightarrow> b | Blocked_read \<Rightarrow> []))
    | Written s \<Rightarrow> bnd (focus snd (\<lambda>f (h, c). (h, f c)) (console_write s)) (\<lambda>_. ret []))"

primrec console_run :: "console_event list \<Rightarrow> (threads \<times> console, string) op" where
  "console_run [] = ret []"
| "console_run (ev # evs) = bnd (console_event_step ev) (\<lambda>b. bnd (console_run evs) (\<lambda>b'. ret (b @ b')))"

definition keys_of :: "console_event list \<Rightarrow> string" where
  "keys_of evs = concat (map (\<lambda>ev. case ev of Typed keys \<Rightarrow> keys | _ \<Rightarrow> []) evs)"

lemma typed_append:
  "typed l (xs @ ys) = (fst (typed l xs) @ fst (typed (snd (typed l xs)) ys), snd (typed (snd (typed l xs)) ys))"
  by (induction xs arbitrary: l) simp_all

lemma console_read_ready:
  assumes "console_ok c" and "console_read n p (h, c) = (Inr r, (h', c'))"
  shows "console_ok c'" and "cn_line c' = cn_line c"
    and "case r of Ready_bytes b \<Rightarrow> b = take n (cn_ready c) \<and> cn_ready c' = drop n (cn_ready c) \<and> h' = h \<and> cn_waiters c' = cn_waiters c
       | Blocked_read \<Rightarrow> cn_ready c = [] \<and> n \<noteq> 0 \<and> cn_ready c' = [] \<and> p \<in> set (cn_waiters c')"
  using assms
  by (auto simp: console_read_def copy_ready_input_def Let_def console_ok_def wq_wait_run min_def
      split: if_splits prod.splits sum.splits)

lemma console_event_step_keeps:
  assumes "console_ok c" and "console_event_step ev (h, c) = (Inr b, (h', c'))"
  shows "console_ok c' \<and> cn_line c' = snd (typed (cn_line c) (keys_of [ev]))
    \<and> b @ cn_ready c' = cn_ready c @ ready_text (fst (typed (cn_line c) (keys_of [ev])))"
proof (cases ev)
  case (Typed keys)
  obtain c1 where "console_submit_input keys (h, c) =
      (Inr (take (length (fst (typed (cn_line c) keys))) (filter (alive h) (cn_waiters c))), (h, c1))"
    "console_ok c1" "cn_line c1 = snd (typed (cn_line c) keys)"
    "cn_ready c1 = cn_ready c @ ready_text (fst (typed (cn_line c) keys))"
    by (rule console_submit_run [OF assms(1)])
  with Typed assms(2) show ?thesis by (auto simp: console_event_step_def op_simps keys_of_def)
next
  case (Read n p)
  obtain r s where rs: "console_read n p (h, c) = (r, s)" by (cases "console_read n p (h, c)")
  with Read assms(2) obtain r' where r: "console_read n p (h, c) = (Inr r', (h', c'))"
    "b = (case r' of Ready_bytes b \<Rightarrow> b | Blocked_read \<Rightarrow> [])"
    by (cases r) (simp_all add: console_event_step_def op_simps)
  note D = console_read_ready [OF assms(1) r(1)]
  have "b @ cn_ready c' = cn_ready c" using D(3) r(2) by (cases r') simp_all
  with D(1,2) Read show ?thesis by (simp add: keys_of_def ready_text_def)
next
  case (Written s)
  obtain t where "on_terminal (write_output s) c = (Inr (), c\<lparr>cn_terminal := t\<rparr>)" "display_ok (tm_display t)"
    "tm_keyboard t = tm_keyboard (cn_terminal c)"
    using assms(1) by (auto simp: console_ok_def intro: on_terminal_write [of c s])
  with Written assms show ?thesis
    by (auto simp: console_event_step_def console_write_def op_simps keys_of_def ready_text_def console_ok_def)
qed

lemma sample_terminal:
  obtains t where "TerminalDevice 80 25 = Inr t" and "console_ok (Console t)"
  by (simp add: TerminalDevice_def TextDisplayBuffer_def checked_text_display_cell_count_def sbind_def console_ok_def Console_def
      display_ok_def grid_ok_def)

text \<open>
  C0: Typing at the console edits lines and wakes readers. Whatever is typed, the console does not throw: keys before an
  enter edit the current line (a backspace removes its last character), each enter appends the line and a newline to
  the input that is ready, and exactly as many of the live waiting readers as lines were completed are woken, in the
  order in which they began to wait; the others go on waiting.
\<close>

theorem console_submit_correct:
  assumes "console_ok c" and "typed (cn_line c) keys = (ls, l)"
  shows "\<exists>c'. console_submit_input keys (h, c) = (Inr (take (length ls) (filter (alive h) (cn_waiters c))), (h, c'))
    \<and> cn_line c' = l \<and> cn_ready c' = cn_ready c @ ready_text ls
    \<and> filter (alive h) (cn_waiters c') = drop (length ls) (filter (alive h) (cn_waiters c)) \<and> console_ok c'"
  by (rule console_submit_run [OF assms(1), of keys h]) (use assms(2) in auto)

text \<open>Witness: two lines with a correction are typed into a new console.\<close>

theorem console_submit_correct_witness:
  "\<forall>h. \<exists>t c'. TerminalDevice 80 25 = Inr t
     \<and> console_submit_input (''lz'' @ [CHR 0x08] @ ''s'' @ [CHR 0x0A] @ ''x'') (h, Console t) = (Inr [], (h, c'))
     \<and> cn_ready c' = ''ls'' @ [CHR 0x0A] \<and> cn_line c' = ''x''"
proof
  fix h
  obtain t where t: "TerminalDevice 80 25 = Inr t" and ok: "console_ok (Console t)" by (rule sample_terminal)
  have "typed (cn_line (Console t)) (''lz'' @ [CHR 0x08] @ ''s'' @ [CHR 0x0A] @ ''x'') = ([''ls''], ''x'')"
    by (simp add: Console_def edit_key_def is_enter_def is_backspace_def is_printable_ascii_def terminal_constants)
  from console_submit_correct [OF ok this, of h] t
  show "\<exists>t c'. TerminalDevice 80 25 = Inr t
     \<and> console_submit_input (''lz'' @ [CHR 0x08] @ ''s'' @ [CHR 0x0A] @ ''x'') (h, Console t) = (Inr [], (h, c'))
     \<and> cn_ready c' = ''ls'' @ [CHR 0x0A] \<and> cn_line c' = ''x''"
    by (auto simp: Console_def ready_text_def terminal_constants)
qed

text \<open>
  C0: No input is lost, duplicated or reordered. In any sequence of typing, reading and writing, the bytes that the reads
  returned followed by the bytes still ready are the bytes that were ready at first followed by the completed lines of
  everything typed, and the unfinished line is kept.
\<close>

theorem console_input_preserved:
  assumes "console_ok c" and "console_run evs (h, c) = (Inr bytes, (h', c'))"
  shows "bytes @ cn_ready c' = cn_ready c @ ready_text (fst (typed (cn_line c) (keys_of evs)))
    \<and> cn_line c' = snd (typed (cn_line c) (keys_of evs)) \<and> console_ok c'"
  using assms
proof (induction evs arbitrary: c h bytes)
  case (Cons ev evs)
  obtain r1 h1 c1 where r1: "console_event_step ev (h, c) = (r1, (h1, c1))" by (cases "console_event_step ev (h, c)") auto
  obtain r2 s2 where r2: "console_run evs (h1, c1) = (r2, s2)" by (cases "console_run evs (h1, c1)")
  from Cons.prems(2) r1 r2 obtain b b' where b: "console_event_step ev (h, c) = (Inr b, (h1, c1))"
    "console_run evs (h1, c1) = (Inr b', (h', c'))" "bytes = b @ b'"
    by (cases r1; cases r2) (simp_all add: op_simps)
  note step = console_event_step_keeps [OF Cons.prems(1) b(1)]
  have keys: "keys_of (ev # evs) = keys_of [ev] @ keys_of evs" by (simp add: keys_of_def)
  from step Cons.IH [OF _ b(2)] b(3) show ?case unfolding keys typed_append by (auto simp: ready_text_def)
qed (auto simp: op_simps keys_of_def ready_text_def)

text \<open>Witness: a line is typed and read in two parts.\<close>

theorem console_input_preserved_witness:
  "\<forall>h. \<exists>t c'. TerminalDevice 80 25 = Inr t
     \<and> console_run [Typed (''hi'' @ [CHR 0x0A]), Read 1 0, Read 5 0] (h, Console t) = (Inr (''hi'' @ [CHR 0x0A]), (h, c'))
     \<and> cn_ready c' = []"
proof
  fix h
  obtain t where t: "TerminalDevice 80 25 = Inr t" and ok: "console_ok (Console t)" by (rule sample_terminal)
  let ?keys = "''hi'' @ [CHR 0x0A]" and ?evs = "[Typed (''hi'' @ [CHR 0x0A]), Read 1 0, Read 5 0]"
  have keys: "typed [] ?keys = ([''hi''], [])"
    by (simp add: edit_key_def is_enter_def is_backspace_def is_printable_ascii_def terminal_constants)
  obtain c1 where c1: "console_submit_input ?keys (h, Console t) = (Inr [], (h, c1))" "cn_ready c1 = ?keys"
    by (rule console_submit_run [OF ok, of ?keys h], unfold Console_def) (use keys in \<open>simp add: ready_text_def terminal_constants\<close>)
  then obtain bytes h' c' where run: "console_run ?evs (h, Console t) = (Inr bytes, (h', c'))" "cn_ready c' = []" "h' = h"
    by (simp add: op_simps console_event_step_def console_read_def copy_ready_input_def)
  from console_input_preserved [OF ok run(1)] run t keys
  show "\<exists>t c'. TerminalDevice 80 25 = Inr t \<and> console_run ?evs (h, Console t) = (Inr ?keys, (h, c')) \<and> cn_ready c' = []"
    by (auto simp: keys_of_def ready_text_def Console_def terminal_constants)
qed

end
