(* ===== verification/Apic.thy ===== *)
theory Apic
  imports CpuState
begin

text \<open>
  The interrupt controllers of \<^verbatim>\<open>cpu/system/apic.cpp\<close>: a local APIC per core with its timer and its queue of pending
  interrupts, the I/O APIC with a route per line, and the system that connects them.
\<close>

section \<open>Data\<close>

definition APIC_TIMER_MIN_INTERVAL_TICKS :: qword where "APIC_TIMER_MIN_INTERVAL_TICKS = 1"
definition IO_APIC_IRQ_LINE_COUNT :: nat where "IO_APIC_IRQ_LINE_COUNT = 24"

datatype apic_interrupt_kind = TIMER | IPI | EXTERNAL_IRQ

datatype apic_timer_mode = ONE_SHOT | PERIODIC

record apic_interrupt =
  ai_kind :: apic_interrupt_kind
  ai_vector :: interrupt_vector
  ai_target :: core_id
  ai_source :: "core_id option"
  ai_irq_line :: "byte option"

definition timer_interrupt :: "core_id \<Rightarrow> interrupt_vector \<Rightarrow> apic_interrupt" where
  "timer_interrupt target_core vector =
    \<lparr>ai_kind = TIMER, ai_vector = vector, ai_target = target_core, ai_source = Some target_core, ai_irq_line = None\<rparr>"

definition ipi_interrupt :: "core_id \<Rightarrow> core_id \<Rightarrow> interrupt_vector \<Rightarrow> apic_interrupt" where
  "ipi_interrupt source_core target_core vector =
    \<lparr>ai_kind = IPI, ai_vector = vector, ai_target = target_core, ai_source = Some source_core, ai_irq_line = None\<rparr>"

definition external_irq :: "byte \<Rightarrow> core_id \<Rightarrow> interrupt_vector \<Rightarrow> apic_interrupt" where
  "external_irq irq_line target_core vector =
    \<lparr>ai_kind = EXTERNAL_IRQ, ai_vector = vector, ai_target = target_core, ai_source = None, ai_irq_line = Some irq_line\<rparr>"

section \<open>Timer\<close>

record apic_timer =
  at_enabled :: bool
  at_mode :: apic_timer_mode
  at_vector :: interrupt_vector
  at_initial :: qword
  at_remaining :: qword
  at_elapsed :: qword

definition initial_timer :: apic_timer where
  "initial_timer = \<lparr>at_enabled = False, at_mode = ONE_SHOT, at_vector = vector_timer,
     at_initial = APIC_TIMER_MIN_INTERVAL_TICKS, at_remaining = APIC_TIMER_MIN_INTERVAL_TICKS, at_elapsed = 0\<rparr>"

definition timer_configure :: "interrupt_vector \<Rightarrow> qword \<Rightarrow> apic_timer_mode \<Rightarrow> (apic_timer, unit) op" where
  "timer_configure vector interval_ticks mode =
    (if interval_ticks < APIC_TIMER_MIN_INTERVAL_TICKS then throw Invalid_argument
     else modify (\<lambda>t. t\<lparr>at_vector := vector, at_initial := interval_ticks, at_remaining := interval_ticks,
       at_mode := mode, at_enabled := True\<rparr>))"

definition timer_disable :: "apic_timer \<Rightarrow> apic_timer" where
  "timer_disable t = t\<lparr>at_enabled := False\<rparr>"

definition timer_tick :: "apic_timer \<Rightarrow> interrupt_vector option \<times> apic_timer" where
  "timer_tick t =
    (if \<not> at_enabled t then (None, t)
     else let t = t\<lparr>at_elapsed := at_elapsed t + 1, at_remaining := at_remaining t - 1\<rparr> in
       if at_remaining t \<noteq> 0 then (None, t)
       else (Some (at_vector t),
         if at_mode t = PERIODIC then t\<lparr>at_remaining := at_initial t\<rparr> else t\<lparr>at_enabled := False\<rparr>))"

section \<open>Local APIC\<close>

record local_apic =
  la_core :: core_id
  la_enabled :: bool
  la_timer :: apic_timer
  la_pending :: "apic_interrupt list"

definition LocalApic :: "core_id \<Rightarrow> local_apic" where
  "LocalApic core_id = \<lparr>la_core = core_id, la_enabled = False, la_timer = initial_timer, la_pending = []\<rparr>"

definition la_enable :: "local_apic \<Rightarrow> local_apic" where
  "la_enable a = a\<lparr>la_enabled := True\<rparr>"

definition la_disable :: "local_apic \<Rightarrow> local_apic" where
  "la_disable a = a\<lparr>la_enabled := False\<rparr>"

definition configure_periodic_timer :: "interrupt_vector \<Rightarrow> qword \<Rightarrow> (local_apic, unit) op" where
  "configure_periodic_timer vector interval_ticks = focus la_timer la_timer_update (timer_configure vector interval_ticks PERIODIC)"

definition configure_one_shot_timer :: "interrupt_vector \<Rightarrow> qword \<Rightarrow> (local_apic, unit) op" where
  "configure_one_shot_timer vector interval_ticks = focus la_timer la_timer_update (timer_configure vector interval_ticks ONE_SHOT)"

definition la_tick :: "local_apic \<Rightarrow> apic_interrupt option \<times> local_apic" where
  "la_tick a =
    (if \<not> la_enabled a then (None, a)
     else case timer_tick (la_timer a) of
         (None, t) \<Rightarrow> (None, a\<lparr>la_timer := t\<rparr>)
       | (Some fired_vector, t) \<Rightarrow> (let i = timer_interrupt (la_core a) fired_vector in
           (Some i, a\<lparr>la_timer := t, la_pending := la_pending a @ [i]\<rparr>)))"

definition receive_interrupt :: "apic_interrupt \<Rightarrow> (local_apic, bool) op" where
  "receive_interrupt interrupt = (\<lambda>a.
    if ai_target interrupt \<noteq> la_core a then (Inl Logic_error, a)
    else if \<not> la_enabled a then (Inr False, a)
    else (Inr True, a\<lparr>la_pending := la_pending a @ [interrupt]\<rparr>))"

definition la_take_pending :: "local_apic \<Rightarrow> apic_interrupt option \<times> local_apic" where
  "la_take_pending a =
    (if \<not> la_enabled a then (None, a)
     else case la_pending a of [] \<Rightarrow> (None, a) | i # rest \<Rightarrow> (Some i, a\<lparr>la_pending := rest\<rparr>))"

section \<open>I/O APIC\<close>

record io_apic_route =
  ir_vector :: interrupt_vector
  ir_target :: core_id
  ir_masked :: bool

record route_slot =
  rs_route :: io_apic_route
  rs_present :: bool

definition empty_route :: route_slot where
  "empty_route = \<lparr>rs_route = \<lparr>ir_vector = vector_timer, ir_target = bootstrap_core, ir_masked = False\<rparr>, rs_present = False\<rparr>"

type_synonym io_apic = "route_slot list"

definition initial_io_apic :: io_apic where
  "initial_io_apic = replicate IO_APIC_IRQ_LINE_COUNT empty_route"

definition irq_index :: "byte \<Rightarrow> exn + nat" where
  "irq_index irq_line = (if unat irq_line \<ge> IO_APIC_IRQ_LINE_COUNT then Inl Out_of_range else Inr (unat irq_line))"

definition has_route :: "byte \<Rightarrow> io_apic \<Rightarrow> exn + bool" where
  "has_route irq_line a = sbind (irq_index irq_line) (\<lambda>i. Inr (rs_present (a ! i)))"

definition route_at :: "byte \<Rightarrow> io_apic \<Rightarrow> exn + io_apic_route" where
  "route_at irq_line a = sbind (irq_index irq_line) (\<lambda>i.
    if \<not> rs_present (a ! i) then Inl Out_of_range else Inr (rs_route (a ! i)))"

definition set_route :: "byte \<Rightarrow> interrupt_vector \<Rightarrow> core_id \<Rightarrow> (io_apic, unit) op" where
  "set_route irq_line vector target_core =
    bnd (lift_sum (irq_index irq_line)) (\<lambda>i.
    modify (\<lambda>a. a[i := \<lparr>rs_route = \<lparr>ir_vector = vector, ir_target = target_core, ir_masked = False\<rparr>, rs_present = True\<rparr>]))"

definition clear_route :: "byte \<Rightarrow> (io_apic, unit) op" where
  "clear_route irq_line =
    bnd (lift_sum (irq_index irq_line)) (\<lambda>i. modify (\<lambda>a. a[i := (a ! i)\<lparr>rs_present := False\<rparr>]))"

definition set_mask :: "bool \<Rightarrow> byte \<Rightarrow> (io_apic, unit) op" where
  "set_mask masked irq_line =
    bnd (lift_sum (irq_index irq_line)) (\<lambda>i a.
      if \<not> rs_present (a ! i) then (Inl Out_of_range, a)
      else (Inr (), a[i := (a ! i)\<lparr>rs_route := (rs_route (a ! i))\<lparr>ir_masked := masked\<rparr>\<rparr>]))"

definition mask_irq :: "byte \<Rightarrow> (io_apic, unit) op" where
  "mask_irq = set_mask True"

definition unmask_irq :: "byte \<Rightarrow> (io_apic, unit) op" where
  "unmask_irq = set_mask False"

definition io_raise_irq :: "byte \<Rightarrow> io_apic \<Rightarrow> exn + apic_interrupt option" where
  "io_raise_irq irq_line a = sbind (irq_index irq_line) (\<lambda>i.
    let slot = a ! i in
    if \<not> rs_present slot \<or> ir_masked (rs_route slot) then Inr None
    else Inr (Some (external_irq irq_line (ir_target (rs_route slot)) (ir_vector (rs_route slot)))))"

section \<open>The system\<close>

record apic_system =
  ap_topology :: core_topology
  ap_locals :: "local_apic list"
  ap_io :: io_apic

definition ApicSystem :: "core_topology \<Rightarrow> apic_system" where
  "ApicSystem topology = \<lparr>ap_topology = topology, ap_locals = map (\<lambda>i. LocalApic (of_nat i)) [0..<unat topology],
     ap_io = initial_io_apic\<rparr>"

definition local_apic_index :: "core_id \<Rightarrow> apic_system \<Rightarrow> exn + nat" where
  "local_apic_index core_id s = (if topology_contains (ap_topology s) core_id then Inr (unat core_id) else Inl Out_of_range)"

definition on_local_apic :: "core_id \<Rightarrow> (local_apic, 'a) op \<Rightarrow> (apic_system, 'a) op" where
  "on_local_apic core_id f = (\<lambda>s. case local_apic_index core_id s of
      Inl e \<Rightarrow> (Inl e, s)
    | Inr i \<Rightarrow> (case f (ap_locals s ! i) of (r, a) \<Rightarrow> (r, s\<lparr>ap_locals := (ap_locals s)[i := a]\<rparr>)))"

definition enable_local_apics :: "apic_system \<Rightarrow> apic_system" where
  "enable_local_apics s = s\<lparr>ap_locals := map la_enable (ap_locals s)\<rparr>"

definition apic_tick :: "core_id \<Rightarrow> (apic_system, apic_interrupt option) op" where
  "apic_tick core_id = on_local_apic core_id (\<lambda>a. case la_tick a of (i, a) \<Rightarrow> (Inr i, a))"

definition send_ipi :: "core_id \<Rightarrow> core_id \<Rightarrow> interrupt_vector \<Rightarrow> (apic_system, bool) op" where
  "send_ipi source_core target_core vector =
    bnd (\<lambda>s. (local_apic_index source_core s, s)) (\<lambda>_.
    on_local_apic target_core (receive_interrupt (ipi_interrupt source_core target_core vector)))"

primrec broadcast_loop :: "core_id \<Rightarrow> interrupt_vector \<Rightarrow> local_apic list \<Rightarrow> (exn + nat) \<times> local_apic list" where
  "broadcast_loop source_core vector [] = (Inr 0, [])"
| "broadcast_loop source_core vector (a # as) =
    (if la_core a = source_core then (case broadcast_loop source_core vector as of (r, as) \<Rightarrow> (r, a # as))
     else case receive_interrupt (ipi_interrupt source_core (la_core a) vector) a of
        (Inl e, a) \<Rightarrow> (Inl e, a # as)
      | (Inr delivered, a) \<Rightarrow> (case broadcast_loop source_core vector as of
          (r, as) \<Rightarrow> (sbind r (\<lambda>n. Inr (if delivered then n + 1 else n)), a # as)))"

definition broadcast_ipi :: "core_id \<Rightarrow> interrupt_vector \<Rightarrow> (apic_system, nat) op" where
  "broadcast_ipi source_core vector =
    bnd (\<lambda>s. (local_apic_index source_core s, s)) (\<lambda>_ s.
    case broadcast_loop source_core vector (ap_locals s) of (r, as) \<Rightarrow> (r, s\<lparr>ap_locals := as\<rparr>))"

definition apic_raise_irq :: "byte \<Rightarrow> (apic_system, apic_interrupt option) op" where
  "apic_raise_irq irq_line =
    bnd (\<lambda>s. (io_raise_irq irq_line (ap_io s), s)) (\<lambda>interrupt. case interrupt of
        None \<Rightarrow> ret None
      | Some i \<Rightarrow> bnd (on_local_apic (ai_target i) (receive_interrupt i)) (\<lambda>delivered.
          ret (if delivered then Some i else None)))"

definition take_pending_interrupt :: "core_id \<Rightarrow> (apic_system, apic_interrupt option) op" where
  "take_pending_interrupt core_id = on_local_apic core_id (\<lambda>a. case la_take_pending a of (i, a) \<Rightarrow> (Inr i, a))"

section \<open>The timer keeps its interval\<close>

text \<open>The ticks at which a timer fires, counted from one.\<close>

primrec timer_after :: "nat \<Rightarrow> apic_timer \<Rightarrow> apic_timer" where
  "timer_after 0 t = t"
| "timer_after (Suc k) t = snd (timer_tick (timer_after k t))"

definition fires_at :: "apic_timer \<Rightarrow> nat \<Rightarrow> bool" where
  "fires_at t k \<longleftrightarrow> 0 < k \<and> fst (timer_tick (timer_after (k - 1) t)) \<noteq> None"

lemma count_down:
  assumes "0 < m" and "m < 2 ^ 64"
  shows "(of_nat m :: qword) - 1 = of_nat (m - 1)" and "(of_nat (m - 1) :: qword) = 0 \<longleftrightarrow> m = 1"
proof -
  show "(of_nat m :: qword) - 1 = of_nat (m - 1)" using assms(1) by (simp add: of_nat_diff)
  have "m - 1 < 2 ^ LENGTH(64)" using assms(2) by simp
  then have "unat (of_nat (m - 1) :: qword) = m - 1" by (simp add: unat_of_nat take_bit_nat_eq_self)
  then show "(of_nat (m - 1) :: qword) = 0 \<longleftrightarrow> m = 1" using assms(1)
    by (auto simp flip: unat_eq_zero)
qed

lemma remaining_bounds:
  assumes "0 < unat (interval :: qword)"
  shows "0 < unat interval - k mod unat interval" and "unat interval - k mod unat interval < 2 ^ 64"
    and "unat interval - k mod unat interval = 1 \<longleftrightarrow> Suc (k mod unat interval) = unat interval"
proof -
  have "k mod unat interval < unat interval" using assms by simp
  then show "0 < unat interval - k mod unat interval" "unat interval - k mod unat interval < 2 ^ 64"
    "unat interval - k mod unat interval = 1 \<longleftrightarrow> Suc (k mod unat interval) = unat interval"
    using unat_less_64 [of interval] by linarith+
qed

lemma periodic_tick:
  assumes "at_enabled t" and "at_mode t = PERIODIC" and "0 < m" and "m < 2 ^ 64"
  shows "timer_tick (t\<lparr>at_remaining := of_nat m, at_elapsed := e\<rparr>) =
    (if m = 1 then (Some (at_vector t), t\<lparr>at_remaining := at_initial t, at_elapsed := e + 1\<rparr>)
     else (None, t\<lparr>at_remaining := of_nat (m - 1), at_elapsed := e + 1\<rparr>))"
  using assms(1,2) count_down [OF assms(3,4)] by (simp add: timer_tick_def Let_def)

lemma periodic_timer_after:
  assumes "at_enabled t" and "at_mode t = PERIODIC" and "at_remaining t = at_initial t" and "0 < unat (at_initial t)"
  shows "timer_after k t =
    t\<lparr>at_remaining := of_nat (unat (at_initial t) - k mod unat (at_initial t)), at_elapsed := at_elapsed t + of_nat k\<rparr>"
proof (induction k)
  case 0
  with assms show ?case by simp
next
  case (Suc k)
  let ?n = "unat (at_initial t)"
  note rem = remaining_bounds [OF assms(4), of k]
  have tick: "timer_after (Suc k) t = snd (timer_tick
      (t\<lparr>at_remaining := of_nat (?n - k mod ?n), at_elapsed := at_elapsed t + of_nat k\<rparr>))"
    unfolding timer_after.simps Suc ..
  show ?case
  proof (cases "Suc (k mod ?n) = ?n")
    case True
    then have "Suc k mod ?n = 0" by (simp add: mod_Suc)
    moreover have "?n - k mod ?n = 1" using True by linarith
    ultimately show ?thesis unfolding tick periodic_tick [OF assms(1,2) rem(1,2)] by (simp add: ac_simps)
  next
    case False
    then have "Suc k mod ?n = Suc (k mod ?n)" by (simp add: mod_Suc)
    moreover have "?n - k mod ?n \<noteq> 1" "?n - k mod ?n - 1 = ?n - Suc (k mod ?n)" using False rem(3) by auto
    ultimately show ?thesis unfolding tick periodic_tick [OF assms(1,2) rem(1,2)] by (simp only: if_False snd_conv) (simp add: ac_simps)
  qed
qed

text \<open>
  A periodic timer fires exactly at the multiples of its interval, for ever.
\<close>

lemma periodic_timer_fires:
  assumes "timer_configure vector interval PERIODIC t0 = (Inr (), t)"
  shows "fires_at t k \<longleftrightarrow> 0 < k \<and> unat interval dvd k"
proof (cases k)
  case (Suc j)
  have t: "at_enabled t" "at_mode t = PERIODIC" "at_remaining t = at_initial t" "at_initial t = interval" "0 < unat interval"
    using assms by (auto simp: timer_configure_def op_simps APIC_TIMER_MIN_INTERVAL_TICKS_def unat_gt_0 split: if_splits)
  let ?n = "unat interval"
  note rem = remaining_bounds [OF t(5), of j]
  have "fires_at t k \<longleftrightarrow> ?n - j mod ?n = 1"
    unfolding fires_at_def Suc diff_Suc_1 periodic_timer_after [OF t(1-3) t(5) [folded t(4)]] t(4)
      periodic_tick [OF t(1,2) rem(1,2)] by simp
  moreover have "unat interval dvd Suc j \<longleftrightarrow> Suc (j mod ?n) = ?n" by (simp add: dvd_eq_mod_eq_0 mod_Suc)
  ultimately show ?thesis using Suc rem(3) by simp
qed (simp add: fires_at_def)

section \<open>Delivery\<close>

definition apic_ok :: "apic_system \<Rightarrow> bool" where
  "apic_ok s \<longleftrightarrow> length (ap_locals s) = unat (ap_topology s) \<and> (\<forall>i < length (ap_locals s). la_core (ap_locals s ! i) = of_nat i)"

definition delivered_to :: "apic_interrupt \<Rightarrow> local_apic \<Rightarrow> local_apic" where
  "delivered_to i a = a\<lparr>la_pending := la_pending a @ [i]\<rparr>"

lemma apic_ok_new: "apic_ok (ApicSystem topology)"
  by (simp add: apic_ok_def ApicSystem_def LocalApic_def)

lemma broadcast_loop_run:
  "broadcast_loop src v as = (Inr (length (filter (\<lambda>a. la_core a \<noteq> src \<and> la_enabled a) as)),
     map (\<lambda>a. if la_core a \<noteq> src \<and> la_enabled a then delivered_to (ipi_interrupt src (la_core a) v) a else a) as)"
  by (induction as) (auto simp: receive_interrupt_def ipi_interrupt_def delivered_to_def sbind_def)

lemma send_ipi_run:
  assumes "apic_ok s"
  shows "send_ipi src dst v s =
    (if \<not> topology_contains (ap_topology s) src \<or> \<not> topology_contains (ap_topology s) dst then (Inl Out_of_range, s)
     else if la_enabled (ap_locals s ! unat dst)
       then (Inr True, s\<lparr>ap_locals := (ap_locals s)[unat dst := delivered_to (ipi_interrupt src dst v) (ap_locals s ! unat dst)]\<rparr>)
       else (Inr False, s))"
proof -
  have "la_core (ap_locals s ! unat dst) = dst" if "topology_contains (ap_topology s) dst"
    using assms that by (simp add: apic_ok_def topology_contains_def word_less_nat_alt)
  then show ?thesis
    by (auto simp: send_ipi_def op_simps local_apic_index_def on_local_apic_def receive_interrupt_def ipi_interrupt_def
        delivered_to_def)
qed

end
