(* ===== verification/Shootdown.thy ===== *)
theory Shootdown
  imports Mmu CpuState
begin

text \<open>
  TLB shootdown of \<^verbatim>\<open>cpu/memory/tlb_shootdown.cpp\<close>: a queue of requests, each for one core, that the core takes in order,
  applies to its own MMU and acknowledges. The set of acknowledged sequences that the code keeps beside the vector
  is the set of the vector's elements.
\<close>

section \<open>Requests\<close>

definition TLB_SHOOTDOWN_FIRST_SEQUENCE :: qword where "TLB_SHOOTDOWN_FIRST_SEQUENCE = 1"

datatype tlb_shootdown_scope = SCOPE_PAGE | SCOPE_ALL

record shootdown_request =
  sr_sequence :: qword
  sr_source :: core_id
  sr_target :: core_id
  sr_scope :: tlb_shootdown_scope
  sr_address :: "address64 option"
  sr_context :: "process_context_id option"

definition page_request ::
  "qword \<Rightarrow> core_id \<Rightarrow> core_id \<Rightarrow> address64 \<Rightarrow> process_context_id option \<Rightarrow> shootdown_request" where
  "page_request sequence source_core target_core linear_address context_id =
    \<lparr>sr_sequence = sequence, sr_source = source_core, sr_target = target_core, sr_scope = SCOPE_PAGE,
     sr_address = Some linear_address, sr_context = context_id\<rparr>"

definition all_request :: "qword \<Rightarrow> core_id \<Rightarrow> core_id \<Rightarrow> process_context_id option \<Rightarrow> shootdown_request" where
  "all_request sequence source_core target_core context_id =
    \<lparr>sr_sequence = sequence, sr_source = source_core, sr_target = target_core, sr_scope = SCOPE_ALL,
     sr_address = None, sr_context = context_id\<rparr>"

definition request_linear_address :: "shootdown_request \<Rightarrow> exn + address64" where
  "request_linear_address r = (case sr_address r of None \<Rightarrow> Inl Logic_error | Some a \<Rightarrow> Inr a)"

definition request_process_context_id :: "shootdown_request \<Rightarrow> exn + process_context_id" where
  "request_process_context_id r = (case sr_context r of None \<Rightarrow> Inl Logic_error | Some c \<Rightarrow> Inr c)"

section \<open>Controller\<close>

record shootdown_controller =
  sc_next_sequence :: qword
  sc_pending :: "shootdown_request list"
  sc_acknowledged :: "qword list"

definition initial_shootdown :: shootdown_controller where
  "initial_shootdown = \<lparr>sc_next_sequence = TLB_SHOOTDOWN_FIRST_SEQUENCE, sc_pending = [], sc_acknowledged = []\<rparr>"

definition next_sequence :: "shootdown_controller \<Rightarrow> qword \<times> shootdown_controller" where
  "next_sequence c = (sc_next_sequence c, c\<lparr>sc_next_sequence := sc_next_sequence c + 1\<rparr>)"

definition request_page ::
  "core_id \<Rightarrow> core_id \<Rightarrow> address64 \<Rightarrow> process_context_id option \<Rightarrow> shootdown_controller \<Rightarrow>
   shootdown_request \<times> shootdown_controller" where
  "request_page source_core target_core linear_address context_id c = (case next_sequence c of (sequence, c) \<Rightarrow>
    let r = page_request sequence source_core target_core linear_address context_id in
    (r, c\<lparr>sc_pending := sc_pending c @ [r]\<rparr>))"

definition request_all ::
  "core_id \<Rightarrow> core_id \<Rightarrow> process_context_id option \<Rightarrow> shootdown_controller \<Rightarrow> shootdown_request \<times> shootdown_controller" where
  "request_all source_core target_core context_id c = (case next_sequence c of (sequence, c) \<Rightarrow>
    let r = all_request sequence source_core target_core context_id in
    (r, c\<lparr>sc_pending := sc_pending c @ [r]\<rparr>))"

definition has_pending_for :: "core_id \<Rightarrow> shootdown_controller \<Rightarrow> bool" where
  "has_pending_for target_core c \<longleftrightarrow> (\<exists>r \<in> set (sc_pending c). sr_target r = target_core)"

primrec take_request :: "core_id \<Rightarrow> shootdown_request list \<Rightarrow> shootdown_request option \<times> shootdown_request list" where
  "take_request target_core [] = (None, [])"
| "take_request target_core (r # rs) =
    (if sr_target r = target_core then (Some r, rs)
     else case take_request target_core rs of (x, rs) \<Rightarrow> (x, r # rs))"

definition take_next_for :: "core_id \<Rightarrow> shootdown_controller \<Rightarrow> shootdown_request option \<times> shootdown_controller" where
  "take_next_for target_core c = (case take_request target_core (sc_pending c) of (r, rs) \<Rightarrow> (r, c\<lparr>sc_pending := rs\<rparr>))"

definition has_acknowledged :: "qword \<Rightarrow> shootdown_controller \<Rightarrow> bool" where
  "has_acknowledged sequence c \<longleftrightarrow> sequence \<in> set (sc_acknowledged c)"

definition acknowledge :: "qword \<Rightarrow> shootdown_controller \<Rightarrow> shootdown_controller" where
  "acknowledge sequence c =
    (if has_acknowledged sequence c then c else c\<lparr>sc_acknowledged := sc_acknowledged c @ [sequence]\<rparr>)"

definition shootdown_apply :: "shootdown_request \<Rightarrow> (shootdown_controller \<times> mmu_state, unit) op" where
  "shootdown_apply r =
    sq (if sr_scope r = SCOPE_PAGE
        then if sr_context r \<noteq> None
          then bnd (lift_sum (request_linear_address r)) (\<lambda>a.
               bnd (lift_sum (request_process_context_id r)) (\<lambda>ctx.
               modify (\<lambda>(c, m). (c, mmu_invalidate_page_context a ctx m))))
          else bnd (lift_sum (request_linear_address r)) (\<lambda>a. modify (\<lambda>(c, m). (c, mmu_invalidate_page a m)))
        else if sr_context r \<noteq> None
          then bnd (lift_sum (request_process_context_id r)) (\<lambda>ctx. modify (\<lambda>(c, m). (c, flush_tlb_context ctx m)))
          else modify (\<lambda>(c, m). (c, flush_tlb m)))
    (modify (\<lambda>(c, m). (acknowledge (sr_sequence r) c, m)))"

section \<open>What a request removes\<close>

definition request_ok :: "shootdown_request \<Rightarrow> bool" where
  "request_ok r \<longleftrightarrow> (sr_scope r = SCOPE_PAGE \<longrightarrow> sr_address r \<noteq> None)"

definition request_covers :: "shootdown_request \<Rightarrow> process_context_id \<Rightarrow> page_translation \<Rightarrow> bool" where
  "request_covers r ctx tr \<longleftrightarrow> (case sr_context r of None \<Rightarrow> True | Some c \<Rightarrow> ctx = c)
     \<and> (sr_scope r = SCOPE_PAGE \<longrightarrow> translation_contains tr (the (sr_address r)))"

lemma request_ok_made: "request_ok (page_request n s t a c)" "request_ok (all_request n s t c)"
  by (simp_all add: request_ok_def page_request_def all_request_def)

lemma tlb_clear_invalidate: "tlb_inv t \<Longrightarrow> tlb_cached (tlb_clear t) = tlb_cached (invalidate_where (\<lambda>_. True) t)"
  by (auto simp: tlb_cached_clear tlb_cached_invalidate)

text \<open>Applying a request removes exactly the covered associations and acknowledges the request.\<close>

lemma shootdown_apply_run:
  assumes "request_ok r" and "tlb_inv (mmu_tlb m)"
  obtains m' where "shootdown_apply r (c, m) = (Inr (), (acknowledge (sr_sequence r) c, m'))"
    and "tlb_inv (mmu_tlb m')"
    and "tlb_cached (mmu_tlb m') = {(g, ctx, tr) \<in> tlb_cached (mmu_tlb m). \<not> request_covers r ctx tr}"
    and "mmu_mem m' = mmu_mem m"
proof -
  let ?sel = "\<lambda>e :: tlb_entry. request_covers r (te_context_id e) (te_translation e)"
  obtain t where run: "shootdown_apply r (c, m) = (Inr (), (acknowledge (sr_sequence r) c, m\<lparr>mmu_tlb := t\<rparr>))"
    and t: "t = invalidate_where ?sel (mmu_tlb m) \<or> (t = tlb_clear (mmu_tlb m) \<and> ?sel = (\<lambda>_. True))"
  proof (cases "sr_scope r"; cases "sr_context r")
    assume "sr_scope r = SCOPE_PAGE" "sr_context r = None"
    with assms(1) show thesis
      by (intro that [of "invalidate_where ?sel (mmu_tlb m)"]) (auto simp: shootdown_apply_def op_simps request_linear_address_def
          request_ok_def mmu_invalidate_page_def tlb_invalidate_page_def request_covers_def)
  next
    fix x assume "sr_scope r = SCOPE_PAGE" "sr_context r = Some x"
    with assms(1) show thesis
      by (intro that [of "invalidate_where ?sel (mmu_tlb m)"]) (auto simp: shootdown_apply_def op_simps request_linear_address_def
          request_process_context_id_def request_ok_def mmu_invalidate_page_context_def tlb_invalidate_page_context_def
          request_covers_def)
  next
    assume "sr_scope r = SCOPE_ALL" "sr_context r = None"
    then show thesis
      by (intro that [of "tlb_clear (mmu_tlb m)"]) (auto simp: shootdown_apply_def op_simps flush_tlb_def request_covers_def)
  next
    fix x assume "sr_scope r = SCOPE_ALL" "sr_context r = Some x"
    then show thesis
      by (intro that [of "invalidate_where ?sel (mmu_tlb m)"]) (auto simp: shootdown_apply_def op_simps
          request_process_context_id_def flush_tlb_context_def tlb_invalidate_context_def request_covers_def)
  qed
  have "tlb_cached t = tlb_cached (invalidate_where ?sel (mmu_tlb m))"
    using t
  proof (elim disjE conjE)
    assume "t = tlb_clear (mmu_tlb m)" and sel: "?sel = (\<lambda>_. True)"
    then show ?thesis
      using tlb_clear_invalidate [OF assms(2)] arg_cong [OF sel, of "\<lambda>s. tlb_cached (invalidate_where s (mmu_tlb m))"] by argo
  qed simp
  also have "\<dots> = {(g, ctx, tr) \<in> tlb_cached (mmu_tlb m). \<not> request_covers r ctx tr}"
    unfolding tlb_cached_invalidate [OF assms(2)] by (auto simp: tlb_cached_def)
  finally have "tlb_cached t = {(g, ctx, tr) \<in> tlb_cached (mmu_tlb m). \<not> request_covers r ctx tr}" .
  moreover have "tlb_inv t" using t tlb_inv_invalidate [OF assms(2)] tlb_inv_clear [OF assms(2)] by (elim disjE conjE) simp_all
  ultimately show thesis using that [OF run] by simp
qed

section \<open>A core serves its requests\<close>

definition apply_next :: "core_id \<Rightarrow> (shootdown_controller \<times> mmu_state, bool) op" where
  "apply_next core_id = (\<lambda>(c, m). case take_next_for core_id c of
      (None, c) \<Rightarrow> (Inr False, (c, m))
    | (Some r, c) \<Rightarrow> sq (shootdown_apply r) (ret True) (c, m))"

primrec apply_times :: "nat \<Rightarrow> core_id \<Rightarrow> (shootdown_controller \<times> mmu_state, unit) op" where
  "apply_times 0 core_id = ret ()"
| "apply_times (Suc n) core_id = bnd (apply_next core_id) (\<lambda>applied. if applied then apply_times n core_id else ret ())"

definition requests_for :: "core_id \<Rightarrow> shootdown_controller \<Rightarrow> shootdown_request list" where
  "requests_for cid c = filter (\<lambda>r. sr_target r = cid) (sc_pending c)"

lemma take_request_None: "take_request cid rs = (None, rs') \<Longrightarrow> rs' = rs \<and> filter (\<lambda>r. sr_target r = cid) rs = []"
  by (induction rs arbitrary: rs') (auto split: if_splits prod.splits)

lemma take_request_Some:
  assumes "take_request cid rs = (Some r, rs')"
  shows "filter (\<lambda>r. sr_target r = cid) rs = r # filter (\<lambda>r. sr_target r = cid) rs'"
    and "filter (\<lambda>r. sr_target r \<noteq> cid) rs' = filter (\<lambda>r. sr_target r \<noteq> cid) rs" and "set rs' \<subseteq> set rs" and "r \<in> set rs"
  using assms by (induction rs arbitrary: rs') (auto split: if_splits prod.splits)

lemma acknowledge_set: "set (sc_acknowledged (acknowledge n c)) = insert n (set (sc_acknowledged c))"
  by (auto simp: acknowledge_def has_acknowledged_def)

lemma acknowledge_pending [simp]: "sc_pending (acknowledge n c) = sc_pending c"
  by (simp add: acknowledge_def)

text \<open>
  A core that takes its requests until none is left has applied them all: its TLB has lost exactly the associations
  that one of the requests covers, the requests are acknowledged, and those for other cores are still pending.
\<close>

lemma shootdown_served:
  assumes "\<forall>r \<in> set (sc_pending c). request_ok r" and "tlb_inv (mmu_tlb m)" and "length (requests_for cid c) \<le> n"
  obtains c' m' where "apply_times n cid (c, m) = (Inr (), (c', m'))" and "requests_for cid c' = []"
    and "filter (\<lambda>r. sr_target r \<noteq> cid) (sc_pending c') = filter (\<lambda>r. sr_target r \<noteq> cid) (sc_pending c)"
    and "set (sc_acknowledged c') = set (sc_acknowledged c) \<union> sr_sequence ` set (requests_for cid c)"
    and "tlb_inv (mmu_tlb m')"
    and "tlb_cached (mmu_tlb m') =
      {(g, ctx, tr) \<in> tlb_cached (mmu_tlb m). \<forall>r \<in> set (requests_for cid c). \<not> request_covers r ctx tr}"
  using assms
proof (induction n arbitrary: c m thesis)
  case 0
  then show ?case by (auto simp: op_simps)
next
  case (Suc n)
  obtain x rs where take: "take_request cid (sc_pending c) = (x, rs)" by (cases "take_request cid (sc_pending c)")
  show ?case
  proof (cases x)
    case None
    from take_request_None [OF take [unfolded None]] have "rs = sc_pending c" "requests_for cid c = []"
      by (auto simp: requests_for_def)
    with take None Suc.prems show ?thesis by (auto simp: apply_next_def take_next_for_def op_simps)
  next
    case (Some r)
    note T = take_request_Some [OF take [unfolded Some]]
    let ?c = "c\<lparr>sc_pending := rs\<rparr>"
    obtain m1 where m1: "shootdown_apply r (?c, m) = (Inr (), (acknowledge (sr_sequence r) ?c, m1))" "tlb_inv (mmu_tlb m1)"
      "tlb_cached (mmu_tlb m1) = {(g, ctx, tr) \<in> tlb_cached (mmu_tlb m). \<not> request_covers r ctx tr}"
      by (rule shootdown_apply_run [of r m ?c]) (use Suc.prems T(4) in auto)
    let ?c1 = "acknowledge (sr_sequence r) ?c"
    have req: "requests_for cid c = r # requests_for cid ?c1" using T(1) by (simp add: requests_for_def)
    have "\<forall>r \<in> set (sc_pending ?c1). request_ok r" using Suc.prems(2) T(3) by auto
    moreover have "length (requests_for cid ?c1) \<le> n" using Suc.prems(4) req by simp
    ultimately obtain c' m' where r: "apply_times n cid (?c1, m1) = (Inr (), (c', m'))" "requests_for cid c' = []"
      "filter (\<lambda>r. sr_target r \<noteq> cid) (sc_pending c') = filter (\<lambda>r. sr_target r \<noteq> cid) (sc_pending ?c1)"
      "set (sc_acknowledged c') = set (sc_acknowledged ?c1) \<union> sr_sequence ` set (requests_for cid ?c1)"
      "tlb_inv (mmu_tlb m')"
      "tlb_cached (mmu_tlb m') =
        {(g, ctx, tr) \<in> tlb_cached (mmu_tlb m1). \<forall>r \<in> set (requests_for cid ?c1). \<not> request_covers r ctx tr}"
      using Suc.IH [OF _ _ m1(2)] by blast
    show ?thesis
    proof (rule Suc.prems(1))
      show "apply_times (Suc n) cid (c, m) = (Inr (), (c', m'))"
        using take Some m1(1) r(1) by (simp add: apply_next_def take_next_for_def op_simps)
      show "set (sc_acknowledged c') = set (sc_acknowledged c) \<union> sr_sequence ` set (requests_for cid c)"
        unfolding r(4) req acknowledge_set by auto
      show "tlb_cached (mmu_tlb m') =
        {(g, ctx, tr) \<in> tlb_cached (mmu_tlb m). \<forall>r \<in> set (requests_for cid c). \<not> request_covers r ctx tr}"
        unfolding r(6) req m1(3) by auto
    qed (use r T(2) in auto)
  qed
qed

end
