(* ===== verification/Kernel.thy ===== *)
theory Kernel
  imports FileDesc Console Apic Shootdown Cow Smp Futex
begin

text \<open>
  Processes (\<^verbatim>\<open>os/proc/process.cpp\<close>) and the kernel object (\<^verbatim>\<open>os/kernel/kernel.cpp\<close>), which owns every service and connects
  them: threads block in wait queues and leave the scheduler, wake-ups bring them back, file descriptors lead to the
  console or to files, fork shares pages and open files.

  The kernel's state is one record. The services that the source keeps as optionals are filled in by \<^verbatim>\<open>boot\<close>; every
  operation checks \<^verbatim>\<open>booted_\<close> first and throws \<^verbatim>\<open>std::logic_error\<close> otherwise, and after a successful boot all services are
  present, so the stage checks are the one test \<open>require_booted\<close>. A reference to a process is its index in the deque of
  processes, which only grows. Threads live in the store of the scheduler's state, at addresses that are never used
  again.
\<close>

section \<open>Processes\<close>

datatype process_state = PROCESS_RUNNING | PROCESS_EXITED | PROCESS_REAPED

definition PROCESS_ID_INVALID_VALUE :: process_id where "PROCESS_ID_INVALID_VALUE = 0"
definition PROCESS_ID_FIRST_USER_VALUE :: process_id where "PROCESS_ID_FIRST_USER_VALUE = 1"
definition THREAD_ID_FIRST_KERNEL_VALUE :: thread_id where "THREAD_ID_FIRST_KERNEL_VALUE = 1"

record process =
  pr_id :: process_id
  pr_parent :: process_id
  pr_state :: process_state
  pr_exit_code :: qword
  pr_space :: address_space
  pr_files :: descriptor_table
  pr_threads :: "tptr list"

definition process_context_id_for :: "process_id \<Rightarrow> exn + process_context_id" where
  "process_context_id_for pid =
    (if pid > ucast PROCESS_CONTEXT_ID_MAX_VALUE then Inl Out_of_range else Inr (ucast pid))"

definition Process ::
  "process_id \<Rightarrow> address_space \<Rightarrow> process_id \<Rightarrow> descriptions \<Rightarrow> (exn + process) \<times> descriptions" where
  "Process pid space parent_id ds = (case FileDescriptorTable ds of
      (Inl e, (ds, t)) \<Rightarrow> (Inl e, ds)
    | (Inr _, (ds, t)) \<Rightarrow>
        (if pid = PROCESS_ID_INVALID_VALUE then (Inl Invalid_argument, ds)
         else (Inr \<lparr>pr_id = pid, pr_parent = parent_id, pr_state = PROCESS_RUNNING, pr_exit_code = 0, pr_space = space,
           pr_files = t, pr_threads = []\<rparr>, ds)))"

definition contains_thread_id :: "threads \<Rightarrow> thread_id \<Rightarrow> process \<Rightarrow> bool" where
  "contains_thread_id h tid p \<longleftrightarrow> list_ex (\<lambda>t. th_id (h t) = tid) (pr_threads p)"

definition mark_exited :: "qword \<Rightarrow> (process, unit) op" where
  "mark_exited exit_code = (\<lambda>p.
    if pr_state p = PROCESS_REAPED then (Inl Logic_error, p)
    else if pr_state p \<noteq> PROCESS_RUNNING then (Inl Logic_error, p)
    else (Inr (), p\<lparr>pr_state := PROCESS_EXITED, pr_exit_code := exit_code\<rparr>))"

definition mark_reaped :: "(process, unit) op" where
  "mark_reaped = (\<lambda>p. if pr_state p \<noteq> PROCESS_EXITED then (Inl Logic_error, p)
    else (Inr (), p\<lparr>pr_state := PROCESS_REAPED\<rparr>))"

section \<open>The kernel's state\<close>

definition KERNEL_RESERVED_LOW_PAGE_COUNT :: nat where "KERNEL_RESERVED_LOW_PAGE_COUNT = 1"
definition KERNEL_MIN_BOOTABLE_PAGE_COUNT :: nat where "KERNEL_MIN_BOOTABLE_PAGE_COUNT = 2"
definition KERNEL_DEFAULT_TABLE_ARENA_PAGE_COUNT :: nat where "KERNEL_DEFAULT_TABLE_ARENA_PAGE_COUNT = 16"
definition KERNEL_DEFAULT_THREAD_STACK_BASE :: address64 where "KERNEL_DEFAULT_THREAD_STACK_BASE = 0x70000000"
definition KERNEL_THREAD_STACK_STRIDE :: address64 where "KERNEL_THREAD_STACK_STRIDE = MM_PAGE_SIZE_BYTES * 16"
definition KERNEL_STAGE7_DEFAULT_TIMER_INTERVAL_TICKS :: qword where "KERNEL_STAGE7_DEFAULT_TIMER_INTERVAL_TICKS = 1"
definition KERNEL_SCHEDULER_HANDOFF_FIRST_SEQUENCE :: qword where "KERNEL_SCHEDULER_HANDOFF_FIRST_SEQUENCE = 1"
definition KERNEL_STAGE15_ROOT_BLOCK_COUNT :: qword where "KERNEL_STAGE15_ROOT_BLOCK_COUNT = 4096"
definition KERNEL_STAGE15_BUFFER_CACHE_BLOCKS :: qword where "KERNEL_STAGE15_BUFFER_CACHE_BLOCKS = 64"
definition KERNEL_STAGE15_ROOT_INODE_COUNT :: dword where "KERNEL_STAGE15_ROOT_INODE_COUNT = 128"
definition DEFAULT_KERNEL_STACK_SIZE_BYTES :: qword where "DEFAULT_KERNEL_STACK_SIZE_BYTES = 4 * MM_PAGE_SIZE_BYTES"

record wait_entry =
  we_parent :: process_id
  we_child :: process_id
  we_queue :: wait_queue

record scheduler_handoff =
  ho_sequence :: qword
  ho_source :: core_id
  ho_target :: core_id
  ho_thread :: thread_id

datatype process_wait_result = Wait_exited process_id qword | Wait_blocked process_id | No_child process_id

record kernel =
  kn_booted :: bool
  kn_memory :: phys_mem
  kn_allocator :: physical_page_allocator
  kn_space :: address_space
  kn_apic :: apic_system
  kn_smp_queues :: "core_queue list"
  kn_topology :: core_topology
  kn_scheduler :: rr_state
  kn_sleepers :: sleep_queue
  kn_ticks :: scheduler_tick
  kn_shootdown :: shootdown_controller
  kn_cow :: cow_manager
  kn_futexes :: futex_table
  kn_console :: console
  kn_root_fs :: simple_fs_layout
  kn_cache :: buffer_cache
  kn_descriptions :: descriptions
  kn_processes :: "process list"
  kn_wait_entries :: "wait_entry list"
  kn_handoffs :: "scheduler_handoff list"
  kn_next_process_id :: process_id
  kn_next_thread_id :: thread_id
  kn_next_handoff :: qword
  kn_next_stack :: address64
  kn_next_thread :: tptr

abbreviation kn_threads :: "kernel \<Rightarrow> threads" where
  "kn_threads k \<equiv> rr_threads (kn_scheduler k)"

abbreviation kn_current :: "kernel \<Rightarrow> tptr option" where
  "kn_current k \<equiv> rr_current (kn_scheduler k)"

text \<open>Operations of the services, on the kernel's state.\<close>

definition on_scheduler :: "(rr_state, 'a) op \<Rightarrow> (kernel, 'a) op" where
  "on_scheduler f = focus kn_scheduler kn_scheduler_update f"

definition rr_call :: "(rr_state \<Rightarrow> 'a \<times> rr_state) \<Rightarrow> (kernel, 'a) op" where
  "rr_call f = on_scheduler (\<lambda>s. case f s of (r, s) \<Rightarrow> (Inr r, s))"

definition with_threads ::
  "(kernel \<Rightarrow> 'q) \<Rightarrow> (('q \<Rightarrow> 'q) \<Rightarrow> kernel \<Rightarrow> kernel) \<Rightarrow> (threads \<times> 'q, 'a) op \<Rightarrow> (kernel, 'a) op" where
  "with_threads get upd f = (\<lambda>k. case f (kn_threads k, get k) of
     (r, (h, q)) \<Rightarrow> (r, upd (\<lambda>_. q) (k\<lparr>kn_scheduler := (kn_scheduler k)\<lparr>rr_threads := h\<rparr>\<rparr>)))"

definition on_smp :: "(smp, 'a) op \<Rightarrow> (kernel, 'a) op" where
  "on_smp f = (\<lambda>k. case f \<lparr>sm_threads = kn_threads k, sm_topology = kn_topology k, sm_queues = kn_smp_queues k\<rparr> of
     (r, s) \<Rightarrow> (r, k\<lparr>kn_scheduler := (kn_scheduler k)\<lparr>rr_threads := sm_threads s\<rparr>, kn_smp_queues := sm_queues s\<rparr>))"

definition on_cache :: "(buffer_cache, 'a) op \<Rightarrow> (kernel, 'a) op" where
  "on_cache f = focus kn_cache kn_cache_update f"

definition on_allocator_of :: "(physical_page_allocator, 'a) op \<Rightarrow> (kernel, 'a) op" where
  "on_allocator_of f = focus kn_allocator kn_allocator_update f"

definition on_process :: "nat \<Rightarrow> (process, 'a) op \<Rightarrow> (kernel, 'a) op" where
  "on_process i f = (\<lambda>k. case f (kn_processes k ! i) of (r, p) \<Rightarrow> (r, k\<lparr>kn_processes := (kn_processes k)[i := p]\<rparr>))"

definition require_booted :: "(kernel, unit) op" where
  "require_booted = (\<lambda>k. require (kn_booted k) Logic_error k)"

section \<open>Processes and threads of the kernel\<close>

definition create_address_space :: "nat \<Rightarrow> (kernel, address_space) op" where
  "create_address_space table_arena_page_count =
    bnd (gets (\<lambda>k. free_page_count (kn_allocator k))) (\<lambda>free_pages.
    let actual_table_arena_page_count = (if table_arena_page_count < free_pages then table_arena_page_count else free_pages) in
    if actual_table_arena_page_count = 0 then throw Bad_alloc
    else bnd (on_allocator_of (allocate_contiguous actual_table_arena_page_count)) (\<lambda>table_arena_start k.
      case AddressSpace table_arena_start (table_arena_start + MM_PAGE_SIZE_BYTES)
          (table_arena_start + of_nat actual_table_arena_page_count * MM_PAGE_SIZE_BYTES) (kn_memory k) of
        (Inl e, (space, m)) \<Rightarrow> (Inl e, k\<lparr>kn_memory := m\<rparr>)
      | (Inr _, (space, m)) \<Rightarrow> (Inr space, k\<lparr>kn_memory := m\<rparr>)))"

definition next_kernel_stack_bottom :: "(kernel, address64) op" where
  "next_kernel_stack_bottom = (\<lambda>k. (Inr (kn_next_stack k), k\<lparr>kn_next_stack := kn_next_stack k + KERNEL_THREAD_STACK_STRIDE\<rparr>))"

definition create_process_with_parent :: "process_id \<Rightarrow> (kernel, nat) op" where
  "create_process_with_parent parent_id =
    sq require_booted
   (bnd (gets kn_next_process_id) (\<lambda>pid.
    sq (modify (\<lambda>k. k\<lparr>kn_next_process_id := kn_next_process_id k + 1\<rparr>))
   (bnd (create_address_space KERNEL_DEFAULT_TABLE_ARENA_PAGE_COUNT) (\<lambda>space k.
    case Process pid space parent_id (kn_descriptions k) of
      (Inl e, ds) \<Rightarrow> (Inl e, k\<lparr>kn_descriptions := ds\<rparr>)
    | (Inr p, ds) \<Rightarrow> (Inr (length (kn_processes k)), k\<lparr>kn_descriptions := ds, kn_processes := kn_processes k @ [p]\<rparr>)))))"

definition create_process :: "(kernel, nat) op" where
  "create_process = create_process_with_parent PROCESS_ID_INVALID_VALUE"

text \<open>\<^verbatim>\<open>Process::create_thread\<close>, on the kernel's store of threads.\<close>

definition process_create_thread :: "nat \<Rightarrow> thread_id \<Rightarrow> address64 \<Rightarrow> qword \<Rightarrow> (kernel, tptr) op" where
  "process_create_thread i tid kernel_stack_bottom kernel_stack_size_bytes = (\<lambda>k.
    let p = kn_processes k ! i in
    if pr_state p \<noteq> PROCESS_RUNNING then (Inl Logic_error, k)
    else if contains_thread_id (kn_threads k) tid p then (Inl Logic_error, k)
    else case ThreadContext tid kernel_stack_bottom kernel_stack_size_bytes of
      Inl e \<Rightarrow> (Inl e, k)
    | Inr t \<Rightarrow> (let q = kn_next_thread k in
        (Inr q, k\<lparr>kn_scheduler := (kn_scheduler k)\<lparr>rr_threads := (kn_threads k)(q := t)\<rparr>, kn_next_thread := q + 1,
          kn_processes := (kn_processes k)[i := p\<lparr>pr_threads := pr_threads p @ [q]\<rparr>]\<rparr>)))"

definition take_thread_id :: "(kernel, thread_id) op" where
  "take_thread_id = (\<lambda>k. (Inr (kn_next_thread_id k), k\<lparr>kn_next_thread_id := kn_next_thread_id k + 1\<rparr>))"

definition create_thread_at :: "nat \<Rightarrow> address64 \<Rightarrow> qword \<Rightarrow> (kernel, tptr) op" where
  "create_thread_at i kernel_stack_bottom kernel_stack_size_bytes =
    sq require_booted
   (bnd take_thread_id (\<lambda>tid.
    bnd (process_create_thread i tid kernel_stack_bottom kernel_stack_size_bytes) (\<lambda>t.
    sq (on_scheduler (rr_enqueue t))
    (ret t))))"

definition create_thread :: "nat \<Rightarrow> (kernel, tptr) op" where
  "create_thread i = bnd next_kernel_stack_bottom (\<lambda>bottom. create_thread_at i bottom DEFAULT_KERNEL_STACK_SIZE_BYTES)"

definition create_thread_on_core_at :: "nat \<Rightarrow> core_id \<Rightarrow> address64 \<Rightarrow> qword \<Rightarrow> (kernel, tptr) op" where
  "create_thread_on_core_at i target_core kernel_stack_bottom kernel_stack_size_bytes =
    sq require_booted
   (bnd (on_smp (\<lambda>s. (core_load target_core s, s))) (\<lambda>_.
    bnd take_thread_id (\<lambda>tid.
    bnd (process_create_thread i tid kernel_stack_bottom kernel_stack_size_bytes) (\<lambda>t.
    sq (on_smp (smp_enqueue_on t target_core))
    (ret t)))))"

definition create_thread_on_core :: "nat \<Rightarrow> core_id \<Rightarrow> (kernel, tptr) op" where
  "create_thread_on_core i target_core = bnd next_kernel_stack_bottom (\<lambda>bottom.
    create_thread_on_core_at i target_core bottom DEFAULT_KERNEL_STACK_SIZE_BYTES)"

definition find_process_by_id :: "process_id \<Rightarrow> kernel \<Rightarrow> nat option" where
  "find_process_by_id pid k = find (\<lambda>i. pr_id (kn_processes k ! i) = pid) [0..<length (kn_processes k)]"

definition process_at :: "nat \<Rightarrow> kernel \<Rightarrow> exn + nat" where
  "process_at index k = (if index \<ge> length (kn_processes k) then Inl Out_of_range else Inr index)"

section \<open>Exit and wait\<close>

definition remove_process_wait_entries_for_child :: "process_id \<Rightarrow> kernel \<Rightarrow> kernel" where
  "remove_process_wait_entries_for_child child_id k =
    k\<lparr>kn_wait_entries := filter (\<lambda>e. we_child e \<noteq> child_id) (kn_wait_entries k)\<rparr>"

text \<open>The entry for a pair, appended when there is none yet: its index.\<close>

definition process_wait_entry :: "process_id \<Rightarrow> process_id \<Rightarrow> kernel \<Rightarrow> nat \<times> kernel" where
  "process_wait_entry parent_id child_id k =
    (case find (\<lambda>i. we_parent (kn_wait_entries k ! i) = parent_id \<and> we_child (kn_wait_entries k ! i) = child_id)
        [0..<length (kn_wait_entries k)] of
       Some i \<Rightarrow> (i, k)
     | None \<Rightarrow> (length (kn_wait_entries k), k\<lparr>kn_wait_entries := kn_wait_entries k @
         [\<lparr>we_parent = parent_id, we_child = child_id, we_queue = []\<rparr>]\<rparr>))"

definition entry_wait :: "nat \<Rightarrow> tptr \<Rightarrow> (kernel, unit) op" where
  "entry_wait i waiter = (\<lambda>k. case wq_wait waiter (kn_threads k, we_queue (kn_wait_entries k ! i)) of
     (r, (h, q)) \<Rightarrow> (r, k\<lparr>kn_scheduler := (kn_scheduler k)\<lparr>rr_threads := h\<rparr>,
       kn_wait_entries := (kn_wait_entries k)[i := (kn_wait_entries k ! i)\<lparr>we_queue := q\<rparr>]\<rparr>))"

definition wake_each :: "tptr list \<Rightarrow> (kernel, unit) op" where
  "wake_each ps = for_each (\<lambda>p. on_scheduler (rr_wake p)) ps"

definition wake_entry :: "process_id \<Rightarrow> nat \<Rightarrow> (kernel, unit) op" where
  "wake_entry pid i = (\<lambda>k. let e = kn_wait_entries k ! i in
    if we_child e \<noteq> pid then (Inr (), k)
    else case wq_wake_all (kn_threads k) (we_queue e) of
      (waiters, q) \<Rightarrow> wake_each waiters (k\<lparr>kn_wait_entries := (kn_wait_entries k)[i := e\<lparr>we_queue := q\<rparr>]\<rparr>))"

definition wake_process_waiters :: "process_id \<Rightarrow> (kernel, unit) op" where
  "wake_process_waiters pid =
    bnd (gets (\<lambda>k. length (kn_wait_entries k))) (\<lambda>n.
    sq (for_each (wake_entry pid) [0..<n])
    (modify (remove_process_wait_entries_for_child pid)))"

definition kill_thread :: "tptr \<Rightarrow> (kernel, unit) op" where
  "kill_thread t = (\<lambda>k.
    if \<not> alive (kn_threads k) t then (Inr (), k)
    else if kn_current k = Some t then sq (rr_call rr_exit_current) (ret ()) k
    else (Inr (), k\<lparr>kn_scheduler := (kn_scheduler k)\<lparr>rr_threads := put_state t DEAD (kn_threads k)\<rparr>\<rparr>))"

definition exit_process :: "nat \<Rightarrow> qword \<Rightarrow> (kernel, unit) op" where
  "exit_process i exit_code =
    sq require_booted
   (bnd (gets (\<lambda>k. kn_processes k ! i)) (\<lambda>p.
    if pr_state p \<noteq> PROCESS_RUNNING then ret ()
    else
      sq (on_process i (mark_exited exit_code))
     (sq (for_each kill_thread (pr_threads p))
      (wake_process_waiters (pr_id p)))))"

definition wait_process :: "nat \<Rightarrow> tptr \<Rightarrow> process_id \<Rightarrow> (kernel, process_wait_result) op" where
  "wait_process parent waiter child_id =
    sq require_booted (\<lambda>k.
    case find_process_by_id child_id k of
      None \<Rightarrow> (Inr (No_child child_id), k)
    | Some c \<Rightarrow>
      (let child = kn_processes k ! c in
       if pr_parent child \<noteq> pr_id (kn_processes k ! parent) \<or> pr_state child = PROCESS_REAPED
       then (Inr (No_child child_id), k)
       else if pr_state child = PROCESS_EXITED
       then sq (on_process c mark_reaped)
           (sq (modify (remove_process_wait_entries_for_child child_id))
            (ret (Wait_exited child_id (pr_exit_code child)))) k
       else (case process_wait_entry (pr_id (kn_processes k ! parent)) child_id k of (e, k) \<Rightarrow>
         sq (entry_wait e waiter) (\<lambda>k.
         if kn_current k = Some waiter then sq (rr_call rr_block_current) (ret (Wait_blocked child_id)) k
         else (Inr (Wait_blocked child_id), k)) k)))"

definition fork_process_cow :: "nat \<Rightarrow> address64 list \<Rightarrow> (kernel, nat) op" where
  "fork_process_cow parent cow_pages =
    sq require_booted
   (bnd (gets (\<lambda>k. pr_id (kn_processes k ! parent))) (\<lambda>parent_id.
    bnd (create_process_with_parent parent_id) (\<lambda>child.
    sq (modify (\<lambda>k. k\<lparr>kn_processes := (kn_processes k)[child := (kn_processes k ! child)
          \<lparr>pr_files := pr_files (kn_processes k ! parent)\<rparr>]\<rparr>)) (\<lambda>k.
    case share_pages (pr_id (kn_processes k ! parent)) (pr_id (kn_processes k ! child)) cow_pages
        \<lparr>sh_cow = kn_cow k, sh_parent = pr_space (kn_processes k ! parent), sh_child = pr_space (kn_processes k ! child),
          sh_memory = kn_memory k\<rparr> of
      (r, s) \<Rightarrow> (sbind r (\<lambda>_. Inr child), k\<lparr>kn_cow := sh_cow s, kn_memory := sh_memory s,
        kn_processes := (kn_processes k)[parent := (kn_processes k ! parent)\<lparr>pr_space := sh_parent s\<rparr>,
          child := (kn_processes k ! child)\<lparr>pr_space := sh_child s\<rparr>]\<rparr>)))))"

section \<open>Page faults\<close>

definition run_fault_handler :: "(kernel \<Rightarrow> address_space) \<Rightarrow> (address_space \<Rightarrow> kernel \<Rightarrow> kernel) \<Rightarrow> tptr \<Rightarrow>
    (kernel, page_fault_result) op" where
  "run_fault_handler get put thread = (\<lambda>k.
    case get_pending_trap (th_cpu (kn_threads k thread)) of
      Inl e \<Rightarrow> (Inl e, k)
    | Inr tf \<Rightarrow> (case PageFault.handle_page_fault tf \<lparr>fh_allocator = kn_allocator k, fh_space = get k, fh_memory = kn_memory k,
        fh_cpu = th_cpu (kn_threads k thread)\<rparr> of
      (r, s) \<Rightarrow> (r, put (fh_space s) (k\<lparr>kn_allocator := fh_allocator s, kn_memory := fh_memory s,
        kn_scheduler := (kn_scheduler k)\<lparr>rr_threads := (kn_threads k)(thread := (kn_threads k thread)\<lparr>th_cpu := fh_cpu s\<rparr>)\<rparr>\<rparr>))))"

definition put_process_space :: "nat \<Rightarrow> address_space \<Rightarrow> kernel \<Rightarrow> kernel" where
  "put_process_space i a k = k\<lparr>kn_processes := (kn_processes k)[i := (kn_processes k ! i)\<lparr>pr_space := a\<rparr>]\<rparr>"

definition kernel_handle_page_fault :: "tptr \<Rightarrow> (kernel, page_fault_result) op" where
  "kernel_handle_page_fault thread = sq require_booted (run_fault_handler kn_space (\<lambda>a. kn_space_update (\<lambda>_. a)) thread)"

definition process_handle_page_fault :: "nat \<Rightarrow> tptr \<Rightarrow> (kernel, page_fault_result) op" where
  "process_handle_page_fault i thread =
    sq require_booted (run_fault_handler (\<lambda>k. pr_space (kn_processes k ! i)) (put_process_space i) thread)"

definition handle_cow_write_fault :: "nat \<Rightarrow> tptr \<Rightarrow> (kernel, cow_fault_result) op" where
  "handle_cow_write_fault i thread = sq require_booted (\<lambda>k.
    case resolve_write_fault (pr_id (kn_processes k ! i))
        \<lparr>fh_allocator = kn_allocator k, fh_space = pr_space (kn_processes k ! i), fh_memory = kn_memory k,
          fh_cpu = th_cpu (kn_threads k thread), fh_cow = kn_cow k\<rparr> of
      (r, s) \<Rightarrow> (r, put_process_space i (fh_space s) (k\<lparr>kn_allocator := fh_allocator s, kn_memory := fh_memory s, kn_cow := fh_cow s,
        kn_scheduler := (kn_scheduler k)\<lparr>rr_threads := (kn_threads k)(thread := (kn_threads k thread)\<lparr>th_cpu := fh_cpu s\<rparr>)\<rparr>\<rparr>)))"

section \<open>Console and file descriptors\<close>

definition kernel_console_write :: "string \<Rightarrow> (kernel, unit) op" where
  "kernel_console_write s = sq require_booted (focus kn_console kn_console_update (console_write s))"

definition kernel_console_read :: "tptr \<Rightarrow> nat \<Rightarrow> (kernel, console_read_result) op" where
  "kernel_console_read thread destination_size =
    sq require_booted
   (bnd (with_threads kn_console kn_console_update (console_read destination_size thread)) (\<lambda>result k.
    if result = Blocked_read \<and> kn_current k = Some thread then sq (rr_call rr_block_current) (ret result) k
    else (Inr result, k)))"

definition submit_terminal_input :: "string \<Rightarrow> (kernel, tptr list) op" where
  "submit_terminal_input s =
    sq require_booted
   (bnd (with_threads kn_console kn_console_update (console_submit_input s)) (\<lambda>readers.
    sq (wake_each readers)
    (ret readers)))"

definition put_description_file :: "nat \<Rightarrow> vfs_file \<Rightarrow> (kernel, unit) op" where
  "put_description_file d f = modify (\<lambda>k. k\<lparr>kn_descriptions := (kn_descriptions k)[d := (kn_descriptions k ! d)\<lparr>of_vfs_file := Some f\<rparr>]\<rparr>)"

definition entry_vfs_file :: "descriptor_entry \<Rightarrow> (kernel, nat \<times> vfs_file) op" where
  "entry_vfs_file e =
    bnd (lift_sum (entry_description e)) (\<lambda>d.
    bnd (\<lambda>k. (description_vfs_file (kn_descriptions k ! d), k)) (\<lambda>f. ret (d, f)))"

text \<open>The exceptions that derive from \<^verbatim>\<open>std::logic_error\<close>.\<close>

definition is_logic_error :: "exn \<Rightarrow> bool" where
  "is_logic_error e \<longleftrightarrow> e = Logic_error \<or> e = Invalid_argument \<or> e = Out_of_range \<or> e = Length_error"

datatype read_result = Read_result io_result string

definition read_fd :: "nat \<Rightarrow> tptr \<Rightarrow> file_descriptor \<Rightarrow> nat \<Rightarrow> (kernel, read_result) op" where
  "read_fd i thread descriptor destination_size =
    sq require_booted (\<lambda>k.
    case find_descriptor descriptor (pr_files (kn_processes k ! i)) of
      None \<Rightarrow> (Inr (Read_result Bad_descriptor []), k)
    | Some entry \<Rightarrow>
      if \<not> entry_readable (kn_descriptions k) entry then (Inr (Read_result Bad_descriptor []), k)
      else (case entry_device_kind (kn_descriptions k) entry of
          TTY \<Rightarrow> bnd (kernel_console_read thread destination_size) (\<lambda>result. ret (case result of
              Blocked_read \<Rightarrow> Read_result Io_blocked []
            | Ready_bytes b \<Rightarrow> Read_result (Io_ready (length b)) b)) k
        | VFS_FILE \<Rightarrow> catch_exn
            (bnd (entry_vfs_file entry) (\<lambda>(d, f).
             bnd (on_cache (vf_read destination_size f)) (\<lambda>(bytes, f).
             sq (put_description_file d f)
             (ret (Read_result (Io_ready (length bytes)) (map byte_char bytes))))))
            (\<lambda>e. if e = Invalid_argument then ret (Read_result Io_invalid_argument [])
               else if is_logic_error e then ret (Read_result Bad_descriptor [])
               else throw e) k
        | DEVICE_KIND_COUNT \<Rightarrow> (Inr (Read_result Bad_descriptor []), k)))"

definition write_fd :: "nat \<Rightarrow> file_descriptor \<Rightarrow> string \<Rightarrow> (kernel, io_result) op" where
  "write_fd i descriptor s =
    sq require_booted (\<lambda>k.
    case find_descriptor descriptor (pr_files (kn_processes k ! i)) of
      None \<Rightarrow> (Inr Bad_descriptor, k)
    | Some entry \<Rightarrow>
      if \<not> entry_writable (kn_descriptions k) entry then (Inr Bad_descriptor, k)
      else (case entry_device_kind (kn_descriptions k) entry of
          TTY \<Rightarrow> sq (kernel_console_write s) (ret (Io_ready (length s))) k
        | VFS_FILE \<Rightarrow> catch_exn
            (bnd (entry_vfs_file entry) (\<lambda>(d, f).
             bnd (on_cache (vf_write (map char_byte s) f)) (\<lambda>(n, f).
             sq (put_description_file d f)
             (ret (Io_ready n)))))
            (\<lambda>e. if e = Length_error then ret No_space
               else if e = Invalid_argument then ret Io_invalid_argument
               else if is_logic_error e then ret Bad_descriptor
               else throw e) k
        | DEVICE_KIND_COUNT \<Rightarrow> (Inr Bad_descriptor, k)))"

definition kernel_vfs_mode_from_access_mode :: "file_access_mode \<Rightarrow> vfs_open_mode" where
  "kernel_vfs_mode_from_access_mode access_mode = (case access_mode of FILE_READ_ONLY \<Rightarrow> READ_ONLY
     | FILE_WRITE_ONLY \<Rightarrow> WRITE_ONLY | FILE_READ_WRITE \<Rightarrow> READ_WRITE | ACCESS_MODE_COUNT \<Rightarrow> OPEN_MODE_COUNT)"

definition on_files :: "nat \<Rightarrow> (descriptions \<times> descriptor_table, 'a) op \<Rightarrow> (kernel, 'a) op" where
  "on_files i f = (\<lambda>k. case f (kn_descriptions k, pr_files (kn_processes k ! i)) of
     (r, (ds, t)) \<Rightarrow> (r, k\<lparr>kn_descriptions := ds, kn_processes := (kn_processes k)[i := (kn_processes k ! i)\<lparr>pr_files := t\<rparr>]\<rparr>))"

definition open_file :: "nat \<Rightarrow> string \<Rightarrow> file_access_mode \<Rightarrow> bool \<Rightarrow> (kernel, file_descriptor) op" where
  "open_file i path access_mode create_if_missing =
    sq require_booted
   (let mode = kernel_vfs_mode_from_access_mode access_mode in
    if mode = OPEN_MODE_COUNT then throw Invalid_argument
    else bnd (gets kn_root_fs) (\<lambda>fs.
      bnd (on_cache (vfs_lookup fs path)) (\<lambda>node.
      sq (if node = None \<and> create_if_missing then sq (on_cache (vfs_create_file fs path)) (ret ()) else ret ())
     (bnd (on_cache (vfs_open_file fs path mode)) (\<lambda>file.
      on_files i (table_open_vfs_file file))))))"

definition close_fd :: "nat \<Rightarrow> file_descriptor \<Rightarrow> (kernel, bool) op" where
  "close_fd i descriptor = sq require_booted (on_files i (\<lambda>(ds, t). case table_close descriptor t of (r, t) \<Rightarrow> (Inr r, (ds, t))))"

section \<open>Time, sleep and futexes\<close>

definition wake_sleepers :: "(kernel, nat) op" where
  "wake_sleepers =
    sq require_booted (\<lambda>k.
    case take_ready (kn_threads k) (kn_ticks k) (kn_sleepers k) of
      (ready_threads, q) \<Rightarrow> sq (wake_each ready_threads) (ret (length ready_threads)) (k\<lparr>kn_sleepers := q\<rparr>))"

definition sleep_current_until :: "scheduler_tick \<Rightarrow> (kernel, tptr option) op" where
  "sleep_current_until wake_tick =
    sq require_booted (\<lambda>k. case kn_current k of
      None \<Rightarrow> (Inr None, k)
    | Some p \<Rightarrow>
      if wake_tick \<le> kn_ticks k then rr_call rr_yield_current k
      else sq (with_threads kn_sleepers kn_sleepers_update (sleep_until p wake_tick)) (rr_call rr_block_current) k)"

definition sleep_current_for :: "scheduler_tick \<Rightarrow> (kernel, tptr option) op" where
  "sleep_current_for duration_ticks =
    sq require_booted
   (bnd (gets kn_ticks) (\<lambda>now.
    if duration_ticks > - 1 - now then throw Overflow_error
    else sleep_current_until (now + duration_ticks)))"

definition check_core :: "core_id \<Rightarrow> (kernel, unit) op" where
  "check_core core_id = (\<lambda>k. (sbind (local_apic_index core_id (kn_apic k)) (\<lambda>_. Inr ()), k))"

definition has_current_on :: "core_id \<Rightarrow> smp \<Rightarrow> exn + bool" where
  "has_current_on core_id s = sbind (queue_index core_id s) (\<lambda>i. Inr (cq_current (sm_queues s ! i) \<noteq> None))"

definition has_work_on_core :: "core_id \<Rightarrow> smp \<Rightarrow> exn + bool" where
  "has_work_on_core core_id s = sbind (queue_index core_id s) (\<lambda>i. Inr (has_work (sm_queues s ! i)))"

definition handle_smp_timer_interrupt :: "core_id \<Rightarrow> (kernel, tptr option) op" where
  "handle_smp_timer_interrupt core_id =
    sq require_booted
   (sq (check_core core_id)
   (sq (modify (\<lambda>k. k\<lparr>kn_ticks := kn_ticks k + 1\<rparr>))
   (bnd wake_sleepers (\<lambda>_.
    bnd (on_smp (\<lambda>s. (has_current_on core_id s, s))) (\<lambda>preempted.
    sq (on_smp (smp_record_timer_tick core_id preempted))
    (if preempted then on_smp (smp_yield_current core_id) else on_smp (smp_schedule_next core_id)))))))"

definition handle_timer_interrupt :: "core_id \<Rightarrow> (kernel, tptr option) op" where
  "handle_timer_interrupt core_id =
    sq require_booted
   (sq (check_core core_id)
   (bnd (on_smp (\<lambda>s. (has_work_on_core core_id s, s))) (\<lambda>smp_work.
    if smp_work then handle_smp_timer_interrupt core_id
    else
      sq (modify (\<lambda>k. k\<lparr>kn_ticks := kn_ticks k + 1\<rparr>))
     (bnd wake_sleepers (\<lambda>_ k.
      if kn_current k \<noteq> None then rr_call rr_yield_current k else rr_call rr_schedule_next k)))))"

definition tick_core_timer :: "core_id \<Rightarrow> (kernel, apic_interrupt option) op" where
  "tick_core_timer core_id =
    sq require_booted
   (bnd (focus kn_apic kn_apic_update (apic_tick core_id)) (\<lambda>interrupt.
    sq (case interrupt of
          Some i \<Rightarrow> if ai_vector i = vector_timer then sq (handle_timer_interrupt core_id) (ret ()) else ret ()
        | None \<Rightarrow> ret ())
    (ret interrupt)))"

definition wait_on_futex :: "nat \<Rightarrow> address64 \<Rightarrow> tptr \<Rightarrow> (kernel, tptr option) op" where
  "wait_on_futex i address thread =
    sq require_booted
   (bnd (gets (\<lambda>k. pr_id (kn_processes k ! i))) (\<lambda>pid.
    bnd (lift_sum (FutexKey pid address)) (\<lambda>key.
    sq (with_threads kn_futexes kn_futexes_update (futex_wait key thread)) (\<lambda>k.
    if kn_current k = Some thread then rr_call rr_block_current k else (Inr None, k)))))"

definition wake_one_futex :: "nat \<Rightarrow> address64 \<Rightarrow> (kernel, tptr option) op" where
  "wake_one_futex i address =
    sq require_booted
   (bnd (gets (\<lambda>k. pr_id (kn_processes k ! i))) (\<lambda>pid.
    bnd (lift_sum (FutexKey pid address)) (\<lambda>key k.
    case futex_wake_one key (kn_threads k) (kn_futexes k) of
      (None, t) \<Rightarrow> (Inr None, k\<lparr>kn_futexes := t\<rparr>)
    | (Some p, t) \<Rightarrow> sq (on_scheduler (rr_wake p)) (ret (Some p)) (k\<lparr>kn_futexes := t\<rparr>))))"

definition wake_all_futex :: "nat \<Rightarrow> address64 \<Rightarrow> (kernel, tptr list) op" where
  "wake_all_futex i address =
    sq require_booted
   (bnd (gets (\<lambda>k. pr_id (kn_processes k ! i))) (\<lambda>pid.
    bnd (lift_sum (FutexKey pid address)) (\<lambda>key k.
    case futex_wake_all key (kn_threads k) (kn_futexes k) of
      (ps, t) \<Rightarrow> sq (wake_each ps) (ret ps) (k\<lparr>kn_futexes := t\<rparr>))))"

section \<open>Interrupts between cores\<close>

definition validate_ipi_route :: "core_id \<Rightarrow> core_id \<Rightarrow> (kernel, unit) op" where
  "validate_ipi_route source_core target_core = sq (check_core source_core) (check_core target_core)"

definition kernel_send_ipi :: "core_id \<Rightarrow> core_id \<Rightarrow> interrupt_vector \<Rightarrow> (kernel, bool) op" where
  "kernel_send_ipi source_core target_core vector = focus kn_apic kn_apic_update (send_ipi source_core target_core vector)"

definition send_reschedule_ipi :: "core_id \<Rightarrow> core_id \<Rightarrow> (kernel, bool) op" where
  "send_reschedule_ipi source_core target_core = kernel_send_ipi source_core target_core vector_reschedule"

definition request_tlb_shootdown_page ::
  "core_id \<Rightarrow> core_id \<Rightarrow> address64 \<Rightarrow> process_context_id option \<Rightarrow> (kernel, shootdown_request) op" where
  "request_tlb_shootdown_page source_core target_core linear_address context_id =
    sq require_booted
   (sq (validate_ipi_route source_core target_core)
   (bnd (\<lambda>k. case request_page source_core target_core linear_address context_id (kn_shootdown k) of
      (r, c) \<Rightarrow> (Inr r, k\<lparr>kn_shootdown := c\<rparr>)) (\<lambda>request.
    sq (kernel_send_ipi source_core target_core vector_tlb_shootdown)
    (ret request))))"

definition request_tlb_shootdown_all ::
  "core_id \<Rightarrow> core_id \<Rightarrow> process_context_id option \<Rightarrow> (kernel, shootdown_request) op" where
  "request_tlb_shootdown_all source_core target_core context_id =
    sq require_booted
   (sq (validate_ipi_route source_core target_core)
   (bnd (\<lambda>k. case request_all source_core target_core context_id (kn_shootdown k) of
      (r, c) \<Rightarrow> (Inr r, k\<lparr>kn_shootdown := c\<rparr>)) (\<lambda>request.
    sq (kernel_send_ipi source_core target_core vector_tlb_shootdown)
    (ret request))))"

definition apply_next_tlb_shootdown_for_core :: "core_id \<Rightarrow> mmu_state \<Rightarrow> kernel \<Rightarrow> (exn + bool) \<times> mmu_state \<times> kernel" where
  "apply_next_tlb_shootdown_for_core core_id m k =
    (if \<not> kn_booted k then (Inl Logic_error, m, k)
     else case local_apic_index core_id (kn_apic k) of
        Inl e \<Rightarrow> (Inl e, m, k)
      | Inr _ \<Rightarrow> (case apply_next core_id (kn_shootdown k, m) of (r, (c, m)) \<Rightarrow> (r, m, k\<lparr>kn_shootdown := c\<rparr>)))"

definition next_scheduler_handoff_sequence :: "(kernel, qword) op" where
  "next_scheduler_handoff_sequence = (\<lambda>k. (Inr (kn_next_handoff k), k\<lparr>kn_next_handoff := kn_next_handoff k + 1\<rparr>))"

definition push_handoff :: "core_id \<Rightarrow> core_id \<Rightarrow> thread_id \<Rightarrow> (kernel, scheduler_handoff) op" where
  "push_handoff source_core target_core tid =
    bnd next_scheduler_handoff_sequence (\<lambda>sequence.
    let h = \<lparr>ho_sequence = sequence, ho_source = source_core, ho_target = target_core, ho_thread = tid\<rparr> in
    sq (modify (\<lambda>k. k\<lparr>kn_handoffs := kn_handoffs k @ [h]\<rparr>))
    (ret h))"

definition record_scheduler_handoff :: "core_id \<Rightarrow> core_id \<Rightarrow> tptr \<Rightarrow> (kernel, scheduler_handoff) op" where
  "record_scheduler_handoff source_core target_core thread =
    sq (on_scheduler (modify (\<lambda>s. s\<lparr>rr_threads := (rr_threads s)(thread :=
         (rr_threads s thread)\<lparr>th_cpu := set_core_id target_core (th_cpu (rr_threads s thread))\<rparr>)\<rparr>)))
   (bnd (gets (\<lambda>k. th_id (kn_threads k thread))) (\<lambda>tid. push_handoff source_core target_core tid))"

definition request_scheduler_handoff :: "core_id \<Rightarrow> core_id \<Rightarrow> tptr \<Rightarrow> (kernel, scheduler_handoff) op" where
  "request_scheduler_handoff source_core target_core thread =
    sq require_booted
   (sq (\<lambda>k. require (alive (kn_threads k) thread) Logic_error k)
   (sq (validate_ipi_route source_core target_core)
   (bnd (record_scheduler_handoff source_core target_core thread) (\<lambda>handoff.
    sq (send_reschedule_ipi source_core target_core)
    (ret handoff)))))"

definition scheduler_handoff_at :: "nat \<Rightarrow> kernel \<Rightarrow> exn + scheduler_handoff" where
  "scheduler_handoff_at index k = (if index \<ge> length (kn_handoffs k) then Inl Out_of_range else Inr (kn_handoffs k ! index))"

definition wake_thread_on_core :: "core_id \<Rightarrow> core_id \<Rightarrow> tptr \<Rightarrow> (kernel, bool) op" where
  "wake_thread_on_core source_core target_core thread =
    sq require_booted
   (sq (validate_ipi_route source_core target_core)
   (sq (on_smp (smp_wake_on thread target_core))
    (send_reschedule_ipi source_core target_core)))"

definition request_smp_migration :: "core_id \<Rightarrow> core_id \<Rightarrow> tptr \<Rightarrow> (kernel, scheduler_handoff) op" where
  "request_smp_migration source_core target_core thread =
    sq require_booted
   (sq (validate_ipi_route source_core target_core)
   (bnd (on_smp (\<lambda>s. (Inr (current_core_of thread s), s))) (\<lambda>owning_core.
    if owning_core \<noteq> None \<and> owning_core \<noteq> Some source_core then throw Logic_error
    else bnd (on_smp (migrate_ready thread target_core)) (\<lambda>migration.
      bnd (record_scheduler_handoff (mg_source migration) (mg_target migration) thread) (\<lambda>handoff.
      sq (send_reschedule_ipi (mg_source migration) (mg_target migration))
      (ret handoff))))))"

definition rebalance_smp_once :: "(kernel, thread_migration option) op" where
  "rebalance_smp_once =
    sq require_booted
   (bnd (on_smp rebalance_once) (\<lambda>migration. case migration of
      None \<Rightarrow> ret None
    | Some m \<Rightarrow>
      sq (validate_ipi_route (mg_source m) (mg_target m))
     (bnd (push_handoff (mg_source m) (mg_target m) (mg_thread m)) (\<lambda>_.
      sq (send_reschedule_ipi (mg_source m) (mg_target m))
      (ret migration)))))"

section \<open>Boot\<close>

definition configure_stage7_services :: "(kernel, unit) op" where
  "configure_stage7_services =
    sq (modify (\<lambda>k. k\<lparr>kn_apic := enable_local_apics (ApicSystem (kn_topology k))\<rparr>))
   (bnd (gets kn_topology) (\<lambda>topology.
    for_each (\<lambda>i. focus kn_apic kn_apic_update (on_local_apic (of_nat i)
      (configure_periodic_timer vector_timer KERNEL_STAGE7_DEFAULT_TIMER_INTERVAL_TICKS))) [0..<unat topology]))"

definition configure_stage9_services :: "(kernel, unit) op" where
  "configure_stage9_services = modify (\<lambda>k. k\<lparr>kn_smp_queues := sm_queues (SmpScheduler (kn_topology k) (kn_threads k))\<rparr>)"

definition configure_stage15_services :: "(kernel, unit) op" where
  "configure_stage15_services =
    bnd (lift_sum (sbind (BlockDeviceGeometry BLOCK_DEVICE_DEFAULT_BLOCK_SIZE_BYTES KERNEL_STAGE15_ROOT_BLOCK_COUNT) MemoryBlockDevice)) (\<lambda>device.
    bnd (lift_sum (BufferCache device KERNEL_STAGE15_BUFFER_CACHE_BLOCKS)) (\<lambda>cache.
    sq (modify (\<lambda>k. k\<lparr>kn_cache := cache\<rparr>))
   (bnd (lift_sum (SimpleFsFormatOptions KERNEL_STAGE15_ROOT_INODE_COUNT)) (\<lambda>inode_count.
    sq (on_cache (fs_format inode_count))
   (bnd (on_cache SimpleFileSystem) (\<lambda>fs.
    modify (\<lambda>k. k\<lparr>kn_root_fs := fs\<rparr>)))))))"

definition kernel_boot :: "(kernel, unit) op" where
  "kernel_boot =
    sq (\<lambda>k. require (\<not> kn_booted k) Logic_error k)
   (bnd (gets (\<lambda>k. length (kn_memory k) div unat MM_PAGE_SIZE_BYTES)) (\<lambda>physical_page_count.
    if physical_page_count < KERNEL_MIN_BOOTABLE_PAGE_COUNT then throw Runtime_error
    else
      bnd (lift_sum (PhysicalPageAllocator physical_page_count KERNEL_RESERVED_LOW_PAGE_COUNT)) (\<lambda>allocator.
      sq (modify (\<lambda>k. k\<lparr>kn_allocator := allocator\<rparr>))
     (bnd (create_address_space KERNEL_DEFAULT_TABLE_ARENA_PAGE_COUNT) (\<lambda>space.
      sq (modify (\<lambda>k. k\<lparr>kn_space := space\<rparr>))
     (sq configure_stage7_services
     (sq configure_stage9_services
     (sq configure_stage15_services
      (modify (\<lambda>k. k\<lparr>kn_booted := True\<rparr>))))))))))"

end
