(* ===== verification/ThreadFlow.thy ===== *)
theory ThreadFlow
  imports Sched "HOL-Library.Multiset"
begin

text \<open>
  Where threads are. A live thread is either current, or queued as ready, or waiting somewhere (in a wait queue, a sleep
  queue, or just taken out of one to be woken). \<open>flow_ok s W n\<close> says that this holds for the threads below \<open>n\<close>, where \<open>s\<close> is
  the scheduler and \<open>W\<close> the multiset of the waiting threads, that no live thread is in two places, and that the state
  of a thread agrees with its place. Killed threads may stay in queues; they are skipped when met.
\<close>

section \<open>Moves between places\<close>

definition flow :: "(tptr \<Rightarrow> thread_state) \<Rightarrow> tptr multiset \<Rightarrow> tptr multiset \<Rightarrow> tptr multiset \<Rightarrow> nat \<Rightarrow> bool" where
  "flow st R C W n \<longleftrightarrow>
     (\<forall>p < n. st p \<noteq> DEAD \<longrightarrow> count R p + count C p + count W p = 1) \<and> (\<forall>p. p \<in># R + C + W \<longrightarrow> p < n)
     \<and> (\<forall>p \<in># R. st p = READY \<or> st p = DEAD) \<and> (\<forall>p \<in># C. st p = RUNNING) \<and> (\<forall>p \<in># W. st p = BLOCKED \<or> st p = DEAD)"

lemma flowD:
  assumes "flow st R C W n"
  shows "p < n \<Longrightarrow> st p \<noteq> DEAD \<Longrightarrow> count R p + count C p + count W p = 1"
    and "p \<in># R \<Longrightarrow> p < n" and "p \<in># C \<Longrightarrow> p < n" and "p \<in># W \<Longrightarrow> p < n"
    and "p \<in># R \<Longrightarrow> st p = READY \<or> st p = DEAD" and "p \<in># C \<Longrightarrow> st p = RUNNING" and "p \<in># W \<Longrightarrow> st p = BLOCKED \<or> st p = DEAD"
  using assms by (auto simp: flow_def)

lemma flowI:
  assumes "\<And>p. p < n \<Longrightarrow> st p \<noteq> DEAD \<Longrightarrow> count R p + count C p + count W p = 1"
    and "\<And>p. p \<in># R \<Longrightarrow> p < n \<and> (st p = READY \<or> st p = DEAD)" and "\<And>p. p \<in># C \<Longrightarrow> p < n \<and> st p = RUNNING"
    and "\<And>p. p \<in># W \<Longrightarrow> p < n \<and> (st p = BLOCKED \<or> st p = DEAD)"
  shows "flow st R C W n"
  using assms by (auto simp: flow_def)

text \<open>A live thread in one place is in no other.\<close>

lemma flow_unique:
  assumes "flow st R C W n" and "st p \<noteq> DEAD"
  shows "p \<in># R \<Longrightarrow> p \<notin># C \<and> p \<notin># W \<and> count R p = 1" and "p \<in># C \<Longrightarrow> p \<notin># R \<and> p \<notin># W \<and> count C p = 1"
    and "p \<in># W \<Longrightarrow> p \<notin># R \<and> p \<notin># C \<and> count W p = 1"
proof -
  have one: "count R p + count C p + count W p = 1" if "p \<in># R \<or> p \<in># C \<or> p \<in># W"
    using flowD(1-4) [OF assms(1)] assms(2) that by blast
  have split: "a = 1 \<and> b = 0 \<and> c = 0" if "a + b + c = 1" "0 < a" for a b c :: nat using that by linarith
  show "p \<notin># C \<and> p \<notin># W \<and> count R p = 1" if "p \<in># R"
    using split [of "count R p" "count C p" "count W p"] one that by (simp add: not_in_iff)
  show "p \<notin># R \<and> p \<notin># W \<and> count C p = 1" if "p \<in># C"
    using split [of "count C p" "count R p" "count W p"] one that by (simp add: not_in_iff)
  show "p \<notin># R \<and> p \<notin># C \<and> count W p = 1" if "p \<in># W"
    using split [of "count W p" "count R p" "count C p"] one that by (simp add: not_in_iff)
qed

text \<open>Dead threads may be dropped from the queues.\<close>

lemma flow_drop:
  assumes "flow st R C W n" and "\<And>p. st p \<noteq> DEAD \<Longrightarrow> count R' p = count R p" and "\<And>p. st p \<noteq> DEAD \<Longrightarrow> count W' p = count W p"
    and "set_mset R' \<subseteq> set_mset R" and "set_mset W' \<subseteq> set_mset W"
  shows "flow st R' C W' n"
  using flowD [OF assms(1)] assms(2-5) by (intro flowI) (simp, blast+)

lemma flow_move:
  assumes "flow st R C W n" and "p < n" and "st p \<noteq> DEAD"
    and "\<And>q. q \<noteq> p \<Longrightarrow> count R' q = count R q \<and> count C' q = count C q \<and> count W' q = count W q"
    and "count R' p + count C' p + count W' p = 1"
    and "p \<in># R' \<longleftrightarrow> x = READY" and "p \<in># C' \<longleftrightarrow> x = RUNNING" and "p \<in># W' \<longleftrightarrow> x = BLOCKED" and "x \<noteq> DEAD"
  shows "flow (st(p := x)) R' C' W' n"
proof (rule flowI)
  have other: "q \<in># R' \<longleftrightarrow> q \<in># R" "q \<in># C' \<longleftrightarrow> q \<in># C" "q \<in># W' \<longleftrightarrow> q \<in># W" if "q \<noteq> p" for q
    using assms(4) [OF that] by (simp_all flip: count_greater_zero_iff)
  fix q
  show "count R' q + count C' q + count W' q = 1" if "q < n" "(st(p := x)) q \<noteq> DEAD"
    using assms(4,5) flowD(1) [OF assms(1), of q] that by (cases "q = p") auto
  show "q < n \<and> ((st(p := x)) q = READY \<or> (st(p := x)) q = DEAD)" if "q \<in># R'"
    using that assms(2,6) other(1) [of q] flowD(2,5) [OF assms(1), of q] by (cases "q = p") auto
  show "q < n \<and> (st(p := x)) q = RUNNING" if "q \<in># C'"
    using that assms(2,7) other(2) [of q] flowD(3,6) [OF assms(1), of q] by (cases "q = p") auto
  show "q < n \<and> ((st(p := x)) q = BLOCKED \<or> (st(p := x)) q = DEAD)" if "q \<in># W'"
    using that assms(2,8) other(3) [of q] flowD(4,7) [OF assms(1), of q] by (cases "q = p") auto
qed

lemma flow_die:
  assumes "flow st R C W n" and "\<And>q. q \<noteq> p \<Longrightarrow> count C' q = count C q" and "p \<notin># C'"
  shows "flow (st(p := DEAD)) R C' W n"
proof (rule flowI)
  have other: "q \<in># C' \<longleftrightarrow> q \<in># C" if "q \<noteq> p" for q using assms(2) [OF that] by (simp flip: count_greater_zero_iff)
  fix q
  show "count R q + count C' q + count W q = 1" if "q < n" "(st(p := DEAD)) q \<noteq> DEAD"
    using flowD(1) [OF assms(1), of q] assms(2) [of q] that by (cases "q = p") auto
  show "q < n \<and> (st(p := DEAD)) q = RUNNING" if "q \<in># C'"
    using that assms(3) other [of q] flowD(3,6) [OF assms(1), of q] by (cases "q = p") auto
qed (use flowD(2,4,5,7) [OF assms(1)] in auto)

lemma flow_new:
  assumes "flow st R C W n"
  shows "flow (st(n := READY)) (add_mset n R) C W (Suc n)"
proof (rule flowI)
  have N: "n \<notin># R" "n \<notin># C" "n \<notin># W" using flowD(2-4) [OF assms, of n] by auto
  fix q
  show "count (add_mset n R) q + count C q + count W q = 1" if "q < Suc n" "(st(n := READY)) q \<noteq> DEAD"
    using flowD(1) [OF assms, of q] N that by (cases "q = n") (auto simp: not_in_iff)
  show "q < Suc n \<and> ((st(n := READY)) q = READY \<or> (st(n := READY)) q = DEAD)" if "q \<in># add_mset n R"
    using flowD(2,5) [OF assms, of q] that by auto
  show "q < Suc n \<and> (st(n := READY)) q = RUNNING" if "q \<in># C"
    using flowD(3,6) [OF assms, of q] that N by auto
  show "q < Suc n \<and> ((st(n := READY)) q = BLOCKED \<or> (st(n := READY)) q = DEAD)" if "q \<in># W"
    using flowD(4,7) [OF assms, of q] that N by auto
qed

section \<open>The scheduler\<close>

definition current_mset :: "rr_state \<Rightarrow> tptr multiset" where
  "current_mset s = (case rr_current s of None \<Rightarrow> {#} | Some p \<Rightarrow> {#p#})"

definition states :: "threads \<Rightarrow> tptr \<Rightarrow> thread_state" where
  "states h p = th_state (h p)"

definition flow_ok :: "rr_state \<Rightarrow> tptr multiset \<Rightarrow> nat \<Rightarrow> bool" where
  "flow_ok s W n \<longleftrightarrow> flow (states (rr_threads s)) (mset (rr_ready s)) (current_mset s) W n"

lemma alive_states: "alive h p \<longleftrightarrow> states h p \<noteq> DEAD"
  by (simp add: states_def is_alive_def)

lemma states_put [simp]: "states (put_state p st h) = (states h)(p := st)"
  by (auto simp: states_def put_state_def set_state_def)

lemma current_mset_simps [simp]:
  "rr_current s = None \<Longrightarrow> current_mset s = {#}" "rr_current s = Some p \<Longrightarrow> current_mset s = {#p#}"
  "current_mset (s\<lparr>rr_threads := h\<rparr>) = current_mset s" "current_mset (s\<lparr>rr_ready := q\<rparr>) = current_mset s"
  by (simp_all add: current_mset_def)

lemma flow_ok_waiting:
  assumes "flow_ok s W n" and "filter_mset (alive (rr_threads s)) W' = filter_mset (alive (rr_threads s)) W"
    and "set_mset W' \<subseteq> set_mset W"
  shows "flow_ok s W' n"
proof -
  have "count W' p = count W p" if "alive (rr_threads s) p" for p
    using arg_cong [OF assms(2), of "\<lambda>M. count M p"] that by simp
  with assms show ?thesis unfolding flow_ok_def by (intro flow_drop [OF assms(1) [unfolded flow_ok_def]]) (auto simp: alive_states)
qed

lemma flow_ok_waiter:
  assumes "flow_ok s (add_mset p W) n" and "alive (rr_threads s) p"
  shows "p \<notin> set (rr_ready s)" and "rr_current s \<noteq> Some p" and "p < n"
  using flow_unique(3) [OF assms(1) [unfolded flow_ok_def], of p] flowD(4) [OF assms(1) [unfolded flow_ok_def], of p] assms(2)
  by (auto simp: alive_states current_mset_def)

lemma flow_ok_current:
  assumes "flow_ok s W n" and "rr_current s = Some p"
  shows "p \<notin> set (rr_ready s)" and "p \<notin># W" and "alive (rr_threads s) p" and "p < n" and "th_state (rr_threads s p) = RUNNING"
proof -
  note F = assms(1) [unfolded flow_ok_def]
  have run: "states (rr_threads s) p = RUNNING" "p < n" using flowD(3,6) [OF F, of p] assms(2) by auto
  then show "alive (rr_threads s) p" "p < n" "th_state (rr_threads s p) = RUNNING" by (simp_all add: alive_states states_def)
  show "p \<notin> set (rr_ready s)" "p \<notin># W" using flow_unique(2) [OF F, of p] run assms(2) by auto
qed

lemma take_runnable_drops:
  assumes "take_runnable h q = (r, q')" and "\<forall>p \<in> set q. states h p = READY \<or> states h p = DEAD"
  shows "states h p \<noteq> DEAD \<Longrightarrow> count (mset q) p = count (mset q') p + (if r = Some p then 1 else 0)"
    and "set q' \<subseteq> set q" and "r = Some p \<Longrightarrow> p \<in> set q \<and> states h p = READY"
  using assms
  by (induction q) (auto simp: is_runnable_def states_def split: if_splits)

lemma flow_ok_schedule_idle:
  assumes "flow_ok s W n" and "rr_current s = None"
  shows "flow_ok (snd (rr_schedule_next s)) W n"
proof (cases "take_runnable (rr_threads s) (rr_ready s)")
  case (Pair r q)
  note F = assms(1) [unfolded flow_ok_def current_mset_simps(1) [OF assms(2)]]
  have ready: "\<forall>p \<in> set (rr_ready s). states (rr_threads s) p = READY \<or> states (rr_threads s) p = DEAD"
    using flowD(5) [OF F] by simp
  note drop = take_runnable_drops [OF Pair ready]
  show ?thesis
  proof (cases r)
    case None
    have "flow (states (rr_threads s)) (mset q) {#} W n" using drop(1,2) None by (intro flow_drop [OF F]) auto
    with Pair None assms(2) show ?thesis by (simp add: rr_schedule_next_def flow_ok_def)
  next
    case (Some p)
    have p: "p \<in> set (rr_ready s)" "states (rr_threads s) p = READY" using drop(3) [of p] Some by auto
    have u: "p \<notin># W" "count (mset (rr_ready s)) p = 1" "p < n" using flow_unique(1) [OF F, of p] p flowD(2) [OF F, of p] by auto
    have D: "flow (states (rr_threads s)) (add_mset p (mset q)) {#} W n"
      using drop(1,2) Some p(1) by (intro flow_drop [OF F]) auto
    have "count (mset q) p = 0" using drop(1) [of p] u(2) p(2) Some by simp
    then have "flow ((states (rr_threads s))(p := RUNNING)) (mset q) {#p#} W n"
      using u p by (intro flow_move [OF D]) (auto simp: not_in_iff)
    with Pair Some assms(2) show ?thesis by (simp add: rr_schedule_next_def flow_ok_def current_mset_def)
  qed
qed

lemma flow_ok_schedule:
  assumes "flow_ok s W n"
  shows "flow_ok (snd (rr_schedule_next s)) W n"
proof (cases "rr_current s")
  case None
  with assms show ?thesis by (rule flow_ok_schedule_idle)
next
  case (Some p)
  note C = flow_ok_current [OF assms Some]
  note F = assms [unfolded flow_ok_def current_mset_simps(2) [OF Some]]
  let ?s = "s\<lparr>rr_threads := put_state p READY (rr_threads s), rr_ready := rr_ready s @ [p], rr_current := None\<rparr>"
  have "snd (rr_schedule_next s) = snd (rr_schedule_next ?s)" using Some C(5) by (simp add: rr_schedule_next_def)
  moreover have "flow ((states (rr_threads s))(p := READY)) (add_mset p (mset (rr_ready s))) {#} W n"
    using C by (intro flow_move [OF F]) (auto simp: alive_states not_in_iff)
  then have "flow_ok ?s W n" by (simp add: flow_ok_def)
  ultimately show ?thesis using flow_ok_schedule_idle [of ?s] by simp
qed

lemma flow_ok_yield: "flow_ok s W n \<Longrightarrow> flow_ok (snd (rr_yield_current s)) W n"
  by (simp add: rr_yield_current_def flow_ok_schedule)

text \<open>The current thread goes into a queue and blocks.\<close>

lemma flow_ok_block:
  assumes "flow_ok s W n" and "rr_current s = Some p"
  shows "flow_ok (snd (rr_block_current (s\<lparr>rr_threads := put_state p BLOCKED (rr_threads s)\<rparr>))) (add_mset p W) n"
proof -
  note C = flow_ok_current [OF assms]
  note F = assms(1) [unfolded flow_ok_def current_mset_simps(2) [OF assms(2)]]
  let ?s = "s\<lparr>rr_threads := put_state p BLOCKED (rr_threads s), rr_current := None\<rparr>"
  have "put_state p BLOCKED (put_state p BLOCKED (rr_threads s)) = put_state p BLOCKED (rr_threads s)"
    by (simp add: put_state_def set_state_def)
  then have "snd (rr_block_current (s\<lparr>rr_threads := put_state p BLOCKED (rr_threads s)\<rparr>)) = snd (rr_schedule_next ?s)"
    using assms(2) by (simp add: rr_block_current_def)
  moreover have "flow ((states (rr_threads s))(p := BLOCKED)) (mset (rr_ready s)) {#} (add_mset p W) n"
    using C by (intro flow_move [OF F]) (auto simp: alive_states not_in_iff)
  then have "flow_ok ?s (add_mset p W) n" by (simp add: flow_ok_def)
  ultimately show ?thesis using flow_ok_schedule by simp
qed

text \<open>A waiting thread is woken: this never throws.\<close>

lemma flow_ok_wake:
  assumes "flow_ok s (add_mset p W) n" and "alive (rr_threads s) p"
  shows "rr_wake p s = (Inr (), rr_enqueue_ready p s)" and "flow_ok (rr_enqueue_ready p s) W n"
proof -
  note N = flow_ok_waiter [OF assms]
  note F = assms(1) [unfolded flow_ok_def]
  show "rr_wake p s = (Inr (), rr_enqueue_ready p s)"
    using N assms(2) by (simp add: rr_wake_def op_simps rr_contains_def)
  have live: "states (rr_threads s) p \<noteq> DEAD" using assms(2) by (simp add: alive_states)
  have "flow ((states (rr_threads s))(p := READY)) (add_mset p (mset (rr_ready s))) (current_mset s) W n"
    using N live flow_unique(3) [OF F live] by (intro flow_move [OF F]) (auto simp: not_in_iff current_mset_def)
  then show "flow_ok (rr_enqueue_ready p s) W n" by (simp add: flow_ok_def rr_enqueue_ready_def)
qed

text \<open>A thread dies.\<close>

lemma flow_ok_kill:
  assumes "flow_ok s W n" and "rr_current s \<noteq> Some p"
  shows "flow_ok (s\<lparr>rr_threads := put_state p DEAD (rr_threads s)\<rparr>) W n"
  using flow_die [OF assms(1) [unfolded flow_ok_def], of p "current_mset s"] assms(2)
  by (auto simp: flow_ok_def current_mset_def split: option.splits)

lemma flow_ok_exit:
  assumes "flow_ok s W n"
  shows "flow_ok (snd (rr_exit_current s)) W n"
proof (cases "rr_current s")
  case (Some p)
  let ?s = "s\<lparr>rr_threads := put_state p DEAD (rr_threads s), rr_current := None\<rparr>"
  have "flow ((states (rr_threads s))(p := DEAD)) (mset (rr_ready s)) {#} W n"
    by (rule flow_die [OF assms [unfolded flow_ok_def]]) (use Some in auto)
  then have "flow_ok ?s W n" by (simp add: flow_ok_def)
  then show ?thesis using Some flow_ok_schedule by (simp add: rr_exit_current_def)
qed (use assms in \<open>simp add: rr_exit_current_def\<close>)

text \<open>A new thread is enqueued.\<close>

lemma flow_ok_new:
  assumes "flow_ok s W n" and "th_state t = READY"
  shows "rr_enqueue n (s\<lparr>rr_threads := (rr_threads s)(n := t)\<rparr>) = (Inr (), rr_enqueue_ready n (s\<lparr>rr_threads := (rr_threads s)(n := t)\<rparr>))"
    and "flow_ok (rr_enqueue_ready n (s\<lparr>rr_threads := (rr_threads s)(n := t)\<rparr>)) W (Suc n)"
proof -
  note F = assms(1) [unfolded flow_ok_def]
  have N: "n \<notin> set (rr_ready s)" "rr_current s \<noteq> Some n" using flowD(2,3) [OF F, of n] by (auto simp: current_mset_def)
  show "rr_enqueue n (s\<lparr>rr_threads := (rr_threads s)(n := t)\<rparr>) = (Inr (), rr_enqueue_ready n (s\<lparr>rr_threads := (rr_threads s)(n := t)\<rparr>))"
    using N assms(2) by (simp add: rr_enqueue_def op_simps rr_contains_def alive_states states_def)
  have "states (put_state n READY ((rr_threads s)(n := t))) = (states (rr_threads s))(n := READY)"
    by (auto simp: states_def put_state_def set_state_def)
  with flow_new [OF F] show "flow_ok (rr_enqueue_ready n (s\<lparr>rr_threads := (rr_threads s)(n := t)\<rparr>)) W (Suc n)"
    by (simp add: flow_ok_def rr_enqueue_ready_def del: states_put)
qed

text \<open>Changes of a thread other than of its scheduling state do not matter.\<close>

lemma flow_ok_same_states:
  assumes "flow_ok s W n" and "states h = states (rr_threads s)"
  shows "flow_ok (s\<lparr>rr_threads := h\<rparr>) W n"
  using assms by (simp add: flow_ok_def)

section \<open>Threads stay dead\<close>

definition stay_dead :: "threads \<Rightarrow> threads \<Rightarrow> bool" where
  "stay_dead h h' \<longleftrightarrow> (\<forall>p. alive h' p \<longrightarrow> alive h p)"

lemma stay_dead_refl [simp]: "stay_dead h h"
  by (simp add: stay_dead_def)

lemma stay_dead_trans: "stay_dead h h' \<Longrightarrow> stay_dead h' h'' \<Longrightarrow> stay_dead h h''"
  by (simp add: stay_dead_def)

lemma stay_dead_put: "st = DEAD \<or> alive h p \<Longrightarrow> stay_dead h (put_state p st h)"
  by (auto simp: stay_dead_def alive_states)

lemma take_runnable_runnable: "take_runnable h q = (Some p, q') \<Longrightarrow> alive h p"
  by (induction q) (auto simp: is_runnable_def is_alive_def split: if_splits)

lemma stay_dead_schedule: "stay_dead (rr_threads s) (rr_threads (snd (rr_schedule_next s)))"
proof -
  have choose: "stay_dead h (rr_threads (snd (case take_runnable h q of
        (None, q) \<Rightarrow> (None, t\<lparr>rr_ready := q\<rparr>)
      | (Some p, q) \<Rightarrow> (Some p, t\<lparr>rr_threads := put_state p RUNNING (rr_threads t), rr_ready := q, rr_current := Some p\<rparr>))))"
    if "rr_threads t = h" for h q t
    using that by (auto split: prod.split option.split intro!: stay_dead_put dest: take_runnable_runnable)
  show ?thesis
  proof (cases "\<exists>p. rr_current s = Some p \<and> th_state (rr_threads s p) = RUNNING")
    case True
    then obtain p where p: "rr_current s = Some p" "th_state (rr_threads s p) = RUNNING" by blast
    then have "stay_dead (rr_threads s) (put_state p READY (rr_threads s))" by (intro stay_dead_put) (simp add: is_alive_def)
    from stay_dead_trans [OF this choose [of "s\<lparr>rr_threads := put_state p READY (rr_threads s), rr_ready := rr_ready s @ [p],
        rr_current := None\<rparr>" _ "rr_ready s @ [p]"]] p show ?thesis by (simp add: rr_schedule_next_def Let_def)
  next
    case False
    with choose [of "s\<lparr>rr_current := None\<rparr>" "rr_threads s" "rr_ready s"] show ?thesis
      by (auto simp: rr_schedule_next_def Let_def split: option.split)
  qed
qed

lemma stay_dead_exit: "stay_dead (rr_threads s) (rr_threads (snd (rr_exit_current s)))"
proof (cases "rr_current s")
  case (Some p)
  let ?s = "s\<lparr>rr_threads := put_state p DEAD (rr_threads s), rr_current := None\<rparr>"
  have "stay_dead (rr_threads s) (rr_threads ?s)" by (simp add: stay_dead_put)
  from stay_dead_trans [OF this stay_dead_schedule] Some show ?thesis by (simp add: rr_exit_current_def)
qed (simp add: rr_exit_current_def)

lemma stay_dead_block:
  assumes "rr_current s = Some p" and "alive (rr_threads s) p"
  shows "stay_dead (rr_threads s) (rr_threads (snd (rr_block_current s)))"
proof -
  let ?s = "s\<lparr>rr_threads := put_state p BLOCKED (rr_threads s), rr_current := None\<rparr>"
  have "stay_dead (rr_threads s) (rr_threads ?s)" using assms(2) by (simp add: stay_dead_put)
  from stay_dead_trans [OF this stay_dead_schedule] assms show ?thesis by (simp add: rr_block_current_def)
qed

lemma exit_kills_current:
  assumes "rr_current s = Some p"
  shows "\<not> alive (rr_threads (snd (rr_exit_current s))) p"
proof -
  let ?s = "s\<lparr>rr_threads := put_state p DEAD (rr_threads s), rr_current := None\<rparr>"
  have "\<not> alive (rr_threads ?s) p" by (simp add: alive_states)
  with stay_dead_schedule [of ?s] assms show ?thesis by (auto simp: rr_exit_current_def stay_dead_def)
qed

end
