(* ===== verification/KernelThreads.thy ===== *)
theory KernelThreads
  imports Kernel ThreadFlow
begin

text \<open>
  The threads of the kernel. No operation loses a thread or puts it in two places, wake-ups never throw, and the threads
  of a process that has exited never run again. The invariant is kept by every operation of the kernel on the
  round-robin scheduler; the blocking ones are called for the current thread, as the system calls do.
\<close>

section \<open>The invariant\<close>

definition waiting :: "kernel \<Rightarrow> tptr list" where
  "waiting k = map se_thread (kn_sleepers k) @ cn_waiters (kn_console k) @ concat (map we_queue (kn_wait_entries k))
     @ concat (map fb_queue (kn_futexes k))"

definition procs_ok :: "threads \<Rightarrow> process list \<Rightarrow> nat \<Rightarrow> bool" where
  "procs_ok h ps n \<longleftrightarrow> (\<forall>p \<in> set ps. \<forall>t \<in> set (pr_threads p). t < n \<and> (pr_state p \<noteq> PROCESS_RUNNING \<longrightarrow> \<not> alive h t))"

definition child_running :: "kernel \<Rightarrow> process_id \<Rightarrow> bool" where
  "child_running k c \<longleftrightarrow> (case find_process_by_id c k of None \<Rightarrow> False | Some i \<Rightarrow> pr_state (kn_processes k ! i) = PROCESS_RUNNING)"

definition entries_ok :: "kernel \<Rightarrow> bool" where
  "entries_ok k \<longleftrightarrow> (\<forall>e \<in> set (kn_wait_entries k). child_running k (we_child e))"

definition smp_idle :: "kernel \<Rightarrow> bool" where
  "smp_idle k \<longleftrightarrow> length (kn_smp_queues k) = unat (kn_topology k) \<and> (\<forall>q \<in> set (kn_smp_queues k). \<not> has_work q)"

definition kernel_inv :: "kernel \<Rightarrow> bool" where
  "kernel_inv k \<longleftrightarrow> flow_ok (kn_scheduler k) (mset (waiting k)) (kn_next_thread k)
     \<and> procs_ok (kn_threads k) (kn_processes k) (kn_next_thread k) \<and> entries_ok k \<and> smp_idle k"

lemma kernel_invD:
  assumes "kernel_inv k"
  shows "flow_ok (kn_scheduler k) (mset (waiting k)) (kn_next_thread k)"
    and "procs_ok (kn_threads k) (kn_processes k) (kn_next_thread k)" and "entries_ok k" and "smp_idle k"
  using assms by (simp_all add: kernel_inv_def)

section \<open>Operations that do not concern threads\<close>

definition proc_view :: "process \<Rightarrow> process_id \<times> process_state \<times> tptr list" where
  "proc_view p = (pr_id p, pr_state p, pr_threads p)"

definition thread_view :: "kernel \<Rightarrow> _" where
  "thread_view k = (rr_ready (kn_scheduler k), rr_current (kn_scheduler k), states (kn_threads k), waiting k, kn_next_thread k,
     map we_child (kn_wait_entries k), map proc_view (kn_processes k), kn_smp_queues k, kn_topology k)"

lemma child_running_cong:
  assumes "map (\<lambda>p. (pr_id p, pr_state p)) (kn_processes k') = map (\<lambda>p. (pr_id p, pr_state p)) (kn_processes k)"
  shows "find_process_by_id c k' = find_process_by_id c k" and "child_running k' c = child_running k c"
proof -
  let ?f = "\<lambda>p. (pr_id p, pr_state p)"
  have len: "length (kn_processes k') = length (kn_processes k)" using arg_cong [OF assms, of length] by simp
  have eq: "pr_id (kn_processes k' ! i) = pr_id (kn_processes k ! i)" "pr_state (kn_processes k' ! i) = pr_state (kn_processes k ! i)"
    if "i < length (kn_processes k)" for i
  proof -
    have "map ?f (kn_processes k') ! i = map ?f (kn_processes k) ! i" unfolding assms ..
    then have "?f (kn_processes k' ! i) = ?f (kn_processes k ! i)" using that len by (simp only: nth_map)
    then show "pr_id (kn_processes k' ! i) = pr_id (kn_processes k ! i)" "pr_state (kn_processes k' ! i) = pr_state (kn_processes k ! i)"
      by simp_all
  qed
  show find: "find_process_by_id c k' = find_process_by_id c k"
    unfolding find_process_by_id_def len by (rule find_cong) (simp_all add: eq)
  have "i < length (kn_processes k)" if "find_process_by_id c k = Some i" for i
    using that by (auto simp: find_process_by_id_def find_Some_iff)
  with eq(2) show "child_running k' c = child_running k c" unfolding child_running_def find by (simp split: option.split)
qed

lemma find_process_view:
  assumes "map proc_view (kn_processes k') = map proc_view (kn_processes k)"
  shows "child_running k' c = child_running k c"
proof (rule child_running_cong(2))
  have views: "map (\<lambda>p. (pr_id p, pr_state p)) ps = map (\<lambda>v. (fst v, fst (snd v))) (map proc_view ps)" for ps
    unfolding map_map comp_def proc_view_def fst_conv snd_conv ..
  show "map (\<lambda>p. (pr_id p, pr_state p)) (kn_processes k') = map (\<lambda>p. (pr_id p, pr_state p)) (kn_processes k)"
    unfolding views assms ..
qed

lemma procs_ok_view:
  assumes "map proc_view ps' = map proc_view ps" and "states h' = states h"
  shows "procs_ok h' ps' n \<longleftrightarrow> procs_ok h ps n"
proof -
  have *: "procs_ok h ps n \<longleftrightarrow> (\<forall>(i, st, ts) \<in> set (map proc_view ps). \<forall>t \<in> set ts. t < n \<and> (st \<noteq> PROCESS_RUNNING \<longrightarrow> states h t = DEAD))" for h ps
    by (auto simp: procs_ok_def proc_view_def alive_states)
  show ?thesis unfolding * assms ..
qed

lemma kernel_inv_view:
  assumes "kernel_inv k" and "thread_view k' = thread_view k"
  shows "kernel_inv k'"
proof -
  have sched: "flow_ok (kn_scheduler k') (mset (waiting k')) (kn_next_thread k')"
    using assms by (simp add: kernel_inv_def thread_view_def flow_ok_def current_mset_def)
  have procs: "map proc_view (kn_processes k') = map proc_view (kn_processes k)" using assms(2) by (simp add: thread_view_def)
  have "map we_child (kn_wait_entries k') = map we_child (kn_wait_entries k)" using assms(2) by (simp add: thread_view_def)
  then have "we_child ` set (kn_wait_entries k') = we_child ` set (kn_wait_entries k)" by (metis list.set_map)
  moreover have "\<forall>c \<in> we_child ` set (kn_wait_entries k). child_running k c" using assms(1) by (simp add: kernel_inv_def entries_ok_def)
  ultimately have "\<forall>c \<in> we_child ` set (kn_wait_entries k'). child_running k' c" using find_process_view [OF procs] by simp
  then have "entries_ok k'" by (simp add: entries_ok_def)
  moreover have "procs_ok (kn_threads k') (kn_processes k') (kn_next_thread k')"
    using assms procs_ok_view [OF procs, of "kn_threads k'" "kn_threads k"] by (auto simp: kernel_inv_def thread_view_def)
  moreover have "smp_idle k'" using assms by (auto simp: kernel_inv_def thread_view_def smp_idle_def)
  ultimately show ?thesis using sched by (simp add: kernel_inv_def)
qed

definition thread_free :: "(kernel, 'a) op \<Rightarrow> bool" where
  "thread_free m \<longleftrightarrow> (\<forall>k. thread_view (snd (m k)) = thread_view k)"

lemma thread_free_inv: "thread_free m \<Longrightarrow> kernel_inv k \<Longrightarrow> kernel_inv (snd (m k))"
  by (rule kernel_inv_view) (auto simp: thread_free_def)

lemma thread_free_keeps: "thread_free m \<Longrightarrow> keeps kernel_inv m"
  by (auto simp: keeps_def intro: thread_free_inv)

lemma thread_freeI: "(\<And>k. thread_view (snd (m k)) = thread_view k) \<Longrightarrow> thread_free m"
  by (simp add: thread_free_def)

lemma thread_free_bnd: "thread_free m \<Longrightarrow> (\<And>x. thread_free (f x)) \<Longrightarrow> thread_free (bnd m f)"
  unfolding thread_free_def bnd_def by (auto split: prod.split sum.split) (metis snd_conv)+

lemma thread_free_sq: "thread_free m \<Longrightarrow> thread_free m' \<Longrightarrow> thread_free (sq m m')"
  unfolding sq_def by (rule thread_free_bnd) auto

lemma thread_free_basic: "thread_free (ret x)" "thread_free (throw e)" "thread_free (gets f)" "thread_free (lift_sum r)"
  "thread_free require_booted" "thread_free (\<lambda>k. (g k, k))"
  by (auto simp: thread_free_def op_simps require_booted_def)

lemma thread_free_catch: "thread_free m \<Longrightarrow> (\<And>e. thread_free (f e)) \<Longrightarrow> thread_free (catch_exn m f)"
  unfolding thread_free_def catch_exn_def by (auto split: prod.split sum.split) (metis snd_conv)+

lemma thread_free_on_cache: "thread_free (on_cache f)"
  by (rule thread_freeI) (auto simp: on_cache_def focus_def thread_view_def waiting_def split: prod.split)

lemma thread_free_apic: "thread_free (focus kn_apic kn_apic_update f)"
  by (rule thread_freeI) (auto simp: focus_def thread_view_def waiting_def split: prod.split)

lemma thread_free_on_allocator: "thread_free (on_allocator_of f)"
  by (rule thread_freeI) (auto simp: on_allocator_of_def focus_def thread_view_def waiting_def split: prod.split)

lemma map_proc_view_update:
  "i < length ps \<Longrightarrow> proc_view p = proc_view (ps ! i) \<Longrightarrow> map proc_view (ps[i := p]) = map proc_view ps"
  by (metis list_update_id map_update)

lemma map_proc_view_update':
  assumes "proc_view p = proc_view (ps ! i)"
  shows "map proc_view (ps[i := p]) = map proc_view ps"
  using assms by (cases "i < length ps") (simp_all add: map_proc_view_update list_update_beyond)

lemmas thread_free_rules = thread_free_bnd thread_free_sq thread_free_basic thread_free_catch thread_free_on_cache
  thread_free_apic thread_free_on_allocator

lemma thread_free_console_write: "thread_free (kernel_console_write s)"
proof -
  have "cn_waiters (snd (console_write s c)) = cn_waiters c" for c
    by (auto simp: console_write_def on_terminal_def focus_def split: prod.split)
  then have "thread_free (focus kn_console kn_console_update (console_write s))"
    by (intro thread_freeI) (auto simp: focus_def thread_view_def waiting_def split: prod.split, metis snd_conv)
  then show ?thesis unfolding kernel_console_write_def by (intro thread_free_rules)
qed

lemma thread_free_on_files: "thread_free (on_files i f)"
  by (rule thread_freeI)
    (auto simp: on_files_def thread_view_def waiting_def proc_view_def intro!: map_proc_view_update' split: prod.split)

lemma thread_free_put_description: "thread_free (put_description_file d f)"
  by (rule thread_freeI) (simp add: put_description_file_def op_simps thread_view_def waiting_def)

lemma thread_free_entry_file: "thread_free (entry_vfs_file e)"
  unfolding entry_vfs_file_def by (intro thread_free_rules)

lemma thread_free_case_prod: "(\<And>a b. thread_free (f a b)) \<Longrightarrow> thread_free (case p of (a, b) \<Rightarrow> f a b)"
  by (cases p) simp

lemma thread_free_write_fd: "thread_free (write_fd i d s)"
proof -
  have on_file: "thread_free (catch_exn (bnd (entry_vfs_file e) (\<lambda>(d, f). bnd (on_cache (vf_write (map char_byte s) f)) (\<lambda>(n, f).
      sq (put_description_file d f) (ret (Io_ready n)))))
     (\<lambda>e. if e = Length_error then ret No_space else if e = Invalid_argument then ret Io_invalid_argument
        else if is_logic_error e then ret Bad_descriptor else throw e))" for e
    by (auto intro!: thread_free_rules thread_free_case_prod thread_free_entry_file thread_free_put_description)
  have tty: "thread_free (sq (kernel_console_write s) (ret (Io_ready (length s))))"
    by (intro thread_free_rules thread_free_console_write)
  note F = on_file [unfolded thread_free_def, rule_format] tty [unfolded thread_free_def, rule_format]
  show ?thesis unfolding write_fd_def
    by (rule thread_free_sq [OF thread_free_basic(5)], rule thread_freeI) (auto simp: F split: option.split file_device_kind.split)
qed

lemma thread_free_open_file: "thread_free (open_file i path m c)"
  unfolding open_file_def Let_def by (auto intro!: thread_free_rules thread_free_on_files)

lemma thread_free_close_fd: "thread_free (close_fd i d)"
  unfolding close_fd_def by (intro thread_free_rules thread_free_on_files)

lemma states_cpu: "states (h(t := (h t)\<lparr>th_cpu := c\<rparr>)) = states h"
  by (auto simp: states_def)

lemma thread_free_fault_handler:
  assumes "\<And>a k. thread_view (put a k) = thread_view k"
  shows "thread_free (run_fault_handler get put t)"
  by (rule thread_freeI)
    (auto simp: run_fault_handler_def assms split: prod.split sum.split, auto simp: thread_view_def waiting_def states_cpu)

lemma thread_view_put_space: "thread_view (put_process_space i a k) = thread_view k"
  by (auto simp: put_process_space_def thread_view_def waiting_def proc_view_def intro!: map_proc_view_update')

lemma thread_free_page_faults: "thread_free (kernel_handle_page_fault t)" "thread_free (process_handle_page_fault i t)"
  "thread_free (handle_cow_write_fault i t)"
proof -
  show "thread_free (kernel_handle_page_fault t)" unfolding kernel_handle_page_fault_def
    by (intro thread_free_rules thread_free_fault_handler) (simp add: thread_view_def waiting_def)
  show "thread_free (process_handle_page_fault i t)" unfolding process_handle_page_fault_def
    by (intro thread_free_rules thread_free_fault_handler thread_view_put_space)
  show "thread_free (handle_cow_write_fault i t)" unfolding handle_cow_write_fault_def
    by (rule thread_free_sq [OF thread_free_basic(5)], rule thread_freeI)
      (auto simp: thread_view_put_space split: prod.split, auto simp: thread_view_def waiting_def states_cpu)
qed

lemma thread_free_check_core: "thread_free (check_core c)" "thread_free (validate_ipi_route c d)"
  by (auto simp: thread_free_def check_core_def validate_ipi_route_def op_simps split: sum.split)

lemma thread_free_shootdown: "thread_free (request_tlb_shootdown_page a b v x)" "thread_free (request_tlb_shootdown_all a b x)"
  unfolding request_tlb_shootdown_page_def request_tlb_shootdown_all_def kernel_send_ipi_def
  by (intro thread_free_rules thread_free_check_core; rule thread_freeI; auto simp: thread_view_def waiting_def split: prod.split)+

lemma thread_free_handoff: "thread_free (request_scheduler_handoff a b t)"
proof -
  have "thread_free (on_scheduler (modify (\<lambda>s. s\<lparr>rr_threads := (rr_threads s)(t :=
         (rr_threads s t)\<lparr>th_cpu := set_core_id b (th_cpu (rr_threads s t))\<rparr>)\<rparr>)))"
    by (rule thread_freeI) (auto simp: on_scheduler_def op_simps thread_view_def waiting_def states_cpu)
  moreover have "thread_free (push_handoff a b x)" for x
    unfolding push_handoff_def Let_def
    by (intro thread_free_rules; rule thread_freeI) (auto simp: next_scheduler_handoff_sequence_def op_simps thread_view_def waiting_def)
  moreover have "thread_free (\<lambda>k. require (alive (kn_threads k) t) Logic_error k)"
    by (rule thread_freeI) (simp add: op_simps)
  ultimately show ?thesis
    unfolding request_scheduler_handoff_def record_scheduler_handoff_def send_reschedule_ipi_def kernel_send_ipi_def
    by (intro thread_free_rules thread_free_check_core) auto
qed

lemma thread_free_create_address_space: "thread_free (create_address_space n)"
proof -
  have build: "thread_free (\<lambda>k. case AddressSpace a b c (kn_memory k) of
      (Inl e, (space, m)) \<Rightarrow> (Inl e, k\<lparr>kn_memory := m\<rparr>) | (Inr _, (space, m)) \<Rightarrow> (Inr space, k\<lparr>kn_memory := m\<rparr>))" for a b c
    by (rule thread_freeI) (auto simp: thread_view_def waiting_def split: prod.split sum.split)
  show ?thesis unfolding create_address_space_def Let_def by (auto intro!: thread_free_rules build)
qed

section \<open>Processes\<close>

lemma find_process_update:
  assumes "kn_processes k' = (kn_processes k)[i := p]" and "pr_id p = pr_id (kn_processes k ! i)"
  shows "find_process_by_id c k' = find_process_by_id c k"
proof -
  have id: "pr_id ((kn_processes k)[i := p] ! j) = pr_id (kn_processes k ! j)" if "j < length (kn_processes k)" for j
    using assms(2) that by (cases "i = j") simp_all
  show ?thesis unfolding find_process_by_id_def assms(1) length_list_update by (rule find_cong) (simp_all add: id)
qed

lemma find_process_append:
  assumes "find_process_by_id c k = Some i" and "kn_processes k' = kn_processes k @ ps"
  shows "find_process_by_id c k' = Some i" and "i < length (kn_processes k)"
proof -
  show "i < length (kn_processes k)" using assms(1) by (auto simp: find_process_by_id_def find_Some_iff)
  let ?n = "length (kn_processes k)"
  have "[0..<length (kn_processes k')] = [0..<?n] @ [?n..<length (kn_processes k')]"
    using upt_add_eq_append [of 0 ?n "length ps"] assms(2) by simp
  then have "find_process_by_id c k' = (case find (\<lambda>i. pr_id (kn_processes k' ! i) = c) [0..<?n] of
      None \<Rightarrow> find (\<lambda>i. pr_id (kn_processes k' ! i) = c) [?n..<length (kn_processes k')] | Some x \<Rightarrow> Some x)"
    by (simp add: find_process_by_id_def find_append)
  moreover have "find (\<lambda>i. pr_id (kn_processes k' ! i) = c) [0..<?n] = find_process_by_id c k"
    unfolding find_process_by_id_def by (rule find_cong) (use assms(2) in \<open>auto simp: nth_append\<close>)
  ultimately show "find_process_by_id c k' = Some i" using assms(1) by simp
qed

lemma kernel_inv_new_process:
  assumes "kernel_inv k" and "pr_threads p = []"
  shows "kernel_inv (k\<lparr>kn_descriptions := ds, kn_processes := kn_processes k @ [p]\<rparr>)"
proof -
  let ?k = "k\<lparr>kn_descriptions := ds, kn_processes := kn_processes k @ [p]\<rparr>"
  have "child_running ?k c" if "child_running k c" for c
    using that find_process_append [of c k _ ?k "[p]"]
    by (auto simp: child_running_def nth_append split: option.splits)
  with assms show ?thesis
    by (auto simp: kernel_inv_def entries_ok_def procs_ok_def smp_idle_def waiting_def)
qed

lemma create_process_inv:
  assumes "kernel_inv k"
  shows "kernel_inv (snd (create_process_with_parent parent k))"
proof -
  have count: "thread_free (modify (\<lambda>k. k\<lparr>kn_next_process_id := kn_next_process_id k + 1\<rparr>))"
    by (rule thread_freeI) (simp add: op_simps thread_view_def waiting_def)
  have threads: "pr_threads p = []" if "Process pid a q ds = (Inr p, ds')" for pid a q ds p ds'
    using that by (auto simp: Process_def split: prod.splits sum.splits if_splits)
  have desc: "kernel_inv (k\<lparr>kn_descriptions := ds\<rparr>)" if "kernel_inv k" for k ds
    by (rule kernel_inv_view [OF that]) (simp add: thread_view_def waiting_def)
  have "keeps kernel_inv (\<lambda>k. case Process pid space parent (kn_descriptions k) of
      (Inl e, ds) \<Rightarrow> (Inl e, k\<lparr>kn_descriptions := ds\<rparr>)
    | (Inr p, ds) \<Rightarrow> (Inr (length (kn_processes k)), k\<lparr>kn_descriptions := ds, kn_processes := kn_processes k @ [p]\<rparr>))" for pid space
    by (rule keepsI) (auto split: prod.split sum.split intro!: desc kernel_inv_new_process dest: threads)
  then have "keeps kernel_inv (create_process_with_parent parent)"
    unfolding create_process_with_parent_def
    by (intro keeps_intros thread_free_keeps [OF thread_free_basic(5)] thread_free_keeps [OF count]
        thread_free_keeps [OF thread_free_create_address_space])
  with assms show ?thesis by (simp add: keeps_def)
qed

lemma fork_inv:
  assumes "kernel_inv k"
  shows "kernel_inv (snd (fork_process_cow parent pages k))"
proof -
  have files: "thread_free (modify (\<lambda>k. k\<lparr>kn_processes := (kn_processes k)[child := (kn_processes k ! child)
          \<lparr>pr_files := pr_files (kn_processes k ! parent)\<rparr>]\<rparr>))" for child
    by (rule thread_freeI) (auto simp: op_simps thread_view_def waiting_def proc_view_def intro!: map_proc_view_update')
  have spaces: "map proc_view (ps[parent := (ps ! parent)\<lparr>pr_space := a\<rparr>, child := (ps ! child)\<lparr>pr_space := b\<rparr>]) = map proc_view ps"
    for ps a b child
  proof -
    have "proc_view (ps ! child) = proc_view (ps[parent := (ps ! parent)\<lparr>pr_space := a\<rparr>] ! child)"
      by (cases "parent = child"; cases "parent < length ps") (simp_all add: proc_view_def list_update_beyond)
    then have "map proc_view (ps[parent := (ps ! parent)\<lparr>pr_space := a\<rparr>, child := (ps ! child)\<lparr>pr_space := b\<rparr>])
        = map proc_view (ps[parent := (ps ! parent)\<lparr>pr_space := a\<rparr>])"
      by (intro map_proc_view_update') (simp add: proc_view_def)
    also have "\<dots> = map proc_view ps" by (intro map_proc_view_update') (simp add: proc_view_def)
    finally show ?thesis .
  qed
  have share: "thread_free (\<lambda>k. case share_pages (pr_id (kn_processes k ! parent)) (pr_id (kn_processes k ! child)) pages
        \<lparr>sh_cow = kn_cow k, sh_parent = pr_space (kn_processes k ! parent), sh_child = pr_space (kn_processes k ! child),
          sh_memory = kn_memory k\<rparr> of
      (r, s) \<Rightarrow> (sbind r (\<lambda>_. Inr child), k\<lparr>kn_cow := sh_cow s, kn_memory := sh_memory s,
        kn_processes := (kn_processes k)[parent := (kn_processes k ! parent)\<lparr>pr_space := sh_parent s\<rparr>,
          child := (kn_processes k ! child)\<lparr>pr_space := sh_child s\<rparr>]\<rparr>))" for child
    by (rule thread_freeI) (simp add: thread_view_def waiting_def spaces split: prod.split)
  have create: "keeps kernel_inv (create_process_with_parent pid)" for pid
    using create_process_inv by (simp add: keeps_def)
  have "keeps kernel_inv (fork_process_cow parent pages)" unfolding fork_process_cow_def
    by (intro keeps_intros create thread_free_keeps [OF thread_free_basic(5)] thread_free_keeps [OF files] thread_free_keeps [OF share])
  with assms show ?thesis by (simp add: keeps_def)
qed

section \<open>The scheduler\<close>

lemma procs_ok_stay_dead: "procs_ok h ps n \<Longrightarrow> stay_dead h h' \<Longrightarrow> procs_ok h' ps n"
  by (auto simp: procs_ok_def stay_dead_def)

text \<open>Only the scheduler changes, and some threads are in hand: taken from a queue, to be woken next.\<close>

lemma kernel_inv_scheduler:
  assumes "kernel_inv k" and "flow_ok s (mset (waiting k)) (kn_next_thread k)" and "stay_dead (kn_threads k) (rr_threads s)"
  shows "kernel_inv (k\<lparr>kn_scheduler := s\<rparr>)"
  using assms procs_ok_stay_dead [OF kernel_invD(2) [OF assms(1)] assms(3)] child_running_cong(2) [of "k\<lparr>kn_scheduler := s\<rparr>" k]
  by (simp add: kernel_inv_def entries_ok_def smp_idle_def waiting_def)

lemma rr_call_run: "rr_call f k = (Inr (fst (f (kn_scheduler k))), k\<lparr>kn_scheduler := snd (f (kn_scheduler k))\<rparr>)"
  by (simp add: rr_call_def on_scheduler_def focus_def split: prod.split)

lemma schedule_inv:
  assumes "kernel_inv k"
  shows "kernel_inv (snd (rr_call rr_schedule_next k))" and "kernel_inv (snd (rr_call rr_yield_current k))"
    and "kernel_inv (snd (rr_call rr_exit_current k))"
  using assms flow_ok_schedule [OF kernel_invD(1) [OF assms]] flow_ok_exit [OF kernel_invD(1) [OF assms]]
    stay_dead_schedule [of "kn_scheduler k"] stay_dead_exit [of "kn_scheduler k"]
  by (simp_all add: rr_call_run rr_yield_current_def kernel_inv_scheduler)

lemma rr_enqueue_ready_alive:
  "alive h p \<Longrightarrow> rr_threads s = h \<Longrightarrow> alive (rr_threads (rr_enqueue_ready p s)) q = alive h q"
  by (auto simp: rr_enqueue_ready_def alive_states)

lemma wake_each_run:
  assumes "flow_ok (kn_scheduler k) (mset ps + W) n" and "list_all (alive (kn_threads k)) ps"
  obtains s where "wake_each ps k = (Inr (), k\<lparr>kn_scheduler := s\<rparr>)" and "flow_ok s W n"
    and "\<forall>p. alive (rr_threads s) p = alive (kn_threads k) p"
  using assms
proof (induction ps arbitrary: k thesis)
  case Nil
  from Nil(1) [of "kn_scheduler k"] Nil(2) show ?case by (simp add: wake_each_def op_simps)
next
  case (Cons p ps)
  have f: "flow_ok (kn_scheduler k) (add_mset p (mset ps + W)) n" and live: "alive (kn_threads k) p"
    using Cons.prems(2,3) by simp_all
  note w = flow_ok_wake [OF f live]
  let ?k = "k\<lparr>kn_scheduler := rr_enqueue_ready p (kn_scheduler k)\<rparr>"
  have same: "alive (kn_threads ?k) q = alive (kn_threads k) q" for q using rr_enqueue_ready_alive [OF live refl] by simp
  then have "list_all (alive (kn_threads ?k)) ps" using Cons.prems(3) by (simp add: list_all_iff)
  from Cons.IH [of ?k, OF _ _ this] w(2) obtain s where s: "wake_each ps ?k = (Inr (), ?k\<lparr>kn_scheduler := s\<rparr>)" "flow_ok s W n"
    "\<forall>p. alive (rr_threads s) p = alive (kn_threads ?k) p" by auto
  show ?case
    by (rule Cons.prems(1) [of s])
      (use s same w(1) in \<open>auto simp: wake_each_def op_simps on_scheduler_def\<close>)
qed

text \<open>
  Threads leave a queue to be woken. In \<open>k\<close> the queue holds \<open>ps\<close> no longer; together with \<open>ps\<close> the waiting threads are, up to
  dead ones, those of before.
\<close>

lemma wake_inv:
  assumes "kernel_inv k0" and "kn_scheduler k = kn_scheduler k0" and "kn_next_thread k = kn_next_thread k0"
    and "kn_processes k = kn_processes k0" and "set (kn_wait_entries k) \<subseteq> set (kn_wait_entries k0) \<or> we_child ` set (kn_wait_entries k) \<subseteq> we_child ` set (kn_wait_entries k0)"
    and "kn_smp_queues k = kn_smp_queues k0" and "kn_topology k = kn_topology k0"
    and "filter_mset (alive (kn_threads k0)) (mset ps + mset (waiting k)) = filter_mset (alive (kn_threads k0)) (mset (waiting k0))"
    and "set ps \<union> set (waiting k) \<subseteq> set (waiting k0)" and "list_all (alive (kn_threads k0)) ps"
  obtains k' where "wake_each ps k = (Inr (), k')" and "kernel_inv k'" and "k' = k\<lparr>kn_scheduler := kn_scheduler k'\<rparr>"
    and "\<forall>p. alive (kn_threads k') p = alive (kn_threads k) p"
proof -
  note I = kernel_invD [OF assms(1)]
  have f: "flow_ok (kn_scheduler k) (mset ps + mset (waiting k)) (kn_next_thread k)"
    unfolding assms(2,3) by (rule flow_ok_waiting [OF I(1)]) (use assms(8,9) in auto)
  have live: "list_all (alive (kn_threads k)) ps" using assms(2,10) by simp
  obtain s where s: "wake_each ps k = (Inr (), k\<lparr>kn_scheduler := s\<rparr>)" "flow_ok s (mset (waiting k)) (kn_next_thread k)"
    "\<forall>p. alive (rr_threads s) p = alive (kn_threads k) p" by (rule wake_each_run [OF f live])
  have "we_child ` set (kn_wait_entries k) \<subseteq> we_child ` set (kn_wait_entries k0)" using assms(5) by blast
  then have "entries_ok (k\<lparr>kn_scheduler := s\<rparr>)"
    using I(3) child_running_cong(2) [of "k\<lparr>kn_scheduler := s\<rparr>" k0] assms(4) by (auto simp: entries_ok_def)
  moreover have "procs_ok (rr_threads s) (kn_processes k) (kn_next_thread k)"
    using I(2) s(3) assms(2-4) by (simp add: procs_ok_def)
  ultimately have "kernel_inv (k\<lparr>kn_scheduler := s\<rparr>)"
    using s(2) I(4) assms(6,7) by (simp add: kernel_inv_def waiting_def smp_idle_def)
  with s that [of "k\<lparr>kn_scheduler := s\<rparr>"] show thesis by simp
qed

section \<open>New threads\<close>

lemma ThreadContext_ready: "ThreadContext tid b n = Inr t \<Longrightarrow> th_state t = READY"
  by (auto simp: ThreadContext_def initialize_cpu_stack_pointer_def sbind_def split: sum.splits if_splits)

lemma create_thread_inv:
  assumes "kernel_inv k" and "i < length (kn_processes k)"
  shows "kernel_inv (snd (create_thread_at i bottom size_bytes k))"
proof -
  let ?p = "kn_processes k ! i" and ?n = "kn_next_thread k" and ?tid = "kn_next_thread_id k"
  let ?k = "k\<lparr>kn_next_thread_id := kn_next_thread_id k + 1\<rparr>"
  note I = kernel_invD [OF assms(1)]
  have k: "kernel_inv ?k" by (rule kernel_inv_view [OF assms(1)]) (simp add: thread_view_def waiting_def)
  show ?thesis
  proof (cases "kn_booted k \<and> pr_state ?p = PROCESS_RUNNING \<and> \<not> contains_thread_id (kn_threads k) ?tid ?p
      \<and> (\<exists>t. ThreadContext ?tid bottom size_bytes = Inr t)")
    case False
    then have "snd (create_thread_at i bottom size_bytes k) = (if kn_booted k then ?k else k)"
      by (auto simp: create_thread_at_def op_simps require_booted_def take_thread_id_def process_create_thread_def Let_def
          split: sum.split)
    with k assms(1) show ?thesis by simp
  next
    case True
    then obtain t where t: "ThreadContext ?tid bottom size_bytes = Inr t" by blast
    note N = flow_ok_new [OF I(1) ThreadContext_ready [OF t]]
    let ?s = "rr_enqueue_ready ?n ((kn_scheduler k)\<lparr>rr_threads := (kn_threads k)(?n := t)\<rparr>)"
    let ?k' = "?k\<lparr>kn_scheduler := ?s, kn_next_thread := Suc ?n,
      kn_processes := (kn_processes k)[i := ?p\<lparr>pr_threads := pr_threads ?p @ [?n]\<rparr>]\<rparr>"
    have run: "snd (create_thread_at i bottom size_bytes k) = ?k'"
      using True t N(1) by (simp add: create_thread_at_def op_simps require_booted_def take_thread_id_def process_create_thread_def
          Let_def on_scheduler_def)
    have old: "alive (rr_threads ?s) q = alive (kn_threads k) q" if "q < ?n" for q
      using that by (auto simp: rr_enqueue_ready_def alive_states states_def)
    have "procs_ok (rr_threads ?s) (kn_processes ?k') (Suc ?n)"
    proof -
      have "procs_ok (rr_threads ?s) (kn_processes k) (Suc ?n)" using I(2) old by (fastforce simp: procs_ok_def)
      moreover have "\<forall>q \<in> set (pr_threads ?p). q < Suc ?n" using I(2) assms(2) by (fastforce simp: procs_ok_def)
      ultimately show ?thesis using True by (auto simp: procs_ok_def dest!: set_update_subset_insert [THEN subsetD])
    qed
    moreover have "child_running ?k' c = child_running k c" for c
      using map_update [of "\<lambda>p. (pr_id p, pr_state p)" "kn_processes k" i "?p\<lparr>pr_threads := pr_threads ?p @ [?n]\<rparr>"]
        list_update_id [of "map (\<lambda>p. (pr_id p, pr_state p)) (kn_processes k)" i] assms(2)
      by (intro child_running_cong(2)) simp
    ultimately have "kernel_inv ?k'"
      using N(2) I(3,4) by (simp add: kernel_inv_def entries_ok_def smp_idle_def waiting_def)
    then show ?thesis unfolding run .
  qed
qed

section \<open>Exit\<close>

lemma kill_thread_run:
  assumes "flow_ok (kn_scheduler k) W n"
  obtains s where "kill_thread t k = (Inr (), k\<lparr>kn_scheduler := s\<rparr>)" and "flow_ok s W n"
    and "stay_dead (kn_threads k) (rr_threads s)" and "\<not> alive (rr_threads s) t"
proof (cases "alive (kn_threads k) t")
  case False
  from that [of "kn_scheduler k"] False assms show thesis by (simp add: kill_thread_def)
next
  case live: True
  show thesis
  proof (cases "kn_current k = Some t")
    case True
    from that [of "snd (rr_exit_current (kn_scheduler k))"] show thesis
      using live True assms by (simp add: kill_thread_def rr_call_run op_simps flow_ok_exit stay_dead_exit exit_kills_current)
  next
    case False
    let ?s = "(kn_scheduler k)\<lparr>rr_threads := put_state t DEAD (kn_threads k)\<rparr>"
    from that [of ?s] show thesis
      using live False flow_ok_kill [OF assms False] by (simp add: kill_thread_def stay_dead_put alive_states)
  qed
qed

lemma kill_threads_run:
  assumes "flow_ok (kn_scheduler k) W n"
  obtains s where "for_each kill_thread ts k = (Inr (), k\<lparr>kn_scheduler := s\<rparr>)" and "flow_ok s W n"
    and "stay_dead (kn_threads k) (rr_threads s)" and "\<forall>t \<in> set ts. \<not> alive (rr_threads s) t"
  using assms
proof (induction ts arbitrary: k thesis)
  case Nil
  from Nil(1) [of "kn_scheduler k"] Nil(2) show ?case by (simp add: op_simps)
next
  case (Cons t ts)
  obtain s1 where s1: "kill_thread t k = (Inr (), k\<lparr>kn_scheduler := s1\<rparr>)" "flow_ok s1 W n"
    "stay_dead (kn_threads k) (rr_threads s1)" "\<not> alive (rr_threads s1) t" by (rule kill_thread_run [OF Cons.prems(2)])
  let ?k = "k\<lparr>kn_scheduler := s1\<rparr>"
  have f: "flow_ok (kn_scheduler ?k) W n" using s1(2) by simp
  obtain s2 where s2: "for_each kill_thread ts ?k = (Inr (), ?k\<lparr>kn_scheduler := s2\<rparr>)" "flow_ok s2 W n"
    "stay_dead (kn_threads ?k) (rr_threads s2)" "\<forall>t \<in> set ts. \<not> alive (rr_threads s2) t" by (rule Cons.IH [OF _ f])
  have "\<not> alive (rr_threads s2) t" using s1(4) s2(3) by (auto simp: stay_dead_def)
  moreover have "stay_dead (kn_threads k) (rr_threads s2)" using stay_dead_trans [OF s1(3)] s2(3) by simp
  ultimately show ?case using Cons.prems(1) [of s2] s1(1) s2(1,2,4) by (simp add: op_simps)
qed

lemma mset_concat_update:
  "i < length es \<Longrightarrow> mset (concat (map f (es[i := e]))) + mset (f (es ! i)) = mset (concat (map f es)) + mset (f e)"
proof (induction es arbitrary: i)
  case (Cons x xs)
  show ?case
  proof (cases i)
    case (Suc j)
    with Cons.IH [of j] Cons.prems have "mset (concat (map f (xs[j := e]))) + mset (f (xs ! j)) = mset (concat (map f xs)) + mset (f e)"
      by simp
    with Suc show ?thesis by (simp add: add.assoc)
  qed (simp add: ac_simps)
qed simp

lemma waiting_mset:
  "mset (waiting k) = mset (map se_thread (kn_sleepers k)) + mset (cn_waiters (kn_console k))
     + mset (concat (map we_queue (kn_wait_entries k))) + mset (concat (map fb_queue (kn_futexes k)))"
  by (simp add: waiting_def add.assoc)

text \<open>The waiters of one entry are woken, and its queue becomes empty.\<close>

lemma wake_entry_run:
  assumes "flow_ok (kn_scheduler k) (mset (waiting k)) n" and "i < length (kn_wait_entries k)"
  obtains s es where "wake_entry pid i k = (Inr (), k\<lparr>kn_scheduler := s, kn_wait_entries := es\<rparr>)"
    and "es = (kn_wait_entries k)[i := (kn_wait_entries k ! i)\<lparr>we_queue :=
        if we_child (kn_wait_entries k ! i) = pid then [] else we_queue (kn_wait_entries k ! i)\<rparr>]"
    and "flow_ok s (mset (waiting (k\<lparr>kn_wait_entries := es\<rparr>))) n" and "\<forall>p. alive (rr_threads s) p = alive (kn_threads k) p"
proof (cases "we_child (kn_wait_entries k ! i) = pid")
  case False
  have "(kn_wait_entries k)[i := (kn_wait_entries k ! i)\<lparr>we_queue := we_queue (kn_wait_entries k ! i)\<rparr>] = kn_wait_entries k"
    by simp
  with False assms(1) that [of "kn_wait_entries k" "kn_scheduler k"] show thesis by (simp add: wake_entry_def)
next
  case True
  let ?e = "kn_wait_entries k ! i"
  let ?es = "(kn_wait_entries k)[i := ?e\<lparr>we_queue := []\<rparr>]"
  let ?k = "k\<lparr>kn_wait_entries := ?es\<rparr>"
  let ?live = "filter (alive (kn_threads k)) (we_queue ?e)"
  have whole: "mset (waiting ?k) + mset (we_queue ?e) = mset (waiting k)"
    using mset_concat_update [OF assms(2), of we_queue "?e\<lparr>we_queue := []\<rparr>"] unfolding waiting_mset by (simp add: ac_simps)
  have f: "flow_ok (kn_scheduler ?k) (mset ?live + mset (waiting ?k)) n"
  proof -
    have "flow_ok (kn_scheduler k) (mset ?live + mset (waiting ?k)) n"
      by (rule flow_ok_waiting [OF assms(1)]) (auto simp: filter_filter_mset simp flip: whole)
    then show ?thesis by simp
  qed
  have live: "list_all (alive (kn_threads ?k)) ?live" by (simp add: list_all_iff)
  obtain s where s: "wake_each ?live ?k = (Inr (), ?k\<lparr>kn_scheduler := s\<rparr>)" "flow_ok s (mset (waiting ?k)) n"
    "\<forall>p. alive (rr_threads s) p = alive (kn_threads ?k) p" by (rule wake_each_run [OF f live])
  show thesis
    by (rule that [of ?es s]) (use True s in \<open>simp_all add: wake_entry_def Let_def wq_wake_all_filter\<close>)
qed

definition drained :: "process_id \<Rightarrow> nat set \<Rightarrow> wait_entry list \<Rightarrow> wait_entry list \<Rightarrow> bool" where
  "drained pid is es es' \<longleftrightarrow> map we_child es' = map we_child es
     \<and> (\<forall>i < length es'. we_queue (es' ! i) = (if i \<in> is \<and> we_child (es ! i) = pid then [] else we_queue (es ! i))
          \<and> we_parent (es' ! i) = we_parent (es ! i))"

lemma drainedD: "drained pid is es es' \<Longrightarrow> length es' = length es"
  unfolding drained_def by (metis length_map)

lemma drained_step:
  assumes "i < length es" and "es1 = es[i := (es ! i)\<lparr>we_queue := if we_child (es ! i) = pid then [] else we_queue (es ! i)\<rparr>]"
    and "drained pid is es1 es2"
  shows "drained pid (insert i is) es es2"
proof -
  have child: "map we_child es1 = map we_child es" using assms(1,2) by (simp add: map_update list_update_same_conv)
  have at: "we_child (es1 ! j) = we_child (es ! j) \<and> we_parent (es1 ! j) = we_parent (es ! j)
      \<and> we_queue (es1 ! j) = (if j = i \<and> we_child (es ! j) = pid then [] else we_queue (es ! j))" for j
    using assms(1,2) by (cases "j = i") auto
  from assms(3) child at show ?thesis unfolding drained_def by auto
qed

lemma wake_entries_run:
  assumes "flow_ok (kn_scheduler k) (mset (waiting k)) n" and "\<forall>i \<in> set is. i < length (kn_wait_entries k)"
  obtains s es where "for_each (wake_entry pid) is k = (Inr (), k\<lparr>kn_scheduler := s, kn_wait_entries := es\<rparr>)"
    and "drained pid (set is) (kn_wait_entries k) es"
    and "flow_ok s (mset (waiting (k\<lparr>kn_wait_entries := es\<rparr>))) n" and "\<forall>p. alive (rr_threads s) p = alive (kn_threads k) p"
  using assms
proof (induction "is" arbitrary: k thesis)
  case Nil
  from Nil(1) [of "kn_wait_entries k" "kn_scheduler k"] Nil(2) show ?case by (simp add: op_simps drained_def)
next
  case (Cons i js)
  have i: "i < length (kn_wait_entries k)" using Cons.prems(3) by simp
  obtain s1 es1 where r1: "wake_entry pid i k = (Inr (), k\<lparr>kn_scheduler := s1, kn_wait_entries := es1\<rparr>)"
    "es1 = (kn_wait_entries k)[i := (kn_wait_entries k ! i)\<lparr>we_queue :=
        if we_child (kn_wait_entries k ! i) = pid then [] else we_queue (kn_wait_entries k ! i)\<rparr>]"
    "flow_ok s1 (mset (waiting (k\<lparr>kn_wait_entries := es1\<rparr>))) n" "\<forall>p. alive (rr_threads s1) p = alive (kn_threads k) p"
    by (rule wake_entry_run [OF Cons.prems(2) i])
  let ?k = "k\<lparr>kn_scheduler := s1, kn_wait_entries := es1\<rparr>"
  have f: "flow_ok (kn_scheduler ?k) (mset (waiting ?k)) n" using r1(3) by (simp add: waiting_def)
  have js: "\<forall>i \<in> set js. i < length (kn_wait_entries ?k)" using Cons.prems(3) r1(2) by simp
  obtain s es where r2: "for_each (wake_entry pid) js ?k = (Inr (), ?k\<lparr>kn_scheduler := s, kn_wait_entries := es\<rparr>)"
    "drained pid (set js) (kn_wait_entries ?k) es" "flow_ok s (mset (waiting (?k\<lparr>kn_wait_entries := es\<rparr>))) n"
    "\<forall>p. alive (rr_threads s) p = alive (kn_threads ?k) p" by (rule Cons.IH [OF _ f js])
  have "drained pid (set (i # js)) (kn_wait_entries k) es" using drained_step [OF i r1(2)] r2(2) by simp
  with r1 r2 show ?case by (intro Cons.prems(1) [of es s]) (simp_all add: op_simps waiting_def)
qed

lemma concat_filter_empty:
  "(\<And>x. x \<in> set xs \<Longrightarrow> \<not> P x \<Longrightarrow> f x = []) \<Longrightarrow> concat (map f (filter P xs)) = concat (map f xs)"
  by (induction xs) auto

lemma drained_filter:
  assumes "drained pid {0..<length es} es es'"
  shows "concat (map we_queue (filter (\<lambda>e. we_child e \<noteq> pid) es')) = concat (map we_queue es')"
proof -
  have "we_queue e = []" if mem: "e \<in> set es'" and pid: "we_child e = pid" for e
  proof -
    obtain i where i: "i < length es'" "e = es' ! i" using mem by (auto simp: in_set_conv_nth)
    have len: "length es' = length es" by (rule drainedD [OF assms])
    have "map we_child es' ! i = map we_child es ! i" using conjunct1 [OF assms [unfolded drained_def]] by (rule arg_cong)
    then have "we_child (es ! i) = pid" using i pid len by (simp only: nth_map)
    then show ?thesis using conjunct2 [OF assms [unfolded drained_def], rule_format, of i] i len by simp
  qed
  then show ?thesis by (intro concat_filter_empty) blast
qed

lemma mset_concat_split:
  "mset (concat (map f (filter P xs))) + mset (concat (map f (filter (\<lambda>x. \<not> P x) xs))) = mset (concat (map f xs))"
  by (induction xs) (auto simp: ac_simps)

lemma drained_others:
  assumes "drained pid {0..<length es} es es'"
  shows "filter (\<lambda>e. we_child e \<noteq> pid) es' = filter (\<lambda>e. we_child e \<noteq> pid) es"
proof -
  let ?f = "\<lambda>e :: wait_entry. if we_child e = pid then e\<lparr>we_queue := []\<rparr> else e"
  have len: "length es' = length es" by (rule drainedD [OF assms])
  have "es' = map ?f es"
  proof (rule nth_equalityI)
    fix i assume i: "i < length es'"
    have "map we_child es' ! i = map we_child es ! i" using conjunct1 [OF assms [unfolded drained_def]] by (rule arg_cong)
    then have "we_child (es' ! i) = we_child (es ! i)" using i len by (simp only: nth_map)
    then show "es' ! i = map ?f es ! i"
      using conjunct2 [OF assms [unfolded drained_def], rule_format, of i] i len by (auto intro: wait_entry.equality)
  qed (simp add: len)
  moreover have "filter (\<lambda>e. we_child e \<noteq> pid) (map ?f xs) = filter (\<lambda>e. we_child e \<noteq> pid) xs" for xs by (induction xs) auto
  ultimately show ?thesis by simp
qed

lemma wake_process_waiters_run:
  assumes "flow_ok (kn_scheduler k) (mset (waiting k)) n"
  obtains s es where "wake_process_waiters pid k = (Inr (), k\<lparr>kn_scheduler := s, kn_wait_entries := es\<rparr>)"
    and "es = filter (\<lambda>e. we_child e \<noteq> pid) (kn_wait_entries k)"
    and "flow_ok s (mset (waiting (k\<lparr>kn_wait_entries := es\<rparr>))) n" and "\<forall>p. alive (rr_threads s) p = alive (kn_threads k) p"
proof -
  have idx: "\<forall>i \<in> set [0..<length (kn_wait_entries k)]. i < length (kn_wait_entries k)" by simp
  obtain s es where r: "for_each (wake_entry pid) [0..<length (kn_wait_entries k)] k = (Inr (), k\<lparr>kn_scheduler := s, kn_wait_entries := es\<rparr>)"
    "drained pid (set [0..<length (kn_wait_entries k)]) (kn_wait_entries k) es"
    "flow_ok s (mset (waiting (k\<lparr>kn_wait_entries := es\<rparr>))) n" "\<forall>p. alive (rr_threads s) p = alive (kn_threads k) p"
    by (rule wake_entries_run [OF assms idx])
  let ?es = "filter (\<lambda>e. we_child e \<noteq> pid) es"
  show thesis
  proof (rule that)
    show "wake_process_waiters pid k = (Inr (), k\<lparr>kn_scheduler := s, kn_wait_entries := ?es\<rparr>)"
      using r(1) by (simp add: wake_process_waiters_def op_simps remove_process_wait_entries_for_child_def)
    show "?es = filter (\<lambda>e. we_child e \<noteq> pid) (kn_wait_entries k)" using drained_others r(2) by simp
    show "flow_ok s (mset (waiting (k\<lparr>kn_wait_entries := ?es\<rparr>))) n"
      using r(3) drained_filter [of pid "kn_wait_entries k" es] r(2) by (simp add: waiting_def)
  qed (rule r(4))
qed

text \<open>
  A process exits: this never throws. Its threads are dead, its waiters are ready, and nothing waits for it any more.
\<close>

lemma exit_process_run:
  assumes "kernel_inv k" and "i < length (kn_processes k)" and "kn_booted k" and "pr_state (kn_processes k ! i) = PROCESS_RUNNING"
  obtains k' where "exit_process i code k = (Inr (), k')" and "kernel_inv k'"
    and "kn_processes k' = (kn_processes k)[i := (kn_processes k ! i)\<lparr>pr_state := PROCESS_EXITED, pr_exit_code := code\<rparr>]"
    and "\<forall>t \<in> set (pr_threads (kn_processes k ! i)). \<not> alive (kn_threads k') t"
    and "kn_wait_entries k' = filter (\<lambda>e. we_child e \<noteq> pr_id (kn_processes k ! i)) (kn_wait_entries k)"
    and "mset (waiting k') + mset (concat (map we_queue (filter (\<lambda>e. we_child e = pr_id (kn_processes k ! i)) (kn_wait_entries k))))
      = mset (waiting k)"
    and "kn_next_thread k' = kn_next_thread k" and "kn_booted k'" and "stay_dead (kn_threads k) (kn_threads k')"
proof -
  note I = kernel_invD [OF assms(1)]
  let ?p = "kn_processes k ! i" and ?n = "kn_next_thread k"
  let ?k1 = "k\<lparr>kn_processes := (kn_processes k)[i := ?p\<lparr>pr_state := PROCESS_EXITED, pr_exit_code := code\<rparr>]\<rparr>"
  have mark: "on_process i (mark_exited code) k = (Inr (), ?k1)" using assms(4) by (simp add: on_process_def mark_exited_def)
  have f1: "flow_ok (kn_scheduler ?k1) (mset (waiting ?k1)) ?n" using I(1) by (simp add: waiting_def)
  obtain s1 where s1: "for_each kill_thread (pr_threads ?p) ?k1 = (Inr (), ?k1\<lparr>kn_scheduler := s1\<rparr>)"
    "flow_ok s1 (mset (waiting ?k1)) ?n" "stay_dead (kn_threads ?k1) (rr_threads s1)"
    "\<forall>t \<in> set (pr_threads ?p). \<not> alive (rr_threads s1) t" by (rule kill_threads_run [OF f1])
  let ?k2 = "?k1\<lparr>kn_scheduler := s1\<rparr>"
  have f2: "flow_ok (kn_scheduler ?k2) (mset (waiting ?k2)) ?n" using s1(2) by (simp add: waiting_def)
  obtain s es where r: "wake_process_waiters (pr_id ?p) ?k2 = (Inr (), ?k2\<lparr>kn_scheduler := s, kn_wait_entries := es\<rparr>)"
    "es = filter (\<lambda>e. we_child e \<noteq> pr_id ?p) (kn_wait_entries ?k2)"
    "flow_ok s (mset (waiting (?k2\<lparr>kn_wait_entries := es\<rparr>))) ?n" "\<forall>p. alive (rr_threads s) p = alive (kn_threads ?k2) p"
    by (rule wake_process_waiters_run [OF f2])
  let ?k' = "k\<lparr>kn_processes := (kn_processes k)[i := ?p\<lparr>pr_state := PROCESS_EXITED, pr_exit_code := code\<rparr>],
    kn_scheduler := s, kn_wait_entries := es\<rparr>"
  have dead: "stay_dead (kn_threads k) (rr_threads s)" using s1(3) r(4) by (simp add: stay_dead_def)
  have gone: "\<forall>t \<in> set (pr_threads ?p). \<not> alive (rr_threads s) t" using s1(4) r(4) by simp
  have "procs_ok (rr_threads s) (kn_processes ?k') ?n"
  proof -
    have "procs_ok (rr_threads s) (kn_processes k) ?n" by (rule procs_ok_stay_dead [OF I(2) dead])
    moreover have "\<forall>t \<in> set (pr_threads ?p). t < ?n" using I(2) assms(2) by (fastforce simp: procs_ok_def)
    ultimately show ?thesis using gone by (auto simp: procs_ok_def dest!: set_update_subset_insert [THEN subsetD])
  qed
  moreover have "child_running ?k' c" if run: "child_running k c" and other: "c \<noteq> pr_id ?p" for c
  proof -
    obtain j where j: "find_process_by_id c k = Some j" "pr_state (kn_processes k ! j) = PROCESS_RUNNING"
      using run by (auto simp: child_running_def split: option.splits)
    then have "j < length (kn_processes k)" "pr_id (kn_processes k ! j) = c" by (auto simp: find_process_by_id_def find_Some_iff)
    with other have "j \<noteq> i" by auto
    have "find_process_by_id c ?k' = find_process_by_id c k" 
      by (rule find_process_update [where i = i and p = "?p\<lparr>pr_state := PROCESS_EXITED, pr_exit_code := code\<rparr>"]) simp_all
    with j \<open>j \<noteq> i\<close> show ?thesis by (simp add: child_running_def)
  qed
  then have keep: "child_running ?k' c" if "child_running k c" "c \<noteq> pr_id ?p" for c using that by blast
  have "entries_ok ?k'"
  proof (unfold entries_ok_def, intro ballI)
    fix e assume "e \<in> set (kn_wait_entries ?k')"
    then have "we_child e \<in> we_child ` set es" by simp
    then have "we_child e \<in> we_child ` set (kn_wait_entries k)" "we_child e \<noteq> pr_id ?p" unfolding r(2) by auto
    with I(3) have "child_running k (we_child e)" by (auto simp: entries_ok_def)
    then show "child_running ?k' (we_child e)" by (rule keep) fact
  qed
  ultimately have "kernel_inv ?k'" using r(3) I(4) by (simp add: kernel_inv_def waiting_def smp_idle_def)
  moreover have "exit_process i code k = (Inr (), ?k')"
    using assms(3,4) mark s1(1) r(1) by (simp add: exit_process_def op_simps require_booted_def)
  moreover have "mset (waiting ?k') + mset (concat (map we_queue (filter (\<lambda>e. we_child e = pr_id ?p) (kn_wait_entries k)))) = mset (waiting k)"
    using mset_concat_split [of we_queue "\<lambda>e. we_child e \<noteq> pr_id ?p" "kn_wait_entries k"] r(2) unfolding waiting_mset by simp
  ultimately show thesis using gone r(2) assms(3) dead by (intro that [of ?k']) simp_all
qed

section \<open>Blocking\<close>

text \<open>The current thread is put into a queue, which sets its state, and leaves the scheduler.\<close>

lemma block_inv:
  assumes "kernel_inv k" and "kn_current k = Some p"
    and "kn_scheduler k1 = (kn_scheduler k)\<lparr>rr_threads := put_state p BLOCKED (kn_threads k)\<rparr>"
    and "mset (waiting k1) = add_mset p (mset (waiting k))" and "kn_next_thread k1 = kn_next_thread k"
    and "kn_processes k1 = kn_processes k" and "\<forall>e \<in> set (kn_wait_entries k1). child_running k (we_child e)"
    and "kn_smp_queues k1 = kn_smp_queues k" and "kn_topology k1 = kn_topology k"
  shows "kernel_inv (snd (rr_call rr_block_current k1))"
proof -
  note I = kernel_invD [OF assms(1)]
  note C = flow_ok_current [OF I(1) assms(2)]
  let ?s = "snd (rr_block_current (kn_scheduler k1))"
  have flow: "flow_ok ?s (mset (waiting k1)) (kn_next_thread k1)" unfolding assms(3,4,5) by (rule flow_ok_block [OF I(1) assms(2)])
  have "stay_dead (kn_threads k) (kn_threads k1)" using C(3) by (simp add: assms(3) stay_dead_put)
  moreover have "stay_dead (kn_threads k1) (rr_threads ?s)"
    by (rule stay_dead_block [of _ p]) (use assms(2,3) in \<open>simp_all add: alive_states\<close>)
  ultimately have "procs_ok (rr_threads ?s) (kn_processes k1) (kn_next_thread k1)"
    unfolding assms(5,6) by (blast intro: procs_ok_stay_dead [OF I(2)] stay_dead_trans)
  moreover have "child_running (k1\<lparr>kn_scheduler := ?s\<rparr>) c = child_running k c" for c
    by (rule child_running_cong(2)) (simp add: assms(6))
  ultimately show ?thesis
    using flow assms(7-9) I(4) by (simp add: rr_call_run kernel_inv_def entries_ok_def smp_idle_def waiting_def)
qed

lemma current_not_waiting:
  assumes "kernel_inv k" and "kn_current k = Some p"
  shows "p \<notin> set (waiting k)" and "alive (kn_threads k) p"
  using flow_ok_current [OF kernel_invD(1) [OF assms(1)] assms(2)] by auto

lemma entries_ok_remove:
  assumes "entries_ok k" and "\<not> child_running k c"
  shows "filter (\<lambda>e. we_child e \<noteq> c) (kn_wait_entries k) = kn_wait_entries k"
  using assms by (auto simp: entries_ok_def intro!: filter_True)

lemma process_wait_entry_run:
  assumes "process_wait_entry a c k = (e, k1)"
  obtains es where "k1 = k\<lparr>kn_wait_entries := es\<rparr>" and "e < length es" and "we_child (es ! e) = c"
    and "concat (map we_queue es) = concat (map we_queue (kn_wait_entries k))"
    and "set (kn_wait_entries k) \<subseteq> set es" and "we_child ` set es \<subseteq> insert c (we_child ` set (kn_wait_entries k))"
proof (cases "find (\<lambda>i. we_parent (kn_wait_entries k ! i) = a \<and> we_child (kn_wait_entries k ! i) = c) [0..<length (kn_wait_entries k)]")
  case None
  from assms None show thesis
    by (intro that [of "kn_wait_entries k @ [\<lparr>we_parent = a, we_child = c, we_queue = []\<rparr>]"]) (auto simp: process_wait_entry_def)
next
  case (Some i)
  then have "i < length (kn_wait_entries k)" "we_child (kn_wait_entries k ! i) = c" by (auto simp: find_Some_iff)
  with assms Some show thesis by (intro that [of "kn_wait_entries k"]) (auto simp: process_wait_entry_def)
qed

lemma wait_process_inv:
  assumes "kernel_inv k" and "kn_current k = Some p"
  shows "kernel_inv (snd (wait_process parent p child k))"
proof (cases "kn_booted k \<and> (\<exists>c. find_process_by_id child k = Some c \<and> pr_parent (kn_processes k ! c) = pr_id (kn_processes k ! parent)
    \<and> pr_state (kn_processes k ! c) \<noteq> PROCESS_REAPED)")
  case False
  then have "snd (wait_process parent p child k) = k"
    by (auto simp: wait_process_def op_simps require_booted_def Let_def split: option.split)
  with assms show ?thesis by simp
next
  case True
  then obtain c where c: "kn_booted k" "find_process_by_id child k = Some c"
    "pr_parent (kn_processes k ! c) = pr_id (kn_processes k ! parent)" "pr_state (kn_processes k ! c) \<noteq> PROCESS_REAPED" by blast
  note I = kernel_invD [OF assms(1)]
  have len: "c < length (kn_processes k)" using c(2) by (auto simp: find_process_by_id_def find_Some_iff)
  show ?thesis
  proof (cases "pr_state (kn_processes k ! c) = PROCESS_EXITED")
    case True
    let ?k = "k\<lparr>kn_processes := (kn_processes k)[c := (kn_processes k ! c)\<lparr>pr_state := PROCESS_REAPED\<rparr>]\<rparr>"
    have none: "\<not> child_running k child" using c(2) True by (simp add: child_running_def)
    have run: "snd (wait_process parent p child k) = ?k"
      using c True entries_ok_remove [OF I(3) none]
      by (simp add: wait_process_def op_simps require_booted_def Let_def on_process_def mark_reaped_def
          remove_process_wait_entries_for_child_def)
    have "child_running ?k x" if run: "child_running k x" for x
    proof -
      obtain j where j: "find_process_by_id x k = Some j" "pr_state (kn_processes k ! j) = PROCESS_RUNNING"
        using run by (auto simp: child_running_def split: option.splits)
      have "j \<noteq> c" using j(2) True by auto
      moreover have "find_process_by_id x ?k = find_process_by_id x k"
        by (rule find_process_update [where i = c and p = "(kn_processes k ! c)\<lparr>pr_state := PROCESS_REAPED\<rparr>"]) simp_all
      ultimately show ?thesis using j by (simp add: child_running_def)
    qed
    then have "entries_ok ?k" using I(3) by (simp add: entries_ok_def)
    moreover have "procs_ok (kn_threads k) (kn_processes ?k) (kn_next_thread k)"
    proof -
      have "\<forall>t \<in> set (pr_threads (kn_processes k ! c)). t < kn_next_thread k \<and> \<not> alive (kn_threads k) t"
        using I(2) len True by (fastforce simp: procs_ok_def)
      with I(2) show ?thesis by (auto simp: procs_ok_def dest!: set_update_subset_insert [THEN subsetD])
    qed
    ultimately have "kernel_inv ?k" using I(1,4) by (simp add: kernel_inv_def waiting_def smp_idle_def)
    then show ?thesis unfolding run .
  next
    case False
    then have running: "pr_state (kn_processes k ! c) = PROCESS_RUNNING" using c(4) by (cases "pr_state (kn_processes k ! c)") auto
    obtain e k1 where entry: "process_wait_entry (pr_id (kn_processes k ! parent)) child k = (e, k1)"
      by (cases "process_wait_entry (pr_id (kn_processes k ! parent)) child k")
    obtain es where es: "k1 = k\<lparr>kn_wait_entries := es\<rparr>" "e < length es" "we_child (es ! e) = child"
      "concat (map we_queue es) = concat (map we_queue (kn_wait_entries k))" "set (kn_wait_entries k) \<subseteq> set es"
      "we_child ` set es \<subseteq> insert child (we_child ` set (kn_wait_entries k))" by (rule process_wait_entry_run [OF entry])
    note C = current_not_waiting [OF assms]
    have notin: "p \<notin> set (we_queue (es ! e))"
    proof -
      have "set (we_queue (es ! e)) \<subseteq> set (concat (map we_queue es))" using es(2) by force
      also have "\<dots> \<subseteq> set (waiting k)" unfolding es(4) by (auto simp: waiting_def)
      finally show ?thesis using C(1) by blast
    qed
    let ?k = "k\<lparr>kn_scheduler := (kn_scheduler k)\<lparr>rr_threads := put_state p BLOCKED (kn_threads k)\<rparr>,
      kn_wait_entries := es[e := (es ! e)\<lparr>we_queue := we_queue (es ! e) @ [p]\<rparr>]\<rparr>"
    have run: "snd (wait_process parent p child k) = snd (rr_call rr_block_current ?k)"
      using c False entry es(1) notin C(2) assms(2)
      by (simp add: wait_process_def op_simps require_booted_def Let_def entry_wait_def wq_wait_run rr_call_run)
    have q: "mset (concat (map we_queue (es[e := (es ! e)\<lparr>we_queue := we_queue (es ! e) @ [p]\<rparr>]))) =
        add_mset p (mset (concat (map we_queue es)))"
      using mset_concat_update [OF es(2), of we_queue "(es ! e)\<lparr>we_queue := we_queue (es ! e) @ [p]\<rparr>"] by simp
    have cr: "child_running k child" using c(2) running by (simp add: child_running_def)
    show ?thesis unfolding run
    proof (rule block_inv [OF assms])
      show "mset (waiting ?k) = add_mset p (mset (waiting k))" unfolding waiting_mset using q es(4) by simp
      have "we_child ` set (es[e := (es ! e)\<lparr>we_queue := we_queue (es ! e) @ [p]\<rparr>]) = we_child ` set es"
      proof -
        have "map we_child (es[e := (es ! e)\<lparr>we_queue := we_queue (es ! e) @ [p]\<rparr>]) = map we_child es"
          using es(2) by (simp add: map_update list_update_same_conv)
        then show ?thesis by (metis list.set_map)
      qed
      then have "we_child ` set (kn_wait_entries ?k) \<subseteq> insert child (we_child ` set (kn_wait_entries k))" using es(6) by simp
      then show "\<forall>e \<in> set (kn_wait_entries ?k). child_running k (we_child e)" using I(3) cr by (auto simp: entries_ok_def)
    qed simp_all
  qed
qed

section \<open>The console\<close>

lemma console_read_inv:
  assumes "kernel_inv k" and "kn_current k = Some p"
  shows "kernel_inv (snd (kernel_console_read p n k))"
proof -
  let ?c = "kn_console k"
  note C = current_not_waiting [OF assms]
  have notin: "p \<notin> set (cn_waiters ?c)" using C(1) by (auto simp: waiting_def)
  consider "\<not> kn_booted k" | "kn_booted k" "cn_ready ?c \<noteq> [] \<or> n = 0" | "kn_booted k" "cn_ready ?c = []" "n \<noteq> 0" by blast
  then show ?thesis
  proof cases
    case 1
    with assms(1) show ?thesis by (simp add: kernel_console_read_def op_simps require_booted_def)
  next
    case 2
    obtain b c where b: "copy_ready_input n ?c = (b, c)" "cn_waiters c = cn_waiters ?c" by (simp add: copy_ready_input_def Let_def)
    have "snd (kernel_console_read p n k) = k\<lparr>kn_console := c\<rparr>"
      using 2 b(1) by (simp add: kernel_console_read_def op_simps require_booted_def with_threads_def console_read_def)
    moreover have "kernel_inv (k\<lparr>kn_console := c\<rparr>)"
      by (rule kernel_inv_view [OF assms(1)]) (simp add: thread_view_def waiting_def b(2))
    ultimately show ?thesis by simp
  next
    case 3
    let ?k = "k\<lparr>kn_scheduler := (kn_scheduler k)\<lparr>rr_threads := put_state p BLOCKED (kn_threads k)\<rparr>,
      kn_console := ?c\<lparr>cn_waiters := cn_waiters ?c @ [p]\<rparr>\<rparr>"
    have run: "snd (kernel_console_read p n k) = snd (rr_call rr_block_current ?k)"
      using 3 notin C(2) assms(2)
      by (simp add: kernel_console_read_def op_simps require_booted_def with_threads_def console_read_def wq_wait_run rr_call_run)
    show ?thesis unfolding run
      by (rule block_inv [OF assms]) (use kernel_invD(3) [OF assms(1)] in \<open>simp_all add: waiting_mset entries_ok_def\<close>)
  qed
qed

lemma read_fd_inv:
  assumes "kernel_inv k" and "kn_current k = Some p"
  shows "kernel_inv (snd (read_fd i p d n k))"
proof -
  have on_file: "thread_free (catch_exn (bnd (entry_vfs_file e) (\<lambda>(d, f). bnd (on_cache (vf_read n f)) (\<lambda>(bytes, f).
      sq (put_description_file d f) (ret (Read_result (Io_ready (length bytes)) (map byte_char bytes))))))
     (\<lambda>e. if e = Invalid_argument then ret (Read_result Io_invalid_argument []) else if is_logic_error e then ret (Read_result Bad_descriptor [])
        else throw e))" for e
    by (auto intro!: thread_free_rules thread_free_case_prod thread_free_entry_file thread_free_put_description)
  note F = thread_free_inv [OF on_file assms(1)]
  have tty: "kernel_inv (snd (bnd (kernel_console_read p n) (\<lambda>result. ret (g result)) k))" for g
    using console_read_inv [OF assms, of n] by (cases "kernel_console_read p n k") (auto simp: op_simps split: sum.split)
  show ?thesis
  proof (cases "kn_booted k")
    case True
    with assms(1) F tty show ?thesis
      by (auto simp: read_fd_def sq_run require_booted_def require_run split: option.split file_device_kind.split)
  qed (use assms(1) in \<open>simp add: read_fd_def op_simps require_booted_def\<close>)
qed

lemma handle_key_events_waiters: "cn_waiters (snd (handle_key_events es c)) = cn_waiters c"
proof -
  have w: "keeps (\<lambda>c. cn_waiters c = q) (on_terminal f)" for q and f :: "(terminal_device, unit) op"
    by (rule keepsI) (auto simp: on_terminal_def focus_def split: prod.split)
  have m: "keeps (\<lambda>c. cn_waiters c = q) (modify (\<lambda>c. c\<lparr>cn_line := f c\<rparr>))"
    "keeps (\<lambda>c. cn_waiters c = q) (modify (\<lambda>c. c\<lparr>cn_ready := g c, cn_line := f c\<rparr>))" for q f g
    by (rule keepsI, simp add: op_simps)+
  have e: "keeps (\<lambda>c. cn_waiters c = q) (handle_key_event ev)" for q ev
    unfolding handle_key_event_def handle_enter_def handle_backspace_def handle_printable_def
    by (intro keeps_intros w m)
  have "keeps (\<lambda>c. cn_waiters c = q) (handle_key_events es)" for q
    by (induction es) (auto intro!: keeps_intros e)
  then show ?thesis by (simp add: keeps_def)
qed

lemma wake_ready_readers_split:
  "wake_ready_readers n h c = (rs, c') \<Longrightarrow> filter (alive h) (cn_waiters c) = rs @ filter (alive h) (cn_waiters c')
     \<and> set (cn_waiters c') \<subseteq> set (cn_waiters c) \<and> list_all (alive h) rs \<and> set rs \<subseteq> set (cn_waiters c)"
proof (induction n arbitrary: c rs)
  case (Suc n)
  show ?case
  proof (cases "cn_ready c = []")
    case False
    obtain r q where w: "wq_wake_one h (cn_waiters c) = (r, q)" by (cases "wq_wake_one h (cn_waiters c)")
    show ?thesis
    proof (cases r)
      case None
      with Suc.prems False w wq.take_None [OF w [unfolded None]] show ?thesis by auto
    next
      case (Some p)
      obtain rs' where rs': "wake_ready_readers n h (c\<lparr>cn_waiters := q\<rparr>) = (rs', c')" "rs = p # rs'"
        using Suc.prems False w Some by (auto split: prod.splits)
      note T = wq.take_filter [OF w [unfolded Some]] wq.take_eligible [OF w [unfolded Some]] wq.take_member [OF w [unfolded Some]]
        wq.take_subset [OF w]
      from Suc.IH [OF rs'(1)] rs'(2) T show ?thesis by auto
    qed
  qed (use Suc.prems in simp)
qed simp

lemma submit_terminal_input_run:
  assumes "kernel_inv k"
  shows "kernel_inv (snd (submit_terminal_input keys k)) \<and> (kn_booted k \<longrightarrow>
      fst (console_submit_input keys (kn_threads k, kn_console k)) = Inr rs \<longrightarrow> fst (submit_terminal_input keys k) = Inr rs)"
proof -
  let ?h = "kn_threads k" and ?c = "kn_console k"
  obtain n t es t' where t: "terminal_submit_input keys (cn_terminal ?c) = (n, t)" "drain_input t = (es, t')"
    by (cases "terminal_submit_input keys (cn_terminal ?c)", cases "drain_input (snd (terminal_submit_input keys (cn_terminal ?c)))") auto
  obtain r c1 where c1: "handle_key_events es (?c\<lparr>cn_terminal := t'\<rparr>) = (r, c1)" by (cases "handle_key_events es (?c\<lparr>cn_terminal := t'\<rparr>)")
  have w1: "cn_waiters c1 = cn_waiters ?c" using handle_key_events_waiters [of es "?c\<lparr>cn_terminal := t'\<rparr>"] c1 by simp
  have view: "kernel_inv (k\<lparr>kn_console := c1\<rparr>)"
    by (rule kernel_inv_view [OF assms]) (simp add: thread_view_def waiting_def w1)
  have same: "k\<lparr>kn_scheduler := (kn_scheduler k)\<lparr>rr_threads := ?h\<rparr>, kn_console := x\<rparr> = k\<lparr>kn_console := x\<rparr>" for x by simp
  show ?thesis
  proof (cases "kn_booted k"; cases r)
    fix e assume "kn_booted k" "r = Inl e"
    with t c1 view show ?thesis
      by (simp add: submit_terminal_input_def op_simps require_booted_def with_threads_def console_submit_input_def same)
  next
    fix m assume b: "kn_booted k" "r = Inr m"
    obtain ps c2 where c2: "wake_ready_readers m ?h c1 = (ps, c2)" by (cases "wake_ready_readers m ?h c1")
    note W = wake_ready_readers_split [OF c2]
    let ?k = "k\<lparr>kn_console := c2\<rparr>"
    have cm: "console_submit_input keys (?h, ?c) = (Inr ps, (?h, c2))" using t c1 c2 b(2) by (simp add: console_submit_input_def)
    have all: "filter_mset (alive ?h) (mset ps + mset (waiting ?k)) = filter_mset (alive ?h) (mset (waiting k))"
      unfolding waiting_mset using W w1 by (simp add: list_all_iff filter_id_conv flip: mset_filter)
    have sub: "set ps \<union> set (waiting ?k) \<subseteq> set (waiting k)" using W w1 by (auto simp: waiting_def)
    obtain k' where k': "wake_each ps ?k = (Inr (), k')" "kernel_inv k'"
      by (rule wake_inv [of k ?k ps]) (use assms all sub W in auto)
    show ?thesis
      using b k' by (auto simp: submit_terminal_input_def op_simps require_booted_def with_threads_def cm same)
  qed (use assms in \<open>simp_all add: submit_terminal_input_def op_simps require_booted_def\<close>)
qed

section \<open>Sleep\<close>

lemma take_ready_split:
  "take_ready h t q = (ps, q') \<Longrightarrow> filter (alive h) (map se_thread q) = ps @ filter (alive h) (map se_thread q')
     \<and> set q' \<subseteq> set q \<and> list_all (alive h) ps \<and> set ps \<subseteq> se_thread ` set q"
  by (induction q arbitrary: ps) (auto split: if_splits prod.splits)

lemma wake_sleepers_run:
  assumes "kernel_inv k" and "kn_booted k"
  obtains m k' where "wake_sleepers k = (Inr m, k')" and "kernel_inv k'" and "kn_booted k'"
proof -
  obtain ps q where t: "take_ready (kn_threads k) (kn_ticks k) (kn_sleepers k) = (ps, q)"
    by (cases "take_ready (kn_threads k) (kn_ticks k) (kn_sleepers k)")
  note T = take_ready_split [OF t]
  let ?k = "k\<lparr>kn_sleepers := q\<rparr>"
  have all: "filter_mset (alive (kn_threads k)) (mset ps + mset (waiting ?k)) = filter_mset (alive (kn_threads k)) (mset (waiting k))"
    unfolding waiting_mset using T by (simp add: list_all_iff filter_id_conv flip: mset_filter mset_map)
  have sub: "set ps \<union> set (waiting ?k) \<subseteq> set (waiting k)" using T by (auto simp: waiting_def)
  obtain k' where k': "wake_each ps ?k = (Inr (), k')" "kernel_inv k'" "k' = ?k\<lparr>kn_scheduler := kn_scheduler k'\<rparr>"
    by (rule wake_inv [of k ?k ps]) (use assms(1) all sub T in auto)
  have "kn_booted k'" using arg_cong [OF k'(3), of kn_booted] assms(2) by simp
  with k' that show thesis using assms(2) t by (simp add: wake_sleepers_def op_simps require_booted_def)
qed

lemma mset_sleep_insert: "mset (sleep_insert e q) = add_mset e (mset q)"
  by (induction q) (auto simp: add_mset_commute)

lemma sleep_until_inv:
  assumes "kernel_inv k"
  shows "kernel_inv (snd (sleep_current_until t k))"
proof (cases "kn_booted k \<and> kn_current k \<noteq> None")
  case False
  with assms show ?thesis by (auto simp: sleep_current_until_def op_simps require_booted_def)
next
  case True
  then obtain p where p: "kn_booted k" "kn_current k = Some p" by auto
  show ?thesis
  proof (cases "t \<le> kn_ticks k")
    case True
    with p schedule_inv(2) [OF assms] show ?thesis by (simp add: sleep_current_until_def op_simps require_booted_def)
  next
    case False
    note C = current_not_waiting [OF assms p(2)]
    have "\<not> sleep_contains p (kn_sleepers k)" using C(1) by (auto simp: sleep_contains_def waiting_def)
    then have run: "snd (sleep_current_until t k) = snd (rr_call rr_block_current
        (k\<lparr>kn_scheduler := (kn_scheduler k)\<lparr>rr_threads := put_state p BLOCKED (kn_threads k)\<rparr>,
          kn_sleepers := sleep_insert \<lparr>se_thread = p, se_wake_tick = t\<rparr> (kn_sleepers k)\<rparr>))"
      using p False C(2) by (simp add: sleep_current_until_def op_simps require_booted_def with_threads_def sleep_until_def)
    show ?thesis unfolding run
      by (rule block_inv [OF assms p(2)])
        (use kernel_invD(3) [OF assms] in \<open>simp_all add: waiting_mset entries_ok_def mset_sleep_insert\<close>)
  qed
qed

lemma sleep_for_inv: "kernel_inv k \<Longrightarrow> kernel_inv (snd (sleep_current_for d k))"
  using sleep_until_inv by (simp add: sleep_current_for_def op_simps require_booted_def)

section \<open>Futexes\<close>

abbreviation futex_waiters :: "futex_table \<Rightarrow> tptr list" where
  "futex_waiters t \<equiv> concat (map fb_queue t)"

lemma set_bucket_mset:
  "find_bucket key t = Some b \<Longrightarrow>
     mset (futex_waiters (set_bucket_queue key q t)) + mset (fb_queue b) = mset (futex_waiters t) + mset q"
proof (induction t)
  case (Cons x xs)
  show ?case
  proof (cases "fb_key x = key")
    case True
    with Cons.prems show ?thesis by (simp add: ac_simps)
  next
    case False
    with Cons have "mset (futex_waiters (set_bucket_queue key q xs)) + mset (fb_queue b) = mset (futex_waiters xs) + mset q" by simp
    with False show ?thesis by (simp add: add.assoc)
  qed
qed simp

lemma bucket_for_waiters: "futex_waiters (bucket_for key t) = futex_waiters t"
  by (simp add: bucket_for_def split: option.split)

lemma bucket_for_found: "\<exists>b. find_bucket key (bucket_for key t) = Some b"
  by (auto simp: bucket_for_def find_bucket_append split: option.split)

lemma erase_empty_waiters: "futex_waiters (erase_empty_bucket key t) = futex_waiters t"
  by (induction t) auto

lemma bucket_subset: "find_bucket key t = Some b \<Longrightarrow> set (fb_queue b) \<subseteq> set (futex_waiters t)"
  using find_bucket_Some by fastforce

lemma wait_on_futex_inv:
  assumes "kernel_inv k" and "kn_current k = Some p"
  shows "kernel_inv (snd (wait_on_futex i a p k))"
proof (cases "kn_booted k \<and> (\<exists>key. FutexKey (pr_id (kn_processes k ! i)) a = Inr key)")
  case False
  then have "snd (wait_on_futex i a p k) = k"
    by (auto simp: wait_on_futex_def op_simps require_booted_def split: sum.split)
  with assms(1) show ?thesis by simp
next
  case True
  then obtain key where key: "kn_booted k" "FutexKey (pr_id (kn_processes k ! i)) a = Inr key" by blast
  let ?t = "bucket_for key (kn_futexes k)"
  obtain b where b: "find_bucket key ?t = Some b" using bucket_for_found by blast
  note C = current_not_waiting [OF assms]
  have notin: "p \<notin> set (fb_queue b)" using C(1) bucket_subset [OF b] unfolding bucket_for_waiters by (auto simp: waiting_def)
  let ?k = "k\<lparr>kn_scheduler := (kn_scheduler k)\<lparr>rr_threads := put_state p BLOCKED (kn_threads k)\<rparr>,
    kn_futexes := set_bucket_queue key (fb_queue b @ [p]) ?t\<rparr>"
  have run: "snd (wait_on_futex i a p k) = snd (rr_call rr_block_current ?k)"
    using key b notin C(2) assms(2)
    by (simp add: wait_on_futex_def op_simps require_booted_def with_threads_def futex_wait_def Let_def wq_wait_run)
  have "mset (futex_waiters (set_bucket_queue key (fb_queue b @ [p]) ?t)) = add_mset p (mset (futex_waiters (kn_futexes k)))"
    using set_bucket_mset [OF b, of "fb_queue b @ [p]"] unfolding bucket_for_waiters by simp
  then show ?thesis unfolding run
    by (intro block_inv [OF assms]) (use kernel_invD(3) [OF assms(1)] in \<open>simp_all add: waiting_mset entries_ok_def\<close>)
qed

text \<open>Waking some waiters of a futex, in order; the rest of its queue stays.\<close>

lemma futex_wake_inv:
  assumes "kernel_inv k" and "find_bucket key (kn_futexes k) = Some b"
    and "filter (alive (kn_threads k)) (fb_queue b) = ps @ filter (alive (kn_threads k)) q" and "set q \<subseteq> set (fb_queue b)"
  obtains k' where "wake_each ps (k\<lparr>kn_futexes := erase_empty_bucket key (set_bucket_queue key q (kn_futexes k))\<rparr>) = (Inr (), k')"
    and "kernel_inv k'"
proof -
  let ?t = "erase_empty_bucket key (set_bucket_queue key q (kn_futexes k))"
  let ?k = "k\<lparr>kn_futexes := ?t\<rparr>" and ?al = "alive (kn_threads k)"
  have whole: "mset (futex_waiters ?t) + mset (fb_queue b) = mset (futex_waiters (kn_futexes k)) + mset q"
    using set_bucket_mset [OF assms(2), of q] by (simp add: erase_empty_waiters)
  have live: "list_all ?al ps" using arg_cong [OF assms(3), of set] by (auto simp: list_all_iff)
  have "filter_mset ?al (mset (fb_queue b)) = mset ps + filter_mset ?al (mset q)"
    using arg_cong [OF assms(3), of mset] by (simp add: mset_filter)
  with arg_cong [OF whole, of "filter_mset ?al"]
  have "mset ps + filter_mset ?al (mset (futex_waiters ?t)) = filter_mset ?al (mset (futex_waiters (kn_futexes k)))"
    by (simp add: ac_simps)
  moreover have "filter_mset ?al (mset ps) = mset ps" using live by (simp add: list_all_iff filter_mset_eq_conv)
  ultimately have all: "filter_mset ?al (mset ps + mset (waiting ?k)) = filter_mset ?al (mset (waiting k))"
    unfolding waiting_mset by (simp add: ac_simps)
  have "set ps \<subseteq> set (fb_queue b)" using arg_cong [OF assms(3), of set] by auto
  moreover have "set (futex_waiters ?t) \<subseteq> set (futex_waiters (kn_futexes k)) \<union> set q"
    using arg_cong [OF whole, of set_mset] by auto
  ultimately have "set ps \<union> set (futex_waiters ?t) \<subseteq> set (futex_waiters (kn_futexes k))"
    using bucket_subset [OF assms(2)] assms(4) by blast
  then have sub: "set ps \<union> set (waiting ?k) \<subseteq> set (waiting k)"
    by (simp add: waiting_def del: set_concat) blast
  show thesis by (rule wake_inv [of k ?k ps]) (use assms(1) all sub live that in auto)
qed

lemma wake_futex_inv:
  assumes "kernel_inv k"
  shows "kernel_inv (snd (wake_one_futex i a k))" and "kernel_inv (snd (wake_all_futex i a k))"
proof -
  have same: "k\<lparr>kn_futexes := kn_futexes k\<rparr> = k" by simp
  show "kernel_inv (snd (wake_one_futex i a k))"
  proof (cases "kn_booted k \<and> (\<exists>key b. FutexKey (pr_id (kn_processes k ! i)) a = Inr key \<and> find_bucket key (kn_futexes k) = Some b)")
    case False
    with assms show ?thesis
      by (auto simp: wake_one_futex_def op_simps require_booted_def futex_wake_one_def split: sum.split option.split)
  next
    case True
    then obtain key b where b: "kn_booted k" "FutexKey (pr_id (kn_processes k ! i)) a = Inr key" "find_bucket key (kn_futexes k) = Some b"
      by blast
    obtain r q where w: "wq_wake_one (kn_threads k) (fb_queue b) = (r, q)" by (cases "wq_wake_one (kn_threads k) (fb_queue b)")
    have split: "filter (alive (kn_threads k)) (fb_queue b) = (case r of None \<Rightarrow> [] | Some p \<Rightarrow> [p]) @ filter (alive (kn_threads k)) q"
      using wq.take_None [of "kn_threads k" "fb_queue b" q] wq.take_filter [of "kn_threads k" "fb_queue b" _ q] w by (cases r) auto
    have sub: "set q \<subseteq> set (fb_queue b)" using wq.take_subset [OF w] by simp
    obtain k' where k': "wake_each (case r of None \<Rightarrow> [] | Some p \<Rightarrow> [p])
        (k\<lparr>kn_futexes := erase_empty_bucket key (set_bucket_queue key q (kn_futexes k))\<rparr>) = (Inr (), k')" "kernel_inv k'"
      by (rule futex_wake_inv [OF assms b(3) split sub])
    from b w k' show ?thesis
      by (cases r) (simp_all add: wake_one_futex_def op_simps require_booted_def futex_wake_one_def wake_each_def split: sum.splits prod.splits)
  qed
  show "kernel_inv (snd (wake_all_futex i a k))"
  proof (cases "kn_booted k \<and> (\<exists>key b. FutexKey (pr_id (kn_processes k ! i)) a = Inr key \<and> find_bucket key (kn_futexes k) = Some b)")
    case False
    with assms show ?thesis
      by (auto simp: wake_all_futex_def op_simps require_booted_def futex_wake_all_def wake_each_def split: sum.split option.split)
  next
    case True
    then obtain key b where b: "kn_booted k" "FutexKey (pr_id (kn_processes k ! i)) a = Inr key" "find_bucket key (kn_futexes k) = Some b"
      by blast
    obtain k' where k': "wake_each (filter (alive (kn_threads k)) (fb_queue b))
        (k\<lparr>kn_futexes := erase_empty_bucket key (set_bucket_queue key [] (kn_futexes k))\<rparr>) = (Inr (), k')" "kernel_inv k'"
      by (rule futex_wake_inv [OF assms b(3), of _ "[]"]) simp_all
    from b k' show ?thesis by (simp add: wake_all_futex_def op_simps require_booted_def futex_wake_all_def wq_wake_all_filter)
  qed
qed

section \<open>Time\<close>

lemma smp_idle_query:
  assumes "smp_idle k"
  shows "on_smp (\<lambda>s. (has_work_on_core c s, s)) k =
    (if topology_contains (kn_topology k) c then (Inr False, k) else (Inl Out_of_range, k))"
proof -
  have "\<not> has_work (kn_smp_queues k ! unat c)" if "topology_contains (kn_topology k) c"
    using assms that by (simp add: smp_idle_def topology_contains_def word_less_nat_alt)
  then show ?thesis by (simp add: on_smp_def has_work_on_core_def queue_index_def sbind_def)
qed

lemma timer_interrupt_run:
  assumes "kernel_inv k"
  shows "kernel_inv (snd (handle_timer_interrupt c k))"
proof (cases "kn_booted k \<and> topology_contains (kn_topology k) c \<and> topology_contains (ap_topology (kn_apic k)) c")
  case False
  with assms smp_idle_query [OF kernel_invD(4) [OF assms], of c] show ?thesis
    by (auto simp: handle_timer_interrupt_def op_simps require_booted_def check_core_def local_apic_index_def sbind_def)
next
  case True
  let ?k = "k\<lparr>kn_ticks := kn_ticks k + 1\<rparr>"
  have k: "kernel_inv ?k" by (rule kernel_inv_view [OF assms]) (simp add: thread_view_def waiting_def)
  have booted: "kn_booted ?k" using True by simp
  obtain m k' where k': "wake_sleepers ?k = (Inr m, k')" "kernel_inv k'" by (rule wake_sleepers_run [OF k booted])
  have "snd (handle_timer_interrupt c k) =
      snd (if kn_current k' \<noteq> None then rr_call rr_yield_current k' else rr_call rr_schedule_next k')"
    using True smp_idle_query [OF kernel_invD(4) [OF assms], of c] k'(1)
    by (simp add: handle_timer_interrupt_def op_simps require_booted_def check_core_def local_apic_index_def sbind_def)
  with schedule_inv [OF k'(2)] show ?thesis by simp
qed

lemma tick_core_timer_inv:
  assumes "kernel_inv k"
  shows "kernel_inv (snd (tick_core_timer c k))"
proof -
  have t: "keeps kernel_inv (focus kn_apic kn_apic_update (apic_tick c))" by (rule thread_free_keeps [OF thread_free_apic])
  have h: "keeps kernel_inv (handle_timer_interrupt c)" using timer_interrupt_run by (simp add: keeps_def)
  have "keeps kernel_inv (case i of Some i \<Rightarrow> if ai_vector i = vector_timer then sq (handle_timer_interrupt c) (ret ()) else ret ()
      | None \<Rightarrow> ret ())" for i by (cases i) (auto intro!: keeps_intros h)
  then have "keeps kernel_inv (tick_core_timer c)" unfolding tick_core_timer_def
    by (intro keeps_intros t thread_free_keeps [OF thread_free_basic(5)])
  with assms show ?thesis by (simp add: keeps_def)
qed

section \<open>Reachable states\<close>

text \<open>
  The steps of the kernel. The operations that may block are called for the current thread.
\<close>

inductive kernel_step :: "kernel \<Rightarrow> kernel \<Rightarrow> bool" where
  ks_create_process: "kernel_step k (snd (create_process k))"
| ks_fork: "kernel_step k (snd (fork_process_cow i pages k))"
| ks_create_thread: "i < length (kn_processes k) \<Longrightarrow> kernel_step k (snd (create_thread_at i bottom size_bytes k))"
| ks_exit: "i < length (kn_processes k) \<Longrightarrow> kernel_step k (snd (exit_process i code k))"
| ks_wait: "kn_current k = Some p \<Longrightarrow> kernel_step k (snd (wait_process i p child k))"
| ks_console_read: "kn_current k = Some p \<Longrightarrow> kernel_step k (snd (kernel_console_read p n k))"
| ks_console_write: "kernel_step k (snd (kernel_console_write s k))"
| ks_input: "kernel_step k (snd (submit_terminal_input s k))"
| ks_read: "kn_current k = Some p \<Longrightarrow> kernel_step k (snd (read_fd i p d n k))"
| ks_write: "kernel_step k (snd (write_fd i d s k))"
| ks_open_file: "kernel_step k (snd (open_file i path mode create k))"
| ks_close: "kernel_step k (snd (close_fd i d k))"
| ks_sleep: "kernel_step k (snd (sleep_current_for ticks k))"
| ks_sleep_until: "kernel_step k (snd (sleep_current_until tick k))"
| ks_wake_sleepers: "kn_booted k \<Longrightarrow> kernel_step k (snd (wake_sleepers k))"
| ks_futex_wait: "kn_current k = Some p \<Longrightarrow> kernel_step k (snd (wait_on_futex i a p k))"
| ks_futex_wake_one: "kernel_step k (snd (wake_one_futex i a k))"
| ks_futex_wake_all: "kernel_step k (snd (wake_all_futex i a k))"
| ks_page_fault: "kernel_step k (snd (process_handle_page_fault i t k))"
| ks_kernel_page_fault: "kernel_step k (snd (kernel_handle_page_fault t k))"
| ks_cow_fault: "kernel_step k (snd (handle_cow_write_fault i t k))"
| ks_schedule: "kernel_step k (snd (rr_call rr_schedule_next k))"
| ks_yield_turn: "kernel_step k (snd (rr_call rr_yield_current k))"
| ks_timer: "kernel_step k (snd (handle_timer_interrupt c k))"
| ks_tick: "kernel_step k (snd (tick_core_timer c k))"
| ks_shootdown: "kernel_step k (snd (request_tlb_shootdown_page a b v x k))"
| ks_shootdown_all: "kernel_step k (snd (request_tlb_shootdown_all a b x k))"
| ks_handoff: "kernel_step k (snd (request_scheduler_handoff a b t k))"

lemma exit_process_inv:
  assumes "kernel_inv k" and "i < length (kn_processes k)"
  shows "kernel_inv (snd (exit_process i code k))"
proof (cases "kn_booted k \<and> pr_state (kn_processes k ! i) = PROCESS_RUNNING")
  case True
  obtain k' where "exit_process i code k = (Inr (), k')" "kernel_inv k'"
    by (rule exit_process_run [OF assms, of code]) (use True in auto)
  then show ?thesis by simp
qed (use assms(1) in \<open>auto simp: exit_process_def op_simps require_booted_def\<close>)

lemma kernel_step_inv: "kernel_step k k' \<Longrightarrow> kernel_inv k \<Longrightarrow> kernel_inv k'"
proof (induction rule: kernel_step.induct)
  case (ks_wake_sleepers k)
  then show ?case by (metis snd_conv wake_sleepers_run)
qed (simp_all add: create_process_def create_process_inv fork_inv create_thread_inv exit_process_inv wait_process_inv console_read_inv
    thread_free_inv [OF thread_free_console_write] conjunct1 [OF submit_terminal_input_run] read_fd_inv
    thread_free_inv [OF thread_free_write_fd] thread_free_inv [OF thread_free_open_file] thread_free_inv [OF thread_free_close_fd]
    sleep_for_inv sleep_until_inv wait_on_futex_inv wake_futex_inv thread_free_inv [OF thread_free_page_faults(1)]
    thread_free_inv [OF thread_free_page_faults(2)] thread_free_inv [OF thread_free_page_faults(3)] schedule_inv timer_interrupt_run
    tick_core_timer_inv thread_free_inv [OF thread_free_shootdown(1)] thread_free_inv [OF thread_free_shootdown(2)]
    thread_free_inv [OF thread_free_handoff])

end
