(* ===== verification/KernelBoot.thy ===== *)
theory KernelBoot
  imports KernelThreads
begin

text \<open>
  The construction of the kernel and what a successful boot establishes: the services are in their initial states, the
  root file system is empty and mounted, and the invariant of the threads holds.
\<close>

section \<open>Construction\<close>

text \<open>
  \<^verbatim>\<open>Kernel::Kernel\<close> leaves the optional services without a value; \<open>blank\<close> stands for the contents of those fields, and for
  the thread objects that do not exist yet, none of which are read before they are assigned.
\<close>

definition BootContext :: "phys_mem \<Rightarrow> core_topology \<Rightarrow> dword \<Rightarrow> exn + unit" where
  "BootContext memory topology bootstrap_processor_count =
    (if length memory = 0 then Inl Invalid_argument
     else if bootstrap_processor_count = 0 then Inl Invalid_argument
     else if unat bootstrap_processor_count > unat topology then Inl Invalid_argument
     else Inr ())"

definition physical_page_count :: "phys_mem \<Rightarrow> nat" where
  "physical_page_count memory = length memory div unat MM_PAGE_SIZE_BYTES"

definition Kernel :: "kernel \<Rightarrow> phys_mem \<Rightarrow> core_topology \<Rightarrow> terminal_device \<Rightarrow> kernel" where
  "Kernel blank memory topology terminal =
    blank\<lparr>kn_booted := False, kn_memory := memory, kn_topology := topology,
      kn_scheduler := \<lparr>rr_threads = kn_threads blank, rr_ready = [], rr_current = None\<rparr>,
      kn_sleepers := [], kn_ticks := 0, kn_shootdown := initial_shootdown, kn_cow := initial_cow, kn_futexes := [],
      kn_console := Console terminal, kn_descriptions := [], kn_processes := [], kn_wait_entries := [], kn_handoffs := [],
      kn_next_process_id := PROCESS_ID_FIRST_USER_VALUE, kn_next_thread_id := THREAD_ID_FIRST_KERNEL_VALUE,
      kn_next_handoff := KERNEL_SCHEDULER_HANDOFF_FIRST_SEQUENCE, kn_next_stack := KERNEL_DEFAULT_THREAD_STACK_BASE,
      kn_next_thread := 0\<rparr>"

section \<open>The address space\<close>

text \<open>The first \<open>u\<close> pages of memory are allocated and the others are free.\<close>

definition pages_used :: "nat \<Rightarrow> kernel \<Rightarrow> bool" where
  "pages_used u k \<longleftrightarrow> allocator_inv (kn_allocator k) \<and> used_pages (kn_allocator k) = {..<u} \<and> first_allocatable_page (kn_allocator k) \<le> u
     \<and> total_page_count (kn_allocator k) = length (kn_memory k) div 4096 \<and> length (kn_memory k) \<le> 2 ^ 52"

lemma first_run_allocated:
  assumes a: "allocator_inv a" "used_pages a = {..<u}" "first_allocatable_page a \<le> u" "u + n \<le> total_page_count a" and n: "0 < n"
  obtains a' where "allocate_contiguous n a = (Inr (of_nat u * MM_PAGE_SIZE_BYTES), a')"
    and "allocator_inv a'" and "used_pages a' = {..<u + n}" and "total_page_count a' = total_page_count a"
    and "first_allocatable_page a' = first_allocatable_page a"
proof -
  let ?f = "first_allocatable_page a"
  have run: "free_run (allocated_pages a) u n" unfolding free_run_used [OF a(1)] a(2) using a(4) by (auto simp: disjoint_iff)
  have low: "u \<le> s" if "free_run (allocated_pages a) s n" for s
  proof (rule ccontr)
    assume "\<not> u \<le> s"
    then have "s \<in> {s..<s + n} \<inter> used_pages a" unfolding a(2) using n by simp
    with that show False unfolding free_run_used [OF a(1)] by blast
  qed
  from allocate_contiguous_run [OF a(1) n] obtain st where st: "u \<le> st" "st \<le> u"
    "allocate_contiguous n a = (Inr (of_nat st * MM_PAGE_SIZE_BYTES), fold mark_allocated [st..<st + n] a)"
  proof (elim disjE exE conjE)
    fix st assume *: "?f \<le> st" "free_run (allocated_pages a) st n" "\<forall>s. ?f \<le> s \<and> free_run (allocated_pages a) s n \<longrightarrow> st \<le> s"
      "allocate_contiguous n a = (Inr (of_nat st * MM_PAGE_SIZE_BYTES), fold mark_allocated [st..<st + n] a)"
    have "st \<le> u" using *(3) [rule_format, of u] run a(3) by simp
    with low [OF *(2)] *(4) show thesis by (intro that)
  next
    assume "\<forall>s \<ge> ?f. \<not> free_run (allocated_pages a) s n"
    then have False using run a(3) by blast
    then show thesis ..
  qed
  have "set [u..<u + n] \<subseteq> {..<total_page_count a}" using a(4) by auto
  note F = fold_mark_allocated [OF a(1) this]
  have "{u..<u + n} \<union> {..<u} = {..<u + n}" by auto
  moreover have "used_pages (fold mark_allocated [u..<u + n] a) = {u..<u + n} \<union> {..<u}"
    using F unfolding a(2) set_upt by blast
  ultimately have U: "used_pages (fold mark_allocated [u..<u + n] a) = {..<u + n}" by (rule trans [rotated])
  have eq: "st = u" using st(1,2) by simp
  show thesis using st(3) F U unfolding eq by (intro that [of "fold mark_allocated [u..<u + n] a"]) blast+
qed

lemma unat_page:
  assumes "u * 4096 \<le> (2 :: nat) ^ 52"
  shows "unat (of_nat u * 0x1000 :: address64) = u * 4096"
proof -
  have "(of_nat u * 0x1000 :: address64) = of_nat (u * 4096)" by simp
  moreover have "u * 4096 < 2 ^ LENGTH(64)" using assms by simp
  ultimately show ?thesis by (simp only: unat_of_nat mod_less)
qed

lemma create_address_space_run:
  assumes k: "pages_used u k" and room: "u < length (kn_memory k) div 4096" and want: "0 < n"
  obtains space a' m where "create_address_space n k = (Inr space, k\<lparr>kn_allocator := a', kn_memory := m\<rparr>)"
    and "pages_used (u + min n (length (kn_memory k) div 4096 - u)) (k\<lparr>kn_allocator := a', kn_memory := m\<rparr>)"
    and "length m = length (kn_memory k)"
    and "as_ok (space, m)" and "\<forall>nxe la. as_walk nxe la (space, m) = Faults NOT_PRESENT"
proof -
  note K = k [unfolded pages_used_def]
  define l where "l = min n (length (kn_memory k) div 4096 - u)"
  have l: "0 < l" "u + l \<le> total_page_count (kn_allocator k)" using K room want by (auto simp: l_def)
  have sz: "MM_PAGE_SIZE_BYTES = 0x1000" by (simp add: MM_PAGE_SIZE_BYTES_def)
  obtain a' where a': "allocate_contiguous l (kn_allocator k) = (Inr (of_nat u * 0x1000), a')" "allocator_inv a'" "used_pages a' = {..<u + l}"
    "total_page_count a' = total_page_count (kn_allocator k)" "first_allocatable_page a' = first_allocatable_page (kn_allocator k)"
    by (rule first_run_allocated [of "kn_allocator k" u l]) (use K l sz in auto)
  have fit: "(u + l) * 4096 \<le> length (kn_memory k)" using l(2) K by (metis div_times_less_eq_dividend mult_le_mono1 order_trans)
  let ?r = "of_nat u * 0x1000 :: address64"
  have sums: "?r + 0x1000 = of_nat (u + 1) * 0x1000" "?r + of_nat l * 0x1000 = of_nat (u + l) * 0x1000" by (simp_all add: algebra_simps)
  have vals: "unat ?r = u * 4096" "unat (?r + 0x1000) = (u + 1) * 4096" "unat (?r + of_nat l * 0x1000) = (u + l) * 4096"
    unfolding sums by (rule unat_page; use fit K l(1) in simp)+
  have run: "fst (AddressSpace ?r (?r + 0x1000) (?r + of_nat l * 0x1000) (kn_memory k)) = Inr ()"
    by (rule AddressSpace_run; (unfold aligned4k_def word_less_nat_alt word_le_nat_alt vals)?) (use fit l(1) in simp_all)
  then obtain space m where sp: "AddressSpace ?r (?r + 0x1000) (?r + of_nat l * 0x1000) (kn_memory k) = (Inr (), (space, m))"
    by (metis prod.collapse)
  have "free_page_count (kn_allocator k) = length (kn_memory k) div 4096 - u"
    using free_page_count_used [of "kn_allocator k"] K by simp
  then have "(if n < free_page_count (kn_allocator k) then n else free_page_count (kn_allocator k)) = l" by (simp add: l_def)
  then have "create_address_space n k = (Inr space, k\<lparr>kn_allocator := a', kn_memory := m\<rparr>)"
    using a'(1) sp l(1)
    by (simp del: One_nat_def add: create_address_space_def bnd_def gets_def Let_def on_allocator_of_def focus_def sz)
  moreover have "?r < ?r + 0x1000" unfolding word_less_nat_alt vals by simp
  note S = AddressSpace_spec [OF sp this]
  moreover have "length m = length (kn_memory k)" using S K by (simp add: length_zero_table)
  ultimately show thesis using a' K by (intro that [of space m a']) (auto simp: l_def pages_used_def)
qed

section \<open>The root file system\<close>

lemma root_file_system:
  obtains fs device cache c' c'' where
    "sbind (BlockDeviceGeometry BLOCK_DEVICE_DEFAULT_BLOCK_SIZE_BYTES KERNEL_STAGE15_ROOT_BLOCK_COUNT) MemoryBlockDevice = Inr device"
    and "BufferCache device KERNEL_STAGE15_BUFFER_CACHE_BLOCKS = Inr cache"
    and "SimpleFsFormatOptions KERNEL_STAGE15_ROOT_INODE_COUNT = Inr 128"
    and "fs_format 128 cache = (Inr (), c')" and "SimpleFileSystem c' = (Inr fs, c'')"
    and "fs_shows fs [1 \<mapsto> (DIRECTORY, [])] c''" and "fs_free fs c'' = data_count fs"
proof -
  define g where "g = \<lparr>bg_block_size_bytes = 512, bg_block_count = 4096, bg_capacity_bytes = 0x200000\<rparr>"
  define fs where "fs = \<lparr>fs_block_size_bytes = 512, fs_block_count = 4096, fs_inode_table_start = 1,
     fs_inode_table_block_count = 16, fs_inode_count = 128, fs_data_bitmap_start = 17, fs_data_bitmap_block_count = 1,
     fs_data_start = 18, fs_data_block_count = 4078, fs_root_inode = 1\<rparr>"
  let ?d = "\<lparr>bd_geometry = g, bd_storage = replicate 0x200000 0\<rparr>"
  have geo: "BlockDeviceGeometry 512 4096 = Inr g"
    by (simp add: BlockDeviceGeometry_def checked_capacity_bytes_def sbind_def g_def)
  have d: "MemoryBlockDevice g = Inr ?d"
    by (simp add: MemoryBlockDevice_def storage_size_for_capacity_def sbind_def g_def)
  have ok: "dev_ok ?d" using dev_ok_new [OF geo d] by blast
  obtain c where c: "BufferCache ?d 64 = Inr c"
    by (simp add: BufferCache_def checked_cache_storage_size_def sbind_def g_def)
  have C: "cache_ok c" "bc_geometry c = g" using BufferCache_spec [OF ok c] by simp_all
  have lay: "make_layout g 128 = Inr fs"
    by (simp add: make_layout_def g_def fs_def checked_inode_table_block_count_def
      checked_bitmap_block_count_def ceil_div_u64_def sbind_def Let_def fs_constants)
  have L: "layout_ok fs g" by (simp add: layout_ok_def layout_regions_def fs_def g_def)
  have s: "bcs.shows_blocks g (bc_blocks c) c" using C by (simp add: bcs.shows_blocks_def)
  obtain c' where c': "fs_format 128 c = (Inr (), c')" "bcs.shows_blocks g (formatted_disk fs) c'"
    by (rule fs_format_spec [OF s lay L])
  have super: "formatted_disk fs 0 = Some (superblock_bytes fs)" using layout_okD(2,6,9,11) [OF L] by (auto simp: formatted_disk_def)
  have root: "inode_at fs (formatted_disk fs) (fs_root_inode fs) = Inr root_record"
    using formatted_inode [OF L, of 1] by (simp add: inode_valid_def fs_def)
  obtain c'' where c'': "SimpleFileSystem c' = (Inr fs, c'')" "bcs.shows_blocks g (formatted_disk fs) c''"
    by (rule mount_spec [OF c'(2) L super root]) (simp_all add: root_record_def)
  note F = formatted_fs_inv [OF L]
  have "dirs_ok [1 \<mapsto> (DIRECTORY, [])]" by (auto simp: dirs_ok_def split: if_splits)
  then have "fs_shows fs [1 \<mapsto> (DIRECTORY, [])] c''"
    using fs_showsI [OF c''(2) L F(1), of "[]"] F(2) by (simp add: fs_def)
  moreover have "fs_free fs c'' = data_count fs" using c''(2) F(3) by (simp add: fs_free_def bcs.shows_blocks_def)
  moreover have "SimpleFsFormatOptions KERNEL_STAGE15_ROOT_INODE_COUNT = Inr 128"
    by (simp add: SimpleFsFormatOptions_def KERNEL_STAGE15_ROOT_INODE_COUNT_def fs_constants)
  ultimately show thesis using geo d c c'(1) c''(1)
    by (intro that [of ?d c c' fs c''])
      (simp_all add: BLOCK_DEVICE_DEFAULT_BLOCK_SIZE_BYTES_def KERNEL_STAGE15_ROOT_BLOCK_COUNT_def
        KERNEL_STAGE15_BUFFER_CACHE_BLOCKS_def sbind_def)
qed

section \<open>Boot\<close>

definition armed :: "local_apic \<Rightarrow> bool" where
  "armed a \<longleftrightarrow> la_enabled a \<and> (\<exists>t. timer_configure vector_timer KERNEL_STAGE7_DEFAULT_TIMER_INTERVAL_TICKS PERIODIC t = (Inr (), la_timer a))"

lemma arm_timer_run:
  assumes "apic_ok s" and "i < unat (ap_topology s)" and "la_enabled (ap_locals s ! i)"
  obtains a where "on_local_apic (of_nat i) (configure_periodic_timer vector_timer KERNEL_STAGE7_DEFAULT_TIMER_INTERVAL_TICKS) s
      = (Inr (), s\<lparr>ap_locals := (ap_locals s)[i := a]\<rparr>)"
    and "armed a" and "la_core a = of_nat i"
proof -
  have "unat (ap_topology s) < 2 ^ LENGTH(32)" by (rule unsigned_less)
  with assms(2) have "i < 2 ^ LENGTH(32)" by linarith
  then have i: "unat (of_nat i :: core_id) = i" by (simp only: unat_of_nat mod_less)
  then have "local_apic_index (of_nat i) s = Inr i"
    using assms(2) by (simp add: local_apic_index_def topology_contains_def word_less_nat_alt)
  moreover have core: "la_core (ap_locals s ! i) = of_nat i" using assms(1,2) by (simp add: apic_ok_def)
  moreover obtain t t0 where "configure_periodic_timer vector_timer KERNEL_STAGE7_DEFAULT_TIMER_INTERVAL_TICKS (ap_locals s ! i)
      = (Inr (), (ap_locals s ! i)\<lparr>la_timer := t\<rparr>)"
    and "timer_configure vector_timer KERNEL_STAGE7_DEFAULT_TIMER_INTERVAL_TICKS PERIODIC t0 = (Inr (), t)"
    by (simp add: configure_periodic_timer_def focus_def timer_configure_def op_simps KERNEL_STAGE7_DEFAULT_TIMER_INTERVAL_TICKS_def
        APIC_TIMER_MIN_INTERVAL_TICKS_def)
  ultimately show thesis using assms(3)
    by (intro that [of "(ap_locals s ! i)\<lparr>la_timer := t\<rparr>"]) (auto simp: on_local_apic_def armed_def)
qed

lemma arm_timers_run:
  assumes "apic_ok (kn_apic k)" and "\<forall>a \<in> set (ap_locals (kn_apic k)). la_enabled a" and "m \<le> unat (ap_topology (kn_apic k))"
  shows "\<exists>s. for_each (\<lambda>i. focus kn_apic kn_apic_update (on_local_apic (of_nat i)
      (configure_periodic_timer vector_timer KERNEL_STAGE7_DEFAULT_TIMER_INTERVAL_TICKS))) [0..<m] k = (Inr (), k\<lparr>kn_apic := s\<rparr>)
    \<and> ap_topology s = ap_topology (kn_apic k) \<and> apic_ok s \<and> (\<forall>a \<in> set (ap_locals s). la_enabled a) \<and> (\<forall>i < m. armed (ap_locals s ! i))"
  using assms(3)
proof (induction m)
  case 0
  show ?case using assms by (intro exI [of _ "kn_apic k"]) (simp add: op_simps)
next
  case (Suc m)
  then obtain s where s: "for_each (\<lambda>i. focus kn_apic kn_apic_update (on_local_apic (of_nat i)
      (configure_periodic_timer vector_timer KERNEL_STAGE7_DEFAULT_TIMER_INTERVAL_TICKS))) [0..<m] k = (Inr (), k\<lparr>kn_apic := s\<rparr>)"
    "ap_topology s = ap_topology (kn_apic k)" "apic_ok s" "\<forall>a \<in> set (ap_locals s). la_enabled a" "\<forall>i < m. armed (ap_locals s ! i)" by auto
  have m: "m < unat (ap_topology s)" "m < length (ap_locals s)" using Suc.prems s(2,3) by (simp_all add: apic_ok_def)
  obtain a where a: "on_local_apic (of_nat m) (configure_periodic_timer vector_timer KERNEL_STAGE7_DEFAULT_TIMER_INTERVAL_TICKS) s
      = (Inr (), s\<lparr>ap_locals := (ap_locals s)[m := a]\<rparr>)" "armed a" "la_core a = of_nat m"
    by (rule arm_timer_run [OF s(3) m(1)]) (use s(4) m(2) in auto)
  have ok: "apic_ok (s\<lparr>ap_locals := (ap_locals s)[m := a]\<rparr>)" using s(3) a(3) m(2)
    by (simp add: apic_ok_def nth_list_update)
  have "\<forall>b \<in> set ((ap_locals s)[m := a]). la_enabled b" using s(4) a(2) set_update_subset_insert [of "ap_locals s" m a]
    by (auto simp: armed_def)
  moreover have "\<forall>i < Suc m. armed ((ap_locals s)[m := a] ! i)" using s(5) a(2) m(2) by (auto simp: nth_list_update less_Suc_eq)
  ultimately show ?case using s(1,2) a(1) ok
    by (intro exI [of _ "s\<lparr>ap_locals := (ap_locals s)[m := a]\<rparr>"])
      (simp add: for_each_append sq_def bnd_def focus_def ret_def)
qed

definition booted :: "kernel \<Rightarrow> bool" where
  "booted k \<longleftrightarrow> kn_booted k \<and> apic_ok (kn_apic k) \<and> (\<forall>a \<in> set (ap_locals (kn_apic k)). armed a)
     \<and> fs_shows (kn_root_fs k) [1 \<mapsto> (DIRECTORY, [])] (kn_cache k)"

lemma stage15_run:
  obtains fs c where "configure_stage15_services k = (Inr (), k\<lparr>kn_cache := c, kn_root_fs := fs\<rparr>)"
    and "fs_shows fs [1 \<mapsto> (DIRECTORY, [])] c" and "fs_free fs c = data_count fs"
proof -
  obtain fs d c0 c1 c2 where r:
    "sbind (BlockDeviceGeometry BLOCK_DEVICE_DEFAULT_BLOCK_SIZE_BYTES KERNEL_STAGE15_ROOT_BLOCK_COUNT) MemoryBlockDevice = Inr d"
    "BufferCache d KERNEL_STAGE15_BUFFER_CACHE_BLOCKS = Inr c0" "SimpleFsFormatOptions KERNEL_STAGE15_ROOT_INODE_COUNT = Inr 128"
    "fs_format 128 c0 = (Inr (), c1)" "SimpleFileSystem c1 = (Inr fs, c2)" and f: "fs_shows fs [1 \<mapsto> (DIRECTORY, [])] c2"
    "fs_free fs c2 = data_count fs" by (rule root_file_system)
  have "configure_stage15_services k = (Inr (), k\<lparr>kn_cache := c2, kn_root_fs := fs\<rparr>)"
    unfolding configure_stage15_services_def r(1) by (simp add: op_simps r(2-5) on_cache_def focus_def)
  with f show thesis by (intro that)
qed

lemma kernel_boot_run:
  assumes "2 * 4096 \<le> length memory" and "length memory \<le> 2 ^ 52"
  obtains k where "kernel_boot (Kernel blank memory topology terminal) = (Inr (), k)" and "booted k"
    and "fs_free (kn_root_fs k) (kn_cache k) = data_count (kn_root_fs k)"
    and "pages_used (1 + min 16 (length memory div 4096 - 1)) k" and "length (kn_memory k) = length memory"
    and "kernel_inv k" and "kn_processes k = []" and "rr_empty (kn_scheduler k)" and "waiting k = []"
    and "kn_next_process_id k = 1" and "kn_next_thread_id k = 1" and "kn_next_thread k = 0"
proof -
  let ?k0 = "Kernel blank memory topology terminal"
  let ?n = "length memory div 4096"
  have n: "2 \<le> ?n" "?n \<le> 2 ^ 52" using assms by (simp_all add: div_le_mono [of 8192, simplified])
  obtain a where a: "PhysicalPageAllocator ?n 1 = Inr a" using n(1) by (simp add: PhysicalPageAllocator_def Let_def)
  note A = allocator_inv_new [OF a n(2)]
  let ?k1 = "?k0\<lparr>kn_allocator := a\<rparr>"
  have m: "kn_memory ?k1 = memory" by (simp add: Kernel_def)
  have used: "pages_used 1 ?k1" unfolding pages_used_def m using A n assms(2) by simp
  obtain space a' mem where sp: "create_address_space 16 ?k1 = (Inr space, ?k1\<lparr>kn_allocator := a', kn_memory := mem\<rparr>)"
    "pages_used (1 + min 16 (?n - 1)) (?k1\<lparr>kn_allocator := a', kn_memory := mem\<rparr>)" "length mem = length memory"
    by (rule create_address_space_run [OF used, of 16, unfolded m]) (use n in simp_all)
  let ?k2 = "?k1\<lparr>kn_allocator := a', kn_memory := mem, kn_space := space, kn_apic := enable_local_apics (ApicSystem topology)\<rparr>"
  have en: "apic_ok (kn_apic ?k2)" "\<forall>x \<in> set (ap_locals (kn_apic ?k2)). la_enabled x" "unat topology \<le> unat (ap_topology (kn_apic ?k2))"
    by (auto simp: apic_ok_def enable_local_apics_def ApicSystem_def LocalApic_def la_enable_def)
  obtain s where s: "for_each (\<lambda>i. focus kn_apic kn_apic_update (on_local_apic (of_nat i)
      (configure_periodic_timer vector_timer KERNEL_STAGE7_DEFAULT_TIMER_INTERVAL_TICKS))) [0..<unat topology] ?k2
      = (Inr (), ?k2\<lparr>kn_apic := s\<rparr>)" "ap_topology s = topology" "apic_ok s" "\<forall>i < unat topology. armed (ap_locals s ! i)"
    using arm_timers_run [OF en] by (auto simp: enable_local_apics_def ApicSystem_def)
  let ?k3 = "?k2\<lparr>kn_apic := s, kn_smp_queues := sm_queues (SmpScheduler topology (kn_threads blank))\<rparr>"
  obtain fs c where f: "configure_stage15_services ?k3 = (Inr (), ?k3\<lparr>kn_cache := c, kn_root_fs := fs\<rparr>)"
    "fs_shows fs [1 \<mapsto> (DIRECTORY, [])] c" "fs_free fs c = data_count fs" by (rule stage15_run)
  let ?fin = "?k3\<lparr>kn_cache := c, kn_root_fs := fs, kn_booted := True\<rparr>"
  have sz: "unat MM_PAGE_SIZE_BYTES = 4096" by (simp add: MM_PAGE_SIZE_BYTES_def)
  have q: "\<not> (?n < KERNEL_MIN_BOOTABLE_PAGE_COUNT)" using n(1) by (simp add: KERNEL_MIN_BOOTABLE_PAGE_COUNT_def)
  have top: "kn_topology ?k0 = topology" "kn_memory ?k0 = memory" "\<not> kn_booted ?k0" "kn_threads ?k0 = kn_threads blank" by (simp_all add: Kernel_def)
  have st7: "configure_stage7_services (?k1\<lparr>kn_allocator := a', kn_memory := mem, kn_space := space\<rparr>) = (Inr (), ?k2\<lparr>kn_apic := s\<rparr>)"
    unfolding configure_stage7_services_def using s(1) by (simp add: op_simps top)
  have st9: "configure_stage9_services (?k2\<lparr>kn_apic := s\<rparr>) = (Inr (), ?k3)"
    by (simp add: configure_stage9_services_def op_simps top)
  have run: "kernel_boot ?k0 = (Inr (), ?fin)"
    using sp(1) a st7 st9 f(1) q
    by (simp add: kernel_boot_def sq_def bnd_def gets_def require_def modify_def lift_sum_def ret_def top sz
        KERNEL_RESERVED_LOW_PAGE_COUNT_def KERNEL_DEFAULT_TABLE_ARENA_PAGE_COUNT_def)
  have "\<forall>x \<in> set (ap_locals s). armed x" using s(2-4) by (auto simp: apic_ok_def in_set_conv_nth)
  then have "booted ?fin" using s(3) f(2) by (simp add: booted_def)
  moreover have "kernel_inv ?fin"
    by (auto simp: kernel_inv_def flow_ok_def flow_def waiting_def Kernel_def procs_ok_def entries_ok_def smp_idle_def Console_def
        current_mset_def SmpScheduler_def CoreRunQueue_def has_work_def)
  moreover have "pages_used (1 + min 16 (?n - 1)) ?fin" using sp(2) unfolding pages_used_def by simp
  ultimately show thesis using run f(3) sp(3) by (intro that [of ?fin]) (simp_all add: Kernel_def rr_empty_def waiting_def Console_def PROCESS_ID_FIRST_USER_VALUE_def THREAD_ID_FIRST_KERNEL_VALUE_def)
qed

section \<open>Reachable kernels\<close>

text \<open>A kernel that has booted on enough memory, and every state it can get into.\<close>

inductive kernel_reachable :: "kernel \<Rightarrow> bool" where
  boot: "2 * 4096 \<le> length memory \<Longrightarrow> length memory \<le> 2 ^ 52
    \<Longrightarrow> kernel_reachable (snd (kernel_boot (Kernel blank memory topology terminal)))"
| step: "kernel_reachable k \<Longrightarrow> kernel_step k k' \<Longrightarrow> kernel_reachable k'"

lemma kernel_reachable_inv: "kernel_reachable k \<Longrightarrow> kernel_inv k"
proof (induction rule: kernel_reachable.induct)
  case (boot memory blank topology terminal)
  then show ?case by (metis kernel_boot_run snd_conv)
qed (rule kernel_step_inv)

lemma member_current: "p \<in># current_mset s \<longleftrightarrow> rr_current s = Some p"
  by (auto simp: current_mset_def split: option.splits)

lemma count_mset_distinct_places:
  assumes "flow st (mset R) C (mset W) n" and "p < n" and "st p \<noteq> DEAD"
  shows "(st p = RUNNING \<and> p \<in># C \<and> p \<notin> set R \<and> p \<notin> set W) \<or> (st p = READY \<and> p \<notin># C \<and> count_list R p = 1 \<and> p \<notin> set W)
    \<or> (st p = BLOCKED \<and> p \<notin># C \<and> p \<notin> set R \<and> count_list W p = 1)"
proof -
  have one: "count (mset R) p + count C p + count (mset W) p = 1" by (rule flowD(1) [OF assms])
  then consider "p \<in># C" | "p \<in># mset R" | "p \<in># mset W" by (metis add_is_0 not_in_iff zero_neq_one)
  then show ?thesis
  proof cases
    case 1
    then show ?thesis using flow_unique(2) [OF assms(1,3) 1] flowD(6) [OF assms(1) 1] by simp
  next
    case 2
    then show ?thesis using flow_unique(1) [OF assms(1,3) 2] flowD(5) [OF assms(1) 2] assms(3) by (simp add: count_mset)
  next
    case 3
    then show ?thesis using flow_unique(3) [OF assms(1,3) 3] flowD(7) [OF assms(1) 3] assms(3) by (simp add: count_mset)
  qed
qed

text \<open>
  C0: Boot. With less than two pages of memory \<^verbatim>\<open>Kernel::boot\<close> throws \<^verbatim>\<open>std::runtime_error\<close> and changes nothing. Otherwise it
  returns, and then the root file system is mounted and holds nothing but an empty root directory with every data block
  free, the reserved page and the kernel's page tables are the only allocated pages, the timer of every core is armed
  with the default interval, and there is no process and no thread. A second boot throws \<^verbatim>\<open>std::logic_error\<close>.
\<close>

theorem kernel_boot_correct:
  assumes "length memory \<le> 2 ^ 52"
  shows "(let k0 = Kernel blank memory topology terminal; r = kernel_boot k0; k = snd r in
     if length memory < 2 * 4096 then r = (Inl Runtime_error, k0)
     else fst r = Inr () \<and> kn_booted k \<and> kernel_boot k = (Inl Logic_error, k)
       \<and> fs_shows (kn_root_fs k) [1 \<mapsto> (DIRECTORY, [])] (kn_cache k)
       \<and> fs_free (kn_root_fs k) (kn_cache k) = data_count (kn_root_fs k)
       \<and> pages_used (1 + min 16 (length memory div 4096 - 1)) k
       \<and> (\<forall>a \<in> set (ap_locals (kn_apic k)). armed a)
       \<and> kn_processes k = [] \<and> rr_empty (kn_scheduler k) \<and> waiting k = [])"
proof (cases "length memory < 2 * 4096")
  case True
  then have "length memory div 4096 < 2" by simp
  then have "kernel_boot (Kernel blank memory topology terminal) = (Inl Runtime_error, Kernel blank memory topology terminal)"
    by (simp add: kernel_boot_def op_simps Kernel_def MM_PAGE_SIZE_BYTES_def KERNEL_MIN_BOOTABLE_PAGE_COUNT_def)
  with True show ?thesis by (simp add: Let_def)
next
  case False
  then obtain k where k: "kernel_boot (Kernel blank memory topology terminal) = (Inr (), k)" "booted k"
    "fs_free (kn_root_fs k) (kn_cache k) = data_count (kn_root_fs k)" 
    "pages_used (1 + min 16 (length memory div 4096 - 1)) k" "kernel_inv k" "kn_processes k = []"
    "rr_empty (kn_scheduler k)" "waiting k = []"
    by (metis kernel_boot_run assms not_less)
  have "kernel_boot k = (Inl Logic_error, k)" using k(2) by (simp add: kernel_boot_def booted_def op_simps)
  with False k show ?thesis by (simp add: Let_def booted_def)
qed

theorem kernel_boot_correct_witness:
  "\<forall>blank terminal. fst (kernel_boot (Kernel blank (PhysicalMemory 0x2000) 1 terminal)) = Inr ()
     \<and> pages_used 2 (snd (kernel_boot (Kernel blank (PhysicalMemory 0x2000) 1 terminal)))
     \<and> fst (kernel_boot (Kernel blank (PhysicalMemory 0x1fff) 1 terminal)) = Inl Runtime_error"
proof (intro allI)
  fix blank terminal
  have len: "length (PhysicalMemory 0x2000) = 8192" "length (PhysicalMemory 0x1fff) = 8191" by (simp_all add: PhysicalMemory_def)
  have "length (PhysicalMemory 0x2000) \<le> 2 ^ 52" "length (PhysicalMemory 0x1fff) \<le> 2 ^ 52" unfolding len by simp_all
  note boots = kernel_boot_correct [OF this(1), where blank = blank and topology = 1 and terminal = terminal, unfolded len Let_def]
    and fails = kernel_boot_correct [OF this(2), where blank = blank and topology = 1 and terminal = terminal, unfolded len Let_def]
  show "fst (kernel_boot (Kernel blank (PhysicalMemory 0x2000) 1 terminal)) = Inr ()
     \<and> pages_used 2 (snd (kernel_boot (Kernel blank (PhysicalMemory 0x2000) 1 terminal)))
     \<and> fst (kernel_boot (Kernel blank (PhysicalMemory 0x1fff) 1 terminal)) = Inl Runtime_error"
    using boots fails by (simp add: numeral_2_eq_2)
qed

text \<open>
  C0: Threads are neither lost nor duplicated. Whatever sequence of kernel operations (thread and process creation, fork,
  exit, wait, console and file input and output, sleeping, futexes, page faults, timer interrupts, shootdowns, handoffs) follows a
  boot, each live thread is in exactly one place that agrees with its state: it is the current thread and running, or
  once in the ready queue and ready, or once in one of the wait queues and blocked. The threads of a process that has
  exited are all dead, and the current thread is live.
\<close>

theorem kernel_threads_in_one_place:
  assumes "kernel_reachable k"
  shows "(\<forall>p < kn_next_thread k. let st = th_state (kn_threads k p) in
        st = DEAD
      \<or> (st = RUNNING \<and> kn_current k = Some p \<and> p \<notin> set (rr_ready (kn_scheduler k)) \<and> p \<notin> set (waiting k))
      \<or> (st = READY \<and> kn_current k \<noteq> Some p \<and> count_list (rr_ready (kn_scheduler k)) p = 1 \<and> p \<notin> set (waiting k))
      \<or> (st = BLOCKED \<and> kn_current k \<noteq> Some p \<and> p \<notin> set (rr_ready (kn_scheduler k)) \<and> count_list (waiting k) p = 1))
    \<and> (\<forall>q \<in> set (kn_processes k). \<forall>t \<in> set (pr_threads q).
        t < kn_next_thread k \<and> (pr_state q \<noteq> PROCESS_RUNNING \<longrightarrow> th_state (kn_threads k t) = DEAD))
    \<and> (\<forall>p. kn_current k = Some p \<longrightarrow> p < kn_next_thread k \<and> th_state (kn_threads k p) = RUNNING)"
proof -
  note I = kernel_invD [OF kernel_reachable_inv [OF assms]]
  note F = I(1) [unfolded flow_ok_def]
  have st: "states (kn_threads k) p = th_state (kn_threads k p)" for p by (simp add: states_def)
  have "th_state (kn_threads k p) = DEAD
      \<or> (th_state (kn_threads k p) = RUNNING \<and> kn_current k = Some p \<and> p \<notin> set (rr_ready (kn_scheduler k)) \<and> p \<notin> set (waiting k))
      \<or> (th_state (kn_threads k p) = READY \<and> kn_current k \<noteq> Some p \<and> count_list (rr_ready (kn_scheduler k)) p = 1 \<and> p \<notin> set (waiting k))
      \<or> (th_state (kn_threads k p) = BLOCKED \<and> kn_current k \<noteq> Some p \<and> p \<notin> set (rr_ready (kn_scheduler k)) \<and> count_list (waiting k) p = 1)"
    if "p < kn_next_thread k" for p
    using count_mset_distinct_places [OF F that] unfolding st member_current by blast
  moreover have "\<forall>q \<in> set (kn_processes k). \<forall>t \<in> set (pr_threads q).
        t < kn_next_thread k \<and> (pr_state q \<noteq> PROCESS_RUNNING \<longrightarrow> th_state (kn_threads k t) = DEAD)"
    using I(2) by (simp add: procs_ok_def is_alive_def)
  moreover have "p < kn_next_thread k \<and> th_state (kn_threads k p) = RUNNING" if "kn_current k = Some p" for p
    using flowD(3,6) [OF F, of p] that unfolding st member_current by blast
  ultimately show ?thesis by (simp add: Let_def)
qed

lemma new_process_run:
  assumes k: "pages_used u k" and room: "u < length (kn_memory k) div 4096" and b: "kn_booted k" and pid: "kn_next_process_id k \<noteq> 0"
  obtains k' q where "create_process_with_parent parent k = (Inr (length (kn_processes k)), k')"
    and "kn_processes k' = kn_processes k @ [q]" and "pr_id q = kn_next_process_id k" and "pr_parent q = parent"
    and "pr_state q = PROCESS_RUNNING" and "pr_threads q = []"
    and "pages_used (u + min 16 (length (kn_memory k) div 4096 - u)) k'" and "length (kn_memory k') = length (kn_memory k)"
    and "kn_booted k'" and "kn_next_process_id k' = kn_next_process_id k + 1" and "kn_scheduler k' = kn_scheduler k"
    and "kn_next_thread k' = kn_next_thread k" and "kn_next_thread_id k' = kn_next_thread_id k" and "kn_next_stack k' = kn_next_stack k"
proof -
  let ?k1 = "k\<lparr>kn_next_process_id := kn_next_process_id k + 1\<rparr>"
  have u1: "pages_used u ?k1" "u < length (kn_memory ?k1) div 4096" using k room by (simp_all add: pages_used_def)
  obtain space a m where sp: "create_address_space 16 ?k1 = (Inr space, ?k1\<lparr>kn_allocator := a, kn_memory := m\<rparr>)"
    "pages_used (u + min 16 (length (kn_memory k) div 4096 - u)) (?k1\<lparr>kn_allocator := a, kn_memory := m\<rparr>)" "length m = length (kn_memory k)"
    by (rule create_address_space_run [OF u1, of 16]) auto
  obtain ds t where t: "FileDescriptorTable (kn_descriptions k) = (Inr (), (ds, t))"
    by (simp add: FileDescriptorTable_def emplace_tty_def make_shared_description_def op_simps)
  let ?q = "\<lparr>pr_id = kn_next_process_id k, pr_parent = parent, pr_state = PROCESS_RUNNING, pr_exit_code = 0, pr_space = space,
           pr_files = t, pr_threads = []\<rparr>"
  let ?k2 = "?k1\<lparr>kn_allocator := a, kn_memory := m, kn_descriptions := ds, kn_processes := kn_processes k @ [?q]\<rparr>"
  have "Process (kn_next_process_id k) space parent (kn_descriptions k) = (Inr ?q, ds)"
    using t pid by (simp add: Process_def PROCESS_ID_INVALID_VALUE_def)
  then have run: "create_process_with_parent parent k = (Inr (length (kn_processes k)), ?k2)"
    using sp(1) b by (simp add: create_process_with_parent_def op_simps require_booted_def KERNEL_DEFAULT_TABLE_ARENA_PAGE_COUNT_def)
  have "pages_used (u + min 16 (length (kn_memory k) div 4096 - u)) ?k2" using sp(2) unfolding pages_used_def by simp
  with run sp(3) b show thesis by (intro that [of ?k2 ?q]) simp_all
qed

text \<open>
  A small session: boot on a megabyte, create a process, give it a thread and schedule the thread, then fork.
\<close>

definition sample_session :: "kernel \<Rightarrow> terminal_device \<Rightarrow> kernel" where
  "sample_session blank terminal =
    snd (fork_process_cow 0 [] (snd (rr_call rr_schedule_next (snd (create_thread_at 0 0x70000000 0x4000
      (snd (create_process (snd (kernel_boot (Kernel blank (PhysicalMemory 0x100000) 1 terminal))))))))))"

lemma sample_session_facts:
  obtains q c where "kernel_reachable (sample_session blank terminal)" and "kn_booted (sample_session blank terminal)"
    and "kn_processes (sample_session blank terminal) = [q, c]"
    and "pr_id q = 1" and "pr_id c = 2" and "pr_parent c = 1" and "pr_state c = PROCESS_RUNNING"
    and "kn_current (sample_session blank terminal) = Some 0"
proof -
  let ?boot = "kernel_boot (Kernel blank (PhysicalMemory 0x100000) 1 terminal)"
  have len: "length (PhysicalMemory 0x100000) = 0x100000" by (simp add: PhysicalMemory_def)
  have b: "2 * 4096 \<le> length (PhysicalMemory 0x100000)" "length (PhysicalMemory 0x100000) \<le> 2 ^ 52" unfolding len by simp_all
  obtain k0 where k0: "?boot = (Inr (), k0)" "booted k0" "pages_used (1 + min 16 (length (PhysicalMemory 0x100000) div 4096 - 1)) k0"
    "length (kn_memory k0) = length (PhysicalMemory 0x100000)" "kn_processes k0 = []" "rr_empty (kn_scheduler k0)"
    "kn_next_process_id k0 = 1" "kn_next_thread_id k0 = 1" "kn_next_thread k0 = 0"
    by (rule kernel_boot_run [OF b])
  have r0: "kernel_reachable k0" using kernel_reachable.boot [OF b] k0(1) by (metis snd_conv)
  have u0: "pages_used 17 k0" "17 < length (kn_memory k0) div 4096" using k0(3,4) unfolding len by simp_all
  obtain k1 q where k1: "create_process k0 = (Inr 0, k1)" "kn_processes k1 = [q]" "pr_id q = 1" "pr_state q = PROCESS_RUNNING"
    "pr_threads q = []" "pages_used (17 + min 16 (length (kn_memory k0) div 4096 - 17)) k1" "length (kn_memory k1) = length (kn_memory k0)" "kn_booted k1"
    "kn_next_process_id k1 = 2" "kn_scheduler k1 = kn_scheduler k0" "kn_next_thread k1 = 0" "kn_next_thread_id k1 = 1"
    by (rule new_process_run [OF u0, where parent = 0]) (use k0 in \<open>simp_all add: create_process_def booted_def PROCESS_ID_INVALID_VALUE_def\<close>)
  have r1: "kernel_reachable k1" using kernel_reachable.step [OF r0 ks_create_process] k1(1) by simp
  obtain t where t: "ThreadContext 1 0x70000000 0x4000 = Inr t"
    by (simp add: ThreadContext_def checked_stack_top_def sbind_def thread_id_is_valid_def is_page_aligned_4k aligned4k_def
        is_valid_stack_size_def)
  then have alive: "th_state t = READY" by (rule ThreadContext_ready)
  have empty: "kn_current k1 = None" "rr_ready (kn_scheduler k1) = []" using k0(6) k1(10) by (simp_all add: rr_empty_def)
  let ?s2 = "\<lparr>rr_threads = (kn_threads k1)(0 := t), rr_ready = [0], rr_current = None\<rparr>"
  let ?q = "q\<lparr>pr_threads := [0]\<rparr>"
  let ?k2 = "k1\<lparr>kn_next_thread_id := 2, kn_scheduler := ?s2, kn_next_thread := 1, kn_processes := [?q]\<rparr>"
  have "(kn_threads k1)(0 := t\<lparr>th_state := READY\<rparr>) = (kn_threads k1)(0 := t)" using alive by (simp flip: alive)
  then have c2: "create_thread_at 0 0x70000000 0x4000 k1 = (Inr 0, ?k2)"
    using k1 t alive empty
    by (simp add: create_thread_at_def op_simps require_booted_def take_thread_id_def process_create_thread_def contains_thread_id_def
        Let_def on_scheduler_def focus_def rr_enqueue_def rr_enqueue_ready_def is_alive_def rr_contains_def put_state_def set_state_def)
  have r2: "kernel_reachable ?k2"
    using kernel_reachable.step [OF r1 ks_create_thread [where i = 0 and bottom = "0x70000000" and size_bytes = "0x4000"]] c2 k1(2) by simp
  let ?s3 = "\<lparr>rr_threads = (kn_threads k1)(0 := t\<lparr>th_state := RUNNING\<rparr>), rr_ready = [], rr_current = Some 0\<rparr>"
  let ?k3 = "?k2\<lparr>kn_scheduler := ?s3\<rparr>"
  have c3: "rr_call rr_schedule_next ?k2 = (Inr (Some 0), ?k3)"
    using alive by (simp add: rr_call_run rr_schedule_next_def is_runnable_def put_state_def set_state_def)
  have r3: "kernel_reachable ?k3" using kernel_reachable.step [OF r2 ks_schedule] c3 by simp
  have u3: "pages_used 33 ?k3" "33 < length (kn_memory ?k3) div 4096" using k1(6,7) k0(4) unfolding len pages_used_def by simp_all
  obtain k4 c where k4: "create_process_with_parent 1 ?k3 = (Inr 1, k4)" "kn_processes k4 = [?q, c]" "pr_id c = 2" "pr_parent c = 1"
    "pr_state c = PROCESS_RUNNING" "kn_booted k4" "kn_scheduler k4 = ?s3"
    by (rule new_process_run [OF u3, where parent = 1]) (use k1 in simp_all)
  obtain c' k5 where k5: "fork_process_cow 0 [] ?k3 = (Inr 1, k5)" "kn_processes k5 = [?q, c']" "pr_id c' = 2" "pr_parent c' = 1"
    "pr_state c' = PROCESS_RUNNING" "kn_booted k5" "kn_scheduler k5 = ?s3"
    using k4 k1(3,8) by (simp add: fork_process_cow_def op_simps require_booted_def share_pages_def sbind_def)
  have "kernel_reachable k5" using kernel_reachable.step [OF r3 ks_fork [where i = 0 and pages = "[]"]] k5(1) by simp
  moreover have "sample_session blank terminal = k5" using k0(1) k1(1) c2 c3 k5(1) by (simp add: sample_session_def)
  ultimately show thesis using k5 k1(3) by (intro that [of ?q c']) simp_all
qed

theorem kernel_threads_in_one_place_witness:
  "\<forall>blank terminal. let k = sample_session blank terminal in
     kn_current k = Some 0 \<and> th_state (kn_threads k 0) = RUNNING \<and> 0 \<notin> set (rr_ready (kn_scheduler k)) \<and> 0 \<notin> set (waiting k)"
proof (intro allI)
  fix blank terminal
  obtain q c where r: "kernel_reachable (sample_session blank terminal)" "kn_current (sample_session blank terminal) = Some 0"
    by (rule sample_session_facts)
  note T = kernel_threads_in_one_place [OF r(1), unfolded Let_def]
  have run: "0 < kn_next_thread (sample_session blank terminal)" "th_state (kn_threads (sample_session blank terminal) 0) = RUNNING"
    using conjunct2 [OF conjunct2 [OF T]] r(2) by blast+
  from conjunct1 [OF T, rule_format, OF run(1)] run(2) r(2) show "let k = sample_session blank terminal in
     kn_current k = Some 0 \<and> th_state (kn_threads k 0) = RUNNING \<and> 0 \<notin> set (rr_ready (kn_scheduler k)) \<and> 0 \<notin> set (waiting k)"
    unfolding Let_def by simp
qed

text \<open>
  C0: Exit and wait. When a running process exits the operation returns normally; its threads are dead, every live thread
  that was waiting for it is back in the scheduler, and its parent's next wait for it returns the exit code. The process
  is then reaped: any further wait reports that there is no such child, and the exit code cannot be read twice.
\<close>

theorem exit_then_wait_once:
  assumes "kernel_reachable k" and "kn_booted k" and "find_process_by_id c k = Some i"
    and "pr_state (kn_processes k ! i) = PROCESS_RUNNING" and "pr_parent (kn_processes k ! i) = pr_id (kn_processes k ! j)"
  shows "\<exists>k1 k2. exit_process i code k = (Inr (), k1)
     \<and> (\<forall>t \<in> set (pr_threads (kn_processes k ! i)). th_state (kn_threads k1 t) = DEAD)
     \<and> (\<forall>e \<in> set (kn_wait_entries k). we_child e = c \<longrightarrow>
          (\<forall>t \<in> set (we_queue e). alive (kn_threads k1) t \<longrightarrow> kn_current k1 = Some t \<or> t \<in> set (rr_ready (kn_scheduler k1))))
     \<and> wait_process j p c k1 = (Inr (Wait_exited c code), k2)
     \<and> wait_process j q c k2 = (Inr (No_child c), k2)"
proof -
  have inv: "kernel_inv k" by (rule kernel_reachable_inv [OF assms(1)])
  have i: "i < length (kn_processes k)" "pr_id (kn_processes k ! i) = c" using assms(3) by (auto simp: find_process_by_id_def find_Some_iff)
  obtain k1 where k1: "exit_process i code k = (Inr (), k1)" "kernel_inv k1"
    "kn_processes k1 = (kn_processes k)[i := (kn_processes k ! i)\<lparr>pr_state := PROCESS_EXITED, pr_exit_code := code\<rparr>]"
    "\<forall>t \<in> set (pr_threads (kn_processes k ! i)). \<not> alive (kn_threads k1) t"
    "mset (waiting k1) + mset (concat (map we_queue (filter (\<lambda>e. we_child e = c) (kn_wait_entries k)))) = mset (waiting k)"
    "kn_next_thread k1 = kn_next_thread k" "kn_booted k1" "stay_dead (kn_threads k) (kn_threads k1)"
    by (rule exit_process_run [OF inv i(1) assms(2,4), where code = code, unfolded i(2)])
  have woken: "kn_current k1 = Some t \<or> t \<in> set (rr_ready (kn_scheduler k1))"
    if e: "e \<in> set (kn_wait_entries k)" "we_child e = c" and t: "t \<in> set (we_queue e)" "alive (kn_threads k1) t" for e t
  proof -
    note F = kernel_invD(1) [OF inv, unfolded flow_ok_def] and F1 = kernel_invD(1) [OF k1(2), unfolded flow_ok_def]
    have live: "states (kn_threads k) t \<noteq> DEAD" "states (kn_threads k1) t \<noteq> DEAD" using t(2) k1(8) by (auto simp: stay_dead_def alive_states)
    have mem: "t \<in># mset (concat (map we_queue (filter (\<lambda>e. we_child e = c) (kn_wait_entries k))))" using e t(1) by auto
    then have W: "t \<in># mset (waiting k)" unfolding k1(5) [symmetric] by simp
    have "count (mset (waiting k)) t = 1" using flow_unique(3) [OF F live(1) W] by blast
    moreover have "0 < count (mset (concat (map we_queue (filter (\<lambda>e. we_child e = c) (kn_wait_entries k))))) t"
      using mem by (simp only: count_greater_zero_iff)
    ultimately have "count (mset (waiting k1)) t = 0" using arg_cong [OF k1(5), of "\<lambda>m. count m t"]
      unfolding count_union by linarith
    then have "t \<notin> set (waiting k1)" by (metis count_eq_zero_iff set_mset_mset)
    have "t < kn_next_thread k1" unfolding k1(6) by (rule flowD(4) [OF F W])
    then show ?thesis using count_mset_distinct_places [OF F1 _ live(2)] \<open>t \<notin> set (waiting k1)\<close> unfolding member_current
      by (metis count_list_0_iff zero_neq_one)
  qed
  have find1: "find_process_by_id c k1 = Some i"
    using find_process_update [OF k1(3), of c] assms(3) by simp
  let ?k2 = "k1\<lparr>kn_processes := (kn_processes k1)[i := (kn_processes k1 ! i)\<lparr>pr_state := PROCESS_REAPED\<rparr>]\<rparr>"
  have parent: "pr_id (kn_processes k1 ! j) = pr_id (kn_processes k ! j)" unfolding k1(3) by (cases "j = i") (use i(1) in auto)
  have none: "\<not> child_running k1 c" using find1 k1(3) i(1) by (simp add: child_running_def)
  have w1: "wait_process j p c k1 = (Inr (Wait_exited c code), ?k2)"
    using find1 k1(3,7) i(1) assms(5) parent entries_ok_remove [OF kernel_invD(3) [OF k1(2)] none]
    by (simp add: wait_process_def op_simps require_booted_def Let_def on_process_def mark_reaped_def
          remove_process_wait_entries_for_child_def)
  have "find_process_by_id c ?k2 = Some i"
    using find_process_update [of ?k2 k1 i "(kn_processes k1 ! i)\<lparr>pr_state := PROCESS_REAPED\<rparr>" c] find1 by simp
  then have w2: "wait_process j q c ?k2 = (Inr (No_child c), ?k2)"
    using k1(3,7) i(1) by (simp add: wait_process_def op_simps require_booted_def Let_def)
  have "\<forall>t \<in> set (pr_threads (kn_processes k ! i)). th_state (kn_threads k1 t) = DEAD" using k1(4) by (simp add: is_alive_def)
  with k1(1) woken w1 w2 show ?thesis by blast
qed

theorem exit_then_wait_once_witness:
  "\<forall>blank terminal. let k = sample_session blank terminal in
     \<exists>k1 k2. exit_process 1 42 k = (Inr (), k1) \<and> wait_process 0 0 2 k1 = (Inr (Wait_exited 2 42), k2)
       \<and> wait_process 0 0 2 k2 = (Inr (No_child 2), k2)"
proof (intro allI)
  fix blank terminal
  let ?k = "sample_session blank terminal"
  obtain q c where f: "kernel_reachable ?k" "kn_booted ?k" "kn_processes ?k = [q, c]" "pr_id q = 1" "pr_id c = 2" "pr_parent c = 1"
    "pr_state c = PROCESS_RUNNING" by (rule sample_session_facts)
  have "find_process_by_id 2 ?k = Some 1" using f(3-5) by (simp add: find_process_by_id_def)
  from exit_then_wait_once [OF f(1,2) this, of 0 42 0 0] f(3-7)
  show "let k = sample_session blank terminal in
     \<exists>k1 k2. exit_process 1 42 k = (Inr (), k1) \<and> wait_process 0 0 2 k1 = (Inr (Wait_exited 2 42), k2)
       \<and> wait_process 0 0 2 k2 = (Inr (No_child 2), k2)" unfolding Let_def by auto
qed

end
