(* ===== verification/Spec2Isabelle.thy ===== *)
theory Spec2Isabelle
  imports PageFault Mmu Cow Smp Futex ImageRun KernelBoot
begin

text \<open>
  MNOS is an x86-64 processor emulator together with a small teaching operating system that runs on it.
  This development models the sources under \<^verbatim>\<open>src/src\<close> and \<^verbatim>\<open>src/include/mnos\<close> as HOL functions
  and proves them correct. Paths below are relative to \<^verbatim>\<open>src/src\<close>.

  \<^bold>\<open>The parts and how they interact.\<close> Physical memory is a byte vector. Page tables live in it: the
  operating system builds them (\<^verbatim>\<open>AddressSpace\<close> over \<^verbatim>\<open>PageTableBuilder\<close>), the processor walks them
  (\<^verbatim>\<open>PageTableWalker\<close>, cached by the \<^verbatim>\<open>Tlb\<close> inside the \<^verbatim>\<open>MemoryManagementUnit\<close>). The decoder turns bytes
  into instructions; the executor runs them against the processor state and the MMU; a page fault becomes a
  trap through the trap controller; the page fault handler and the copy-on-write manager repair the
  tables with frames of the physical page allocator. Threads are run by the schedulers and wait in sleep
  queues, wait queues, events and futexes.

  \<^bold>\<open>Style.\<close> A C++ object is a record (or a list, or a map), a method is a function on that record. A method
  that may throw is an \<open>op\<close> of theory Prelude: it returns the exception or the result together with the
  state, also when it throws, because C++ keeps the writes made before a throw. Integers have the width of
  the source. Exceptions keep their class and lose their message. Arguments whose evaluation order C++
  leaves open are evaluated from left to right; in the sources at most one of them has an effect.

  \<^bold>\<open>Theories.\<close>
  \<^item> Prelude: machine integers, exceptions, the \<open>op\<close> combinators, generic facts.
  \<^item> PhysMem: \<^verbatim>\<open>cpu/memory/physical_memory.cpp\<close>, \<^verbatim>\<open>memory_bus.cpp\<close>, \<^verbatim>\<open>cpu/common/data_size.cpp\<close>. A write is
    read back and leaves every other byte alone; locale \<open>word_store\<close>.
  \<^item> Paging, PageWalk: \<^verbatim>\<open>paging.cpp\<close>, \<^verbatim>\<open>page_table_walker.cpp\<close>. The walker refines an abstract description
    of the tables and changes accessed and dirty bits only.
  \<^item> PageBuild: \<^verbatim>\<open>page_table_builder.cpp\<close>. Mapping a page changes that page's translation and no other, on
    success and on every throw; it succeeds when there is room.
  \<^item> Tlb, Mmu: \<^verbatim>\<open>tlb.cpp\<close>, \<^verbatim>\<open>mmu.cpp\<close>. The cached translation agrees with the uncached walk (locale
    \<open>translation_cache\<close>); reads and writes, also those that straddle two pages, touch the translated bytes.
  \<^item> PageAlloc: \<^verbatim>\<open>os/mm/page.cpp\<close>, \<^verbatim>\<open>physical_page_allocator.cpp\<close>. Exact accounting, first fit, distinct
    frames (locale \<open>frame_source\<close>).
  \<^item> AddrSpace: \<^verbatim>\<open>address_layout.cpp\<close>, \<^verbatim>\<open>address_space.cpp\<close>. Ranges, permissions, isolation of address
    spaces, and a table that a failing \<^verbatim>\<open>map_page\<close> loses.
  \<^item> PageFault, Cow: \<^verbatim>\<open>page_fault_handler.cpp\<close>, \<^verbatim>\<open>os/proc/copy_on_write.cpp\<close>. Demand paging on every branch;
    sharing keeps the reference counts exact (locale \<open>ref_counts\<close>) and the shared frames read-only.
  \<^item> CpuState, Trap: \<^verbatim>\<open>cpu/execution/cpu_state.cpp\<close>, \<^verbatim>\<open>cpu/flags\<close>, \<^verbatim>\<open>cpu/register\<close>, \<^verbatim>\<open>cpu/system\<close>. Traps and system
    calls return to the state that they interrupted.
  \<^item> Instr, Exec, ExecProps: \<^verbatim>\<open>cpu/instruction\<close>, \<^verbatim>\<open>cpu/execution/executor.cpp\<close>, \<^verbatim>\<open>program.cpp\<close>, \<^verbatim>\<open>trace.cpp\<close>. The
    flags mean what the conditions say, page faults are precise, and the two instructions for which they
    are not.
  \<^item> Decode, DecodeProps, ImageRun: \<^verbatim>\<open>cpu/decode\<close>. The decoder stays inside the image, throws one exception only,
    and returns well-formed instructions, which the executor never refuses; bounded runs.
  \<^item> Sched, Smp, Futex: \<^verbatim>\<open>os/sched\<close>, \<^verbatim>\<open>os/proc/futex.cpp\<close>. Invariants of reachable scheduler states, fairness,
    balance of the cores, and the queues as scanned queues (locale \<open>scanned_queue\<close>).

  \<^bold>\<open>Bounds.\<close> No fuel is used: loops are recursive functions with a termination proof. \<^verbatim>\<open>run_with_memory\<close> takes
  the step bound that the source takes. The \<^verbatim>\<open>COUNT\<close> sentinels of the enumerations are values of the model
  only where the source tests for them. The performance model attached to the MMU and the executor is the
  list of the events it is told, thread pointers are addresses of a shared store of threads.

  \<^bold>\<open>Not modelled.\<close> The file systems, the block layer, the kernel glue, the shell and the terminals, the caches
  and counters of the performance model, and the host front ends.
\<close>

end
